(* ===== verification/Prelude.thy ===== *)
theory Prelude
  imports Main "HOL-Library.Word"
begin

text \<open>
  Shared vocabulary of the development: the machine integer types of \<^verbatim>\<open>src/src/sys/types.h\<close>,
  byte buffers, checked reads, sequencing of fallible steps, and the generic lemmas on bit masks,
  words and lists that the component theories use.

  Conventions.  An array is a list, a pointer into a buffer is an offset into its list, and an
  encoder that fills a caller's buffer from its first byte returns the list of bytes written (the
  C return value is the length of that list).  Lengths and indices that the code keeps in u16 or u32
  variables and only ever compares, increments below a bound or uses as an index are \<open>nat\<close>; values
  whose width matters (bytes, packet identifiers, hashes, generations, reference counts, CQE user
  data) are words, and narrowing casts are written out.
\<close>

unbundle bit_operations_syntax

type_synonym u8 = "8 word"
type_synonym u16 = "16 word"
type_synonym u32 = "32 word"
type_synonym u64 = "64 word"
type_synonym bytes = "u8 list"

named_theorems buf_simps \<open>facts on reads from byte buffers\<close>
named_theorems bit_rules \<open>bit masks and shifts as arithmetic\<close>

section \<open>Fallible steps\<close>

text \<open>
  Return codes are sums: the error on the left.  \<open>OUT_OF_BOUNDS\<close> is not a return code of the
  source; it is the value the model gives to a read outside the buffer, which is undefined in C.
\<close>

definition ebind :: "'e + 'a \<Rightarrow> ('a \<Rightarrow> 'e + 'b) \<Rightarrow> 'e + 'b" where
  "ebind r f = (case r of Inl e \<Rightarrow> Inl e | Inr x \<Rightarrow> f x)"

lemma ebind_simps [simp]:
  "ebind (Inl e) f = Inl e"
  "ebind (Inr x) f = f x"
  by (simp_all add: ebind_def)

lemma ebind_Inr_iff: "ebind r f = Inr y \<longleftrightarrow> (\<exists>x. r = Inr x \<and> f x = Inr y)"
  by (cases r) auto

lemma ebind_Inl_iff: "ebind r f = Inl e \<longleftrightarrow> r = Inl e \<or> (\<exists>x. r = Inr x \<and> f x = Inl e)"
  by (cases r) auto

section \<open>Masks and shifts\<close>

lemma nat_and_mask [bit_rules]: "(x::nat) AND (2 ^ k - 1) = x mod 2 ^ k"
  by (simp add: take_bit_eq_mod [symmetric] take_bit_eq_mask mask_eq_exp_minus_1)

lemma word_and_7F: "x AND 0x7F = take_bit 7 (x :: 'a::len word)"
  by (simp add: take_bit_eq_mask mask_eq_exp_minus_1)

lemma word_and_FF: "x AND 0xFF = take_bit 8 (x :: 'a::len word)"
  by (simp add: take_bit_eq_mask mask_eq_exp_minus_1)

lemma word_and_0F: "x AND 0x0F = take_bit 4 (x :: 'a::len word)"
  by (simp add: take_bit_eq_mask mask_eq_exp_minus_1)

lemma unat_take_bit: "unat (take_bit n (x :: 'a::len word)) = unat x mod 2 ^ n"
  by (simp only: unsigned_take_bit_eq) (simp add: take_bit_eq_mod)

lemma unat_drop_bit: "unat (drop_bit n (x :: 'a::len word)) = unat x div 2 ^ n"
  by (simp only: unat_drop_bit_eq) (simp add: drop_bit_eq_div)

lemma unat_ucast_mod: "unat (ucast (x :: 'a::len word) :: 'b::len word) = unat x mod 2 ^ LENGTH('b)"
  by (simp only: unsigned_ucast_eq take_bit_eq_mod)

lemma unat_of_nat_mod: "unat (of_nat n :: 'a::len word) = n mod 2 ^ LENGTH('a)"
  by (simp only: unsigned_of_nat take_bit_eq_mod) simp

lemma unat_2_power: "k < LENGTH('a) \<Longrightarrow> unat ((2 :: 'a::len word) ^ k) = 2 ^ k"
  using unat_of_nat_mod [where n = "2 ^ k" and 'a = 'a] by simp

lemma unat_lt_u8 [simp]: "unat (x :: u8) < 256"
proof -
  have "unat x < 2 ^ LENGTH(8)" by (rule unsigned_less)
  then show ?thesis by simp
qed

lemma unat_lt_u16 [simp]: "unat (x :: u16) < 65536"
proof -
  have "unat x < 2 ^ LENGTH(16)" by (rule unsigned_less)
  then show ?thesis by simp
qed

lemma unat_lt_u32: "unat (x :: u32) < 4294967296"
proof -
  have "unat x < 2 ^ LENGTH(32)" by (rule unsigned_less)
  then show ?thesis by simp
qed

section \<open>Lists\<close>

lemma take_drop_nth: "i < n \<Longrightarrow> p + n \<le> length xs \<Longrightarrow> take n (drop p xs) ! i = xs ! (p + i)"
  by simp

lemma list_all_update: "list_all P xs \<Longrightarrow> P x \<Longrightarrow> list_all P (xs[i := x])"
  by (auto simp: list_all_iff dest!: set_update_subset_insert [THEN subsetD])

lemma nth_append_Cons_length [simp]: "(xs @ y # ys) ! length xs = y"
  by (simp add: nth_append)

section \<open>Byte strings found at an offset of a buffer\<close>

definition at_offset :: "'a list \<Rightarrow> nat \<Rightarrow> 'a list \<Rightarrow> bool" where
  "at_offset buf p xs \<longleftrightarrow> p + length xs \<le> length buf \<and> take (length xs) (drop p buf) = xs"

lemma at_offset_Nil [simp]: "at_offset buf p [] \<longleftrightarrow> p \<le> length buf"
  by (simp add: at_offset_def)

lemma at_offset_Cons [simp]:
  "at_offset buf p (x # xs) \<longleftrightarrow> p < length buf \<and> buf ! p = x \<and> at_offset buf (Suc p) xs"
proof (cases "p < length buf")
  case True
  then have "drop p buf = buf ! p # drop (Suc p) buf" by (simp add: Cons_nth_drop_Suc)
  then show ?thesis by (auto simp: at_offset_def)
qed (simp add: at_offset_def)

lemma at_offset_append [simp]:
  "at_offset buf p (xs @ ys) \<longleftrightarrow> at_offset buf p xs \<and> at_offset buf (p + length xs) ys"
proof (induction xs arbitrary: p)
  case Nil
  then show ?case by (auto simp: at_offset_def)
qed simp

lemma at_offset_bound: "at_offset buf p xs \<Longrightarrow> p + length xs \<le> length buf"
  by (simp add: at_offset_def)

lemma at_offset_take: "at_offset buf p xs \<Longrightarrow> take (length xs) (drop p buf) = xs"
  by (simp add: at_offset_def)

lemma at_offset_embed: "at_offset (pre @ xs @ post) (length pre) xs"
  by (simp add: at_offset_def)

end
