(* ===== verification/Mem_String.thy ===== *)
theory Mem_String
  imports Prelude
begin

text \<open>
  The memory routines the broker brings along, \<^verbatim>\<open>src/src/mem/string.h\<close> (repeated for the linker in
  \<^verbatim>\<open>mem/string.c\<close>), on one memory with two addresses, so that the ranges may overlap.  A step outside
  the memory is a no-op on a write; the theorems are about ranges inside it.
\<close>

section \<open>The loops\<close>

fun memset_loop :: "bytes \<Rightarrow> nat \<Rightarrow> u8 \<Rightarrow> nat \<Rightarrow> bytes" where
  "memset_loop mem p c 0 = mem"
| "memset_loop mem p c (Suc n) = memset_loop (mem[p := c]) (p + 1) c n"

definition memset :: "bytes \<Rightarrow> nat \<Rightarrow> u32 \<Rightarrow> nat \<Rightarrow> bytes" where
  "memset mem dest c n = memset_loop mem dest (ucast c) n"

fun memcpy :: "bytes \<Rightarrow> nat \<Rightarrow> nat \<Rightarrow> nat \<Rightarrow> bytes" where
  "memcpy mem d s 0 = mem"
| "memcpy mem d s (Suc n) = memcpy (mem[d := mem ! s]) (d + 1) (s + 1) n"

text \<open>\<open>while (n--) *--d = *--s\<close>, with the pointers past the end of what is left.\<close>

fun memmove_down :: "bytes \<Rightarrow> nat \<Rightarrow> nat \<Rightarrow> nat \<Rightarrow> bytes" where
  "memmove_down mem d s 0 = mem"
| "memmove_down mem d s (Suc n) = memmove_down (mem[d - 1 := mem ! (s - 1)]) (d - 1) (s - 1) n"

definition memmove :: "bytes \<Rightarrow> nat \<Rightarrow> nat \<Rightarrow> nat \<Rightarrow> bytes" where
  "memmove mem dest src n =
     (if dest < src then memcpy mem dest src n else memmove_down mem (dest + n) (src + n) n)"

text \<open>A string without a terminator runs out of the memory: \<open>None\<close>.\<close>

fun strlen_loop :: "bytes \<Rightarrow> nat \<Rightarrow> nat option" where
  "strlen_loop [] len = None"
| "strlen_loop (c # s) len = (if c \<noteq> 0 then strlen_loop s (len + 1) else Some len)"

definition strlen :: "bytes \<Rightarrow> nat \<Rightarrow> nat option" where
  "strlen mem s = strlen_loop (drop s mem) 0"

fun memcmp :: "bytes \<Rightarrow> nat \<Rightarrow> nat \<Rightarrow> nat \<Rightarrow> int" where
  "memcmp mem p1 p2 0 = 0"
| "memcmp mem p1 p2 (Suc n) =
     (if mem ! p1 \<noteq> mem ! p2 then uint (mem ! p1) - uint (mem ! p2)
      else memcmp mem (p1 + 1) (p2 + 1) n)"

section \<open>What they compute\<close>

lemma memcpy_up:
  assumes "d + n \<le> length mem" "s + n \<le> length mem" "d \<le> s \<or> s + n \<le> d \<or> n = 0"
  shows "length (memcpy mem d s n) = length mem \<and>
    (\<forall>i<length mem. memcpy mem d s n ! i = (if d \<le> i \<and> i < d + n then mem ! (s + (i - d)) else mem ! i))"
  using assms
proof (induction n arbitrary: mem d s)
  case 0
  then show ?case by auto
next
  case (Suc n)
  let ?m = "mem[d := mem ! s]"
  have IH: "length (memcpy ?m (d + 1) (s + 1) n) = length mem \<and>
     (\<forall>i<length mem. memcpy ?m (d + 1) (s + 1) n ! i
        = (if d + 1 \<le> i \<and> i < d + 1 + n then ?m ! (s + 1 + (i - (d + 1))) else ?m ! i))"
    using Suc.IH [of "d + 1" ?m "s + 1"] Suc.prems by auto
  show ?case
  proof (intro conjI allI impI)
    show "length (memcpy mem d s (Suc n)) = length mem" using IH by simp
  next
    fix i
    assume i: "i < length mem"
    consider "i < d" | "i = d" | "d < i" "i \<le> d + n" | "d + n < i" by linarith
    then show "memcpy mem d s (Suc n) ! i
        = (if d \<le> i \<and> i < d + Suc n then mem ! (s + (i - d)) else mem ! i)"
    proof cases
      case 3
      then have "s + 1 + (i - (d + 1)) = s + (i - d)" "s + (i - d) \<noteq> d" using Suc.prems(3) by auto
      with 3 IH i show ?thesis by simp
    qed (use IH i in auto)
  qed
qed

lemma memmove_down_spec:
  assumes "d + n \<le> length mem" "s + n \<le> length mem" "s \<le> d"
  shows "length (memmove_down mem (d + n) (s + n) n) = length mem \<and>
    (\<forall>i<length mem. memmove_down mem (d + n) (s + n) n ! i
       = (if d \<le> i \<and> i < d + n then mem ! (s + (i - d)) else mem ! i))"
  using assms
proof (induction n arbitrary: mem)
  case 0
  then show ?case by auto
next
  case (Suc n)
  let ?m = "mem[d + n := mem ! (s + n)]"
  have IH: "length (memmove_down ?m (d + n) (s + n) n) = length mem \<and>
     (\<forall>i<length mem. memmove_down ?m (d + n) (s + n) n ! i
        = (if d \<le> i \<and> i < d + n then ?m ! (s + (i - d)) else ?m ! i))"
    using Suc.IH [of ?m] Suc.prems by auto
  show ?case
  proof (intro conjI allI impI)
    show "length (memmove_down mem (d + Suc n) (s + Suc n) (Suc n)) = length mem" using IH by simp
  next
    fix i
    assume i: "i < length mem"
    consider "d \<le> i" "i < d + n" | "i = d + n" | "i < d" | "d + n < i" by linarith
    then show "memmove_down mem (d + Suc n) (s + Suc n) (Suc n) ! i
        = (if d \<le> i \<and> i < d + Suc n then mem ! (s + (i - d)) else mem ! i)"
    proof cases
      case 1
      then have "s + (i - d) \<noteq> d + n" using Suc.prems(3) by auto
      with 1 IH i show ?thesis by simp
    qed (use IH i Suc.prems in auto)
  qed
qed

lemma memset_loop_spec:
  "p + n \<le> length mem \<Longrightarrow> length (memset_loop mem p c n) = length mem \<and>
    (\<forall>i<length mem. memset_loop mem p c n ! i = (if p \<le> i \<and> i < p + n then c else mem ! i))"
proof (induction n arbitrary: mem p)
  case (Suc n)
  from Suc.IH [of "p + 1" "mem[p := c]"] Suc.prems show ?case
    by (auto simp: nth_list_update)
qed auto

lemma strlen_loop_spec:
  "strlen_loop s len = Some n \<longleftrightarrow>
     len \<le> n \<and> n - len < length s \<and> s ! (n - len) = 0 \<and> (\<forall>i<n - len. s ! i \<noteq> 0)"
proof (induction s arbitrary: len)
  case (Cons c s)
  show ?case
  proof (cases "n = len")
    case True
    then show ?thesis using Cons [of "len + 1"] by auto
  next
    case False
    then show ?thesis
    proof (cases "n - len")
      case (Suc k)
      then have "n - (len + 1) = k" "len + 1 \<le> n" "len \<le> n" by auto
      with Suc Cons [of "len + 1"] show ?thesis by (auto simp: All_less_Suc2)
    qed (use Cons [of "len + 1"] in auto)
  qed
qed auto

lemma memcmp_0_iff:
  "memcmp mem p1 p2 n = 0 \<longleftrightarrow> (\<forall>i<n. mem ! (p1 + i) = mem ! (p2 + i))"
proof (induction n arbitrary: p1 p2)
  case (Suc n)
  have "uint (mem ! p1) - uint (mem ! p2) = 0 \<longleftrightarrow> mem ! p1 = mem ! p2"
    by (simp add: word_uint_eq_iff)
  with Suc show ?case by (auto simp: All_less_Suc2)
qed simp

text \<open>\<open>memmove\<close> copies correctly whether or not the ranges overlap: afterwards the destination range
  holds what the source range held before the call, and nothing else has changed.\<close>

theorem memmove_correct:
  assumes "dest + n \<le> length mem" "src + n \<le> length mem"
  shows "memmove mem dest src n = take dest mem @ take n (drop src mem) @ drop (dest + n) mem"
proof (rule nth_equalityI)
  have spec: "length (memmove mem dest src n) = length mem \<and> (\<forall>i<length mem. memmove mem dest src n ! i
      = (if dest \<le> i \<and> i < dest + n then mem ! (src + (i - dest)) else mem ! i))"
    using memcpy_up [of dest n mem src] memmove_down_spec [of dest n mem src] assms
    by (auto simp: memmove_def)
  then show "length (memmove mem dest src n) = length (take dest mem @ take n (drop src mem) @ drop (dest + n) mem)"
    using assms by simp
  fix i
  assume "i < length (memmove mem dest src n)"
  with spec assms show "memmove mem dest src n ! i
      = (take dest mem @ take n (drop src mem) @ drop (dest + n) mem) ! i"
    by (auto simp: nth_append)
qed

theorem memmove_correct_witness:
  "memmove [1, 2, 3, 4, 5] 1 0 3 = [1, 1, 2, 3, 5] \<and> memmove [1, 2, 3, 4, 5] 0 1 3 = [2, 3, 4, 4, 5]"
  using memmove_correct [of 1 3 "[1, 2, 3, 4, 5]" 0] memmove_correct [of 0 3 "[1, 2, 3, 4, 5]" 1]
  by (simp add: numeral_eq_Suc)

end
