(* ===== verification/Probing.thy ===== *)
theory Probing
  imports Prelude
begin

text \<open>
  Linear probing, the loop shape shared by the broker's three hash tables (\<^verbatim>\<open>mem/hashmap.h\<close>, the
  child tables of \<^verbatim>\<open>broker/trie.h\<close> and the packet identifier tables of \<^verbatim>\<open>broker/client.h\<close>).  The
  body of a loop is a function that returns \<open>Some r\<close> where the source returns or breaks with \<open>r\<close> and
  \<open>None\<close> where it goes on to \<open>idx = (idx + 1) & mask\<close>.
\<close>

section \<open>Loop shapes\<close>

text \<open>\<open>for (probe = 0; probe < n; probe++) { body; idx = (idx + 1) & mask; }\<close>\<close>

fun probe_for :: "(nat \<Rightarrow> 'r option) \<Rightarrow> nat \<Rightarrow> nat \<Rightarrow> nat \<Rightarrow> 'r option" where
  "probe_for body msk 0 idx = None"
| "probe_for body msk (Suc n) idx =
     (case body idx of Some r \<Rightarrow> Some r | None \<Rightarrow> probe_for body msk n ((idx + 1) AND msk))"

text \<open>
  \<open>do { body; idx = (idx + 1) & mask; } while (idx != start)\<close> with a bound on the iterations:
  \<open>None\<close> when the bound is used up, \<open>Some None\<close> when the loop ends by its condition.
\<close>

fun probe_do :: "(nat \<Rightarrow> 'r option) \<Rightarrow> nat \<Rightarrow> nat \<Rightarrow> nat \<Rightarrow> nat \<Rightarrow> 'r option option" where
  "probe_do body msk start 0 idx = None"
| "probe_do body msk start (Suc n) idx =
     (case body idx of
        Some r \<Rightarrow> Some (Some r)
      | None \<Rightarrow> (let idx' = (idx + 1) AND msk
                in if idx' \<noteq> start then probe_do body msk start n idx' else Some None))"

section \<open>Tables whose size is a power of two\<close>

definition pow2_table :: "nat \<Rightarrow> nat \<Rightarrow> bool" where
  "pow2_table n msk \<longleftrightarrow> (\<exists>k. n = 2 ^ k) \<and> msk = n - 1"

lemma pow2_table_pos: "pow2_table n msk \<Longrightarrow> 0 < n"
  by (auto simp: pow2_table_def)

lemma pow2_table_mask:
  assumes "pow2_table n msk"
  shows "x AND msk = x mod n"
proof -
  from assms obtain k where "n = 2 ^ k" "msk = 2 ^ k - 1" by (auto simp: pow2_table_def)
  then show ?thesis by (simp only: nat_and_mask)
qed

lemma pow2_tableI: "n = 2 ^ k \<Longrightarrow> msk = n - 1 \<Longrightarrow> pow2_table n msk"
  by (auto simp: pow2_table_def)

lemma probe_step: "pow2_table n msk \<Longrightarrow> ((s + t) mod n + 1) AND msk = (s + Suc t) mod n"
  by (simp add: pow2_table_mask mod_simps)

lemma probe_for_None_iff:
  assumes "pow2_table n msk"
  shows "probe_for body msk m ((s + t) mod n) = None \<longleftrightarrow> (\<forall>d<m. body ((s + t + d) mod n) = None)"
proof (induction m arbitrary: t)
  case 0
  then show ?case by simp
next
  case (Suc m)
  have "probe_for body msk (Suc m) ((s + t) mod n) = None \<longleftrightarrow>
          body ((s + t) mod n) = None \<and> probe_for body msk m ((s + Suc t) mod n) = None"
    using probe_step [OF assms, of s t] by (auto split: option.splits)
  also have "\<dots> \<longleftrightarrow> body ((s + t) mod n) = None \<and> (\<forall>d<m. body ((s + t + Suc d) mod n) = None)"
    using Suc [of "Suc t"] by simp
  also have "\<dots> \<longleftrightarrow> (\<forall>d<Suc m. body ((s + t + d) mod n) = None)"
    by (auto simp: less_Suc_eq_0_disj)
  finally show ?case .
qed

lemma probe_for_Some_iff:
  assumes "pow2_table n msk"
  shows "probe_for body msk m ((s + t) mod n) = Some r \<longleftrightarrow>
     (\<exists>d<m. body ((s + t + d) mod n) = Some r \<and> (\<forall>e<d. body ((s + t + e) mod n) = None))"
proof (induction m arbitrary: t)
  case 0
  then show ?case by simp
next
  case (Suc m)
  show ?case
  proof (cases "body ((s + t) mod n)")
    case None
    have "probe_for body msk (Suc m) ((s + t) mod n) = Some r \<longleftrightarrow>
            (\<exists>d<m. body ((s + t + Suc d) mod n) = Some r \<and> (\<forall>e<d. body ((s + t + Suc e) mod n) = None))"
      using probe_step [OF assms, of s t] None Suc [of "Suc t"] by simp
    also have "\<dots> \<longleftrightarrow> (\<exists>d<Suc m. body ((s + t + d) mod n) = Some r \<and> (\<forall>e<d. body ((s + t + e) mod n) = None))"
      using None by (auto simp: Ex_less_Suc2 All_less_Suc2)
    finally show ?thesis .
  next
    case (Some r')
    then show ?thesis by (auto simp: Ex_less_Suc2 All_less_Suc2)
  qed
qed

lemmas probe_for_None = probe_for_None_iff [where t = 0, simplified]
lemmas probe_for_Some = probe_for_Some_iff [where t = 0, simplified]

text \<open>On such a table the \<open>do\<close> loop visits every cell once: it is the \<open>for\<close> loop over the table.\<close>

lemma probe_do_eq:
  assumes "pow2_table n msk" "t < n"
  shows "probe_do body msk (s mod n) (n - t) ((s + t) mod n)
           = Some (probe_for body msk (n - t) ((s + t) mod n))"
  using assms(2)
proof (induction "n - t" arbitrary: t)
  case 0
  then show ?case by simp
next
  case (Suc m)
  then have m: "n - t = Suc m" "m = n - Suc t" by simp_all
  have next_idx: "((s + t) mod n + 1) AND msk = (s + Suc t) mod n"
    by (rule probe_step [OF assms(1)])
  show ?case
  proof (cases "Suc t < n")
    case True
    have "(s + Suc t) mod n \<noteq> s mod n"
    proof
      assume "(s + Suc t) mod n = s mod n"
      then have "n dvd s + Suc t - s" by (intro mod_eq_dvd_iff_nat [THEN iffD1]) auto
      with True show False by (auto dest: dvd_imp_le)
    qed
    with True Suc.hyps(1) [OF m(2)] show ?thesis
      unfolding m(1) by (simp add: next_idx [simplified] Let_def m(2) split: option.splits)
  next
    case False
    with Suc.prems have "Suc t = n" by simp
    then have "(s + Suc t) mod n = s mod n" "m = 0" using m by auto
    then show ?thesis
      unfolding m(1) using next_idx by (simp add: Let_def split: option.splits)
  qed
qed

lemmas probe_do_full = probe_do_eq [where t = 0, simplified]

section \<open>The probing invariant\<close>

text \<open>
  A key whose home is \<open>s\<close> is stored at \<open>j\<close> and every cell on the way from \<open>s\<close> to \<open>j\<close> stops no
  search (\<open>solid\<close>).
\<close>

definition probe_path :: "nat \<Rightarrow> (nat \<Rightarrow> bool) \<Rightarrow> nat \<Rightarrow> nat \<Rightarrow> bool" where
  "probe_path n solid s j \<longleftrightarrow> (\<exists>d<n. j = (s + d) mod n \<and> (\<forall>e<d. solid ((s + e) mod n)))"

lemma probe_path_mono:
  "probe_path n solid s j \<Longrightarrow> (\<And>i. i < n \<Longrightarrow> solid i \<Longrightarrow> solid' i) \<Longrightarrow> probe_path n solid' s j"
  unfolding probe_path_def by (metis (full_types) mod_less_divisor gr_implies_not0 neq0_conv)

lemma probe_reaches:
  fixes n j s :: nat
  assumes "0 < n" "j < n"
  obtains d where "d < n" "j = (s + d) mod n"
proof -
  let ?d = "(j + n - s mod n) mod n"
  have "(s + ?d) mod n = (s mod n + (j + n - s mod n)) mod n"
    by (simp add: mod_simps)
  also have "s mod n + (j + n - s mod n) = j + n"
    using assms mod_less_divisor [of n s] by linarith
  finally have "(s + ?d) mod n = j" using assms by simp
  moreover have "?d < n" using assms by simp
  ultimately show ?thesis using that by metis
qed


text \<open>A search stops at \<open>j\<close> when its home reaches \<open>j\<close> over cells that do not stop it.\<close>

lemma probe_for_Some_path:
  assumes "pow2_table n msk"
  shows "probe_for body msk n (s mod n) = Some r \<longleftrightarrow>
           (\<exists>j<n. probe_path n (\<lambda>i. body i = None) s j \<and> body j = Some r)"
  unfolding probe_for_Some [OF assms] probe_path_def
proof (intro iffI; elim exE conjE)
  fix d
  assume d: "d < n" "body ((s + d) mod n) = Some r" "\<forall>e<d. body ((s + e) mod n) = None"
  then show "\<exists>j<n. (\<exists>d<n. j = (s + d) mod n \<and> (\<forall>e<d. body ((s + e) mod n) = None)) \<and> body j = Some r"
    by (intro exI [of _ "(s + d) mod n"]) auto
qed auto

lemma probe_for_None_all:
  assumes "pow2_table n msk"
  shows "probe_for body msk n (s mod n) = None \<longleftrightarrow> (\<forall>j<n. body j = None)"
proof
  assume a: "probe_for body msk n (s mod n) = None"
  show "\<forall>j<n. body j = None"
  proof (intro allI impI)
    fix j
    assume "j < n"
    with pow2_table_pos [OF assms] obtain d where "d < n" "j = (s + d) mod n"
      by (elim probe_reaches)
    with a show "body j = None" by (simp add: probe_for_None [OF assms])
  qed
next
  assume "\<forall>j<n. body j = None"
  with pow2_table_pos [OF assms] show "probe_for body msk n (s mod n) = None"
    by (simp add: probe_for_None [OF assms])
qed

lemma probe_first_stop:
  assumes "probe_path n solid s j" "body j \<noteq> None"
  obtains i where "i < n" "probe_path n (\<lambda>k. body k = None) s i" "body i \<noteq> None" "i = j \<or> solid i"
proof -
  from assms(1) obtain d where d: "d < n" "j = (s + d) mod n" "\<forall>e<d. solid ((s + e) mod n)"
    by (auto simp: probe_path_def)
  define e where "e = (LEAST e. body ((s + e) mod n) \<noteq> None)"
  have e: "body ((s + e) mod n) \<noteq> None" "e \<le> d"
    unfolding e_def using assms(2) d(2) by (auto intro: LeastI Least_le)
  have "probe_path n (\<lambda>k. body k = None) s ((s + e) mod n)"
    unfolding probe_path_def using e(2) d(1) not_less_Least [folded e_def, of _]
    by (intro exI [of _ e]) (auto simp: e_def dest: not_less_Least)
  moreover have "(s + e) mod n = j \<or> solid ((s + e) mod n)"
    using e(2) d(2,3) by (cases "e = d") auto
  ultimately show ?thesis using that [of "(s + e) mod n"] e(1) d(1) by simp
qed

text \<open>
  Both forms of the search of a whole table find a stop on the way to a key that is there.
\<close>

lemma probe_for_hit:
  assumes "pow2_table n msk" "probe_path n solid s j" "body j \<noteq> None"
  obtains i where "i < n" "probe_for body msk n (s mod n) = body i" "body i \<noteq> None" "i = j \<or> solid i"
proof -
  from probe_first_stop [where body = body, OF assms(2,3)] obtain i where
    i: "i < n" "probe_path n (\<lambda>k. body k = None) s i" "body i \<noteq> None" "i = j \<or> solid i" .
  from i(3) obtain r where "body i = Some r" by blast
  with i have "probe_for body msk n (s mod n) = body i"
    using probe_for_Some_path [OF assms(1), of body s r] by auto
  with i that show ?thesis by blast
qed

end
