(* ===== verification/Backshift.thy ===== *)
theory Backshift
  imports Probing "HOL-Library.Multiset"
begin

text \<open>
  Deletion by backward shift from a linearly probed table, the inner loop of
  \<^verbatim>\<open>inflight_hash_remove\<close> in \<^verbatim>\<open>src/src/broker/client.h\<close>, for a table of any cell type: \<open>home s\<close> is
  the natural position of the entry \<open>s\<close> and \<open>E\<close> the empty cell.  The proof turns the table so
  that an empty cell comes first; no probe path crosses that cell, so nothing wraps around any more.
\<close>

section \<open>The loop\<close>

definition should_shift :: "nat \<Rightarrow> nat \<Rightarrow> nat \<Rightarrow> bool" where
  "should_shift natural gap j =
     (if j > gap then natural \<le> gap \<or> natural > j else natural \<le> gap \<and> natural > j)"

text \<open>The table and the cell to be emptied when the scan reaches an empty cell.\<close>

fun backshift :: "('s \<Rightarrow> nat) \<Rightarrow> 's \<Rightarrow> nat \<Rightarrow> nat \<Rightarrow> 's list \<Rightarrow> nat \<Rightarrow> nat \<Rightarrow> ('s list \<times> nat) option" where
  "backshift home E msk 0 tab gap j = None"
| "backshift home E msk (Suc fuel) tab gap j =
     (let j = (j + 1) AND msk;
          s = tab ! j
      in if s = E then Some (tab, gap)
         else if should_shift (home s) gap j
         then backshift home E msk fuel (tab[gap := s]) j j
         else backshift home E msk fuel tab gap j)"

section \<open>Turned positions\<close>

definition lin :: "nat \<Rightarrow> nat \<Rightarrow> nat \<Rightarrow> nat" where
  "lin n b x = (x + b) mod n"

definition rel :: "nat \<Rightarrow> nat \<Rightarrow> nat \<Rightarrow> nat" where
  "rel n b k = (k + n - b) mod n"

lemma lin_below [simp]: "b < n \<Longrightarrow> lin n b x < n"
  by (simp add: lin_def)

lemma lin_add: "(lin n b x + e) mod n = lin n b (x + e)"
  using mod_add_left_eq [of "x + b" n e] by (simp add: lin_def ac_simps)

lemma lin_cases: "x < n \<Longrightarrow> b < n \<Longrightarrow> lin n b x = (if x + b < n then x + b else x + b - n)"
  by (auto simp: lin_def mod_if)

lemma rel_cases: "k < n \<Longrightarrow> b < n \<Longrightarrow> rel n b k = (if b \<le> k then k - b else k + n - b)"
  by (auto simp: rel_def mod_if)

lemma rel_below: "k < n \<Longrightarrow> b < n \<Longrightarrow> rel n b k < n"
  by (auto simp: rel_cases)

lemma lin_rel: "k < n \<Longrightarrow> b < n \<Longrightarrow> lin n b (rel n b k) = k"
  by (auto simp: rel_cases lin_def mod_if)

lemma rel_lin: "x < n \<Longrightarrow> b < n \<Longrightarrow> rel n b (lin n b x) = x"
  by (auto simp: rel_cases lin_cases)

lemma lin_0: "b < n \<Longrightarrow> lin n b 0 = b"
  by (simp add: lin_def)

lemma lin_inj: "x < n \<Longrightarrow> y < n \<Longrightarrow> b < n \<Longrightarrow> lin n b x = lin n b y \<longleftrightarrow> x = y"
  by (metis rel_lin)

lemma lin_Suc: "pow2_table n msk \<Longrightarrow> (lin n b x + 1) AND msk = lin n b (Suc x)"
  unfolding lin_def using probe_step [of n msk b x] by (simp add: add.commute)

lemma should_shift_lin:
  assumes "b < n" "0 < g" "g < x" "x < n" "h < n" "0 < h" "h \<le> x"
  shows "should_shift (lin n b h) (lin n b g) (lin n b x) \<longleftrightarrow> h \<le> g"
  using assms by (auto simp: should_shift_def lin_cases split: if_splits)

lemma probe_path_lin:
  assumes "b < n" "s < n" "k < n" "\<not> solid b" "k \<noteq> b"
  shows "probe_path n solid s k \<longleftrightarrow>
           0 < rel n b s \<and> rel n b s \<le> rel n b k \<and> (\<forall>y. rel n b s \<le> y \<and> y < rel n b k \<longrightarrow> solid (lin n b y))"
    (is "?l \<longleftrightarrow> ?r")
proof
  let ?x = "rel n b s"
  have s: "s = lin n b ?x" "?x < n" using assms by (simp_all add: lin_rel rel_below)
  assume ?l
  then obtain d where d: "d < n" "k = (s + d) mod n" "\<forall>e<d. solid ((s + e) mod n)"
    by (auto simp: probe_path_def)
  have step: "(s + e) mod n = lin n b (?x + e)" for e
    using lin_add [of n b ?x e] unfolding s(1) [symmetric] .
  have "d \<noteq> 0 \<or> s \<noteq> b" using d(2) assms(1,5) by auto
  then have "s \<noteq> b" using d(3) [rule_format, of 0] assms(2,4) by auto
  then have pos: "0 < ?x" using assms(1,2) by (auto simp: rel_cases)
  have "?x + d < n"
  proof (rule ccontr)
    assume "\<not> ?x + d < n"
    then have le: "n - ?x \<le> d" by simp
    have "(s + (n - ?x)) mod n = b" using step [of "n - ?x"] s(2) assms(1) by (simp add: lin_def)
    then show False
      using d(2) d(3) [rule_format, of "n - ?x"] assms(4,5) le by (cases "n - ?x = d") auto
  qed
  moreover from this have "rel n b k = ?x + d"
    using d(2) step [of d] rel_lin [OF _ assms(1), of "?x + d"] by simp
  moreover have "solid (lin n b y)" if "?x \<le> y" "y < ?x + d" for y
    using d(3) step [of "y - ?x"] that by (auto dest: spec [of _ "y - ?x"])
  ultimately show ?r using pos by simp
next
  let ?x = "rel n b s" and ?d = "rel n b k - rel n b s"
  assume r: ?r
  have s: "s = lin n b ?x" using assms by (simp add: lin_rel)
  have step: "(s + e) mod n = lin n b (?x + e)" for e
    using lin_add [of n b ?x e] unfolding s [symmetric] .
  have "?d < n" using rel_below [OF assms(3,1)] by simp
  moreover have "k = (s + ?d) mod n" using r step [of ?d] lin_rel [OF assms(3,1)] by simp
  moreover have "solid ((s + e) mod n)" if "e < ?d" for e
    using r that unfolding step by auto
  ultimately show ?l unfolding probe_path_def by blast
qed

section \<open>The table as a chain of probe paths\<close>

definition chain_ok :: "('s \<Rightarrow> nat) \<Rightarrow> 's \<Rightarrow> 's list \<Rightarrow> bool" where
  "chain_ok home E tab \<longleftrightarrow> (\<forall>k < length tab. tab ! k \<noteq> E \<longrightarrow>
     probe_path (length tab) (\<lambda>i. tab ! i \<noteq> E) (home (tab ! k)) k)"

definition live_cells :: "'s \<Rightarrow> 's list \<Rightarrow> 's multiset" where
  "live_cells E tab = filter_mset (\<lambda>s. s \<noteq> E) (mset tab)"

text \<open>
  Turned by \<open>b\<close>: the entries at \<open>x\<close> have their home at or before \<open>x\<close>, and the cells between are
  solid, but for the gap \<open>g\<close>, which only entries from \<open>j\<close> on may have on their way.
\<close>

definition lin_chain :: "('s \<Rightarrow> nat) \<Rightarrow> 's \<Rightarrow> nat \<Rightarrow> nat \<Rightarrow> nat \<Rightarrow> 's list \<Rightarrow> bool" where
  "lin_chain home E b g j tab \<longleftrightarrow> (let n = length tab; cell = (\<lambda>x. tab ! lin n b x) in
     \<forall>x<n. x \<noteq> g \<and> cell x \<noteq> E \<longrightarrow>
       0 < rel n b (home (cell x)) \<and> rel n b (home (cell x)) \<le> x
       \<and> (\<forall>y. rel n b (home (cell x)) \<le> y \<and> y < x \<longrightarrow> (y = g \<and> j \<le> x) \<or> (y \<noteq> g \<and> cell y \<noteq> E)))"

lemma lin_chainD:
  assumes "lin_chain home E b g j tab" "n = length tab" "x < n" "x \<noteq> g" "tab ! lin n b x \<noteq> E"
  shows "0 < rel n b (home (tab ! lin n b x))" "rel n b (home (tab ! lin n b x)) \<le> x"
    "rel n b (home (tab ! lin n b x)) \<le> y \<Longrightarrow> y < x \<Longrightarrow> (y = g \<and> j \<le> x) \<or> (y \<noteq> g \<and> tab ! lin n b y \<noteq> E)"
  using assms by (simp_all add: lin_chain_def Let_def)

lemma lin_chainI:
  assumes "n = length tab"
    and "\<And>x. x < n \<Longrightarrow> x \<noteq> g \<Longrightarrow> tab ! lin n b x \<noteq> E \<Longrightarrow> 0 < rel n b (home (tab ! lin n b x))"
    and "\<And>x. x < n \<Longrightarrow> x \<noteq> g \<Longrightarrow> tab ! lin n b x \<noteq> E \<Longrightarrow> rel n b (home (tab ! lin n b x)) \<le> x"
    and "\<And>x y. x < n \<Longrightarrow> x \<noteq> g \<Longrightarrow> tab ! lin n b x \<noteq> E \<Longrightarrow> rel n b (home (tab ! lin n b x)) \<le> y \<Longrightarrow>
           y < x \<Longrightarrow> (y = g \<and> j \<le> x) \<or> (y \<noteq> g \<and> tab ! lin n b y \<noteq> E)"
  shows "lin_chain home E b g j tab"
  using assms by (simp add: lin_chain_def Let_def)

text \<open>Before the scan: the entry at the gap is out, and every later entry may have crossed it.\<close>

lemma chain_to_lin:
  assumes ok: "chain_ok home E tab" and home: "\<And>s. s \<in> set tab \<Longrightarrow> s \<noteq> E \<Longrightarrow> home s < length tab"
    and b: "b < length tab" "tab ! b = E" and g: "0 < g" "g < length tab"
  shows "lin_chain home E b g (Suc g) tab"
proof (rule lin_chainI [OF refl])
  let ?n = "length tab"
  fix x
  assume x: "x < ?n" "x \<noteq> g" "tab ! lin ?n b x \<noteq> E"
  let ?k = "lin ?n b x"
  have k: "?k < ?n" "?k \<noteq> b" using x b by auto
  have "probe_path ?n (\<lambda>i. tab ! i \<noteq> E) (home (tab ! ?k)) ?k"
    using ok x k by (simp add: chain_ok_def)
  then have p: "0 < rel ?n b (home (tab ! ?k)) \<and> rel ?n b (home (tab ! ?k)) \<le> rel ?n b ?k
      \<and> (\<forall>y. rel ?n b (home (tab ! ?k)) \<le> y \<and> y < rel ?n b ?k \<longrightarrow> tab ! lin ?n b y \<noteq> E)"
    using probe_path_lin [of b ?n "home (tab ! ?k)" ?k "\<lambda>i. tab ! i \<noteq> E"] home [of "tab ! ?k"] x b k
    by (simp add: Let_def)
  then show "0 < rel ?n b (home (tab ! ?k))" "rel ?n b (home (tab ! ?k)) \<le> x"
    using rel_lin [OF x(1) b(1)] by simp_all
  show "(y = g \<and> Suc g \<le> x) \<or> (y \<noteq> g \<and> tab ! lin ?n b y \<noteq> E)"
    if "rel ?n b (home (tab ! ?k)) \<le> y" "y < x" for y
    using p that rel_lin [OF x(1) b(1)] by auto
qed

text \<open>After the scan: no entry has crossed the gap.\<close>

lemma lin_to_chain:
  assumes ok: "lin_chain home E b g (length tab) tab"
    and home: "\<And>s. s \<in> set tab \<Longrightarrow> s \<noteq> E \<Longrightarrow> home s < length tab"
    and b: "b < length tab" "tab ! b = E" and g: "0 < g" "g < length tab"
  shows "chain_ok home E (tab[lin (length tab) b g := E])"
  unfolding chain_ok_def
proof (intro allI impI)
  let ?n = "length tab" and ?t = "tab[lin (length tab) b g := E]"
  fix k
  assume k: "k < length ?t" "?t ! k \<noteq> E"
  let ?x = "rel ?n b k"
  have x: "?x < ?n" "lin ?n b ?x = k" using k b by (simp_all add: rel_below lin_rel)
  have ne: "k \<noteq> lin ?n b g" "tab ! k \<noteq> E" "k \<noteq> b"
    using k b g by (auto simp: nth_list_update split: if_splits)
  then have xg: "?x \<noteq> g" using x by auto
  have hm: "home (tab ! k) < ?n" using home [of "tab ! k"] ne k by simp
  note f = lin_chainD [OF ok refl x(1) xg, unfolded x(2), OF ne(2)]
  have "probe_path ?n (\<lambda>i. ?t ! i \<noteq> E) (home (tab ! k)) k"
  proof (subst probe_path_lin [OF b(1) hm])
    show "\<not> ?t ! b \<noteq> E" using b by (simp add: nth_list_update)
    show "0 < rel ?n b (home (tab ! k)) \<and> rel ?n b (home (tab ! k)) \<le> rel ?n b k \<and>
        (\<forall>y. rel ?n b (home (tab ! k)) \<le> y \<and> y < rel ?n b k \<longrightarrow> ?t ! lin ?n b y \<noteq> E)"
    proof (intro conjI allI impI f(1,2))
      fix y
      assume "rel ?n b (home (tab ! k)) \<le> y \<and> y < rel ?n b k"
      with f(3) [of y] x(1) have y: "y \<noteq> g" "tab ! lin ?n b y \<noteq> E" "y < ?n" by auto
      then have "lin ?n b y \<noteq> lin ?n b g" using g b by (simp add: lin_inj)
      with y show "?t ! lin ?n b y \<noteq> E" by simp
    qed
  qed (use k ne in simp_all)
  then show "probe_path (length ?t) (\<lambda>i. ?t ! i \<noteq> E) (home (?t ! k)) k" using ne by simp
qed


section \<open>The scan\<close>

lemma lin_chain_shift:
  assumes ok: "lin_chain home E b g x tab" and n: "n = length tab"
    and bn: "b < n" and gx: "g < x" "x < n" and s: "tab ! lin n b x \<noteq> E" "rel n b (home (tab ! lin n b x)) \<le> g"
  shows "lin_chain home E b x (Suc x) (tab[lin n b g := tab ! lin n b x])"
proof (rule lin_chainI [where n = n])
  let ?t = "tab[lin n b g := tab ! lin n b x]"
  have at: "?t ! lin n b y = (if y = g then tab ! lin n b x else tab ! lin n b y)" if "y < n" for y
    using that gx bn n by (auto simp: nth_list_update lin_inj)
  show "n = length ?t" using n by simp
  fix y
  assume y: "y < n" "y \<noteq> x" "?t ! lin n b y \<noteq> E"
  note fx = lin_chainD [OF ok n gx(2) _ s(1)]
  show "0 < rel n b (home (?t ! lin n b y))"
    using y at [OF y(1)] fx(1) gx lin_chainD(1) [OF ok n y(1)] by (cases "y = g") auto
  show "rel n b (home (?t ! lin n b y)) \<le> y"
    using y at [OF y(1)] s(2) lin_chainD(2) [OF ok n y(1)] by (cases "y = g") auto
  fix z
  assume z: "rel n b (home (?t ! lin n b y)) \<le> z" "z < y"
  show "(z = x \<and> Suc x \<le> y) \<or> (z \<noteq> x \<and> ?t ! lin n b z \<noteq> E)"
  proof (cases "y = g")
    case True
    then have "(z = g \<and> x \<le> x) \<or> (z \<noteq> g \<and> tab ! lin n b z \<noteq> E)"
      using fx(3) [of z] z gx at [OF y(1)] by auto
    with True z gx y at [of z] show ?thesis by auto
  next
    case False
    then have "(z = g \<and> x \<le> y) \<or> (z \<noteq> g \<and> tab ! lin n b z \<noteq> E)"
      using lin_chainD(3) [OF ok n y(1) False] y z at [OF y(1)] by auto
    with False z y gx s(1) at [of z] show ?thesis by auto
  qed
qed

lemma lin_chain_keep:
  assumes ok: "lin_chain home E b g x tab" and n: "n = length tab"
    and s: "\<not> rel n b (home (tab ! lin n b x)) \<le> g"
  shows "lin_chain home E b g (Suc x) tab"
proof (rule lin_chainI [OF n])
  fix y z
  assume y: "y < n" "y \<noteq> g" "tab ! lin n b y \<noteq> E"
  note f = lin_chainD [OF ok n y]
  show "0 < rel n b (home (tab ! lin n b y))" "rel n b (home (tab ! lin n b y)) \<le> y" by (fact f(1), fact f(2))
  assume "rel n b (home (tab ! lin n b y)) \<le> z" "z < y"
  with f(3) [of z] s show "(z = g \<and> Suc x \<le> y) \<or> (z \<noteq> g \<and> tab ! lin n b z \<noteq> E)"
    by (cases "y = x") auto
qed

lemma live_cells_shift:
  assumes "i < length tab" "j < length tab" "i \<noteq> j"
  shows "live_cells E (tab[i := tab ! j, j := E]) = live_cells E (tab[i := E])"
proof -
  let ?t = "tab[i := E]"
  have e: "tab[i := tab ! j, j := E] = ?t[j := ?t ! i, i := ?t ! j]"
    using assms by (intro nth_equalityI) (auto simp: nth_list_update)
  have "mset (?t[j := ?t ! i, i := ?t ! j]) = mset ?t"
    using assms by (intro mset_swap) simp_all
  then show ?thesis unfolding live_cells_def e by simp
qed

lemma backshift_correct:
  assumes "pow2_table n msk" "n = length tab" "b < n" "tab ! b = E"
    and "\<And>s. s \<in> set tab \<Longrightarrow> s \<noteq> E \<Longrightarrow> home s < n"
    and "0 < g" "g < n" "g \<le> x" "x < n"
    and "\<forall>y. x < y \<and> y < n \<longrightarrow> tab ! lin n b y \<noteq> E"
    and "lin_chain home E b g (Suc x) tab" "n - x \<le> fuel"
  shows "\<exists>tab' gap. backshift home E msk fuel tab (lin n b g) (lin n b x) = Some (tab', gap)
           \<and> length tab' = n \<and> gap < n \<and> chain_ok home E (tab'[gap := E])
           \<and> live_cells E (tab'[gap := E]) = live_cells E (tab[lin n b g := E])"
  using assms(2-)
proof (induction fuel arbitrary: tab g x)
  case 0
  then show ?case by simp
next
  case (Suc fuel)
  note nx = lin_Suc [OF assms(1), of b x]
  show ?case
  proof (cases "Suc x = n")
    case True
    then have "lin n b (Suc x) = b" using Suc.prems(2) by (simp add: lin_def)
    then have "backshift home E msk (Suc fuel) tab (lin n b g) (lin n b x) = Some (tab, lin n b g)"
      using Suc.prems(3) nx by (simp add: Let_def)
    moreover have "lin_chain home E b g (length tab) tab" using Suc.prems(1,10) True by simp
    then have "chain_ok home E (tab[lin n b g := E])"
      using lin_to_chain [of home E b g tab] Suc.prems(1-6) by simp
    ultimately show ?thesis using Suc.prems(1,2) by simp
  next
    case False
    then have x: "Suc x < n" "g < Suc x" using Suc.prems by simp_all
    let ?s = "tab ! lin n b (Suc x)"
    have s: "?s \<noteq> E" using Suc.prems(9) x by simp
    have len: "length tab = n" using Suc.prems(1) by simp
    have "?s \<in> set tab" using Suc.prems(2) len by (intro nth_mem) simp
    then have hm: "home ?s < n" using Suc.prems(4) s by simp
    note f = lin_chainD [OF Suc.prems(10) Suc.prems(1) x(1) _ s]
    have sh: "should_shift (home ?s) (lin n b g) (lin n b (Suc x)) \<longleftrightarrow> rel n b (home ?s) \<le> g"
      using should_shift_lin [of b n g "Suc x" "rel n b (home ?s)"] f(1,2) x Suc.prems(2,5) hm
      by (simp add: lin_rel rel_below)
    show ?thesis
    proof (cases "rel n b (home ?s) \<le> g")
      case True
      let ?t = "tab[lin n b g := ?s]"
      have chain: "lin_chain home E b (Suc x) (Suc (Suc x)) ?t"
        by (rule lin_chain_shift [OF Suc.prems(10,1,2) x(2,1) s True])
      have "\<exists>tab' gap. backshift home E msk fuel ?t (lin n b (Suc x)) (lin n b (Suc x)) = Some (tab', gap)
           \<and> length tab' = n \<and> gap < n \<and> chain_ok home E (tab'[gap := E])
           \<and> live_cells E (tab'[gap := E]) = live_cells E (?t[lin n b (Suc x) := E])"
      proof (rule Suc.IH)
        show "?t ! b = E"
          using Suc.prems(2,3,5,6) lin_inj [of g n 0 b] lin_0 [OF Suc.prems(2)] by (simp add: nth_list_update_neq)
        show "home s < n" if "s \<in> set ?t" "s \<noteq> E" for s
          using that hm Suc.prems(4) set_update_subset_insert [of tab "lin n b g" ?s] by blast
        show "\<forall>y. Suc x < y \<and> y < n \<longrightarrow> ?t ! lin n b y \<noteq> E"
          using Suc.prems(2,6,9) x by (auto simp: lin_inj nth_list_update_neq)
        show "n = length ?t" using len by simp
        show "n - Suc x \<le> fuel" using Suc.prems(11) x by linarith
        show "lin_chain home E b (Suc x) (Suc (Suc x)) ?t" by (rule chain)
      qed (use x Suc.prems(2) in simp_all)
      moreover have "live_cells E (?t[lin n b (Suc x) := E]) = live_cells E (tab[lin n b g := E])"
        using Suc.prems(2,6) x len by (intro live_cells_shift) (simp_all add: lin_inj)
      ultimately show ?thesis using s sh True nx by (simp add: Let_def)
    next
      case False
      have chain: "lin_chain home E b g (Suc (Suc x)) tab"
        by (rule lin_chain_keep [OF Suc.prems(10,1) False])
      have "\<exists>tab' gap. backshift home E msk fuel tab (lin n b g) (lin n b (Suc x)) = Some (tab', gap)
           \<and> length tab' = n \<and> gap < n \<and> chain_ok home E (tab'[gap := E])
           \<and> live_cells E (tab'[gap := E]) = live_cells E (tab[lin n b g := E])"
      proof (rule Suc.IH)
        show "n - Suc x \<le> fuel" using Suc.prems(11) x by linarith
        show "\<forall>y. Suc x < y \<and> y < n \<longrightarrow> tab ! lin n b y \<noteq> E" using Suc.prems(9) by simp
        show "lin_chain home E b g (Suc (Suc x)) tab" by (rule chain)
        show "home s < n" if "s \<in> set tab" "s \<noteq> E" for s using Suc.prems(4) that .
      qed (use x Suc.prems(1-3,5,6,7) in simp_all)
      then show ?thesis using s sh False nx by (simp add: Let_def)
    qed
  qed
qed


text \<open>Removing the entry at \<open>idx\<close>: the table stays searchable and loses exactly that entry.\<close>

lemma first_empty:
  assumes "0 < n" "i < n" "\<not> P i" "j < n" "P (j :: nat)"
  obtains d where "0 < d" "d < n" "P ((i + d) mod n)" "\<forall>e<d. \<not> P ((i + e) mod n)"
proof -
  obtain d where d: "d < n" "j = (i + d) mod n" using probe_reaches [OF assms(1,4)] .
  define m where "m = (LEAST d. P ((i + d) mod n))"
  have m: "P ((i + m) mod n)" "m \<le> d"
    unfolding m_def using d assms(5) by (auto intro: LeastI Least_le)
  have "\<not> P ((i + e) mod n)" if "e < m" for e
    using that unfolding m_def by (rule not_less_Least)
  moreover have "m \<noteq> 0" using m(1) assms(2,3) by (auto intro: ccontr)
  ultimately show ?thesis using that [of m] m d by auto
qed

lemma backshift_remove:
  assumes p2: "pow2_table n msk" and n: "n = length tab" and ok: "chain_ok home E tab"
    and home: "\<And>s. s \<in> set tab \<Longrightarrow> s \<noteq> E \<Longrightarrow> home s < n"
    and i: "i < n" "tab ! i \<noteq> E" and e: "E \<in> set tab"
  shows "\<exists>tab' gap. backshift home E msk n tab i i = Some (tab', gap) \<and> length tab' = n \<and> gap < n
           \<and> chain_ok home E (tab'[gap := E]) \<and> live_cells E (tab'[gap := E]) = live_cells E tab - {#tab ! i#}"
proof -
  have pos: "0 < n" by (rule pow2_table_pos [OF p2])
  obtain j where "j < n" "tab ! j = E" using e n by (auto simp: in_set_conv_nth)
  with pos i obtain d where d: "0 < d" "d < n" "tab ! ((i + d) mod n) = E"
      "\<forall>e<d. tab ! ((i + e) mod n) \<noteq> E"
    using first_empty [of n i "\<lambda>i. tab ! i = E" j] by auto
  define b where "b = (i + d) mod n"
  have b: "b < n" "tab ! b = E" using pos d(3) by (simp_all add: b_def)
  have at: "lin n b (n - d + k) = (i + k) mod n" for k
  proof -
    have "lin n b (n - d + k) = (n - d + k + (i + d)) mod n" by (simp add: lin_def b_def mod_simps)
    also have "n - d + k + (i + d) = n + (i + k)" using d(2) by simp
    finally show ?thesis by simp
  qed
  have g: "lin n b (n - d) = i" using at [of 0] i(1) by simp
  have "tab ! lin n b y \<noteq> E" if "n - d < y" "y < n" for y
  proof -
    have "n - d + (y - (n - d)) = y" "y - (n - d) < d" using that d(2) by simp_all
    with at [of "y - (n - d)"] have "lin n b y = (i + (y - (n - d))) mod n" by metis
    with d(4) \<open>y - (n - d) < d\<close> show ?thesis by metis
  qed
  moreover have "lin_chain home E b (n - d) (Suc (n - d)) tab"
    using chain_to_lin [OF ok _ b [unfolded n], of "n - d"] home n d(1,2) by simp
  moreover have "live_cells E (tab[i := E]) = live_cells E tab - {#tab ! i#}"
    using i n by (simp add: live_cells_def mset_update)
  ultimately show ?thesis
    using backshift_correct [OF p2 n b home, where g = "n - d" and x = "n - d" and fuel = n] d(1,2) g by auto
qed


section \<open>Insertion and lookup in a chain\<close>

lemma chain_ok_cong:
  "chain_ok home E tab \<Longrightarrow> (\<And>s. s \<in> set tab \<Longrightarrow> s \<noteq> E \<Longrightarrow> home' s = home s) \<Longrightarrow> chain_ok home' E tab"
  by (simp add: chain_ok_def)

lemma chain_ok_empty: "set tab \<subseteq> {E} \<Longrightarrow> chain_ok home E tab"
  by (auto simp: chain_ok_def subset_iff)

lemma in_live_cells: "s \<in># live_cells E tab \<longleftrightarrow> s \<in> set tab \<and> s \<noteq> E"
  by (auto simp: live_cells_def)

lemma live_cells_bound:
  assumes "size (live_cells E tab) < length tab"
  shows "E \<in> set tab"
proof (rule ccontr)
  assume "E \<notin> set tab"
  then have "live_cells E tab = mset tab"
    unfolding live_cells_def by (intro filter_mset_eq_conv [THEN iffD2]) auto
  with assms show False by simp
qed

lemma chain_insert:
  assumes p2: "pow2_table n msk" and n: "n = length tab" and ok: "chain_ok home E tab"
    and idx: "probe_for (\<lambda>i. if tab ! i = E then Some i else None) msk n (h mod n) = Some idx"
    and s: "s \<noteq> E" "home s = h mod n"
  shows "idx < n \<and> chain_ok home E (tab[idx := s])
           \<and> live_cells E (tab[idx := s]) = add_mset s (live_cells E tab)"
proof -
  have i: "idx < n" "tab ! idx = E"
      "probe_path n (\<lambda>i. (if tab ! i = E then Some i else None) = None) h idx"
    using idx unfolding probe_for_Some_path [OF p2] by (auto split: if_splits)
  have solid: "(tab[idx := s]) ! k \<noteq> E" if "tab ! k \<noteq> E" for k
    using that s i n by (cases "k = idx") simp_all
  have "chain_ok home E (tab[idx := s])"
    unfolding chain_ok_def
  proof (intro allI impI)
    fix k
    assume k: "k < length (tab[idx := s])" "(tab[idx := s]) ! k \<noteq> E"
    have "probe_path n (\<lambda>i. tab ! i \<noteq> E) (home ((tab[idx := s]) ! k)) k"
    proof (cases "k = idx")
      case True
      have "probe_path n (\<lambda>i. tab ! i \<noteq> E) (h mod n) idx"
        using i(3) by (auto simp: probe_path_def mod_simps split: if_splits)
      then show ?thesis using True s i n by simp
    next
      case False
      then show ?thesis using ok k n by (simp add: chain_ok_def)
    qed
    then show "probe_path (length (tab[idx := s])) (\<lambda>i. (tab[idx := s]) ! i \<noteq> E) (home ((tab[idx := s]) ! k)) k"
      unfolding length_list_update n [symmetric] by (rule probe_path_mono) (rule solid)
  qed
  moreover have "live_cells E (tab[idx := s]) = add_mset s (live_cells E tab)"
    using i n s by (simp add: live_cells_def mset_update)
  ultimately show ?thesis using i(1) by blast
qed

text \<open>A search that stops at empty cells and at some entries finds a stop no later than a given entry.\<close>

lemma chain_lookup:
  assumes p2: "pow2_table n msk" and n: "n = length tab" and ok: "chain_ok home E tab"
    and s: "s \<in> set tab" "s \<noteq> E" "home s = h mod n"
    and stop: "\<And>i. i < n \<Longrightarrow> tab ! i = s \<Longrightarrow> body i \<noteq> None"
  obtains i where "i < n" "probe_for body msk n (h mod n) = body i" "body i \<noteq> None" "tab ! i \<noteq> E"
proof -
  obtain k where k: "k < n" "tab ! k = s" using s(1) n by (auto simp: in_set_conv_nth)
  have "probe_path n (\<lambda>i. tab ! i \<noteq> E) (h mod n) k"
    using ok k n s by (auto simp: chain_ok_def)
  from probe_for_hit [where body = body, OF p2 this stop [OF k]]
  obtain i where i: "i < n" "probe_for body msk n ((h mod n) mod n) = body i" "body i \<noteq> None"
      "i = k \<or> tab ! i \<noteq> E" .
  from i(4) k(2) s(2) have "tab ! i \<noteq> E" by blast
  with that [of i] i(1-3) show ?thesis by simp
qed

end
