(* ===== verification/Packet.thy ===== *)
theory Packet
  imports Prelude
begin

text \<open>
  The MQTT packet primitives of \<^verbatim>\<open>src/src/mqtt/packet.h\<close>: parse results, zero-copy strings, the
  fixed header with its variable byte integer, length-prefixed strings, the topic segment iterator
  and the encoding helpers.  A parser takes the buffer, the offset its \<^verbatim>\<open>buf\<close> argument points to and
  the length it was given.
\<close>

section \<open>Packet types and parse results\<close>

abbreviation (input) "MQTT_CONNECT \<equiv> 1 :: u8"
abbreviation (input) "MQTT_CONNACK \<equiv> 2 :: u8"
abbreviation (input) "MQTT_PUBLISH \<equiv> 3 :: u8"
abbreviation (input) "MQTT_PUBACK \<equiv> 4 :: u8"
abbreviation (input) "MQTT_PUBREC \<equiv> 5 :: u8"
abbreviation (input) "MQTT_PUBREL \<equiv> 6 :: u8"
abbreviation (input) "MQTT_PUBCOMP \<equiv> 7 :: u8"
abbreviation (input) "MQTT_SUBSCRIBE \<equiv> 8 :: u8"
abbreviation (input) "MQTT_SUBACK \<equiv> 9 :: u8"
abbreviation (input) "MQTT_UNSUBSCRIBE \<equiv> 10 :: u8"
abbreviation (input) "MQTT_UNSUBACK \<equiv> 11 :: u8"
abbreviation (input) "MQTT_PINGREQ \<equiv> 12 :: u8"
abbreviation (input) "MQTT_PINGRESP \<equiv> 13 :: u8"
abbreviation (input) "MQTT_DISCONNECT \<equiv> 14 :: u8"

datatype parse_error =
    MQTT_INCOMPLETE
  | MQTT_ERR_MALFORMED
  | MQTT_ERR_PROTOCOL
  | MQTT_ERR_TOO_LARGE
  | OUT_OF_BOUNDS

text \<open>A zero-copy string: the offset of its first byte, \<open>None\<close> for NULL, and its u16 length.\<close>

record mqtt_str =
  str_ptr :: "nat option"
  str_len :: nat

definition str_null :: mqtt_str where
  "str_null = \<lparr>str_ptr = None, str_len = 0\<rparr>"

definition str_bytes :: "bytes \<Rightarrow> mqtt_str \<Rightarrow> bytes" where
  "str_bytes buf s = (case str_ptr s of None \<Rightarrow> [] | Some p \<Rightarrow> take (str_len s) (drop p buf))"

definition str_in :: "bytes \<Rightarrow> mqtt_str \<Rightarrow> bool" where
  "str_in buf s \<longleftrightarrow> (case str_ptr s of None \<Rightarrow> str_len s = 0 | Some p \<Rightarrow> p + str_len s \<le> length buf)"

section \<open>Reads\<close>

definition rd :: "bytes \<Rightarrow> nat \<Rightarrow> parse_error + u8" where
  "rd buf i = (if i < length buf then Inr (buf ! i) else Inl OUT_OF_BOUNDS)"

definition be16 :: "u8 \<Rightarrow> u8 \<Rightarrow> u16" where
  "be16 hi lo = push_bit 8 (ucast hi) OR ucast lo"

definition mqtt_read_u16 :: "bytes \<Rightarrow> nat \<Rightarrow> parse_error + u16" where
  "mqtt_read_u16 buf p = ebind (rd buf p) (\<lambda>hi. ebind (rd buf (p + 1)) (\<lambda>lo. Inr (be16 hi lo)))"

text \<open>The two bytes every encoder writes for a u16: \<open>x >> 8\<close> and \<open>x & 0xFF\<close>.\<close>

definition hi8 :: "u16 \<Rightarrow> u8" where
  "hi8 x = ucast (drop_bit 8 x)"

definition lo8 :: "u16 \<Rightarrow> u8" where
  "lo8 x = ucast (x AND 0xFF)"

section \<open>Topic segments\<close>

text \<open>\<open>'/'\<close>, \<open>'+'\<close> and \<open>'#'\<close> as bytes.\<close>

abbreviation (input) "SLASH \<equiv> 47 :: u8"
abbreviation (input) "PLUS \<equiv> 43 :: u8"
abbreviation (input) "HASH \<equiv> 35 :: u8"

text \<open>The inner loop of the iterator: advance to the next \<open>'/'\<close> or the end.\<close>

function seg_end :: "bytes \<Rightarrow> nat \<Rightarrow> nat \<Rightarrow> nat" where
  "seg_end data len pos = (if pos < len \<and> data ! pos \<noteq> SLASH then seg_end data len (pos + 1) else pos)"
  by pat_completeness auto
termination
  by (relation "measure (\<lambda>(data, len, pos). len - pos)") auto

declare seg_end.simps [simp del]

text \<open>\<open>topic_iter_next\<close>: \<open>None\<close> for false, otherwise the segment and the new position.\<close>

definition topic_iter_next :: "bytes \<Rightarrow> nat \<Rightarrow> nat \<Rightarrow> (bytes \<times> nat) option" where
  "topic_iter_next data len pos =
     (if pos \<ge> len then None
      else let e = seg_end data len pos
           in Some (take (e - pos) (drop pos data), if e < len then e + 1 else e))"

definition topic_extract_segment :: "bytes \<Rightarrow> nat \<Rightarrow> nat \<Rightarrow> bytes \<times> nat" where
  "topic_extract_segment data len pos =
     (let e = seg_end data len pos
      in (take (e - pos) (drop pos data), if e < len then e + 1 else e))"

section \<open>Fixed header\<close>

record mqtt_fixed_header =
  hdr_type :: u8
  hdr_flags :: u8
  remaining_len :: u32
  header_len :: nat

definition MQTT_VBI_MAX_BYTES :: nat where
  "MQTT_VBI_MAX_BYTES = 4"

text \<open>The variable byte integer loop; \<open>p\<close> is the offset \<open>buf\<close> points to.\<close>

function vbi_loop :: "bytes \<Rightarrow> nat \<Rightarrow> nat \<Rightarrow> nat \<Rightarrow> u32 \<Rightarrow> u32 \<Rightarrow> parse_error + (u32 \<times> nat)" where
  "vbi_loop buf p len pos val mult =
     (if pos \<ge> len then Inl MQTT_INCOMPLETE
      else if pos > MQTT_VBI_MAX_BYTES then Inl MQTT_ERR_MALFORMED
      else case rd buf (p + pos) of
             Inl e \<Rightarrow> Inl e
           | Inr byte \<Rightarrow>
               (let val' = val + ucast (byte AND 0x7F) * mult;
                    mult' = push_bit 7 mult
                in if byte AND 0x80 = 0 then Inr (val', pos + 1)
                   else vbi_loop buf p len (pos + 1) val' mult'))"
  by pat_completeness auto
termination
  by (relation "measure (\<lambda>(buf, p, len, pos, val, mult). 5 - pos)") (auto simp: MQTT_VBI_MAX_BYTES_def)

declare vbi_loop.simps [simp del]

definition mqtt_parse_fixed_header :: "bytes \<Rightarrow> nat \<Rightarrow> nat \<Rightarrow> parse_error + mqtt_fixed_header" where
  "mqtt_parse_fixed_header buf p len =
     (if len < 2 then Inl MQTT_INCOMPLETE
      else ebind (rd buf p) (\<lambda>b0.
           ebind (vbi_loop buf p len 1 0 1) (\<lambda>(val, pos).
             Inr \<lparr>hdr_type = drop_bit 4 b0, hdr_flags = b0 AND 0x0F,
                  remaining_len = val, header_len = pos\<rparr>)))"

text \<open>
  \<open>mqtt_packet_complete_ex\<close>: the total length as the i32 return value, with the parsed header.
  \<open>total\<close> is a u32 sum.
\<close>

definition packet_total :: "mqtt_fixed_header \<Rightarrow> u32" where
  "packet_total hdr = of_nat (header_len hdr) + remaining_len hdr"

definition mqtt_packet_complete_ex :: "bytes \<Rightarrow> nat \<Rightarrow> nat \<Rightarrow> parse_error + (nat \<times> mqtt_fixed_header)" where
  "mqtt_packet_complete_ex buf p len =
     ebind (mqtt_parse_fixed_header buf p len) (\<lambda>hdr.
       let total = unat (packet_total hdr)
       in if len < total then Inl MQTT_INCOMPLETE else Inr (total, hdr))"

definition mqtt_packet_complete :: "bytes \<Rightarrow> nat \<Rightarrow> nat \<Rightarrow> parse_error + nat" where
  "mqtt_packet_complete buf p len = ebind (mqtt_packet_complete_ex buf p len) (\<lambda>(n, hdr). Inr n)"

section \<open>Strings\<close>

text \<open>The string and the number of bytes consumed.\<close>

definition mqtt_parse_string :: "bytes \<Rightarrow> nat \<Rightarrow> nat \<Rightarrow> parse_error + (mqtt_str \<times> nat)" where
  "mqtt_parse_string buf p remaining =
     (if remaining < 2 then Inl MQTT_INCOMPLETE
      else ebind (mqtt_read_u16 buf p) (\<lambda>w.
        let slen = unat w
        in if remaining < 2 + slen then Inl MQTT_INCOMPLETE
           else Inr (\<lparr>str_ptr = Some (p + 2), str_len = slen\<rparr>, 2 + slen)))"

definition mqtt_parse_binary :: "bytes \<Rightarrow> nat \<Rightarrow> nat \<Rightarrow> parse_error + (mqtt_str \<times> nat)" where
  "mqtt_parse_binary buf p remaining = mqtt_parse_string buf p remaining"

section \<open>Encoding helpers\<close>

function mqtt_encode_remaining_len :: "u32 \<Rightarrow> bytes" where
  "mqtt_encode_remaining_len len =
     (let byte = ucast (len AND 0x7F) :: u8;
          len' = drop_bit 7 len
      in if len' > 0 then (byte OR 0x80) # mqtt_encode_remaining_len len' else [byte])"
  by pat_completeness auto
termination
proof (relation "measure unat", goal_cases)
  case 1
  show ?case by simp
next
  case (2 len byte len')
  then have "unat (drop_bit 7 len) > 0"
    by (simp add: word_less_nat_alt)
  then show ?case
    using 2 by (simp add: unat_drop_bit div_less_dividend)
qed

declare mqtt_encode_remaining_len.simps [simp del]

definition mqtt_encode_fixed_header :: "u8 \<Rightarrow> u8 \<Rightarrow> u32 \<Rightarrow> bytes" where
  "mqtt_encode_fixed_header typ flags remaining =
     (push_bit 4 typ OR (flags AND 0x0F)) # mqtt_encode_remaining_len remaining"


section \<open>Reads stay inside the buffer\<close>

lemma rd_in [buf_simps]: "i < length buf \<Longrightarrow> rd buf i = Inr (buf ! i)"
  by (simp add: rd_def)

lemma mqtt_read_u16_in [buf_simps]:
  "p + 1 < length buf \<Longrightarrow> mqtt_read_u16 buf p = Inr (be16 (buf ! p) (buf ! (p + 1)))"
  by (simp add: mqtt_read_u16_def rd_in)

lemma unat_be16: "unat (be16 h l) = unat h * 256 + unat l"
proof -
  have "be16 h l = push_bit 8 (ucast h) + ucast l"
    unfolding be16_def
    by (rule disjunctive_add [symmetric]) (auto simp: bit_push_bit_iff bit_ucast_iff dest: bit_imp_le_length)
  moreover have "unat (push_bit 8 (ucast h) :: u16) = unat h * 256"
  proof -
    have "unat h * 256 < 65536" using unat_lt_u8 [of h] by linarith
    moreover have "unat h < 65536" using unat_lt_u8 [of h] by linarith
    ultimately show ?thesis
      by (simp add: push_bit_eq_mult unat_word_ariths unat_ucast_mod)
  qed
  moreover have "unat (ucast l :: u16) = unat l"
  proof -
    have "unat l < 65536" using unat_lt_u8 [of l] by linarith
    then show ?thesis by (simp add: unat_ucast_mod)
  qed
  moreover have "unat h * 256 + unat l < 65536"
    using unat_lt_u8 [of h] unat_lt_u8 [of l] by linarith
  ultimately show ?thesis by (simp add: unat_word_ariths)
qed

lemma unat_hi8: "unat (hi8 x) = unat x div 256"
proof -
  have "unat x div 256 < 256"
    using unat_lt_u16 [of x] by (intro less_mult_imp_div_less) simp
  then show ?thesis by (simp add: hi8_def unat_ucast_mod unat_drop_bit)
qed

lemma unat_lo8: "unat (lo8 x) = unat x mod 256"
  by (simp add: lo8_def unat_ucast_mod word_and_FF unat_take_bit)

lemma be16_hi_lo [simp]: "be16 (hi8 x) (lo8 x) = x"
proof -
  have "unat (be16 (hi8 x) (lo8 x)) = unat x"
    by (simp add: unat_be16 unat_hi8 unat_lo8)
  then show ?thesis by (rule word_unat_eq_iff [THEN iffD2])
qed

section \<open>Topic segments as list functions\<close>

lemma seg_end_takeWhile:
  assumes "pos \<le> len" "len \<le> length data"
  shows "seg_end data len pos = pos + length (takeWhile (\<lambda>c. c \<noteq> SLASH) (drop pos (take len data)))"
  using assms
proof (induction data len pos rule: seg_end.induct)
  case (1 data len pos)
  show ?case
  proof (cases "pos < len")
    case True
    with 1 have "drop pos (take len data) = data ! pos # drop (pos + 1) (take len data)"
      by (simp add: Cons_nth_drop_Suc [symmetric])
    with 1 True show ?thesis
      by (subst seg_end.simps) auto
  next
    case False
    with 1 show ?thesis by (subst seg_end.simps) simp
  qed
qed

lemma seg_end_bounds:
  assumes "pos \<le> len" "len \<le> length data"
  shows "pos \<le> seg_end data len pos" "seg_end data len pos \<le> len"
proof -
  have "length (takeWhile (\<lambda>c. c \<noteq> SLASH) (drop pos (take len data))) \<le> length (drop pos (take len data))"
    by (rule length_takeWhile_le)
  with assms show "pos \<le> seg_end data len pos" "seg_end data len pos \<le> len"
    by (simp_all add: seg_end_takeWhile)
qed

text \<open>The segments the code sees in a topic: split at every slash, nothing after a trailing one.\<close>

function split_topic :: "bytes \<Rightarrow> bytes list" where
  "split_topic [] = []"
| "split_topic (c # cs) =
     takeWhile (\<lambda>c. c \<noteq> SLASH) (c # cs) #
     split_topic (drop 1 (dropWhile (\<lambda>c. c \<noteq> SLASH) (c # cs)))"
  by pat_completeness auto
termination
proof (relation "measure length", goal_cases)
  case 1
  show ?case by simp
next
  case (2 c cs)
  have "length (dropWhile (\<lambda>c. c \<noteq> SLASH) (c # cs)) \<le> length (c # cs)"
    by (rule length_dropWhile_le)
  then show ?case by (simp split: if_splits)
qed

declare split_topic.simps(2) [simp del]

lemma drop_takeWhile_dropWhile: "drop (length (takeWhile P xs)) xs = dropWhile P xs"
  by (simp add: dropWhile_eq_drop)

lemma take_takeWhile_length: "take (length (takeWhile P xs)) xs = takeWhile P xs"
  by (metis takeWhile_eq_take)

lemma topic_extract_segment_eq:
  assumes "pos < len" "len \<le> length data"
  defines "rest \<equiv> drop pos (take len data)"
  shows "fst (topic_extract_segment data len pos) = takeWhile (\<lambda>c. c \<noteq> SLASH) rest"
    and "drop (snd (topic_extract_segment data len pos)) (take len data)
           = drop 1 (dropWhile (\<lambda>c. c \<noteq> SLASH) rest)"
    and "pos < snd (topic_extract_segment data len pos)"
    and "snd (topic_extract_segment data len pos) \<le> len"
proof -
  let ?k = "length (takeWhile (\<lambda>c. c \<noteq> SLASH) rest)"
  have e: "seg_end data len pos = pos + ?k"
    unfolding rest_def using assms by (intro seg_end_takeWhile) auto
  have k: "?k \<le> len - pos"
    using length_takeWhile_le [of "\<lambda>c. c \<noteq> SLASH" rest] assms by (simp add: rest_def)
  have "take ?k (drop pos data) = take ?k rest"
    using k assms by (simp add: rest_def drop_take min_def)
  then show "fst (topic_extract_segment data len pos) = takeWhile (\<lambda>c. c \<noteq> SLASH) rest"
    by (simp add: topic_extract_segment_def e Let_def take_takeWhile_length)
  have d: "drop (pos + ?k) (take len data) = dropWhile (\<lambda>c. c \<noteq> SLASH) rest"
    by (simp add: drop_takeWhile_dropWhile [symmetric] rest_def add.commute)
  show "drop (snd (topic_extract_segment data len pos)) (take len data)
           = drop 1 (dropWhile (\<lambda>c. c \<noteq> SLASH) rest)"
  proof (cases "pos + ?k < len")
    case True
    then show ?thesis
      by (simp add: topic_extract_segment_def e Let_def d [symmetric])
  next
    case False
    then have "pos + ?k = len" using k assms by simp
    with d assms show ?thesis
      by (simp add: topic_extract_segment_def e Let_def d [symmetric])
  qed
  show "snd (topic_extract_segment data len pos) \<le> len"
    using k assms(1) by (auto simp: topic_extract_segment_def e Let_def)
  show "pos < snd (topic_extract_segment data len pos)"
  proof (cases "pos + ?k < len")
    case True
    then show ?thesis by (simp add: topic_extract_segment_def e Let_def)
  next
    case False
    then have "pos < pos + ?k" using assms(1) by linarith
    with False show ?thesis by (simp add: topic_extract_segment_def e Let_def)
  qed
qed

lemma topic_iter_next_extract:
  "topic_iter_next data len pos = (if pos \<ge> len then None else Some (topic_extract_segment data len pos))"
  by (simp add: topic_iter_next_def topic_extract_segment_def Let_def)

lemma split_topic_step:
  assumes "pos < len" "len \<le> length data"
  shows "split_topic (drop pos (take len data)) =
           fst (topic_extract_segment data len pos) #
           split_topic (drop (snd (topic_extract_segment data len pos)) (take len data))"
proof -
  obtain c cs where cs: "drop pos (take len data) = c # cs"
    using assms by (cases "drop pos (take len data)") auto
  show ?thesis
    using topic_extract_segment_eq(1,2) [OF assms] by (simp add: cs split_topic.simps(2))
qed


section \<open>The variable byte integer\<close>

lemma and_or_distrib_byte: "(x OR y) AND z = (x AND z) OR (y AND (z :: u8))"
  by (auto intro!: bit_word_eqI simp: bit_simps)

lemma vbi_byte_simps:
  "((x AND 0x7F) OR 0x80) AND 0x7F = x AND (0x7F :: u8)"
  "((x AND 0x7F) OR 0x80) AND 0x80 = (0x80 :: u8)"
  "(x AND 0x7F) AND 0x80 = (0 :: u8)"
  "(x AND 0x7F) AND 0x7F = x AND (0x7F :: u8)"
  by (simp_all add: and.assoc and_or_distrib_byte)


lemma vbi_word_split: "m = (m AND 0x7F) + push_bit 7 (drop_bit 7 (m :: u32))"
proof -
  have "push_bit 7 (drop_bit 7 m) + take_bit 7 m = m" by (rule bits_ident)
  then show ?thesis by (simp add: word_and_7F add.commute)
qed

lemma vbi_loop_enc:
  assumes "at_offset buf (p + pos) (mqtt_encode_remaining_len m)"
    and "pos + length (mqtt_encode_remaining_len m) \<le> 5"
    and "pos + length (mqtt_encode_remaining_len m) \<le> len"
  shows "vbi_loop buf p len pos v mult = Inr (v + m * mult, pos + length (mqtt_encode_remaining_len m))"
  using assms
proof (induction m arbitrary: pos v mult rule: mqtt_encode_remaining_len.induct)
  case (1 m)
  let ?byte = "ucast (m AND 0x7F) :: u8"
  have b7: "?byte = ?byte AND 0x7F"
    by (rule bit_word_eqI) (auto simp: word_and_7F bit_simps)
  have low: "(ucast (?byte AND 0x7F) :: u32) = m AND 0x7F"
    by (rule bit_word_eqI) (auto simp: word_and_7F bit_simps)
  show ?case
  proof (cases "drop_bit 7 m > 0")
    case True
    let ?tl = "mqtt_encode_remaining_len (drop_bit 7 m)"
    have enc: "mqtt_encode_remaining_len m = (?byte OR 0x80) # ?tl"
      using True by (subst mqtt_encode_remaining_len.simps) (simp add: Let_def)
    from "1.prems"(1) have b: "buf ! (p + pos) = ?byte OR 0x80" "p + pos < length buf"
      and tl: "at_offset buf (p + (pos + 1)) ?tl"
      by (simp_all add: enc)
    have byte: "(?byte OR 0x80) AND 0x7F = ?byte AND 0x7F" "(?byte OR 0x80) AND 0x80 \<noteq> 0"
      using b7 vbi_byte_simps(1,2) [of ?byte] by auto
    have "vbi_loop buf p len pos v mult = vbi_loop buf p len (pos + 1) (v + (m AND 0x7F) * mult) (push_bit 7 mult)"
      using "1.prems"(2,3) b byte low
      by (subst vbi_loop.simps) (simp add: enc rd_def Let_def MQTT_VBI_MAX_BYTES_def)
    also have "\<dots> = Inr (v + (m AND 0x7F) * mult + drop_bit 7 m * push_bit 7 mult, pos + 1 + length ?tl)"
      using "1.prems"(2,3) True tl by (intro "1.IH") (auto simp: enc)
    also have "v + (m AND 0x7F) * mult + drop_bit 7 m * push_bit 7 mult = v + m * mult"
      by (subst (3) vbi_word_split [of m]) (simp add: push_bit_eq_mult algebra_simps)
    finally show ?thesis by (simp add: enc)
  next
    case False
    have enc: "mqtt_encode_remaining_len m = [?byte]"
      using False by (subst mqtt_encode_remaining_len.simps) (simp add: Let_def)
    have m: "m AND 0x7F = m"
      using vbi_word_split [of m] False by (simp add: word_gt_0)
    from "1.prems"(1) have b: "buf ! (p + pos) = ?byte" "p + pos < length buf"
      by (simp_all add: enc)
    have byte: "?byte AND 0x80 = 0"
      using b7 vbi_byte_simps(3) [of ?byte] by metis
    show ?thesis
      using "1.prems"(2,3) b byte low m
      by (subst vbi_loop.simps) (simp add: enc rd_def Let_def MQTT_VBI_MAX_BYTES_def)
  qed
qed


text \<open>The number of bytes an encoding takes: \<open>k\<close> bytes hold every value below \<open>2 ^ (7 * k)\<close>.\<close>

lemma length_encode_remaining_len:
  "unat m < 2 ^ (7 * k) \<Longrightarrow> 0 < k \<Longrightarrow> length (mqtt_encode_remaining_len m) \<le> k"
proof (induction m arbitrary: k rule: mqtt_encode_remaining_len.induct)
  case (1 m)
  show ?case
  proof (cases "drop_bit 7 m > 0")
    case True
    then have "unat (drop_bit 7 m) > 0" by (simp add: word_less_nat_alt)
    then have ge: "128 \<le> unat m" by (simp add: unat_drop_bit)
    have k1: "k \<noteq> 1" using ge "1.prems" by auto
    then obtain j where j: "k = Suc j" "0 < j" using "1.prems" by (cases k) auto
    have "unat m < 2 ^ (7 * j) * 128"
      using "1.prems"(1) by (simp add: j power_add mult.commute)
    then have "unat (drop_bit 7 m) < 2 ^ (7 * j)"
      by (simp add: unat_drop_bit less_mult_imp_div_less)
    then have "length (mqtt_encode_remaining_len (drop_bit 7 m)) \<le> j"
      using True j by (intro "1.IH") auto
    with True j show ?thesis
      by (subst mqtt_encode_remaining_len.simps) (simp add: Let_def)
  next
    case False
    with "1.prems" show ?thesis
      by (subst mqtt_encode_remaining_len.simps) (simp add: Let_def)
  qed
qed

lemma encode_remaining_len_nonempty: "mqtt_encode_remaining_len m \<noteq> []"
  by (subst mqtt_encode_remaining_len.simps) (simp add: Let_def)

lemma length_encode_remaining_len_ge:
  "2 ^ (7 * k) \<le> unat m \<Longrightarrow> k < length (mqtt_encode_remaining_len m)"
proof (induction m arbitrary: k rule: mqtt_encode_remaining_len.induct)
  case (1 m)
  show ?case
  proof (cases k)
    case 0
    then show ?thesis by (simp add: encode_remaining_len_nonempty)
  next
    case (Suc j)
    have "2 ^ (7 * j) * 128 \<le> unat m"
      using "1.prems" by (simp add: Suc power_add mult.commute)
    then have le: "2 ^ (7 * j) \<le> unat (drop_bit 7 m)"
      by (simp add: unat_drop_bit less_eq_div_iff_mult_less_eq)
    moreover have "0 < unat (drop_bit 7 m)"
      using le by (rule order_less_le_trans [rotated]) simp
    then have pos: "drop_bit 7 m > 0" by (simp add: word_less_nat_alt)
    ultimately have "j < length (mqtt_encode_remaining_len (drop_bit 7 m))"
      by (intro "1.IH") auto
    with pos Suc show ?thesis
      by (subst mqtt_encode_remaining_len.simps) (simp add: Let_def)
  qed
qed

section \<open>Bounds of the parser\<close>

lemma vbi_loop_safe: "p + len \<le> length buf \<Longrightarrow> vbi_loop buf p len pos v mult \<noteq> Inl OUT_OF_BOUNDS"
proof (induction buf p len pos v mult rule: vbi_loop.induct)
  case (1 buf p len pos v mult)
  then show ?case
    by (subst vbi_loop.simps) (auto simp: rd_def Let_def)
qed

lemma vbi_loop_not_protocol:
  "vbi_loop buf p len pos v mult \<noteq> Inl MQTT_ERR_PROTOCOL"
  "vbi_loop buf p len pos v mult \<noteq> Inl MQTT_ERR_TOO_LARGE"
proof (induction buf p len pos v mult rule: vbi_loop.induct)
  case (1 buf p len pos v mult)
  { case 1 with "1.IH" show ?case by (subst vbi_loop.simps) (auto simp: rd_def Let_def) }
  { case 2 with "1.IH" show ?case by (subst vbi_loop.simps) (auto simp: rd_def Let_def) }
qed

lemma vbi_loop_pos:
  "vbi_loop buf p len pos v mult = Inr (v', q) \<Longrightarrow> pos < q \<and> q \<le> len \<and> q \<le> 5"
proof (induction buf p len pos v mult rule: vbi_loop.induct)
  case (1 buf p len pos v mult)
  from "1.prems" show ?case
    by (subst (asm) vbi_loop.simps)
       (auto simp: rd_def Let_def MQTT_VBI_MAX_BYTES_def split: if_splits dest!: "1.IH")
qed

lemma vbi_loop_value:
  assumes "vbi_loop buf p len pos v mult = Inr (v', q)"
    and "1 \<le> pos" "unat v < 2 ^ (7 * (pos - 1))" "mult = 2 ^ (7 * (pos - 1))"
  shows "unat v' < 2 ^ (7 * (q - 1))"
  using assms
proof (induction buf p len pos v mult rule: vbi_loop.induct)
  case (1 buf p len pos v mult)
  let ?b = "ucast (buf ! (p + pos) AND 0x7F) :: u32"
  from vbi_loop_pos [OF "1.prems"(1)] have pos: "pos \<le> 4" by linarith
  have b: "unat ?b \<le> 127"
  proof -
    have "unat (buf ! (p + pos) AND 0x7F) < 128" by (simp add: word_and_7F unat_take_bit)
    then show ?thesis by (simp add: unat_ucast_mod)
  qed
  have mult: "unat mult = 2 ^ (7 * (pos - 1))"
    using "1.prems"(4) pos by (simp add: unat_2_power)
  have val: "unat (v + ?b * mult) < 2 ^ (7 * pos)"
  proof -
    have "unat (v + ?b * mult) \<le> unat v + unat ?b * unat mult"
      by (simp add: unat_word_ariths)
    also have "\<dots> < 2 ^ (7 * (pos - 1)) + 127 * 2 ^ (7 * (pos - 1))"
      using b "1.prems"(3) unfolding mult by (intro add_less_le_mono mult_le_mono) auto
    also have "\<dots> = 2 ^ (7 * pos)"
      using "1.prems"(2) by (cases pos) (simp_all add: power_add)
    finally show ?thesis .
  qed
  have mult': "push_bit 7 mult = 2 ^ (7 * (pos + 1 - 1))"
    using "1.prems"(2,4) by (cases pos) (simp_all add: push_bit_eq_mult power_add)
  from "1.prems"(1) have guards: "pos < len" "pos \<le> MQTT_VBI_MAX_BYTES" "p + pos < length buf"
    by (subst (asm) vbi_loop.simps, auto simp: rd_def split: if_splits)+
  show ?case
  proof (cases "buf ! (p + pos) AND 0x80 = 0")
    case True
    with "1.prems"(1) guards have "v' = v + ?b * mult" "q = pos + 1"
      by (subst (asm) vbi_loop.simps, simp add: rd_def Let_def)+
    with val show ?thesis by simp
  next
    case False
    with "1.prems"(1) guards
    have "vbi_loop buf p len (pos + 1) (v + ?b * mult) (push_bit 7 mult) = Inr (v', q)"
      by (subst (asm) vbi_loop.simps) (simp add: rd_def Let_def)
    with False guards val mult' show ?thesis
      by (intro "1.IH") (auto simp: rd_def)
  qed
qed


section \<open>Properties\<close>

lemma fixed_header_type_flags:
  assumes "unat (typ :: u8) < 16"
  shows "drop_bit 4 (push_bit 4 typ OR (flags AND 0x0F)) = typ"
    and "(push_bit 4 typ OR (flags AND 0x0F)) AND 0x0F = flags AND (0x0F :: u8)"
proof -
  have hi: "\<not> bit typ n" if "4 \<le> n" for n
  proof -
    have "take_bit 4 typ = typ"
      by (rule word_unat_eq_iff [THEN iffD2]) (use assms in \<open>simp add: unat_take_bit\<close>)
    then have "bit typ n \<longleftrightarrow> bit (take_bit 4 typ) n" by simp
    with that show ?thesis by (simp add: bit_take_bit_iff)
  qed
  then have lo: "n < 4" if "bit typ n" for n
    using that not_le by blast
  show "drop_bit 4 (push_bit 4 typ OR (flags AND 0x0F)) = typ"
    unfolding word_and_0F by (rule bit_word_eqI) (auto simp: bit_simps dest: lo)
  show "(push_bit 4 typ OR (flags AND 0x0F)) AND 0x0F = flags AND 0x0F"
    unfolding word_and_0F by (rule bit_word_eqI) (auto simp: bit_simps)
qed

lemma fixed_header_fields:
  assumes "unat typ < 16" "unat remaining < 2 ^ 28"
    and "at_offset buf p (mqtt_encode_fixed_header typ flags remaining)"
    and "length (mqtt_encode_fixed_header typ flags remaining) \<le> len"
  shows "mqtt_parse_fixed_header buf p len =
           Inr \<lparr>hdr_type = typ, hdr_flags = flags AND 0x0F, remaining_len = remaining,
                header_len = length (mqtt_encode_fixed_header typ flags remaining)\<rparr>
         \<and> 2 \<le> length (mqtt_encode_fixed_header typ flags remaining)
         \<and> length (mqtt_encode_fixed_header typ flags remaining) \<le> 5"
proof -
  let ?enc = "mqtt_encode_remaining_len remaining"
  have four: "length ?enc \<le> 4"
    using assms(2) by (intro length_encode_remaining_len) auto
  have one: "1 \<le> length ?enc"
    by (simp add: encode_remaining_len_nonempty Suc_leI)
  have "vbi_loop buf p len 1 0 1 = Inr (0 + remaining * 1, 1 + length ?enc)"
    using assms(3,4) four by (intro vbi_loop_enc) (simp_all add: mqtt_encode_fixed_header_def)
  with assms(3,4) one four fixed_header_type_flags [OF assms(1)] show ?thesis
    by (simp add: mqtt_parse_fixed_header_def mqtt_encode_fixed_header_def rd_def)
qed

text \<open>C32: Fixed header round trip.  The header the broker's encoder writes for a type and flags
  nibble and a remaining length below 2^28 is read back by its parser with every field unchanged,
  whatever bytes follow it, and the header length is the number of bytes written (2 to 5).\<close>

theorem fixed_header_roundtrip:
  assumes "unat typ < 16" "unat remaining < 2 ^ 28"
    and "at_offset buf p (mqtt_encode_fixed_header typ flags remaining)"
    and "length (mqtt_encode_fixed_header typ flags remaining) \<le> len"
  shows "mqtt_parse_fixed_header buf p len =
           Inr \<lparr>hdr_type = typ, hdr_flags = flags AND 0x0F, remaining_len = remaining,
                header_len = length (mqtt_encode_fixed_header typ flags remaining)\<rparr>
         \<and> 2 \<le> length (mqtt_encode_fixed_header typ flags remaining)
         \<and> length (mqtt_encode_fixed_header typ flags remaining) \<le> 5"
  using assms by (rule fixed_header_fields)

theorem fixed_header_roundtrip_witness:
  "mqtt_parse_fixed_header (mqtt_encode_fixed_header MQTT_PUBLISH 0x0B 321 @ [7, 7]) 0 5 =
     Inr \<lparr>hdr_type = MQTT_PUBLISH, hdr_flags = 0x0B, remaining_len = 321, header_len = 3\<rparr>"
proof -
  have enc: "mqtt_encode_fixed_header MQTT_PUBLISH 0x0B 321 = [0x3B, 0xC1, 0x02]"
    by code_simp
  show ?thesis
    using fixed_header_roundtrip [of MQTT_PUBLISH 321 "[0x3B, 0xC1, 0x02, 7, 7]" 0 "0x0B" 5]
    by (simp add: enc)
qed

lemma packet_total_unat:
  "header_len hdr \<le> 5 \<Longrightarrow> unat (remaining_len hdr) < 2 ^ 28 \<Longrightarrow>
   unat (packet_total hdr) = header_len hdr + unat (remaining_len hdr)"
  by (simp add: packet_total_def unat_word_ariths unat_of_nat_mod)

lemma parse_fixed_header_Inr:
  assumes "mqtt_parse_fixed_header buf p len = Inr hdr"
  shows "2 \<le> header_len hdr" "header_len hdr \<le> 5" "header_len hdr \<le> len"
    and "unat (remaining_len hdr) < 2 ^ 28"
proof -
  from assms obtain val pos where v: "vbi_loop buf p len 1 0 1 = Inr (val, pos)"
    and h: "remaining_len hdr = val" "header_len hdr = pos"
    by (auto simp: mqtt_parse_fixed_header_def ebind_Inr_iff split: if_splits)
  from vbi_loop_pos [OF v] h show "2 \<le> header_len hdr" "header_len hdr \<le> 5" "header_len hdr \<le> len"
    by auto
  have "unat val < 2 ^ (7 * (pos - 1))"
    by (rule vbi_loop_value [OF v]) auto
  also have "\<dots> \<le> 2 ^ 28"
    using vbi_loop_pos [OF v] by (intro power_increasing) auto
  finally show "unat (remaining_len hdr) < 2 ^ 28" by (simp add: h)
qed

lemma packet_complete_ok:
  assumes "p + len \<le> length buf"
  shows "mqtt_packet_complete_ex buf p len \<noteq> Inl OUT_OF_BOUNDS
    \<and> (case mqtt_packet_complete_ex buf p len of
         Inl e \<Rightarrow> e = MQTT_INCOMPLETE \<or> e = MQTT_ERR_MALFORMED
       | Inr (n, hdr) \<Rightarrow> n = header_len hdr + unat (remaining_len hdr) \<and> n \<le> len
           \<and> 2 \<le> header_len hdr \<and> header_len hdr \<le> 5 \<and> unat (remaining_len hdr) < 2 ^ 28)"
proof (cases "mqtt_parse_fixed_header buf p len")
  case (Inl e)
  have "e = MQTT_INCOMPLETE \<or> e = MQTT_ERR_MALFORMED"
    using Inl assms vbi_loop_safe [OF assms] vbi_loop_not_protocol
    by (cases e) (auto simp: mqtt_parse_fixed_header_def rd_def ebind_Inl_iff split: if_splits)
  then show ?thesis by (auto simp: mqtt_packet_complete_ex_def Inl)
next
  case (Inr hdr)
  note b = parse_fixed_header_Inr [OF Inr]
  show ?thesis
    using b by (auto simp: mqtt_packet_complete_ex_def Inr Let_def packet_total_unat)
qed

text \<open>C28: Framing is safe.  On any buffer that holds the bytes it was told about, packet framing
  reads nothing outside the buffer, and a frame it accepts lies inside the data: the total length is
  the exact (not wrapped) sum of a 2 to 5 byte header and a remaining length below 2^28.\<close>

theorem packet_complete_bounds:
  assumes "p + len \<le> length buf"
  shows "mqtt_packet_complete_ex buf p len \<noteq> Inl OUT_OF_BOUNDS
    \<and> (case mqtt_packet_complete_ex buf p len of
         Inl e \<Rightarrow> e = MQTT_INCOMPLETE \<or> e = MQTT_ERR_MALFORMED
       | Inr (n, hdr) \<Rightarrow> n = header_len hdr + unat (remaining_len hdr) \<and> n \<le> len
           \<and> 2 \<le> header_len hdr \<and> header_len hdr \<le> 5 \<and> unat (remaining_len hdr) < 2 ^ 28)"
  by (rule packet_complete_ok [OF assms])

theorem packet_complete_bounds_witness:
  "mqtt_packet_complete_ex [0xC0, 0x00, 0x30] 0 3 \<noteq> Inl OUT_OF_BOUNDS
   \<and> mqtt_packet_complete_ex [0xC0, 0x00, 0x30] 0 3 =
       Inr (2, \<lparr>hdr_type = MQTT_PINGREQ, hdr_flags = 0, remaining_len = 0, header_len = 2\<rparr>)"
proof -
  have "mqtt_packet_complete_ex [0xC0, 0x00, 0x30] 0 3 =
       Inr (2, \<lparr>hdr_type = MQTT_PINGREQ, hdr_flags = 0, remaining_len = 0, header_len = 2\<rparr>)"
    by code_simp
  moreover have "mqtt_packet_complete_ex [0xC0, 0x00, 0x30] 0 3 \<noteq> Inl OUT_OF_BOUNDS"
    by (rule packet_complete_bounds [THEN conjunct1]) simp
  ultimately show ?thesis by simp
qed

lemma vbi_loop_more_data:
  assumes "vbi_loop buf p len pos v mult \<noteq> Inl MQTT_INCOMPLETE" "len \<le> len'"
  shows "vbi_loop buf p len' pos v mult = vbi_loop buf p len pos v mult"
  using assms
proof (induction buf p len pos v mult rule: vbi_loop.induct)
  case (1 buf p len pos v mult)
  from "1.prems" have guard: "pos < len" "pos < len'"
    by (subst (asm) vbi_loop.simps, simp split: if_splits)+
  show ?case
  proof (cases "pos \<le> MQTT_VBI_MAX_BYTES \<and> p + pos < length buf \<and> buf ! (p + pos) AND 0x80 \<noteq> 0")
    case True
    with guard "1.prems"(1)
    have "vbi_loop buf p len (pos + 1) (v + ucast (buf ! (p + pos) AND 0x7F) * mult) (push_bit 7 mult)
            \<noteq> Inl MQTT_INCOMPLETE"
      by (subst (asm) vbi_loop.simps) (simp add: rd_def Let_def)
    then have "vbi_loop buf p len' (pos + 1) (v + ucast (buf ! (p + pos) AND 0x7F) * mult) (push_bit 7 mult)
         = vbi_loop buf p len (pos + 1) (v + ucast (buf ! (p + pos) AND 0x7F) * mult) (push_bit 7 mult)"
      using guard True "1.prems"(2) by (intro "1.IH") (auto simp: rd_def)
    with guard True show ?thesis
      by (simp add: vbi_loop.simps [of buf p len' pos v mult] vbi_loop.simps [of buf p len pos v mult]
            rd_def Let_def)
  next
    case False
    with guard show ?thesis
      by (auto simp: vbi_loop.simps [of buf p len' pos v mult] vbi_loop.simps [of buf p len pos v mult]
            rd_def Let_def)
  qed
qed

text \<open>C29: Framing is incremental.  Once the bytes received so far decide the outcome (a complete
  packet or a malformed header), receiving more bytes never changes it: only an incomplete verdict
  is revised, so splitting the stream into reads does not alter the packets the broker sees.\<close>

theorem packet_complete_incremental:
  assumes "mqtt_packet_complete_ex buf p len = r" "r \<noteq> Inl MQTT_INCOMPLETE" "len \<le> len'"
  shows "mqtt_packet_complete_ex buf p len' = r"
proof -
  have len: "2 \<le> len"
    using assms(1,2) by (auto simp: mqtt_packet_complete_ex_def mqtt_parse_fixed_header_def split: if_splits)
  have "vbi_loop buf p len 1 0 1 \<noteq> Inl MQTT_INCOMPLETE \<or> p \<ge> length buf"
    using assms(1,2) len
    by (auto simp: mqtt_packet_complete_ex_def mqtt_parse_fixed_header_def rd_def split: if_splits)
  then have hdr: "mqtt_parse_fixed_header buf p len' = mqtt_parse_fixed_header buf p len"
    using len assms(3) vbi_loop_more_data [OF _ assms(3), of buf p]
    by (auto simp: mqtt_parse_fixed_header_def rd_def)
  show ?thesis
    using assms unfolding mqtt_packet_complete_ex_def hdr
    by (cases "mqtt_parse_fixed_header buf p len") (auto simp: Let_def split: if_splits)
qed

theorem packet_complete_incremental_witness:
  "mqtt_packet_complete_ex [0x40, 0x02, 0x00, 0x07, 0xC0, 0x00] 0 6 =
     Inr (4, \<lparr>hdr_type = MQTT_PUBACK, hdr_flags = 0, remaining_len = 2, header_len = 2\<rparr>)"
proof -
  have "mqtt_packet_complete_ex [0x40, 0x02, 0x00, 0x07, 0xC0, 0x00] 0 4 =
     Inr (4, \<lparr>hdr_type = MQTT_PUBACK, hdr_flags = 0, remaining_len = 2, header_len = 2\<rparr>)"
    by code_simp
  from packet_complete_incremental [OF this, of 6] show ?thesis by simp
qed


section \<open>Strings on the wire\<close>

definition str_wire :: "bytes \<Rightarrow> bytes" where
  "str_wire s = [hi8 (of_nat (length s)), lo8 (of_nat (length s))] @ s"

definition str_within :: "nat \<Rightarrow> nat \<Rightarrow> mqtt_str \<Rightarrow> bool" where
  "str_within lo hi s \<longleftrightarrow> (case str_ptr s of None \<Rightarrow> str_len s = 0 | Some p \<Rightarrow> lo \<le> p \<and> p + str_len s \<le> hi)"

lemma length_str_wire [simp]: "length (str_wire s) = 2 + length s"
  by (simp add: str_wire_def)

lemma str_within_null [simp]: "str_within lo hi str_null"
  by (simp add: str_within_def str_null_def)

lemma str_within_mono: "str_within lo hi s \<Longrightarrow> lo' \<le> lo \<Longrightarrow> hi \<le> hi' \<Longrightarrow> str_within lo' hi' s"
  by (auto simp: str_within_def split: option.splits)

lemma mqtt_parse_string_wire:
  assumes "at_offset buf p (str_wire s)" "length s < 65536" "2 + length s \<le> remaining"
  shows "mqtt_parse_string buf p remaining
           = Inr (\<lparr>str_ptr = Some (p + 2), str_len = length s\<rparr>, 2 + length s)"
proof -
  have "p + 1 < length buf" using at_offset_bound [OF assms(1)] by simp
  then have "mqtt_read_u16 buf p = Inr (of_nat (length s))"
    using assms(1) by (simp add: mqtt_read_u16_in str_wire_def)
  moreover have "unat (of_nat (length s) :: u16) = length s"
    using assms(2) by (simp add: unat_of_nat_mod)
  ultimately show ?thesis using assms(3) by (simp add: mqtt_parse_string_def Let_def)
qed

lemma str_bytes_wire:
  "at_offset buf p (str_wire s) \<Longrightarrow> str_bytes buf \<lparr>str_ptr = Some (p + 2), str_len = length s\<rparr> = s"
  by (simp add: str_bytes_def str_wire_def at_offset_take)

lemma mqtt_parse_string_Inr:
  "mqtt_parse_string buf p remaining = Inr (s, n) \<Longrightarrow>
     n = 2 + str_len s \<and> str_ptr s = Some (p + 2) \<and> n \<le> remaining \<and> str_len s < 65536"
  by (auto simp: mqtt_parse_string_def ebind_Inr_iff Let_def split: if_splits)

lemma mqtt_parse_string_within:
  "mqtt_parse_string buf p remaining = Inr (s, n) \<Longrightarrow> str_within p (p + remaining) s"
  by (drule mqtt_parse_string_Inr) (simp add: str_within_def)

lemma mqtt_parse_string_Inl:
  "p + remaining \<le> length buf \<Longrightarrow> mqtt_parse_string buf p remaining = Inl e \<Longrightarrow> e = MQTT_INCOMPLETE"
  by (auto simp: mqtt_parse_string_def buf_simps Let_def split: if_splits)

end
