(* ===== verification/Trie.thy ===== *)
theory Trie
  imports Backshift Packet
begin

text \<open>
  The topic trie of \<^verbatim>\<open>src/src/broker/trie.h\<close>: nodes in a fixed array linked by index, a free
  list threaded through \<open>children[0]\<close>, a linearly probed child table per node, and a subscriber
  bitmap with generations.  Operations that return an error code return a bool with the new trie:
  a failed subscription keeps the nodes it has already made.
\<close>

section \<open>State\<close>

definition TRIE_MAX_NODES :: nat where
  "TRIE_MAX_NODES = 1024"

definition TRIE_MAX_CHILDREN :: nat where
  "TRIE_MAX_CHILDREN = 32"

definition TRIE_MAX_SEGMENT :: nat where
  "TRIE_MAX_SEGMENT = 64"

definition BITS_PER_SLOT :: nat where
  "BITS_PER_SLOT = 64"

definition TRIE_FD_SLOTS :: nat where
  "TRIE_FD_SLOTS = 64"

definition TRIE_CHILD_HASH_SIZE :: nat where
  "TRIE_CHILD_HASH_SIZE = 64"

definition TRIE_CHILD_HASH_MASK :: nat where
  "TRIE_CHILD_HASH_MASK = TRIE_CHILD_HASH_SIZE - 1"

definition TRIE_MAX_MATCHES :: nat where
  "TRIE_MAX_MATCHES = 64"

abbreviation (input) "SEG_PLUS \<equiv> 0x2B :: u8"
abbreviation (input) "SEG_HASH \<equiv> 0x23 :: u8"

record trie_node =
  tn_fd_bitmap :: "u64 list"
  tn_fd_gen :: "u8 list"
  tn_sub_count :: nat
  tn_parent :: nat
  tn_plus_child :: nat
  tn_hash_child :: nat
  tn_child_hash :: "nat list"
  tn_children :: "nat list"
  tn_child_count :: nat
  tn_name :: bytes
  tn_name_len :: nat
  tn_is_plus :: bool
  tn_is_hash :: bool

record topic_trie =
  tr_nodes :: "trie_node list"
  tr_free_head :: nat
  tr_node_count :: nat

text \<open>\<open>memset(node, 0, sizeof *node)\<close>.\<close>

definition zero_node :: trie_node where
  "zero_node = \<lparr>tn_fd_bitmap = replicate TRIE_FD_SLOTS 0,
     tn_fd_gen = replicate (TRIE_FD_SLOTS * BITS_PER_SLOT) 0, tn_sub_count = 0, tn_parent = 0,
     tn_plus_child = 0, tn_hash_child = 0, tn_child_hash = replicate TRIE_CHILD_HASH_SIZE 0,
     tn_children = replicate TRIE_MAX_CHILDREN 0, tn_child_count = 0,
     tn_name = replicate TRIE_MAX_SEGMENT 0, tn_name_len = 0, tn_is_plus = False, tn_is_hash = False\<rparr>"

definition node_update :: "topic_trie \<Rightarrow> nat \<Rightarrow> (trie_node \<Rightarrow> trie_node) \<Rightarrow> topic_trie" where
  "node_update t i f = t\<lparr>tr_nodes := (tr_nodes t)[i := f (tr_nodes t ! i)]\<rparr>"

definition trie_hash_segment :: "bytes \<Rightarrow> u32" where
  "trie_hash_segment seg = foldl (\<lambda>hash b. (hash XOR ucast b) * 16777619) 2166136261 seg"

section \<open>Allocation\<close>

definition trie_init :: topic_trie where
  "trie_init = \<lparr>tr_nodes = map (\<lambda>i. zero_node\<lparr>tn_children := (tn_children zero_node)
        [0 := if 1 \<le> i \<and> i < TRIE_MAX_NODES - 1 then i + 1 else 0]\<rparr>) [0..<TRIE_MAX_NODES],
     tr_free_head = 1, tr_node_count = 1\<rparr>"

definition trie_alloc :: "topic_trie \<Rightarrow> nat \<times> topic_trie" where
  "trie_alloc t =
     (if tr_free_head t = 0 then (0, t)
      else let idx = tr_free_head t;
               t = t\<lparr>tr_free_head := tn_children (tr_nodes t ! idx) ! 0,
                     tr_node_count := tr_node_count t + 1\<rparr>
           in (idx, node_update t idx (\<lambda>_. zero_node)))"

definition trie_free :: "topic_trie \<Rightarrow> nat \<Rightarrow> topic_trie" where
  "trie_free t idx =
     (if idx = 0 then t
      else let t = node_update t idx (\<lambda>n. n\<lparr>tn_children := (tn_children n)[0 := tr_free_head t]\<rparr>)
           in t\<lparr>tr_free_head := idx, tr_node_count := tr_node_count t - 1\<rparr>)"

section \<open>Children\<close>

definition find_child_stop :: "topic_trie \<Rightarrow> nat \<Rightarrow> bytes \<Rightarrow> nat \<Rightarrow> nat \<Rightarrow> nat option" where
  "find_child_stop t node_idx seg seg_len idx =
     (let child_idx = tn_child_hash (tr_nodes t ! node_idx) ! idx
      in if child_idx = 0 then Some 0
         else let child = tr_nodes t ! child_idx
              in if tn_name_len child = seg_len \<and> take seg_len (tn_name child) = take seg_len seg
                 then Some child_idx else None)"

definition trie_find_child :: "topic_trie \<Rightarrow> nat \<Rightarrow> bytes \<Rightarrow> nat \<Rightarrow> nat" where
  "trie_find_child t node_idx seg seg_len =
     (case probe_for (find_child_stop t node_idx seg seg_len) TRIE_CHILD_HASH_MASK TRIE_CHILD_HASH_SIZE
             (unat (trie_hash_segment (take seg_len seg)) AND TRIE_CHILD_HASH_MASK) of
        Some r \<Rightarrow> r
      | None \<Rightarrow> 0)"

definition trie_find_plus :: "topic_trie \<Rightarrow> nat \<Rightarrow> nat" where
  "trie_find_plus t node_idx = tn_plus_child (tr_nodes t ! node_idx)"

definition trie_find_hash :: "topic_trie \<Rightarrow> nat \<Rightarrow> nat" where
  "trie_find_hash t node_idx = tn_hash_child (tr_nodes t ! node_idx)"

definition trie_hash_insert :: "trie_node \<Rightarrow> nat \<Rightarrow> u32 \<Rightarrow> bool \<times> trie_node" where
  "trie_hash_insert parent child_idx hash =
     (case probe_for (\<lambda>i. if tn_child_hash parent ! i = 0 then Some i else None)
             TRIE_CHILD_HASH_MASK TRIE_CHILD_HASH_SIZE (unat hash AND TRIE_CHILD_HASH_MASK) of
        Some idx \<Rightarrow> (True, parent\<lparr>tn_child_hash := (tn_child_hash parent)[idx := child_idx]\<rparr>)
      | None \<Rightarrow> (False, parent))"

definition trie_add_child :: "topic_trie \<Rightarrow> nat \<Rightarrow> nat \<Rightarrow> bool \<times> topic_trie" where
  "trie_add_child t parent_idx child_idx =
     (if tn_child_count (tr_nodes t ! parent_idx) \<ge> TRIE_MAX_CHILDREN then (False, t)
      else let t = node_update t parent_idx (\<lambda>p. p\<lparr>
                     tn_children := (tn_children p)[tn_child_count p := child_idx],
                     tn_child_count := tn_child_count p + 1\<rparr>);
               t = node_update t child_idx (\<lambda>c. c\<lparr>tn_parent := parent_idx\<rparr>);
               child = tr_nodes t ! child_idx;
               hash = trie_hash_segment (take (tn_name_len child) (tn_name child))
           in case trie_hash_insert (tr_nodes t ! parent_idx) child_idx hash of
                (False, _) \<Rightarrow> (False, node_update t parent_idx (\<lambda>p. p\<lparr>tn_child_count := tn_child_count p - 1\<rparr>))
              | (True, parent) \<Rightarrow>
                  let t = node_update t parent_idx (\<lambda>_. parent)
                  in (True, if tn_is_plus child then node_update t parent_idx (\<lambda>p. p\<lparr>tn_plus_child := child_idx\<rparr>)
                            else if tn_is_hash child then node_update t parent_idx (\<lambda>p. p\<lparr>tn_hash_child := child_idx\<rparr>)
                            else t))"

section \<open>Subscribe and unsubscribe\<close>

definition seg_length :: "bytes \<Rightarrow> nat" where
  "seg_length seg = (if length seg > TRIE_MAX_SEGMENT then TRIE_MAX_SEGMENT else length seg)"

text \<open>The name and the wildcard flags of a node just allocated.\<close>

definition name_child :: "bytes \<Rightarrow> nat \<Rightarrow> trie_node \<Rightarrow> trie_node" where
  "name_child seg seg_len child =
     (let child = child\<lparr>tn_name_len := seg_len, tn_name := take seg_len seg @ drop seg_len (tn_name child)\<rparr>
      in if seg_len = 1 \<and> seg ! 0 = SEG_PLUS then child\<lparr>tn_is_plus := True\<rparr>
         else if seg_len = 1 \<and> seg ! 0 = SEG_HASH then child\<lparr>tn_is_hash := True\<rparr>
         else child)"

lemma seg_end_ge: "pos \<le> seg_end data len pos"
  by (induction data len pos rule: seg_end.induct) (subst seg_end.simps, auto)

lemma seg_end_le: "pos \<le> len \<Longrightarrow> seg_end data len pos \<le> len"
  by (induction data len pos rule: seg_end.induct) (subst seg_end.simps, auto)

lemma topic_iter_next_progress:
  assumes "topic_iter_next data len pos = Some (seg, pos')"
  shows "pos < pos'" "pos' \<le> len"
proof -
  have p: "pos < len" "pos' = (if seg_end data len pos < len then seg_end data len pos + 1 else seg_end data len pos)"
    using assms by (auto simp: topic_iter_next_extract topic_extract_segment_def Let_def split: if_splits)
  show "pos < pos'" "pos' \<le> len"
    using p seg_end_ge [of pos data len] seg_end_le [of pos len data] by auto
qed

text \<open>The node of the filter, made where it is missing, or \<open>None\<close> on failure.\<close>

function subscribe_walk :: "topic_trie \<Rightarrow> nat \<Rightarrow> bytes \<Rightarrow> nat \<Rightarrow> nat \<Rightarrow> nat option \<times> topic_trie" where
  "subscribe_walk t node_idx filt len pos =
     (case topic_iter_next filt len pos of
        None \<Rightarrow> (Some node_idx, t)
      | Some (seg, pos') \<Rightarrow>
          (let seg_len = seg_length seg;
               child_idx = trie_find_child t node_idx seg seg_len
           in if child_idx \<noteq> 0 then subscribe_walk t child_idx filt len pos'
              else case trie_alloc t of (child_idx, t1) \<Rightarrow>
                if child_idx = 0 then (None, t1)
                else case trie_add_child (node_update t1 child_idx (name_child seg seg_len)) node_idx child_idx of
                       (False, t2) \<Rightarrow> (None, trie_free t2 child_idx)
                     | (True, t2) \<Rightarrow> subscribe_walk t2 child_idx filt len pos'))"
  by pat_completeness auto
termination
proof (relation "measure (\<lambda>(t, node_idx, filt, len, pos). len - pos)", goal_cases)
  case (2 t node_idx filt len pos a seg pos')
  then show ?case using topic_iter_next_progress [of filt len pos seg pos'] by simp
next
  case (3 t node_idx filt len pos a seg pos')
  then show ?case using topic_iter_next_progress [of filt len pos seg pos'] by simp
qed simp

declare subscribe_walk.simps [simp del]

definition slot_bit :: "nat \<Rightarrow> u64" where
  "slot_bit slot_idx = push_bit (slot_idx mod BITS_PER_SLOT) 1"

definition node_subscribe :: "nat \<Rightarrow> u8 \<Rightarrow> trie_node \<Rightarrow> trie_node" where
  "node_subscribe slot_idx gen n =
     (let slot = slot_idx div BITS_PER_SLOT;
          b = slot_bit slot_idx
      in if tn_fd_bitmap n ! slot AND b = 0
         then n\<lparr>tn_fd_bitmap := (tn_fd_bitmap n)[slot := tn_fd_bitmap n ! slot OR b],
                tn_fd_gen := (tn_fd_gen n)[slot_idx := gen], tn_sub_count := tn_sub_count n + 1\<rparr>
         else n\<lparr>tn_fd_gen := (tn_fd_gen n)[slot_idx := gen]\<rparr>)"

definition trie_subscribe :: "topic_trie \<Rightarrow> bytes \<Rightarrow> nat \<Rightarrow> nat \<Rightarrow> u8 \<Rightarrow> bool \<times> topic_trie" where
  "trie_subscribe t filt len slot_idx gen =
     (if slot_idx \<ge> TRIE_FD_SLOTS * BITS_PER_SLOT then (False, t)
      else case subscribe_walk t 0 filt len 0 of
             (None, t) \<Rightarrow> (False, t)
           | (Some node_idx, t) \<Rightarrow> (True, node_update t node_idx (node_subscribe slot_idx gen)))"

function unsubscribe_walk :: "topic_trie \<Rightarrow> nat \<Rightarrow> bytes \<Rightarrow> nat \<Rightarrow> nat \<Rightarrow> nat option" where
  "unsubscribe_walk t node_idx filt len pos =
     (case topic_iter_next filt len pos of
        None \<Rightarrow> Some node_idx
      | Some (seg, pos') \<Rightarrow>
          (let child_idx = trie_find_child t node_idx seg (seg_length seg)
           in if child_idx = 0 then None else unsubscribe_walk t child_idx filt len pos'))"
  by pat_completeness auto
termination
proof (relation "measure (\<lambda>(t, node_idx, filt, len, pos). len - pos)", goal_cases)
  case (2 t node_idx filt len pos a seg pos')
  then show ?case using topic_iter_next_progress [of filt len pos seg pos'] by simp
qed simp

declare unsubscribe_walk.simps [simp del]

definition node_unsubscribe :: "nat \<Rightarrow> trie_node \<Rightarrow> trie_node" where
  "node_unsubscribe fd n =
     (let slot = fd div BITS_PER_SLOT;
          b = slot_bit fd
      in if tn_fd_bitmap n ! slot AND b \<noteq> 0
         then n\<lparr>tn_fd_bitmap := (tn_fd_bitmap n)[slot := tn_fd_bitmap n ! slot AND NOT b],
                tn_sub_count := tn_sub_count n - 1\<rparr>
         else n)"

definition trie_unsubscribe :: "topic_trie \<Rightarrow> bytes \<Rightarrow> nat \<Rightarrow> nat \<Rightarrow> bool \<times> topic_trie" where
  "trie_unsubscribe t filt len fd =
     (if fd \<ge> TRIE_FD_SLOTS * BITS_PER_SLOT then (False, t)
      else case unsubscribe_walk t 0 filt len 0 of
             None \<Rightarrow> (False, t)
           | Some node_idx \<Rightarrow> (True, node_update t node_idx (node_unsubscribe fd)))"

definition trie_remove_fd :: "topic_trie \<Rightarrow> nat \<Rightarrow> topic_trie" where
  "trie_remove_fd t fd =
     (if fd \<ge> TRIE_FD_SLOTS * BITS_PER_SLOT then t
      else t\<lparr>tr_nodes := map (node_unsubscribe fd) (tr_nodes t)\<rparr>)"

section \<open>Matching\<close>

lemma topic_extract_progress:
  "(seg, next_pos) = topic_extract_segment topic len pos \<Longrightarrow> \<not> len \<le> pos \<Longrightarrow> len - next_pos < len - pos"
  using topic_iter_next_progress [of topic len pos seg next_pos] by (simp add: topic_iter_next_extract)

text \<open>The nodes handed to the callback, in the order of the calls.\<close>

function trie_match_recursive :: "topic_trie \<Rightarrow> nat \<Rightarrow> bytes \<Rightarrow> nat \<Rightarrow> nat \<Rightarrow> nat list" where
  "trie_match_recursive t node_idx topic pos len =
     (let hash_child = trie_find_hash t node_idx;
          r0 = (if hash_child \<noteq> 0 \<and> tn_sub_count (tr_nodes t ! hash_child) > 0 then [hash_child] else [])
      in if pos \<ge> len
         then r0 @ (if tn_sub_count (tr_nodes t ! node_idx) > 0 then [node_idx] else [])
         else case topic_extract_segment topic len pos of (seg, next_pos) \<Rightarrow>
           let plus_child = trie_find_plus t node_idx;
               r1 = (if plus_child \<noteq> 0 then trie_match_recursive t plus_child topic next_pos len else []);
               r2 = (if length seg \<le> TRIE_MAX_SEGMENT
                     then let exact_child = trie_find_child t node_idx seg (length seg)
                          in if exact_child \<noteq> 0 then trie_match_recursive t exact_child topic next_pos len else []
                     else [])
           in r0 @ r1 @ r2)"
  by pat_completeness auto
termination
  by (relation "measure (\<lambda>(t, node_idx, topic, pos, len). len - pos)") (auto intro: topic_extract_progress)

declare trie_match_recursive.simps [simp del]

definition trie_match :: "topic_trie \<Rightarrow> bytes \<Rightarrow> nat \<Rightarrow> nat list" where
  "trie_match t topic len = trie_match_recursive t 0 topic 0 len"

text \<open>\<open>if (result->count < TRIE_MAX_MATCHES) result->nodes[result->count++] = node\<close>.\<close>

definition collect_node :: "nat \<Rightarrow> nat list \<Rightarrow> nat list" where
  "collect_node n result = (if length result < TRIE_MAX_MATCHES then result @ [n] else result)"

function trie_match_collect_recursive :: "topic_trie \<Rightarrow> nat \<Rightarrow> bytes \<Rightarrow> nat \<Rightarrow> nat \<Rightarrow> nat list \<Rightarrow> nat list" where
  "trie_match_collect_recursive t node_idx topic pos len result =
     (let hash_child = trie_find_hash t node_idx;
          result = (if hash_child \<noteq> 0 \<and> tn_sub_count (tr_nodes t ! hash_child) > 0
                    then collect_node hash_child result else result)
      in if pos \<ge> len
         then if tn_sub_count (tr_nodes t ! node_idx) > 0 then collect_node node_idx result else result
         else case topic_extract_segment topic len pos of (seg, next_pos) \<Rightarrow>
           let plus_child = trie_find_plus t node_idx;
               result = (if plus_child \<noteq> 0
                         then trie_match_collect_recursive t plus_child topic next_pos len result else result)
           in if length seg \<le> TRIE_MAX_SEGMENT
              then let exact_child = trie_find_child t node_idx seg (length seg)
                   in if exact_child \<noteq> 0
                      then trie_match_collect_recursive t exact_child topic next_pos len result else result
              else result)"
  by pat_completeness auto
termination
  by (relation "measure (\<lambda>(t, node_idx, topic, pos, len, result). len - pos)") (auto intro: topic_extract_progress)

declare trie_match_collect_recursive.simps [simp del]

definition trie_match_collect :: "topic_trie \<Rightarrow> bytes \<Rightarrow> nat \<Rightarrow> nat list" where
  "trie_match_collect t topic len = trie_match_collect_recursive t 0 topic 0 len []"

text \<open>
  \<open>while (bits) { ctz; call; bits &= bits - 1 }\<close>: the bit positions in ascending order.  At most
  64 iterations, one per bit.
\<close>

definition ctz64 :: "u64 \<Rightarrow> nat" where
  "ctz64 x = length (takeWhile (\<lambda>i. \<not> bit x i) [0..<64])"

fun for_each_bit :: "nat \<Rightarrow> u64 \<Rightarrow> nat list" where
  "for_each_bit 0 bits = []"
| "for_each_bit (Suc n) bits = (if bits = 0 then [] else ctz64 bits # for_each_bit n (bits AND (bits - 1)))"

definition trie_for_each_fd :: "trie_node \<Rightarrow> nat list" where
  "trie_for_each_fd n =
     concat (map (\<lambda>slot. map (\<lambda>i. slot * BITS_PER_SLOT + i) (for_each_bit 64 (tn_fd_bitmap n ! slot)))
        [0..<TRIE_FD_SLOTS])"

end
