(* ===== verification/Trie_Inv.thy ===== *)
theory Trie_Inv
  imports Trie
begin

text \<open>
  The representation invariant of the topic trie of \<^verbatim>\<open>src/src/broker/trie.h\<close> and what its
  operations do to the map from topic filter paths to nodes: the free list and the allocated nodes
  split the array, every allocated node's child table finds exactly its children, siblings have
  different names, and every child knows its parent.
\<close>

section \<open>Invariant\<close>

definition seg_name :: "topic_trie \<Rightarrow> nat \<Rightarrow> bytes" where
  "seg_name t n = take (tn_name_len (tr_nodes t ! n)) (tn_name (tr_nodes t ! n))"

definition kids :: "topic_trie \<Rightarrow> nat \<Rightarrow> nat list" where
  "kids t n = take (tn_child_count (tr_nodes t ! n)) (tn_children (tr_nodes t ! n))"

definition seg_home :: "topic_trie \<Rightarrow> nat \<Rightarrow> nat" where
  "seg_home t n = unat (trie_hash_segment (seg_name t n)) mod 64"

definition node_shape :: "trie_node \<Rightarrow> bool" where
  "node_shape n \<longleftrightarrow> length (tn_fd_bitmap n) = 64 \<and> length (tn_fd_gen n) = 4096
     \<and> length (tn_child_hash n) = 64 \<and> length (tn_children n) = 32 \<and> length (tn_name n) = 64
     \<and> tn_child_count n \<le> 32 \<and> tn_name_len n \<le> 64"

fun free_chain :: "trie_node list \<Rightarrow> nat \<Rightarrow> nat list \<Rightarrow> bool" where
  "free_chain nodes head [] \<longleftrightarrow> head = 0"
| "free_chain nodes head (x # xs) \<longleftrightarrow> head = x \<and> 0 < x \<and> x < length nodes
     \<and> free_chain nodes (tn_children (nodes ! x) ! 0) xs"

definition wild_child :: "topic_trie \<Rightarrow> nat \<Rightarrow> bytes \<Rightarrow> nat \<Rightarrow> bool" where
  "wild_child t n name w \<longleftrightarrow> (if w = 0 then \<forall>c \<in> set (kids t n). seg_name t c \<noteq> name
     else w \<in> set (kids t n) \<and> seg_name t w = name)"

definition node_ok :: "topic_trie \<Rightarrow> nat set \<Rightarrow> nat \<Rightarrow> bool" where
  "node_ok t A p \<longleftrightarrow> distinct (kids t p) \<and> set (kids t p) \<subseteq> A - {0}
     \<and> (\<forall>c \<in> set (kids t p). tn_parent (tr_nodes t ! c) = p)
     \<and> inj_on (seg_name t) (set (kids t p))
     \<and> chain_ok (seg_home t) 0 (tn_child_hash (tr_nodes t ! p))
     \<and> live_cells 0 (tn_child_hash (tr_nodes t ! p)) = mset (kids t p)
     \<and> wild_child t p [SEG_PLUS] (tn_plus_child (tr_nodes t ! p))
     \<and> wild_child t p [SEG_HASH] (tn_hash_child (tr_nodes t ! p))"

definition allocated :: "nat list \<Rightarrow> nat set" where
  "allocated fl = {..<TRIE_MAX_NODES} - set fl"

definition trie_inv :: "topic_trie \<Rightarrow> nat list \<Rightarrow> bool" where
  "trie_inv t fl \<longleftrightarrow> length (tr_nodes t) = TRIE_MAX_NODES
     \<and> (\<forall>n < TRIE_MAX_NODES. node_shape (tr_nodes t ! n))
     \<and> free_chain (tr_nodes t) (tr_free_head t) fl \<and> distinct fl
     \<and> tr_node_count t + length fl = TRIE_MAX_NODES
     \<and> (\<forall>p \<in> allocated fl. node_ok t (allocated fl) p)"

lemma free_chain_range: "free_chain nodes head fl \<Longrightarrow> set fl \<subseteq> {0<..<length nodes}"
  by (induction fl arbitrary: head) auto

lemma allocatedD: "n \<in> allocated fl \<Longrightarrow> n < TRIE_MAX_NODES" "n \<in> allocated fl \<Longrightarrow> n \<notin> set fl"
  by (simp_all add: allocated_def)

lemma root_allocated: "trie_inv t fl \<Longrightarrow> 0 \<in> allocated fl"
  using free_chain_range [of "tr_nodes t" "tr_free_head t" fl]
  by (auto simp: trie_inv_def allocated_def TRIE_MAX_NODES_def)

lemma trie_invD:
  assumes "trie_inv t fl"
  shows "length (tr_nodes t) = TRIE_MAX_NODES" "n < TRIE_MAX_NODES \<Longrightarrow> node_shape (tr_nodes t ! n)"
    "free_chain (tr_nodes t) (tr_free_head t) fl" "distinct fl" "tr_node_count t + length fl = TRIE_MAX_NODES"
    "p \<in> allocated fl \<Longrightarrow> node_ok t (allocated fl) p"
  using assms unfolding trie_inv_def by blast+

lemma trie_inv_nth: "trie_inv t fl \<Longrightarrow> n \<in> allocated fl \<Longrightarrow> n < length (tr_nodes t)"
  using trie_invD(1) allocatedD(1) by metis

lemma node_okD:
  assumes "node_ok t A p"
  shows "distinct (kids t p)" "set (kids t p) \<subseteq> A - {0}" "c \<in> set (kids t p) \<Longrightarrow> tn_parent (tr_nodes t ! c) = p"
    "inj_on (seg_name t) (set (kids t p))" "chain_ok (seg_home t) 0 (tn_child_hash (tr_nodes t ! p))"
    "live_cells 0 (tn_child_hash (tr_nodes t ! p)) = mset (kids t p)"
    "wild_child t p [SEG_PLUS] (tn_plus_child (tr_nodes t ! p))"
    "wild_child t p [SEG_HASH] (tn_hash_child (tr_nodes t ! p))"
  using assms unfolding node_ok_def by blast+

lemma seg_name_length: "trie_inv t fl \<Longrightarrow> n < TRIE_MAX_NODES \<Longrightarrow> length (seg_name t n) = tn_name_len (tr_nodes t ! n)"
  using trie_invD(2) [of t fl n] by (simp add: seg_name_def node_shape_def)

lemma kids_length: "trie_inv t fl \<Longrightarrow> n < TRIE_MAX_NODES \<Longrightarrow> length (kids t n) = tn_child_count (tr_nodes t ! n)"
  using trie_invD(2) [of t fl n] by (simp add: kids_def node_shape_def)

section \<open>Looking up a child\<close>

lemma child_table: "pow2_table 64 TRIE_CHILD_HASH_MASK" "TRIE_CHILD_HASH_SIZE = 64"
    "x AND TRIE_CHILD_HASH_MASK = x mod 64"
proof -
  show p: "pow2_table 64 TRIE_CHILD_HASH_MASK"
    by (rule pow2_tableI [where k = 6]) (simp_all add: TRIE_CHILD_HASH_MASK_def TRIE_CHILD_HASH_SIZE_def)
  show "x AND TRIE_CHILD_HASH_MASK = x mod 64" by (rule pow2_table_mask [OF p])
qed (simp add: TRIE_CHILD_HASH_SIZE_def)

lemma child_hash_in:
  assumes "node_ok t A p" "c \<noteq> 0"
  shows "c \<in> set (tn_child_hash (tr_nodes t ! p)) \<longleftrightarrow> c \<in> set (kids t p)"
proof -
  have "c \<in># live_cells 0 (tn_child_hash (tr_nodes t ! p)) \<longleftrightarrow> c \<in> set (kids t p)"
    unfolding node_okD(6) [OF assms(1)] by simp
  with assms(2) show ?thesis by (simp add: in_live_cells)
qed

lemma find_child_stop_eq:
  assumes inv: "trie_inv t fl" and p: "p \<in> allocated fl" and i: "i < 64"
  defines "c \<equiv> tn_child_hash (tr_nodes t ! p) ! i"
  shows "find_child_stop t p seg (length seg) i
    = (if c = 0 then Some 0 else if seg_name t c = seg then Some c else None)"
proof (cases "c = 0")
  case True
  then show ?thesis by (simp add: find_child_stop_def c_def)
next
  case False
  note ok = trie_invD(6) [OF inv p]
  have "length (tn_child_hash (tr_nodes t ! p)) = 64"
    using trie_invD(2) [OF inv] allocatedD(1) [OF p] by (simp add: node_shape_def)
  then have "c \<in> set (tn_child_hash (tr_nodes t ! p))" using i by (simp add: c_def)
  then have "c \<in> set (kids t p)" using child_hash_in [OF ok False] by blast
  then have "c < TRIE_MAX_NODES" using node_okD(2) [OF ok] allocatedD(1) by blast
  then have "length (seg_name t c) = tn_name_len (tr_nodes t ! c)" by (rule seg_name_length [OF inv])
  then have "seg_name t c = seg \<longleftrightarrow> tn_name_len (tr_nodes t ! c) = length seg
      \<and> take (length seg) (tn_name (tr_nodes t ! c)) = take (length seg) seg"
    by (auto simp: seg_name_def)
  with False show ?thesis by (simp add: find_child_stop_def c_def Let_def)
qed

lemma trie_find_child_found:
  assumes inv: "trie_inv t fl" and p: "p \<in> allocated fl" and c: "c \<in> set (kids t p)" "seg_name t c = seg"
  shows "trie_find_child t p seg (length seg) = c"
proof -
  note ok = trie_invD(6) [OF inv p]
  let ?tab = "tn_child_hash (tr_nodes t ! p)" and ?body = "find_child_stop t p seg (length seg)"
  have c0: "c \<noteq> 0" using node_okD(2) [OF ok] c(1) by auto
  have len: "64 = length ?tab"
    using trie_invD(2) [OF inv] allocatedD(1) [OF p] by (simp add: node_shape_def)
  have "c \<in> set ?tab" using child_hash_in [OF ok c0] c(1) by blast
  moreover have "seg_home t c = unat (trie_hash_segment seg) mod 64" by (simp add: seg_home_def c(2))
  moreover have "?body i \<noteq> None" if "i < 64" "?tab ! i = c" for i
    using find_child_stop_eq [OF inv p that(1), of seg] that c(2) c0 by simp
  ultimately obtain i where i: "i < 64" "probe_for ?body TRIE_CHILD_HASH_MASK 64 (unat (trie_hash_segment seg) mod 64) = ?body i"
      "?body i \<noteq> None" "?tab ! i \<noteq> 0"
    using chain_lookup [where body = ?body, OF child_table(1) len node_okD(5) [OF ok] _ c0] by metis
  have st: "?body i = Some (?tab ! i)" "seg_name t (?tab ! i) = seg"
    using find_child_stop_eq [OF inv p i(1), of seg] i(3,4) by (auto split: if_splits)
  have "?tab ! i \<in> set (kids t p)" using child_hash_in [OF ok i(4)] i(1) len by simp
  then have "?tab ! i = c" using node_okD(4) [OF ok] c st(2) by (metis inj_onD)
  then show ?thesis using i(2) st(1) by (simp add: trie_find_child_def child_table)
qed

lemma trie_find_child_result:
  assumes inv: "trie_inv t fl" and p: "p \<in> allocated fl" and c: "trie_find_child t p seg (length seg) = c" "c \<noteq> 0"
  shows "c \<in> set (kids t p) \<and> seg_name t c = seg"
proof -
  note ok = trie_invD(6) [OF inv p]
  let ?tab = "tn_child_hash (tr_nodes t ! p)" and ?body = "find_child_stop t p seg (length seg)"
  have len: "64 = length ?tab"
    using trie_invD(2) [OF inv] allocatedD(1) [OF p] by (simp add: node_shape_def)
  have "probe_for ?body TRIE_CHILD_HASH_MASK 64 (unat (trie_hash_segment seg) mod 64) = Some c"
    using c by (simp add: trie_find_child_def child_table split: option.splits)
  then obtain i where i: "i < 64" "?body i = Some c"
    unfolding probe_for_Some_path [OF child_table(1)] by (elim exE conjE)
  have st: "?tab ! i = c" "seg_name t c = seg"
    using find_child_stop_eq [OF inv p i(1), of seg] i(2) c(2) by (auto split: if_splits)
  have "c \<in> set ?tab" using st(1) i(1) len by auto
  then show ?thesis using child_hash_in [OF ok c(2)] st(2) by blast
qed

lemma trie_find_child_iff:
  assumes "trie_inv t fl" "p \<in> allocated fl" "c \<noteq> 0"
  shows "trie_find_child t p seg (length seg) = c \<longleftrightarrow> c \<in> set (kids t p) \<and> seg_name t c = seg"
  using trie_find_child_found [OF assms(1,2)] trie_find_child_result [OF assms(1,2)] assms(3) by blast

lemma trie_find_child_allocated:
  "trie_inv t fl \<Longrightarrow> p \<in> allocated fl \<Longrightarrow> trie_find_child t p seg (length seg) \<noteq> 0 \<Longrightarrow>
     trie_find_child t p seg (length seg) \<in> allocated fl"
  using trie_find_child_result [of t fl p seg] node_okD(2) [OF trie_invD(6)] by blast

section \<open>Paths\<close>

fun walk :: "topic_trie \<Rightarrow> nat \<Rightarrow> bytes list \<Rightarrow> nat option" where
  "walk t n [] = Some n"
| "walk t n (s # ss) = (let c = trie_find_child t n s (length s) in if c = 0 then None else walk t c ss)"

abbreviation path_node :: "topic_trie \<Rightarrow> bytes list \<Rightarrow> nat option" where
  "path_node t path \<equiv> walk t 0 path"

lemma walk_append: "walk t n (p @ q) = (case walk t n p of None \<Rightarrow> None | Some m \<Rightarrow> walk t m q)"
  by (induction t n p rule: walk.induct) (auto simp: Let_def)

lemma walk_snoc: "walk t n (p @ [s]) = (case walk t n p of None \<Rightarrow> None
    | Some m \<Rightarrow> if trie_find_child t m s (length s) = 0 then None else Some (trie_find_child t m s (length s)))"
  by (simp add: walk_append Let_def split: option.splits)

lemma walk_allocated: "trie_inv t fl \<Longrightarrow> n \<in> allocated fl \<Longrightarrow> walk t n path = Some m \<Longrightarrow> m \<in> allocated fl"
  by (induction t n path rule: walk.induct)
     (auto simp: Let_def trie_find_child_allocated split: if_splits)

lemma path_node_unique:
  assumes "trie_inv t fl" "path_node t p = Some n" "path_node t q = Some n"
  shows "p = q"
  using assms(2,3)
proof (induction p arbitrary: n q rule: rev_induct)
  case Nil
  show ?case
  proof (cases q rule: rev_cases)
    case (snoc r s)
    with Nil have "trie_find_child t m s (length s) = 0 \<and> trie_find_child t m s (length s) \<noteq> 0"
      if "walk t 0 r = Some m" for m
      using that by (auto simp: walk_snoc split: if_splits)
    with snoc Nil show ?thesis by (auto simp: walk_snoc split: option.splits)
  qed simp
next
  case (snoc s p)
  from snoc.prems(1) obtain m where m: "path_node t p = Some m" "trie_find_child t m s (length s) = n" "n \<noteq> 0"
    by (auto simp: walk_snoc split: option.splits if_splits)
  show ?case
  proof (cases q rule: rev_cases)
    case Nil
    with snoc.prems(2) m(3) show ?thesis by simp
  next
    case (snoc r s')
    with snoc.prems(2) obtain m' where m': "path_node t r = Some m'" "trie_find_child t m' s' (length s') = n"
      by (auto simp: walk_snoc split: option.splits if_splits)
    note A = walk_allocated [OF assms(1) root_allocated [OF assms(1)]]
    have k: "n \<in> set (kids t m) \<and> seg_name t n = s" "n \<in> set (kids t m') \<and> seg_name t n = s'"
      using trie_find_child_result [OF assms(1) A [OF m(1)] m(2,3)]
        trie_find_child_result [OF assms(1) A [OF m'(1)] m'(2) m(3)] by blast+
    have "m = m'"
      using node_okD(3) [OF trie_invD(6) [OF assms(1) A [OF m(1)]], of n] k
        node_okD(3) [OF trie_invD(6) [OF assms(1) A [OF m'(1)]], of n] by simp
    with snoc.IH m(1) m'(1) k snoc show ?thesis by auto
  qed
qed

section \<open>Adding a child\<close>

lemma free_chain_cong:
  "free_chain nodes head fl \<Longrightarrow> length nodes' = length nodes \<Longrightarrow>
   (\<And>x. x \<in> set fl \<Longrightarrow> tn_children (nodes' ! x) ! 0 = tn_children (nodes ! x) ! 0) \<Longrightarrow>
   free_chain nodes' head fl"
  by (induction fl arbitrary: head) auto

lemma node_ok_cong:
  assumes ok: "node_ok t A n"
    and same: "kids t' n = kids t n" "tn_child_hash (tr_nodes t' ! n) = tn_child_hash (tr_nodes t ! n)"
      "tn_plus_child (tr_nodes t' ! n) = tn_plus_child (tr_nodes t ! n)"
      "tn_hash_child (tr_nodes t' ! n) = tn_hash_child (tr_nodes t ! n)"
    and kid: "\<And>c. c \<in> set (kids t n) \<Longrightarrow> seg_name t' c = seg_name t c"
      "\<And>c. c \<in> set (kids t n) \<Longrightarrow> tn_parent (tr_nodes t' ! c) = tn_parent (tr_nodes t ! c)"
    and A: "A \<subseteq> A'"
  shows "node_ok t' A' n"
  unfolding node_ok_def same
proof (intro conjI)
  show "set (kids t n) \<subseteq> A' - {0}" using node_okD(2) [OF ok] A by blast
  show "\<forall>c\<in>set (kids t n). tn_parent (tr_nodes t' ! c) = n" using node_okD(3) [OF ok] kid(2) by simp
  show "inj_on (seg_name t') (set (kids t n))"
    using node_okD(4) [OF ok] kid(1) by (simp add: inj_on_def)
  show "chain_ok (seg_home t') 0 (tn_child_hash (tr_nodes t ! n))"
  proof (rule chain_ok_cong [OF node_okD(5) [OF ok]])
    fix s
    assume "s \<in> set (tn_child_hash (tr_nodes t ! n))" "s \<noteq> 0"
    then have "s \<in> set (kids t n)" using child_hash_in [OF ok] by simp
    then show "seg_home t' s = seg_home t s" by (simp add: seg_home_def kid(1))
  qed
  have w: "wild_child t n x w \<Longrightarrow> wild_child t' n x w" for x w
    using kid(1) by (simp add: wild_child_def same split: if_splits)
  show "wild_child t' n [SEG_PLUS] (tn_plus_child (tr_nodes t ! n))" by (rule w [OF node_okD(7) [OF ok]])
  show "wild_child t' n [SEG_HASH] (tn_hash_child (tr_nodes t ! n))" by (rule w [OF node_okD(8) [OF ok]])
qed (fact node_okD(1) [OF ok], fact node_okD(6) [OF ok])

definition grown_parent :: "nat \<Rightarrow> nat \<Rightarrow> bytes \<Rightarrow> trie_node \<Rightarrow> trie_node" where
  "grown_parent c idx seg n = n\<lparr>tn_children := (tn_children n)[tn_child_count n := c],
     tn_child_count := tn_child_count n + 1, tn_child_hash := (tn_child_hash n)[idx := c],
     tn_plus_child := (if seg = [SEG_PLUS] then c else tn_plus_child n),
     tn_hash_child := (if seg = [SEG_HASH] then c else tn_hash_child n)\<rparr>"

definition new_child :: "nat \<Rightarrow> bytes \<Rightarrow> trie_node" where
  "new_child p seg = (name_child seg (length seg) zero_node)\<lparr>tn_parent := p\<rparr>"

lemma new_child_fields:
  assumes "length seg \<le> 64"
  shows "take (tn_name_len (new_child p seg)) (tn_name (new_child p seg)) = seg"
    "tn_child_count (new_child p seg) = 0" "tn_child_hash (new_child p seg) = replicate 64 0"
    "tn_plus_child (new_child p seg) = 0" "tn_hash_child (new_child p seg) = 0"
    "tn_parent (new_child p seg) = p" "tn_fd_bitmap (new_child p seg) = replicate 64 0"
    "node_shape (new_child p seg)" "tn_sub_count (new_child p seg) = 0"
  using assms
  by (simp_all add: new_child_def name_child_def zero_node_def node_shape_def Let_def TRIE_CHILD_HASH_SIZE_def
      TRIE_FD_SLOTS_def TRIE_MAX_SEGMENT_def TRIE_MAX_CHILDREN_def BITS_PER_SLOT_def)

text \<open>The trie after \<open>trie_alloc\<close>, naming and \<open>trie_add_child\<close>, cell by cell.\<close>

definition grown :: "topic_trie \<Rightarrow> nat \<Rightarrow> nat \<Rightarrow> nat \<Rightarrow> bytes \<Rightarrow> topic_trie \<Rightarrow> bool" where
  "grown t p c idx seg t' \<longleftrightarrow> length (tr_nodes t') = length (tr_nodes t)
     \<and> tr_free_head t' = tn_children (tr_nodes t ! c) ! 0 \<and> tr_node_count t' = tr_node_count t + 1
     \<and> (\<forall>n. tr_nodes t' ! n = (if n = p then grown_parent c idx seg (tr_nodes t ! p)
                                 else if n = c then new_child p seg else tr_nodes t ! n))"

lemma allocated_Cons: "c < TRIE_MAX_NODES \<Longrightarrow> c \<notin> set fl \<Longrightarrow> allocated fl = insert c (allocated (c # fl))"
  by (auto simp: allocated_def)

lemma grown_views:
  assumes inv: "trie_inv t (c # fl)" and p: "p \<in> allocated (c # fl)" and seg: "length seg \<le> 64"
    and room: "tn_child_count (tr_nodes t ! p) < 32" and g: "grown t p c idx seg t'"
  shows "p \<noteq> c" "c \<noteq> 0" "c \<in> allocated fl" "c \<notin> allocated (c # fl)" "allocated fl = insert c (allocated (c # fl))"
    "seg_name t' n = (if n = c then seg else seg_name t n)"
    "kids t' n = (if n = p then kids t p @ [c] else if n = c then [] else kids t n)"
    "tn_parent (tr_nodes t' ! n) = (if n = c then p else tn_parent (tr_nodes t ! n))"
    "tn_fd_bitmap (tr_nodes t' ! n) = (if n = c then replicate 64 0 else tn_fd_bitmap (tr_nodes t ! n))"
    "tn_sub_count (tr_nodes t' ! n) = (if n = c then 0 else tn_sub_count (tr_nodes t ! n))"
    "n \<noteq> c \<Longrightarrow> tn_fd_gen (tr_nodes t' ! n) = tn_fd_gen (tr_nodes t ! n)"
proof -
  have nodes: "tr_nodes t' ! n = (if n = p then grown_parent c idx seg (tr_nodes t ! p)
                                 else if n = c then new_child p seg else tr_nodes t ! n)" for n
    using g by (simp add: grown_def)
  show pc: "p \<noteq> c" using allocatedD(2) [OF p] by auto
  have c: "0 < c" "c < TRIE_MAX_NODES" "c \<notin> set fl"
    using trie_invD(1,3,4) [OF inv] by auto
  then show "c \<noteq> 0" "c \<in> allocated fl" "c \<notin> allocated (c # fl)" by (auto simp: allocated_def)
  show "allocated fl = insert c (allocated (c # fl))" by (rule allocated_Cons [OF c(2,3)])
  note nc = new_child_fields [OF seg, of p]
  show "seg_name t' n = (if n = c then seg else seg_name t n)"
    using pc nc(1) by (auto simp: seg_name_def nodes grown_parent_def)
  have "length (tn_children (tr_nodes t ! p)) = 32"
    using trie_invD(2) [OF inv] allocatedD(1) [OF p] by (simp add: node_shape_def)
  then show "kids t' n = (if n = p then kids t p @ [c] else if n = c then [] else kids t n)"
    using pc nc(2) room by (auto simp: kids_def nodes grown_parent_def take_Suc_conv_app_nth)
  show "tn_parent (tr_nodes t' ! n) = (if n = c then p else tn_parent (tr_nodes t ! n))"
    using pc nc(6) by (auto simp: nodes grown_parent_def)
  show "tn_fd_bitmap (tr_nodes t' ! n) = (if n = c then replicate 64 0 else tn_fd_bitmap (tr_nodes t ! n))"
    using pc nc(7) by (auto simp: nodes grown_parent_def)
  show "tn_sub_count (tr_nodes t' ! n) = (if n = c then 0 else tn_sub_count (tr_nodes t ! n))"
    using pc nc(9) by (auto simp: nodes grown_parent_def)
  show "n \<noteq> c \<Longrightarrow> tn_fd_gen (tr_nodes t' ! n) = tn_fd_gen (tr_nodes t ! n)"
    by (simp add: nodes grown_parent_def)
qed

lemma grown_inv:
  assumes inv: "trie_inv t (c # fl)" and p: "p \<in> allocated (c # fl)" and seg: "length seg \<le> 64"
    and room: "tn_child_count (tr_nodes t ! p) < 32" and g: "grown t p c idx seg t'"
    and fresh: "\<forall>k \<in> set (kids t p). seg_name t k \<noteq> seg"
    and idx: "probe_for (\<lambda>i. if tn_child_hash (tr_nodes t ! p) ! i = 0 then Some i else None)
        TRIE_CHILD_HASH_MASK 64 (unat (trie_hash_segment seg) mod 64) = Some idx"
  shows "trie_inv t' fl"
  unfolding trie_inv_def
proof (intro conjI ballI allI impI)
  note v = grown_views [OF inv p seg room g]
  note ok = trie_invD(6) [OF inv]
  have nodes: "tr_nodes t' ! n = (if n = p then grown_parent c idx seg (tr_nodes t ! p)
                                 else if n = c then new_child p seg else tr_nodes t ! n)" for n
    using g by (simp add: grown_def)
  have chain: "free_chain (tr_nodes t) (tn_children (tr_nodes t ! c) ! 0) fl"
    using trie_invD(3) [OF inv] by simp
  show "length (tr_nodes t') = TRIE_MAX_NODES" using g trie_invD(1) [OF inv] by (simp add: grown_def)
  show "distinct fl" using trie_invD(4) [OF inv] by simp
  show "tr_node_count t' + length fl = TRIE_MAX_NODES"
    using g trie_invD(5) [OF inv] by (simp add: grown_def)
  show "free_chain (tr_nodes t') (tr_free_head t') fl"
  proof -
    have "free_chain (tr_nodes t') (tn_children (tr_nodes t ! c) ! 0) fl"
    proof (rule free_chain_cong [OF chain])
      fix x
      assume x: "x \<in> set fl"
      then have "x \<noteq> p" "x \<noteq> c" using allocatedD(2) [OF p] trie_invD(4) [OF inv] by auto
      then show "tn_children (tr_nodes t' ! x) ! 0 = tn_children (tr_nodes t ! x) ! 0" by (simp add: nodes)
    qed (use g in \<open>simp add: grown_def\<close>)
    then show ?thesis using g by (simp add: grown_def)
  qed
  show "node_shape (tr_nodes t' ! n)" if "n < TRIE_MAX_NODES" for n
  proof -
    have "node_shape (grown_parent c idx seg (tr_nodes t ! p))"
      using trie_invD(2) [OF inv allocatedD(1) [OF p]] room by (simp add: node_shape_def grown_parent_def)
    then show ?thesis
      using trie_invD(2) [OF inv that] new_child_fields(8) [OF seg] by (simp add: nodes)
  qed
  fix n
  assume n: "n \<in> allocated fl"
  consider "n = p" | "n = c" | "n \<noteq> p" "n \<noteq> c" "n \<in> allocated (c # fl)"
    using n v(5) by auto
  then show "node_ok t' (allocated fl) n"
  proof cases
    case 1
    note okp = ok [OF p]
    have ckid: "c \<notin> set (kids t p)" using node_okD(2) [OF okp] v(4) by blast
    have kid: "k \<noteq> c" if "k \<in> set (kids t p)" for k using that ckid by blast
    let ?tab = "tn_child_hash (tr_nodes t ! p)"
    have len: "64 = length ?tab"
      using trie_invD(2) [OF inv allocatedD(1) [OF p]] by (simp add: node_shape_def)
    have chain': "chain_ok (seg_home t') 0 ?tab"
    proof (rule chain_ok_cong [OF node_okD(5) [OF okp]])
      fix s
      assume "s \<in> set ?tab" "s \<noteq> 0"
      then have "s \<in> set (kids t p)" using child_hash_in [OF okp] by simp
      then show "seg_home t' s = seg_home t s" using kid by (simp add: seg_home_def v(6))
    qed
    have "seg_home t' c = unat (trie_hash_segment seg) mod 64" by (simp add: seg_home_def v(6))
    note ins = chain_insert [OF child_table(1) len chain' idx v(2) this]
    have hash: "tn_child_hash (tr_nodes t' ! p) = ?tab[idx := c]" by (simp add: nodes grown_parent_def)
    have wild: "wild_child t' p x (if seg = x then c else w)" if "wild_child t p x w" for x w
    proof (cases "seg = x")
      case True
      then show ?thesis using v(2) by (simp add: wild_child_def v(6,7))
    next
      case False
      have "seg_name t' k = seg_name t k" if "k \<in> set (kids t p)" for k using kid [OF that] by (simp add: v(6))
      with False that show ?thesis by (auto simp: wild_child_def v(7) v(6) [of c] split: if_splits)
    qed
    have "node_ok t' (allocated fl) p"
      unfolding node_ok_def hash
    proof (intro conjI)
      show "distinct (kids t' p)" using node_okD(1) [OF okp] ckid by (simp add: v(7))
      show "set (kids t' p) \<subseteq> allocated fl - {0}" using node_okD(2) [OF okp] v(2,3,5) by (auto simp: v(7))
      show "\<forall>k\<in>set (kids t' p). tn_parent (tr_nodes t' ! k) = p"
        using node_okD(3) [OF okp] by (auto simp: v(7,8))
      show "inj_on (seg_name t') (set (kids t' p))"
        using node_okD(4) [OF okp] fresh kid by (auto simp: v(6,7) inj_on_def)
      show "chain_ok (seg_home t') 0 (?tab[idx := c])" using ins by blast
      show "live_cells 0 (?tab[idx := c]) = mset (kids t' p)"
        using ins node_okD(6) [OF okp] by (simp add: v(7))
      show "wild_child t' p [SEG_PLUS] (tn_plus_child (tr_nodes t' ! p))"
        using wild [OF node_okD(7) [OF okp]] by (simp add: nodes grown_parent_def)
      show "wild_child t' p [SEG_HASH] (tn_hash_child (tr_nodes t' ! p))"
        using wild [OF node_okD(8) [OF okp]] by (simp add: nodes grown_parent_def)
    qed
    with 1 show ?thesis by simp
  next
    case 2
    note nc = new_child_fields [OF seg, of p]
    have "tr_nodes t' ! c = new_child p seg" using v(1) by (simp add: nodes)
    then show ?thesis
      using v(1) nc 2 by (simp add: node_ok_def v(7) wild_child_def chain_ok_empty live_cells_def)
  next
    case 3
    note okn = ok [OF 3(3)]
    have kid: "k \<noteq> c" if "k \<in> set (kids t n)" for k using that node_okD(2) [OF okn] v(4) by blast
    show ?thesis
      by (rule node_ok_cong [OF okn]) (use 3 kid v(5) in \<open>auto simp: v(6,7,8) nodes grown_parent_def\<close>)
  qed
qed

lemma nat_eq_by_nonzero: "(\<And>d. d \<noteq> 0 \<Longrightarrow> a = d \<longleftrightarrow> b = d) \<Longrightarrow> a = (b :: nat)"
  by (cases "a = 0"; cases "b = 0") auto

lemma grown_find_child:
  assumes inv: "trie_inv t (c # fl)" and p: "p \<in> allocated (c # fl)" and seg: "length seg \<le> 64"
    and room: "tn_child_count (tr_nodes t ! p) < 32" and g: "grown t p c idx seg t'"
    and fresh: "\<forall>k \<in> set (kids t p). seg_name t k \<noteq> seg" and inv': "trie_inv t' fl"
    and n: "n \<in> allocated fl"
  shows "trie_find_child t' n x (length x)
     = (if n = p \<and> x = seg then c else if n = c then 0 else trie_find_child t n x (length x))"
proof (rule nat_eq_by_nonzero)
  fix d :: nat
  assume d: "d \<noteq> 0"
  note v = grown_views [OF inv p seg room g]
  have l: "trie_find_child t' n x (length x) = d \<longleftrightarrow> d \<in> set (kids t' n) \<and> seg_name t' d = x"
    by (rule trie_find_child_iff [OF inv' n d])
  show "trie_find_child t' n x (length x) = d \<longleftrightarrow>
      (if n = p \<and> x = seg then c else if n = c then 0 else trie_find_child t n x (length x)) = d"
  proof (cases "n = c")
    case True
    with l v(1) d show ?thesis by (simp add: v(7))
  next
    case False
    then have na: "n \<in> allocated (c # fl)" using n v(5) by blast
    have "c \<notin> set (kids t n)" using node_okD(2) [OF trie_invD(6) [OF inv na]] v(4) by blast
    then have r: "trie_find_child t n x (length x) = d \<longleftrightarrow> d \<in> set (kids t n) \<and> d \<noteq> c \<and> seg_name t d = x"
      using trie_find_child_iff [OF inv na d] by blast
    show ?thesis
    proof (cases "n = p")
      case True
      show ?thesis
      proof (cases "x = seg")
        case True
        then show ?thesis using l r fresh False \<open>n = p\<close> by (auto simp: v(6,7))
      next
        case False
        then show ?thesis using l r \<open>n \<noteq> c\<close> \<open>n = p\<close> by (auto simp: v(6,7))
      qed
    next
      case np: False
      then show ?thesis using l r False \<open>c \<notin> set (kids t n)\<close> by (auto simp: v(6,7))
    qed
  qed
qed

lemma grown_paths:
  assumes inv: "trie_inv t (c # fl)" and p: "path_node t pre = Some p" and seg: "length seg \<le> 64"
    and room: "tn_child_count (tr_nodes t ! p) < 32" and g: "grown t p c idx seg t'"
    and none: "trie_find_child t p seg (length seg) = 0" and inv': "trie_inv t' fl"
  shows "path_node t' q = (if q = pre @ [seg] then Some c else path_node t q)"
proof (induction q rule: rev_induct)
  case Nil
  then show ?case by simp
next
  case (snoc x q)
  note pa = walk_allocated [OF inv root_allocated [OF inv] p]
  note v = grown_views [OF inv pa seg room g]
  have fresh: "\<forall>k \<in> set (kids t p). seg_name t k \<noteq> seg"
    using trie_find_child_found [OF inv pa] node_okD(2) [OF trie_invD(6) [OF inv pa]] none by fastforce
  note fc = grown_find_child [OF inv pa seg room g fresh inv']
  show ?case
  proof (cases "q = pre @ [seg]")
    case True
    have "path_node t q = None" using p none True by (simp add: walk_snoc)
    then have a: "path_node t (q @ [x]) = None" by (simp add: walk_snoc)
    have "path_node t' q = Some c" using snoc True by simp
    then have b: "path_node t' (q @ [x]) = None" using fc [OF v(3)] v(1) by (simp add: walk_snoc)
    have "q @ [x] \<noteq> pre @ [seg]" using True by auto
    with a b show ?thesis by simp
  next
    case False
    then have q: "path_node t' q = path_node t q" using snoc by simp
    show ?thesis
    proof (cases "path_node t q")
      case None
      then have "\<not> (q = pre)" using p by auto
      with q None show ?thesis by (simp add: walk_snoc)
    next
      case (Some n)
      note na = walk_allocated [OF inv root_allocated [OF inv] Some]
      then have n: "n \<in> allocated fl" "n \<noteq> c" using v(4,5) by blast+
      have "n = p \<longleftrightarrow> q = pre"
        using path_node_unique [OF inv Some, of pre] p Some by auto
      with Some q fc [OF n(1), of x] n(2) v(2) show ?thesis by (auto simp: walk_snoc)
    qed
  qed
qed

section \<open>One step of a subscription\<close>

lemma node_update_nth:
  "i < length (tr_nodes t) \<Longrightarrow>
     tr_nodes (node_update t i f) ! n = (if n = i then f (tr_nodes t ! i) else tr_nodes t ! n)"
  by (simp add: node_update_def nth_list_update)

lemma node_update_simps [simp]:
  "length (tr_nodes (node_update t i f)) = length (tr_nodes t)"
  "tr_free_head (node_update t i f) = tr_free_head t"
  "tr_node_count (node_update t i f) = tr_node_count t"
  by (simp_all add: node_update_def)

lemma seg_eq_single: "length s = 1 \<and> s ! 0 = x \<longleftrightarrow> s = [x]"
  by (cases s) auto

lemma name_child_take:
  "name_child seg (seg_length seg) = name_child (take 64 seg) (length (take 64 seg))"
proof
  fix n
  have k: "seg_length seg = length (take 64 seg)" by (simp add: seg_length_def TRIE_MAX_SEGMENT_def)
  show "name_child seg (seg_length seg) n = name_child (take 64 seg) (length (take 64 seg)) n"
    unfolding k by (simp add: name_child_def Let_def)
qed

lemma name_child_flags:
  "tn_is_plus (name_child s (length s) zero_node) \<longleftrightarrow> s = [SEG_PLUS]"
  "tn_is_hash (name_child s (length s) zero_node) \<longleftrightarrow> s = [SEG_HASH]"
  using seg_eq_single [of s SEG_PLUS] seg_eq_single [of s SEG_HASH]
  by (auto simp: name_child_def Let_def zero_node_def)

lemma add_child_grown:
  assumes inv: "trie_inv t (c # fl)" and p: "p \<in> allocated (c # fl)" and seg: "length seg \<le> 64"
    and room: "tn_child_count (tr_nodes t ! p) < 32"
  shows "\<exists>t' idx. trie_add_child (node_update (snd (trie_alloc t)) c (name_child seg (length seg))) p c = (True, t')
    \<and> grown t p c idx seg t'
    \<and> probe_for (\<lambda>i. if tn_child_hash (tr_nodes t ! p) ! i = 0 then Some i else None)
        TRIE_CHILD_HASH_MASK 64 (unat (trie_hash_segment seg) mod 64) = Some idx"
proof -
  let ?tab = "tn_child_hash (tr_nodes t ! p)"
  note ok = trie_invD(6) [OF inv p]
  have pc: "p \<noteq> c" using allocatedD(2) [OF p] by auto
  have c: "c \<noteq> 0" "tr_free_head t = c" "c < length (tr_nodes t)" using trie_invD(3) [OF inv] by auto
  have pl: "p < length (tr_nodes t)" by (rule trie_inv_nth [OF inv p])
  have len: "length ?tab = 64"
    using trie_invD(2) [OF inv allocatedD(1) [OF p]] by (simp add: node_shape_def)
  have "size (live_cells 0 ?tab) < length ?tab"
    using node_okD(6) [OF ok] kids_length [OF inv allocatedD(1) [OF p]] room len by simp
  then have "0 \<in> set ?tab" by (rule live_cells_bound)
  then obtain j where "j < 64" "?tab ! j = 0" using len by (auto simp: in_set_conv_nth)
  then have "probe_for (\<lambda>i. if ?tab ! i = 0 then Some i else None) TRIE_CHILD_HASH_MASK 64
      (unat (trie_hash_segment seg) mod 64) \<noteq> None"
    unfolding probe_for_None_all [OF child_table(1)] by auto
  then obtain idx where idx: "probe_for (\<lambda>i. if ?tab ! i = 0 then Some i else None) TRIE_CHILD_HASH_MASK 64
      (unat (trie_hash_segment seg) mod 64) = Some idx" by blast
  define t1 where "t1 = node_update (snd (trie_alloc t)) c (name_child seg (length seg))"
  have t1: "tr_nodes t1 ! n = (if n = c then name_child seg (length seg) zero_node else tr_nodes t ! n)"
      "length (tr_nodes t1) = length (tr_nodes t)" "tr_free_head t1 = tn_children (tr_nodes t ! c) ! 0"
      "tr_node_count t1 = tr_node_count t + 1" for n
    using c by (simp_all add: t1_def trie_alloc_def Let_def node_update_def nth_list_update)
  define t2 where "t2 = node_update t1 p (\<lambda>p. p\<lparr>tn_children := (tn_children p)[tn_child_count p := c],
                     tn_child_count := tn_child_count p + 1\<rparr>)"
  define t3 where "t3 = node_update t2 c (\<lambda>c. c\<lparr>tn_parent := p\<rparr>)"
  have t3: "tr_nodes t3 ! n = (if n = p then (tr_nodes t ! p)\<lparr>
          tn_children := (tn_children (tr_nodes t ! p))[tn_child_count (tr_nodes t ! p) := c],
          tn_child_count := tn_child_count (tr_nodes t ! p) + 1\<rparr>
        else if n = c then new_child p seg else tr_nodes t ! n)"
      "length (tr_nodes t3) = length (tr_nodes t)" "tr_free_head t3 = tn_children (tr_nodes t ! c) ! 0"
      "tr_node_count t3 = tr_node_count t + 1" for n
    using pc c(3) pl by (simp_all add: t3_def t2_def node_update_nth t1 new_child_def)
  have name: "take (tn_name_len (tr_nodes t3 ! c)) (tn_name (tr_nodes t3 ! c)) = seg"
    using pc new_child_fields(1) [OF seg] by (simp add: t3)
  have flags: "tn_is_plus (tr_nodes t3 ! c) \<longleftrightarrow> seg = [SEG_PLUS]" "tn_is_hash (tr_nodes t3 ! c) \<longleftrightarrow> seg = [SEG_HASH]"
    using pc name_child_flags by (simp_all add: t3 new_child_def)
  have hins: "trie_hash_insert (tr_nodes t3 ! p) c (trie_hash_segment seg)
      = (True, (tr_nodes t3 ! p)\<lparr>tn_child_hash := ?tab[idx := c]\<rparr>)"
    using idx by (simp add: trie_hash_insert_def child_table t3)
  define t4 where "t4 = node_update t3 p (\<lambda>_. (tr_nodes t3 ! p)\<lparr>tn_child_hash := ?tab[idx := c]\<rparr>)"
  define t' where "t' = (if seg = [SEG_PLUS] then node_update t4 p (\<lambda>p. p\<lparr>tn_plus_child := c\<rparr>)
      else if seg = [SEG_HASH] then node_update t4 p (\<lambda>p. p\<lparr>tn_hash_child := c\<rparr>) else t4)"
  have "trie_add_child t1 p c = (True, t')"
    using room pc name hins flags unfolding trie_add_child_def Let_def t2_def [symmetric]
      t3_def [symmetric] by (simp add: t1 TRIE_MAX_CHILDREN_def t4_def t'_def)
  moreover have "grown t p c idx seg t'"
    unfolding grown_def
    using pl by (auto simp: t'_def t4_def node_update_nth t3 grown_parent_def)
  ultimately show ?thesis unfolding t1_def using idx by blast
qed

lemma walk_cong:
  assumes inv: "trie_inv t fl" and inv': "trie_inv t' fl"
    and k: "\<And>n. n \<in> allocated fl \<Longrightarrow> kids t' n = kids t n"
    and s: "\<And>n. n \<in> allocated fl \<Longrightarrow> seg_name t' n = seg_name t n"
  shows "n \<in> allocated fl \<Longrightarrow> walk t' n q = walk t n q"
proof (induction q arbitrary: n)
  case (Cons x q)
  have "trie_find_child t' n x (length x) = trie_find_child t n x (length x)"
  proof (rule nat_eq_by_nonzero)
    fix d :: nat
    assume d: "d \<noteq> 0"
    have "d \<in> allocated fl" if "d \<in> set (kids t n)"
      using node_okD(2) [OF trie_invD(6) [OF inv Cons.prems]] that by blast
    then show "trie_find_child t' n x (length x) = d \<longleftrightarrow> trie_find_child t n x (length x) = d"
      unfolding trie_find_child_iff [OF inv' Cons.prems d] trie_find_child_iff [OF inv Cons.prems d]
      using k [OF Cons.prems] s by auto
  qed
  then show ?case
    using Cons.IH trie_find_child_allocated [OF inv Cons.prems] by (simp add: Let_def)
qed simp

lemma node_update_kids: "i < length (tr_nodes t) \<Longrightarrow>
    kids (node_update t i f) n = (if n = i then take (tn_child_count (f (tr_nodes t ! i))) (tn_children (f (tr_nodes t ! i)))
       else kids t n)"
  by (simp add: kids_def node_update_nth)

lemma node_update_name: "i < length (tr_nodes t) \<Longrightarrow>
    seg_name (node_update t i f) n = (if n = i then take (tn_name_len (f (tr_nodes t ! i))) (tn_name (f (tr_nodes t ! i)))
       else seg_name t n)"
  by (simp add: seg_name_def node_update_nth)

text \<open>A child that does not fit is given back and nothing has changed but the cell of the free node.\<close>

lemma add_child_full:
  assumes inv: "trie_inv t (c # fl)" and p: "p \<in> allocated (c # fl)" and seg: "length seg \<le> 64"
    and full: "\<not> tn_child_count (tr_nodes t ! p) < 32"
  defines "t1 \<equiv> node_update (snd (trie_alloc t)) c (name_child seg (length seg))"
  shows "trie_add_child t1 p c = (False, t1)"
    "trie_inv (trie_free t1 c) (c # fl)"
    "\<forall>n \<in> allocated (c # fl). tr_nodes (trie_free t1 c) ! n = tr_nodes t ! n"
proof -
  have pc: "p \<noteq> c" using allocatedD(2) [OF p] by auto
  have c: "c \<noteq> 0" "tr_free_head t = c" "c < length (tr_nodes t)" using trie_invD(3) [OF inv] by auto
  have t1: "tr_nodes t1 ! n = (if n = c then name_child seg (length seg) zero_node else tr_nodes t ! n)"
      "length (tr_nodes t1) = length (tr_nodes t)" "tr_free_head t1 = tn_children (tr_nodes t ! c) ! 0"
      "tr_node_count t1 = tr_node_count t + 1" for n
    using c by (simp_all add: t1_def trie_alloc_def Let_def node_update_def nth_list_update)
  show "trie_add_child t1 p c = (False, t1)"
    using full pc by (simp add: trie_add_child_def t1 TRIE_MAX_CHILDREN_def)
  let ?t = "trie_free t1 c"
  have nodes: "tr_nodes ?t ! n = (if n = c then (name_child seg (length seg) zero_node)
        \<lparr>tn_children := (tn_children (name_child seg (length seg) zero_node))[0 := tn_children (tr_nodes t ! c) ! 0]\<rparr>
      else tr_nodes t ! n)" for n
    using c by (simp add: trie_free_def Let_def node_update_nth t1)
  have t: "length (tr_nodes ?t) = length (tr_nodes t)" "tr_free_head ?t = c" "tr_node_count ?t = tr_node_count t"
    using c by (simp_all add: trie_free_def Let_def t1)
  have shape0: "node_shape (name_child seg (length seg) zero_node)"
    using new_child_fields(8) [OF seg, of 0] by (simp add: new_child_def node_shape_def)
  show same: "\<forall>n \<in> allocated (c # fl). tr_nodes ?t ! n = tr_nodes t ! n"
    by (auto simp: nodes allocated_def)
  show "trie_inv ?t (c # fl)"
    unfolding trie_inv_def t
  proof (intro conjI allI impI ballI)
    show "length (tr_nodes t) = TRIE_MAX_NODES" by (rule trie_invD(1) [OF inv])
    show "node_shape (tr_nodes ?t ! n)" if "n < TRIE_MAX_NODES" for n
      using shape0 trie_invD(2) [OF inv that] by (simp add: nodes node_shape_def)
    show "free_chain (tr_nodes ?t) c (c # fl)"
    proof -
      have "length (tn_children (name_child seg (length seg) zero_node)) = 32" using shape0 by (simp add: node_shape_def)
      then have "tn_children (tr_nodes ?t ! x) ! 0 = tn_children (tr_nodes t ! x) ! 0" for x
        by (simp add: nodes)
      moreover have "free_chain (tr_nodes t) c (c # fl)" using trie_invD(3) [OF inv] c(2) by simp
      ultimately show ?thesis using t(1) free_chain_cong by metis
    qed
    show "distinct (c # fl)" by (rule trie_invD(4) [OF inv])
    show "tr_node_count t + length (c # fl) = TRIE_MAX_NODES" by (rule trie_invD(5) [OF inv])
    fix n
    assume n: "n \<in> allocated (c # fl)"
    note okn = trie_invD(6) [OF inv n]
    have "tr_nodes ?t ! k = tr_nodes t ! k" if "k = n \<or> k \<in> set (kids t n)" for k
      using that same n node_okD(2) [OF okn] by blast
    then show "node_ok ?t (allocated (c # fl)) n"
      by (intro node_ok_cong [OF okn]) (auto simp: kids_def seg_name_def)
  qed
qed

section \<open>Subscriptions\<close>

definition node_subs :: "trie_node \<Rightarrow> nat set" where
  "node_subs n = {s. s < 4096 \<and> bit (tn_fd_bitmap n ! (s div 64)) (s mod 64)}"

definition trie_wf :: "topic_trie \<Rightarrow> nat list \<Rightarrow> bool" where
  "trie_wf t fl \<longleftrightarrow> trie_inv t fl \<and> (\<forall>n \<in> allocated fl. tn_sub_count (tr_nodes t ! n) = card (node_subs (tr_nodes t ! n)))"

text \<open>The contract of the trie: a map from filter paths and slots to generations.\<close>

definition subscriptions :: "topic_trie \<Rightarrow> bytes list \<Rightarrow> nat \<Rightarrow> u8 option" where
  "subscriptions t path slot = (case path_node t path of None \<Rightarrow> None
     | Some n \<Rightarrow> if slot \<in> node_subs (tr_nodes t ! n) then Some (tn_fd_gen (tr_nodes t ! n) ! slot) else None)"

definition filter_path :: "bytes \<Rightarrow> nat \<Rightarrow> nat \<Rightarrow> bytes list" where
  "filter_path filt len pos = map (take 64) (split_topic (drop pos (take len filt)))"

lemma node_subs_zero: "tn_fd_bitmap n = replicate 64 0 \<Longrightarrow> node_subs n = {}"
  by (auto simp: node_subs_def less_mult_imp_div_less)

lemma node_subs_finite [simp]: "finite (node_subs n)"
  by (simp add: node_subs_def)

lemma subscriptions_cong:
  assumes "trie_inv t fl" "trie_inv t' fl" "\<And>n. n \<in> allocated fl \<Longrightarrow> tr_nodes t' ! n = tr_nodes t ! n"
  shows "path_node t' = path_node t" "subscriptions t' = subscriptions t"
proof -
  have w: "path_node t' q = path_node t q" for q
    by (rule walk_cong [OF assms(1,2) _ _ root_allocated [OF assms(1)]])
       (simp_all add: kids_def seg_name_def assms(3))
  then show "path_node t' = path_node t" by (rule ext)
  show "subscriptions t' = subscriptions t"
  proof (intro ext)
    fix q s
    show "subscriptions t' q s = subscriptions t q s"
      using w [of q] walk_allocated [OF assms(1) root_allocated [OF assms(1)], of q] assms(3)
      by (auto simp: subscriptions_def split: option.splits)
  qed
qed

lemma grown_subscriptions:
  assumes inv: "trie_inv t (c # fl)" and p: "path_node t pre = Some p" and seg: "length seg \<le> 64"
    and room: "tn_child_count (tr_nodes t ! p) < 32" and g: "grown t p c idx seg t'"
    and none: "trie_find_child t p seg (length seg) = 0" and inv': "trie_inv t' fl"
  shows "subscriptions t' = subscriptions t" "path_node t' (pre @ [seg]) = Some c"
    "trie_wf t (c # fl) \<Longrightarrow> trie_wf t' fl"
proof -
  note pa = walk_allocated [OF inv root_allocated [OF inv] p]
  note v = grown_views [OF inv pa seg room g] and gp = grown_paths [OF assms]
  show "path_node t' (pre @ [seg]) = Some c" by (simp add: gp)
  have old: "path_node t (pre @ [seg]) = None" using p none by (simp add: walk_snoc)
  have subs: "node_subs (tr_nodes t' ! n) = (if n = c then {} else node_subs (tr_nodes t ! n))" for n
    using node_subs_zero [of "tr_nodes t' ! c"] v(9) by (auto simp: node_subs_def v(9))
  show "subscriptions t' = subscriptions t"
  proof (intro ext)
    fix q s
    show "subscriptions t' q s = subscriptions t q s"
    proof (cases "q = pre @ [seg]")
      case True
      then show ?thesis using old by (simp add: subscriptions_def gp subs)
    next
      case False
      have "n \<noteq> c" if "path_node t q = Some n" for n
        using walk_allocated [OF inv root_allocated [OF inv] that] v(4) by blast
      then show ?thesis
        using False by (auto simp: subscriptions_def gp subs v(11) split: option.splits)
    qed
  qed
  show "trie_wf t' fl" if "trie_wf t (c # fl)"
    using that inv' v(5) by (auto simp: trie_wf_def subs v(10))
qed

lemma filter_path_step:
  assumes "len \<le> length filt" "topic_iter_next filt len pos = Some (seg, pos')"
  shows "filter_path filt len pos = take 64 seg # filter_path filt len pos'"
proof -
  have "pos < len" "topic_extract_segment filt len pos = (seg, pos')"
    using assms(2) by (auto simp: topic_iter_next_extract split: if_splits)
  with split_topic_step [of pos len filt] assms(1) show ?thesis by (simp add: filter_path_def)
qed

lemma filter_path_end: "len \<le> length filt \<Longrightarrow> topic_iter_next filt len pos = None \<Longrightarrow> filter_path filt len pos = []"
  by (simp add: topic_iter_next_extract filter_path_def split: if_splits)

lemma find_child_stop_take: "find_child_stop t n seg (length (take 64 seg)) = find_child_stop t n (take 64 seg) (length (take 64 seg))"
  by (rule ext) (simp add: find_child_stop_def Let_def)

lemma find_child_take: "trie_find_child t n seg (seg_length seg) = trie_find_child t n (take 64 seg) (length (take 64 seg))"
proof -
  have k: "seg_length seg = length (take 64 seg)" by (simp add: seg_length_def TRIE_MAX_SEGMENT_def)
  have "take (length (take 64 seg)) seg = take (length (take 64 seg)) (take 64 seg)" by simp
  then show ?thesis unfolding trie_find_child_def k find_child_stop_take [of t n seg] by simp
qed

text \<open>
  The walk of a subscription keeps the trie well formed and every subscription; where it succeeds
  the filter's path leads to the node it returns.
\<close>

lemma walk_path: "path_node t pre = Some n \<Longrightarrow> trie_find_child t n s (length s) = c \<Longrightarrow> c \<noteq> 0 \<Longrightarrow>
    path_node t (pre @ [s]) = Some c"
  by (simp add: walk_snoc)

lemma subscribe_walk_spec:
  assumes "len \<le> length filt" "trie_wf t fl" "path_node t pre = Some n" "subscribe_walk t n filt len pos = (r, t')"
  shows "\<exists>fl'. trie_wf t' fl' \<and> subscriptions t' = subscriptions t
    \<and> (case r of None \<Rightarrow> True | Some m \<Rightarrow> path_node t' (pre @ filter_path filt len pos) = Some m)"
  using assms
proof (induction t n filt len pos arbitrary: fl pre r t' rule: subscribe_walk.induct)
  case (1 t n filt len pos)
  note wf = 1(4) and pn = 1(5) and run = 1(6) [unfolded subscribe_walk.simps [of t n filt len pos]]
  have inv: "trie_inv t fl" using wf by (simp add: trie_wf_def)
  note na = walk_allocated [OF inv root_allocated [OF inv] pn]
  show ?case
  proof (cases "topic_iter_next filt len pos")
    case None
    with run have "r = Some n" "t' = t" by simp_all
    with wf pn filter_path_end [OF 1(3) None] show ?thesis by auto
  next
    case (Some sp)
    obtain seg pos' where sp: "sp = (seg, pos')" by (cases sp)
    let ?s = "take 64 seg"
    note nx = Some [unfolded sp]
    have fp: "pre @ filter_path filt len pos = (pre @ [?s]) @ filter_path filt len pos'"
      by (simp add: filter_path_step [OF 1(3) nx])
    have k: "seg_length seg = length ?s" by (simp add: seg_length_def TRIE_MAX_SEGMENT_def)
    have s: "length ?s \<le> 64" by simp
    note IH1 = 1(1) [OF Some sp [symmetric] refl refl] and IH2 = 1(2) [OF Some sp [symmetric] refl refl]
    show ?thesis
    proof (cases "trie_find_child t n seg (seg_length seg) = 0")
      case False
      then have c: "trie_find_child t n ?s (length ?s) \<noteq> 0" by (simp only: find_child_take not_False_eq_True)
      have "subscribe_walk t (trie_find_child t n seg (seg_length seg)) filt len pos' = (r, t')"
        using run False by (simp add: nx Let_def)
      then show ?thesis
        unfolding fp by (rule IH1 [OF False 1(3) wf walk_path [OF pn refl c, folded find_child_take]])
    next
      case True
      then have none: "trie_find_child t n ?s (length ?s) = 0" by (simp only: find_child_take)
      show ?thesis
      proof (cases fl)
        case Nil
        then have "trie_alloc t = (0, t)" using trie_invD(3) [OF inv] by (simp add: trie_alloc_def)
        with run True have "r = None" "t' = t" by (simp_all add: nx Let_def)
        with wf show ?thesis by auto
      next
        case (Cons c fl0)
        note inv = inv [unfolded Cons] and na = na [unfolded Cons] and wf = wf [unfolded Cons]
        have c: "c \<noteq> 0" "tr_free_head t = c" using trie_invD(3) [OF inv] by auto
        obtain t1 where al: "trie_alloc t = (c, t1)" using c by (simp add: trie_alloc_def Let_def)
        then have t1: "t1 = snd (trie_alloc t)" by simp
        let ?t1 = "node_update t1 c (name_child ?s (length ?s))"
        have nm: "node_update t1 c (name_child seg (seg_length seg)) = ?t1" by (simp only: name_child_take)
        show ?thesis
        proof (cases "tn_child_count (tr_nodes t ! n) < 32")
          case room: True
          obtain t2 idx where t2: "trie_add_child ?t1 n c = (True, t2)" "grown t n c idx ?s t2"
            and idx: "probe_for (\<lambda>i. if tn_child_hash (tr_nodes t ! n) ! i = 0 then Some i else None)
                TRIE_CHILD_HASH_MASK 64 (unat (trie_hash_segment ?s) mod 64) = Some idx"
            using add_child_grown [OF inv na s room] unfolding t1 by blast
          have fresh: "\<forall>k\<in>set (kids t n). seg_name t k \<noteq> ?s"
            using trie_find_child_found [OF inv na] node_okD(2) [OF trie_invD(6) [OF inv na]] none by fastforce
          note inv2 = grown_inv [OF inv na s room t2(2) fresh idx]
          note g = grown_subscriptions [OF inv pn s room t2(2) none inv2]
          have "subscribe_walk t2 c filt len pos' = (r, t')"
            using run True c t2(1) unfolding nx al by (simp add: Let_def nm)
          moreover have "\<not> trie_find_child t n seg (seg_length seg) \<noteq> 0" using True by simp
          ultimately have "\<exists>fl'. trie_wf t' fl' \<and> subscriptions t' = subscriptions t2 \<and> (case r of None \<Rightarrow> True
              | Some m \<Rightarrow> path_node t' ((pre @ [?s]) @ filter_path filt len pos') = Some m)"
            using IH2 [OF _ al [symmetric] c(1) _ refl 1(3) g(3) [OF wf] g(2)] t2(1) nm by simp
          then show ?thesis unfolding fp g(1) .
        next
          case full: False
          note f = add_child_full [OF inv na s full, folded t1]
          have "r = None" "t' = trie_free ?t1 c"
            using run True c f(1) unfolding nx al by (simp_all add: Let_def nm)
          moreover have "trie_wf (trie_free ?t1 c) (c # fl0)"
            using wf f(2,3) by (simp add: trie_wf_def)
          moreover have "subscriptions (trie_free ?t1 c) = subscriptions t"
            using subscriptions_cong(2) [OF inv f(2)] f(3) by blast
          ultimately show ?thesis by auto
        qed
      qed
    qed
  qed
qed

end
