(* ===== verification/Trie_Ops.thy ===== *)
theory Trie_Ops
  imports Trie_Inv
begin

text \<open>
  What the operations of \<^verbatim>\<open>src/src/broker/trie.h\<close> do to the map from filter paths and slots to
  generations that the trie stands for, and which nodes a topic reaches.
\<close>

section \<open>The initial trie\<close>

lemma free_chain_upt:
  assumes "length nodes = m" "0 < i" "i \<le> m" "i < m \<Longrightarrow> head = i" "i = m \<Longrightarrow> head = 0"
    "\<And>k. 0 < k \<Longrightarrow> k < m \<Longrightarrow> tn_children (nodes ! k) ! 0 = (if k + 1 < m then k + 1 else 0)"
  shows "free_chain nodes head [i..<m]"
  using assms(2-5)
proof (induction "m - i" arbitrary: i head)
  case (Suc d)
  then have i: "i < m" by simp
  have "free_chain nodes (if i + 1 < m then i + 1 else 0) [Suc i..<m]"
    by (rule Suc.hyps(1)) (use Suc i in auto)
  then show ?case using i Suc assms(1,6) by (simp add: upt_conv_Cons)
qed simp

lemma trie_init_node: "n < 1024 \<Longrightarrow> tr_nodes trie_init ! n = zero_node\<lparr>tn_children := (tn_children zero_node)
        [0 := if 1 \<le> n \<and> n < 1023 then n + 1 else 0]\<rparr>"
  by (simp add: trie_init_def TRIE_MAX_NODES_def)

lemma trie_init_inv: "trie_inv trie_init [1..<1024]"
proof -
  have z: "node_shape (zero_node\<lparr>tn_children := (tn_children zero_node)[0 := x]\<rparr>)" for x
    by (simp add: node_shape_def zero_node_def TRIE_FD_SLOTS_def BITS_PER_SLOT_def TRIE_CHILD_HASH_SIZE_def
        TRIE_MAX_CHILDREN_def TRIE_MAX_SEGMENT_def)
  have len: "length (tr_nodes trie_init) = 1024" by (simp add: trie_init_def TRIE_MAX_NODES_def)
  have "free_chain (tr_nodes trie_init) 1 [1..<1024]"
    by (rule free_chain_upt) (simp_all add: len trie_init_node, simp_all add: zero_node_def TRIE_MAX_CHILDREN_def)
  moreover have "allocated [1..<1024] = {0}" by (auto simp: allocated_def TRIE_MAX_NODES_def)
  moreover have "node_ok trie_init {0} 0"
    by (simp add: node_ok_def kids_def trie_init_node)
       (simp add: zero_node_def wild_child_def kids_def trie_init_node chain_ok_empty live_cells_def)
  ultimately show ?thesis
    using len z by (simp add: trie_inv_def TRIE_MAX_NODES_def trie_init_node)
       (simp add: trie_init_def)
qed

lemma trie_init_subs: "n < 1024 \<Longrightarrow> node_subs (tr_nodes trie_init ! n) = {}"
  by (rule node_subs_zero) (simp add: trie_init_node zero_node_def TRIE_FD_SLOTS_def)

lemma trie_init_wf: "trie_wf trie_init [1..<1024]"
  using trie_init_inv trie_init_subs
  by (auto simp: trie_wf_def allocated_def TRIE_MAX_NODES_def trie_init_node) (simp add: zero_node_def)

text \<open>A trie just initialised is well formed, has one node in use and no subscription.\<close>

theorem trie_init_correct:
  "trie_wf trie_init [1..<1024] \<and> subscriptions trie_init path slot = None \<and> tr_node_count trie_init = 1"
proof -
  have "n < 1024" if "path_node trie_init path = Some n" for n
    using walk_allocated [OF trie_init_inv root_allocated [OF trie_init_inv] that]
    by (simp add: allocated_def TRIE_MAX_NODES_def)
  then have "subscriptions trie_init path slot = None"
    by (auto simp: subscriptions_def trie_init_subs split: option.splits)
  moreover have "tr_node_count trie_init = 1" by (simp add: trie_init_def)
  ultimately show ?thesis using trie_init_wf by simp
qed

section \<open>Updates of the subscriber fields\<close>

text \<open>What a change of a node may not touch for the tree to stay the same.\<close>

definition tree_fields :: "trie_node \<Rightarrow> nat list \<times> nat \<times> nat list \<times> nat \<times> nat \<times> nat \<times> bytes \<times> nat" where
  "tree_fields n = (tn_children n, tn_child_count n, tn_child_hash n, tn_plus_child n, tn_hash_child n,
     tn_parent n, tn_name n, tn_name_len n)"

lemma tree_fieldsD:
  assumes "tree_fields a = tree_fields b"
  shows "tn_children a = tn_children b" "tn_child_count a = tn_child_count b" "tn_child_hash a = tn_child_hash b"
    "tn_plus_child a = tn_plus_child b" "tn_hash_child a = tn_hash_child b" "tn_parent a = tn_parent b"
    "tn_name a = tn_name b" "tn_name_len a = tn_name_len b"
  using assms by (simp_all add: tree_fields_def)

lemma same_tree:
  assumes inv: "trie_inv t fl" and len: "length (tr_nodes t') = length (tr_nodes t)"
    and hd: "tr_free_head t' = tr_free_head t" "tr_node_count t' = tr_node_count t"
    and same: "\<And>n. n < TRIE_MAX_NODES \<Longrightarrow> tree_fields (tr_nodes t' ! n) = tree_fields (tr_nodes t ! n)"
    and shape: "\<And>n. n < TRIE_MAX_NODES \<Longrightarrow> length (tn_fd_bitmap (tr_nodes t' ! n)) = 64"
      "\<And>n. n < TRIE_MAX_NODES \<Longrightarrow> length (tn_fd_gen (tr_nodes t' ! n)) = 4096"
  shows "trie_inv t' fl" "path_node t' = path_node t"
proof -
  have v: "n < TRIE_MAX_NODES \<Longrightarrow> kids t' n = kids t n" "n < TRIE_MAX_NODES \<Longrightarrow> seg_name t' n = seg_name t n" for n
    using tree_fieldsD [OF same, of n] by (simp_all add: kids_def seg_name_def)
  show inv': "trie_inv t' fl"
    unfolding trie_inv_def hd
  proof (intro conjI allI impI ballI)
    show "length (tr_nodes t') = TRIE_MAX_NODES" using len trie_invD(1) [OF inv] by simp
    show "node_shape (tr_nodes t' ! n)" if "n < TRIE_MAX_NODES" for n
      using trie_invD(2) [OF inv that] shape [OF that] tree_fieldsD [OF same [OF that]] by (simp add: node_shape_def)
    show "free_chain (tr_nodes t') (tr_free_head t) fl"
    proof (rule free_chain_cong [OF trie_invD(3) [OF inv] len])
      fix x
      assume "x \<in> set fl"
      then have "x < TRIE_MAX_NODES" using free_chain_range [OF trie_invD(3) [OF inv]] trie_invD(1) [OF inv] by auto
      then show "tn_children (tr_nodes t' ! x) ! 0 = tn_children (tr_nodes t ! x) ! 0"
        using tree_fieldsD(1) [OF same] by simp
    qed
    fix n
    assume n: "n \<in> allocated fl"
    note okn = trie_invD(6) [OF inv n] and nm = allocatedD(1) [OF n]
    have "k < TRIE_MAX_NODES" if "k \<in> set (kids t n)" for k
      using node_okD(2) [OF okn] that allocatedD(1) by blast
    then show "node_ok t' (allocated fl) n"
      using v nm tree_fieldsD [OF same] by (intro node_ok_cong [OF okn]) auto
  qed (fact trie_invD(4) [OF inv], fact trie_invD(5) [OF inv])
  have "path_node t' q = path_node t q" for q
    by (rule walk_cong [OF inv inv' v root_allocated [OF inv]]) (rule allocatedD(1), assumption)+
  then show "path_node t' = path_node t" by (rule ext)
qed

lemma slot_bit_and: "x AND slot_bit s = 0 \<longleftrightarrow> \<not> bit x (s mod 64)"
proof -
  have b: "bit (x AND slot_bit s) i \<longleftrightarrow> i = s mod 64 \<and> bit x i" for i
    by (auto simp: slot_bit_def BITS_PER_SLOT_def bit_simps)
  show ?thesis
  proof
    assume "x AND slot_bit s = 0"
    then show "\<not> bit x (s mod 64)" using b [of "s mod 64"] by auto
  next
    assume "\<not> bit x (s mod 64)"
    then show "x AND slot_bit s = 0" by (intro bit_word_eqI) (simp only: b, auto)
  qed
qed

lemma slot_bit_or: "bit (x OR slot_bit s) i \<longleftrightarrow> bit x i \<or> i = s mod 64"
proof -
  have "bit (slot_bit s) i \<longleftrightarrow> i = s mod 64"
    by (auto simp: slot_bit_def BITS_PER_SLOT_def bit_simps)
  then show ?thesis by (simp add: bit_simps)
qed

lemma slot_bit_clear: "bit (x AND NOT (slot_bit s)) i \<longleftrightarrow> bit x i \<and> i \<noteq> s mod 64"
proof -
  have "bit (slot_bit s) i \<longleftrightarrow> i = s mod 64"
    by (auto simp: slot_bit_def BITS_PER_SLOT_def bit_simps)
  then show ?thesis using bit_imp_le_length [of x i] by (auto simp: bit_simps)
qed

lemma same_slot: "a div 64 = s div 64 \<and> a mod 64 = s mod 64 \<longleftrightarrow> a = (s :: nat)"
  by (metis div_mult_mod_eq)

lemma node_subscribe_fields:
  "tree_fields (node_subscribe s g n) = tree_fields n"
  "length (tn_fd_bitmap (node_subscribe s g n)) = length (tn_fd_bitmap n)"
  "tn_fd_gen (node_subscribe s g n) = (tn_fd_gen n)[s := g]"
  by (simp_all add: node_subscribe_def tree_fields_def Let_def)

lemma node_subscribe_subs:
  assumes "s < 4096" "length (tn_fd_bitmap n) = 64"
  shows "node_subs (node_subscribe s g n) = insert s (node_subs n)"
proof -
  have d: "s div 64 < 64" using assms(1) by (simp add: less_mult_imp_div_less)
  have "bit (tn_fd_bitmap (node_subscribe s g n) ! (a div 64)) (a mod 64)
      \<longleftrightarrow> bit (tn_fd_bitmap n ! (a div 64)) (a mod 64) \<or> a = s" for a
  proof (cases "bit (tn_fd_bitmap n ! (s div 64)) (s mod 64)")
    case True
    then show ?thesis
      by (auto simp: node_subscribe_def Let_def BITS_PER_SLOT_def slot_bit_and)
  next
    case False
    have "bit (tn_fd_bitmap (node_subscribe s g n) ! (a div 64)) (a mod 64)
        \<longleftrightarrow> bit (tn_fd_bitmap n ! (a div 64)) (a mod 64) \<or> (a div 64 = s div 64 \<and> a mod 64 = s mod 64)"
      using False d assms(2)
      by (auto simp: node_subscribe_def Let_def BITS_PER_SLOT_def slot_bit_and nth_list_update slot_bit_or)
    then show ?thesis by (simp only: same_slot)
  qed
  then show ?thesis using assms(1) by (auto simp: node_subs_def)
qed

lemma node_subscribe_count:
  assumes "s < 4096" "length (tn_fd_bitmap n) = 64" "tn_sub_count n = card (node_subs n)"
  shows "tn_sub_count (node_subscribe s g n) = card (node_subs (node_subscribe s g n))"
  using assms(3) node_subscribe_subs [OF assms(1,2)] assms(1)
  by (simp add: card_insert_if)
     (simp add: node_subscribe_def Let_def BITS_PER_SLOT_def slot_bit_and node_subs_def)

lemma node_unsubscribe_fields:
  "tree_fields (node_unsubscribe s n) = tree_fields n"
  "length (tn_fd_bitmap (node_unsubscribe s n)) = length (tn_fd_bitmap n)"
  "tn_fd_gen (node_unsubscribe s n) = tn_fd_gen n"
  by (simp_all add: node_unsubscribe_def tree_fields_def Let_def)

lemma node_unsubscribe_subs:
  assumes "s < 4096" "length (tn_fd_bitmap n) = 64"
  shows "node_subs (node_unsubscribe s n) = node_subs n - {s}"
proof -
  have d: "s div 64 < 64" using assms(1) by (simp add: less_mult_imp_div_less)
  have "bit (tn_fd_bitmap (node_unsubscribe s n) ! (a div 64)) (a mod 64)
      \<longleftrightarrow> bit (tn_fd_bitmap n ! (a div 64)) (a mod 64) \<and> \<not> (a div 64 = s div 64 \<and> a mod 64 = s mod 64)" for a
    using d assms(2)
    by (auto simp: node_unsubscribe_def Let_def BITS_PER_SLOT_def slot_bit_and nth_list_update slot_bit_clear)
  then show ?thesis by (auto simp: node_subs_def same_slot)
qed

lemma node_unsubscribe_count:
  assumes "s < 4096" "length (tn_fd_bitmap n) = 64" "tn_sub_count n = card (node_subs n)"
  shows "tn_sub_count (node_unsubscribe s n) = card (node_subs (node_unsubscribe s n))"
proof (cases "s \<in> node_subs n")
  case True
  then have "tn_sub_count (node_unsubscribe s n) = tn_sub_count n - 1"
    by (simp add: node_unsubscribe_def Let_def BITS_PER_SLOT_def slot_bit_and node_subs_def)
  then show ?thesis using True assms(3) by (simp add: node_unsubscribe_subs [OF assms(1,2)])
next
  case False
  then have "tn_sub_count (node_unsubscribe s n) = tn_sub_count n"
    using assms(1) by (simp add: node_unsubscribe_def Let_def BITS_PER_SLOT_def slot_bit_and node_subs_def)
  then show ?thesis using False assms(3) by (simp add: node_unsubscribe_subs [OF assms(1,2)])
qed

section \<open>Subscribe, unsubscribe, remove\<close>

lemma bitmap_shape: "trie_inv t fl \<Longrightarrow> n < TRIE_MAX_NODES \<Longrightarrow> length (tn_fd_bitmap (tr_nodes t ! n)) = 64"
  "trie_inv t fl \<Longrightarrow> n < TRIE_MAX_NODES \<Longrightarrow> length (tn_fd_gen (tr_nodes t ! n)) = 4096"
  using trie_invD(2) [of t fl n] by (simp_all add: node_shape_def)

lemma subscribed_node:
  fixes g :: u8
  assumes wf: "trie_wf t fl" and p: "path_node t path = Some n" and s: "s < 4096"
  defines "t' \<equiv> node_update t n (node_subscribe s g)"
  shows "trie_wf t' fl"
    "subscriptions t' q a = (if q = path \<and> a = s then Some g else subscriptions t q a)"
proof -
  have inv: "trie_inv t fl" using wf by (simp add: trie_wf_def)
  note na = walk_allocated [OF inv root_allocated [OF inv] p]
  note nl = trie_inv_nth [OF inv na] and nm = allocatedD(1) [OF na]
  have nodes: "tr_nodes t' ! k = (if k = n then node_subscribe s g (tr_nodes t ! n) else tr_nodes t ! k)" for k
    using nl by (simp add: t'_def node_update_nth)
  have t': "length (tr_nodes t') = length (tr_nodes t)" "tr_free_head t' = tr_free_head t"
      "tr_node_count t' = tr_node_count t"
    by (simp_all add: t'_def)
  have st: "trie_inv t' fl \<and> path_node t' = path_node t"
    by (intro conjI same_tree [OF inv t']) (simp_all add: nodes node_subscribe_fields bitmap_shape [OF inv] nm)
  note st = conjunct1 [OF st] conjunct2 [OF st]
  show "trie_wf t' fl"
    using wf st(1) node_subscribe_count [OF s bitmap_shape(1) [OF inv nm]] na
    by (simp add: trie_wf_def nodes)
  have "m = n \<longleftrightarrow> q = path" if "path_node t q = Some m" for m
    using path_node_unique [OF inv that, of path] p that by auto
  then show "subscriptions t' q a = (if q = path \<and> a = s then Some g else subscriptions t q a)"
    using p s by (auto simp: subscriptions_def st(2) nodes node_subscribe_fields bitmap_shape [OF inv nm]
        node_subscribe_subs [OF s bitmap_shape(1) [OF inv nm]] split: option.splits)
qed

lemma trie_subscribe_ok:
  assumes "len \<le> length filt" "trie_wf t fl" "trie_subscribe t filt len slot gen = (ok, t')"
  shows "\<exists>fl'. trie_wf t' fl'"
    "subscriptions t' q s = (if ok \<and> q = filter_path filt len 0 \<and> s = slot then Some gen else subscriptions t q s)"
    "ok \<Longrightarrow> slot < 4096"
proof -
  have inv: "trie_inv t fl" using assms(2) by (simp add: trie_wf_def)
  have "(\<exists>fl'. trie_wf t' fl') \<and> subscriptions t' q s =
      (if ok \<and> q = filter_path filt len 0 \<and> s = slot then Some gen else subscriptions t q s) \<and> (ok \<longrightarrow> slot < 4096)"
  proof (cases "slot < 4096")
    case False
    then show ?thesis using assms by (auto simp: trie_subscribe_def TRIE_FD_SLOTS_def BITS_PER_SLOT_def)
  next
    case True
    obtain r t1 where w: "subscribe_walk t 0 filt len 0 = (r, t1)" by (cases "subscribe_walk t 0 filt len 0")
    obtain fl' where w1: "trie_wf t1 fl'" "subscriptions t1 = subscriptions t"
        "case r of None \<Rightarrow> True | Some m \<Rightarrow> path_node t1 (filter_path filt len 0) = Some m"
      using subscribe_walk_spec [OF assms(1,2) walk.simps(1) w] unfolding append_Nil by blast
    show ?thesis
    proof (cases r)
      case None
      then have "ok = False" "t' = t1"
        using assms(3) True w by (simp_all add: trie_subscribe_def TRIE_FD_SLOTS_def BITS_PER_SLOT_def)
      then show ?thesis using w1 by auto
    next
      case (Some n)
      then have t': "ok = True" "t' = node_update t1 n (node_subscribe slot gen)"
        using assms(3) True w by (simp_all add: trie_subscribe_def TRIE_FD_SLOTS_def BITS_PER_SLOT_def)
      have p: "path_node t1 (filter_path filt len 0) = Some n" using w1(3) Some by simp
      show ?thesis
        using subscribed_node [OF w1(1) p True, of gen] w1(2) True unfolding t'(2) by (auto simp: t'(1))
    qed
  qed
  then show "\<exists>fl'. trie_wf t' fl'" "ok \<Longrightarrow> slot < 4096"
    "subscriptions t' q s = (if ok \<and> q = filter_path filt len 0 \<and> s = slot then Some gen else subscriptions t q s)"
    by blast+
qed

lemma unsubscribe_walk_path:
  "len \<le> length filt \<Longrightarrow> unsubscribe_walk t n filt len pos = walk t n (filter_path filt len pos)"
proof (induction t n filt len pos rule: unsubscribe_walk.induct)
  case (1 t n filt len pos)
  show ?case
  proof (cases "topic_iter_next filt len pos")
    case None
    then show ?thesis using filter_path_end [OF 1(2)] by (simp add: unsubscribe_walk.simps [of t n filt len pos])
  next
    case (Some sp)
    obtain seg pos' where sp: "sp = (seg, pos')" by (cases sp)
    show ?thesis
      using 1(1) [OF Some sp [symmetric] refl] 1(2) filter_path_step [OF 1(2) Some [unfolded sp]]
      unfolding unsubscribe_walk.simps [of t n filt len pos] Some sp
      by (simp add: Let_def) (simp add: find_child_take)
  qed
qed

lemma unsubscribed_node:
  assumes wf: "trie_wf t fl" and p: "path_node t path = Some n" and s: "s < 4096"
  defines "t' \<equiv> node_update t n (node_unsubscribe s)"
  shows "trie_wf t' fl"
    "subscriptions t' q a = (if q = path \<and> a = s then None else subscriptions t q a)"
proof -
  have inv: "trie_inv t fl" using wf by (simp add: trie_wf_def)
  note na = walk_allocated [OF inv root_allocated [OF inv] p]
  note nl = trie_inv_nth [OF inv na] and nm = allocatedD(1) [OF na]
  have nodes: "tr_nodes t' ! k = (if k = n then node_unsubscribe s (tr_nodes t ! n) else tr_nodes t ! k)" for k
    using nl by (simp add: t'_def node_update_nth)
  have t': "length (tr_nodes t') = length (tr_nodes t)" "tr_free_head t' = tr_free_head t"
      "tr_node_count t' = tr_node_count t"
    by (simp_all add: t'_def)
  have st: "trie_inv t' fl \<and> path_node t' = path_node t"
    by (intro conjI same_tree [OF inv t']) (simp_all add: nodes node_unsubscribe_fields bitmap_shape [OF inv] nm)
  note st = conjunct1 [OF st] conjunct2 [OF st]
  show "trie_wf t' fl"
    using wf st(1) node_unsubscribe_count [OF s bitmap_shape(1) [OF inv nm]] na
    by (simp add: trie_wf_def nodes)
  have "m = n \<longleftrightarrow> q = path" if "path_node t q = Some m" for m
    using path_node_unique [OF inv that, of path] p that by auto
  then show "subscriptions t' q a = (if q = path \<and> a = s then None else subscriptions t q a)"
    using p by (auto simp: subscriptions_def st(2) nodes node_unsubscribe_fields
        node_unsubscribe_subs [OF s bitmap_shape(1) [OF inv nm]] split: option.splits)
qed

lemma trie_unsubscribe_ok:
  assumes "len \<le> length filt" "trie_wf t fl" "trie_unsubscribe t filt len slot = (ok, t')"
  shows "trie_wf t' fl"
    "ok \<longleftrightarrow> slot < 4096 \<and> path_node t (filter_path filt len 0) \<noteq> None"
    "subscriptions t' q s = (if q = filter_path filt len 0 \<and> s = slot then None else subscriptions t q s)"
proof -
  have none: "subscriptions t q s = None" if "s \<ge> 4096"
    using that by (auto simp: subscriptions_def node_subs_def split: option.splits)
  have none': "subscriptions t q s = None" if "path_node t q = None" using that by (simp add: subscriptions_def)
  have "trie_wf t' fl \<and> (ok \<longleftrightarrow> slot < 4096 \<and> path_node t (filter_path filt len 0) \<noteq> None) \<and>
    subscriptions t' q s = (if q = filter_path filt len 0 \<and> s = slot then None else subscriptions t q s)"
  proof (cases "slot < 4096")
    case False
    then show ?thesis
      using assms none by (auto simp: trie_unsubscribe_def TRIE_FD_SLOTS_def BITS_PER_SLOT_def)
  next
    case True
    then have u: "trie_unsubscribe t filt len slot = (case path_node t (filter_path filt len 0) of
        None \<Rightarrow> (False, t) | Some n \<Rightarrow> (True, node_update t n (node_unsubscribe slot)))"
      by (simp add: trie_unsubscribe_def TRIE_FD_SLOTS_def BITS_PER_SLOT_def unsubscribe_walk_path [OF assms(1)])
    show ?thesis
    proof (cases "path_node t (filter_path filt len 0)")
      case None
      then show ?thesis using u assms(2,3) none' by auto
    next
      case (Some n)
      then show ?thesis using u assms(3) True unsubscribed_node [OF assms(2) Some True] by auto
    qed
  qed
  then show "trie_wf t' fl" "ok \<longleftrightarrow> slot < 4096 \<and> path_node t (filter_path filt len 0) \<noteq> None"
    "subscriptions t' q s = (if q = filter_path filt len 0 \<and> s = slot then None else subscriptions t q s)" by blast+
qed

lemma trie_remove_fd_ok:
  assumes wf: "trie_wf t fl"
  shows "trie_wf (trie_remove_fd t slot) fl"
    "subscriptions (trie_remove_fd t slot) q s = (if s = slot then None else subscriptions t q s)"
proof -
  have inv: "trie_inv t fl" using wf by (simp add: trie_wf_def)
  have "trie_wf (trie_remove_fd t slot) fl \<and>
    subscriptions (trie_remove_fd t slot) q s = (if s = slot then None else subscriptions t q s)"
  proof (cases "slot < 4096")
    case False
    have "subscriptions t q s = None" if "s \<ge> 4096"
      using that by (auto simp: subscriptions_def node_subs_def split: option.splits)
    with False show ?thesis
      using wf by (auto simp: trie_remove_fd_def TRIE_FD_SLOTS_def BITS_PER_SLOT_def)
  next
    case True
    let ?t = "trie_remove_fd t slot"
    have t: "tr_free_head ?t = tr_free_head t" "tr_node_count ?t = tr_node_count t"
        "length (tr_nodes ?t) = length (tr_nodes t)"
      by (simp_all add: trie_remove_fd_def)
    have nodes: "tr_nodes ?t ! k = node_unsubscribe slot (tr_nodes t ! k)" if "k < TRIE_MAX_NODES" for k
      using True that trie_invD(1) [OF inv] by (simp add: trie_remove_fd_def TRIE_FD_SLOTS_def BITS_PER_SLOT_def)
    have st: "trie_inv ?t fl \<and> path_node ?t = path_node t"
      by (intro conjI same_tree [OF inv t(3,1,2)]) (simp_all add: nodes node_unsubscribe_fields bitmap_shape [OF inv])
    note st = conjunct1 [OF st] conjunct2 [OF st]
    have k: "k < TRIE_MAX_NODES" if "path_node t q = Some k" for k
      using walk_allocated [OF inv root_allocated [OF inv] that] allocatedD(1) by blast
    have "trie_wf ?t fl"
      using wf st(1) node_unsubscribe_count [OF True bitmap_shape(1) [OF inv]] allocatedD(1)
      by (simp add: trie_wf_def nodes)
    moreover have "subscriptions ?t q s = (if s = slot then None else subscriptions t q s)"
      using k by (auto simp: subscriptions_def st(2) nodes node_unsubscribe_fields
          node_unsubscribe_subs [OF True bitmap_shape(1) [OF inv]] split: option.splits)
    ultimately show ?thesis by blast
  qed
  then show "trie_wf (trie_remove_fd t slot) fl"
    "subscriptions (trie_remove_fd t slot) q s = (if s = slot then None else subscriptions t q s)" by blast+
qed

section \<open>When a subscription succeeds\<close>

lemma subscribe_walk_existing:
  "len \<le> length filt \<Longrightarrow> walk t n (filter_path filt len pos) = Some m \<Longrightarrow>
     subscribe_walk t n filt len pos = (Some m, t)"
proof (induction t n filt len pos rule: subscribe_walk.induct)
  case (1 t n filt len pos)
  show ?case
  proof (cases "topic_iter_next filt len pos")
    case None
    then have "n = m" using 1(4) filter_path_end [OF 1(3)] by simp
    with None show ?thesis unfolding subscribe_walk.simps [of t n filt len pos] by simp
  next
    case (Some sp)
    obtain seg pos' where sp: "sp = (seg, pos')" by (cases sp)
    note fp = filter_path_step [OF 1(3) Some [unfolded sp]]
    have c: "trie_find_child t n seg (seg_length seg) \<noteq> 0"
        "walk t (trie_find_child t n seg (seg_length seg)) (filter_path filt len pos') = Some m"
      using 1(4) unfolding fp by (simp_all add: find_child_take [of t n seg] Let_def split: if_splits)
    show ?thesis
      using 1(1) [OF Some sp [symmetric] refl refl c(1) 1(3) c(2)] c(1)
      unfolding subscribe_walk.simps [of t n filt len pos] Some sp by (simp add: Let_def)
  qed
qed

lemma no_kids_no_child:
  assumes "trie_inv t fl" "n \<in> allocated fl" "kids t n = []"
  shows "trie_find_child t n s (length s) = 0"
  using trie_find_child_result [OF assms(1,2) refl, of s] assms(3) by auto

lemma subscribe_walk_room:
  assumes "len \<le> length filt" "trie_wf t fl" "path_node t pre = Some n"
    "length (filter_path filt len pos) \<le> length fl"
    "kids t n = [] \<or> (\<forall>m \<in> allocated fl. tn_child_count (tr_nodes t ! m) < 32)"
  shows "fst (subscribe_walk t n filt len pos) \<noteq> None"
  using assms
proof (induction t n filt len pos arbitrary: fl pre rule: subscribe_walk.induct)
  case (1 t n filt len pos)
  note wf = 1(4) and pn = 1(5)
  note run = subscribe_walk.simps [of t n filt len pos]
  have inv: "trie_inv t fl" using wf by (simp add: trie_wf_def)
  note na = walk_allocated [OF inv root_allocated [OF inv] pn]
  show ?case
  proof (cases "topic_iter_next filt len pos")
    case None
    then show ?thesis by (simp add: run)
  next
    case (Some sp)
    obtain seg pos' where sp: "sp = (seg, pos')" by (cases sp)
    let ?s = "take 64 seg"
    note nx = Some [unfolded sp]
    note fp = filter_path_step [OF 1(3) nx]
    have s: "length ?s \<le> 64" by simp
    show ?thesis
    proof (cases "trie_find_child t n seg (seg_length seg) = 0")
      case False
      then have c: "trie_find_child t n ?s (length ?s) \<noteq> 0" by (simp only: find_child_take not_False_eq_True)
      then have "\<forall>m \<in> allocated fl. tn_child_count (tr_nodes t ! m) < 32"
        using 1(7) no_kids_no_child [OF inv na, of ?s] by argo
      moreover have "length (filter_path filt len pos') \<le> length fl" using 1(6) by (simp add: fp)
      ultimately have "fst (subscribe_walk t (trie_find_child t n seg (seg_length seg)) filt len pos') \<noteq> None"
        using 1(1) [OF Some sp [symmetric] refl refl False 1(3) wf walk_path [OF pn refl c, folded find_child_take]] by blast
      then show ?thesis unfolding run Some sp using False by (simp add: Let_def)
    next
      case True
      then have none: "trie_find_child t n ?s (length ?s) = 0" by (simp only: find_child_take)
      obtain c fl0 where fl: "fl = c # fl0" using 1(6) fp by (cases fl) auto
      note inv = inv [unfolded fl] and na = na [unfolded fl] and wf = wf [unfolded fl]
      have c: "c \<noteq> 0" "tr_free_head t = c" using trie_invD(3) [OF inv] by auto
      obtain t1 where al: "trie_alloc t = (c, t1)" using c by (simp add: trie_alloc_def Let_def)
      then have t1: "t1 = snd (trie_alloc t)" by simp
      let ?t1 = "node_update t1 c (name_child ?s (length ?s))"
      have nm: "node_update t1 c (name_child seg (seg_length seg)) = ?t1" by (simp only: name_child_take)
      have "tn_child_count (tr_nodes t ! n) = length (kids t n)"
        using kids_length [OF inv allocatedD(1) [OF na]] by simp
      then have room: "tn_child_count (tr_nodes t ! n) < 32"
        using 1(7) na unfolding fl by auto
      obtain t2 idx where t2: "trie_add_child ?t1 n c = (True, t2)" "grown t n c idx ?s t2"
        and idx: "probe_for (\<lambda>i. if tn_child_hash (tr_nodes t ! n) ! i = 0 then Some i else None)
            TRIE_CHILD_HASH_MASK 64 (unat (trie_hash_segment ?s) mod 64) = Some idx"
        using add_child_grown [OF inv na s room] unfolding t1 by blast
      have fresh: "\<forall>k\<in>set (kids t n). seg_name t k \<noteq> ?s"
        using trie_find_child_found [OF inv na] node_okD(2) [OF trie_invD(6) [OF inv na]] none by fastforce
      note inv2 = grown_inv [OF inv na s room t2(2) fresh idx]
      note g = grown_subscriptions [OF inv pn s room t2(2) none inv2]
      have "kids t2 c = []" using grown_views(1,7) [OF inv na s room t2(2)] by simp
      moreover have "length (filter_path filt len pos') \<le> length fl0" using 1(6) by (simp add: fp fl)
      ultimately have "fst (subscribe_walk t2 c filt len pos') \<noteq> None"
        using 1(2) [OF Some sp [symmetric] refl refl _ al [symmetric] c(1) _ refl 1(3) g(3) [OF wf] g(2)] True t2(1) nm
        by simp
      then show ?thesis unfolding run nx al using True c t2(1) by (simp add: Let_def nm)
    qed
  qed
qed

lemma trie_subscribe_room:
  assumes "len \<le> length filt" "trie_wf t fl" "slot < 4096"
    and "path_node t (filter_path filt len 0) \<noteq> None \<or>
      tr_node_count t + length (filter_path filt len 0) \<le> TRIE_MAX_NODES \<and>
      (\<forall>n \<in> allocated fl. tn_child_count (tr_nodes t ! n) < TRIE_MAX_CHILDREN)"
  shows "fst (trie_subscribe t filt len slot gen)"
proof -
  have inv: "trie_inv t fl" using assms(2) by (simp add: trie_wf_def)
  have "fst (subscribe_walk t 0 filt len 0) \<noteq> None"
  proof (cases "path_node t (filter_path filt len 0)")
    case (Some n)
    then show ?thesis using subscribe_walk_existing [OF assms(1) Some] by simp
  next
    case None
    then have "length (filter_path filt len 0) \<le> length fl"
        "\<forall>n \<in> allocated fl. tn_child_count (tr_nodes t ! n) < 32"
      using assms(4) trie_invD(5) [OF inv] by (auto simp: TRIE_MAX_CHILDREN_def)
    then show ?thesis using subscribe_walk_room [OF assms(1,2) walk.simps(1)] by blast
  qed
  then show ?thesis
    using assms(3) by (auto simp: trie_subscribe_def TRIE_FD_SLOTS_def BITS_PER_SLOT_def split: prod.splits option.splits)
qed

section \<open>Properties\<close>

text \<open>A trie with the subscription of slot 5, generation 3, to the filter \<open>a/+\<close>.\<close>

abbreviation (input) "filt_a_plus \<equiv> [0x61, 0x2F, 0x2B] :: bytes"

lemma filter_path_a_plus: "filter_path filt_a_plus 3 0 = [[0x61], [0x2B]]"
  by (simp add: filter_path_def split_topic.simps(2))

lemma trie_init_room:
  "tr_node_count trie_init = 1" "n \<in> allocated [1..<1024] \<Longrightarrow> tn_child_count (tr_nodes trie_init ! n) < TRIE_MAX_CHILDREN"
proof -
  show "tr_node_count trie_init = 1" by (simp add: trie_init_def)
  assume "n \<in> allocated [1..<1024]"
  then have "n < 1024" by (simp add: allocated_def TRIE_MAX_NODES_def)
  then show "tn_child_count (tr_nodes trie_init ! n) < TRIE_MAX_CHILDREN"
    by (simp only: trie_init_node) (simp add: zero_node_def TRIE_MAX_CHILDREN_def)
qed

lemma subscribe_fresh_ok:
  assumes "slot < 4096" "len \<le> length filt" "length (filter_path filt len 0) \<le> 1023"
  shows "fst (trie_subscribe trie_init filt len slot g)"
  by (rule trie_subscribe_room [OF assms(2) trie_init_wf assms(1)])
     (use assms(3) trie_init_room in \<open>simp add: TRIE_MAX_NODES_def\<close>)

definition sample_trie :: topic_trie where
  "sample_trie = snd (trie_subscribe trie_init filt_a_plus 3 5 3)"

lemma sample_trie_wf: "\<exists>fl. trie_wf sample_trie fl"
  using trie_subscribe_ok(1) [OF _ trie_init_wf prod.collapse [symmetric], where len = 3 and filt = filt_a_plus and slot = 5 and gen = 3]
  by (simp add: sample_trie_def)

lemma sample_trie_subs: "subscriptions sample_trie [[0x61], [0x2B]] 5 = Some 3"
  using trie_subscribe_ok(2) [OF _ trie_init_wf prod.collapse [symmetric], where len = 3 and filt = filt_a_plus and slot = 5 and gen = 3]
    subscribe_fresh_ok [where slot = 5 and g = 3 and filt = filt_a_plus and len = 3]
  by (simp add: filter_path_a_plus sample_trie_def)

text \<open>C23: on a well-formed trie, a subscription sets the generation of its slot at the path of its
  filter and changes no other subscription; one that fails for want of nodes or children changes
  none, and the trie stays well formed either way.\<close>

theorem trie_subscribe_correct:
  assumes "len \<le> length filt" "trie_wf t fl" "trie_subscribe t filt len slot gen = (ok, t')"
  shows "(\<exists>fl'. trie_wf t' fl') \<and> (ok \<longrightarrow> slot < 4096) \<and> subscriptions t' = (\<lambda>path s.
     if ok \<and> path = filter_path filt len 0 \<and> s = slot then Some gen else subscriptions t path s)"
  using trie_subscribe_ok(1,3) [OF assms] by (auto intro!: ext simp: trie_subscribe_ok(2) [OF assms])

theorem trie_subscribe_correct_witness:
  "subscriptions (snd (trie_subscribe trie_init filt_a_plus 3 5 3)) [[0x61], [0x2B]] 5 = Some 3"
  using trie_subscribe_correct [OF _ trie_init_wf prod.collapse [symmetric], where len = 3 and filt = filt_a_plus and slot = 5 and gen = 3]
    subscribe_fresh_ok [where slot = 5 and g = 3 and filt = filt_a_plus and len = 3]
  by (simp add: filter_path_a_plus)

text \<open>A subscription to a filter whose path exists, or for whose segments there are enough free
  nodes while no node has all its 32 children, does succeed.\<close>

theorem trie_subscribe_succeeds:
  assumes "len \<le> length filt" "trie_wf t fl" "slot < 4096"
    and "path_node t (filter_path filt len 0) \<noteq> None \<or>
      tr_node_count t + length (filter_path filt len 0) \<le> TRIE_MAX_NODES \<and>
      (\<forall>n \<in> allocated fl. tn_child_count (tr_nodes t ! n) < TRIE_MAX_CHILDREN)"
  shows "fst (trie_subscribe t filt len slot gen)"
  by (rule trie_subscribe_room [OF assms])

theorem trie_subscribe_succeeds_witness: "fst (trie_subscribe trie_init [0x61] 1 4095 9)"
  by (rule trie_subscribe_succeeds [OF _ trie_init_wf])
     (use trie_init_room in \<open>simp_all add: TRIE_MAX_NODES_def filter_path_def split_topic.simps(2)\<close>)

text \<open>An unsubscription removes its slot at the path of its filter and nothing else; it reports
  failure exactly when the path does not exist or the slot is out of range.\<close>

theorem trie_unsubscribe_correct:
  assumes "len \<le> length filt" "trie_wf t fl" "trie_unsubscribe t filt len slot = (ok, t')"
  shows "trie_wf t' fl \<and> (ok \<longleftrightarrow> slot < 4096 \<and> path_node t (filter_path filt len 0) \<noteq> None)
     \<and> subscriptions t' = (\<lambda>path s. if path = filter_path filt len 0 \<and> s = slot then None else subscriptions t path s)"
  using trie_unsubscribe_ok(1,2) [OF assms] by (auto intro!: ext simp: trie_unsubscribe_ok(3) [OF assms])

theorem trie_unsubscribe_correct_witness:
  "fst (trie_unsubscribe sample_trie filt_a_plus 3 5)
     \<and> subscriptions (snd (trie_unsubscribe sample_trie filt_a_plus 3 5)) [[0x61], [0x2B]] 5 = None"
proof -
  obtain fl where "trie_wf sample_trie fl" using sample_trie_wf by blast
  note * = trie_unsubscribe_correct [OF _ this prod.collapse [symmetric], where len = 3 and filt = filt_a_plus and slot = 5]
  have "path_node sample_trie [[0x61], [0x2B]] \<noteq> None"
    using sample_trie_subs by (auto simp: subscriptions_def split: option.splits)
  with * show ?thesis by (simp add: filter_path_a_plus)
qed

text \<open>Removing a slot removes all of its subscriptions and nothing else.\<close>

theorem trie_remove_fd_correct:
  assumes "trie_wf t fl"
  shows "trie_wf (trie_remove_fd t slot) fl
     \<and> subscriptions (trie_remove_fd t slot) = (\<lambda>path s. if s = slot then None else subscriptions t path s)"
  using trie_remove_fd_ok(1) [OF assms] by (auto intro!: ext simp: trie_remove_fd_ok(2) [OF assms])

theorem trie_remove_fd_correct_witness:
  "subscriptions sample_trie [[0x61], [0x2B]] 5 = Some 3
     \<and> subscriptions (trie_remove_fd sample_trie 5) [[0x61], [0x2B]] 5 = None
     \<and> subscriptions (trie_remove_fd sample_trie 6) [[0x61], [0x2B]] 5 = Some 3"
proof -
  obtain fl where "trie_wf sample_trie fl" using sample_trie_wf by blast
  from trie_remove_fd_correct [OF this] sample_trie_subs show ?thesis by simp
qed

end
