(* ===== verification/Trie_Match.thy ===== *)
theory Trie_Match
  imports Trie_Ops
begin

text \<open>
  Matching in the topic trie of \<^verbatim>\<open>src/src/broker/trie.h\<close>: which nodes and which subscriptions a
  published topic reaches.
\<close>

section \<open>When a filter matches a topic\<close>

fun filter_match :: "bytes list \<Rightarrow> bytes list \<Rightarrow> bool" where
  "filter_match [] [] = True"
| "filter_match [] (t # ts) = False"
| "filter_match (f # fs) [] = (f = [SEG_HASH] \<and> fs = [])"
| "filter_match (f # fs) (t # ts) =
     ((f = [SEG_HASH] \<and> fs = []) \<or> ((f = [SEG_PLUS] \<or> f = t) \<and> filter_match fs ts))"

definition topic_path :: "bytes \<Rightarrow> nat \<Rightarrow> nat \<Rightarrow> bytes list" where
  "topic_path topic pos len = split_topic (drop pos (take len topic))"

lemma topic_path_step:
  "pos < len \<Longrightarrow> len \<le> length topic \<Longrightarrow> topic_extract_segment topic len pos = (seg, next_pos) \<Longrightarrow>
     topic_path topic pos len = seg # topic_path topic next_pos len"
  using split_topic_step [of pos len topic] by (simp add: topic_path_def)

lemma topic_path_end: "pos \<ge> len \<Longrightarrow> topic_path topic pos len = []"
  by (simp add: topic_path_def)

section \<open>Matching by the standard\<close>

text \<open>The levels of a topic name, as the standard has them (\<^verbatim>\<open>docs/mqtt-rfc/08-topics.md\<close>): split at every slash, with an empty
  level after a trailing one.\<close>

fun levels :: "bytes \<Rightarrow> bytes list" where
  "levels [] = [[]]"
| "levels (c # cs) = (if c = SLASH then [] # levels cs else (c # hd (levels cs)) # tl (levels cs))"

lemma levels_ne [simp]: "levels xs \<noteq> []"
  by (cases xs) simp_all

lemma levels_unfold:
  "levels xs = takeWhile (\<lambda>c. c \<noteq> SLASH) xs # (case dropWhile (\<lambda>c. c \<noteq> SLASH) xs of [] \<Rightarrow> [] | _ # r \<Rightarrow> levels r)"
  by (induction xs) auto

text \<open>The segments of the code are the levels but for an empty last one.\<close>

lemma split_topic_levels: "split_topic xs = (if last (levels xs) = [] then butlast (levels xs) else levels xs)"
proof (induction xs rule: split_topic.induct)
  case (2 c cs)
  let ?d = "dropWhile (\<lambda>c. c \<noteq> SLASH) (c # cs)"
  show ?case
  proof (cases ?d)
    case Nil
    then have "takeWhile (\<lambda>c. c \<noteq> SLASH) (c # cs) = c # cs" by (metis takeWhile_dropWhile_id append_Nil2)
    then show ?thesis using Nil unfolding split_topic.simps(2) levels_unfold [of "c # cs"] by simp
  next
    case (Cons d r)
    then show ?thesis using 2 unfolding split_topic.simps(2) levels_unfold [of "c # cs"] by simp
  qed
qed simp

lemma levels_snoc:
  "levels (xs @ [c]) = (if c = SLASH then levels xs @ [[]] else butlast (levels xs) @ [last (levels xs) @ [c]])"
proof (induction xs)
  case (Cons x xs)
  obtain l ls where "levels xs = l # ls" by (cases "levels xs") simp_all
  then show ?case using Cons by (cases ls) auto
qed simp

lemma last_level: "last (levels xs) = [] \<longleftrightarrow> xs = [] \<or> last xs = SLASH"
  by (cases xs rule: rev_cases) (simp_all add: levels_snoc)

text \<open>The matching of the standard on levels.\<close>

fun levels_match :: "bytes list \<Rightarrow> bytes list \<Rightarrow> bool" where
  "levels_match [] ts = (ts = [])"
| "levels_match (f # fs) ts = (f = [SEG_HASH] \<or>
     (case ts of [] \<Rightarrow> False | t # ts \<Rightarrow> (f = [SEG_PLUS] \<or> f = t) \<and> levels_match fs ts))"

definition mqtt_match :: "bytes list \<Rightarrow> bytes \<Rightarrow> bool" where
  "mqtt_match f topic \<longleftrightarrow> levels_match f (levels topic)
     \<and> \<not> (take 1 topic = [0x24] \<and> (take 1 f = [[SEG_PLUS]] \<or> take 1 f = [[SEG_HASH]]))"

lemma filter_match_levels: "[SEG_HASH] \<notin> set (butlast p) \<Longrightarrow> filter_match p ts = levels_match p ts"
  by (induction p ts rule: filter_match.induct) (auto split: if_splits)

definition plain_topic :: "bytes \<Rightarrow> bool" where
  "plain_topic topic \<longleftrightarrow> topic \<noteq> [] \<and> hd topic \<noteq> 0x24 \<and> last topic \<noteq> SLASH"

lemma plain_match:
  assumes "plain_topic (take len topic)" "[SEG_HASH] \<notin> set (butlast p)"
  shows "filter_match p (topic_path topic 0 len) = mqtt_match p (take len topic)"
proof -
  have "take 1 (take len topic) \<noteq> [0x24]" using assms(1) by (cases "take len topic") (simp_all add: plain_topic_def)
  moreover have "topic_path topic 0 len = levels (take len topic)"
    using assms(1) by (simp add: topic_path_def split_topic_levels last_level plain_topic_def)
  ultimately show ?thesis using filter_match_levels [OF assms(2)] by (simp add: mqtt_match_def)
qed

section \<open>What matching visits\<close>

definition live_node :: "topic_trie \<Rightarrow> nat \<Rightarrow> bool" where
  "live_node t n \<longleftrightarrow> tn_sub_count (tr_nodes t ! n) > 0"

text \<open>The nodes below \<open>n\<close> on a matching path.\<close>

definition matches_below :: "topic_trie \<Rightarrow> nat \<Rightarrow> bytes list \<Rightarrow> nat set" where
  "matches_below t n ts = {m. \<exists>p. walk t n p = Some m \<and> filter_match p ts \<and> live_node t m}"

lemma wild_child_find:
  assumes inv: "trie_inv t fl" and n: "n \<in> allocated fl" and w: "wild_child t n s w"
  shows "trie_find_child t n s (length s) = w"
proof (cases "w = 0")
  case True
  then have "\<forall>c \<in> set (kids t n). seg_name t c \<noteq> s" using w by (simp add: wild_child_def)
  then show ?thesis using trie_find_child_result [OF inv n refl, of s] True by blast
next
  case False
  then show ?thesis using w trie_find_child_found [OF inv n] by (simp add: wild_child_def)
qed

lemma find_wild:
  assumes "trie_inv t fl" "n \<in> allocated fl"
  shows "trie_find_plus t n = trie_find_child t n [SEG_PLUS] (length [SEG_PLUS])"
    "trie_find_hash t n = trie_find_child t n [SEG_HASH] (length [SEG_HASH])"
  using wild_child_find [OF assms node_okD(7) [OF trie_invD(6) [OF assms]]]
    wild_child_find [OF assms node_okD(8) [OF trie_invD(6) [OF assms]]]
  by (simp_all only: trie_find_plus_def trie_find_hash_def)

lemma find_long:
  assumes "trie_inv t fl" "n \<in> allocated fl" "length s > 64"
  shows "trie_find_child t n s (length s) = 0"
proof (rule ccontr)
  assume "trie_find_child t n s (length s) \<noteq> 0"
  then have c: "trie_find_child t n s (length s) \<in> set (kids t n)" "seg_name t (trie_find_child t n s (length s)) = s"
    using trie_find_child_result [OF assms(1,2) refl] by blast+
  then have "trie_find_child t n s (length s) < TRIE_MAX_NODES"
    using node_okD(2) [OF trie_invD(6) [OF assms(1,2)]] allocatedD(1) by blast
  then have "length s \<le> 64" using c(2) trie_invD(2) [OF assms(1)] seg_name_length [OF assms(1)]
    by (metis node_shape_def)
  with assms(3) show False by simp
qed

text \<open>One level of the recursion: its matches split by the first segment of the filter.\<close>

definition below_seg :: "topic_trie \<Rightarrow> nat \<Rightarrow> bytes \<Rightarrow> bytes list \<Rightarrow> nat set" where
  "below_seg t n s ts = {m. \<exists>p. walk t n (s # p) = Some m \<and> filter_match p ts \<and> live_node t m}"

definition hash_set :: "topic_trie \<Rightarrow> nat \<Rightarrow> nat set" where
  "hash_set t n = {m. walk t n [[SEG_HASH]] = Some m \<and> live_node t m}"

lemma matches_below_Nil: "matches_below t n [] = hash_set t n \<union> (if live_node t n then {n} else {})"
proof -
  have f: "filter_match p [] \<longleftrightarrow> p = [] \<or> p = [[SEG_HASH]]" for p by (cases p) auto
  have "matches_below t n [] = {m. walk t n [] = Some m \<and> live_node t m} \<union> hash_set t n"
    unfolding matches_below_def hash_set_def f by blast
  then show ?thesis by auto
qed

lemma matches_below_Cons:
  "matches_below t n (s # ts) = hash_set t n \<union> below_seg t n [SEG_PLUS] ts \<union> below_seg t n s ts"
proof -
  have f: "filter_match p (s # ts) \<longleftrightarrow> p = [[SEG_HASH]] \<or>
      (\<exists>q. (p = [SEG_PLUS] # q \<or> p = s # q) \<and> filter_match q ts)" for p
    by (cases p) auto
  show ?thesis unfolding matches_below_def hash_set_def below_seg_def f by blast
qed

lemma below_seg_child: "below_seg t n s ts =
    (let c = trie_find_child t n s (length s) in if c = 0 then {} else matches_below t c ts)"
  by (simp add: below_seg_def matches_below_def Let_def)

lemma hash_set_child: "hash_set t n =
    (let c = trie_find_child t n [SEG_HASH] (length [SEG_HASH]) in if c \<noteq> 0 \<and> live_node t c then {c} else {})"
  by (auto simp: hash_set_def Let_def)

lemma match_recursive_set:
  assumes "trie_inv t fl" "n \<in> allocated fl" "len \<le> length topic"
  shows "set (trie_match_recursive t n topic pos len) = matches_below t n (topic_path topic pos len)"
  using assms
proof (induction t n topic pos len rule: trie_match_recursive.induct)
  case (1 t n topic pos len)
  note inv = 1(3) and n = 1(4) and len = 1(5)
  let ?h = "trie_find_hash t n"
  have h: "set (if ?h \<noteq> 0 \<and> tn_sub_count (tr_nodes t ! ?h) > 0 then [?h] else []) = hash_set t n"
    unfolding hash_set_child Let_def find_wild(2) [OF inv n, symmetric] by (simp add: live_node_def)
  show ?case
  proof (cases "pos \<ge> len")
    case True
    then show ?thesis
      unfolding trie_match_recursive.simps [of t n topic pos len] Let_def if_P [OF True] set_append h
        topic_path_end [OF True] matches_below_Nil by (simp add: live_node_def)
  next
    case False
    obtain seg next_pos where e: "topic_extract_segment topic len pos = (seg, next_pos)"
      by (cases "topic_extract_segment topic len pos")
    have tp: "topic_path topic pos len = seg # topic_path topic next_pos len"
      by (rule topic_path_step [OF _ len e]) (use False in simp)
    note IH1 = 1(1) [OF refl refl False e [symmetric] refl _ inv _ len]
      and IH2 = 1(2) [OF refl refl False e [symmetric] refl refl _ refl _ inv _ len]
    have k: "c \<noteq> 0 \<Longrightarrow> trie_find_child t n s (length s) = c \<Longrightarrow> c \<in> allocated fl" for c s
      using trie_find_child_allocated [OF inv n] by blast
    have p: "set (if trie_find_plus t n \<noteq> 0 then trie_match_recursive t (trie_find_plus t n) topic next_pos len else [])
        = below_seg t n [SEG_PLUS] (topic_path topic next_pos len)"
      unfolding below_seg_child Let_def find_wild(1) [OF inv n, symmetric]
      using IH1 k [OF _ find_wild(1) [OF inv n, symmetric]] by simp
    have x: "set (if length seg \<le> TRIE_MAX_SEGMENT
          then (if trie_find_child t n seg (length seg) \<noteq> 0
             then trie_match_recursive t (trie_find_child t n seg (length seg)) topic next_pos len else [])
          else []) = below_seg t n seg (topic_path topic next_pos len)"
      unfolding below_seg_child Let_def
      using IH2 k [OF _ refl] find_long [OF inv n, of seg]
      by (cases "length seg \<le> 64") (simp_all add: TRIE_MAX_SEGMENT_def)
    show ?thesis
      unfolding trie_match_recursive.simps [of t n topic pos len] Let_def tp matches_below_Cons
      using False h p x by (simp only: if_False e prod.case set_append Un_assoc)
  qed
qed

section \<open>No node twice\<close>

lemma walk_Cons_path: "path_node t pre = Some n \<Longrightarrow> walk t n p = path_node t (pre @ p)"
  by (simp add: walk_append)

lemma below_disjoint:
  assumes "trie_inv t fl" "path_node t pre = Some n"
  shows "a \<noteq> b \<Longrightarrow> below_seg t n a ts \<inter> below_seg t n b us = {}"
    "a \<noteq> [SEG_HASH] \<Longrightarrow> hash_set t n \<inter> below_seg t n a ts = {}"
    "n \<notin> hash_set t n"
proof -
  have u: "p = q" if "walk t n p = Some m" "walk t n q = Some m" for p q m
    using path_node_unique [OF assms(1)] that unfolding walk_Cons_path [OF assms(2)] by (metis same_append_eq)
  show "a \<noteq> b \<Longrightarrow> below_seg t n a ts \<inter> below_seg t n b us = {}"
    unfolding below_seg_def using u by blast
  show "a \<noteq> [SEG_HASH] \<Longrightarrow> hash_set t n \<inter> below_seg t n a ts = {}"
    unfolding below_seg_def hash_set_def using u by blast
  have "walk t n [] = Some n" by simp
  then show "n \<notin> hash_set t n" unfolding hash_set_def using u by blast
qed

lemma match_recursive_distinct:
  assumes "trie_inv t fl" "path_node t pre = Some n" "len \<le> length topic"
    "[SEG_PLUS] \<notin> set (topic_path topic pos len)" "[SEG_HASH] \<notin> set (topic_path topic pos len)"
  shows "distinct (trie_match_recursive t n topic pos len)"
  using assms
proof (induction t n topic pos len arbitrary: pre rule: trie_match_recursive.induct)
  case (1 t n topic pos len)
  note inv = 1(3) and pn = 1(4) and len = 1(5)
  note n = walk_allocated [OF inv root_allocated [OF inv] pn]
  let ?h = "trie_find_hash t n"
  define r0 where "r0 = (if ?h \<noteq> 0 \<and> tn_sub_count (tr_nodes t ! ?h) > 0 then [?h] else [])"
  have h: "set r0 = hash_set t n" "distinct r0"
    unfolding r0_def hash_set_child Let_def find_wild(2) [OF inv n, symmetric] by (simp_all add: live_node_def)
  show ?case
  proof (cases "pos \<ge> len")
    case True
    then show ?thesis
      unfolding trie_match_recursive.simps [of t n topic pos len] Let_def if_P [OF True] r0_def [symmetric]
      using h below_disjoint(3) [OF inv pn] by simp
  next
    case False
    obtain seg next_pos where e: "topic_extract_segment topic len pos = (seg, next_pos)"
      by (cases "topic_extract_segment topic len pos")
    have tp: "topic_path topic pos len = seg # topic_path topic next_pos len"
      by (rule topic_path_step [OF _ len e]) (use False in simp)
    have w: "[SEG_PLUS] \<notin> set (topic_path topic next_pos len)" "[SEG_HASH] \<notin> set (topic_path topic next_pos len)"
        "seg \<noteq> [SEG_PLUS]" "seg \<noteq> [SEG_HASH]"
      using 1(6,7) unfolding tp by auto
    let ?p = "trie_find_plus t n" and ?c = "trie_find_child t n seg (length seg)"
    define r1 where "r1 = (if ?p \<noteq> 0 then trie_match_recursive t ?p topic next_pos len else [])"
    define r2 where "r2 = (if length seg \<le> TRIE_MAX_SEGMENT
      then (if ?c \<noteq> 0 then trie_match_recursive t ?c topic next_pos len else []) else [])"
    have "distinct r1"
      using 1(1) [OF refl refl False e [symmetric] refl _ inv _ len w(1,2)]
        walk_path [OF pn find_wild(1) [OF inv n, symmetric]]
      by (auto simp: r1_def)
    moreover have "distinct r2"
      using 1(2) [OF refl refl False e [symmetric] refl refl _ refl _ inv _ len w(1,2)] walk_path [OF pn refl, of seg]
      by (auto simp: r2_def)
    moreover have s1: "set r1 \<subseteq> below_seg t n [SEG_PLUS] (topic_path topic next_pos len)"
      unfolding below_seg_child Let_def find_wild(1) [OF inv n, symmetric] r1_def
      using match_recursive_set [OF inv _ len] trie_find_child_allocated [OF inv n, of "[SEG_PLUS]"] find_wild(1) [OF inv n] by simp
    moreover have s2: "set r2 \<subseteq> below_seg t n seg (topic_path topic next_pos len)"
      unfolding below_seg_child Let_def r2_def
      using match_recursive_set [OF inv _ len] trie_find_child_allocated [OF inv n] by auto
    ultimately have "distinct (r0 @ r1 @ r2)"
      using h below_disjoint(1) [OF inv pn w(3) [symmetric]] below_disjoint(2) [OF inv pn w(4)]
        below_disjoint(2) [OF inv pn, of "[SEG_PLUS]"]
      by (simp add: disjoint_iff) blast
    then show ?thesis
      unfolding trie_match_recursive.simps [of t n topic pos len] Let_def r0_def r1_def r2_def
      using False by (simp only: if_False e prod.case)
  qed
qed

section \<open>Collecting the matches\<close>

lemma collect_node_take: "length res \<le> TRIE_MAX_MATCHES \<Longrightarrow>
    collect_node n (take TRIE_MAX_MATCHES res) = take TRIE_MAX_MATCHES (res @ [n])"
  by (auto simp: collect_node_def)

lemma collect_node_acc: "collect_node n (take TRIE_MAX_MATCHES res) = take TRIE_MAX_MATCHES (res @ [n])"
  by (auto simp: collect_node_def)

lemma match_collect_recursive:
  "trie_match_collect_recursive t n topic pos len (take TRIE_MAX_MATCHES res)
     = take TRIE_MAX_MATCHES (res @ trie_match_recursive t n topic pos len)"
proof (induction t n topic pos len arbitrary: res rule: trie_match_recursive.induct)
  case (1 t n topic pos len)
  let ?h = "trie_find_hash t n"
  define r0 where "r0 = (if ?h \<noteq> 0 \<and> tn_sub_count (tr_nodes t ! ?h) > 0 then [?h] else [])"
  have c0: "(if ?h \<noteq> 0 \<and> tn_sub_count (tr_nodes t ! ?h) > 0 then collect_node ?h (take TRIE_MAX_MATCHES res)
      else take TRIE_MAX_MATCHES res) = take TRIE_MAX_MATCHES (res @ r0)"
    by (simp add: r0_def collect_node_acc)
  show ?case
  proof (cases "pos \<ge> len")
    case True
    then show ?thesis
      unfolding trie_match_recursive.simps [of t n topic pos len]
        trie_match_collect_recursive.simps [of t n topic pos len] Let_def if_P [OF True] c0 r0_def [symmetric]
      by (simp add: collect_node_acc del: take_append)
  next
    case False
    obtain seg next_pos where e: "topic_extract_segment topic len pos = (seg, next_pos)"
      by (cases "topic_extract_segment topic len pos")
    let ?p = "trie_find_plus t n" and ?c = "trie_find_child t n seg (length seg)"
    define r1 where "r1 = (if ?p \<noteq> 0 then trie_match_recursive t ?p topic next_pos len else [])"
    have c1: "(if ?p \<noteq> 0 then trie_match_collect_recursive t ?p topic next_pos len (take TRIE_MAX_MATCHES (res @ r0))
        else take TRIE_MAX_MATCHES (res @ r0)) = take TRIE_MAX_MATCHES (res @ r0 @ r1)"
      using 1(1) [OF refl refl False e [symmetric] refl, of "res @ r0"] by (simp add: r1_def del: take_append)
    have c2: "(if length seg \<le> TRIE_MAX_SEGMENT then if ?c \<noteq> 0
          then trie_match_collect_recursive t ?c topic next_pos len (take TRIE_MAX_MATCHES (res @ r0 @ r1))
          else take TRIE_MAX_MATCHES (res @ r0 @ r1) else take TRIE_MAX_MATCHES (res @ r0 @ r1))
        = take TRIE_MAX_MATCHES (res @ r0 @ r1 @ (if length seg \<le> TRIE_MAX_SEGMENT
            then if ?c \<noteq> 0 then trie_match_recursive t ?c topic next_pos len else [] else []))"
      using 1(2) [OF refl refl False e [symmetric] refl refl _ refl, of "res @ r0 @ r1"]
      by (simp del: take_append)
    show ?thesis
      unfolding trie_match_recursive.simps [of t n topic pos len]
        trie_match_collect_recursive.simps [of t n topic pos len] Let_def c0 if_not_P [OF False] e prod.case c1 c2
        r0_def [symmetric] r1_def [symmetric] ..
  qed
qed

lemma match_collect_ok: "trie_match_collect t topic len = take TRIE_MAX_MATCHES (trie_match t topic len)"
  using match_collect_recursive [of t 0 topic 0 len "[]"] by (simp add: trie_match_collect_def trie_match_def)

section \<open>The slots of a node\<close>

lemma ctz64_least:
  assumes "x \<noteq> 0"
  shows "ctz64 x < 64" "bit x (ctz64 x)" "\<And>i. i < ctz64 x \<Longrightarrow> \<not> bit x i"
proof -
  have "\<exists>i<64. bit x i" using assms by (auto simp: bit_eq_iff)
  then have "takeWhile (\<lambda>i. \<not> bit x i) [0..<64] \<noteq> [0..<64]"
    by (metis atLeastLessThan_iff le0 set_takeWhileD set_upt)
  then show l: "ctz64 x < 64"
    by (metis ctz64_def length_takeWhile_le length_upt minus_nat.diff_0 nat_less_le takeWhile_eq_take take_all_iff)
  show "bit x (ctz64 x)"
    using nth_length_takeWhile [of "\<lambda>i. \<not> bit x i" "[0..<64]"] l by (simp add: ctz64_def)
  show "\<not> bit x i" if "i < ctz64 x" for i
    using takeWhile_nth [of i "\<lambda>i. \<not> bit x i" "[0..<64]"] nth_mem [of i "takeWhile (\<lambda>i. \<not> bit x i) [0..<64]"]
      that l set_takeWhileD [of _ "\<lambda>i. \<not> bit x i" "[0..<64]"] by (fastforce simp: ctz64_def)
qed

lemma nat_clear_lowest:
  fixes n k y :: nat
  assumes "n = 2 ^ k * (2 * y + 1)" "k \<le> i"
  shows "odd ((n - 1) div 2 ^ i) \<longleftrightarrow> odd (n div 2 ^ i) \<and> i \<noteq> k"
proof -
  have n1: "n - 1 = 2 ^ k * (2 * y) + (2 ^ k - 1)" using assms(1) by (simp add: algebra_simps)
  have k: "(n - 1) div 2 ^ k = 2 * y" unfolding n1 by (subst div_mult_self4) simp_all
  have "(n - 1) div 2 ^ i = ((n - 1) div 2 ^ k) div 2 ^ (i - k)" "n div 2 ^ i = (n div 2 ^ k) div 2 ^ (i - k)"
    using assms(2) by (simp_all add: div_mult2_eq [symmetric] power_add [symmetric])
  moreover have "n div 2 ^ k = 2 * y + 1" using assms(1) by simp
  moreover have "(2 * y + 1) div 2 ^ (i - k) = (2 * y) div 2 ^ (i - k)" if "i \<noteq> k"
    using that assms(2) by (cases "i - k") (simp_all add: div_mult2_eq)
  ultimately show ?thesis using k by (cases "i = k") simp_all
qed

lemma odd_unat: "odd (unat x div 2 ^ i) \<longleftrightarrow> bit (x :: u64) i"
  unfolding bit_iff_odd [symmetric] by (auto simp: bit_unsigned_iff dest: bit_imp_le_length)

lemma bit_clear_lowest:
  assumes "x \<noteq> 0"
  shows "bit (x AND (x - 1)) i \<longleftrightarrow> bit x i \<and> i \<noteq> ctz64 (x :: u64)"
proof (cases "bit x i")
  case True
  let ?k = "ctz64 x"
  note c = ctz64_least [OF assms]
  have i: "?k \<le> i" using c(3) True by (meson not_le)
  have "take_bit ?k x = 0" using c(3) by (auto intro!: bit_word_eqI simp: bit_simps)
  then have "take_bit ?k (unat x) = 0" by (metis unsigned_0 unsigned_take_bit_eq)
  then have "2 ^ ?k dvd unat x" by (simp add: take_bit_eq_0_iff)
  then obtain m where m: "unat x = 2 ^ ?k * m" by blast
  have "odd (unat x div 2 ^ ?k)" using c(2) by (simp only: odd_unat)
  then have "odd m" using m by simp
  then obtain y where "m = 2 * y + 1" by (rule oddE)
  then have n: "unat x = 2 ^ ?k * (2 * y + 1)" using m by simp
  have u: "unat (x - 1) = unat x - 1" using assms by (simp add: unat_minus_one)
  have "bit (x - 1) i \<longleftrightarrow> odd ((unat x - 1) div 2 ^ i)" 
    by (simp only: odd_unat [symmetric] u)
  moreover have "odd (unat x div 2 ^ i)" using True by (simp only: odd_unat)
  ultimately have "bit (x - 1) i \<longleftrightarrow> i \<noteq> ?k" using nat_clear_lowest [OF n i] by simp
  then show ?thesis using True by (simp add: bit_simps)
qed (simp add: bit_simps)

lemma filter_upt_Cons:
  "k < m \<Longrightarrow> P k \<Longrightarrow> (\<And>i. i < k \<Longrightarrow> \<not> P i) \<Longrightarrow> filter P [0..<m] = k # filter (\<lambda>i. P i \<and> i \<noteq> k) [0..<m]"
proof -
  assume k: "k < m" "P k" "\<And>i. i < k \<Longrightarrow> \<not> P i"
  have s: "[0..<m] = [0..<k] @ k # [Suc k..<m]" using k(1) by (metis less_imp_add_positive upt_add_eq_append upt_conv_Cons le0 less_imp_le_nat add_diff_cancel_left')
  have "filter (\<lambda>i. P i \<and> i \<noteq> k) [Suc k..<m] = filter P [Suc k..<m]" by (rule filter_cong) auto
  then show ?thesis unfolding s using k(2,3) by simp
qed

lemma for_each_bit_filter: "card {i. i < 64 \<and> bit x i} \<le> n \<Longrightarrow> for_each_bit n x = filter (bit x) [0..<64]"
proof (induction n x rule: for_each_bit.induct)
  case (1 x)
  then have "\<not> bit x i" if "i < 64" for i using that by auto
  then show ?case by (auto simp: filter_empty_conv)
next
  case (2 n x)
  show ?case
  proof (cases "x = 0")
    case False
    note c = ctz64_least [OF False]
    have b: "bit (x AND (x - 1)) = (\<lambda>i. bit x i \<and> i \<noteq> ctz64 x)" using bit_clear_lowest [OF False] by blast
    have "{i. i < 64 \<and> bit (x AND (x - 1)) i} = {i. i < 64 \<and> bit x i} - {ctz64 x}" unfolding b by auto
    moreover have "ctz64 x \<in> {i. i < 64 \<and> bit x i}" using c by simp
    ultimately have "card {i. i < 64 \<and> bit (x AND (x - 1)) i} \<le> n" using 2(2) by simp
    then show ?thesis using False 2(1) filter_upt_Cons [of "ctz64 x" 64 "bit x"] c by (simp add: b)
  qed simp
qed

lemma for_each_bit_64: "for_each_bit 64 x = filter (bit x) [0..<64]"
proof (rule for_each_bit_filter)
  have "card {i. i < 64 \<and> bit x i} \<le> card {..<64::nat}" by (rule card_mono) auto
  then show "card {i. i < 64 \<and> bit x i} \<le> 64" by simp
qed

lemma for_each_fd_prefix:
  "concat (map (\<lambda>w. map (\<lambda>i. w * 64 + i) (filter (bit (tn_fd_bitmap n ! w)) [0..<64])) [0..<m])
    = filter (\<lambda>s. bit (tn_fd_bitmap n ! (s div 64)) (s mod 64)) [0..<m * 64]"
proof (induction m)
  case (Suc m)
  have "[0..<Suc m * 64] = [0..<m * 64] @ map (\<lambda>i. m * 64 + i) [0..<64]"
    using upt_add_eq_append [of 0 "m * 64" 64] map_add_upt [of "m * 64" 64] by (simp add: add.commute)
  moreover have "concat (map f [0..<Suc m]) = concat (map f [0..<m]) @ f m" for f :: "nat \<Rightarrow> nat list" by simp
  moreover have "filter (\<lambda>s. bit (tn_fd_bitmap n ! (s div 64)) (s mod 64)) (map (\<lambda>i. m * 64 + i) [0..<64])
      = map (\<lambda>i. m * 64 + i) (filter (bit (tn_fd_bitmap n ! m)) [0..<64])"
    unfolding filter_map comp_def by (rule arg_cong [OF filter_cong]) auto
  ultimately show ?case using Suc by (simp only: filter_append)
qed simp

lemma for_each_fd_eq: "trie_for_each_fd n = filter (\<lambda>s. s \<in> node_subs n) [0..<4096]"
proof -
  have "filter (\<lambda>s. s \<in> node_subs n) [0..<4096] = filter (\<lambda>s. bit (tn_fd_bitmap n ! (s div 64)) (s mod 64)) [0..<64 * 64]"
    by (rule filter_cong) (auto simp: node_subs_def)
  then show ?thesis
    unfolding trie_for_each_fd_def TRIE_FD_SLOTS_def BITS_PER_SLOT_def for_each_bit_64 for_each_fd_prefix by simp
qed

section \<open>Properties\<close>

lemma live_node_subs:
  assumes "trie_wf t fl" "n \<in> allocated fl"
  shows "live_node t n \<longleftrightarrow> node_subs (tr_nodes t ! n) \<noteq> {}"
  using assms by (simp add: trie_wf_def live_node_def card_gt_0_iff)

lemma match_set:
  assumes "trie_wf t fl" "len \<le> length topic"
  shows "set (trie_match t topic len) = {n. \<exists>p. path_node t p = Some n
    \<and> filter_match p (topic_path topic 0 len) \<and> live_node t n}"
proof -
  have inv: "trie_inv t fl" using assms(1) by (simp add: trie_wf_def)
  show ?thesis
    unfolding trie_match_def match_recursive_set [OF inv root_allocated [OF inv] assms(2)] matches_below_def ..
qed

lemma match_end: "pos \<ge> len \<Longrightarrow> tn_sub_count (tr_nodes t ! n) > 0 \<Longrightarrow> n \<in> set (trie_match_recursive t n topic pos len)"
  unfolding trie_match_recursive.simps [of t n topic pos len] Let_def by simp

text \<open>The subscriber slots the callbacks visit for a topic, with the generations they read.\<close>

definition reached :: "topic_trie \<Rightarrow> nat list \<Rightarrow> (nat \<times> u8) set" where
  "reached t nodes = {(s, g). \<exists>n \<in> set nodes. s \<in> set (trie_for_each_fd (tr_nodes t ! n))
     \<and> g = tn_fd_gen (tr_nodes t ! n) ! s}"

lemma reached_match:
  assumes "trie_wf t fl" "len \<le> length topic"
  shows "reached t (trie_match t topic len)
    = {(s, g). \<exists>p. filter_match p (topic_path topic 0 len) \<and> subscriptions t p s = Some g}"
proof -
  have inv: "trie_inv t fl" using assms(1) by (simp add: trie_wf_def)
  have fd: "s \<in> set (trie_for_each_fd n) \<longleftrightarrow> s \<in> node_subs n" for s n
    by (auto simp: for_each_fd_eq node_subs_def)
  have l: "live_node t n" if "path_node t p = Some n" "s \<in> node_subs (tr_nodes t ! n)" for p n s
    using live_node_subs [OF assms(1) walk_allocated [OF inv root_allocated [OF inv] that(1)]] that(2) by blast
  have sub: "subscriptions t p s = Some g \<longleftrightarrow> (\<exists>n. path_node t p = Some n \<and> s \<in> node_subs (tr_nodes t ! n)
      \<and> g = tn_fd_gen (tr_nodes t ! n) ! s)" for p s g
    by (auto simp: subscriptions_def split: option.splits if_splits)
  show ?thesis
    unfolding reached_def fd sub match_set [OF assms] using l by blast
qed

text \<open>C22: on a well-formed trie, the subscribers a published topic reaches are exactly the slots subscribed to a filter that
  matches the topic segment by segment, each with the generation of its subscription.  If the topic neither begins with a
  dollar sign nor ends in a slash and no filter goes on after a number sign, these are the slots whose filter matches by the
  rules of the standard.\<close>

theorem trie_match_correct:
  assumes "trie_wf t fl" "len \<le> length topic"
  shows "reached t (trie_match t topic len)
    = {(s, g). \<exists>p. filter_match p (topic_path topic 0 len) \<and> subscriptions t p s = Some g}
    \<and> (plain_topic (take len topic) \<and> (\<forall>p s. subscriptions t p s \<noteq> None \<longrightarrow> [SEG_HASH] \<notin> set (butlast p)) \<longrightarrow>
        reached t (trie_match t topic len) = {(s, g). \<exists>p. mqtt_match p (take len topic) \<and> subscriptions t p s = Some g})"
  using reached_match [OF assms] plain_match [of len topic] by fastforce

text \<open>Where the code departs from the standard: topics that begin with a dollar sign, a trailing slash, long levels.\<close>

lemma dollar_topic_reached:
  assumes "trie_wf t fl" "subscriptions t [[SEG_HASH]] s = Some g" "len \<le> length topic" "hd (take len topic) = 0x24"
  shows "(s, g) \<in> reached t (trie_match t topic len)" "take len topic \<noteq> [] \<Longrightarrow> \<not> mqtt_match [[SEG_HASH]] (take len topic)"
proof -
  have "filter_match [[SEG_HASH]] ts" for ts by (cases ts) simp_all
  then show "(s, g) \<in> reached t (trie_match t topic len)" using assms(2) reached_match [OF assms(1,3)] by blast
  show "\<not> mqtt_match [[SEG_HASH]] (take len topic)" if "take len topic \<noteq> []"
    using that assms(4) by (cases "take len topic") (simp_all add: mqtt_match_def)
qed

lemma trailing_slash_dropped:
  assumes "topic \<noteq> []" "last topic \<noteq> SLASH"
  shows "split_topic (topic @ [SLASH]) = split_topic topic" "levels (topic @ [SLASH]) = levels topic @ [[]]"
  using assms last_level [of topic] by (simp_all add: split_topic_levels levels_snoc)

lemma long_level_truncated:
  "filter_path (replicate 65 0x61) 65 0 = filter_path (replicate 64 0x61) 64 0"
proof -
  have d: "dropWhile (\<lambda>c. c \<noteq> SLASH) (replicate n (0x61 :: u8)) = []" for n by simp
  have t: "takeWhile (\<lambda>c. c \<noteq> SLASH) (replicate n (0x61 :: u8)) = replicate n 0x61" for n by simp
  have "levels (replicate n 0x61) = [replicate n 0x61]" for n unfolding levels_unfold [of "replicate n 0x61"] d t by simp
  then show ?thesis by (simp add: filter_path_def split_topic_levels)
qed

lemma topic_path_a_b: "topic_path [0x61, 0x2F, 0x62] 0 3 = [[0x61], [0x62]]"
  by (simp add: topic_path_def split_topic.simps(2))

lemma sample_trie_only: "subscriptions sample_trie p s = Some g \<Longrightarrow> p = [[0x61], [SEG_PLUS]] \<and> s = 5 \<and> g = 3"
  using trie_subscribe_ok(2) [OF _ trie_init_wf prod.collapse [symmetric], where len = 3 and filt = filt_a_plus and slot = 5 and gen = 3
      and q = p and s = s]
    subscribe_fresh_ok [where slot = 5 and g = 3 and filt = filt_a_plus and len = 3] trie_init_correct [of p s]
  by (auto simp: filter_path_a_plus sample_trie_def split: if_splits)

theorem trie_match_correct_witness:
  "reached sample_trie (trie_match sample_trie [0x61, 0x2F, 0x62] 3) = {(5, 3)} \<and> mqtt_match [[0x61], [SEG_PLUS]] [0x61, 0x2F, 0x62]"
proof -
  obtain fl where wf: "trie_wf sample_trie fl" using sample_trie_wf by blast
  have subs: "subscriptions sample_trie p s = (if p = [[0x61], [SEG_PLUS]] \<and> s = 5 then Some 3 else None)" for p s
    using sample_trie_only [of p s] sample_trie_subs by (cases "subscriptions sample_trie p s") auto
  have m: "mqtt_match [[0x61], [SEG_PLUS]] [0x61, 0x2F, 0x62]" by (simp add: mqtt_match_def)
  have plain: "plain_topic (take 3 [0x61, 0x2F, 0x62])" by (simp add: plain_topic_def)
  have "\<forall>p s. subscriptions sample_trie p s \<noteq> None \<longrightarrow> [SEG_HASH] \<notin> set (butlast p)"
    using sample_trie_only by fastforce
  with plain have "reached sample_trie (trie_match sample_trie [0x61, 0x2F, 0x62] 3)
      = {(s, g). \<exists>p. mqtt_match p (take 3 [0x61, 0x2F, 0x62]) \<and> subscriptions sample_trie p s = Some g}"
    by (intro trie_match_correct [OF wf, of 3 "[0x61, 0x2F, 0x62]", THEN conjunct2, rule_format]) simp_all
  also have "\<dots> = {(5, 3)}" using m by (auto simp: subs)
  finally show ?thesis using m by blast
qed

text \<open>No node, and so no subscription, is visited twice for a topic without wildcard segments.\<close>

theorem trie_match_distinct:
  assumes "trie_wf t fl" "len \<le> length topic"
    "[SEG_PLUS] \<notin> set (topic_path topic 0 len)" "[SEG_HASH] \<notin> set (topic_path topic 0 len)"
  shows "distinct (trie_match t topic len)"
  using match_recursive_distinct [OF _ walk.simps(1) assms(2-4)] assms(1)
  unfolding trie_match_def trie_wf_def by blast

theorem trie_match_distinct_witness: "distinct (trie_match sample_trie [0x61, 0x2F, 0x62] 3)"
proof -
  obtain fl where wf: "trie_wf sample_trie fl" using sample_trie_wf by blast
  show ?thesis by (rule trie_match_distinct [OF wf]) (simp_all add: topic_path_a_b)
qed

text \<open>C38: the collecting match keeps the first 64 nodes of the callback match, so it reaches every
  matching subscription when at most 64 nodes match and drops the rest otherwise.\<close>

theorem trie_match_collect_correct:
  "trie_match_collect t topic len = take 64 (trie_match t topic len)"
  using match_collect_ok by (simp add: TRIE_MAX_MATCHES_def)

text \<open>A PUBLISH whose topic is the single character + visits the subscribers of the filter + at
  least twice: once as the wildcard child and once as the exact child.\<close>

theorem wildcard_topic_twice:
  assumes "trie_wf t fl" "subscriptions t [[SEG_PLUS]] s = Some g"
  shows "\<exists>n. count_list (trie_match t [SEG_PLUS] 1) n \<ge> 2 \<and> s \<in> set (trie_for_each_fd (tr_nodes t ! n))"
proof -
  have inv: "trie_inv t fl" using assms(1) by (simp add: trie_wf_def)
  note r = root_allocated [OF inv]
  obtain n where n: "path_node t [[SEG_PLUS]] = Some n" "s \<in> node_subs (tr_nodes t ! n)"
    using assms(2) by (auto simp: subscriptions_def split: option.splits if_splits)
  then have c: "trie_find_child t 0 [SEG_PLUS] (length [SEG_PLUS]) = n" "n \<noteq> 0"
    by (auto simp: Let_def split: if_splits)
  have live: "tn_sub_count (tr_nodes t ! n) > 0"
    using live_node_subs [OF assms(1) walk_allocated [OF inv r n(1)]] n(2) by (auto simp: live_node_def)
  have "topic_extract_segment [SEG_PLUS] 1 0 = ([SEG_PLUS], 1)" by code_simp
  moreover have "trie_find_plus t 0 = n" using find_wild(1) [OF inv r] c(1) by simp
  moreover have "n \<in> set (trie_match_recursive t n [SEG_PLUS] 1 1)"
    by (rule match_end) (simp_all add: live)
  then have "count_list (trie_match_recursive t n [SEG_PLUS] 1 1) n \<ge> 1"
    by (metis One_nat_def Suc_leI count_list_0_iff gr0I)
  ultimately have "count_list (trie_match t [SEG_PLUS] 1) n \<ge> 2"
    using c unfolding trie_match_def trie_match_recursive.simps [of t 0 "[SEG_PLUS]" 0 1] Let_def
    by (simp add: TRIE_MAX_SEGMENT_def)
  moreover have "s \<in> set (trie_for_each_fd (tr_nodes t ! n))"
    using n(2) by (auto simp: for_each_fd_eq node_subs_def)
  ultimately show ?thesis by blast
qed

theorem wildcard_topic_twice_witness:
  "\<exists>n. count_list (trie_match (snd (trie_subscribe trie_init [SEG_PLUS] 1 7 2)) [SEG_PLUS] 1) n \<ge> 2"
proof -
  let ?t = "snd (trie_subscribe trie_init [SEG_PLUS] 1 7 2)"
  have p: "filter_path [SEG_PLUS] 1 0 = [[SEG_PLUS]]" by (simp add: filter_path_def split_topic.simps(2))
  have ok: "fst (trie_subscribe trie_init [SEG_PLUS] 1 7 2)"
    by (rule subscribe_fresh_ok) (simp_all add: p del: One_nat_def)
  obtain fl where wf: "trie_wf ?t fl"
    using trie_subscribe_ok(1) [OF _ trie_init_wf prod.collapse [symmetric], where len = 1 and filt = "[SEG_PLUS]"
        and slot = 7 and gen = 2] by auto
  have "subscriptions ?t [[SEG_PLUS]] 7 = Some 2"
    using trie_subscribe_ok(2) [OF _ trie_init_wf prod.collapse [symmetric], where len = 1 and filt = "[SEG_PLUS]"
        and slot = 7 and gen = 2 and q = "[[SEG_PLUS]]" and s = 7] ok p by simp
  from wildcard_topic_twice [OF wf this] show ?thesis by blast
qed

end
