(* ===== verification/Pool.thy ===== *)
theory Pool
  imports Prelude
begin

text \<open>
  The memory mappings of \<^verbatim>\<open>src/src/sys/syscall.h\<close> and the fixed-size pools of
  \<^verbatim>\<open>src/src/mem/pool.h\<close>: \<open>buf_pool\<close> (receive buffers) and \<open>slot_pool\<close>.  The interface every
  pool offers its clients is the locale \<open>index_allocator\<close>.

  The kernel is a parameter: \<open>ok n\<close> says whether the \<open>n\<close>-th \<^verbatim>\<open>mmap\<close> call of the run succeeds.  The
  model keeps the mappings that are live, so leaks can be stated.
\<close>

section \<open>Memory mappings\<close>

type_synonym region = "nat \<times> nat" \<comment> \<open>identity and size in bytes\<close>

record vm =
  vm_calls :: nat
  vm_live :: "region list"

definition sys_mmap :: "(nat \<Rightarrow> bool) \<Rightarrow> nat \<Rightarrow> vm \<Rightarrow> region option \<times> vm" where
  "sys_mmap ok len v =
     (let v' = v\<lparr>vm_calls := vm_calls v + 1\<rparr>
      in if ok (vm_calls v)
         then (Some (vm_calls v, len), v'\<lparr>vm_live := (vm_calls v, len) # vm_live v\<rparr>)
         else (None, v'))"

text \<open>Unmapping a region with the size it was mapped with removes it.\<close>

definition sys_munmap :: "region \<Rightarrow> nat \<Rightarrow> vm \<Rightarrow> vm" where
  "sys_munmap r len v = v\<lparr>vm_live := remove1 (fst r, len) (vm_live v)\<rparr>"

lemma sys_mmap_None: "sys_mmap ok len v = (None, v') \<Longrightarrow> vm_live v' = vm_live v"
  by (auto simp: sys_mmap_def Let_def split: if_splits)

lemma sys_mmap_Some:
  "sys_mmap ok len v = (Some r, v') \<Longrightarrow> vm_live v' = r # vm_live v \<and> snd r = len"
  by (auto simp: sys_mmap_def Let_def split: if_splits)

lemma sys_munmap_head: "snd r = len \<Longrightarrow> vm_live v = r # rs \<Longrightarrow> vm_live (sys_munmap r len v) = rs"
  by (cases r) (simp add: sys_munmap_def)

lemma vm_live_munmap [simp]: "vm_live (sys_munmap r len v) = remove1 (fst r, len) (vm_live v)"
  by (simp add: sys_munmap_def)

section \<open>The allocator interface\<close>

locale index_allocator =
  fixes alloc :: "'p \<Rightarrow> nat \<times> 'p"
    and free :: "'p \<Rightarrow> nat \<Rightarrow> 'p"
    and invar :: "'p \<Rightarrow> bool"
    and cap :: "'p \<Rightarrow> nat"
    and used :: "'p \<Rightarrow> nat set"
    and invalid :: nat
  assumes used_below: "invar p \<Longrightarrow> used p \<subseteq> {..<cap p}"
    and cap_below: "invar p \<Longrightarrow> cap p \<le> invalid"
    and alloc_full: "invar p \<Longrightarrow> used p = {..<cap p} \<Longrightarrow> alloc p = (invalid, p)"
    and alloc_avail: "invar p \<Longrightarrow> used p \<noteq> {..<cap p} \<Longrightarrow>
          fst (alloc p) < cap p \<and> fst (alloc p) \<notin> used p
          \<and> used (snd (alloc p)) = insert (fst (alloc p)) (used p)
          \<and> invar (snd (alloc p)) \<and> cap (snd (alloc p)) = cap p"
    and free_used: "invar p \<Longrightarrow> i \<in> used p \<Longrightarrow>
          invar (free p i) \<and> used (free p i) = used p - {i} \<and> cap (free p i) = cap p"
    and free_invalid: "cap p \<le> i \<Longrightarrow> free p i = p"
begin

lemma alloc_invalid_iff: "invar p \<Longrightarrow> fst (alloc p) = invalid \<longleftrightarrow> used p = {..<cap p}"
  using alloc_full alloc_avail cap_below by fastforce

lemma alloc_invar: "invar p \<Longrightarrow> invar (snd (alloc p))"
  using alloc_full alloc_avail by (metis snd_conv)

lemma alloc_cap: "invar p \<Longrightarrow> cap (snd (alloc p)) = cap p"
  using alloc_full alloc_avail by (metis snd_conv)

lemma alloc_valid:
  assumes "invar p" "alloc p = (i, p')" "i \<noteq> invalid"
  shows "i < cap p" "i \<notin> used p" "used p' = insert i (used p)" "invar p'" "cap p' = cap p"
proof -
  have "used p \<noteq> {..<cap p}" using assms alloc_full by force
  from alloc_avail [OF assms(1) this] assms(2)
  show "i < cap p" "i \<notin> used p" "used p' = insert i (used p)" "invar p'" "cap p' = cap p"
    by auto
qed

text \<open>Two allocations with no free between them return different indices.\<close>

lemma alloc_distinct:
  assumes "invar p" "alloc p = (i, p1)" "i \<noteq> invalid" "alloc p1 = (j, p2)" "j \<noteq> invalid"
  shows "i \<noteq> j"
  using alloc_valid [OF assms(1-3)] alloc_valid [OF _ assms(4,5)] by auto

text \<open>An index that is given back can be allocated again, and the set in use is as before.\<close>

lemma free_after_alloc:
  assumes "invar p" "alloc p = (i, p')" "i \<noteq> invalid"
  shows "used (free p' i) = used p" "invar (free p' i)"
  using alloc_valid [OF assms] free_used [of p' i] by auto

lemma alloc_after_free:
  assumes "invar p" "i \<in> used p"
  shows "fst (alloc (free p i)) \<noteq> invalid"
proof -
  from free_used [OF assms] have f: "invar (free p i)" "used (free p i) = used p - {i}"
    "cap (free p i) = cap p" by auto
  have "i < cap p" using used_below assms by auto
  with f have "used (free p i) \<noteq> {..<cap (free p i)}" by auto
  with f(1) alloc_invalid_iff show ?thesis by blast
qed

lemma finite_used: "invar p \<Longrightarrow> finite (used p)"
  using used_below finite_subset by blast

text \<open>Any number of allocations up to the free capacity succeeds, all indices distinct.\<close>

lemma used_card_alloc:
  assumes "invar p" "alloc p = (i, p')" "i \<noteq> invalid"
  shows "card (used p') = Suc (card (used p))"
  using alloc_valid [OF assms] finite_used [OF assms(1)] by simp

lemma used_card_free:
  assumes "invar p" "i \<in> used p"
  shows "card (used p) = Suc (card (used (free p i)))"
proof -
  have "card (used p) = Suc (card (used p - {i}))"
    using finite_used [OF assms(1)] assms(2) by (rule card.remove)
  with free_used [OF assms] show ?thesis by simp
qed

end

section \<open>Free stacks\<close>

text \<open>All three pools keep the free indices in the first \<open>n\<close> cells of an array.\<close>

definition free_stack_ok :: "nat \<Rightarrow> nat list \<Rightarrow> nat \<Rightarrow> bool" where
  "free_stack_ok c st n \<longleftrightarrow> length st = c \<and> n \<le> c \<and> distinct (take n st) \<and> set (take n st) \<subseteq> {..<c}"

definition stack_in_use :: "nat \<Rightarrow> nat list \<Rightarrow> nat \<Rightarrow> nat set" where
  "stack_in_use c st n = {..<c} - set (take n st)"

text \<open>The initialisation loop \<open>free_stack[i] = capacity - 1 - i\<close>.\<close>

definition init_free_stack :: "nat \<Rightarrow> nat list" where
  "init_free_stack c = map (\<lambda>i. c - 1 - i) [0..<c]"

lemma free_stack_init: "free_stack_ok c (init_free_stack c) c"
  by (auto simp: free_stack_ok_def init_free_stack_def distinct_map inj_on_def)

lemma stack_in_use_init: "stack_in_use c (init_free_stack c) c = {}"
proof -
  have "{..<c} \<subseteq> (\<lambda>i. c - 1 - i) ` {0..<c}"
  proof
    fix x assume "x \<in> {..<c}"
    then have "x = c - 1 - (c - 1 - x)" "c - 1 - x \<in> {0..<c}" by auto
    then show "x \<in> (\<lambda>i. c - 1 - i) ` {0..<c}" by blast
  qed
  then show ?thesis by (auto simp: stack_in_use_def init_free_stack_def)
qed

lemma stack_card:
  "free_stack_ok c st n \<Longrightarrow> card (stack_in_use c st n) = c - n"
  by (simp add: free_stack_ok_def stack_in_use_def card_Diff_subset distinct_card)

lemma stack_full_iff: "free_stack_ok c st n \<Longrightarrow> stack_in_use c st n = {..<c} \<longleftrightarrow> n = 0"
  using stack_card [of c st n]
  by (cases "n = 0") (auto simp: stack_in_use_def free_stack_ok_def dest: arg_cong [where f = card])

lemma stack_pop:
  assumes "free_stack_ok c st (Suc n)"
  shows "free_stack_ok c st n" "st ! n < c" "st ! n \<notin> stack_in_use c st (Suc n)"
    and "stack_in_use c st n = insert (st ! n) (stack_in_use c st (Suc n))"
proof -
  have t: "take (Suc n) st = take n st @ [st ! n]"
    using assms by (simp add: free_stack_ok_def take_Suc_conv_app_nth)
  show "free_stack_ok c st n" "st ! n < c" "st ! n \<notin> stack_in_use c st (Suc n)"
    and "stack_in_use c st n = insert (st ! n) (stack_in_use c st (Suc n))"
    using assms by (auto simp: free_stack_ok_def stack_in_use_def t)
qed

lemma stack_push:
  assumes "free_stack_ok c st n" "i \<in> stack_in_use c st n"
  shows "n < c" "free_stack_ok c (st[n := i]) (Suc n)"
    and "stack_in_use c (st[n := i]) (Suc n) = stack_in_use c st n - {i}"
proof -
  have "n \<noteq> c"
  proof
    assume "n = c"
    with stack_card [OF assms(1)] have "card (stack_in_use c st n) = 0" by simp
    then have "stack_in_use c st n = {}" by (simp add: stack_in_use_def)
    with assms(2) show False by simp
  qed
  with assms(1) show n: "n < c" by (simp add: free_stack_ok_def)
  have t: "take (Suc n) (st[n := i]) = take n st @ [i]"
    using n assms(1) by (simp add: free_stack_ok_def take_Suc_conv_app_nth)
  show "free_stack_ok c (st[n := i]) (Suc n)"
    and "stack_in_use c (st[n := i]) (Suc n) = stack_in_use c st n - {i}"
    using assms n by (auto simp: free_stack_ok_def stack_in_use_def t)
qed

lemmas free_stack_rules = free_stack_init stack_in_use_init stack_full_iff stack_pop stack_push stack_card


section \<open>buf_pool\<close>

text \<open>
  \<open>bp_oob\<close> is not a field of the source: the model sets it when the code writes outside
  \<open>free_stack\<close>.  The data array is a list of \<open>capacity\<close> buffers; the pointers to the two mappings are
  regions, \<open>None\<close> for NULL.
\<close>

record buf_pool =
  bp_bufs :: "bytes list"
  bp_map :: "region option"
  bp_free_stack :: "nat list"
  bp_stack_map :: "region option"
  bp_buf_size :: nat
  bp_capacity :: nat
  bp_free_count :: nat
  bp_high_water :: nat
  bp_oob :: bool

definition BUF_POOL_INVALID :: nat where
  "BUF_POOL_INVALID = 2 ^ 32 - 1"

definition buf_pool_init :: "(nat \<Rightarrow> bool) \<Rightarrow> nat \<Rightarrow> nat \<Rightarrow> vm \<Rightarrow> buf_pool option \<times> vm" where
  "buf_pool_init ok capacity sz v =
     (case sys_mmap ok (capacity * sz) v of
        (None, v1) \<Rightarrow> (None, v1)
      | (Some bufs, v1) \<Rightarrow>
          (case sys_mmap ok (capacity * 4) v1 of
             (None, v2) \<Rightarrow> (None, sys_munmap bufs (capacity * sz) v2)
           | (Some stack, v2) \<Rightarrow>
               (Some \<lparr>bp_bufs = replicate capacity (replicate sz 0), bp_map = Some bufs,
               bp_free_stack = init_free_stack capacity, bp_stack_map = Some stack,
               bp_buf_size = sz, bp_capacity = capacity, bp_free_count = capacity,
               bp_high_water = 0,
               bp_oob = False\<rparr>, v2)))"

definition buf_pool_cleanup :: "buf_pool \<Rightarrow> vm \<Rightarrow> buf_pool \<times> vm" where
  "buf_pool_cleanup p v =
     (let (p1, v1) = (case bp_map p of None \<Rightarrow> (p, v)
            | Some r \<Rightarrow> (p\<lparr>bp_map := None\<rparr>, sys_munmap r (bp_capacity p * bp_buf_size p) v))
      in case bp_stack_map p1 of None \<Rightarrow> (p1, v1)
         | Some r \<Rightarrow> (p1\<lparr>bp_stack_map := None\<rparr>, sys_munmap r (bp_capacity p1 * 4) v1))"

definition buf_pool_alloc :: "buf_pool \<Rightarrow> nat \<times> buf_pool" where
  "buf_pool_alloc p =
     (if bp_free_count p = 0 then (BUF_POOL_INVALID, p)
      else let p1 = p\<lparr>bp_free_count := bp_free_count p - 1\<rparr>;
           used = bp_capacity p1 - bp_free_count p1;
           p2 = (if used > bp_high_water p1 then p1\<lparr>bp_high_water := used\<rparr> else p1)
       in (bp_free_stack p2 ! bp_free_count p2, p2))"

definition buf_pool_free :: "buf_pool \<Rightarrow> nat \<Rightarrow> buf_pool" where
  "buf_pool_free p idx =
     (if idx \<ge> bp_capacity p then p
      else p\<lparr>bp_free_stack := (bp_free_stack p)[bp_free_count p := idx],
             bp_free_count := bp_free_count p + 1,
             bp_oob := (bp_oob p \<or> length (bp_free_stack p) \<le> bp_free_count p)\<rparr>)"

text \<open>The buffer an index denotes, \<open>None\<close> for the NULL of an index out of range.\<close>

definition buf_pool_get :: "buf_pool \<Rightarrow> nat \<Rightarrow> bytes option" where
  "buf_pool_get p idx = (if idx \<ge> bp_capacity p then None else Some (bp_bufs p ! idx))"

definition buf_pool_used :: "buf_pool \<Rightarrow> nat" where
  "buf_pool_used p = bp_capacity p - bp_free_count p"

definition buf_pool_wf :: "buf_pool \<Rightarrow> bool" where
  "buf_pool_wf p \<longleftrightarrow> free_stack_ok (bp_capacity p) (bp_free_stack p) (bp_free_count p)
     \<and> bp_capacity p \<le> BUF_POOL_INVALID \<and> length (bp_bufs p) = bp_capacity p \<and> \<not> bp_oob p \<and> bp_capacity p - bp_free_count p \<le> bp_high_water p \<and> bp_high_water p \<le> bp_capacity p"

definition buf_pool_in_use :: "buf_pool \<Rightarrow> nat set" where
  "buf_pool_in_use p = stack_in_use (bp_capacity p) (bp_free_stack p) (bp_free_count p)"

lemma buf_pool_alloc_empty: "bp_free_count p = 0 \<Longrightarrow> buf_pool_alloc p = (BUF_POOL_INVALID, p)"
  by (simp add: buf_pool_alloc_def)

lemma buf_pool_alloc_some:
  assumes "buf_pool_wf p" "bp_free_count p \<noteq> 0"
  shows "fst (buf_pool_alloc p) < bp_capacity p \<and> fst (buf_pool_alloc p) \<notin> buf_pool_in_use p
    \<and> buf_pool_in_use (snd (buf_pool_alloc p)) = insert (fst (buf_pool_alloc p)) (buf_pool_in_use p)
    \<and> buf_pool_wf (snd (buf_pool_alloc p)) \<and> bp_capacity (snd (buf_pool_alloc p)) = bp_capacity p"
proof -
  obtain n where n: "bp_free_count p = Suc n" using assms(2) by (cases "bp_free_count p") auto
  have st: "free_stack_ok (bp_capacity p) (bp_free_stack p) (Suc n)"
    using assms(1) n by (simp add: buf_pool_wf_def)
  show ?thesis
    using assms(1) stack_pop [OF st] n
    by (auto simp: buf_pool_alloc_def buf_pool_in_use_def buf_pool_wf_def Let_def free_stack_ok_def)
qed

lemma buf_pool_free_used:
  assumes "buf_pool_wf p" "i \<in> buf_pool_in_use p"
  shows "buf_pool_wf (buf_pool_free p i) \<and> buf_pool_in_use (buf_pool_free p i) = buf_pool_in_use p - {i}
    \<and> bp_capacity (buf_pool_free p i) = bp_capacity p"
proof -
  have st: "free_stack_ok (bp_capacity p) (bp_free_stack p) (bp_free_count p)"
    and i: "i \<in> stack_in_use (bp_capacity p) (bp_free_stack p) (bp_free_count p)"
    using assms by (simp_all add: buf_pool_wf_def buf_pool_in_use_def)
  have "i < bp_capacity p" using i by (simp add: stack_in_use_def)
  with assms(1) stack_push [OF st i] show ?thesis
    by (auto simp: buf_pool_free_def buf_pool_in_use_def buf_pool_wf_def free_stack_ok_def)
qed

interpretation buf_pool: index_allocator buf_pool_alloc buf_pool_free buf_pool_wf bp_capacity buf_pool_in_use BUF_POOL_INVALID
proof (unfold_locales, goal_cases)
  case (1 p)
  then show ?case by (auto simp: buf_pool_in_use_def stack_in_use_def)
next
  case (2 p)
  then show ?case by (simp add: buf_pool_wf_def)
next
  case (3 p)
  then show ?case by (simp add: buf_pool_in_use_def buf_pool_wf_def stack_full_iff buf_pool_alloc_empty)
next
  case (4 p)
  then have "bp_free_count p \<noteq> 0"
    by (auto simp: buf_pool_in_use_def buf_pool_wf_def stack_full_iff)
  with 4 show ?case by (intro buf_pool_alloc_some)
next
  case (5 p i)
  then show ?case by (rule buf_pool_free_used)
next
  case (6 p i)
  then show ?case by (simp add: buf_pool_free_def)
qed

lemma buf_pool_init_wf:
  assumes "buf_pool_init ok c sz v = (Some p, v')" "c \<le> BUF_POOL_INVALID"
  shows "buf_pool_wf p" "buf_pool_in_use p = {}" "bp_capacity p = c" "bp_buf_size p = sz"
  using assms free_stack_init [of c] stack_in_use_init [of c]
  by (auto simp: buf_pool_init_def buf_pool_wf_def buf_pool_in_use_def split: prod.splits option.splits)

text \<open>A failing initialisation leaves the mappings as they were; cleanup undoes a successful one.\<close>

lemma buf_pool_init_None:
  assumes "buf_pool_init ok c sz v = (None, v')"
  shows "vm_live v' = vm_live v"
  using assms
  by (auto simp: buf_pool_init_def dest!: sys_mmap_None sys_mmap_Some split: prod.splits option.splits)

lemma buf_pool_init_Some:
  assumes "buf_pool_init ok c sz v = (Some p, v')"
  obtains r1 r2 where "vm_live v' = r2 # r1 # vm_live v" "bp_map p = Some r1" "bp_stack_map p = Some r2"
    "snd r1 = c * sz" "snd r2 = c * 4" "bp_capacity p = c" "bp_buf_size p = sz"
  using assms
  by (auto simp: buf_pool_init_def dest!: sys_mmap_None sys_mmap_Some split: prod.splits option.splits)

section \<open>slot_pool\<close>

text \<open>
  \<open>sp_oob\<close> is not a field of the source: the model sets it when the code writes outside
  \<open>free_stack\<close>.  The data array is a list of \<open>capacity\<close> slots; the pointers to the two mappings are
  regions, \<open>None\<close> for NULL.
\<close>

record slot_pool =
  sp_slots :: "bytes list"
  sp_map :: "region option"
  sp_free_stack :: "nat list"
  sp_stack_map :: "region option"
  sp_slot_size :: nat
  sp_capacity :: nat
  sp_free_count :: nat
  sp_oob :: bool

definition SLOT_POOL_INVALID :: nat where
  "SLOT_POOL_INVALID = 2 ^ 32 - 1"

definition slot_pool_init :: "(nat \<Rightarrow> bool) \<Rightarrow> nat \<Rightarrow> nat \<Rightarrow> vm \<Rightarrow> slot_pool option \<times> vm" where
  "slot_pool_init ok capacity sz v =
     (case sys_mmap ok (capacity * sz) v of
        (None, v1) \<Rightarrow> (None, v1)
      | (Some bufs, v1) \<Rightarrow>
          (case sys_mmap ok (capacity * 4) v1 of
             (None, v2) \<Rightarrow> (None, sys_munmap bufs (capacity * sz) v2)
           | (Some stack, v2) \<Rightarrow>
               (Some \<lparr>sp_slots = replicate capacity (replicate sz 0), sp_map = Some bufs,
               sp_free_stack = init_free_stack capacity, sp_stack_map = Some stack,
               sp_slot_size = sz, sp_capacity = capacity, sp_free_count = capacity,
               sp_oob = False\<rparr>, v2)))"

definition slot_pool_cleanup :: "slot_pool \<Rightarrow> vm \<Rightarrow> slot_pool \<times> vm" where
  "slot_pool_cleanup p v =
     (let (p1, v1) = (case sp_map p of None \<Rightarrow> (p, v)
            | Some r \<Rightarrow> (p\<lparr>sp_map := None\<rparr>, sys_munmap r (sp_capacity p * sp_slot_size p) v))
      in case sp_stack_map p1 of None \<Rightarrow> (p1, v1)
         | Some r \<Rightarrow> (p1\<lparr>sp_stack_map := None\<rparr>, sys_munmap r (sp_capacity p1 * 4) v1))"

definition slot_pool_alloc :: "slot_pool \<Rightarrow> nat \<times> slot_pool" where
  "slot_pool_alloc p =
     (if sp_free_count p = 0 then (SLOT_POOL_INVALID, p)
      else let p1 = p\<lparr>sp_free_count := sp_free_count p - 1\<rparr>
       in (sp_free_stack p1 ! sp_free_count p1, p1))"

definition slot_pool_free :: "slot_pool \<Rightarrow> nat \<Rightarrow> slot_pool" where
  "slot_pool_free p idx =
     (if idx \<ge> sp_capacity p then p
      else p\<lparr>sp_free_stack := (sp_free_stack p)[sp_free_count p := idx],
             sp_free_count := sp_free_count p + 1,
             sp_oob := (sp_oob p \<or> length (sp_free_stack p) \<le> sp_free_count p)\<rparr>)"

text \<open>The buffer an index denotes, \<open>None\<close> for the NULL of an index out of range.\<close>

definition slot_pool_get :: "slot_pool \<Rightarrow> nat \<Rightarrow> bytes option" where
  "slot_pool_get p idx = (if idx \<ge> sp_capacity p then None else Some (sp_slots p ! idx))"

definition slot_pool_wf :: "slot_pool \<Rightarrow> bool" where
  "slot_pool_wf p \<longleftrightarrow> free_stack_ok (sp_capacity p) (sp_free_stack p) (sp_free_count p)
     \<and> sp_capacity p \<le> SLOT_POOL_INVALID \<and> length (sp_slots p) = sp_capacity p \<and> \<not> sp_oob p"

definition slot_pool_in_use :: "slot_pool \<Rightarrow> nat set" where
  "slot_pool_in_use p = stack_in_use (sp_capacity p) (sp_free_stack p) (sp_free_count p)"

lemma slot_pool_alloc_empty: "sp_free_count p = 0 \<Longrightarrow> slot_pool_alloc p = (SLOT_POOL_INVALID, p)"
  by (simp add: slot_pool_alloc_def)

lemma slot_pool_alloc_some:
  assumes "slot_pool_wf p" "sp_free_count p \<noteq> 0"
  shows "fst (slot_pool_alloc p) < sp_capacity p \<and> fst (slot_pool_alloc p) \<notin> slot_pool_in_use p
    \<and> slot_pool_in_use (snd (slot_pool_alloc p)) = insert (fst (slot_pool_alloc p)) (slot_pool_in_use p)
    \<and> slot_pool_wf (snd (slot_pool_alloc p)) \<and> sp_capacity (snd (slot_pool_alloc p)) = sp_capacity p"
proof -
  obtain n where n: "sp_free_count p = Suc n" using assms(2) by (cases "sp_free_count p") auto
  have st: "free_stack_ok (sp_capacity p) (sp_free_stack p) (Suc n)"
    using assms(1) n by (simp add: slot_pool_wf_def)
  show ?thesis
    using assms(1) stack_pop [OF st] n
    by (auto simp: slot_pool_alloc_def slot_pool_in_use_def slot_pool_wf_def Let_def free_stack_ok_def)
qed

lemma slot_pool_free_used:
  assumes "slot_pool_wf p" "i \<in> slot_pool_in_use p"
  shows "slot_pool_wf (slot_pool_free p i) \<and> slot_pool_in_use (slot_pool_free p i) = slot_pool_in_use p - {i}
    \<and> sp_capacity (slot_pool_free p i) = sp_capacity p"
proof -
  have st: "free_stack_ok (sp_capacity p) (sp_free_stack p) (sp_free_count p)"
    and i: "i \<in> stack_in_use (sp_capacity p) (sp_free_stack p) (sp_free_count p)"
    using assms by (simp_all add: slot_pool_wf_def slot_pool_in_use_def)
  have "i < sp_capacity p" using i by (simp add: stack_in_use_def)
  with assms(1) stack_push [OF st i] show ?thesis
    by (auto simp: slot_pool_free_def slot_pool_in_use_def slot_pool_wf_def free_stack_ok_def)
qed

interpretation slot_pool: index_allocator slot_pool_alloc slot_pool_free slot_pool_wf sp_capacity slot_pool_in_use SLOT_POOL_INVALID
proof (unfold_locales, goal_cases)
  case (1 p)
  then show ?case by (auto simp: slot_pool_in_use_def stack_in_use_def)
next
  case (2 p)
  then show ?case by (simp add: slot_pool_wf_def)
next
  case (3 p)
  then show ?case by (simp add: slot_pool_in_use_def slot_pool_wf_def stack_full_iff slot_pool_alloc_empty)
next
  case (4 p)
  then have "sp_free_count p \<noteq> 0"
    by (auto simp: slot_pool_in_use_def slot_pool_wf_def stack_full_iff)
  with 4 show ?case by (intro slot_pool_alloc_some)
next
  case (5 p i)
  then show ?case by (rule slot_pool_free_used)
next
  case (6 p i)
  then show ?case by (simp add: slot_pool_free_def)
qed

lemma slot_pool_init_wf:
  assumes "slot_pool_init ok c sz v = (Some p, v')" "c \<le> SLOT_POOL_INVALID"
  shows "slot_pool_wf p" "slot_pool_in_use p = {}" "sp_capacity p = c" "sp_slot_size p = sz"
  using assms free_stack_init [of c] stack_in_use_init [of c]
  by (auto simp: slot_pool_init_def slot_pool_wf_def slot_pool_in_use_def split: prod.splits option.splits)

text \<open>A failing initialisation leaves the mappings as they were; cleanup undoes a successful one.\<close>

lemma slot_pool_init_None:
  assumes "slot_pool_init ok c sz v = (None, v')"
  shows "vm_live v' = vm_live v"
  using assms
  by (auto simp: slot_pool_init_def dest!: sys_mmap_None sys_mmap_Some split: prod.splits option.splits)

lemma slot_pool_init_Some:
  assumes "slot_pool_init ok c sz v = (Some p, v')"
  obtains r1 r2 where "vm_live v' = r2 # r1 # vm_live v" "sp_map p = Some r1" "sp_stack_map p = Some r2"
    "snd r1 = c * sz" "snd r2 = c * 4" "sp_capacity p = c" "sp_slot_size p = sz"
  using assms
  by (auto simp: slot_pool_init_def dest!: sys_mmap_None sys_mmap_Some split: prod.splits option.splits)

end
