(* ===== verification/Msgbuf.thy ===== *)
theory Msgbuf
  imports Pool
begin

text \<open>
  Canonical messages and their pool, \<^verbatim>\<open>src/src/mem/msgbuf.h\<close>: metadata that points into a stolen
  receive buffer, shared by the subscribers through a reference count.  The count is a u32 that
  wraps, as the code decrements it without a check.
\<close>

section \<open>Reference counts\<close>

definition atomic_inc :: "u32 \<Rightarrow> u32" where
  "atomic_inc a = a + 1"

definition atomic_dec :: "u32 \<Rightarrow> u32" where
  "atomic_dec a = a - 1"

section \<open>Canonical messages\<close>

record canonical_msg =
  cm_buf_idx :: nat
  cm_topic_off :: nat
  cm_topic_len :: nat
  cm_payload_off :: nat
  cm_payload_len :: nat
  cm_qos :: u8
  cm_retain :: u8
  cm_dup :: u8
  cm_ref_count :: u32

definition zero_msg :: canonical_msg where
  "zero_msg = \<lparr>cm_buf_idx = 0, cm_topic_off = 0, cm_topic_len = 0, cm_payload_off = 0,
     cm_payload_len = 0, cm_qos = 0, cm_retain = 0, cm_dup = 0, cm_ref_count = 0\<rparr>"

text \<open>\<open>sizeof(struct canonical_msg)\<close>, asserted by the source.\<close>

definition CANONICAL_MSG_SIZE :: nat where
  "CANONICAL_MSG_SIZE = 24"

section \<open>The message pool\<close>

record msg_pool =
  mp_msgs :: "canonical_msg list"
  mp_map :: "region option"
  mp_free_stack :: "nat list"
  mp_stack_map :: "region option"
  mp_capacity :: nat
  mp_free_count :: nat
  mp_high_water :: nat
  mp_oob :: bool

definition MSG_POOL_INVALID :: nat where
  "MSG_POOL_INVALID = 2 ^ 32 - 1"

definition msg_pool_init :: "(nat \<Rightarrow> bool) \<Rightarrow> nat \<Rightarrow> vm \<Rightarrow> msg_pool option \<times> vm" where
  "msg_pool_init ok capacity v =
     (case sys_mmap ok (capacity * CANONICAL_MSG_SIZE) v of
        (None, v1) \<Rightarrow> (None, v1)
      | (Some msgs, v1) \<Rightarrow>
          (case sys_mmap ok (capacity * 4) v1 of
             (None, v2) \<Rightarrow> (None, sys_munmap msgs (capacity * CANONICAL_MSG_SIZE) v2)
           | (Some stack, v2) \<Rightarrow>
               (Some \<lparr>mp_msgs = replicate capacity zero_msg, mp_map = Some msgs,
                      mp_free_stack = init_free_stack capacity, mp_stack_map = Some stack,
                      mp_capacity = capacity, mp_free_count = capacity, mp_high_water = 0,
                      mp_oob = False\<rparr>, v2)))"

definition msg_pool_cleanup :: "msg_pool \<Rightarrow> vm \<Rightarrow> msg_pool \<times> vm" where
  "msg_pool_cleanup p v =
     (let (p1, v1) = (case mp_map p of None \<Rightarrow> (p, v)
            | Some r \<Rightarrow> (p\<lparr>mp_map := None\<rparr>, sys_munmap r (mp_capacity p * CANONICAL_MSG_SIZE) v))
      in case mp_stack_map p1 of None \<Rightarrow> (p1, v1)
         | Some r \<Rightarrow> (p1\<lparr>mp_stack_map := None\<rparr>, sys_munmap r (mp_capacity p1 * 4) v1))"

definition msg_pool_get :: "msg_pool \<Rightarrow> nat \<Rightarrow> canonical_msg option" where
  "msg_pool_get p idx = (if idx \<ge> mp_capacity p then None else Some (mp_msgs p ! idx))"

definition msg_pool_alloc :: "msg_pool \<Rightarrow> nat \<times> msg_pool" where
  "msg_pool_alloc p =
     (if mp_free_count p = 0 then (MSG_POOL_INVALID, p)
      else let p1 = p\<lparr>mp_free_count := mp_free_count p - 1\<rparr>;
               used = mp_capacity p1 - mp_free_count p1;
               p2 = (if used > mp_high_water p1 then p1\<lparr>mp_high_water := used\<rparr> else p1);
               idx = mp_free_stack p2 ! mp_free_count p2;
               m = (mp_msgs p2 ! idx)\<lparr>cm_buf_idx := MSG_POOL_INVALID, cm_ref_count := 0\<rparr>
           in (idx, p2\<lparr>mp_msgs := (mp_msgs p2)[idx := m]\<rparr>))"

definition msg_pool_free :: "msg_pool \<Rightarrow> nat \<Rightarrow> msg_pool" where
  "msg_pool_free p idx =
     (if idx \<ge> mp_capacity p then p
      else p\<lparr>mp_free_stack := (mp_free_stack p)[mp_free_count p := idx],
             mp_free_count := mp_free_count p + 1,
             mp_oob := (mp_oob p \<or> length (mp_free_stack p) \<le> mp_free_count p)\<rparr>)"

text \<open>Writing a field of a message through the pointer \<open>msg_pool_get\<close> returned.\<close>

definition msg_update :: "msg_pool \<Rightarrow> nat \<Rightarrow> (canonical_msg \<Rightarrow> canonical_msg) \<Rightarrow> msg_pool" where
  "msg_update p idx f = p\<lparr>mp_msgs := (mp_msgs p)[idx := f (mp_msgs p ! idx)]\<rparr>"

definition msg_pool_ref :: "msg_pool \<Rightarrow> nat \<Rightarrow> msg_pool" where
  "msg_pool_ref p idx =
     (if idx \<ge> mp_capacity p then p
      else msg_update p idx (\<lambda>m. m\<lparr>cm_ref_count := atomic_inc (cm_ref_count m)\<rparr>))"

definition msg_pool_unref :: "msg_pool \<Rightarrow> nat \<Rightarrow> u32 \<times> msg_pool" where
  "msg_pool_unref p idx =
     (if idx \<ge> mp_capacity p then (0, p)
      else let p' = msg_update p idx (\<lambda>m. m\<lparr>cm_ref_count := atomic_dec (cm_ref_count m)\<rparr>)
           in (cm_ref_count (mp_msgs p' ! idx), p'))"

definition msg_pool_refcount :: "msg_pool \<Rightarrow> nat \<Rightarrow> u32" where
  "msg_pool_refcount p idx = (if idx \<ge> mp_capacity p then 0 else cm_ref_count (mp_msgs p ! idx))"

section \<open>The pool as an allocator\<close>

definition msg_pool_wf :: "msg_pool \<Rightarrow> bool" where
  "msg_pool_wf p \<longleftrightarrow> free_stack_ok (mp_capacity p) (mp_free_stack p) (mp_free_count p)
     \<and> mp_capacity p \<le> MSG_POOL_INVALID \<and> length (mp_msgs p) = mp_capacity p \<and> \<not> mp_oob p
     \<and> mp_capacity p - mp_free_count p \<le> mp_high_water p \<and> mp_high_water p \<le> mp_capacity p"

definition msg_pool_in_use :: "msg_pool \<Rightarrow> nat set" where
  "msg_pool_in_use p = stack_in_use (mp_capacity p) (mp_free_stack p) (mp_free_count p)"

lemma msg_pool_alloc_empty: "mp_free_count p = 0 \<Longrightarrow> msg_pool_alloc p = (MSG_POOL_INVALID, p)"
  by (simp add: msg_pool_alloc_def)

lemma msg_pool_alloc_some:
  assumes "msg_pool_wf p" "mp_free_count p \<noteq> 0"
  shows "fst (msg_pool_alloc p) < mp_capacity p \<and> fst (msg_pool_alloc p) \<notin> msg_pool_in_use p
    \<and> msg_pool_in_use (snd (msg_pool_alloc p)) = insert (fst (msg_pool_alloc p)) (msg_pool_in_use p)
    \<and> msg_pool_wf (snd (msg_pool_alloc p)) \<and> mp_capacity (snd (msg_pool_alloc p)) = mp_capacity p"
proof -
  obtain n where n: "mp_free_count p = Suc n" using assms(2) by (cases "mp_free_count p") auto
  have st: "free_stack_ok (mp_capacity p) (mp_free_stack p) (Suc n)"
    using assms(1) n by (simp add: msg_pool_wf_def)
  show ?thesis
    using assms(1) stack_pop [OF st] n
    by (auto simp: msg_pool_alloc_def msg_pool_in_use_def msg_pool_wf_def Let_def free_stack_ok_def)
qed

lemma msg_pool_free_used:
  assumes "msg_pool_wf p" "i \<in> msg_pool_in_use p"
  shows "msg_pool_wf (msg_pool_free p i) \<and> msg_pool_in_use (msg_pool_free p i) = msg_pool_in_use p - {i}
    \<and> mp_capacity (msg_pool_free p i) = mp_capacity p"
proof -
  have st: "free_stack_ok (mp_capacity p) (mp_free_stack p) (mp_free_count p)"
    and i: "i \<in> stack_in_use (mp_capacity p) (mp_free_stack p) (mp_free_count p)"
    using assms by (simp_all add: msg_pool_wf_def msg_pool_in_use_def)
  have "i < mp_capacity p" using i by (simp add: stack_in_use_def)
  with assms(1) stack_push [OF st i] show ?thesis
    by (auto simp: msg_pool_free_def msg_pool_in_use_def msg_pool_wf_def free_stack_ok_def)
qed

interpretation msg_pool: index_allocator msg_pool_alloc msg_pool_free msg_pool_wf mp_capacity msg_pool_in_use MSG_POOL_INVALID
proof (unfold_locales, goal_cases)
  case (1 p)
  then show ?case by (auto simp: msg_pool_in_use_def stack_in_use_def)
next
  case (2 p)
  then show ?case by (simp add: msg_pool_wf_def)
next
  case (3 p)
  then show ?case by (simp add: msg_pool_in_use_def msg_pool_wf_def stack_full_iff msg_pool_alloc_empty)
next
  case (4 p)
  then have "mp_free_count p \<noteq> 0"
    by (auto simp: msg_pool_in_use_def msg_pool_wf_def stack_full_iff)
  with 4 show ?case by (intro msg_pool_alloc_some)
next
  case (5 p i)
  then show ?case by (rule msg_pool_free_used)
next
  case (6 p i)
  then show ?case by (simp add: msg_pool_free_def)
qed

lemma msg_pool_init_wf:
  assumes "msg_pool_init ok c v = (Some p, v')" "c \<le> MSG_POOL_INVALID"
  shows "msg_pool_wf p" "msg_pool_in_use p = {}" "mp_capacity p = c"
  using assms free_stack_init [of c] stack_in_use_init [of c]
  by (auto simp: msg_pool_init_def msg_pool_wf_def msg_pool_in_use_def split: prod.splits option.splits)

lemma msg_pool_init_None:
  assumes "msg_pool_init ok c v = (None, v')"
  shows "vm_live v' = vm_live v"
  using assms
  by (auto simp: msg_pool_init_def dest!: sys_mmap_None sys_mmap_Some split: prod.splits option.splits)

lemma msg_pool_init_Some:
  assumes "msg_pool_init ok c v = (Some p, v')"
  obtains r1 r2 where "vm_live v' = r2 # r1 # vm_live v" "mp_map p = Some r1" "mp_stack_map p = Some r2"
    "snd r1 = c * CANONICAL_MSG_SIZE" "snd r2 = c * 4" "mp_capacity p = c"
  using assms
  by (auto simp: msg_pool_init_def dest!: sys_mmap_None sys_mmap_Some split: prod.splits option.splits)

section \<open>Reference counting\<close>

lemma length_msg_update [simp]: "length (mp_msgs (msg_update p i f)) = length (mp_msgs p)"
  by (simp add: msg_update_def)

lemma msg_update_fields [simp]:
  "mp_capacity (msg_update p i f) = mp_capacity p"
  "mp_free_stack (msg_update p i f) = mp_free_stack p"
  "mp_free_count (msg_update p i f) = mp_free_count p"
  "mp_high_water (msg_update p i f) = mp_high_water p"
  "mp_oob (msg_update p i f) = mp_oob p"
  by (simp_all add: msg_update_def)

lemma msg_update_wf [simp]: "msg_pool_wf (msg_update p i f) = msg_pool_wf p"
  by (simp add: msg_pool_wf_def)

lemma msg_update_in_use [simp]: "msg_pool_in_use (msg_update p i f) = msg_pool_in_use p"
  by (simp add: msg_pool_in_use_def)

lemma msg_update_nth:
  "i < length (mp_msgs p) \<Longrightarrow> mp_msgs (msg_update p i f) ! j = (if i = j then f (mp_msgs p ! i) else mp_msgs p ! j)"
  by (auto simp: msg_update_def)

lemma msg_pool_ref_count:
  "msg_pool_wf p \<Longrightarrow> i < mp_capacity p \<Longrightarrow>
   msg_pool_refcount (msg_pool_ref p i) j = (if j = i then msg_pool_refcount p i + 1 else msg_pool_refcount p j)"
  by (auto simp: msg_pool_refcount_def msg_pool_ref_def msg_update_nth msg_pool_wf_def atomic_inc_def)

lemma msg_pool_unref_count:
  "msg_pool_wf p \<Longrightarrow> i < mp_capacity p \<Longrightarrow>
   fst (msg_pool_unref p i) = msg_pool_refcount p i - 1
   \<and> msg_pool_refcount (snd (msg_pool_unref p i)) j
       = (if j = i then msg_pool_refcount p i - 1 else msg_pool_refcount p j)"
  by (auto simp: msg_pool_refcount_def msg_pool_unref_def msg_update_nth msg_pool_wf_def atomic_dec_def Let_def)

lemma msg_pool_ref_wf [simp]: "msg_pool_wf (msg_pool_ref p i) = msg_pool_wf p"
  by (simp add: msg_pool_ref_def)

lemma msg_pool_unref_wf [simp]: "msg_pool_wf (snd (msg_pool_unref p i)) = msg_pool_wf p"
  by (simp add: msg_pool_unref_def Let_def)

lemma msg_pool_ref_in_use [simp]: "msg_pool_in_use (msg_pool_ref p i) = msg_pool_in_use p"
  by (simp add: msg_pool_ref_def)

lemma msg_pool_unref_in_use [simp]: "msg_pool_in_use (snd (msg_pool_unref p i)) = msg_pool_in_use p"
  by (simp add: msg_pool_unref_def Let_def)

end
