(* ===== verification/Egress.thy ===== *)
theory Egress
  imports Packet Msgbuf
begin

text \<open>
  The bounded queue interface, ring buffers, and the egress segments of
  \<^verbatim>\<open>src/src/broker/egress.h\<close>.  The locale \<open>bounded_queue\<close> is the contract of the broker's four ring
  buffers (the per-client egress queue and offline queue of \<^verbatim>\<open>client.h\<close>, the receive-retry and
  egress-flush queues of \<^verbatim>\<open>state.h\<close>); the theories of those components interpret it.
\<close>

section \<open>The queue interface\<close>

locale bounded_queue =
  fixes enq :: "'q \<Rightarrow> 'a \<Rightarrow> 'q"
    and deq :: "'q \<Rightarrow> 'q"
    and front :: "'q \<Rightarrow> 'a"
    and is_full :: "'q \<Rightarrow> bool"
    and is_empty :: "'q \<Rightarrow> bool"
    and contents :: "'q \<Rightarrow> 'a list"
    and bound :: "'q \<Rightarrow> nat"
    and invar :: "'q \<Rightarrow> bool"
  assumes full_iff: "invar q \<Longrightarrow> is_full q \<longleftrightarrow> bound q \<le> length (contents q)"
    and empty_iff: "invar q \<Longrightarrow> is_empty q \<longleftrightarrow> contents q = []"
    and within_bound: "invar q \<Longrightarrow> length (contents q) \<le> bound q"
    and enq_contents: "invar q \<Longrightarrow> \<not> is_full q \<Longrightarrow> contents (enq q x) = contents q @ [x]"
    and enq_invar: "invar q \<Longrightarrow> \<not> is_full q \<Longrightarrow> invar (enq q x)"
    and enq_bound: "invar q \<Longrightarrow> \<not> is_full q \<Longrightarrow> bound (enq q x) = bound q"
    and front_contents: "invar q \<Longrightarrow> \<not> is_empty q \<Longrightarrow> front q = hd (contents q)"
    and deq_contents: "invar q \<Longrightarrow> \<not> is_empty q \<Longrightarrow> contents (deq q) = tl (contents q)"
    and deq_invar: "invar q \<Longrightarrow> \<not> is_empty q \<Longrightarrow> invar (deq q)"
    and deq_bound: "invar q \<Longrightarrow> \<not> is_empty q \<Longrightarrow> bound (deq q) = bound q"
begin

lemma enq_not_empty: "invar q \<Longrightarrow> \<not> is_full q \<Longrightarrow> \<not> is_empty (enq q x)"
  by (simp add: empty_iff enq_invar enq_contents)

lemma deq_not_full: "invar q \<Longrightarrow> \<not> is_empty q \<Longrightarrow> \<not> is_full (deq q)"
  using within_bound [of q]
  by (cases "contents q") (simp_all add: full_iff empty_iff deq_invar deq_contents deq_bound)

text \<open>Elements leave in the order they entered.\<close>

lemma fifo_single: "invar q \<Longrightarrow> is_empty q \<Longrightarrow> \<not> is_full q \<Longrightarrow> front (enq q x) = x"
  by (simp add: front_contents enq_invar enq_not_empty enq_contents empty_iff)

lemma front_enq: "invar q \<Longrightarrow> \<not> is_empty q \<Longrightarrow> \<not> is_full q \<Longrightarrow> front (enq q x) = front q"
  by (simp add: front_contents enq_invar enq_not_empty enq_contents empty_iff)

lemma deq_enq_contents:
  "invar q \<Longrightarrow> \<not> is_empty q \<Longrightarrow> \<not> is_full q \<Longrightarrow> contents (deq (enq q x)) = contents (deq q) @ [x]"
  by (simp add: deq_contents enq_invar enq_not_empty enq_contents empty_iff)

text \<open>Enqueuing a list that fits appends all of it.\<close>

lemma enq_list:
  "invar q \<Longrightarrow> length (contents q) + length xs \<le> bound q \<Longrightarrow>
   invar (foldl enq q xs) \<and> contents (foldl enq q xs) = contents q @ xs \<and> bound (foldl enq q xs) = bound q"
proof (induction xs arbitrary: q)
  case Nil
  then show ?case by simp
next
  case (Cons x xs)
  then have nf: "\<not> is_full q" by (simp add: full_iff)
  with Cons show ?case by (simp add: enq_invar enq_contents enq_bound)
qed

text \<open>Removing \<open>n\<close> elements drops the \<open>n\<close> oldest.\<close>

lemma deq_list:
  "invar q \<Longrightarrow> n \<le> length (contents q) \<Longrightarrow>
   invar ((deq ^^ n) q) \<and> contents ((deq ^^ n) q) = drop n (contents q) \<and> bound ((deq ^^ n) q) = bound q"
proof (induction n)
  case 0
  then show ?case by simp
next
  case (Suc n)
  then have IH: "invar ((deq ^^ n) q)" "contents ((deq ^^ n) q) = drop n (contents q)"
    "bound ((deq ^^ n) q) = bound q" by auto
  with Suc.prems have "\<not> is_empty ((deq ^^ n) q)" by (simp add: empty_iff)
  with IH show ?case by (simp add: deq_contents deq_invar deq_bound tl_drop drop_Suc)
qed

end

section \<open>Ring buffers\<close>

text \<open>The cells of a ring from its head on, in a ring of \<open>n = length ring\<close> cells.\<close>

definition ring_contents :: "'a list \<Rightarrow> nat \<Rightarrow> nat \<Rightarrow> 'a list" where
  "ring_contents ring head count = map (\<lambda>i. ring ! ((head + i) mod length ring)) [0..<count]"

lemma length_ring_contents [simp]: "length (ring_contents ring head count) = count"
  by (simp add: ring_contents_def)

lemma ring_contents_nth: "i < count \<Longrightarrow> ring_contents ring head count ! i = ring ! ((head + i) mod length ring)"
  by (simp add: ring_contents_def)

lemma ring_contents_0 [simp]: "ring_contents ring head 0 = []"
  by (simp add: ring_contents_def)

lemma ring_index_inj:
  assumes "(head + i) mod n = (head + j) mod n" "i < n" "j < n"
  shows "i = (j :: nat)"
proof -
  have le: "j' = i'" if "i' \<le> j'" "j' < n" "(head + j') mod n = (head + i') mod n" for i' j'
  proof -
    have "n dvd (head + j') - (head + i')"
      using that by (intro mod_eq_dvd_iff_nat [THEN iffD1]) auto
    then have "n dvd j' - i'" by simp
    moreover have "j' - i' < n" using that by linarith
    ultimately have "\<not> 0 < j' - i'"
      using nat_dvd_not_less [of "j' - i'" n] by auto
    with that show ?thesis by simp
  qed
  show ?thesis
  proof (cases "i \<le> j")
    case True
    from le [OF True assms(3) assms(1) [symmetric]] show ?thesis by simp
  next
    case False
    then have "j \<le> i" by simp
    from le [OF this assms(2) assms(1)] show ?thesis .
  qed
qed

lemma ring_push_contents:
  assumes "count < length ring"
  shows "ring_contents (ring[(head + count) mod length ring := x]) head (Suc count)
           = ring_contents ring head count @ [x]"
proof -
  have "(head + count) mod length ring \<noteq> (head + i) mod length ring" if "i < count" for i
    using ring_index_inj [of head count "length ring" i] that assms by auto
  moreover have "(head + count) mod length ring < length ring"
    using assms by (intro mod_less_divisor) auto
  ultimately show ?thesis by (auto simp: ring_contents_def)
qed

lemma ring_pop_contents:
  "0 < count \<Longrightarrow> ring_contents ring ((head + 1) mod length ring) (count - 1) = tl (ring_contents ring head count)"
proof (cases count)
  case (Suc n)
  have "tl (ring_contents ring head (Suc n)) = map (\<lambda>i. ring ! ((head + i) mod length ring)) [1..<Suc n]"
    by (simp add: ring_contents_def upt_rec)
  also have "\<dots> = map (\<lambda>i. ring ! ((head + Suc i) mod length ring)) [0..<n]"
    by (simp add: map_Suc_upt [symmetric] del: map_Suc_upt upt_Suc)
  finally show ?thesis by (simp add: Suc ring_contents_def mod_simps)
qed simp

lemma ring_front: "0 < count \<Longrightarrow> head < length ring \<Longrightarrow> hd (ring_contents ring head count) = ring ! head"
  by (cases count) (simp_all add: ring_contents_def upt_rec)


section \<open>Egress segments\<close>

abbreviation (input) "SEG_PUBLISH \<equiv> 0 :: u8"
abbreviation (input) "SEG_CTRL \<equiv> 1 :: u8"

datatype flush_result = EGRESS_FLUSH_NOOP | EGRESS_FLUSH_SUBMITTED | EGRESS_FLUSH_SQ_FULL

definition EGRESS_BATCH_MAX :: nat where
  "EGRESS_BATCH_MAX = 64"

record egress_segment =
  seg_msg_idx :: nat
  seg_packet_id :: u16
  seg_kind :: u8
  seg_qos :: u8
  seg_dup :: u8
  seg_retain :: u8
  seg_slot_gen :: u8
  seg_ctrl_len :: u8
  seg_ctrl :: bytes
  seg_cursor :: u32

text \<open>Queue operations on a ring of \<open>mask + 1\<close> cells: the cell a push fills, and the new head and
  u16 count after a pop.\<close>

definition egress_full :: "nat \<Rightarrow> nat \<Rightarrow> bool" where
  "egress_full count capacity \<longleftrightarrow> count \<ge> capacity"

definition egress_empty :: "nat \<Rightarrow> bool" where
  "egress_empty count \<longleftrightarrow> count = 0"

definition egress_head_seg :: "nat \<Rightarrow> nat \<Rightarrow> nat" where
  "egress_head_seg head msk = head AND msk"

definition egress_push :: "nat \<Rightarrow> nat \<Rightarrow> nat \<Rightarrow> nat" where
  "egress_push head count msk = (head + count) AND msk"

definition egress_pop :: "nat \<Rightarrow> nat \<Rightarrow> nat \<Rightarrow> nat \<times> nat" where
  "egress_pop head count msk = ((head + 1) AND msk, (count + 65535) mod 65536)"

section \<open>Wire lengths\<close>

text \<open>The \<open>do ... while (x > 0)\<close> loop that counts the bytes of the remaining length.\<close>

function wire_vbi_count :: "u32 \<Rightarrow> u32 \<Rightarrow> u32" where
  "wire_vbi_count acc x =
     (let acc' = acc + 1; x' = drop_bit 7 x in if x' > 0 then wire_vbi_count acc' x' else acc')"
  by pat_completeness auto
termination
proof (relation "measure (\<lambda>(acc, x). unat x)", goal_cases)
  case 1
  show ?case by simp
next
  case (2 acc x acc' x')
  then have "unat (drop_bit 7 x) > 0"
    by (simp add: word_less_nat_alt)
  then show ?case
    using 2 by (simp add: unat_drop_bit)
qed

declare wire_vbi_count.simps [simp del]

definition egress_publish_wire_len :: "canonical_msg \<Rightarrow> u8 \<Rightarrow> u32" where
  "egress_publish_wire_len msg qos =
     (let remaining = 2 + of_nat (cm_topic_len msg) + of_nat (cm_payload_len msg) :: u32;
          remaining' = (if qos > 0 then remaining + 2 else remaining)
      in wire_vbi_count 1 remaining' + remaining')"

definition egress_seg_store_wire_len :: "egress_segment \<Rightarrow> u32 \<Rightarrow> egress_segment" where
  "egress_seg_store_wire_len seg len =
     seg\<lparr>seg_ctrl := (seg_ctrl seg)[0 := ucast len, 1 := ucast (drop_bit 8 len),
                                    2 := ucast (drop_bit 16 len), 3 := ucast (drop_bit 24 len)]\<rparr>"

definition egress_seg_load_wire_len :: "egress_segment \<Rightarrow> u32" where
  "egress_seg_load_wire_len seg =
     ucast (seg_ctrl seg ! 0) OR push_bit 8 (ucast (seg_ctrl seg ! 1)) OR
     push_bit 16 (ucast (seg_ctrl seg ! 2)) OR push_bit 24 (ucast (seg_ctrl seg ! 3))"

lemma wire_len_roundtrip:
  assumes "length (seg_ctrl seg) = 8"
  shows "egress_seg_load_wire_len (egress_seg_store_wire_len seg len) = len"
proof (rule bit_word_eqI)
  fix n assume "n < LENGTH(32)"
  then have "24 \<le> n \<and> 24 + (n - 24) = n \<and> n - 24 < 8 \<or> n < 24" by auto
  then show "bit (egress_seg_load_wire_len (egress_seg_store_wire_len seg len)) n = bit len n"
    unfolding egress_seg_load_wire_len_def egress_seg_store_wire_len_def
    using assms by (auto simp: bit_simps)
qed

lemma wire_vbi_count_eq: "wire_vbi_count acc x = acc + of_nat (length (mqtt_encode_remaining_len x))"
proof (induction acc x rule: wire_vbi_count.induct)
  case (1 acc x)
  then show ?case
    by (simp add: wire_vbi_count.simps [of acc x] mqtt_encode_remaining_len.simps [of x] Let_def add.assoc)
qed

end
