(* ===== verification/Client.thy ===== *)
theory Client
  imports Backshift Pool Msgbuf Egress
begin

text \<open>
  Client slots, \<^verbatim>\<open>src/src/broker/client.h\<close>: connection state, response slots, the offline
  queue, the in-flight table for QoS 1 and 2 with its packet identifier hash, and the egress ring.
\<close>

section \<open>State\<close>

datatype client_state = CLIENT_FREE | CLIENT_ACTIVE | CLIENT_DORMANT | CLIENT_CLOSING

datatype inflight_state =
    INFLIGHT_FREE
  | INFLIGHT_SENDING
  | INFLIGHT_WAIT_PUBACK
  | INFLIGHT_WAIT_PUBREC
  | INFLIGHT_WAIT_PUBREL
  | INFLIGHT_WAIT_PUBCOMP

record inflight_hot =
  ih_packet_id :: u16
  ih_state :: inflight_state
  ih_direction :: u8
  ih_msg_idx :: nat

record inflight_cold =
  ic_deadline :: u64
  ic_packet_id_be :: "u8 \<times> u8"
  ic_qos :: u8
  ic_dup_count :: u8

record pending_msg =
  pm_topic_offset :: nat
  pm_topic_len :: nat
  pm_payload_len :: nat
  pm_qos :: u8
  pm_data :: bytes

text \<open>
  What an \<open>iov_base\<close> may point to: constant bytes, a scratch area of the client slot, or the
  receive buffer of a canonical message; the offset is kept apart.
\<close>

datatype pointer =
    PNull
  | PStatic bytes
  | PRespPktId nat
  | PRespBuf nat
  | PEgressHdr nat
  | PEgressPktId nat
  | PEgressCtrl nat
  | PRecvBuf nat

record iovec =
  iov_base :: pointer
  iov_off :: nat
  iov_len :: nat

definition RESP_SLOTS :: nat where
  "RESP_SLOTS = 16"

definition CLIENT_ID_MAX :: nat where
  "CLIENT_ID_MAX = 64"

definition LLMQ_MAX_PENDING_MSGS :: nat where
  "LLMQ_MAX_PENDING_MSGS = 32"

definition INFLIGHT_HASH_EMPTY :: nat where
  "INFLIGHT_HASH_EMPTY = 65535"

record client_slot =
  c_client_id_hash :: u32
  c_client_id :: bytes
  c_client_id_len :: nat
  c_state :: client_state
  c_clean_session :: bool
  c_protocol_version :: u8
  c_generation :: u8
  c_fd :: int
  c_keepalive :: u16
  c_recv_pending :: bool
  c_last_active :: u32
  c_recv_buf_idx :: nat
  c_recv_start :: nat
  c_recv_len :: nat
  c_orphaned_recv_buf_idx :: nat
  c_resp_pkt_id :: "bytes list"
  c_resp_buf :: "bytes list"
  c_resp_iov :: "iovec list list"
  c_resp_slot :: nat
  c_resp_in_flight :: u16
  c_pending :: "pending_msg list"
  c_pending_head :: nat
  c_pending_tail :: nat
  c_pending_count :: nat
  c_next_packet_id :: u16
  c_inflight_count :: nat
  c_max_inflight :: nat
  c_inflight_mask :: nat
  c_inflight_free_hint :: nat
  c_inflight_generation :: u16
  c_inflight_hash_mask :: nat
  c_inflight_hot :: "inflight_hot list"
  c_inflight_cold :: "inflight_cold list"
  c_inflight_pkt_hash :: "nat list"
  c_egress :: "egress_segment list"
  c_egress_head :: nat
  c_egress_count :: nat
  c_egress_capacity :: nat
  c_egress_mask :: nat
  c_egress_inflight :: bool
  c_egress_retry_queued :: bool
  c_egress_batch_count :: nat
  c_egress_headers :: "bytes list"
  c_egress_pkt_ids :: "bytes list"
  c_egress_iov :: "iovec list"

text \<open>A slot in freshly mapped memory, before any array is wired to it.\<close>

definition zero_client :: client_slot where
  "zero_client = \<lparr>c_client_id_hash = 0, c_client_id = replicate CLIENT_ID_MAX 0, c_client_id_len = 0,
     c_state = CLIENT_FREE, c_clean_session = False, c_protocol_version = 0, c_generation = 0, c_fd = 0,
     c_keepalive = 0, c_recv_pending = False, c_last_active = 0, c_recv_buf_idx = 0, c_recv_start = 0,
     c_recv_len = 0, c_orphaned_recv_buf_idx = 0,
     c_resp_pkt_id = replicate RESP_SLOTS [0, 0], c_resp_buf = replicate RESP_SLOTS (replicate 16 0),
     c_resp_iov = replicate RESP_SLOTS (replicate 3 \<lparr>iov_base = PNull, iov_off = 0, iov_len = 0\<rparr>),
     c_resp_slot = 0, c_resp_in_flight = 0, c_pending = [], c_pending_head = 0, c_pending_tail = 0,
     c_pending_count = 0, c_next_packet_id = 0, c_inflight_count = 0, c_max_inflight = 0,
     c_inflight_mask = 0, c_inflight_free_hint = 0, c_inflight_generation = 0, c_inflight_hash_mask = 0,
     c_inflight_hot = [], c_inflight_cold = [], c_inflight_pkt_hash = [], c_egress = [],
     c_egress_head = 0, c_egress_count = 0, c_egress_capacity = 0, c_egress_mask = 0,
     c_egress_inflight = False, c_egress_retry_queued = False, c_egress_batch_count = 0,
     c_egress_headers = replicate EGRESS_BATCH_MAX (replicate 7 0),
     c_egress_pkt_ids = replicate EGRESS_BATCH_MAX (replicate 2 0),
     c_egress_iov = replicate (4 * EGRESS_BATCH_MAX) \<lparr>iov_base = PNull, iov_off = 0, iov_len = 0\<rparr>\<rparr>"

section \<open>Client identifiers\<close>

definition FNV_OFFSET_BASIS :: u32 where
  "FNV_OFFSET_BASIS = 2166136261"

definition FNV_PRIME :: u32 where
  "FNV_PRIME = 16777619"

definition fnv1a :: "bytes \<Rightarrow> u32" where
  "fnv1a data = foldl (\<lambda>hash b. (hash XOR ucast b) * FNV_PRIME) FNV_OFFSET_BASIS data"

text \<open>\<open>id\<close> holds at least \<open>len\<close> bytes; a u8 \<open>len\<close> above the array size is cut.\<close>

definition client_set_identity :: "client_slot \<Rightarrow> bytes \<Rightarrow> nat \<Rightarrow> client_slot" where
  "client_set_identity c cid len =
     (let len = (if len > CLIENT_ID_MAX then CLIENT_ID_MAX else len)
      in c\<lparr>c_client_id := take len cid @ drop len (c_client_id c), c_client_id_len := len,
           c_client_id_hash := fnv1a (take len cid)\<rparr>)"

definition client_matches :: "client_slot \<Rightarrow> bytes \<Rightarrow> nat \<Rightarrow> u32 \<Rightarrow> bool" where
  "client_matches c cid len hash \<longleftrightarrow>
     (if c_state c = CLIENT_FREE then False
      else if c_client_id_hash c \<noteq> hash then False
      else if c_client_id_len c \<noteq> len then False
      else list_all (\<lambda>i. c_client_id c ! i = cid ! i) [0..<len])"

section \<open>Life cycle\<close>

text \<open>\<open>memset(a, 0xFF, n * sizeof *a)\<close> on the first \<open>n\<close> cells of an array.\<close>

definition fill_cells :: "nat \<Rightarrow> 'a \<Rightarrow> 'a list \<Rightarrow> 'a list" where
  "fill_cells n x xs = replicate (min n (length xs)) x @ drop n xs"

text \<open>An entry after the memset and the loop that stores \<open>INFLIGHT_FREE\<close>.\<close>

definition hot_reset :: inflight_hot where
  "hot_reset = \<lparr>ih_packet_id = 0xFFFF, ih_state = INFLIGHT_FREE, ih_direction = 0xFF,
     ih_msg_idx = MSG_POOL_INVALID\<rparr>"

definition cold_reset :: inflight_cold where
  "cold_reset = \<lparr>ic_deadline = - 1, ic_packet_id_be = (0xFF, 0xFF), ic_qos = 0xFF, ic_dup_count = 0xFF\<rparr>"

definition client_init :: "client_slot \<Rightarrow> int \<Rightarrow> nat \<Rightarrow> nat \<Rightarrow> client_slot" where
  "client_init c fd recv_buf_idx max_inflight =
     c\<lparr>c_generation := c_generation c + 1, c_state := CLIENT_ACTIVE, c_fd := fd,
       c_client_id_len := 0, c_client_id_hash := 0, c_clean_session := True,
       c_protocol_version := 0, c_keepalive := 0, c_recv_pending := False, c_last_active := 0,
       c_recv_buf_idx := recv_buf_idx, c_recv_start := 0, c_recv_len := 0,
       c_pending_head := 0, c_pending_tail := 0, c_pending_count := 0,
       c_resp_slot := 0, c_resp_in_flight := 0, c_next_packet_id := 1,
       c_inflight_count := 0, c_max_inflight := max_inflight, c_inflight_mask := max_inflight - 1,
       c_inflight_free_hint := 0, c_inflight_generation := 0,
       c_inflight_hash_mask := 2 * max_inflight - 1,
       c_inflight_hot := fill_cells max_inflight hot_reset (c_inflight_hot c),
       c_inflight_cold := fill_cells max_inflight cold_reset (c_inflight_cold c),
       c_inflight_pkt_hash := fill_cells (2 * max_inflight) INFLIGHT_HASH_EMPTY (c_inflight_pkt_hash c),
       c_egress_head := 0, c_egress_count := 0, c_egress_inflight := False,
       c_egress_retry_queued := False, c_egress_batch_count := 0\<rparr>"

definition client_recv_buf :: "client_slot \<Rightarrow> buf_pool \<Rightarrow> bytes option" where
  "client_recv_buf c recv_pool =
     (if c_recv_buf_idx c = BUF_POOL_INVALID then None else buf_pool_get recv_pool (c_recv_buf_idx c))"

definition client_go_dormant :: "client_slot \<Rightarrow> client_slot" where
  "client_go_dormant c =
     c\<lparr>c_state := CLIENT_DORMANT, c_fd := -1, c_recv_start := 0, c_recv_len := 0,
       c_recv_buf_idx := BUF_POOL_INVALID, c_egress_inflight := False, c_egress_retry_queued := False\<rparr>"

definition client_free :: "client_slot \<Rightarrow> client_slot" where
  "client_free c =
     c\<lparr>c_state := CLIENT_FREE, c_fd := -1, c_client_id_len := 0, c_client_id_hash := 0,
       c_recv_start := 0, c_recv_len := 0, c_recv_buf_idx := BUF_POOL_INVALID,
       c_pending_head := 0, c_pending_tail := 0, c_pending_count := 0,
       c_egress_inflight := False, c_egress_retry_queued := False\<rparr>"

section \<open>Response slots\<close>

text \<open>The \<open>for\<close> loop over \<open>i\<close>, from \<open>RESP_SLOTS - n\<close> on.\<close>

fun resp_slot_loop :: "client_slot \<Rightarrow> nat \<Rightarrow> nat \<times> client_slot" where
  "resp_slot_loop c 0 = (RESP_SLOTS, c)"
| "resp_slot_loop c (Suc n) =
     (let i = RESP_SLOTS - Suc n;
          slot = (c_resp_slot c + i) mod RESP_SLOTS
      in if c_resp_in_flight c AND push_bit slot 1 = 0
         then (slot, c\<lparr>c_resp_slot := (slot + 1) mod RESP_SLOTS\<rparr>)
         else resp_slot_loop c n)"

definition client_get_resp_slot :: "client_slot \<Rightarrow> nat \<times> client_slot" where
  "client_get_resp_slot c = resp_slot_loop c RESP_SLOTS"

definition client_resp_slot_mark_inflight :: "client_slot \<Rightarrow> nat \<Rightarrow> client_slot" where
  "client_resp_slot_mark_inflight c slot = c\<lparr>c_resp_in_flight := c_resp_in_flight c OR push_bit slot 1\<rparr>"

definition client_resp_slot_complete :: "client_slot \<Rightarrow> nat \<Rightarrow> client_slot" where
  "client_resp_slot_complete c slot = c\<lparr>c_resp_in_flight := c_resp_in_flight c AND NOT (push_bit slot 1)\<rparr>"

text \<open>With all slots busy the source indexes one past its arrays: \<open>None\<close>.\<close>

definition client_setup_resp_pkt :: "client_slot \<Rightarrow> bytes \<Rightarrow> u16 \<Rightarrow> (iovec list \<times> client_slot) option" where
  "client_setup_resp_pkt c hdr packet_id =
     (let (slot, c) = client_get_resp_slot c
      in if slot = RESP_SLOTS then None
         else let iov = (c_resp_iov c ! slot)
                [0 := \<lparr>iov_base = PStatic hdr, iov_off = 0, iov_len = 2\<rparr>,
                 1 := \<lparr>iov_base = PRespPktId slot, iov_off = 0, iov_len = 2\<rparr>]
              in Some (iov, c\<lparr>c_resp_pkt_id := (c_resp_pkt_id c)
                                [slot := [ucast (drop_bit 8 packet_id), ucast (packet_id AND 0xFF)]],
                              c_resp_iov := (c_resp_iov c)[slot := iov]\<rparr>))"

section \<open>Offline queue\<close>

definition client_has_pending :: "client_slot \<Rightarrow> bool" where
  "client_has_pending c \<longleftrightarrow> c_pending_count c > 0"

text \<open>The index of the cell the caller is to fill.\<close>

definition client_pending_push :: "client_slot \<Rightarrow> nat option \<times> client_slot" where
  "client_pending_push c =
     (if c_pending_count c \<ge> LLMQ_MAX_PENDING_MSGS then (None, c)
      else (Some (c_pending_tail c),
            c\<lparr>c_pending_tail := (c_pending_tail c + 1) mod LLMQ_MAX_PENDING_MSGS,
              c_pending_count := c_pending_count c + 1\<rparr>))"

definition client_pending_peek :: "client_slot \<Rightarrow> pending_msg option" where
  "client_pending_peek c =
     (if c_pending_count c = 0 then None else Some (c_pending c ! c_pending_head c))"

definition client_pending_pop :: "client_slot \<Rightarrow> client_slot" where
  "client_pending_pop c =
     (if c_pending_count c = 0 then c
      else c\<lparr>c_pending_head := (c_pending_head c + 1) mod LLMQ_MAX_PENDING_MSGS,
             c_pending_count := c_pending_count c - 1\<rparr>)"

section \<open>Packet identifier hash\<close>

definition hash_free_cell :: "client_slot \<Rightarrow> nat \<Rightarrow> nat option" where
  "hash_free_cell c idx = (if c_inflight_pkt_hash c ! idx = INFLIGHT_HASH_EMPTY then Some idx else None)"

definition inflight_hash_insert :: "client_slot \<Rightarrow> u16 \<Rightarrow> nat \<Rightarrow> client_slot" where
  "inflight_hash_insert c packet_id slot =
     (case probe_for (hash_free_cell c) (c_inflight_hash_mask c) (c_inflight_hash_mask c + 1)
             (unat packet_id AND c_inflight_hash_mask c) of
        None \<Rightarrow> c
      | Some idx \<Rightarrow> c\<lparr>c_inflight_pkt_hash := (c_inflight_pkt_hash c)[idx := slot]\<rparr>)"

text \<open>\<open>Some None\<close> is an empty cell, \<open>Some (Some idx)\<close> the cell whose slot has the packet identifier.\<close>

definition hash_entry_cell :: "client_slot \<Rightarrow> u16 \<Rightarrow> nat \<Rightarrow> nat option option" where
  "hash_entry_cell c packet_id idx =
     (let slot = c_inflight_pkt_hash c ! idx
      in if slot = INFLIGHT_HASH_EMPTY then Some None
         else if ih_packet_id (c_inflight_hot c ! slot) = packet_id then Some (Some idx)
         else None)"

definition pkt_home :: "client_slot \<Rightarrow> nat \<Rightarrow> nat" where
  "pkt_home c slot = unat (ih_packet_id (c_inflight_hot c ! slot)) AND c_inflight_hash_mask c"

text \<open>\<open>None\<close>: the scan of the backward shift meets no empty cell.\<close>

definition inflight_hash_remove :: "client_slot \<Rightarrow> u16 \<Rightarrow> client_slot option" where
  "inflight_hash_remove c packet_id =
     (case probe_for (hash_entry_cell c packet_id) (c_inflight_hash_mask c) (c_inflight_hash_mask c + 1)
             (unat packet_id AND c_inflight_hash_mask c) of
        Some (Some idx) \<Rightarrow>
          (case backshift (pkt_home c) INFLIGHT_HASH_EMPTY (c_inflight_hash_mask c)
                  (c_inflight_hash_mask c + 1) (c_inflight_pkt_hash c) idx idx of
             None \<Rightarrow> None
           | Some (tab, gap) \<Rightarrow> Some (c\<lparr>c_inflight_pkt_hash := tab[gap := INFLIGHT_HASH_EMPTY]\<rparr>))
      | _ \<Rightarrow> Some c)"

section \<open>In-flight messages\<close>

text \<open>The search for a free slot from the hint on; \<open>n\<close> is \<open>max_inflight - searched\<close>.\<close>

fun inflight_search :: "client_slot \<Rightarrow> nat \<Rightarrow> nat \<Rightarrow> nat" where
  "inflight_search c 0 slot = slot"
| "inflight_search c (Suc n) slot =
     (if ih_state (c_inflight_hot c ! slot) \<noteq> INFLIGHT_FREE
      then inflight_search c n ((slot + 1) AND c_inflight_mask c) else slot)"

definition fill_inflight :: "client_slot \<Rightarrow> nat \<Rightarrow> inflight_hot \<Rightarrow> u8 \<Rightarrow> u64 \<Rightarrow> client_slot" where
  "fill_inflight c slot hot qos deadline =
     c\<lparr>c_inflight_hot := (c_inflight_hot c)[slot := hot],
       c_inflight_cold := (c_inflight_cold c)[slot :=
         \<lparr>ic_deadline = deadline,
          ic_packet_id_be = (ucast (drop_bit 8 (ih_packet_id hot)), ucast (ih_packet_id hot AND 0xFF)),
          ic_qos = qos, ic_dup_count = 0\<rparr>],
       c_inflight_count := c_inflight_count c + 1,
       c_inflight_free_hint := (slot + 1) AND c_inflight_mask c\<rparr>"

definition alloc_packet_id :: "client_slot \<Rightarrow> nat \<Rightarrow> u16" where
  "alloc_packet_id c slot =
     (let base_id = of_nat (slot + 1);
          packet_id = base_id + c_inflight_generation c * of_nat (c_max_inflight c)
      in if packet_id = 0 then base_id else packet_id)"

text \<open>The slot and the packet identifier, or \<open>None\<close> for \<open>INFLIGHT_ERR_CLIENT_FULL\<close>.\<close>

definition client_inflight_alloc ::
    "client_slot \<Rightarrow> u8 \<Rightarrow> nat \<Rightarrow> u64 \<Rightarrow> (nat \<times> u16) option \<times> client_slot" where
  "client_inflight_alloc c qos msg_idx deadline =
     (if c_inflight_count c \<ge> c_max_inflight c then (None, c)
      else let slot = inflight_search c (c_max_inflight c) (c_inflight_free_hint c)
           in if ih_state (c_inflight_hot c ! slot) \<noteq> INFLIGHT_FREE then (None, c)
              else let packet_id = alloc_packet_id c slot;
                       c1 = fill_inflight c slot
                              \<lparr>ih_packet_id = packet_id,
                               ih_state = (if qos = 1 then INFLIGHT_WAIT_PUBACK else INFLIGHT_WAIT_PUBREC),
                               ih_direction = 0, ih_msg_idx = msg_idx\<rparr> qos deadline;
                       c2 = (if slot = 0 then c1\<lparr>c_inflight_generation := c_inflight_generation c1 + 1\<rparr> else c1)
                   in (Some (slot, packet_id), c2))"

definition is_incoming :: "client_slot \<Rightarrow> u16 \<Rightarrow> nat \<Rightarrow> bool" where
  "is_incoming c packet_id i \<longleftrightarrow> ih_state (c_inflight_hot c ! i) \<noteq> INFLIGHT_FREE
     \<and> ih_packet_id (c_inflight_hot c ! i) = packet_id \<and> ih_direction (c_inflight_hot c ! i) = 1"

text \<open>\<open>(packet_id - 1) & mask\<close>, computed in int.\<close>

definition direct_slot :: "client_slot \<Rightarrow> u16 \<Rightarrow> nat" where
  "direct_slot c packet_id = unat (packet_id - 1) AND c_inflight_mask c"

definition client_inflight_track_incoming :: "client_slot \<Rightarrow> u16 \<Rightarrow> u64 \<Rightarrow> nat option \<times> client_slot" where
  "client_inflight_track_incoming c packet_id deadline =
     (if c_inflight_count c \<ge> c_max_inflight c then (None, c)
      else let hint = direct_slot c packet_id
           in if is_incoming c packet_id hint then (Some hint, c)
              else case find (is_incoming c packet_id) [0..<c_max_inflight c] of
                     Some i \<Rightarrow> (Some i, c)
                   | None \<Rightarrow>
                       let slot = inflight_search c (c_max_inflight c) (c_inflight_free_hint c)
                       in if ih_state (c_inflight_hot c ! slot) \<noteq> INFLIGHT_FREE then (None, c)
                          else (Some slot,
                                inflight_hash_insert
                                  (fill_inflight c slot
                                     \<lparr>ih_packet_id = packet_id, ih_state = INFLIGHT_WAIT_PUBREL,
                                      ih_direction = 1, ih_msg_idx = MSG_POOL_INVALID\<rparr> 2 deadline)
                                  packet_id slot))"

definition client_inflight_find_direct :: "client_slot \<Rightarrow> u16 \<Rightarrow> nat option" where
  "client_inflight_find_direct c packet_id =
     (if packet_id = 0 then None
      else let slot = direct_slot c packet_id
           in if ih_state (c_inflight_hot c ! slot) \<noteq> INFLIGHT_FREE
                 \<and> ih_packet_id (c_inflight_hot c ! slot) = packet_id then Some slot else None)"

definition hash_find_cell :: "client_slot \<Rightarrow> u16 \<Rightarrow> nat \<Rightarrow> nat option option" where
  "hash_find_cell c packet_id idx =
     (let slot = c_inflight_pkt_hash c ! idx
      in if slot = INFLIGHT_HASH_EMPTY then Some None
         else if slot < c_max_inflight c \<and> ih_state (c_inflight_hot c ! slot) \<noteq> INFLIGHT_FREE
                 \<and> ih_packet_id (c_inflight_hot c ! slot) = packet_id then Some (Some slot)
         else None)"

definition client_inflight_find :: "client_slot \<Rightarrow> u16 \<Rightarrow> nat option" where
  "client_inflight_find c packet_id =
     (if packet_id = 0 then None
      else let slot = direct_slot c packet_id
           in if ih_state (c_inflight_hot c ! slot) \<noteq> INFLIGHT_FREE
                 \<and> ih_packet_id (c_inflight_hot c ! slot) = packet_id then Some slot
              else case probe_for (hash_find_cell c packet_id) (c_inflight_hash_mask c)
                          (c_inflight_hash_mask c + 1) (unat packet_id AND c_inflight_hash_mask c) of
                     Some r \<Rightarrow> r
                   | None \<Rightarrow> None)"

definition client_inflight_free_slot :: "client_slot \<Rightarrow> nat \<Rightarrow> client_slot option" where
  "client_inflight_free_slot c slot =
     (let h = c_inflight_hot c ! slot
      in if ih_state h = INFLIGHT_FREE then Some c
         else case (if ih_direction h = 1 then inflight_hash_remove c (ih_packet_id h) else Some c) of
                None \<Rightarrow> None
              | Some c1 \<Rightarrow>
                  Some (c1\<lparr>c_inflight_hot := (c_inflight_hot c1)
                             [slot := (c_inflight_hot c1 ! slot)
                                \<lparr>ih_msg_idx := MSG_POOL_INVALID, ih_state := INFLIGHT_FREE\<rparr>],
                           c_inflight_count := (if c_inflight_count c1 > 0 then c_inflight_count c1 - 1
                                                else c_inflight_count c1)\<rparr>))"

definition client_inflight_free_all :: "client_slot \<Rightarrow> client_slot" where
  "client_inflight_free_all c =
     (if c_inflight_count c = 0 then c
      else c\<lparr>c_inflight_hot := fill_cells (c_max_inflight c) hot_reset (c_inflight_hot c),
             c_inflight_cold := fill_cells (c_max_inflight c) cold_reset (c_inflight_cold c),
             c_inflight_count := 0, c_inflight_free_hint := 0,
             c_inflight_pkt_hash := fill_cells (c_inflight_hash_mask c + 1) INFLIGHT_HASH_EMPTY
                                      (c_inflight_pkt_hash c)\<rparr>)"


section \<open>Egress ring\<close>

text \<open>
  What every enqueueing function of \<^verbatim>\<open>mqtt_fsm.h\<close> does: \<open>egress_push\<close>, stores into the cell, and
  \<open>egress_count++\<close>; and \<open>egress_pop\<close> on the slot's head and count.
\<close>

definition egress_append :: "client_slot \<Rightarrow> (egress_segment \<Rightarrow> egress_segment) \<Rightarrow> client_slot" where
  "egress_append c f =
     (let i = egress_push (c_egress_head c) (c_egress_count c) (c_egress_mask c)
      in c\<lparr>c_egress := (c_egress c)[i := f (c_egress c ! i)], c_egress_count := c_egress_count c + 1\<rparr>)"

definition egress_pop_head :: "client_slot \<Rightarrow> client_slot" where
  "egress_pop_head c =
     (let (head, count) = egress_pop (c_egress_head c) (c_egress_count c) (c_egress_mask c)
      in c\<lparr>c_egress_head := head, c_egress_count := count\<rparr>)"

definition egress_head :: "client_slot \<Rightarrow> egress_segment" where
  "egress_head c = c_egress c ! egress_head_seg (c_egress_head c) (c_egress_mask c)"

end
