(* ===== verification/Inflight.thy ===== *)
theory Inflight
  imports Client
begin

text \<open>
  What the operations of \<^verbatim>\<open>src/src/broker/client.h\<close> on a client slot guarantee: the invariant of
  the in-flight table and its packet identifier hash, the response slots, the offline queue and the
  egress ring as bounded queues, and client identity.
\<close>

section \<open>The invariant of the in-flight table\<close>

definition in_use :: "client_slot \<Rightarrow> nat \<Rightarrow> bool" where
  "in_use c i \<longleftrightarrow> i < c_max_inflight c \<and> ih_state (c_inflight_hot c ! i) \<noteq> INFLIGHT_FREE"

definition incoming_slots :: "client_slot \<Rightarrow> nat set" where
  "incoming_slots c = {i. in_use c i \<and> ih_direction (c_inflight_hot c ! i) = 1}"

definition entry_ok :: "client_slot \<Rightarrow> nat \<Rightarrow> bool" where
  "entry_ok c i \<longleftrightarrow> (let h = c_inflight_hot c ! i in ih_packet_id h \<noteq> 0
     \<and> (ih_direction h = 1 \<or> ih_direction h = 0 \<and> direct_slot c (ih_packet_id h) = i))"

definition table_shape :: "client_slot \<Rightarrow> bool" where
  "table_shape c \<longleftrightarrow> (\<exists>k\<le>14. c_max_inflight c = 2 ^ k)
     \<and> c_inflight_mask c = c_max_inflight c - 1
     \<and> c_inflight_hash_mask c = 2 * c_max_inflight c - 1
     \<and> length (c_inflight_hot c) = c_max_inflight c
     \<and> length (c_inflight_cold c) = c_max_inflight c
     \<and> length (c_inflight_pkt_hash c) = 2 * c_max_inflight c
     \<and> c_inflight_free_hint c < c_max_inflight c"

definition pkt_id :: "client_slot \<Rightarrow> nat \<Rightarrow> u16" where
  "pkt_id c i = ih_packet_id (c_inflight_hot c ! i)"

definition inflight_wf :: "client_slot \<Rightarrow> bool" where
  "inflight_wf c \<longleftrightarrow> table_shape c
     \<and> c_inflight_count c = card {i. in_use c i}
     \<and> (\<forall>i. in_use c i \<longrightarrow> entry_ok c i)
     \<and> inj_on (pkt_id c) (incoming_slots c)
     \<and> chain_ok (pkt_home c) INFLIGHT_HASH_EMPTY (c_inflight_pkt_hash c)
     \<and> live_cells INFLIGHT_HASH_EMPTY (c_inflight_pkt_hash c) = mset_set (incoming_slots c)"

lemma table_shapeD:
  assumes "table_shape c"
  shows "pow2_table (c_max_inflight c) (c_inflight_mask c)"
    "pow2_table (2 * c_max_inflight c) (c_inflight_hash_mask c)"
    "0 < c_max_inflight c" "c_max_inflight c \<le> 16384"
    "c_inflight_hash_mask c + 1 = 2 * c_max_inflight c"
    "length (c_inflight_hot c) = c_max_inflight c" "length (c_inflight_cold c) = c_max_inflight c"
    "length (c_inflight_pkt_hash c) = 2 * c_max_inflight c"
    "c_inflight_free_hint c < c_max_inflight c"
proof -
  from assms obtain k where k: "k \<le> 14" "c_max_inflight c = 2 ^ k" by (auto simp: table_shape_def)
  show "pow2_table (c_max_inflight c) (c_inflight_mask c)"
    using assms k by (auto simp: table_shape_def intro: pow2_tableI)
  show "pow2_table (2 * c_max_inflight c) (c_inflight_hash_mask c)"
    using assms k by (intro pow2_tableI [where k = "Suc k"]) (simp_all add: table_shape_def)
  show "0 < c_max_inflight c" using k by simp
  show "c_max_inflight c \<le> 16384" using k power_increasing [of k 14 "2::nat"] by simp
  show "c_inflight_hash_mask c + 1 = 2 * c_max_inflight c" using assms k by (simp add: table_shape_def)
qed (use assms in \<open>simp_all add: table_shape_def\<close>)

lemma finite_in_use [simp]: "finite {i. in_use c i}"
  by (rule finite_subset [of _ "{..<c_max_inflight c}"]) (auto simp: in_use_def)

lemma finite_incoming [simp]: "finite (incoming_slots c)"
  by (rule finite_subset [of _ "{i. in_use c i}"]) (auto simp: incoming_slots_def)

lemma in_use_below: "in_use c i \<Longrightarrow> i < c_max_inflight c"
  by (simp add: in_use_def)

lemma incoming_in_use: "i \<in> incoming_slots c \<Longrightarrow> in_use c i"
  by (simp add: incoming_slots_def)

lemma inflight_wfD:
  assumes "inflight_wf c"
  shows "table_shape c" "c_inflight_count c = card {i. in_use c i}" "in_use c i \<Longrightarrow> entry_ok c i"
    "inj_on (pkt_id c) (incoming_slots c)"
    "chain_ok (pkt_home c) INFLIGHT_HASH_EMPTY (c_inflight_pkt_hash c)"
    "live_cells INFLIGHT_HASH_EMPTY (c_inflight_pkt_hash c) = mset_set (incoming_slots c)"
  using assms unfolding inflight_wf_def by blast+

lemma inflight_count_full: "inflight_wf c \<Longrightarrow> c_inflight_count c < c_max_inflight c \<longleftrightarrow>
    (\<exists>i<c_max_inflight c. \<not> in_use c i)"
proof -
  assume wf: "inflight_wf c"
  have sub: "{i. in_use c i} \<subseteq> {..<c_max_inflight c}" by (auto simp: in_use_def)
  have "card {i. in_use c i} < c_max_inflight c \<longleftrightarrow> {i. in_use c i} \<noteq> {..<c_max_inflight c}"
  proof
    assume "{i. in_use c i} \<noteq> {..<c_max_inflight c}"
    with sub have "{i. in_use c i} \<subset> {..<c_max_inflight c}" by (rule psubsetI)
    from psubset_card_mono [OF finite_lessThan this]
    show "card {i. in_use c i} < c_max_inflight c" by (simp only: card_lessThan)
  next
    assume "card {i. in_use c i} < c_max_inflight c"
    then show "{i. in_use c i} \<noteq> {..<c_max_inflight c}" by (metis card_lessThan less_irrefl)
  qed
  moreover have "c_inflight_count c = card {i. in_use c i}" by (rule inflight_wfD(2) [OF wf])
  moreover have "{i. in_use c i} \<noteq> {..<c_max_inflight c} \<longleftrightarrow> (\<exists>i<c_max_inflight c. \<not> in_use c i)"
    using sub by blast
  ultimately show ?thesis by (simp only:)
qed

lemma mask_slot:
  assumes "table_shape c"
  shows "x AND c_inflight_mask c = x mod c_max_inflight c" "x AND c_inflight_mask c < c_max_inflight c"
  using table_shapeD [OF assms] by (simp_all add: pow2_table_mask)

lemma direct_slot_below: "table_shape c \<Longrightarrow> direct_slot c pid < c_max_inflight c"
  unfolding direct_slot_def by (rule mask_slot(2))

lemma hash_slot_in: "inflight_wf c \<Longrightarrow> s \<in> set (c_inflight_pkt_hash c) \<Longrightarrow> s \<noteq> INFLIGHT_HASH_EMPTY \<Longrightarrow>
    s \<in> incoming_slots c"
proof -
  assume wf: "inflight_wf c" and "s \<in> set (c_inflight_pkt_hash c)" "s \<noteq> INFLIGHT_HASH_EMPTY"
  then have "s \<in># live_cells INFLIGHT_HASH_EMPTY (c_inflight_pkt_hash c)" by (simp add: in_live_cells)
  with wf show ?thesis by (simp add: inflight_wf_def)
qed

lemma incoming_in_hash:
  assumes "inflight_wf c" "s \<in> incoming_slots c"
  shows "s \<in> set (c_inflight_pkt_hash c)" "s \<noteq> INFLIGHT_HASH_EMPTY"
proof -
  have "s \<in># live_cells INFLIGHT_HASH_EMPTY (c_inflight_pkt_hash c)"
    using assms by (simp add: inflight_wf_def)
  then show "s \<in> set (c_inflight_pkt_hash c)" "s \<noteq> INFLIGHT_HASH_EMPTY" by (simp_all add: in_live_cells)
qed

lemma pkt_home_mod: "table_shape c \<Longrightarrow> pkt_home c s = unat (pkt_id c s) mod (2 * c_max_inflight c)"
  unfolding pkt_home_def pkt_id_def by (rule pow2_table_mask [OF table_shapeD(2)])

section \<open>Search for a free slot\<close>

lemma inflight_search_spec:
  assumes "table_shape c"
  shows "inflight_search c n ((s + t) mod c_max_inflight c)
       = (case probe_for (\<lambda>i. if ih_state (c_inflight_hot c ! i) = INFLIGHT_FREE then Some i else None)
                (c_inflight_mask c) n ((s + t) mod c_max_inflight c) of
            None \<Rightarrow> (s + t + n) mod c_max_inflight c | Some i \<Rightarrow> i)"
proof (induction n arbitrary: t)
  case 0
  then show ?case by simp
next
  case (Suc n)
  show ?case
    using Suc [of "Suc t"] probe_step [OF table_shapeD(1) [OF assms], of s t]
    by (simp split: option.splits)
qed

lemma inflight_search_free:
  assumes "table_shape c" "i < c_max_inflight c" "\<not> in_use c i"
  defines "s \<equiv> inflight_search c (c_max_inflight c) (c_inflight_free_hint c)"
  shows "s < c_max_inflight c" "ih_state (c_inflight_hot c ! s) = INFLIGHT_FREE"
proof -
  let ?n = "c_max_inflight c"
  let ?f = "\<lambda>i. if ih_state (c_inflight_hot c ! i) = INFLIGHT_FREE then Some i else None"
  note sh = table_shapeD [OF assms(1)]
  have "probe_for ?f (c_inflight_mask c) ?n (c_inflight_free_hint c mod ?n) \<noteq> None"
    unfolding probe_for_None_all [OF sh(1)] using assms(2,3) by (auto simp: in_use_def)
  then obtain j where j: "probe_for ?f (c_inflight_mask c) ?n (c_inflight_free_hint c mod ?n) = Some j" by blast
  then have "s = j" using inflight_search_spec [OF assms(1), of ?n "c_inflight_free_hint c" 0] sh(9)
    by (simp add: s_def)
  moreover have "j < ?n \<and> ih_state (c_inflight_hot c ! j) = INFLIGHT_FREE"
    using j unfolding probe_for_Some_path [OF sh(1)] by (auto split: if_splits)
  ultimately show "s < c_max_inflight c" "ih_state (c_inflight_hot c ! s) = INFLIGHT_FREE" by auto
qed

section \<open>Packet identifiers of outgoing messages\<close>

lemma alloc_packet_id_direct:
  assumes "table_shape c" "slot < c_max_inflight c"
  shows "alloc_packet_id c slot \<noteq> 0" "direct_slot c (alloc_packet_id c slot) = slot"
proof -
  obtain k where k: "k \<le> 14" "c_max_inflight c = 2 ^ k" using assms(1) by (auto simp: table_shape_def)
  let ?base = "of_nat (slot + 1) :: u16" and ?g = "c_inflight_generation c * of_nat (c_max_inflight c)"
  have lt: "slot + 1 \<le> 16384" using table_shapeD(4) [OF assms(1)] assms(2) by simp
  have base: "unat ?base = slot + 1" using lt by (simp add: unat_of_nat_mod del: of_nat_Suc of_nat_add)
  have "unat ?base \<noteq> 0" using base by simp
  then have base0: "?base \<noteq> 0" by (metis unat_0)
  show "alloc_packet_id c slot \<noteq> 0"
    using base0 by (simp add: alloc_packet_id_def Let_def del: of_nat_Suc of_nat_add)
  have dvd: "(2::nat) ^ k dvd 65536" using k le_imp_power_dvd [of k 16 "2::nat"] by simp
  have m1: "unat (of_nat slot + ?g) mod 2 ^ k = slot"
  proof -
    have "unat (of_nat slot + ?g :: u16)
        = (slot + unat (c_inflight_generation c) * 2 ^ k) mod 65536"
      using k(2) unat_of_nat_mod [where n = "slot + unat (c_inflight_generation c) * 2 ^ k" and 'a = 16]
      by simp
    then have "unat (of_nat slot + ?g :: u16) mod 2 ^ k = (slot + unat (c_inflight_generation c) * 2 ^ k) mod 2 ^ k"
      by (simp only: mod_mod_cancel [OF dvd])
    then show ?thesis using assms(2) k(2) by simp
  qed
  have m2: "unat (of_nat slot :: u16) mod 2 ^ k = slot"
    using assms(2) k lt by (simp add: unat_of_nat_mod)
  have "alloc_packet_id c slot - 1 = (if ?base + ?g = 0 then of_nat slot else of_nat slot + ?g)"
    by (simp add: alloc_packet_id_def Let_def)
  then show "direct_slot c (alloc_packet_id c slot) = slot"
    using m1 m2 k(2) by (simp add: direct_slot_def mask_slot [OF assms(1)])
qed


section \<open>Lookup\<close>

lemma hash_find_cell_eq:
  "hash_find_cell c pid i \<noteq> None \<longleftrightarrow> c_inflight_pkt_hash c ! i = INFLIGHT_HASH_EMPTY
     \<or> in_use c (c_inflight_pkt_hash c ! i) \<and> pkt_id c (c_inflight_pkt_hash c ! i) = pid"
  "hash_find_cell c pid i = Some (Some s) \<longleftrightarrow> c_inflight_pkt_hash c ! i = s \<and> s \<noteq> INFLIGHT_HASH_EMPTY
     \<and> in_use c s \<and> pkt_id c s = pid"
  by (auto simp: hash_find_cell_def in_use_def pkt_id_def Let_def)

lemma hash_start: "table_shape c \<Longrightarrow> x AND c_inflight_hash_mask c = x mod (2 * c_max_inflight c)"
  by (rule pow2_table_mask [OF table_shapeD(2)])

lemma hash_lookup_incoming:
  assumes wf: "inflight_wf c" and s: "s \<in> incoming_slots c"
  shows "\<exists>s'. probe_for (hash_find_cell c (pkt_id c s)) (c_inflight_hash_mask c) (c_inflight_hash_mask c + 1)
            (unat (pkt_id c s) AND c_inflight_hash_mask c) = Some (Some s')"
proof -
  note sh = table_shapeD [OF inflight_wfD(1) [OF wf]]
  note h = incoming_in_hash [OF wf s]
  have stop: "hash_find_cell c (pkt_id c s) i \<noteq> None"
    if "i < 2 * c_max_inflight c" "c_inflight_pkt_hash c ! i = s" for i
    unfolding hash_find_cell_eq(1) using that incoming_in_use [OF s] by simp
  from chain_lookup [where body = "hash_find_cell c (pkt_id c s)", OF sh(2) sh(8) [symmetric]
      inflight_wfD(5) [OF wf] h pkt_home_mod [OF inflight_wfD(1) [OF wf]] stop]
  obtain i where i: "probe_for (hash_find_cell c (pkt_id c s)) (c_inflight_hash_mask c) (2 * c_max_inflight c)
        (unat (pkt_id c s) mod (2 * c_max_inflight c)) = hash_find_cell c (pkt_id c s) i"
      "hash_find_cell c (pkt_id c s) i \<noteq> None" "c_inflight_pkt_hash c ! i \<noteq> INFLIGHT_HASH_EMPTY" .
  from i(2,3) have "hash_find_cell c (pkt_id c s) i = Some (Some (c_inflight_pkt_hash c ! i))"
    unfolding hash_find_cell_eq by blast
  with i(1) show ?thesis
    using sh(5) hash_start [OF inflight_wfD(1) [OF wf]] by simp
qed

lemma client_inflight_find_Some:
  assumes wf: "inflight_wf c" and f: "client_inflight_find c pid = Some s"
  shows "in_use c s \<and> pkt_id c s = pid \<and> pid \<noteq> 0"
proof -
  note sh = inflight_wfD(1) [OF wf]
  let ?d = "direct_slot c pid"
  have z: "pid \<noteq> 0" using f by (auto simp: client_inflight_find_def)
  show ?thesis
  proof (cases "ih_state (c_inflight_hot c ! ?d) \<noteq> INFLIGHT_FREE \<and> ih_packet_id (c_inflight_hot c ! ?d) = pid")
    case True
    with f z have "s = ?d" by (simp add: client_inflight_find_def Let_def)
    with True z direct_slot_below [OF sh, of pid] show ?thesis by (simp add: in_use_def pkt_id_def)
  next
    case False
    then have "client_inflight_find c pid = (case probe_for (hash_find_cell c pid) (c_inflight_hash_mask c)
        (c_inflight_hash_mask c + 1) (unat pid AND c_inflight_hash_mask c) of Some r \<Rightarrow> r | None \<Rightarrow> None)"
      using z unfolding client_inflight_find_def Let_def by (simp only: if_not_P if_False)
    then have "(case probe_for (hash_find_cell c pid) (c_inflight_hash_mask c) (2 * c_max_inflight c)
        (unat pid mod (2 * c_max_inflight c)) of Some r \<Rightarrow> r | None \<Rightarrow> None) = Some s"
      unfolding f table_shapeD(5) [OF sh] hash_start [OF sh] by (rule sym)
    then have "probe_for (hash_find_cell c pid) (c_inflight_hash_mask c) (2 * c_max_inflight c)
        (unat pid mod (2 * c_max_inflight c)) = Some (Some s)"
      by (simp split: option.splits)
    then show ?thesis
      using z unfolding probe_for_Some_path [OF table_shapeD(2) [OF sh]] hash_find_cell_eq by blast
  qed
qed

lemma client_inflight_find_None:
  assumes wf: "inflight_wf c" and s: "in_use c s" "pkt_id c s = pid"
  shows "client_inflight_find c pid \<noteq> None"
proof -
  note sh = inflight_wfD(1) [OF wf]
  let ?d = "direct_slot c pid"
  have e: "entry_ok c s" by (rule inflight_wfD(3) [OF wf s(1)])
  then have z: "pid \<noteq> 0" using s(2) by (simp add: entry_ok_def pkt_id_def Let_def)
  show ?thesis
  proof (cases "ih_state (c_inflight_hot c ! ?d) \<noteq> INFLIGHT_FREE \<and> ih_packet_id (c_inflight_hot c ! ?d) = pid")
    case True
    with z show ?thesis by (simp add: client_inflight_find_def Let_def)
  next
    case False
    have "s \<in> incoming_slots c"
    proof (rule ccontr)
      assume "s \<notin> incoming_slots c"
      with e s have "?d = s" by (simp add: incoming_slots_def entry_ok_def pkt_id_def Let_def)
      with False s show False by (simp add: in_use_def pkt_id_def)
    qed
    from hash_lookup_incoming [OF wf this] s(2)
    obtain s' where "probe_for (hash_find_cell c pid) (c_inflight_hash_mask c)
        (c_inflight_hash_mask c + 1) (unat pid AND c_inflight_hash_mask c) = Some (Some s')" by blast
    with False z show ?thesis unfolding client_inflight_find_def Let_def by (simp only: if_not_P if_False) simp
  qed
qed

section \<open>Allocation\<close>

definition inflight_view :: "client_slot \<Rightarrow> nat \<times> nat \<times> nat \<times> nat \<times> nat \<times> inflight_hot list \<times> inflight_cold list \<times> nat list" where
  "inflight_view c = (c_max_inflight c, c_inflight_mask c, c_inflight_hash_mask c, c_inflight_count c,
     c_inflight_free_hint c, c_inflight_hot c, c_inflight_cold c, c_inflight_pkt_hash c)"

lemma inflight_view_cong:
  assumes "inflight_view c = inflight_view c'"
  shows "in_use c = in_use c'" "incoming_slots c = incoming_slots c'" "pkt_id c = pkt_id c'"
    "inflight_wf c = inflight_wf c'"
proof -
  have f: "c_max_inflight c = c_max_inflight c'" "c_inflight_mask c = c_inflight_mask c'"
      "c_inflight_hash_mask c = c_inflight_hash_mask c'" "c_inflight_count c = c_inflight_count c'"
      "c_inflight_free_hint c = c_inflight_free_hint c'" "c_inflight_hot c = c_inflight_hot c'"
      "c_inflight_cold c = c_inflight_cold c'" "c_inflight_pkt_hash c = c_inflight_pkt_hash c'"
    using assms by (simp_all add: inflight_view_def)
  show u: "in_use c = in_use c'" by (simp add: fun_eq_iff in_use_def f)
  show i: "incoming_slots c = incoming_slots c'" by (simp add: incoming_slots_def f u)
  show p: "pkt_id c = pkt_id c'" by (simp add: fun_eq_iff pkt_id_def f)
  have e: "entry_ok c = entry_ok c'" by (simp add: fun_eq_iff entry_ok_def direct_slot_def f)
  have h: "pkt_home c = pkt_home c'" by (simp add: fun_eq_iff pkt_home_def f)
  show "inflight_wf c = inflight_wf c'"
    unfolding inflight_wf_def table_shape_def u i p e h f ..
qed

lemma fill_inflight_fields:
  "c_max_inflight (fill_inflight c slot hot qos dl) = c_max_inflight c"
  "c_inflight_mask (fill_inflight c slot hot qos dl) = c_inflight_mask c"
  "c_inflight_hash_mask (fill_inflight c slot hot qos dl) = c_inflight_hash_mask c"
  "c_inflight_count (fill_inflight c slot hot qos dl) = c_inflight_count c + 1"
  "c_inflight_free_hint (fill_inflight c slot hot qos dl) = (slot + 1) AND c_inflight_mask c"
  "c_inflight_hot (fill_inflight c slot hot qos dl) = (c_inflight_hot c)[slot := hot]"
  "length (c_inflight_cold (fill_inflight c slot hot qos dl)) = length (c_inflight_cold c)"
  "c_inflight_pkt_hash (fill_inflight c slot hot qos dl) = c_inflight_pkt_hash c"
  by (simp_all add: fill_inflight_def)

lemma fill_inflight_facts:
  fixes qos :: u8 and dl :: u64
  assumes wf: "inflight_wf c" and slot: "slot < c_max_inflight c" "\<not> in_use c slot"
    and hot: "ih_state hot \<noteq> INFLIGHT_FREE"
  defines "c' \<equiv> fill_inflight c slot hot qos dl"
  shows "table_shape c'" "in_use c' i \<longleftrightarrow> in_use c i \<or> i = slot" "c_inflight_count c' = card {i. in_use c' i}"
    "incoming_slots c' = (if ih_direction hot = 1 then insert slot (incoming_slots c) else incoming_slots c)"
    "pkt_id c' i = (if i = slot then ih_packet_id hot else pkt_id c i)"
    "entry_ok c' slot \<longleftrightarrow> ih_packet_id hot \<noteq> 0 \<and> (ih_direction hot = 1
        \<or> ih_direction hot = 0 \<and> direct_slot c (ih_packet_id hot) = slot)"
    "i \<noteq> slot \<Longrightarrow> entry_ok c' i = entry_ok c i"
    "chain_ok (pkt_home c') INFLIGHT_HASH_EMPTY (c_inflight_pkt_hash c)"
proof -
  note sh = inflight_wfD(1) [OF wf] note shd = table_shapeD [OF sh]
  show "table_shape c'"
    using sh mask_slot(2) [OF sh, of "slot + 1"] by (simp add: table_shape_def c'_def fill_inflight_fields)
  have hots: "c_inflight_hot c' ! i = (if i = slot then hot else c_inflight_hot c ! i)" for i
    using slot(1) shd(6) by (simp add: c'_def fill_inflight_fields nth_list_update)
  show u: "in_use c' i \<longleftrightarrow> in_use c i \<or> i = slot" for i
    using slot(1) hot by (auto simp: in_use_def hots) (auto simp: c'_def fill_inflight_fields)
  have "{i. in_use c' i} = insert slot {i. in_use c i}" using u by auto
  then show "c_inflight_count c' = card {i. in_use c' i}"
    using slot(2) inflight_wfD(2) [OF wf] by (simp add: c'_def fill_inflight_fields)
  show "incoming_slots c' = (if ih_direction hot = 1 then insert slot (incoming_slots c) else incoming_slots c)"
    using slot(2) by (auto simp: incoming_slots_def u hots)
  show p: "pkt_id c' i = (if i = slot then ih_packet_id hot else pkt_id c i)" for i
    by (simp add: pkt_id_def hots)
  have d: "direct_slot c' = direct_slot c"
    by (simp add: fun_eq_iff direct_slot_def c'_def fill_inflight_fields)
  show "entry_ok c' slot \<longleftrightarrow> ih_packet_id hot \<noteq> 0 \<and> (ih_direction hot = 1
        \<or> ih_direction hot = 0 \<and> direct_slot c (ih_packet_id hot) = slot)"
    by (simp add: entry_ok_def hots d)
  show "i \<noteq> slot \<Longrightarrow> entry_ok c' i = entry_ok c i"
    by (simp add: entry_ok_def hots d)
  show "chain_ok (pkt_home c') INFLIGHT_HASH_EMPTY (c_inflight_pkt_hash c)"
  proof (rule chain_ok_cong [OF inflight_wfD(5) [OF wf]])
    fix s
    assume "s \<in> set (c_inflight_pkt_hash c)" "s \<noteq> INFLIGHT_HASH_EMPTY"
    then have "s \<noteq> slot" using hash_slot_in [OF wf] slot(2) incoming_in_use by blast
    then show "pkt_home c' s = pkt_home c s"
      by (simp add: pkt_home_def hots) (simp add: c'_def fill_inflight_fields)
  qed
qed

lemma fill_outgoing_wf:
  assumes wf: "inflight_wf c" and slot: "slot < c_max_inflight c" "\<not> in_use c slot"
    and hot: "ih_state hot \<noteq> INFLIGHT_FREE" "ih_direction hot = 0" "ih_packet_id hot \<noteq> 0"
      "direct_slot c (ih_packet_id hot) = slot"
  shows "inflight_wf (fill_inflight c slot hot qos dl)"
proof -
  note f = fill_inflight_facts [OF wf slot hot(1), where qos = qos and dl = dl]
  let ?c = "fill_inflight c slot hot qos dl"
  have inc: "incoming_slots ?c = incoming_slots c" using f(4) hot(2) by simp
  have "inj_on (pkt_id ?c) (incoming_slots c)"
  proof (rule inj_on_cong [THEN iffD2, OF _ inflight_wfD(4) [OF wf]])
    fix s
    assume "s \<in> incoming_slots c"
    then have "s \<noteq> slot" using slot(2) incoming_in_use by blast
    then show "pkt_id ?c s = pkt_id c s" by (simp add: f(5))
  qed
  moreover have "entry_ok ?c i" if "in_use ?c i" for i
    using that f(2) [of i] f(6) f(7) [of i] hot(2-) inflight_wfD(3) [OF wf, of i] by (cases "i = slot") simp_all
  ultimately show ?thesis
    unfolding inflight_wf_def inc fill_inflight_fields(8)
    using f(1,3,8) inflight_wfD(6) [OF wf] by (simp only:) blast
qed


lemma hash_has_room:
  assumes "inflight_wf c"
  shows "INFLIGHT_HASH_EMPTY \<in> set (c_inflight_pkt_hash c)"
proof (rule live_cells_bound)
  note sh = table_shapeD [OF inflight_wfD(1) [OF assms]]
  have "card (incoming_slots c) \<le> card {..<c_max_inflight c}"
    by (rule card_mono) (auto simp: incoming_slots_def in_use_def)
  then show "size (live_cells INFLIGHT_HASH_EMPTY (c_inflight_pkt_hash c)) < length (c_inflight_pkt_hash c)"
    unfolding inflight_wfD(6) [OF assms] using sh(3,8) by simp
qed

lemma track_incoming_wf:
  fixes dl :: u64
  assumes wf: "inflight_wf c" and slot: "slot < c_max_inflight c" "\<not> in_use c slot"
    and hot: "ih_state hot \<noteq> INFLIGHT_FREE" "ih_direction hot = 1" "ih_packet_id hot \<noteq> 0"
      "\<And>s. s \<in> incoming_slots c \<Longrightarrow> pkt_id c s \<noteq> ih_packet_id hot"
  defines "c2 \<equiv> inflight_hash_insert (fill_inflight c slot hot 2 dl) (ih_packet_id hot) slot"
  shows "inflight_wf c2 \<and> (\<forall>i. in_use c2 i \<longleftrightarrow> in_use c i \<or> i = slot)
    \<and> (\<forall>i. pkt_id c2 i = (if i = slot then ih_packet_id hot else pkt_id c i))
    \<and> incoming_slots c2 = insert slot (incoming_slots c)"
proof -
  note f = fill_inflight_facts [OF wf slot hot(1), where qos = 2 and dl = dl]
  let ?c = "fill_inflight c slot hot 2 dl" and ?pid = "ih_packet_id hot"
  let ?n = "2 * c_max_inflight c" and ?tab = "c_inflight_pkt_hash c"
  note sh = inflight_wfD(1) [OF wf] note shd = table_shapeD [OF sh]
  have free: "hash_free_cell ?c = (\<lambda>i. if ?tab ! i = INFLIGHT_HASH_EMPTY then Some i else None)"
    by (simp add: fun_eq_iff hash_free_cell_def fill_inflight_fields)
  let ?p = "probe_for (\<lambda>i. if ?tab ! i = INFLIGHT_HASH_EMPTY then Some i else None)
               (c_inflight_hash_mask c) ?n (unat ?pid mod ?n)"
  obtain j where "j < ?n" "?tab ! j = INFLIGHT_HASH_EMPTY"
    using hash_has_room [OF wf] shd(8) by (auto simp: in_set_conv_nth)
  then have "?p \<noteq> None" unfolding probe_for_None_all [OF shd(2)] by auto
  then obtain idx where idx: "?p = Some idx" by blast
  have s: "slot \<noteq> INFLIGHT_HASH_EMPTY" using slot(1) shd(4) by (simp add: INFLIGHT_HASH_EMPTY_def)
  have home: "pkt_home ?c slot = unat ?pid mod ?n"
    unfolding pkt_home_mod [OF f(1)] by (simp add: f(5) fill_inflight_fields)
  note ins = chain_insert [OF shd(2) shd(8) [symmetric] f(8) idx s home]
  have c2: "c2 = ?c\<lparr>c_inflight_pkt_hash := ?tab[idx := slot]\<rparr>"
    using idx unfolding c2_def inflight_hash_insert_def free fill_inflight_fields shd(5) hash_start [OF sh]
    by simp
  have eqs: "in_use c2 = in_use ?c" "pkt_id c2 = pkt_id ?c" "incoming_slots c2 = incoming_slots ?c"
      "entry_ok c2 = entry_ok ?c" "pkt_home c2 = pkt_home ?c" "c_inflight_count c2 = c_inflight_count ?c"
      "c_inflight_pkt_hash c2 = ?tab[idx := slot]"
    by (simp_all add: fun_eq_iff c2 in_use_def pkt_id_def incoming_slots_def entry_ok_def direct_slot_def pkt_home_def)
  have shape: "table_shape c2"
    using f(1) unfolding table_shape_def c2 by (simp add: fill_inflight_fields(8))
  have inc: "incoming_slots c2 = insert slot (incoming_slots c)" using f(4) hot(2) eqs(3) by simp
  have notin: "slot \<notin> incoming_slots c" using slot(2) incoming_in_use by blast
  have "inj_on (pkt_id c2) (insert slot (incoming_slots c))"
  proof (rule inj_on_insert [THEN iffD2], intro conjI)
    show "inj_on (pkt_id c2) (incoming_slots c)"
    proof (rule inj_on_cong [THEN iffD2, OF _ inflight_wfD(4) [OF wf]])
      fix s
      assume "s \<in> incoming_slots c"
      with notin have "s \<noteq> slot" by blast
      then show "pkt_id c2 s = pkt_id c s" by (simp add: f(5) eqs(2))
    qed
    show "pkt_id c2 slot \<notin> pkt_id c2 ` (incoming_slots c - {slot})"
    proof
      assume "pkt_id c2 slot \<in> pkt_id c2 ` (incoming_slots c - {slot})"
      then obtain s where "s \<in> incoming_slots c" "s \<noteq> slot" "pkt_id c2 slot = pkt_id c2 s" by blast
      with hot(4) [of s] show False unfolding eqs(2) f(5) by simp
    qed
  qed
  moreover have "entry_ok c2 i" if "in_use c2 i" for i
    using that f(2) [of i] f(6) f(7) [of i] hot(2,3) inflight_wfD(3) [OF wf, of i] unfolding eqs
    by (cases "i = slot") simp_all
  moreover have "live_cells INFLIGHT_HASH_EMPTY (c_inflight_pkt_hash c2) = mset_set (incoming_slots c2)"
    using ins notin inflight_wfD(6) [OF wf] unfolding eqs(7) inc by simp
  moreover have "c_inflight_count c2 = card {i. in_use c2 i}" unfolding eqs(1,6) by (rule f(3))
  moreover have "chain_ok (pkt_home c2) INFLIGHT_HASH_EMPTY (c_inflight_pkt_hash c2)"
    using ins unfolding eqs(5,7) by blast
  ultimately have "inflight_wf c2"
    unfolding inflight_wf_def inc using shape by blast
  then show ?thesis using f(2,5) inc unfolding eqs(1,2) by blast
qed

section \<open>Removal\<close>

lemma hash_entry_cell_eq:
  "hash_entry_cell c pid i \<noteq> None \<longleftrightarrow> c_inflight_pkt_hash c ! i = INFLIGHT_HASH_EMPTY
     \<or> pkt_id c (c_inflight_pkt_hash c ! i) = pid"
  "hash_entry_cell c pid i = Some (Some j) \<longleftrightarrow> j = i \<and> c_inflight_pkt_hash c ! i \<noteq> INFLIGHT_HASH_EMPTY
     \<and> pkt_id c (c_inflight_pkt_hash c ! i) = pid"
  by (auto simp: hash_entry_cell_def pkt_id_def Let_def)

lemma inflight_hash_remove_correct:
  assumes wf: "inflight_wf c" and slot: "slot \<in> incoming_slots c"
  shows "\<exists>tab. inflight_hash_remove c (pkt_id c slot) = Some (c\<lparr>c_inflight_pkt_hash := tab\<rparr>)
    \<and> length tab = 2 * c_max_inflight c \<and> chain_ok (pkt_home c) INFLIGHT_HASH_EMPTY tab
    \<and> live_cells INFLIGHT_HASH_EMPTY tab = mset_set (incoming_slots c - {slot})"
proof -
  let ?n = "2 * c_max_inflight c" and ?tab = "c_inflight_pkt_hash c" and ?pid = "pkt_id c slot"
  note sh = inflight_wfD(1) [OF wf] note shd = table_shapeD [OF sh]
  note h = incoming_in_hash [OF wf slot]
  have stop: "hash_entry_cell c ?pid i \<noteq> None" if "i < ?n" "?tab ! i = slot" for i
    unfolding hash_entry_cell_eq(1) using that by simp
  from chain_lookup [where body = "hash_entry_cell c ?pid", OF shd(2) shd(8) [symmetric]
      inflight_wfD(5) [OF wf] h pkt_home_mod [OF sh] stop]
  obtain i where i: "i < ?n" "probe_for (hash_entry_cell c ?pid) (c_inflight_hash_mask c) ?n (unat ?pid mod ?n)
      = hash_entry_cell c ?pid i" "hash_entry_cell c ?pid i \<noteq> None" "?tab ! i \<noteq> INFLIGHT_HASH_EMPTY" .
  from i(3,4) have pid: "pkt_id c (?tab ! i) = ?pid" unfolding hash_entry_cell_eq by blast
  have "?tab ! i \<in> set ?tab" using i(1) shd(8) by simp
  then have "?tab ! i \<in> incoming_slots c" using hash_slot_in [OF wf] i(4) by blast
  then have at: "?tab ! i = slot" using inflight_wfD(4) [OF wf] pid slot by (auto dest: inj_onD)
  have find: "probe_for (hash_entry_cell c ?pid) (c_inflight_hash_mask c) (c_inflight_hash_mask c + 1)
      (unat ?pid AND c_inflight_hash_mask c) = Some (Some i)"
    unfolding shd(5) hash_start [OF sh] i(2) using i(4) pid by (simp add: hash_entry_cell_eq(2))
  have hm: "pkt_home c s < ?n" for s unfolding pkt_home_mod [OF sh] using shd(3) by simp
  obtain tab gap where bs: "backshift (pkt_home c) INFLIGHT_HASH_EMPTY (c_inflight_hash_mask c) ?n ?tab i i = Some (tab, gap)"
      "length tab = ?n" "chain_ok (pkt_home c) INFLIGHT_HASH_EMPTY (tab[gap := INFLIGHT_HASH_EMPTY])"
      "live_cells INFLIGHT_HASH_EMPTY (tab[gap := INFLIGHT_HASH_EMPTY])
         = live_cells INFLIGHT_HASH_EMPTY ?tab - {#?tab ! i#}"
    using backshift_remove [OF shd(2) shd(8) [symmetric] inflight_wfD(5) [OF wf] hm i(1,4) hash_has_room [OF wf]]
    by blast
  have "live_cells INFLIGHT_HASH_EMPTY ?tab - {#?tab ! i#} = mset_set (incoming_slots c - {slot})"
    unfolding inflight_wfD(6) [OF wf] at using slot by (simp add: mset_set_Diff)
  moreover have "inflight_hash_remove c ?pid = Some (c\<lparr>c_inflight_pkt_hash := tab[gap := INFLIGHT_HASH_EMPTY]\<rparr>)"
    using bs(1) unfolding inflight_hash_remove_def find by (simp add: shd(5) [simplified])
  ultimately show ?thesis using bs(2-) by (intro exI [of _ "tab[gap := INFLIGHT_HASH_EMPTY]"]) simp
qed


lemma free_slot_wf:
  assumes wf: "inflight_wf c" and u: "in_use c slot"
    and tab: "length tab = 2 * c_max_inflight c" "chain_ok (pkt_home c) INFLIGHT_HASH_EMPTY tab"
      "live_cells INFLIGHT_HASH_EMPTY tab = mset_set (incoming_slots c - {slot})"
  defines "c' \<equiv> c\<lparr>c_inflight_pkt_hash := tab,
      c_inflight_hot := (c_inflight_hot c)[slot := (c_inflight_hot c ! slot)
          \<lparr>ih_msg_idx := MSG_POOL_INVALID, ih_state := INFLIGHT_FREE\<rparr>],
      c_inflight_count := c_inflight_count c - 1\<rparr>"
  shows "inflight_wf c'" "in_use c' i \<longleftrightarrow> in_use c i \<and> i \<noteq> slot" "pkt_id c' = pkt_id c"
    "incoming_slots c' = incoming_slots c - {slot}"
proof -
  note sh = inflight_wfD(1) [OF wf] note shd = table_shapeD [OF sh]
  have slot: "slot < c_max_inflight c" using u by (rule in_use_below)
  have hots: "c_inflight_hot c' ! i = (if i = slot then (c_inflight_hot c ! slot)
      \<lparr>ih_msg_idx := MSG_POOL_INVALID, ih_state := INFLIGHT_FREE\<rparr> else c_inflight_hot c ! i)" for i
    using slot shd(6) by (simp add: c'_def nth_list_update)
  have max: "c_max_inflight c' = c_max_inflight c" "c_inflight_hash_mask c' = c_inflight_hash_mask c"
      "c_inflight_mask c' = c_inflight_mask c"
    by (simp_all add: c'_def)
  show use: "in_use c' i \<longleftrightarrow> in_use c i \<and> i \<noteq> slot" for i by (simp add: in_use_def hots max)
  show p: "pkt_id c' = pkt_id c" by (simp add: fun_eq_iff pkt_id_def hots)
  show inc: "incoming_slots c' = incoming_slots c - {slot}"
    by (auto simp: incoming_slots_def use hots)
  have h: "pkt_home c' = pkt_home c" by (simp add: fun_eq_iff pkt_home_def hots max)
  have ent: "entry_ok c' i" if "in_use c' i" for i
    using inflight_wfD(3) [OF wf, of i] that by (simp add: use entry_ok_def hots direct_slot_def max)
  have "{i. in_use c' i} = {i. in_use c i} - {slot}" using use by auto
  then have cnt: "c_inflight_count c' = card {i. in_use c' i}"
    using inflight_wfD(2) [OF wf] u by (simp add: c'_def)
  have shape: "table_shape c'" using sh tab(1) unfolding table_shape_def c'_def by simp
  have "inj_on (pkt_id c) (incoming_slots c - {slot})"
    using inflight_wfD(4) [OF wf] by (rule inj_on_subset) blast
  moreover have "c_inflight_pkt_hash c' = tab" by (simp add: c'_def)
  ultimately show "inflight_wf c'"
    unfolding inflight_wf_def p inc h using shape cnt ent tab by simp
qed

lemma free_slot_out:
  assumes wf: "inflight_wf c" and u: "in_use c slot" "slot \<notin> incoming_slots c"
  shows "client_inflight_free_slot c slot = Some (c\<lparr>c_inflight_pkt_hash := c_inflight_pkt_hash c,
      c_inflight_hot := (c_inflight_hot c)[slot := (c_inflight_hot c ! slot)
          \<lparr>ih_msg_idx := MSG_POOL_INVALID, ih_state := INFLIGHT_FREE\<rparr>],
      c_inflight_count := c_inflight_count c - 1\<rparr>)"
proof -
  have "c_inflight_count c > 0"
    unfolding inflight_wfD(2) [OF wf] using u(1) by (auto simp: card_gt_0_iff)
  moreover have "ih_direction (c_inflight_hot c ! slot) \<noteq> 1" using u by (simp add: incoming_slots_def)
  ultimately show ?thesis
    using u(1) by (simp add: client_inflight_free_slot_def in_use_def)
qed

lemma free_slot_in:
  assumes wf: "inflight_wf c" and inc: "slot \<in> incoming_slots c"
    and rm: "inflight_hash_remove c (pkt_id c slot) = Some (c\<lparr>c_inflight_pkt_hash := tab\<rparr>)"
  shows "client_inflight_free_slot c slot = Some (c\<lparr>c_inflight_pkt_hash := tab,
      c_inflight_hot := (c_inflight_hot c)[slot := (c_inflight_hot c ! slot)
          \<lparr>ih_msg_idx := MSG_POOL_INVALID, ih_state := INFLIGHT_FREE\<rparr>],
      c_inflight_count := c_inflight_count c - 1\<rparr>)"
proof -
  have "c_inflight_count c > 0"
    unfolding inflight_wfD(2) [OF wf] using incoming_in_use [OF inc] by (auto simp: card_gt_0_iff)
  then show ?thesis
    using inc rm by (simp add: client_inflight_free_slot_def in_use_def incoming_slots_def pkt_id_def)
qed

lemma client_inflight_free_slot_correct:
  assumes wf: "inflight_wf c" and u: "in_use c slot"
  shows "\<exists>c'. client_inflight_free_slot c slot = Some c' \<and> inflight_wf c'
    \<and> (\<forall>i. in_use c' i \<longleftrightarrow> in_use c i \<and> i \<noteq> slot) \<and> pkt_id c' = pkt_id c
    \<and> incoming_slots c' = incoming_slots c - {slot} \<and> c_inflight_count c' + 1 = c_inflight_count c"
proof -
  have cnt: "c_inflight_count c > 0"
    unfolding inflight_wfD(2) [OF wf] using u by (auto simp: card_gt_0_iff)
  have "\<exists>tab. client_inflight_free_slot c slot = Some (c\<lparr>c_inflight_pkt_hash := tab,
        c_inflight_hot := (c_inflight_hot c)[slot := (c_inflight_hot c ! slot)
            \<lparr>ih_msg_idx := MSG_POOL_INVALID, ih_state := INFLIGHT_FREE\<rparr>],
        c_inflight_count := c_inflight_count c - 1\<rparr>)
      \<and> length tab = 2 * c_max_inflight c \<and> chain_ok (pkt_home c) INFLIGHT_HASH_EMPTY tab
      \<and> live_cells INFLIGHT_HASH_EMPTY tab = mset_set (incoming_slots c - {slot})"
  proof (cases "slot \<in> incoming_slots c")
    case True
    from inflight_hash_remove_correct [OF wf this] free_slot_in [OF wf this] show ?thesis by blast
  next
    case False
    then have "incoming_slots c - {slot} = incoming_slots c" by simp
    with free_slot_out [OF wf u False] inflight_wfD(5,6) [OF wf]
      table_shapeD(8) [OF inflight_wfD(1) [OF wf]] show ?thesis
      by (intro exI [of _ "c_inflight_pkt_hash c"]) simp
  qed
  then obtain tab where t: "client_inflight_free_slot c slot = Some (c\<lparr>c_inflight_pkt_hash := tab,
        c_inflight_hot := (c_inflight_hot c)[slot := (c_inflight_hot c ! slot)
            \<lparr>ih_msg_idx := MSG_POOL_INVALID, ih_state := INFLIGHT_FREE\<rparr>],
        c_inflight_count := c_inflight_count c - 1\<rparr>)"
      "length tab = 2 * c_max_inflight c" "chain_ok (pkt_home c) INFLIGHT_HASH_EMPTY tab"
      "live_cells INFLIGHT_HASH_EMPTY tab = mset_set (incoming_slots c - {slot})" by blast
  note f = free_slot_wf [OF wf u t(2-4)]
  show ?thesis using t(1) f cnt by (intro exI conjI) (assumption | simp)+
qed

section \<open>Properties of the in-flight table\<close>

lemma client_inflight_free_all_wf:
  assumes "inflight_wf c"
  shows "inflight_wf (client_inflight_free_all c)" "\<not> in_use (client_inflight_free_all c) i"
proof -
  note sh = inflight_wfD(1) [OF assms] note shd = table_shapeD [OF sh]
  have none: "\<not> in_use c i" if "c_inflight_count c = 0" for i
    using that inflight_wfD(2) [OF assms] by auto
  let ?c = "client_inflight_free_all c"
  show "\<not> in_use ?c i" for i
  proof (cases "c_inflight_count c = 0")
    case False
    then show ?thesis
      using shd(6) by (simp add: client_inflight_free_all_def in_use_def fill_cells_def hot_reset_def)
  qed (simp add: none client_inflight_free_all_def)
  then have e: "in_use ?c = (\<lambda>i. False)" "incoming_slots ?c = {}"
    by (simp_all add: fun_eq_iff incoming_slots_def)
  show "inflight_wf ?c"
  proof (cases "c_inflight_count c = 0")
    case True
    with assms show ?thesis by (simp add: client_inflight_free_all_def)
  next
    case False
    have hash: "c_inflight_pkt_hash ?c = replicate (2 * c_max_inflight c) INFLIGHT_HASH_EMPTY"
      using False shd(8) shd(5) by (simp add: client_inflight_free_all_def fill_cells_def)
    have "table_shape ?c"
      using False sh shd(3,6,7,8) unfolding table_shape_def
      by (simp add: client_inflight_free_all_def fill_cells_def)
    moreover have "c_inflight_count ?c = 0" using False by (simp add: client_inflight_free_all_def)
    ultimately show ?thesis
      unfolding inflight_wf_def e hash
      by (simp add: chain_ok_empty live_cells_def set_replicate_conv_if)
  qed
qed

lemma client_init_wf:
  assumes "mx = 2 ^ k" "k \<le> 14" "length (c_inflight_hot c) = mx" "length (c_inflight_cold c) = mx"
    "length (c_inflight_pkt_hash c) = 2 * mx"
  shows "inflight_wf (client_init c fd buf mx)" "\<not> in_use (client_init c fd buf mx) i"
proof -
  let ?c = "client_init c fd buf mx"
  show "\<not> in_use ?c i" for i
    using assms(3) by (simp add: in_use_def client_init_def fill_cells_def hot_reset_def)
  then have e: "in_use ?c = (\<lambda>i. False)" "incoming_slots ?c = {}"
    by (simp_all add: fun_eq_iff incoming_slots_def)
  have hash: "c_inflight_pkt_hash ?c = replicate (2 * mx) INFLIGHT_HASH_EMPTY"
    using assms(5) by (simp add: client_init_def fill_cells_def)
  have "table_shape ?c"
    using assms unfolding table_shape_def by (simp add: client_init_def fill_cells_def)
  moreover have "c_inflight_count ?c = 0" by (simp add: client_init_def)
  ultimately show "inflight_wf ?c"
    unfolding inflight_wf_def e hash by (simp add: chain_ok_empty live_cells_def set_replicate_conv_if)
qed

lemma client_inflight_find_outgoing:
  assumes "inflight_wf c" "in_use c s" "s \<notin> incoming_slots c"
  shows "client_inflight_find c (pkt_id c s) = Some s"
proof -
  have "entry_ok c s" by (rule inflight_wfD(3) [OF assms(1,2)])
  with assms have "direct_slot c (pkt_id c s) = s" "pkt_id c s \<noteq> 0"
    by (auto simp: entry_ok_def incoming_slots_def pkt_id_def Let_def)
  with assms(2) show ?thesis
    by (simp add: client_inflight_find_def in_use_def pkt_id_def)
qed

lemma inflight_find_ok:
  assumes "inflight_wf c"
  shows "(client_inflight_find c pid = None \<longleftrightarrow> \<not> (\<exists>s. in_use c s \<and> pkt_id c s = pid))
    \<and> (\<forall>s. client_inflight_find c pid = Some s \<longrightarrow> in_use c s \<and> pkt_id c s = pid)
    \<and> (\<forall>s. in_use c s \<and> s \<notin> incoming_slots c \<and> pkt_id c s = pid \<longrightarrow> client_inflight_find c pid = Some s)"
proof (intro conjI allI impI)
  show "client_inflight_find c pid = None \<longleftrightarrow> \<not> (\<exists>s. in_use c s \<and> pkt_id c s = pid)"
  proof
    assume "client_inflight_find c pid = None"
    then show "\<not> (\<exists>s. in_use c s \<and> pkt_id c s = pid)"
      using client_inflight_find_None [OF assms] by blast
  next
    assume "\<not> (\<exists>s. in_use c s \<and> pkt_id c s = pid)"
    then show "client_inflight_find c pid = None"
      using client_inflight_find_Some [OF assms, of pid] by (cases "client_inflight_find c pid") blast+
  qed
  show "in_use c s" "pkt_id c s = pid" if "client_inflight_find c pid = Some s" for s
    using client_inflight_find_Some [OF assms that] by auto
  show "client_inflight_find c pid = Some s" if "in_use c s \<and> s \<notin> incoming_slots c \<and> pkt_id c s = pid" for s
    using client_inflight_find_outgoing [OF assms, of s] that by blast
qed

text \<open>C26: lookup by packet identifier.  On a well-formed table \<open>client_inflight_find\<close> returns an entry in
  use with that identifier, and nothing exactly when there is none; an outgoing entry is always
  found first, whatever incoming entries exist.\<close>

theorem inflight_find_correct:
  assumes "inflight_wf c"
  shows "(client_inflight_find c pid = None \<longleftrightarrow> \<not> (\<exists>s. in_use c s \<and> pkt_id c s = pid))
    \<and> (\<forall>s. client_inflight_find c pid = Some s \<longrightarrow> in_use c s \<and> pkt_id c s = pid)
    \<and> (\<forall>s. in_use c s \<and> s \<notin> incoming_slots c \<and> pkt_id c s = pid \<longrightarrow> client_inflight_find c pid = Some s)"
  using assms by (rule inflight_find_ok)

lemma inflight_alloc_ok:
  assumes "inflight_wf c"
  shows "if c_inflight_count c < c_max_inflight c
    then \<exists>slot pid c'. client_inflight_alloc c qos msg_idx deadline = (Some (slot, pid), c')
      \<and> \<not> in_use c slot \<and> pid \<noteq> 0 \<and> inflight_wf c'
      \<and> (\<forall>i. in_use c' i \<longleftrightarrow> in_use c i \<or> i = slot)
      \<and> (\<forall>i. pkt_id c' i = (if i = slot then pid else pkt_id c i))
      \<and> client_inflight_find_direct c' pid = Some slot \<and> client_inflight_find c' pid = Some slot
      \<and> ih_msg_idx (c_inflight_hot c' ! slot) = msg_idx
    else client_inflight_alloc c qos msg_idx deadline = (None, c)
      \<and> (\<forall>i<c_max_inflight c. in_use c i)"
proof (cases "c_inflight_count c < c_max_inflight c")
  case False
  have "client_inflight_alloc c qos msg_idx deadline = (None, c)"
    using False by (simp add: client_inflight_alloc_def)
  moreover have "\<forall>i<c_max_inflight c. in_use c i" using inflight_count_full [OF assms] False by blast
  ultimately show ?thesis using False by simp
next
  case True
  note sh = inflight_wfD(1) [OF assms] note shd = table_shapeD [OF sh]
  obtain i where "i < c_max_inflight c" "\<not> in_use c i"
    using True inflight_count_full [OF assms] by blast
  define slot where "slot = inflight_search c (c_max_inflight c) (c_inflight_free_hint c)"
  have slot: "slot < c_max_inflight c" "ih_state (c_inflight_hot c ! slot) = INFLIGHT_FREE"
    using inflight_search_free [OF sh \<open>i < _\<close> \<open>\<not> in_use c i\<close>] by (simp_all add: slot_def)
  then have nu: "\<not> in_use c slot" by (simp add: in_use_def)
  define pid where "pid = alloc_packet_id c slot"
  have pid: "pid \<noteq> 0" "direct_slot c pid = slot"
    using alloc_packet_id_direct [OF sh slot(1)] by (simp_all add: pid_def)
  define hot where "hot = \<lparr>ih_packet_id = pid, ih_state = (if qos = 1 then INFLIGHT_WAIT_PUBACK
      else INFLIGHT_WAIT_PUBREC), ih_direction = 0, ih_msg_idx = msg_idx\<rparr>"
  have hot: "ih_state hot \<noteq> INFLIGHT_FREE" "ih_direction hot = 0" "ih_packet_id hot = pid" "ih_msg_idx hot = msg_idx"
    by (simp_all add: hot_def)
  define c1 where "c1 = fill_inflight c slot hot qos deadline"
  define c2 where "c2 = (if slot = 0 then c1\<lparr>c_inflight_generation := c_inflight_generation c1 + 1\<rparr> else c1)"
  have alloc: "client_inflight_alloc c qos msg_idx deadline = (Some (slot, pid), c2)"
    using True slot(2) unfolding c2_def c1_def hot_def pid_def
    by (simp add: client_inflight_alloc_def Let_def slot_def [symmetric])
  note f = fill_inflight_facts [OF assms slot(1) nu hot(1), where qos = qos and dl = deadline, folded c1_def]
  have "inflight_view c2 = inflight_view c1" by (simp add: c2_def inflight_view_def)
  note v = inflight_view_cong [OF this]
  have wf1: "inflight_wf c1"
    unfolding c1_def by (rule fill_outgoing_wf [OF assms slot(1) nu hot(1,2)]) (use pid hot(3) in simp_all)
  have use: "in_use c2 i \<longleftrightarrow> in_use c i \<or> i = slot" and pk: "pkt_id c2 i = (if i = slot then pid else pkt_id c i)" for i
    using f(2,5) [of i] hot(3) unfolding v by simp_all
  have "slot \<notin> incoming_slots c2" using f(4) hot(2) nu incoming_in_use unfolding v by auto
  moreover have u2: "in_use c2 slot" using use [of slot] by blast
  moreover have p2: "pkt_id c2 slot = pid" using pk [of slot] by (simp only: if_True simp_thms)
  ultimately have find: "client_inflight_find c2 pid = Some slot"
    using client_inflight_find_outgoing [of c2 slot] wf1 unfolding v(4) by blast
  have "direct_slot c2 pid = slot"
    using pid(2) by (simp add: direct_slot_def c2_def c1_def fill_inflight_fields)
  then have direct: "client_inflight_find_direct c2 pid = Some slot"
    using u2 p2 pid(1) by (simp add: client_inflight_find_direct_def in_use_def pkt_id_def)
  have "ih_msg_idx (c_inflight_hot c2 ! slot) = msg_idx"
    using slot(1) shd(6) hot(4) by (simp add: c2_def c1_def fill_inflight_fields)
  moreover have "inflight_wf c2" using wf1 unfolding v(4) .
  ultimately show ?thesis
    unfolding if_P [OF True]
    by (intro exI [of _ slot] exI [of _ pid] exI [of _ c2] conjI allI alloc nu pid(1) use pk find direct)
qed

text \<open>C24: allocation of an outgoing entry.  It fails exactly when all \<open>max_inflight\<close> entries are in use and
  then changes nothing.  Otherwise it takes a free slot, gives it a packet identifier that is not 0
  and from which the slot is computed directly (also after the 16-bit identifier has wrapped), leaves
  the other entries alone, and the table stays well-formed.\<close>

theorem inflight_alloc_correct:
  assumes "inflight_wf c"
  shows "if c_inflight_count c < c_max_inflight c
    then \<exists>slot pid c'. client_inflight_alloc c qos msg_idx deadline = (Some (slot, pid), c')
      \<and> \<not> in_use c slot \<and> pid \<noteq> 0 \<and> inflight_wf c'
      \<and> (\<forall>i. in_use c' i \<longleftrightarrow> in_use c i \<or> i = slot)
      \<and> (\<forall>i. pkt_id c' i = (if i = slot then pid else pkt_id c i))
      \<and> client_inflight_find_direct c' pid = Some slot \<and> client_inflight_find c' pid = Some slot
      \<and> ih_msg_idx (c_inflight_hot c' ! slot) = msg_idx
    else client_inflight_alloc c qos msg_idx deadline = (None, c)
      \<and> (\<forall>i<c_max_inflight c. in_use c i)"
  using assms by (rule inflight_alloc_ok)

lemma inflight_track_ok:
  assumes "inflight_wf c" "pid \<noteq> 0"
  shows "if c_inflight_count c \<ge> c_max_inflight c
    then client_inflight_track_incoming c pid deadline = (None, c)
    else if (\<exists>s\<in>incoming_slots c. pkt_id c s = pid)
    then (\<exists>s\<in>incoming_slots c. pkt_id c s = pid \<and> client_inflight_track_incoming c pid deadline = (Some s, c))
    else \<exists>slot c'. client_inflight_track_incoming c pid deadline = (Some slot, c')
      \<and> \<not> in_use c slot \<and> inflight_wf c'
      \<and> (\<forall>i. in_use c' i \<longleftrightarrow> in_use c i \<or> i = slot)
      \<and> (\<forall>i. pkt_id c' i = (if i = slot then pid else pkt_id c i))
      \<and> incoming_slots c' = insert slot (incoming_slots c)
      \<and> client_inflight_find c' pid \<noteq> None"
proof -
  note sh = inflight_wfD(1) [OF assms(1)] note shd = table_shapeD [OF sh]
  have inc: "is_incoming c pid i \<longleftrightarrow> i \<in> incoming_slots c \<and> pkt_id c i = pid" if "i < c_max_inflight c" for i
    using that by (auto simp: is_incoming_def incoming_slots_def in_use_def pkt_id_def)
  note hint = direct_slot_below [OF sh, of pid]
  have below: "s < c_max_inflight c" if "s \<in> incoming_slots c" for s
    using that by (simp add: incoming_slots_def in_use_def)
  consider (full) "c_inflight_count c \<ge> c_max_inflight c"
    | (dup) "c_inflight_count c < c_max_inflight c" "\<exists>s\<in>incoming_slots c. pkt_id c s = pid"
    | (new) "c_inflight_count c < c_max_inflight c" "\<not> (\<exists>s\<in>incoming_slots c. pkt_id c s = pid)"
    by linarith
  then show ?thesis
  proof cases
    case full
    then show ?thesis by (simp add: client_inflight_track_incoming_def)
  next
    case dup
    then have known: "find (is_incoming c pid) [0..<c_max_inflight c] \<noteq> None"
      using inc below by (auto simp: find_None_iff)
    show ?thesis
    proof (cases "is_incoming c pid (direct_slot c pid)")
      case True
      with dup inc [OF hint] show ?thesis by (auto simp: client_inflight_track_incoming_def)
    next
      case False
      from known obtain i where i: "find (is_incoming c pid) [0..<c_max_inflight c] = Some i" by blast
      then have "i < c_max_inflight c \<and> is_incoming c pid i" by (auto simp: find_Some_iff)
      with dup False i inc [of i] show ?thesis by (auto simp: client_inflight_track_incoming_def)
    qed
  next
    case new
    have none: "find (is_incoming c pid) [0..<c_max_inflight c] = None"
      using new inc by (auto simp: find_None_iff)
    have nohint: "\<not> is_incoming c pid (direct_slot c pid)" using new inc [OF hint] by blast
    obtain i where "i < c_max_inflight c" "\<not> in_use c i"
      using new inflight_count_full [OF assms(1)] by blast
    define slot where "slot = inflight_search c (c_max_inflight c) (c_inflight_free_hint c)"
    have slot: "slot < c_max_inflight c" "ih_state (c_inflight_hot c ! slot) = INFLIGHT_FREE"
      using inflight_search_free [OF sh \<open>i < _\<close> \<open>\<not> in_use c i\<close>] by (simp_all add: slot_def)
    then have nu: "\<not> in_use c slot" by (simp add: in_use_def)
    let ?hot = "\<lparr>ih_packet_id = pid, ih_state = INFLIGHT_WAIT_PUBREL, ih_direction = 1,
        ih_msg_idx = MSG_POOL_INVALID\<rparr>"
    let ?c = "inflight_hash_insert (fill_inflight c slot ?hot 2 deadline) pid slot"
    have r: "client_inflight_track_incoming c pid deadline = (Some slot, ?c)"
      using new none nohint slot(2) by (simp add: client_inflight_track_incoming_def Let_def slot_def)
    have t: "inflight_wf ?c \<and> (\<forall>i. in_use ?c i \<longleftrightarrow> in_use c i \<or> i = slot)
        \<and> (\<forall>i. pkt_id ?c i = (if i = slot then pid else pkt_id c i))
        \<and> incoming_slots ?c = insert slot (incoming_slots c)"
      using track_incoming_wf [OF assms(1) slot(1) nu, of ?hot deadline] assms(2) new(2) by auto
    have "client_inflight_find ?c pid \<noteq> None"
      using t by (intro client_inflight_find_None [of ?c slot]) auto
    with new nu r t show ?thesis by auto
  qed
qed

text \<open>Tracking of an incoming QoS 2 message.  With room in the table a known identifier returns its
  entry and changes nothing; a new one is entered once, can be found, and the table stays
  well-formed.\<close>

theorem inflight_track_correct:
  assumes "inflight_wf c" "pid \<noteq> 0"
  shows "if c_inflight_count c \<ge> c_max_inflight c
    then client_inflight_track_incoming c pid deadline = (None, c)
    else if (\<exists>s\<in>incoming_slots c. pkt_id c s = pid)
    then (\<exists>s\<in>incoming_slots c. pkt_id c s = pid \<and> client_inflight_track_incoming c pid deadline = (Some s, c))
    else \<exists>slot c'. client_inflight_track_incoming c pid deadline = (Some slot, c')
      \<and> \<not> in_use c slot \<and> inflight_wf c'
      \<and> (\<forall>i. in_use c' i \<longleftrightarrow> in_use c i \<or> i = slot)
      \<and> (\<forall>i. pkt_id c' i = (if i = slot then pid else pkt_id c i))
      \<and> incoming_slots c' = insert slot (incoming_slots c)
      \<and> client_inflight_find c' pid \<noteq> None"
  using assms by (rule inflight_track_ok)

lemma inflight_free_ok:
  assumes "inflight_wf c" "in_use c slot"
  shows "\<exists>c'. client_inflight_free_slot c slot = Some c' \<and> inflight_wf c'
    \<and> (\<forall>i. in_use c' i \<longleftrightarrow> in_use c i \<and> i \<noteq> slot) \<and> c_inflight_count c' + 1 = c_inflight_count c
    \<and> (\<forall>pid. client_inflight_find c' pid = None \<longleftrightarrow> \<not> (\<exists>s. in_use c s \<and> s \<noteq> slot \<and> pkt_id c s = pid))"
proof -
  obtain c' where c': "client_inflight_free_slot c slot = Some c'" "inflight_wf c'"
      "\<forall>i. in_use c' i \<longleftrightarrow> in_use c i \<and> i \<noteq> slot" "pkt_id c' = pkt_id c"
      "c_inflight_count c' + 1 = c_inflight_count c"
    using client_inflight_free_slot_correct [OF assms] by blast
  have "client_inflight_find c' pid = None \<longleftrightarrow> \<not> (\<exists>s. in_use c s \<and> s \<noteq> slot \<and> pkt_id c s = pid)" for pid
  proof
    assume n: "client_inflight_find c' pid = None"
    show "\<not> (\<exists>s. in_use c s \<and> s \<noteq> slot \<and> pkt_id c s = pid)"
    proof
      assume "\<exists>s. in_use c s \<and> s \<noteq> slot \<and> pkt_id c s = pid"
      then obtain s where "in_use c' s" "pkt_id c' s = pid" using c'(3,4) by auto
      from client_inflight_find_None [OF c'(2) this] n show False by simp
    qed
  next
    assume n: "\<not> (\<exists>s. in_use c s \<and> s \<noteq> slot \<and> pkt_id c s = pid)"
    show "client_inflight_find c' pid = None"
    proof (rule ccontr)
      assume "client_inflight_find c' pid \<noteq> None"
      then obtain s where "client_inflight_find c' pid = Some s" by blast
      from client_inflight_find_Some [OF c'(2) this] c'(3,4) n show False by auto
    qed
  qed
  with c'(1-3,5) show ?thesis by blast
qed

text \<open>C25: freeing an entry.  The backward shift of the packet identifier hash ends, the table stays
  well-formed, exactly that entry is gone, and a later lookup of any identifier still finds an entry
  that has it when there is one.\<close>

theorem inflight_free_correct:
  assumes "inflight_wf c" "in_use c slot"
  shows "\<exists>c'. client_inflight_free_slot c slot = Some c' \<and> inflight_wf c'
    \<and> (\<forall>i. in_use c' i \<longleftrightarrow> in_use c i \<and> i \<noteq> slot) \<and> c_inflight_count c' + 1 = c_inflight_count c
    \<and> (\<forall>pid. client_inflight_find c' pid = None \<longleftrightarrow> \<not> (\<exists>s. in_use c s \<and> s \<noteq> slot \<and> pkt_id c s = pid))"
  using assms by (rule inflight_free_ok)

section \<open>An instance\<close>

definition sample_client :: client_slot where
  "sample_client = client_init (zero_client\<lparr>c_inflight_hot := replicate 4 hot_reset,
     c_inflight_cold := replicate 4 cold_reset, c_inflight_pkt_hash := replicate 8 0\<rparr>) 5 0 4"

lemma sample_client_wf:
  shows "inflight_wf sample_client" "\<not> in_use sample_client i"
    "c_inflight_count sample_client = 0" "c_max_inflight sample_client = 4"
proof -
  show "inflight_wf sample_client"
    unfolding sample_client_def by (rule client_init_wf(1) [where k = 2]) simp_all
  show "\<not> in_use sample_client i"
    unfolding sample_client_def by (rule client_init_wf(2) [where k = 2]) simp_all
qed (simp_all add: sample_client_def client_init_def)

theorem inflight_find_correct_witness:
  "client_inflight_find sample_client 3 = None"
  using inflight_find_correct [OF sample_client_wf(1), of 3] sample_client_wf(2) by blast

theorem inflight_alloc_correct_witness:
  "\<exists>slot pid c'. client_inflight_alloc sample_client 1 9 0 = (Some (slot, pid), c')
      \<and> client_inflight_find_direct c' pid = Some slot \<and> pid \<noteq> 0"
  using inflight_alloc_correct [OF sample_client_wf(1), of 1 9 0]
  by (simp only: sample_client_wf(3,4)) (auto simp del: One_nat_def)

theorem inflight_track_correct_witness:
  "\<exists>slot c'. client_inflight_track_incoming sample_client 7 0 = (Some slot, c')
      \<and> client_inflight_find c' 7 \<noteq> None"
proof -
  have "incoming_slots sample_client = {}" using sample_client_wf(2) by (auto simp: incoming_slots_def)
  with inflight_track_correct [OF sample_client_wf(1), of 7 0] show ?thesis
    by (simp only: sample_client_wf(3,4)) auto
qed

theorem inflight_free_correct_witness:
  "\<exists>c1 c2 slot. client_inflight_track_incoming sample_client 7 0 = (Some slot, c1)
      \<and> client_inflight_free_slot c1 slot = Some c2 \<and> client_inflight_find c2 7 = None"
proof -
  have "incoming_slots sample_client = {}" using sample_client_wf(2) by (auto simp: incoming_slots_def)
  with inflight_track_ok [OF sample_client_wf(1), of 7 0] obtain slot c1 where
    c1: "client_inflight_track_incoming sample_client 7 0 = (Some slot, c1)" "inflight_wf c1"
        "\<forall>i. in_use c1 i \<longleftrightarrow> in_use sample_client i \<or> i = slot"
    by (simp only: sample_client_wf(3,4)) auto
  then have "in_use c1 slot" by blast
  from inflight_free_correct [OF c1(2) this] c1 sample_client_wf(2) show ?thesis by blast
qed

section \<open>Response slots\<close>

lemma and_push_bit_1: "s < 16 \<Longrightarrow> (x :: u16) AND push_bit s 1 = 0 \<longleftrightarrow> \<not> bit x s"
proof
  assume "s < 16" "x AND push_bit s 1 = 0"
  then have "bit (x AND push_bit s 1) s = False" by simp
  with \<open>s < 16\<close> show "\<not> bit x s" by (simp add: bit_simps)
next
  assume "\<not> bit x s"
  then show "x AND push_bit s 1 = 0" by (intro bit_word_eqI) (auto simp: bit_simps)
qed

lemma resp_slot_loop_spec:
  assumes "n \<le> 16"
  shows "(\<exists>k<16. 16 - n \<le> k \<and> \<not> bit (c_resp_in_flight c) ((c_resp_slot c + k) mod 16)
            \<and> resp_slot_loop c n = ((c_resp_slot c + k) mod 16,
                 c\<lparr>c_resp_slot := ((c_resp_slot c + k) mod 16 + 1) mod 16\<rparr>))
       \<or> (\<forall>k<16. 16 - n \<le> k \<longrightarrow> bit (c_resp_in_flight c) ((c_resp_slot c + k) mod 16))
          \<and> resp_slot_loop c n = (16, c)"
  using assms
proof (induction n)
  case 0
  have "resp_slot_loop c 0 = (16, c)" by (simp add: RESP_SLOTS_def)
  then show ?case by (intro disjI2) auto
next
  case (Suc n)
  let ?i = "16 - Suc n"
  have i: "?i < 16" "16 - n = Suc ?i" using Suc.prems by simp_all
  have step: "resp_slot_loop c (Suc n) = (if \<not> bit (c_resp_in_flight c) ((c_resp_slot c + ?i) mod 16)
      then ((c_resp_slot c + ?i) mod 16, c\<lparr>c_resp_slot := ((c_resp_slot c + ?i) mod 16 + 1) mod 16\<rparr>)
      else resp_slot_loop c n)"
    by (simp add: RESP_SLOTS_def Let_def and_push_bit_1 [simplified])
  show ?case
  proof (cases "bit (c_resp_in_flight c) ((c_resp_slot c + ?i) mod 16)")
    case False
    with step i(1) show ?thesis by (intro disjI1 exI [of _ ?i]) simp
  next
    case True
    then have r: "resp_slot_loop c (Suc n) = resp_slot_loop c n" using step by simp
    have le: "16 - Suc n \<le> k \<longleftrightarrow> k = ?i \<or> 16 - n \<le> k" for k using i by linarith
    have "n \<le> 16" using Suc.prems by simp
    from Suc.IH [OF this] show ?thesis
    proof (elim disjE)
      assume "\<exists>k<16. 16 - n \<le> k \<and> \<not> bit (c_resp_in_flight c) ((c_resp_slot c + k) mod 16)
            \<and> resp_slot_loop c n = ((c_resp_slot c + k) mod 16,
                 c\<lparr>c_resp_slot := ((c_resp_slot c + k) mod 16 + 1) mod 16\<rparr>)"
      then show ?thesis unfolding r le by blast
    next
      assume "(\<forall>k<16. 16 - n \<le> k \<longrightarrow> bit (c_resp_in_flight c) ((c_resp_slot c + k) mod 16))
          \<and> resp_slot_loop c n = (16, c)"
      then show ?thesis unfolding r le using True by blast
    qed
  qed
qed

text \<open>Response slots.  A slot is handed out exactly when one of the sixteen is not in flight, it is
  one that is not in flight, marking it busy and completing it again restores the mask, and when all
  are busy the slot state is unchanged.\<close>

theorem resp_slot_correct:
  "\<exists>s c'. client_get_resp_slot c = (s, c') \<and> c_resp_in_flight c' = c_resp_in_flight c
    \<and> (if \<forall>i<16. bit (c_resp_in_flight c) i then s = RESP_SLOTS \<and> c' = c
       else s < RESP_SLOTS \<and> \<not> bit (c_resp_in_flight c) s
         \<and> (\<forall>i<16. bit (c_resp_in_flight (client_resp_slot_mark_inflight c' s)) i
               \<longleftrightarrow> i = s \<or> bit (c_resp_in_flight c) i)
         \<and> c_resp_in_flight (client_resp_slot_complete (client_resp_slot_mark_inflight c' s) s)
             = c_resp_in_flight c)"
proof -
  have cover: "\<exists>k<16. (c_resp_slot c + k) mod 16 = i" if "i < 16" for i
    using probe_reaches [of 16 i "c_resp_slot c"] that by (metis zero_less_numeral)
  have undo: "(x OR push_bit s 1) AND NOT (push_bit s 1) = x" if "\<not> bit x s" for x :: u16 and s
    using that by (intro bit_word_eqI) (auto simp: bit_simps)
  have mark: "bit (x OR push_bit s 1) i \<longleftrightarrow> i = s \<or> bit x i" if "i < 16" for x :: u16 and s i
    using that by (auto simp: bit_simps)
  from resp_slot_loop_spec [of 16 c, OF order_refl] show ?thesis
  proof (elim disjE, goal_cases)
    case 1
    then obtain k where k: "\<not> bit (c_resp_in_flight c) ((c_resp_slot c + k) mod 16)"
      "client_get_resp_slot c = ((c_resp_slot c + k) mod 16,
                 c\<lparr>c_resp_slot := ((c_resp_slot c + k) mod 16 + 1) mod 16\<rparr>)"
      by (auto simp: client_get_resp_slot_def RESP_SLOTS_def)
    then have "\<not> (\<forall>i<16. bit (c_resp_in_flight c) i)"
      using mod_less_divisor [of 16 "c_resp_slot c + k"] by (metis zero_less_numeral)
    then show ?thesis
      using k(1) mark undo [OF k(1)] unfolding k(2) if_not_P [OF \<open>\<not> (\<forall>i<16. bit (c_resp_in_flight c) i)\<close>]
      by (simp add: RESP_SLOTS_def client_resp_slot_mark_inflight_def client_resp_slot_complete_def)
  next
    case 2
    then have "\<forall>i<16. bit (c_resp_in_flight c) i" "client_get_resp_slot c = (16, c)"
      using cover by (auto simp: client_get_resp_slot_def RESP_SLOTS_def)
    then show ?thesis by (simp add: RESP_SLOTS_def)
  qed
qed

theorem resp_slot_correct_witness:
  "\<exists>s c'. client_get_resp_slot sample_client = (s, c') \<and> s < RESP_SLOTS"
proof -
  have "c_resp_in_flight sample_client = 0" by (simp add: sample_client_def client_init_def)
  then have "\<not> (\<forall>i<16. bit (c_resp_in_flight sample_client) i)" by (auto intro: exI [of _ 0])
  with resp_slot_correct [of sample_client] show ?thesis by auto
qed

section \<open>The rings of a client slot\<close>

definition egress_ring_wf :: "client_slot \<Rightarrow> bool" where
  "egress_ring_wf c \<longleftrightarrow> pow2_table (c_egress_capacity c) (c_egress_mask c)
     \<and> length (c_egress c) = c_egress_capacity c \<and> c_egress_capacity c < 65536
     \<and> c_egress_head c < c_egress_capacity c \<and> c_egress_count c \<le> c_egress_capacity c"

definition egress_contents :: "client_slot \<Rightarrow> egress_segment list" where
  "egress_contents c = ring_contents (c_egress c) (c_egress_head c) (c_egress_count c)"

lemma length_egress_contents [simp]: "length (egress_contents c) = c_egress_count c"
  by (simp add: egress_contents_def)

lemma egress_append_contents:
  assumes "egress_ring_wf c" "c_egress_count c < c_egress_capacity c"
  shows "egress_ring_wf (egress_append c f)"
    "egress_contents (egress_append c f) = egress_contents c
       @ [f (c_egress c ! ((c_egress_head c + c_egress_count c) mod c_egress_capacity c))]"
  using assms ring_push_contents [of "c_egress_count c" "c_egress c" "c_egress_head c"]
  by (auto simp: egress_ring_wf_def egress_contents_def egress_append_def egress_push_def pow2_table_mask Let_def)

lemma egress_pop_contents:
  assumes "egress_ring_wf c" "0 < c_egress_count c"
  shows "egress_ring_wf (egress_pop_head c)" "egress_contents (egress_pop_head c) = tl (egress_contents c)"
    "c_egress_count (egress_pop_head c) = c_egress_count c - 1"
proof -
  have "(c_egress_count c + 65535) mod 65536 = c_egress_count c - 1"
  proof -
    have "c_egress_count c + 65535 = 65536 + (c_egress_count c - 1)" using assms(2) by simp
    moreover have "c_egress_count c \<le> c_egress_capacity c" "c_egress_capacity c < 65536"
      using assms(1) by (simp_all add: egress_ring_wf_def)
    then have "c_egress_count c - 1 < 65536" by linarith
    ultimately show ?thesis by (metis mod_add_self1 mod_less)
  qed
  then show "egress_ring_wf (egress_pop_head c)" "egress_contents (egress_pop_head c) = tl (egress_contents c)"
    "c_egress_count (egress_pop_head c) = c_egress_count c - 1"
    using assms ring_pop_contents [of "c_egress_count c" "c_egress c" "c_egress_head c"]
    by (auto simp: egress_ring_wf_def egress_contents_def egress_pop_head_def egress_pop_def pow2_table_mask)
qed

lemma egress_head_contents:
  "egress_ring_wf c \<Longrightarrow> 0 < c_egress_count c \<Longrightarrow> egress_head c = hd (egress_contents c)"
  by (auto simp: egress_ring_wf_def egress_contents_def egress_head_def egress_head_seg_def pow2_table_mask
           ring_front)

interpretation egress_queue: bounded_queue "\<lambda>c seg. egress_append c (\<lambda>_. seg)" egress_pop_head egress_head
    "\<lambda>c. egress_full (c_egress_count c) (c_egress_capacity c)" "\<lambda>c. egress_empty (c_egress_count c)"
    egress_contents c_egress_capacity egress_ring_wf
proof (unfold_locales, goal_cases)
  case (1 q)
  then show ?case by (simp add: egress_full_def)
next
  case (2 q)
  then show ?case by (simp add: egress_empty_def length_0_conv [symmetric] del: length_0_conv)
next
  case (3 q)
  then show ?case by (simp add: egress_ring_wf_def)
next
  case (4 q x)
  then show ?case by (simp add: egress_append_contents egress_full_def)
next
  case (5 q x)
  then show ?case by (simp add: egress_append_contents egress_full_def)
next
  case (6 q x)
  then show ?case by (simp add: egress_append_def Let_def)
next
  case (7 q)
  then show ?case by (simp add: egress_head_contents egress_empty_def)
next
  case (8 q)
  then show ?case by (simp add: egress_pop_contents egress_empty_def)
next
  case (9 q)
  then show ?case by (simp add: egress_pop_contents egress_empty_def)
next
  case (10 q)
  then show ?case by (simp add: egress_pop_head_def egress_pop_def)
qed

definition pending_wf :: "client_slot \<Rightarrow> bool" where
  "pending_wf c \<longleftrightarrow> length (c_pending c) = LLMQ_MAX_PENDING_MSGS \<and> c_pending_head c < LLMQ_MAX_PENDING_MSGS
     \<and> c_pending_count c \<le> LLMQ_MAX_PENDING_MSGS
     \<and> c_pending_tail c = (c_pending_head c + c_pending_count c) mod LLMQ_MAX_PENDING_MSGS"

definition pending_contents :: "client_slot \<Rightarrow> pending_msg list" where
  "pending_contents c = ring_contents (c_pending c) (c_pending_head c) (c_pending_count c)"

text \<open>A push and the store into the cell it returned.\<close>

definition pending_enqueue :: "client_slot \<Rightarrow> pending_msg \<Rightarrow> client_slot" where
  "pending_enqueue c m = (case client_pending_push c of (None, c') \<Rightarrow> c'
     | (Some i, c') \<Rightarrow> c'\<lparr>c_pending := (c_pending c')[i := m]\<rparr>)"

lemma pending_enqueue_contents:
  assumes "pending_wf c" "c_pending_count c < LLMQ_MAX_PENDING_MSGS"
  shows "pending_wf (pending_enqueue c m)" "pending_contents (pending_enqueue c m) = pending_contents c @ [m]"
  using assms ring_push_contents [of "c_pending_count c" "c_pending c" "c_pending_head c" m]
  by (auto simp: pending_wf_def pending_contents_def pending_enqueue_def client_pending_push_def mod_simps)

lemma pending_pop_contents:
  assumes "pending_wf c" "0 < c_pending_count c"
  shows "pending_wf (client_pending_pop c)" "pending_contents (client_pending_pop c) = tl (pending_contents c)"
proof -
  have "(Suc (c_pending_head c) mod 32 + (c_pending_count c - Suc 0)) mod 32
      = (c_pending_head c + c_pending_count c) mod 32"
    using assms(2) by (cases "c_pending_count c") (simp_all add: mod_simps)
  then show "pending_wf (client_pending_pop c)"
      "pending_contents (client_pending_pop c) = tl (pending_contents c)"
    using assms ring_pop_contents [of "c_pending_count c" "c_pending c" "c_pending_head c"]
    by (auto simp: pending_wf_def pending_contents_def client_pending_pop_def mod_simps LLMQ_MAX_PENDING_MSGS_def)
qed

interpretation pending_queue: bounded_queue pending_enqueue client_pending_pop "\<lambda>c. the (client_pending_peek c)"
    "\<lambda>c. fst (client_pending_push c) = None" "\<lambda>c. \<not> client_has_pending c"
    pending_contents "\<lambda>c. LLMQ_MAX_PENDING_MSGS" pending_wf
proof (unfold_locales, goal_cases)
  case (1 q)
  then show ?case by (simp add: client_pending_push_def pending_contents_def)
next
  case (2 q)
  then show ?case by (simp add: client_has_pending_def pending_contents_def length_0_conv [symmetric] del: length_0_conv)
next
  case (3 q)
  then show ?case by (simp add: pending_wf_def pending_contents_def)
next
  case (4 q x)
  then show ?case by (intro pending_enqueue_contents) (auto simp: client_pending_push_def split: if_splits)
next
  case (5 q x)
  then show ?case by (intro pending_enqueue_contents) (auto simp: client_pending_push_def split: if_splits)
next
  case (7 q)
  then show ?case
    by (simp add: client_has_pending_def client_pending_peek_def pending_wf_def pending_contents_def ring_front)
next
  case (8 q)
  then show ?case by (simp add: pending_pop_contents client_has_pending_def)
next
  case (9 q)
  then show ?case by (simp add: pending_pop_contents client_has_pending_def)
qed simp_all

section \<open>Client identity\<close>

text \<open>Two client identifiers of at most 64 bytes identify the same slot exactly when they are equal:
  after \<open>client_set_identity\<close> a lookup with the hash of its own identifier matches an equal
  identifier and no other, hash collisions included.\<close>

theorem client_identity_correct:
  assumes "length cid \<le> CLIENT_ID_MAX" "length cid' \<le> CLIENT_ID_MAX" "c_state c \<noteq> CLIENT_FREE"
  shows "client_matches (client_set_identity c cid (length cid)) cid' (length cid') (fnv1a cid') \<longleftrightarrow> cid' = cid"
proof -
  have "(\<forall>i<length cid'. (cid @ drop (length cid) (c_client_id c)) ! i = cid' ! i) \<longleftrightarrow> cid' = cid"
    if "length cid = length cid'"
    using that by (auto simp: nth_append list_eq_iff_nth_eq)
  with assms show ?thesis
    by (auto simp: client_matches_def client_set_identity_def Let_def list_all_iff)
qed

theorem client_identity_correct_witness:
  "client_matches (client_set_identity sample_client [97, 98] 2) [97, 98] 2 (fnv1a [97, 98])
   \<and> \<not> client_matches (client_set_identity sample_client [97, 98] 2) [97, 99] 2 (fnv1a [97, 99])"
proof -
  have "c_state sample_client \<noteq> CLIENT_FREE" by (simp add: sample_client_def client_init_def)
  then have "client_matches (client_set_identity sample_client [97, 98] 2) cid 2 (fnv1a cid) \<longleftrightarrow> cid = [97, 98]"
    if "length cid = 2" for cid
    using client_identity_correct [of "[97, 98]" cid sample_client] that
    by (simp add: CLIENT_ID_MAX_def numeral_2_eq_2)
  from this [of "[97, 98]"] this [of "[97, 99]"] show ?thesis by simp
qed

end
