(* ===== verification/Hashmap.thy ===== *)
theory Hashmap
  imports Probing Pool "HOL-Library.Multiset"
begin

text \<open>
  The open-addressing hash table of \<^verbatim>\<open>src/src/mem/hashmap.h\<close>.  Entries are (hash, value) pairs; the
  table does not see the keys, several entries may have the same hash and a caller compares the full
  key of the entry it gets.  Its contract is the locale \<open>hash_index\<close>: the content is the multiset of
  the pairs inserted and not removed.
\<close>

section \<open>The contract\<close>

locale hash_index =
  fixes insert_op :: "'t \<Rightarrow> 'k \<Rightarrow> 'v \<Rightarrow> 't"
    and find_op :: "'t \<Rightarrow> 'k \<Rightarrow> 'v option"
    and remove_op :: "'t \<Rightarrow> 'k \<Rightarrow> 'v \<Rightarrow> 't"
    and invar :: "'t \<Rightarrow> bool"
    and room :: "'t \<Rightarrow> bool"
    and valid :: "'v \<Rightarrow> bool"
    and content :: "'t \<Rightarrow> ('k \<times> 'v) multiset"
  assumes find_None: "invar t \<Longrightarrow> find_op t k = None \<longleftrightarrow> (\<forall>v. (k, v) \<notin># content t)"
    and find_Some: "invar t \<Longrightarrow> find_op t k = Some v \<Longrightarrow> (k, v) \<in># content t"
    and insert_invar: "invar t \<Longrightarrow> room t \<Longrightarrow> valid v \<Longrightarrow> invar (insert_op t k v)"
    and insert_content: "invar t \<Longrightarrow> room t \<Longrightarrow> valid v \<Longrightarrow>
          content (insert_op t k v) = add_mset (k, v) (content t)"
    and remove_invar: "invar t \<Longrightarrow> valid v \<Longrightarrow> invar (remove_op t k v)"
    and remove_content: "invar t \<Longrightarrow> valid v \<Longrightarrow> content (remove_op t k v) = content t - {#(k, v)#}"
begin

lemma find_after_insert: "invar t \<Longrightarrow> room t \<Longrightarrow> valid v \<Longrightarrow> find_op (insert_op t k v) k \<noteq> None"
  by (auto simp: find_None insert_invar insert_content)

lemma find_insert_fresh:
  assumes "invar t" "room t" "valid v" "find_op t k = None"
  shows "find_op (insert_op t k v) k = Some v"
proof -
  obtain w where w: "find_op (insert_op t k v) k = Some w"
    using find_after_insert [OF assms(1-3)] by blast
  have "(k, w) \<in># add_mset (k, v) (content t)"
    using find_Some [OF insert_invar [OF assms(1-3)] w] insert_content [OF assms(1-3)] by simp
  with assms(1,4) w show ?thesis by (auto simp: find_None)
qed

lemma find_insert_other_None:
  "invar t \<Longrightarrow> room t \<Longrightarrow> valid v \<Longrightarrow> k' \<noteq> k \<Longrightarrow>
     find_op (insert_op t k v) k' = None \<longleftrightarrow> find_op t k' = None"
  by (simp add: find_None insert_invar insert_content)

lemma find_remove_only:
  assumes "invar t" "valid v" "\<And>w. count (content t) (k, w) \<le> (if w = v then 1 else 0)"
  shows "find_op (remove_op t k v) k = None"
proof -
  have "(k, w) \<notin># content t - {#(k, v)#}" for w
    using assms(3) [of w] by (cases "w = v") (auto simp: in_diff_count not_in_iff)
  with assms(1,2) show ?thesis by (simp add: find_None remove_invar remove_content)
qed

lemma find_remove_other_None:
  assumes "invar t" "valid v" "k' \<noteq> k"
  shows "find_op (remove_op t k v) k' = None \<longleftrightarrow> find_op t k' = None"
proof -
  have "(k', w) \<in># content t - {#(k, v)#} \<longleftrightarrow> (k', w) \<in># content t" for w
    using assms(3) by (auto simp: in_diff_count)
  with assms show ?thesis by (simp add: find_None remove_invar remove_content)
qed

lemma remove_insert_content:
  "invar t \<Longrightarrow> room t \<Longrightarrow> valid v \<Longrightarrow> content (remove_op (insert_op t k v) k v) = content t"
  by (simp add: remove_content insert_invar insert_content)

end

section \<open>The table\<close>

record hashmap_entry =
  he_hash :: u32
  he_value :: u32

record hashmap =
  hm_entries :: "hashmap_entry list"
  hm_map :: "region option"
  hm_capacity :: nat
  hm_count :: nat
  hm_mask :: nat

definition HASHMAP_EMPTY :: u32 where
  "HASHMAP_EMPTY = - 1"

definition HASHMAP_DELETED :: u32 where
  "HASHMAP_DELETED = - 2"

definition HASHMAP_MIN_CAPACITY :: nat where
  "HASHMAP_MIN_CAPACITY = 16"

text \<open>
  \<open>while (capacity < min_capacity) capacity *= 2\<close> on a u32 that wraps: 28 doublings of 16 reach
  0, where the loop stays for ever (\<open>None\<close>).
\<close>

fun hashmap_round_up :: "nat \<Rightarrow> u32 \<Rightarrow> u32 \<Rightarrow> u32 option" where
  "hashmap_round_up 0 capacity min_capacity = None"
| "hashmap_round_up (Suc fuel) capacity min_capacity =
     (if capacity < min_capacity then hashmap_round_up fuel (capacity * 2) min_capacity
      else Some capacity)"

text \<open>The outer option is the return of the call, the inner one its success.\<close>

definition hashmap_init :: "(nat \<Rightarrow> bool) \<Rightarrow> u32 \<Rightarrow> vm \<Rightarrow> (hashmap option \<times> vm) option" where
  "hashmap_init ok min_capacity v =
     (case hashmap_round_up 30 (of_nat HASHMAP_MIN_CAPACITY) min_capacity of
        None \<Rightarrow> None
      | Some c \<Rightarrow>
          let capacity = unat c
          in case sys_mmap ok (capacity * 8) v of
               (None, v1) \<Rightarrow> Some (None, v1)
             | (Some r, v1) \<Rightarrow>
                 Some (Some \<lparr>hm_entries = replicate capacity \<lparr>he_hash = 0, he_value = HASHMAP_EMPTY\<rparr>,
                             hm_map = Some r, hm_capacity = capacity, hm_count = 0,
                             hm_mask = capacity - 1\<rparr>, v1))"

definition hashmap_cleanup :: "hashmap \<Rightarrow> vm \<Rightarrow> hashmap \<times> vm" where
  "hashmap_cleanup h v =
     (case hm_map h of None \<Rightarrow> (h, v)
      | Some r \<Rightarrow> (h\<lparr>hm_map := None\<rparr>, sys_munmap r (hm_capacity h * 8) v))"

definition insert_stop :: "hashmap_entry list \<Rightarrow> nat \<Rightarrow> nat option" where
  "insert_stop es idx =
     (if he_value (es ! idx) \<noteq> HASHMAP_EMPTY \<and> he_value (es ! idx) \<noteq> HASHMAP_DELETED then None
      else Some idx)"

text \<open>The load at which \<open>hashmap_insert\<close> refuses: three quarters of the capacity, in u32, so that the product wraps at
  a capacity of \<open>2 ^ 31\<close>.\<close>

definition load_limit :: "hashmap \<Rightarrow> nat" where
  "load_limit h = unat (of_nat (hm_capacity h) * 3 div 4 :: u32)"

text \<open>
  The probe of \<open>hashmap_insert\<close> has no bound; one that went over the whole table would go on for
  ever, and \<open>None\<close> stands for that.
\<close>

definition hashmap_insert :: "hashmap \<Rightarrow> u32 \<Rightarrow> u32 \<Rightarrow> (bool \<times> hashmap) option" where
  "hashmap_insert h hash val =
     (if hm_count h \<ge> load_limit h then Some (False, h)
      else
        case probe_for (insert_stop (hm_entries h)) (hm_mask h) (hm_capacity h)
               (unat hash AND hm_mask h) of
          None \<Rightarrow> None
        | Some idx \<Rightarrow>
            Some (True, h\<lparr>hm_entries := (hm_entries h)[idx := \<lparr>he_hash = hash, he_value = val\<rparr>],
                          hm_count := hm_count h + 1\<rparr>))"

definition find_stop :: "hashmap_entry list \<Rightarrow> u32 \<Rightarrow> nat \<Rightarrow> u32 option" where
  "find_stop es hash idx =
     (if he_value (es ! idx) = HASHMAP_EMPTY then Some HASHMAP_EMPTY
      else if he_value (es ! idx) \<noteq> HASHMAP_DELETED \<and> he_hash (es ! idx) = hash
      then Some (he_value (es ! idx)) else None)"

definition hashmap_find :: "hashmap \<Rightarrow> u32 \<Rightarrow> u32 option" where
  "hashmap_find h hash =
     (let start = unat hash AND hm_mask h
      in case probe_do (find_stop (hm_entries h) hash) (hm_mask h) start (hm_capacity h) start of
           None \<Rightarrow> None
         | Some None \<Rightarrow> Some HASHMAP_EMPTY
         | Some (Some v) \<Rightarrow> Some v)"

text \<open>\<open>hashmap_remove\<close> and \<open>hashmap_update\<close> search alike; \<open>Some None\<close> is an EMPTY cell.\<close>

definition pair_stop :: "hashmap_entry list \<Rightarrow> u32 \<Rightarrow> u32 \<Rightarrow> nat \<Rightarrow> nat option option" where
  "pair_stop es hash val idx =
     (if he_value (es ! idx) = HASHMAP_EMPTY then Some None
      else if he_hash (es ! idx) = hash \<and> he_value (es ! idx) = val then Some (Some idx)
      else None)"

definition hashmap_remove :: "hashmap \<Rightarrow> u32 \<Rightarrow> u32 \<Rightarrow> (bool \<times> hashmap) option" where
  "hashmap_remove h hash val =
     (let start = unat hash AND hm_mask h
      in case probe_do (pair_stop (hm_entries h) hash val) (hm_mask h) start (hm_capacity h) start of
           None \<Rightarrow> None
         | Some (Some (Some idx)) \<Rightarrow>
             Some (True, h\<lparr>hm_entries := (hm_entries h)
                               [idx := (hm_entries h ! idx)\<lparr>he_value := HASHMAP_DELETED\<rparr>],
                           hm_count := hm_count h - 1\<rparr>)
         | Some _ \<Rightarrow> Some (False, h))"

definition hashmap_update :: "hashmap \<Rightarrow> u32 \<Rightarrow> u32 \<Rightarrow> u32 \<Rightarrow> (bool \<times> hashmap) option" where
  "hashmap_update h hash old_value new_value =
     (let start = unat hash AND hm_mask h
      in case probe_do (pair_stop (hm_entries h) hash old_value) (hm_mask h) start (hm_capacity h) start of
           None \<Rightarrow> None
         | Some (Some (Some idx)) \<Rightarrow>
             Some (True, h\<lparr>hm_entries := (hm_entries h)
                               [idx := (hm_entries h ! idx)\<lparr>he_value := new_value\<rparr>]\<rparr>)
         | Some _ \<Rightarrow> Some (False, h))"

section \<open>Invariant and content\<close>

definition he_live :: "hashmap_entry \<Rightarrow> bool" where
  "he_live e \<longleftrightarrow> he_value e \<noteq> HASHMAP_EMPTY \<and> he_value e \<noteq> HASHMAP_DELETED"

definition value_ok :: "u32 \<Rightarrow> bool" where
  "value_ok v \<longleftrightarrow> v \<noteq> HASHMAP_EMPTY \<and> v \<noteq> HASHMAP_DELETED"

definition hashmap_content :: "hashmap \<Rightarrow> (u32 \<times> u32) multiset" where
  "hashmap_content h =
     image_mset (\<lambda>e. (he_hash e, he_value e)) (filter_mset he_live (mset (hm_entries h)))"

definition hm_solid :: "hashmap_entry list \<Rightarrow> nat \<Rightarrow> bool" where
  "hm_solid es i \<longleftrightarrow> he_value (es ! i) \<noteq> HASHMAP_EMPTY"

definition hashmap_wf :: "hashmap \<Rightarrow> bool" where
  "hashmap_wf h \<longleftrightarrow> pow2_table (hm_capacity h) (hm_mask h)
     \<and> length (hm_entries h) = hm_capacity h
     \<and> hm_count h = size (hashmap_content h)
     \<and> (\<forall>j<hm_capacity h. he_live (hm_entries h ! j) \<longrightarrow>
          probe_path (hm_capacity h) (hm_solid (hm_entries h)) (unat (he_hash (hm_entries h ! j))) j)"

definition hashmap_room :: "hashmap \<Rightarrow> bool" where
  "hashmap_room h \<longleftrightarrow> hm_count h < load_limit h"

lemma load_limit_le: "load_limit h \<le> hm_capacity h * 3 div 4"
proof -
  have "unat (of_nat (hm_capacity h) * 3 :: u32) = hm_capacity h * 3 mod 2 ^ 32"
    by (simp add: unat_word_ariths unat_of_nat mod_mult_left_eq)
  then show ?thesis by (simp add: load_limit_def unat_div div_le_mono)
qed

text \<open>Without a wrap it is three quarters; with the largest capacity a table can have it is one quarter.\<close>

lemma load_limit_exact: "hm_capacity h \<le> 2 ^ 30 \<Longrightarrow> load_limit h = hm_capacity h * 3 div 4"
  by (simp add: load_limit_def unat_div unat_word_ariths unat_of_nat)

lemma load_limit_wraps: "hm_capacity h = 2 ^ 31 \<Longrightarrow> load_limit h = 2 ^ 29"
  by (simp add: load_limit_def)


lemma find_stop_eq:
  "find_stop es hash i \<noteq> None \<longleftrightarrow>
     he_value (es ! i) = HASHMAP_EMPTY \<or> he_live (es ! i) \<and> he_hash (es ! i) = hash"
  "find_stop es hash i = Some v \<longleftrightarrow>
     he_value (es ! i) = v \<and> (v = HASHMAP_EMPTY \<or> he_live (es ! i) \<and> he_hash (es ! i) = hash)"
  by (auto simp: find_stop_def he_live_def)

lemma pair_stop_eq:
  "pair_stop es hash val i \<noteq> None \<longleftrightarrow>
     he_value (es ! i) = HASHMAP_EMPTY \<or> he_hash (es ! i) = hash \<and> he_value (es ! i) = val"
  "pair_stop es hash val i = Some (Some k) \<longleftrightarrow> he_value (es ! i) \<noteq> HASHMAP_EMPTY \<and> k = i
     \<and> he_hash (es ! i) = hash \<and> he_value (es ! i) = val"
  by (auto simp: pair_stop_def)

lemma insert_stop_eq: "insert_stop es i = Some k \<longleftrightarrow> k = i \<and> \<not> he_live (es ! i)"
  by (auto simp: insert_stop_def he_live_def)

lemma in_hashmap_content:
  assumes "hashmap_wf h"
  shows "(k, v) \<in># hashmap_content h \<longleftrightarrow> (\<exists>j<hm_capacity h. he_live (hm_entries h ! j)
           \<and> he_hash (hm_entries h ! j) = k \<and> he_value (hm_entries h ! j) = v)"
  using assms by (auto simp: hashmap_content_def hashmap_wf_def in_set_conv_nth image_iff)

lemma hashmap_wf_mask: "hashmap_wf h \<Longrightarrow> x AND hm_mask h = x mod hm_capacity h"
  by (simp add: hashmap_wf_def pow2_table_mask)

lemma hashmap_do_full:
  "hashmap_wf h \<Longrightarrow> probe_do body (hm_mask h) (x mod hm_capacity h) (hm_capacity h) (x mod hm_capacity h)
     = Some (probe_for body (hm_mask h) (hm_capacity h) (x mod hm_capacity h))"
  by (rule probe_do_full) (auto simp: hashmap_wf_def dest: pow2_table_pos)

text \<open>The search loops end, and what they return.\<close>

lemma hashmap_find_eq:
  assumes "hashmap_wf h"
  obtains v where "hashmap_find h hash = Some v"
    "v \<noteq> HASHMAP_EMPTY \<Longrightarrow> (hash, v) \<in># hashmap_content h"
    "v = HASHMAP_EMPTY \<Longrightarrow> \<forall>w. (hash, w) \<notin># hashmap_content h"
proof -
  let ?n = "hm_capacity h" and ?es = "hm_entries h"
  let ?r = "probe_for (find_stop ?es hash) (hm_mask h) ?n (unat hash mod ?n)"
  have p2: "pow2_table ?n (hm_mask h)" using assms by (simp add: hashmap_wf_def)
  have f: "hashmap_find h hash = Some (case ?r of None \<Rightarrow> HASHMAP_EMPTY | Some v \<Rightarrow> v)"
    by (simp add: hashmap_find_def hashmap_wf_mask [OF assms] hashmap_do_full [OF assms] Let_def
             split: option.splits)
  have hit: "?r = Some v \<and> v \<noteq> HASHMAP_EMPTY" if "(hash, w) \<in># hashmap_content h"
      "v = (case ?r of None \<Rightarrow> HASHMAP_EMPTY | Some v \<Rightarrow> v)" for v w
  proof -
    from that(1) obtain j where j: "j < ?n" "he_live (?es ! j)" "he_hash (?es ! j) = hash"
      by (auto simp: in_hashmap_content [OF assms])
    then have "probe_path ?n (hm_solid ?es) (unat hash) j" using assms by (auto simp: hashmap_wf_def)
    moreover have "find_stop ?es hash j \<noteq> None" using j by (simp add: find_stop_eq)
    ultimately obtain i where i: "?r = find_stop ?es hash i" "find_stop ?es hash i \<noteq> None"
        "i = j \<or> hm_solid ?es i"
      using probe_for_hit [OF p2] by metis
    moreover have "he_value (?es ! i) \<noteq> HASHMAP_EMPTY"
      using i(3) j(2) by (auto simp: hm_solid_def he_live_def)
    moreover obtain u where "find_stop ?es hash i = Some u" using i(2) by blast
    ultimately show ?thesis using that(2) by (auto simp: find_stop_eq(2))
  qed
  show ?thesis
  proof (rule that [OF f])
    assume "(case ?r of None \<Rightarrow> HASHMAP_EMPTY | Some v \<Rightarrow> v) \<noteq> HASHMAP_EMPTY"
    then obtain v where v: "?r = Some v" "v \<noteq> HASHMAP_EMPTY" by (auto split: option.splits)
    then have "(hash, v) \<in># hashmap_content h"
      unfolding probe_for_Some_path [OF p2] by (auto simp: in_hashmap_content [OF assms] find_stop_eq(2))
    with v show "(hash, case ?r of None \<Rightarrow> HASHMAP_EMPTY | Some v \<Rightarrow> v) \<in># hashmap_content h" by simp
  next
    assume "(case ?r of None \<Rightarrow> HASHMAP_EMPTY | Some v \<Rightarrow> v) = HASHMAP_EMPTY"
    then show "\<forall>w. (hash, w) \<notin># hashmap_content h" using hit by blast
  qed
qed


text \<open>The common search of \<open>hashmap_remove\<close> and \<open>hashmap_update\<close>.\<close>

definition pair_search :: "hashmap \<Rightarrow> u32 \<Rightarrow> u32 \<Rightarrow> nat option option option" where
  "pair_search h hash val =
     (let start = unat hash AND hm_mask h
      in probe_do (pair_stop (hm_entries h) hash val) (hm_mask h) start (hm_capacity h) start)"

lemma pair_search_cases:
  assumes "hashmap_wf h" "value_ok val"
  obtains (Hit) idx where "pair_search h hash val = Some (Some (Some idx))" "idx < hm_capacity h"
      "hm_entries h ! idx = \<lparr>he_hash = hash, he_value = val\<rparr>" "(hash, val) \<in># hashmap_content h"
  | (Miss) "pair_search h hash val = Some None \<or> pair_search h hash val = Some (Some None)"
      "(hash, val) \<notin># hashmap_content h"
proof -
  let ?n = "hm_capacity h" and ?es = "hm_entries h"
  let ?r = "probe_for (pair_stop ?es hash val) (hm_mask h) ?n (unat hash mod ?n)"
  have p2: "pow2_table ?n (hm_mask h)" using assms by (simp add: hashmap_wf_def)
  have f: "pair_search h hash val = Some ?r"
    by (simp add: pair_search_def hashmap_wf_mask [OF assms(1)] hashmap_do_full [OF assms(1)] Let_def)
  show ?thesis
  proof (cases "(hash, val) \<in># hashmap_content h")
    case True
    obtain j where j: "j < ?n" "he_live (?es ! j)" "he_hash (?es ! j) = hash" "he_value (?es ! j) = val"
      using True
      by (auto simp: in_hashmap_content [OF assms(1)])
    then have "probe_path ?n (hm_solid ?es) (unat hash) j" using assms by (auto simp: hashmap_wf_def)
    moreover have "pair_stop ?es hash val j \<noteq> None" using j by (simp add: pair_stop_def)
    ultimately obtain i where i: "i < ?n" "?r = pair_stop ?es hash val i"
        "pair_stop ?es hash val i \<noteq> None" "i = j \<or> hm_solid ?es i"
      using probe_for_hit [OF p2] by metis
    have ne: "he_value (?es ! i) \<noteq> HASHMAP_EMPTY"
      using i(4) j(2) by (auto simp: hm_solid_def he_live_def)
    then have "he_hash (?es ! i) = hash" "he_value (?es ! i) = val"
      using i(3) [unfolded pair_stop_eq(1)] by auto
    moreover from this ne have "pair_stop ?es hash val i = Some (Some i)" by (simp add: pair_stop_eq)
    ultimately show ?thesis using Hit [of i] f i True by simp
  next
    case False
    have "?r \<noteq> Some (Some k)" for k
    proof
      assume "?r = Some (Some k)"
      then obtain j where "j < ?n" "pair_stop ?es hash val j = Some (Some k)"
        by (auto simp: probe_for_Some_path [OF p2])
      with False assms(2) show False
        by (auto simp: pair_stop_eq in_hashmap_content [OF assms(1)] he_live_def value_ok_def)
    qed
    then show ?thesis using Miss f False by (cases ?r) (auto simp: not_None_eq)
  qed
qed

lemma hashmap_remove_search:
  "hashmap_remove h hash val =
     (case pair_search h hash val of None \<Rightarrow> None
      | Some (Some (Some idx)) \<Rightarrow>
          Some (True, h\<lparr>hm_entries := (hm_entries h)
                            [idx := (hm_entries h ! idx)\<lparr>he_value := HASHMAP_DELETED\<rparr>],
                        hm_count := hm_count h - 1\<rparr>)
      | Some _ \<Rightarrow> Some (False, h))"
  by (simp add: hashmap_remove_def pair_search_def Let_def)

lemma hashmap_update_search:
  "hashmap_update h hash old_value new_value =
     (case pair_search h hash old_value of None \<Rightarrow> None
      | Some (Some (Some idx)) \<Rightarrow>
          Some (True, h\<lparr>hm_entries := (hm_entries h)
                            [idx := (hm_entries h ! idx)\<lparr>he_value := new_value\<rparr>]\<rparr>)
      | Some _ \<Rightarrow> Some (False, h))"
  by (simp add: hashmap_update_def pair_search_def Let_def)

text \<open>What writing one cell does to the content and the invariant.\<close>

lemma filter_mset_update:
  assumes "i < length es"
  shows "filter_mset P (mset (es[i := e])) + (if P (es ! i) then {#es ! i#} else {#})
           = filter_mset P (mset es) + (if P e then {#e#} else {#})"
proof -
  have "es ! i \<in># mset es" using assms by simp
  then have "mset (es[i := e]) + {#es ! i#} = mset es + {#e#}"
    using assms by (simp add: mset_update)
  then have "filter_mset P (mset (es[i := e]) + {#es ! i#}) = filter_mset P (mset es + {#e#})" by simp
  then show ?thesis by (simp split: if_splits)
qed

lemma hashmap_set_content:
  assumes "idx < length (hm_entries h)" "hm_entries h' = (hm_entries h)[idx := e]"
  shows "hashmap_content h' + (if he_live (hm_entries h ! idx)
             then {#(he_hash (hm_entries h ! idx), he_value (hm_entries h ! idx))#} else {#})
           = hashmap_content h + (if he_live e then {#(he_hash e, he_value e)#} else {#})"
  using arg_cong [OF filter_mset_update [OF assms(1), of he_live e],
      of "image_mset (\<lambda>e. (he_hash e, he_value e))"]
  by (simp add: hashmap_content_def assms(2) split: if_splits)

lemma hashmap_set_paths:
  assumes "hashmap_wf h" "idx < hm_capacity h" "he_value e \<noteq> HASHMAP_EMPTY"
    and "he_live e \<Longrightarrow> probe_path (hm_capacity h) (hm_solid (hm_entries h)) (unat (he_hash e)) idx"
    and "j < hm_capacity h" "he_live ((hm_entries h)[idx := e] ! j)"
  shows "probe_path (hm_capacity h) (hm_solid ((hm_entries h)[idx := e]))
           (unat (he_hash ((hm_entries h)[idx := e] ! j))) j"
proof (rule probe_path_mono [where solid = "hm_solid (hm_entries h)"])
  show "probe_path (hm_capacity h) (hm_solid (hm_entries h))
          (unat (he_hash ((hm_entries h)[idx := e] ! j))) j"
    using assms by (cases "j = idx") (auto simp: hashmap_wf_def)
next
  fix i
  assume "i < hm_capacity h" "hm_solid (hm_entries h) i"
  then show "hm_solid ((hm_entries h)[idx := e]) i"
    using assms(1,3) by (cases "i = idx") (auto simp: hashmap_wf_def hm_solid_def)
qed


section \<open>What the operations do\<close>

lemma hashmap_content_free:
  assumes "hashmap_wf h" "hm_count h < hm_capacity h"
  obtains i where "i < hm_capacity h" "\<not> he_live (hm_entries h ! i)"
proof (rule ccontr)
  assume nt: "\<not> thesis"
  have "he_live (hm_entries h ! i)" if "i < hm_capacity h" for i
    using nt that \<open>\<And>i. i < hm_capacity h \<Longrightarrow> \<not> he_live (hm_entries h ! i) \<Longrightarrow> thesis\<close> by blast
  then have "filter_mset he_live (mset (hm_entries h)) = mset (hm_entries h)"
    using assms(1) by (intro filter_mset_eq_conv [THEN iffD2])
      (auto simp: hashmap_wf_def in_set_conv_nth)
  then have "size (hashmap_content h) = length (hm_entries h)" by (simp add: hashmap_content_def)
  with assms show False by (simp add: hashmap_wf_def)
qed

lemma hashmap_insert_full: "\<not> hashmap_room h \<Longrightarrow> hashmap_insert h hash val = Some (False, h)"
  by (simp add: hashmap_insert_def hashmap_room_def)

lemma hashmap_insert_room:
  assumes "hashmap_wf h" "hashmap_room h" "value_ok val"
  obtains h' where "hashmap_insert h hash val = Some (True, h')" "hashmap_wf h'"
    "hashmap_content h' = add_mset (hash, val) (hashmap_content h)"
    "hm_capacity h' = hm_capacity h" "hm_count h' = hm_count h + 1"
proof -
  let ?n = "hm_capacity h" and ?es = "hm_entries h" and ?e = "\<lparr>he_hash = hash, he_value = val\<rparr>"
  let ?r = "probe_for (insert_stop ?es) (hm_mask h) ?n (unat hash mod ?n)"
  have p2: "pow2_table ?n (hm_mask h)" and len: "length ?es = ?n"
    using assms by (simp_all add: hashmap_wf_def)
  obtain i where i: "i < ?n" "\<not> he_live (?es ! i)"
    using assms load_limit_le [of h] by (elim hashmap_content_free) (simp add: hashmap_room_def)
  then have "insert_stop ?es i \<noteq> None" by (auto simp: insert_stop_def he_live_def)
  with i have "?r \<noteq> None" by (auto simp: probe_for_None_all [OF p2])
  then obtain idx where r: "?r = Some idx" by blast
  then have idx: "idx < ?n" "\<not> he_live (?es ! idx)"
      "probe_path ?n (\<lambda>i. insert_stop ?es i = None) (unat hash) idx"
    by (auto simp: probe_for_Some_path [OF p2] insert_stop_eq)
  let ?h = "h\<lparr>hm_entries := ?es[idx := ?e], hm_count := hm_count h + 1\<rparr>"
  have live: "he_live ?e" using assms(3) by (simp add: he_live_def value_ok_def)
  have content: "hashmap_content ?h = add_mset (hash, val) (hashmap_content h)"
    using hashmap_set_content [of idx h ?h ?e] idx live len by simp
  have path: "probe_path ?n (hm_solid ?es) (unat hash) idx"
    by (rule probe_path_mono [OF idx(3)]) (auto simp: insert_stop_def hm_solid_def split: if_splits)
  have "hashmap_wf ?h"
    unfolding hashmap_wf_def
  proof (intro conjI allI impI)
    show "hm_count ?h = size (hashmap_content ?h)"
      using assms(1) content by (simp add: hashmap_wf_def)
    show "probe_path (hm_capacity ?h) (hm_solid (hm_entries ?h)) (unat (he_hash (hm_entries ?h ! j))) j"
      if "j < hm_capacity ?h" "he_live (hm_entries ?h ! j)" for j
      using hashmap_set_paths [OF assms(1) idx(1), of ?e j] that path live by (simp add: he_live_def)
  qed (use p2 len in simp_all)
  moreover have "hashmap_insert h hash val = Some (True, ?h)"
    using assms(2) r by (simp add: hashmap_insert_def hashmap_room_def hashmap_wf_mask [OF assms(1)])
  ultimately show ?thesis using that [of ?h] content by simp
qed

lemma hashmap_remove_cases:
  assumes "hashmap_wf h" "value_ok val"
  obtains h' where "hashmap_remove h hash val = Some ((hash, val) \<in># hashmap_content h, h')"
    "hashmap_wf h'" "hashmap_content h' = hashmap_content h - {#(hash, val)#}"
    "hm_capacity h' = hm_capacity h"
  using assms
proof (cases rule: pair_search_cases [where hash = hash])
  case (Hit idx)
  let ?e = "(hm_entries h ! idx)\<lparr>he_value := HASHMAP_DELETED\<rparr>"
  let ?h = "h\<lparr>hm_entries := (hm_entries h)[idx := ?e], hm_count := hm_count h - 1\<rparr>"
  have dead: "\<not> he_live ?e" "he_value ?e \<noteq> HASHMAP_EMPTY"
    by (simp_all add: he_live_def HASHMAP_DELETED_def HASHMAP_EMPTY_def)
  have len: "length (hm_entries h) = hm_capacity h" using assms by (simp add: hashmap_wf_def)
  have "he_live (hm_entries h ! idx)" using assms(2) Hit by (simp add: he_live_def value_ok_def)
  then have c: "add_mset (hash, val) (hashmap_content ?h) = hashmap_content h"
    using hashmap_set_content [of idx h ?h ?e] Hit dead len by simp
  then have content: "hashmap_content ?h = hashmap_content h - {#(hash, val)#}"
    by (metis add_mset_remove_trivial)
  have "hashmap_wf ?h"
    unfolding hashmap_wf_def
  proof (intro conjI allI impI)
    show "hm_count ?h = size (hashmap_content ?h)"
      using assms(1) Hit content by (simp add: hashmap_wf_def size_Diff_singleton)
    show "probe_path (hm_capacity ?h) (hm_solid (hm_entries ?h)) (unat (he_hash (hm_entries ?h ! j))) j"
      if "j < hm_capacity ?h" "he_live (hm_entries ?h ! j)" for j
      using hashmap_set_paths [OF assms(1) Hit(2), of ?e j] that dead by simp
  qed (use assms(1) in \<open>simp_all add: hashmap_wf_def\<close>)
  moreover have "hashmap_remove h hash val = Some (True, ?h)"
    using Hit(1) by (simp add: hashmap_remove_search)
  ultimately show ?thesis using that [of ?h] content Hit(4) by simp
next
  case Miss
  then have "hashmap_remove h hash val = Some (False, h)"
    by (auto simp: hashmap_remove_search)
  with that [of h] Miss assms show ?thesis by (simp add: diff_single_trivial)
qed

lemma hashmap_update_cases:
  assumes "hashmap_wf h" "value_ok old_value" "value_ok new_value"
  obtains h' where "hashmap_update h hash old_value new_value
                      = Some ((hash, old_value) \<in># hashmap_content h, h')"
    "hashmap_wf h'" "hashmap_content h' = (if (hash, old_value) \<in># hashmap_content h
       then add_mset (hash, new_value) (hashmap_content h - {#(hash, old_value)#}) else hashmap_content h)"
  using assms(1,2)
proof (cases rule: pair_search_cases [where hash = hash])
  case (Hit idx)
  let ?e = "(hm_entries h ! idx)\<lparr>he_value := new_value\<rparr>"
  let ?h = "h\<lparr>hm_entries := (hm_entries h)[idx := ?e]\<rparr>"
  have live: "he_live ?e" "he_value ?e \<noteq> HASHMAP_EMPTY" "he_live (hm_entries h ! idx)"
    using assms(2,3) Hit by (simp_all add: he_live_def value_ok_def)
  have len: "length (hm_entries h) = hm_capacity h" using assms by (simp add: hashmap_wf_def)
  have "add_mset (hash, old_value) (hashmap_content ?h) = add_mset (hash, new_value) (hashmap_content h)"
    using hashmap_set_content [of idx h ?h ?e] Hit live len by simp
  then have content: "hashmap_content ?h
      = add_mset (hash, new_value) (hashmap_content h - {#(hash, old_value)#})"
    using Hit(4) by (metis add_mset_remove_trivial diff_union_swap2)
  have "hashmap_wf ?h"
    unfolding hashmap_wf_def
  proof (intro conjI allI impI)
    show "hm_count ?h = size (hashmap_content ?h)"
      using assms(1) Hit(4) content
      by (simp add: hashmap_wf_def size_Suc_Diff1)
    show "probe_path (hm_capacity ?h) (hm_solid (hm_entries ?h)) (unat (he_hash (hm_entries ?h ! j))) j"
      if "j < hm_capacity ?h" "he_live (hm_entries ?h ! j)" for j
    proof -
      have "probe_path (hm_capacity h) (hm_solid (hm_entries h)) (unat (he_hash ?e)) idx"
        using assms(1) Hit(2) live(3) by (simp add: hashmap_wf_def)
      then show ?thesis using hashmap_set_paths [OF assms(1) Hit(2), of ?e j] that live by simp
    qed
  qed (use assms(1) in \<open>simp_all add: hashmap_wf_def\<close>)
  moreover have "hashmap_update h hash old_value new_value = Some (True, ?h)"
    using Hit(1) by (simp add: hashmap_update_search)
  ultimately show ?thesis using that [of ?h] content Hit(4) by simp
next
  case Miss
  then have "hashmap_update h hash old_value new_value = Some (False, h)"
    by (auto simp: hashmap_update_search)
  with that [of h] Miss assms show ?thesis by simp
qed

section \<open>The table implements the contract\<close>

definition hm_insert :: "hashmap \<Rightarrow> u32 \<Rightarrow> u32 \<Rightarrow> hashmap" where
  "hm_insert h k v = (case hashmap_insert h k v of None \<Rightarrow> h | Some r \<Rightarrow> snd r)"

definition hm_find :: "hashmap \<Rightarrow> u32 \<Rightarrow> u32 option" where
  "hm_find h k = (case hashmap_find h k of None \<Rightarrow> None
                  | Some v \<Rightarrow> if v = HASHMAP_EMPTY then None else Some v)"

definition hm_remove :: "hashmap \<Rightarrow> u32 \<Rightarrow> u32 \<Rightarrow> hashmap" where
  "hm_remove h k v = (case hashmap_remove h k v of None \<Rightarrow> h | Some r \<Rightarrow> snd r)"

interpretation hashmap: hash_index hm_insert hm_find hm_remove hashmap_wf hashmap_room value_ok hashmap_content
proof (unfold_locales, goal_cases)
  case (1 t k)
  then show ?case by (auto simp: hm_find_def elim!: hashmap_find_eq [of t k])
next
  case (2 t k v)
  then show ?case by (auto simp: hm_find_def elim!: hashmap_find_eq [of t k] split: if_splits)
next
  case (3 t v k)
  then show ?case by (auto simp: hm_insert_def elim!: hashmap_insert_room [of t v k])
next
  case (4 t v k)
  then show ?case by (auto simp: hm_insert_def elim!: hashmap_insert_room [of t v k])
next
  case (5 t v k)
  then show ?case by (auto simp: hm_remove_def elim!: hashmap_remove_cases [of t v k])
next
  case (6 t v k)
  then show ?case by (auto simp: hm_remove_def elim!: hashmap_remove_cases [of t v k])
qed

section \<open>Initialisation\<close>

lemma hashmap_round_up_power:
  assumes "min_capacity \<le> 2 ^ 31" "k \<le> 31" "32 - k \<le> fuel"
  shows "\<exists>m\<ge>k. m \<le> 31 \<and> hashmap_round_up fuel (2 ^ k) min_capacity = Some (2 ^ m)
           \<and> min_capacity \<le> 2 ^ m"
  using assms(2,3)
proof (induction fuel arbitrary: k)
  case 0
  then show ?case by simp
next
  case (Suc fuel)
  show ?case
  proof (cases "(2::u32) ^ k < min_capacity")
    case True
    with assms(1) have "k \<noteq> 31" by auto
    with Suc.prems have "Suc k \<le> 31" "32 - Suc k \<le> fuel" by simp_all
    from Suc.IH [OF this] True show ?thesis
      by (auto simp: mult.commute intro: Suc_leD)
  next
    case False
    with Suc.prems show ?thesis by (auto simp: not_less)
  qed
qed

lemma hashmap_round_up_diverges:
  assumes "\<forall>k. (2::u32) ^ k < min_capacity"
  shows "hashmap_round_up fuel (2 ^ k) min_capacity = None"
proof (induction fuel arbitrary: k)
  case (Suc fuel)
  then show ?case using assms Suc [of "Suc k"] by (simp add: mult.commute)
qed simp


text \<open>C27: the hash table is a multiset of pairs.  On a well-formed table every search ends; a find
  returns a value stored under the hash, and EMPTY exactly when there is none; an insert into a
  table below its load limit (computed in u32, see \<open>load_limit\<close>) adds the pair, one above it changes nothing and reports failure; a
  remove reports whether the pair was there and takes one copy out; an update replaces one copy.\<close>

theorem hashmap_refines_multiset:
  assumes "hashmap_wf h" "value_ok val" "value_ok new_value"
  shows "(\<exists>v. hashmap_find h hash = Some v \<and> (v = HASHMAP_EMPTY \<longleftrightarrow> (\<forall>w. (hash, w) \<notin># hashmap_content h))
             \<and> (v \<noteq> HASHMAP_EMPTY \<longrightarrow> (hash, v) \<in># hashmap_content h))
       \<and> (\<exists>h'. hashmap_insert h hash val = Some (hashmap_room h, h') \<and> hashmap_wf h'
             \<and> hashmap_content h' = (if hashmap_room h then add_mset (hash, val) (hashmap_content h)
                                     else hashmap_content h))
       \<and> (\<exists>h'. hashmap_remove h hash val = Some ((hash, val) \<in># hashmap_content h, h') \<and> hashmap_wf h'
             \<and> hashmap_content h' = hashmap_content h - {#(hash, val)#})
       \<and> (\<exists>h'. hashmap_update h hash val new_value = Some ((hash, val) \<in># hashmap_content h, h')
             \<and> hashmap_wf h' \<and> hashmap_content h' = (if (hash, val) \<in># hashmap_content h
                 then add_mset (hash, new_value) (hashmap_content h - {#(hash, val)#})
                 else hashmap_content h))"
    (is "?find \<and> ?insert \<and> ?remove \<and> ?update")
proof (intro conjI)
  show ?find using hashmap_find_eq [OF assms(1), of hash] by metis
  show ?insert
    using hashmap_insert_full [of h] hashmap_insert_room [OF assms(1) _ assms(2), of hash] assms(1)
    by (cases "hashmap_room h") force+
  show ?remove using hashmap_remove_cases [OF assms(1,2), of hash] by metis
  show ?update using hashmap_update_cases [OF assms, of hash] by metis
qed

definition two_cells :: hashmap where
  "two_cells = \<lparr>hm_entries = [\<lparr>he_hash = 2, he_value = 7\<rparr>, \<lparr>he_hash = 0, he_value = HASHMAP_EMPTY\<rparr>],
     hm_map = None, hm_capacity = 2, hm_count = 1, hm_mask = 1\<rparr>"

lemma two_cells_wf: "hashmap_wf two_cells"
proof -
  have "pow2_table 2 1" by (rule pow2_tableI [where k = 1]) simp_all
  moreover have "\<forall>j<2. he_live (hm_entries two_cells ! j) \<longrightarrow>
      probe_path 2 (hm_solid (hm_entries two_cells)) (unat (he_hash (hm_entries two_cells ! j))) j"
    by (auto simp: two_cells_def less_2_cases_iff he_live_def probe_path_def intro: exI [of _ 0])
  ultimately show ?thesis
    by (simp add: hashmap_wf_def two_cells_def hashmap_content_def he_live_def HASHMAP_EMPTY_def
             HASHMAP_DELETED_def)
qed

theorem hashmap_refines_multiset_witness:
  "\<exists>h'. hashmap_remove two_cells 2 7 = Some ((2, 7) \<in># hashmap_content two_cells, h') \<and> hashmap_wf h'
      \<and> hashmap_content h' = hashmap_content two_cells - {#(2, 7)#}"
proof -
  have "value_ok 7" by (simp add: value_ok_def HASHMAP_EMPTY_def HASHMAP_DELETED_def)
  from hashmap_refines_multiset [OF two_cells_wf this this, of 2] show ?thesis by blast
qed

text \<open>Initialisation returns for every requested capacity up to \<open>2 ^ 31\<close>, with an empty table of at
  least that many cells or, when the mapping is refused, with an error and no mapping; above \<open>2 ^ 31\<close>
  the doubling wraps to 0 and the loop does not end.\<close>

theorem hashmap_init_correct:
  shows "if min_capacity \<le> 2 ^ 31 then
      (case hashmap_init ok min_capacity v of
         None \<Rightarrow> False
       | Some (None, v') \<Rightarrow> vm_live v' = vm_live v
       | Some (Some h, v') \<Rightarrow> hashmap_wf h \<and> hashmap_content h = {#} \<and> unat min_capacity \<le> hm_capacity h
           \<and> vm_live (snd (hashmap_cleanup h v')) = vm_live v)
    else hashmap_init ok min_capacity v = None \<and> hashmap_round_up fuel 16 min_capacity = None"
proof (cases "min_capacity \<le> 2 ^ 31")
  case True
  obtain m where m: "4 \<le> m" "m \<le> 31" "hashmap_round_up 30 16 min_capacity = Some (2 ^ m)"
      "min_capacity \<le> 2 ^ m"
    using hashmap_round_up_power [OF True, of 4 30] by auto
  let ?h = "\<lambda>r. \<lparr>hm_entries = replicate (2 ^ m) \<lparr>he_hash = 0, he_value = HASHMAP_EMPTY\<rparr>,
                 hm_map = Some r, hm_capacity = 2 ^ m, hm_count = 0, hm_mask = 2 ^ m - 1\<rparr>"
  have u: "unat ((2::u32) ^ m) = 2 ^ m" using m by (simp add: unat_2_power)
  have c: "hashmap_content (?h r) = {#}" for r
    by (simp add: hashmap_content_def he_live_def)
  have wf: "hashmap_wf (?h r)" for r
    using c [of r] by (simp add: hashmap_wf_def he_live_def pow2_tableI)
  have le: "unat min_capacity \<le> 2 ^ m" using m(4) u by (simp add: word_le_nat_alt)
  show ?thesis
    using True m(3) u c wf le
    by (auto simp: hashmap_init_def HASHMAP_MIN_CAPACITY_def sys_mmap_def sys_munmap_def Let_def
             hashmap_cleanup_def split: prod.splits option.splits if_splits)
next
  case False
  have big: "(2::u32) ^ k < min_capacity" for k
  proof (cases "k \<le> 31")
    case True
    then have "unat ((2::u32) ^ k) \<le> unat ((2::u32) ^ 31)"
      using power_increasing [of k 31 "2::nat"] by (simp add: unat_2_power del: power_increasing_iff)
    with False show ?thesis by (simp add: word_le_nat_alt word_less_nat_alt)
  next
    case False
    then have z: "(2::u32) ^ k = 0" by (subst exp_eq_zero_iff) simp
    have "min_capacity \<noteq> 0" using \<open>\<not> min_capacity \<le> 2 ^ 31\<close> by auto
    then show ?thesis unfolding z by (simp only: word_neq_0_conv)
  qed
  have "hashmap_round_up fuel 16 min_capacity = None" for fuel
    using hashmap_round_up_diverges [of min_capacity fuel 4] big by simp
  with False show ?thesis by (simp add: hashmap_init_def HASHMAP_MIN_CAPACITY_def)
qed

end
