(* ===== verification/Io_Uring.thy ===== *)
theory Io_Uring
  imports Egress
begin

text \<open>
  The io\_uring rings of \<^verbatim>\<open>src/src/sys/io_uring.h\<close>.  The submission queue and the completion queue
  are rings of a power of two of cells with u32 head and tail counters that wrap.  The kernel's side
  is the parameter \<open>enter\<close>: the result of \<^verbatim>\<open>io_uring_enter\<close> and the ring after it.
\<close>

section \<open>Entries\<close>

text \<open>What an SQE address may denote: a receive buffer of the pool at an offset, a response buffer or
  the iovec array of a client slot, or constant bytes.\<close>

datatype io_addr =
    ANull
  | ARecvBuf nat nat
  | ARespBuf nat nat
  | AIovec nat
  | ABytes bytes

abbreviation (input) "IORING_OP_WRITEV \<equiv> 2 :: u8"
abbreviation (input) "IORING_OP_ACCEPT \<equiv> 13 :: u8"
abbreviation (input) "IORING_OP_CLOSE \<equiv> 19 :: u8"
abbreviation (input) "IORING_OP_SEND \<equiv> 26 :: u8"
abbreviation (input) "IORING_OP_RECV \<equiv> 27 :: u8"
abbreviation (input) "IORING_OP_SEND_ZC \<equiv> 53 :: u8"
abbreviation (input) "IORING_ACCEPT_MULTISHOT \<equiv> 1 :: u32"
abbreviation (input) "IORING_FILE_INDEX_ALLOC \<equiv> 0xFFFFFFFF :: u32"
abbreviation (input) "IORING_ENTER_GETEVENTS \<equiv> 1 :: u32"

record io_uring_sqe =
  sqe_opcode :: u8
  sqe_fd :: int
  sqe_addr :: io_addr
  sqe_addr2 :: io_addr
  sqe_len :: u32
  sqe_op_flags :: u32
  sqe_file_index :: u32
  sqe_user_data :: u64

record io_uring_cqe =
  cqe_user_data :: u64
  cqe_res :: int
  cqe_flags :: u32

record ring =
  r_fd :: int
  r_sq_head :: u32
  r_sq_tail :: u32
  r_sq_array :: "u32 list"
  r_sq_mask :: u32
  r_sq_entries :: u32
  r_sq_tail_local :: u32
  r_sqes :: "io_uring_sqe list"
  r_cq_head :: u32
  r_cq_tail :: u32
  r_cq_mask :: u32
  r_cq_entries :: u32
  r_cq_head_local :: u32
  r_cq_tail_local :: u32
  r_cqes :: "io_uring_cqe list"

definition zero_sqe :: io_uring_sqe where
  "zero_sqe = \<lparr>sqe_opcode = 0, sqe_fd = 0, sqe_addr = ANull, sqe_addr2 = ANull, sqe_len = 0,
     sqe_op_flags = 0, sqe_file_index = 0, sqe_user_data = 0\<rparr>"

section \<open>Submission queue\<close>

text \<open>The index of a zeroed entry, \<open>None\<close> for the NULL of a full queue.\<close>

definition ring_get_sqe :: "ring \<Rightarrow> nat option \<times> ring" where
  "ring_get_sqe r =
     (let head = r_sq_head r;
          tail = r_sq_tail_local r;
          next_tail = tail + 1
      in if next_tail - head > r_sq_entries r then (None, r)
         else let i = unat (tail AND r_sq_mask r)
              in (Some i, r\<lparr>r_sqes := (r_sqes r)[i := zero_sqe],
                            r_sq_array := (r_sq_array r)[i := tail AND r_sq_mask r],
                            r_sq_tail_local := next_tail\<rparr>))"

text \<open>Stores through the pointer to an entry.\<close>

definition sqe_update :: "ring \<Rightarrow> nat \<Rightarrow> (io_uring_sqe \<Rightarrow> io_uring_sqe) \<Rightarrow> ring" where
  "sqe_update r i f = r\<lparr>r_sqes := (r_sqes r)[i := f (r_sqes r ! i)]\<rparr>"

definition ring_flush_sqes :: "ring \<Rightarrow> ring" where
  "ring_flush_sqes r =
     (if r_sq_tail_local r \<noteq> r_sq_tail r then r\<lparr>r_sq_tail := r_sq_tail_local r\<rparr> else r)"

definition ring_submit_sqe :: "ring \<Rightarrow> ring" where
  "ring_submit_sqe r = ring_flush_sqes r"

definition ring_sq_pending :: "ring \<Rightarrow> u32" where
  "ring_sq_pending r = r_sq_tail_local r - r_sq_head r"

type_synonym enter_call = "ring \<Rightarrow> u32 \<Rightarrow> u32 \<Rightarrow> u32 \<Rightarrow> int \<times> ring"

definition ring_submit :: "enter_call \<Rightarrow> ring \<Rightarrow> u32 \<Rightarrow> int \<times> ring" where
  "ring_submit enter r wait_nr =
     (let submitted = ring_sq_pending r
      in if submitted = 0 \<and> wait_nr = 0 then (0, r)
         else enter r submitted wait_nr (if wait_nr \<noteq> 0 then IORING_ENTER_GETEVENTS else 0))"

definition ring_submit_and_wait :: "enter_call \<Rightarrow> ring \<Rightarrow> u32 \<Rightarrow> int \<times> ring" where
  "ring_submit_and_wait enter r min_complete =
     enter r (ring_sq_pending r) min_complete IORING_ENTER_GETEVENTS"

section \<open>Completion queue\<close>

definition ring_cq_sync :: "ring \<Rightarrow> ring" where
  "ring_cq_sync r = r\<lparr>r_cq_head_local := r_cq_head r, r_cq_tail_local := r_cq_tail r\<rparr>"

definition ring_peek_cqe :: "ring \<Rightarrow> io_uring_cqe option" where
  "ring_peek_cqe r =
     (if r_cq_head_local r = r_cq_tail_local r then None
      else Some (r_cqes r ! unat (r_cq_head_local r AND r_cq_mask r)))"

definition ring_cq_advance :: "ring \<Rightarrow> u32 \<Rightarrow> ring" where
  "ring_cq_advance r nr = r\<lparr>r_cq_head_local := r_cq_head_local r + nr\<rparr>"

definition ring_cq_flush :: "ring \<Rightarrow> ring" where
  "ring_cq_flush r =
     (if r_cq_head_local r \<noteq> r_cq_head r then r\<lparr>r_cq_head := r_cq_head_local r\<rparr> else r)"

section \<open>Preparing entries\<close>

definition ring_prep_accept :: "io_uring_sqe \<Rightarrow> int \<Rightarrow> io_addr \<Rightarrow> io_addr \<Rightarrow> u32 \<Rightarrow> io_uring_sqe" where
  "ring_prep_accept sqe fd addr addrlen flags =
     sqe\<lparr>sqe_opcode := IORING_OP_ACCEPT, sqe_fd := fd, sqe_addr := addr, sqe_addr2 := addrlen,
         sqe_op_flags := flags\<rparr>"

definition ring_prep_accept_direct :: "io_uring_sqe \<Rightarrow> int \<Rightarrow> io_addr \<Rightarrow> io_addr \<Rightarrow> u32 \<Rightarrow> io_uring_sqe" where
  "ring_prep_accept_direct sqe fd addr addrlen flags =
     (ring_prep_accept sqe fd addr addrlen flags)\<lparr>sqe_file_index := IORING_FILE_INDEX_ALLOC\<rparr>"

definition ring_prep_accept_multishot :: "io_uring_sqe \<Rightarrow> int \<Rightarrow> io_addr \<Rightarrow> io_addr \<Rightarrow> io_uring_sqe" where
  "ring_prep_accept_multishot sqe fd addr addrlen =
     ring_prep_accept sqe fd addr addrlen IORING_ACCEPT_MULTISHOT"

definition ring_prep_recv :: "io_uring_sqe \<Rightarrow> int \<Rightarrow> io_addr \<Rightarrow> u32 \<Rightarrow> u32 \<Rightarrow> io_uring_sqe" where
  "ring_prep_recv sqe fd buf len flags =
     sqe\<lparr>sqe_opcode := IORING_OP_RECV, sqe_fd := fd, sqe_addr := buf, sqe_len := len, sqe_op_flags := flags\<rparr>"

definition ring_prep_send :: "io_uring_sqe \<Rightarrow> int \<Rightarrow> io_addr \<Rightarrow> u32 \<Rightarrow> u32 \<Rightarrow> io_uring_sqe" where
  "ring_prep_send sqe fd buf len flags =
     sqe\<lparr>sqe_opcode := IORING_OP_SEND, sqe_fd := fd, sqe_addr := buf, sqe_len := len, sqe_op_flags := flags\<rparr>"

definition ring_prep_send_zc :: "io_uring_sqe \<Rightarrow> int \<Rightarrow> io_addr \<Rightarrow> u32 \<Rightarrow> u32 \<Rightarrow> io_uring_sqe" where
  "ring_prep_send_zc sqe fd buf len flags =
     sqe\<lparr>sqe_opcode := IORING_OP_SEND_ZC, sqe_fd := fd, sqe_addr := buf, sqe_len := len, sqe_op_flags := flags\<rparr>"

definition ring_prep_writev :: "io_uring_sqe \<Rightarrow> int \<Rightarrow> io_addr \<Rightarrow> u32 \<Rightarrow> u32 \<Rightarrow> io_uring_sqe" where
  "ring_prep_writev sqe fd iov nr_vecs flags =
     sqe\<lparr>sqe_opcode := IORING_OP_WRITEV, sqe_fd := fd, sqe_addr := iov, sqe_len := nr_vecs, sqe_op_flags := flags\<rparr>"

definition ring_prep_close :: "io_uring_sqe \<Rightarrow> int \<Rightarrow> io_uring_sqe" where
  "ring_prep_close sqe fd = sqe\<lparr>sqe_opcode := IORING_OP_CLOSE, sqe_fd := fd\<rparr>"

definition ring_prep_close_direct :: "io_uring_sqe \<Rightarrow> u32 \<Rightarrow> io_uring_sqe" where
  "ring_prep_close_direct sqe file_index =
     sqe\<lparr>sqe_opcode := IORING_OP_CLOSE, sqe_fd := 0, sqe_file_index := file_index\<rparr>"

section \<open>The submission queue as a bounded queue\<close>

text \<open>Taking an entry and filling it, as every submitter does; the kernel takes entries from the head.\<close>

definition sq_put :: "ring \<Rightarrow> io_uring_sqe \<Rightarrow> ring" where
  "sq_put r s = (case ring_get_sqe r of (None, r) \<Rightarrow> r | (Some i, r) \<Rightarrow> sqe_update r i (\<lambda>_. s))"

definition sq_full :: "ring \<Rightarrow> bool" where
  "sq_full r \<longleftrightarrow> fst (ring_get_sqe r) = None"

definition sq_take :: "ring \<Rightarrow> ring" where
  "sq_take r = r\<lparr>r_sq_head := r_sq_head r + 1\<rparr>"

definition sq_slot :: "ring \<Rightarrow> nat \<Rightarrow> nat" where
  "sq_slot r i = (unat (r_sq_head r) + i) mod length (r_sqes r)"

definition sq_front :: "ring \<Rightarrow> io_uring_sqe" where
  "sq_front r = r_sqes r ! unat (r_sq_array r ! unat (r_sq_head r AND r_sq_mask r))"

definition sq_count :: "ring \<Rightarrow> nat" where
  "sq_count r = unat (ring_sq_pending r)"

definition sq_contents :: "ring \<Rightarrow> io_uring_sqe list" where
  "sq_contents r = map (\<lambda>i. r_sqes r ! unat (r_sq_array r ! unat ((r_sq_head r + of_nat i) AND r_sq_mask r)))
     [0..<sq_count r]"

definition sq_wf :: "ring \<Rightarrow> bool" where
  "sq_wf r \<longleftrightarrow> (\<exists>k \<le> 31. length (r_sqes r) = 2 ^ k \<and> r_sq_entries r = 2 ^ k \<and> r_sq_mask r = mask k)
     \<and> length (r_sq_array r) = length (r_sqes r) \<and> sq_count r \<le> length (r_sqes r)
     \<and> (\<forall>i < sq_count r. r_sq_array r ! sq_slot r i = of_nat (sq_slot r i))"

lemma unat_mask_index: "k \<le> 31 \<Longrightarrow> unat ((h + of_nat i) AND mask k :: u32) = (unat h + i) mod 2 ^ k"
proof -
  assume k: "k \<le> 31"
  have d: "(2::nat) ^ k dvd 2 ^ 32" using k by (intro le_imp_power_dvd) simp
  have "unat ((h + of_nat i) AND mask k) = unat (h + of_nat i :: u32) mod 2 ^ k"
    by (simp only: take_bit_eq_mask [symmetric] unat_take_bit)
  also have "unat (h + of_nat i :: u32) = (unat h + i) mod 2 ^ 32"
    by (simp add: unat_word_ariths unat_of_nat_mod mod_simps)
  also have "(unat h + i) mod 2 ^ 32 mod 2 ^ k = (unat h + i) mod 2 ^ k"
    using d by (rule mod_mod_cancel)
  finally show ?thesis .
qed

lemma sq_wf_index:
  assumes "sq_wf r"
  shows "unat ((r_sq_head r + of_nat i) AND r_sq_mask r) = sq_slot r i"
    "unat (r_sq_tail_local r AND r_sq_mask r) = sq_slot r (sq_count r)"
proof -
  obtain k where k: "k \<le> 31" "length (r_sqes r) = 2 ^ k" "r_sq_mask r = mask k"
    using assms by (auto simp: sq_wf_def)
  show i: "unat ((r_sq_head r + of_nat i) AND r_sq_mask r) = sq_slot r i" for i
    by (simp add: sq_slot_def k unat_mask_index [OF k(1)])
  have "r_sq_tail_local r = r_sq_head r + of_nat (sq_count r)"
    by (simp add: sq_count_def ring_sq_pending_def)
  then show "unat (r_sq_tail_local r AND r_sq_mask r) = sq_slot r (sq_count r)" by (simp only: i)
qed

lemma sq_slot_less: "sq_wf r \<Longrightarrow> sq_slot r i < length (r_sqes r)"
  by (auto simp: sq_wf_def sq_slot_def)

lemma sq_array_index:
  assumes "sq_wf r" "i < sq_count r"
  shows "unat (r_sq_array r ! sq_slot r i) = sq_slot r i"
proof -
  obtain k where k: "k \<le> 31" "length (r_sqes r) = 2 ^ k"
    using assms by (auto simp: sq_wf_def)
  have "(2::nat) ^ k \<le> 2 ^ 31" using k(1) by (rule power_increasing) simp
  then have "sq_slot r i < 2 ^ 32" using sq_slot_less [OF assms(1), of i] k(2) by simp
  moreover have "r_sq_array r ! sq_slot r i = of_nat (sq_slot r i)" using assms by (simp add: sq_wf_def)
  ultimately show ?thesis by (simp add: unat_of_nat_mod)
qed

lemma sq_contents_ring:
  assumes "sq_wf r"
  shows "sq_contents r = ring_contents (r_sqes r) (unat (r_sq_head r)) (sq_count r)"
  unfolding sq_contents_def ring_contents_def
  by (rule map_cong [OF refl]) (use sq_array_index [OF assms] in \<open>simp add: sq_wf_index [OF assms] sq_slot_def\<close>)

lemma sq_full_iff:
  assumes "sq_wf r"
  shows "sq_full r \<longleftrightarrow> sq_count r = length (r_sqes r)"
proof -
  obtain k where k: "k \<le> 31" "length (r_sqes r) = 2 ^ k" "r_sq_entries r = 2 ^ k" and c: "sq_count r \<le> 2 ^ k"
    using assms by (auto simp: sq_wf_def)
  have p: "(2::nat) ^ k \<le> 2 ^ 31" using k(1) by (rule power_increasing) simp
  have "r_sq_tail_local r + 1 - r_sq_head r = ring_sq_pending r + 1" by (simp add: ring_sq_pending_def)
  moreover have "unat (ring_sq_pending r + 1) = sq_count r + 1"
    using c p by (simp add: sq_count_def unat_word_ariths)
  moreover have "unat ((2::u32) ^ k) = 2 ^ k" using k(1) by (intro unat_2_power) simp
  ultimately have "r_sq_tail_local r + 1 - r_sq_head r > r_sq_entries r \<longleftrightarrow> sq_count r + 1 > 2 ^ k"
    by (simp only: word_less_nat_alt k(3))
  then show ?thesis using c k(2) by (auto simp: sq_full_def ring_get_sqe_def Let_def)
qed

lemma sq_put_fields:
  assumes wf: "sq_wf r" and room: "\<not> sq_full r"
  defines "i \<equiv> sq_slot r (sq_count r)"
  shows "ring_get_sqe r = (Some i, r\<lparr>r_sqes := (r_sqes r)[i := zero_sqe],
      r_sq_array := (r_sq_array r)[i := of_nat i], r_sq_tail_local := r_sq_tail_local r + 1\<rparr>)"
    "sq_put r s = r\<lparr>r_sqes := (r_sqes r)[i := s],
      r_sq_array := (r_sq_array r)[i := of_nat i], r_sq_tail_local := r_sq_tail_local r + 1\<rparr>"
proof -
  have i: "unat (r_sq_tail_local r AND r_sq_mask r) = i" unfolding i_def by (rule sq_wf_index(2) [OF wf])
  then have "r_sq_tail_local r AND r_sq_mask r = of_nat i" by (simp flip: i)
  with room i show g: "ring_get_sqe r = (Some i, r\<lparr>r_sqes := (r_sqes r)[i := zero_sqe],
      r_sq_array := (r_sq_array r)[i := of_nat i], r_sq_tail_local := r_sq_tail_local r + 1\<rparr>)"
    by (auto simp: sq_full_def ring_get_sqe_def Let_def split: if_splits)
  show "sq_put r s = r\<lparr>r_sqes := (r_sqes r)[i := s],
      r_sq_array := (r_sq_array r)[i := of_nat i], r_sq_tail_local := r_sq_tail_local r + 1\<rparr>"
    by (simp add: sq_put_def g sqe_update_def)
qed

lemma sq_put_wf:
  assumes wf: "sq_wf r" and room: "\<not> sq_full r"
  shows "sq_wf (sq_put r s)" "sq_count (sq_put r s) = sq_count r + 1"
    "sq_contents (sq_put r s) = sq_contents r @ [s]" "length (r_sqes (sq_put r s)) = length (r_sqes r)"
proof -
  let ?i = "sq_slot r (sq_count r)"
  note f = sq_put_fields(2) [OF assms, of s]
  obtain k where k: "k \<le> 31" "length (r_sqes r) = 2 ^ k" and c: "sq_count r < 2 ^ k"
    using wf room sq_full_iff [OF wf] by (auto simp: sq_wf_def)
  have p: "(2::nat) ^ k \<le> 2 ^ 31" using k(1) by (rule power_increasing) simp
  show cnt: "sq_count (sq_put r s) = sq_count r + 1"
  proof -
    have "ring_sq_pending (sq_put r s) = ring_sq_pending r + 1" by (simp add: f ring_sq_pending_def)
    then show ?thesis using c p by (simp add: sq_count_def unat_word_ariths)
  qed
  have slot: "sq_slot (sq_put r s) j = sq_slot r j" for j by (simp add: f sq_slot_def)
  have arr: "r_sq_array (sq_put r s) ! sq_slot r j = of_nat (sq_slot r j)" if "j < sq_count r + 1" for j
  proof (cases "sq_slot r j = ?i")
    case True
    then show ?thesis using wf sq_slot_less [OF wf, of j] by (simp add: f sq_wf_def)
  next
    case False
    then have "j \<noteq> sq_count r" by auto
    then have "j < sq_count r" using that by simp
    with False wf show ?thesis by (auto simp: f sq_wf_def)
  qed
  show wf': "sq_wf (sq_put r s)"
    using wf c k(2) arr by (simp add: sq_wf_def cnt slot) (simp add: f)
  show len: "length (r_sqes (sq_put r s)) = length (r_sqes r)" by (simp add: f)
  have "sq_contents (sq_put r s) = ring_contents ((r_sqes r)[?i := s]) (unat (r_sq_head r)) (Suc (sq_count r))"
    unfolding sq_contents_ring [OF wf'] cnt by (simp add: f)
  also have "\<dots> = sq_contents r @ [s]"
    unfolding sq_contents_ring [OF wf] sq_slot_def using c k(2) by (intro ring_push_contents) simp
  finally show "sq_contents (sq_put r s) = sq_contents r @ [s]" .
qed

lemma sq_take_wf:
  assumes wf: "sq_wf r" and some: "r_sq_head r \<noteq> r_sq_tail_local r"
  shows "sq_wf (sq_take r)" "sq_count (sq_take r) = sq_count r - 1" "sq_contents (sq_take r) = tl (sq_contents r)"
proof -
  obtain k where k: "k \<le> 31" "length (r_sqes r) = 2 ^ k" using wf by (auto simp: sq_wf_def)
  have pos: "sq_count r > 0" using some by (auto simp: sq_count_def ring_sq_pending_def unat_gt_0)
  have "ring_sq_pending (sq_take r) = ring_sq_pending r - 1" by (simp add: sq_take_def ring_sq_pending_def)
  then show cnt: "sq_count (sq_take r) = sq_count r - 1"
    using pos unat_minus_one [of "ring_sq_pending r"] by (auto simp: sq_count_def unat_gt_0)
  have d: "(2::nat) ^ k dvd 2 ^ 32" using k(1) by (intro le_imp_power_dvd) simp
  have h: "unat (r_sq_head (sq_take r)) mod 2 ^ k = (unat (r_sq_head r) + 1) mod 2 ^ k"
    using mod_mod_cancel [OF d] by (simp add: sq_take_def unat_word_ariths)
  have slot: "sq_slot (sq_take r) i = sq_slot r (Suc i)" for i
  proof -
    have "sq_slot (sq_take r) i = (unat (r_sq_head (sq_take r)) mod 2 ^ k + i) mod 2 ^ k"
      by (simp add: sq_slot_def k(2) mod_simps) (simp add: sq_take_def k(2))
    also have "\<dots> = sq_slot r (Suc i)" unfolding h by (simp add: sq_slot_def k(2) mod_simps)
    finally show ?thesis .
  qed
  have same: "r_sqes (sq_take r) = r_sqes r" "r_sq_array (sq_take r) = r_sq_array r"
      "r_sq_entries (sq_take r) = r_sq_entries r" "r_sq_mask (sq_take r) = r_sq_mask r"
    by (simp_all add: sq_take_def)
  show wf': "sq_wf (sq_take r)"
    using wf pos by (auto simp: sq_wf_def cnt slot same)
  have "sq_contents (sq_take r) = ring_contents (r_sqes r) ((unat (r_sq_head r) + 1) mod length (r_sqes r)) (sq_count r - 1)"
    unfolding sq_contents_ring [OF wf'] cnt same ring_contents_def
  proof (rule map_cong [OF refl])
    fix i
    have "(unat (r_sq_head (sq_take r)) + i) mod 2 ^ k = (unat (r_sq_head (sq_take r)) mod 2 ^ k + i) mod 2 ^ k"
      by (simp add: mod_simps)
    then show "r_sqes r ! ((unat (r_sq_head (sq_take r)) + i) mod length (r_sqes r)) =
        r_sqes r ! (((unat (r_sq_head r) + 1) mod length (r_sqes r) + i) mod length (r_sqes r))"
      unfolding k(2) h by simp
  qed
  then show "sq_contents (sq_take r) = tl (sq_contents r)"
    unfolding sq_contents_ring [OF wf] using ring_pop_contents [OF pos] by simp
qed

text \<open>The index stored through \<open>sq_array\<close> is the one the kernel reads.\<close>

lemma sq_front_contents:
  assumes wf: "sq_wf r" and some: "r_sq_head r \<noteq> r_sq_tail_local r"
  shows "sq_front r = hd (sq_contents r)"
proof -
  have "sq_count r > 0" using some by (auto simp: sq_count_def ring_sq_pending_def unat_gt_0)
  then have "[0..<sq_count r] = 0 # [1..<sq_count r]" by (simp add: upt_conv_Cons)
  then show ?thesis by (simp add: sq_contents_def sq_front_def)
qed

lemma sq_empty_iff: "r_sq_head r = r_sq_tail_local r \<longleftrightarrow> sq_contents r = []"
  by (auto simp: sq_contents_def sq_count_def ring_sq_pending_def unat_eq_0)

interpretation sq: bounded_queue sq_put sq_take sq_front sq_full "\<lambda>r. r_sq_head r = r_sq_tail_local r"
  sq_contents "\<lambda>r. length (r_sqes r)" sq_wf
proof (unfold_locales, goal_cases)
  case (1 q)
  have "sq_count q \<le> length (r_sqes q)" using 1 by (simp add: sq_wf_def)
  then show ?case using sq_full_iff [OF 1] by (auto simp: sq_contents_def)
next
  case (2 q)
  show ?case by (rule sq_empty_iff)
next
  case (3 q)
  then show ?case by (simp add: sq_contents_def sq_wf_def)
next
  case (4 q x)
  then show ?case by (rule sq_put_wf(3))
next
  case (5 q x)
  then show ?case by (rule sq_put_wf(1))
next
  case (6 q x)
  then show ?case by (rule sq_put_wf(4))
next
  case (7 q)
  then show ?case by (intro sq_front_contents)
next
  case (8 q)
  then show ?case by (intro sq_take_wf(3))
next
  case (9 q)
  then show ?case by (intro sq_take_wf(1))
next
  case (10 q)
  show ?case by (simp add: sq_take_def)
qed

text \<open>A ring as the kernel sets it up: 2\<open>\<^sup>k\<close> entries, both queues empty at some counter values.\<close>

definition fresh_ring :: "nat \<Rightarrow> u32 \<Rightarrow> u32 \<Rightarrow> ring" where
  "fresh_ring k h h' = \<lparr>r_fd = 3, r_sq_head = h, r_sq_tail = h, r_sq_array = replicate (2 ^ k) 0,
     r_sq_mask = mask k, r_sq_entries = 2 ^ k, r_sq_tail_local = h, r_sqes = replicate (2 ^ k) zero_sqe,
     r_cq_head = h', r_cq_tail = h', r_cq_mask = mask (Suc k), r_cq_entries = 2 ^ Suc k,
     r_cq_head_local = h', r_cq_tail_local = h',
     r_cqes = replicate (2 ^ Suc k) \<lparr>cqe_user_data = 0, cqe_res = 0, cqe_flags = 0\<rparr>\<rparr>"

lemma fresh_ring_wf: "k \<le> 31 \<Longrightarrow> sq_wf (fresh_ring k h h') \<and> sq_contents (fresh_ring k h h') = []"
  by (auto simp: fresh_ring_def sq_wf_def sq_count_def ring_sq_pending_def sq_contents_def)

text \<open>C33: the submission queue is a FIFO of at most \<open>sq_entries\<close> entries across any wrap of its u32
  counters: getting an entry fails exactly when it is full, and otherwise hands out a zeroed entry
  that is none of those still pending, appends it, and keeps the order the kernel reads.\<close>

theorem sq_fifo:
  assumes "sq_wf r"
  shows "(fst (ring_get_sqe r) = None \<longleftrightarrow> length (sq_contents r) = length (r_sqes r))
    \<and> (fst (ring_get_sqe r) = None \<longrightarrow> snd (ring_get_sqe r) = r)
    \<and> (\<forall>i. fst (ring_get_sqe r) = Some i \<longrightarrow> (\<forall>f. sq_wf (sqe_update (snd (ring_get_sqe r)) i f)
         \<and> sq_contents (sqe_update (snd (ring_get_sqe r)) i f) = sq_contents r @ [f zero_sqe]))"
proof (intro conjI)
  show "fst (ring_get_sqe r) = None \<longleftrightarrow> length (sq_contents r) = length (r_sqes r)"
    using sq_full_iff [OF assms] by (simp add: sq_full_def sq_contents_def)
  show "fst (ring_get_sqe r) = None \<longrightarrow> snd (ring_get_sqe r) = r"
    by (simp add: ring_get_sqe_def Let_def)
  show "\<forall>i. fst (ring_get_sqe r) = Some i \<longrightarrow> (\<forall>f. sq_wf (sqe_update (snd (ring_get_sqe r)) i f)
         \<and> sq_contents (sqe_update (snd (ring_get_sqe r)) i f) = sq_contents r @ [f zero_sqe])"
  proof (intro allI impI)
    fix i f
    assume i: "fst (ring_get_sqe r) = Some i"
    then have room: "\<not> sq_full r" by (simp add: sq_full_def)
    have "sqe_update (snd (ring_get_sqe r)) i f = sq_put r (f zero_sqe)"
      using i sq_put_fields [OF assms room] sq_slot_less [OF assms, of "sq_count r"] by (auto simp: sqe_update_def)
    then show "sq_wf (sqe_update (snd (ring_get_sqe r)) i f)
         \<and> sq_contents (sqe_update (snd (ring_get_sqe r)) i f) = sq_contents r @ [f zero_sqe]"
      using sq.enq_invar [OF assms room] sq.enq_contents [OF assms room] by simp
  qed
qed

text \<open>Two entries taken with the tail at its last value: the counter wraps and both stay pending.\<close>

theorem sq_fifo_witness:
  "\<exists>i. fst (ring_get_sqe (fresh_ring 4 0xFFFFFFFF 0)) = Some i
    \<and> sq_contents (sqe_update (snd (ring_get_sqe (fresh_ring 4 0xFFFFFFFF 0))) i (\<lambda>s. ring_prep_close s 7))
        = [ring_prep_close zero_sqe 7]"
proof -
  let ?r = "fresh_ring 4 0xFFFFFFFF 0"
  have wf: "sq_wf ?r" and e: "sq_contents ?r = []" using fresh_ring_wf [of 4 "0xFFFFFFFF" 0] by simp_all
  have "length (r_sqes ?r) = 16" by (simp add: fresh_ring_def)
  with sq_fifo [OF wf] e show ?thesis by (cases "fst (ring_get_sqe ?r)") auto
qed

section \<open>The completion queue\<close>

definition cq_count :: "ring \<Rightarrow> nat" where
  "cq_count r = unat (r_cq_tail_local r - r_cq_head_local r)"

definition cq_contents :: "ring \<Rightarrow> io_uring_cqe list" where
  "cq_contents r = map (\<lambda>i. r_cqes r ! unat ((r_cq_head_local r + of_nat i) AND r_cq_mask r)) [0..<cq_count r]"

lemma cq_peek_advance:
  "ring_peek_cqe r = (case cq_contents r of [] \<Rightarrow> None | e # _ \<Rightarrow> Some e)"
  "r_cq_head_local r \<noteq> r_cq_tail_local r \<Longrightarrow> cq_contents (ring_cq_advance r 1) = tl (cq_contents r)"
proof -
  show "ring_peek_cqe r = (case cq_contents r of [] \<Rightarrow> None | e # _ \<Rightarrow> Some e)"
  proof (cases "r_cq_head_local r = r_cq_tail_local r")
    case True
    then show ?thesis by (simp add: ring_peek_cqe_def cq_contents_def cq_count_def)
  next
    case False
    then have "cq_count r > 0" by (simp add: cq_count_def unat_gt_0)
    then have "[0..<cq_count r] = 0 # [1..<cq_count r]" by (simp add: upt_conv_Cons)
    with False show ?thesis by (simp add: ring_peek_cqe_def cq_contents_def)
  qed
  assume ne: "r_cq_head_local r \<noteq> r_cq_tail_local r"
  then obtain n where n: "cq_count r = Suc n" by (cases "cq_count r") (auto simp: cq_count_def unat_eq_0)
  have "r_cq_tail_local r - (r_cq_head_local r + 1) = (r_cq_tail_local r - r_cq_head_local r) - 1" by simp
  moreover have "unat ((r_cq_tail_local r - r_cq_head_local r) - 1) = n"
    using ne n by (subst unat_minus_one) (simp_all add: cq_count_def)
  ultimately have "unat (r_cq_tail_local r - (r_cq_head_local r + 1)) = n" by (simp only:)
  then have c: "cq_count (ring_cq_advance r 1) = n"
    by (simp add: cq_count_def ring_cq_advance_def)
  have "[0..<Suc n] = 0 # map Suc [0..<n]" by (simp add: map_Suc_upt upt_conv_Cons del: upt_Suc)
  then show "cq_contents (ring_cq_advance r 1) = tl (cq_contents r)"
    unfolding cq_contents_def c n by (simp add: ring_cq_advance_def add.assoc comp_def)
qed

end
