(* ===== verification/State.thy ===== *)
theory State
  imports Inflight Hashmap Trie_Ops Io_Uring "HOL-Library.Monad_Syntax"
begin

text \<open>
  The broker's state, \<^verbatim>\<open>src/src/broker/state.h\<close>: initialisation and cleanup, the two retry queues,
  the slots of the clients, and the packing of SQE user data.  A pointer to a client slot is its
  index; \<open>None\<close> as the result of an operation is a loop that does not end.
\<close>

section \<open>State\<close>

text \<open>The direct system calls of the event loop, logged in the state.\<close>

datatype sys_call =
    Shutdown int
  | Close int
  | Write int bytes
  | Setsockopt_nodelay int

record broker =
  b_ring :: ring
  b_listen_fd :: int
  b_running :: bool
  b_max_clients :: nat
  b_max_fds :: nat
  b_port :: u16
  b_max_inflight :: nat
  b_clients :: "client_slot list"
  b_clients_map :: "region option"
  b_inflight_hot_arena :: "region option"
  b_inflight_cold_arena :: "region option"
  b_inflight_hash_arena :: "region option"
  b_pending_arena :: "region option"
  b_recv_retry_queue :: "nat list"
  b_recv_retry_map :: "region option"
  b_recv_retry_head :: nat
  b_recv_retry_tail :: nat
  b_recv_retry_capacity :: nat
  b_egress_arena :: "region option"
  b_egress_capacity :: nat
  b_egress_flush_queue :: "u32 list"
  b_egress_flush_map :: "region option"
  b_egress_flush_head :: nat
  b_egress_flush_tail :: nat
  b_egress_flush_capacity :: nat
  b_fd_to_slot :: "int list"
  b_fd_to_slot_map :: "region option"
  b_recv_pool :: buf_pool
  b_msg_pool :: msg_pool
  b_free_head :: nat
  b_active_count :: nat
  b_dormant_count :: nat
  b_trie :: topic_trie
  b_client_map :: hashmap
  b_now :: u64
  b_last_timeout_sweep :: u64
  b_accept_pending :: nat
  b_accepts :: u64
  b_bytes_recv :: u64
  b_bytes_sent :: u64
  b_msgs_published :: u64
  b_msgs_dropped :: u64
  b_drops_inflight_full :: u64
  b_drops_msg_pool_empty :: u64
  b_drops_sq_full :: u64
  b_drops_send_failed :: u64
  b_drops_resp_full :: u64
  b_drops_egress_full :: u64
  b_stolen_buffers :: u64
  b_recv_retries :: u64
  b_egress_retries :: u64
  b_calls :: "sys_call list"

definition client_at :: "broker \<Rightarrow> nat \<Rightarrow> client_slot" where
  "client_at b i = b_clients b ! i"

definition client_update :: "broker \<Rightarrow> nat \<Rightarrow> (client_slot \<Rightarrow> client_slot) \<Rightarrow> broker" where
  "client_update b i f = b\<lparr>b_clients := (b_clients b)[i := f (b_clients b ! i)]\<rparr>"

section \<open>Initialisation and cleanup\<close>

text \<open>The sizes the compiler gives to the two structures that no assertion of the source fixes.\<close>

record abi =
  sizeof_client_slot :: nat
  sizeof_pending_msg :: nat

definition zero_segment :: egress_segment where
  "zero_segment = \<lparr>seg_msg_idx = 0, seg_packet_id = 0, seg_kind = 0, seg_qos = 0, seg_dup = 0, seg_retain = 0,
     seg_slot_gen = 0, seg_ctrl_len = 0, seg_ctrl = replicate 8 0, seg_cursor = 0\<rparr>"

definition LLMQ_PENDING_MSG_DATA :: nat where
  "LLMQ_PENDING_MSG_DATA = 1024"

definition zero_pending :: pending_msg where
  "zero_pending = \<lparr>pm_topic_offset = 0, pm_topic_len = 0, pm_payload_len = 0, pm_qos = 0,
     pm_data = replicate LLMQ_PENDING_MSG_DATA 0\<rparr>"

text \<open>A slot wired to its part of the arenas and put into the free list.\<close>

definition initial_client :: "nat \<Rightarrow> nat \<Rightarrow> nat \<Rightarrow> nat \<Rightarrow> client_slot" where
  "initial_client max_clients max_inflight egress_capacity i =
     zero_client\<lparr>
       c_inflight_hot := replicate max_inflight
         \<lparr>ih_packet_id = 0, ih_state = INFLIGHT_FREE, ih_direction = 0, ih_msg_idx = 0\<rparr>,
       c_inflight_cold := replicate max_inflight
         \<lparr>ic_deadline = 0, ic_packet_id_be = (0, 0), ic_qos = 0, ic_dup_count = 0\<rparr>,
       c_inflight_pkt_hash := replicate (2 * max_inflight) 0,
       c_pending := replicate LLMQ_MAX_PENDING_MSGS zero_pending,
       c_egress := replicate egress_capacity zero_segment,
       c_egress_capacity := egress_capacity, c_egress_mask := egress_capacity - 1,
       c_state := CLIENT_FREE, c_fd := (if i = max_clients - 1 then -1 else int i + 1),
       c_recv_buf_idx := BUF_POOL_INVALID, c_orphaned_recv_buf_idx := BUF_POOL_INVALID,
       c_generation := 0, c_recv_pending := False\<rparr>"

text \<open>A list of \<open>sys_munmap\<close> calls; a failed mapping has nothing to unmap.\<close>

definition munmap_opt :: "region option \<Rightarrow> nat \<Rightarrow> vm \<Rightarrow> vm" where
  "munmap_opt r len v = (case r of None \<Rightarrow> v | Some r \<Rightarrow> sys_munmap r len v)"

fun munmaps :: "(region option \<times> nat) list \<Rightarrow> vm \<Rightarrow> vm" where
  "munmaps [] v = v"
| "munmaps ((r, len) # rs) v = munmaps rs (munmap_opt r len v)"

definition pools_cleanup :: "msg_pool \<Rightarrow> buf_pool \<Rightarrow> vm \<Rightarrow> vm" where
  "pools_cleanup mp bp v = snd (buf_pool_cleanup bp (snd (msg_pool_cleanup mp v)))"

definition broker_init ::
  "(nat \<Rightarrow> bool) \<Rightarrow> abi \<Rightarrow> broker \<Rightarrow> nat \<Rightarrow> nat \<Rightarrow> nat \<Rightarrow> nat \<Rightarrow> nat \<Rightarrow> nat \<Rightarrow> vm \<Rightarrow> (broker option \<times> vm) option" where
  "broker_init ok a b max_clients max_fds max_inflight recv_buf_size msg_pool_size egress_capacity v =
   (if egress_capacity = 0 \<or> egress_capacity AND (egress_capacity - 1) \<noteq> 0 then Some (None, v)
    else
    let retry_capacity = max_clients + 1;
        retry_size = retry_capacity * 4
    in case sys_mmap ok retry_size v of (None, v) \<Rightarrow> Some (None, v) | (Some retry, v) \<Rightarrow>
    case sys_mmap ok retry_size v of
      (None, v) \<Rightarrow> Some (None, munmaps [(Some retry, retry_size)] v) | (Some flush, v) \<Rightarrow>
    let queues = [(Some flush, retry_size), (Some retry, retry_size)]
    in case buf_pool_init ok max_clients recv_buf_size v of
      (None, v) \<Rightarrow> Some (None, munmaps queues v) | (Some recv_pool, v) \<Rightarrow>
    case msg_pool_init ok msg_pool_size v of
      (None, v) \<Rightarrow> Some (None, munmaps queues (snd (buf_pool_cleanup recv_pool v))) | (Some mpool, v) \<Rightarrow>
    let clients_size = max_clients * sizeof_client_slot a
    in case sys_mmap ok clients_size v of
      (None, v) \<Rightarrow> Some (None, munmaps queues (pools_cleanup mpool recv_pool v)) | (Some clients, v) \<Rightarrow>
    let hash_size = 2 * max_inflight;
        hot_size = max_clients * max_inflight * 8;
        cold_size = max_clients * max_inflight * 16;
        hash_arena_size = max_clients * hash_size * 2;
        pend_size = max_clients * LLMQ_MAX_PENDING_MSGS * sizeof_pending_msg a;
        (hot, v) = sys_mmap ok hot_size v;
        (cold, v) = sys_mmap ok cold_size v;
        (hash, v) = sys_mmap ok hash_arena_size v;
        (pend, v) = sys_mmap ok pend_size v;
        arenas = [(hot, hot_size), (cold, cold_size), (hash, hash_arena_size), (pend, pend_size)]
    in if hot = None \<or> cold = None \<or> hash = None \<or> pend = None
    then Some (None, munmaps queues (pools_cleanup mpool recv_pool (munmaps (arenas @ [(Some clients, clients_size)]) v)))
    else
    let egress_size = max_clients * egress_capacity * 24
    in case sys_mmap ok egress_size v of
      (None, v) \<Rightarrow> Some (None, munmaps queues (pools_cleanup mpool recv_pool
                     (munmaps (arenas @ [(Some clients, clients_size)]) v)))
    | (Some egress, v) \<Rightarrow>
    let fd_size = max_fds * 4
    in case sys_mmap ok fd_size v of
      (None, v) \<Rightarrow> Some (None, munmaps queues (pools_cleanup mpool recv_pool
                     (munmaps ((Some egress, egress_size) # arenas @ [(Some clients, clients_size)]) v)))
    | (Some fds, v) \<Rightarrow>
    (case hashmap_init ok (of_nat (max_clients * 2)) v of
       None \<Rightarrow> None
     | Some (None, v) \<Rightarrow> Some (None, snd (msg_pool_cleanup mpool (snd (buf_pool_cleanup recv_pool
            (munmaps ([(Some fds, fd_size), (Some egress, egress_size)] @ arenas @ [(Some clients, clients_size)] @ queues) v)))))
     | Some (Some cmap, v) \<Rightarrow> Some (Some (b\<lparr>
           b_max_clients := max_clients, b_max_fds := max_fds, b_max_inflight := max_inflight,
           b_active_count := 0, b_dormant_count := 0,
           b_recv_retry_capacity := retry_capacity, b_recv_retry_head := 0, b_recv_retry_tail := 0,
           b_recv_retry_queue := replicate retry_capacity 0, b_recv_retry_map := Some retry,
           b_egress_flush_capacity := retry_capacity, b_egress_flush_head := 0, b_egress_flush_tail := 0,
           b_egress_flush_queue := replicate retry_capacity 0, b_egress_flush_map := Some flush,
           b_recv_pool := recv_pool, b_msg_pool := mpool, b_clients_map := Some clients,
           b_inflight_hot_arena := hot, b_inflight_cold_arena := cold, b_inflight_hash_arena := hash,
           b_pending_arena := pend, b_egress_capacity := egress_capacity, b_egress_arena := Some egress,
           b_clients := map (initial_client max_clients max_inflight egress_capacity) [0..<max_clients],
           b_fd_to_slot_map := Some fds, b_free_head := 0, b_fd_to_slot := replicate max_fds (-1),
           b_trie := trie_init, b_client_map := cmap\<rparr>), v)))"

text \<open>Giving back the receive buffer of a slot that is in use.\<close>

definition cleanup_slot :: "broker \<Rightarrow> nat \<Rightarrow> broker" where
  "cleanup_slot b i =
     (let c = client_at b i
      in if c_state c = CLIENT_FREE then b
         else let b = (if c_recv_buf_idx c \<noteq> BUF_POOL_INVALID
                       then b\<lparr>b_recv_pool := buf_pool_free (b_recv_pool b) (c_recv_buf_idx c)\<rparr> else b)
              in client_update b i client_inflight_free_all)"

definition broker_cleanup :: "abi \<Rightarrow> broker \<Rightarrow> vm \<Rightarrow> broker \<times> vm" where
  "broker_cleanup a b v =
     (let b = foldl cleanup_slot b [0..<b_max_clients b];
          hash_sz = 2 * b_max_inflight b;
          v = munmaps [
            (b_inflight_hot_arena b, b_max_clients b * b_max_inflight b * 8),
            (b_inflight_cold_arena b, b_max_clients b * b_max_inflight b * 16),
            (b_inflight_hash_arena b, b_max_clients b * hash_sz * 2),
            (b_pending_arena b, b_max_clients b * LLMQ_MAX_PENDING_MSGS * sizeof_pending_msg a),
            (b_egress_arena b, b_max_clients b * b_egress_capacity b * 24),
            (b_clients_map b, b_max_clients b * sizeof_client_slot a),
            (b_fd_to_slot_map b, b_max_fds b * 4),
            (b_recv_retry_map b, b_recv_retry_capacity b * 4),
            (b_egress_flush_map b, b_egress_flush_capacity b * 4)] v;
          (recv_pool, v) = buf_pool_cleanup (b_recv_pool b) v;
          (mpool, v) = msg_pool_cleanup (b_msg_pool b) v;
          (cmap, v) = hashmap_cleanup (b_client_map b) v
      in (b\<lparr>b_recv_pool := recv_pool, b_msg_pool := mpool, b_client_map := cmap\<rparr>, v))"

section \<open>Retry queues\<close>

definition recv_retry_empty :: "broker \<Rightarrow> bool" where
  "recv_retry_empty b \<longleftrightarrow> b_recv_retry_head b = b_recv_retry_tail b"

definition recv_retry_full :: "broker \<Rightarrow> bool" where
  "recv_retry_full b \<longleftrightarrow> (b_recv_retry_tail b + 1) mod b_recv_retry_capacity b = b_recv_retry_head b"

definition recv_retry_enqueue :: "broker \<Rightarrow> nat \<Rightarrow> broker" where
  "recv_retry_enqueue b slot_idx =
     (if recv_retry_full b then b
      else b\<lparr>b_recv_retry_queue := (b_recv_retry_queue b)[b_recv_retry_tail b := slot_idx],
             b_recv_retry_tail := (b_recv_retry_tail b + 1) mod b_recv_retry_capacity b\<rparr>)"

definition recv_retry_dequeue :: "broker \<Rightarrow> nat \<times> broker" where
  "recv_retry_dequeue b =
     (if recv_retry_empty b then (b_max_clients b, b)
      else (b_recv_retry_queue b ! b_recv_retry_head b,
            b\<lparr>b_recv_retry_head := (b_recv_retry_head b + 1) mod b_recv_retry_capacity b\<rparr>))"

definition MAKE_EGRESS_CTX :: "u32 \<Rightarrow> u8 \<Rightarrow> u32" where
  "MAKE_EGRESS_CTX slot_idx gen = push_bit 8 (slot_idx AND 0xFFFFFF) OR (ucast gen AND 0xFF)"

definition EGRESS_CTX_SLOT :: "u32 \<Rightarrow> u32" where
  "EGRESS_CTX_SLOT ctx = drop_bit 8 ctx AND 0xFFFFFF"

definition EGRESS_CTX_GEN :: "u32 \<Rightarrow> u8" where
  "EGRESS_CTX_GEN ctx = ucast (ctx AND 0xFF)"

definition egress_flush_empty :: "broker \<Rightarrow> bool" where
  "egress_flush_empty b \<longleftrightarrow> b_egress_flush_head b = b_egress_flush_tail b"

definition egress_flush_full :: "broker \<Rightarrow> bool" where
  "egress_flush_full b \<longleftrightarrow> (b_egress_flush_tail b + 1) mod b_egress_flush_capacity b = b_egress_flush_head b"

definition egress_flush_enqueue :: "broker \<Rightarrow> nat \<Rightarrow> broker" where
  "egress_flush_enqueue b slot_idx =
     (if slot_idx \<ge> b_max_clients b then b
      else if c_egress_retry_queued (client_at b slot_idx) then b
      else if egress_flush_full b then b\<lparr>b_drops_sq_full := b_drops_sq_full b + 1\<rparr>
      else let ctx = MAKE_EGRESS_CTX (of_nat slot_idx) (c_generation (client_at b slot_idx));
               b = b\<lparr>b_egress_flush_queue := (b_egress_flush_queue b)[b_egress_flush_tail b := ctx]\<rparr>;
               b = client_update b slot_idx (\<lambda>c. c\<lparr>c_egress_retry_queued := True\<rparr>)
           in b\<lparr>b_egress_flush_tail := (b_egress_flush_tail b + 1) mod b_egress_flush_capacity b\<rparr>)"

definition egress_flush_dequeue :: "broker \<Rightarrow> u32 \<times> broker" where
  "egress_flush_dequeue b =
     (if egress_flush_empty b then (MAKE_EGRESS_CTX (of_nat (b_max_clients b)) 0, b)
      else let ctx = b_egress_flush_queue b ! b_egress_flush_head b;
               b = b\<lparr>b_egress_flush_head := (b_egress_flush_head b + 1) mod b_egress_flush_capacity b\<rparr>;
               slot_idx = unat (EGRESS_CTX_SLOT ctx)
           in (ctx, if slot_idx < b_max_clients b
                    then client_update b slot_idx (\<lambda>c. c\<lparr>c_egress_retry_queued := False\<rparr>) else b))"

section \<open>Slots\<close>

definition broker_alloc_slot :: "broker \<Rightarrow> int \<Rightarrow> nat option \<times> broker" where
  "broker_alloc_slot b fd =
     (if b_free_head b \<ge> b_max_clients b then (None, b)
      else if fd < 0 \<or> fd \<ge> int (b_max_fds b) then (None, b)
      else let (recv_buf_idx, recv_pool) = buf_pool_alloc (b_recv_pool b);
               b = b\<lparr>b_recv_pool := recv_pool\<rparr>
           in if recv_buf_idx = BUF_POOL_INVALID then (None, b)
              else let slot_idx = b_free_head b;
                       c = client_at b slot_idx;
                       b = b\<lparr>b_free_head := if c_fd c \<ge> 0 then nat (c_fd c) else b_max_clients b\<rparr>;
                       b = client_update b slot_idx (\<lambda>c. client_init c fd recv_buf_idx (b_max_inflight b))
                   in (Some slot_idx, b\<lparr>b_fd_to_slot := (b_fd_to_slot b)[nat fd := int slot_idx],
                                        b_active_count := b_active_count b + 1\<rparr>))"

text \<open>The first slot of a linear search that matches.\<close>

definition find_matching :: "broker \<Rightarrow> bytes \<Rightarrow> nat \<Rightarrow> u32 \<Rightarrow> nat option" where
  "find_matching b cid len hash = find (\<lambda>i. client_matches (client_at b i) cid len hash) [0..<b_max_clients b]"

definition broker_find_slot :: "broker \<Rightarrow> bytes \<Rightarrow> nat \<Rightarrow> nat option option" where
  "broker_find_slot b cid len =
     (let hash = fnv1a (take len cid)
      in case hashmap_find (b_client_map b) hash of
           None \<Rightarrow> None
         | Some slot_idx \<Rightarrow>
             if slot_idx \<noteq> HASHMAP_EMPTY \<and> client_matches (client_at b (unat slot_idx)) cid len hash
             then Some (Some (unat slot_idx))
             else Some (find_matching b cid len hash))"

definition broker_get_client_by_fd :: "broker \<Rightarrow> int \<Rightarrow> nat option" where
  "broker_get_client_by_fd b fd =
     (if fd < 0 \<or> fd \<ge> int (b_max_fds b) then None
      else let slot_idx = b_fd_to_slot b ! nat fd in if slot_idx < 0 then None else Some (nat slot_idx))"

definition broker_get_client :: "broker \<Rightarrow> nat \<Rightarrow> nat option" where
  "broker_get_client b slot_idx = (if slot_idx \<ge> b_max_clients b then None else Some slot_idx)"

definition broker_get_client_unchecked :: "broker \<Rightarrow> nat \<Rightarrow> nat" where
  "broker_get_client_unchecked b slot_idx = slot_idx"

definition broker_set_client_identity :: "broker \<Rightarrow> nat \<Rightarrow> bytes \<Rightarrow> nat \<Rightarrow> broker option" where
  "broker_set_client_identity b slot_idx cid len =
     (let b = client_update b slot_idx (\<lambda>c. client_set_identity c cid len)
      in map_option (\<lambda>(_, h). b\<lparr>b_client_map := h\<rparr>)
           (hashmap_insert (b_client_map b) (c_client_id_hash (client_at b slot_idx)) (of_nat slot_idx)))"

definition fd_unmap :: "broker \<Rightarrow> int \<Rightarrow> broker" where
  "fd_unmap b fd =
     (if fd \<ge> 0 \<and> fd < int (b_max_fds b) then b\<lparr>b_fd_to_slot := (b_fd_to_slot b)[nat fd := -1]\<rparr> else b)"

text \<open>A receive buffer the kernel may still write to is kept as the orphan of its slot.\<close>

definition drop_recv_buf :: "broker \<Rightarrow> nat \<Rightarrow> broker" where
  "drop_recv_buf b slot_idx =
     (let c = client_at b slot_idx
      in if c_recv_buf_idx c \<noteq> BUF_POOL_INVALID
         then if c_recv_pending c
              then client_update b slot_idx (\<lambda>c. c\<lparr>c_orphaned_recv_buf_idx := c_recv_buf_idx c\<rparr>)
              else b\<lparr>b_recv_pool := buf_pool_free (b_recv_pool b) (c_recv_buf_idx c)\<rparr>
         else b)"

definition broker_free_slot :: "broker \<Rightarrow> nat \<Rightarrow> broker option" where
  "broker_free_slot b slot_idx = do {
     let c = client_at b slot_idx;
     b \<leftarrow> (if c_client_id_len c > 0
          then map_option (\<lambda>(_, h). b\<lparr>b_client_map := h\<rparr>)
                 (hashmap_remove (b_client_map b) (c_client_id_hash c) (of_nat slot_idx))
          else Some b);
     let b = (if c_state c = CLIENT_ACTIVE \<or> c_state c = CLIENT_CLOSING
              then drop_recv_buf (fd_unmap (b\<lparr>b_active_count := b_active_count b - 1\<rparr>) (c_fd c)) slot_idx
              else if c_state c = CLIENT_DORMANT then b\<lparr>b_dormant_count := b_dormant_count b - 1\<rparr>
              else b);
     let b = client_update b slot_idx client_inflight_free_all;
     let b = b\<lparr>b_trie := trie_remove_fd (b_trie b) slot_idx\<rparr>;
     let b = client_update b slot_idx (\<lambda>c. (client_free c)\<lparr>c_fd := int (b_free_head b)\<rparr>);
     Some (b\<lparr>b_free_head := slot_idx\<rparr>)
   }"

definition broker_slot_go_dormant :: "broker \<Rightarrow> nat \<Rightarrow> broker" where
  "broker_slot_go_dormant b slot_idx =
     (let c = client_at b slot_idx
      in if c_state c \<noteq> CLIENT_ACTIVE \<and> c_state c \<noteq> CLIENT_CLOSING then b
         else let b = drop_recv_buf (fd_unmap b (c_fd c)) slot_idx;
                  b = client_update b slot_idx client_go_dormant
              in b\<lparr>b_active_count := b_active_count b - 1, b_dormant_count := b_dormant_count b + 1\<rparr>)"

definition broker_slot_resume :: "broker \<Rightarrow> nat \<Rightarrow> int \<Rightarrow> broker" where
  "broker_slot_resume b slot_idx fd =
     (if c_state (client_at b slot_idx) \<noteq> CLIENT_DORMANT then b
      else let (recv_buf_idx, recv_pool) = buf_pool_alloc (b_recv_pool b);
               b = b\<lparr>b_recv_pool := recv_pool\<rparr>
           in if recv_buf_idx = BUF_POOL_INVALID then b
              else let b = client_update b slot_idx (\<lambda>c. c\<lparr>c_state := CLIENT_ACTIVE, c_fd := fd,
                             c_recv_buf_idx := recv_buf_idx, c_recv_len := 0\<rparr>)
                   in b\<lparr>b_fd_to_slot := (b_fd_to_slot b)[nat fd := int slot_idx],
                        b_active_count := b_active_count b + 1, b_dormant_count := b_dormant_count b - 1\<rparr>)"

section \<open>User data\<close>

abbreviation (input) "OP_ACCEPT \<equiv> 1 :: u8"
abbreviation (input) "OP_RECV \<equiv> 2 :: u8"
abbreviation (input) "OP_SEND \<equiv> 3 :: u8"
abbreviation (input) "OP_CLOSE \<equiv> 4 :: u8"
abbreviation (input) "OP_EGRESS \<equiv> 5 :: u8"
abbreviation (input) "OP_SEND_RESP \<equiv> 7 :: u8"

definition make_user_data :: "u8 \<Rightarrow> u32 \<Rightarrow> u32 \<Rightarrow> u64" where
  "make_user_data op fd ctx =
     push_bit 56 (ucast op) OR push_bit 32 (ucast (fd AND 0xFFFFFF)) OR ucast ctx"

definition ud_op :: "u64 \<Rightarrow> u8" where
  "ud_op ud = ucast (drop_bit 56 ud)"

definition ud_fd :: "u64 \<Rightarrow> u32" where
  "ud_fd ud = ucast (drop_bit 32 ud AND 0xFFFFFF)"

definition ud_ctx :: "u64 \<Rightarrow> u32" where
  "ud_ctx ud = ucast (ud AND 0xFFFFFFFF)"

lemma word_and_masks:
  "x AND 0xFFFFFF = take_bit 24 (x :: 'a::len word)" "x AND 0xFFFFFFFF = take_bit 32 (x :: 'a::len word)"
  by (simp_all add: take_bit_eq_mask mask_eq_exp_minus_1)

lemma ud_bits:
  "bit (make_user_data op fd ctx) n \<longleftrightarrow>
     (n \<ge> 56 \<and> n < 64 \<and> bit op (n - 56)) \<or> (n \<ge> 32 \<and> n < 56 \<and> bit fd (n - 32)) \<or> (n < 32 \<and> bit ctx n)"
  unfolding make_user_data_def word_and_masks
  using bit_imp_le_length [of op "n - 56"] bit_imp_le_length [of ctx n]
  by (auto simp: bit_simps)

text \<open>Unpacking user data gives back the operation, the low 24 bits of the descriptor and the
  context; packing the egress context gives back the slot and the generation.\<close>

theorem user_data_roundtrip:
  "ud_op (make_user_data op fd ctx) = op \<and> ud_fd (make_user_data op fd ctx) = take_bit 24 fd
     \<and> ud_ctx (make_user_data op fd ctx) = ctx
     \<and> EGRESS_CTX_SLOT (MAKE_EGRESS_CTX slot gen) = take_bit 24 slot \<and> EGRESS_CTX_GEN (MAKE_EGRESS_CTX slot gen) = gen"
proof (intro conjI)
  show "ud_op (make_user_data op fd ctx) = op"
    by (rule bit_word_eqI) (auto simp: ud_op_def ud_bits bit_simps)
  show "ud_fd (make_user_data op fd ctx) = take_bit 24 fd"
    unfolding ud_fd_def word_and_masks by (rule bit_word_eqI) (auto simp: ud_bits bit_simps)
  show "ud_ctx (make_user_data op fd ctx) = ctx"
    unfolding ud_ctx_def word_and_masks by (rule bit_word_eqI) (auto simp: ud_bits bit_simps)
  show "EGRESS_CTX_SLOT (MAKE_EGRESS_CTX slot gen) = take_bit 24 slot"
    unfolding EGRESS_CTX_SLOT_def MAKE_EGRESS_CTX_def word_and_masks word_and_FF
    by (rule bit_word_eqI) (auto simp: bit_simps)
  show "EGRESS_CTX_GEN (MAKE_EGRESS_CTX slot gen) = gen"
    unfolding EGRESS_CTX_GEN_def MAKE_EGRESS_CTX_def word_and_masks word_and_FF
    by (rule bit_word_eqI) (auto simp: bit_simps)
qed

section \<open>The retry queue is a bounded queue\<close>

definition recv_retry_count :: "broker \<Rightarrow> nat" where
  "recv_retry_count b = (b_recv_retry_tail b + b_recv_retry_capacity b - b_recv_retry_head b) mod b_recv_retry_capacity b"

definition recv_retry_contents :: "broker \<Rightarrow> nat list" where
  "recv_retry_contents b = ring_contents (b_recv_retry_queue b) (b_recv_retry_head b) (recv_retry_count b)"

definition recv_retry_wf :: "broker \<Rightarrow> bool" where
  "recv_retry_wf b \<longleftrightarrow> length (b_recv_retry_queue b) = b_recv_retry_capacity b
     \<and> b_recv_retry_head b < b_recv_retry_capacity b \<and> b_recv_retry_tail b < b_recv_retry_capacity b"

lemma ring_dist:
  fixes h t n :: nat
  assumes "h < n" "t < n"
  shows "(h + (t + n - h) mod n) mod n = t" "(t + n - h) mod n = 0 \<longleftrightarrow> h = t"
    "(t + 1) mod n = h \<longleftrightarrow> (t + n - h) mod n = n - 1"
    "(t + 1) mod n \<noteq> h \<Longrightarrow> ((t + 1) mod n + n - h) mod n = (t + n - h) mod n + 1"
    "h \<noteq> t \<Longrightarrow> (t + n - (h + 1) mod n) mod n = (t + n - h) mod n - 1"
proof -
  have D: "(u + n - g) mod n = (if g \<le> u then u - g else u + n - g)" if "g < n" "u < n" for g u
    using that by (simp add: le_mod_geq)
  note d = D [OF assms]
  have t1: "(t + 1) mod n = (if t + 1 = n then 0 else t + 1)" and h1: "(h + 1) mod n = (if h + 1 = n then 0 else h + 1)"
    using assms by auto
  show "(h + (t + n - h) mod n) mod n = t" using assms by (simp add: d le_mod_geq)
  show "(t + n - h) mod n = 0 \<longleftrightarrow> h = t" using assms by (auto simp: d)
  show "(t + 1) mod n = h \<longleftrightarrow> (t + n - h) mod n = n - 1" using assms unfolding t1 d by auto
  show "(t + 1) mod n \<noteq> h \<Longrightarrow> ((t + 1) mod n + n - h) mod n = (t + n - h) mod n + 1"
  proof -
    assume "(t + 1) mod n \<noteq> h"
    moreover have "((t + 1) mod n + n - h) mod n = (if h \<le> (t + 1) mod n then (t + 1) mod n - h else (t + 1) mod n + n - h)"
      using assms by (intro D) auto
    ultimately show ?thesis using assms unfolding t1 d by auto
  qed
  show "h \<noteq> t \<Longrightarrow> (t + n - (h + 1) mod n) mod n = (t + n - h) mod n - 1"
  proof -
    assume "h \<noteq> t"
    moreover have "(t + n - (h + 1) mod n) mod n = (if (h + 1) mod n \<le> t then t - (h + 1) mod n else t + n - (h + 1) mod n)"
      using assms by (intro D) auto
    ultimately show ?thesis using assms unfolding h1 d by auto
  qed
qed

lemma recv_retry_dist:
  assumes "recv_retry_wf b"
  shows "(b_recv_retry_head b + recv_retry_count b) mod b_recv_retry_capacity b = b_recv_retry_tail b"
    "recv_retry_empty b \<longleftrightarrow> recv_retry_count b = 0"
    "recv_retry_full b \<longleftrightarrow> recv_retry_count b = b_recv_retry_capacity b - 1"
    "recv_retry_count b < b_recv_retry_capacity b"
  using assms ring_dist [of "b_recv_retry_head b" "b_recv_retry_capacity b" "b_recv_retry_tail b"]
  by (auto simp: recv_retry_wf_def recv_retry_count_def recv_retry_empty_def recv_retry_full_def)

interpretation recv_retry: bounded_queue recv_retry_enqueue "\<lambda>b. snd (recv_retry_dequeue b)"
  "\<lambda>b. fst (recv_retry_dequeue b)" recv_retry_full recv_retry_empty recv_retry_contents
  "\<lambda>b. b_recv_retry_capacity b - 1" recv_retry_wf
proof (unfold_locales, goal_cases)
  case (1 q)
  then show ?case using recv_retry_dist [OF 1] by (auto simp: recv_retry_contents_def)
next
  case (2 q)
  then show ?case using recv_retry_dist [OF 2] by (auto simp: recv_retry_contents_def ring_contents_def)
next
  case (3 q)
  then show ?case using recv_retry_dist [OF 3] by (auto simp: recv_retry_contents_def)
next
  case (4 q x)
  note d = recv_retry_dist [OF 4(1)]
  have c: "recv_retry_count (recv_retry_enqueue q x) = Suc (recv_retry_count q)"
    using 4 ring_dist(4) [of "b_recv_retry_head q" "b_recv_retry_capacity q" "b_recv_retry_tail q"]
    by (simp add: recv_retry_enqueue_def recv_retry_full_def recv_retry_count_def recv_retry_wf_def)
  have "recv_retry_contents (recv_retry_enqueue q x) =
      ring_contents ((b_recv_retry_queue q)[b_recv_retry_tail q := x]) (b_recv_retry_head q) (Suc (recv_retry_count q))"
    unfolding recv_retry_contents_def c using 4 by (simp add: recv_retry_enqueue_def)
  also have "b_recv_retry_tail q = (b_recv_retry_head q + recv_retry_count q) mod length (b_recv_retry_queue q)"
    using d(1) 4(1) by (simp add: recv_retry_wf_def)
  also have "ring_contents ((b_recv_retry_queue q)[(b_recv_retry_head q + recv_retry_count q) mod length (b_recv_retry_queue q) := x])
      (b_recv_retry_head q) (Suc (recv_retry_count q)) = recv_retry_contents q @ [x]"
    unfolding recv_retry_contents_def using d(4) 4(1) by (intro ring_push_contents) (simp add: recv_retry_wf_def)
  finally show ?case .
next
  case (5 q x)
  then show ?case by (auto simp: recv_retry_wf_def recv_retry_enqueue_def)
next
  case (6 q x)
  then show ?case by (simp add: recv_retry_enqueue_def)
next
  case (7 q)
  then have "recv_retry_count q > 0" using recv_retry_dist(2) by auto
  with 7 show ?case
    by (simp add: recv_retry_dequeue_def recv_retry_contents_def ring_front recv_retry_wf_def)
next
  case (8 q)
  then have p: "recv_retry_count q > 0" using recv_retry_dist(2) by auto
  have c: "recv_retry_count (snd (recv_retry_dequeue q)) = recv_retry_count q - 1"
    using 8 ring_dist(5) [of "b_recv_retry_head q" "b_recv_retry_capacity q" "b_recv_retry_tail q"]
    by (simp add: recv_retry_dequeue_def recv_retry_empty_def recv_retry_count_def recv_retry_wf_def)
  show ?case
    unfolding recv_retry_contents_def c
    using 8 ring_pop_contents [OF p, of "b_recv_retry_queue q" "b_recv_retry_head q"]
    by (simp add: recv_retry_dequeue_def recv_retry_wf_def)
next
  case (9 q)
  then show ?case by (auto simp: recv_retry_wf_def recv_retry_dequeue_def)
next
  case (10 q)
  then show ?case by (simp add: recv_retry_dequeue_def)
qed

end
