(* ===== verification/State_Init.thy ===== *)
theory State_Init
  imports State
begin

text \<open>
  Initialisation and cleanup of the broker of \<^verbatim>\<open>src/src/broker/state.h\<close>: every path of
  \<open>broker_init\<close> that fails gives back what it mapped, and \<open>broker_cleanup\<close> undoes one that succeeds.
\<close>

section \<open>Regions held\<close>

definition omset :: "region option \<Rightarrow> region multiset" where
  "omset r = (case r of None \<Rightarrow> {#} | Some x \<Rightarrow> {#x#})"

definition sized :: "region option \<Rightarrow> nat \<Rightarrow> bool" where
  "sized r len \<longleftrightarrow> (\<forall>x. r = Some x \<longrightarrow> snd x = len)"

lemma omset_simps [simp]: "omset None = {#}" "omset (Some x) = {#x#}"
  by (simp_all add: omset_def)

lemma sized_simps [simp]: "sized None len" "sized (Some x) len \<longleftrightarrow> snd x = len"
  by (simp_all add: sized_def)

lemma sys_mmap_live: "sys_mmap ok len v = (r, v') \<Longrightarrow> mset (vm_live v') = mset (vm_live v) + omset r \<and> sized r len"
  by (cases r) (auto dest: sys_mmap_None sys_mmap_Some)

lemma munmap_opt_live: "sized r len \<Longrightarrow> mset (vm_live (munmap_opt r len v)) = mset (vm_live v) - omset r"
  by (cases r) (auto simp: munmap_opt_def)

lemma munmaps_live:
  "list_all (\<lambda>(r, len). sized r len) rs \<Longrightarrow>
     mset (vm_live (munmaps rs v)) = mset (vm_live v) - sum_list (map (\<lambda>x. omset (fst x)) rs)"
  by (induction rs v rule: munmaps.induct) (simp_all add: munmap_opt_live diff_union_single_conv)

definition buf_pool_regions :: "buf_pool \<Rightarrow> region multiset" where
  "buf_pool_regions p = omset (bp_map p) + omset (bp_stack_map p)"

definition buf_pool_sized :: "buf_pool \<Rightarrow> bool" where
  "buf_pool_sized p \<longleftrightarrow> sized (bp_map p) (bp_capacity p * bp_buf_size p) \<and> sized (bp_stack_map p) (bp_capacity p * 4)"

definition msg_pool_regions :: "msg_pool \<Rightarrow> region multiset" where
  "msg_pool_regions p = omset (mp_map p) + omset (mp_stack_map p)"

definition msg_pool_sized :: "msg_pool \<Rightarrow> bool" where
  "msg_pool_sized p \<longleftrightarrow> sized (mp_map p) (mp_capacity p * CANONICAL_MSG_SIZE) \<and> sized (mp_stack_map p) (mp_capacity p * 4)"

lemma buf_pool_init_live:
  "buf_pool_init ok c sz v = (None, v') \<Longrightarrow> mset (vm_live v') = mset (vm_live v)"
  "buf_pool_init ok c sz v = (Some p, v') \<Longrightarrow> mset (vm_live v') = mset (vm_live v) + buf_pool_regions p \<and> buf_pool_sized p"
  by (auto dest: buf_pool_init_None elim!: buf_pool_init_Some simp: buf_pool_regions_def buf_pool_sized_def)

lemma msg_pool_init_live:
  "msg_pool_init ok c v = (None, v') \<Longrightarrow> mset (vm_live v') = mset (vm_live v)"
  "msg_pool_init ok c v = (Some p, v') \<Longrightarrow> mset (vm_live v') = mset (vm_live v) + msg_pool_regions p \<and> msg_pool_sized p"
  by (auto dest: msg_pool_init_None elim!: msg_pool_init_Some simp: msg_pool_regions_def msg_pool_sized_def)

lemma buf_pool_cleanup_live:
  "buf_pool_sized p \<Longrightarrow> mset (vm_live (snd (buf_pool_cleanup p v))) = mset (vm_live v) - buf_pool_regions p"
  by (cases "bp_map p"; cases "bp_stack_map p")
     (auto simp: buf_pool_cleanup_def buf_pool_sized_def buf_pool_regions_def split: prod.splits)

lemma msg_pool_cleanup_live:
  "msg_pool_sized p \<Longrightarrow> mset (vm_live (snd (msg_pool_cleanup p v))) = mset (vm_live v) - msg_pool_regions p"
  by (cases "mp_map p"; cases "mp_stack_map p")
     (auto simp: msg_pool_cleanup_def msg_pool_sized_def msg_pool_regions_def split: prod.splits)

lemma hashmap_init_live:
  "hashmap_init ok c v = Some (None, v') \<Longrightarrow> mset (vm_live v') = mset (vm_live v)"
  "hashmap_init ok c v = Some (Some h, v') \<Longrightarrow> mset (vm_live v') = mset (vm_live v) + omset (hm_map h)
     \<and> sized (hm_map h) (hm_capacity h * 8)"
  by (auto simp: hashmap_init_def Let_def dest!: sys_mmap_None sys_mmap_Some split: option.splits prod.splits)

lemma hashmap_cleanup_live:
  "sized (hm_map h) (hm_capacity h * 8) \<Longrightarrow> mset (vm_live (snd (hashmap_cleanup h v))) = mset (vm_live v) - omset (hm_map h)"
  by (cases "hm_map h") (auto simp: hashmap_cleanup_def)

lemmas region_live = munmaps_live buf_pool_cleanup_live msg_pool_cleanup_live hashmap_cleanup_live pools_cleanup_def

text \<open>All that the broker holds, and that the sizes recorded are the sizes mapped.\<close>

definition broker_regions :: "broker \<Rightarrow> region multiset" where
  "broker_regions b = omset (b_inflight_hot_arena b) + omset (b_inflight_cold_arena b) + omset (b_inflight_hash_arena b)
     + omset (b_pending_arena b) + omset (b_egress_arena b) + omset (b_clients_map b) + omset (b_fd_to_slot_map b)
     + omset (b_recv_retry_map b) + omset (b_egress_flush_map b)
     + buf_pool_regions (b_recv_pool b) + msg_pool_regions (b_msg_pool b) + omset (hm_map (b_client_map b))"

definition broker_sized :: "abi \<Rightarrow> broker \<Rightarrow> bool" where
  "broker_sized a b \<longleftrightarrow> sized (b_inflight_hot_arena b) (b_max_clients b * b_max_inflight b * 8)
     \<and> sized (b_inflight_cold_arena b) (b_max_clients b * b_max_inflight b * 16)
     \<and> sized (b_inflight_hash_arena b) (b_max_clients b * (2 * b_max_inflight b) * 2)
     \<and> sized (b_pending_arena b) (b_max_clients b * LLMQ_MAX_PENDING_MSGS * sizeof_pending_msg a)
     \<and> sized (b_egress_arena b) (b_max_clients b * b_egress_capacity b * 24)
     \<and> sized (b_clients_map b) (b_max_clients b * sizeof_client_slot a)
     \<and> sized (b_fd_to_slot_map b) (b_max_fds b * 4)
     \<and> sized (b_recv_retry_map b) (b_recv_retry_capacity b * 4)
     \<and> sized (b_egress_flush_map b) (b_egress_flush_capacity b * 4)
     \<and> buf_pool_sized (b_recv_pool b) \<and> msg_pool_sized (b_msg_pool b)
     \<and> sized (hm_map (b_client_map b)) (hm_capacity (b_client_map b) * 8)"

declare munmaps.simps [simp del]

lemma mmap_stepE:
  assumes "(case sys_mmap ok len v of (None, v) \<Rightarrow> F v | (Some r, v) \<Rightarrow> G r v) = res"
  obtains v1 where "mset (vm_live v1) = mset (vm_live v)" "F v1 = res"
  | r v1 where "mset (vm_live v1) = add_mset r (mset (vm_live v))" "snd r = len" "G r v1 = res"
proof (cases "sys_mmap ok len v")
  case (Pair r v1)
  then show ?thesis using assms that sys_mmap_live [OF Pair] by (cases r) auto
qed

lemma mmap_letE:
  assumes "(case sys_mmap ok len v of (r, v) \<Rightarrow> F r v) = res"
  obtains r v1 where "mset (vm_live v1) = mset (vm_live v) + omset r" "sized r len" "F r v1 = res"
proof (cases "sys_mmap ok len v")
  case (Pair r v1)
  then show ?thesis using assms that sys_mmap_live [OF Pair] by auto
qed

lemma buf_stepE:
  assumes "(case buf_pool_init ok c sz v of (None, v) \<Rightarrow> F v | (Some r, v) \<Rightarrow> G r v) = res"
  obtains v1 where "mset (vm_live v1) = mset (vm_live v)" "F v1 = res"
  | p v1 where "mset (vm_live v1) = mset (vm_live v) + buf_pool_regions p" "buf_pool_sized p" "G p v1 = res"
proof (cases "buf_pool_init ok c sz v")
  case (Pair r v1)
  then show ?thesis using assms that buf_pool_init_live [of ok c sz v] by (cases r) auto
qed

lemma msg_stepE:
  assumes "(case msg_pool_init ok c v of (None, v) \<Rightarrow> F v | (Some r, v) \<Rightarrow> G r v) = res"
  obtains v1 where "mset (vm_live v1) = mset (vm_live v)" "F v1 = res"
  | p v1 where "mset (vm_live v1) = mset (vm_live v) + msg_pool_regions p" "msg_pool_sized p" "G p v1 = res"
proof (cases "msg_pool_init ok c v")
  case (Pair r v1)
  then show ?thesis using assms that msg_pool_init_live [of ok c v] by (cases r) auto
qed

lemma hashmap_stepE:
  assumes "(case hashmap_init ok c v of None \<Rightarrow> None | Some (None, v) \<Rightarrow> F v | Some (Some h, v) \<Rightarrow> G h v) = Some res"
  obtains v1 where "mset (vm_live v1) = mset (vm_live v)" "F v1 = Some res"
  | h v1 where "mset (vm_live v1) = mset (vm_live v) + omset (hm_map h)" "sized (hm_map h) (hm_capacity h * 8)"
      "G h v1 = Some res"
proof (cases "hashmap_init ok c v")
  case None
  then show ?thesis using assms by simp
next
  case (Some a)
  then show ?thesis
    using assms that hashmap_init_live [of ok c v] by (cases a; cases "fst a") auto
qed

lemma if_stepE:
  assumes "(if c then x else y) = res"
  obtains "c" "x = res" | "\<not> c" "y = res"
  using assms by (cases c) auto

lemma broker_init_live:
  assumes "broker_init ok a b0 max_clients max_fds max_inflight recv_buf_size msg_pool_size egress_capacity v = Some (r, v')"
  shows "case r of None \<Rightarrow> mset (vm_live v') = mset (vm_live v)
     | Some b \<Rightarrow> mset (vm_live v') = mset (vm_live v) + broker_regions b \<and> broker_sized a b"
proof (cases "egress_capacity = 0 \<or> egress_capacity AND (egress_capacity - 1) \<noteq> 0")
  case True
  then show ?thesis using assms by (auto simp: broker_init_def)
next
  case False
  note run = assms [unfolded broker_init_def if_not_P [OF False] Let_def]
  show ?thesis
    using run
    by (elim mmap_stepE mmap_letE buf_stepE msg_stepE if_stepE hashmap_stepE)
       (auto simp: region_live broker_regions_def broker_sized_def algebra_simps)
qed

section \<open>Cleanup\<close>

text \<open>The mappings and sizes the broker records.\<close>

definition mappings :: "broker \<Rightarrow> (region option \<times> nat) list" where
  "mappings b = [(b_inflight_hot_arena b, b_max_clients b), (b_inflight_cold_arena b, b_max_inflight b),
     (b_inflight_hash_arena b, b_egress_capacity b), (b_pending_arena b, b_max_fds b),
     (b_egress_arena b, b_recv_retry_capacity b), (b_clients_map b, b_egress_flush_capacity b),
     (b_fd_to_slot_map b, bp_capacity (b_recv_pool b)), (b_recv_retry_map b, bp_buf_size (b_recv_pool b)),
     (b_egress_flush_map b, mp_capacity (b_msg_pool b)), (bp_map (b_recv_pool b), hm_capacity (b_client_map b)),
     (bp_stack_map (b_recv_pool b), 0), (mp_map (b_msg_pool b), 0), (mp_stack_map (b_msg_pool b), 0),
     (hm_map (b_client_map b), 0)]"

lemma mappings_regions:
  assumes "mappings b' = mappings b"
  shows "broker_regions b' = broker_regions b" "broker_sized a b' = broker_sized a b"
  using assms
  by (auto simp: mappings_def broker_regions_def broker_sized_def buf_pool_regions_def buf_pool_sized_def
      msg_pool_regions_def msg_pool_sized_def)

lemma cleanup_slot_mappings: "mappings (cleanup_slot b i) = mappings b"
  by (simp add: mappings_def cleanup_slot_def client_update_def buf_pool_free_def Let_def)

lemma cleanup_slots_mappings: "mappings (foldl cleanup_slot b xs) = mappings b"
  by (induction xs arbitrary: b) (simp_all add: cleanup_slot_mappings)

lemma broker_cleanup_live:
  assumes "broker_sized a b"
  shows "mset (vm_live (snd (broker_cleanup a b v))) = mset (vm_live v) - broker_regions b"
proof -
  obtain b' where b': "foldl cleanup_slot b [0..<b_max_clients b] = b'" by simp
  have m: "mappings b' = mappings b" using cleanup_slots_mappings b' by metis
  have s: "broker_sized a b'" using assms mappings_regions(2) [OF m] by simp
  have "mset (vm_live (snd (broker_cleanup a b v))) = mset (vm_live v) - broker_regions b'"
    using s unfolding broker_cleanup_def Let_def b' case_prod_unfold snd_conv
    by (simp add: region_live broker_sized_def broker_regions_def add.assoc)
  then show ?thesis by (simp only: mappings_regions(1) [OF m])
qed

text \<open>C34: \<open>broker_init\<close> gives back every mapping it made on each path that fails, and after a success
  \<open>broker_cleanup\<close> gives back all of them, whatever the broker did in between that keeps its mappings.\<close>

theorem broker_init_leak_free:
  assumes "broker_init ok a b0 max_clients max_fds max_inflight recv_buf_size msg_pool_size egress_capacity v = Some (r, v')"
  shows "case r of None \<Rightarrow> mset (vm_live v') = mset (vm_live v)
    | Some b \<Rightarrow> \<forall>b'. mappings b' = mappings b \<longrightarrow> mset (vm_live (snd (broker_cleanup a b' v'))) = mset (vm_live v)"
proof (cases r)
  case None
  then show ?thesis using broker_init_live [OF assms] by simp
next
  case (Some b)
  have l: "mset (vm_live v') = mset (vm_live v) + broker_regions b" "broker_sized a b"
    using broker_init_live [OF assms] Some by simp_all
  have "mset (vm_live (snd (broker_cleanup a b' v'))) = mset (vm_live v)" if m: "mappings b' = mappings b" for b'
  proof -
    have "broker_sized a b'" using l(2) mappings_regions(2) [OF m] by simp
    from broker_cleanup_live [OF this] show ?thesis using l(1) mappings_regions(1) [OF m] by simp
  qed
  then show ?thesis using Some by simp
qed

text \<open>The seventh mapping of the run fails: both queues, the pools and the slots are unmapped again.\<close>

theorem broker_init_leak_free_witness:
  "\<forall>b0. \<exists>v'. broker_init (\<lambda>n. n \<noteq> 7) \<lparr>sizeof_client_slot = 1200, sizeof_pending_msg = 1032\<rparr> b0 2 4 8 64 4 64
      \<lparr>vm_calls = 0, vm_live = []\<rparr> = Some (None, v') \<and> mset (vm_live v') = {#}"
proof
  fix b0 :: broker
  let ?init = "broker_init (\<lambda>n. n \<noteq> 7) \<lparr>sizeof_client_slot = 1200, sizeof_pending_msg = 1032\<rparr> b0 2 4 8 64 4 64
      \<lparr>vm_calls = 0, vm_live = []\<rparr>"
  have "\<exists>v'. ?init = Some (None, v')"
    by (simp add: broker_init_def sys_mmap_def Let_def buf_pool_init_def msg_pool_init_def)
  then obtain v' where v': "?init = Some (None, v')" by blast
  from broker_init_leak_free [OF v'] show "\<exists>v'. ?init = Some (None, v') \<and> mset (vm_live v') = {#}"
    using v' by simp
qed

text \<open>\<open>broker_init\<close> returns for every number of clients the configuration allows.\<close>

lemma hashmap_noneE:
  assumes "(case hashmap_init ok c v of None \<Rightarrow> None | Some (None, v) \<Rightarrow> F v | Some (Some h, v) \<Rightarrow> G h v) = None"
    "hashmap_init ok c v \<noteq> None"
  obtains v1 where "F v1 = None" | h v1 where "G h v1 = None"
proof (cases "hashmap_init ok c v")
  case None
  then show ?thesis using assms by simp
next
  case (Some a)
  then show ?thesis using assms that by (cases a; cases "fst a") auto
qed

lemma broker_init_returns:
  assumes "max_clients \<le> 65536"
  shows "broker_init ok a b0 max_clients max_fds max_inflight recv_buf_size msg_pool_size egress_capacity v \<noteq> None"
proof -
  have "unat (of_nat (max_clients * 2) :: u32) = max_clients * 2"
    using assms by (subst unat_of_nat_mod) simp
  then have "unat (of_nat (max_clients * 2) :: u32) \<le> 2 ^ 31" using assms by simp
  then have "(of_nat (max_clients * 2) :: u32) \<le> 2 ^ 31" by (simp only: word_le_nat_alt unat_2_power, simp)
  then obtain m where "hashmap_round_up 30 16 (of_nat (max_clients * 2)) = Some (2 ^ m)"
    using hashmap_round_up_power [of "of_nat (max_clients * 2)" 4 30] by auto
  then have h: "hashmap_init ok (of_nat (max_clients * 2)) v \<noteq> None" for v
    by (simp add: hashmap_init_def HASHMAP_MIN_CAPACITY_def Let_def split: prod.splits option.splits)
  show ?thesis
  proof
    assume "broker_init ok a b0 max_clients max_fds max_inflight recv_buf_size msg_pool_size egress_capacity v = None"
    note run = this [unfolded broker_init_def Let_def]
    show False
      using run
      by (elim mmap_stepE mmap_letE buf_stepE msg_stepE if_stepE hashmap_noneE [OF _ h])
         (simp_all only: option.distinct)
  qed
qed

end
