(* ===== verification/Slots.thy ===== *)
theory Slots
  imports State_Init
begin

text \<open>
  The slot table of \<^verbatim>\<open>src/src/broker/state.h\<close>: an invariant over the free list, the counters, the
  descriptor map and the receive buffers, and what allocating, freeing and parking a slot do to it.
\<close>

section \<open>Invariant\<close>

definition connected :: "broker \<Rightarrow> nat \<Rightarrow> bool" where
  "connected b i \<longleftrightarrow> i < b_max_clients b \<and> (c_state (client_at b i) = CLIENT_ACTIVE \<or> c_state (client_at b i) = CLIENT_CLOSING)"

definition with_state :: "broker \<Rightarrow> client_state \<Rightarrow> nat set" where
  "with_state b s = {i. i < b_max_clients b \<and> c_state (client_at b i) = s}"

definition next_free :: "broker \<Rightarrow> nat \<Rightarrow> nat" where
  "next_free b i = (if c_fd (client_at b i) \<ge> 0 then nat (c_fd (client_at b i)) else b_max_clients b)"

fun slot_chain :: "broker \<Rightarrow> nat \<Rightarrow> nat list \<Rightarrow> bool" where
  "slot_chain b head [] \<longleftrightarrow> head = b_max_clients b"
| "slot_chain b head (x # xs) \<longleftrightarrow> head = x \<and> x < b_max_clients b \<and> slot_chain b (next_free b x) xs"

text \<open>The receive buffers a slot holds: its own and the orphan a pending receive may still fill.\<close>

definition held_bufs :: "client_slot \<Rightarrow> nat set" where
  "held_bufs c = {c_recv_buf_idx c, c_orphaned_recv_buf_idx c} - {BUF_POOL_INVALID}"

definition slots_wf :: "broker \<Rightarrow> nat list \<Rightarrow> bool" where
  "slots_wf b fl \<longleftrightarrow> length (b_clients b) = b_max_clients b
     \<and> distinct fl \<and> set fl = with_state b CLIENT_FREE \<and> slot_chain b (b_free_head b) fl
     \<and> b_active_count b = card {i. connected b i} \<and> b_dormant_count b = card (with_state b CLIENT_DORMANT)
     \<and> length (b_fd_to_slot b) = b_max_fds b
     \<and> (\<forall>i. connected b i \<longrightarrow> 0 \<le> c_fd (client_at b i) \<and> c_fd (client_at b i) < int (b_max_fds b)
          \<and> b_fd_to_slot b ! nat (c_fd (client_at b i)) = int i)
     \<and> (\<forall>fd < b_max_fds b. b_fd_to_slot b ! fd = -1 \<or> (\<exists>i. b_fd_to_slot b ! fd = int i \<and> connected b i
          \<and> c_fd (client_at b i) = int fd))
     \<and> buf_pool_wf (b_recv_pool b)
     \<and> (\<forall>i < b_max_clients b. held_bufs (client_at b i) \<subseteq> buf_pool_in_use (b_recv_pool b))
     \<and> (\<forall>i < b_max_clients b. \<forall>j < b_max_clients b. i \<noteq> j \<longrightarrow> held_bufs (client_at b i) \<inter> held_bufs (client_at b j) = {})
     \<and> (\<forall>i < b_max_clients b. c_recv_buf_idx (client_at b i) \<noteq> BUF_POOL_INVALID \<longrightarrow> connected b i
          \<and> c_recv_buf_idx (client_at b i) \<noteq> c_orphaned_recv_buf_idx (client_at b i))
     \<and> hashmap_wf (b_client_map b)"

lemma slots_wfD:
  assumes "slots_wf b fl"
  shows "length (b_clients b) = b_max_clients b" "distinct fl" "set fl = with_state b CLIENT_FREE"
    "slot_chain b (b_free_head b) fl" "b_active_count b = card {i. connected b i}"
    "b_dormant_count b = card (with_state b CLIENT_DORMANT)" "length (b_fd_to_slot b) = b_max_fds b"
    "connected b i \<Longrightarrow> 0 \<le> c_fd (client_at b i)" "connected b i \<Longrightarrow> c_fd (client_at b i) < int (b_max_fds b)"
    "connected b i \<Longrightarrow> b_fd_to_slot b ! nat (c_fd (client_at b i)) = int i"
    "fd < b_max_fds b \<Longrightarrow> b_fd_to_slot b ! fd = -1 \<or> (\<exists>i. b_fd_to_slot b ! fd = int i \<and> connected b i
          \<and> c_fd (client_at b i) = int fd)"
    "buf_pool_wf (b_recv_pool b)"
    "i < b_max_clients b \<Longrightarrow> held_bufs (client_at b i) \<subseteq> buf_pool_in_use (b_recv_pool b)"
    "i < b_max_clients b \<Longrightarrow> j < b_max_clients b \<Longrightarrow> i \<noteq> j \<Longrightarrow> held_bufs (client_at b i) \<inter> held_bufs (client_at b j) = {}"
    "i < b_max_clients b \<Longrightarrow> c_recv_buf_idx (client_at b i) \<noteq> BUF_POOL_INVALID \<Longrightarrow> connected b i
          \<and> c_recv_buf_idx (client_at b i) \<noteq> c_orphaned_recv_buf_idx (client_at b i)"
    "hashmap_wf (b_client_map b)"
  using assms unfolding slots_wf_def by blast+

lemma client_at_update:
  "i < length (b_clients b) \<Longrightarrow> client_at (client_update b i f) j = (if j = i then f (client_at b i) else client_at b j)"
  by (simp add: client_at_def client_update_def nth_list_update)

lemma finite_states [simp]: "finite {i. connected b i}" "finite (with_state b s)"
  by (simp_all add: connected_def with_state_def)

lemma slot_chain_cong:
  "slot_chain b head fl \<Longrightarrow> b_max_clients b' = b_max_clients b \<Longrightarrow>
   (\<And>x. x \<in> set fl \<Longrightarrow> c_fd (client_at b' x) = c_fd (client_at b x)) \<Longrightarrow> slot_chain b' head fl"
  by (induction b head fl rule: slot_chain.induct) (auto simp: next_free_def)

text \<open>Changing one slot: what has to be shown about the new slot alone.\<close>

lemma slots_wf_one:
  assumes wf: "slots_wf b fl" and s: "s < b_max_clients b"
    and same: "b_max_clients b' = b_max_clients b" "b_max_fds b' = b_max_fds b" "length (b_clients b') = length (b_clients b)"
      "\<And>j. j \<noteq> s \<Longrightarrow> client_at b' j = client_at b j"
    and fl: "distinct fl'" "set fl' = with_state b' CLIENT_FREE" "slot_chain b' (b_free_head b') fl'"
    and counts: "b_active_count b' = card {i. connected b' i}" "b_dormant_count b' = card (with_state b' CLIENT_DORMANT)"
    and fds: "length (b_fd_to_slot b') = b_max_fds b"
      "\<And>i. connected b' i \<Longrightarrow> 0 \<le> c_fd (client_at b' i) \<and> c_fd (client_at b' i) < int (b_max_fds b)
          \<and> b_fd_to_slot b' ! nat (c_fd (client_at b' i)) = int i"
      "\<And>fd. fd < b_max_fds b \<Longrightarrow> b_fd_to_slot b' ! fd = -1 \<or> (\<exists>i. b_fd_to_slot b' ! fd = int i \<and> connected b' i
          \<and> c_fd (client_at b' i) = int fd)"
    and pool: "buf_pool_wf (b_recv_pool b')" "held_bufs (client_at b' s) \<subseteq> buf_pool_in_use (b_recv_pool b')"
      "buf_pool_in_use (b_recv_pool b) - held_bufs (client_at b s) \<subseteq> buf_pool_in_use (b_recv_pool b')"
      "held_bufs (client_at b' s) \<inter> (buf_pool_in_use (b_recv_pool b) - held_bufs (client_at b s)) = {}"
      "c_recv_buf_idx (client_at b' s) \<noteq> BUF_POOL_INVALID \<Longrightarrow> connected b' s
          \<and> c_recv_buf_idx (client_at b' s) \<noteq> c_orphaned_recv_buf_idx (client_at b' s)"
    and map: "hashmap_wf (b_client_map b')"
  shows "slots_wf b' fl'"
  unfolding slots_wf_def same(1,2)
proof (intro conjI allI impI)
  show "length (b_clients b') = b_max_clients b" using slots_wfD(1) [OF wf] same(3) by simp
  have held: "held_bufs (client_at b i) \<subseteq> buf_pool_in_use (b_recv_pool b) - held_bufs (client_at b s)"
    if "i < b_max_clients b" "i \<noteq> s" for i
    using slots_wfD(13) [OF wf that(1)] slots_wfD(14) [OF wf that(1) s that(2)] by blast
  show "held_bufs (client_at b' i) \<subseteq> buf_pool_in_use (b_recv_pool b')" if "i < b_max_clients b" for i
  proof (cases "i = s")
    case True
    then show ?thesis using pool(2) by simp
  next
    case False
    have "held_bufs (client_at b' i) = held_bufs (client_at b i)" using same(4) [OF False] by simp
    then show ?thesis using order_trans [OF held [OF that False] pool(3)] by simp
  qed
  show "held_bufs (client_at b' i) \<inter> held_bufs (client_at b' j) = {}"
    if "i < b_max_clients b" "j < b_max_clients b" "i \<noteq> j" for i j
  proof -
    have ij: "i \<noteq> j" by (rule that(3))
    consider "i = s" "j \<noteq> s" | "j = s" "i \<noteq> s" | "i \<noteq> s" "j \<noteq> s" using ij by blast
    then show ?thesis
    proof cases
      case 1
      then show ?thesis using held [OF that(2) 1(2)] pool(4) same(4) [OF 1(2)] by (simp only:) blast
    next
      case 2
      then show ?thesis using held [OF that(1) 2(2)] pool(4) same(4) [OF 2(2)] by (simp only:) blast
    next
      case 3
      then show ?thesis using slots_wfD(14) [OF wf that] same(4) by simp
    qed
  qed
  have other: "connected b' i \<longleftrightarrow> connected b i" if "i \<noteq> s" for i
    using same(1) same(4) [OF that] by (simp add: connected_def)
  show "connected b' i" "c_recv_buf_idx (client_at b' i) \<noteq> c_orphaned_recv_buf_idx (client_at b' i)"
    if "i < b_max_clients b" "c_recv_buf_idx (client_at b' i) \<noteq> BUF_POOL_INVALID" for i
    using pool(5) slots_wfD(15) [OF wf that(1)] that(2) same(4) [of i] other [of i] by (cases "i = s"; simp)+
qed (use fl counts fds pool(1) map in auto)

lemma connected_other: "b_max_clients b' = b_max_clients b \<Longrightarrow> (\<And>j. j \<noteq> s \<Longrightarrow> client_at b' j = client_at b j) \<Longrightarrow>
   {i. connected b' i} - {s} = {i. connected b i} - {s} \<and> with_state b' st - {s} = with_state b st - {s}"
  by (auto simp: connected_def with_state_def)

lemma card_diff_eq: "finite A \<Longrightarrow> finite B \<Longrightarrow> A - {x} = B - {x} \<Longrightarrow> x \<notin> A \<Longrightarrow> x \<in> B \<Longrightarrow> card A = card B - 1"
proof -
  assume "A - {x} = B - {x}" "x \<notin> A" "x \<in> B"
  then have "A = B - {x}" by blast
  then show ?thesis using \<open>x \<in> B\<close> by simp
qed

lemma card_insert_eq: "finite B \<Longrightarrow> A - {x} = B - {x} \<Longrightarrow> x \<in> A \<Longrightarrow> x \<notin> B \<Longrightarrow> card A = card B + 1"
proof -
  assume "finite B" "A - {x} = B - {x}" "x \<in> A" "x \<notin> B"
  then have "A = insert x B" by blast
  then show ?thesis using \<open>finite B\<close> \<open>x \<notin> B\<close> by simp
qed

section \<open>Allocating a slot\<close>

lemma pool_take:
  assumes "buf_pool_wf p" "buf_pool_alloc p = (i, p')" "i \<noteq> BUF_POOL_INVALID"
  shows "buf_pool_wf p'" "buf_pool_in_use p' = insert i (buf_pool_in_use p)" "i \<notin> buf_pool_in_use p"
  using buf_pool.alloc_valid [OF assms] by auto

lemma broker_alloc_slot_None:
  assumes wf: "slots_wf b fl"
  shows "fst (broker_alloc_slot b fd) = None \<longleftrightarrow> fl = [] \<or> fd < 0 \<or> fd \<ge> int (b_max_fds b)
      \<or> buf_pool_in_use (b_recv_pool b) = {..<bp_capacity (b_recv_pool b)}"
    "fst (broker_alloc_slot b fd) = None \<Longrightarrow> snd (broker_alloc_slot b fd) = b"
proof -
  have h: "b_free_head b \<ge> b_max_clients b \<longleftrightarrow> fl = []"
    using slots_wfD(4) [OF wf] by (cases fl) auto
  note pw = slots_wfD(12) [OF wf]
  have al: "fst (buf_pool_alloc (b_recv_pool b)) = BUF_POOL_INVALID \<longleftrightarrow>
      buf_pool_in_use (b_recv_pool b) = {..<bp_capacity (b_recv_pool b)}"
    by (rule buf_pool.alloc_invalid_iff [OF pw])
  obtain i p where ip: "buf_pool_alloc (b_recv_pool b) = (i, p)" by (cases "buf_pool_alloc (b_recv_pool b)")
  show "fst (broker_alloc_slot b fd) = None \<longleftrightarrow> fl = [] \<or> fd < 0 \<or> fd \<ge> int (b_max_fds b)
      \<or> buf_pool_in_use (b_recv_pool b) = {..<bp_capacity (b_recv_pool b)}"
    using h al by (auto simp: broker_alloc_slot_def ip Let_def)
  assume "fst (broker_alloc_slot b fd) = None"
  moreover have "p = b_recv_pool b" if "i = BUF_POOL_INVALID"
    using buf_pool.alloc_full [OF pw] al ip that by simp
  ultimately show "snd (broker_alloc_slot b fd) = b"
    by (auto simp: broker_alloc_slot_def ip Let_def split: if_splits)
qed

lemma broker_alloc_slot_Some:
  assumes wf: "slots_wf b fl" and fresh: "b_fd_to_slot b ! nat fd = -1"
    and ok: "broker_alloc_slot b fd = (Some s, b')"
  shows "fl = s # tl fl" "slots_wf b' (tl fl)" "connected b' s" "c_state (client_at b' s) = CLIENT_ACTIVE"
    "c_fd (client_at b' s) = fd" "c_recv_buf_idx (client_at b' s) \<notin> buf_pool_in_use (b_recv_pool b)"
    "\<And>j. j \<noteq> s \<Longrightarrow> client_at b' j = client_at b j"
    "c_generation (client_at b' s) = c_generation (client_at b s) + 1"
proof -
  have ne: "fst (broker_alloc_slot b fd) \<noteq> None" using ok by simp
  then have fd: "0 \<le> fd" "fd < int (b_max_fds b)" and "fl \<noteq> []" and full: "buf_pool_in_use (b_recv_pool b) \<noteq> {..<bp_capacity (b_recv_pool b)}"
    using broker_alloc_slot_None(1) [OF wf] by auto
  obtain i p where ip: "buf_pool_alloc (b_recv_pool b) = (i, p)" by (cases "buf_pool_alloc (b_recv_pool b)")
  note pw = slots_wfD(12) [OF wf]
  have i: "i \<noteq> BUF_POOL_INVALID" using buf_pool.alloc_invalid_iff [OF pw] full ip by auto
  obtain x fl' where fl: "fl = x # fl'" using \<open>fl \<noteq> []\<close> by (cases fl) auto
  have head: "b_free_head b = x" "x < b_max_clients b" "slot_chain b (next_free b x) fl'"
    using slots_wfD(4) [OF wf] by (simp_all add: fl)
  have len: "x < length (b_clients b)" using slots_wfD(1) [OF wf] head(2) by simp
  have r: "s = x" "b' = (client_update (b\<lparr>b_recv_pool := p, b_free_head := next_free b x\<rparr>) x
       (\<lambda>c. client_init c fd i (b_max_inflight b)))\<lparr>b_fd_to_slot := (b_fd_to_slot b)[nat fd := int x],
         b_active_count := b_active_count b + 1\<rparr>"
    using ok fd i head by (auto simp: broker_alloc_slot_def ip Let_def next_free_def client_update_def client_at_def)
  have cl: "client_at b' j = (if j = s then client_init (client_at b s) fd i (b_max_inflight b) else client_at b j)" for j
    using len by (simp add: r client_update_def client_at_def nth_list_update)
  show "fl = s # tl fl" by (simp add: fl r(1))
  show act: "c_state (client_at b' s) = CLIENT_ACTIVE" and "c_fd (client_at b' s) = fd"
    and "c_generation (client_at b' s) = c_generation (client_at b s) + 1"
    by (simp_all add: cl client_init_def)
  have max_same: "b_max_clients b' = b_max_clients b" "b_max_fds b' = b_max_fds b"
    by (simp_all add: r client_update_def)
  show con: "connected b' s" using act head(2) by (simp add: connected_def max_same r(1))
  show "c_recv_buf_idx (client_at b' s) \<notin> buf_pool_in_use (b_recv_pool b)"
    using pool_take(3) [OF pw ip i] by (simp add: cl client_init_def)
  show other: "client_at b' j = client_at b j" if "j \<noteq> s" for j using that by (simp add: cl)
  have free: "with_state b CLIENT_FREE = insert s (set fl')" "s \<notin> set fl'" "distinct fl'"
    using slots_wfD(2,3) [OF wf] by (auto simp: fl r(1))
  then have sfree: "c_state (client_at b s) = CLIENT_FREE" by (auto simp: with_state_def)
  then have ncon: "\<not> connected b s" by (simp add: connected_def)
  have co: "{i. connected b' i} - {s} = {i. connected b i} - {s} \<and> with_state b' st - {s} = with_state b st - {s}" for st
    by (rule connected_other [OF max_same(1) other])
  have inv: "c_recv_buf_idx (client_at b s) = BUF_POOL_INVALID"
    using slots_wfD(15) [OF wf, of s] ncon head(2) by (auto simp: r(1))
  have orph: "c_orphaned_recv_buf_idx (client_at b' s) = c_orphaned_recv_buf_idx (client_at b s)"
      "c_recv_buf_idx (client_at b' s) = i"
    by (simp_all add: cl client_init_def)
  have held: "held_bufs (client_at b' s) = insert i (held_bufs (client_at b s))"
    using i inv by (auto simp: held_bufs_def orph)
  have sl: "s < b_max_clients b" using head(2) r(1) by simp
  have pool: "b_recv_pool b' = p" by (simp add: r client_update_def)
  note pt = pool_take [OF pw ip i]
  have hb: "held_bufs (client_at b s) \<subseteq> buf_pool_in_use (b_recv_pool b)" by (rule slots_wfD(13) [OF wf sl])
  show "slots_wf b' (tl fl)"
    unfolding fl list.sel
  proof (rule slots_wf_one [OF wf sl max_same])
    show "length (b_clients b') = length (b_clients b)" by (simp add: r client_update_def)
    show "client_at b' j = client_at b j" if "j \<noteq> s" for j by (rule other [OF that])
    show "distinct fl'" by (rule free(3))
    show "set fl' = with_state b' CLIENT_FREE"
    proof -
      have "s \<notin> with_state b' CLIENT_FREE" using act by (simp add: with_state_def)
      then show ?thesis using free(1,2) co [where st = CLIENT_FREE] by blast
    qed
    show "slot_chain b' (b_free_head b') fl'"
    proof -
      have "slot_chain b' (next_free b x) fl'"
        by (rule slot_chain_cong [OF head(3) max_same(1)]) (use free(2) in \<open>auto simp: cl\<close>)
      then show ?thesis by (simp add: r client_update_def)
    qed
    show "b_active_count b' = card {i. connected b' i}"
    proof -
      have "card {i. connected b' i} = card {i. connected b i} + 1"
        by (rule card_insert_eq [where x = s]) (use co con ncon in auto)
      then show ?thesis using slots_wfD(5) [OF wf] by (simp add: r)
    qed
    show "b_dormant_count b' = card (with_state b' CLIENT_DORMANT)"
    proof -
      have "with_state b' CLIENT_DORMANT = with_state b CLIENT_DORMANT"
      proof -
        have "s \<notin> with_state b' CLIENT_DORMANT" "s \<notin> with_state b CLIENT_DORMANT"
          using act sfree by (simp_all add: with_state_def)
        then show ?thesis using co [where st = CLIENT_DORMANT] by blast
      qed
      then show ?thesis using slots_wfD(6) [OF wf] by (simp add: r client_update_def)
    qed
    have fds: "b_fd_to_slot b' = (b_fd_to_slot b)[nat fd := int s]" by (simp add: r)
    note fl_len = slots_wfD(7) [OF wf]
    show "length (b_fd_to_slot b') = b_max_fds b" using fl_len by (simp add: fds)
    have con_other: "connected b' j \<longleftrightarrow> connected b j" if "j \<noteq> s" for j
      using max_same(1) other [OF that] by (simp add: connected_def)
    show "0 \<le> c_fd (client_at b' j) \<and> c_fd (client_at b' j) < int (b_max_fds b) \<and> b_fd_to_slot b' ! nat (c_fd (client_at b' j)) = int j"
      if "connected b' j" for j
    proof (cases "j = s")
      case True
      then show ?thesis using fd fl_len by (simp add: cl client_init_def fds)
    next
      case False
      have cj: "connected b j" using that con_other [OF False] by simp
      note D = slots_wfD(8-10) [OF wf cj]
      have "c_fd (client_at b j) \<noteq> fd" using D(3) fresh by auto
      then show ?thesis using D fd(1) other [OF False] by (auto simp: fds nth_list_update_neq nat_eq_iff2)
    qed
    show "b_fd_to_slot b' ! f = -1 \<or> (\<exists>j. b_fd_to_slot b' ! f = int j \<and> connected b' j \<and> c_fd (client_at b' j) = int f)"
      if f: "f < b_max_fds b" for f
    proof (cases "f = nat fd")
      case True
      then have "b_fd_to_slot b' ! f = int s" using f fl_len by (simp add: fds)
      moreover have "c_fd (client_at b' s) = int f" using True fd(1) by (simp add: cl client_init_def)
      ultimately show ?thesis using con by blast
    next
      case False
      then have e: "b_fd_to_slot b' ! f = b_fd_to_slot b ! f" by (simp add: fds)
      show ?thesis
      proof (cases "b_fd_to_slot b ! f = -1")
        case True
        with e show ?thesis by simp
      next
        case nf: False
        then obtain j where j: "b_fd_to_slot b ! f = int j" "connected b j" "c_fd (client_at b j) = int f"
          using slots_wfD(11) [OF wf f] by blast
        then have "j \<noteq> s" using ncon by auto
        then show ?thesis using j e con_other other by metis
      qed
    qed
    show "buf_pool_wf (b_recv_pool b')" using pt(1) by (simp add: pool)
    show "held_bufs (client_at b' s) \<subseteq> buf_pool_in_use (b_recv_pool b')"
      unfolding held pool pt(2) using hb by blast
    show "buf_pool_in_use (b_recv_pool b) - held_bufs (client_at b s) \<subseteq> buf_pool_in_use (b_recv_pool b')"
      unfolding pool pt(2) by blast
    show "held_bufs (client_at b' s) \<inter> (buf_pool_in_use (b_recv_pool b) - held_bufs (client_at b s)) = {}"
      unfolding held using pt(3) by blast
    show "connected b' s \<and> c_recv_buf_idx (client_at b' s) \<noteq> c_orphaned_recv_buf_idx (client_at b' s)"
      using con i pt(3) hb by (auto simp: orph held_bufs_def)
    show "hashmap_wf (b_client_map b')" using slots_wfD(16) [OF wf] by (simp add: r client_update_def)
  qed
qed

section \<open>Giving a slot back\<close>

text \<open>The client and the pool after \<open>drop_recv_buf\<close>.\<close>

definition dropped_client :: "client_slot \<Rightarrow> client_slot" where
  "dropped_client c = (if c_recv_buf_idx c \<noteq> BUF_POOL_INVALID \<and> c_recv_pending c
     then c\<lparr>c_orphaned_recv_buf_idx := c_recv_buf_idx c\<rparr> else c)"

definition dropped_pool :: "client_slot \<Rightarrow> buf_pool \<Rightarrow> buf_pool" where
  "dropped_pool c p = (if c_recv_buf_idx c \<noteq> BUF_POOL_INVALID \<and> \<not> c_recv_pending c
     then buf_pool_free p (c_recv_buf_idx c) else p)"

lemma drop_recv_buf_eq:
  "drop_recv_buf b s = b\<lparr>b_clients := (b_clients b)[s := dropped_client (client_at b s)],
     b_recv_pool := dropped_pool (client_at b s) (b_recv_pool b)\<rparr>"
  by (simp add: drop_recv_buf_def dropped_client_def dropped_pool_def client_update_def client_at_def Let_def)

lemma fd_unmap_eq:
  "0 \<le> fd \<Longrightarrow> fd < int (b_max_fds b) \<Longrightarrow> fd_unmap b fd = b\<lparr>b_fd_to_slot := (b_fd_to_slot b)[nat fd := -1]\<rparr>"
  by (simp add: fd_unmap_def)

lemma dropped_bufs:
  assumes wf: "slots_wf b fl" and s: "s < b_max_clients b"
    and c': "c_recv_buf_idx c' = BUF_POOL_INVALID"
      "c_orphaned_recv_buf_idx c' = c_orphaned_recv_buf_idx (dropped_client (client_at b s))"
  defines "p \<equiv> dropped_pool (client_at b s) (b_recv_pool b)"
  shows "buf_pool_wf p" "held_bufs c' \<subseteq> buf_pool_in_use p"
    "buf_pool_in_use (b_recv_pool b) - held_bufs (client_at b s) \<subseteq> buf_pool_in_use p"
    "held_bufs c' \<inter> (buf_pool_in_use (b_recv_pool b) - held_bufs (client_at b s)) = {}"
proof -
  let ?c = "client_at b s"
  note pw = slots_wfD(12) [OF wf] and hb = slots_wfD(13) [OF wf s]
  have sub: "held_bufs c' \<subseteq> held_bufs ?c" using c' by (auto simp: held_bufs_def dropped_client_def)
  then show "held_bufs c' \<inter> (buf_pool_in_use (b_recv_pool b) - held_bufs ?c) = {}" by blast
  have "buf_pool_wf p \<and> held_bufs c' \<subseteq> buf_pool_in_use p \<and>
      buf_pool_in_use (b_recv_pool b) - held_bufs ?c \<subseteq> buf_pool_in_use p"
  proof (cases "c_recv_buf_idx ?c \<noteq> BUF_POOL_INVALID \<and> \<not> c_recv_pending ?c")
    case True
    then have h: "c_recv_buf_idx ?c \<in> held_bufs ?c" by (simp add: held_bufs_def)
    then have "c_recv_buf_idx ?c \<in> buf_pool_in_use (b_recv_pool b)" using hb by blast
    note f = buf_pool.free_used [OF pw this]
    have "c_recv_buf_idx ?c \<noteq> c_orphaned_recv_buf_idx ?c" using slots_wfD(15) [OF wf s] True by blast
    then have "c_recv_buf_idx ?c \<notin> held_bufs c'" using c' True by (auto simp: held_bufs_def dropped_client_def)
    then show ?thesis using True f hb h sub by (auto simp: p_def dropped_pool_def)
  next
    case False
    then have "p = b_recv_pool b" by (auto simp: p_def dropped_pool_def)
    then show ?thesis using pw sub hb by auto
  qed
  then show "buf_pool_wf p" "held_bufs c' \<subseteq> buf_pool_in_use p"
    "buf_pool_in_use (b_recv_pool b) - held_bufs ?c \<subseteq> buf_pool_in_use p" by blast+
qed

lemma unmapped_fds:
  assumes wf: "slots_wf b fl" and con: "connected b s" and m: "b_max_clients b' = b_max_clients b"
    and other: "\<And>j. j \<noteq> s \<Longrightarrow> client_at b' j = client_at b j" and ncon: "\<not> connected b' s"
    and fds: "b_fd_to_slot b' = (b_fd_to_slot b)[nat (c_fd (client_at b s)) := -1]"
  shows "length (b_fd_to_slot b') = b_max_fds b"
    "connected b' i \<Longrightarrow> 0 \<le> c_fd (client_at b' i) \<and> c_fd (client_at b' i) < int (b_max_fds b)
          \<and> b_fd_to_slot b' ! nat (c_fd (client_at b' i)) = int i"
    "fd < b_max_fds b \<Longrightarrow> b_fd_to_slot b' ! fd = -1 \<or> (\<exists>i. b_fd_to_slot b' ! fd = int i \<and> connected b' i
          \<and> c_fd (client_at b' i) = int fd)"
proof -
  have co: "connected b' j \<longleftrightarrow> connected b j" if "j \<noteq> s" for j using m other [OF that] by (simp add: connected_def)
  note D = slots_wfD(8-10) [OF wf con] and len = slots_wfD(7) [OF wf]
  show "length (b_fd_to_slot b') = b_max_fds b" using len by (simp add: fds)
  show "0 \<le> c_fd (client_at b' i) \<and> c_fd (client_at b' i) < int (b_max_fds b)
          \<and> b_fd_to_slot b' ! nat (c_fd (client_at b' i)) = int i" if c: "connected b' i"
  proof -
    have i: "i \<noteq> s" "connected b i" using c ncon co by metis+
    note I = slots_wfD(8-10) [OF wf i(2)]
    have "nat (c_fd (client_at b i)) \<noteq> nat (c_fd (client_at b s))" using I(3) D(3) i(1) by auto
    then show ?thesis using I other [OF i(1)] by (simp add: fds)
  qed
  show "b_fd_to_slot b' ! fd = -1 \<or> (\<exists>i. b_fd_to_slot b' ! fd = int i \<and> connected b' i
          \<and> c_fd (client_at b' i) = int fd)" if fd: "fd < b_max_fds b"
  proof (cases "b_fd_to_slot b' ! fd = -1")
    case False
    then have ne: "fd \<noteq> nat (c_fd (client_at b s))" using len fd by (auto simp: fds)
    then have e: "b_fd_to_slot b' ! fd = b_fd_to_slot b ! fd" by (simp add: fds)
    obtain i where i: "b_fd_to_slot b ! fd = int i" "connected b i" "c_fd (client_at b i) = int fd"
      using slots_wfD(11) [OF wf fd] e False by auto
    then have "i \<noteq> s" using ne by auto
    then show ?thesis using i e co other by metis
  qed simp
qed

lemma same_fds:
  assumes wf: "slots_wf b fl" and ncon: "\<not> connected b s" and m: "b_max_clients b' = b_max_clients b"
    and other: "\<And>j. j \<noteq> s \<Longrightarrow> client_at b' j = client_at b j" and ncon': "\<not> connected b' s"
    and fds: "b_fd_to_slot b' = b_fd_to_slot b"
  shows "length (b_fd_to_slot b') = b_max_fds b"
    "connected b' i \<Longrightarrow> 0 \<le> c_fd (client_at b' i) \<and> c_fd (client_at b' i) < int (b_max_fds b)
          \<and> b_fd_to_slot b' ! nat (c_fd (client_at b' i)) = int i"
    "fd < b_max_fds b \<Longrightarrow> b_fd_to_slot b' ! fd = -1 \<or> (\<exists>i. b_fd_to_slot b' ! fd = int i \<and> connected b' i
          \<and> c_fd (client_at b' i) = int fd)"
proof -
  have co: "connected b' j \<longleftrightarrow> connected b j \<and> j \<noteq> s" for j
    using m other [of j] ncon ncon' by (cases "j = s") (auto simp: connected_def)
  show "length (b_fd_to_slot b') = b_max_fds b" using slots_wfD(7) [OF wf] by (simp add: fds)
  show "connected b' i \<Longrightarrow> 0 \<le> c_fd (client_at b' i) \<and> c_fd (client_at b' i) < int (b_max_fds b)
          \<and> b_fd_to_slot b' ! nat (c_fd (client_at b' i)) = int i"
    using slots_wfD(8-10) [OF wf, of i] other [of i] by (simp add: co fds)
  show "fd < b_max_fds b \<Longrightarrow> b_fd_to_slot b' ! fd = -1 \<or> (\<exists>i. b_fd_to_slot b' ! fd = int i \<and> connected b' i
          \<and> c_fd (client_at b' i) = int fd)"
    using slots_wfD(11) [OF wf, of fd] other ncon by (metis co fds)
qed

lemma broker_go_dormant_eq:
  assumes "connected b s" "s < length (b_clients b)" "0 \<le> c_fd (client_at b s)" "c_fd (client_at b s) < int (b_max_fds b)"
  shows "broker_slot_go_dormant b s = b\<lparr>b_fd_to_slot := (b_fd_to_slot b)[nat (c_fd (client_at b s)) := -1],
      b_clients := (b_clients b)[s := client_go_dormant (dropped_client (client_at b s))],
      b_recv_pool := dropped_pool (client_at b s) (b_recv_pool b),
      b_active_count := b_active_count b - 1, b_dormant_count := b_dormant_count b + 1\<rparr>"
  using assms
  by (auto simp: connected_def broker_slot_go_dormant_def Let_def fd_unmap_eq drop_recv_buf_eq client_update_def client_at_def)

lemma broker_go_dormant_ok:
  assumes wf: "slots_wf b fl" and con: "connected b s"
  defines "b' \<equiv> broker_slot_go_dormant b s"
  shows "slots_wf b' fl" "c_state (client_at b' s) = CLIENT_DORMANT" "\<And>j. j \<noteq> s \<Longrightarrow> client_at b' j = client_at b j"
    "b_trie b' = b_trie b" "b_fd_to_slot b' ! nat (c_fd (client_at b s)) = -1"
proof -
  have sl: "s < b_max_clients b" and st: "c_state (client_at b s) = CLIENT_ACTIVE \<or> c_state (client_at b s) = CLIENT_CLOSING"
    using con by (simp_all add: connected_def)
  note D = slots_wfD(8-10) [OF wf con] and len = slots_wfD(1) [OF wf]
  let ?c = "client_at b s"
  have eq: "b' = b\<lparr>b_fd_to_slot := (b_fd_to_slot b)[nat (c_fd ?c) := -1],
      b_clients := (b_clients b)[s := client_go_dormant (dropped_client ?c)],
      b_recv_pool := dropped_pool ?c (b_recv_pool b),
      b_active_count := b_active_count b - 1, b_dormant_count := b_dormant_count b + 1\<rparr>"
    unfolding b'_def by (rule broker_go_dormant_eq [OF con _ D(1,2)]) (use sl len in simp)
  have cl: "client_at b' j = (if j = s then client_go_dormant (dropped_client ?c) else client_at b j)" for j
    using sl len by (simp add: eq client_at_def nth_list_update)
  have ms: "b_max_clients b' = b_max_clients b" "b_max_fds b' = b_max_fds b" by (simp_all add: eq)
  show dorm: "c_state (client_at b' s) = CLIENT_DORMANT" by (simp add: cl client_go_dormant_def)
  show other: "client_at b' j = client_at b j" if "j \<noteq> s" for j using that by (simp add: cl)
  show "b_trie b' = b_trie b" by (simp add: eq)
  show "b_fd_to_slot b' ! nat (c_fd ?c) = -1" using D slots_wfD(7) [OF wf] by (simp add: eq nat_less_iff)
  have ncon: "\<not> connected b' s" using dorm by (simp add: connected_def)
  have c': "c_recv_buf_idx (client_at b' s) = BUF_POOL_INVALID"
      "c_orphaned_recv_buf_idx (client_at b' s) = c_orphaned_recv_buf_idx (dropped_client ?c)"
    by (simp_all add: cl client_go_dormant_def)
  note bufs = dropped_bufs [OF wf sl c']
  have fds: "b_fd_to_slot b' = (b_fd_to_slot b)[nat (c_fd ?c) := -1]" and pool: "b_recv_pool b' = dropped_pool ?c (b_recv_pool b)"
    by (simp_all add: eq)
  note uf = unmapped_fds [OF wf con ms(1) other ncon fds]
  have co: "{i. connected b' i} - {s} = {i. connected b i} - {s} \<and> with_state b' z - {s} = with_state b z - {s}" for z
    by (rule connected_other [OF ms(1) other])
  have sets: "s \<notin> with_state b CLIENT_FREE" "s \<notin> with_state b' CLIENT_FREE" "s \<notin> with_state b CLIENT_DORMANT"
      "s \<in> with_state b' CLIENT_DORMANT"
    using st dorm sl ms by (auto simp: with_state_def)
  have free: "with_state b' CLIENT_FREE = with_state b CLIENT_FREE" using co [where z = CLIENT_FREE] sets by blast
  show "slots_wf b' fl"
  proof (rule slots_wf_one [OF wf sl ms])
    show "length (b_clients b') = length (b_clients b)" by (simp add: eq)
    show "client_at b' j = client_at b j" if "j \<noteq> s" for j by (rule other [OF that])
    show "distinct fl" by (rule slots_wfD(2) [OF wf])
    show "set fl = with_state b' CLIENT_FREE" using slots_wfD(3) [OF wf] free by simp
    have "slot_chain b' (b_free_head b) fl"
      by (rule slot_chain_cong [OF slots_wfD(4) [OF wf] ms(1)]) (use sets(1) slots_wfD(3) [OF wf] in \<open>auto simp: cl\<close>)
    then show "slot_chain b' (b_free_head b') fl" by (simp add: eq)
    have "card {i. connected b' i} = card {i. connected b i} - 1"
      by (rule card_diff_eq [where x = s]) (use co con ncon in auto)
    then show "b_active_count b' = card {i. connected b' i}" using slots_wfD(5) [OF wf] by (simp add: eq)
    have "card (with_state b' CLIENT_DORMANT) = card (with_state b CLIENT_DORMANT) + 1"
      by (rule card_insert_eq [where x = s]) (use co sets in auto)
    then show "b_dormant_count b' = card (with_state b' CLIENT_DORMANT)" using slots_wfD(6) [OF wf] by (simp add: eq)
    show "hashmap_wf (b_client_map b')" using slots_wfD(16) [OF wf] by (simp add: eq)
  qed (use uf bufs c' pool in auto)
qed

lemma value_ok_of_nat: "n < 65536 \<Longrightarrow> value_ok (of_nat n)"
proof -
  assume n: "n < 65536"
  have "of_nat (n + k) \<noteq> (0 :: u32)" if "0 < k" "k \<le> 2" for k
    using n that by (auto simp del: of_nat_add simp: word_of_nat_eq_0_iff dest: dvd_imp_le)
  from this [of 1] this [of 2] show ?thesis
    by (auto simp: value_ok_def HASHMAP_EMPTY_def HASHMAP_DELETED_def)
qed

text \<open>The client map after the entry of a slot with an identity is gone.\<close>

definition unnamed_map :: "broker \<Rightarrow> nat \<Rightarrow> hashmap option" where
  "unnamed_map b slot = (if c_client_id_len (client_at b slot) > 0
     then map_option snd (hashmap_remove (b_client_map b) (c_client_id_hash (client_at b slot)) (of_nat slot))
     else Some (b_client_map b))"

lemma unnamed_map_ok:
  assumes "hashmap_wf (b_client_map b)" "slot < 65536"
  obtains h where "unnamed_map b slot = Some h" "hashmap_wf h"
    "hashmap_content h = (if c_client_id_len (client_at b slot) > 0
       then hashmap_content (b_client_map b) - {#(c_client_id_hash (client_at b slot), of_nat slot)#}
       else hashmap_content (b_client_map b))"
proof (cases "c_client_id_len (client_at b slot) > 0")
  case True
  obtain h where "hashmap_remove (b_client_map b) (c_client_id_hash (client_at b slot)) (of_nat slot)
      = Some ((c_client_id_hash (client_at b slot), of_nat slot) \<in># hashmap_content (b_client_map b), h)" "hashmap_wf h"
    "hashmap_content h = hashmap_content (b_client_map b) - {#(c_client_id_hash (client_at b slot), of_nat slot)#}"
    using hashmap_remove_cases [OF assms(1) value_ok_of_nat [OF assms(2)]] by metis
  with True that show ?thesis by (simp add: unnamed_map_def)
next
  case False
  with assms that show ?thesis by (simp add: unnamed_map_def)
qed

lemma inflight_free_all_fields:
  "c_state (client_inflight_free_all c) = c_state c" "c_recv_buf_idx (client_inflight_free_all c) = c_recv_buf_idx c"
  "c_orphaned_recv_buf_idx (client_inflight_free_all c) = c_orphaned_recv_buf_idx c"
  "c_generation (client_inflight_free_all c) = c_generation c"
  by (simp_all add: client_inflight_free_all_def)

definition freed_client :: "broker \<Rightarrow> nat \<Rightarrow> client_slot" where
  "freed_client b s = (client_free (client_inflight_free_all
     (if connected b s then dropped_client (client_at b s) else client_at b s)))\<lparr>c_fd := int (b_free_head b)\<rparr>"

lemma broker_free_slot_eq:
  assumes len: "s < length (b_clients b)" and s: "s < b_max_clients b"
    and D: "connected b s \<Longrightarrow> 0 \<le> c_fd (client_at b s)" "connected b s \<Longrightarrow> c_fd (client_at b s) < int (b_max_fds b)"
    and h: "unnamed_map b s = Some h"
  shows "broker_free_slot b s = Some (b\<lparr>b_client_map := h,
     b_active_count := (if connected b s then b_active_count b - 1 else b_active_count b),
     b_dormant_count := (if c_state (client_at b s) = CLIENT_DORMANT then b_dormant_count b - 1 else b_dormant_count b),
     b_fd_to_slot := (if connected b s then (b_fd_to_slot b)[nat (c_fd (client_at b s)) := -1] else b_fd_to_slot b),
     b_clients := (b_clients b)[s := freed_client b s],
     b_recv_pool := (if connected b s then dropped_pool (client_at b s) (b_recv_pool b) else b_recv_pool b),
     b_trie := trie_remove_fd (b_trie b) s, b_free_head := s\<rparr>)"
proof -
  let ?c = "client_at b s"
  have first: "(if c_client_id_len ?c > 0
          then map_option (\<lambda>(_, h). b\<lparr>b_client_map := h\<rparr>) (hashmap_remove (b_client_map b) (c_client_id_hash ?c) (of_nat s))
          else Some b) = Some (b\<lparr>b_client_map := h\<rparr>)"
    using h by (auto simp: unnamed_map_def)
  have conn: "connected b s \<longleftrightarrow> c_state ?c = CLIENT_ACTIVE \<or> c_state ?c = CLIENT_CLOSING"
    using s by (simp add: connected_def)
  show ?thesis
  proof (cases "connected b s")
    case True
    have st: "(c_state ?c = CLIENT_ACTIVE \<or> c_state ?c = CLIENT_CLOSING) = True" "c_state ?c \<noteq> CLIENT_DORMANT"
      using True conn by auto
    show ?thesis
      unfolding broker_free_slot_def Let_def first
      using D [OF True] len st True
      by (simp add: fd_unmap_eq drop_recv_buf_eq client_update_def client_at_def freed_client_def)
  next
    case False
    then have "(c_state ?c = CLIENT_ACTIVE \<or> c_state ?c = CLIENT_CLOSING) = False" using conn by simp
    then show ?thesis
      unfolding broker_free_slot_def Let_def first
      using len False by (simp add: client_update_def client_at_def freed_client_def)
  qed
qed

lemma slot_chain_head: "slot_chain b h fl \<Longrightarrow> h \<le> b_max_clients b"
  by (cases fl) auto

lemma broker_free_slot_ok:
  assumes wf: "slots_wf b fl" and s: "s < b_max_clients b" "s < 65536" and used: "c_state (client_at b s) \<noteq> CLIENT_FREE"
  obtains b' h where "broker_free_slot b s = Some b'" "slots_wf b' (s # fl)" "c_state (client_at b' s) = CLIENT_FREE"
    "\<And>j. j \<noteq> s \<Longrightarrow> client_at b' j = client_at b j" "b_trie b' = trie_remove_fd (b_trie b) s"
    "unnamed_map b s = Some (b_client_map b')" "b_max_clients b' = b_max_clients b"
proof -
  obtain h where h: "unnamed_map b s = Some h" "hashmap_wf h"
    using unnamed_map_ok [OF slots_wfD(16) [OF wf] s(2)] by metis
  let ?c = "client_at b s"
  note len = slots_wfD(1) [OF wf]
  then have sl: "s < length (b_clients b)" using s(1) by simp
  have run_eq: "broker_free_slot b s = Some (b\<lparr>b_client_map := h,
     b_active_count := (if connected b s then b_active_count b - 1 else b_active_count b),
     b_dormant_count := (if c_state (client_at b s) = CLIENT_DORMANT then b_dormant_count b - 1 else b_dormant_count b),
     b_fd_to_slot := (if connected b s then (b_fd_to_slot b)[nat (c_fd (client_at b s)) := -1] else b_fd_to_slot b),
     b_clients := (b_clients b)[s := freed_client b s],
     b_recv_pool := (if connected b s then dropped_pool (client_at b s) (b_recv_pool b) else b_recv_pool b),
     b_trie := trie_remove_fd (b_trie b) s, b_free_head := s\<rparr>)"
    by (rule broker_free_slot_eq [OF sl s(1) _ _ h(1)]) (erule slots_wfD(8,9) [OF wf])+
  obtain b' where run: "broker_free_slot b s = Some b'" by (simp add: run_eq)
  note eq = run [unfolded run_eq option.inject, symmetric]
  have cl: "client_at b' j = (if j = s then freed_client b s else client_at b j)" for j
    using s(1) len by (simp add: eq client_at_def nth_list_update)
  have other: "client_at b' j = client_at b j" if "j \<noteq> s" for j using that by (simp add: cl)
  have ms: "b_max_clients b' = b_max_clients b" "b_max_fds b' = b_max_fds b" by (simp_all add: eq)
  have free: "c_state (client_at b' s) = CLIENT_FREE" "c_recv_buf_idx (client_at b' s) = BUF_POOL_INVALID"
      "c_fd (client_at b' s) = int (b_free_head b)"
    by (simp_all add: cl freed_client_def client_free_def)
  have ncon: "\<not> connected b' s" using free(1) by (simp add: connected_def)
  have co: "{i. connected b' i} - {s} = {i. connected b i} - {s} \<and> with_state b' z - {s} = with_state b z - {s}" for z
    by (rule connected_other [OF ms(1) other])
  have sets: "s \<notin> with_state b CLIENT_FREE" "s \<in> with_state b' CLIENT_FREE" "s \<notin> with_state b' CLIENT_DORMANT"
    using used free(1) s(1) ms by (auto simp: with_state_def)
  have fset: "with_state b' CLIENT_FREE = insert s (with_state b CLIENT_FREE)"
    using co [where z = CLIENT_FREE] sets by blast
  have fl: "set fl = with_state b CLIENT_FREE" "distinct fl" using slots_wfD(2,3) [OF wf] by auto
  have bufs: "buf_pool_wf (b_recv_pool b')" "held_bufs (client_at b' s) \<subseteq> buf_pool_in_use (b_recv_pool b')"
      "buf_pool_in_use (b_recv_pool b) - held_bufs ?c \<subseteq> buf_pool_in_use (b_recv_pool b')"
      "held_bufs (client_at b' s) \<inter> (buf_pool_in_use (b_recv_pool b) - held_bufs ?c) = {}"
  proof -
    have "buf_pool_wf (b_recv_pool b') \<and> held_bufs (client_at b' s) \<subseteq> buf_pool_in_use (b_recv_pool b') \<and>
      buf_pool_in_use (b_recv_pool b) - held_bufs ?c \<subseteq> buf_pool_in_use (b_recv_pool b') \<and>
      held_bufs (client_at b' s) \<inter> (buf_pool_in_use (b_recv_pool b) - held_bufs ?c) = {}"
    proof (cases "connected b s")
      case True
      have "c_orphaned_recv_buf_idx (client_at b' s) = c_orphaned_recv_buf_idx (dropped_client ?c)"
        using True by (simp add: cl freed_client_def client_free_def inflight_free_all_fields)
      note d = dropped_bufs [OF wf s(1) free(2) this]
      have "b_recv_pool b' = dropped_pool ?c (b_recv_pool b)" using True by (simp add: eq)
      with d show ?thesis by simp
    next
      case False
      have "held_bufs (client_at b' s) \<subseteq> held_bufs ?c"
        using False by (auto simp: cl freed_client_def client_free_def inflight_free_all_fields held_bufs_def)
      moreover have "b_recv_pool b' = b_recv_pool b" using False by (simp add: eq)
      ultimately show ?thesis using slots_wfD(12) [OF wf] slots_wfD(13) [OF wf s(1)] by auto
    qed
    then show "buf_pool_wf (b_recv_pool b')" "held_bufs (client_at b' s) \<subseteq> buf_pool_in_use (b_recv_pool b')"
      "buf_pool_in_use (b_recv_pool b) - held_bufs ?c \<subseteq> buf_pool_in_use (b_recv_pool b')"
      "held_bufs (client_at b' s) \<inter> (buf_pool_in_use (b_recv_pool b) - held_bufs ?c) = {}" by blast+
  qed
  have fds: "length (b_fd_to_slot b') = b_max_fds b"
      "\<And>i. connected b' i \<Longrightarrow> 0 \<le> c_fd (client_at b' i) \<and> c_fd (client_at b' i) < int (b_max_fds b)
          \<and> b_fd_to_slot b' ! nat (c_fd (client_at b' i)) = int i"
      "\<And>fd. fd < b_max_fds b \<Longrightarrow> b_fd_to_slot b' ! fd = -1 \<or> (\<exists>i. b_fd_to_slot b' ! fd = int i \<and> connected b' i
          \<and> c_fd (client_at b' i) = int fd)"
  proof -
    have u: "connected b s \<Longrightarrow> b_fd_to_slot b' = (b_fd_to_slot b)[nat (c_fd ?c) := -1]"
        "\<not> connected b s \<Longrightarrow> b_fd_to_slot b' = b_fd_to_slot b" by (simp_all add: eq)
    note U = unmapped_fds [OF wf _ ms(1) other ncon u(1)] and S = same_fds [OF wf _ ms(1) other ncon u(2)]
    show "length (b_fd_to_slot b') = b_max_fds b" using U(1) S(1) by (cases "connected b s") auto
    show "0 \<le> c_fd (client_at b' i) \<and> c_fd (client_at b' i) < int (b_max_fds b)
          \<and> b_fd_to_slot b' ! nat (c_fd (client_at b' i)) = int i" if "connected b' i" for i
      using U(2) [OF _ _ _ that] S(2) [OF _ _ _ that] by (cases "connected b s") auto
    show "b_fd_to_slot b' ! fd = -1 \<or> (\<exists>i. b_fd_to_slot b' ! fd = int i \<and> connected b' i
          \<and> c_fd (client_at b' i) = int fd)" if "fd < b_max_fds b" for fd
      using U(3) [OF _ _ _ that] S(3) [OF _ _ _ that] by (cases "connected b s") auto
  qed
  have acount: "b_active_count b' = card {i. connected b' i}"
  proof (cases "connected b s")
    case True
    have "card {i. connected b' i} = card {i. connected b i} - 1"
      by (rule card_diff_eq [where x = s]) (use co True ncon in auto)
    then show ?thesis using slots_wfD(5) [OF wf] True by (simp add: eq)
  next
    case False
    have "{i. connected b' i} = {i. connected b i}" using co ncon False by blast
    then show ?thesis using slots_wfD(5) [OF wf] False by (simp add: eq)
  qed
  have dcount: "b_dormant_count b' = card (with_state b' CLIENT_DORMANT)"
  proof (cases "c_state ?c = CLIENT_DORMANT")
    case True
    have "card (with_state b' CLIENT_DORMANT) = card (with_state b CLIENT_DORMANT) - 1"
      by (rule card_diff_eq [where x = s]) (use co sets True s(1) in \<open>auto simp: with_state_def\<close>)
    then show ?thesis using slots_wfD(6) [OF wf] True by (simp add: eq)
  next
    case False
    then have "s \<notin> with_state b CLIENT_DORMANT" by (simp add: with_state_def)
    then have "with_state b' CLIENT_DORMANT = with_state b CLIENT_DORMANT"
      using co [where z = CLIENT_DORMANT] sets by blast
    then show ?thesis using slots_wfD(6) [OF wf] False by (simp add: eq)
  qed
  have "slots_wf b' (s # fl)"
  proof (rule slots_wf_one [OF wf s(1) ms])
    show "length (b_clients b') = length (b_clients b)" by (simp add: eq)
    show "client_at b' j = client_at b j" if "j \<noteq> s" for j by (rule other [OF that])
    show "distinct (s # fl)" using fl sets(1) by simp
    show "set (s # fl) = with_state b' CLIENT_FREE" using fl(1) fset by simp
    have "slot_chain b' (b_free_head b) fl"
      by (rule slot_chain_cong [OF slots_wfD(4) [OF wf] ms(1)]) (use sets(1) fl(1) in \<open>auto simp: cl\<close>)
    moreover have "next_free b' s = b_free_head b" by (simp add: next_free_def free(3))
    ultimately show "slot_chain b' (b_free_head b') (s # fl)" using s(1) by (simp add: eq)
    show "hashmap_wf (b_client_map b')" using h(2) by (simp add: eq)
  qed (use acount dcount fds bufs free(2) in auto)
  then show ?thesis using that [OF run _ free(1) other] by (simp add: eq h(1))
qed

section \<open>The table after initialisation\<close>

lemma step_SomeE:
  assumes "(case e of (None, v) \<Rightarrow> Some (None, F v) | (Some r, v) \<Rightarrow> G r v) = Some (Some b, v')"
  obtains r v1 where "e = (Some r, v1)" "G r v1 = Some (Some b, v')"
  using assms by (cases e; cases "fst e") auto

lemma pair_SomeE:
  assumes "(case e of (r, v) \<Rightarrow> G r v) = res"
  obtains r v1 where "e = (r, v1)" "G r v1 = res"
  using assms by (cases e) auto

lemma if_SomeE:
  assumes "(if c then Some (None, x) else y) = Some (Some b, v')"
  obtains "\<not> c" "y = Some (Some b, v')"
  using assms by (cases c) auto

lemma map_SomeE:
  assumes "(case e of None \<Rightarrow> None | Some (None, v) \<Rightarrow> Some (None, F v) | Some (Some h, v) \<Rightarrow> Some (Some (G h), v)) = Some (Some b, v')"
  obtains h v1 where "e = Some (Some h, v1)" "b = G h"
  using assms by (cases e; cases "fst (the e)") auto

lemma broker_init_SomeE:
  assumes "broker_init ok a b0 max_clients max_fds max_inflight recv_buf_size msg_pool_size egress_capacity v = Some (Some b, v')"
  obtains rp v1 v2 mp v3 v4 cmap v5 v6 where "buf_pool_init ok max_clients recv_buf_size v1 = (Some rp, v2)"
    "msg_pool_init ok msg_pool_size v3 = (Some mp, v4)"
    "hashmap_init ok (of_nat (max_clients * 2)) v5 = Some (Some cmap, v6)"
    "b_max_clients b = max_clients" "b_max_fds b = max_fds" "b_max_inflight b = max_inflight"
    "b_active_count b = 0" "b_dormant_count b = 0" "b_recv_pool b = rp" "b_msg_pool b = mp" "b_client_map b = cmap"
    "b_clients b = map (initial_client max_clients max_inflight egress_capacity) [0..<max_clients]"
    "b_fd_to_slot b = replicate max_fds (-1)" "b_free_head b = 0" "b_trie b = trie_init"
proof -
  from assms show thesis
    unfolding broker_init_def Let_def
    by (elim if_SomeE step_SomeE pair_SomeE map_SomeE) (rule that, assumption, assumption, assumption, simp_all)
qed

lemma broker_init_slots:
  assumes init: "broker_init ok a b0 max_clients max_fds max_inflight recv_buf_size msg_pool_size egress_capacity v = Some (Some b, v')"
    and n: "max_clients \<le> 65536"
  shows "slots_wf b [0..<max_clients]" "\<And>i. i < max_clients \<Longrightarrow> c_state (client_at b i) = CLIENT_FREE"
    "buf_pool_in_use (b_recv_pool b) = {}" "hashmap_content (b_client_map b) = {#}"
  using init
proof (atomize (full), elim broker_init_SomeE, goal_cases)
  case (1 rp v1 v2 mp v3 v4 cmap v5 v6)
  have "max_clients \<le> BUF_POOL_INVALID" using n by (simp add: BUF_POOL_INVALID_def)
  note pool = buf_pool_init_wf [OF 1(1) this]
  have "(of_nat (max_clients * 2) :: u32) \<le> 2 ^ 31"
    using n by (simp add: word_le_nat_alt unat_of_nat take_bit_nat_eq_self del: of_nat_mult)
  then have h: "hashmap_wf cmap" "hashmap_content cmap = {#}"
    using hashmap_init_correct [where min_capacity = "of_nat (max_clients * 2)" and ok = ok and v = v5] 1(3) by simp_all
  have cl: "client_at b i = initial_client max_clients max_inflight egress_capacity i" if "i < max_clients" for i
    using that 1 by (simp add: client_at_def)
  have st: "c_state (client_at b i) = CLIENT_FREE" "held_bufs (client_at b i) = {}"
      "c_recv_buf_idx (client_at b i) = BUF_POOL_INVALID" if "i < max_clients" for i
    using cl [OF that] by (simp_all add: initial_client_def held_bufs_def)
  have ncon: "\<not> connected b i" for i using st 1 by (auto simp: connected_def)
  have free: "with_state b s = (if s = CLIENT_FREE then {0..<max_clients} else {})" for s
    using st 1 by (auto simp: with_state_def)
  have chain: "slot_chain b i [i..<max_clients]" if "i \<le> max_clients" for i
    using that
  proof (induction "max_clients - i" arbitrary: i)
    case 0
    then show ?case using 1 by simp
  next
    case (Suc k)
    then have i: "i < max_clients" by simp
    have "next_free b i = i + 1"
      using cl [OF i] i 1 by (auto simp: next_free_def initial_client_def)
    then show ?case using Suc i 1 by (simp add: upt_conv_Cons)
  qed
  have "slots_wf b [0..<max_clients]"
    unfolding slots_wf_def using 1 st ncon free chain [of 0] pool h by simp
  then show ?case using st pool h 1 by auto
qed

section \<open>Theorems\<close>

text \<open>C20: allocation takes the head of the free list exactly when there is one, the descriptor is in range and
  a receive buffer is free; the slot is then active with a fresh buffer and a new generation, and no
  other slot changes. Otherwise the broker does not change.\<close>

theorem slot_alloc_correct:
  assumes "slots_wf b fl" "b_fd_to_slot b ! nat fd = -1"
  shows "case broker_alloc_slot b fd of
      (None, b') \<Rightarrow> b' = b \<and> (fl = [] \<or> fd < 0 \<or> fd \<ge> int (b_max_fds b)
          \<or> buf_pool_in_use (b_recv_pool b) = {..<bp_capacity (b_recv_pool b)})
    | (Some s, b') \<Rightarrow> fl = s # tl fl \<and> slots_wf b' (tl fl) \<and> connected b' s
        \<and> broker_get_client_by_fd b' fd = Some s \<and> c_fd (client_at b' s) = fd
        \<and> c_generation (client_at b' s) = c_generation (client_at b s) + 1
        \<and> c_recv_buf_idx (client_at b' s) \<notin> buf_pool_in_use (b_recv_pool b)
        \<and> (\<forall>j. j \<noteq> s \<longrightarrow> client_at b' j = client_at b j)"
proof (cases "broker_alloc_slot b fd")
  case (Pair r b')
  show ?thesis
  proof (cases r)
    case None
    then show ?thesis using broker_alloc_slot_None [OF assms(1), of fd] Pair by auto
  next
    case (Some s)
    note ok = broker_alloc_slot_Some [OF assms Pair [unfolded Some]]
    have "broker_get_client_by_fd b' fd = Some s"
      using slots_wfD(8-10) [OF ok(2,3)] ok(5) by (simp add: broker_get_client_by_fd_def)
    then show ?thesis using ok Pair Some by auto
  qed
qed

text \<open>C21: freeing a slot in use returns; the slot becomes the head of the free list, its descriptor, its
  subscriptions and its entry in the client map are gone, and no other slot changes.\<close>

theorem slot_free_correct:
  assumes "slots_wf b fl" "trie_wf (b_trie b) tl'" "s < b_max_clients b" "s < 65536" "c_state (client_at b s) \<noteq> CLIENT_FREE"
  shows "\<exists>b'. broker_free_slot b s = Some b' \<and> slots_wf b' (s # fl) \<and> trie_wf (b_trie b') tl'
     \<and> (\<forall>j. j \<noteq> s \<longrightarrow> client_at b' j = client_at b j)
     \<and> (\<forall>path j. subscriptions (b_trie b') path j = (if j = s then None else subscriptions (b_trie b) path j))
     \<and> hashmap_content (b_client_map b') = (if c_client_id_len (client_at b s) > 0
          then hashmap_content (b_client_map b) - {#(c_client_id_hash (client_at b s), of_nat s)#}
          else hashmap_content (b_client_map b))"
proof -
  obtain b' where b': "broker_free_slot b s = Some b'" "slots_wf b' (s # fl)" "\<And>j. j \<noteq> s \<Longrightarrow> client_at b' j = client_at b j"
      "b_trie b' = trie_remove_fd (b_trie b) s" "unnamed_map b s = Some (b_client_map b')"
    using broker_free_slot_ok [OF assms(1,3,4,5)] by metis
  have "hashmap_content (b_client_map b') = (if c_client_id_len (client_at b s) > 0
          then hashmap_content (b_client_map b) - {#(c_client_id_hash (client_at b s), of_nat s)#}
          else hashmap_content (b_client_map b))"
    using unnamed_map_ok [OF slots_wfD(16) [OF assms(1)] assms(4)] b'(5) by (metis option.inject)
  with b' show ?thesis using trie_remove_fd_ok [OF assms(2)] by auto
qed

text \<open>A persistent session that disconnects keeps its slot, out of the free list, with no descriptor and
  no receive buffer; its subscriptions stay.\<close>

theorem slot_dormant_correct:
  assumes "slots_wf b fl" "connected b s"
  shows "slots_wf (broker_slot_go_dormant b s) fl
     \<and> c_state (client_at (broker_slot_go_dormant b s) s) = CLIENT_DORMANT
     \<and> broker_get_client_by_fd (broker_slot_go_dormant b s) (c_fd (client_at b s)) = None
     \<and> b_trie (broker_slot_go_dormant b s) = b_trie b
     \<and> (\<forall>j. j \<noteq> s \<longrightarrow> client_at (broker_slot_go_dormant b s) j = client_at b j)"
  using broker_go_dormant_ok [OF assms] by (auto simp: broker_get_client_by_fd_def)

section \<open>A small broker\<close>

definition small_abi :: abi where
  "small_abi = \<lparr>sizeof_client_slot = 2048, sizeof_pending_msg = 1032\<rparr>"

lemma small_broker:
  obtains b where "slots_wf b [0, 1]" "b_max_clients b = 2" "b_max_fds b = 4" "b_fd_to_slot b = replicate 4 (-1)"
    "buf_pool_in_use (b_recv_pool b) = {}" "bp_capacity (b_recv_pool b) = 2" "b_trie b = trie_init"
proof -
  fix b0 :: broker
  have r: "hashmap_round_up 30 16 (4 :: u32) = Some 16" by code_simp
  have "\<exists>b v'. broker_init (\<lambda>_. True) small_abi b0 2 4 8 64 4 64 \<lparr>vm_calls = 0, vm_live = []\<rparr> = Some (Some b, v')"
    by (simp add: broker_init_def Let_def sys_mmap_def buf_pool_init_def msg_pool_init_def hashmap_init_def
        HASHMAP_MIN_CAPACITY_def r)
  then obtain b v' where i: "broker_init (\<lambda>_. True) small_abi b0 2 4 8 64 4 64 \<lparr>vm_calls = 0, vm_live = []\<rparr> = Some (Some b, v')"
    by blast
  show thesis
    using that broker_init_slots(1,3) [OF i] i
    by (auto elim!: broker_init_SomeE dest: buf_pool_init_wf simp: upt_rec BUF_POOL_INVALID_def)
qed

lemma two_nonempty: "{..<2 :: nat} \<noteq> {}" "{} \<noteq> {..<2 :: nat}"
  by (auto simp: lessThan_empty_iff dest: sym)

text \<open>The small broker with one client.\<close>

lemma small_active:
  obtains b where "slots_wf b [1]" "connected b 0" "c_fd (client_at b 0) = 3" "b_trie b = trie_init" "b_max_clients b = 2"
proof -
  obtain b where b: "slots_wf b [0, 1]" "b_max_clients b = 2" "b_max_fds b = 4" "b_fd_to_slot b = replicate 4 (-1)"
    "buf_pool_in_use (b_recv_pool b) = {}" "bp_capacity (b_recv_pool b) = 2" "b_trie b = trie_init"
    by (rule small_broker)
  have "fst (broker_alloc_slot b 3) \<noteq> None"
    unfolding broker_alloc_slot_None(1) [OF b(1)] using b two_nonempty by auto
  then obtain s b' where al: "broker_alloc_slot b 3 = (Some s, b')" by (cases "broker_alloc_slot b 3") auto
  have "b_fd_to_slot b ! nat 3 = -1" using b(4) by simp
  note ok = broker_alloc_slot_Some [OF b(1) this al]
  have "b_trie b' = b_trie b" "b_max_clients b' = b_max_clients b"
    using al by (auto simp: broker_alloc_slot_def Let_def client_update_def split: if_splits prod.splits)
  with ok b show thesis using that [of b'] by simp
qed

theorem slot_alloc_correct_witness:
  "\<exists>b b'. broker_alloc_slot b 3 = (Some 0, b') \<and> slots_wf b' [1] \<and> broker_get_client_by_fd b' 3 = Some 0
     \<and> fst (broker_alloc_slot b 4) = None"
proof -
  obtain b where b: "slots_wf b [0, 1]" "b_max_clients b = 2" "b_max_fds b = 4" "b_fd_to_slot b = replicate 4 (-1)"
    "buf_pool_in_use (b_recv_pool b) = {}" "bp_capacity (b_recv_pool b) = 2"
    by (rule small_broker)
  have f: "b_fd_to_slot b ! nat 3 = -1" using b(4) by simp
  then have "\<exists>b'. broker_alloc_slot b 3 = (Some 0, b') \<and> slots_wf b' [1] \<and> broker_get_client_by_fd b' 3 = Some 0"
    using slot_alloc_correct [OF b(1) f] b two_nonempty by (auto split: prod.splits option.splits)
  moreover have "fst (broker_alloc_slot b 4) = None" using b(3) by (simp add: broker_alloc_slot_def)
  ultimately show ?thesis by blast
qed

theorem slot_free_correct_witness:
  "\<exists>b b'. connected b 0 \<and> broker_free_slot b 0 = Some b' \<and> slots_wf b' [0, 1]"
proof -
  obtain b where b: "slots_wf b [1]" "connected b 0" "b_trie b = trie_init" "b_max_clients b = 2"
    by (rule small_active)
  have t: "trie_wf (b_trie b) [1..<1024]" using trie_init_wf b(3) by simp
  have "c_state (client_at b 0) \<noteq> CLIENT_FREE" using b(2) by (auto simp: connected_def)
  from slot_free_correct [OF b(1) t _ _ this] b show ?thesis by auto
qed

theorem slot_dormant_correct_witness:
  "\<exists>b. connected b 0 \<and> slots_wf (broker_slot_go_dormant b 0) [1]
     \<and> broker_get_client_by_fd (broker_slot_go_dormant b 0) 3 = None"
proof -
  obtain b where b: "slots_wf b [1]" "connected b 0" "c_fd (client_at b 0) = 3" by (rule small_active)
  from slot_dormant_correct [OF b(1,2)] b show ?thesis by auto
qed

end
