(* ===== verification/Msg_Path.thy ===== *)
theory Msg_Path
  imports Slots
begin

text \<open>
  Messages on their way through the broker: \<^verbatim>\<open>src/src/broker/msg_path.h\<close> and \<open>release_msg_ref\<close> of
  \<^verbatim>\<open>src/src/broker/loop.h\<close>.  A canonical message owns the receive buffer it was stolen with; the
  last reference gives both back.
\<close>

section \<open>Operations\<close>

definition msg_steal_buffer :: "broker \<Rightarrow> nat \<Rightarrow> nat \<times> broker" where
  "msg_steal_buffer b pub =
     (let stolen = c_recv_buf_idx (client_at b pub);
          (idx, recv_pool) = buf_pool_alloc (b_recv_pool b);
          b = client_update (b\<lparr>b_recv_pool := recv_pool\<rparr>) pub (\<lambda>c. c\<lparr>c_recv_buf_idx := idx\<rparr>)
      in if idx = BUF_POOL_INVALID
         then (BUF_POOL_INVALID, client_update b pub (\<lambda>c. c\<lparr>c_recv_buf_idx := stolen\<rparr>))
         else (stolen, b))"

definition msg_store ::
    "broker \<Rightarrow> nat \<Rightarrow> nat \<Rightarrow> nat \<Rightarrow> nat \<Rightarrow> nat \<Rightarrow> u8 \<Rightarrow> u8 \<Rightarrow> u8 \<Rightarrow> nat \<times> broker" where
  "msg_store b buf_idx topic_off topic_len payload_off payload_len qos retain dup =
     (let (msg_idx, mp) = msg_pool_alloc (b_msg_pool b);
          b = b\<lparr>b_msg_pool := mp\<rparr>
      in if msg_idx = MSG_POOL_INVALID then (MSG_POOL_INVALID, b)
         else (msg_idx, b\<lparr>b_msg_pool := msg_update mp msg_idx (\<lambda>m. m\<lparr>cm_buf_idx := buf_idx,
                 cm_topic_off := topic_off, cm_topic_len := topic_len, cm_payload_off := payload_off,
                 cm_payload_len := payload_len, cm_qos := qos, cm_retain := retain, cm_dup := dup\<rparr>)\<rparr>))"

definition msg_ref :: "broker \<Rightarrow> nat \<Rightarrow> broker" where
  "msg_ref b msg_idx = b\<lparr>b_msg_pool := msg_pool_ref (b_msg_pool b) msg_idx\<rparr>"

definition release_msg_ref :: "broker \<Rightarrow> nat \<Rightarrow> broker" where
  "release_msg_ref b msg_idx =
     (if msg_idx = MSG_POOL_INVALID then b
      else let msg = msg_pool_get (b_msg_pool b) msg_idx;
               (new_ref, mp) = msg_pool_unref (b_msg_pool b) msg_idx;
               b = b\<lparr>b_msg_pool := mp\<rparr>
           in if new_ref = 0 \<and> msg \<noteq> None
              then let buf_idx = cm_buf_idx (mp_msgs mp ! msg_idx);
                       b = (if buf_idx \<noteq> MSG_POOL_INVALID
                            then b\<lparr>b_recv_pool := buf_pool_free (b_recv_pool b) buf_idx\<rparr> else b)
                   in b\<lparr>b_msg_pool := msg_pool_free (b_msg_pool b) msg_idx\<rparr>
              else b)"

section \<open>What each operation keeps\<close>

text \<open>Everything but the two pools.\<close>

lemma release_msg_ref_same:
  "b_clients (release_msg_ref b i) = b_clients b" "b_ring (release_msg_ref b i) = b_ring b"
  "b_trie (release_msg_ref b i) = b_trie b" "b_now (release_msg_ref b i) = b_now b"
  "b_max_clients (release_msg_ref b i) = b_max_clients b" "b_calls (release_msg_ref b i) = b_calls b"
  "client_at (release_msg_ref b i) = client_at b"
  by (simp_all add: release_msg_ref_def Let_def client_at_def fun_eq_iff split: prod.splits)

lemma msg_ref_same:
  "b_clients (msg_ref b i) = b_clients b" "b_ring (msg_ref b i) = b_ring b" "b_recv_pool (msg_ref b i) = b_recv_pool b"
  "client_at (msg_ref b i) = client_at b" "b_max_clients (msg_ref b i) = b_max_clients b"
  by (simp_all add: msg_ref_def client_at_def fun_eq_iff)

end
