(* ===== verification/Egress_Flush.thy ===== *)
theory Egress_Flush
  imports Msg_Path
begin

text \<open>
  The egress flush engine of \<^verbatim>\<open>src/src/broker/loop.h\<close>: batching the head of a client's egress queue
  into one \<open>writev\<close>, and the completion of that \<open>writev\<close>.
\<close>

section \<open>Removing the head\<close>

definition egress_discard_head :: "broker \<Rightarrow> nat \<Rightarrow> egress_segment \<Rightarrow> broker" where
  "egress_discard_head b s seg =
     (let b = (if seg_kind seg = SEG_PUBLISH \<and> seg_msg_idx seg \<noteq> MSG_POOL_INVALID \<and> seg_packet_id seg = 0
               then release_msg_ref b (seg_msg_idx seg) else b)
      in client_update b s egress_pop_head)"

definition egress_complete_head :: "broker \<Rightarrow> nat \<Rightarrow> egress_segment \<Rightarrow> broker" where
  "egress_complete_head b s seg =
     (let b = (if seg_kind seg = SEG_PUBLISH \<and> seg_qos seg = 0 \<and> seg_msg_idx seg \<noteq> MSG_POOL_INVALID
               then release_msg_ref b (seg_msg_idx seg) else b)
      in client_update b s egress_pop_head)"

section \<open>Resuming a partial write\<close>

text \<open>The loop over the first \<open>iov_cnt\<close> entries of the array.\<close>

fun egress_apply_cursor :: "iovec list \<Rightarrow> nat \<Rightarrow> u32 \<Rightarrow> iovec list" where
  "egress_apply_cursor (v # vs) (Suc n) cursor =
     (if cursor = 0 then v # vs
      else let len = of_nat (iov_len v) :: u32
           in if len = 0 then v # egress_apply_cursor vs n cursor
              else if cursor \<ge> len then v\<lparr>iov_len := 0\<rparr> # egress_apply_cursor vs n (cursor - len)
              else v\<lparr>iov_off := iov_off v + unat cursor, iov_len := unat (len - cursor)\<rparr>
                   # egress_apply_cursor vs n 0)"
| "egress_apply_cursor vs n cursor = vs"

section \<open>Flushing\<close>

definition LLMQ_INFLIGHT_TIMEOUT_MS :: u64 where
  "LLMQ_INFLIGHT_TIMEOUT_MS = 30000"

text \<open>The conditions under which the pre-clean loop discards the head.\<close>

definition seg_discarded :: "client_slot \<Rightarrow> egress_segment \<Rightarrow> bool" where
  "seg_discarded c seg \<longleftrightarrow>
     (if seg_slot_gen seg \<noteq> c_generation c then True
      else if seg_kind seg = SEG_PUBLISH
           then let wl = egress_seg_load_wire_len seg in wl = 0 \<or> seg_cursor seg \<ge> wl
      else if seg_kind seg = SEG_CTRL
           then seg_ctrl_len seg = 0 \<or> seg_cursor seg \<ge> ucast (seg_ctrl_len seg)
      else True)"

text \<open>The pre-clean loop; each round removes a segment, so the count at its start bounds the rounds.\<close>

fun egress_clean :: "nat \<Rightarrow> broker \<Rightarrow> nat \<Rightarrow> broker" where
  "egress_clean 0 b s = b"
| "egress_clean (Suc n) b s =
     (let c = client_at b s
      in if c_egress_count c > 0 \<and> seg_discarded c (egress_head c)
         then egress_clean n (egress_discard_head b s (egress_head c)) s else b)"

text \<open>The header of a PUBLISH and the flags of its first byte.\<close>

definition publish_head :: "canonical_msg \<Rightarrow> egress_segment \<Rightarrow> bytes" where
  "publish_head msg seg =
     (let remaining = 2 + of_nat (cm_topic_len msg) + of_nat (cm_payload_len msg) :: u32;
          remaining = (if seg_qos seg > 0 then remaining + 2 else remaining);
          flags = (if seg_retain seg \<noteq> 0 then 0x01 else 0);
          flags = flags OR (push_bit 1 (seg_qos seg) AND 0x06);
          flags = (if seg_dup seg \<noteq> 0 then flags OR 0x08 else flags)
      in (0x30 OR flags) # mqtt_encode_remaining_len remaining
         @ [hi8 (of_nat (cm_topic_len msg)), lo8 (of_nat (cm_topic_len msg))])"

text \<open>The local variables of the batching loop: the client, \<open>batch\<close>, \<open>pub_idx\<close> and \<open>iov_cnt\<close>, a u8.\<close>

record flush_batch =
  fb_client :: client_slot
  fb_batch :: nat
  fb_pub_idx :: nat
  fb_iov_cnt :: nat

definition add_iov :: "flush_batch \<Rightarrow> pointer \<Rightarrow> nat \<Rightarrow> nat \<Rightarrow> flush_batch" where
  "add_iov f base off len =
     f\<lparr>fb_client := (fb_client f)\<lparr>c_egress_iov := (c_egress_iov (fb_client f))
          [fb_iov_cnt f := \<lparr>iov_base = base, iov_off = off, iov_len = len\<rparr>]\<rparr>,
       fb_iov_cnt := (fb_iov_cnt f + 1) mod 256\<rparr>"

definition seg_index :: "client_slot \<Rightarrow> nat \<Rightarrow> nat" where
  "seg_index c i = (c_egress_head c + i) AND c_egress_mask c"

definition add_publish :: "flush_batch \<Rightarrow> canonical_msg \<Rightarrow> egress_segment \<Rightarrow> flush_batch" where
  "add_publish f msg seg =
     (let hdr = publish_head msg seg;
          f = f\<lparr>fb_client := (fb_client f)\<lparr>c_egress_headers := (c_egress_headers (fb_client f))
                [fb_pub_idx f := hdr @ drop (length hdr) (c_egress_headers (fb_client f) ! fb_pub_idx f)]\<rparr>\<rparr>;
          f = add_iov f (PEgressHdr (fb_pub_idx f)) 0 (length hdr);
          f = add_iov f (PRecvBuf (cm_buf_idx msg)) (cm_topic_off msg) (cm_topic_len msg);
          f = (if seg_qos seg > 0
               then add_iov (f\<lparr>fb_client := (fb_client f)\<lparr>c_egress_pkt_ids := (c_egress_pkt_ids (fb_client f))
                       [fb_pub_idx f := [hi8 (seg_packet_id seg), lo8 (seg_packet_id seg)]]\<rparr>\<rparr>)
                      (PEgressPktId (fb_pub_idx f)) 0 2
               else add_iov f PNull 0 0);
          f = add_iov f (PRecvBuf (cm_buf_idx msg)) (cm_payload_off msg) (cm_payload_len msg)
      in f\<lparr>fb_pub_idx := fb_pub_idx f + 1, fb_batch := fb_batch f + 1\<rparr>)"

text \<open>One round of the batching loop: break, return \<open>EGRESS_FLUSH_NOOP\<close>, or the next round.\<close>

datatype round_result = Break | Return_Noop | Next flush_batch

definition batch_ctrl :: "flush_batch \<Rightarrow> nat \<Rightarrow> egress_segment \<Rightarrow> round_result" where
  "batch_ctrl f i seg =
     (if seg_ctrl_len seg = 0 \<or> seg_cursor seg \<ge> ucast (seg_ctrl_len seg) then Break
      else if fb_batch f > 0 \<and> seg_cursor seg > 0 then Break
      else let f = add_iov f (PEgressCtrl (seg_index (fb_client f) i)) (unat (seg_cursor seg))
                     (unat (seg_ctrl_len seg) - unat (seg_cursor seg))
           in Next (f\<lparr>fb_batch := fb_batch f + 1\<rparr>))"

definition batch_publish :: "msg_pool \<Rightarrow> buf_pool \<Rightarrow> u64 \<Rightarrow> flush_batch \<Rightarrow> nat \<Rightarrow> egress_segment \<Rightarrow> round_result" where
  "batch_publish mp rp now f i seg =
     (case msg_pool_get mp (seg_msg_idx seg) of None \<Rightarrow> Break | Some msg \<Rightarrow>
      if buf_pool_get rp (cm_buf_idx msg) = None then Break
      else if egress_seg_load_wire_len seg = 0 then Break
      else if fb_batch f > 0 \<and> seg_cursor seg > 0 then Break
      else if seg_qos seg > 0 \<and> seg_packet_id seg = 0
      then case client_inflight_alloc (fb_client f) (seg_qos seg) (seg_msg_idx seg) (now + LLMQ_INFLIGHT_TIMEOUT_MS) of
             (None, c) \<Rightarrow> if fb_batch f = 0 then Return_Noop else Break
           | (Some (inf_idx, packet_id), c) \<Rightarrow>
               let seg = seg\<lparr>seg_packet_id := packet_id\<rparr>;
                   c = c\<lparr>c_egress := (c_egress c)[seg_index c i := seg]\<rparr>
               in Next (add_publish (f\<lparr>fb_client := c\<rparr>) msg seg)
      else Next (add_publish f msg seg))"

definition batch_round :: "msg_pool \<Rightarrow> buf_pool \<Rightarrow> u64 \<Rightarrow> flush_batch \<Rightarrow> nat \<Rightarrow> round_result" where
  "batch_round mp rp now f i =
     (let c = fb_client f;
          seg = c_egress c ! seg_index c i
      in if seg_slot_gen seg \<noteq> c_generation c then Break
         else if seg_kind seg = SEG_CTRL then batch_ctrl f i seg
         else if seg_kind seg \<noteq> SEG_PUBLISH then Break
         else batch_publish mp rp now f i seg)"

text \<open>The rounds \<open>i = EGRESS_BATCH_MAX - n, ...\<close>; the flag is set when the function returns early.\<close>

fun batch_loop :: "msg_pool \<Rightarrow> buf_pool \<Rightarrow> u64 \<Rightarrow> nat \<Rightarrow> flush_batch \<Rightarrow> bool \<times> flush_batch" where
  "batch_loop mp rp now 0 f = (False, f)"
| "batch_loop mp rp now (Suc n) f =
     (let i = EGRESS_BATCH_MAX - Suc n
      in if i < c_egress_count (fb_client f)
         then case batch_round mp rp now f i of
                Break \<Rightarrow> (False, f)
              | Return_Noop \<Rightarrow> (True, f)
              | Next f \<Rightarrow> batch_loop mp rp now n f
         else (False, f))"

text \<open>The cursor of the head is applied to the entries of the head.\<close>

definition resume_iov :: "client_slot \<Rightarrow> client_slot" where
  "resume_iov c =
     (let head = egress_head c
      in if seg_cursor head > 0
         then c\<lparr>c_egress_iov := egress_apply_cursor (c_egress_iov c)
                (if seg_kind head = SEG_CTRL then 1 else 4) (seg_cursor head)\<rparr>
         else c)"

definition egress_sqe :: "client_slot \<Rightarrow> nat \<Rightarrow> nat \<Rightarrow> io_uring_sqe \<Rightarrow> io_uring_sqe" where
  "egress_sqe c s iov_cnt sqe = (ring_prep_writev sqe (c_fd c) (AIovec s) (of_nat iov_cnt) 0)
     \<lparr>sqe_user_data := make_user_data OP_EGRESS (of_int (c_fd c)) (MAKE_EGRESS_CTX (of_nat s) (c_generation c))\<rparr>"

definition egress_submit :: "broker \<Rightarrow> nat \<Rightarrow> flush_batch \<Rightarrow> flush_result \<times> broker" where
  "egress_submit b s f =
     (case ring_get_sqe (b_ring b) of
        (None, r) \<Rightarrow> (EGRESS_FLUSH_SQ_FULL, b\<lparr>b_ring := r, b_drops_sq_full := b_drops_sq_full b + 1\<rparr>)
      | (Some i, r) \<Rightarrow>
          (EGRESS_FLUSH_SUBMITTED,
           client_update (b\<lparr>b_ring := sqe_update r i (egress_sqe (client_at b s) s (fb_iov_cnt f))\<rparr>) s
             (\<lambda>c. c\<lparr>c_egress_inflight := True, c_egress_batch_count := fb_batch f\<rparr>)))"

definition egress_flush :: "broker \<Rightarrow> nat \<Rightarrow> flush_result \<times> broker" where
  "egress_flush b s =
     (let c = client_at b s
      in if c_egress_inflight c \<or> c_egress_count c = 0 \<or> c_state c \<noteq> CLIENT_ACTIVE then (EGRESS_FLUSH_NOOP, b)
         else
         let b = egress_clean (c_egress_count c) b s; c = client_at b s
         in if c_egress_count c = 0 then (EGRESS_FLUSH_NOOP, b)
         else
         let (noop, f) = batch_loop (b_msg_pool b) (b_recv_pool b) (b_now b) EGRESS_BATCH_MAX
               \<lparr>fb_client = c, fb_batch = 0, fb_pub_idx = 0, fb_iov_cnt = 0\<rparr>
         in if noop \<or> fb_batch f = 0
            then (EGRESS_FLUSH_NOOP, client_update b s (\<lambda>_. fb_client f))
            else egress_submit (client_update b s (\<lambda>_. resume_iov (fb_client f))) s f)"

text \<open>What every caller does with a full submission queue.\<close>

definition egress_kick :: "broker \<Rightarrow> nat \<Rightarrow> broker" where
  "egress_kick b s = (case egress_flush b s of (rc, b) \<Rightarrow>
     if rc = EGRESS_FLUSH_SQ_FULL then egress_flush_enqueue b s else b)"

section \<open>Completion\<close>

definition seg_wire_len :: "egress_segment \<Rightarrow> u32" where
  "seg_wire_len seg = (if seg_kind seg = SEG_CTRL then ucast (seg_ctrl_len seg) else egress_seg_load_wire_len seg)"

text \<open>A store through the pointer to the head segment.\<close>

definition head_update :: "client_slot \<Rightarrow> (egress_segment \<Rightarrow> egress_segment) \<Rightarrow> client_slot" where
  "head_update c f = (let i = egress_head_seg (c_egress_head c) (c_egress_mask c)
     in c\<lparr>c_egress := (c_egress c)[i := f (c_egress c ! i)]\<rparr>)"

text \<open>The walk over the batch; \<open>n\<close> is \<open>batch - i\<close>.\<close>

fun egress_walk :: "nat \<Rightarrow> u32 \<Rightarrow> broker \<Rightarrow> nat \<Rightarrow> broker" where
  "egress_walk 0 bytes_left b s = b"
| "egress_walk (Suc n) bytes_left b s =
     (let c = client_at b s
      in if c_egress_count c > 0 \<and> bytes_left > 0
         then let seg = egress_head c;
                  seg_remaining = seg_wire_len seg - seg_cursor seg
              in if bytes_left \<ge> seg_remaining
                 then egress_walk n (bytes_left - seg_remaining) (egress_complete_head b s seg) s
                 else egress_walk n 0 (client_update b s
                        (\<lambda>c. head_update c (\<lambda>g. g\<lparr>seg_cursor := seg_cursor g + bytes_left\<rparr>))) s
         else b)"

text \<open>The loop that discards a failed batch.\<close>

fun egress_fail_batch :: "nat \<Rightarrow> broker \<Rightarrow> nat \<Rightarrow> broker option" where
  "egress_fail_batch 0 b s = Some b"
| "egress_fail_batch (Suc n) b s =
     (let c = client_at b s
      in if c_egress_count c > 0
         then let seg = egress_head c
              in if seg_kind seg = SEG_PUBLISH \<and> seg_qos seg > 0 \<and> seg_packet_id seg > 0 \<and> seg_dup seg = 0
                 then (case client_inflight_find_direct c (seg_packet_id seg) of
                         None \<Rightarrow> egress_fail_batch n (client_update b s egress_pop_head) s
                       | Some i \<Rightarrow>
                           let b = release_msg_ref b (ih_msg_idx (c_inflight_hot c ! i))
                           in case client_inflight_free_slot (client_at b s) i of
                                None \<Rightarrow> None
                              | Some c \<Rightarrow> egress_fail_batch n (client_update b s (\<lambda>_. egress_pop_head c)) s)
                 else egress_fail_batch n (egress_discard_head b s seg) s
         else Some b)"

abbreviation (input) "EAGAIN \<equiv> 11 :: int"
abbreviation (input) "EINTR \<equiv> 4 :: int"

definition handle_egress_cqe :: "broker \<Rightarrow> io_uring_cqe \<Rightarrow> broker option" where
  "handle_egress_cqe b cqe =
     (let ctx = ud_ctx (cqe_user_data cqe);
          slot_idx = unat (EGRESS_CTX_SLOT ctx);
          cqe_gen = EGRESS_CTX_GEN ctx;
          cqe_fd = int (unat (ud_fd (cqe_user_data cqe)))
      in case broker_get_client b slot_idx of None \<Rightarrow> Some b | Some s \<Rightarrow>
         if c_generation (client_at b s) \<noteq> cqe_gen \<or> c_fd (client_at b s) \<noteq> cqe_fd then Some b
         else
         let b = client_update b s (\<lambda>c. c\<lparr>c_egress_inflight := False\<rparr>);
             batch = c_egress_batch_count (client_at b s);
             res = cqe_res cqe
         in if c_egress_count (client_at b s) = 0 then Some b
         else map_option (\<lambda>b. if c_egress_count (client_at b s) > 0 \<and> c_state (client_at b s) = CLIENT_ACTIVE
                              then egress_kick b s else b)
           (if res > 0
            then Some (egress_walk batch (of_int res) (b\<lparr>b_bytes_sent := b_bytes_sent b + of_int res\<rparr>) s)
            else if res = - EAGAIN \<or> res = - EINTR then Some b
            else egress_fail_batch batch (b\<lparr>b_drops_send_failed := b_drops_send_failed b + 1\<rparr>) s))"

end
