(* ===== verification/Publish.thy ===== *)
theory Publish
  imports Packet Egress
begin

text \<open>
  PUBLISH parsing and encoding and the four-byte acknowledgements, \<^verbatim>\<open>src/src/mqtt/publish.h\<close>.
\<close>

abbreviation (input) "MQTT_PUBLISH_FLAG_RETAIN \<equiv> 0x01 :: u8"
abbreviation (input) "MQTT_PUBLISH_FLAG_QOS_MASK \<equiv> 0x06 :: u8"
abbreviation (input) "MQTT_PUBLISH_FLAG_DUP \<equiv> 0x08 :: u8"

text \<open>\<open>payload\<close> is an offset into the buffer the packet was parsed from, like the topic.\<close>

record mqtt_publish =
  pub_retain :: bool
  pub_qos :: u8
  pub_dup :: bool
  pub_topic :: mqtt_str
  pub_packet_id :: u16
  pub_payload :: nat
  pub_payload_len :: nat

section \<open>Parsing\<close>

definition mqtt_parse_publish :: "u8 \<Rightarrow> bytes \<Rightarrow> nat \<Rightarrow> nat \<Rightarrow> parse_error + mqtt_publish" where
  "mqtt_parse_publish flags buf p len =
     (let retain = (flags AND MQTT_PUBLISH_FLAG_RETAIN \<noteq> 0);
          qos = drop_bit 1 (flags AND MQTT_PUBLISH_FLAG_QOS_MASK);
          dup = (flags AND MQTT_PUBLISH_FLAG_DUP \<noteq> 0)
      in if qos > 2 then Inl MQTT_ERR_MALFORMED
         else if qos = 0 \<and> dup then Inl MQTT_ERR_MALFORMED
         else ebind (mqtt_parse_string buf p len) (\<lambda>(topic, pos).
           if str_len topic = 0 then Inl MQTT_ERR_MALFORMED
           else ebind (if qos > 0 then
                         (if len < pos + 2 then Inl MQTT_INCOMPLETE
                          else ebind (mqtt_read_u16 buf (p + pos)) (\<lambda>pid.
                            if pid = 0 then Inl MQTT_ERR_MALFORMED else Inr (pid, pos + 2)))
                       else Inr (0, pos)) (\<lambda>(packet_id, pos).
             Inr \<lparr>pub_retain = retain, pub_qos = qos, pub_dup = dup, pub_topic = topic,
                  pub_packet_id = packet_id, pub_payload = p + pos, pub_payload_len = len - pos\<rparr>)))"

section \<open>Encoding\<close>

definition mqtt_publish_size :: "nat \<Rightarrow> u32 \<Rightarrow> u8 \<Rightarrow> u32" where
  "mqtt_publish_size topic_len payload_len qos =
     (let remaining = 2 + of_nat topic_len + payload_len;
          remaining = (if qos > 0 then remaining + 2 else remaining);
          vbi_size = 1;
          vbi_size = (if remaining > 127 then 2 else vbi_size);
          vbi_size = (if remaining > 16383 then 3 else vbi_size);
          vbi_size = (if remaining > 2097151 then 4 else vbi_size)
      in 1 + vbi_size + remaining)"

definition publish_flags :: "bool \<Rightarrow> u8 \<Rightarrow> bool \<Rightarrow> u8" where
  "publish_flags retain qos dup =
     (let flags = (if retain then MQTT_PUBLISH_FLAG_RETAIN else 0);
          flags = flags OR (push_bit 1 qos AND MQTT_PUBLISH_FLAG_QOS_MASK)
      in if dup then flags OR MQTT_PUBLISH_FLAG_DUP else flags)"

text \<open>\<open>src\<close> is the buffer the topic and payload of \<open>pub\<close> point into.\<close>

definition mqtt_encode_publish :: "bytes \<Rightarrow> mqtt_publish \<Rightarrow> u16 \<Rightarrow> bytes" where
  "mqtt_encode_publish src pub packet_id_override =
     (let flags = publish_flags (pub_retain pub) (pub_qos pub) (pub_dup pub);
          remaining = 2 + of_nat (str_len (pub_topic pub)) + of_nat (pub_payload_len pub);
          remaining = (if pub_qos pub > 0 then remaining + 2 else remaining);
          pid = (if packet_id_override \<noteq> 0 then packet_id_override else pub_packet_id pub)
      in mqtt_encode_fixed_header MQTT_PUBLISH flags remaining
         @ [hi8 (of_nat (str_len (pub_topic pub))), lo8 (of_nat (str_len (pub_topic pub)))]
         @ str_bytes src (pub_topic pub)
         @ (if pub_qos pub > 0 then [hi8 pid, lo8 pid] else [])
         @ take (pub_payload_len pub) (drop (pub_payload pub) src))"

text \<open>The bytes in the buffer, \<open>topic_end\<close>, \<open>*out_total\<close> and \<open>*out_payload_len\<close>.\<close>

definition mqtt_encode_publish_scatter :: "bytes \<Rightarrow> mqtt_publish \<Rightarrow> bytes \<times> nat \<times> nat \<times> nat" where
  "mqtt_encode_publish_scatter src pub =
     (let flags = publish_flags (pub_retain pub) (pub_qos pub) (pub_dup pub);
          remaining = 2 + of_nat (str_len (pub_topic pub)) + 2 + of_nat (pub_payload_len pub);
          head = mqtt_encode_fixed_header MQTT_PUBLISH flags remaining
                 @ [hi8 (of_nat (str_len (pub_topic pub))), lo8 (of_nat (str_len (pub_topic pub)))]
                 @ str_bytes src (pub_topic pub);
          topic_end = length head;
          buf = head @ take (pub_payload_len pub) (drop (pub_payload pub) src)
      in (buf, topic_end, length buf, pub_payload_len pub))"

definition mqtt_encode_puback :: "u16 \<Rightarrow> bytes" where
  "mqtt_encode_puback packet_id = [push_bit 4 MQTT_PUBACK, 2, hi8 packet_id, lo8 packet_id]"

definition mqtt_encode_pubrec :: "u16 \<Rightarrow> bytes" where
  "mqtt_encode_pubrec packet_id = [push_bit 4 MQTT_PUBREC, 2, hi8 packet_id, lo8 packet_id]"

definition mqtt_encode_pubrel :: "u16 \<Rightarrow> bytes" where
  "mqtt_encode_pubrel packet_id = [push_bit 4 MQTT_PUBREL OR 0x02, 2, hi8 packet_id, lo8 packet_id]"

definition mqtt_encode_pubcomp :: "u16 \<Rightarrow> bytes" where
  "mqtt_encode_pubcomp packet_id = [push_bit 4 MQTT_PUBCOMP, 2, hi8 packet_id, lo8 packet_id]"


section \<open>Memory safety\<close>

text \<open>Parsing a PUBLISH never reads outside the bytes it was given; an accepted packet has a QoS of at
  most 2, no DUP flag at QoS 0, a packet identifier exactly when the QoS is not 0, a non-empty topic
  inside the packet, and a payload that starts behind the topic and ends with the packet.\<close>

theorem publish_parse_safe:
  assumes "p + len \<le> length buf"
  shows "mqtt_parse_publish flags buf p len \<noteq> Inl OUT_OF_BOUNDS
    \<and> (case mqtt_parse_publish flags buf p len of Inl e \<Rightarrow> True
       | Inr pub \<Rightarrow> pub_qos pub \<le> 2 \<and> (pub_dup pub \<longrightarrow> pub_qos pub \<noteq> 0)
           \<and> (pub_packet_id pub = 0 \<longleftrightarrow> pub_qos pub = 0)
           \<and> (\<exists>t. str_ptr (pub_topic pub) = Some t \<and> p + 2 \<le> t \<and> 0 < str_len (pub_topic pub)
                \<and> t + str_len (pub_topic pub) \<le> pub_payload pub)
           \<and> pub_payload pub + pub_payload_len pub = p + len)"
proof -
  have q: "x > 0 \<longleftrightarrow> x \<noteq> 0" for x :: u8 by (simp add: word_gt_0)
  show ?thesis
    using assms
    by (auto simp: mqtt_parse_publish_def Let_def ebind_Inr_iff ebind_Inl_iff buf_simps q
             dest: mqtt_parse_string_Inl dest!: mqtt_parse_string_Inr split: sum.split if_splits)
qed

theorem publish_parse_safe_witness:
  "mqtt_parse_publish 2 [0, 1, 97, 0, 7, 120] 0 6 \<noteq> Inl OUT_OF_BOUNDS
   \<and> mqtt_parse_publish 2 [0, 1, 97, 0, 7, 120] 0 6 = Inr \<lparr>pub_retain = False, pub_qos = 1,
       pub_dup = False, pub_topic = \<lparr>str_ptr = Some 2, str_len = 1\<rparr>, pub_packet_id = 7,
       pub_payload = 5, pub_payload_len = 1\<rparr>"
proof -
  have "mqtt_parse_publish 2 [0, 1, 97, 0, 7, 120] 0 6 = Inr \<lparr>pub_retain = False, pub_qos = 1,
       pub_dup = False, pub_topic = \<lparr>str_ptr = Some 2, str_len = 1\<rparr>, pub_packet_id = 7,
       pub_payload = 5, pub_payload_len = 1\<rparr>" by code_simp
  with publish_parse_safe [of 0 6 "[0, 1, 97, 0, 7, 120]" 2] show ?thesis by simp
qed

section \<open>Flags\<close>

lemma publish_flags_bits:
  assumes "qos \<le> 2"
  shows "publish_flags retain qos dup AND 0x0F = publish_flags retain qos dup"
    "(publish_flags retain qos dup AND 0x01 \<noteq> 0) = retain"
    "drop_bit 1 (publish_flags retain qos dup AND 0x06) = qos"
    "(publish_flags retain qos dup AND 0x08 \<noteq> 0) = dup"
proof -
  have "unat qos = unat (0::u8) \<or> unat qos = unat (1::u8) \<or> unat qos = unat (2::u8)"
    using assms by (auto simp: word_le_nat_alt)
  then have "qos = 0 \<or> qos = 1 \<or> qos = 2" by (simp only: word_unat_eq_iff)
  then show "publish_flags retain qos dup AND 0x0F = publish_flags retain qos dup"
    "(publish_flags retain qos dup AND 0x01 \<noteq> 0) = retain"
    "drop_bit 1 (publish_flags retain qos dup AND 0x06) = qos"
    "(publish_flags retain qos dup AND 0x08 \<noteq> 0) = dup"
    by (auto simp: publish_flags_def Let_def)
qed

section \<open>Encoding\<close>

definition publish_remaining :: "nat \<Rightarrow> nat \<Rightarrow> u8 \<Rightarrow> nat" where
  "publish_remaining topic_len payload_len qos = 2 + topic_len + payload_len + (if qos > 0 then 2 else 0)"

text \<open>A publication the broker may encode: its topic and payload lie in the source buffer.\<close>

definition publish_ok :: "bytes \<Rightarrow> mqtt_publish \<Rightarrow> bool" where
  "publish_ok src pub \<longleftrightarrow> pub_qos pub \<le> 2 \<and> (pub_dup pub \<longrightarrow> pub_qos pub \<noteq> 0)
     \<and> str_ptr (pub_topic pub) \<noteq> None \<and> str_in src (pub_topic pub)
     \<and> 0 < str_len (pub_topic pub) \<and> str_len (pub_topic pub) < 65536
     \<and> pub_payload pub + pub_payload_len pub \<le> length src
     \<and> publish_remaining (str_len (pub_topic pub)) (pub_payload_len pub) (pub_qos pub) < 2 ^ 28"

definition publish_payload :: "bytes \<Rightarrow> mqtt_publish \<Rightarrow> bytes" where
  "publish_payload src pub = take (pub_payload_len pub) (drop (pub_payload pub) src)"

definition publish_pid :: "mqtt_publish \<Rightarrow> u16 \<Rightarrow> u16" where
  "publish_pid pub ov = (if ov \<noteq> 0 then ov else pub_packet_id pub)"

lemma publish_remaining_word:
  "(let remaining = 2 + of_nat tlen + of_nat plen :: u32 in if q > 0 then remaining + 2 else remaining)
     = of_nat (publish_remaining tlen plen q)"
  by (simp add: publish_remaining_def Let_def)

lemma mqtt_encode_publish_eq:
  "mqtt_encode_publish src pub ov =
     mqtt_encode_fixed_header MQTT_PUBLISH (publish_flags (pub_retain pub) (pub_qos pub) (pub_dup pub))
       (of_nat (publish_remaining (str_len (pub_topic pub)) (pub_payload_len pub) (pub_qos pub)))
     @ [hi8 (of_nat (str_len (pub_topic pub))), lo8 (of_nat (str_len (pub_topic pub)))]
     @ str_bytes src (pub_topic pub)
     @ (if pub_qos pub > 0 then [hi8 (publish_pid pub ov), lo8 (publish_pid pub ov)] else [])
     @ publish_payload src pub"
  by (simp add: mqtt_encode_publish_def publish_remaining_def publish_pid_def publish_payload_def Let_def
           add.assoc)

lemma publish_ok_lengths:
  assumes "publish_ok src pub"
  shows "length (str_bytes src (pub_topic pub)) = str_len (pub_topic pub)"
    "length (publish_payload src pub) = pub_payload_len pub"
  using assms by (auto simp: publish_ok_def str_bytes_def publish_payload_def str_in_def split: option.splits)

lemma unat_publish_remaining:
  "n < 2 ^ 28 \<Longrightarrow> unat (of_nat n :: u32) = n"
  by (simp add: unat_of_nat_mod)

lemma length_encode_publish:
  assumes "publish_ok src pub"
  shows "length (mqtt_encode_publish src pub ov) =
    (let n = publish_remaining (str_len (pub_topic pub)) (pub_payload_len pub) (pub_qos pub)
     in 1 + length (mqtt_encode_remaining_len (of_nat n)) + n)"
  by (simp add: mqtt_encode_publish_eq mqtt_encode_fixed_header_def publish_ok_lengths [OF assms]
           publish_remaining_def Let_def)


lemma vbi_length:
  assumes "n < 2 ^ 28"
  shows "length (mqtt_encode_remaining_len (of_nat n)) =
    (if n > 2097151 then 4 else if n > 16383 then 3 else if n > 127 then 2 else 1)"
proof -
  let ?l = "length (mqtt_encode_remaining_len (of_nat n))"
  have u: "unat (of_nat n :: u32) = n" by (rule unat_publish_remaining [OF assms])
  have ub: "n < 2 ^ (7 * k) \<Longrightarrow> 0 < k \<Longrightarrow> ?l \<le> k" for k
    using length_encode_remaining_len [of "of_nat n" k] u by simp
  have lb: "2 ^ (7 * k) \<le> n \<Longrightarrow> k < ?l" for k
    using length_encode_remaining_len_ge [of k "of_nat n"] u by simp
  have "1 \<le> ?l" by (simp add: encode_remaining_len_nonempty Suc_leI)
  then show ?thesis
    using ub [of 1] ub [of 2] ub [of 3] ub [of 4] lb [of 1] lb [of 2] lb [of 3] assms
    by (auto simp: not_less)
qed

lemma publish_fits:
  assumes "publish_ok src pub"
  shows "length (mqtt_encode_publish src pub ov) < 2 ^ 28 + 5"
  using assms vbi_length [of "publish_remaining (str_len (pub_topic pub)) (pub_payload_len pub) (pub_qos pub)"]
  by (simp add: length_encode_publish Let_def publish_ok_def split: if_splits)

text \<open>The size a caller reserves, the wire length the egress queue records for a message and the
  number of bytes the encoder writes are the same.\<close>

theorem publish_size_exact:
  assumes "publish_ok src pub"
    and "cm_topic_len msg = str_len (pub_topic pub)" "cm_payload_len msg = pub_payload_len pub"
  shows "mqtt_publish_size (str_len (pub_topic pub)) (of_nat (pub_payload_len pub)) (pub_qos pub)
           = of_nat (length (mqtt_encode_publish src pub ov))
       \<and> egress_publish_wire_len msg (pub_qos pub) = of_nat (length (mqtt_encode_publish src pub ov))
       \<and> unat (egress_publish_wire_len msg (pub_qos pub)) = length (mqtt_encode_publish src pub ov)"
proof -
  let ?n = "publish_remaining (str_len (pub_topic pub)) (pub_payload_len pub) (pub_qos pub)"
  have n: "?n < 2 ^ 28" using assms by (simp add: publish_ok_def)
  have gt: "(of_nat ?n :: u32) > of_nat k \<longleftrightarrow> ?n > k" if "k < 2 ^ 28" for k
    using that n by (simp add: word_less_nat_alt unat_of_nat_mod)
  have len: "length (mqtt_encode_publish src pub ov) = 1 + length (mqtt_encode_remaining_len (of_nat ?n)) + ?n"
    by (simp add: length_encode_publish [OF assms(1)] Let_def)
  have size: "mqtt_publish_size (str_len (pub_topic pub)) (of_nat (pub_payload_len pub)) (pub_qos pub)
      = 1 + (if of_nat ?n > (2097151 :: u32) then 4 else if of_nat ?n > (16383 :: u32) then 3
             else if of_nat ?n > (127 :: u32) then 2 else 1) + of_nat ?n"
    unfolding mqtt_publish_size_def publish_remaining_word [symmetric] Let_def
    by (auto simp: word_less_nat_alt)
  have 1: "mqtt_publish_size (str_len (pub_topic pub)) (of_nat (pub_payload_len pub)) (pub_qos pub)
      = of_nat (length (mqtt_encode_publish src pub ov))"
    using gt [of 2097151] gt [of 16383] gt [of 127] vbi_length [OF n]
    unfolding size len by simp
  have 2: "egress_publish_wire_len msg (pub_qos pub) = of_nat (length (mqtt_encode_publish src pub ov))"
    unfolding egress_publish_wire_len_def assms(2,3) wire_vbi_count_eq len
    using publish_remaining_word [of "str_len (pub_topic pub)" "pub_payload_len pub" "pub_qos pub"]
    by (simp add: Let_def)
  show ?thesis using 1 2 publish_fits [OF assms(1), of ov] by (simp add: unat_of_nat_mod)
qed

lemma parse_publish_fields:
  assumes "(fl AND 0x01 \<noteq> 0) = r" "drop_bit 1 (fl AND 0x06) = qos" "(fl AND 0x08 \<noteq> 0) = dup"
    and "qos \<le> 2" "dup \<Longrightarrow> qos \<noteq> 0"
    and "mqtt_parse_string buf q n = Inr (t, k)" "str_len t \<noteq> 0"
    and "qos \<noteq> 0 \<Longrightarrow> mqtt_read_u16 buf (q + k) = Inr pid \<and> pid \<noteq> 0 \<and> k + 2 \<le> n"
  shows "mqtt_parse_publish fl buf q n = Inr \<lparr>pub_retain = r, pub_qos = qos, pub_dup = dup,
      pub_topic = t, pub_packet_id = (if qos \<noteq> 0 then pid else 0),
      pub_payload = q + (k + (if qos \<noteq> 0 then 2 else 0)),
      pub_payload_len = n - (k + (if qos \<noteq> 0 then 2 else 0))\<rparr>"
proof -
  have "qos > 0 \<longleftrightarrow> qos \<noteq> 0" by (simp add: word_gt_0)
  moreover have "\<not> qos > 2" using assms(4) by simp
  moreover have "\<not> n < k + 2" if "qos \<noteq> 0" using assms(8) that by simp
  moreover have "\<not> (qos = 0 \<and> dup)" using assms(5) by blast
  ultimately show ?thesis
    using assms(6-8) unfolding mqtt_parse_publish_def Let_def assms(1-3)
    by (cases "qos = 0") simp_all
qed

text \<open>C31: what the encoder writes, the broker's own framing and parser read back: one complete packet with
  the same flags, topic and payload and with the packet identifier of the override when it is not 0.\<close>

theorem publish_roundtrip:
  assumes "publish_ok src pub" "pub_qos pub \<noteq> 0 \<Longrightarrow> publish_pid pub ov \<noteq> 0"
    and "at_offset buf p (mqtt_encode_publish src pub ov)"
    and "length (mqtt_encode_publish src pub ov) \<le> len"
  shows "\<exists>hdr pub'. mqtt_packet_complete_ex buf p len = Inr (length (mqtt_encode_publish src pub ov), hdr)
    \<and> hdr_type hdr = MQTT_PUBLISH
    \<and> mqtt_parse_publish (hdr_flags hdr) buf (p + header_len hdr) (unat (remaining_len hdr)) = Inr pub'
    \<and> pub_retain pub' = pub_retain pub \<and> pub_qos pub' = pub_qos pub \<and> pub_dup pub' = pub_dup pub
    \<and> pub_packet_id pub' = (if pub_qos pub \<noteq> 0 then publish_pid pub ov else 0)
    \<and> str_bytes buf (pub_topic pub') = str_bytes src (pub_topic pub)
    \<and> publish_payload buf pub' = publish_payload src pub"
proof -
  let ?t = "str_bytes src (pub_topic pub)" and ?pl = "publish_payload src pub"
  let ?n = "publish_remaining (str_len (pub_topic pub)) (pub_payload_len pub) (pub_qos pub)"
  let ?fl = "publish_flags (pub_retain pub) (pub_qos pub) (pub_dup pub)"
  let ?h = "mqtt_encode_fixed_header MQTT_PUBLISH ?fl (of_nat ?n)"
  let ?pid = "if pub_qos pub > 0 then [hi8 (publish_pid pub ov), lo8 (publish_pid pub ov)] else []"
  let ?q = "p + length ?h"
  have enc: "mqtt_encode_publish src pub ov = ?h @ str_wire ?t @ ?pid @ ?pl"
    by (simp add: mqtt_encode_publish_eq str_wire_def publish_ok_lengths [OF assms(1)])
  have qos: "pub_qos pub \<le> 2" "pub_dup pub \<Longrightarrow> pub_qos pub \<noteq> 0"
      and tl: "0 < length ?t" "length ?t < 65536" and n: "?n < 2 ^ 28"
    using assms(1) publish_ok_lengths [OF assms(1)] by (auto simp: publish_ok_def)
  note un = unat_publish_remaining [OF n]
  have gt0: "x > 0 \<longleftrightarrow> x \<noteq> 0" for x :: u8 by (simp add: word_gt_0)
  have rem: "?n = 2 + length ?t + length ?pid + length ?pl"
    using publish_ok_lengths [OF assms(1)] by (simp add: publish_remaining_def)
  have at: "at_offset buf p ?h" "at_offset buf ?q (str_wire ?t)"
      "at_offset buf (?q + (2 + length ?t)) ?pid" "at_offset buf (?q + (2 + length ?t) + length ?pid) ?pl"
    using assms(3) unfolding enc by (simp_all add: add.assoc)
  have hdr: "mqtt_parse_fixed_header buf p len = Inr \<lparr>hdr_type = MQTT_PUBLISH, hdr_flags = ?fl,
      remaining_len = of_nat ?n, header_len = length ?h\<rparr>" (is "_ = Inr ?hdr")
    and hl: "length ?h \<le> 5"
    using fixed_header_fields [of MQTT_PUBLISH "of_nat ?n" buf p ?fl len] at(1) assms(4) un n
      publish_flags_bits(1) [OF qos(1)] by (simp_all add: enc)
  have "unat (packet_total ?hdr) = length ?h + ?n"
    using packet_total_unat [of ?hdr] hl un n by simp
  moreover have "length (mqtt_encode_publish src pub ov) = length ?h + ?n"
    unfolding enc rem by simp
  ultimately have frame: "mqtt_packet_complete_ex buf p len
      = Inr (length (mqtt_encode_publish src pub ov), ?hdr)"
    using assms(4) by (simp add: mqtt_packet_complete_ex_def hdr Let_def)
  have str: "mqtt_parse_string buf ?q ?n
      = Inr (\<lparr>str_ptr = Some (?q + 2), str_len = length ?t\<rparr>, 2 + length ?t)"
    using mqtt_parse_string_wire [OF at(2) tl(2)] rem by simp
  have pid: "mqtt_read_u16 buf (?q + (2 + length ?t)) = Inr (publish_pid pub ov)"
    if "pub_qos pub \<noteq> 0"
    using at(3) that by (simp add: gt0 mqtt_read_u16_in)
  let ?pub' = "\<lparr>pub_retain = pub_retain pub, pub_qos = pub_qos pub, pub_dup = pub_dup pub,
      pub_topic = \<lparr>str_ptr = Some (?q + 2), str_len = length ?t\<rparr>,
      pub_packet_id = (if pub_qos pub \<noteq> 0 then publish_pid pub ov else 0),
      pub_payload = ?q + (2 + length ?t + length ?pid), pub_payload_len = length ?pl\<rparr>"
  have k: "length ?pid = (if pub_qos pub \<noteq> 0 then 2 else 0)" by (simp add: gt0)
  have "mqtt_parse_publish ?fl buf ?q ?n = Inr ?pub'"
    using parse_publish_fields [OF publish_flags_bits(2,3,4) [OF qos(1)] qos(1) qos(2) str, where pid = "publish_pid pub ov"]
      tl(1) pid assms(2) rem k by simp
  then show ?thesis
    using frame un at_offset_take [OF at(4)] str_bytes_wire [OF at(2)]
    by (intro exI [of _ ?hdr] exI [of _ ?pub']) (simp add: publish_payload_def [of buf] add.assoc)
qed

text \<open>At QoS 1 and 2 the scatter encoding with the packet identifier inserted at the returned offset is
  the packet the plain encoder writes.\<close>

theorem publish_scatter_insert:
  assumes "pub_qos pub \<noteq> 0" "pid \<noteq> 0"
  shows "let (buf, topic_end, n, plen) = mqtt_encode_publish_scatter src pub
         in take topic_end buf @ [hi8 pid, lo8 pid] @ drop topic_end buf = mqtt_encode_publish src pub pid
          \<and> n + 2 = length (mqtt_encode_publish src pub pid)
          \<and> plen = pub_payload_len pub"
proof -
  have "pub_qos pub > 0" using assms(1) by (simp add: word_gt_0)
  with assms(2) show ?thesis
    by (simp add: mqtt_encode_publish_scatter_def mqtt_encode_publish_def Let_def ac_simps)
qed


section \<open>Instances\<close>

definition sample_publish :: mqtt_publish where
  "sample_publish = \<lparr>pub_retain = False, pub_qos = 1, pub_dup = False,
     pub_topic = \<lparr>str_ptr = Some 1, str_len = 2\<rparr>, pub_packet_id = 5, pub_payload = 3, pub_payload_len = 2\<rparr>"

definition sample_source :: bytes where
  "sample_source = [0, 97, 98, 120, 121]"

lemma sample_publish_ok: "publish_ok sample_source sample_publish"
  by (simp add: publish_ok_def sample_publish_def sample_source_def str_in_def publish_remaining_def)

theorem publish_size_exact_witness:
  "mqtt_publish_size 2 2 1 = of_nat (length (mqtt_encode_publish sample_source sample_publish 9))"
  using publish_size_exact [OF sample_publish_ok, of "zero_msg\<lparr>cm_topic_len := 2, cm_payload_len := 2\<rparr>" 9]
  by (simp add: sample_publish_def)

theorem publish_roundtrip_witness:
  "\<exists>hdr pub'. mqtt_packet_complete_ex [0x32, 8, 0, 2, 97, 98, 0, 9, 120, 121, 0xC0] 0 11 = Inr (10, hdr)
     \<and> mqtt_parse_publish (hdr_flags hdr) [0x32, 8, 0, 2, 97, 98, 0, 9, 120, 121, 0xC0] (0 + header_len hdr)
         (unat (remaining_len hdr)) = Inr pub'
     \<and> pub_packet_id pub' = 9"
proof -
  have e: "mqtt_encode_publish sample_source sample_publish 9 = [0x32, 8, 0, 2, 97, 98, 0, 9, 120, 121]"
    by code_simp
  have "publish_pid sample_publish 9 = 9 \<and> pub_qos sample_publish = 1"
    by (simp add: publish_pid_def sample_publish_def)
  then show ?thesis
    using publish_roundtrip [OF sample_publish_ok, of 9 "[0x32, 8, 0, 2, 97, 98, 0, 9, 120, 121, 0xC0]" 0 11]
    unfolding e by auto
qed

theorem publish_scatter_insert_witness:
  "let (buf, topic_end, n, plen) = mqtt_encode_publish_scatter sample_source sample_publish
   in take topic_end buf @ [0, 9] @ drop topic_end buf = mqtt_encode_publish sample_source sample_publish 9"
proof -
  have "hi8 9 = 0" "lo8 9 = 9" by (simp_all add: hi8_def lo8_def)
  then show ?thesis
    using publish_scatter_insert [of sample_publish 9 sample_source]
    by (simp add: sample_publish_def Let_def split: prod.splits)
qed

end
