(* ===== verification/Egress_Batch.thy ===== *)
theory Egress_Batch
  imports Egress_Flush Publish
begin

text \<open>
  What the flush engine puts on the wire: the bytes of the iovecs of a batch are the encodings of the
  segments at the head of the egress queue, in order.
\<close>

section \<open>Bytes of an iovec\<close>

fun pointer_bytes :: "buf_pool \<Rightarrow> client_slot \<Rightarrow> pointer \<Rightarrow> bytes" where
  "pointer_bytes rp c PNull = []"
| "pointer_bytes rp c (PStatic bs) = bs"
| "pointer_bytes rp c (PRespPktId i) = c_resp_pkt_id c ! i"
| "pointer_bytes rp c (PRespBuf i) = c_resp_buf c ! i"
| "pointer_bytes rp c (PEgressHdr i) = c_egress_headers c ! i"
| "pointer_bytes rp c (PEgressPktId i) = c_egress_pkt_ids c ! i"
| "pointer_bytes rp c (PEgressCtrl i) = seg_ctrl (c_egress c ! i)"
| "pointer_bytes rp c (PRecvBuf i) = bp_bufs rp ! i"

definition iov_bytes :: "buf_pool \<Rightarrow> client_slot \<Rightarrow> iovec \<Rightarrow> bytes" where
  "iov_bytes rp c v = take (iov_len v) (drop (iov_off v) (pointer_bytes rp c (iov_base v)))"

text \<open>What \<open>writev\<close> of the first \<open>n\<close> entries sends.\<close>

definition writev_bytes :: "buf_pool \<Rightarrow> client_slot \<Rightarrow> nat \<Rightarrow> bytes" where
  "writev_bytes rp c n = concat (map (iov_bytes rp c) (take n (c_egress_iov c)))"

section \<open>Bytes of a segment\<close>

definition seg_msg :: "msg_pool \<Rightarrow> egress_segment \<Rightarrow> canonical_msg" where
  "seg_msg mp seg = mp_msgs mp ! seg_msg_idx seg"

text \<open>The publication a segment stands for, with its topic and payload in the message's buffer.\<close>

definition seg_publish :: "msg_pool \<Rightarrow> egress_segment \<Rightarrow> mqtt_publish" where
  "seg_publish mp seg = (let m = seg_msg mp seg in
     \<lparr>pub_retain = seg_retain seg \<noteq> 0, pub_qos = seg_qos seg, pub_dup = seg_dup seg \<noteq> 0,
      pub_topic = \<lparr>str_ptr = Some (cm_topic_off m), str_len = cm_topic_len m\<rparr>, pub_packet_id = seg_packet_id seg,
      pub_payload = cm_payload_off m, pub_payload_len = cm_payload_len m\<rparr>)"

text \<open>The bytes a segment stands for: its control packet, or the PUBLISH as \<open>mqtt_encode_publish\<close> encodes it.\<close>

definition seg_bytes :: "msg_pool \<Rightarrow> buf_pool \<Rightarrow> egress_segment \<Rightarrow> bytes" where
  "seg_bytes mp rp seg =
     (if seg_kind seg = SEG_CTRL then take (unat (seg_ctrl_len seg)) (seg_ctrl seg)
      else mqtt_encode_publish (bp_bufs rp ! cm_buf_idx (seg_msg mp seg)) (seg_publish mp seg) 0)"

lemma publish_head_eq:
  "publish_head m seg = mqtt_encode_fixed_header MQTT_PUBLISH (publish_flags (seg_retain seg \<noteq> 0) (seg_qos seg) (seg_dup seg \<noteq> 0))
      (let remaining = 2 + of_nat (cm_topic_len m) + of_nat (cm_payload_len m)
       in if seg_qos seg > 0 then remaining + 2 else remaining)
    @ [hi8 (of_nat (cm_topic_len m)), lo8 (of_nat (cm_topic_len m))]"
proof -
  have low: "(f OR push_bit 1 (seg_qos seg) AND 6 OR g) AND 15 = f OR push_bit 1 (seg_qos seg) AND 6 OR g"
    if "f AND 15 = f" "g AND 15 = g" for f g :: u8
    using that by (simp add: bit.conj_disj_distrib2 and.assoc del: push_bit_of_1 push_bit_Suc)
  show ?thesis
    using low [of 0 0] low [of 1 0] low [of 0 8] low [of 1 8]
    by (simp add: publish_head_def mqtt_encode_fixed_header_def publish_flags_def Let_def or.assoc)
qed

lemma seg_bytes_head:
  "seg_bytes mp rp seg =
     (if seg_kind seg = SEG_CTRL then take (unat (seg_ctrl_len seg)) (seg_ctrl seg)
      else let m = seg_msg mp seg; buf = bp_bufs rp ! cm_buf_idx m
           in publish_head m seg @ take (cm_topic_len m) (drop (cm_topic_off m) buf)
              @ (if seg_qos seg > 0 then [hi8 (seg_packet_id seg), lo8 (seg_packet_id seg)] else [])
              @ take (cm_payload_len m) (drop (cm_payload_off m) buf))"
  by (simp add: seg_bytes_def seg_publish_def mqtt_encode_publish_def publish_head_eq str_bytes_def Let_def)

definition seg_iovs :: "egress_segment \<Rightarrow> nat" where
  "seg_iovs seg = (if seg_kind seg = SEG_CTRL then 1 else 4)"

definition iov_total :: "egress_segment list \<Rightarrow> nat" where
  "iov_total segs = sum_list (map seg_iovs segs)"

lemma iov_total_simps [simp]: "iov_total [] = 0" "iov_total (s # ss) = seg_iovs s + iov_total ss"
  "iov_total (xs @ ys) = iov_total xs + iov_total ys"
  by (simp_all add: iov_total_def)

lemma seg_iovs_le: "seg_iovs seg \<le> 4" "0 < seg_iovs seg"
  by (simp_all add: seg_iovs_def)

lemma iov_total_le: "iov_total segs \<le> 4 * length segs" "length segs \<le> iov_total segs"
  by (induction segs) (use seg_iovs_le in \<open>auto simp: seg_iovs_def\<close>)

text \<open>The bytes the loop collects for a segment: a CTRL segment is taken from its cursor on.\<close>

definition batch_bytes :: "msg_pool \<Rightarrow> buf_pool \<Rightarrow> egress_segment \<Rightarrow> bytes" where
  "batch_bytes mp rp seg = (if seg_kind seg = SEG_CTRL then drop (unat (seg_cursor seg)) (seg_bytes mp rp seg)
     else seg_bytes mp rp seg)"

section \<open>Adding a segment\<close>

lemma update_four:
  assumes "n + 4 \<le> length xs"
  shows "xs[n := a, n + 1 := b, n + 2 := c, n + 3 := d] = take n xs @ [a, b, c, d] @ drop (n + 4) xs"
proof (rule nth_equalityI)
  show "length (xs[n := a, n + 1 := b, n + 2 := c, n + 3 := d]) = length (take n xs @ [a, b, c, d] @ drop (n + 4) xs)"
    using assms by simp
  fix i assume "i < length (xs[n := a, n + 1 := b, n + 2 := c, n + 3 := d])"
  moreover consider "i < n" | "i = n" | "i = n + 1" | "i = n + 2" | "i = n + 3" | "n + 4 \<le> i" by linarith
  ultimately show "xs[n := a, n + 1 := b, n + 2 := c, n + 3 := d] ! i = (take n xs @ [a, b, c, d] @ drop (n + 4) xs) ! i"
    using assms by cases (auto simp: nth_append nth_list_update nth_Cons')
qed

lemma update_one: "n < length xs \<Longrightarrow> xs[n := a] = take n xs @ [a] @ drop (n + 1) xs"
  by (simp add: upd_conv_take_nth_drop)

text \<open>Everything of a client but the scratch arrays of the flush engine.\<close>

definition rest_same :: "client_slot \<Rightarrow> client_slot \<Rightarrow> bool" where
  "rest_same c c' \<longleftrightarrow> (\<exists>iov hdrs ids. c' = c\<lparr>c_egress_iov := iov, c_egress_headers := hdrs, c_egress_pkt_ids := ids\<rparr>)"

definition header_cell :: "canonical_msg \<Rightarrow> egress_segment \<Rightarrow> bytes \<Rightarrow> bytes" where
  "header_cell m seg old = publish_head m seg @ drop (length (publish_head m seg)) old"

definition publish_iovs :: "canonical_msg \<Rightarrow> egress_segment \<Rightarrow> nat \<Rightarrow> iovec list" where
  "publish_iovs m seg j =
     [\<lparr>iov_base = PEgressHdr j, iov_off = 0, iov_len = length (publish_head m seg)\<rparr>,
      \<lparr>iov_base = PRecvBuf (cm_buf_idx m), iov_off = cm_topic_off m, iov_len = cm_topic_len m\<rparr>,
      (if seg_qos seg > 0 then \<lparr>iov_base = PEgressPktId j, iov_off = 0, iov_len = 2\<rparr>
       else \<lparr>iov_base = PNull, iov_off = 0, iov_len = 0\<rparr>),
      \<lparr>iov_base = PRecvBuf (cm_buf_idx m), iov_off = cm_payload_off m, iov_len = cm_payload_len m\<rparr>]"

lemma add_publish_eq:
  assumes "length (c_egress_iov (fb_client f)) = 256" "fb_iov_cnt f + 4 \<le> 256"
  shows "add_publish f m seg = f\<lparr>fb_client := (fb_client f)\<lparr>
       c_egress_headers := (c_egress_headers (fb_client f))
         [fb_pub_idx f := header_cell m seg (c_egress_headers (fb_client f) ! fb_pub_idx f)],
       c_egress_pkt_ids := (if seg_qos seg > 0 then (c_egress_pkt_ids (fb_client f))
            [fb_pub_idx f := [hi8 (seg_packet_id seg), lo8 (seg_packet_id seg)]] else c_egress_pkt_ids (fb_client f)),
       c_egress_iov := take (fb_iov_cnt f) (c_egress_iov (fb_client f)) @ publish_iovs m seg (fb_pub_idx f)
         @ drop (fb_iov_cnt f + 4) (c_egress_iov (fb_client f))\<rparr>,
     fb_iov_cnt := (fb_iov_cnt f + 4) mod 256, fb_pub_idx := fb_pub_idx f + 1, fb_batch := fb_batch f + 1\<rparr>"
proof -
  let ?n = "fb_iov_cnt f"
  have m: "Suc ?n mod 256 = Suc ?n" "Suc (Suc ?n) mod 256 = Suc (Suc ?n)" "(3 + ?n) mod 256 = ?n + 3"
    "(4 + ?n) mod 256 = (?n + 4) mod 256"
    using assms(2) by (simp_all add: add.commute)
  have u: "xs[?n := a, Suc ?n := b, Suc (Suc ?n) := c, ?n + 3 := d] = take ?n xs @ [a, b, c, d] @ drop (?n + 4) xs"
    if "length xs = 256" for xs :: "iovec list" and a b c d
  proof -
    have "?n + 4 \<le> length xs" using assms(2) that by simp
    then show ?thesis using update_four [of ?n xs a b c d] by simp
  qed
  show ?thesis
  proof (cases "seg_qos seg > 0")
    case True
    show ?thesis
      unfolding add_publish_def add_iov_def Let_def publish_iovs_def header_cell_def
      using True assms(1) by (simp add: m u)
  next
    case False
    show ?thesis
      unfolding add_publish_def add_iov_def Let_def publish_iovs_def header_cell_def
      using False assms(1) by (simp add: m u)
  qed
qed

section \<open>The batching loop\<close>

text \<open>A segment the broker may enqueue: its message and the message's buffer exist and hold the bytes.\<close>

definition seg_ok :: "msg_pool \<Rightarrow> buf_pool \<Rightarrow> egress_segment \<Rightarrow> bool" where
  "seg_ok mp rp seg \<longleftrightarrow>
     (if seg_kind seg = SEG_CTRL then unat (seg_ctrl_len seg) \<le> length (seg_ctrl seg)
      else if seg_kind seg = SEG_PUBLISH
      then (let m = seg_msg mp seg; buf = bp_bufs rp ! cm_buf_idx m in
            seg_msg_idx seg < mp_capacity mp \<and> cm_buf_idx m < bp_capacity rp
            \<and> cm_topic_off m + cm_topic_len m \<le> length buf \<and> cm_payload_off m + cm_payload_len m \<le> length buf
            \<and> length buf < 2 ^ 32)
      else True)"

definition same_but_pid :: "egress_segment \<Rightarrow> egress_segment \<Rightarrow> bool" where
  "same_but_pid s s' \<longleftrightarrow> (\<exists>pid. s' = s\<lparr>seg_packet_id := pid\<rparr>)"

lemma same_but_pid_refl [simp]: "same_but_pid s s"
  unfolding same_but_pid_def by (rule exI [of _ "seg_packet_id s"]) simp

lemma same_but_pid_trans: "same_but_pid a b \<Longrightarrow> same_but_pid b c \<Longrightarrow> same_but_pid a c"
  by (auto simp: same_but_pid_def)

lemma same_but_pid_fields:
  assumes "same_but_pid s s'"
  shows "seg_kind s' = seg_kind s" "seg_cursor s' = seg_cursor s" "seg_ctrl s' = seg_ctrl s" "seg_qos s' = seg_qos s"
    "seg_ctrl_len s' = seg_ctrl_len s" "seg_msg_idx s' = seg_msg_idx s" "seg_ok mp rp s' = seg_ok mp rp s"
    "seg_iovs s' = seg_iovs s" "seg_slot_gen s' = seg_slot_gen s"
  using assms by (auto simp: same_but_pid_def seg_ok_def seg_iovs_def seg_msg_def)

text \<open>What the loop does not touch.\<close>

definition client_core :: "client_slot \<Rightarrow> client_state \<times> u8 \<times> int \<times> nat \<times> nat \<times> nat \<times> nat" where
  "client_core c = (c_state c, c_generation c, c_fd c, c_egress_head c, c_egress_count c, c_egress_capacity c, c_egress_mask c)"

definition scratch_wf :: "client_slot \<Rightarrow> bool" where
  "scratch_wf c \<longleftrightarrow> length (c_egress_iov c) = 256 \<and> length (c_egress_headers c) = 64 \<and> length (c_egress_pkt_ids c) = 64"

lemma inflight_alloc_same:
  assumes "client_inflight_alloc c qos idx deadline = (r, c')"
  shows "client_core c' = client_core c" "c_egress c' = c_egress c" "c_egress_iov c' = c_egress_iov c"
    "c_egress_headers c' = c_egress_headers c" "c_egress_pkt_ids c' = c_egress_pkt_ids c"
  using assms by (auto simp: client_inflight_alloc_def fill_inflight_def client_core_def Let_def split: if_splits)

text \<open>An entry that later rounds leave alone.\<close>

definition iov_below :: "nat \<Rightarrow> iovec \<Rightarrow> bool" where
  "iov_below j v \<longleftrightarrow> (case iov_base v of PEgressHdr i \<Rightarrow> i < j | PEgressPktId i \<Rightarrow> i < j | _ \<Rightarrow> True)"

text \<open>The entry lies inside the bytes it points to.\<close>

definition iov_full :: "buf_pool \<Rightarrow> client_slot \<Rightarrow> iovec \<Rightarrow> bool" where
  "iov_full rp c v \<longleftrightarrow> length (iov_bytes rp c v) = iov_len v \<and> iov_len v < 2 ^ 32"

definition batch_segs :: "flush_batch \<Rightarrow> egress_segment list" where
  "batch_segs f = take (fb_batch f) (egress_contents (fb_client f))"

definition batch_inv :: "msg_pool \<Rightarrow> buf_pool \<Rightarrow> client_slot \<Rightarrow> flush_batch \<Rightarrow> bool" where
  "batch_inv mp rp c0 f \<longleftrightarrow> (let c = fb_client f; n = iov_total (batch_segs f) in
     client_core c = client_core c0 \<and> egress_ring_wf c \<and> scratch_wf c
     \<and> list_all2 same_but_pid (egress_contents c0) (egress_contents c)
     \<and> fb_batch f \<le> c_egress_count c \<and> fb_batch f \<le> 64 \<and> fb_pub_idx f \<le> fb_batch f
     \<and> fb_iov_cnt f = n mod 256
     \<and> (\<forall>v \<in> set (take n (c_egress_iov c)). iov_below (fb_pub_idx f) v \<and> iov_full rp c v)
     \<and> writev_bytes rp c n = concat (map (batch_bytes mp rp) (batch_segs f))
     \<and> (batch_segs f \<noteq> [] \<longrightarrow> writev_bytes rp c (seg_iovs (hd (batch_segs f))) = batch_bytes mp rp (hd (batch_segs f)))
     \<and> (\<forall>s \<in> set (tl (batch_segs f)). seg_cursor s = 0))"

lemma egress_contents_nth:
  assumes "egress_ring_wf c" "i < c_egress_count c"
  shows "egress_contents c ! i = c_egress c ! seg_index c i" "seg_index c i < c_egress_capacity c"
  using assms by (auto simp: egress_contents_def ring_contents_nth seg_index_def egress_ring_wf_def pow2_table_mask)

lemma seg_index_inj:
  "egress_ring_wf c \<Longrightarrow> i < c_egress_count c \<Longrightarrow> j < c_egress_count c \<Longrightarrow> seg_index c i = seg_index c j \<Longrightarrow> i = j"
  using ring_index_inj [of "c_egress_head c" i "c_egress_capacity c" j]
  by (auto simp: seg_index_def egress_ring_wf_def pow2_table_mask)

lemma egress_contents_update:
  assumes "egress_ring_wf c" "i < c_egress_count c"
  shows "egress_contents (c\<lparr>c_egress := (c_egress c)[seg_index c i := x]\<rparr>) = (egress_contents c)[i := x]"
    "egress_ring_wf (c\<lparr>c_egress := (c_egress c)[seg_index c i := x]\<rparr>)"
proof -
  let ?c = "c\<lparr>c_egress := (c_egress c)[seg_index c i := x]\<rparr>"
  show wf: "egress_ring_wf ?c" using assms(1) by (simp add: egress_ring_wf_def)
  have idx: "seg_index ?c j = seg_index c j" for j by (simp add: seg_index_def)
  show "egress_contents ?c = (egress_contents c)[i := x]"
  proof (rule nth_equalityI)
    show "length (egress_contents ?c) = length ((egress_contents c)[i := x])" by simp
    fix j assume "j < length (egress_contents ?c)"
    then have j: "j < c_egress_count c" by simp
    have "length (c_egress c) = c_egress_capacity c" using assms(1) by (simp add: egress_ring_wf_def)
    moreover have "i = j \<longleftrightarrow> seg_index c i = seg_index c j" using seg_index_inj [OF assms j] by blast
    ultimately show "egress_contents ?c ! j = (egress_contents c)[i := x] ! j"
      unfolding egress_contents_nth(1) [OF wf, of j, simplified, OF j] idx
      using egress_contents_nth [OF assms(1) j] egress_contents_nth [OF assms] j assms(2)
      by (simp add: nth_list_update)
  qed
qed

lemma iov_bytes_cong:
  assumes "iov_below j v" "\<And>i. i < j \<Longrightarrow> c_egress_headers c' ! i = c_egress_headers c ! i"
    "\<And>i. i < j \<Longrightarrow> c_egress_pkt_ids c' ! i = c_egress_pkt_ids c ! i"
    "\<And>i. seg_ctrl (c_egress c' ! i) = seg_ctrl (c_egress c ! i)"
    "c_resp_pkt_id c' = c_resp_pkt_id c" "c_resp_buf c' = c_resp_buf c"
  shows "iov_bytes rp c' v = iov_bytes rp c v"
  using assms by (cases "iov_base v") (simp_all add: iov_bytes_def iov_below_def)

lemma iov_below_mono: "iov_below j v \<Longrightarrow> j \<le> k \<Longrightarrow> iov_below k v"
  by (auto simp: iov_below_def split: pointer.splits)

text \<open>Adding entries behind the first \<open>n\<close>.\<close>

lemma writev_append:
  assumes "c_egress_iov c' = take n (c_egress_iov c) @ vs @ rest" "n \<le> length (c_egress_iov c)"
    and "\<forall>v \<in> set (take n (c_egress_iov c)). iov_bytes rp c' v = iov_bytes rp c v"
  shows "writev_bytes rp c' (n + length vs) = writev_bytes rp c n @ concat (map (iov_bytes rp c') vs)"
proof -
  have "take (n + length vs) (c_egress_iov c') = take n (c_egress_iov c) @ vs" using assms(1,2) by simp
  moreover have "map (iov_bytes rp c') (take n (c_egress_iov c)) = map (iov_bytes rp c) (take n (c_egress_iov c))"
    using assms(3) by (intro map_cong) auto
  ultimately show ?thesis unfolding writev_bytes_def by (simp only: map_append concat_append)
qed

lemma publish_iovs_bytes:
  assumes "seg_kind seg = SEG_PUBLISH" "j < length (c_egress_headers c)" "j < length (c_egress_pkt_ids c)"
    and "c_egress_headers c ! j = header_cell (seg_msg mp seg) seg old"
    and "seg_qos seg > 0 \<Longrightarrow> c_egress_pkt_ids c ! j = [hi8 (seg_packet_id seg), lo8 (seg_packet_id seg)]"
  shows "concat (map (iov_bytes rp c) (publish_iovs (seg_msg mp seg) seg j)) = seg_bytes mp rp seg"
  using assms
  by (simp add: publish_iovs_def iov_bytes_def header_cell_def seg_bytes_head Let_def)

text \<open>A client that only the allocation of an in-flight entry and the new packet identifier changed.\<close>

definition renumbered :: "nat \<Rightarrow> egress_segment \<Rightarrow> client_slot \<Rightarrow> client_slot \<Rightarrow> bool" where
  "renumbered i seg' c c' \<longleftrightarrow> client_core c' = client_core c \<and> c_egress c' = (c_egress c)[seg_index c i := seg']
     \<and> c_egress_iov c' = c_egress_iov c \<and> c_egress_headers c' = c_egress_headers c
     \<and> c_egress_pkt_ids c' = c_egress_pkt_ids c \<and> c_resp_pkt_id c' = c_resp_pkt_id c \<and> c_resp_buf c' = c_resp_buf c"

lemma batch_round_publish:
  assumes "batch_publish mp rp now f i seg = Next f'"
    and at: "c_egress (fb_client f) ! seg_index (fb_client f) i = seg"
  obtains m c seg' where "msg_pool_get mp (seg_msg_idx seg) = Some m" "f' = add_publish (f\<lparr>fb_client := c\<rparr>) m seg'"
    "same_but_pid seg seg'" "renumbered i seg' (fb_client f) c" "fb_batch f > 0 \<longrightarrow> seg_cursor seg = 0"
proof -
  obtain m where m: "msg_pool_get mp (seg_msg_idx seg) = Some m"
    using assms by (auto simp: batch_publish_def split: option.splits)
  have cur: "fb_batch f > 0 \<longrightarrow> seg_cursor seg = 0"
    using assms m by (auto simp: batch_publish_def word_gt_0 split: if_splits)
  show thesis
  proof (cases "seg_qos seg > 0 \<and> seg_packet_id seg = 0")
    case False
    then have "f' = add_publish f m seg"
      using assms m by (auto simp: batch_publish_def Let_def split: if_splits)
    moreover have "renumbered i seg (fb_client f) (fb_client f)"
      using at by (auto simp: renumbered_def list_update_id)
    ultimately show thesis using that [of m "fb_client f" seg] m cur by simp
  next
    case True
    then obtain inf pid c1 where al: "client_inflight_alloc (fb_client f) (seg_qos seg) (seg_msg_idx seg)
         (now + LLMQ_INFLIGHT_TIMEOUT_MS) = (Some (inf, pid), c1)"
      and f': "f' = add_publish (f\<lparr>fb_client := c1\<lparr>c_egress := (c_egress c1)[seg_index c1 i := seg\<lparr>seg_packet_id := pid\<rparr>]\<rparr>\<rparr>)
                 m (seg\<lparr>seg_packet_id := pid\<rparr>)"
      using assms m by (auto simp: batch_publish_def Let_def split: if_splits option.splits prod.splits)
    have "c_resp_pkt_id c1 = c_resp_pkt_id (fb_client f)" "c_resp_buf c1 = c_resp_buf (fb_client f)"
      using al by (auto simp: client_inflight_alloc_def fill_inflight_def Let_def split: if_splits)
    then have "renumbered i (seg\<lparr>seg_packet_id := pid\<rparr>) (fb_client f)
        (c1\<lparr>c_egress := (c_egress c1)[seg_index c1 i := seg\<lparr>seg_packet_id := pid\<rparr>]\<rparr>)"
      using inflight_alloc_same [OF al] by (simp add: renumbered_def client_core_def seg_index_def)
    moreover have "same_but_pid seg (seg\<lparr>seg_packet_id := pid\<rparr>)" by (auto simp: same_but_pid_def)
    ultimately show thesis using that [OF m f'] cur by blast
  qed
qed

lemma batch_segs_snoc:
  assumes "fb_batch f < c_egress_count (fb_client f)" "fb_batch f' = fb_batch f + 1"
    "egress_contents (fb_client f') = (egress_contents (fb_client f))[fb_batch f := seg]"
  shows "batch_segs f' = batch_segs f @ [seg]"
  using assms by (simp add: batch_segs_def take_Suc_conv_app_nth)

lemma tl_snoc_zero:
  assumes "\<forall>s \<in> set (tl xs). seg_cursor s = 0" "xs \<noteq> [] \<Longrightarrow> seg_cursor seg = 0"
  shows "\<forall>s \<in> set (tl (xs @ [seg])). seg_cursor s = 0"
  using assms by (cases xs) auto

text \<open>The common part of both kinds of segment: \<open>vs\<close> are the entries written.\<close>

lemma batch_inv_step:
  assumes inv: "batch_inv mp rp c0 f" and lt: "fb_batch f < c_egress_count (fb_client f)" "fb_batch f < 64"
    and core: "client_core (fb_client f') = client_core (fb_client f)"
    and batch: "fb_batch f' = fb_batch f + 1" and pub: "fb_pub_idx f \<le> fb_pub_idx f'" "fb_pub_idx f' \<le> fb_pub_idx f + 1"
    and same: "same_but_pid (egress_contents (fb_client f) ! fb_batch f) seg"
    and eg: "c_egress (fb_client f') = (c_egress (fb_client f))[seg_index (fb_client f) (fb_batch f) := seg]"
    and iov: "c_egress_iov (fb_client f') = take n (c_egress_iov (fb_client f)) @ vs @ drop (n + length vs) (c_egress_iov (fb_client f))"
    and n: "n = iov_total (batch_segs f)" and len: "length vs = seg_iovs seg" and cnt: "fb_iov_cnt f' = (n + length vs) mod 256"
    and hdr: "c_egress_headers (fb_client f') = c_egress_headers (fb_client f)
        \<or> (\<exists>x. c_egress_headers (fb_client f') = (c_egress_headers (fb_client f))[fb_pub_idx f := x])"
    and ids: "c_egress_pkt_ids (fb_client f') = c_egress_pkt_ids (fb_client f)
        \<or> (\<exists>x. c_egress_pkt_ids (fb_client f') = (c_egress_pkt_ids (fb_client f))[fb_pub_idx f := x])"
    and resp: "c_resp_pkt_id (fb_client f') = c_resp_pkt_id (fb_client f)" "c_resp_buf (fb_client f') = c_resp_buf (fb_client f)"
    and below: "\<forall>v \<in> set vs. iov_below (fb_pub_idx f') v \<and> iov_full rp (fb_client f') v"
    and bytes: "concat (map (iov_bytes rp (fb_client f')) vs) = batch_bytes mp rp seg"
    and cur: "fb_batch f > 0 \<Longrightarrow> seg_cursor seg = 0"
  shows "batch_inv mp rp c0 f'"
proof -
  let ?c = "fb_client f" and ?c' = "fb_client f'"
  have I: "client_core ?c = client_core c0" "egress_ring_wf ?c" "scratch_wf ?c"
      "list_all2 same_but_pid (egress_contents c0) (egress_contents ?c)" "fb_pub_idx f \<le> fb_batch f"
      "\<forall>v \<in> set (take n (c_egress_iov ?c)). iov_below (fb_pub_idx f) v \<and> iov_full rp ?c v"
      "writev_bytes rp ?c n = concat (map (batch_bytes mp rp) (batch_segs f))"
      "\<forall>s \<in> set (tl (batch_segs f)). seg_cursor s = 0"
      "batch_segs f \<noteq> [] \<Longrightarrow> writev_bytes rp ?c (seg_iovs (hd (batch_segs f))) = batch_bytes mp rp (hd (batch_segs f))"
    using inv n by (simp_all add: batch_inv_def Let_def)
  have fields: "c_egress_count ?c' = c_egress_count ?c" "c_egress_head ?c' = c_egress_head ?c"
      "c_egress_mask ?c' = c_egress_mask ?c" "c_egress_capacity ?c' = c_egress_capacity ?c"
    using core by (simp_all add: client_core_def)
  have up: "egress_contents ?c' = (egress_contents ?c)[fb_batch f := seg]" "egress_ring_wf ?c'"
    using egress_contents_update [OF I(2) lt(1), of seg] fields eg
    by (simp_all add: egress_contents_def egress_ring_wf_def)
  have snoc: "batch_segs f' = batch_segs f @ [seg]" by (rule batch_segs_snoc [OF lt(1) batch up(1)])
  have len_segs: "length (batch_segs f) = fb_batch f" using lt(1) by (simp add: batch_segs_def)
  have n_le: "n + length vs \<le> 256"
    using iov_total_le(1) [of "batch_segs f"] len_segs lt(2) n len seg_iovs_le(1) [of seg] by simp
  have iov_len256: "length (c_egress_iov ?c) = 256" using I(3) by (simp add: scratch_wf_def)
  have scratch: "scratch_wf ?c'"
    using I(3) hdr ids n_le iov iov_len256 by (auto simp: scratch_wf_def)
  have ctrl: "seg_ctrl (c_egress ?c' ! i) = seg_ctrl (c_egress ?c ! i)" for i
  proof (cases "i = seg_index ?c (fb_batch f)")
    case True
    have "length (c_egress ?c) = c_egress_capacity ?c" using I(2) by (simp add: egress_ring_wf_def)
    then show ?thesis
      using egress_contents_nth [OF I(2) lt(1)] same_but_pid_fields(3) [OF same] True by (simp add: eg)
  qed (simp add: eg)
  have old: "iov_bytes rp ?c' v = iov_bytes rp ?c v" if "v \<in> set (take n (c_egress_iov ?c))" for v
  proof (rule iov_bytes_cong)
    show "iov_below (fb_pub_idx f) v" using I(6) that by blast
    show "c_egress_headers ?c' ! i = c_egress_headers ?c ! i" if "i < fb_pub_idx f" for i using hdr that by auto
    show "c_egress_pkt_ids ?c' ! i = c_egress_pkt_ids ?c ! i" if "i < fb_pub_idx f" for i using ids that by auto
  qed (use ctrl resp in auto)
  have total: "iov_total (batch_segs f') = n + length vs" using snoc n len by simp
  have wb: "writev_bytes rp ?c' (n + length vs) = concat (map (batch_bytes mp rp) (batch_segs f'))"
    using writev_append [OF iov _ ballI [OF old]] n_le iov_len256 I(7) bytes snoc by simp
  have set_new: "set (take (n + length vs) (c_egress_iov ?c')) = set (take n (c_egress_iov ?c)) \<union> set vs"
    using n_le iov_len256 by (simp add: iov)
  have la: "list_all2 same_but_pid (egress_contents c0) (egress_contents ?c')"
    using I(4) same lt(1) unfolding up(1)
    by (auto simp: list_all2_conv_all_nth nth_list_update intro: same_but_pid_trans)
  have bel: "iov_below (fb_pub_idx f') v \<and> iov_full rp ?c' v" if "v \<in> set (take (n + length vs) (c_egress_iov ?c'))" for v
  proof (cases "v \<in> set vs")
    case True
    then show ?thesis using below by blast
  next
    case False
    then have v: "v \<in> set (take n (c_egress_iov ?c))" using that unfolding set_new by blast
    then have "iov_below (fb_pub_idx f') v" using I(6) iov_below_mono [OF _ pub(1)] by blast
    moreover have "iov_full rp ?c' v" using I(6) v old [OF v] by (simp add: iov_full_def)
    ultimately show ?thesis by blast
  qed
  have tl0: "\<forall>s \<in> set (tl (batch_segs f')). seg_cursor s = 0"
    unfolding snoc
  proof (rule tl_snoc_zero [OF I(8)])
    assume "batch_segs f \<noteq> []"
    then have "0 < fb_batch f" using len_segs by (metis length_greater_0_conv)
    then show "seg_cursor seg = 0" by (rule cur)
  qed
  have hd0: "writev_bytes rp ?c' (seg_iovs (hd (batch_segs f'))) = batch_bytes mp rp (hd (batch_segs f'))"
  proof (cases "batch_segs f = []")
    case True
    then show ?thesis using wb len n by (simp add: snoc)
  next
    case False
    let ?k = "seg_iovs (hd (batch_segs f))"
    have k: "?k \<le> n" using False n by (cases "batch_segs f") auto
    then have t: "take ?k (c_egress_iov ?c') = take ?k (c_egress_iov ?c)" using n_le iov_len256 by (simp add: iov)
    have "map (iov_bytes rp ?c') (take ?k (c_egress_iov ?c)) = map (iov_bytes rp ?c) (take ?k (c_egress_iov ?c))"
    proof (rule map_cong [OF refl])
      fix v assume "v \<in> set (take ?k (c_egress_iov ?c))"
      then have "v \<in> set (take n (c_egress_iov ?c))" by (rule subsetD [OF set_take_subset_set_take [OF k]])
      then show "iov_bytes rp ?c' v = iov_bytes rp ?c v" by (rule old)
    qed
    then have "writev_bytes rp ?c' ?k = writev_bytes rp ?c ?k" by (simp only: writev_bytes_def t)
    then show ?thesis using I(9) [OF False] False by (simp add: snoc)
  qed
  show ?thesis
    unfolding batch_inv_def Let_def total
    using core I(1,5) up(2) scratch la lt batch pub cnt wb bel tl0 hd0 fields by simp
qed

lemma publish_head_length: "length (publish_head m seg) \<le> 8"
proof -
  have "length (mqtt_encode_remaining_len x) \<le> 5" for x
    by (rule length_encode_remaining_len) (use unat_lt_u32 [of x] in auto)
  then show ?thesis by (simp add: publish_head_def Let_def)
qed

lemma batch_round_inv:
  assumes inv: "batch_inv mp rp c0 f" and lt: "fb_batch f < c_egress_count (fb_client f)" "fb_batch f < 64"
    and ok: "\<forall>s \<in> set (egress_contents c0). seg_ok mp rp s"
    and nx: "batch_round mp rp now f (fb_batch f) = Next f'"
  shows "batch_inv mp rp c0 f'" "fb_batch f' = fb_batch f + 1"
proof -
  let ?c = "fb_client f" and ?i = "fb_batch f"
  let ?seg = "egress_contents ?c ! ?i" and ?n = "iov_total (batch_segs f)"
  have I: "egress_ring_wf ?c" "scratch_wf ?c" "list_all2 same_but_pid (egress_contents c0) (egress_contents ?c)"
      "fb_pub_idx f \<le> ?i" "fb_iov_cnt f = ?n mod 256"
    using inv by (simp_all add: batch_inv_def Let_def)
  have seg_at: "c_egress ?c ! seg_index ?c ?i = ?seg" "seg_index ?c ?i < c_egress_capacity ?c"
    using egress_contents_nth [OF I(1) lt(1)] by simp_all
  have lens: "length (c_egress_iov ?c) = 256" "length (c_egress_headers ?c) = 64" "length (c_egress_pkt_ids ?c) = 64"
      "length (c_egress ?c) = c_egress_capacity ?c"
    using I(1,2) by (simp_all add: scratch_wf_def egress_ring_wf_def)
  have n: "?n \<le> 252" "fb_iov_cnt f = ?n"
    using iov_total_le(1) [of "batch_segs f"] lt I(5) by (simp_all add: batch_segs_def)
  have okc: "seg_ok mp rp ?seg"
  proof -
    have l: "?i < length (egress_contents c0)" using list_all2_lengthD [OF I(3)] lt(1) by simp
    have "same_but_pid (egress_contents c0 ! ?i) ?seg" by (rule list_all2_nthD [OF I(3) l])
    moreover have "seg_ok mp rp (egress_contents c0 ! ?i)" using ok nth_mem [OF l] by blast
    ultimately show ?thesis using same_but_pid_fields(7) by blast
  qed
  have "batch_inv mp rp c0 f' \<and> fb_batch f' = ?i + 1"
  proof (cases "seg_kind ?seg = SEG_CTRL")
    case True
    let ?v = "\<lparr>iov_base = PEgressCtrl (seg_index ?c ?i), iov_off = unat (seg_cursor ?seg),
        iov_len = unat (seg_ctrl_len ?seg) - unat (seg_cursor ?seg)\<rparr>"
    have f': "f' = (add_iov f (PEgressCtrl (seg_index ?c ?i)) (unat (seg_cursor ?seg))
          (unat (seg_ctrl_len ?seg) - unat (seg_cursor ?seg)))\<lparr>fb_batch := ?i + 1\<rparr>"
      and cur: "?i > 0 \<Longrightarrow> seg_cursor ?seg = 0"
      using nx True seg_at(1)
      by (auto simp: batch_round_def batch_ctrl_def Let_def add_iov_def word_gt_0 split: if_splits)
    have b: "fb_batch f' = ?i + 1" by (simp add: f')
    have cl: "fb_client f' = ?c\<lparr>c_egress_iov := (c_egress_iov ?c)[?n := ?v]\<rparr>" "fb_pub_idx f' = fb_pub_idx f"
        "fb_iov_cnt f' = (?n + length [?v]) mod 256"
      using n(2) by (simp_all add: f' add_iov_def)
    have up: "(c_egress_iov ?c)[?n := ?v] = take ?n (c_egress_iov ?c) @ [?v] @ drop (?n + length [?v]) (c_egress_iov ?c)"
      using n(1) lens(1) by (simp add: update_one)
    have idem: "(c_egress ?c)[seg_index ?c ?i := ?seg] = c_egress ?c" using list_update_id seg_at(1) by metis
    have bytes: "concat (map (iov_bytes rp (fb_client f')) [?v]) = batch_bytes mp rp ?seg"
      using okc True seg_at(1) by (simp add: cl iov_bytes_def batch_bytes_def seg_bytes_head drop_take)
    have lt_ctrl: "unat (seg_cursor ?seg) < unat (seg_ctrl_len ?seg)"
      using nx True seg_at(1)
      by (auto simp: batch_round_def batch_ctrl_def Let_def word_le_nat_alt unat_ucast_mod split: if_splits)
    have full: "iov_full rp (fb_client f') ?v"
    proof -
      have "unat (seg_ctrl_len ?seg) - unat (seg_cursor ?seg) < 256"
        by (rule le_less_trans [OF diff_le_self unat_lt_u8])
      then show ?thesis
        using okc True seg_at(1) lt_ctrl by (simp add: cl iov_full_def iov_bytes_def seg_ok_def)
    qed
    have "batch_inv mp rp c0 f'"
      by (rule batch_inv_step [OF inv lt, where seg = ?seg and n = ?n and vs = "[?v]"])
        (use b cl cur bytes True up idem full in \<open>auto simp: client_core_def seg_iovs_def iov_below_def\<close>)
    then show ?thesis using b by simp
  next
    case False
    then have kind: "seg_kind ?seg = SEG_PUBLISH"
      using nx seg_at(1) by (auto simp: batch_round_def Let_def split: if_splits)
    have bp: "batch_publish mp rp now f ?i ?seg = Next f'"
      using nx seg_at(1) kind by (auto simp: batch_round_def Let_def split: if_splits)
    obtain m c seg' where m: "msg_pool_get mp (seg_msg_idx ?seg) = Some m"
      and f': "f' = add_publish (f\<lparr>fb_client := c\<rparr>) m seg'" and same: "same_but_pid ?seg seg'"
      and c: "renumbered ?i seg' ?c c" and cur: "?i > 0 \<longrightarrow> seg_cursor ?seg = 0"
      by (rule batch_round_publish [OF bp seg_at(1)])
    note cs = c [unfolded renumbered_def]
    note S = same_but_pid_fields [OF same]
    have mm: "m = seg_msg mp seg'" using m S(6) by (auto simp: msg_pool_get_def seg_msg_def split: if_splits)
    have eq: "f' = f\<lparr>fb_client := c\<lparr>
       c_egress_headers := (c_egress_headers ?c)[fb_pub_idx f := header_cell m seg' (c_egress_headers ?c ! fb_pub_idx f)],
       c_egress_pkt_ids := (if seg_qos seg' > 0 then (c_egress_pkt_ids ?c)
            [fb_pub_idx f := [hi8 (seg_packet_id seg'), lo8 (seg_packet_id seg')]] else c_egress_pkt_ids ?c),
       c_egress_iov := take ?n (c_egress_iov ?c) @ publish_iovs m seg' (fb_pub_idx f) @ drop (?n + 4) (c_egress_iov ?c)\<rparr>,
     fb_iov_cnt := (?n + 4) mod 256, fb_pub_idx := fb_pub_idx f + 1, fb_batch := ?i + 1\<rparr>"
      unfolding f' using add_publish_eq [of "f\<lparr>fb_client := c\<rparr>" m seg'] cs lens n by simp
    have four: "length (publish_iovs m seg' (fb_pub_idx f)) = 4" by (simp add: publish_iovs_def)
    have bytes: "concat (map (iov_bytes rp (fb_client f')) (publish_iovs m seg' (fb_pub_idx f))) = batch_bytes mp rp seg'"
    proof -
      have "fb_pub_idx f < 64" using I(4) lt(2) by simp
      then show ?thesis
        unfolding mm batch_bytes_def
        using publish_iovs_bytes [of seg' "fb_pub_idx f" "fb_client f'" mp _ rp] S(1) kind lens
        by (simp add: eq mm)
    qed
    have b: "fb_batch f' = ?i + 1" by (simp add: eq)
    have "batch_inv mp rp c0 f'"
    proof (rule batch_inv_step [OF inv lt, where seg = seg' and n = ?n and vs = "publish_iovs m seg' (fb_pub_idx f)"])
      show "seg_cursor seg' = 0" if "fb_batch f > 0" using cur that S(2) by simp
      show "length (publish_iovs m seg' (fb_pub_idx f)) = seg_iovs seg'" using S(1) kind by (simp add: four seg_iovs_def)
      have "fb_pub_idx f < 64" using I(4) lt(2) by simp
      moreover have "seg_ok mp rp seg'" using okc S(7) by simp
      ultimately show "\<forall>v \<in> set (publish_iovs m seg' (fb_pub_idx f)). iov_below (fb_pub_idx f') v \<and> iov_full rp (fb_client f') v"
        using S(1) kind lens publish_head_length [of m seg']
        by (auto simp: publish_iovs_def iov_below_def iov_full_def iov_bytes_def eq header_cell_def mm seg_ok_def Let_def)
    qed (use b cs same bytes four in \<open>auto simp: eq client_core_def\<close>)
    then show ?thesis using b by simp
  qed
  then show "batch_inv mp rp c0 f'" "fb_batch f' = ?i + 1" by auto
qed

lemma batch_loop_inv:
  assumes "\<forall>s \<in> set (egress_contents c0). seg_ok mp rp s"
  shows "batch_inv mp rp c0 f \<Longrightarrow> fb_batch f = 64 - n \<Longrightarrow> n \<le> 64 \<Longrightarrow> batch_loop mp rp now n f = (noop, f') \<Longrightarrow>
     batch_inv mp rp c0 f' \<and> fb_batch f \<le> fb_batch f'"
proof (induction n arbitrary: f)
  case 0
  then show ?case by simp
next
  case (Suc n)
  have i: "EGRESS_BATCH_MAX - Suc n = fb_batch f" using Suc.prems(2) by (simp add: EGRESS_BATCH_MAX_def)
  show ?case
  proof (cases "fb_batch f < c_egress_count (fb_client f)")
    case False
    then show ?thesis using Suc.prems(1,4) i by (auto simp: Let_def)
  next
    case True
    show ?thesis
    proof (cases "batch_round mp rp now f (fb_batch f)")
      case (Next f1)
      have "fb_batch f < 64" using Suc.prems(2,3) by simp
      note step = batch_round_inv [OF Suc.prems(1) True this assms Next]
      have "fb_batch f1 = 64 - n" "n \<le> 64" using step(2) Suc.prems(2,3) by simp_all
      from Suc.IH [OF step(1) this] show ?thesis
        using Suc.prems(4) i Next True step(2) by (auto simp: Let_def)
    qed (use Suc.prems(1,4) i True in \<open>auto simp: Let_def\<close>)
  qed
qed

end
