(* ===== verification/Egress_Frames.thy ===== *)
theory Egress_Frames
  imports Egress_Batch
begin

text \<open>
  What \<^verbatim>\<open>egress_flush\<close> puts on the wire: the entries of the \<open>writev\<close> it submits are the encodings of
  the segments at the head of the egress queue, in order.
\<close>

section \<open>Resuming\<close>

lemma apply_cursor_bytes:
  "k \<le> length vs \<Longrightarrow> \<forall>v \<in> set (take k vs). length (iov_bytes rp c v) = iov_len v \<and> iov_len v < 2 ^ 32 \<Longrightarrow>
   concat (map (iov_bytes rp c) (take k (egress_apply_cursor vs k cur))) =
     drop (unat cur) (concat (map (iov_bytes rp c) (take k vs)))
   \<and> drop k (egress_apply_cursor vs k cur) = drop k vs \<and> length (egress_apply_cursor vs k cur) = length vs"
proof (induction vs k cur rule: egress_apply_cursor.induct)
  case (1 v vs n cur)
  let ?b = "iov_bytes rp c"
  have v: "length (?b v) = iov_len v" "iov_len v < 2 ^ 32" and vs: "n \<le> length vs"
      "\<forall>v \<in> set (take n vs). length (?b v) = iov_len v \<and> iov_len v < 2 ^ 32"
    using 1(4,5) by auto
  have u: "unat (of_nat (iov_len v) :: u32) = iov_len v" using v(2) by (simp add: unat_of_nat_mod)
  show ?case
  proof (cases "cur = 0")
    case True
    then show ?thesis by simp
  next
    case cur: False
    show ?thesis
    proof (cases "(of_nat (iov_len v) :: u32) = 0")
      case True
      then have "?b v = []" using u v(1) by auto
      then show ?thesis using 1(1) [OF cur refl True vs] cur True by simp
    next
      case False
      show ?thesis
      proof (cases "cur \<ge> of_nat (iov_len v)")
        case ge: True
        have e: "?b (v\<lparr>iov_len := 0\<rparr>) = []" by (simp add: iov_bytes_def)
        have s: "unat (cur - of_nat (iov_len v)) = unat cur - iov_len v" using ge u by (simp add: unat_sub)
        have "iov_len v \<le> unat cur" using ge u by (simp add: word_le_nat_alt)
        then have "drop (unat cur) (?b v @ ys) = drop (unat cur - iov_len v) ys" for ys using v(1) by simp
        then show ?thesis using 1(2) [OF cur refl False ge vs] cur False ge e s by simp
      next
        case lt: False
        have c: "unat cur < iov_len v" using lt u by (simp add: word_le_nat_alt)
        have s: "unat (of_nat (iov_len v) - cur) = iov_len v - unat cur" using lt u by (simp add: unat_sub word_le_nat_alt)
        let ?src = "pointer_bytes rp c (iov_base v)"
        have "?b (v\<lparr>iov_off := iov_off v + unat cur, iov_len := iov_len v - unat cur\<rparr>) = drop (unat cur) (?b v)"
          by (simp add: iov_bytes_def drop_take add.commute)
        moreover have "drop (unat cur) (?b v @ ys) = drop (unat cur) (?b v) @ ys" for ys using c v(1) by simp
        ultimately show ?thesis using 1(3) [OF cur refl False lt vs] cur False lt s by simp
      qed
    qed
  qed
qed auto

section \<open>Pools up to reference counts\<close>

definition same_msg :: "canonical_msg \<Rightarrow> canonical_msg \<Rightarrow> bool" where
  "same_msg m m' \<longleftrightarrow> (\<exists>r. m' = m\<lparr>cm_ref_count := r\<rparr>)"

definition pools_same :: "broker \<Rightarrow> broker \<Rightarrow> bool" where
  "pools_same b b' \<longleftrightarrow> bp_bufs (b_recv_pool b') = bp_bufs (b_recv_pool b)
     \<and> bp_capacity (b_recv_pool b') = bp_capacity (b_recv_pool b)
     \<and> mp_capacity (b_msg_pool b') = mp_capacity (b_msg_pool b)
     \<and> (\<forall>i. same_msg (mp_msgs (b_msg_pool b) ! i) (mp_msgs (b_msg_pool b') ! i))"

lemma same_msg_refl [simp]: "same_msg m m"
  unfolding same_msg_def by (rule exI [of _ "cm_ref_count m"]) simp

lemma same_msg_trans: "same_msg a b \<Longrightarrow> same_msg b c \<Longrightarrow> same_msg a c"
  by (auto simp: same_msg_def)

lemma pools_same_refl [simp]: "pools_same b b"
  by (simp add: pools_same_def)

lemma pools_same_trans: "pools_same a b \<Longrightarrow> pools_same b c \<Longrightarrow> pools_same a c"
  unfolding pools_same_def by (metis same_msg_trans)

lemma same_msg_list: "same_msg (xs ! i) x \<Longrightarrow> same_msg (xs ! j) (xs[i := x] ! j)"
  by (cases "i = j"; cases "i < length xs") (auto simp: list_update_beyond)

lemma release_msg_ref_pools: "pools_same b (release_msg_ref b i)"
proof -
  have m: "same_msg (mp_msgs (b_msg_pool b) ! i) ((mp_msgs (b_msg_pool b) ! i)\<lparr>cm_ref_count := r\<rparr>)" for r
    by (auto simp: same_msg_def)
  show ?thesis
    by (auto simp: pools_same_def release_msg_ref_def msg_pool_unref_def msg_update_def msg_pool_free_def buf_pool_free_def
        Let_def intro!: same_msg_list m)
qed

lemma pools_same_update: "pools_same b (client_update b' s f) \<longleftrightarrow> pools_same b b'"
  by (simp add: pools_same_def client_update_def)

lemma same_msg_fields:
  "same_msg m m' \<Longrightarrow> cm_buf_idx m' = cm_buf_idx m \<and> cm_topic_off m' = cm_topic_off m \<and> cm_topic_len m' = cm_topic_len m
     \<and> cm_payload_off m' = cm_payload_off m \<and> cm_payload_len m' = cm_payload_len m \<and> publish_head m' = publish_head m"
  by (auto simp: same_msg_def publish_head_def fun_eq_iff)

lemma pools_same_segs:
  assumes "pools_same b b'"
  shows "seg_bytes (b_msg_pool b') (b_recv_pool b') seg = seg_bytes (b_msg_pool b) (b_recv_pool b) seg"
    "seg_ok (b_msg_pool b') (b_recv_pool b') seg = seg_ok (b_msg_pool b) (b_recv_pool b) seg"
proof -
  have "same_msg (seg_msg (b_msg_pool b) seg) (seg_msg (b_msg_pool b') seg)"
    using assms by (simp add: pools_same_def seg_msg_def)
  note f = same_msg_fields [OF this]
  show "seg_bytes (b_msg_pool b') (b_recv_pool b') seg = seg_bytes (b_msg_pool b) (b_recv_pool b) seg"
    "seg_ok (b_msg_pool b') (b_recv_pool b') seg = seg_ok (b_msg_pool b) (b_recv_pool b) seg"
    using f assms by (simp_all add: seg_bytes_head seg_ok_def Let_def pools_same_def)
qed

section \<open>Discarding and completing\<close>

text \<open>The client after its head is gone, and everything else up to the pools.\<close>

definition popped :: "broker \<Rightarrow> nat \<Rightarrow> nat \<Rightarrow> broker \<Rightarrow> bool" where
  "popped b s k b' \<longleftrightarrow> (\<exists>h n. client_at b' s = (client_at b s)\<lparr>c_egress_head := h, c_egress_count := n\<rparr>)
     \<and> egress_ring_wf (client_at b' s) \<and> egress_contents (client_at b' s) = drop k (egress_contents (client_at b s))
     \<and> c_egress_count (client_at b' s) = c_egress_count (client_at b s) - k
     \<and> pools_same b b' \<and> b_ring b' = b_ring b \<and> b_now b' = b_now b \<and> length (b_clients b') = length (b_clients b)
     \<and> b_max_clients b' = b_max_clients b \<and> (\<forall>j. j \<noteq> s \<longrightarrow> client_at b' j = client_at b j)"

lemma popped_0: "egress_ring_wf (client_at b s) \<Longrightarrow> popped b s 0 b"
  unfolding popped_def
  by (intro conjI exI [of _ "c_egress_head (client_at b s)"] exI [of _ "c_egress_count (client_at b s)"]) simp_all

lemma popped_trans: "popped b s j b' \<Longrightarrow> popped b' s k b'' \<Longrightarrow> popped b s (j + k) b''"
proof -
  assume a: "popped b s j b'" "popped b' s k b''"
  then obtain h n h' n' where "client_at b' s = (client_at b s)\<lparr>c_egress_head := h, c_egress_count := n\<rparr>"
      "client_at b'' s = (client_at b' s)\<lparr>c_egress_head := h', c_egress_count := n'\<rparr>"
    by (auto simp: popped_def)
  then have "\<exists>h n. client_at b'' s = (client_at b s)\<lparr>c_egress_head := h, c_egress_count := n\<rparr>"
    by (intro exI [of _ h'] exI [of _ n']) simp
  moreover have "pools_same b b''" using a pools_same_trans by (auto simp: popped_def)
  ultimately show ?thesis using a by (simp add: popped_def add.commute)
qed

lemma popped_one:
  assumes "egress_ring_wf (client_at b s)" "0 < c_egress_count (client_at b s)" "s < length (b_clients b)"
    "b1 = b \<or> (\<exists>i. b1 = release_msg_ref b i)"
  shows "popped b s 1 (client_update b1 s egress_pop_head)"
proof -
  have same: "client_at b1 = client_at b" "b_ring b1 = b_ring b" "b_now b1 = b_now b" "b_clients b1 = b_clients b"
      "b_max_clients b1 = b_max_clients b" "pools_same b b1"
    using assms(4) release_msg_ref_pools by (auto simp: release_msg_ref_same)
  have at: "client_at (client_update b1 s egress_pop_head) j = (if j = s then egress_pop_head (client_at b s) else client_at b j)" for j
    using client_at_update [of s b1 egress_pop_head j] assms(3) same by simp
  have "\<exists>h n. egress_pop_head (client_at b s) = (client_at b s)\<lparr>c_egress_head := h, c_egress_count := n\<rparr>"
    unfolding egress_pop_head_def egress_pop_def by auto
  then show ?thesis
    using egress_pop_contents [OF assms(1,2)] same
    by (simp add: popped_def at pools_same_update drop_Suc) (simp add: client_update_def)
qed

lemma discard_popped:
  assumes "egress_ring_wf (client_at b s)" "0 < c_egress_count (client_at b s)" "s < length (b_clients b)"
  shows "popped b s 1 (egress_discard_head b s seg)" "popped b s 1 (egress_complete_head b s seg)"
  unfolding egress_discard_head_def egress_complete_head_def Let_def
  by (rule popped_one [OF assms]; auto)+

lemma egress_clean_popped:
  "egress_ring_wf (client_at b s) \<Longrightarrow> s < length (b_clients b) \<Longrightarrow>
   \<exists>k \<le> c_egress_count (client_at b s). popped b s k (egress_clean n b s)"
proof (induction n b s rule: egress_clean.induct)
  case (1 b s)
  then show ?case using popped_0 by auto
next
  case (2 n b s)
  show ?case
  proof (cases "c_egress_count (client_at b s) > 0 \<and> seg_discarded (client_at b s) (egress_head (client_at b s))")
    case True
    let ?b = "egress_discard_head b s (egress_head (client_at b s))"
    have one: "popped b s 1 ?b" using discard_popped 2(2,3) True by blast
    then have "egress_ring_wf (client_at ?b s)" "s < length (b_clients ?b)" using 2(3) by (simp_all add: popped_def)
    from 2(1) [OF refl True this] obtain k where k: "k \<le> c_egress_count (client_at ?b s)" "popped ?b s k (egress_clean n ?b s)"
      by blast
    have "k + 1 \<le> c_egress_count (client_at b s)" using k(1) one True by (auto simp: popped_def)
    moreover have "popped b s (1 + k) (egress_clean n ?b s)" by (rule popped_trans [OF one k(2)])
    ultimately show ?thesis using True by (auto simp: Let_def add.commute)
  next
    case False
    then show ?thesis using popped_0 2(2) by (auto simp: Let_def)
  qed
qed

section \<open>A submitted batch\<close>

text \<open>The bytes a batch sends.  The cursor is applied to the entries of the head; for a CTRL head the
  loop has already skipped it once.\<close>

definition batch_stream :: "msg_pool \<Rightarrow> buf_pool \<Rightarrow> egress_segment list \<Rightarrow> bytes" where
  "batch_stream mp rp segs = (case segs of [] \<Rightarrow> [] | s # ss \<Rightarrow>
     drop (unat (seg_cursor s)) (batch_bytes mp rp s) @ concat (map (seg_bytes mp rp) ss))"

lemma batch_stream_eq:
  assumes "segs \<noteq> []" "seg_kind (hd segs) \<noteq> SEG_CTRL \<or> seg_cursor (hd segs) = 0"
    "unat (seg_cursor (hd segs)) \<le> length (seg_bytes mp rp (hd segs))"
  shows "batch_stream mp rp segs = drop (unat (seg_cursor (hd segs))) (concat (map (seg_bytes mp rp) segs))"
  using assms by (cases segs) (auto simp: batch_stream_def batch_bytes_def)

lemma egress_head_nth: "egress_ring_wf c \<Longrightarrow> 0 < c_egress_count c \<Longrightarrow> egress_head c = egress_contents c ! 0"
  using egress_head_contents [of c] by (simp add: hd_conv_nth flip: length_greater_0_conv)

lemma pointer_bytes_iov: "iov_bytes rp (c\<lparr>c_egress_iov := x\<rparr>) = iov_bytes rp c"
proof (rule ext)
  show "iov_bytes rp (c\<lparr>c_egress_iov := x\<rparr>) v = iov_bytes rp c v" for v
    by (cases "iov_base v") (simp_all add: iov_bytes_def)
qed

lemma writev_apply_cursor:
  assumes k: "k = seg_iovs (hd segs)" and segs: "segs \<noteq> []" "n = iov_total segs" "n \<le> length (c_egress_iov c)"
    and full: "\<forall>v \<in> set (take n (c_egress_iov c)). iov_full rp c v"
    and bytes: "writev_bytes rp c n = concat (map (batch_bytes mp rp) segs)"
    and head: "writev_bytes rp c k = batch_bytes mp rp (hd segs)"
    and c': "c' = c\<lparr>c_egress_iov := egress_apply_cursor (c_egress_iov c) k (seg_cursor (hd segs))\<rparr>"
    and zero: "\<forall>s \<in> set (tl segs). seg_cursor s = 0"
  shows "writev_bytes rp c' n = batch_stream mp rp segs"
proof -
  obtain s ss where ss: "segs = s # ss" using segs(1) by (cases segs) auto
  have kn: "k \<le> n" using segs(2) k by (simp add: ss)
  let ?vs = "c_egress_iov c" and ?ap = "egress_apply_cursor (c_egress_iov c) k (seg_cursor s)"
  have "\<forall>v \<in> set (take k ?vs). length (iov_bytes rp c v) = iov_len v \<and> iov_len v < 2 ^ 32"
  proof
    fix v assume "v \<in> set (take k ?vs)"
    then have "v \<in> set (take n ?vs)" by (rule subsetD [OF set_take_subset_set_take [OF kn]])
    then show "length (iov_bytes rp c v) = iov_len v \<and> iov_len v < 2 ^ 32" using full by (simp add: iov_full_def)
  qed
  moreover have "k \<le> length ?vs" using kn segs(3) by simp
  ultimately have ap: "concat (map (iov_bytes rp c) (take k ?ap)) = drop (unat (seg_cursor s)) (concat (map (iov_bytes rp c) (take k ?vs)))"
      "drop k ?ap = drop k ?vs"
    using apply_cursor_bytes [of k ?vs rp c "seg_cursor s"] by auto
  have split_n: "concat (map (iov_bytes rp c) (take n xs)) = concat (map (iov_bytes rp c) (take k xs))
      @ concat (map (iov_bytes rp c) (take (n - k) (drop k xs)))" for xs :: "iovec list"
  proof -
    have "take n xs = take k xs @ take (n - k) (drop k xs)" using kn by (metis take_add le_add_diff_inverse)
    then show ?thesis by (simp only: map_append concat_append)
  qed
  have hd_b: "concat (map (iov_bytes rp c) (take k ?vs)) = batch_bytes mp rp s"
    using head by (simp add: writev_bytes_def ss)
  have "batch_bytes mp rp s @ concat (map (batch_bytes mp rp) ss) = concat (map (iov_bytes rp c) (take n ?vs))"
    using bytes by (simp add: writev_bytes_def ss)
  also have "\<dots> = batch_bytes mp rp s @ concat (map (iov_bytes rp c) (take (n - k) (drop k ?vs)))"
    unfolding split_n [of ?vs] hd_b ..
  finally have tl_b: "concat (map (iov_bytes rp c) (take (n - k) (drop k ?vs))) = concat (map (batch_bytes mp rp) ss)" by simp
  have ss_b: "map (batch_bytes mp rp) ss = map (seg_bytes mp rp) ss"
    using zero by (simp add: ss batch_bytes_def)
  have "writev_bytes rp c' n = concat (map (iov_bytes rp c) (take n ?ap))"
    unfolding c' writev_bytes_def pointer_bytes_iov by (simp add: ss)
  also have "\<dots> = batch_stream mp rp segs"
    unfolding split_n [of ?ap] ap tl_b ss_b hd_b by (simp add: ss batch_stream_def)
  finally show ?thesis .
qed

text \<open>The part of \<open>egress_flush\<close> before the loop, and a run that submits.\<close>

definition fresh_batch :: "client_slot \<Rightarrow> flush_batch" where
  "fresh_batch c = \<lparr>fb_client = c, fb_batch = 0, fb_pub_idx = 0, fb_iov_cnt = 0\<rparr>"

lemma fresh_batch_inv:
  "egress_ring_wf c \<Longrightarrow> scratch_wf c \<Longrightarrow> batch_inv mp rp c (fresh_batch c)"
  by (simp add: batch_inv_def fresh_batch_def batch_segs_def writev_bytes_def list_all2_refl)

text \<open>A run that submits: the state after the pre-clean and the batch.\<close>

lemma egress_flush_submittedD:
  assumes run: "egress_flush b s = (EGRESS_FLUSH_SUBMITTED, b')"
  obtains b1 f where "\<not> c_egress_inflight (client_at b s)" "c_state (client_at b s) = CLIENT_ACTIVE"
    "b1 = egress_clean (c_egress_count (client_at b s)) b s" "c_egress_count (client_at b1 s) \<noteq> 0"
    "batch_loop (b_msg_pool b1) (b_recv_pool b1) (b_now b1) 64 (fresh_batch (client_at b1 s)) = (False, f)"
    "fb_batch f \<noteq> 0" "egress_submit (client_update b1 s (\<lambda>_. resume_iov (fb_client f))) s f = (EGRESS_FLUSH_SUBMITTED, b')"
proof -
  let ?c = "client_at b s" and ?b1 = "egress_clean (c_egress_count (client_at b s)) b s"
  obtain noop f where f: "batch_loop (b_msg_pool ?b1) (b_recv_pool ?b1) (b_now ?b1) 64 (fresh_batch (client_at ?b1 s)) = (noop, f)"
    by (cases "batch_loop (b_msg_pool ?b1) (b_recv_pool ?b1) (b_now ?b1) 64 (fresh_batch (client_at ?b1 s))")
  show thesis
    using run f that [of ?b1 f]
    by (simp add: egress_flush_def Let_def fresh_batch_def EGRESS_BATCH_MAX_def split: if_splits)
qed

lemma egress_submittedD:
  assumes run: "egress_submit b s f = (EGRESS_FLUSH_SUBMITTED, b')" and sq: "sq_wf (b_ring b)" and s: "s < length (b_clients b)"
  shows "client_at b' s = (client_at b s)\<lparr>c_egress_inflight := True, c_egress_batch_count := fb_batch f\<rparr>"
    "sq_wf (b_ring b')" "sq_contents (b_ring b') = sq_contents (b_ring b) @ [egress_sqe (client_at b s) s (fb_iov_cnt f) zero_sqe]"
    "b_msg_pool b' = b_msg_pool b" "b_recv_pool b' = b_recv_pool b" "length (b_clients b') = length (b_clients b)"
    "\<And>j. j \<noteq> s \<Longrightarrow> client_at b' j = client_at b j"
proof -
  let ?sqe = "egress_sqe (client_at b s) s (fb_iov_cnt f) zero_sqe"
  have room: "\<not> sq_full (b_ring b)"
    using run by (auto simp: egress_submit_def sq_full_def split: prod.splits option.splits)
  note g = sq_put_fields(1) [OF sq room]
  let ?i = "sq_slot (b_ring b) (sq_count (b_ring b))"
  have i: "?i < length (r_sqes (b_ring b))" by (rule sq_slot_less [OF sq])
  obtain r where r: "ring_get_sqe (b_ring b) = (Some ?i, r)" "r_sqes r = (r_sqes (b_ring b))[?i := zero_sqe]"
    using g by simp
  have "sqe_update r ?i (egress_sqe (client_at b s) s (fb_iov_cnt f)) = sqe_update r ?i (\<lambda>_. ?sqe)"
    using r(2) i by (simp add: sqe_update_def)
  then have put: "sqe_update r ?i (egress_sqe (client_at b s) s (fb_iov_cnt f)) = sq_put (b_ring b) ?sqe"
    using r(1) by (simp add: sq_put_def)
  have b': "b' = client_update (b\<lparr>b_ring := sq_put (b_ring b) ?sqe\<rparr>) s
      (\<lambda>c. c\<lparr>c_egress_inflight := True, c_egress_batch_count := fb_batch f\<rparr>)"
    using run by (simp add: egress_submit_def r(1) put)
  show "sq_wf (b_ring b')" "sq_contents (b_ring b') = sq_contents (b_ring b) @ [?sqe]"
    using sq_put_wf [OF sq room, of ?sqe] by (simp_all add: b' client_update_def)
  show "client_at b' s = (client_at b s)\<lparr>c_egress_inflight := True, c_egress_batch_count := fb_batch f\<rparr>"
    "b_msg_pool b' = b_msg_pool b" "b_recv_pool b' = b_recv_pool b" "length (b_clients b') = length (b_clients b)"
    using s by (simp_all add: b' client_update_def client_at_def)
  show "client_at b' j = client_at b j" if "j \<noteq> s" for j
    using that by (simp add: b' client_update_def client_at_def)
qed

lemma resume_iov_fields:
  "client_core (resume_iov c) = client_core c" "egress_contents (resume_iov c) = egress_contents c"
  "c_egress (resume_iov c) = c_egress c" "egress_ring_wf (resume_iov c) = egress_ring_wf c"
  by (simp_all add: resume_iov_def Let_def client_core_def egress_contents_def egress_ring_wf_def)

lemma resume_iov_bytes:
  assumes inv: "batch_inv mp rp c0 f" and some: "fb_batch f \<noteq> 0"
  shows "writev_bytes rp (resume_iov (fb_client f)) (iov_total (batch_segs f)) = batch_stream mp rp (batch_segs f)"
proof -
  let ?c = "fb_client f" and ?segs = "batch_segs f" and ?n = "iov_total (batch_segs f)"
  have I: "egress_ring_wf ?c" "scratch_wf ?c" "fb_batch f \<le> c_egress_count ?c" "fb_batch f \<le> 64"
      "\<forall>v \<in> set (take ?n (c_egress_iov ?c)). iov_below (fb_pub_idx f) v \<and> iov_full rp ?c v"
      "writev_bytes rp ?c ?n = concat (map (batch_bytes mp rp) ?segs)"
      "?segs \<noteq> [] \<Longrightarrow> writev_bytes rp ?c (seg_iovs (hd ?segs)) = batch_bytes mp rp (hd ?segs)"
      "\<forall>s \<in> set (tl ?segs). seg_cursor s = 0"
    using inv by (simp_all add: batch_inv_def Let_def)
  have cnt: "0 < c_egress_count ?c" using some I(3) by linarith
  have "length ?segs = fb_batch f" using I(3) by (simp add: batch_segs_def)
  then have ne: "?segs \<noteq> []" using some by auto
  have hd: "egress_head ?c = hd ?segs"
    using egress_head_contents [OF I(1) cnt] some by (simp add: batch_segs_def)
  have n: "?n \<le> length (c_egress_iov ?c)"
    using iov_total_le(1) [of ?segs] I(2,3,4) by (simp add: scratch_wf_def batch_segs_def)
  have full: "\<forall>v \<in> set (take ?n (c_egress_iov ?c)). iov_full rp ?c v" using I(5) by blast
  show ?thesis
  proof (cases "seg_cursor (hd ?segs) = 0")
    case True
    obtain g gs where gs: "?segs = g # gs" using ne by (cases ?segs) auto
    have "map (batch_bytes mp rp) gs = map (seg_bytes mp rp) gs" using I(8) by (simp add: gs batch_bytes_def)
    note eq = this
    have "unat (seg_cursor g) = 0" using True by (simp add: gs)
    then have "batch_stream mp rp ?segs = concat (map (batch_bytes mp rp) ?segs)"
      by (simp only: gs batch_stream_def list.case list.map concat.simps drop_0 eq)
    then show ?thesis using I(6) True hd by (simp add: resume_iov_def)
  next
    case False
    have "resume_iov ?c = ?c\<lparr>c_egress_iov := egress_apply_cursor (c_egress_iov ?c) (seg_iovs (hd ?segs)) (seg_cursor (hd ?segs))\<rparr>"
      using False by (simp add: resume_iov_def hd seg_iovs_def Let_def word_gt_0)
    from writev_apply_cursor [OF refl ne refl n full I(6) I(7) [OF ne] this I(8)] show ?thesis .
  qed
qed

text \<open>C1: a flush that submits puts one \<open>writev\<close> at the end of the submission queue.  Its entries hold the
  encodings of the first segments of the egress queue, at most 64 of them, in order and from the cursor
  of the first on, provided they are fewer than 256 entries and a first CTRL segment has cursor 0; only
  packet identifiers of segments change, and segments discarded before come off the head.\<close>

theorem egress_flush_frames:
  assumes run: "egress_flush b s = (EGRESS_FLUSH_SUBMITTED, b')" and s: "s < length (b_clients b)"
    and wf: "egress_ring_wf (client_at b s)" "scratch_wf (client_at b s)" "sq_wf (b_ring b)"
    and ok: "\<forall>seg \<in> set (egress_contents (client_at b s)). seg_ok (b_msg_pool b) (b_recv_pool b) seg"
  shows "\<exists>segs sqe k. segs = take (c_egress_batch_count (client_at b' s)) (egress_contents (client_at b' s))
     \<and> segs \<noteq> [] \<and> length segs \<le> 64 \<and> c_egress_inflight (client_at b' s)
     \<and> list_all2 same_but_pid (drop k (egress_contents (client_at b s))) (egress_contents (client_at b' s))
     \<and> sq_contents (b_ring b') = sq_contents (b_ring b) @ [sqe]
     \<and> sqe_opcode sqe = IORING_OP_WRITEV \<and> sqe_fd sqe = c_fd (client_at b s) \<and> sqe_addr sqe = AIovec s
     \<and> sqe_len sqe = of_nat (iov_total segs mod 256)
     \<and> writev_bytes (b_recv_pool b') (client_at b' s) (iov_total segs)
         = batch_stream (b_msg_pool b') (b_recv_pool b') segs
     \<and> (iov_total segs < 256 \<and> (seg_kind (hd segs) = SEG_CTRL \<longrightarrow> seg_cursor (hd segs) = 0)
         \<and> unat (seg_cursor (hd segs)) \<le> length (seg_bytes (b_msg_pool b') (b_recv_pool b') (hd segs)) \<longrightarrow>
        writev_bytes (b_recv_pool b') (client_at b' s) (unat (sqe_len sqe))
         = drop (unat (seg_cursor (hd segs))) (concat (map (seg_bytes (b_msg_pool b') (b_recv_pool b')) segs)))"
proof -
  obtain b1 f where b1: "b1 = egress_clean (c_egress_count (client_at b s)) b s"
    and loop: "batch_loop (b_msg_pool b1) (b_recv_pool b1) (b_now b1) 64 (fresh_batch (client_at b1 s)) = (False, f)"
    and some: "fb_batch f \<noteq> 0" and sub: "egress_submit (client_update b1 s (\<lambda>_. resume_iov (fb_client f))) s f = (EGRESS_FLUSH_SUBMITTED, b')"
    by (rule egress_flush_submittedD [OF run])
  obtain k where pop: "popped b s k b1" using egress_clean_popped [OF wf(1) s] b1 by blast
  obtain h n where c1: "client_at b1 s = (client_at b s)\<lparr>c_egress_head := h, c_egress_count := n\<rparr>"
    using pop by (auto simp: popped_def)
  have P: "egress_ring_wf (client_at b1 s)" "egress_contents (client_at b1 s) = drop k (egress_contents (client_at b s))"
      "pools_same b b1" "b_ring b1 = b_ring b" "length (b_clients b1) = length (b_clients b)"
    using pop by (simp_all add: popped_def)
  have sc: "scratch_wf (client_at b1 s)" using wf(2) by (simp add: c1 scratch_wf_def)
  have ok1: "\<forall>seg \<in> set (egress_contents (client_at b1 s)). seg_ok (b_msg_pool b1) (b_recv_pool b1) seg"
    using ok P(2) pools_same_segs(2) [OF P(3)] by (auto dest: in_set_dropD)
  have inv: "batch_inv (b_msg_pool b1) (b_recv_pool b1) (client_at b1 s) f"
    using batch_loop_inv [OF ok1 fresh_batch_inv [OF P(1) sc] _ _ loop] by (simp add: fresh_batch_def)
  let ?b2 = "client_update b1 s (\<lambda>_. resume_iov (fb_client f))"
  have at2: "client_at ?b2 s = resume_iov (fb_client f)" using s P(5) by (simp add: client_update_def client_at_def)
  have b2: "sq_wf (b_ring ?b2)" "s < length (b_clients ?b2)" using wf(3) P s by (simp_all add: client_update_def)
  note S = egress_submittedD [OF sub b2]
  let ?c' = "client_at b' s" and ?segs = "batch_segs f"
  have c': "?c' = (resume_iov (fb_client f))\<lparr>c_egress_inflight := True, c_egress_batch_count := fb_batch f\<rparr>"
    using S(1) at2 by simp
  have pools: "b_msg_pool b' = b_msg_pool b1" "b_recv_pool b' = b_recv_pool b1" using S(4,5) by (simp_all add: client_update_def)
  have cont: "egress_contents ?c' = egress_contents (fb_client f)" using resume_iov_fields(2) by (simp add: c' egress_contents_def)
  have I: "list_all2 same_but_pid (egress_contents (client_at b1 s)) (egress_contents (fb_client f))" "fb_batch f \<le> 64"
      "fb_batch f \<le> c_egress_count (fb_client f)" "fb_iov_cnt f = iov_total ?segs mod 256"
      "client_core (fb_client f) = client_core (client_at b1 s)"
    using inv by (simp_all add: batch_inv_def Let_def)
  have "c_egress_batch_count ?c' = fb_batch f" by (simp add: c')
  then have segs: "?segs = take (c_egress_batch_count ?c') (egress_contents ?c')" unfolding batch_segs_def cont by simp
  have len: "length ?segs = fb_batch f" using I(3) by (simp add: batch_segs_def)
  have fd: "c_fd (resume_iov (fb_client f)) = c_fd (client_at b s)"
    using I(5) resume_iov_fields(1) [of "fb_client f"] by (simp add: client_core_def c1)
  have "writev_bytes (b_recv_pool b') ?c' m = writev_bytes (b_recv_pool b1) (resume_iov (fb_client f)) m" for m
  proof -
    have "iov_bytes rp ?c' v = iov_bytes rp (resume_iov (fb_client f)) v" for rp v
      by (cases "iov_base v") (simp_all add: c' iov_bytes_def)
    then have "iov_bytes rp ?c' = iov_bytes rp (resume_iov (fb_client f))" for rp by (rule ext)
    moreover have "c_egress_iov ?c' = c_egress_iov (resume_iov (fb_client f))" by (simp add: c')
    ultimately show ?thesis unfolding writev_bytes_def pools by simp
  qed
  then have bytes: "writev_bytes (b_recv_pool b') ?c' (iov_total ?segs) = batch_stream (b_msg_pool b') (b_recv_pool b') ?segs"
    using resume_iov_bytes [OF inv some] by (simp add: pools)
  let ?sqe = "egress_sqe (resume_iov (fb_client f)) s (fb_iov_cnt f) zero_sqe"
  have sqe: "sq_contents (b_ring b') = sq_contents (b_ring b) @ [?sqe]" using S(3) at2 P(4) by (simp add: client_update_def)
  have sqe_f: "sqe_opcode ?sqe = IORING_OP_WRITEV" "sqe_fd ?sqe = c_fd (client_at b s)" "sqe_addr ?sqe = AIovec s"
      "sqe_len ?sqe = of_nat (iov_total ?segs mod 256)"
    by (simp_all add: egress_sqe_def ring_prep_writev_def fd I(4))
  have ne: "?segs \<noteq> []" using len some by auto
  have small: "unat (sqe_len ?sqe) = iov_total ?segs" if "iov_total ?segs < 256"
    using that by (simp add: sqe_f(4) unat_of_nat_mod)
  have stream: "writev_bytes (b_recv_pool b') ?c' (unat (sqe_len ?sqe))
         = drop (unat (seg_cursor (hd ?segs))) (concat (map (seg_bytes (b_msg_pool b') (b_recv_pool b')) ?segs))"
    if "iov_total ?segs < 256" "seg_kind (hd ?segs) = SEG_CTRL \<longrightarrow> seg_cursor (hd ?segs) = 0"
      "unat (seg_cursor (hd ?segs)) \<le> length (seg_bytes (b_msg_pool b') (b_recv_pool b') (hd ?segs))"
    using bytes small [OF that(1)] batch_stream_eq [OF ne _ that(3)] that(2) by auto
  show ?thesis
    using segs ne len I(1,2) P(2) sqe sqe_f bytes stream
    by (intro exI [of _ ?segs] exI [of _ ?sqe] exI [of _ k]) (simp add: cont, simp add: c')
qed

text \<open>A broker with one client and one queued PINGRESP.\<close>

definition ping_seg :: egress_segment where
  "ping_seg = zero_segment\<lparr>seg_kind := SEG_CTRL, seg_ctrl := [0xD0, 0, 0, 0, 0, 0, 0, 0], seg_ctrl_len := 2\<rparr>"

definition ping_client :: client_slot where
  "ping_client = (initial_client 1 4 4 0)\<lparr>c_state := CLIENT_ACTIVE, c_fd := 7,
     c_egress := ping_seg # replicate 3 zero_segment, c_egress_count := 1\<rparr>"

definition ping_broker :: "broker \<Rightarrow> broker" where
  "ping_broker b = b\<lparr>b_clients := [ping_client], b_ring := fresh_ring 4 0 0\<rparr>"

lemma ping_contents: "egress_contents ping_client = [ping_seg]" "egress_head ping_client = ping_seg"
    "client_at (ping_broker b) 0 = ping_client"
  by (simp_all add: egress_contents_def ping_client_def initial_client_def zero_client_def ring_contents_def
      egress_head_def egress_head_seg_def ping_broker_def client_at_def)

lemma ping_wf: "egress_ring_wf ping_client" "scratch_wf ping_client" "sq_wf (b_ring (ping_broker b))"
    "sq_contents (b_ring (ping_broker b)) = []" "seg_ok mp rp ping_seg"
proof -
  have "(4 :: nat) = 2 ^ 2" by simp
  then have "\<exists>k. (4 :: nat) = 2 ^ k" by (rule exI)
  then show "egress_ring_wf ping_client"
    by (simp add: egress_ring_wf_def ping_client_def initial_client_def zero_client_def pow2_table_def)
qed (use EGRESS_BATCH_MAX_def fresh_ring_wf [of 4 0 0] in
  \<open>simp_all add: scratch_wf_def ping_client_def initial_client_def zero_client_def ping_broker_def seg_ok_def ping_seg_def\<close>)

lemma ping_flush: "\<exists>b'. egress_flush (ping_broker b) 0 = (EGRESS_FLUSH_SUBMITTED, b')"
proof -
  have f: "seg_kind ping_seg = 1" "seg_cursor ping_seg = 0" "seg_ctrl_len ping_seg = 2" "seg_slot_gen ping_seg = 0"
    by (simp_all add: ping_seg_def zero_segment_def)
  have c: "c_egress_count ping_client = 1" "c_state ping_client = CLIENT_ACTIVE" "\<not> c_egress_inflight ping_client"
      "c_generation ping_client = 0" "c_egress ping_client ! seg_index ping_client 0 = ping_seg"
    by (simp_all add: ping_client_def initial_client_def zero_client_def seg_index_def)
  have n: "\<not> seg_discarded ping_client ping_seg" by (simp add: seg_discarded_def f c)
  have loop: "\<exists>f. batch_loop mp rp now 64 (fresh_batch ping_client) = (False, f) \<and> fb_batch f = 1" for mp rp now
  proof -
    have l64: "batch_loop mp rp now 64 g = (if 0 < c_egress_count (fb_client g)
        then case batch_round mp rp now g 0 of Break \<Rightarrow> (False, g) | Return_Noop \<Rightarrow> (True, g) | Next g \<Rightarrow> batch_loop mp rp now 63 g
        else (False, g))" for g
      using batch_loop.simps(2) [of mp rp now 63 g] by (simp add: EGRESS_BATCH_MAX_def)
    have l63: "batch_loop mp rp now 63 g = (False, g)" if "c_egress_count (fb_client g) = 1" for g
      using batch_loop.simps(2) [of mp rp now 62 g] that by (simp add: EGRESS_BATCH_MAX_def)
    show ?thesis
      unfolding l64
      by (simp add: fresh_batch_def batch_round_def batch_ctrl_def f c add_iov_def l63)
  qed
  obtain i r where r: "ring_get_sqe (fresh_ring 4 0 0) = (Some i, r)"
    by (simp add: ring_get_sqe_def fresh_ring_def Let_def)
  have cl: "egress_clean (c_egress_count ping_client) (ping_broker b) 0 = ping_broker b"
    using n by (simp add: c ping_contents)
  obtain g where g: "batch_loop (b_msg_pool (ping_broker b)) (b_recv_pool (ping_broker b)) (b_now (ping_broker b)) 64
      (fresh_batch ping_client) = (False, g)" "fb_batch g = 1"
    using loop by blast
  have ring: "b_ring (client_update (ping_broker b) 0 h) = fresh_ring 4 0 0" for h
    by (simp add: client_update_def ping_broker_def)
  show ?thesis
    using g c n by (simp add: egress_flush_def ping_contents cl Let_def EGRESS_BATCH_MAX_def egress_submit_def
        ring r flip: fresh_batch_def)
qed

theorem egress_flush_frames_witness:
  "\<exists>b b' sqe. egress_flush b 0 = (EGRESS_FLUSH_SUBMITTED, b') \<and> sq_contents (b_ring b') = [sqe] \<and> sqe_len sqe = 1
     \<and> writev_bytes (b_recv_pool b') (client_at b' 0) 1 = [0xD0, 0]"
proof -
  fix b0 :: broker
  let ?b = "ping_broker b0"
  obtain b' where b': "egress_flush ?b 0 = (EGRESS_FLUSH_SUBMITTED, b')" using ping_flush by blast
  have "0 < length (b_clients ?b)" by (simp add: ping_broker_def)
  from egress_flush_frames [OF b' this] obtain segs sqe k where
    T: "segs \<noteq> []" "segs = take (c_egress_batch_count (client_at b' 0)) (egress_contents (client_at b' 0))"
      "list_all2 same_but_pid (drop k [ping_seg]) (egress_contents (client_at b' 0))"
      "sq_contents (b_ring b') = [sqe]" "sqe_len sqe = of_nat (iov_total segs mod 256)"
      "writev_bytes (b_recv_pool b') (client_at b' 0) (iov_total segs) = batch_stream (b_msg_pool b') (b_recv_pool b') segs"
    using ping_wf by (auto simp: ping_contents)
  have "egress_contents (client_at b' 0) \<noteq> []" using T(1,2) by auto
  then obtain s where s: "egress_contents (client_at b' 0) = [s]" "same_but_pid ping_seg s"
    using T(3) by (cases k) (auto simp: list_all2_Cons1)
  then have segs: "segs = [s]" using T(1,2) by (cases "c_egress_batch_count (client_at b' 0)") auto
  have f: "seg_kind s = 1" "seg_cursor s = 0" "seg_ctrl_len s = 2" "take 2 (seg_ctrl s) = [0xD0, 0]"
    using same_but_pid_fields [OF s(2)] by (simp_all add: ping_seg_def zero_segment_def)
  have "iov_total segs = 1" by (simp add: segs seg_iovs_def f)
  moreover have "batch_stream mp rp segs = [0xD0, 0]" for mp rp
    by (simp add: segs batch_stream_def batch_bytes_def seg_bytes_head f)
  ultimately have "sqe_len sqe = 1" "writev_bytes (b_recv_pool b') (client_at b' 0) 1 = [0xD0, 0]" using T(5,6) by simp_all
  with b' T(4) show ?thesis by blast
qed

end
