(* ===== verification/Egress_Complete.thy ===== *)
theory Egress_Complete
  imports Egress_Frames
begin

text \<open>
  The completion of a \<open>writev\<close>: how the walk of \<^verbatim>\<open>handle_egress_cqe\<close> advances the queue, so that
  partial writes lose and repeat no byte, and what it does with a result of 0.
\<close>

section \<open>Wire lengths\<close>

text \<open>The wire length stored in a PUBLISH segment is the number of bytes of its encoding.\<close>

lemma publish_wire_len_exact:
  assumes "seg_kind seg = SEG_PUBLISH" "seg_ok mp rp seg" "cm_topic_len (seg_msg mp seg) + cm_payload_len (seg_msg mp seg) < 2 ^ 32 - 16"
  shows "unat (egress_publish_wire_len (seg_msg mp seg) (seg_qos seg)) = length (seg_bytes mp rp seg)"
proof -
  let ?m = "seg_msg mp seg"
  define rem where "rem = (if seg_qos seg > 0 then 2 + of_nat (cm_topic_len ?m) + of_nat (cm_payload_len ?m) + 2
      else 2 + of_nat (cm_topic_len ?m) + of_nat (cm_payload_len ?m) :: u32)"
  let ?n = "cm_topic_len ?m + cm_payload_len ?m + (if seg_qos seg > 0 then 4 else 2)"
  have rem: "rem = of_nat ?n" by (simp add: rem_def)
  then have u: "unat rem = ?n" using assms(3) by (simp only: unat_of_nat_mod) (simp add: of_nat_mod)
  define l where "l = length (mqtt_encode_remaining_len rem)"
  have l: "l \<le> 5" unfolding l_def by (rule length_encode_remaining_len) (use unat_lt_u32 [of rem] in auto)
  have w: "egress_publish_wire_len ?m (seg_qos seg) = of_nat (1 + l) + rem"
    unfolding egress_publish_wire_len_def Let_def rem_def [symmetric]
    by (simp add: rem_def l_def wire_vbi_count_eq algebra_simps)
  have "of_nat (1 + l) + rem = (of_nat (1 + l + ?n) :: u32)" unfolding rem by (simp only: of_nat_add)
  with w have w': "egress_publish_wire_len ?m (seg_qos seg) = of_nat (1 + l + ?n)" by (rule trans)
  have small: "1 + l + ?n < 2 ^ 32" using l assms(3) by simp
  have "unat (egress_publish_wire_len ?m (seg_qos seg)) = 1 + l + ?n"
    unfolding w' unat_of_nat_mod using small by simp
  moreover have "cm_topic_len ?m \<le> length (bp_bufs rp ! cm_buf_idx ?m) - cm_topic_off ?m"
      "cm_payload_len ?m \<le> length (bp_bufs rp ! cm_buf_idx ?m) - cm_payload_off ?m"
    using assms(1,2) by (auto simp: seg_ok_def Let_def)
  then have "length (seg_bytes mp rp seg) = 1 + l + ?n"
    using assms(1) by (simp add: l_def seg_bytes_head publish_head_def Let_def rem_def)
  ultimately show ?thesis by simp
qed

section \<open>The walk over the batch\<close>

definition seg_unsent :: "broker \<Rightarrow> egress_segment \<Rightarrow> bytes" where
  "seg_unsent b seg = drop (unat (seg_cursor seg)) (seg_bytes (b_msg_pool b) (b_recv_pool b) seg)"

text \<open>The bytes a client has still to get.\<close>

definition unsent :: "broker \<Rightarrow> nat \<Rightarrow> bytes" where
  "unsent b s = concat (map (seg_unsent b) (egress_contents (client_at b s)))"

definition seg_sized :: "broker \<Rightarrow> egress_segment \<Rightarrow> bool" where
  "seg_sized b seg \<longleftrightarrow> unat (seg_wire_len seg) = length (seg_bytes (b_msg_pool b) (b_recv_pool b) seg)
     \<and> seg_cursor seg \<le> seg_wire_len seg"

lemma pools_same_unsent: "pools_same b b' \<Longrightarrow> seg_unsent b' seg = seg_unsent b seg"
    "pools_same b b' \<Longrightarrow> seg_sized b' seg = seg_sized b seg"
  by (simp_all add: seg_unsent_def seg_sized_def pools_same_segs)

lemma length_seg_unsent: "seg_sized b seg \<Longrightarrow> length (seg_unsent b seg) = unat (seg_wire_len seg - seg_cursor seg)"
  by (simp add: seg_sized_def seg_unsent_def unat_sub)

lemma head_update_contents:
  assumes "egress_ring_wf c" "0 < c_egress_count c"
  shows "egress_contents (head_update c f) = f (hd (egress_contents c)) # tl (egress_contents c)"
    "egress_ring_wf (head_update c f)" "c_egress_count (head_update c f) = c_egress_count c"
proof -
  have i: "egress_head_seg (c_egress_head c) (c_egress_mask c) = seg_index c 0"
    by (simp add: egress_head_seg_def seg_index_def)
  have h: "c_egress c ! seg_index c 0 = hd (egress_contents c)"
    using egress_contents_nth(1) [OF assms] assms by (simp add: hd_conv_nth flip: length_greater_0_conv)
  have ne: "egress_contents c \<noteq> []" using assms(2) by (simp flip: length_greater_0_conv)
  then have "(egress_contents c)[0 := x] = x # tl (egress_contents c)" for x by (cases "egress_contents c") auto
  then show "egress_contents (head_update c f) = f (hd (egress_contents c)) # tl (egress_contents c)"
      "egress_ring_wf (head_update c f)"
    unfolding head_update_def i h Let_def using egress_contents_update [OF assms] by simp_all
  show "c_egress_count (head_update c f) = c_egress_count c" by (simp add: head_update_def Let_def)
qed

lemma egress_walk_0: "egress_walk n 0 b s = b"
  by (cases n) (simp_all add: Let_def)

text \<open>What the walk keeps of the rest of the broker.\<close>

definition walk_frame :: "broker \<Rightarrow> nat \<Rightarrow> broker \<Rightarrow> bool" where
  "walk_frame b s b' \<longleftrightarrow> pools_same b b' \<and> b_ring b' = b_ring b \<and> length (b_clients b') = length (b_clients b)
     \<and> (\<forall>j. j \<noteq> s \<longrightarrow> client_at b' j = client_at b j)"

lemma walk_frame_trans: "walk_frame b s b' \<Longrightarrow> walk_frame b' s b'' \<Longrightarrow> walk_frame b s b''"
  unfolding walk_frame_def using pools_same_trans by auto

lemma popped_frame: "popped b s k b' \<Longrightarrow> walk_frame b s b'"
  by (simp add: popped_def walk_frame_def)

lemma unsent_cong:
  "pools_same b b' \<Longrightarrow> egress_contents (client_at b' s) = xs \<Longrightarrow> unsent b' s = concat (map (seg_unsent b) xs)"
  unfolding unsent_def using pools_same_unsent(1) by (simp cong: map_cong)

lemma egress_walk_step:
  assumes "egress_ring_wf (client_at b s)" "s < length (b_clients b)" "\<forall>seg \<in> set (egress_contents (client_at b s)). seg_sized b seg"
    "unat left \<le> length (concat (map (seg_unsent b) (take n (egress_contents (client_at b s)))))"
  shows "egress_ring_wf (client_at (egress_walk n left b s) s)
     \<and> (\<forall>seg \<in> set (egress_contents (client_at (egress_walk n left b s) s)). seg_sized (egress_walk n left b s) seg)
     \<and> unsent (egress_walk n left b s) s = drop (unat left) (unsent b s)
     \<and> (\<exists>k \<le> n. tl (egress_contents (client_at (egress_walk n left b s) s)) = tl (drop k (egress_contents (client_at b s)))
          \<and> length (egress_contents (client_at (egress_walk n left b s) s)) = length (drop k (egress_contents (client_at b s))))
     \<and> walk_frame b s (egress_walk n left b s)"
  using assms
proof (induction n left b s rule: egress_walk.induct)
  case (1 left b s)
  then show ?case by (auto simp: walk_frame_def)
next
  case (2 n left b s)
  let ?c = "client_at b s"
  show ?case
  proof (cases "c_egress_count ?c > 0 \<and> left > 0")
    case False
    then have stop: "egress_walk (Suc n) left b s = b" by (auto simp: Let_def)
    have "drop (unat left) (unsent b s) = unsent b s"
    proof (cases "c_egress_count ?c = 0")
      case True
      then have "egress_contents ?c = []" by (metis length_egress_contents length_0_conv)
      then show ?thesis by (simp add: unsent_def)
    next
      case False
      then show ?thesis using \<open>\<not> (c_egress_count ?c > 0 \<and> left > 0)\<close> by (simp add: word_gt_0)
    qed
    then show ?thesis using 2(3,4,5) unfolding stop by (auto simp: walk_frame_def)
  next
    case True
    then have pos: "0 < c_egress_count ?c" by simp
    have ne: "egress_contents ?c \<noteq> []" using pos by (simp flip: length_greater_0_conv)
    then obtain seg rest where cs: "egress_contents ?c = seg # rest" by (cases "egress_contents ?c") auto
    have hd: "egress_head ?c = seg" using egress_head_contents [OF 2(3) pos] by (simp add: cs)
    have sized: "seg_sized b seg" using 2(5) by (simp add: cs)
    let ?rem = "seg_wire_len seg - seg_cursor seg"
    have len: "length (seg_unsent b seg) = unat ?rem" by (rule length_seg_unsent [OF sized])
    have un: "unsent b s = seg_unsent b seg @ concat (map (seg_unsent b) rest)" by (simp add: unsent_def cs)
    show ?thesis
    proof (cases "left \<ge> ?rem")
      case ge: True
      let ?b = "egress_complete_head b s seg"
      have pop: "popped b s 1 ?b" by (rule discard_popped(2) [OF 2(3) pos 2(4)])
      then have P: "egress_contents (client_at ?b s) = rest" "egress_ring_wf (client_at ?b s)" "pools_same b ?b"
          "length (b_clients ?b) = length (b_clients b)"
        by (simp_all add: popped_def cs)
      have u: "unat (left - ?rem) = unat left - unat ?rem" using ge by (simp add: unat_sub)
      have ub: "seg_unsent ?b = seg_unsent b" using pools_same_unsent(1) [OF P(3)] by (rule ext)
      have "unat (left - ?rem) \<le> length (concat (map (seg_unsent ?b) (take n (egress_contents (client_at ?b s)))))"
        unfolding ub P(1) u using 2(6) len by (simp add: cs)
      moreover have "\<forall>seg \<in> set (egress_contents (client_at ?b s)). seg_sized ?b seg"
        using 2(5) pools_same_unsent(2) [OF P(3)] by (simp add: P(1) cs)
      ultimately have IH: "egress_ring_wf (client_at (egress_walk n (left - ?rem) ?b s) s)"
          "\<forall>seg \<in> set (egress_contents (client_at (egress_walk n (left - ?rem) ?b s) s)). seg_sized (egress_walk n (left - ?rem) ?b s) seg"
          "unsent (egress_walk n (left - ?rem) ?b s) s = drop (unat (left - ?rem)) (unsent ?b s)"
          "\<exists>k \<le> n. tl (egress_contents (client_at (egress_walk n (left - ?rem) ?b s) s)) = tl (drop k rest)
          \<and> length (egress_contents (client_at (egress_walk n (left - ?rem) ?b s) s)) = length (drop k rest)"
          "walk_frame ?b s (egress_walk n (left - ?rem) ?b s)"
        using 2(1) [OF refl True hd [symmetric] refl ge] 2(4) P hd by simp_all
      have step: "egress_walk (Suc n) left b s = egress_walk n (left - ?rem) ?b s" using True ge hd by (simp add: Let_def)
      have "unsent ?b s = concat (map (seg_unsent b) rest)" by (rule unsent_cong [OF P(3,1)])
      then have "drop (unat (left - ?rem)) (unsent ?b s) = drop (unat left) (unsent b s)"
        using ge by (simp add: un u len word_le_nat_alt)
      moreover obtain k where "k \<le> n" "tl (egress_contents (client_at (egress_walk n (left - ?rem) ?b s) s)) = tl (drop k rest)"
          "length (egress_contents (client_at (egress_walk n (left - ?rem) ?b s) s)) = length (drop k rest)"
        using IH(4) by blast
      moreover have "walk_frame b s (egress_walk n (left - ?rem) ?b s)" using walk_frame_trans [OF popped_frame [OF pop] IH(5)] .
      ultimately show ?thesis unfolding step cs using IH(1,2,3) by (intro conjI exI [of _ "Suc k"]) simp_all
    next
      case lt: False
      let ?f = "\<lambda>g. g\<lparr>seg_cursor := seg_cursor g + left\<rparr>"
      let ?b = "client_update b s (\<lambda>c. head_update c ?f)"
      have step: "egress_walk (Suc n) left b s = ?b" using True lt hd by (simp add: Let_def egress_walk_0)
      have at: "client_at ?b j = (if j = s then head_update ?c ?f else client_at b j)" for j
        using 2(4) by (simp add: client_at_update)
      have cs': "egress_contents (client_at ?b s) = ?f seg # rest" "egress_ring_wf (client_at ?b s)"
        using head_update_contents [OF 2(3) pos] by (simp_all add: at cs)
      have P: "pools_same b ?b" by (simp add: pools_same_update)
      have lt': "unat left < unat ?rem" using lt by (simp add: word_less_nat_alt not_le)
      have le: "seg_cursor seg \<le> seg_wire_len seg" using sized by (simp add: seg_sized_def)
      then have rem: "unat ?rem = unat (seg_wire_len seg) - unat (seg_cursor seg)" by (simp add: unat_sub)
      have u: "unat (seg_cursor seg + left) = unat (seg_cursor seg) + unat left"
      proof -
        have "unat (seg_cursor seg) + unat left < 2 ^ 32"
          using lt' rem unat_lt_u32 [of "seg_wire_len seg"] by simp
        then show ?thesis by (simp add: unat_word_ariths)
      qed
      have bytes: "seg_bytes mp rp (seg\<lparr>seg_cursor := x\<rparr>) = seg_bytes mp rp seg" for mp rp x
        by (simp add: seg_bytes_head publish_head_def seg_msg_def Let_def)
      have wl: "seg_wire_len (seg\<lparr>seg_cursor := x\<rparr>) = seg_wire_len seg" for x by (simp add: seg_wire_len_def egress_seg_load_wire_len_def)
      have fs: "seg_unsent b (?f seg) = drop (unat left) (seg_unsent b seg)" "seg_sized b (?f seg)"
        using sized lt' rem u by (simp_all add: seg_unsent_def seg_sized_def bytes wl add.commute word_le_nat_alt)
      have "unsent ?b s = concat (map (seg_unsent b) (?f seg # rest))" by (rule unsent_cong [OF P cs'(1)])
      then have un': "unsent ?b s = drop (unat left) (unsent b s)" using fs len lt' by (simp add: un)
      have sz: "\<forall>seg \<in> set (egress_contents (client_at ?b s)). seg_sized ?b seg"
        unfolding cs'(1) using fs(2) 2(5) pools_same_unsent(2) [OF P] by (simp add: cs)
      have fr: "walk_frame b s ?b" using P 2(4) by (simp add: walk_frame_def at) (simp add: client_update_def)
      show ?thesis
        unfolding step using cs' un' sz fr by (intro conjI exI [of _ 0]) (simp_all add: cs)
    qed
  qed
qed

text \<open>C2: the walk over a completed \<open>writev\<close> takes exactly the reported number of bytes off what the
  client has still to get, whatever the boundaries of the segments: the rest is the same bytes, at
  most the first remaining segment has a new cursor, and no other client changes.\<close>

theorem egress_walk_stream:
  assumes "egress_ring_wf (client_at b s)" "s < length (b_clients b)" "\<forall>seg \<in> set (egress_contents (client_at b s)). seg_sized b seg"
    "unat left \<le> length (concat (map (seg_unsent b) (take n (egress_contents (client_at b s)))))"
  shows "unsent (egress_walk n left b s) s = drop (unat left) (unsent b s)
     \<and> (\<exists>k \<le> n. tl (egress_contents (client_at (egress_walk n left b s) s)) = tl (drop k (egress_contents (client_at b s)))
          \<and> length (egress_contents (client_at (egress_walk n left b s) s)) = length (drop k (egress_contents (client_at b s))))
     \<and> egress_ring_wf (client_at (egress_walk n left b s) s)
     \<and> (\<forall>seg \<in> set (egress_contents (client_at (egress_walk n left b s) s)). seg_sized (egress_walk n left b s) seg)
     \<and> (\<forall>j. j \<noteq> s \<longrightarrow> client_at (egress_walk n left b s) j = client_at b j)"
  using egress_walk_step [OF assms] by (simp add: walk_frame_def)

theorem egress_walk_stream_witness:
  "\<exists>b. unsent b 0 = [0xD0, 0] \<and> unsent (egress_walk 1 1 b 0) 0 = [0]
     \<and> length (egress_contents (client_at (egress_walk 1 1 b 0) 0)) = 1 \<and> unsent (egress_walk 1 2 b 0) 0 = []"
proof -
  fix b0 :: broker
  let ?b = "ping_broker b0"
  have len: "0 < length (b_clients ?b)" by (simp add: ping_broker_def)
  have sb: "seg_unsent ?b ping_seg = [0xD0, 0]" "seg_sized ?b ping_seg"
    by (simp_all add: seg_unsent_def seg_bytes_head ping_seg_def zero_segment_def seg_sized_def seg_wire_len_def)
  have wf: "egress_ring_wf (client_at ?b 0)" using ping_wf(1) by (simp add: ping_contents)
  have sized: "\<forall>seg \<in> set (egress_contents (client_at ?b 0)). seg_sized ?b seg" using sb by (simp add: ping_contents)
  have un: "unsent ?b 0 = [0xD0, 0]" by (simp add: unsent_def ping_contents sb)
  have bound: "unat left \<le> length (concat (map (seg_unsent ?b) (take 1 (egress_contents (client_at ?b 0)))))" if "unat left \<le> 2" for left :: u32
    using that by (simp add: ping_contents sb)
  note T = egress_walk_stream [OF wf len sized bound]
  have one: "unsent (egress_walk 1 1 ?b 0) 0 = [0]" "unsent (egress_walk 1 2 ?b 0) 0 = []"
    using T [of 1] T [of 2] un by simp_all
  obtain k where "length (egress_contents (client_at (egress_walk 1 1 ?b 0) 0)) = length (drop k [ping_seg])"
    using T [of 1] unfolding ping_contents by auto
  moreover have "egress_contents (client_at (egress_walk 1 1 ?b 0) 0) \<noteq> []" using one by (auto simp: unsent_def)
  ultimately have "length (egress_contents (client_at (egress_walk 1 1 ?b 0) 0)) = 1"
    by (cases k) (auto simp del: length_egress_contents)
  with un one show ?thesis by blast
qed

end
