(* ===== verification/Egress_Wrap.thy ===== *)
theory Egress_Wrap
  imports Egress_Complete
begin

text \<open>
  A full batch: sixty-four PUBLISH segments make 256 entries, and the u8 counter of \<^verbatim>\<open>egress_flush\<close>
  wraps to 0.
\<close>

section \<open>Progress of the batching loop\<close>

definition seg_ready :: "msg_pool \<Rightarrow> buf_pool \<Rightarrow> u8 \<Rightarrow> egress_segment \<Rightarrow> bool" where
  "seg_ready mp rp gen seg \<longleftrightarrow> seg_kind seg = SEG_PUBLISH \<and> seg_qos seg = 0 \<and> seg_cursor seg = 0
     \<and> seg_slot_gen seg = gen \<and> egress_seg_load_wire_len seg \<noteq> 0 \<and> seg_ok mp rp seg"

lemma seg_ready_same: "same_but_pid s s' \<Longrightarrow> seg_ready mp rp gen s' = seg_ready mp rp gen s"
  using same_but_pid_fields [of s s'] by (simp add: seg_ready_def egress_seg_load_wire_len_def)

lemma batch_round_ready:
  assumes "batch_inv mp rp c0 f" "fb_batch f < c_egress_count (fb_client f)"
    "\<forall>s \<in> set (egress_contents c0). seg_ready mp rp (c_generation c0) s"
  shows "\<exists>f'. batch_round mp rp now f (fb_batch f) = Next f'"
proof -
  let ?c = "fb_client f" and ?i = "fb_batch f"
  have I: "egress_ring_wf ?c" "list_all2 same_but_pid (egress_contents c0) (egress_contents ?c)" "client_core ?c = client_core c0"
    using assms(1) by (simp_all add: batch_inv_def Let_def)
  have l: "?i < length (egress_contents c0)" using list_all2_lengthD [OF I(2)] assms(2) by simp
  have "same_but_pid (egress_contents c0 ! ?i) (egress_contents ?c ! ?i)" by (rule list_all2_nthD [OF I(2) l])
  then have "seg_ready mp rp (c_generation c0) (egress_contents ?c ! ?i)"
    using assms(3) nth_mem [OF l] seg_ready_same by blast
  moreover have "egress_contents ?c ! ?i = c_egress ?c ! seg_index ?c ?i"
    by (rule egress_contents_nth(1) [OF I(1) assms(2)])
  moreover have "c_generation ?c = c_generation c0" using I(3) by (simp add: client_core_def)
  moreover note ready = calculation
  define seg where "seg = c_egress ?c ! seg_index ?c ?i"
  have s: "seg_kind seg = 0" "seg_qos seg = 0" "seg_cursor seg = 0" "seg_slot_gen seg = c_generation ?c"
      "egress_seg_load_wire_len seg \<noteq> 0" "seg_ok mp rp seg"
    using ready by (simp_all add: seg_def seg_ready_def)
  have "msg_pool_get mp (seg_msg_idx seg) = Some (seg_msg mp seg)" "buf_pool_get rp (cm_buf_idx (seg_msg mp seg)) \<noteq> None"
    using s(1,6) by (auto simp: seg_ok_def seg_msg_def Let_def msg_pool_get_def buf_pool_get_def)
  with s show ?thesis unfolding batch_round_def Let_def seg_def [symmetric] by (simp add: batch_publish_def)
qed

lemma batch_loop_ready:
  assumes "\<forall>s \<in> set (egress_contents c0). seg_ready mp rp (c_generation c0) s" "64 \<le> c_egress_count c0"
  shows "batch_inv mp rp c0 f \<Longrightarrow> fb_batch f = 64 - n \<Longrightarrow> n \<le> 64 \<Longrightarrow>
     \<exists>f'. batch_loop mp rp now n f = (False, f') \<and> fb_batch f' = 64"
proof (induction n arbitrary: f)
  case 0
  then show ?case by simp
next
  case (Suc n)
  have i: "EGRESS_BATCH_MAX - Suc n = fb_batch f" using Suc.prems(2) by (simp add: EGRESS_BATCH_MAX_def)
  have lt: "fb_batch f < 64" using Suc.prems(2,3) by simp
  have "c_egress_count (fb_client f) = c_egress_count c0"
    using Suc.prems(1) by (simp add: batch_inv_def Let_def client_core_def)
  then have cnt: "fb_batch f < c_egress_count (fb_client f)" using lt assms(2) by simp
  obtain f1 where f1: "batch_round mp rp now f (fb_batch f) = Next f1"
    using batch_round_ready [OF Suc.prems(1) cnt assms(1)] by blast
  have ok: "\<forall>s \<in> set (egress_contents c0). seg_ok mp rp s" using assms(1) by (simp add: seg_ready_def)
  note step = batch_round_inv [OF Suc.prems(1) cnt lt ok f1]
  have "fb_batch f1 = 64 - n" "n \<le> 64" using step(2) Suc.prems(2,3) by simp_all
  from Suc.IH [OF step(1) this] show ?case using i f1 cnt by (simp add: Let_def)
qed

section \<open>Discarding a failed batch\<close>

lemma egress_fail_batch_qos0:
  "egress_ring_wf (client_at b s) \<Longrightarrow> s < length (b_clients b) \<Longrightarrow> n \<le> c_egress_count (client_at b s) \<Longrightarrow>
   \<forall>seg \<in> set (egress_contents (client_at b s)). seg_qos seg = 0 \<Longrightarrow>
   \<exists>b'. egress_fail_batch n b s = Some b' \<and> popped b s n b'"
proof (induction n arbitrary: b)
  case 0
  then show ?case using popped_0 by simp
next
  case (Suc n)
  let ?seg = "egress_head (client_at b s)" and ?b = "egress_discard_head b s (egress_head (client_at b s))"
  have pos: "0 < c_egress_count (client_at b s)" using Suc.prems(3) by simp
  have pop: "popped b s 1 ?b" by (rule discard_popped(1) [OF Suc.prems(1) pos Suc.prems(2)])
  have ne: "egress_contents (client_at b s) \<noteq> []" using pos by (simp flip: length_greater_0_conv)
  then have "?seg \<in> set (egress_contents (client_at b s))"
    using egress_head_contents [OF Suc.prems(1) pos] by simp
  then have q: "seg_qos ?seg = 0" using Suc.prems(4) by blast
  have "egress_ring_wf (client_at ?b s)" "s < length (b_clients ?b)" "n \<le> c_egress_count (client_at ?b s)"
      "\<forall>seg \<in> set (egress_contents (client_at ?b s)). seg_qos seg = 0"
    using pop Suc.prems by (auto simp: popped_def dest: in_set_dropD)
  from Suc.IH [OF this] obtain b' where b': "egress_fail_batch n ?b s = Some b'" "popped ?b s n b'" by blast
  have "popped b s (1 + n) b'" by (rule popped_trans [OF pop b'(2)])
  with b'(1) q pos show ?case by (simp add: Let_def)
qed

lemma egress_submit_room:
  assumes "\<not> sq_full (b_ring b)"
  shows "\<exists>b'. egress_submit b s f = (EGRESS_FLUSH_SUBMITTED, b')"
  using assms by (auto simp: egress_submit_def sq_full_def split: prod.splits option.splits)

lemma iov_total_publish: "\<forall>s \<in> set segs. seg_kind s = SEG_PUBLISH \<Longrightarrow> iov_total segs = 4 * length segs"
  by (induction segs) (simp_all add: seg_iovs_def)

text \<open>The fields of the entry come back with its completion.\<close>

lemma egress_entry_fields:
  assumes "s < 2 ^ 24" "0 \<le> fd" "fd < 2 ^ 24"
  shows "unat (EGRESS_CTX_SLOT (ud_ctx (make_user_data op (of_int fd) (MAKE_EGRESS_CTX (of_nat s) gen)))) = s"
    "EGRESS_CTX_GEN (ud_ctx (make_user_data op (of_int fd) (MAKE_EGRESS_CTX (of_nat s) gen))) = gen"
    "int (unat (ud_fd (make_user_data op (of_int fd) (MAKE_EGRESS_CTX (of_nat s) gen)))) = fd"
proof -
  have "unat (take_bit 24 (word_of_nat s :: u32)) = s" using assms(1)
    by (simp add: unsigned_take_bit_eq unsigned_of_nat take_bit_nat_eq_self)
  then show "unat (EGRESS_CTX_SLOT (ud_ctx (make_user_data op (of_int fd) (MAKE_EGRESS_CTX (of_nat s) gen)))) = s"
    "EGRESS_CTX_GEN (ud_ctx (make_user_data op (of_int fd) (MAKE_EGRESS_CTX (of_nat s) gen))) = gen"
    by (simp_all only: user_data_roundtrip)
  have "uint (take_bit 24 (word_of_int fd :: u32)) = fd" using assms(2,3)
    by (simp add: unsigned_take_bit_eq unsigned_of_int take_bit_int_eq_self)
  then show "int (unat (ud_fd (make_user_data op (of_int fd) (MAKE_EGRESS_CTX (of_nat s) gen)))) = fd"
    by (simp add: user_data_roundtrip)
qed

text \<open>A \<open>writev\<close> that wrote nothing: the completion handler discards the batch.\<close>

lemma empty_writev_discards:
  assumes wf: "egress_ring_wf (client_at b s)" and s: "s < length (b_clients b)" "s < b_max_clients b" "s < 2 ^ 24"
    and fd: "0 \<le> c_fd (client_at b s)" "c_fd (client_at b s) < 2 ^ 24" and active: "c_state (client_at b s) = CLIENT_ACTIVE"
    and n: "0 < c_egress_batch_count (client_at b s)" "c_egress_batch_count (client_at b s) \<le> c_egress_count (client_at b s)"
    and qos: "\<forall>seg \<in> set (egress_contents (client_at b s)). seg_qos seg = 0"
    and cqe: "cqe_user_data cqe = make_user_data op (of_int (c_fd (client_at b s))) (MAKE_EGRESS_CTX (of_nat s) (c_generation (client_at b s)))"
      "cqe_res cqe = 0"
  shows "\<exists>b'. handle_egress_cqe b cqe = Some (if c_egress_batch_count (client_at b s) < c_egress_count (client_at b s) then egress_kick b' s else b')
      \<and> c_egress_count (client_at b' s) = c_egress_count (client_at b s) - c_egress_batch_count (client_at b s)
      \<and> egress_contents (client_at b' s) = drop (c_egress_batch_count (client_at b s)) (egress_contents (client_at b s))"
proof -
  let ?c = "client_at b s" and ?b1 = "client_update b s (\<lambda>c. c\<lparr>c_egress_inflight := False\<rparr>)"
  let ?b2 = "?b1\<lparr>b_drops_send_failed := b_drops_send_failed ?b1 + 1\<rparr>"
  have at1: "client_at ?b1 s = ?c\<lparr>c_egress_inflight := False\<rparr>" using s(1) by (simp add: client_at_def client_update_def)
  have at2: "client_at ?b2 s = ?c\<lparr>c_egress_inflight := False\<rparr>" "s < length (b_clients ?b2)" using s(1) by (simp_all add: client_at_def client_update_def)
  have same: "egress_contents (?c\<lparr>c_egress_inflight := False\<rparr>) = egress_contents ?c" "egress_ring_wf (?c\<lparr>c_egress_inflight := False\<rparr>) = egress_ring_wf ?c"
    by (simp_all add: egress_contents_def egress_ring_wf_def)
  obtain b' where b': "egress_fail_batch (c_egress_batch_count ?c) ?b2 s = Some b'" "popped ?b2 s (c_egress_batch_count ?c) b'"
    using egress_fail_batch_qos0 [of ?b2 s "c_egress_batch_count ?c"] at2 same wf n(2) qos by auto
  then have p: "c_egress_count (client_at b' s) = c_egress_count ?c - c_egress_batch_count ?c" "c_state (client_at b' s) = c_state ?c"
      "egress_contents (client_at b' s) = drop (c_egress_batch_count ?c) (egress_contents ?c)"
    using at2(1) same by (auto simp: popped_def)
  have "handle_egress_cqe b cqe = Some (if 0 < c_egress_count (client_at b' s) \<and> c_state (client_at b' s) = CLIENT_ACTIVE then egress_kick b' s else b')"
    using s(2) n b'(1) unfolding handle_egress_cqe_def cqe egress_entry_fields [OF s(3) fd] Let_def
    by (simp add: broker_get_client_def at1)
  then show ?thesis using p active n by (intro exI [of _ b']) auto
qed

text \<open>C30: with sixty-four QoS 0 PUBLISH segments of which nothing was sent yet in front, and room in the submission queue, a
  flush submits a batch of all sixty-four whose \<open>writev\<close> has no entry at all; when its completion arrives, with result 0, the
  handler takes the path of a fatal error, discards the sixty-four segments, and flushes what is left.\<close>

theorem egress_iov_wrap:
  assumes wf: "egress_ring_wf (client_at b s)" "scratch_wf (client_at b s)" "sq_wf (b_ring b)" "s < length (b_clients b)"
    and room: "\<not> sq_full (b_ring b)" and active: "c_state (client_at b s) = CLIENT_ACTIVE" "\<not> c_egress_inflight (client_at b s)"
    and many: "64 \<le> c_egress_count (client_at b s)"
    and range: "s < b_max_clients b" "s < 2 ^ 24" "0 \<le> c_fd (client_at b s)" "c_fd (client_at b s) < 2 ^ 24"
    and ready: "\<forall>seg \<in> set (egress_contents (client_at b s)). seg_ready (b_msg_pool b) (b_recv_pool b) (c_generation (client_at b s)) seg"
  shows "\<exists>b' sqe. egress_flush b s = (EGRESS_FLUSH_SUBMITTED, b')
     \<and> sq_contents (b_ring b') = sq_contents (b_ring b) @ [sqe] \<and> sqe_opcode sqe = IORING_OP_WRITEV \<and> sqe_len sqe = 0
     \<and> c_egress_batch_count (client_at b' s) = 64 \<and> c_egress_count (client_at b' s) = c_egress_count (client_at b s)
     \<and> (\<forall>cqe. cqe_user_data cqe = sqe_user_data sqe \<and> cqe_res cqe = 0 \<longrightarrow>
          (\<exists>b''. handle_egress_cqe b' cqe = Some (if 64 < c_egress_count (client_at b s) then egress_kick b'' s else b'')
             \<and> c_egress_count (client_at b'' s) = c_egress_count (client_at b s) - 64
             \<and> egress_contents (client_at b'' s) = drop 64 (egress_contents (client_at b' s))))"
proof -
  let ?c = "client_at b s"
  have pos: "0 < c_egress_count ?c" using many by simp
  have "egress_contents ?c \<noteq> []" using pos by (simp flip: length_greater_0_conv)
  then have "egress_head ?c \<in> set (egress_contents ?c)" using egress_head_contents [OF wf(1) pos] by simp
  then have "\<not> seg_discarded ?c (egress_head ?c)"
    using ready by (auto simp: seg_discarded_def seg_ready_def word_gt_0 Let_def)
  then have clean: "egress_clean (c_egress_count ?c) b s = b" by (cases "c_egress_count ?c") (simp_all add: Let_def)
  have inv0: "batch_inv (b_msg_pool b) (b_recv_pool b) ?c (fresh_batch ?c)" by (rule fresh_batch_inv [OF wf(1,2)])
  obtain f where loop: "batch_loop (b_msg_pool b) (b_recv_pool b) (b_now b) 64 (fresh_batch ?c) = (False, f)" and n: "fb_batch f = 64"
    using batch_loop_ready [OF ready many inv0] by (auto simp: fresh_batch_def)
  have ok: "\<forall>seg \<in> set (egress_contents ?c). seg_ok (b_msg_pool b) (b_recv_pool b) seg" using ready by (simp add: seg_ready_def)
  have inv: "batch_inv (b_msg_pool b) (b_recv_pool b) ?c f"
    using batch_loop_inv [OF ok inv0 _ _ loop] by (simp add: fresh_batch_def)
  let ?b2 = "client_update b s (\<lambda>_. resume_iov (fb_client f))"
  have b2: "sq_wf (b_ring ?b2)" "s < length (b_clients ?b2)" "\<not> sq_full (b_ring ?b2)" "client_at ?b2 s = resume_iov (fb_client f)"
    using wf(3,4) room by (simp_all add: client_update_def client_at_def)
  obtain b' where sub: "egress_submit ?b2 s f = (EGRESS_FLUSH_SUBMITTED, b')" using egress_submit_room [OF b2(3)] by blast
  have run: "egress_flush b s = (EGRESS_FLUSH_SUBMITTED, b')"
    using active pos clean loop n sub by (simp add: egress_flush_def Let_def fresh_batch_def EGRESS_BATCH_MAX_def)
  note S = egress_submittedD [OF sub b2(1,2)]
  have I: "egress_ring_wf (fb_client f)" "list_all2 same_but_pid (egress_contents ?c) (egress_contents (fb_client f))"
      "fb_iov_cnt f = iov_total (batch_segs f) mod 256" "c_egress_count (fb_client f) = c_egress_count ?c"
    using inv by (simp_all add: batch_inv_def Let_def client_core_def)
  have I_core: "client_core (fb_client f) = client_core ?c" using inv by (simp add: batch_inv_def Let_def)
  have kinds: "seg_kind g = SEG_PUBLISH \<and> seg_qos g = 0" if g: "g \<in> set (egress_contents (fb_client f))" for g
  proof -
    obtain i where i: "i < length (egress_contents (fb_client f))" "g = egress_contents (fb_client f) ! i" using g unfolding in_set_conv_nth by blast
    then have i': "i < length (egress_contents ?c)" using list_all2_lengthD [OF I(2)] by simp
    have "same_but_pid (egress_contents ?c ! i) g" using list_all2_nthD [OF I(2) i'] i(2) by simp
    moreover have "seg_ready (b_msg_pool b) (b_recv_pool b) (c_generation ?c) (egress_contents ?c ! i)" using ready nth_mem [OF i'] by blast
    ultimately show ?thesis using same_but_pid_fields by (simp add: seg_ready_def)
  qed
  have len: "length (batch_segs f) = 64" using I(4) many n by (simp add: batch_segs_def)
  have "\<forall>g \<in> set (batch_segs f). seg_kind g = SEG_PUBLISH" using kinds by (auto simp: batch_segs_def dest: in_set_takeD)
  then have zero: "fb_iov_cnt f = 0" using iov_total_publish [of "batch_segs f"] len I(3) by simp
  have c': "client_at b' s = (resume_iov (fb_client f))\<lparr>c_egress_inflight := True, c_egress_batch_count := 64\<rparr>"
    using S(1) b2(4) n by simp
  have cont: "egress_contents (client_at b' s) = egress_contents (fb_client f)" "egress_ring_wf (client_at b' s)"
  proof -
    have "egress_contents (client_at b' s) = egress_contents (resume_iov (fb_client f))" by (simp add: c' egress_contents_def)
    then show "egress_contents (client_at b' s) = egress_contents (fb_client f)" by (simp add: resume_iov_fields)
    have "egress_ring_wf (client_at b' s) = egress_ring_wf (resume_iov (fb_client f))" by (simp add: c' egress_ring_wf_def)
    then show "egress_ring_wf (client_at b' s)" using I(1) by (simp add: resume_iov_fields)
  qed
  have cnt: "c_egress_count (client_at b' s) = c_egress_count ?c"
    using arg_cong [OF cont(1), of length] I(4) by simp
  have fields: "c_fd (resume_iov (fb_client f)) = c_fd ?c" "c_generation (resume_iov (fb_client f)) = c_generation ?c"
      "c_state (resume_iov (fb_client f)) = c_state ?c"
    using I_core resume_iov_fields(1) [of "fb_client f"] by (simp_all add: client_core_def)
  have len': "s < length (b_clients b')" using S(6) b2(2) by simp
  have max': "s < b_max_clients b'" using sub range(1) by (auto simp: egress_submit_def client_update_def split: prod.splits option.splits)
  have b': "0 \<le> c_fd (client_at b' s)" "c_fd (client_at b' s) < 2 ^ 24" "c_state (client_at b' s) = CLIENT_ACTIVE"
      "c_egress_batch_count (client_at b' s) = 64"
    using range(3,4) active(1) fields by (simp_all add: c')
  let ?sqe = "egress_sqe (resume_iov (fb_client f)) s 0 zero_sqe"
  have handled: "\<exists>b''. handle_egress_cqe b' cqe = Some (if 64 < c_egress_count ?c then egress_kick b'' s else b'')
      \<and> c_egress_count (client_at b'' s) = c_egress_count ?c - 64
      \<and> egress_contents (client_at b'' s) = drop 64 (egress_contents (client_at b' s))"
    if cqe: "cqe_user_data cqe = sqe_user_data ?sqe" "cqe_res cqe = 0" for cqe
  proof -
    have "cqe_user_data cqe = make_user_data OP_EGRESS (of_int (c_fd (client_at b' s))) (MAKE_EGRESS_CTX (of_nat s) (c_generation (client_at b' s)))"
      using cqe(1) by (simp add: c' egress_sqe_def)
    from empty_writev_discards [OF cont(2) len' max' range(2) b'(1,2,3) _ _ _ this cqe(2)] show ?thesis
      using many kinds by (simp add: b'(4) cnt cont(1))
  qed
  have "sq_contents (b_ring b') = sq_contents (b_ring b) @ [?sqe]" using S(3) b2(4) zero by (simp add: client_update_def)
  moreover have "sqe_opcode ?sqe = IORING_OP_WRITEV" "sqe_len ?sqe = 0" by (simp_all add: egress_sqe_def ring_prep_writev_def)
  moreover have "c_egress_batch_count (client_at b' s) = 64" by (simp add: c')
  ultimately show ?thesis using run cnt handled by blast
qed

definition full_seg :: egress_segment where
  "full_seg = zero_segment\<lparr>seg_ctrl := [5, 0, 0, 0, 0, 0, 0, 0]\<rparr>"

definition full_client :: client_slot where
  "full_client = (initial_client 1 4 64 0)\<lparr>c_state := CLIENT_ACTIVE, c_fd := 7,
     c_egress := replicate 64 full_seg, c_egress_count := 64\<rparr>"

definition full_broker :: "broker \<Rightarrow> broker" where
  "full_broker b = b\<lparr>b_clients := [full_client], b_max_clients := 1, b_ring := fresh_ring 4 0 0,
     b_msg_pool := (b_msg_pool b)\<lparr>mp_msgs := [zero_msg\<lparr>cm_topic_len := 1, cm_ref_count := 64\<rparr>], mp_capacity := 1\<rparr>,
     b_recv_pool := (b_recv_pool b)\<lparr>bp_bufs := [[97]], bp_capacity := 1\<rparr>\<rparr>"

theorem egress_iov_wrap_witness:
  "\<exists>b b' sqe b''. c_egress_count (client_at b 0) = 64 \<and> egress_flush b 0 = (EGRESS_FLUSH_SUBMITTED, b')
     \<and> sq_contents (b_ring b') = [sqe] \<and> sqe_len sqe = 0
     \<and> handle_egress_cqe b' \<lparr>cqe_user_data = sqe_user_data sqe, cqe_res = 0, cqe_flags = 0\<rparr> = Some b''
     \<and> c_egress_count (client_at b'' 0) = 0"
proof -
  fix b0 :: broker
  let ?b = "full_broker b0"
  have at: "client_at ?b 0 = full_client" "0 < length (b_clients ?b)" by (simp_all add: full_broker_def client_at_def)
  have "(64 :: nat) = 2 ^ 6" by simp
  then have "\<exists>k. (64 :: nat) = 2 ^ k" by (rule exI)
  then have wf: "egress_ring_wf full_client" "scratch_wf full_client"
    by (simp_all add: egress_ring_wf_def full_client_def initial_client_def zero_client_def pow2_table_def scratch_wf_def EGRESS_BATCH_MAX_def)
  have ring: "sq_wf (b_ring ?b)" "sq_contents (b_ring ?b) = []" "\<not> sq_full (b_ring ?b)"
    using fresh_ring_wf [of 4 0 0] by (simp_all add: full_broker_def sq_full_def ring_get_sqe_def fresh_ring_def Let_def)
  have c: "c_egress_count full_client = 64" "c_state full_client = CLIENT_ACTIVE" "\<not> c_egress_inflight full_client" "c_generation full_client = 0" "c_fd full_client = 7"
    by (simp_all add: full_client_def initial_client_def zero_client_def)
  have "set (egress_contents full_client) \<subseteq> {full_seg}"
    by (auto simp: egress_contents_def ring_contents_def full_client_def initial_client_def zero_client_def)
  moreover have "seg_ready (b_msg_pool ?b) (b_recv_pool ?b) 0 full_seg"
    by (simp add: seg_ready_def full_seg_def zero_segment_def seg_ok_def seg_msg_def full_broker_def zero_msg_def egress_seg_load_wire_len_def)
  ultimately have ready: "\<forall>seg \<in> set (egress_contents full_client). seg_ready (b_msg_pool ?b) (b_recv_pool ?b) (c_generation full_client) seg"
    using c(4) by auto
  have "b_max_clients ?b = 1" by (simp add: full_broker_def)
  with egress_iov_wrap [of ?b 0, unfolded at, OF wf ring(1) _ ring(3) c(2,3) _ _ _ _ _ ready] at(2) c(1,5) ring(2)
  obtain b' sqe where "egress_flush ?b 0 = (EGRESS_FLUSH_SUBMITTED, b')" "sq_contents (b_ring b') = [sqe]" "sqe_len sqe = 0"
      and cqe: "\<forall>cqe. cqe_user_data cqe = sqe_user_data sqe \<and> cqe_res cqe = 0 \<longrightarrow>
        (\<exists>b''. handle_egress_cqe b' cqe = Some b'' \<and> c_egress_count (client_at b'' 0) = 0 \<and> egress_contents (client_at b'' 0) = [])"
    by auto
  moreover obtain b'' where "handle_egress_cqe b' \<lparr>cqe_user_data = sqe_user_data sqe, cqe_res = 0, cqe_flags = 0\<rparr> = Some b''"
      "c_egress_count (client_at b'' 0) = 0"
    using cqe [THEN spec, of "\<lparr>cqe_user_data = sqe_user_data sqe, cqe_res = 0, cqe_flags = 0\<rparr>"] by auto
  moreover have "c_egress_count (client_at ?b 0) = 64" by (simp add: at c)
  ultimately show ?thesis by blast
qed

end
