(* ===== verification/Submit.thy ===== *)
theory Submit
  imports Msg_Path
begin

text \<open>
  The submit operations of \<^verbatim>\<open>src/src/broker/loop.h\<close>.  The kernel is a parameter: what
  \<^verbatim>\<open>io_uring_enter\<close> returns and does to the rings, what it has written into the receive buffers by
  then, what a direct \<^verbatim>\<open>write\<close> returns, and the clock.
\<close>

record kernel =
  k_enter :: enter_call
  k_memory :: "ring \<Rightarrow> bytes list \<Rightarrow> bytes list"
  k_write :: "sys_call list \<Rightarrow> int \<Rightarrow> bytes \<Rightarrow> int"
  k_clock :: "nat \<Rightarrow> u64"

text \<open>A call of \<open>ring_submit\<close> or \<open>ring_submit_and_wait\<close> on the ring of the broker.\<close>

definition broker_enter :: "kernel \<Rightarrow> broker \<Rightarrow> (enter_call \<Rightarrow> ring \<Rightarrow> int \<times> ring) \<Rightarrow> int \<times> broker" where
  "broker_enter k b call =
     (let (rc, r) = call (k_enter k) (b_ring b)
      in (rc, b\<lparr>b_ring := r, b_recv_pool := (b_recv_pool b)\<lparr>bp_bufs := k_memory k r (bp_bufs (b_recv_pool b))\<rparr>\<rparr>))"

section \<open>Entries\<close>

definition get_sqe_with_flush :: "kernel \<Rightarrow> broker \<Rightarrow> nat option \<times> broker" where
  "get_sqe_with_flush k b =
     (case ring_get_sqe (b_ring b) of
        (Some i, r) \<Rightarrow> (Some i, b\<lparr>b_ring := r\<rparr>)
      | (None, r) \<Rightarrow>
          let b = b\<lparr>b_ring := ring_flush_sqes r\<rparr>;
              b = snd (broker_enter k b (\<lambda>enter r. ring_submit enter r 0));
              (sqe, r) = ring_get_sqe (b_ring b)
          in (sqe, b\<lparr>b_ring := r\<rparr>))"

text \<open>Filling the entry \<open>get_sqe_with_flush\<close> returned.\<close>

definition put_sqe :: "broker \<Rightarrow> nat \<Rightarrow> (io_uring_sqe \<Rightarrow> io_uring_sqe) \<Rightarrow> u64 \<Rightarrow> broker" where
  "put_sqe b i prep ud = b\<lparr>b_ring := sqe_update (b_ring b) i (\<lambda>sqe. (prep sqe)\<lparr>sqe_user_data := ud\<rparr>)\<rparr>"

definition sys_shutdown :: "broker \<Rightarrow> int \<Rightarrow> broker" where
  "sys_shutdown b fd = b\<lparr>b_calls := b_calls b @ [Shutdown fd]\<rparr>"

definition sys_close :: "broker \<Rightarrow> int \<Rightarrow> broker" where
  "sys_close b fd = b\<lparr>b_calls := b_calls b @ [Close fd]\<rparr>"

definition sys_write :: "kernel \<Rightarrow> broker \<Rightarrow> int \<Rightarrow> bytes \<Rightarrow> int \<times> broker" where
  "sys_write k b fd buf = (k_write k (b_calls b) fd buf, b\<lparr>b_calls := b_calls b @ [Write fd buf]\<rparr>)"

definition sys_setsockopt_nodelay :: "broker \<Rightarrow> int \<Rightarrow> broker" where
  "sys_setsockopt_nodelay b fd = b\<lparr>b_calls := b_calls b @ [Setsockopt_nodelay fd]\<rparr>"

section \<open>Accept and receive\<close>

definition submit_accept :: "kernel \<Rightarrow> broker \<Rightarrow> bool \<times> broker" where
  "submit_accept k b =
     (case get_sqe_with_flush k b of
        (None, b) \<Rightarrow> (False, b)
      | (Some i, b) \<Rightarrow>
          let b = put_sqe b i (\<lambda>sqe. ring_prep_accept sqe (b_listen_fd b) ANull ANull 0) (make_user_data OP_ACCEPT 0 0)
          in (True, b\<lparr>b_accept_pending := b_accept_pending b + 1\<rparr>))"

definition MAKE_RECV_CTX :: "u32 \<Rightarrow> u8 \<Rightarrow> u32" where
  "MAKE_RECV_CTX slot gen = push_bit 24 (ucast gen) OR (slot AND 0xFFFFFF)"

definition RECV_CTX_SLOT :: "u32 \<Rightarrow> u32" where
  "RECV_CTX_SLOT ctx = ctx AND 0xFFFFFF"

definition RECV_CTX_GEN :: "u32 \<Rightarrow> u8" where
  "RECV_CTX_GEN ctx = ucast (drop_bit 24 ctx)"

text \<open>\<open>memmove(buf, buf + start, len)\<close>.\<close>

definition move_down :: "bytes \<Rightarrow> nat \<Rightarrow> nat \<Rightarrow> bytes" where
  "move_down buf start len = take len (drop start buf) @ drop len buf"

definition recv_buf_update :: "broker \<Rightarrow> nat \<Rightarrow> (bytes \<Rightarrow> bytes) \<Rightarrow> broker" where
  "recv_buf_update b idx f = b\<lparr>b_recv_pool := (b_recv_pool b)\<lparr>bp_bufs := (bp_bufs (b_recv_pool b))
     [idx := f (bp_bufs (b_recv_pool b) ! idx)]\<rparr>\<rparr>"

definition maybe_compact_recv_buf :: "broker \<Rightarrow> nat \<Rightarrow> bool \<times> broker" where
  "maybe_compact_recv_buf b s =
     (let c = client_at b s
      in if c_recv_len c = 0 then (False, client_update b s (\<lambda>c. c\<lparr>c_recv_start := 0\<rparr>))
         else let buf_size = bp_buf_size (b_recv_pool b);
                  space = buf_size - c_recv_start c - c_recv_len c
              in if c_recv_start c > buf_size div 2 \<or> space < buf_size div 4
                 then (case client_recv_buf c (b_recv_pool b) of
                         None \<Rightarrow> (False, b)
                       | Some _ \<Rightarrow>
                           let b = recv_buf_update b (c_recv_buf_idx c)
                                     (\<lambda>buf. move_down buf (c_recv_start c) (c_recv_len c))
                           in (True, client_update b s (\<lambda>c. c\<lparr>c_recv_start := 0\<rparr>)))
                 else (False, b))"

definition submit_recv_internal :: "kernel \<Rightarrow> broker \<Rightarrow> nat \<Rightarrow> bool \<times> broker" where
  "submit_recv_internal k b s =
     (case get_sqe_with_flush k b of
        (None, b) \<Rightarrow> (False, b)
      | (Some i, b) \<Rightarrow>
          (case client_recv_buf (client_at b s) (b_recv_pool b) of
             None \<Rightarrow> (True, b)
           | Some _ \<Rightarrow>
               let b = snd (maybe_compact_recv_buf b s);
                   c = client_at b s;
                   off = c_recv_start c + c_recv_len c;
                   space = bp_buf_size (b_recv_pool b) - c_recv_start c - c_recv_len c
               in if space = 0
                  then let b = sys_shutdown b (c_fd c);
                           b = put_sqe b i (\<lambda>sqe. ring_prep_close sqe (c_fd c))
                                 (make_user_data OP_CLOSE (of_int (c_fd c)) 0)
                       in (True, client_update b s (\<lambda>c. c\<lparr>c_state := CLIENT_CLOSING\<rparr>))
                  else let b = put_sqe b i
                                 (\<lambda>sqe. ring_prep_recv sqe (c_fd c) (ARecvBuf (c_recv_buf_idx c) off) (of_nat space) 0)
                                 (make_user_data OP_RECV (of_int (c_fd c))
                                    (MAKE_RECV_CTX (of_nat s) (c_generation c)))
                       in (True, client_update b s (\<lambda>c. c\<lparr>c_recv_pending := True\<rparr>))))"

definition submit_recv :: "kernel \<Rightarrow> broker \<Rightarrow> nat \<Rightarrow> broker" where
  "submit_recv k b s =
     (case submit_recv_internal k b s of (True, b) \<Rightarrow> b | (False, b) \<Rightarrow> recv_retry_enqueue b s)"

definition submit_send :: "kernel \<Rightarrow> broker \<Rightarrow> int \<Rightarrow> bytes \<Rightarrow> broker" where
  "submit_send k b fd buf =
     (case get_sqe_with_flush k b of
        (None, b) \<Rightarrow> b
      | (Some i, b) \<Rightarrow> put_sqe b i (\<lambda>sqe. ring_prep_send sqe fd (ABytes buf) (of_nat (length buf)) 0)
                        (make_user_data OP_SEND (of_int fd) 0))"

section \<open>Responses\<close>

definition RESP_BUF_SIZE :: nat where
  "RESP_BUF_SIZE = 16"

definition MAKE_RESP_CTX :: "u32 \<Rightarrow> u32 \<Rightarrow> u8 \<Rightarrow> u32" where
  "MAKE_RESP_CTX slot_idx resp_slot gen =
     push_bit 24 (ucast gen) OR push_bit 8 (slot_idx AND 0xFFFF) OR (resp_slot AND 0xFF)"

definition RESP_CTX_SLOT :: "u32 \<Rightarrow> u32" where
  "RESP_CTX_SLOT ctx = drop_bit 8 ctx AND 0xFFFF"

definition RESP_CTX_RESP_SLOT :: "u32 \<Rightarrow> u32" where
  "RESP_CTX_RESP_SLOT ctx = ctx AND 0xFF"

definition RESP_CTX_GEN :: "u32 \<Rightarrow> u8" where
  "RESP_CTX_GEN ctx = ucast (drop_bit 24 ctx)"

definition submit_send_resp_slot :: "kernel \<Rightarrow> broker \<Rightarrow> nat \<Rightarrow> nat \<Rightarrow> nat \<Rightarrow> bool \<times> broker" where
  "submit_send_resp_slot k b s resp_slot len =
     (case get_sqe_with_flush k b of
        (None, b) \<Rightarrow> (False, b)
      | (Some i, b) \<Rightarrow>
          let c = client_at b s;
              b = put_sqe b i (\<lambda>sqe. ring_prep_send sqe (c_fd c) (ARespBuf s resp_slot) (of_nat len) 0)
                    (make_user_data OP_SEND_RESP (of_int (c_fd c))
                       (MAKE_RESP_CTX (of_nat s) (of_nat resp_slot) (c_generation c)))
          in (True, client_update b s (\<lambda>c. client_resp_slot_mark_inflight c resp_slot)))"

text \<open>Copying a response into the buffer of a response slot.\<close>

definition fill_resp :: "broker \<Rightarrow> nat \<Rightarrow> nat \<Rightarrow> bytes \<Rightarrow> broker" where
  "fill_resp b s resp_slot buf = client_update b s (\<lambda>c. c\<lparr>c_resp_buf := (c_resp_buf c)
     [resp_slot := buf @ drop (length buf) (c_resp_buf c ! resp_slot)]\<rparr>)"

definition send_static :: "kernel \<Rightarrow> broker \<Rightarrow> nat \<Rightarrow> bytes \<Rightarrow> bool \<times> broker" where
  "send_static k b s buf =
     (if c_state (client_at b s) \<noteq> CLIENT_ACTIVE then (False, b)
      else if length buf > RESP_BUF_SIZE then (False, b)
      else let (resp_slot, c) = client_get_resp_slot (client_at b s);
               b = client_update b s (\<lambda>_. c)
           in if resp_slot = RESP_SLOTS then (False, b\<lparr>b_drops_resp_full := b_drops_resp_full b + 1\<rparr>)
              else submit_send_resp_slot k (fill_resp b s resp_slot buf) s resp_slot (length buf))"

definition send_resp :: "kernel \<Rightarrow> broker \<Rightarrow> nat \<Rightarrow> bytes \<Rightarrow> u16 \<Rightarrow> bool \<times> broker" where
  "send_resp k b s hdr packet_id =
     (if c_state (client_at b s) \<noteq> CLIENT_ACTIVE then (False, b)
      else let (resp_slot, c) = client_get_resp_slot (client_at b s);
               b = client_update b s (\<lambda>_. c);
               pkt = [hdr ! 0, hdr ! 1, hi8 packet_id, lo8 packet_id]
           in if resp_slot = RESP_SLOTS
              then let (rc, b) = sys_write k b (c_fd c) pkt
                   in (rc = 4, b\<lparr>b_drops_resp_full := b_drops_resp_full b + 1\<rparr>)
              else submit_send_resp_slot k (fill_resp b s resp_slot pkt) s resp_slot 4)"

definition send_buf :: "kernel \<Rightarrow> broker \<Rightarrow> nat \<Rightarrow> bytes \<Rightarrow> bool \<times> broker" where
  "send_buf k b s buf =
     (if c_state (client_at b s) \<noteq> CLIENT_ACTIVE then (False, b)
      else if length buf > RESP_BUF_SIZE then (False, b)
      else let (resp_slot, c) = client_get_resp_slot (client_at b s);
               b = client_update b s (\<lambda>_. c)
           in if resp_slot = RESP_SLOTS
              then let (rc, b) = sys_write k b (c_fd c) buf
                   in (rc = int (length buf), b\<lparr>b_drops_resp_full := b_drops_resp_full b + 1\<rparr>)
              else submit_send_resp_slot k (fill_resp b s resp_slot buf) s resp_slot (length buf))"

section \<open>Close\<close>

definition submit_close :: "kernel \<Rightarrow> broker \<Rightarrow> int \<Rightarrow> broker" where
  "submit_close k b fd =
     (let b = (case broker_get_client_by_fd b fd of
                 Some s \<Rightarrow> if c_state (client_at b s) = CLIENT_ACTIVE
                           then client_update b s (\<lambda>c. c\<lparr>c_state := CLIENT_CLOSING\<rparr>) else b
               | None \<Rightarrow> b);
          b = sys_shutdown b fd
      in case get_sqe_with_flush k b of
           (None, b) \<Rightarrow> b
         | (Some i, b) \<Rightarrow> put_sqe b i (\<lambda>sqe. ring_prep_close sqe fd) (make_user_data OP_CLOSE (of_int fd) 0))"

end
