(* ===== verification/Fsm.thy ===== *)
theory Fsm
  imports Egress_Flush Submit
begin

text \<open>
  The QoS ceremonies of \<^verbatim>\<open>src/src/broker/mqtt_fsm.h\<close> and the response senders of
  \<^verbatim>\<open>src/src/broker/handler.h\<close>.  \<open>None\<close> is an operation that does not return.
\<close>

section \<open>Response senders\<close>

definition HDR_PUBACK :: bytes where "HDR_PUBACK = [0x40, 0x02]"
definition HDR_PUBREC :: bytes where "HDR_PUBREC = [0x50, 0x02]"
definition HDR_PUBREL :: bytes where "HDR_PUBREL = [0x62, 0x02]"
definition HDR_PUBCOMP :: bytes where "HDR_PUBCOMP = [0x70, 0x02]"
definition HDR_UNSUBACK :: bytes where "HDR_UNSUBACK = [0xB0, 0x02]"
definition HDR_PINGRESP :: bytes where "HDR_PINGRESP = [0xD0, 0x00]"

definition send_puback :: "kernel \<Rightarrow> broker \<Rightarrow> nat \<Rightarrow> u16 \<Rightarrow> broker" where
  "send_puback k b s packet_id = snd (send_resp k b s HDR_PUBACK packet_id)"

definition send_pubrec :: "kernel \<Rightarrow> broker \<Rightarrow> nat \<Rightarrow> u16 \<Rightarrow> broker" where
  "send_pubrec k b s packet_id = snd (send_resp k b s HDR_PUBREC packet_id)"

definition send_pubrel :: "kernel \<Rightarrow> broker \<Rightarrow> nat \<Rightarrow> u16 \<Rightarrow> broker" where
  "send_pubrel k b s packet_id = snd (send_resp k b s HDR_PUBREL packet_id)"

definition send_pubcomp :: "kernel \<Rightarrow> broker \<Rightarrow> nat \<Rightarrow> u16 \<Rightarrow> broker" where
  "send_pubcomp k b s packet_id = snd (send_resp k b s HDR_PUBCOMP packet_id)"

definition send_unsuback :: "kernel \<Rightarrow> broker \<Rightarrow> nat \<Rightarrow> u16 \<Rightarrow> broker" where
  "send_unsuback k b s packet_id = snd (send_resp k b s HDR_UNSUBACK packet_id)"

section \<open>Publisher ceremony\<close>

definition LLMQ_MAX_RETRIES :: u8 where
  "LLMQ_MAX_RETRIES = 3"

definition fsm_pub_received :: "kernel \<Rightarrow> broker \<Rightarrow> nat \<Rightarrow> u8 \<Rightarrow> u16 \<Rightarrow> bool \<times> broker" where
  "fsm_pub_received k b pub qos packet_id =
     (if qos = 0 then (True, b)
      else if qos = 1 then (True, send_puback k b pub packet_id)
      else if qos = 2
      then let existing = client_inflight_find (client_at b pub) packet_id
           in if (case existing of None \<Rightarrow> False
                  | Some i \<Rightarrow> ih_direction (c_inflight_hot (client_at b pub) ! i) = 1)
              then (False, send_pubrec k b pub packet_id)
              else case client_inflight_track_incoming (client_at b pub) packet_id (b_now b + LLMQ_INFLIGHT_TIMEOUT_MS) of
                     (None, c) \<Rightarrow> (False, client_update b pub (\<lambda>_. c))
                   | (Some inf_idx, c) \<Rightarrow> (True, send_pubrec k (client_update b pub (\<lambda>_. c)) pub packet_id)
      else (False, b))"

definition fsm_pub_pubrel_received :: "kernel \<Rightarrow> broker \<Rightarrow> nat \<Rightarrow> u16 \<Rightarrow> broker option" where
  "fsm_pub_pubrel_received k b pub packet_id = do {
     let c = client_at b pub;
     c \<leftarrow> (case client_inflight_find c packet_id of
            None \<Rightarrow> Some c
          | Some i \<Rightarrow>
              if ih_state (c_inflight_hot c ! i) = INFLIGHT_WAIT_PUBREL \<and> ih_direction (c_inflight_hot c ! i) = 1
              then client_inflight_free_slot c i else Some c);
     Some (send_pubcomp k (client_update b pub (\<lambda>_. c)) pub packet_id)
   }"

section \<open>Subscriber ceremony\<close>

text \<open>The stores of a delivery into the cell \<open>egress_push\<close> returned.\<close>

definition publish_segment :: "nat \<Rightarrow> canonical_msg option \<Rightarrow> u16 \<Rightarrow> u8 \<Rightarrow> u8 \<Rightarrow> u8 \<Rightarrow> egress_segment \<Rightarrow> egress_segment" where
  "publish_segment msg_idx msg packet_id qos dup gen seg =
     (let seg = seg\<lparr>seg_msg_idx := msg_idx, seg_packet_id := packet_id, seg_kind := SEG_PUBLISH, seg_qos := qos,
             seg_dup := dup, seg_retain := (case msg of None \<Rightarrow> 0 | Some m \<Rightarrow> cm_retain m), seg_slot_gen := gen,
             seg_ctrl_len := 0, seg_cursor := 0\<rparr>
      in case msg of None \<Rightarrow> seg | Some m \<Rightarrow> egress_seg_store_wire_len seg (egress_publish_wire_len m qos))"

text \<open>The QoS 0 branch and the other one store the same fields, with \<open>qos = sub_qos\<close>.\<close>

definition fsm_sub_start_delivery :: "broker \<Rightarrow> nat \<Rightarrow> u8 \<Rightarrow> nat \<Rightarrow> bool \<times> broker" where
  "fsm_sub_start_delivery b msg_idx sub_qos s =
     (let b = msg_ref b msg_idx;
          msg = msg_pool_get (b_msg_pool b) msg_idx;
          c = client_at b s
      in if egress_full (c_egress_count c) (c_egress_capacity c)
         then let b = release_msg_ref b msg_idx in (False, b\<lparr>b_drops_egress_full := b_drops_egress_full b + 1\<rparr>)
         else let b = client_update b s (\<lambda>c. egress_append c (publish_segment msg_idx msg 0 sub_qos 0 (c_generation c)))
              in (True, egress_kick b s))"

definition fsm_sub_puback_received :: "broker \<Rightarrow> nat \<Rightarrow> u16 \<Rightarrow> broker option" where
  "fsm_sub_puback_received b s packet_id =
     (case client_inflight_find_direct (client_at b s) packet_id of
        None \<Rightarrow> Some b
      | Some i \<Rightarrow>
          if ih_state (c_inflight_hot (client_at b s) ! i) \<noteq> INFLIGHT_WAIT_PUBACK then Some b
          else do {
            let b = release_msg_ref b (ih_msg_idx (c_inflight_hot (client_at b s) ! i));
            c \<leftarrow> client_inflight_free_slot (client_at b s) i;
            let b = client_update b s (\<lambda>_. c);
            Some (if c_egress_count c > 0 \<and> \<not> c_egress_inflight c then egress_kick b s else b)
          })"

definition pubrel_segment :: "u16 \<Rightarrow> u8 \<Rightarrow> egress_segment \<Rightarrow> egress_segment" where
  "pubrel_segment packet_id gen seg =
     seg\<lparr>seg_kind := SEG_CTRL, seg_msg_idx := MSG_POOL_INVALID, seg_packet_id := 0, seg_qos := 0,
         seg_slot_gen := gen, seg_ctrl_len := 4,
         seg_ctrl := (seg_ctrl seg)[0 := 0x62, 1 := 0x02, 2 := hi8 packet_id, 3 := lo8 packet_id],
         seg_cursor := 0\<rparr>"

definition enqueue_pubrel :: "kernel \<Rightarrow> broker \<Rightarrow> nat \<Rightarrow> u16 \<Rightarrow> broker" where
  "enqueue_pubrel k b s packet_id =
     (let c = client_at b s
      in if \<not> egress_full (c_egress_count c) (c_egress_capacity c)
         then client_update b s (\<lambda>c. egress_append c (pubrel_segment packet_id (c_generation c)))
         else send_pubrel k b s packet_id)"

definition fsm_sub_pubrec_received :: "kernel \<Rightarrow> broker \<Rightarrow> nat \<Rightarrow> u16 \<Rightarrow> broker option" where
  "fsm_sub_pubrec_received k b s packet_id =
     (let slot = client_inflight_find_direct (client_at b s) packet_id
      in if (case slot of None \<Rightarrow> True
             | Some i \<Rightarrow> ih_state (c_inflight_hot (client_at b s) ! i) \<noteq> INFLIGHT_WAIT_PUBREC)
         then let b = enqueue_pubrel k b s packet_id
              in Some (if \<not> c_egress_inflight (client_at b s) then egress_kick b s else b)
         else do {
           let i = the slot;
           let b = release_msg_ref b (ih_msg_idx (c_inflight_hot (client_at b s) ! i));
           c \<leftarrow> client_inflight_free_slot (client_at b s) i;
           let b = enqueue_pubrel k (client_update b s (\<lambda>_. c)) s packet_id;
           Some (if c_egress_count (client_at b s) > 0 \<and> \<not> c_egress_inflight (client_at b s)
                 then egress_kick b s else b)
         })"

definition fsm_sub_pubcomp_received :: "broker \<Rightarrow> nat \<Rightarrow> u16 \<Rightarrow> broker" where
  "fsm_sub_pubcomp_received b s packet_id = b"

section \<open>Timeouts\<close>

definition hot_at :: "broker \<Rightarrow> nat \<Rightarrow> nat \<Rightarrow> inflight_hot" where
  "hot_at b s i = c_inflight_hot (client_at b s) ! i"

definition cold_at :: "broker \<Rightarrow> nat \<Rightarrow> nat \<Rightarrow> inflight_cold" where
  "cold_at b s i = c_inflight_cold (client_at b s) ! i"

text \<open>Giving up on an in-flight entry.\<close>

definition fsm_give_up :: "broker \<Rightarrow> nat \<Rightarrow> nat \<Rightarrow> broker option" where
  "fsm_give_up b s i = do {
     let b = release_msg_ref b (ih_msg_idx (hot_at b s i));
     c \<leftarrow> client_inflight_free_slot (client_at b s) i;
     let b = client_update b s (\<lambda>_. c);
     Some (b\<lparr>b_msgs_dropped := b_msgs_dropped b + 1\<rparr>)
   }"

definition fsm_sub_timeout :: "broker \<Rightarrow> nat \<Rightarrow> nat \<Rightarrow> broker option" where
  "fsm_sub_timeout b s i =
     (if ic_dup_count (cold_at b s i) \<ge> LLMQ_MAX_RETRIES then fsm_give_up b s i
      else let b = client_update b s (\<lambda>c. c\<lparr>c_inflight_cold := (c_inflight_cold c)[i :=
                     (c_inflight_cold c ! i)\<lparr>ic_dup_count := ic_dup_count (c_inflight_cold c ! i) + 1,
                                             ic_deadline := b_now b + LLMQ_INFLIGHT_TIMEOUT_MS\<rparr>]\<rparr>);
               c = client_at b s
           in if egress_full (c_egress_count c) (c_egress_capacity c) then fsm_give_up b s i
              else let hot = hot_at b s i;
                       msg = msg_pool_get (b_msg_pool b) (ih_msg_idx hot);
                       b = client_update b s (\<lambda>c. egress_append c
                             (publish_segment (ih_msg_idx hot) msg (ih_packet_id hot) (ic_qos (cold_at b s i)) 1
                                (c_generation c)))
                   in Some (egress_kick b s))"

section \<open>Disconnect\<close>

text \<open>The loop that drains the egress queue; \<open>n\<close> is the count at its start.\<close>

fun drain_egress :: "nat \<Rightarrow> broker \<Rightarrow> nat \<Rightarrow> broker" where
  "drain_egress 0 b s = b"
| "drain_egress (Suc n) b s =
     (if c_egress_count (client_at b s) > 0
      then let seg = egress_head (client_at b s);
               b = (if seg_kind seg = SEG_PUBLISH \<and> seg_msg_idx seg \<noteq> MSG_POOL_INVALID \<and> seg_packet_id seg = 0
                    then release_msg_ref b (seg_msg_idx seg) else b)
           in drain_egress n (client_update b s egress_pop_head) s
      else b)"

text \<open>The loop over the in-flight slots from \<open>max_inflight - n\<close> on.\<close>

fun release_inflight :: "nat \<Rightarrow> nat \<Rightarrow> broker \<Rightarrow> nat \<Rightarrow> broker" where
  "release_inflight 0 found b s = b"
| "release_inflight (Suc n) found b s =
     (let c = client_at b s;
          hot = c_inflight_hot c ! (c_max_inflight c - Suc n)
      in if found < c_inflight_count c
         then if ih_state hot = INFLIGHT_FREE then release_inflight n found b s
              else release_inflight n (found + 1)
                     (if ih_direction hot = 0 \<and> ih_msg_idx hot \<noteq> MSG_POOL_INVALID
                      then release_msg_ref b (ih_msg_idx hot) else b) s
         else b)"

definition fsm_client_disconnect :: "broker \<Rightarrow> nat \<Rightarrow> broker" where
  "fsm_client_disconnect b s =
     (let b = drain_egress (c_egress_count (client_at b s)) b s
      in if c_inflight_count (client_at b s) = 0 then b
         else release_inflight (c_max_inflight (client_at b s)) 0 b s)"

section \<open>Sweep\<close>

text \<open>The loop over the slots of one client from \<open>max_inflight - n\<close> on.\<close>

fun sweep_slots :: "nat \<Rightarrow> nat \<Rightarrow> nat \<Rightarrow> broker \<Rightarrow> nat \<Rightarrow> (nat \<times> broker) option" where
  "sweep_slots 0 found processed b s = Some (processed, b)"
| "sweep_slots (Suc n) found processed b s =
     (let c = client_at b s;
          i = c_max_inflight c - Suc n
      in if found < c_inflight_count c
         then if ih_state (hot_at b s i) = INFLIGHT_FREE then sweep_slots n found processed b s
              else if ic_deadline (cold_at b s i) \<noteq> 0 \<and> b_now b > ic_deadline (cold_at b s i)
                      \<and> ih_direction (hot_at b s i) = 0
              then (case fsm_sub_timeout b s i of
                      None \<Rightarrow> None
                    | Some b \<Rightarrow> sweep_slots n (found + 1) (processed + 1) b s)
              else sweep_slots n (found + 1) processed b s
         else Some (processed, b))"

definition fsm_sweep_client :: "broker \<Rightarrow> nat \<Rightarrow> (nat \<times> broker) option" where
  "fsm_sweep_client b s =
     (if c_state (client_at b s) \<noteq> CLIENT_ACTIVE \<or> c_inflight_count (client_at b s) = 0 then Some (0, b)
      else sweep_slots (c_max_inflight (client_at b s)) 0 0 b s)"

fun sweep_clients :: "nat list \<Rightarrow> nat \<Rightarrow> broker \<Rightarrow> (nat \<times> broker) option" where
  "sweep_clients [] processed b = Some (processed, b)"
| "sweep_clients (i # is) processed b =
     (if c_state (client_at b i) = CLIENT_ACTIVE \<and> c_inflight_count (client_at b i) > 0
      then (case fsm_sweep_client b i of
              None \<Rightarrow> None
            | Some (n, b) \<Rightarrow> sweep_clients is (processed + n) b)
      else sweep_clients is processed b)"

definition fsm_sweep_all_timeouts :: "broker \<Rightarrow> (nat \<times> broker) option" where
  "fsm_sweep_all_timeouts b = sweep_clients [0..<b_max_clients b] 0 b"

end
