(* ===== verification/Subs.thy ===== *)
theory Subs
  imports Slots
begin

text \<open>Subscriptions of the broker and the stand-alone filter matcher, \<^verbatim>\<open>src/src/broker/subs.h\<close>.\<close>

definition sub_add :: "broker \<Rightarrow> nat \<Rightarrow> u8 \<Rightarrow> bytes \<Rightarrow> nat \<Rightarrow> u8 \<Rightarrow> bool \<times> broker" where
  "sub_add b slot_idx gen topic topic_len qos =
     (if topic_len = 0 then (False, b)
      else let (ok, t) = trie_subscribe (b_trie b) topic topic_len slot_idx gen in (ok, b\<lparr>b_trie := t\<rparr>))"

definition sub_remove :: "broker \<Rightarrow> nat \<Rightarrow> bytes \<Rightarrow> nat \<Rightarrow> broker" where
  "sub_remove b slot_idx topic topic_len =
     b\<lparr>b_trie := snd (trie_unsubscribe (b_trie b) topic topic_len slot_idx)\<rparr>"

definition sub_remove_all :: "broker \<Rightarrow> nat \<Rightarrow> broker" where
  "sub_remove_all b slot_idx = b\<lparr>b_trie := trie_remove_fd (b_trie b) slot_idx\<rparr>"

text \<open>\<open>while (ti < topic_len && topic[ti] != '/') ti++\<close> is \<open>seg_end\<close>; \<open>filter_len\<close> is a u8.\<close>

function topic_matches_from :: "bytes \<Rightarrow> nat \<Rightarrow> bytes \<Rightarrow> nat \<Rightarrow> nat \<Rightarrow> nat \<Rightarrow> bool" where
  "topic_matches_from filt filter_len topic topic_len fi ti =
     (if fi < filter_len \<and> ti < topic_len
      then if filt ! fi = SEG_HASH then True
           else if filt ! fi = SEG_PLUS
           then let ti = seg_end topic topic_len ti;
                    fi = fi + 1
                in if fi < filter_len \<and> filt ! fi = SLASH
                   then if ti < topic_len \<and> topic ! ti = SLASH
                        then topic_matches_from filt filter_len topic topic_len (fi + 1) (ti + 1)
                        else False
                   else topic_matches_from filt filter_len topic topic_len fi ti
           else if filt ! fi \<noteq> topic ! ti then False
           else topic_matches_from filt filter_len topic topic_len (fi + 1) (ti + 1)
      else if fi < filter_len \<and> filt ! fi = SEG_HASH then True
      else fi = filter_len \<and> ti = topic_len)"
  by pat_completeness auto
termination
  by (relation "measure (\<lambda>(filt, filter_len, topic, topic_len, fi, ti). filter_len - fi)") auto

declare topic_matches_from.simps [simp del]

definition topic_matches :: "bytes \<Rightarrow> nat \<Rightarrow> bytes \<Rightarrow> nat \<Rightarrow> bool" where
  "topic_matches filt filter_len topic topic_len = topic_matches_from filt filter_len topic topic_len 0 0"

end
