(* ===== verification/Connect.thy ===== *)
theory Connect
  imports Packet
begin

text \<open>
  CONNECT parsing and CONNACK encoding, \<^verbatim>\<open>src/src/mqtt/connect.h\<close>.
\<close>

section \<open>Flags and return codes\<close>

abbreviation (input) "MQTT_CONNECT_FLAG_CLEAN_SESSION \<equiv> 0x02 :: u8"
abbreviation (input) "MQTT_CONNECT_FLAG_WILL \<equiv> 0x04 :: u8"
abbreviation (input) "MQTT_CONNECT_FLAG_WILL_QOS_MASK \<equiv> 0x18 :: u8"
abbreviation (input) "MQTT_CONNECT_FLAG_WILL_RETAIN \<equiv> 0x20 :: u8"
abbreviation (input) "MQTT_CONNECT_FLAG_PASSWORD \<equiv> 0x40 :: u8"
abbreviation (input) "MQTT_CONNECT_FLAG_USERNAME \<equiv> 0x80 :: u8"

abbreviation (input) "MQTT_CONNACK_ACCEPTED \<equiv> 0 :: u8"
abbreviation (input) "MQTT_CONNACK_PROTO_VERSION \<equiv> 1 :: u8"
abbreviation (input) "MQTT_CONNACK_ID_REJECTED \<equiv> 2 :: u8"
abbreviation (input) "MQTT_CONNACK_SERVER_UNAVAIL \<equiv> 3 :: u8"

section \<open>The packet\<close>

record mqtt_connect =
  con_protocol_version :: u8
  con_clean_session :: bool
  con_has_will :: bool
  con_will_qos :: u8
  con_will_retain :: bool
  con_has_username :: bool
  con_has_password :: bool
  con_keepalive :: u16
  con_client_id :: mqtt_str
  con_will_topic :: mqtt_str
  con_will_payload :: mqtt_str
  con_username :: mqtt_str
  con_password :: mqtt_str

text \<open>The variable header: the flags, checked and unpacked.\<close>

record connect_flags =
  cf_clean_session :: bool
  cf_has_will :: bool
  cf_will_qos :: u8
  cf_will_retain :: bool
  cf_has_username :: bool
  cf_has_password :: bool

definition parse_connect_flags :: "u8 \<Rightarrow> parse_error + connect_flags" where
  "parse_connect_flags flags =
     (if flags AND 0x01 \<noteq> 0 then Inl MQTT_ERR_MALFORMED
      else let has_will = (flags AND MQTT_CONNECT_FLAG_WILL \<noteq> 0);
               will_qos = drop_bit 3 (flags AND MQTT_CONNECT_FLAG_WILL_QOS_MASK);
               will_retain = (flags AND MQTT_CONNECT_FLAG_WILL_RETAIN \<noteq> 0);
               has_username = (flags AND MQTT_CONNECT_FLAG_USERNAME \<noteq> 0);
               has_password = (flags AND MQTT_CONNECT_FLAG_PASSWORD \<noteq> 0)
           in if will_qos > 2 then Inl MQTT_ERR_MALFORMED
              else if \<not> has_will \<and> (will_qos \<noteq> 0 \<or> will_retain) then Inl MQTT_ERR_MALFORMED
              else if has_password \<and> \<not> has_username then Inl MQTT_ERR_MALFORMED
              else Inr \<lparr>cf_clean_session = (flags AND MQTT_CONNECT_FLAG_CLEAN_SESSION \<noteq> 0),
                        cf_has_will = has_will, cf_will_qos = will_qos, cf_will_retain = will_retain,
                        cf_has_username = has_username, cf_has_password = has_password\<rparr>)"

text \<open>\<open>if (present) rc = parse(...); pos += rc; else str = NULL\<close>: the string and the new position.\<close>

definition parse_opt_string :: "bool \<Rightarrow> bytes \<Rightarrow> nat \<Rightarrow> nat \<Rightarrow> nat \<Rightarrow> parse_error + (mqtt_str \<times> nat)" where
  "parse_opt_string present buf p len pos =
     (if present then ebind (mqtt_parse_string buf (p + pos) (len - pos)) (\<lambda>(s, rc). Inr (s, pos + rc))
      else Inr (str_null, pos))"

definition parse_connect_payload ::
    "bytes \<Rightarrow> nat \<Rightarrow> nat \<Rightarrow> nat \<Rightarrow> u8 \<Rightarrow> connect_flags \<Rightarrow> u16 \<Rightarrow> parse_error + mqtt_connect" where
  "parse_connect_payload buf p len pos version fl keepalive =
     ebind (parse_opt_string True buf p len pos) (\<lambda>(client_id, pos).
     ebind (parse_opt_string (cf_has_will fl) buf p len pos) (\<lambda>(will_topic, pos).
     ebind (parse_opt_string (cf_has_will fl) buf p len pos) (\<lambda>(will_payload, pos).
     ebind (parse_opt_string (cf_has_username fl) buf p len pos) (\<lambda>(username, pos).
     ebind (parse_opt_string (cf_has_password fl) buf p len pos) (\<lambda>(password, pos).
       Inr \<lparr>con_protocol_version = version, con_clean_session = cf_clean_session fl,
            con_has_will = cf_has_will fl, con_will_qos = cf_will_qos fl,
            con_will_retain = cf_will_retain fl, con_has_username = cf_has_username fl,
            con_has_password = cf_has_password fl, con_keepalive = keepalive,
            con_client_id = client_id, con_will_topic = will_topic, con_will_payload = will_payload,
            con_username = username, con_password = password\<rparr>)))))"

definition mqtt_parse_connect :: "bytes \<Rightarrow> nat \<Rightarrow> nat \<Rightarrow> parse_error + mqtt_connect" where
  "mqtt_parse_connect buf p len =
     (if len < 2 then Inl MQTT_INCOMPLETE
      else ebind (mqtt_read_u16 buf p) (\<lambda>proto_len.
        if proto_len \<noteq> 4 then Inl MQTT_ERR_PROTOCOL
        else if len < 6 then Inl MQTT_INCOMPLETE
        else ebind (rd buf (p + 2)) (\<lambda>b2. ebind (rd buf (p + 3)) (\<lambda>b3.
             ebind (rd buf (p + 4)) (\<lambda>b4. ebind (rd buf (p + 5)) (\<lambda>b5.
        if b2 \<noteq> 0x4D \<or> b3 \<noteq> 0x51 \<or> b4 \<noteq> 0x54 \<or> b5 \<noteq> 0x54 then Inl MQTT_ERR_PROTOCOL
        else if len < 7 then Inl MQTT_INCOMPLETE
        else ebind (rd buf (p + 6)) (\<lambda>version.
        if version \<noteq> 4 then Inl MQTT_ERR_PROTOCOL
        else if len < 8 then Inl MQTT_INCOMPLETE
        else ebind (rd buf (p + 7)) (\<lambda>flags.
             ebind (parse_connect_flags flags) (\<lambda>fl.
        if len < 10 then Inl MQTT_INCOMPLETE
        else ebind (mqtt_read_u16 buf (p + 8)) (\<lambda>keepalive.
             parse_connect_payload buf p len 10 version fl keepalive))))))))))"

section \<open>CONNACK\<close>

definition mqtt_encode_connack :: "bool \<Rightarrow> u8 \<Rightarrow> bytes" where
  "mqtt_encode_connack session_present reason_code =
     [push_bit 4 MQTT_CONNACK, 2, if session_present then 1 else 0, reason_code]"

section \<open>Memory safety and what an accepted packet satisfies\<close>

lemma parse_opt_string_Inr:
  "parse_opt_string b buf p len pos = Inr (s, pos') \<Longrightarrow> pos \<le> len \<Longrightarrow>
     pos \<le> pos' \<and> pos' \<le> len \<and> str_within p (p + len) s \<and> (str_ptr s = None \<longleftrightarrow> \<not> b)"
  by (auto simp: parse_opt_string_def ebind_Inr_iff str_null_def str_within_def dest!: mqtt_parse_string_Inr
           split: if_splits)

lemma parse_opt_string_Inl:
  "parse_opt_string b buf p len pos = Inl e \<Longrightarrow> pos \<le> len \<Longrightarrow> p + len \<le> length buf \<Longrightarrow> e = MQTT_INCOMPLETE"
  by (auto simp: parse_opt_string_def ebind_Inl_iff dest: mqtt_parse_string_Inl [rotated] split: if_splits)

lemma parse_connect_flags_Inr:
  "parse_connect_flags flags = Inr fl \<Longrightarrow> cf_will_qos fl \<le> 2 \<and> (cf_has_password fl \<longrightarrow> cf_has_username fl)
     \<and> (\<not> cf_has_will fl \<longrightarrow> cf_will_qos fl = 0 \<and> \<not> cf_will_retain fl)"
  by (auto simp: parse_connect_flags_def Let_def split: if_splits)

lemma parse_connect_flags_Inl: "parse_connect_flags flags = Inl e \<Longrightarrow> e = MQTT_ERR_MALFORMED"
  by (auto simp: parse_connect_flags_def Let_def split: if_splits)

definition connect_ok :: "nat \<Rightarrow> nat \<Rightarrow> mqtt_connect \<Rightarrow> bool" where
  "connect_ok lo hi c \<longleftrightarrow> con_protocol_version c = 4 \<and> con_will_qos c \<le> 2
     \<and> (con_has_password c \<longrightarrow> con_has_username c)
     \<and> (\<not> con_has_will c \<longrightarrow> con_will_qos c = 0 \<and> \<not> con_will_retain c)
     \<and> str_ptr (con_client_id c) \<noteq> None
     \<and> (str_ptr (con_will_topic c) \<noteq> None \<longleftrightarrow> con_has_will c)
     \<and> (str_ptr (con_will_payload c) \<noteq> None \<longleftrightarrow> con_has_will c)
     \<and> (str_ptr (con_username c) \<noteq> None \<longleftrightarrow> con_has_username c)
     \<and> (str_ptr (con_password c) \<noteq> None \<longleftrightarrow> con_has_password c)
     \<and> (\<forall>s \<in> {con_client_id c, con_will_topic c, con_will_payload c, con_username c, con_password c}.
          str_within lo hi s)"

lemma parse_connect_payload_Inr:
  assumes "parse_connect_payload buf p len pos 4 fl ka = Inr c" "parse_connect_flags flags = Inr fl" "pos \<le> len"
  shows "connect_ok p (p + len) c"
proof -
  from assms(1) obtain cid p1 wt p2 wp p3 un p4 pw p5 where
    s: "parse_opt_string True buf p len pos = Inr (cid, p1)"
       "parse_opt_string (cf_has_will fl) buf p len p1 = Inr (wt, p2)"
       "parse_opt_string (cf_has_will fl) buf p len p2 = Inr (wp, p3)"
       "parse_opt_string (cf_has_username fl) buf p len p3 = Inr (un, p4)"
       "parse_opt_string (cf_has_password fl) buf p len p4 = Inr (pw, p5)"
    and c: "c = \<lparr>con_protocol_version = 4, con_clean_session = cf_clean_session fl,
            con_has_will = cf_has_will fl, con_will_qos = cf_will_qos fl,
            con_will_retain = cf_will_retain fl, con_has_username = cf_has_username fl,
            con_has_password = cf_has_password fl, con_keepalive = ka,
            con_client_id = cid, con_will_topic = wt, con_will_payload = wp,
            con_username = un, con_password = pw\<rparr>"
    by (auto simp: parse_connect_payload_def ebind_Inr_iff)
  note f1 = parse_opt_string_Inr [OF s(1) assms(3)]
  note f2 = parse_opt_string_Inr [OF s(2)]
  note f3 = parse_opt_string_Inr [OF s(3)]
  note f4 = parse_opt_string_Inr [OF s(4)]
  note f5 = parse_opt_string_Inr [OF s(5)]
  from f1 f2 f3 f4 f5 parse_connect_flags_Inr [OF assms(2)] show ?thesis
    by (simp add: connect_ok_def c)
qed

lemma parse_connect_payload_Inl:
  assumes "parse_connect_payload buf p len pos version fl ka = Inl e" "pos \<le> len" "p + len \<le> length buf"
  shows "e = MQTT_INCOMPLETE"
proof -
  note inr = parse_opt_string_Inr [THEN conjunct2, THEN conjunct1]
  note inl = parse_opt_string_Inl [OF _ _ assms(3)]
  show ?thesis
    using assms(1,2)
    by (auto simp: parse_connect_payload_def ebind_Inl_iff dest: inl dest!: inr)
qed


text \<open>Parsing a CONNECT never reads outside the bytes it was given.  An accepted packet has protocol
  version 4, a will QoS of at most 2, no will settings without a will, no password without a user
  name, a string for exactly the fields the flags announce, and every string lies inside the packet.\<close>

theorem connect_parse_safe:
  assumes "p + len \<le> length buf"
  shows "mqtt_parse_connect buf p len \<noteq> Inl OUT_OF_BOUNDS
    \<and> (case mqtt_parse_connect buf p len of Inl e \<Rightarrow> True | Inr c \<Rightarrow> connect_ok p (p + len) c)"
  using assms
  by (auto simp: mqtt_parse_connect_def ebind_Inr_iff ebind_Inl_iff buf_simps
           dest: parse_connect_payload_Inl parse_connect_flags_Inl
           intro!: parse_connect_payload_Inr split: sum.split if_splits)

theorem connect_parse_safe_witness:
  "mqtt_parse_connect [0, 4, 0x4D, 0x51, 0x54] 0 5 \<noteq> Inl OUT_OF_BOUNDS
   \<and> mqtt_parse_connect [0, 4, 0x4D, 0x51, 0x54] 0 5 = Inl MQTT_INCOMPLETE"
proof -
  have "mqtt_parse_connect [0, 4, 0x4D, 0x51, 0x54] 0 5 = Inl MQTT_INCOMPLETE" by code_simp
  with connect_parse_safe [of 0 5 "[0, 4, 0x4D, 0x51, 0x54]"] show ?thesis by simp
qed

section \<open>Packets on the wire\<close>

definition connect_flags_ok :: "connect_flags \<Rightarrow> bool" where
  "connect_flags_ok fl \<longleftrightarrow> cf_will_qos fl \<le> 2 \<and> (cf_has_password fl \<longrightarrow> cf_has_username fl)
     \<and> (\<not> cf_has_will fl \<longrightarrow> cf_will_qos fl = 0 \<and> \<not> cf_will_retain fl)"

definition connect_flags_byte :: "connect_flags \<Rightarrow> u8" where
  "connect_flags_byte fl =
     (if cf_clean_session fl then 0x02 else 0) OR (if cf_has_will fl then 0x04 else 0)
     OR push_bit 3 (cf_will_qos fl) OR (if cf_will_retain fl then 0x20 else 0)
     OR (if cf_has_password fl then 0x40 else 0) OR (if cf_has_username fl then 0x80 else 0)"

definition opt_wire :: "bool \<Rightarrow> bytes \<Rightarrow> bytes" where
  "opt_wire b s = (if b then str_wire s else [])"

definition connect_wire :: "connect_flags \<Rightarrow> u16 \<Rightarrow> bytes \<Rightarrow> bytes \<Rightarrow> bytes \<Rightarrow> bytes \<Rightarrow> bytes \<Rightarrow> bytes" where
  "connect_wire fl keepalive cid wt wp un pw =
     [0, 4, 0x4D, 0x51, 0x54, 0x54, 4, connect_flags_byte fl, hi8 keepalive, lo8 keepalive]
     @ str_wire cid @ opt_wire (cf_has_will fl) wt @ opt_wire (cf_has_will fl) wp
     @ opt_wire (cf_has_username fl) un @ opt_wire (cf_has_password fl) pw"

lemma u8_le_2: "(q :: u8) \<le> 2 \<Longrightarrow> q = 0 \<or> q = 1 \<or> q = 2"
proof -
  assume "q \<le> 2"
  then have "unat q \<le> 2" by (simp add: word_le_nat_alt)
  then have "unat q = unat (0::u8) \<or> unat q = unat (1::u8) \<or> unat q = unat (2::u8)" by auto
  then show ?thesis by (simp only: word_unat_eq_iff)
qed

lemma parse_connect_flags_table:
  "list_all (\<lambda>cs. list_all (\<lambda>w. list_all (\<lambda>q. list_all (\<lambda>r. list_all (\<lambda>u. list_all (\<lambda>pw.
     let fl = \<lparr>cf_clean_session = cs, cf_has_will = w, cf_will_qos = q, cf_will_retain = r,
               cf_has_username = u, cf_has_password = pw\<rparr>
     in connect_flags_ok fl \<longrightarrow> parse_connect_flags (connect_flags_byte fl) = Inr fl)
     [True, False]) [True, False]) [True, False]) [0, 1, 2]) [True, False]) [True, False]"
  by code_simp

lemma parse_connect_flags_byte:
  assumes "connect_flags_ok fl"
  shows "parse_connect_flags (connect_flags_byte fl) = Inr fl"
proof -
  obtain cs w q r u pw where fl: "fl = \<lparr>cf_clean_session = cs, cf_has_will = w, cf_will_qos = q,
      cf_will_retain = r, cf_has_username = u, cf_has_password = pw\<rparr>"
    by (cases fl) auto
  have "q \<in> set [0, 1, 2]"
    using assms u8_le_2 [of q] by (simp add: connect_flags_ok_def fl)
  moreover have "x \<in> set [True, False]" for x by simp
  ultimately show ?thesis
    using parse_connect_flags_table assms unfolding fl Let_def list_all_iff by blast
qed

lemma parse_opt_string_wire:
  assumes "at_offset buf (p + pos) (opt_wire b s)" "length s < 65536" "pos + length (opt_wire b s) \<le> len"
  shows "parse_opt_string b buf p len pos
           = Inr (if b then \<lparr>str_ptr = Some (p + pos + 2), str_len = length s\<rparr> else str_null,
                  pos + length (opt_wire b s))"
  using assms mqtt_parse_string_wire [of buf "p + pos" s "len - pos"]
  by (auto simp: parse_opt_string_def opt_wire_def)

lemma str_bytes_opt:
  "at_offset buf q (opt_wire b s) \<Longrightarrow>
     str_bytes buf (if b then \<lparr>str_ptr = Some (q + 2), str_len = length s\<rparr> else str_null) = (if b then s else [])"
  by (cases b) (simp_all only: opt_wire_def if_True if_False str_bytes_wire,
    simp add: str_bytes_def str_null_def)

text \<open>C39: every CONNECT laid out as the MQTT 3.1.1 wire format says is accepted, and the parsed fields and
  strings are the ones that were sent.\<close>

theorem connect_parse_wire:
  assumes "connect_flags_ok fl"
    and "\<forall>s \<in> {cid, wt, wp, un, pw}. length s < 65536"
    and "at_offset buf p (connect_wire fl keepalive cid wt wp un pw)"
    and "length (connect_wire fl keepalive cid wt wp un pw) \<le> len"
  shows "\<exists>c. mqtt_parse_connect buf p len = Inr c
    \<and> con_protocol_version c = 4 \<and> con_clean_session c = cf_clean_session fl
    \<and> con_has_will c = cf_has_will fl \<and> con_will_qos c = cf_will_qos fl
    \<and> con_will_retain c = cf_will_retain fl \<and> con_has_username c = cf_has_username fl
    \<and> con_has_password c = cf_has_password fl \<and> con_keepalive c = keepalive
    \<and> str_bytes buf (con_client_id c) = cid
    \<and> str_bytes buf (con_will_topic c) = (if cf_has_will fl then wt else [])
    \<and> str_bytes buf (con_will_payload c) = (if cf_has_will fl then wp else [])
    \<and> str_bytes buf (con_username c) = (if cf_has_username fl then un else [])
    \<and> str_bytes buf (con_password c) = (if cf_has_password fl then pw else [])"
proof -
  let ?w = "cf_has_will fl" and ?u = "cf_has_username fl" and ?pw = "cf_has_password fl"
  define p1 where "p1 = 10 + length (opt_wire True cid)"
  define p2 where "p2 = p1 + length (opt_wire ?w wt)"
  define p3 where "p3 = p2 + length (opt_wire ?w wp)"
  define p4 where "p4 = p3 + length (opt_wire ?u un)"
  have lens: "length cid < 65536" "length wt < 65536" "length wp < 65536" "length un < 65536" "length pw < 65536"
    using assms(2) by auto
  have len: "p4 + length (opt_wire ?pw pw) \<le> len"
    using assms(4) by (simp add: connect_wire_def p1_def p2_def p3_def p4_def opt_wire_def)
  have le: "10 \<le> p1" "p1 \<le> p2" "p2 \<le> p3" "p3 \<le> p4"
    by (simp_all add: p1_def p2_def p3_def p4_def)
  have head: "at_offset buf p [0, 4, 0x4D, 0x51, 0x54, 0x54, 4, connect_flags_byte fl, hi8 keepalive, lo8 keepalive]"
      "at_offset buf (p + 10) (str_wire cid @ opt_wire ?w wt @ opt_wire ?w wp @ opt_wire ?u un @ opt_wire ?pw pw)"
    using assms(3) unfolding connect_wire_def at_offset_append [of buf p "_ # _"]
    by (simp_all add: eval_nat_numeral)
  have at: "at_offset buf (p + 10) (opt_wire True cid)" "at_offset buf (p + p1) (opt_wire ?w wt)"
      "at_offset buf (p + p2) (opt_wire ?w wp)" "at_offset buf (p + p3) (opt_wire ?u un)"
      "at_offset buf (p + p4) (opt_wire ?pw pw)"
    using head(2) by (simp_all add: p1_def p2_def p3_def p4_def opt_wire_def [of True] ac_simps)
  note w1 = parse_opt_string_wire [OF at(1) lens(1), folded p1_def, of len]
  note w2 = parse_opt_string_wire [OF at(2) lens(2), folded p2_def, of len]
  note w3 = parse_opt_string_wire [OF at(3) lens(3), folded p3_def, of len]
  note w4 = parse_opt_string_wire [OF at(4) lens(4), folded p4_def, of len]
  note w5 = parse_opt_string_wire [OF at(5) lens(5) len]
  have payload: "parse_connect_payload buf p len 10 4 fl keepalive = Inr
      \<lparr>con_protocol_version = 4, con_clean_session = cf_clean_session fl,
       con_has_will = cf_has_will fl, con_will_qos = cf_will_qos fl,
       con_will_retain = cf_will_retain fl, con_has_username = cf_has_username fl,
       con_has_password = cf_has_password fl, con_keepalive = keepalive,
       con_client_id = (if True then \<lparr>str_ptr = Some (p + 10 + 2), str_len = length cid\<rparr> else str_null),
       con_will_topic = (if ?w then \<lparr>str_ptr = Some (p + p1 + 2), str_len = length wt\<rparr> else str_null),
       con_will_payload = (if ?w then \<lparr>str_ptr = Some (p + p2 + 2), str_len = length wp\<rparr> else str_null),
       con_username = (if ?u then \<lparr>str_ptr = Some (p + p3 + 2), str_len = length un\<rparr> else str_null),
       con_password = (if ?pw then \<lparr>str_ptr = Some (p + p4 + 2), str_len = length pw\<rparr> else str_null)\<rparr>"
    using w1 w2 w3 w4 w5 len le unfolding parse_connect_payload_def by simp
  have b: "buf ! p = 0" "buf ! (p + 1) = 4" "buf ! (p + 2) = 0x4D" "buf ! (p + 3) = 0x51"
      "buf ! (p + 4) = 0x54" "buf ! (p + 5) = 0x54" "buf ! (p + 6) = 4"
      "buf ! (p + 7) = connect_flags_byte fl" "buf ! (p + 8) = hi8 keepalive"
      "buf ! (p + 8 + 1) = lo8 keepalive" "p + 9 < length buf"
    using head(1) by (simp_all add: eval_nat_numeral)
  have "be16 0 4 = 4" by (simp add: be16_def)
  then have "mqtt_parse_connect buf p len = parse_connect_payload buf p len 10 4 fl keepalive"
    using b len le parse_connect_flags_byte [OF assms(1)]
    unfolding mqtt_parse_connect_def by (simp add: rd_in mqtt_read_u16_in del: add_Suc_right)
  then show ?thesis
    using at [THEN str_bytes_opt] unfolding payload by simp
qed


theorem connect_parse_wire_witness:
  "\<exists>c. mqtt_parse_connect [0, 4, 0x4D, 0x51, 0x54, 0x54, 4, 2, 0, 60, 0, 1, 97] 0 13 = Inr c
     \<and> con_clean_session c \<and> con_keepalive c = 60
     \<and> str_bytes [0, 4, 0x4D, 0x51, 0x54, 0x54, 4, 2, 0, 60, 0, 1, 97] (con_client_id c) = [97]"
proof -
  let ?fl = "\<lparr>cf_clean_session = True, cf_has_will = False, cf_will_qos = 0, cf_will_retain = False,
               cf_has_username = False, cf_has_password = False\<rparr>"
  let ?buf = "[0, 4, 0x4D, 0x51, 0x54, 0x54, 4, 2, 0, 60, 0, 1, 97] :: bytes"
  have "connect_flags_ok ?fl" by (simp add: connect_flags_ok_def)
  moreover have "at_offset ?buf 0 (connect_wire ?fl 60 [97] [] [] [] [])
      \<and> length (connect_wire ?fl 60 [97] [] [] [] []) = 13" by code_simp
  ultimately show ?thesis
    using connect_parse_wire [of ?fl "[97]" "[]" "[]" "[]" "[]" ?buf 0 60 13] by auto
qed

end
