(* ===== verification/Subscribe.thy ===== *)
theory Subscribe
  imports Packet
begin

text \<open>
  SUBSCRIBE and UNSUBSCRIBE parsing and their acknowledgements, \<^verbatim>\<open>src/src/mqtt/subscribe.h\<close>.
  \<open>filter_count\<close> of the source is the length of the list of filters parsed so far.
\<close>

definition MQTT_MAX_FILTERS :: nat where
  "MQTT_MAX_FILTERS = 8"

definition MQTT_SUBACK_MAX :: nat where
  "MQTT_SUBACK_MAX = 16"

record topic_filter =
  flt_topic :: mqtt_str
  flt_qos :: u8

record mqtt_subscribe =
  sub_packet_id :: u16
  sub_filters :: "topic_filter list"

record mqtt_unsubscribe =
  unsub_packet_id :: u16
  unsub_filters :: "mqtt_str list"

section \<open>Parsing\<close>

function subscribe_loop ::
    "bytes \<Rightarrow> nat \<Rightarrow> nat \<Rightarrow> nat \<Rightarrow> topic_filter list \<Rightarrow> parse_error + topic_filter list" where
  "subscribe_loop buf p len pos filters =
     (if pos < len \<and> length filters < MQTT_MAX_FILTERS
      then case mqtt_parse_string buf (p + pos) (len - pos) of
             Inl e \<Rightarrow> Inl e
           | Inr (topic, rc) \<Rightarrow>
               let pos = pos + rc
               in if pos \<ge> len then Inl MQTT_ERR_MALFORMED
                  else case rd buf (p + pos) of
                         Inl e \<Rightarrow> Inl e
                       | Inr qos \<Rightarrow>
                           if qos > 2 then Inl MQTT_ERR_MALFORMED
                           else subscribe_loop buf p len (pos + 1)
                                  (filters @ [\<lparr>flt_topic = topic, flt_qos = qos\<rparr>])
      else Inr filters)"
  by pat_completeness auto
termination
  by (relation "measure (\<lambda>(buf, p, len, pos, filters). MQTT_MAX_FILTERS - length filters)") auto

declare subscribe_loop.simps [simp del]

definition mqtt_parse_subscribe :: "bytes \<Rightarrow> nat \<Rightarrow> nat \<Rightarrow> parse_error + mqtt_subscribe" where
  "mqtt_parse_subscribe buf p len =
     (if len < 2 then Inl MQTT_INCOMPLETE
      else ebind (mqtt_read_u16 buf p) (\<lambda>pid.
           ebind (subscribe_loop buf p len 2 []) (\<lambda>filters.
             if length filters = 0 then Inl MQTT_ERR_MALFORMED
             else Inr \<lparr>sub_packet_id = pid, sub_filters = filters\<rparr>)))"

function unsubscribe_loop ::
    "bytes \<Rightarrow> nat \<Rightarrow> nat \<Rightarrow> nat \<Rightarrow> mqtt_str list \<Rightarrow> parse_error + mqtt_str list" where
  "unsubscribe_loop buf p len pos filters =
     (if pos < len \<and> length filters < MQTT_MAX_FILTERS
      then case mqtt_parse_string buf (p + pos) (len - pos) of
             Inl e \<Rightarrow> Inl e
           | Inr (topic, rc) \<Rightarrow> unsubscribe_loop buf p len (pos + rc) (filters @ [topic])
      else Inr filters)"
  by pat_completeness auto
termination
  by (relation "measure (\<lambda>(buf, p, len, pos, filters). MQTT_MAX_FILTERS - length filters)") auto

declare unsubscribe_loop.simps [simp del]

definition mqtt_parse_unsubscribe :: "bytes \<Rightarrow> nat \<Rightarrow> nat \<Rightarrow> parse_error + mqtt_unsubscribe" where
  "mqtt_parse_unsubscribe buf p len =
     (if len < 2 then Inl MQTT_INCOMPLETE
      else ebind (mqtt_read_u16 buf p) (\<lambda>pid.
           ebind (unsubscribe_loop buf p len 2 []) (\<lambda>filters.
             if length filters = 0 then Inl MQTT_ERR_MALFORMED
             else Inr \<lparr>unsub_packet_id = pid, unsub_filters = filters\<rparr>)))"

section \<open>Encoding\<close>

text \<open>\<open>count\<close> is a u16, and so is \<open>2 + count\<close> small enough for the u32 \<open>remaining\<close>.\<close>

definition mqtt_encode_suback :: "u16 \<Rightarrow> bytes \<Rightarrow> nat \<Rightarrow> bytes" where
  "mqtt_encode_suback packet_id return_codes count =
     [push_bit 4 MQTT_SUBACK] @ mqtt_encode_remaining_len (2 + of_nat count)
     @ [hi8 packet_id, lo8 packet_id] @ take count return_codes"

definition mqtt_encode_unsuback :: "u16 \<Rightarrow> bytes" where
  "mqtt_encode_unsuback packet_id = [push_bit 4 MQTT_UNSUBACK, 2, hi8 packet_id, lo8 packet_id]"

section \<open>Memory safety and bounds\<close>

lemma subscribe_loop_safe:
  assumes "p + len \<le> length buf" "length filters \<le> 8"
    and "\<forall>f \<in> set filters. str_within p (p + len) (flt_topic f) \<and> flt_qos f \<le> 2"
  shows "subscribe_loop buf p len pos filters \<noteq> Inl OUT_OF_BOUNDS \<and>
    (\<forall>fs. subscribe_loop buf p len pos filters = Inr fs \<longrightarrow> length fs \<le> 8 \<and> length filters \<le> length fs
       \<and> (\<forall>f \<in> set fs. str_within p (p + len) (flt_topic f) \<and> flt_qos f \<le> 2))"
  using assms
proof (induction buf p len pos filters rule: subscribe_loop.induct)
  case (1 buf p len pos filters)
  show ?case
  proof (cases "pos < len \<and> length filters < MQTT_MAX_FILTERS")
    case False
    then have "subscribe_loop buf p len pos filters = Inr filters"
      by (simp only: subscribe_loop.simps [of buf p len pos filters] if_not_P if_False)
    with 1 show ?thesis by simp
  next
    case cont: True
    show ?thesis
    proof (cases "mqtt_parse_string buf (p + pos) (len - pos)")
      case (Inl e)
      then have "e = MQTT_INCOMPLETE" using 1 cont by (intro mqtt_parse_string_Inl) auto
      with Inl cont show ?thesis by (simp add: subscribe_loop.simps [of buf p len pos])
    next
      case (Inr r)
      obtain t n where r: "r = (t, n)" by fastforce
      show ?thesis
      proof (cases "pos + n < len \<and> \<not> buf ! (p + (pos + n)) > 2")
        case False
        with Inr r cont 1 show ?thesis
          by (auto simp: subscribe_loop.simps [of buf p len pos] rd_in Let_def)
      next
        case True
        then have rd: "rd buf (p + (pos + n)) = Inr (buf ! (p + (pos + n)))" using 1 by (simp add: rd_in)
        have "str_within p (p + len) t"
          using mqtt_parse_string_within [OF Inr [unfolded r]] cont by (elim str_within_mono) auto
        with 1(1) [OF cont Inr r [symmetric] refl _ rd] 1(2-) True cont
        show ?thesis
          by (auto simp: subscribe_loop.simps [of buf p len pos] Inr r rd Let_def MQTT_MAX_FILTERS_def not_less
              dest: Suc_leD)
      qed
    qed
  qed
qed

lemma unsubscribe_loop_safe:
  assumes "p + len \<le> length buf" "length filters \<le> 8" "\<forall>f \<in> set filters. str_within p (p + len) f"
  shows "unsubscribe_loop buf p len pos filters \<noteq> Inl OUT_OF_BOUNDS \<and>
    (\<forall>fs. unsubscribe_loop buf p len pos filters = Inr fs \<longrightarrow> length fs \<le> 8 \<and> length filters \<le> length fs
       \<and> (\<forall>f \<in> set fs. str_within p (p + len) f))"
  using assms
proof (induction buf p len pos filters rule: unsubscribe_loop.induct)
  case (1 buf p len pos filters)
  show ?case
  proof (cases "pos < len \<and> length filters < MQTT_MAX_FILTERS")
    case False
    then have "unsubscribe_loop buf p len pos filters = Inr filters"
      by (simp only: unsubscribe_loop.simps [of buf p len pos filters] if_not_P if_False)
    with 1 show ?thesis by simp
  next
    case cont: True
    show ?thesis
    proof (cases "mqtt_parse_string buf (p + pos) (len - pos)")
      case (Inl e)
      then have "e = MQTT_INCOMPLETE" using 1 cont by (intro mqtt_parse_string_Inl) auto
      with Inl cont show ?thesis by (simp add: unsubscribe_loop.simps [of buf p len pos])
    next
      case (Inr r)
      obtain t n where r: "r = (t, n)" by fastforce
      have "str_within p (p + len) t"
        using mqtt_parse_string_within [OF Inr [unfolded r]] cont by (elim str_within_mono) auto
      with 1(1) [OF cont Inr r [symmetric]] 1(2-) cont show ?thesis
        by (auto simp: unsubscribe_loop.simps [of buf p len pos] Inr r MQTT_MAX_FILTERS_def dest: Suc_leD)
    qed
  qed
qed

text \<open>Parsing SUBSCRIBE and UNSUBSCRIBE never reads outside the bytes given, and an accepted packet has
  between one and eight filters, each inside the packet and with a requested QoS of at most 2.  The
  SUBACK for any accepted SUBSCRIBE fits the 16-byte buffer the handler has for it.\<close>

theorem subscribe_parse_safe:
  assumes "p + len \<le> length buf"
  shows "mqtt_parse_subscribe buf p len \<noteq> Inl OUT_OF_BOUNDS
    \<and> mqtt_parse_unsubscribe buf p len \<noteq> Inl OUT_OF_BOUNDS
    \<and> (case mqtt_parse_subscribe buf p len of Inl e \<Rightarrow> True
       | Inr sub \<Rightarrow> 1 \<le> length (sub_filters sub) \<and> length (sub_filters sub) \<le> MQTT_MAX_FILTERS
           \<and> (\<forall>f \<in> set (sub_filters sub). str_within p (p + len) (flt_topic f) \<and> flt_qos f \<le> 2)
           \<and> length (mqtt_encode_suback (sub_packet_id sub) codes (length (sub_filters sub))) \<le> MQTT_SUBACK_MAX)
    \<and> (case mqtt_parse_unsubscribe buf p len of Inl e \<Rightarrow> True
       | Inr unsub \<Rightarrow> 1 \<le> length (unsub_filters unsub) \<and> length (unsub_filters unsub) \<le> MQTT_MAX_FILTERS
           \<and> (\<forall>f \<in> set (unsub_filters unsub). str_within p (p + len) f))"
proof -
  have suback: "length (mqtt_encode_suback pid codes n) \<le> MQTT_SUBACK_MAX" if "n \<le> 8" for pid n
  proof -
    have "unat (2 + of_nat n :: u32) < 2 ^ (7 * 1)"
      using that unat_of_nat_mod [where n = "2 + n" and 'a = 32] by simp
    then have "length (mqtt_encode_remaining_len (2 + of_nat n)) \<le> 1"
      by (rule length_encode_remaining_len) simp
    with that show ?thesis by (simp add: mqtt_encode_suback_def MQTT_SUBACK_MAX_def)
  qed
  note s = subscribe_loop_safe [OF assms, of "[]" 2, simplified]
    and u = unsubscribe_loop_safe [OF assms, of "[]" 2, simplified]
  have pos: "Suc 0 \<le> length fs \<longleftrightarrow> fs \<noteq> []" for fs :: "'a list" by (cases fs) auto
  show ?thesis
    using assms s u suback
    by (auto simp: mqtt_parse_subscribe_def mqtt_parse_unsubscribe_def ebind_Inr_iff ebind_Inl_iff buf_simps
             MQTT_MAX_FILTERS_def pos split: sum.split if_splits)
qed

theorem subscribe_parse_safe_witness:
  "mqtt_parse_subscribe [0, 5, 0, 1, 97, 1] 0 6 \<noteq> Inl OUT_OF_BOUNDS
   \<and> mqtt_parse_subscribe [0, 5, 0, 1, 97, 1] 0 6 = Inr \<lparr>sub_packet_id = 5,
       sub_filters = [\<lparr>flt_topic = \<lparr>str_ptr = Some 4, str_len = 1\<rparr>, flt_qos = 1\<rparr>]\<rparr>"
proof -
  have "mqtt_parse_subscribe [0, 5, 0, 1, 97, 1] 0 6 = Inr \<lparr>sub_packet_id = 5,
       sub_filters = [\<lparr>flt_topic = \<lparr>str_ptr = Some 4, str_len = 1\<rparr>, flt_qos = 1\<rparr>]\<rparr>" by code_simp
  with subscribe_parse_safe [of 0 6 "[0, 5, 0, 1, 97, 1]"] show ?thesis by simp
qed


section \<open>Packets on the wire\<close>

definition filters_wire :: "(bytes \<times> u8) list \<Rightarrow> bytes" where
  "filters_wire fs = concat (map (\<lambda>(t, q). str_wire t @ [q]) fs)"

definition filter_at :: "bytes \<Rightarrow> topic_filter \<Rightarrow> bytes \<times> u8" where
  "filter_at buf f = (str_bytes buf (flt_topic f), flt_qos f)"

lemma subscribe_loop_wire:
  assumes "at_offset buf (p + pos) (filters_wire fs)" "len = pos + length (filters_wire fs)"
    and "\<forall>(t, q) \<in> set fs. length t < 65536 \<and> q \<le> 2" "length acc \<le> 8"
  shows "\<exists>gs. subscribe_loop buf p len pos acc = Inr (acc @ gs)
           \<and> map (filter_at buf) gs = take (8 - length acc) fs"
  using assms
proof (induction fs arbitrary: pos acc)
  case Nil
  then show ?case by (simp add: subscribe_loop.simps [of buf p pos pos] filters_wire_def)
next
  case (Cons f fs)
  obtain t q where f: "f = (t, q)" by fastforce
  have w: "filters_wire (f # fs) = str_wire t @ q # filters_wire fs"
    by (simp add: filters_wire_def f)
  have at: "at_offset buf (p + pos) (str_wire t)" "buf ! (p + (pos + (2 + length t))) = q"
      "p + (pos + (2 + length t)) < length buf" "at_offset buf (p + (pos + (2 + length t) + 1)) (filters_wire fs)"
    using Cons.prems(1) unfolding w by (simp_all add: ac_simps)
  show ?case
  proof (cases "length acc < 8")
    case False
    then have "subscribe_loop buf p len pos acc = Inr acc"
      by (simp add: subscribe_loop.simps [of buf p len pos acc] MQTT_MAX_FILTERS_def)
    with False show ?thesis by simp
  next
    case True
    let ?g = "\<lparr>flt_topic = \<lparr>str_ptr = Some (p + pos + 2), str_len = length t\<rparr>, flt_qos = q\<rparr>"
    have tq: "length t < 65536" "\<not> q > 2" using Cons.prems(3) f by auto
    have len: "len = pos + (2 + length t) + 1 + length (filters_wire fs)"
      using Cons.prems(2) unfolding w by simp
    then have lt: "pos < len" "pos + (2 + length t) < len" by simp_all
    have str: "mqtt_parse_string buf (p + pos) (len - pos)
        = Inr (\<lparr>str_ptr = Some (p + pos + 2), str_len = length t\<rparr>, 2 + length t)"
      using len by (intro mqtt_parse_string_wire [OF at(1) tq(1)]) simp
    have "subscribe_loop buf p len pos acc = subscribe_loop buf p len (pos + (2 + length t) + 1) (acc @ [?g])"
      using str tq True lt at(2,3)
      by (simp add: subscribe_loop.simps [of buf p len pos acc] MQTT_MAX_FILTERS_def rd_in Let_def)
    moreover obtain gs where "subscribe_loop buf p len (pos + (2 + length t) + 1) (acc @ [?g]) = Inr ((acc @ [?g]) @ gs)"
        "map (filter_at buf) gs = take (8 - length (acc @ [?g])) fs"
      using Cons.IH [OF at(4) len, of "acc @ [?g]"] Cons.prems(3) True by auto
    moreover have "filter_at buf ?g = f"
      using str_bytes_wire [OF at(1)] by (simp add: filter_at_def f)
    ultimately show ?thesis
      using True by (intro exI [of _ "?g # gs"]) (simp add: take_Cons' Suc_diff_Suc)
  qed
qed

text \<open>C40: a SUBSCRIBE laid out as the wire format says, with a non-empty list of filters, is accepted with
  its packet identifier, and the filters parsed are the first eight sent: a ninth filter is dropped
  without an error.\<close>

theorem subscribe_parse_wire:
  assumes "at_offset buf p ([hi8 pid, lo8 pid] @ filters_wire fs)" "fs \<noteq> []"
    and "\<forall>(t, q) \<in> set fs. length t < 65536 \<and> q \<le> 2"
    and "len = 2 + length (filters_wire fs)"
  shows "\<exists>sub. mqtt_parse_subscribe buf p len = Inr sub \<and> sub_packet_id sub = pid
           \<and> map (filter_at buf) (sub_filters sub) = take MQTT_MAX_FILTERS fs"
proof -
  have "at_offset buf (p + 2) (filters_wire fs)" "mqtt_read_u16 buf p = Inr pid"
    using assms(1) by (simp_all add: mqtt_read_u16_in)
  with subscribe_loop_wire [of buf p 2 fs len "[]"] assms(2-) obtain gs where
    "subscribe_loop buf p len 2 [] = Inr gs" "map (filter_at buf) gs = take 8 fs"
    "mqtt_read_u16 buf p = Inr pid" by auto
  moreover from this(2) assms(2) have "length gs \<noteq> 0" by (auto dest: arg_cong [of _ _ length])
  ultimately show ?thesis
    using assms(4) by (simp add: mqtt_parse_subscribe_def MQTT_MAX_FILTERS_def)
qed

theorem subscribe_parse_wire_witness:
  "\<exists>sub. mqtt_parse_subscribe [0, 5, 0, 1, 97, 1, 0, 1, 98, 2] 0 10 = Inr sub \<and> sub_packet_id sub = 5
     \<and> map (filter_at [0, 5, 0, 1, 97, 1, 0, 1, 98, 2]) (sub_filters sub) = [([97], 1), ([98], 2)]"
proof -
  have "at_offset [0, 5, 0, 1, 97, 1, 0, 1, 98, 2] 0 ([hi8 5, lo8 5] @ filters_wire [([97], 1), ([98], 2)])
      \<and> length (filters_wire [([97], 1), ([98], 2)]) = 8" by code_simp
  then show ?thesis
    using subscribe_parse_wire [of "[0, 5, 0, 1, 97, 1, 0, 1, 98, 2]" 0 5 "[([97], 1), ([98], 2)]" 10]
    by (simp add: MQTT_MAX_FILTERS_def)
qed

end
