(* ===== verification/Handler.thy ===== *)
theory Handler
  imports Fsm Subs Connect Publish Subscribe
begin

text \<open>
  Packet processing, \<^verbatim>\<open>src/src/broker/handler.h\<close>: buffer stealing, the fan-out of a publication and
  the handler of every packet type.  A packet is an offset \<open>p\<close> into \<open>buf\<close>, the contents of the
  client's receive buffer; no handler writes to that buffer.
\<close>

section \<open>Buffer stealing\<close>

text \<open>The new index, the stolen one (unset when the pool is empty) and the broker.\<close>

definition steal_recv_buffer :: "broker \<Rightarrow> nat \<Rightarrow> nat \<Rightarrow> nat \<times> nat option \<times> broker" where
  "steal_recv_buffer b pub packet_len =
     (let (new_buf_idx, recv_pool) = buf_pool_alloc (b_recv_pool b);
          b = b\<lparr>b_recv_pool := recv_pool\<rparr>
      in if new_buf_idx = BUF_POOL_INVALID then (BUF_POOL_INVALID, None, b)
         else let c = client_at b pub;
                  stolen = c_recv_buf_idx c;
                  remaining = (if c_recv_len c > packet_len then c_recv_len c - packet_len else 0);
                  b = (if remaining > 0
                       then recv_buf_update b new_buf_idx (\<lambda>new_buf.
                              take remaining (drop (c_recv_start c + packet_len) (bp_bufs (b_recv_pool b) ! stolen))
                              @ drop remaining new_buf)
                       else b);
                  b = client_update b pub
                        (\<lambda>c. c\<lparr>c_recv_buf_idx := new_buf_idx, c_recv_start := 0, c_recv_len := remaining\<rparr>)
              in (new_buf_idx, Some stolen, b\<lparr>b_stolen_buffers := b_stolen_buffers b + 1\<rparr>))"

section \<open>Fan-out\<close>

record publish_ctx =
  px_msg_idx :: nat
  px_stolen_buf_idx :: nat
  px_sent_bitmap :: "u64 list"
  px_subscriber_count :: nat

definition forward_publish_zc ::
    "broker \<Rightarrow> nat \<Rightarrow> publish_ctx \<Rightarrow> canonical_msg \<Rightarrow> u8 \<Rightarrow> bool \<times> publish_ctx \<times> broker" where
  "forward_publish_zc b slot_idx pctx msg sub_qos =
     (let effective_qos = (if cm_qos msg < sub_qos then cm_qos msg else sub_qos);
          (ok, b) = fsm_sub_start_delivery b (px_msg_idx pctx) effective_qos slot_idx
      in (ok, if ok then pctx\<lparr>px_subscriber_count := px_subscriber_count pctx + 1\<rparr> else pctx, b))"

text \<open>One bit of a word of a node's bitmap.\<close>

definition deliver_bit :: "canonical_msg \<Rightarrow> u8 \<Rightarrow> trie_node \<Rightarrow> nat \<Rightarrow> publish_ctx \<times> broker \<Rightarrow> nat \<Rightarrow> publish_ctx \<times> broker" where
  "deliver_bit msg pqos node slot st bit_idx =
     (let (pctx, b) = st;
          slot_idx = slot * BITS_PER_SLOT + bit_idx;
          pctx = pctx\<lparr>px_sent_bitmap := (px_sent_bitmap pctx)
                   [slot := px_sent_bitmap pctx ! slot OR push_bit bit_idx 1]\<rparr>;
          c = client_at b slot_idx
      in if c_state c = CLIENT_ACTIVE \<and> c_generation c = tn_fd_gen node ! slot_idx
         then snd (forward_publish_zc b slot_idx pctx msg pqos) else (pctx, b))"

definition deliver_word :: "canonical_msg \<Rightarrow> u8 \<Rightarrow> trie_node \<Rightarrow> publish_ctx \<times> broker \<Rightarrow> nat \<Rightarrow> publish_ctx \<times> broker" where
  "deliver_word msg pqos node st slot =
     (let bits = tn_fd_bitmap node ! slot AND NOT (px_sent_bitmap (fst st) ! slot)
      in foldl (deliver_bit msg pqos node slot) st (for_each_bit 64 bits))"

definition deliver_node :: "canonical_msg \<Rightarrow> u8 \<Rightarrow> topic_trie \<Rightarrow> publish_ctx \<times> broker \<Rightarrow> nat \<Rightarrow> publish_ctx \<times> broker" where
  "deliver_node msg pqos t st n = foldl (deliver_word msg pqos (tr_nodes t ! n)) st [0..<TRIE_FD_SLOTS]"

definition process_publish_matches :: "broker \<Rightarrow> publish_ctx \<Rightarrow> nat list \<Rightarrow> publish_ctx \<times> broker" where
  "process_publish_matches b pctx matches =
     (case msg_pool_get (b_msg_pool b) (px_msg_idx pctx) of
        None \<Rightarrow> (pctx, b)
      | Some msg \<Rightarrow> foldl (deliver_node msg (cm_qos msg) (b_trie b)) (pctx, b) matches)"

section \<open>Packets\<close>

text \<open>A handler yields the broker and whether the connection goes on; \<open>(u32)slot_idx\<close> of a descriptor
  that is not mapped is \<open>2 ^ 32 - 1\<close>.\<close>

type_synonym handled = "(bool \<times> broker) option"

definition slot_of :: "broker \<Rightarrow> nat \<Rightarrow> nat" where
  "slot_of b s = nat (b_fd_to_slot b ! nat (c_fd (client_at b s)) mod 2 ^ 32)"

definition connack :: "u8 \<Rightarrow> bytes" where
  "connack rc = [0x20, 0x02, 0x00, rc]"

definition handle_connect :: "kernel \<Rightarrow> broker \<Rightarrow> nat \<Rightarrow> bytes \<Rightarrow> nat \<Rightarrow> nat \<Rightarrow> handled" where
  "handle_connect k b s buf var_hdr var_len =
     (if c_state (client_at b s) \<noteq> CLIENT_ACTIVE \<or> c_protocol_version (client_at b s) \<noteq> 0 then Some (False, b)
      else case mqtt_parse_connect buf var_hdr var_len of
        Inl rc \<Rightarrow> Some (False, snd (send_buf k b s (connack
            (if rc = MQTT_ERR_PROTOCOL then MQTT_CONNACK_PROTO_VERSION else MQTT_CONNACK_ID_REJECTED))))
      | Inr conn_pkt \<Rightarrow> do {
          b \<leftarrow> broker_set_client_identity b (slot_of b s) (str_bytes buf (con_client_id conn_pkt))
                 (str_len (con_client_id conn_pkt) mod 256);
          let b = client_update b s (\<lambda>c. c\<lparr>c_protocol_version := con_protocol_version conn_pkt,
                    c_keepalive := con_keepalive conn_pkt, c_clean_session := con_clean_session conn_pkt\<rparr>);
          Some (True, snd (send_buf k b s (connack MQTT_CONNACK_ACCEPTED)))
        })"

text \<open>PUBACK, PUBREC, PUBREL and PUBCOMP.\<close>

definition handle_ack :: "bytes \<Rightarrow> nat \<Rightarrow> nat \<Rightarrow> broker \<Rightarrow> (u16 \<Rightarrow> broker option) \<Rightarrow> handled" where
  "handle_ack buf var_hdr var_len b fsm =
     (if var_len < 2 then Some (False, b)
      else case mqtt_read_u16 buf var_hdr of
             Inl _ \<Rightarrow> None
           | Inr packet_id \<Rightarrow> map_option (Pair True) (fsm packet_id))"

definition add_filter :: "nat \<Rightarrow> u8 \<Rightarrow> bytes \<Rightarrow> bytes \<times> broker \<Rightarrow> topic_filter \<Rightarrow> bytes \<times> broker" where
  "add_filter slot_idx gen buf st f =
     (let (codes, b) = st;
          (ok, b) = sub_add b slot_idx gen (str_bytes buf (flt_topic f)) (str_len (flt_topic f)) (flt_qos f)
      in (codes @ [if ok then flt_qos f else 0x80], b))"

definition handle_subscribe :: "kernel \<Rightarrow> broker \<Rightarrow> nat \<Rightarrow> bytes \<Rightarrow> nat \<Rightarrow> nat \<Rightarrow> handled" where
  "handle_subscribe k b s buf var_hdr var_len =
     (if c_protocol_version (client_at b s) = 0 then Some (False, b)
      else case mqtt_parse_subscribe buf var_hdr var_len of
        Inl rc \<Rightarrow> Some (False, b)
      | Inr sub_pkt \<Rightarrow>
          let (codes, b) = foldl (add_filter (slot_of b s) (c_generation (client_at b s)) buf) ([], b) (sub_filters sub_pkt)
          in Some (True, snd (send_buf k b s
               (mqtt_encode_suback (sub_packet_id sub_pkt) codes (length (sub_filters sub_pkt))))))"

definition handle_unsubscribe :: "kernel \<Rightarrow> broker \<Rightarrow> nat \<Rightarrow> bytes \<Rightarrow> nat \<Rightarrow> nat \<Rightarrow> handled" where
  "handle_unsubscribe k b s buf var_hdr var_len =
     (if c_protocol_version (client_at b s) = 0 then Some (False, b)
      else case mqtt_parse_unsubscribe buf var_hdr var_len of
        Inl rc \<Rightarrow> Some (False, b)
      | Inr unsub_pkt \<Rightarrow>
          let b = foldl (\<lambda>b' f. sub_remove b' (slot_of b s) (str_bytes buf f) (str_len f)) b (unsub_filters unsub_pkt)
          in Some (True, send_unsuback k b s (unsub_packet_id unsub_pkt)))"

text \<open>Storing the metadata of a publication; \<open>topic_off\<close> is a u16.\<close>

definition fill_msg :: "mqtt_publish \<Rightarrow> nat \<Rightarrow> canonical_msg \<Rightarrow> canonical_msg" where
  "fill_msg pub stolen m = m\<lparr>cm_buf_idx := stolen, cm_topic_off := the (str_ptr (pub_topic pub)) mod 65536,
     cm_topic_len := str_len (pub_topic pub), cm_payload_off := pub_payload pub,
     cm_payload_len := pub_payload_len pub, cm_qos := pub_qos pub,
     cm_retain := (if pub_retain pub then 1 else 0), cm_dup := (if pub_dup pub then 1 else 0)\<rparr>"

text \<open>From the base reference to its release.\<close>

definition fan_out :: "broker \<Rightarrow> nat \<Rightarrow> nat \<Rightarrow> bytes \<Rightarrow> nat \<Rightarrow> broker" where
  "fan_out b msg_idx stolen topic topic_len =
     (let b = b\<lparr>b_msg_pool := msg_pool_ref (b_msg_pool b) msg_idx\<rparr>;
          pctx = \<lparr>px_msg_idx = msg_idx, px_stolen_buf_idx = stolen,
                  px_sent_bitmap = replicate TRIE_FD_SLOTS 0, px_subscriber_count = 0\<rparr>;
          matches = trie_match_collect (b_trie b) topic topic_len;
          b = snd (process_publish_matches b pctx matches);
          b = b\<lparr>b_ring := ring_flush_sqes (b_ring b)\<rparr>;
          (final_ref, mp) = msg_pool_unref (b_msg_pool b) msg_idx;
          b = b\<lparr>b_msg_pool := mp\<rparr>;
          b = (if final_ref = 0
               then b\<lparr>b_recv_pool := buf_pool_free (b_recv_pool b) stolen,
                      b_msg_pool := msg_pool_free (b_msg_pool b) msg_idx\<rparr>
               else b)
      in b\<lparr>b_msgs_published := b_msgs_published b + 1\<rparr>)"

definition count_drop :: "broker \<Rightarrow> broker" where
  "count_drop b = b\<lparr>b_msgs_dropped := b_msgs_dropped b + 1, b_drops_msg_pool_empty := b_drops_msg_pool_empty b + 1\<rparr>"

definition publish_accepted :: "broker \<Rightarrow> nat \<Rightarrow> bytes \<Rightarrow> nat \<Rightarrow> mqtt_publish \<Rightarrow> broker" where
  "publish_accepted b s buf total_len pub =
     (let (msg_idx, mp) = msg_pool_alloc (b_msg_pool b);
          b = b\<lparr>b_msg_pool := mp\<rparr>
      in if msg_idx = MSG_POOL_INVALID then count_drop b
         else case steal_recv_buffer b s total_len of
           (new_buf_idx, None, b) \<Rightarrow> count_drop (b\<lparr>b_msg_pool := msg_pool_free (b_msg_pool b) msg_idx\<rparr>)
         | (new_buf_idx, Some stolen, b) \<Rightarrow>
             let b = b\<lparr>b_msg_pool := msg_update (b_msg_pool b) msg_idx (fill_msg pub stolen)\<rparr>
             in fan_out b msg_idx stolen (str_bytes buf (pub_topic pub)) (str_len (pub_topic pub)))"

definition handle_publish :: "kernel \<Rightarrow> broker \<Rightarrow> nat \<Rightarrow> bytes \<Rightarrow> nat \<Rightarrow> nat \<Rightarrow> nat \<Rightarrow> u8 \<Rightarrow> handled" where
  "handle_publish k b s buf var_hdr var_len total_len flags =
     (if c_protocol_version (client_at b s) = 0 then Some (False, b)
      else case mqtt_parse_publish flags buf var_hdr var_len of
        Inl rc \<Rightarrow> Some (False, b)
      | Inr pub_pkt \<Rightarrow>
          let (go_on, b) = fsm_pub_received k b s (pub_qos pub_pkt) (pub_packet_id pub_pkt)
          in Some (True, if go_on then publish_accepted b s buf total_len pub_pkt else b))"

definition process_mqtt_packet_ex ::
    "kernel \<Rightarrow> broker \<Rightarrow> nat \<Rightarrow> bytes \<Rightarrow> nat \<Rightarrow> mqtt_fixed_header \<Rightarrow> (int \<times> broker) option" where
  "process_mqtt_packet_ex k b s buf p hdr =
     (let total_len = unat (packet_total hdr);
          var_hdr = p + header_len hdr;
          var_len = unat (remaining_len hdr);
          r = (if hdr_type hdr = MQTT_CONNECT then handle_connect k b s buf var_hdr var_len
               else if hdr_type hdr = MQTT_PINGREQ
               then (if c_protocol_version (client_at b s) = 0 then Some (False, b)
                     else Some (True, snd (send_static k b s HDR_PINGRESP)))
               else if hdr_type hdr = MQTT_DISCONNECT then Some (False, b)
               else if hdr_type hdr = MQTT_PUBACK
               then handle_ack buf var_hdr var_len b (fsm_sub_puback_received b s)
               else if hdr_type hdr = MQTT_PUBREC
               then handle_ack buf var_hdr var_len b (fsm_sub_pubrec_received k b s)
               else if hdr_type hdr = MQTT_PUBREL
               then handle_ack buf var_hdr var_len b (fsm_pub_pubrel_received k b s)
               else if hdr_type hdr = MQTT_PUBCOMP
               then handle_ack buf var_hdr var_len b (\<lambda>pid. Some (fsm_sub_pubcomp_received b s pid))
               else if hdr_type hdr = MQTT_SUBSCRIBE then handle_subscribe k b s buf var_hdr var_len
               else if hdr_type hdr = MQTT_UNSUBSCRIBE then handle_unsubscribe k b s buf var_hdr var_len
               else if hdr_type hdr = MQTT_PUBLISH
               then handle_publish k b s buf var_hdr var_len total_len (hdr_flags hdr)
               else Some (False, b))
      in map_option (\<lambda>(go_on, b). (if go_on then int total_len else -1, b)) r)"

text \<open>The wrapper that parses the header itself; an error of the header parser is its return value.\<close>

definition process_mqtt_packet :: "kernel \<Rightarrow> broker \<Rightarrow> nat \<Rightarrow> bytes \<Rightarrow> nat \<Rightarrow> nat \<Rightarrow> (parse_error + int \<times> broker) option" where
  "process_mqtt_packet k b s buf p len =
     (case mqtt_parse_fixed_header buf p len of
        Inl e \<Rightarrow> Some (Inl e)
      | Inr hdr \<Rightarrow> map_option Inr (process_mqtt_packet_ex k b s buf p hdr))"

end
