(* ===== verification/Event_Loop.thy ===== *)
theory Event_Loop
  imports Handler
begin

text \<open>
  The completion handlers and the event loop of \<^verbatim>\<open>src/src/broker/loop.h\<close>.  \<open>None\<close> is an operation that
  does not return, or a read outside the receive buffer.
\<close>

section \<open>Accept\<close>

definition handle_accept :: "kernel \<Rightarrow> broker \<Rightarrow> io_uring_cqe \<Rightarrow> broker" where
  "handle_accept k b cqe =
     (let b = (if b_accept_pending b > 0 then b\<lparr>b_accept_pending := b_accept_pending b - 1\<rparr> else b);
          client_fd = cqe_res cqe
      in if client_fd < 0 then snd (submit_accept k b)
         else if client_fd \<ge> int (b_max_fds b) then snd (submit_accept k (sys_close b client_fd))
         else let b = b\<lparr>b_accepts := b_accepts b + 1\<rparr>;
                  b = sys_setsockopt_nodelay b client_fd
              in case broker_alloc_slot b client_fd of
                   (None, b) \<Rightarrow> snd (submit_accept k (sys_close b client_fd))
                 | (Some s, b) \<Rightarrow> snd (submit_accept k (submit_recv k b s)))"

section \<open>Receive\<close>

definition advance_recv :: "broker \<Rightarrow> nat \<Rightarrow> nat \<Rightarrow> broker" where
  "advance_recv b s n = client_update b s (\<lambda>c. c\<lparr>c_recv_start := c_recv_start c + n, c_recv_len := c_recv_len c - n\<rparr>)"

text \<open>The four bytes of the fast path: type, and packet identifier when the second byte is 2.\<close>

definition fast_ack :: "bytes \<Rightarrow> nat \<Rightarrow> (u8 \<times> u16) option" where
  "fast_ack buf data =
     (if buf ! (data + 1) = 2
      then Some (drop_bit 4 (buf ! data), be16 (buf ! (data + 2)) (buf ! (data + 3))) else None)"

text \<open>The fast path; the outer \<open>None\<close> when the packet takes the standard path.\<close>

definition fast_path :: "kernel \<Rightarrow> broker \<Rightarrow> nat \<Rightarrow> bytes \<Rightarrow> nat \<Rightarrow> broker option option" where
  "fast_path k b s buf data =
     (if c_protocol_version (client_at b s) > 0 \<and> c_recv_len (client_at b s) \<ge> 4
      then case fast_ack buf data of
             None \<Rightarrow> None
           | Some (typ, packet_id) \<Rightarrow>
               if typ = MQTT_PUBACK then Some (fsm_sub_puback_received b s packet_id)
               else if typ = MQTT_PUBREC then Some (fsm_sub_pubrec_received k b s packet_id)
               else if typ = MQTT_PUBREL then Some (fsm_pub_pubrel_received k b s packet_id)
               else if typ = MQTT_PUBCOMP then Some (Some (fsm_sub_pubcomp_received b s packet_id))
               else None
      else None)"

text \<open>One round of the loop: the broker, and the new \<open>data\<close> offset when the loop goes on.\<close>

definition recv_round :: "kernel \<Rightarrow> broker \<Rightarrow> nat \<Rightarrow> bytes \<Rightarrow> nat \<Rightarrow> (nat option \<times> broker) option" where
  "recv_round k b s buf data =
     (case fast_path k b s buf data of
        Some r \<Rightarrow> map_option (\<lambda>b. (Some (data + 4), advance_recv b s 4)) r
      | None \<Rightarrow>
          case mqtt_packet_complete_ex buf data (c_recv_len (client_at b s)) of
            Inl MQTT_INCOMPLETE \<Rightarrow> Some (None, b)
          | Inl OUT_OF_BOUNDS \<Rightarrow> None
          | Inl e \<Rightarrow> Some (None, submit_close k b (c_fd (client_at b s)))
          | Inr (packet_len, hdr) \<Rightarrow>
              let buf_idx_before = c_recv_buf_idx (client_at b s)
              in case process_mqtt_packet_ex k b s buf data hdr of
                   None \<Rightarrow> None
                 | Some (consumed, b) \<Rightarrow>
                     if consumed < 0 then Some (None, submit_close k b (c_fd (client_at b s)))
                     else if c_recv_buf_idx (client_at b s) \<noteq> buf_idx_before
                     then let b = client_update b s (\<lambda>c. c\<lparr>c_recv_start := 0\<rparr>)
                          in Some (if client_recv_buf (client_at b s) (b_recv_pool b) = None then None else Some 0, b)
                     else Some (Some (data + nat consumed), advance_recv b s (nat consumed)))"

text \<open>The loop, with fuel: every round that goes on consumes a byte, so \<open>recv_len\<close> rounds are enough.\<close>

fun recv_loop :: "nat \<Rightarrow> kernel \<Rightarrow> broker \<Rightarrow> nat \<Rightarrow> nat \<Rightarrow> broker option" where
  "recv_loop 0 k b s data = (if c_recv_len (client_at b s) > 0 then None else Some b)"
| "recv_loop (Suc n) k b s data =
     (if c_recv_len (client_at b s) > 0
      then case client_recv_buf (client_at b s) (b_recv_pool b) of
             None \<Rightarrow> None
           | Some buf \<Rightarrow>
               (case recv_round k b s buf data of
                  None \<Rightarrow> None
                | Some (None, b) \<Rightarrow> Some b
                | Some (Some data, b) \<Rightarrow> recv_loop n k b s data)
      else Some b)"

definition process_recv_buffer :: "kernel \<Rightarrow> broker \<Rightarrow> nat \<Rightarrow> broker option" where
  "process_recv_buffer k b s =
     (case client_recv_buf (client_at b s) (b_recv_pool b) of
        None \<Rightarrow> Some b
      | Some _ \<Rightarrow> recv_loop (c_recv_len (client_at b s)) k b s (c_recv_start (client_at b s)))"

definition free_orphan :: "broker \<Rightarrow> nat \<Rightarrow> broker" where
  "free_orphan b s =
     (let c = client_at b s
      in if c_orphaned_recv_buf_idx c \<noteq> BUF_POOL_INVALID
         then client_update (b\<lparr>b_recv_pool := buf_pool_free (b_recv_pool b) (c_orphaned_recv_buf_idx c)\<rparr>) s
                (\<lambda>c. c\<lparr>c_orphaned_recv_buf_idx := BUF_POOL_INVALID\<rparr>)
         else b)"

definition handle_recv :: "kernel \<Rightarrow> broker \<Rightarrow> io_uring_cqe \<Rightarrow> broker option" where
  "handle_recv k b cqe =
     (let fd = int (unat (ud_fd (cqe_user_data cqe)));
          ctx = ud_ctx (cqe_user_data cqe);
          slot_idx = unat (RECV_CTX_SLOT ctx);
          cqe_gen = RECV_CTX_GEN ctx
      in case broker_get_client b slot_idx of None \<Rightarrow> Some b | Some s \<Rightarrow>
         if c_generation (client_at b s) \<noteq> cqe_gen then Some (free_orphan b s)
         else
         let b = client_update b s (\<lambda>c. c\<lparr>c_recv_pending := False\<rparr>)
         in if c_state (client_at b s) \<noteq> CLIENT_ACTIVE then Some (free_orphan b s)
         else if cqe_res cqe \<le> 0 then Some (submit_close k b fd)
         else
         let b = client_update b s (\<lambda>c. c\<lparr>c_recv_len := c_recv_len c + nat (cqe_res cqe)\<rparr>);
             b = b\<lparr>b_bytes_recv := b_bytes_recv b + of_int (cqe_res cqe)\<rparr>
         in map_option (\<lambda>b. if c_state (client_at b s) = CLIENT_ACTIVE then submit_recv k b s else b)
              (process_recv_buffer k b s))"

section \<open>Send and close\<close>

definition handle_send :: "broker \<Rightarrow> io_uring_cqe \<Rightarrow> broker" where
  "handle_send b cqe =
     (if cqe_res cqe < 0 then b else b\<lparr>b_bytes_sent := b_bytes_sent b + of_int (cqe_res cqe)\<rparr>)"

definition handle_close :: "broker \<Rightarrow> io_uring_cqe \<Rightarrow> broker option" where
  "handle_close b cqe =
     (let fd = int (unat (ud_fd (cqe_user_data cqe)))
      in case broker_get_client_by_fd b fd of
           None \<Rightarrow> Some b
         | Some s \<Rightarrow>
             if (c_state (client_at b s) = CLIENT_ACTIVE \<or> c_state (client_at b s) = CLIENT_CLOSING)
                \<and> c_fd (client_at b s) = fd
             then let slot_idx = nat (b_fd_to_slot b ! nat fd);
                      b = fsm_client_disconnect b s
                  in if c_clean_session (client_at b s) then broker_free_slot b slot_idx
                     else Some (broker_slot_go_dormant b slot_idx)
             else Some b)"

section \<open>Dispatch\<close>

definition handle_send_resp :: "broker \<Rightarrow> io_uring_cqe \<Rightarrow> broker" where
  "handle_send_resp b cqe =
     (let ctx = ud_ctx (cqe_user_data cqe);
          slot_idx = unat (RESP_CTX_SLOT ctx);
          resp_slot = unat (RESP_CTX_RESP_SLOT ctx) mod 256;
          cqe_gen = RESP_CTX_GEN ctx;
          b = (if cqe_res cqe > 0 then b\<lparr>b_bytes_sent := b_bytes_sent b + of_int (cqe_res cqe)\<rparr> else b)
      in case broker_get_client b slot_idx of
           None \<Rightarrow> b
         | Some s \<Rightarrow>
             if resp_slot < RESP_SLOTS \<and> c_generation (client_at b s) = cqe_gen
             then client_update b s (\<lambda>c. client_resp_slot_complete c resp_slot) else b)"

definition dispatch_cqe :: "kernel \<Rightarrow> broker \<Rightarrow> io_uring_cqe \<Rightarrow> broker option" where
  "dispatch_cqe k b cqe =
     (let op = ud_op (cqe_user_data cqe)
      in if op = OP_ACCEPT then Some (handle_accept k b cqe)
         else if op = OP_RECV then handle_recv k b cqe
         else if op = OP_SEND then Some (handle_send b cqe)
         else if op = OP_EGRESS then handle_egress_cqe b cqe
         else if op = OP_CLOSE then handle_close b cqe
         else if op = OP_SEND_RESP then Some (handle_send_resp b cqe)
         else Some b)"

section \<open>Retries\<close>

text \<open>The loop of \<open>process_recv_retries\<close>: the number of retries and the broker.  A round takes an entry
  from the queue and puts one back only to stop, so the capacity of the queue bounds the rounds.\<close>

fun recv_retry_loop :: "nat \<Rightarrow> kernel \<Rightarrow> broker \<Rightarrow> nat \<Rightarrow> nat \<times> broker" where
  "recv_retry_loop 0 k b retried = (retried, b)"
| "recv_retry_loop (Suc n) k b retried =
     (if recv_retry_empty b then (retried, b)
      else let (s, b) = recv_retry_dequeue b
           in if s \<ge> b_max_clients b then (retried, b)
              else if c_state (client_at b s) \<noteq> CLIENT_ACTIVE \<or> c_recv_pending (client_at b s)
              then recv_retry_loop n k b retried
              else case submit_recv_internal k b s of
                     (False, b) \<Rightarrow> (retried, recv_retry_enqueue b s)
                   | (True, b) \<Rightarrow> recv_retry_loop n k b (retried + 1))"

definition process_recv_retries :: "kernel \<Rightarrow> broker \<Rightarrow> nat \<times> broker" where
  "process_recv_retries k b =
     (let (retried, b) = recv_retry_loop (b_recv_retry_capacity b) k b 0
      in (retried, if retried > 0 then b\<lparr>b_recv_retries := b_recv_retries b + of_nat retried\<rparr> else b))"

fun egress_flush_loop :: "nat \<Rightarrow> broker \<Rightarrow> nat \<Rightarrow> nat \<times> broker" where
  "egress_flush_loop 0 b retried = (retried, b)"
| "egress_flush_loop (Suc n) b retried =
     (if egress_flush_empty b then (retried, b)
      else let (ctx, b) = egress_flush_dequeue b;
               s = unat (EGRESS_CTX_SLOT ctx)
           in if s \<ge> b_max_clients b then (retried, b)
              else if c_generation (client_at b s) \<noteq> EGRESS_CTX_GEN ctx then egress_flush_loop n b retried
              else if c_state (client_at b s) \<noteq> CLIENT_ACTIVE \<or> c_egress_count (client_at b s) = 0
              then egress_flush_loop n b retried
              else case egress_flush b s of (rc, b) \<Rightarrow>
                if rc = EGRESS_FLUSH_SUBMITTED then egress_flush_loop n b (retried + 1)
                else if rc = EGRESS_FLUSH_SQ_FULL then (retried, egress_flush_enqueue b s)
                else egress_flush_loop n b retried)"

definition process_egress_flushes :: "broker \<Rightarrow> nat \<times> broker" where
  "process_egress_flushes b =
     (let (retried, b) = egress_flush_loop (b_egress_flush_capacity b) b 0
      in (retried, if retried > 0 then b\<lparr>b_egress_retries := b_egress_retries b + of_nat retried\<rparr> else b))"

section \<open>The event loop\<close>

definition ACCEPT_BATCH :: nat where
  "ACCEPT_BATCH = 32"

definition LLMQ_TIMEOUT_SWEEP_INTERVAL_MS :: u64 where
  "LLMQ_TIMEOUT_SWEEP_INTERVAL_MS = 5000"

fun submit_accepts :: "nat \<Rightarrow> kernel \<Rightarrow> broker \<Rightarrow> broker" where
  "submit_accepts 0 k b = b"
| "submit_accepts (Suc n) k b = submit_accepts n k (snd (submit_accept k b))"

text \<open>The loop over the completions that \<open>ring_cq_sync\<close> made visible; their number is the fuel.\<close>

fun drain_cqes :: "nat \<Rightarrow> kernel \<Rightarrow> broker \<Rightarrow> nat \<Rightarrow> (nat \<times> broker) option" where
  "drain_cqes 0 k b processed =
     (if b_running b \<and> ring_peek_cqe (b_ring b) \<noteq> None then None else Some (processed, b))"
| "drain_cqes (Suc n) k b processed =
     (if b_running b
      then case ring_peek_cqe (b_ring b) of
             None \<Rightarrow> Some (processed, b)
           | Some cqe \<Rightarrow>
               (case dispatch_cqe k b cqe of
                  None \<Rightarrow> None
                | Some b \<Rightarrow> drain_cqes n k (b\<lparr>b_ring := ring_cq_advance (b_ring b) 1\<rparr>) (processed + 1))
      else Some (processed, b))"

fun replenish_accepts :: "nat \<Rightarrow> kernel \<Rightarrow> broker \<Rightarrow> broker" where
  "replenish_accepts 0 k b = b"
| "replenish_accepts (Suc n) k b =
     (if b_accept_pending b < ACCEPT_BATCH
      then case submit_accept k b of (False, b) \<Rightarrow> b | (True, b) \<Rightarrow> replenish_accepts n k b
      else b)"

text \<open>One iteration of \<open>while (b->running)\<close>; \<open>Inl\<close> is a return of \<open>broker_run\<close> with its value.\<close>

definition broker_step :: "kernel \<Rightarrow> broker \<Rightarrow> u64 \<Rightarrow> (int \<times> broker + broker) option" where
  "broker_step k b now =
     (let b = b\<lparr>b_now := now\<rparr>;
          b = b\<lparr>b_ring := ring_flush_sqes (b_ring b)\<rparr>;
          (rc, b) = broker_enter k b (\<lambda>enter r. ring_submit enter r 0)
      in if rc < 0 \<and> rc \<noteq> - EINTR then Some (Inl (rc, b))
         else
         let b = b\<lparr>b_ring := ring_cq_sync (b_ring b)\<rparr>
         in case drain_cqes (unat (r_cq_tail_local (b_ring b) - r_cq_head_local (b_ring b))) k b 0 of
              None \<Rightarrow> None
            | Some (processed, b) \<Rightarrow>
                let b = b\<lparr>b_ring := ring_cq_flush (b_ring b)\<rparr>;
                    b = snd (process_recv_retries k b);
                    b = snd (process_egress_flushes b);
                    b = replenish_accepts (ACCEPT_BATCH - b_accept_pending b) k b
                in case (if b_now b - b_last_timeout_sweep b \<ge> LLMQ_TIMEOUT_SWEEP_INTERVAL_MS
                         then map_option (\<lambda>(_, b). b\<lparr>b_last_timeout_sweep := b_now b\<rparr>) (fsm_sweep_all_timeouts b)
                         else Some b) of
                     None \<Rightarrow> None
                   | Some b \<Rightarrow>
                       if processed = 0
                       then let (rc, b) = broker_enter k b (\<lambda>enter r. ring_submit_and_wait enter r 1)
                            in if rc < 0 \<and> rc \<noteq> - EINTR then Some (Inl (rc, b)) else Some (Inr b)
                       else Some (Inr b))"

text \<open>\<open>n\<close> iterations; the clock is read once before the loop and once in each.\<close>

fun broker_loop :: "nat \<Rightarrow> kernel \<Rightarrow> broker \<Rightarrow> nat \<Rightarrow> (int \<times> broker + broker) option" where
  "broker_loop 0 k b t = Some (Inr b)"
| "broker_loop (Suc n) k b t =
     (if b_running b
      then case broker_step k b (k_clock k t) of
             None \<Rightarrow> None
           | Some (Inl ret) \<Rightarrow> Some (Inl ret)
           | Some (Inr b) \<Rightarrow> broker_loop n k b (t + 1)
      else Some (Inl (0, b)))"

definition broker_run :: "nat \<Rightarrow> kernel \<Rightarrow> broker \<Rightarrow> (int \<times> broker + broker) option" where
  "broker_run n k b =
     (let b = b\<lparr>b_running := True, b_now := k_clock k 0, b_last_timeout_sweep := k_clock k 0\<rparr>
      in broker_loop n k (submit_accepts ACCEPT_BATCH k b) 1)"

end
