(* ===== verification/Fsm_Correct.thy ===== *)
theory Fsm_Correct
  imports Egress_Complete Fsm
begin

text \<open>
  What the ceremonies of \<^verbatim>\<open>src/src/broker/mqtt_fsm.h\<close> guarantee: reference counts of messages, QoS 2
  exactly once towards the broker, and the references a disconnect gives back.
\<close>

section \<open>The in-flight part of a client\<close>

lemma inflight_view_eq:
  assumes "inflight_view c' = inflight_view c"
  shows "in_use c' = in_use c" "pkt_id c' = pkt_id c" "incoming_slots c' = incoming_slots c" "inflight_wf c' = inflight_wf c"
    "client_inflight_find c' = client_inflight_find c" "c_inflight_count c' = c_inflight_count c"
    "c_max_inflight c' = c_max_inflight c" "c_inflight_hot c' = c_inflight_hot c"
proof -
  note u = inflight_view_cong [OF assms]
  have v: "c_inflight_count c' = c_inflight_count c" "c_max_inflight c' = c_max_inflight c" "c_inflight_mask c' = c_inflight_mask c"
      "c_inflight_hash_mask c' = c_inflight_hash_mask c"
      "c_inflight_hot c' = c_inflight_hot c" "c_inflight_pkt_hash c' = c_inflight_pkt_hash c"
    using assms by (simp_all add: inflight_view_def)
  have d: "direct_slot c' = direct_slot c" "hash_find_cell c' = hash_find_cell c"
    by (simp_all add: fun_eq_iff v u direct_slot_def hash_find_cell_def Let_def)
  show "in_use c' = in_use c" "pkt_id c' = pkt_id c" "incoming_slots c' = incoming_slots c" "inflight_wf c' = inflight_wf c"
    by (fact u)+
  show "client_inflight_find c' = client_inflight_find c" by (simp add: fun_eq_iff client_inflight_find_def u d v Let_def)
  show "c_inflight_count c' = c_inflight_count c" "c_max_inflight c' = c_max_inflight c" "c_inflight_hot c' = c_inflight_hot c"
    by (fact v)+
qed

section \<open>References\<close>

text \<open>Releasing a reference to a live message takes exactly one off its count; the last one returns
  the message and its receive buffer to their pools, any other returns nothing, and no other message,
  buffer or client is touched.\<close>

theorem release_msg_ref_correct:
  assumes wf: "msg_pool_wf (b_msg_pool b)" "buf_pool_wf (b_recv_pool b)"
    and i: "i \<in> msg_pool_in_use (b_msg_pool b)" "cm_buf_idx (mp_msgs (b_msg_pool b) ! i) \<in> buf_pool_in_use (b_recv_pool b)"
  shows "let b' = release_msg_ref b i; final = (msg_pool_refcount (b_msg_pool b) i = 1) in
    msg_pool_refcount (b_msg_pool b') j = (if j = i then msg_pool_refcount (b_msg_pool b) i - 1 else msg_pool_refcount (b_msg_pool b) j)
    \<and> msg_pool_in_use (b_msg_pool b') = (if final then msg_pool_in_use (b_msg_pool b) - {i} else msg_pool_in_use (b_msg_pool b))
    \<and> buf_pool_in_use (b_recv_pool b') = (if final then buf_pool_in_use (b_recv_pool b) - {cm_buf_idx (mp_msgs (b_msg_pool b) ! i)}
         else buf_pool_in_use (b_recv_pool b))
    \<and> msg_pool_wf (b_msg_pool b') \<and> buf_pool_wf (b_recv_pool b') \<and> bp_bufs (b_recv_pool b') = bp_bufs (b_recv_pool b)
    \<and> b_clients b' = b_clients b"
proof -
  define b' where "b' = release_msg_ref b i"
  define final where "final = (msg_pool_refcount (b_msg_pool b) i = 1)"
  let ?mp = "b_msg_pool b"
  have cap: "i < mp_capacity ?mp" using msg_pool.used_below [OF wf(1)] i(1) by auto
  then have ne: "i \<noteq> MSG_POOL_INVALID" using msg_pool.cap_below [OF wf(1)] by simp
  let ?buf = "cm_buf_idx (mp_msgs ?mp ! i)"
  have "?buf < bp_capacity (b_recv_pool b)" using buf_pool.used_below [OF wf(2)] i(2) by auto
  then have nb: "?buf \<noteq> MSG_POOL_INVALID"
    using buf_pool.cap_below [OF wf(2)] by (simp add: MSG_POOL_INVALID_def BUF_POOL_INVALID_def)
  obtain n mp' where u: "msg_pool_unref ?mp i = (n, mp')" by (cases "msg_pool_unref ?mp i")
  have n: "n = msg_pool_refcount ?mp i - 1" using msg_pool_unref_count [OF wf(1) cap, of i] u by simp
  have cnt: "msg_pool_refcount mp' j = (if j = i then msg_pool_refcount ?mp i - 1 else msg_pool_refcount ?mp j)"
    using msg_pool_unref_count [OF wf(1) cap, of j] u by simp
  have mp': "msg_pool_wf mp'" "msg_pool_in_use mp' = msg_pool_in_use ?mp"
    using wf(1) msg_pool_unref_wf [of ?mp i] msg_pool_unref_in_use [of ?mp i] u by simp_all
  have buf: "cm_buf_idx (mp_msgs mp' ! i) = ?buf"
    using u cap wf(1) by (auto simp: msg_pool_unref_def Let_def msg_update_nth msg_pool_wf_def split: if_splits)
  have get: "msg_pool_get ?mp i \<noteq> None" using cap by (simp add: msg_pool_get_def)
  have z: "n = 0 \<longleftrightarrow> final" by (simp add: n final_def)
  have free: "msg_pool_refcount (msg_pool_free mp' i) j = msg_pool_refcount mp' j"
    by (simp add: msg_pool_refcount_def msg_pool_free_def)
  show ?thesis
  proof (cases final)
    case True
    then have b': "b' = b\<lparr>b_msg_pool := msg_pool_free mp' i, b_recv_pool := buf_pool_free (b_recv_pool b) ?buf\<rparr>"
      using z get nb ne by (simp add: b'_def release_msg_ref_def u Let_def buf)
    have "msg_pool_wf (msg_pool_free mp' i) \<and> msg_pool_in_use (msg_pool_free mp' i) = msg_pool_in_use ?mp - {i}"
      using msg_pool.free_used [OF mp'(1), of i] i(1) mp'(2) by simp
    moreover have "buf_pool_wf (buf_pool_free (b_recv_pool b) ?buf)
        \<and> buf_pool_in_use (buf_pool_free (b_recv_pool b) ?buf) = buf_pool_in_use (b_recv_pool b) - {?buf}"
      using buf_pool.free_used [OF wf(2) i(2)] by simp
    moreover have "bp_bufs (buf_pool_free (b_recv_pool b) ?buf) = bp_bufs (b_recv_pool b)" by (simp add: buf_pool_free_def)
    ultimately show ?thesis using True cnt free unfolding Let_def b'_def [symmetric] final_def [symmetric] by (simp add: b')
  next
    case False
    then have "b' = b\<lparr>b_msg_pool := mp'\<rparr>" using z ne by (simp add: b'_def release_msg_ref_def u Let_def)
    then show ?thesis using False cnt mp' wf(2) unfolding Let_def b'_def [symmetric] final_def [symmetric] by simp
  qed
qed

text \<open>The count alone, for a sequence of releases.\<close>

definition msgs_shape :: "broker \<Rightarrow> bool" where
  "msgs_shape b \<longleftrightarrow> length (mp_msgs (b_msg_pool b)) = mp_capacity (b_msg_pool b) \<and> mp_capacity (b_msg_pool b) \<le> MSG_POOL_INVALID"

definition ref_at :: "broker \<Rightarrow> nat \<Rightarrow> u32" where
  "ref_at b j = msg_pool_refcount (b_msg_pool b) j"

lemma ref_release:
  assumes "msgs_shape b" "j < mp_capacity (b_msg_pool b)"
  shows "ref_at (release_msg_ref b i) j = (if j = i then ref_at b j - 1 else ref_at b j)"
    "msgs_shape (release_msg_ref b i)" "mp_capacity (b_msg_pool (release_msg_ref b i)) = mp_capacity (b_msg_pool b)"
  using assms
  by (auto simp: ref_at_def msgs_shape_def release_msg_ref_def msg_pool_unref_def msg_pool_refcount_def msg_pool_free_def
      msg_update_nth atomic_dec_def Let_def)

lemma ref_update [simp]: "ref_at (client_update b s f) = ref_at b" "msgs_shape (client_update b s f) = msgs_shape b"
    "b_msg_pool (client_update b s f) = b_msg_pool b"
  by (simp_all add: ref_at_def msgs_shape_def client_update_def fun_eq_iff)

section \<open>Disconnect\<close>

text \<open>A queued PUBLISH without a packet identifier owns a reference; one with an identifier has passed it
  to its in-flight entry.\<close>

definition seg_owns :: "nat \<Rightarrow> egress_segment \<Rightarrow> bool" where
  "seg_owns m seg \<longleftrightarrow> seg_kind seg = SEG_PUBLISH \<and> seg_msg_idx seg = m \<and> seg_packet_id seg = 0"

definition slot_owns :: "client_slot \<Rightarrow> nat \<Rightarrow> nat \<Rightarrow> bool" where
  "slot_owns c m i \<longleftrightarrow> ih_state (c_inflight_hot c ! i) \<noteq> INFLIGHT_FREE \<and> ih_direction (c_inflight_hot c ! i) = 0
     \<and> ih_msg_idx (c_inflight_hot c ! i) = m"

definition owned_refs :: "client_slot \<Rightarrow> nat \<Rightarrow> nat" where
  "owned_refs c m = length (filter (seg_owns m) (egress_contents c)) + length (filter (slot_owns c m) [0..<c_max_inflight c])"

lemma drain_egress_refs:
  "egress_ring_wf (client_at b s) \<Longrightarrow> s < length (b_clients b) \<Longrightarrow> msgs_shape b \<Longrightarrow> m < mp_capacity (b_msg_pool b) \<Longrightarrow>
   n = c_egress_count (client_at b s) \<Longrightarrow>
   ref_at (drain_egress n b s) m = ref_at b m - of_nat (length (filter (seg_owns m) (egress_contents (client_at b s))))
   \<and> popped b s n (drain_egress n b s) \<and> msgs_shape (drain_egress n b s)
   \<and> mp_capacity (b_msg_pool (drain_egress n b s)) = mp_capacity (b_msg_pool b)"
proof (induction n arbitrary: b)
  case 0
  have "egress_contents (client_at b s) = []" using 0(5) length_egress_contents [of "client_at b s"] by (metis length_0_conv)
  then show ?case using popped_0 0 by simp
next
  case (Suc n)
  let ?c = "client_at b s" and ?seg = "egress_head (client_at b s)"
  have pos: "0 < c_egress_count ?c" using Suc.prems(5) by simp
  define b1 where "b1 = (if seg_kind ?seg = SEG_PUBLISH \<and> seg_msg_idx ?seg \<noteq> MSG_POOL_INVALID \<and> seg_packet_id ?seg = 0
      then release_msg_ref b (seg_msg_idx ?seg) else b)"
  let ?b = "client_update b1 s egress_pop_head"
  have step: "drain_egress (Suc n) b s = drain_egress n ?b s" using pos by (simp add: b1_def Let_def)
  have pop: "popped b s 1 ?b" by (rule popped_one [OF Suc.prems(1) pos Suc.prems(2)]) (auto simp: b1_def)
  have "egress_contents ?c \<noteq> []" using pos by (simp flip: length_greater_0_conv)
  then obtain rest where cs: "egress_contents ?c = ?seg # rest"
    using egress_head_contents [OF Suc.prems(1) pos] by (cases "egress_contents ?c") auto
  have "m \<noteq> MSG_POOL_INVALID" using Suc.prems(3,4) by (simp add: msgs_shape_def)
  then have r: "ref_at b1 m = (if seg_owns m ?seg then ref_at b m - 1 else ref_at b m)" "msgs_shape b1"
      "mp_capacity (b_msg_pool b1) = mp_capacity (b_msg_pool b)"
    using ref_release [OF Suc.prems(3,4)] Suc.prems(3) by (auto simp: b1_def seg_owns_def)
  have P: "egress_ring_wf (client_at ?b s)" "s < length (b_clients ?b)" "n = c_egress_count (client_at ?b s)"
      "egress_contents (client_at ?b s) = rest"
    using pop Suc.prems by (simp_all add: popped_def cs)
  have IH: "ref_at (drain_egress n ?b s) m = ref_at ?b m - of_nat (length (filter (seg_owns m) rest))"
      "popped ?b s n (drain_egress n ?b s)" "msgs_shape (drain_egress n ?b s)"
      "mp_capacity (b_msg_pool (drain_egress n ?b s)) = mp_capacity (b_msg_pool ?b)"
    using Suc.IH [OF P(1,2) _ _ P(3)] r Suc.prems(4) P(4) by simp_all
  have "popped b s (1 + n) (drain_egress n ?b s)" by (rule popped_trans [OF pop IH(2)])
  then show ?case unfolding step using IH r by (simp add: cs)
qed

lemma release_inflight_refs:
  "inflight_wf (client_at b s) \<Longrightarrow> n \<le> c_max_inflight (client_at b s) \<Longrightarrow>
   found = length (filter (in_use (client_at b s)) [0..<c_max_inflight (client_at b s) - n]) \<Longrightarrow>
   msgs_shape b \<Longrightarrow> m < mp_capacity (b_msg_pool b) \<Longrightarrow>
   ref_at (release_inflight n found b s) m
     = ref_at b m - of_nat (length (filter (slot_owns (client_at b s) m)
         [c_max_inflight (client_at b s) - n..<c_max_inflight (client_at b s)]))
   \<and> b_clients (release_inflight n found b s) = b_clients b"
proof (induction n arbitrary: found b)
  case 0
  then show ?case by simp
next
  case (Suc n)
  let ?c = "client_at b s"
  let ?max = "c_max_inflight ?c"
  let ?i = "?max - Suc n"
  have i: "[?i..<?max] = ?i # [?max - n..<?max]" "?max - n = Suc ?i" "?i < ?max"
    using Suc.prems(2) by (simp_all add: upt_conv_Cons Suc_diff_Suc)
  have u: "in_use ?c ?i \<longleftrightarrow> ih_state (c_inflight_hot ?c ! ?i) \<noteq> INFLIGHT_FREE" using i(3) by (simp add: in_use_def)
  have total: "c_inflight_count ?c = length (filter (in_use ?c) [0..<?max])"
  proof -
    have "{i. in_use ?c i} = set (filter (in_use ?c) [0..<?max])" by (auto simp: in_use_def)
    then show ?thesis
      using inflight_wfD(2) [OF Suc.prems(1)] distinct_card [of "filter (in_use ?c) [0..<?max]"] by simp
  qed
  have split: "[0..<?max] = [0..<?i] @ [?i..<?max]" using i(3) upt_add_eq_append [of 0 ?i "?max - ?i"] by simp
  show ?case
  proof (cases "found < c_inflight_count ?c")
    case False
    then have "filter (in_use ?c) [?i..<?max] = []"
      using Suc.prems(3) total unfolding split by (simp del: length_filter_conv_card)
    then have "filter (slot_owns ?c m) [?i..<?max] = []"
      by (auto simp: filter_empty_conv slot_owns_def in_use_def)
    then show ?thesis using False by (simp add: Let_def)
  next
    case True
    have hot: "c_inflight_hot ?c ! (c_max_inflight ?c - Suc n) = c_inflight_hot ?c ! ?i" ..
    show ?thesis
    proof (cases "ih_state (c_inflight_hot ?c ! ?i) = INFLIGHT_FREE")
      case free: True
      have "found = length (filter (in_use ?c) [0..<?max - n])" using Suc.prems(3) free u i(2) by simp
      from Suc.IH [OF Suc.prems(1) _ this Suc.prems(4,5)] show ?thesis
        using Suc.prems(2) True free i(1) by (simp add: Let_def slot_owns_def)
    next
      case used: False
      define b1 where "b1 = (if ih_direction (c_inflight_hot ?c ! ?i) = 0 \<and> ih_msg_idx (c_inflight_hot ?c ! ?i) \<noteq> MSG_POOL_INVALID
          then release_msg_ref b (ih_msg_idx (c_inflight_hot ?c ! ?i)) else b)"
      have same: "client_at b1 = client_at b" "b_clients b1 = b_clients b" by (simp_all add: b1_def release_msg_ref_same)
      have "m \<noteq> MSG_POOL_INVALID" using Suc.prems(4,5) by (simp add: msgs_shape_def)
      then have r: "ref_at b1 m = (if slot_owns ?c m ?i then ref_at b m - 1 else ref_at b m)" "msgs_shape b1"
          "mp_capacity (b_msg_pool b1) = mp_capacity (b_msg_pool b)"
        using ref_release [OF Suc.prems(4,5)] Suc.prems(4) used by (auto simp: b1_def slot_owns_def)
      have "found + 1 = length (filter (in_use ?c) [0..<?max - n])" using Suc.prems(3) used u i(2) by simp
      from Suc.IH [of b1 "found + 1", unfolded same, OF Suc.prems(1) _ this r(2)]
      have "ref_at (release_inflight n (found + 1) b1 s) m = ref_at b1 m - of_nat (length (filter (slot_owns ?c m) [?max - n..<?max]))
          \<and> b_clients (release_inflight n (found + 1) b1 s) = b_clients b"
        using Suc.prems(2,5) r(3) by simp
      moreover have "release_inflight (Suc n) found b s = release_inflight n (found + 1) b1 s"
        using True used by (simp add: Let_def b1_def)
      ultimately show ?thesis using r(1) unfolding i(1) by simp
    qed
  qed
qed

text \<open>C6: a disconnect empties the client's egress queue and gives back, for every message, exactly one
  reference per queued first transmission and per outgoing in-flight entry of the client.  It leaves the entries of the
  in-flight table in place (freeing the slot clears them) and the other clients as they are.\<close>

theorem disconnect_releases_refs:
  assumes "egress_ring_wf (client_at b s)" "inflight_wf (client_at b s)" "s < length (b_clients b)"
    and "msgs_shape b" "m < mp_capacity (b_msg_pool b)"
  shows "ref_at (fsm_client_disconnect b s) m = ref_at b m - of_nat (owned_refs (client_at b s) m)
     \<and> egress_contents (client_at (fsm_client_disconnect b s) s) = []
     \<and> c_inflight_hot (client_at (fsm_client_disconnect b s) s) = c_inflight_hot (client_at b s)
     \<and> (\<forall>j. j \<noteq> s \<longrightarrow> client_at (fsm_client_disconnect b s) j = client_at b j)"
proof -
  let ?c = "client_at b s" and ?b1 = "drain_egress (c_egress_count (client_at b s)) b s"
  have D: "ref_at ?b1 m = ref_at b m - of_nat (length (filter (seg_owns m) (egress_contents ?c)))"
      "popped b s (c_egress_count ?c) ?b1" "msgs_shape ?b1" "mp_capacity (b_msg_pool ?b1) = mp_capacity (b_msg_pool b)"
    using drain_egress_refs [OF assms(1,3,4,5) refl] by simp_all
  obtain h n where c1: "client_at ?b1 s = ?c\<lparr>c_egress_head := h, c_egress_count := n\<rparr>" using D(2) by (auto simp: popped_def)
  have "inflight_view (client_at ?b1 s) = inflight_view ?c" by (simp add: c1 inflight_view_def)
  then have wf1: "inflight_wf (client_at ?b1 s)" using assms(2) inflight_view_eq(4) by blast
  have e: "egress_contents (client_at ?b1 s) = []" using D(2) by (simp add: popped_def)
  have owns: "slot_owns (client_at ?b1 s) m = slot_owns ?c m" "c_max_inflight (client_at ?b1 s) = c_max_inflight ?c"
      "c_inflight_count (client_at ?b1 s) = c_inflight_count ?c" "c_inflight_hot (client_at ?b1 s) = c_inflight_hot ?c"
    by (simp_all add: c1 slot_owns_def fun_eq_iff)
  have other: "client_at ?b1 j = client_at b j" if "j \<noteq> s" for j using D(2) that by (simp add: popped_def)
  show ?thesis
  proof (cases "c_inflight_count ?c = 0")
    case True
    then have "{i. in_use ?c i} = {}" using inflight_wfD(2) [OF assms(2)] by simp
    then have "filter (slot_owns ?c m) [0..<c_max_inflight ?c] = []"
      by (auto simp: filter_empty_conv slot_owns_def in_use_def)
    then have "owned_refs ?c m = length (filter (seg_owns m) (egress_contents ?c))" by (simp add: owned_refs_def)
    moreover have "fsm_client_disconnect b s = ?b1" using True owns(3) by (simp add: fsm_client_disconnect_def Let_def)
    ultimately show ?thesis using D(1) e owns(4) other by simp
  next
    case False
    let ?b2 = "release_inflight (c_max_inflight (client_at ?b1 s)) 0 ?b1 s"
    have "0 = length (filter (in_use (client_at ?b1 s)) [0..<c_max_inflight (client_at ?b1 s) - c_max_inflight (client_at ?b1 s)])" by simp
    from release_inflight_refs [OF wf1 order_refl this D(3)] D(4) assms(5)
    have R: "ref_at ?b2 m = ref_at ?b1 m - of_nat (length (filter (slot_owns ?c m) [0..<c_max_inflight ?c]))" "b_clients ?b2 = b_clients ?b1"
      using owns by simp_all
    have "client_at ?b2 = client_at ?b1" using R(2) by (simp add: client_at_def fun_eq_iff)
    moreover have "fsm_client_disconnect b s = ?b2" using False owns(3) by (simp add: fsm_client_disconnect_def Let_def)
    ultimately show ?thesis using D(1) R(1) e owns(4) other by (simp add: owned_refs_def)
  qed
qed

section \<open>Response senders\<close>

text \<open>A response only touches the response slots of its client, the ring and the kernel's side.\<close>

definition resp_frame :: "broker \<Rightarrow> nat \<Rightarrow> broker \<Rightarrow> bool" where
  "resp_frame b s b' \<longleftrightarrow> (\<exists>x y z. client_at b' s = (client_at b s)\<lparr>c_resp_slot := x, c_resp_in_flight := y, c_resp_buf := z\<rparr>)
     \<and> length (b_clients b') = length (b_clients b) \<and> (\<forall>j. j \<noteq> s \<longrightarrow> client_at b' j = client_at b j)
     \<and> b_now b' = b_now b \<and> b_msg_pool b' = b_msg_pool b \<and> b_trie b' = b_trie b"

lemma get_sqe_with_flush_same:
  assumes "get_sqe_with_flush k b = (r, b')"
  shows "b_clients b' = b_clients b" "b_now b' = b_now b" "b_msg_pool b' = b_msg_pool b" "b_trie b' = b_trie b"
  using assms by (auto simp: get_sqe_with_flush_def broker_enter_def Let_def split: prod.splits option.splits)

lemma resp_slot_loop_client: "\<exists>x. snd (resp_slot_loop c n) = c\<lparr>c_resp_slot := x\<rparr>"
proof (induction n)
  case 0
  show ?case by (rule exI [of _ "c_resp_slot c"]) simp
next
  case (Suc n)
  then show ?case by (auto simp: Let_def)
qed

lemma resp_update_same: "\<exists>x y z. c = c\<lparr>c_resp_slot := x, c_resp_in_flight := y, c_resp_buf := z\<rparr>" for c :: client_slot
  by (intro exI [of _ "c_resp_slot c"] exI [of _ "c_resp_in_flight c"] exI [of _ "c_resp_buf c"]) simp

lemma resp_frame_refl: "resp_frame b s b"
  using resp_update_same by (simp add: resp_frame_def)

lemma resp_frame_trans:
  assumes "resp_frame b s b'" "resp_frame b' s b''"
  shows "resp_frame b s b''"
proof -
  obtain x y z x' y' z' where "client_at b' s = (client_at b s)\<lparr>c_resp_slot := x, c_resp_in_flight := y, c_resp_buf := z\<rparr>"
      "client_at b'' s = (client_at b' s)\<lparr>c_resp_slot := x', c_resp_in_flight := y', c_resp_buf := z'\<rparr>"
    using assms unfolding resp_frame_def by blast
  then have "\<exists>x y z. client_at b'' s = (client_at b s)\<lparr>c_resp_slot := x, c_resp_in_flight := y, c_resp_buf := z\<rparr>"
    by (intro exI [of _ x'] exI [of _ y'] exI [of _ z']) simp
  then show ?thesis using assms by (simp add: resp_frame_def)
qed

lemma resp_frame_update:
  assumes "s < length (b_clients b)" "\<exists>x y z. f (client_at b s) = (client_at b s)\<lparr>c_resp_slot := x, c_resp_in_flight := y, c_resp_buf := z\<rparr>"
    "b_clients b1 = b_clients b" "b_now b1 = b_now b" "b_msg_pool b1 = b_msg_pool b" "b_trie b1 = b_trie b"
  shows "resp_frame b s (client_update b1 s f)"
  using assms by (simp add: resp_frame_def client_update_def client_at_def)

lemma submit_send_resp_slot_frame:
  assumes "s < length (b_clients b)"
  shows "resp_frame b s (snd (submit_send_resp_slot k b s slot len))"
proof -
  obtain r b1 where g: "get_sqe_with_flush k b = (r, b1)" by (cases "get_sqe_with_flush k b")
  note same = get_sqe_with_flush_same [OF g]
  have m: "\<exists>x y z. client_resp_slot_mark_inflight c slot = c\<lparr>c_resp_slot := x, c_resp_in_flight := y, c_resp_buf := z\<rparr>" for c
    unfolding client_resp_slot_mark_inflight_def
    by (intro exI [of _ "c_resp_slot c"] exI [of _ "c_resp_in_flight c OR push_bit slot 1"] exI [of _ "c_resp_buf c"]) simp
  show ?thesis
  proof (cases r)
    case None
    then show ?thesis using g same resp_update_same by (simp add: submit_send_resp_slot_def resp_frame_def client_at_def)
  next
    case (Some j)
    then show ?thesis
      unfolding submit_send_resp_slot_def g Let_def option.case prod.case snd_conv
      using assms m same by (simp only: option.case snd_conv) (intro resp_frame_update, simp_all add: put_sqe_def)
  qed
qed

lemma send_resp_frame:
  assumes "s < length (b_clients b)"
  shows "resp_frame b s (snd (send_resp k b s hdr pid))"
proof (cases "c_state (client_at b s) = CLIENT_ACTIVE")
  case False
  then show ?thesis using resp_frame_refl by (simp add: send_resp_def)
next
  case True
  obtain slot c where g: "client_get_resp_slot (client_at b s) = (slot, c)" by (cases "client_get_resp_slot (client_at b s)")
  then obtain x where c: "c = (client_at b s)\<lparr>c_resp_slot := x\<rparr>"
    using resp_slot_loop_client [of "client_at b s" RESP_SLOTS] by (auto simp: client_get_resp_slot_def)
  let ?b1 = "client_update b s (\<lambda>_. c)"
  have "\<exists>x y z. c = (client_at b s)\<lparr>c_resp_slot := x, c_resp_in_flight := y, c_resp_buf := z\<rparr>"
    by (intro exI [of _ x] exI [of _ "c_resp_in_flight (client_at b s)"] exI [of _ "c_resp_buf (client_at b s)"]) (simp add: c)
  then have f1: "resp_frame b s ?b1" using resp_frame_update [OF assms, of "\<lambda>_. c" b] by simp
  have s1: "s < length (b_clients ?b1)" using assms by (simp add: client_update_def)
  show ?thesis
  proof (cases "slot = RESP_SLOTS")
    case True
    then show ?thesis
      using f1 \<open>c_state (client_at b s) = CLIENT_ACTIVE\<close> g
      by (simp add: send_resp_def sys_write_def Let_def resp_frame_def client_at_def)
  next
    case False
    let ?b2 = "fill_resp ?b1 s slot [hdr ! 0, hdr ! 1, hi8 pid, lo8 pid]"
    have "\<exists>x y z. c\<lparr>c_resp_buf := w\<rparr> = c\<lparr>c_resp_slot := x, c_resp_in_flight := y, c_resp_buf := z\<rparr>" for c :: client_slot and w
      by (intro exI [of _ "c_resp_slot c"] exI [of _ "c_resp_in_flight c"] exI [of _ w]) simp
    then have f2: "resp_frame ?b1 s ?b2" unfolding fill_resp_def by (intro resp_frame_update [OF s1]) auto
    have "s < length (b_clients ?b2)" using s1 by (simp add: fill_resp_def client_update_def)
    note f3 = submit_send_resp_slot_frame [OF this, of k slot 4]
    have "snd (send_resp k b s hdr pid) = snd (submit_send_resp_slot k ?b2 s slot 4)"
      using False \<open>c_state (client_at b s) = CLIENT_ACTIVE\<close> g by (simp add: send_resp_def Let_def)
    then show ?thesis using resp_frame_trans [OF f1 resp_frame_trans [OF f2 f3]] by simp
  qed
qed

lemma resp_frame_view: "resp_frame b s b' \<Longrightarrow> inflight_view (client_at b' s) = inflight_view (client_at b s)"
  by (auto simp: resp_frame_def inflight_view_def)

section \<open>QoS 2 from a publisher\<close>

lemma inflight_hash_insert_hot: "c_inflight_hot (inflight_hash_insert c pid slot) = c_inflight_hot c"
    "c_max_inflight (inflight_hash_insert c pid slot) = c_max_inflight c"
  by (simp_all add: inflight_hash_insert_def Let_def split: option.splits)

lemma track_incoming_state:
  assumes "client_inflight_track_incoming c pid dl = (Some slot, c')" "\<not> in_use c slot" "inflight_wf c" "in_use c' slot"
  shows "ih_state (c_inflight_hot c' ! slot) = INFLIGHT_WAIT_PUBREL"
proof -
  note sh = inflight_wfD(1) [OF assms(3)]
  have used: "\<not> (i < c_max_inflight c \<and> is_incoming c pid i \<and> i = slot)" for i
    using assms(2) by (auto simp: is_incoming_def in_use_def)
  have "\<not> is_incoming c pid (direct_slot c pid) \<or> direct_slot c pid \<noteq> slot"
    using used [of "direct_slot c pid"] direct_slot_below [OF sh, of pid] by blast
  moreover have "find (is_incoming c pid) [0..<c_max_inflight c] \<noteq> Some slot"
  proof
    assume "find (is_incoming c pid) [0..<c_max_inflight c] = Some slot"
    then have "slot < c_max_inflight c \<and> is_incoming c pid slot" by (auto simp: find_Some_iff)
    with used [of slot] show False by simp
  qed
  moreover have "slot < length (c_inflight_hot c')" if "c_inflight_hot c' = (c_inflight_hot c)[slot := h]" "c_max_inflight c' = c_max_inflight c" for h
    using assms(4) that table_shapeD(6) [OF sh] by (simp add: in_use_def)
  ultimately show ?thesis
    using assms(1)
    by (auto simp: client_inflight_track_incoming_def Let_def inflight_hash_insert_hot fill_inflight_def
        split: if_splits option.splits)
qed

lemma free_slot_max: "client_inflight_free_slot c slot = Some c' \<Longrightarrow> c_max_inflight c' = c_max_inflight c"
  by (auto simp: client_inflight_free_slot_def inflight_hash_remove_def Let_def split: if_splits option.splits prod.splits)

text \<open>A QoS 2 PUBLISH whose identifier no entry uses.\<close>

lemma pub_received_new:
  assumes wf: "inflight_wf (client_at b s)" and s: "s < length (b_clients b)" and pid: "pid \<noteq> 0"
    and new: "\<And>i. in_use (client_at b s) i \<Longrightarrow> pkt_id (client_at b s) i \<noteq> pid"
    and room: "c_inflight_count (client_at b s) < c_max_inflight (client_at b s)"
  obtains b1 slot where "fsm_pub_received k b s 2 pid = (True, b1)" "inflight_wf (client_at b1 s)" "length (b_clients b1) = length (b_clients b)"
    "\<not> in_use (client_at b s) slot" "\<And>i. in_use (client_at b1 s) i \<longleftrightarrow> in_use (client_at b s) i \<or> i = slot"
    "\<And>i. pkt_id (client_at b1 s) i = (if i = slot then pid else pkt_id (client_at b s) i)"
    "slot \<in> incoming_slots (client_at b1 s)" "client_inflight_find (client_at b1 s) pid = Some slot"
    "ih_state (c_inflight_hot (client_at b1 s) ! slot) = INFLIGHT_WAIT_PUBREL" "c_max_inflight (client_at b1 s) = c_max_inflight (client_at b s)"
proof -
  let ?c = "client_at b s"
  have none: "client_inflight_find ?c pid = None" using inflight_find_ok [OF wf, of pid] new by blast
  have fresh: "\<not> (\<exists>i \<in> incoming_slots ?c. pkt_id ?c i = pid)" using new incoming_in_use by blast
  with inflight_track_ok [OF wf pid, of "b_now b + LLMQ_INFLIGHT_TIMEOUT_MS"] room
  obtain slot c' where t: "client_inflight_track_incoming ?c pid (b_now b + LLMQ_INFLIGHT_TIMEOUT_MS) = (Some slot, c')"
      "\<not> in_use ?c slot" "inflight_wf c'" "\<forall>i. in_use c' i \<longleftrightarrow> in_use ?c i \<or> i = slot"
      "\<forall>i. pkt_id c' i = (if i = slot then pid else pkt_id ?c i)" "incoming_slots c' = insert slot (incoming_slots ?c)"
      "client_inflight_find c' pid \<noteq> None"
    by auto
  have find: "client_inflight_find c' pid = Some slot"
  proof -
    obtain j where j: "client_inflight_find c' pid = Some j" using t(7) by blast
    then have "in_use c' j" "pkt_id c' j = pid" using inflight_find_ok [OF t(3), of pid] by blast+
    then have "j = slot" using t(4,5) new by (auto split: if_splits)
    with j show ?thesis by simp
  qed
  have state: "ih_state (c_inflight_hot c' ! slot) = INFLIGHT_WAIT_PUBREL"
    by (rule track_incoming_state [OF t(1,2) wf]) (use t(4) in auto)
  let ?b1 = "client_update b s (\<lambda>_. c')" and ?b2 = "send_pubrec k (client_update b s (\<lambda>_. c')) s pid"
  have at1: "client_at ?b1 s = c'" "s < length (b_clients ?b1)" using s by (simp_all add: client_update_def client_at_def)
  have fr: "resp_frame ?b1 s ?b2" unfolding send_pubrec_def by (rule send_resp_frame [OF at1(2)])
  have view: "inflight_view (client_at ?b2 s) = inflight_view c'" using resp_frame_view [OF fr] at1(1) by simp
  note V = inflight_view_eq [OF view]
  have "fsm_pub_received k b s 2 pid = (True, ?b2)" using none t(1) by (simp add: fsm_pub_received_def)
  moreover have "length (b_clients ?b2) = length (b_clients b)" using fr by (simp add: resp_frame_def client_update_def)
  moreover have "c_max_inflight c' = c_max_inflight ?c"
    using t(1) by (auto simp: client_inflight_track_incoming_def Let_def inflight_hash_insert_hot fill_inflight_def
        split: if_splits option.splits)
  ultimately show thesis using that [of ?b2 slot] t find V state by simp
qed

text \<open>A duplicate that arrives while its entry waits for PUBREL.\<close>

lemma pub_received_dup:
  assumes "client_inflight_find (client_at b s) pid = Some slot" "ih_direction (c_inflight_hot (client_at b s) ! slot) = 1"
    "s < length (b_clients b)"
  obtains b1 where "fsm_pub_received k b s 2 pid = (False, b1)" "resp_frame b s b1"
  using assms that [of "send_pubrec k b s pid"] send_resp_frame [OF assms(3)]
  by (simp add: fsm_pub_received_def send_pubrec_def)

text \<open>A run of duplicates of one PUBLISH: which of them are fanned out.\<close>

fun resend :: "kernel list \<Rightarrow> broker \<Rightarrow> nat \<Rightarrow> u16 \<Rightarrow> bool list \<times> broker" where
  "resend [] b s pid = ([], b)"
| "resend (k # ks) b s pid =
     (let (fan, b) = fsm_pub_received k b s 2 pid; (fans, b) = resend ks b s pid in (fan # fans, b))"

lemma resend_dup:
  assumes "client_inflight_find (client_at b s) pid = Some slot" "ih_direction (c_inflight_hot (client_at b s) ! slot) = 1"
    "s < length (b_clients b)"
  shows "\<exists>b'. resend ks b s pid = (replicate (length ks) False, b') \<and> inflight_view (client_at b' s) = inflight_view (client_at b s)
     \<and> s < length (b_clients b')"
  using assms
proof (induction ks arbitrary: b)
  case (Cons k ks)
  obtain b1 where b1: "fsm_pub_received k b s 2 pid = (False, b1)" "resp_frame b s b1"
    by (rule pub_received_dup [OF Cons.prems])
  have v: "inflight_view (client_at b1 s) = inflight_view (client_at b s)" by (rule resp_frame_view [OF b1(2)])
  note V = inflight_view_eq [OF v]
  have "s < length (b_clients b1)" using Cons.prems(3) b1(2) by (simp add: resp_frame_def)
  with Cons.IH [of b1] Cons.prems V obtain b' where "resend ks b1 s pid = (replicate (length ks) False, b')"
      "inflight_view (client_at b' s) = inflight_view (client_at b1 s)" "s < length (b_clients b')"
    by auto
  then show ?case using b1(1) v by simp
qed simp

text \<open>C5: a QoS 2 message whose packet identifier no in-flight entry of the client uses, in either direction, is fanned out
  once if the table has room: the first PUBLISH is accepted, each of any number of duplicates that follow it is answered and
  not fanned out, the PUBREL ends the ceremony with the in-flight table as it was before, and only then is the identifier
  accepted as a new message.  An entry towards the client with the same identifier hides the incoming one from the lookup;
  a duplicate is then not recognised.\<close>

theorem qos2_exactly_once:
  assumes wf: "inflight_wf (client_at b s)" and s: "s < length (b_clients b)" and pid: "pid \<noteq> 0"
    and new: "\<forall>i. in_use (client_at b s) i \<longrightarrow> pkt_id (client_at b s) i \<noteq> pid"
    and room: "c_inflight_count (client_at b s) < c_max_inflight (client_at b s)"
  shows "\<exists>b1 b2 b3. fsm_pub_received k1 b s 2 pid = (True, b1) \<and> resend ks b1 s pid = (replicate (length ks) False, b2)
     \<and> fsm_pub_pubrel_received k3 b2 s pid = Some b3 \<and> fst (fsm_pub_received k4 b3 s 2 pid)
     \<and> inflight_wf (client_at b3 s) \<and> (\<forall>i. in_use (client_at b3 s) i = in_use (client_at b s) i)
     \<and> c_inflight_count (client_at b3 s) = c_inflight_count (client_at b s)"
proof -
  let ?c = "client_at b s"
  obtain b1 slot where b1: "fsm_pub_received k1 b s 2 pid = (True, b1)" "inflight_wf (client_at b1 s)"
      "length (b_clients b1) = length (b_clients b)" "\<not> in_use ?c slot"
      "\<And>i. in_use (client_at b1 s) i \<longleftrightarrow> in_use ?c i \<or> i = slot"
      "\<And>i. pkt_id (client_at b1 s) i = (if i = slot then pid else pkt_id ?c i)"
      "slot \<in> incoming_slots (client_at b1 s)" "client_inflight_find (client_at b1 s) pid = Some slot"
      "ih_state (c_inflight_hot (client_at b1 s) ! slot) = INFLIGHT_WAIT_PUBREL" "c_max_inflight (client_at b1 s) = c_max_inflight ?c"
    using pub_received_new [OF wf s pid _ room] new by metis
  have s1: "s < length (b_clients b1)" using s b1(3) by simp
  have dir: "ih_direction (c_inflight_hot (client_at b1 s) ! slot) = 1" using b1(7) by (simp add: incoming_slots_def)
  obtain b2 where b2: "resend ks b1 s pid = (replicate (length ks) False, b2)" "inflight_view (client_at b2 s) = inflight_view (client_at b1 s)"
      and s2: "s < length (b_clients b2)"
    using resend_dup [OF b1(8) dir s1] by blast
  note V2 = inflight_view_eq [OF b2(2)]
  have wf2: "inflight_wf (client_at b2 s)" using b1(2) V2(4) by simp
  have "in_use (client_at b2 s) slot" using b1(5) V2(1) by simp
  from client_inflight_free_slot_correct [OF wf2 this]
  obtain c3 where c3: "client_inflight_free_slot (client_at b2 s) slot = Some c3" "inflight_wf c3"
      "\<forall>i. in_use c3 i \<longleftrightarrow> in_use (client_at b2 s) i \<and> i \<noteq> slot" "pkt_id c3 = pkt_id (client_at b2 s)"
      "c_inflight_count c3 + 1 = c_inflight_count (client_at b2 s)"
    by blast
  have max3: "c_max_inflight c3 = c_max_inflight ?c"
    using free_slot_max [OF c3(1)] V2(7) b1(10) by simp
  let ?b3 = "send_pubcomp k3 (client_update b2 s (\<lambda>_. c3)) s pid"
  have at3: "client_at (client_update b2 s (\<lambda>_. c3)) s = c3" "s < length (b_clients (client_update b2 s (\<lambda>_. c3)))"
    using s2 by (simp_all add: client_update_def client_at_def)
  have fr3: "resp_frame (client_update b2 s (\<lambda>_. c3)) s ?b3" unfolding send_pubcomp_def by (rule send_resp_frame [OF at3(2)])
  then have len3: "s < length (b_clients ?b3)" using at3(2) by (simp add: resp_frame_def)
  have "inflight_view (client_at ?b3 s) = inflight_view c3" using resp_frame_view [OF fr3] at3(1) by simp
  note V3 = inflight_view_eq [OF this]
  have run: "fsm_pub_pubrel_received k3 b2 s pid = Some ?b3"
    using b1(8,9) dir c3(1) V2(5,8) by (simp add: fsm_pub_pubrel_received_def Let_def)
  have use3: "in_use (client_at ?b3 s) i = in_use ?c i" for i using b1(4,5) c3(3) V2(1) V3(1) by auto
  have pkt3: "pkt_id (client_at ?b3 s) i \<noteq> pid" if "in_use (client_at ?b3 s) i" for i
    using that use3 new b1(4,6) c3(4) V2(2) V3(2) by auto
  have "card {i. in_use (client_at ?b3 s) i} = card {i. in_use ?c i}" using use3 by simp
  then have cnt: "c_inflight_count (client_at ?b3 s) = c_inflight_count ?c"
    using inflight_wfD(2) [OF wf] inflight_wfD(2) [of "client_at ?b3 s"] c3(2) V3(4) by simp
  have wf3: "inflight_wf (client_at ?b3 s)" using c3(2) V3(4) by simp
  have "c_inflight_count (client_at ?b3 s) < c_max_inflight (client_at ?b3 s)" using room cnt V3(7) max3 by simp
  then have "fst (fsm_pub_received k4 ?b3 s 2 pid)"
    using pub_received_new [OF wf3 len3 pid pkt3, of k4] by (metis fst_conv)
  with b1(1) b2(1) run wf3 use3 cnt show ?thesis by blast
qed

section \<open>Instances\<close>

text \<open>One message with one reference, one buffer, and a client with one queued PUBLISH.\<close>

definition one_msg_client :: client_slot where
  "one_msg_client = (client_init (initial_client 1 4 4 0) 7 0 4)\<lparr>c_egress := replicate 4 zero_segment, c_egress_count := 1\<rparr>"

definition one_msg_broker :: "broker \<Rightarrow> broker" where
  "one_msg_broker b = b\<lparr>b_clients := [one_msg_client],
     b_msg_pool := \<lparr>mp_msgs = [zero_msg\<lparr>cm_ref_count := 1\<rparr>], mp_map = None, mp_free_stack = [0], mp_stack_map = None,
       mp_capacity = 1, mp_free_count = 0, mp_high_water = 1, mp_oob = False\<rparr>,
     b_recv_pool := \<lparr>bp_bufs = [[97]], bp_map = None, bp_free_stack = [0], bp_stack_map = None, bp_buf_size = 1,
       bp_capacity = 1, bp_free_count = 0, bp_high_water = 1, bp_oob = False\<rparr>\<rparr>"

lemma one_msg_pools:
  "msg_pool_wf (b_msg_pool (one_msg_broker b))" "buf_pool_wf (b_recv_pool (one_msg_broker b))"
  "msg_pool_in_use (b_msg_pool (one_msg_broker b)) = {0}" "buf_pool_in_use (b_recv_pool (one_msg_broker b)) = {0}"
  "msg_pool_refcount (b_msg_pool (one_msg_broker b)) 0 = 1" "cm_buf_idx (mp_msgs (b_msg_pool (one_msg_broker b)) ! 0) = 0"
  by (auto simp: one_msg_broker_def msg_pool_wf_def buf_pool_wf_def free_stack_ok_def MSG_POOL_INVALID_def BUF_POOL_INVALID_def
      msg_pool_in_use_def buf_pool_in_use_def stack_in_use_def msg_pool_refcount_def zero_msg_def)

lemma one_msg_client:
  "egress_ring_wf one_msg_client" "inflight_wf one_msg_client" "egress_contents one_msg_client = [zero_segment]"
proof -
  have "(4 :: nat) = 2 ^ 2" by simp
  then have "\<exists>k. (4 :: nat) = 2 ^ k" by (rule exI)
  then show "egress_ring_wf one_msg_client"
    by (simp add: egress_ring_wf_def one_msg_client_def client_init_def initial_client_def zero_client_def pow2_table_def)
  have "inflight_wf (client_init (initial_client 1 4 4 0) 7 0 4)"
    by (rule client_init_wf(1) [where k = 2]) (simp_all add: initial_client_def)
  moreover have "inflight_view one_msg_client = inflight_view (client_init (initial_client 1 4 4 0) 7 0 4)"
    by (simp add: inflight_view_def one_msg_client_def)
  ultimately show "inflight_wf one_msg_client" using inflight_view_eq(4) by blast
  show "egress_contents one_msg_client = [zero_segment]"
    by (simp add: egress_contents_def ring_contents_def one_msg_client_def client_init_def initial_client_def zero_client_def)
qed

theorem release_msg_ref_correct_witness:
  "\<exists>b. msg_pool_in_use (b_msg_pool b) = {0} \<and> buf_pool_in_use (b_recv_pool b) = {0}
     \<and> msg_pool_in_use (b_msg_pool (release_msg_ref b 0)) = {} \<and> buf_pool_in_use (b_recv_pool (release_msg_ref b 0)) = {}"
proof -
  fix b0 :: broker
  note p = one_msg_pools [of b0]
  have "0 \<in> msg_pool_in_use (b_msg_pool (one_msg_broker b0))"
      "cm_buf_idx (mp_msgs (b_msg_pool (one_msg_broker b0)) ! 0) \<in> buf_pool_in_use (b_recv_pool (one_msg_broker b0))"
    unfolding p by simp_all
  from release_msg_ref_correct [OF p(1,2) this, of 0] p(3-6)
  have "msg_pool_in_use (b_msg_pool (release_msg_ref (one_msg_broker b0) 0)) = {}"
      "buf_pool_in_use (b_recv_pool (release_msg_ref (one_msg_broker b0) 0)) = {}"
    by (simp_all add: Let_def)
  with p(3,4) show ?thesis by blast
qed

theorem disconnect_releases_refs_witness:
  "\<exists>b. ref_at b 0 = 1 \<and> length (egress_contents (client_at b 0)) = 1 \<and> ref_at (fsm_client_disconnect b 0) 0 = 0
     \<and> egress_contents (client_at (fsm_client_disconnect b 0) 0) = []"
proof -
  fix b0 :: broker
  let ?b = "one_msg_broker b0"
  have at: "client_at ?b 0 = one_msg_client" "0 < length (b_clients ?b)" by (simp_all add: one_msg_broker_def client_at_def)
  have shape: "msgs_shape ?b" "0 < mp_capacity (b_msg_pool ?b)" by (simp_all add: msgs_shape_def one_msg_broker_def MSG_POOL_INVALID_def)
  have r: "ref_at ?b 0 = 1" using one_msg_pools(5) by (simp add: ref_at_def)
  have free: "ih_state (c_inflight_hot one_msg_client ! i) = INFLIGHT_FREE" if "i < 4" for i
    using that by (simp add: one_msg_client_def client_init_def initial_client_def fill_cells_def hot_reset_def)
  have "c_max_inflight one_msg_client = 4" by (simp add: one_msg_client_def client_init_def)
  then have "filter (slot_owns one_msg_client 0) [0..<c_max_inflight one_msg_client] = []"
    using free by (auto simp: filter_empty_conv slot_owns_def)
  then have "owned_refs one_msg_client 0 = 1"
    by (simp add: owned_refs_def one_msg_client(3) seg_owns_def zero_segment_def)
  with disconnect_releases_refs [of ?b 0 0, unfolded at(1), OF one_msg_client(1,2) at(2) shape] r
  have "ref_at (fsm_client_disconnect ?b 0) 0 = 0" "egress_contents (client_at (fsm_client_disconnect ?b 0) 0) = []" by simp_all
  moreover have "length (egress_contents (client_at ?b 0)) = 1" by (simp only: at one_msg_client(3)) simp
  ultimately show ?thesis using r by blast
qed

theorem qos2_exactly_once_witness:
  "\<exists>k b b1 b2 b3. fsm_pub_received k b 0 2 7 = (True, b1) \<and> resend [k, k] b1 0 7 = ([False, False], b2)
     \<and> fsm_pub_pubrel_received k b2 0 7 = Some b3 \<and> fst (fsm_pub_received k b3 0 2 7)"
proof -
  fix b0 :: broker and k :: kernel
  let ?b = "b0\<lparr>b_clients := [sample_client]\<rparr>"
  have at: "client_at ?b 0 = sample_client" "0 < length (b_clients ?b)" by (simp_all add: client_at_def)
  have r: "replicate (length [k, k]) False = [False, False]" by simp
  have "(7 :: u16) \<noteq> 0" "\<forall>i. in_use sample_client i \<longrightarrow> pkt_id sample_client i \<noteq> 7"
    "c_inflight_count sample_client < c_max_inflight sample_client"
    using sample_client_wf by simp_all
  from qos2_exactly_once [of ?b 0 7 k "[k, k]" k k, unfolded at(1) r, OF sample_client_wf(1) at(2) this] show ?thesis by blast
qed

lemma sweep_stop: "c_inflight_count (client_at b s) \<le> found \<Longrightarrow> sweep_slots n found p b s = Some (p, b)"
  by (cases n) (auto simp: Let_def)

lemma sweep_expired:
  assumes "found < c_inflight_count (client_at b s)" "c_max_inflight (client_at b s) - Suc n = i" "ih_state (hot_at b s i) \<noteq> INFLIGHT_FREE"
    "ic_deadline (cold_at b s i) \<noteq> 0" "b_now b > ic_deadline (cold_at b s i)" "ih_direction (hot_at b s i) = 0"
    "fsm_sub_timeout b s i = Some b'"
  shows "sweep_slots (Suc n) found p b s = sweep_slots n (found + 1) (p + 1) b' s"
  using assms by (simp add: Let_def)

definition expired_client :: client_slot where
  "expired_client = sample_client\<lparr>c_state := CLIENT_ACTIVE, c_inflight_count := 2,
     c_inflight_hot := (let h = \<lparr>ih_packet_id = 1, ih_state = INFLIGHT_WAIT_PUBACK, ih_direction = 0, ih_msg_idx = MSG_POOL_INVALID\<rparr>
        in [h, h\<lparr>ih_packet_id := 2\<rparr>, hot_reset, hot_reset]),
     c_inflight_cold := replicate 4 \<lparr>ic_deadline = 10, ic_packet_id_be = (0, 0), ic_qos = 1, ic_dup_count = 3\<rparr>\<rparr>"

text \<open>A sweep may stop before it has seen every in-flight entry: with two entries that have expired and
  used up their retries, giving up on the first lowers the count the loop is bounded by, and the second
  stays in the table until another sweep.\<close>

theorem sweep_stops_early:
  "\<exists>b b'. b_now b = 20 \<and> client_at b 0 = expired_client \<and> fsm_sweep_client b 0 = Some (1, b')
     \<and> in_use (client_at b' 0) 1 \<and> ic_dup_count (cold_at b' 0 1) = LLMQ_MAX_RETRIES \<and> ic_deadline (cold_at b' 0 1) < b_now b'"
proof -
  fix b0 :: broker
  let ?b = "b0\<lparr>b_clients := [expired_client], b_now := 20\<rparr>"
  have c: "c_inflight_count expired_client = 2" "c_max_inflight expired_client = 4" "c_state expired_client = CLIENT_ACTIVE"
      "c_inflight_hot expired_client ! 0 = \<lparr>ih_packet_id = 1, ih_state = INFLIGHT_WAIT_PUBACK, ih_direction = 0, ih_msg_idx = MSG_POOL_INVALID\<rparr>"
      "ih_state (c_inflight_hot expired_client ! 1) = INFLIGHT_WAIT_PUBACK" "length (c_inflight_hot expired_client) = 4"
      "i < 4 \<Longrightarrow> c_inflight_cold expired_client ! i = \<lparr>ic_deadline = 10, ic_packet_id_be = (0, 0), ic_qos = 1, ic_dup_count = 3\<rparr>" for i
    using sample_client_wf(4) by (simp_all add: expired_client_def)
  let ?c1 = "expired_client\<lparr>c_inflight_hot := (c_inflight_hot expired_client)[0 := (c_inflight_hot expired_client ! 0)
      \<lparr>ih_msg_idx := MSG_POOL_INVALID, ih_state := INFLIGHT_FREE\<rparr>], c_inflight_count := 1\<rparr>"
  let ?b1 = "?b\<lparr>b_clients := [?c1], b_msgs_dropped := b_msgs_dropped b0 + 1\<rparr>"
  have give: "fsm_sub_timeout ?b 0 0 = Some ?b1"
    by (simp add: fsm_sub_timeout_def fsm_give_up_def cold_at_def hot_at_def client_at_def c LLMQ_MAX_RETRIES_def
        release_msg_ref_def client_inflight_free_slot_def client_update_def)
  have "sweep_slots (Suc 3) 0 0 ?b 0 = sweep_slots 3 (0 + 1) (0 + 1) ?b1 0"
    by (rule sweep_expired [OF _ _ _ _ _ _ give]) (simp_all add: client_at_def cold_at_def hot_at_def c)
  also have "\<dots> = Some (0 + 1, ?b1)" by (rule sweep_stop) (simp add: client_at_def)
  finally have "fsm_sweep_client ?b 0 = Some (1, ?b1)" by (simp add: fsm_sweep_client_def client_at_def c)
  moreover have "in_use (client_at ?b1 0) 1" using c(5) by (simp add: in_use_def client_at_def c)
  moreover have "ic_dup_count (cold_at ?b1 0 1) = LLMQ_MAX_RETRIES" "ic_deadline (cold_at ?b1 0 1) < b_now ?b1"
    using c(7) [of 1] by (simp_all add: cold_at_def client_at_def LLMQ_MAX_RETRIES_def)
  moreover have "b_now ?b = 20" "client_at ?b 0 = expired_client" by (simp_all add: client_at_def)
  ultimately show ?thesis by blast
qed

end
