(* ===== verification/Conn.thy ===== *)
theory Conn
  imports Event_Loop Fsm_Correct
begin

text \<open>
  The part of the broker that packet processing leaves alone: the connection of every slot (its state,
  descriptor, generation and receive window), the free list, the counters and the descriptor map.
  Every operation of the message path, the flush engine, the ceremonies and the handlers has an
  equation \<open>conn (op b) = conn b\<close>; stealing a buffer is the one exception.
\<close>

section \<open>The view\<close>

record conn_view =
  v_state :: client_state
  v_fd :: int
  v_generation :: u8
  v_recv :: "bool \<times> nat \<times> nat \<times> nat \<times> nat"

definition conn_of :: "client_slot \<Rightarrow> conn_view" where
  "conn_of c = \<lparr>v_state = c_state c, v_fd = c_fd c, v_generation = c_generation c,
     v_recv = (c_recv_pending c, c_recv_buf_idx c, c_recv_start c, c_recv_len c, c_orphaned_recv_buf_idx c)\<rparr>"

record conn_table =
  t_clients :: "conn_view list"
  t_limits :: "nat \<times> nat \<times> nat \<times> nat"
  t_fds :: "int list"
  t_slots :: "nat \<times> nat \<times> nat"

definition conn :: "broker \<Rightarrow> conn_table" where
  "conn b = \<lparr>t_clients = map conn_of (b_clients b),
     t_limits = (b_max_clients b, b_max_fds b, bp_capacity (b_recv_pool b), bp_buf_size (b_recv_pool b)),
     t_fds = b_fd_to_slot b, t_slots = (b_free_head b, b_active_count b, b_dormant_count b)\<rparr>"

lemma conn_fields:
  assumes "conn b' = conn b"
  shows "length (b_clients b') = length (b_clients b)" "b_max_clients b' = b_max_clients b" "b_max_fds b' = b_max_fds b"
    "b_fd_to_slot b' = b_fd_to_slot b" "b_free_head b' = b_free_head b" "b_active_count b' = b_active_count b"
    "b_dormant_count b' = b_dormant_count b" "bp_capacity (b_recv_pool b') = bp_capacity (b_recv_pool b)"
    "bp_buf_size (b_recv_pool b') = bp_buf_size (b_recv_pool b)"
  using assms by (auto simp: conn_def dest: map_eq_imp_length_eq)

lemma conn_client:
  assumes "conn b' = conn b" "i < length (b_clients b)"
  shows "c_state (client_at b' i) = c_state (client_at b i)" "c_fd (client_at b' i) = c_fd (client_at b i)"
    "c_generation (client_at b' i) = c_generation (client_at b i)" "c_recv_pending (client_at b' i) = c_recv_pending (client_at b i)"
    "c_recv_buf_idx (client_at b' i) = c_recv_buf_idx (client_at b i)" "c_recv_start (client_at b' i) = c_recv_start (client_at b i)"
    "c_recv_len (client_at b' i) = c_recv_len (client_at b i)"
    "c_orphaned_recv_buf_idx (client_at b' i) = c_orphaned_recv_buf_idx (client_at b i)"
proof -
  have "map conn_of (b_clients b') = map conn_of (b_clients b)" using assms(1) by (simp add: conn_def)
  then have "map conn_of (b_clients b') ! i = map conn_of (b_clients b) ! i" by simp
  then have "conn_of (client_at b' i) = conn_of (client_at b i)"
    using assms conn_fields(1) [OF assms(1)] by (simp add: client_at_def)
  then show "c_state (client_at b' i) = c_state (client_at b i)" "c_fd (client_at b' i) = c_fd (client_at b i)"
    "c_generation (client_at b' i) = c_generation (client_at b i)" "c_recv_pending (client_at b' i) = c_recv_pending (client_at b i)"
    "c_recv_buf_idx (client_at b' i) = c_recv_buf_idx (client_at b i)" "c_recv_start (client_at b' i) = c_recv_start (client_at b i)"
    "c_recv_len (client_at b' i) = c_recv_len (client_at b i)"
    "c_orphaned_recv_buf_idx (client_at b' i) = c_orphaned_recv_buf_idx (client_at b i)"
    by (simp_all add: conn_of_def)
qed

lemma conn_update:
  assumes "conn_of (f (client_at b s)) = conn_of (client_at b s)"
  shows "conn (client_update b s f) = conn b"
proof (cases "s < length (b_clients b)")
  case True
  then have "map conn_of ((b_clients b)[s := f (b_clients b ! s)]) = map conn_of (b_clients b)"
    using assms by (simp add: map_update client_at_def list_update_same_conv)
  then show ?thesis by (simp add: conn_def client_update_def)
next
  case False
  then show ?thesis by (simp add: conn_def client_update_def list_update_beyond)
qed

lemma conn_updates [simp]:
  "conn (b\<lparr>b_ring := r\<rparr>) = conn b" "conn (b\<lparr>b_msg_pool := mp\<rparr>) = conn b" "conn (b\<lparr>b_trie := t\<rparr>) = conn b"
  "conn (b\<lparr>b_client_map := h\<rparr>) = conn b" "conn (b\<lparr>b_calls := cs\<rparr>) = conn b" "conn (b\<lparr>b_bytes_sent := x\<rparr>) = conn b"
  "conn (b\<lparr>b_drops_sq_full := x\<rparr>) = conn b" "conn (b\<lparr>b_drops_send_failed := x\<rparr>) = conn b" "conn (b\<lparr>b_drops_resp_full := x\<rparr>) = conn b"
  "conn (b\<lparr>b_drops_egress_full := x\<rparr>) = conn b" "conn (b\<lparr>b_msgs_dropped := x\<rparr>) = conn b" "conn (b\<lparr>b_msgs_published := x\<rparr>) = conn b"
  "conn (b\<lparr>b_drops_msg_pool_empty := x\<rparr>) = conn b" "conn (b\<lparr>b_accept_pending := y\<rparr>) = conn b"
  "conn (b\<lparr>b_egress_flush_queue := q\<rparr>) = conn b" "conn (b\<lparr>b_egress_flush_tail := y\<rparr>) = conn b" "conn (b\<lparr>b_egress_flush_head := y\<rparr>) = conn b"
  "conn (b\<lparr>b_recv_retry_queue := rq\<rparr>) = conn b" "conn (b\<lparr>b_recv_retry_tail := y\<rparr>) = conn b" "conn (b\<lparr>b_recv_retry_head := y\<rparr>) = conn b"
  "conn (b\<lparr>b_accepts := x\<rparr>) = conn b" "conn (b\<lparr>b_bytes_recv := x\<rparr>) = conn b" "conn (b\<lparr>b_recv_retries := x\<rparr>) = conn b"
  "conn (b\<lparr>b_egress_retries := x\<rparr>) = conn b" "conn (b\<lparr>b_now := x\<rparr>) = conn b" "conn (b\<lparr>b_last_timeout_sweep := x\<rparr>) = conn b"
  "conn (b\<lparr>b_running := z\<rparr>) = conn b" "conn (b\<lparr>b_stolen_buffers := x\<rparr>) = conn b"
  by (simp_all add: conn_def)

lemma buf_pool_free_fields [simp]: "bp_capacity (buf_pool_free p i) = bp_capacity p" "bp_buf_size (buf_pool_free p i) = bp_buf_size p"
  by (simp_all add: buf_pool_free_def)

lemma conn_pool_update [simp]:
  "bp_capacity p = bp_capacity (b_recv_pool b) \<Longrightarrow> bp_buf_size p = bp_buf_size (b_recv_pool b) \<Longrightarrow> conn (b\<lparr>b_recv_pool := p\<rparr>) = conn b"
  by (simp add: conn_def)

section \<open>The message path and the flush engine\<close>

lemma conn_release [simp]: "conn (release_msg_ref b i) = conn b"
  by (auto simp: release_msg_ref_def Let_def split: prod.splits)

lemma conn_msg_ref [simp]: "conn (msg_ref b i) = conn b"
  by (simp add: msg_ref_def)

lemma conn_of_pop [simp]: "conn_of (egress_pop_head c) = conn_of c"
  by (simp add: egress_pop_head_def conn_of_def split: prod.splits)

lemma conn_of_append [simp]: "conn_of (egress_append c f) = conn_of c"
  by (simp add: egress_append_def conn_of_def Let_def)

lemma conn_pop [simp]: "conn (client_update b s egress_pop_head) = conn b"
  by (rule conn_update) simp

lemma conn_discard [simp]: "conn (egress_discard_head b s seg) = conn b" "conn (egress_complete_head b s seg) = conn b"
  by (simp_all add: egress_discard_head_def egress_complete_head_def Let_def)

lemma conn_clean [simp]: "conn (egress_clean n b s) = conn b"
  by (induction n b s rule: egress_clean.induct) (simp_all add: Let_def)

lemma conn_of_inflight_alloc:
  "client_inflight_alloc c qos i dl = (r, c') \<Longrightarrow> conn_of c' = conn_of c"
  by (auto simp: client_inflight_alloc_def fill_inflight_def conn_of_def Let_def split: if_splits)

lemma conn_of_add_publish: "conn_of (fb_client (add_publish f m seg)) = conn_of (fb_client f)"
  by (simp add: add_publish_def add_iov_def conn_of_def Let_def)

lemma conn_of_batch_publish:
  "batch_publish mp rp now f i seg = Next f' \<Longrightarrow> conn_of (fb_client f') = conn_of (fb_client f)"
proof -
  assume n: "batch_publish mp rp now f i seg = Next f'"
  then obtain m where m: "msg_pool_get mp (seg_msg_idx seg) = Some m" by (auto simp: batch_publish_def split: option.splits)
  show ?thesis
  proof (cases "seg_qos seg > 0 \<and> seg_packet_id seg = 0")
    case False
    then have "f' = add_publish f m seg" using n m by (auto simp: batch_publish_def split: if_splits)
    then show ?thesis by (simp add: conn_of_add_publish)
  next
    case True
    then obtain x c1 where al: "client_inflight_alloc (fb_client f) (seg_qos seg) (seg_msg_idx seg) (now + LLMQ_INFLIGHT_TIMEOUT_MS) = (Some x, c1)"
      and f': "\<exists>g seg'. f' = add_publish (f\<lparr>fb_client := c1\<lparr>c_egress := g\<rparr>\<rparr>) m seg'"
      using n m by (auto simp: batch_publish_def Let_def split: if_splits option.splits prod.splits)
    from f' obtain g seg' where "f' = add_publish (f\<lparr>fb_client := c1\<lparr>c_egress := g\<rparr>\<rparr>) m seg'" by blast
    then have "conn_of (fb_client f') = conn_of c1" by (simp add: conn_of_add_publish) (simp add: conn_of_def)
    then show ?thesis using conn_of_inflight_alloc [OF al] by simp
  qed
qed

lemma conn_of_batch_ctrl: "batch_ctrl f i seg = Next f' \<Longrightarrow> conn_of (fb_client f') = conn_of (fb_client f)"
  by (auto simp: batch_ctrl_def add_iov_def conn_of_def Let_def split: if_splits)

lemma conn_of_batch_round: "batch_round mp rp now f i = Next f' \<Longrightarrow> conn_of (fb_client f') = conn_of (fb_client f)"
  using conn_of_batch_publish conn_of_batch_ctrl by (auto simp: batch_round_def Let_def split: if_splits)

lemma conn_of_batch_loop: "conn_of (fb_client (snd (batch_loop mp rp now n f))) = conn_of (fb_client f)"
proof (induction n arbitrary: f)
  case (Suc n)
  then show ?case using conn_of_batch_round by (auto simp: Let_def split: round_result.splits)
qed simp

lemma conn_of_resume [simp]: "conn_of (resume_iov c) = conn_of c"
  by (simp add: resume_iov_def conn_of_def Let_def)

lemma conn_egress_submit [simp]: "conn (snd (egress_submit b s f)) = conn b"
proof -
  have "conn (client_update b1 s (\<lambda>c. c\<lparr>c_egress_inflight := True, c_egress_batch_count := n\<rparr>)) = conn b1" for b1 n
    by (rule conn_update) (simp add: conn_of_def)
  then show ?thesis by (simp add: egress_submit_def split: prod.splits option.splits)
qed

lemma conn_flush [simp]: "conn (snd (egress_flush b s)) = conn b"
proof -
  let ?b = "egress_clean (c_egress_count (client_at b s)) b s"
  let ?l = "batch_loop (b_msg_pool ?b) (b_recv_pool ?b) (b_now ?b) EGRESS_BATCH_MAX
      \<lparr>fb_client = client_at ?b s, fb_batch = 0, fb_pub_idx = 0, fb_iov_cnt = 0\<rparr>"
  have l: "conn_of (fb_client (snd ?l)) = conn_of (client_at ?b s)" by (simp add: conn_of_batch_loop)
  obtain noop f where f: "?l = (noop, f)" by (cases ?l)
  have "conn (client_update ?b s (\<lambda>_. fb_client f)) = conn ?b" "conn (client_update ?b s (\<lambda>_. resume_iov (fb_client f))) = conn ?b"
    using l f by (simp_all add: conn_update)
  then show ?thesis by (simp add: egress_flush_def Let_def f)
qed

lemma conn_flush_enqueue [simp]: "conn (egress_flush_enqueue b s) = conn b"
proof -
  have "conn (client_update b1 s (\<lambda>c. c\<lparr>c_egress_retry_queued := True\<rparr>)) = conn b1" for b1
    by (rule conn_update) (simp add: conn_of_def)
  then show ?thesis by (simp add: egress_flush_enqueue_def Let_def)
qed

lemma conn_flush_dequeue [simp]: "conn (snd (egress_flush_dequeue b)) = conn b"
proof -
  have "conn (client_update b1 s (\<lambda>c. c\<lparr>c_egress_retry_queued := False\<rparr>)) = conn b1" for b1 s
    by (rule conn_update) (simp add: conn_of_def)
  then show ?thesis by (simp add: egress_flush_dequeue_def Let_def)
qed

lemma conn_kick [simp]: "conn (egress_kick b s) = conn b"
  using conn_flush [of b s] by (cases "egress_flush b s") (auto simp: egress_kick_def)

lemma conn_walk [simp]: "conn (egress_walk n left b s) = conn b"
proof (induction n left b s rule: egress_walk.induct)
  case (2 n left b s)
  have "conn (client_update b s (\<lambda>c. head_update c (\<lambda>g. g\<lparr>seg_cursor := x g\<rparr>))) = conn b" for x
    by (rule conn_update) (simp add: conn_of_def head_update_def Let_def)
  with 2 show ?case by (simp add: Let_def)
qed simp

lemma conn_of_free_slot: "client_inflight_free_slot c i = Some c' \<Longrightarrow> conn_of c' = conn_of c"
  by (auto simp: client_inflight_free_slot_def inflight_hash_remove_def conn_of_def Let_def
      split: if_splits option.splits prod.splits)

lemma conn_fail_batch: "egress_fail_batch n b s = Some b' \<Longrightarrow> conn b' = conn b"
proof (induction n b s arbitrary: b' rule: egress_fail_batch.induct)
  case (2 n b s)
  have pop: "conn (client_update b1 s (\<lambda>_. egress_pop_head c)) = conn b1"
    if "client_inflight_free_slot (client_at b1 s) i = Some c" for b1 i c
    by (rule conn_update) (use conn_of_free_slot [OF that] in simp)
  show ?case
    using 2 pop by (auto simp: Let_def split: if_splits option.splits)
qed simp

lemma conn_egress_cqe:
  assumes h: "handle_egress_cqe b cqe = Some b'"
  shows "conn b' = conn b"
proof (cases "broker_get_client b (unat (EGRESS_CTX_SLOT (ud_ctx (cqe_user_data cqe))))")
  case None
  then show ?thesis using h by (simp add: handle_egress_cqe_def Let_def)
next
  case (Some s)
  let ?b1 = "client_update b s (\<lambda>c. c\<lparr>c_egress_inflight := False\<rparr>)"
  have u: "conn ?b1 = conn b" by (rule conn_update) (simp add: conn_of_def)
  define finish where "finish b = (if c_egress_count (client_at b s) > 0 \<and> c_state (client_at b s) = CLIENT_ACTIVE
      then egress_kick b s else b)" for b
  have fin: "conn (finish b2) = conn b2" for b2 by (simp add: finish_def)
  define body where "body = (if cqe_res cqe > 0
      then Some (egress_walk (c_egress_batch_count (client_at ?b1 s)) (of_int (cqe_res cqe))
             (?b1\<lparr>b_bytes_sent := b_bytes_sent ?b1 + of_int (cqe_res cqe)\<rparr>) s)
      else if cqe_res cqe = - EAGAIN \<or> cqe_res cqe = - EINTR then Some ?b1
      else egress_fail_batch (c_egress_batch_count (client_at ?b1 s)) (?b1\<lparr>b_drops_send_failed := b_drops_send_failed ?b1 + 1\<rparr>) s)"
  have body: "conn b2 = conn b" if "body = Some b2" for b2
    using that u conn_fail_batch by (auto simp: body_def split: if_splits)
  have "b' = b \<or> b' = ?b1 \<or> (\<exists>b2. body = Some b2 \<and> b' = finish b2)"
    using h unfolding handle_egress_cqe_def Let_def Some option.case body_def [symmetric] finish_def [symmetric]
    by (auto split: if_splits)
  then show ?thesis using u body fin by auto
qed

section \<open>Responses\<close>

lemma conn_enter: "broker_enter k b call = (rc, b') \<Longrightarrow> conn b' = conn b"
  by (auto simp: broker_enter_def split: prod.splits)

lemma conn_get_sqe: "get_sqe_with_flush k b = (r, b') \<Longrightarrow> conn b' = conn b"
proof -
  obtain rc b1 where e: "broker_enter k (b\<lparr>b_ring := ring_flush_sqes (b_ring b)\<rparr>) (\<lambda>enter r. ring_submit enter r 0) = (rc, b1)"
    by (cases "broker_enter k (b\<lparr>b_ring := ring_flush_sqes (b_ring b)\<rparr>) (\<lambda>enter r. ring_submit enter r 0)")
  have "conn b1 = conn b" using conn_enter [OF e] by simp
  moreover have "snd (ring_get_sqe (b_ring b)) = b_ring b" if "fst (ring_get_sqe (b_ring b)) = None"
    using that by (simp add: ring_get_sqe_def Let_def split: if_splits)
  ultimately show "get_sqe_with_flush k b = (r, b') \<Longrightarrow> conn b' = conn b"
    using e by (auto simp: get_sqe_with_flush_def Let_def split: prod.splits option.splits)
qed

lemma conn_put_sqe [simp]: "conn (put_sqe b i f ud) = conn b"
  by (simp add: put_sqe_def)

lemma conn_sys [simp]: "conn (sys_shutdown b fd) = conn b" "conn (sys_close b fd) = conn b" "conn (sys_setsockopt_nodelay b fd) = conn b"
    "conn (snd (sys_write k b fd buf)) = conn b"
  by (simp_all add: sys_shutdown_def sys_close_def sys_setsockopt_nodelay_def sys_write_def)

lemma conn_submit_accept [simp]: "conn (snd (submit_accept k b)) = conn b"
  using conn_get_sqe by (auto simp: submit_accept_def Let_def split: prod.splits option.splits)

lemma conn_of_resp_slot: "client_get_resp_slot c = (i, c') \<Longrightarrow> conn_of c' = conn_of c"
  using resp_slot_loop_client [of c RESP_SLOTS] by (auto simp: client_get_resp_slot_def conn_of_def)

lemma conn_fill_resp [simp]: "conn (fill_resp b s slot buf) = conn b"
  unfolding fill_resp_def by (rule conn_update) (simp add: conn_of_def)

lemma conn_send_resp_slot [simp]: "conn (snd (submit_send_resp_slot k b s slot len)) = conn b"
proof -
  have "conn (client_update b1 s (\<lambda>c. client_resp_slot_mark_inflight c slot)) = conn b1" for b1
    by (rule conn_update) (simp add: client_resp_slot_mark_inflight_def conn_of_def)
  then show ?thesis
    using conn_get_sqe by (auto simp: submit_send_resp_slot_def Let_def split: prod.splits option.splits)
qed

lemma conn_take_resp_slot: "client_get_resp_slot (client_at b s) = (i, c') \<Longrightarrow> conn (client_update b s (\<lambda>_. c')) = conn b"
  by (rule conn_update) (rule conn_of_resp_slot)

lemma conn_send [simp]: "conn (snd (send_static k b s buf)) = conn b" "conn (snd (send_resp k b s hdr pid)) = conn b"
    "conn (snd (send_buf k b s buf)) = conn b"
  by (simp_all add: send_static_def send_resp_def send_buf_def Let_def conn_take_resp_slot sys_write_def split: prod.splits)

lemma conn_acks [simp]: "conn (send_puback k b s pid) = conn b" "conn (send_pubrec k b s pid) = conn b"
    "conn (send_pubrel k b s pid) = conn b" "conn (send_pubcomp k b s pid) = conn b" "conn (send_unsuback k b s pid) = conn b"
  by (simp_all add: send_puback_def send_pubrec_def send_pubrel_def send_pubcomp_def send_unsuback_def)

section \<open>Ceremonies\<close>

lemma conn_append [simp]: "conn (client_update b s (\<lambda>c. egress_append c (f c))) = conn b"
  by (rule conn_update) simp

lemma conn_set_free_slot:
  "client_inflight_free_slot (client_at b s) i = Some c \<Longrightarrow> conn (client_update b s (\<lambda>_. c)) = conn b"
  by (rule conn_update) (rule conn_of_free_slot)

lemma conn_of_track: "client_inflight_track_incoming c pid dl = (r, c') \<Longrightarrow> conn_of c' = conn_of c"
  by (auto simp: client_inflight_track_incoming_def inflight_hash_insert_def fill_inflight_def conn_of_def Let_def
      split: if_splits option.splits)

lemma conn_track: "client_inflight_track_incoming (client_at b s) pid dl = (r, c') \<Longrightarrow> conn (client_update b s (\<lambda>_. c')) = conn b"
  by (rule conn_update) (rule conn_of_track)

lemma conn_pub_received: "fsm_pub_received k b s qos pid = (r, b') \<Longrightarrow> conn b' = conn b"
  using conn_track [of b s pid]
  by (auto simp: fsm_pub_received_def Let_def split: if_splits option.splits prod.splits)

lemma conn_pubrel: "fsm_pub_pubrel_received k b s pid = Some b' \<Longrightarrow> conn b' = conn b"
proof -
  assume h: "fsm_pub_pubrel_received k b s pid = Some b'"
  then obtain c where c: "conn_of c = conn_of (client_at b s)" "b' = send_pubcomp k (client_update b s (\<lambda>_. c)) s pid"
    using conn_of_free_slot by (auto simp: fsm_pub_pubrel_received_def Let_def split: if_splits option.splits bind_splits)
  have "conn (client_update b s (\<lambda>_. c)) = conn b" by (rule conn_update) (rule c(1))
  then show ?thesis by (simp add: c(2))
qed

lemma conn_start_delivery [simp]: "conn (snd (fsm_sub_start_delivery b m q s)) = conn b"
  by (simp add: fsm_sub_start_delivery_def Let_def)

lemma conn_puback: "fsm_sub_puback_received b s pid = Some b' \<Longrightarrow> conn b' = conn b"
  using conn_set_free_slot [of "release_msg_ref b i" s for i]
  by (auto simp: fsm_sub_puback_received_def Let_def release_msg_ref_same split: if_splits option.splits bind_splits)

lemma conn_enqueue_pubrel [simp]: "conn (enqueue_pubrel k b s pid) = conn b"
  by (simp add: enqueue_pubrel_def Let_def)

lemma conn_pubrec: "fsm_sub_pubrec_received k b s pid = Some b' \<Longrightarrow> conn b' = conn b"
  using conn_set_free_slot [of "release_msg_ref b i" s for i]
  by (auto simp: fsm_sub_pubrec_received_def Let_def release_msg_ref_same split: if_splits option.splits bind_splits)

lemma conn_give_up: "fsm_give_up b s i = Some b' \<Longrightarrow> conn b' = conn b"
  using conn_set_free_slot [of "release_msg_ref b i" s for i]
  by (auto simp: fsm_give_up_def Let_def release_msg_ref_same split: bind_splits)

lemma conn_timeout: "fsm_sub_timeout b s i = Some b' \<Longrightarrow> conn b' = conn b"
proof -
  let ?b = "client_update b s (\<lambda>c. c\<lparr>c_inflight_cold := (c_inflight_cold c)[i :=
      (c_inflight_cold c ! i)\<lparr>ic_dup_count := ic_dup_count (c_inflight_cold c ! i) + 1, ic_deadline := b_now b + LLMQ_INFLIGHT_TIMEOUT_MS\<rparr>]\<rparr>)"
  have "conn ?b = conn b" by (rule conn_update) (simp add: conn_of_def)
  then show "fsm_sub_timeout b s i = Some b' \<Longrightarrow> conn b' = conn b"
    using conn_give_up [of b s i b'] conn_give_up [of ?b s i b'] by (auto simp: fsm_sub_timeout_def Let_def split: if_splits)
qed

lemma conn_sweep_slots: "sweep_slots n found p b s = Some (q, b') \<Longrightarrow> conn b' = conn b"
proof (induction n found p b s rule: sweep_slots.induct)
  case (2 n found p b s)
  then show ?case using conn_timeout by (auto simp: Let_def split: if_splits option.splits)
qed simp

lemma conn_sweep_clients: "sweep_clients is p b = Some (q, b') \<Longrightarrow> conn b' = conn b"
proof (induction "is" p b rule: sweep_clients.induct)
  case (2 i "is" p b)
  have "conn b2 = conn b" if "fsm_sweep_client b i = Some (x, b2)" for x b2
    using that conn_sweep_slots by (auto simp: fsm_sweep_client_def split: if_splits)
  with 2 show ?case by (auto split: if_splits option.splits prod.splits)
qed simp

lemma conn_sweep: "fsm_sweep_all_timeouts b = Some (q, b') \<Longrightarrow> conn b' = conn b"
  unfolding fsm_sweep_all_timeouts_def by (rule conn_sweep_clients)

lemma conn_drain [simp]: "conn (drain_egress n b s) = conn b"
  by (induction n b s rule: drain_egress.induct) (simp_all add: Let_def)

lemma conn_release_inflight [simp]: "conn (release_inflight n found b s) = conn b"
  by (induction n found b s rule: release_inflight.induct) (simp_all add: Let_def)

lemma conn_disconnect [simp]: "conn (fsm_client_disconnect b s) = conn b"
  by (simp add: fsm_client_disconnect_def Let_def)

end
