(* ===== verification/Conn_Loop.thy ===== *)
theory Conn_Loop
  imports Conn
begin

text \<open>
  The handlers and the event loop on the connection table: only stealing moves a receive window, so
  the receive loop makes progress and its fuel is enough; and the slot table stays consistent from one
  completion to the next.
\<close>

section \<open>Handlers\<close>

lemma conn_forward: "forward_publish_zc b s pctx msg q = (ok, pctx', b') \<Longrightarrow> conn b' = conn b"
proof -
  assume h: "forward_publish_zc b s pctx msg q = (ok, pctx', b')"
  let ?q = "if cm_qos msg < q then cm_qos msg else q"
  have "b' = snd (fsm_sub_start_delivery b (px_msg_idx pctx) ?q s)"
    using h by (cases "fsm_sub_start_delivery b (px_msg_idx pctx) ?q s") (simp add: forward_publish_zc_def Let_def)
  then show ?thesis by simp
qed

lemma conn_deliver_bit: "conn (snd (deliver_bit msg q node w st i)) = conn (snd st)"
proof (cases st)
  case (Pair pctx b)
  then show ?thesis using conn_forward by (auto simp: deliver_bit_def Let_def snd_def split: prod.splits)
qed

lemma conn_foldl: "(\<And>st x. conn (snd (f st x)) = conn (snd st)) \<Longrightarrow> conn (snd (foldl f st xs)) = conn (snd st)"
  by (induction xs arbitrary: st) auto

lemma conn_deliver_word: "conn (snd (deliver_word msg q node st w)) = conn (snd st)"
  unfolding deliver_word_def Let_def by (rule conn_foldl) (rule conn_deliver_bit)

lemma conn_deliver_node: "conn (snd (deliver_node msg q t st n)) = conn (snd st)"
  unfolding deliver_node_def by (rule conn_foldl) (rule conn_deliver_word)

lemma conn_deliver_nodes: "conn (snd (foldl (deliver_node msg q t) st ms)) = conn (snd st)"
  by (rule conn_foldl) (rule conn_deliver_node)

lemma conn_matches [simp]: "conn (snd (process_publish_matches b pctx ms)) = conn b"
  by (simp add: process_publish_matches_def conn_deliver_nodes split: option.splits)

lemma conn_fan_out [simp]: "conn (fan_out b m stolen topic len) = conn b"
  by (simp add: fan_out_def Let_def split: prod.splits)

lemma conn_count_drop [simp]: "conn (count_drop b) = conn b"
  by (simp add: count_drop_def)

lemma conn_set_identity: "broker_set_client_identity b s cid len = Some b' \<Longrightarrow> conn b' = conn b"
proof -
  assume h: "broker_set_client_identity b s cid len = Some b'"
  have "conn (client_update b s (\<lambda>c. client_set_identity c cid len)) = conn b"
    by (rule conn_update) (simp add: client_set_identity_def conn_of_def Let_def)
  then show ?thesis using h by (auto simp: broker_set_client_identity_def Let_def)
qed

lemma conn_connect: "handle_connect k b s buf p len = Some (go, b') \<Longrightarrow> conn b' = conn b"
proof -
  have u: "conn (client_update b1 s (\<lambda>c. c\<lparr>c_protocol_version := x, c_keepalive := y, c_clean_session := z\<rparr>)) = conn b1" for b1 x y z
    by (rule conn_update) (simp add: conn_of_def)
  show "handle_connect k b s buf p len = Some (go, b') \<Longrightarrow> conn b' = conn b"
    using u conn_set_identity by (auto simp: handle_connect_def Let_def split: if_splits sum.splits bind_splits)
qed

lemma conn_ack:
  "handle_ack buf p len b fsm = Some (go, b') \<Longrightarrow> (\<And>pid b1. fsm pid = Some b1 \<Longrightarrow> conn b1 = conn b) \<Longrightarrow> conn b' = conn b"
  by (auto simp: handle_ack_def split: if_splits sum.splits)

lemma conn_foldl_id: "(\<And>b x. conn (f b x) = conn b) \<Longrightarrow> conn (foldl f b xs) = conn b"
  by (induction xs arbitrary: b) auto

lemma conn_add_filter: "conn (snd (add_filter slot gen buf st f)) = conn (snd st)"
  by (simp add: add_filter_def sub_add_def Let_def split: prod.splits)

lemma conn_add_filters: "conn (snd (foldl (add_filter slot gen buf) st fs)) = conn (snd st)"
  by (rule conn_foldl) (rule conn_add_filter)

lemma conn_subscribe: "handle_subscribe k b s buf p len = Some (go, b') \<Longrightarrow> conn b' = conn b"
proof -
  assume h: "handle_subscribe k b s buf p len = Some (go, b')"
  show ?thesis
  proof (cases "c_protocol_version (client_at b s) = 0")
    case True
    then show ?thesis using h by (simp add: handle_subscribe_def)
  next
    case False
    note v = this
    show ?thesis
    proof (cases "mqtt_parse_subscribe buf p len")
      case (Inl e)
      then show ?thesis using h v by (simp add: handle_subscribe_def)
    next
      case (Inr pkt)
      obtain codes b1 where f: "foldl (add_filter (slot_of b s) (c_generation (client_at b s)) buf) ([], b) (sub_filters pkt) = (codes, b1)"
        by (metis surj_pair)
      have "conn b1 = conn b" using conn_add_filters [of "slot_of b s" "c_generation (client_at b s)" buf "([], b)" "sub_filters pkt"] f by simp
      then show ?thesis using h Inr v f by (auto simp: handle_subscribe_def Let_def)
    qed
  qed
qed

lemma conn_unsubscribe: "handle_unsubscribe k b s buf p len = Some (go, b') \<Longrightarrow> conn b' = conn b"
  by (auto simp: handle_unsubscribe_def Let_def sub_remove_def intro!: conn_foldl_id split: if_splits sum.splits)

text \<open>Stealing gives the publisher a new window on the bytes behind the packet.\<close>

definition stolen_window :: "nat \<Rightarrow> nat \<Rightarrow> client_slot \<Rightarrow> client_slot" where
  "stolen_window new n c = c\<lparr>c_recv_buf_idx := new, c_recv_start := 0, c_recv_len := c_recv_len c - n\<rparr>"

lemma conn_update_cong: "conn b1 = conn b2 \<Longrightarrow> (\<And>c c'. conn_of c = conn_of c' \<Longrightarrow> conn_of (f c) = conn_of (f c')) \<Longrightarrow>
    conn (client_update b1 s f) = conn (client_update b2 s f)"
proof -
  assume a: "conn b1 = conn b2" and f: "\<And>c c'. conn_of c = conn_of c' \<Longrightarrow> conn_of (f c) = conn_of (f c')"
  have m: "map conn_of (b_clients b1) = map conn_of (b_clients b2)" using a by (simp add: conn_def)
  have "map conn_of ((b_clients b1)[s := f (b_clients b1 ! s)]) = map conn_of ((b_clients b2)[s := f (b_clients b2 ! s)])"
  proof (cases "s < length (b_clients b1)")
    case True
    then have "s < length (b_clients b2)" using map_eq_imp_length_eq [OF m] by simp
    then have "conn_of (b_clients b1 ! s) = conn_of (b_clients b2 ! s)" using True m by (metis nth_map)
    then have "conn_of (f (b_clients b1 ! s)) = conn_of (f (b_clients b2 ! s))" by (rule f)
    then show ?thesis using m by (simp only: map_update)
  next
    case False
    then show ?thesis using map_eq_imp_length_eq [OF m] m by (simp add: list_update_beyond)
  qed
  then show ?thesis using a by (simp add: conn_def client_update_def)
qed

lemma conn_of_window: "conn_of c = conn_of c' \<Longrightarrow> conn_of (stolen_window new n c) = conn_of (stolen_window new n c')"
  by (simp add: conn_of_def stolen_window_def)

lemma buf_pool_alloc_fields: "buf_pool_alloc p = (i, p') \<Longrightarrow> bp_capacity p' = bp_capacity p \<and> bp_buf_size p' = bp_buf_size p \<and> bp_bufs p' = bp_bufs p"
  by (auto simp: buf_pool_alloc_def Let_def split: if_splits)

lemma conn_steal:
  "steal_recv_buffer b s n = (new, None, b') \<Longrightarrow> conn b' = conn b"
  "steal_recv_buffer b s n = (new, Some st, b') \<Longrightarrow> conn b' = conn (client_update b s (stolen_window new n))"
proof -
  obtain i p where p: "buf_pool_alloc (b_recv_pool b) = (i, p)" by (cases "buf_pool_alloc (b_recv_pool b)")
  have al: "conn (b\<lparr>b_recv_pool := p\<rparr>) = conn b" using buf_pool_alloc_fields [OF p] by simp
  have up: "conn (recv_buf_update b1 j f) = conn b1" for b1 j f by (simp add: recv_buf_update_def)
  show "steal_recv_buffer b s n = (new, None, b') \<Longrightarrow> conn b' = conn b"
    using al p by (auto simp: steal_recv_buffer_def Let_def split: if_splits)
  have at: "client_at (b1\<lparr>b_recv_pool := q\<rparr>) = client_at b1" for b1 :: broker and q by (simp add: client_at_def fun_eq_iff)
  assume h: "steal_recv_buffer b s n = (new, Some st, b')"
  let ?len = "if c_recv_len (client_at b s) > n then c_recv_len (client_at b s) - n else 0"
  obtain b1 where b1: "conn b1 = conn b" "client_at b1 s = client_at b s"
      "b' = (client_update b1 s (\<lambda>c. c\<lparr>c_recv_buf_idx := new, c_recv_start := 0, c_recv_len := ?len\<rparr>))\<lparr>b_stolen_buffers := b_stolen_buffers b1 + 1\<rparr>"
  proof -
    let ?b0 = "b\<lparr>b_recv_pool := p\<rparr>"
    let ?b1 = "if ?len > 0 then recv_buf_update ?b0 new (\<lambda>new_buf.
        take ?len (drop (c_recv_start (client_at b s) + n) (bp_bufs p ! c_recv_buf_idx (client_at b s))) @ drop ?len new_buf) else ?b0"
    have "conn ?b1 = conn b" using al up by simp
    moreover have "client_at ?b1 s = client_at b s" by (simp add: recv_buf_update_def at)
    moreover have "b' = (client_update ?b1 s (\<lambda>c. c\<lparr>c_recv_buf_idx := new, c_recv_start := 0, c_recv_len := ?len\<rparr>))
        \<lparr>b_stolen_buffers := b_stolen_buffers ?b1 + 1\<rparr>"
      using h p by (simp add: steal_recv_buffer_def Let_def at recv_buf_update_def client_update_def split: if_splits)
    ultimately show thesis using that by blast
  qed
  have "client_update b1 s (\<lambda>c. c\<lparr>c_recv_buf_idx := new, c_recv_start := 0, c_recv_len := ?len\<rparr>) = client_update b1 s (stolen_window new n)"
    using b1(2) unfolding client_update_def stolen_window_def client_at_def by simp
  then have "conn b' = conn (client_update b1 s (stolen_window new n))" using b1(3) by simp
  also have "\<dots> = conn (client_update b s (stolen_window new n))" by (rule conn_update_cong [OF b1(1) conn_of_window])
  finally show "conn b' = conn (client_update b s (stolen_window new n))" .
qed

text \<open>A packet leaves the table alone or steals the buffer it came in.\<close>

definition after_packet :: "broker \<Rightarrow> nat \<Rightarrow> nat \<Rightarrow> broker \<Rightarrow> bool" where
  "after_packet b s n b' \<longleftrightarrow> conn b' = conn b \<or> (\<exists>new. conn b' = conn (client_update b s (stolen_window new n)))"

text \<open>How an accepted PUBLISH ends.\<close>

lemma publish_accepted_cases:
  obtains (Dropped) mp where "publish_accepted b s buf n pub = count_drop (b\<lparr>b_msg_pool := mp\<rparr>)"
  | (No_buffer) mp new b1 mp' where "steal_recv_buffer (b\<lparr>b_msg_pool := mp\<rparr>) s n = (new, None, b1)"
      "publish_accepted b s buf n pub = count_drop (b1\<lparr>b_msg_pool := mp'\<rparr>)"
  | (Stolen) mp new x b1 mp' i t l where "steal_recv_buffer (b\<lparr>b_msg_pool := mp\<rparr>) s n = (new, Some x, b1)"
      "publish_accepted b s buf n pub = fan_out (b1\<lparr>b_msg_pool := mp'\<rparr>) i x t l"
proof -
  obtain i mp where m: "msg_pool_alloc (b_msg_pool b) = (i, mp)" by (cases "msg_pool_alloc (b_msg_pool b)")
  obtain new st b1 where st: "steal_recv_buffer (b\<lparr>b_msg_pool := mp\<rparr>) s n = (new, st, b1)"
    by (cases "steal_recv_buffer (b\<lparr>b_msg_pool := mp\<rparr>) s n") auto
  show thesis
    using that m st by (cases "i = MSG_POOL_INVALID"; cases st) (simp_all add: publish_accepted_def Let_def)
qed

lemma publish_accepted_after: "after_packet b s n (publish_accepted b s buf n pub)"
proof -
  have c: "conn (client_update (b\<lparr>b_msg_pool := q\<rparr>) s f) = conn (client_update b s f)" for q f by (simp add: client_update_def conn_def)
  show ?thesis
  proof (cases rule: publish_accepted_cases [of b s buf n pub])
    case (Dropped mp)
    then show ?thesis by (simp add: after_packet_def)
  next
    case (No_buffer mp new b1 mp')
    then show ?thesis using conn_steal(1) [OF No_buffer(1)] by (simp add: after_packet_def)
  next
    case (Stolen mp new x b1 mp' i t l)
    then have "conn (publish_accepted b s buf n pub) = conn (client_update b s (stolen_window new n))"
      using conn_steal(2) [OF Stolen(1)] c by simp
    then show ?thesis unfolding after_packet_def by blast
  qed
qed

lemma after_packet_trans: "conn b1 = conn b \<Longrightarrow> after_packet b1 s n b' \<Longrightarrow> after_packet b s n b'"
proof -
  assume c: "conn b1 = conn b" and a: "after_packet b1 s n b'"
  have w: "conn (client_update b1 s (stolen_window new n)) = conn (client_update b s (stolen_window new n))" for new
    by (rule conn_update_cong [OF c conn_of_window])
  show ?thesis using a c unfolding after_packet_def w by simp
qed

lemma handle_publish_after: "handle_publish k b s buf p len n fl = Some (go, b') \<Longrightarrow> after_packet b s n b'"
proof -
  assume h: "handle_publish k b s buf p len n fl = Some (go, b')"
  have r: "after_packet b s n b" by (simp add: after_packet_def)
  show ?thesis
  proof (cases "c_protocol_version (client_at b s) = 0")
    case True
    then show ?thesis using h r by (simp add: handle_publish_def)
  next
    case v: False
    show ?thesis
    proof (cases "mqtt_parse_publish fl buf p len")
      case (Inl e)
      then show ?thesis using h v r by (simp add: handle_publish_def)
    next
      case (Inr pub)
      obtain go_on b1 where f: "fsm_pub_received k b s (pub_qos pub) (pub_packet_id pub) = (go_on, b1)"
        by (metis surj_pair)
      have b': "b' = (if go_on then publish_accepted b1 s buf n pub else b1)"
        using h v Inr f by (simp add: handle_publish_def)
      note c = conn_pub_received [OF f]
      show ?thesis
      proof (cases go_on)
        case True
        then show ?thesis using after_packet_trans [OF c publish_accepted_after] b' by simp
      next
        case False
        then show ?thesis using c b' by (simp add: after_packet_def)
      qed
    qed
  qed
qed

lemma conn_pubcomp_ack:
  "handle_ack buf p len b (\<lambda>pid. Some (fsm_sub_pubcomp_received b s pid)) = Some (go, b') \<Longrightarrow> conn b' = conn b"
  by (rule conn_ack) (auto simp: fsm_sub_pubcomp_received_def)

lemma process_packet_after:
  assumes h: "process_mqtt_packet_ex k b s buf p hdr = Some (r, b')"
  shows "after_packet b s (unat (packet_total hdr)) b'" "r < 0 \<or> r = int (unat (packet_total hdr))"
proof -
  let ?p = "p + header_len hdr" and ?n = "unat (remaining_len hdr)"
  show "r < 0 \<or> r = int (unat (packet_total hdr))" using h by (auto simp: process_mqtt_packet_ex_def Let_def)
  have "conn b' = conn b \<or> (\<exists>go. handle_publish k b s buf ?p ?n (unat (packet_total hdr)) (hdr_flags hdr) = Some (go, b'))"
    using h conn_connect [of k b s buf ?p ?n _ b'] conn_subscribe [of k b s buf ?p ?n _ b'] conn_unsubscribe [of k b s buf ?p ?n _ b']
      conn_ack [of buf ?p ?n b _ _ b', OF _ conn_puback] conn_ack [of buf ?p ?n b _ _ b', OF _ conn_pubrec]
      conn_ack [of buf ?p ?n b _ _ b', OF _ conn_pubrel] conn_pubcomp_ack [of buf ?p ?n b s _ b']
    by (simp add: process_mqtt_packet_ex_def Let_def map_option_eq_Some split: if_splits) auto
  then show "after_packet b s (unat (packet_total hdr)) b'"
  proof
    assume "conn b' = conn b"
    then show ?thesis by (simp add: after_packet_def)
  next
    assume "\<exists>go. handle_publish k b s buf ?p ?n (unat (packet_total hdr)) (hdr_flags hdr) = Some (go, b')"
    then show ?thesis using handle_publish_after by blast
  qed
qed

section \<open>The receive loop\<close>

lemma length_client_update [simp]: "length (b_clients (client_update b s f)) = length (b_clients b)"
  by (simp add: client_update_def)

lemma fast_path_conn: "fast_path k b s buf data = Some (Some b') \<Longrightarrow> conn b' = conn b \<and> c_recv_len (client_at b s) \<ge> 4"
  using conn_puback conn_pubrec conn_pubrel
  by (auto simp: fast_path_def fsm_sub_pubcomp_received_def split: if_splits option.splits)

lemma complete_total:
  assumes "mqtt_packet_complete_ex buf p len = Inr (n, hdr)"
  shows "2 \<le> unat (packet_total hdr)" "unat (packet_total hdr) \<le> len"
proof -
  from assms obtain h: "mqtt_parse_fixed_header buf p len = Inr hdr" and l: "unat (packet_total hdr) \<le> len"
    by (auto simp: mqtt_packet_complete_ex_def ebind_Inr_iff Let_def split: if_splits)
  note b = parse_fixed_header_Inr [OF h]
  show "2 \<le> unat (packet_total hdr)" using b packet_total_unat [of hdr] by simp
  show "unat (packet_total hdr) \<le> len" by (rule l)
qed

text \<open>The length of the receive window decreases in every round that goes on.\<close>

lemma recv_len_stolen: "s < length (b_clients b) \<Longrightarrow> conn b1 = conn (client_update b s (stolen_window new n)) \<Longrightarrow>
    c_recv_len (client_at b1 s) = c_recv_len (client_at b s) - n"
  using conn_client(7) [of b1 "client_update b s (stolen_window new n)" s]
  by (simp add: client_at_update stolen_window_def)

lemma recv_len_after:
  assumes s: "s < length (b_clients b)" and a: "after_packet b s n b1"
  shows "c_recv_len (client_at b1 s) \<le> c_recv_len (client_at b s)"
    "c_recv_buf_idx (client_at b1 s) \<noteq> c_recv_buf_idx (client_at b s) \<Longrightarrow> c_recv_len (client_at b1 s) = c_recv_len (client_at b s) - n"
    "length (b_clients b1) = length (b_clients b)"
proof -
  consider "conn b1 = conn b" | new where "conn b1 = conn (client_update b s (stolen_window new n))"
    using a unfolding after_packet_def by blast
  then show "c_recv_len (client_at b1 s) \<le> c_recv_len (client_at b s)"
    "c_recv_buf_idx (client_at b1 s) \<noteq> c_recv_buf_idx (client_at b s) \<Longrightarrow> c_recv_len (client_at b1 s) = c_recv_len (client_at b s) - n"
    "length (b_clients b1) = length (b_clients b)"
    using conn_client(5,7) [of b1 b s] conn_fields(1) [of b1 b] s recv_len_stolen [OF s]
      conn_fields(1) [of b1 "client_update b s (stolen_window _ n)"]
    by (cases; fastforce)+
qed

lemma recv_len_update: "s < length (b_clients b) \<Longrightarrow> c_recv_len (client_at (advance_recv b s n) s) = c_recv_len (client_at b s) - n"
  by (simp add: advance_recv_def client_at_update)

lemma standard_round:
  assumes "fast_path k b s buf data = None" "recv_round k b s buf data = Some (Some data', b')"
  obtains n hdr b1 where "mqtt_packet_complete_ex buf data (c_recv_len (client_at b s)) = Inr (n, hdr)"
    "after_packet b s (unat (packet_total hdr)) b1"
    "(c_recv_buf_idx (client_at b1 s) \<noteq> c_recv_buf_idx (client_at b s) \<and> b' = client_update b1 s (\<lambda>c. c\<lparr>c_recv_start := 0\<rparr>))
     \<or> b' = advance_recv b1 s (unat (packet_total hdr))"
proof -
  from assms obtain n hdr where c: "mqtt_packet_complete_ex buf data (c_recv_len (client_at b s)) = Inr (n, hdr)"
    by (auto simp: recv_round_def split: sum.splits parse_error.splits)
  from assms c obtain consumed b1 where p: "process_mqtt_packet_ex k b s buf data hdr = Some (consumed, b1)" "\<not> consumed < 0"
    and b': "(c_recv_buf_idx (client_at b1 s) \<noteq> c_recv_buf_idx (client_at b s) \<and> b' = client_update b1 s (\<lambda>c. c\<lparr>c_recv_start := 0\<rparr>))
      \<or> b' = advance_recv b1 s (nat consumed)"
    by (auto simp: recv_round_def Let_def split: option.splits prod.splits if_splits)
  note a = process_packet_after [OF p(1)]
  then have "nat consumed = unat (packet_total hdr)" using p(2) by simp
  with c a(1) b' show thesis using that by simp
qed

lemma recv_round_progress:
  assumes s: "s < length (b_clients b)" and l: "c_recv_len (client_at b s) > 0"
    and h: "recv_round k b s buf data = Some (Some data', b')"
  shows "c_recv_len (client_at b' s) < c_recv_len (client_at b s)" "length (b_clients b') = length (b_clients b)"
proof -
  have "c_recv_len (client_at b' s) < c_recv_len (client_at b s) \<and> length (b_clients b') = length (b_clients b)"
  proof (cases "fast_path k b s buf data")
    case None
    obtain n hdr b1 where c: "mqtt_packet_complete_ex buf data (c_recv_len (client_at b s)) = Inr (n, hdr)"
      and a: "after_packet b s (unat (packet_total hdr)) b1"
      and b': "(c_recv_buf_idx (client_at b1 s) \<noteq> c_recv_buf_idx (client_at b s) \<and> b' = client_update b1 s (\<lambda>c. c\<lparr>c_recv_start := 0\<rparr>))
        \<or> b' = advance_recv b1 s (unat (packet_total hdr))"
      by (rule standard_round [OF None h])
    note t = complete_total [OF c] and r = recv_len_after [OF s a]
    have s1: "s < length (b_clients b1)" using s r(3) by simp
    have le: "c_recv_len (client_at b1 s) - unat (packet_total hdr) < c_recv_len (client_at b s)"
      using r(1) t by linarith
    show ?thesis using b'
    proof
      assume st: "c_recv_buf_idx (client_at b1 s) \<noteq> c_recv_buf_idx (client_at b s) \<and> b' = client_update b1 s (\<lambda>c. c\<lparr>c_recv_start := 0\<rparr>)"
      then have "c_recv_len (client_at b' s) = c_recv_len (client_at b s) - unat (packet_total hdr)"
        using r(2) s1 by (simp add: client_at_update)
      then show ?thesis using t r(3) st by simp
    next
      assume "b' = advance_recv b1 s (unat (packet_total hdr))"
      then show ?thesis using le r(3) s1 by (simp add: recv_len_update) (simp add: advance_recv_def)
    qed
  next
    case (Some r)
    with h obtain b1 where b1: "fast_path k b s buf data = Some (Some b1)" "b' = advance_recv b1 s 4"
      by (auto simp: recv_round_def)
    note f = fast_path_conn [OF b1(1)]
    have c: "conn b1 = conn b" using f by simp
    have "s < length (b_clients b1)" using s conn_fields(1) [OF c] by simp
    then show ?thesis using b1(2) f s l conn_client(7) [OF c s] conn_fields(1) [OF c]
      by (simp add: recv_len_update) (simp add: advance_recv_def)
  qed
  then show "c_recv_len (client_at b' s) < c_recv_len (client_at b s)" "length (b_clients b') = length (b_clients b)" by auto
qed

text \<open>The loop as written, without fuel: its terminating executions.\<close>

inductive recv_runs :: "kernel \<Rightarrow> nat \<Rightarrow> broker \<Rightarrow> nat \<Rightarrow> broker option \<Rightarrow> bool" for k s where
  runs_empty: "c_recv_len (client_at b s) = 0 \<Longrightarrow> recv_runs k s b data (Some b)"
| runs_no_buf: "c_recv_len (client_at b s) > 0 \<Longrightarrow> client_recv_buf (client_at b s) (b_recv_pool b) = None \<Longrightarrow> recv_runs k s b data None"
| runs_fail: "c_recv_len (client_at b s) > 0 \<Longrightarrow> client_recv_buf (client_at b s) (b_recv_pool b) = Some buf \<Longrightarrow>
    recv_round k b s buf data = None \<Longrightarrow> recv_runs k s b data None"
| runs_stop: "c_recv_len (client_at b s) > 0 \<Longrightarrow> client_recv_buf (client_at b s) (b_recv_pool b) = Some buf \<Longrightarrow>
    recv_round k b s buf data = Some (None, b') \<Longrightarrow> recv_runs k s b data (Some b')"
| runs_on: "c_recv_len (client_at b s) > 0 \<Longrightarrow> client_recv_buf (client_at b s) (b_recv_pool b) = Some buf \<Longrightarrow>
    recv_round k b s buf data = Some (Some data', b') \<Longrightarrow> recv_runs k s b' data' r \<Longrightarrow> recv_runs k s b data r"

inductive_cases recv_runsE: "recv_runs k s b data r"

lemma recv_runs_unique: "recv_runs k s b data r \<Longrightarrow> recv_runs k s b data r' \<Longrightarrow> r' = r"
proof (induction arbitrary: r' rule: recv_runs.induct)
  case (runs_on b buf data data' b' r)
  show ?case using runs_on.prems
  proof (cases rule: recv_runsE [consumes 1])
    case (5 buf1 data1 b1)
    then have "data1 = data'" "b1 = b'" using runs_on.hyps by simp_all
    then show ?thesis using runs_on.IH 5 by simp
  qed (use runs_on.hyps in simp_all)
next
  case (runs_empty b data)
  show ?case using runs_empty.prems by (cases rule: recv_runsE [consumes 1]) (use runs_empty.hyps in simp_all)
next
  case (runs_no_buf b data)
  show ?case using runs_no_buf.prems by (cases rule: recv_runsE [consumes 1]) (use runs_no_buf.hyps in simp_all)
next
  case (runs_fail b buf data)
  show ?case using runs_fail.prems by (cases rule: recv_runsE [consumes 1]) (use runs_fail.hyps in simp_all)
next
  case (runs_stop b buf data b')
  show ?case using runs_stop.prems by (cases rule: recv_runsE [consumes 1]) (use runs_stop.hyps in simp_all)
qed

lemma recv_loop_runs:
  "s < length (b_clients b) \<Longrightarrow> c_recv_len (client_at b s) \<le> n \<Longrightarrow> recv_runs k s b data (recv_loop n k b s data)"
proof (induction n arbitrary: b data)
  case 0
  then show ?case by (simp add: runs_empty)
next
  case (Suc n)
  show ?case
  proof (cases "c_recv_len (client_at b s) > 0")
    case False
    then show ?thesis by (simp add: runs_empty)
  next
    case pos: True
    show ?thesis
    proof (cases "client_recv_buf (client_at b s) (b_recv_pool b)")
      case None
      then show ?thesis using pos runs_no_buf by simp
    next
      case (Some buf)
      note on = runs_on [OF pos Some] and stop = runs_stop [OF pos Some] and bad = runs_fail [OF pos Some]
      have "recv_runs k s b' d (recv_loop n k b' s d)" if h: "recv_round k b s buf data = Some (Some d, b')" for d b'
      proof (rule Suc.IH)
        show "s < length (b_clients b')" using recv_round_progress(2) [OF Suc.prems(1) pos h] Suc.prems(1) by simp
        show "c_recv_len (client_at b' s) \<le> n" using recv_round_progress(1) [OF Suc.prems(1) pos h] Suc.prems(2) by simp
      qed
      note go = this
      show ?thesis
      proof (cases "recv_round k b s buf data")
        case None
        then show ?thesis using bad [OF None] pos Some by simp
      next
        case r: (Some x)
        obtain d b' where x: "x = (d, b')" by (cases x)
        show ?thesis
        proof (cases d)
          case None
          then show ?thesis using stop r x pos Some by simp
        next
          case (Some d')
          then show ?thesis using on [OF _ go] r x pos \<open>client_recv_buf _ _ = Some buf\<close> by simp
        qed
      qed
    qed
  qed
qed

text \<open>C7: the receive loop ends: every round that goes on shortens the receive window, so the length of the
  window is enough fuel, and the loop has one execution, which returns what the model computes.\<close>

theorem recv_loop_ends:
  assumes "s < length (b_clients b)" "c_recv_len (client_at b s) \<le> n"
  shows "recv_runs k s b data r \<longleftrightarrow> r = recv_loop n k b s data"
  using recv_loop_runs [OF assms, of k data] recv_runs_unique by blast

section \<open>A client that sends PINGREQ first\<close>

definition pinging_broker :: "broker \<Rightarrow> broker" where
  "pinging_broker b = b\<lparr>b_clients := [ping_client\<lparr>c_recv_buf_idx := 0, c_recv_len := 2\<rparr>],
     b_recv_pool := (b_recv_pool b)\<lparr>bp_bufs := [[0xC0, 0]], bp_capacity := 1, bp_buf_size := 2\<rparr>\<rparr>"

lemma pinging_fields: "client_at (pinging_broker b) 0 = ping_client\<lparr>c_recv_buf_idx := 0, c_recv_len := 2\<rparr>"
    "c_protocol_version ping_client = 0" "c_fd ping_client = 7" "length (b_clients (pinging_broker b)) = 1"
  by (simp_all add: pinging_broker_def client_at_def ping_client_def initial_client_def zero_client_def)

lemma pinging_buf: "client_recv_buf (client_at (pinging_broker b) 0) (b_recv_pool (pinging_broker b)) = Some [0xC0, 0]"
  by (simp add: pinging_fields client_recv_buf_def buf_pool_get_def) (simp add: pinging_broker_def BUF_POOL_INVALID_def)

lemma pinging_round: "recv_round k (pinging_broker b) 0 [0xC0, 0] 0 = Some (None, submit_close k (pinging_broker b) 7)"
proof -
  have f: "mqtt_packet_complete_ex [0xC0, 0] 0 2 =
      Inr (2, \<lparr>hdr_type = MQTT_PINGREQ, hdr_flags = 0, remaining_len = 0, header_len = 2\<rparr>)" by code_simp
  have p: "fast_path k (pinging_broker b) 0 [0xC0, 0] 0 = None" by (simp add: fast_path_def pinging_fields)
  show ?thesis by (simp add: recv_round_def p pinging_fields f process_mqtt_packet_ex_def)
qed

theorem recv_loop_ends_witness:
  "\<forall>k. \<exists>b. recv_runs k 0 b 0 (Some (submit_close k b 7)) \<and> c_recv_len (client_at b 0) = 2"
proof
  fix k and b0 :: broker
  let ?b = "pinging_broker b0"
  have l: "0 < length (b_clients ?b)" "c_recv_len (client_at ?b 0) \<le> Suc 1" by (simp_all add: pinging_fields)
  have "recv_loop (Suc 1) k ?b 0 0 = Some (submit_close k ?b 7)"
    using pinging_buf [of b0] by (simp add: pinging_fields(1) pinging_round)
  then have "recv_runs k 0 ?b 0 (Some (submit_close k ?b 7))" by (simp only: recv_loop_ends [OF l])
  moreover have "c_recv_len (client_at ?b 0) = 2" by (simp add: pinging_fields)
  ultimately show "\<exists>b. recv_runs k 0 b 0 (Some (submit_close k b 7)) \<and> c_recv_len (client_at b 0) = 2" by blast
qed

end
