(* ===== verification/First_Packet.thy ===== *)
theory First_Packet
  imports Conn_Loop
begin

text \<open>
  Packets out of order: nothing but CONNECT and the acknowledgements is served before CONNECT, and CONNECT is served once.
\<close>

section \<open>A packet that closes the connection\<close>

lemma fixed_header_type:
  "mqtt_parse_fixed_header buf p len = Inr hdr \<Longrightarrow> hdr_type hdr = drop_bit 4 (buf ! p)"
  by (auto simp: mqtt_parse_fixed_header_def ebind_Inr_iff rd_def Let_def split: if_splits)

text \<open>A packet out of order: before CONNECT anything but CONNECT and the four acknowledgements, after it a CONNECT.\<close>

definition out_of_order :: "client_slot \<Rightarrow> mqtt_fixed_header \<Rightarrow> bool" where
  "out_of_order c hdr \<longleftrightarrow> (if c_protocol_version c = 0
     then hdr_type hdr \<notin> {MQTT_CONNECT, MQTT_PUBACK, MQTT_PUBREC, MQTT_PUBREL, MQTT_PUBCOMP} else hdr_type hdr = MQTT_CONNECT)"

lemma refused_packet: "out_of_order (client_at b s) hdr \<Longrightarrow> process_mqtt_packet_ex k b s buf p hdr = Some (-1, b)"
  by (auto simp: out_of_order_def process_mqtt_packet_ex_def Let_def handle_connect_def handle_subscribe_def handle_unsubscribe_def
      handle_publish_def split: if_splits)

lemma refused_round:
  assumes o: "out_of_order (client_at b s) hdr" and c: "mqtt_packet_complete_ex buf d (c_recv_len (client_at b s)) = Inr (n, hdr)"
  shows "recv_round k b s buf d = Some (None, submit_close k b (c_fd (client_at b s)))"
proof -
  have "hdr_type hdr = drop_bit 4 (buf ! d)"
    by (rule fixed_header_type [of buf d "c_recv_len (client_at b s)"])
      (use c in \<open>auto simp: mqtt_packet_complete_ex_def ebind_Inr_iff Let_def split: if_splits\<close>)
  then have "fast_path k b s buf d = None" using o by (auto simp: fast_path_def fast_ack_def out_of_order_def split: if_splits)
  then show ?thesis using refused_packet [OF o, of k buf d] c by (simp add: recv_round_def Let_def)
qed

lemma calls_get_sqe: "get_sqe_with_flush k b = (r, b') \<Longrightarrow> b_calls b' = b_calls b"
  by (auto simp: get_sqe_with_flush_def broker_enter_def Let_def split: prod.splits option.splits)

text \<open>What \<open>submit_close\<close> makes of a live connection, whether or not the request to close gets into the ring.\<close>

lemma submit_close_live:
  assumes "broker_get_client_by_fd b fd = Some s" "c_state (client_at b s) = CLIENT_ACTIVE" "s < length (b_clients b)"
  shows "c_state (client_at (submit_close k b fd) s) = CLIENT_CLOSING" "b_calls (submit_close k b fd) = b_calls b @ [Shutdown fd]"
proof -
  let ?b = "sys_shutdown (client_update b s (\<lambda>c. c\<lparr>c_state := CLIENT_CLOSING\<rparr>)) fd"
  have at: "c_state (client_at ?b s) = CLIENT_CLOSING" "s < length (b_clients ?b)" "b_calls ?b = b_calls b @ [Shutdown fd]"
    using assms(3) by (simp_all add: client_at_def client_update_def sys_shutdown_def)
  obtain r b1 where g: "get_sqe_with_flush k ?b = (r, b1)" by (cases "get_sqe_with_flush k ?b")
  have "conn (submit_close k b fd) = conn ?b"
    using conn_get_sqe [OF g] assms(1,2) g by (auto simp: submit_close_def Let_def split: option.split)
  from conn_client [OF this at(2)] show "c_state (client_at (submit_close k b fd) s) = CLIENT_CLOSING" using at(1) by simp
  show "b_calls (submit_close k b fd) = b_calls b @ [Shutdown fd]"
    using calls_get_sqe [OF g] at(3) assms(1,2) g by (simp add: submit_close_def put_sqe_def Let_def split: option.split)
qed

text \<open>C13: a complete packet out of order at the front of the receive window of a live connection is an error: before a CONNECT
  was accepted any packet but CONNECT and the four acknowledgements, after it a second CONNECT.  The handlers change
  nothing, and all that happens is that the socket is shut down and the slot starts to close; the rest of the window
  is not looked at.  The acknowledgements are served without a CONNECT.\<close>

theorem connect_comes_first:
  assumes "out_of_order (client_at b s) hdr"
    and "client_recv_buf (client_at b s) (b_recv_pool b) = Some buf"
      "mqtt_packet_complete_ex buf (c_recv_start (client_at b s)) (c_recv_len (client_at b s)) = Inr (n, hdr)"
    and "broker_get_client_by_fd b (c_fd (client_at b s)) = Some s" "c_state (client_at b s) = CLIENT_ACTIVE" "s < length (b_clients b)"
  shows "process_mqtt_packet_ex k b s buf (c_recv_start (client_at b s)) hdr = Some (-1, b)
    \<and> process_recv_buffer k b s = Some (submit_close k b (c_fd (client_at b s)))
    \<and> c_state (client_at (submit_close k b (c_fd (client_at b s))) s) = CLIENT_CLOSING
    \<and> b_calls (submit_close k b (c_fd (client_at b s))) = b_calls b @ [Shutdown (c_fd (client_at b s))]"
proof -
  have "0 < c_recv_len (client_at b s)" using assms(3)
    by (auto simp: mqtt_packet_complete_ex_def mqtt_parse_fixed_header_def ebind_Inr_iff split: if_splits)
  then have "process_recv_buffer k b s = Some (submit_close k b (c_fd (client_at b s)))"
    using refused_round [OF assms(1,3), of k] assms(2)
    by (cases "c_recv_len (client_at b s)") (simp_all add: process_recv_buffer_def)
  then show ?thesis using refused_packet [OF assms(1)] submit_close_live [OF assms(4-6)] by simp
qed

text \<open>A live client that sends PINGREQ first.\<close>

definition refused_broker :: "broker \<Rightarrow> broker" where
  "refused_broker b = (pinging_broker b)\<lparr>b_clients := [ping_client\<lparr>c_recv_buf_idx := 0, c_recv_len := 2, c_state := CLIENT_ACTIVE\<rparr>],
     b_max_clients := 1, b_max_fds := 8, b_fd_to_slot := replicate 8 0\<rparr>"

theorem connect_comes_first_witness:
  "\<forall>k. \<exists>b. c_protocol_version (client_at b 0) = 0 \<and> c_state (client_at b 0) = CLIENT_ACTIVE
     \<and> process_recv_buffer k b 0 = Some (submit_close k b 7) \<and> c_state (client_at (submit_close k b 7) 0) = CLIENT_CLOSING"
proof
  fix k and b0 :: broker
  let ?b = "refused_broker b0"
  have c: "client_at ?b 0 = ping_client\<lparr>c_recv_buf_idx := 0, c_recv_len := 2, c_state := CLIENT_ACTIVE\<rparr>" "length (b_clients ?b) = 1"
    by (simp_all add: refused_broker_def client_at_def)
  have v: "c_protocol_version (client_at ?b 0) = 0" "c_fd (client_at ?b 0) = 7" "c_recv_start (client_at ?b 0) = 0"
    "c_recv_len (client_at ?b 0) = 2" "c_state (client_at ?b 0) = CLIENT_ACTIVE"
    by (simp_all add: c ping_client_def initial_client_def zero_client_def)
  have f: "mqtt_packet_complete_ex [0xC0, 0] 0 2 =
      Inr (2, \<lparr>hdr_type = MQTT_PINGREQ, hdr_flags = 0, remaining_len = 0, header_len = 2\<rparr>)" by code_simp
  have "out_of_order (client_at ?b 0) \<lparr>hdr_type = MQTT_PINGREQ, hdr_flags = 0, remaining_len = 0, header_len = 2\<rparr>"
    by (simp add: out_of_order_def v)
  moreover have "client_recv_buf (client_at ?b 0) (b_recv_pool ?b) = Some [0xC0, 0]"
    by (simp add: c client_recv_buf_def buf_pool_get_def) (simp add: refused_broker_def pinging_broker_def BUF_POOL_INVALID_def)
  moreover have "broker_get_client_by_fd ?b (c_fd (client_at ?b 0)) = Some 0"
    by (simp add: broker_get_client_by_fd_def v) (simp add: refused_broker_def)
  ultimately show "\<exists>b. c_protocol_version (client_at b 0) = 0 \<and> c_state (client_at b 0) = CLIENT_ACTIVE
     \<and> process_recv_buffer k b 0 = Some (submit_close k b 7) \<and> c_state (client_at (submit_close k b 7) 0) = CLIENT_CLOSING"
    using connect_comes_first [of ?b 0 _ _ 2 k] f c(2) by (intro exI [of _ ?b]) (simp add: v)
qed

end
