(* ===== verification/Config_Text.thy ===== *)
theory Config_Text
  imports Prelude
begin

text \<open>
  The string helpers and the INI line parser of \<^verbatim>\<open>src/src/util/configlib.h\<close>, and the number formatting of
  \<^verbatim>\<open>src/src/util/log.h\<close>.  A C string is a \<open>string\<close> without its terminator; a pointer into it is the rest.
\<close>

section \<open>Characters\<close>

definition code :: "char \<Rightarrow> nat" where
  "code c = of_char c"

lemma code_simps [simp]: "code c < 256" "char_of (code c) = c" "n < 256 \<Longrightarrow> code (char_of n) = n"
    "code c = code d \<longleftrightarrow> c = d"
  using of_char_eq_iff [of c d, where ?'a = nat]
  by (simp_all add: code_def nat_of_char_less_256)

definition to_upper :: "char \<Rightarrow> char" where
  "to_upper c = (if 97 \<le> code c \<and> code c \<le> 122 then char_of (code c - 32) else c)"

definition to_lower :: "char \<Rightarrow> char" where
  "to_lower c = (if 65 \<le> code c \<and> code c \<le> 90 then char_of (code c + 32) else c)"

definition is_digit :: "char \<Rightarrow> bool" where
  "is_digit c \<longleftrightarrow> 48 \<le> code c \<and> code c \<le> 57"

section \<open>Strings\<close>

fun cl_streq :: "string \<Rightarrow> string \<Rightarrow> bool" where
  "cl_streq (a # as) (b # bs) = (if a \<noteq> b then False else cl_streq as bs)"
| "cl_streq as bs = (as = [] \<and> bs = [])"

fun cl_streq_nocase :: "string \<Rightarrow> string \<Rightarrow> bool" where
  "cl_streq_nocase (a # as) (b # bs) = (if to_lower a \<noteq> to_lower b then False else cl_streq_nocase as bs)"
| "cl_streq_nocase as bs = (as = [] \<and> bs = [])"

lemma cl_streq_eq [simp]: "cl_streq as bs \<longleftrightarrow> as = bs"
  by (induction as bs rule: cl_streq.induct) auto

lemma cl_streq_nocase_eq: "cl_streq_nocase as bs \<longleftrightarrow> map to_lower as = map to_lower bs"
  by (induction as bs rule: cl_streq_nocase.induct) auto

text \<open>The loop of \<open>_cl_parse\<close>; \<open>v\<close> is a u64.\<close>

fun cl_parse_from :: "u64 \<Rightarrow> string \<Rightarrow> u64" where
  "cl_parse_from v (c # cs) = (if is_digit c then cl_parse_from (v * 10 + of_nat (code c - 48)) cs else v)"
| "cl_parse_from v [] = v"

definition cl_parse :: "string \<Rightarrow> u64" where
  "cl_parse s = cl_parse_from 0 s"

text \<open>Both inner loops of \<open>_cl_getenv\<close>: what is left of the pattern and of the entry.\<close>

fun match_upper :: "string \<Rightarrow> string \<Rightarrow> string \<times> string" where
  "match_upper (p # ps) (s # ss) =
     (if s = CHR ''='' then (p # ps, s # ss)
      else if to_upper p \<noteq> to_upper s then (p # ps, s # ss) else match_upper ps ss)"
| "match_upper ps ss = (ps, ss)"

fun cl_getenv :: "string list \<Rightarrow> string \<Rightarrow> string \<Rightarrow> string option" where
  "cl_getenv [] prefix name = None"
| "cl_getenv (e # envp) prefix name =
     (case match_upper prefix e of
        ([], s # ss) \<Rightarrow>
          if s \<noteq> CHR ''_'' then cl_getenv envp prefix name
          else (case match_upper name ss of
                  ([], v # vs) \<Rightarrow> if v = CHR ''='' then Some vs else cl_getenv envp prefix name
                | _ \<Rightarrow> cl_getenv envp prefix name)
      | _ \<Rightarrow> cl_getenv envp prefix name)"

section \<open>INI lines\<close>

definition newline :: char where
  "newline = CHR 0x0A"

definition is_blank :: "char \<Rightarrow> bool" where
  "is_blank c \<longleftrightarrow> c = CHR '' '' \<or> c = CHR 0x09"

definition cl_skip_ws :: "string \<Rightarrow> string" where
  "cl_skip_ws s = dropWhile is_blank s"

definition token_char :: "char \<Rightarrow> bool" where
  "token_char c \<longleftrightarrow> \<not> is_blank c \<and> c \<noteq> newline \<and> c \<noteq> CHR 0x0D \<and> c \<noteq> CHR ''#'' \<and> c \<noteq> CHR '';''"

definition cl_copy_token :: "string \<Rightarrow> nat \<Rightarrow> string" where
  "cl_copy_token src max_len = takeWhile token_char (take (max_len - 1) src)"

datatype ini_line =
    CL_INI_EMPTY
  | CL_INI_SECTION string
  | CL_INI_VALUE string string

definition cl_parse_ini_line :: "string \<Rightarrow> ini_line" where
  "cl_parse_ini_line line =
     (let s = cl_skip_ws line
      in if s = [] \<or> hd s = newline \<or> hd s = CHR 0x0D \<or> hd s = CHR ''#'' \<or> hd s = CHR '';'' then CL_INI_EMPTY
         else if hd s = CHR ''['' then CL_INI_SECTION (takeWhile (\<lambda>c. c \<noteq> CHR '']'' \<and> c \<noteq> newline) (take 63 (tl s)))
         else let name = cl_copy_token s 64
              in if name = [] then CL_INI_EMPTY
                 else let s = cl_skip_ws (drop (length name) s)
                      in if s = [] \<or> hd s \<noteq> CHR ''='' then CL_INI_EMPTY
                         else CL_INI_VALUE name (cl_copy_token (cl_skip_ws (tl s)) 64))"

section \<open>Numbers\<close>

definition digit_char :: "nat \<Rightarrow> char" where
  "digit_char d = char_of (48 + d)"

text \<open>The digit loop of \<open>fmt_int\<close>; it fills \<open>tmp\<close> from its end.\<close>

function fmt_digits :: "u64 \<Rightarrow> string \<Rightarrow> string" where
  "fmt_digits un acc =
     (let acc = digit_char (unat (un mod 10)) # acc; un = un div 10
      in if un > 0 then fmt_digits un acc else acc)"
  by pat_completeness auto
termination
proof (relation "measure (\<lambda>(un, acc). unat un)")
  fix un :: u64 and acc acc' :: string and x
  assume "x = un div 10" "0 < x"
  then have "0 < unat un div 10" "unat x = unat un div 10" by (simp_all add: unat_div word_less_nat_alt)
  then show "((x, acc'), un, acc) \<in> measure (\<lambda>(un, acc). unat un)" by simp
qed simp

definition I64_MAX_DIGITS :: nat where
  "I64_MAX_DIGITS = 24"

definition fmt_int :: "64 word \<Rightarrow> bool \<Rightarrow> string" where
  "fmt_int n is_signed =
     (let neg = (is_signed \<and> n <s 0);
          un = (if neg then - n else n);
          p = fmt_digits un []
      in if neg then CHR ''-'' # p else p)"

function fmt_hex_digits :: "u64 \<Rightarrow> string \<Rightarrow> string" where
  "fmt_hex_digits n acc =
     (let acc = (''0123456789abcdef'' ! unat (n AND 0xF)) # acc; n = drop_bit 4 n
      in if n > 0 then fmt_hex_digits n acc else acc)"
  by pat_completeness auto
termination
proof (relation "measure (\<lambda>(n, acc). unat n)")
  fix n :: u64 and acc acc' :: string and x
  assume "x = drop_bit 4 n" "0 < x"
  moreover have "unat (drop_bit 4 n) = unat n div 16" unfolding unat_drop_bit_eq by (simp add: drop_bit_eq_div)
  ultimately have "0 < unat n div 16" "unat x = unat n div 16" by (simp_all add: word_less_nat_alt del: drop_bit_eq_div)
  then show "((x, acc'), n, acc) \<in> measure (\<lambda>(n, acc). unat n)" by simp
qed simp

definition fmt_hex :: "u64 \<Rightarrow> string" where
  "fmt_hex n = fmt_hex_digits n []"

section \<open>What the number parser reads\<close>

declare fmt_digits.simps [simp del] fmt_hex_digits.simps [simp del]

fun dec_digits :: "nat \<Rightarrow> string" where
  "dec_digits n = (if n < 10 then [digit_char n] else dec_digits (n div 10) @ [digit_char (n mod 10)])"

declare dec_digits.simps [simp del]

fun dec_value :: "nat \<Rightarrow> string \<Rightarrow> nat" where
  "dec_value v [] = v"
| "dec_value v (c # cs) = dec_value (v * 10 + (code c - 48)) cs"

lemma digit_char_code: "d < 10 \<Longrightarrow> is_digit (digit_char d) \<and> code (digit_char d) = 48 + d"
  by (simp add: digit_char_def is_digit_def)

lemma cl_parse_from_value: "cl_parse_from (of_nat v) s = of_nat (dec_value v (takeWhile is_digit s))"
proof (induction s arbitrary: v)
  case (Cons c s)
  have "(of_nat v :: u64) * 10 + of_nat (code c - 48) = of_nat (v * 10 + (code c - 48))" by (simp only: of_nat_add of_nat_mult of_nat_numeral)
  then show ?case using Cons by (simp del: of_nat_add of_nat_mult)
qed simp

lemma dec_value_append: "dec_value v (s @ t) = dec_value (dec_value v s) t"
  by (induction s arbitrary: v) auto

lemma dec_digits_all: "c \<in> set (dec_digits n) \<Longrightarrow> is_digit c"
proof (induction n rule: dec_digits.induct)
  case (1 n)
  then show ?case using digit_char_code dec_digits.simps [of n] by (auto split: if_splits)
qed

lemma dec_value_digits: "dec_value 0 (dec_digits n) = n"
proof (induction n rule: dec_digits.induct)
  case (1 n)
  then show ?case using digit_char_code [of "n mod 10"] digit_char_code [of n] dec_digits.simps [of n]
    by (simp add: dec_value_append)
qed

lemma fmt_digits_dec: "fmt_digits un acc = dec_digits (unat un) @ acc"
proof (induction un acc rule: fmt_digits.induct)
  case (1 un acc)
  have q: "unat (un div 10) = unat un div 10" "unat (un mod 10) = unat un mod 10" by (simp_all add: unat_div unat_mod)
  have "un div 10 > 0 \<longleftrightarrow> \<not> unat un < 10" using q(1) by (simp add: word_less_nat_alt) arith
  then show ?case using 1 q by (subst fmt_digits.simps, subst dec_digits.simps) (simp add: Let_def)
qed

lemma length_dec_digits: "n < 10 ^ Suc k \<Longrightarrow> length (dec_digits n) \<le> Suc k"
proof (induction k arbitrary: n)
  case (Suc k)
  have "n div 10 < 10 ^ Suc k" using Suc.prems by (simp add: less_mult_imp_div_less)
  then show ?case using Suc.IH [of "n div 10"] by (subst dec_digits.simps) simp
qed (subst dec_digits.simps, simp)

lemma length_dec_word: "length (dec_digits (unat (w :: u64))) \<le> 20"
proof -
  have "unat w < 2 ^ 64" using unsigned_less [of w] by simp
  then have "unat w < 10 ^ Suc 19" by simp
  then show ?thesis using length_dec_digits [of "unat w" 19] by simp
qed

text \<open>The configuration parser reads back the number the logger prints, up to the first character that is
  not a digit, and in general reads the decimal value modulo 2^64; a printed number fits the
  formatter's buffer.\<close>

theorem decimal_roundtrip:
  "cl_parse (fmt_int n False @ rest) = (if rest \<noteq> [] \<and> is_digit (hd rest) then cl_parse_from n rest else n)
   \<and> cl_parse s = of_nat (dec_value 0 (takeWhile is_digit s)) \<and> length (fmt_int n sg) < I64_MAX_DIGITS"
proof (intro conjI)
  have f: "fmt_int n False = dec_digits (unat n)" by (simp add: fmt_int_def Let_def fmt_digits_dec)
  have all: "takeWhile is_digit (dec_digits (unat n) @ t) = dec_digits (unat n) @ takeWhile is_digit t" for t
    using dec_digits_all by (simp add: takeWhile_append2)
  have split: "cl_parse (dec_digits (unat n) @ t) = cl_parse_from n t" for t
    using cl_parse_from_value [of 0 "dec_digits (unat n) @ t"] cl_parse_from_value [of "unat n" t]
    by (simp add: cl_parse_def all dec_value_append dec_value_digits)
  have "cl_parse_from n rest = n" if "\<not> (rest \<noteq> [] \<and> is_digit (hd rest))" using that by (cases rest) auto
  then show "cl_parse (fmt_int n False @ rest) = (if rest \<noteq> [] \<and> is_digit (hd rest) then cl_parse_from n rest else n)"
    by (auto simp: f split)
  show "cl_parse s = of_nat (dec_value 0 (takeWhile is_digit s))"
    using cl_parse_from_value [of 0 s] by (simp add: cl_parse_def)
  show "length (fmt_int n sg) < I64_MAX_DIGITS"
    using length_dec_word [of n] length_dec_word [of "- n"]
    by (simp add: fmt_int_def Let_def fmt_digits_dec I64_MAX_DIGITS_def)
qed

section \<open>What the line parser reads\<close>

lemma skip_blanks: "(\<forall>c \<in> set ws. is_blank c) \<Longrightarrow> cl_skip_ws (ws @ s) = cl_skip_ws s"
  by (simp add: cl_skip_ws_def dropWhile_append2)

lemma skip_none: "s = [] \<or> \<not> is_blank (hd s) \<Longrightarrow> cl_skip_ws s = s"
  by (cases s) (auto simp: cl_skip_ws_def)

lemma copy_token_stop:
  assumes "\<forall>c \<in> set t. token_char c" "length t \<le> 63" "s = [] \<or> \<not> token_char (hd s)"
  shows "cl_copy_token (t @ s) 64 = t"
proof -
  have "take 63 (t @ s) = t @ take (63 - length t) s" using assms(2) by simp
  moreover have "takeWhile token_char (take n s) = []" for n using assms(3) by (cases s; cases n) auto
  ultimately show ?thesis using assms(1) by (simp add: cl_copy_token_def takeWhile_append2)
qed

lemma eq_is_token: "token_char CHR ''=''" "\<not> is_blank CHR ''=''"
  by (simp_all add: token_char_def is_blank_def newline_def)

text \<open>A setting of an INI file is read if and only if a blank stands between the name and the equals sign;
  \<open>name=value\<close> without one is taken for a line that says nothing.\<close>

theorem ini_setting_line:
  assumes name: "name \<noteq> []" "\<forall>c \<in> set name. token_char c" "hd name \<noteq> CHR ''[''"
    and val: "value \<noteq> []" "\<forall>c \<in> set value. token_char c" "hd value \<noteq> CHR ''=''" "length name + length value \<le> 62"
    and ws: "\<forall>c \<in> set (w0 @ w1 @ w2). is_blank c" and rest: "rest = [] \<or> hd rest \<in> {newline, CHR 0x0D, CHR ''#'', CHR '';''}"
  shows "cl_parse_ini_line (w0 @ name @ w1 @ [CHR ''=''] @ w2 @ value @ rest)
    = (if w1 = [] then CL_INI_EMPTY else CL_INI_VALUE name value)"
proof -
  let ?line = "name @ w1 @ [CHR ''=''] @ w2 @ value @ rest"
  have tok: "token_char (hd name)" "token_char (hd value)" using name(1,2) val(1,2) by simp_all
  then have nb: "\<not> is_blank (hd name)" "\<not> is_blank (hd value)" by (simp_all add: token_char_def)
  have hd: "hd ?line = hd name" using name(1) by simp
  have skip: "cl_skip_ws (w0 @ ?line) = ?line" using ws nb(1) hd by (simp add: skip_blanks skip_none)
  have start: "\<not> (?line = [] \<or> hd ?line = newline \<or> hd ?line = CHR 0x0D \<or> hd ?line = CHR ''#'' \<or> hd ?line = CHR '';'')" "hd ?line \<noteq> CHR ''[''"
    using tok(1) name(1,3) unfolding hd by (simp_all add: token_char_def)
  have rt: "rest = [] \<or> \<not> token_char (hd rest)" "rest = [] \<or> \<not> is_blank (hd rest)" "rest = [] \<or> hd rest \<noteq> CHR ''=''"
    using rest by (auto simp: token_char_def is_blank_def newline_def)
  have skipv: "cl_skip_ws (w2 @ value @ rest) = value @ rest" using ws nb(2) val(1) by (simp add: skip_blanks skip_none)
  have copyv: "cl_copy_token (value @ rest) 64 = value" using val rt(1) by (intro copy_token_stop) auto
  note parse = cl_parse_ini_line_def [of "w0 @ ?line", unfolded skip Let_def]
  show ?thesis
  proof (cases "w1 = []")
    case False
    have "\<not> token_char (hd w1)" using ws False by (cases w1) (auto simp: token_char_def)
    then have n: "cl_copy_token ?line 64 = name" using name val False by (intro copy_token_stop) auto
    have "cl_skip_ws (w1 @ [CHR ''=''] @ w2 @ value @ rest) = [CHR ''=''] @ w2 @ value @ rest"
      using ws eq_is_token by (simp add: skip_blanks skip_none)
    then show ?thesis using parse start n False skipv copyv name(1) by simp
  next
    case True
    show ?thesis
    proof (cases "w2 = []")
      case w2: True
      have "cl_copy_token ((name @ [CHR ''=''] @ value) @ rest) 64 = name @ [CHR ''=''] @ value"
        using name val rt(1) eq_is_token by (intro copy_token_stop) auto
      then have n: "cl_copy_token ?line 64 = name @ [CHR ''=''] @ value" using True w2 by simp
      have "cl_skip_ws rest = rest" using rt(2) by (rule skip_none)
      then show ?thesis using parse start n True w2 rt(3) by simp
    next
      case False
      have "\<not> token_char (hd w2)" using ws False by (cases w2) (auto simp: token_char_def)
      then have "cl_copy_token ((name @ [CHR ''='']) @ w2 @ value @ rest) 64 = name @ [CHR ''='']"
        using name val eq_is_token False by (intro copy_token_stop) auto
      then have n: "cl_copy_token ?line 64 = name @ [CHR ''='']" using True by simp
      show ?thesis using parse start n True skipv name(1) val by simp
    qed
  qed
qed

text \<open>\<^verbatim>\<open>port = 1884\<close> is read, \<^verbatim>\<open>port=1884\<close> is not.\<close>

theorem ini_setting_line_witness:
  "cl_parse_ini_line ''port = 1884'' = CL_INI_VALUE ''port'' ''1884'' \<and> cl_parse_ini_line ''port=1884'' = CL_INI_EMPTY"
  using ini_setting_line [of "''port''" "''1884''" "[]" "'' ''" "'' ''" "[]"]
    ini_setting_line [of "''port''" "''1884''" "[]" "[]" "[]" "[]"]
  by (simp add: token_char_def is_blank_def newline_def)

end
