(* ===== verification/Log_Format.thy ===== *)
theory Log_Format
  imports Config_Text
begin

text \<open>
  The logger of \<^verbatim>\<open>src/src/util/log.h\<close>: the levels, and the line \<open>log_writef\<close> builds in a buffer of
  \<open>LOG_BUF_SIZE\<close> bytes.  The model keeps every byte that is stored, so that a line longer than the buffer is a
  write past its end.  \<open>None\<close> is an undefined read: of an argument of another type, of bytes a
  string does not have, or of a format after its terminator.
\<close>

section \<open>Levels\<close>

datatype log_level =
    LOG_TRACE | LOG_DEBUG | LOG_INFO | LOG_WARN | LOG_ERROR | LOG_NONE

fun level_rank :: "log_level \<Rightarrow> nat" where
  "level_rank LOG_TRACE = 0"
| "level_rank LOG_DEBUG = 1"
| "level_rank LOG_INFO = 2"
| "level_rank LOG_WARN = 3"
| "level_rank LOG_ERROR = 4"
| "level_rank LOG_NONE = 5"

fun log_prefixes :: "log_level \<Rightarrow> string option" where
  "log_prefixes LOG_TRACE = Some ''[TRACE] ''"
| "log_prefixes LOG_DEBUG = Some ''[DEBUG] ''"
| "log_prefixes LOG_INFO = Some ''[INFO]  ''"
| "log_prefixes LOG_WARN = Some ''[WARN]  ''"
| "log_prefixes LOG_ERROR = Some ''[ERROR] ''"
| "log_prefixes LOG_NONE = None"

section \<open>Formatting\<close>

definition LOG_BUF_SIZE :: nat where
  "LOG_BUF_SIZE = 512"

text \<open>The arguments of a call; a \<open>VStr\<close> is a pointer to a string, \<open>None\<close> the null pointer.\<close>

datatype va =
    VInt "32 word"
  | VLong "64 word"
  | VPtr "64 word"
  | VStr "string option"

definition log_room :: "string \<Rightarrow> nat" where
  "log_room buf = LOG_BUF_SIZE - 2 - length buf"

text \<open>\<open>va_arg\<close> of the two widths.\<close>

definition va_signed :: "bool \<Rightarrow> va list \<Rightarrow> (64 word \<times> va list) option" where
  "va_signed is_long ap =
     (case ap of
        VInt n # ap \<Rightarrow> if is_long then None else Some (scast n, ap)
      | VLong n # ap \<Rightarrow> if is_long then Some (n, ap) else None
      | _ \<Rightarrow> None)"

definition va_unsigned :: "bool \<Rightarrow> va list \<Rightarrow> (64 word \<times> va list) option" where
  "va_unsigned is_long ap =
     (case ap of
        VInt n # ap \<Rightarrow> if is_long then None else Some (ucast n, ap)
      | VLong n # ap \<Rightarrow> if is_long then Some (n, ap) else None
      | _ \<Rightarrow> None)"

text \<open>The \<open>switch\<close> on the conversion character.\<close>

definition log_directive :: "bool \<Rightarrow> char \<Rightarrow> va list \<Rightarrow> string \<Rightarrow> (va list \<times> string) option" where
  "log_directive is_long d ap buf =
     (if d = CHR ''d'' \<or> d = CHR ''i'' then map_option (\<lambda>(n, ap). (ap, buf @ fmt_int n True)) (va_signed is_long ap)
      else if d = CHR ''u'' then map_option (\<lambda>(n, ap). (ap, buf @ fmt_int n False)) (va_unsigned is_long ap)
      else if d = CHR ''x'' then map_option (\<lambda>(n, ap). (ap, buf @ fmt_hex n)) (va_unsigned is_long ap)
      else if d = CHR ''s'' then
        (case ap of VStr s # ap \<Rightarrow> Some (ap, buf @ take (log_room buf) (case s of None \<Rightarrow> ''(null)'' | Some s \<Rightarrow> s)) | _ \<Rightarrow> None)
      else if d = CHR ''p'' then (case ap of VPtr n # ap \<Rightarrow> Some (ap, buf @ ''0x'' @ fmt_hex n) | _ \<Rightarrow> None)
      else if d = CHR ''%'' then Some (ap, buf @ ''%'')
      else let buf = buf @ ''%'' in Some (ap, if log_room buf > 0 then buf @ [d] else buf))"

definition log_counted :: "va list \<Rightarrow> string \<Rightarrow> (va list \<times> string) option" where
  "log_counted ap buf =
     (case ap of
        VInt n # VStr s # ap \<Rightarrow>
          let count = min (nat (sint n)) (log_room buf)
          in if count = 0 then Some (ap, buf)
             else (case s of None \<Rightarrow> None | Some s \<Rightarrow> if length s < count then None else Some (ap, buf @ take count s))
      | _ \<Rightarrow> None)"

function log_format :: "string \<Rightarrow> va list \<Rightarrow> string \<Rightarrow> string option" where
  "log_format fmt ap buf =
     (if fmt = [] \<or> log_room buf = 0 then Some buf
      else if hd fmt \<noteq> CHR ''%'' then log_format (tl fmt) ap (buf @ [hd fmt])
      else let fmt = tl fmt
           in if take 3 fmt = ''.*s''
              then (case log_counted ap buf of None \<Rightarrow> None | Some (ap, buf) \<Rightarrow> log_format (drop 3 fmt) ap buf)
              else let is_long = (fmt \<noteq> [] \<and> hd fmt = CHR ''l'');
                       fmt = (if is_long then tl fmt else fmt)
                   in if fmt = [] then None
                      else (case log_directive is_long (hd fmt) ap buf of
                              None \<Rightarrow> None
                            | Some (ap, buf) \<Rightarrow> log_format (tl fmt) ap buf))"
  by pat_completeness auto
termination by (relation "measure (\<lambda>(fmt, _, _). length fmt)") (auto simp: less_Suc_eq_le diff_le_self split: if_splits)

declare log_format.simps [simp del]

definition log_writef :: "log_level \<Rightarrow> string \<Rightarrow> va list \<Rightarrow> string option" where
  "log_writef level fmt ap =
     (case log_prefixes level of
        None \<Rightarrow> None
      | Some prefix \<Rightarrow> map_option (\<lambda>buf. buf @ [newline]) (log_format fmt ap (take (LOG_BUF_SIZE - 1) prefix)))"

text \<open>\<open>log_trace\<close>, \<open>log_debug\<close>, \<open>log_info\<close>, \<open>log_warn\<close> and \<open>log_error\<close>: the inner \<open>None\<close> writes nothing.\<close>

definition log_at :: "log_level \<Rightarrow> log_level \<Rightarrow> string \<Rightarrow> va list \<Rightarrow> string option option" where
  "log_at g_log_level level fmt ap =
     (if level_rank g_log_level > level_rank level then Some None else map_option Some (log_writef level fmt ap))"

section \<open>The length of a line\<close>

lemma length_fmt_int: "length (fmt_int n sg) \<le> 20"
proof -
  have u: "unat m < 2 ^ 64" for m :: u64 using unsigned_less [of m] by simp
  have "length (dec_digits (unat (- n))) \<le> 19" if "n <s 0"
  proof -
    have neg: "sint n < 0" using that by (simp add: word_sless_alt)
    have "sint n \<ge> - (2 ^ 63)" using sint_ge [of n] by simp
    then have b: "nat (- sint n) \<le> 2 ^ 63" by simp
    have "- n = of_int (- sint n)" by simp
    also have "\<dots> = of_nat (nat (- sint n))" using neg by (simp only: of_nat_nat)
    finally have "unat (- n) = nat (- sint n) mod 2 ^ 64" by (simp only: unat_of_nat_mod) simp
    then have "unat (- n) < 10 ^ Suc 18" using b by simp
    then show ?thesis using length_dec_digits [of "unat (- n)" 18] by simp
  qed
  then show ?thesis using length_dec_word [of n] by (auto simp: fmt_int_def Let_def fmt_digits_dec)
qed

lemma length_fmt_hex_digits: "unat n < 16 ^ Suc k \<Longrightarrow> length (fmt_hex_digits n acc) \<le> Suc k + length acc"
proof (induction k arbitrary: n acc)
  case 0
  then have "drop_bit 4 n = 0" by (simp add: unat_drop_bit word_unat_eq_iff)
  then show ?case by (subst fmt_hex_digits.simps) (simp add: Let_def)
next
  case (Suc k)
  have "unat (drop_bit 4 n) < 16 ^ Suc k" using Suc.prems by (simp add: unat_drop_bit less_mult_imp_div_less)
  note IH = Suc.IH [OF this]
  show ?case by (subst fmt_hex_digits.simps) (auto simp: Let_def intro: order_trans [OF IH])
qed

lemma length_fmt_hex: "length (fmt_hex n) \<le> 16"
proof -
  have "unat n < 2 ^ 64" using unsigned_less [of n] by simp
  then have "unat n < 16 ^ Suc 15" by simp
  then show ?thesis using length_fmt_hex_digits [of n 15 "[]"] by (simp add: fmt_hex_def)
qed

lemma log_room_pos: "log_room buf \<noteq> 0 \<longleftrightarrow> length buf \<le> 509"
  by (auto simp: log_room_def LOG_BUF_SIZE_def)

lemma log_room_take: "length (take (log_room buf) s) \<le> 510 - length buf"
  by (simp add: log_room_def LOG_BUF_SIZE_def)

text \<open>A format without a conversion of a number.\<close>

fun number_free :: "string \<Rightarrow> bool" where
  "number_free (c # d # s) \<longleftrightarrow> (c = CHR ''%'' \<longrightarrow> d \<notin> set ''diuxpl'') \<and> number_free (d # s)"
| "number_free _ \<longleftrightarrow> True"

lemma number_free_tl: "number_free s \<Longrightarrow> number_free (tl s)"
  by (cases s rule: number_free.cases) auto

lemma number_free_drop: "number_free s \<Longrightarrow> number_free (drop n s)"
proof (induction n arbitrary: s)
  case (Suc n)
  then show ?case using number_free_tl [of s] by (simp add: drop_Suc)
qed simp

lemma number_free_directive: "number_free s \<Longrightarrow> s \<noteq> [] \<Longrightarrow> hd s = CHR ''%'' \<Longrightarrow> tl s \<noteq> [] \<Longrightarrow> hd (tl s) \<notin> set ''diuxpl''"
  by (cases s rule: number_free.cases) auto

lemma log_directive_length:
  assumes "log_directive is_long d ap buf = Some (ap', buf')" "length buf \<le> 509"
  shows "length buf' \<le> 529" "d \<notin> set ''diuxpl'' \<Longrightarrow> length buf' \<le> 510"
proof -
  note n = length_fmt_int and h = length_fmt_hex and r = log_room_take [of buf]
  have i: "length buf + length (fmt_int x b) \<le> 529" "length buf + length (fmt_hex x) \<le> 529"
      "length buf + length (fmt_hex x) \<le> 527" "length buf + min (length s) (log_room buf) \<le> 529" for x b and s :: string
    using n [of x b] h [of x] r [of s] assms(2) by simp_all
  show "length buf' \<le> 529"
    using assms i unfolding log_directive_def Let_def
    by (auto split: if_splits list.splits va.splits option.splits)
  show "length buf' \<le> 510" if "d \<notin> set ''diuxpl''"
    using that assms r unfolding log_directive_def Let_def
    by (auto simp: log_room_def LOG_BUF_SIZE_def split: if_splits list.splits va.splits option.splits)
qed

lemma log_counted_length:
  assumes "log_counted ap buf = Some (ap', buf')" "length buf \<le> 509"
  shows "length buf' \<le> 510"
  using assms unfolding log_counted_def Let_def
  by (auto simp: log_room_def LOG_BUF_SIZE_def split: if_splits list.splits va.splits option.splits)

lemma log_format_length:
  assumes "log_format fmt ap buf = Some out" "length buf \<le> 529"
  shows "length out \<le> 529 \<and> (length buf \<le> 510 \<longrightarrow> number_free fmt \<longrightarrow> length out \<le> 510)"
  using assms
proof (induction fmt ap buf rule: log_format.induct)
  case (1 fmt ap buf)
  note run = 1(4) [unfolded log_format.simps [of fmt ap buf] Let_def]
  show ?case
  proof (cases "fmt = [] \<or> log_room buf = 0")
    case True
    then show ?thesis using run 1(5) by simp
  next
    case False
    then have l: "length buf \<le> 509" using log_room_pos [of buf] by simp
    show ?thesis
    proof (cases "hd fmt = CHR ''%''")
      case lit: False
      then show ?thesis using 1(1) [OF False] run False l number_free_tl [of fmt] by simp
    next
      case dir: True
      show ?thesis
      proof (cases "take 3 (tl fmt) = ''.*s''")
        case star: True
        then obtain ap' buf' where c: "log_counted ap buf = Some (ap', buf')" using run False dir by (auto split: option.splits)
        then have "log_format (drop 3 (tl fmt)) ap' buf' = Some out" using run False dir star by simp
        then show ?thesis using 1(2) [OF False _ refl star c refl] dir log_counted_length [OF c l] number_free_tl [of fmt] number_free_drop [of "tl fmt" 3] by simp
      next
        case nostar: False
        define long where "long = (tl fmt \<noteq> [] \<and> hd (tl fmt) = CHR ''l'')"
        define fmt2 where "fmt2 = (if long then tl (tl fmt) else tl fmt)"
        obtain ap' buf' where c: "log_directive long (hd fmt2) ap buf = Some (ap', buf')" and ne: "fmt2 \<noteq> []"
          using run False dir nostar unfolding long_def [symmetric] fmt2_def [symmetric] by (auto split: option.splits if_splits)
        then have "log_format (tl fmt2) ap' buf' = Some out"
          using run False dir nostar unfolding long_def [symmetric] fmt2_def [symmetric] by simp
        note IH = 1(3) [OF False _ refl nostar long_def fmt2_def ne c refl, OF _ this]
        have plain: "fmt2 = tl fmt \<and> hd fmt2 \<notin> set ''diuxpl'' \<and> number_free (tl fmt2)" if "number_free fmt"
          using number_free_directive [OF that _ dir] number_free_tl [OF number_free_tl [OF that]] False ne
          by (auto simp: fmt2_def long_def drop_Suc split: if_splits)
        have "length buf' \<le> 510" if "number_free fmt" using log_directive_length(2) [OF c l] plain that by blast
        then show ?thesis using IH dir log_directive_length(1) [OF c l] plain by (cases "number_free fmt") auto
      qed
    qed
  qed
qed

text \<open>C37: a line has at most 530 bytes, 18 more than its buffer, because a number is stored without a check of
  the room; a line whose format has no number stays below the size of the buffer.\<close>

theorem log_line_bounds:
  assumes "log_writef level fmt ap = Some line"
  shows "length line \<le> LOG_BUF_SIZE + 18 \<and> (number_free fmt \<longrightarrow> length line < LOG_BUF_SIZE)"
proof -
  obtain prefix buf where b: "log_prefixes level = Some prefix" "log_format fmt ap (take (LOG_BUF_SIZE - 1) prefix) = Some buf" "line = buf @ [newline]"
    using assms by (auto simp: log_writef_def split: option.splits)
  have "length prefix = 8" using b(1) by (cases level) auto
  then show ?thesis using log_format_length [OF b(2)] b(3) by (auto simp: LOG_BUF_SIZE_def)
qed

section \<open>The line of a SUBSCRIBE\<close>

lemma log_format_nil: "log_format [] ap buf = Some buf"
  by (simp add: log_format.simps)

lemma log_format_literal:
  "CHR ''%'' \<notin> set s \<Longrightarrow> length buf + length s \<le> 510 \<Longrightarrow> log_format (s @ fmt) ap buf = log_format fmt ap (buf @ s)"
proof (induction s arbitrary: buf)
  case (Cons c s)
  then have "log_room buf \<noteq> 0" by (simp add: log_room_def LOG_BUF_SIZE_def)
  then show ?case using Cons by (subst log_format.simps) auto
qed simp

lemma log_format_int:
  "length buf \<le> 509 \<Longrightarrow> log_format (''%d'' @ fmt) (VInt n # ap) buf = log_format fmt ap (buf @ fmt_int (scast n) True)"
  by (subst log_format.simps) (simp add: log_directive_def va_signed_def log_room_def LOG_BUF_SIZE_def)

lemma log_format_counted:
  assumes "length buf + length s \<le> 510" "length buf \<le> 509" "nat (sint n) = length s"
  shows "log_format (''%.*s'' @ fmt) (VInt n # VStr (Some s) # ap) buf = log_format fmt ap (buf @ s)"
proof -
  have "min (nat (sint n)) (log_room buf) = length s" using assms by (auto simp: log_room_def LOG_BUF_SIZE_def)
  then have "log_counted (VInt n # VStr (Some s) # ap) buf = Some (ap, buf @ s)" by (simp add: log_counted_def Let_def)
  moreover have "log_room buf \<noteq> 0" using assms(2) by (simp add: log_room_def LOG_BUF_SIZE_def)
  ultimately show ?thesis by (subst log_format.simps) simp
qed

definition subscribe_format :: string where
  "subscribe_format = ''SUBSCRIBE fd='' @ ''%d'' @ '' slot='' @ ''%d'' @ '' topic='' @ [CHR 0x27] @ ''%.*s'' @ [CHR 0x27] @ '' qos='' @ ''%d''
     @ '' granted='' @ ''%d''"

text \<open>A subscription that is refused and whose filter has 456 bytes ends one byte after the buffer.\<close>

lemma log_format_ints:
  assumes "\<forall>s \<in> {s0, s1, s2, s3, s4, s5}. CHR ''%'' \<notin> set s" "length buf + length (s0 @ s1 @ s2 @ s3 @ s4 @ s5) + length topic + 3 \<le> 509"
    "nat (sint n) = length topic"
  shows "log_format (s0 @ ''%d'' @ s1 @ ''%d'' @ s2 @ ''%.*s'' @ s3 @ ''%d'' @ s4 @ ''%d'' @ s5)
      [VInt 5, VInt 0, VInt n, VStr (Some topic), VInt 0, VInt 128] buf
    = log_format s5 [] (buf @ s0 @ ''5'' @ s1 @ ''0'' @ s2 @ topic @ s3 @ ''0'' @ s4 @ ''128'')"
proof -
  have n: "fmt_int 5 True = ''5''" "fmt_int 0 True = ''0''" "fmt_int 128 True = ''128''"
    by (simp_all add: fmt_int_def fmt_digits.simps digit_char_def Let_def word_sless_alt char_of_eq_iff)
  have d: "log_format (CHR ''%'' # CHR ''d'' # fmt) (VInt m # ap) buf = log_format fmt ap (buf @ fmt_int (scast m) True)"
    if "length buf \<le> 509" for fmt m ap buf using log_format_int [OF that] by simp
  have c: "log_format (CHR ''%'' # CHR ''.'' # CHR ''*'' # CHR ''s'' # fmt) (VInt n # VStr (Some topic) # ap) buf = log_format fmt ap (buf @ topic)"
    if "length buf + length topic \<le> 509" for fmt ap buf using log_format_counted [of buf topic n] that assms(3) by simp
  show ?thesis using assms(1,2) by (simp add: log_format_literal d c n)
qed

lemma subscribe_line_overflows:
  assumes "length topic = 456"
  shows "\<exists>line. log_writef LOG_DEBUG subscribe_format [VInt 5, VInt 0, VInt 456, VStr (Some topic), VInt 0, VInt 128] = Some line
    \<and> length line = LOG_BUF_SIZE + 1"
proof -
  have "log_format subscribe_format [VInt 5, VInt 0, VInt 456, VStr (Some topic), VInt 0, VInt 128] ''[DEBUG] ''
    = log_format [] [] (''[DEBUG] '' @ ''SUBSCRIBE fd='' @ ''5'' @ '' slot='' @ ''0'' @ ('' topic='' @ [CHR 0x27]) @ topic
        @ ([CHR 0x27] @ '' qos='') @ ''0'' @ '' granted='' @ ''128'')"
    using assms log_format_ints [of "''SUBSCRIBE fd=''" "'' slot=''" "'' topic='' @ [CHR 0x27]" "[CHR 0x27] @ '' qos=''" "'' granted=''" "[]"
        "''[DEBUG] ''" topic 456] unfolding subscribe_format_def append_assoc append_Nil2 by simp
  then show ?thesis using assms by (simp add: log_writef_def log_format_nil LOG_BUF_SIZE_def)
qed

text \<open>A line that is printed.\<close>

theorem log_line_bounds_witness:
  "\<exists>line. log_writef LOG_INFO ''port %u'' [VInt 1883] = Some line \<and> length line \<le> LOG_BUF_SIZE + 18"
proof -
  have "\<exists>line. log_writef LOG_INFO ''port %u'' [VInt 1883] = Some line"
    by (simp add: log_writef_def log_format.simps log_room_def LOG_BUF_SIZE_def log_directive_def va_unsigned_def)
  then obtain line where l: "log_writef LOG_INFO ''port %u'' [VInt 1883] = Some line" by blast
  then show ?thesis using log_line_bounds [OF l] by blast
qed

end
