(* ===== verification/Slot_Table.thy ===== *)
theory Slot_Table
  imports Conn_Loop
begin

text \<open>
  The life of a connection slot as a state machine: vacant, live on a descriptor, closing, or dormant.
  The table of all slots and the order of the free list are the abstract state; the broker's slot
  array, free list, counters and descriptor map implement it.
\<close>

section \<open>The machine\<close>

datatype slot_phase = Vacant | Live int | Closing int | Dormant

fun phase_fd :: "slot_phase \<Rightarrow> int option" where
  "phase_fd (Live fd) = Some fd"
| "phase_fd (Closing fd) = Some fd"
| "phase_fd _ = None"

record slot_table =
  tb_slots :: "(slot_phase \<times> u8) list"
  tb_free :: "nat list"

definition tb_phase :: "slot_table \<Rightarrow> nat \<Rightarrow> slot_phase" where
  "tb_phase T i = fst (tb_slots T ! i)"

definition tb_gen :: "slot_table \<Rightarrow> nat \<Rightarrow> u8" where
  "tb_gen T i = snd (tb_slots T ! i)"

definition tb_set :: "slot_table \<Rightarrow> nat \<Rightarrow> slot_phase \<Rightarrow> slot_table" where
  "tb_set T i p = T\<lparr>tb_slots := (tb_slots T)[i := (p, tb_gen T i)]\<rparr>"

text \<open>The transitions, for a table that serves the descriptors below \<open>fds\<close>.\<close>

inductive table_step :: "nat \<Rightarrow> slot_table \<Rightarrow> slot_table \<Rightarrow> bool" for fds where
  accepted: "tb_free T = i # is \<Longrightarrow> 0 \<le> fd \<Longrightarrow> fd < int fds \<Longrightarrow>
    (\<And>j. j < length (tb_slots T) \<Longrightarrow> phase_fd (tb_phase T j) \<noteq> Some fd) \<Longrightarrow>
    table_step fds T (T\<lparr>tb_slots := (tb_slots T)[i := (Live fd, tb_gen T i + 1)], tb_free := is\<rparr>)"
| closing: "i < length (tb_slots T) \<Longrightarrow> tb_phase T i = Live fd \<Longrightarrow> table_step fds T (tb_set T i (Closing fd))"
| released: "i < length (tb_slots T) \<Longrightarrow> phase_fd (tb_phase T i) = Some fd \<Longrightarrow>
    table_step fds T ((tb_set T i Vacant)\<lparr>tb_free := i # tb_free T\<rparr>)"
| parked: "i < length (tb_slots T) \<Longrightarrow> phase_fd (tb_phase T i) = Some fd \<Longrightarrow> table_step fds T (tb_set T i Dormant)"

inductive_cases table_stepE: "table_step fds T T'"

definition table_wf :: "nat \<Rightarrow> slot_table \<Rightarrow> bool" where
  "table_wf fds T \<longleftrightarrow> distinct (tb_free T) \<and> set (tb_free T) = {i. i < length (tb_slots T) \<and> tb_phase T i = Vacant}
     \<and> (\<forall>i < length (tb_slots T). \<forall>fd. phase_fd (tb_phase T i) = Some fd \<longrightarrow> 0 \<le> fd \<and> fd < int fds)
     \<and> (\<forall>i < length (tb_slots T). \<forall>j < length (tb_slots T). \<forall>fd.
          phase_fd (tb_phase T i) = Some fd \<and> phase_fd (tb_phase T j) = Some fd \<longrightarrow> i = j)"

lemma table_wfD:
  assumes "table_wf fds T"
  shows "distinct (tb_free T)" "i \<in> set (tb_free T) \<longleftrightarrow> i < length (tb_slots T) \<and> tb_phase T i = Vacant"
    "i < length (tb_slots T) \<Longrightarrow> phase_fd (tb_phase T i) = Some fd \<Longrightarrow> 0 \<le> fd \<and> fd < int fds"
    "i < length (tb_slots T) \<Longrightarrow> j < length (tb_slots T) \<Longrightarrow> phase_fd (tb_phase T i) = Some fd \<Longrightarrow>
       phase_fd (tb_phase T j) = Some fd \<Longrightarrow> i = j"
  using assms unfolding table_wf_def by blast+

lemma table_wfI:
  assumes "distinct (tb_free T)" "\<And>i. i \<in> set (tb_free T) \<longleftrightarrow> i < length (tb_slots T) \<and> tb_phase T i = Vacant"
    "\<And>i fd. i < length (tb_slots T) \<Longrightarrow> phase_fd (tb_phase T i) = Some fd \<Longrightarrow> 0 \<le> fd \<and> fd < int fds"
    "\<And>i j fd. i < length (tb_slots T) \<Longrightarrow> j < length (tb_slots T) \<Longrightarrow> phase_fd (tb_phase T i) = Some fd \<Longrightarrow>
       phase_fd (tb_phase T j) = Some fd \<Longrightarrow> i = j"
  shows "table_wf fds T"
  unfolding table_wf_def using assms by blast

lemma tb_phase_update: "i < length (tb_slots T) \<Longrightarrow> tb_phase (T\<lparr>tb_slots := (tb_slots T)[i := (p, g)]\<rparr>) j = (if j = i then p else tb_phase T j)"
    "i < length (tb_slots T) \<Longrightarrow> tb_phase (tb_set T i p) j = (if j = i then p else tb_phase T j)"
    "tb_phase (T\<lparr>tb_free := fl\<rparr>) j = tb_phase T j" "length (tb_slots (tb_set T i p)) = length (tb_slots T)"
    "tb_free (tb_set T i p) = tb_free T"
  by (simp_all add: tb_phase_def tb_set_def nth_list_update)

text \<open>A slot that keeps or gives up its descriptor; \<open>fl\<close> is the free list after the change.\<close>

lemma table_wf_set:
  assumes wf: "table_wf fds T" and i: "i < length (tb_slots T)"
    and p: "phase_fd p = None \<or> phase_fd p = phase_fd (tb_phase T i)"
    and fl: "distinct fl" "\<And>j. j \<in> set fl \<longleftrightarrow> j < length (tb_slots T) \<and> (if j = i then p = Vacant else tb_phase T j = Vacant)"
  shows "table_wf fds ((tb_set T i p)\<lparr>tb_free := fl\<rparr>)"
proof -
  have f: "phase_fd (tb_phase (tb_set T i p) j) = Some fd \<Longrightarrow> phase_fd (tb_phase T j) = Some fd" for j fd
    using p i by (auto simp: tb_phase_update split: if_splits)
  have r: "0 \<le> fd \<and> fd < int fds" if "j < length (tb_slots T)" "phase_fd (tb_phase (tb_set T i p) j) = Some fd" for j fd
    using table_wfD(3) [OF wf that(1) f [OF that(2)]] .
  have u: "j = k" if "j < length (tb_slots T)" "k < length (tb_slots T)" "phase_fd (tb_phase (tb_set T i p) j) = Some fd"
      "phase_fd (tb_phase (tb_set T i p) k) = Some fd" for j k fd
    using table_wfD(4) [OF wf that(1,2) f [OF that(3)] f [OF that(4)]] .
  define T' where "T' = (tb_set T i p)\<lparr>tb_free := fl\<rparr>"
  have T': "tb_phase T' = tb_phase (tb_set T i p)" "length (tb_slots T') = length (tb_slots T)" "tb_free T' = fl"
    by (simp_all add: T'_def fun_eq_iff tb_phase_update(3,4))
  have s: "j \<in> set fl \<longleftrightarrow> j < length (tb_slots T) \<and> tb_phase (tb_set T i p) j = Vacant" for j
    using fl(2) i by (auto simp: tb_phase_update)
  show ?thesis unfolding T'_def [symmetric]
    by (rule table_wfI) (unfold T', fact fl(1), fact s, fact r, fact u)
qed

lemma table_step_wf: "table_step fds T T' \<Longrightarrow> table_wf fds T \<Longrightarrow> table_wf fds T'"
proof (induction rule: table_step.induct)
  case (accepted T i "is" fd)
  note wf = accepted.prems
  let ?T = "T\<lparr>tb_slots := (tb_slots T)[i := (Live fd, tb_gen T i + 1)], tb_free := is\<rparr>"
  have i: "i < length (tb_slots T)" "tb_phase T i = Vacant"
    using table_wfD(2) [OF wf, of i] accepted.hyps(1) by auto
  have ph: "tb_phase ?T j = (if j = i then Live fd else tb_phase T j)" for j
    using tb_phase_update(1) [OF i(1), of "Live fd" "tb_gen T i + 1" j] by (simp add: tb_phase_def)
  have d: "distinct (i # is)" using table_wfD(1) [OF wf] accepted.hyps(1) by simp
  have s: "j \<in> set is \<longleftrightarrow> j < length (tb_slots T) \<and> tb_phase ?T j = Vacant" for j
    using table_wfD(2) [OF wf] accepted.hyps(1) d unfolding ph by (auto split: if_splits)
  have r: "0 \<le> x \<and> x < int fds" if "j < length (tb_slots T)" "phase_fd (tb_phase ?T j) = Some x" for j x
    using that table_wfD(3) [OF wf that(1)] accepted.hyps(2,3) unfolding ph by (auto split: if_splits)
  have u: "j = k" if "j < length (tb_slots T)" "k < length (tb_slots T)" "phase_fd (tb_phase ?T j) = Some x"
      "phase_fd (tb_phase ?T k) = Some x" for j k x
    using that table_wfD(4) [OF wf that(1,2)] accepted.hyps(4) unfolding ph by (auto split: if_splits)
  have l: "length (tb_slots ?T) = length (tb_slots T)" "tb_free ?T = is" "distinct is" using d by simp_all
  show ?case by (rule table_wfI) (unfold l(1,2), fact l(3), fact s, fact r, fact u)
next
  case (closing i T fd)
  note wf = closing.prems and i = closing.hyps
  have fl: "j \<in> set (tb_free T) \<longleftrightarrow> j < length (tb_slots T) \<and> (if j = i then Closing fd = Vacant else tb_phase T j = Vacant)" for j
    using table_wfD(2) [OF wf, of j] i by simp
  have "table_wf fds ((tb_set T i (Closing fd))\<lparr>tb_free := tb_free T\<rparr>)"
    by (rule table_wf_set [OF wf i(1) _ table_wfD(1) [OF wf] fl]) (simp add: i)
  then show ?case by (simp add: tb_set_def)
next
  case (released i T fd)
  note wf = released.prems and i = released.hyps
  have n: "i \<notin> set (tb_free T)" using table_wfD(2) [OF wf, of i] i(2) by auto
  have fl: "j \<in> set (i # tb_free T) \<longleftrightarrow> j < length (tb_slots T) \<and> (if j = i then Vacant = Vacant else tb_phase T j = Vacant)" for j
    using table_wfD(2) [OF wf, of j] i by simp
  show ?case by (rule table_wf_set [OF wf i(1) _ _ fl]) (use n table_wfD(1) [OF wf] in simp_all)
next
  case (parked i T fd)
  note wf = parked.prems and i = parked.hyps
  have fl: "j \<in> set (tb_free T) \<longleftrightarrow> j < length (tb_slots T) \<and> (if j = i then Dormant = Vacant else tb_phase T j = Vacant)" for j
    using table_wfD(2) [OF wf, of j] i by auto
  have "table_wf fds ((tb_set T i Dormant)\<lparr>tb_free := tb_free T\<rparr>)"
    by (rule table_wf_set [OF wf i(1) _ table_wfD(1) [OF wf] fl]) simp
  then show ?case by (simp add: tb_set_def)
qed

definition table_steps :: "nat \<Rightarrow> slot_table \<Rightarrow> slot_table \<Rightarrow> bool" where
  "table_steps fds = (table_step fds)\<^sup>*\<^sup>*"

lemma table_steps_wf: "table_steps fds T T' \<Longrightarrow> table_wf fds T \<Longrightarrow> table_wf fds T'"
  unfolding table_steps_def by (induction rule: rtranclp_induct) (auto intro: table_step_wf)

text \<open>A dormant slot stays dormant, and generations only grow by accepting.\<close>

lemma table_step_dormant: "table_step fds T T' \<Longrightarrow> table_wf fds T \<Longrightarrow> i < length (tb_slots T) \<Longrightarrow> tb_phase T i = Dormant \<Longrightarrow>
    tb_phase T' i = Dormant \<and> length (tb_slots T') = length (tb_slots T)"
proof (induction rule: table_step.induct)
  case (accepted T j "is" fd)
  have "tb_phase T j = Vacant" "j < length (tb_slots T)" using table_wfD(2) [OF accepted.prems(1), of j] accepted.hyps(1) by auto
  then show ?case using accepted.prems by (auto simp: tb_phase_update)
qed (auto simp: tb_phase_update)

lemma table_steps_dormant: "table_steps fds T T' \<Longrightarrow> table_wf fds T \<Longrightarrow> i < length (tb_slots T) \<Longrightarrow> tb_phase T i = Dormant \<Longrightarrow>
    tb_phase T' i = Dormant \<and> length (tb_slots T') = length (tb_slots T)"
  unfolding table_steps_def
proof (induction rule: rtranclp_induct)
  case (step T1 T2)
  then have "tb_phase T1 i = Dormant" "length (tb_slots T1) = length (tb_slots T)" by auto
  moreover have "table_wf fds T1" using step table_steps_wf unfolding table_steps_def by blast
  ultimately show ?case using table_step_dormant [OF step.hyps(2)] step.prems by simp
qed simp

end
