(* ===== verification/Slot_Sim.thy ===== *)
theory Slot_Sim
  imports Slot_Table
begin

text \<open>
  The broker implements the slot machine: every operation of the event loop that touches a connection
  is a run of the machine on the table the broker represents.
\<close>

section \<open>Coupling\<close>

fun phase_of :: "client_state \<Rightarrow> int \<Rightarrow> slot_phase" where
  "phase_of CLIENT_FREE fd = Vacant"
| "phase_of CLIENT_ACTIVE fd = Live fd"
| "phase_of CLIENT_CLOSING fd = Closing fd"
| "phase_of CLIENT_DORMANT fd = Dormant"

definition slot_abs :: "client_slot \<Rightarrow> slot_phase \<times> u8" where
  "slot_abs c = (phase_of (c_state c) (c_fd c), c_generation c)"

definition holders :: "slot_table \<Rightarrow> nat set" where
  "holders T = {i. i < length (tb_slots T) \<and> phase_fd (tb_phase T i) \<noteq> None}"

definition parked_slots :: "slot_table \<Rightarrow> nat set" where
  "parked_slots T = {i. i < length (tb_slots T) \<and> tb_phase T i = Dormant}"

definition table_rel :: "broker \<Rightarrow> slot_table \<Rightarrow> bool" where
  "table_rel b T \<longleftrightarrow> length (b_clients b) = b_max_clients b \<and> tb_slots T = map slot_abs (b_clients b)
     \<and> slot_chain b (b_free_head b) (tb_free T) \<and> length (b_fd_to_slot b) = b_max_fds b
     \<and> (\<forall>i < b_max_clients b. \<forall>fd. phase_fd (tb_phase T i) = Some fd \<longrightarrow> b_fd_to_slot b ! nat fd = int i)
     \<and> (\<forall>f < b_max_fds b. b_fd_to_slot b ! f = -1 \<or> (\<exists>i < b_max_clients b. b_fd_to_slot b ! f = int i
          \<and> phase_fd (tb_phase T i) = Some (int f)))
     \<and> b_active_count b = card (holders T) \<and> b_dormant_count b = card (parked_slots T) \<and> table_wf (b_max_fds b) T"

lemma table_relD:
  assumes "table_rel b T"
  shows "length (b_clients b) = b_max_clients b" "tb_slots T = map slot_abs (b_clients b)" "length (tb_slots T) = b_max_clients b"
    "slot_chain b (b_free_head b) (tb_free T)" "length (b_fd_to_slot b) = b_max_fds b"
    "i < b_max_clients b \<Longrightarrow> phase_fd (tb_phase T i) = Some fd \<Longrightarrow> b_fd_to_slot b ! nat fd = int i"
    "f < b_max_fds b \<Longrightarrow> b_fd_to_slot b ! f = -1 \<or> (\<exists>i < b_max_clients b. b_fd_to_slot b ! f = int i
          \<and> phase_fd (tb_phase T i) = Some (int f))"
    "b_active_count b = card (holders T)" "b_dormant_count b = card (parked_slots T)" "table_wf (b_max_fds b) T"
    "i < b_max_clients b \<Longrightarrow> tb_phase T i = phase_of (c_state (client_at b i)) (c_fd (client_at b i))"
    "i < b_max_clients b \<Longrightarrow> tb_gen T i = c_generation (client_at b i)"
  using assms unfolding table_rel_def by (auto simp: tb_phase_def tb_gen_def slot_abs_def client_at_def)

lemma phase_of_fd: "phase_fd (phase_of st fd) = Some x \<longleftrightarrow> (st = CLIENT_ACTIVE \<or> st = CLIENT_CLOSING) \<and> x = fd"
    "phase_of st fd = Vacant \<longleftrightarrow> st = CLIENT_FREE" "phase_of st fd = Dormant \<longleftrightarrow> st = CLIENT_DORMANT"
    "phase_fd (phase_of st fd) = None \<longleftrightarrow> st = CLIENT_FREE \<or> st = CLIENT_DORMANT"
    "phase_of st fd = Live x \<longleftrightarrow> st = CLIENT_ACTIVE \<and> x = fd"
  by (cases st; auto)+

lemma card_update:
  assumes "s < (n :: nat)" "\<And>i. i \<noteq> s \<Longrightarrow> P' i = P i"
  shows "card {i. i < n \<and> P' i} + of_bool (P s) = card {i. i < n \<and> P i} + of_bool (P' s)"
proof -
  have e: "{i. i < n \<and> Q i} = (if Q s then insert s {i. i < n \<and> i \<noteq> s \<and> Q i} else {i. i < n \<and> i \<noteq> s \<and> Q i})" for Q
    using assms(1) by auto
  have "{i. i < n \<and> i \<noteq> s \<and> P' i} = {i. i < n \<and> i \<noteq> s \<and> P i}" using assms(2) by blast
  moreover have "card (insert s {i. i < n \<and> i \<noteq> s \<and> P i}) = Suc (card {i. i < n \<and> i \<noteq> s \<and> P i})"
    by (rule card_insert_disjoint) (rule finite_subset [of _ "{..<n}"], auto)
  ultimately show ?thesis by (subst (1 2) e) simp
qed

text \<open>A change of one slot.\<close>

lemma table_rel_set:
  assumes R: "table_rel b T" and s: "s < b_max_clients b"
    and same: "b_max_clients b' = b_max_clients b" "b_max_fds b' = b_max_fds b" "b_clients b' = (b_clients b)[s := c']"
    and T': "tb_slots T' = (tb_slots T)[s := slot_abs c']"
    and wf: "table_wf (b_max_fds b) T'" and chain: "slot_chain b' (b_free_head b') (tb_free T')"
    and len: "length (b_fd_to_slot b') = b_max_fds b"
    and fds: "\<And>f. f < b_max_fds b \<Longrightarrow> b_fd_to_slot b' ! f = (if phase_fd (fst (slot_abs c')) = Some (int f) then int s
        else if phase_fd (tb_phase T s) = Some (int f) then -1 else b_fd_to_slot b ! f)"
    and act: "b_active_count b' + of_bool (phase_fd (tb_phase T s) \<noteq> None) = b_active_count b + of_bool (phase_fd (fst (slot_abs c')) \<noteq> None)"
    and dor: "b_dormant_count b' + of_bool (tb_phase T s = Dormant) = b_dormant_count b + of_bool (fst (slot_abs c') = Dormant)"
  shows "table_rel b' T'"
proof -
  note D = table_relD [OF R]
  have ph: "tb_phase T' i = (if i = s then fst (slot_abs c') else tb_phase T i)" for i
    using s D(3) by (simp add: tb_phase_def T' nth_list_update)
  have lt: "length (tb_slots T') = b_max_clients b" using D(3) by (simp add: T')
  have h: "card (holders T') + of_bool (phase_fd (tb_phase T s) \<noteq> None) = card (holders T) + of_bool (phase_fd (fst (slot_abs c')) \<noteq> None)"
    using card_update [OF s, of "\<lambda>i. phase_fd (tb_phase T' i) \<noteq> None" "\<lambda>i. phase_fd (tb_phase T i) \<noteq> None"]
    unfolding holders_def lt D(3) by (simp add: ph)
  have p: "card (parked_slots T') + of_bool (tb_phase T s = Dormant) = card (parked_slots T) + of_bool (fst (slot_abs c') = Dormant)"
    using card_update [OF s, of "\<lambda>i. tb_phase T' i = Dormant" "\<lambda>i. tb_phase T i = Dormant"]
    unfolding parked_slots_def lt D(3) by (simp add: ph)
  have own: "b_fd_to_slot b' ! nat fd = int i" if i: "i < b_max_clients b" "phase_fd (tb_phase T' i) = Some fd" for i fd
  proof -
    have r: "0 \<le> fd \<and> fd < int (b_max_fds b)" using table_wfD(3) [OF wf _ i(2)] i(1) lt by simp
    then have f: "nat fd < b_max_fds b" "int (nat fd) = fd" by auto
    show ?thesis
    proof (cases "i = s")
      case True
      then show ?thesis using fds [OF f(1)] f(2) i(2) by (simp add: ph)
    next
      case False
      then have o: "phase_fd (tb_phase T i) = Some fd" using i(2) by (simp add: ph)
      have "phase_fd (tb_phase T s) \<noteq> Some fd" using table_wfD(4) [OF D(10), of i s fd] o False i(1) s D(3) by auto
      moreover have "phase_fd (tb_phase T' s) \<noteq> Some fd" using table_wfD(4) [OF wf, of i s fd] i(2) False i(1) s lt by auto
      ultimately show ?thesis using fds [OF f(1)] f(2) D(6) [OF i(1) o] by (simp add: ph)
    qed
  qed
  have inv: "b_fd_to_slot b' ! f = -1 \<or> (\<exists>i < b_max_clients b. b_fd_to_slot b' ! f = int i \<and> phase_fd (tb_phase T' i) = Some (int f))"
    if f: "f < b_max_fds b" for f
  proof (cases "phase_fd (fst (slot_abs c')) = Some (int f) \<or> phase_fd (tb_phase T s) = Some (int f)")
    case True
    then show ?thesis using fds [OF f] s by (auto simp: ph)
  next
    case False
    then have e: "b_fd_to_slot b' ! f = b_fd_to_slot b ! f" using fds [OF f] by simp
    show ?thesis using D(7) [OF f] False s by (auto simp: e ph)
  qed
  have "tb_slots T' = map slot_abs (b_clients b')" using D(2) by (simp add: T' same(3) map_update)
  then show ?thesis unfolding table_rel_def same(1,2)
    using D(1) same(3) chain len own inv wf h p act dor D(8,9) by auto
qed

section \<open>Operations\<close>

text \<open>The part of the broker the coupling sees.\<close>

definition tab :: "broker \<Rightarrow> (client_state \<times> int \<times> u8) list \<times> nat \<times> nat \<times> int list \<times> nat \<times> nat \<times> nat" where
  "tab b = (map (\<lambda>c. (c_state c, c_fd c, c_generation c)) (b_clients b), b_max_clients b, b_max_fds b, b_fd_to_slot b,
     b_free_head b, b_active_count b, b_dormant_count b)"

lemma tab_conn: "conn b' = conn b \<Longrightarrow> tab b' = tab b"
proof -
  assume c: "conn b' = conn b"
  have "map (\<lambda>c. (c_state c, c_fd c, c_generation c)) (b_clients b1)
      = map (\<lambda>v. (v_state v, v_fd v, v_generation v)) (t_clients (conn b1))" for b1
    by (simp add: conn_def conn_of_def)
  then show ?thesis using c conn_fields [OF c] by (simp add: tab_def)
qed

lemma tab_fields:
  assumes "tab b' = tab b"
  shows "length (b_clients b') = length (b_clients b)" "b_max_clients b' = b_max_clients b" "b_max_fds b' = b_max_fds b"
    "b_fd_to_slot b' = b_fd_to_slot b" "b_free_head b' = b_free_head b" "b_active_count b' = b_active_count b"
    "b_dormant_count b' = b_dormant_count b" "map slot_abs (b_clients b') = map slot_abs (b_clients b)"
    "map c_fd (b_clients b') = map c_fd (b_clients b)" "map c_state (b_clients b') = map c_state (b_clients b)"
proof -
  let ?t = "\<lambda>b. map (\<lambda>c. (c_state c, c_fd c, c_generation c)) (b_clients b)"
  have t: "?t b' = ?t b" using assms by (simp only: tab_def prod.inject)
  show "length (b_clients b') = length (b_clients b)" using map_eq_imp_length_eq [OF t] .
  have m: "map slot_abs (b_clients b1) = map (\<lambda>(st, fd, g). (phase_of st fd, g)) (?t b1)"
    "map c_fd (b_clients b1) = map (\<lambda>(st, fd, g). fd) (?t b1)" "map c_state (b_clients b1) = map fst (?t b1)" for b1
    by (simp_all add: slot_abs_def)
  show "map slot_abs (b_clients b') = map slot_abs (b_clients b)" "map c_fd (b_clients b') = map c_fd (b_clients b)"
    "map c_state (b_clients b') = map c_state (b_clients b)"
    by (simp_all only: m t)
  show "b_max_clients b' = b_max_clients b" "b_max_fds b' = b_max_fds b"
    "b_fd_to_slot b' = b_fd_to_slot b" "b_free_head b' = b_free_head b" "b_active_count b' = b_active_count b"
    "b_dormant_count b' = b_dormant_count b" using assms by (simp_all only: tab_def prod.inject)
qed

lemma table_rel_cong: "tab b' = tab b \<Longrightarrow> table_rel b T \<Longrightarrow> table_rel b' T"
proof -
  assume t: "tab b' = tab b" and R: "table_rel b T"
  note f = tab_fields [OF t] and D = table_relD [OF R]
  have "slot_chain b' (b_free_head b') (tb_free T)"
    unfolding f(5)
  proof (rule slot_chain_cong [OF D(4) f(2)])
    fix x assume "x \<in> set (tb_free T)"
    then have "x < length (b_clients b)" using table_wfD(2) [OF D(10)] D(1,3) by simp
    then show "c_fd (client_at b' x) = c_fd (client_at b x)" using f(1,9) by (metis client_at_def nth_map)
  qed
  then show ?thesis using R unfolding table_rel_def f by simp
qed

definition simulated :: "broker \<Rightarrow> broker \<Rightarrow> bool" where
  "simulated b b' \<longleftrightarrow> b_max_fds b' = b_max_fds b \<and> b_max_clients b' = b_max_clients b
     \<and> (\<forall>T. table_rel b T \<longrightarrow> (\<exists>T'. table_rel b' T' \<and> table_steps (b_max_fds b) T T'))"

lemma simulated_tab: "tab b' = tab b \<Longrightarrow> simulated b b'"
  using table_rel_cong tab_fields(2,3) unfolding simulated_def table_steps_def by blast

lemma simulated_conn: "conn b' = conn b \<Longrightarrow> simulated b b'"
  by (rule simulated_tab) (rule tab_conn)

lemma simulated_trans: "simulated b1 b2 \<Longrightarrow> simulated b2 b3 \<Longrightarrow> simulated b1 b3"
  unfolding simulated_def table_steps_def by (metis rtranclp_trans)

lemma simulatedI:
  assumes "b_max_fds b' = b_max_fds b" "b_max_clients b' = b_max_clients b"
    and "\<And>T. table_rel b T \<Longrightarrow> \<exists>T'. table_rel b' T' \<and> table_step (b_max_fds b) T T'"
  shows "simulated b b'"
  using assms unfolding simulated_def table_steps_def by blast

lemma slot_abs_nth: "table_rel b T \<Longrightarrow> i < b_max_clients b \<Longrightarrow> tb_slots T ! i = slot_abs (client_at b i)"
  using table_relD(1,2) by (simp add: client_at_def)

lemma slot_chain_other:
  assumes R: "table_rel b T" and s: "s \<notin> set fl" and ch: "slot_chain b h fl"
    and b': "b_max_clients b' = b_max_clients b" "b_clients b' = (b_clients b)[s := c']"
  shows "slot_chain b' h fl"
proof (rule slot_chain_cong [OF ch b'(1)])
  fix x assume "x \<in> set fl"
  then have "x \<noteq> s" using s by blast
  then show "c_fd (client_at b' x) = c_fd (client_at b x)" by (simp add: client_at_def b'(2))
qed

text \<open>A slot that starts to close.\<close>

lemma closing_simulated:
  assumes s: "s < length (b_clients b)" and act: "c_state (client_at b s) = CLIENT_ACTIVE"
  shows "simulated b (client_update b s (\<lambda>c. c\<lparr>c_state := CLIENT_CLOSING\<rparr>))"
proof (rule simulatedI)
  let ?b = "client_update b s (\<lambda>c. c\<lparr>c_state := CLIENT_CLOSING\<rparr>)" and ?c = "client_at b s"
  show "b_max_fds ?b = b_max_fds b" "b_max_clients ?b = b_max_clients b" by (simp_all add: client_update_def)
  fix T assume R: "table_rel b T"
  note D = table_relD [OF R]
  have sm: "s < b_max_clients b" "s < length (tb_slots T)" using s D(1,3) by simp_all
  have ph: "tb_phase T s = Live (c_fd ?c)" using D(11) [OF sm(1)] act by simp
  have st: "table_step (b_max_fds b) T (tb_set T s (Closing (c_fd ?c)))" by (rule closing [OF sm(2) ph])
  have abs: "slot_abs (?c\<lparr>c_state := CLIENT_CLOSING\<rparr>) = (Closing (c_fd ?c), tb_gen T s)"
    using D(12) [OF sm(1)] by (simp add: slot_abs_def)
  have n: "s \<notin> set (tb_free T)" using table_wfD(2) [OF D(10), of s] ph by simp
  have "table_rel ?b (tb_set T s (Closing (c_fd ?c)))"
  proof (rule table_rel_set [OF R sm(1)])
    show cl: "b_clients ?b = (b_clients b)[s := ?c\<lparr>c_state := CLIENT_CLOSING\<rparr>]" by (simp add: client_update_def client_at_def)
    show "table_wf (b_max_fds b) (tb_set T s (Closing (c_fd ?c)))" by (rule table_step_wf [OF st D(10)])
    have "slot_chain ?b (b_free_head b) (tb_free T)"
      by (rule slot_chain_other [OF R n D(4) _ cl]) (simp add: client_update_def)
    then show "slot_chain ?b (b_free_head ?b) (tb_free (tb_set T s (Closing (c_fd ?c))))"
      by (simp add: client_update_def tb_phase_update)
    show "b_fd_to_slot ?b ! f = (if phase_fd (fst (slot_abs (?c\<lparr>c_state := CLIENT_CLOSING\<rparr>))) = Some (int f) then int s
        else if phase_fd (tb_phase T s) = Some (int f) then - 1 else b_fd_to_slot b ! f)" for f
      using D(6) [OF sm(1), of "int f"] by (simp add: abs ph client_update_def)
  qed (use ph abs D(5) in \<open>simp_all add: client_update_def tb_set_def\<close>)
  then show "\<exists>T'. table_rel ?b T' \<and> table_step (b_max_fds b) T T'" using st by blast
qed

text \<open>A slot that is handed out for a descriptor that is not in use.\<close>

lemma alloc_simulated:
  assumes al: "broker_alloc_slot b fd = (r, b')" and fresh: "0 \<le> fd \<Longrightarrow> fd < int (b_max_fds b) \<Longrightarrow> b_fd_to_slot b ! nat fd = -1"
  shows "simulated b b'"
proof -
  obtain i p where ip: "buf_pool_alloc (b_recv_pool b) = (i, p)" by (cases "buf_pool_alloc (b_recv_pool b)")
  show ?thesis
  proof (cases r)
    case None
    then have "tab b' = tab b" using al ip by (auto simp: broker_alloc_slot_def Let_def tab_def split: if_splits)
    then show ?thesis by (rule simulated_tab)
  next
    case (Some s)
    let ?c = "client_at b s"
    have fd: "0 \<le> fd" "fd < int (b_max_fds b)" and s: "s = b_free_head b" "s < b_max_clients b"
      and b': "b' = (client_update (b\<lparr>b_recv_pool := p, b_free_head := next_free b s\<rparr>) s
       (\<lambda>c. client_init c fd i (b_max_inflight b)))\<lparr>b_fd_to_slot := (b_fd_to_slot b)[nat fd := int s],
         b_active_count := b_active_count b + 1\<rparr>"
      using al Some ip
      by (auto simp: broker_alloc_slot_def Let_def next_free_def client_update_def client_at_def split: if_splits)
    show ?thesis
    proof (rule simulatedI)
      show "b_max_fds b' = b_max_fds b" "b_max_clients b' = b_max_clients b" by (simp_all add: b' client_update_def)
      fix T assume R: "table_rel b T"
      note D = table_relD [OF R]
      obtain fl where fl: "tb_free T = s # fl" "slot_chain b (next_free b s) fl"
        using D(4) s by (cases "tb_free T") auto
      have ph: "tb_phase T s = Vacant" using table_wfD(2) [OF D(10), of s] fl(1) by simp
      have n: "s \<notin> set fl" using table_wfD(1) [OF D(10)] fl(1) by simp
      let ?T = "T\<lparr>tb_slots := (tb_slots T)[s := (Live fd, tb_gen T s + 1)], tb_free := fl\<rparr>"
      have st: "table_step (b_max_fds b) T ?T"
      proof (rule accepted [OF fl(1) fd])
        show "phase_fd (tb_phase T j) \<noteq> Some fd" if "j < length (tb_slots T)" for j
          using D(6) [of j fd] that D(3) fresh [OF fd] by auto
      qed
      have abs: "slot_abs (client_init ?c fd i (b_max_inflight b)) = (Live fd, tb_gen T s + 1)"
        using D(12) [OF s(2)] by (simp add: slot_abs_def client_init_def)
      have "table_rel b' ?T"
      proof (rule table_rel_set [OF R s(2)])
        show cl: "b_clients b' = (b_clients b)[s := client_init ?c fd i (b_max_inflight b)]"
          by (simp add: b' client_update_def client_at_def)
        show "table_wf (b_max_fds b) ?T" by (rule table_step_wf [OF st D(10)])
        have "slot_chain b' (next_free b s) fl"
          by (rule slot_chain_other [OF R n fl(2) _ cl]) (simp add: b' client_update_def)
        then show "slot_chain b' (b_free_head b') (tb_free ?T)" by (simp add: b' client_update_def)
        show "b_fd_to_slot b' ! f = (if phase_fd (fst (slot_abs (client_init ?c fd i (b_max_inflight b)))) = Some (int f) then int s
          else if phase_fd (tb_phase T s) = Some (int f) then - 1 else b_fd_to_slot b ! f)" if "f < b_max_fds b" for f
          unfolding abs using that fd D(5) by (auto simp: ph b' nth_list_update)
      qed (use ph abs D(5) in \<open>simp_all add: b' client_update_def\<close>)
      then show "\<exists>T'. table_rel b' T' \<and> table_step (b_max_fds b) T T'" using st by blast
    qed
  qed
qed

text \<open>A slot that is given back or parked.\<close>

lemma free_abs: "slot_abs (freed_client b s) = (Vacant, c_generation (client_at b s))"
    "slot_abs (client_go_dormant (dropped_client c)) = (Dormant, c_generation c)"
  by (simp_all add: slot_abs_def freed_client_def client_free_def inflight_free_all_fields dropped_client_def client_go_dormant_def)

lemma connected_fd:
  assumes R: "table_rel b T" and con: "connected b s"
  shows "s < b_max_clients b" "s < length (b_clients b)" "phase_fd (tb_phase T s) = Some (c_fd (client_at b s))"
    "0 \<le> c_fd (client_at b s)" "c_fd (client_at b s) < int (b_max_fds b)" "s \<notin> set (tb_free T)" "tb_phase T s \<noteq> Dormant"
proof -
  note D = table_relD [OF R]
  show s: "s < b_max_clients b" "s < length (b_clients b)" using con D(1) by (simp_all add: connected_def)
  show ph: "phase_fd (tb_phase T s) = Some (c_fd (client_at b s))" using D(11) [OF s(1)] con by (auto simp: phase_of_fd connected_def)
  show "0 \<le> c_fd (client_at b s)" "c_fd (client_at b s) < int (b_max_fds b)" using table_wfD(3) [OF D(10) _ ph] D(3) s(1) by simp_all
  show "s \<notin> set (tb_free T)" using table_wfD(2) [OF D(10), of s] ph by auto
  show "tb_phase T s \<noteq> Dormant" using ph by auto
qed

lemma free_simulated:
  assumes con: "connected b s" and fr: "broker_free_slot b s = Some b'"
  shows "simulated b b'"
proof -
  obtain h where h: "unnamed_map b s = Some h"
    using fr by (auto simp: broker_free_slot_def unnamed_map_def Let_def split: if_splits bind_splits)
  have maxes: "b_max_fds b' = b_max_fds b" "b_max_clients b' = b_max_clients b"
    using fr by (auto simp: broker_free_slot_def Let_def client_update_def drop_recv_buf_def fd_unmap_def split: if_splits bind_splits)
  show ?thesis
  proof (rule simulatedI [OF maxes])
    fix T assume R: "table_rel b T"
    note D = table_relD [OF R] and c = connected_fd [OF R con]
    let ?c = "client_at b s" and ?T = "(tb_set T s Vacant)\<lparr>tb_free := s # tb_free T\<rparr>"
    have b': "b' = b\<lparr>b_client_map := h, b_active_count := b_active_count b - 1, b_dormant_count := b_dormant_count b,
     b_fd_to_slot := (b_fd_to_slot b)[nat (c_fd ?c) := -1], b_clients := (b_clients b)[s := freed_client b s],
     b_recv_pool := dropped_pool ?c (b_recv_pool b), b_trie := trie_remove_fd (b_trie b) s, b_free_head := s\<rparr>"
      using broker_free_slot_eq [OF c(2,1,4,5) h] fr con by (auto simp: connected_def)
    have sl: "s < length (tb_slots T)" using c(1) D(3) by simp
    have st: "table_step (b_max_fds b) T ?T" by (rule released [OF sl c(3)])
    have abs: "slot_abs (freed_client b s) = (Vacant, tb_gen T s)" using D(12) [OF c(1)] by (simp add: free_abs)
    have mem: "s \<in> holders T" using sl c(3) by (simp add: holders_def)
    have "finite (holders T)" by (simp add: holders_def)
    then have pos: "0 < card (holders T)" using mem card_gt_0_iff by blast
    have "table_rel b' ?T"
    proof (rule table_rel_set [OF R c(1) maxes(2,1)])
      show cl: "b_clients b' = (b_clients b)[s := freed_client b s]" by (simp add: b')
      show "table_wf (b_max_fds b) ?T" by (rule table_step_wf [OF st D(10)])
      have "slot_chain b' (b_free_head b) (tb_free T)" by (rule slot_chain_other [OF R c(6) D(4) maxes(2) cl])
      moreover have "next_free b' s = b_free_head b"
        using c(2) by (simp add: next_free_def client_at_def cl freed_client_def)
      ultimately show "slot_chain b' (b_free_head b') (tb_free ?T)" using c(1) by (simp add: maxes(2)) (simp add: b')
      show "b_fd_to_slot b' ! f = (if phase_fd (fst (slot_abs (freed_client b s))) = Some (int f) then int s
          else if phase_fd (tb_phase T s) = Some (int f) then - 1 else b_fd_to_slot b ! f)" if "f < b_max_fds b" for f
        unfolding abs c(3) using that c(4) D(5) by (auto simp: b' nth_list_update)
    qed (use c abs D(5,8) pos in \<open>simp_all add: b' tb_set_def\<close>)
    then show "\<exists>T'. table_rel b' T' \<and> table_step (b_max_fds b) T T'" using st by blast
  qed
qed

lemma dormant_simulated:
  assumes con: "connected b s"
  shows "simulated b (broker_slot_go_dormant b s)"
proof -
  let ?b = "broker_slot_go_dormant b s" and ?c = "client_at b s"
  have maxes: "b_max_fds ?b = b_max_fds b" "b_max_clients ?b = b_max_clients b"
    by (simp_all add: broker_slot_go_dormant_def Let_def client_update_def drop_recv_buf_def fd_unmap_def)
  show ?thesis
  proof (rule simulatedI [OF maxes])
    fix T assume R: "table_rel b T"
    note D = table_relD [OF R] and c = connected_fd [OF R con]
    note b' = broker_go_dormant_eq [OF con c(2,4,5)]
    let ?T = "tb_set T s Dormant"
    have sl: "s < length (tb_slots T)" using c(1) D(3) by simp
    have st: "table_step (b_max_fds b) T ?T" by (rule parked [OF sl c(3)])
    have abs: "slot_abs (client_go_dormant (dropped_client ?c)) = (Dormant, tb_gen T s)" using D(12) [OF c(1)] by (simp add: free_abs)
    have mem: "s \<in> holders T" using sl c(3) by (simp add: holders_def)
    have "finite (holders T)" by (simp add: holders_def)
    then have pos: "0 < card (holders T)" using mem card_gt_0_iff by blast
    have "table_rel ?b ?T"
    proof (rule table_rel_set [OF R c(1) maxes(2,1)])
      show cl: "b_clients ?b = (b_clients b)[s := client_go_dormant (dropped_client ?c)]" by (simp add: b')
      show "table_wf (b_max_fds b) ?T" by (rule table_step_wf [OF st D(10)])
      have "slot_chain ?b (b_free_head b) (tb_free T)" by (rule slot_chain_other [OF R c(6) D(4) maxes(2) cl])
      then show "slot_chain ?b (b_free_head ?b) (tb_free ?T)" by (simp add: b' tb_phase_update)
      show "b_fd_to_slot ?b ! f = (if phase_fd (fst (slot_abs (client_go_dormant (dropped_client ?c)))) = Some (int f) then int s
          else if phase_fd (tb_phase T s) = Some (int f) then - 1 else b_fd_to_slot b ! f)" if "f < b_max_fds b" for f
        unfolding abs c(3) using that c(4) D(5) by (auto simp: b' nth_list_update)
    qed (use c abs D(5,8) pos in \<open>simp_all add: b' tb_set_def\<close>)
    then show "\<exists>T'. table_rel ?b T' \<and> table_step (b_max_fds b) T T'" using st by blast
  qed
qed

end
