(* ===== verification/Slot_Loop.thy ===== *)
theory Slot_Loop
  imports Slot_Sim
begin

text \<open>
  The event loop as a run of the slot machine: each completion, each retry, each flush and each sweep is
  simulated, and what the machine guarantees holds of the broker in every state the loop reaches.
\<close>

section \<open>Receiving and closing\<close>

lemma tab_update:
  assumes "c_state (f (client_at b s)) = c_state (client_at b s)" "c_fd (f (client_at b s)) = c_fd (client_at b s)"
    "c_generation (f (client_at b s)) = c_generation (client_at b s)"
  shows "tab (client_update b s f) = tab b"
proof (cases "s < length (b_clients b)")
  case True
  then have "map (\<lambda>c. (c_state c, c_fd c, c_generation c)) ((b_clients b)[s := f (b_clients b ! s)])
      = map (\<lambda>c. (c_state c, c_fd c, c_generation c)) (b_clients b)"
    using assms by (simp add: map_update client_at_def list_update_same_conv)
  then show ?thesis by (simp add: tab_def client_update_def)
next
  case False
  then show ?thesis by (simp add: tab_def client_update_def list_update_beyond)
qed

lemma tab_updates [simp]:
  "tab (b\<lparr>b_recv_pool := p\<rparr>) = tab b" "tab (b\<lparr>b_recv_retry_queue := q, b_recv_retry_tail := n\<rparr>) = tab b"
  "tab (b\<lparr>b_bytes_recv := x\<rparr>) = tab b" "tab (b\<lparr>b_bytes_sent := x\<rparr>) = tab b" "tab (b\<lparr>b_accepts := x\<rparr>) = tab b"
  "tab (b\<lparr>b_accept_pending := n\<rparr>) = tab b" "tab (b\<lparr>b_recv_retry_head := n\<rparr>) = tab b" "tab (b\<lparr>b_recv_retries := x\<rparr>) = tab b"
  "tab (b\<lparr>b_egress_retries := x\<rparr>) = tab b" "tab (b\<lparr>b_ring := r\<rparr>) = tab b"
  by (simp_all add: tab_def)

lemma simulated_refl [simp]: "simulated b b"
  by (simp add: simulated_tab)

lemma simulated_after: "tab b1 = tab b \<Longrightarrow> simulated b1 b' \<Longrightarrow> simulated b b'"
  using simulated_trans simulated_tab by metis

lemma simulated_before: "simulated b b1 \<Longrightarrow> tab b' = tab b1 \<Longrightarrow> simulated b b'"
  using simulated_trans simulated_tab by metis

lemma simulated_if:
  assumes "b_max_fds b' = b_max_fds b" "b_max_clients b' = b_max_clients b" "\<And>T. table_rel b T \<Longrightarrow> simulated b b'"
  shows "simulated b b'"
  using assms unfolding simulated_def by blast

lemma by_fd_owner:
  assumes R: "table_rel b T" and f: "broker_get_client_by_fd b fd = Some s"
  shows "s < b_max_clients b" "connected b s" "c_fd (client_at b s) = fd"
proof -
  have r: "0 \<le> fd" "nat fd < b_max_fds b" "b_fd_to_slot b ! nat fd \<ge> 0" "s = nat (b_fd_to_slot b ! nat fd)"
    using f by (auto simp: broker_get_client_by_fd_def Let_def split: if_splits)
  obtain i where i: "i < b_max_clients b" "b_fd_to_slot b ! nat fd = int i" "phase_fd (tb_phase T i) = Some fd"
    using table_relD(7) [OF R r(2)] r(1,3) by auto
  then have "s = i" using r(4) by simp
  then show "s < b_max_clients b" "connected b s" "c_fd (client_at b s) = fd"
    using i table_relD(11) [OF R i(1)] by (auto simp: phase_of_fd connected_def)
qed

lemma close_sqe_conn: "conn (case get_sqe_with_flush k b of (None, b) \<Rightarrow> b | (Some i, b) \<Rightarrow> put_sqe b i f ud) = conn b"
  using conn_get_sqe [of k b] by (auto split: prod.splits option.splits)

lemma submit_close_simulated: "simulated b (submit_close k b fd)"
proof -
  let ?b1 = "case broker_get_client_by_fd b fd of
                 Some s \<Rightarrow> if c_state (client_at b s) = CLIENT_ACTIVE
                           then client_update b s (\<lambda>c. c\<lparr>c_state := CLIENT_CLOSING\<rparr>) else b
               | None \<Rightarrow> b"
  have c: "conn (submit_close k b fd) = conn ?b1"
    unfolding submit_close_def Let_def by (simp only: close_sqe_conn conn_sys)
  have m: "b_max_fds ?b1 = b_max_fds b" "b_max_clients ?b1 = b_max_clients b"
    by (simp_all add: client_update_def split: option.split)
  have "simulated b ?b1"
  proof (rule simulated_if [OF m])
    fix T assume R: "table_rel b T"
    show "simulated b ?b1"
    proof (cases "broker_get_client_by_fd b fd")
      case (Some s)
      then have "s < length (b_clients b)" using by_fd_owner(1) [OF R Some] table_relD(1) [OF R] by simp
      then show ?thesis using Some closing_simulated [of s b] by simp
    qed simp
  qed
  then show ?thesis using simulated_before tab_conn [OF c] by blast
qed

lemma tab_state: "tab b' = tab b \<Longrightarrow> s < length (b_clients b) \<Longrightarrow> c_state (client_at b' s) = c_state (client_at b s)"
  using tab_fields(1,10) by (metis client_at_def nth_map)

lemma compact_tab: "tab (snd (maybe_compact_recv_buf b s)) = tab b"
proof -
  have u: "tab (client_update b1 s (\<lambda>c. c\<lparr>c_recv_start := 0\<rparr>)) = tab b1" for b1 by (rule tab_update) simp_all
  have r: "tab (recv_buf_update b i f) = tab b" for i f by (simp add: recv_buf_update_def)
  show ?thesis using u r by (simp add: maybe_compact_recv_buf_def Let_def split: option.split)
qed

lemma recv_internal_simulated:
  assumes s: "s < length (b_clients b)" and act: "c_state (client_at b s) = CLIENT_ACTIVE"
  shows "simulated b (snd (submit_recv_internal k b s))"
proof (cases "get_sqe_with_flush k b")
  case (Pair i b1)
  note t1 = tab_conn [OF conn_get_sqe [OF Pair]]
  show ?thesis
  proof (cases i)
    case None
    then show ?thesis using Pair t1 simulated_tab by (simp add: submit_recv_internal_def)
  next
    case (Some x)
    show ?thesis
    proof (cases "client_recv_buf (client_at b1 s) (b_recv_pool b1)")
      case None
      then show ?thesis using Some Pair t1 simulated_tab by (simp add: submit_recv_internal_def)
    next
      case buf: (Some buf)
      define b2 where "b2 = snd (maybe_compact_recv_buf b1 s)"
      have t2: "tab b2 = tab b" using t1 by (simp add: b2_def compact_tab)
      have up: "tab (client_update b3 s (\<lambda>c. c\<lparr>c_recv_pending := True\<rparr>)) = tab b3" for b3 by (rule tab_update) simp_all
      have cl: "simulated b (client_update b3 s (\<lambda>c. c\<lparr>c_state := CLIENT_CLOSING\<rparr>))" if t3: "tab b3 = tab b" for b3
      proof (rule simulated_after [OF t3 closing_simulated])
        show "s < length (b_clients b3)" using tab_fields(1) [OF t3] s by simp
        show "c_state (client_at b3 s) = CLIENT_ACTIVE" using tab_state [OF t3 s] act by simp
      qed
      have "tab (put_sqe (sys_shutdown b2 fd) x f ud) = tab b" "tab (put_sqe b2 x f ud) = tab b" for fd f ud
        using t2 tab_conn [of "put_sqe (sys_shutdown b2 fd) x f ud" b2] tab_conn [of "put_sqe b2 x f ud" b2] by simp_all
      then show ?thesis
        using Some Pair buf cl up
        by (simp add: submit_recv_internal_def Let_def b2_def [symmetric] simulated_tab)
    qed
  qed
qed

lemma submit_recv_simulated:
  assumes "s < length (b_clients b)" "c_state (client_at b s) = CLIENT_ACTIVE"
  shows "simulated b (submit_recv k b s)"
proof -
  have e: "tab (recv_retry_enqueue b1 s) = tab b1" for b1 by (simp add: recv_retry_enqueue_def)
  show ?thesis
    using recv_internal_simulated [OF assms, of k] e simulated_before
    by (auto simp: submit_recv_def split: prod.splits bool.splits)
qed

lemma window_tab: "tab (advance_recv b s n) = tab b" "tab (client_update b s (stolen_window new n)) = tab b"
    "tab (client_update b s (\<lambda>c. c\<lparr>c_recv_start := 0\<rparr>)) = tab b"
  unfolding advance_recv_def by (rule tab_update; simp add: stolen_window_def)+

lemma after_packet_tab: "after_packet b s n b' \<Longrightarrow> tab b' = tab b"
  unfolding after_packet_def using tab_conn window_tab(2) by metis

lemma recv_round_on: "recv_round k b s buf data = Some (Some d, b') \<Longrightarrow> tab b' = tab b"
proof (cases "fast_path k b s buf data")
  case None
  assume h: "recv_round k b s buf data = Some (Some d, b')"
  show ?thesis by (rule standard_round [OF None h]) (use after_packet_tab window_tab in metis)
next
  case (Some r)
  assume h: "recv_round k b s buf data = Some (Some d, b')"
  then obtain b1 where b1: "fast_path k b s buf data = Some (Some b1)" "b' = advance_recv b1 s 4"
    using Some by (auto simp: recv_round_def)
  then show ?thesis using fast_path_conn [OF b1(1)] tab_conn window_tab(1) by metis
qed

lemma recv_round_stop: "recv_round k b s buf data = Some (None, b') \<Longrightarrow> simulated b b'"
proof -
  assume h: "recv_round k b s buf data = Some (None, b')"
  then have fp: "fast_path k b s buf data = None" by (auto simp: recv_round_def split: option.splits)
  show ?thesis
  proof (cases "mqtt_packet_complete_ex buf data (c_recv_len (client_at b s))")
    case (Inl e)
    then show ?thesis using h fp submit_close_simulated by (cases e) (auto simp: recv_round_def)
  next
    case (Inr x)
    obtain n hdr where x: "x = (n, hdr)" by (cases x)
    obtain consumed b1 where p: "process_mqtt_packet_ex k b s buf data hdr = Some (consumed, b1)"
      using h fp Inr x by (auto simp: recv_round_def Let_def split: option.splits)
    have t: "tab b1 = tab b" by (rule after_packet_tab [OF process_packet_after(1) [OF p]])
    have "b' = submit_close k b1 (c_fd (client_at b1 s)) \<or> b' = client_update b1 s (\<lambda>c. c\<lparr>c_recv_start := 0\<rparr>)"
      using h fp Inr x p by (auto simp: recv_round_def Let_def split: if_splits)
    then show ?thesis using simulated_after [OF t] submit_close_simulated simulated_tab window_tab(3) by metis
  qed
qed

lemma recv_runs_simulated: "recv_runs k s b data r \<Longrightarrow> r = Some b' \<Longrightarrow> simulated b b'"
proof (induction rule: recv_runs.induct)
  case (runs_on b buf data data' b1 r)
  then show ?case using recv_round_on simulated_after by metis
qed (auto intro: recv_round_stop)

lemma maxes_tab: "tab b' = tab b \<Longrightarrow> b_max_fds b' = b_max_fds b \<and> b_max_clients b' = b_max_clients b"
  using tab_fields(2,3) by blast

lemma process_recv_simulated:
  assumes s: "s < length (b_clients b)" and p: "process_recv_buffer k b s = Some b'"
  shows "simulated b b'"
proof (cases "client_recv_buf (client_at b s) (b_recv_pool b)")
  case None
  then show ?thesis using p by (simp add: process_recv_buffer_def)
next
  case (Some buf)
  then have "recv_runs k s b (c_recv_start (client_at b s)) (Some b')"
    using recv_loop_runs [OF s order_refl, of k "c_recv_start (client_at b s)"] p by (simp add: process_recv_buffer_def)
  then show ?thesis using recv_runs_simulated by blast
qed

lemma free_orphan_tab: "tab (free_orphan b s) = tab b"
proof -
  have "tab (client_update b1 s (\<lambda>c. c\<lparr>c_orphaned_recv_buf_idx := BUF_POOL_INVALID\<rparr>)) = tab b1" for b1
    by (rule tab_update) simp_all
  then show ?thesis by (simp add: free_orphan_def Let_def)
qed

section \<open>Completions\<close>

lemma simulated_len: "simulated b b' \<Longrightarrow> table_rel b T \<Longrightarrow> length (b_clients b') = length (b_clients b)"
  unfolding simulated_def using table_relD(1) by metis

text \<open>The part of \<open>handle_recv\<close> after the window has grown.\<close>

lemma recv_then_submit:
  assumes R: "table_rel b T" and s: "s < length (b_clients b)" and p: "process_recv_buffer k b s = Some b1"
  shows "simulated b (if c_state (client_at b1 s) = CLIENT_ACTIVE then submit_recv k b1 s else b1)"
proof -
  note m = process_recv_simulated [OF s p]
  have "s < length (b_clients b1)" using simulated_len [OF m R] s by simp
  then show ?thesis using m submit_recv_simulated simulated_trans by (metis (full_types))
qed

lemma handle_recv_simulated:
  assumes R: "table_rel b T" and h: "handle_recv k b cqe = Some b'"
  shows "simulated b b'"
proof (cases "broker_get_client b (unat (RECV_CTX_SLOT (ud_ctx (cqe_user_data cqe))))")
  case None
  then show ?thesis using h by (simp add: handle_recv_def Let_def)
next
  case (Some s)
  then have "s < b_max_clients b" by (simp add: broker_get_client_def split: if_splits)
  then have s: "s < length (b_clients b)" using table_relD(1) [OF R] by simp
  define b1 where "b1 = client_update b s (\<lambda>c. c\<lparr>c_recv_pending := False\<rparr>)"
  define b2 where "b2 = (client_update b1 s (\<lambda>c. c\<lparr>c_recv_len := c_recv_len c + nat (cqe_res cqe)\<rparr>))
      \<lparr>b_bytes_recv := b_bytes_recv (client_update b1 s (\<lambda>c. c\<lparr>c_recv_len := c_recv_len c + nat (cqe_res cqe)\<rparr>)) + of_int (cqe_res cqe)\<rparr>"
  have t1: "tab b1 = tab b" unfolding b1_def by (rule tab_update) simp_all
  have "tab (client_update b1 s (\<lambda>c. c\<lparr>c_recv_len := c_recv_len c + nat (cqe_res cqe)\<rparr>)) = tab b1" by (rule tab_update) simp_all
  then have t2: "tab b2 = tab b" using t1 by (simp add: b2_def)
  have s2: "s < length (b_clients b2)" using tab_fields(1) [OF t2] s by simp
  define fin where "fin b3 = (if c_state (client_at b3 s) = CLIENT_ACTIVE then submit_recv k b3 s else b3)" for b3
  consider "b' = free_orphan b s" | "b' = free_orphan b1 s" | fd where "b' = submit_close k b1 fd"
    | b3 where "process_recv_buffer k b2 s = Some b3" "b' = fin b3"
    using h unfolding handle_recv_def Let_def Some option.case b1_def [symmetric] b2_def [symmetric] fin_def [symmetric]
    by (auto split: if_splits)
  then show ?thesis
  proof cases
    case 1
    then show ?thesis using free_orphan_tab simulated_tab by metis
  next
    case 2
    then show ?thesis using free_orphan_tab simulated_tab t1 by metis
  next
    case 3
    then show ?thesis using simulated_after [OF t1 submit_close_simulated] by simp
  next
    case 4
    then show ?thesis using simulated_after [OF t2 recv_then_submit [OF table_rel_cong [OF t2 R] s2 4(1)]] by (simp add: fin_def)
  qed
qed

lemma handle_close_simulated:
  assumes R: "table_rel b T" and h: "handle_close b cqe = Some b'"
  shows "simulated b b'"
proof -
  let ?fd = "int (unat (ud_fd (cqe_user_data cqe)))"
  show ?thesis
  proof (cases "broker_get_client_by_fd b ?fd")
    case None
    then show ?thesis using h by (simp add: handle_close_def Let_def)
  next
    case (Some s)
    note o = by_fd_owner [OF R Some]
    have i: "nat (b_fd_to_slot b ! nat ?fd) = s" using Some by (auto simp: broker_get_client_by_fd_def Let_def split: if_splits)
    have t: "tab (fsm_client_disconnect b s) = tab b" by (rule tab_conn) simp
    have "connected (fsm_client_disconnect b s) s"
      using o(2) tab_state [OF t] tab_fields(2) [OF t] o(1) table_relD(1) [OF R] by (simp add: connected_def)
    note c = free_simulated [OF this] dormant_simulated [OF this]
    have st: "c_state (client_at b s) = CLIENT_ACTIVE \<or> c_state (client_at b s) = CLIENT_CLOSING" using o(2) by (simp add: connected_def)
    have "broker_free_slot (fsm_client_disconnect b s) s = Some b' \<or> b' = broker_slot_go_dormant (fsm_client_disconnect b s) s"
      using h Some o(3) st i by (auto simp: handle_close_def Let_def split: if_splits)
    then show ?thesis using simulated_after [OF t] c by metis
  qed
qed

text \<open>The kernel hands out a descriptor that the broker does not have open.\<close>

definition fresh_accept :: "broker \<Rightarrow> io_uring_cqe \<Rightarrow> bool" where
  "fresh_accept b cqe \<longleftrightarrow> ud_op (cqe_user_data cqe) = OP_ACCEPT \<and> 0 \<le> cqe_res cqe \<and> cqe_res cqe < int (b_max_fds b)
     \<longrightarrow> b_fd_to_slot b ! nat (cqe_res cqe) = -1"

lemma alloc_active: "broker_alloc_slot b fd = (Some s, b') \<Longrightarrow> s < length (b_clients b) \<Longrightarrow>
    c_state (client_at b' s) = CLIENT_ACTIVE \<and> length (b_clients b') = length (b_clients b) \<and> s < b_max_clients b"
  by (auto simp: broker_alloc_slot_def Let_def client_update_def client_at_def client_init_def split: if_splits prod.splits)

lemma submit_accept_simulated: "simulated b b1 \<Longrightarrow> simulated b (snd (submit_accept k b1))"
  using simulated_before tab_conn [OF conn_submit_accept] by blast

lemma handle_accept_simulated:
  assumes R: "table_rel b T" and f: "fresh_accept b cqe" "ud_op (cqe_user_data cqe) = OP_ACCEPT"
  shows "simulated b (handle_accept k b cqe)"
proof -
  let ?fd = "cqe_res cqe"
  define b1 where "b1 = (if b_accept_pending b > 0 then b\<lparr>b_accept_pending := b_accept_pending b - 1\<rparr> else b)"
  define b2 where "b2 = sys_setsockopt_nodelay (b1\<lparr>b_accepts := b_accepts b1 + 1\<rparr>) ?fd"
  have t1: "tab b1 = tab b" by (simp add: b1_def)
  have "conn b2 = conn (b1\<lparr>b_accepts := b_accepts b1 + 1\<rparr>)" by (simp add: b2_def)
  then have t2: "tab b2 = tab b" using tab_conn [of b2 "b1\<lparr>b_accepts := b_accepts b1 + 1\<rparr>"] t1 by simp
  obtain r b3 where al: "broker_alloc_slot b2 ?fd = (r, b3)" by (cases "broker_alloc_slot b2 ?fd")
  have fresh: "0 \<le> ?fd \<Longrightarrow> ?fd < int (b_max_fds b2) \<Longrightarrow> b_fd_to_slot b2 ! nat ?fd = -1"
    using f tab_fields(3,4) [OF t2] by (simp add: fresh_accept_def)
  have s3: "simulated b b3" by (rule simulated_after [OF t2 alloc_simulated [OF al fresh]])
  have close: "simulated b (snd (submit_accept k (sys_close b4 ?fd)))" if "simulated b b4" for b4
    by (rule submit_accept_simulated [OF simulated_before [OF that tab_conn]]) simp
  have recv: "simulated b (submit_recv k b3 s)" if "r = Some s" for s
  proof -
    have "s < b_max_clients b2" using al that by (auto simp: broker_alloc_slot_def Let_def split: if_splits prod.splits)
    then have "s < length (b_clients b2)" using tab_fields(1,2) [OF t2] table_relD(1) [OF R] by simp
    then show ?thesis using alloc_active [of b2 ?fd s b3] al that submit_recv_simulated [of s b3 k] simulated_trans [OF s3] by simp
  qed
  have "simulated b b1" by (rule simulated_tab [OF t1])
  then show ?thesis
    unfolding handle_accept_def Let_def b1_def [symmetric] b2_def [symmetric] al prod.case
    using close submit_accept_simulated s3 recv by (simp split: option.split)
qed

lemma handle_send_resp_tab: "tab (handle_send_resp b cqe) = tab b"
proof -
  have u: "tab (client_update b1 s (\<lambda>c. client_resp_slot_complete c i)) = tab b1" for b1 s i
    by (rule tab_update) (simp_all add: client_resp_slot_complete_def)
  show ?thesis by (simp add: handle_send_resp_def Let_def u split: option.split)
qed

lemma dispatch_simulated:
  assumes R: "table_rel b T" and f: "fresh_accept b cqe" and d: "dispatch_cqe k b cqe = Some b'"
  shows "simulated b b'"
proof -
  let ?op = "ud_op (cqe_user_data cqe)"
  have e: "simulated b b'" if "handle_egress_cqe b cqe = Some b'" by (rule simulated_conn [OF conn_egress_cqe [OF that]])
  have s: "simulated b (handle_send b cqe)" by (simp add: handle_send_def simulated_tab)
  have r: "simulated b (handle_send_resp b cqe)" by (rule simulated_tab [OF handle_send_resp_tab])
  show ?thesis
    using d f e s r handle_accept_simulated [OF R f, of k] handle_recv_simulated [OF R] handle_close_simulated [OF R]
    unfolding dispatch_cqe_def Let_def by (simp split: if_splits)
qed

section \<open>Retries, flushes and sweeps\<close>

lemma dequeue_tab: "recv_retry_dequeue b = (s, b') \<Longrightarrow> tab b' = tab b"
  by (auto simp: recv_retry_dequeue_def split: if_splits)

lemma enqueue_tab: "tab (recv_retry_enqueue b s) = tab b"
  by (simp add: recv_retry_enqueue_def)

lemma recv_retry_loop_simulated: "table_rel b T \<Longrightarrow> simulated b (snd (recv_retry_loop n k b r))"
proof (induction n arbitrary: b r T)
  case (Suc n)
  obtain s b1 where d: "recv_retry_dequeue b = (s, b1)" by (cases "recv_retry_dequeue b")
  note t = dequeue_tab [OF d]
  note R1 = table_rel_cong [OF t Suc.prems]
  have 1: "simulated b b1" by (rule simulated_tab [OF t])
  have rec: "simulated b (snd (recv_retry_loop n k b1 r))" by (rule simulated_after [OF t Suc.IH [OF R1]])
  have sub: "simulated b b2 \<and> simulated b (snd (recv_retry_loop n k b2 r'))"
    if s: "s < b_max_clients b1" "c_state (client_at b1 s) = CLIENT_ACTIVE" "submit_recv_internal k b1 s = (ok, b2)" for ok b2 r'
  proof -
    have "s < length (b_clients b1)" using s(1) table_relD(1) [OF R1] by simp
    then have 2: "simulated b1 b2" using recv_internal_simulated [of s b1 k] s(2,3) by simp
    then obtain T2 where "table_rel b2 T2" using R1 unfolding simulated_def by blast
    then show ?thesis using simulated_trans [OF 1 2] simulated_trans Suc.IH by blast
  qed
  show ?case
    using 1 rec sub d simulated_before [OF _ enqueue_tab]
    by (auto simp: Let_def split: prod.splits bool.splits)
qed simp

lemma egress_flush_loop_conn: "conn (snd (egress_flush_loop n b r)) = conn b"
proof (induction n arbitrary: b r)
  case (Suc n)
  have f: "conn b2 = conn b1" if "egress_flush b1 s = (rc, b2)" for b1 s rc b2 using conn_flush [of b1 s] that by simp
  have d: "conn b1 = conn b" if "egress_flush_dequeue b = (ctx, b1)" for ctx b1 using conn_flush_dequeue [of b] that by simp
  show ?case using Suc.IH f d by (auto simp: Let_def split: prod.splits)
qed simp

lemma replenish_conn: "conn (replenish_accepts n k b) = conn b"
proof (induction n arbitrary: b)
  case (Suc n)
  have "conn b1 = conn b" if "submit_accept k b = (ok, b1)" for ok b1 using conn_submit_accept [of k b] that by simp
  with Suc.IH show ?case by (auto split: prod.splits bool.splits)
qed simp

section \<open>The steps of the event loop\<close>

text \<open>What \<open>broker_run\<close> does between two system calls, in any order.\<close>

inductive loop_step :: "kernel \<Rightarrow> broker \<Rightarrow> broker \<Rightarrow> bool" for k where
  on_completion: "fresh_accept b cqe \<Longrightarrow> dispatch_cqe k b cqe = Some b' \<Longrightarrow> loop_step k b b'"
| on_recv_retries: "loop_step k b (snd (process_recv_retries k b))"
| on_flushes: "loop_step k b (snd (process_egress_flushes b))"
| on_replenish: "loop_step k b (replenish_accepts n k b)"
| on_sweep: "fsm_sweep_all_timeouts b = Some (q, b') \<Longrightarrow> loop_step k b b'"
| on_enter: "broker_enter k b call = (rc, b') \<Longrightarrow> loop_step k b b'"
| on_ring: "loop_step k b (b\<lparr>b_ring := r\<rparr>)"
| on_clock: "loop_step k b (b\<lparr>b_now := t\<rparr>)"
| on_swept: "loop_step k b (b\<lparr>b_last_timeout_sweep := t\<rparr>)"
| on_running: "loop_step k b (b\<lparr>b_running := z\<rparr>)"
| on_accept: "loop_step k b (snd (submit_accept k b))"

inductive_cases loop_stepE: "loop_step k b b'"

lemmas loop_step_intros = loop_step.intros r_into_rtranclp [of "loop_step k" for k]

lemma loop_step_simulated: "loop_step k b b' \<Longrightarrow> table_rel b T \<Longrightarrow> simulated b b'"
proof (induction rule: loop_step.induct)
  case (on_completion b cqe b')
  then show ?case using dispatch_simulated by blast
next
  case (on_recv_retries b)
  then show ?case using recv_retry_loop_simulated [of b T "b_recv_retry_capacity b" k 0] simulated_before
    by (simp add: process_recv_retries_def Let_def split: prod.splits)
next
  case (on_flushes b)
  have "conn (snd (process_egress_flushes b)) = conn b"
    using egress_flush_loop_conn [of "b_egress_flush_capacity b" b 0]
    by (cases "egress_flush_loop (b_egress_flush_capacity b) b 0") (simp add: process_egress_flushes_def Let_def)
  then show ?case by (rule simulated_conn)
next
  case (on_replenish n b)
  then show ?case using simulated_conn [OF replenish_conn] by blast
next
  case (on_sweep b q b')
  then show ?case using simulated_conn [OF conn_sweep] by blast
next
  case (on_enter b call rc b')
  then show ?case using simulated_conn [OF conn_enter] by blast
qed (simp_all add: simulated_conn submit_accept_simulated)

lemma loop_steps_simulated:
  assumes "(loop_step k)\<^sup>*\<^sup>* b b'" "table_rel b T"
  shows "simulated b b'"
  using assms(1)
proof (induction rule: rtranclp_induct)
  case (step b1 b2)
  then obtain T1 where "table_rel b1 T1" using assms(2) unfolding simulated_def by blast
  then show ?case using step simulated_trans loop_step_simulated by blast
qed simp

lemma loop_steps_table:
  assumes "(loop_step k)\<^sup>*\<^sup>* b b'" "table_rel b T"
  obtains T' where "table_rel b' T'" "table_steps (b_max_fds b) T T'" "b_max_clients b' = b_max_clients b"
  using loop_steps_simulated [OF assms] assms(2) unfolding simulated_def by blast

section \<open>The loop as written\<close>

text \<open>A run in which every accept completion has a descriptor that the broker does not have open: the
  completions one iteration takes from the queue, one iteration, and \<open>n\<close> iterations.\<close>

fun drain_fresh :: "nat \<Rightarrow> kernel \<Rightarrow> broker \<Rightarrow> bool" where
  "drain_fresh 0 k b = True"
| "drain_fresh (Suc n) k b =
     (if b_running b
      then case ring_peek_cqe (b_ring b) of
             None \<Rightarrow> True
           | Some cqe \<Rightarrow> fresh_accept b cqe \<and>
               (case dispatch_cqe k b cqe of
                  None \<Rightarrow> True
                | Some b \<Rightarrow> drain_fresh n k (b\<lparr>b_ring := ring_cq_advance (b_ring b) 1\<rparr>))
      else True)"

definition before_drain :: "kernel \<Rightarrow> broker \<Rightarrow> u64 \<Rightarrow> broker" where
  "before_drain k b now =
     (let b = b\<lparr>b_now := now\<rparr>;
          b = b\<lparr>b_ring := ring_flush_sqes (b_ring b)\<rparr>;
          b = snd (broker_enter k b (\<lambda>enter r. ring_submit enter r 0))
      in b\<lparr>b_ring := ring_cq_sync (b_ring b)\<rparr>)"

definition step_fresh :: "kernel \<Rightarrow> broker \<Rightarrow> u64 \<Rightarrow> bool" where
  "step_fresh k b now =
     (let b = before_drain k b now
      in drain_fresh (unat (r_cq_tail_local (b_ring b) - r_cq_head_local (b_ring b))) k b)"

fun loop_fresh :: "nat \<Rightarrow> kernel \<Rightarrow> broker \<Rightarrow> nat \<Rightarrow> bool" where
  "loop_fresh 0 k b t = True"
| "loop_fresh (Suc n) k b t = (step_fresh k b (k_clock k t) \<and>
     (case broker_step k b (k_clock k t) of Some (Inr b) \<Rightarrow> loop_fresh n k b (t + 1) | _ \<Rightarrow> True))"

lemma drain_steps: "drain_fresh n k b \<Longrightarrow> drain_cqes n k b p = Some (q, b') \<Longrightarrow> (loop_step k)\<^sup>*\<^sup>* b b'"
proof (induction n arbitrary: b p)
  case (Suc n)
  show ?case
  proof (cases "b_running b \<and> ring_peek_cqe (b_ring b) \<noteq> None")
    case True
    then obtain cqe where c: "ring_peek_cqe (b_ring b) = Some cqe" by blast
    then obtain b1 where d: "dispatch_cqe k b cqe = Some b1"
      and r: "drain_cqes n k (b1\<lparr>b_ring := ring_cq_advance (b_ring b1) 1\<rparr>) (p + 1) = Some (q, b')"
      using Suc.prems(2) True by (auto split: option.splits)
    have f: "fresh_accept b cqe" "drain_fresh n k (b1\<lparr>b_ring := ring_cq_advance (b_ring b1) 1\<rparr>)"
      using Suc.prems(1) True c d by simp_all
    have 1: "loop_step k b b1" by (rule on_completion [OF f(1) d])
    have 2: "loop_step k b1 (b1\<lparr>b_ring := ring_cq_advance (b_ring b1) 1\<rparr>)" by (rule on_ring)
    have s: "(loop_step k)\<^sup>*\<^sup>* b (b1\<lparr>b_ring := ring_cq_advance (b_ring b1) 1\<rparr>)"
      by (rule rtranclp.rtrancl_into_rtrancl [OF r_into_rtranclp [of "loop_step k", OF 1] 2])
    show ?thesis using Suc.IH [OF f(2) r] s by (meson rtranclp_trans)
  next
    case False
    then show ?thesis using Suc.prems(2) by (auto split: if_splits)
  qed
qed (auto split: if_splits)

lemma broker_step_steps:
  assumes f: "step_fresh k b now" and st: "broker_step k b now = Some (Inr b')"
  shows "(loop_step k)\<^sup>*\<^sup>* b b'"
proof -
  let ?S = "(loop_step k)\<^sup>*\<^sup>*"
  have one: "loop_step k x y \<Longrightarrow> ?S b x \<Longrightarrow> ?S b y" for x y by (rule rtranclp.rtrancl_into_rtrancl)
  define b1 where "b1 = b\<lparr>b_now := now\<rparr>"
  define b2 where "b2 = b1\<lparr>b_ring := ring_flush_sqes (b_ring b1)\<rparr>"
  obtain rc b3 where e: "broker_enter k b2 (\<lambda>enter r. ring_submit enter r 0) = (rc, b3)"
    by (cases "broker_enter k b2 (\<lambda>enter r. ring_submit enter r 0)")
  define b4 where "b4 = b3\<lparr>b_ring := ring_cq_sync (b_ring b3)\<rparr>"
  have s4: "?S b b4" unfolding b4_def b2_def b1_def
    by (rule one [OF on_ring one [OF on_enter [OF e [unfolded b2_def b1_def]] one [OF on_ring one [OF on_clock rtranclp.rtrancl_refl]]]])
  note st' = st [unfolded broker_step_def Let_def, folded b1_def, folded b2_def, unfolded e prod.case, folded b4_def]
  obtain p b5 where d: "drain_cqes (unat (r_cq_tail_local (b_ring b4) - r_cq_head_local (b_ring b4))) k b4 0 = Some (p, b5)"
    using st' by (auto split: if_splits option.splits)
  have "b4 = before_drain k b now"
    unfolding before_drain_def Let_def b1_def [symmetric] b2_def [symmetric] e snd_conv b4_def ..
  then have "drain_fresh (unat (r_cq_tail_local (b_ring b4) - r_cq_head_local (b_ring b4))) k b4"
    using f by (simp add: step_fresh_def Let_def)
  then have s5: "?S b b5" using drain_steps [OF _ d] s4 by (meson rtranclp_trans)
  define b6 where "b6 = b5\<lparr>b_ring := ring_cq_flush (b_ring b5)\<rparr>"
  define b7 where "b7 = snd (process_egress_flushes (snd (process_recv_retries k b6)))"
  define b8 where "b8 = replenish_accepts (ACCEPT_BATCH - b_accept_pending b7) k b7"
  have s8: "?S b b8" unfolding b8_def b7_def b6_def
    by (rule one [OF on_replenish one [OF on_flushes one [OF on_recv_retries one [OF on_ring s5]]]])
  define sweep where "sweep = (if b_now b8 - b_last_timeout_sweep b8 \<ge> LLMQ_TIMEOUT_SWEEP_INTERVAL_MS
      then map_option (\<lambda>(_, b). b\<lparr>b_last_timeout_sweep := b_now b\<rparr>) (fsm_sweep_all_timeouts b8) else Some b8)"
  have s9: "?S b b9" if sw: "sweep = Some b9" for b9
  proof (cases "b9 = b8")
    case False
    then obtain q b10 where "fsm_sweep_all_timeouts b8 = Some (q, b10)" "b9 = b10\<lparr>b_last_timeout_sweep := b_now b10\<rparr>"
      using sw by (auto simp: sweep_def split: if_splits prod.splits)
    then show ?thesis using one [OF on_swept one [OF on_sweep s8]] by blast
  qed (use s8 in simp)
  have fin: "?S b b'" if "sweep = Some b9" "b' = b9 \<or> (\<exists>rc call. broker_enter k b9 call = (rc, b'))" for b9
    using that(2) s9 [OF that(1)] one [OF on_enter] by blast
  have "\<exists>b9. sweep = Some b9 \<and> (b' = b9 \<or> (\<exists>rc call. broker_enter k b9 call = (rc, b')))"
    using st' unfolding d option.case prod.case b6_def [symmetric] b7_def [symmetric] b8_def [symmetric] sweep_def [symmetric]
    by (auto split: if_splits option.splits prod.splits)
  then show ?thesis using fin by blast
qed

lemma submit_accepts_steps: "(loop_step k)\<^sup>*\<^sup>* b b1 \<Longrightarrow> (loop_step k)\<^sup>*\<^sup>* b (submit_accepts n k b1)"
proof (induction n arbitrary: b1)
  case (Suc n)
  have "(loop_step k)\<^sup>*\<^sup>* b (snd (submit_accept k b1))"
    by (rule rtranclp.rtrancl_into_rtrancl [where r = "loop_step k", OF Suc.prems on_accept])
  then show ?case using Suc.IH by simp
qed simp

lemma broker_loop_steps: "loop_fresh n k b t \<Longrightarrow> broker_loop n k b t = Some (Inr b') \<Longrightarrow> (loop_step k)\<^sup>*\<^sup>* b b'"
proof (induction n arbitrary: b t)
  case (Suc n)
  then obtain b1 where s: "broker_step k b (k_clock k t) = Some (Inr b1)" "broker_loop n k b1 (t + 1) = Some (Inr b')"
    by (auto split: if_splits option.splits sum.splits)
  have f: "step_fresh k b (k_clock k t)" "loop_fresh n k b1 (t + 1)" using Suc.prems(1) s(1) by simp_all
  show ?case using Suc.IH [OF f(2) s(2)] broker_step_steps [OF f(1) s(1)] by (meson rtranclp_trans)
qed simp

text \<open>The start of the loop included.\<close>

definition run_fresh :: "nat \<Rightarrow> kernel \<Rightarrow> broker \<Rightarrow> bool" where
  "run_fresh n k b = loop_fresh n k (submit_accepts ACCEPT_BATCH k
     (b\<lparr>b_running := True, b_now := k_clock k 0, b_last_timeout_sweep := k_clock k 0\<rparr>)) 1"

lemma broker_run_steps:
  assumes "run_fresh n k b" "broker_run n k b = Some (Inr b')"
  shows "(loop_step k)\<^sup>*\<^sup>* b b'"
proof -
  let ?S = "(loop_step k)\<^sup>*\<^sup>*"
  have one: "loop_step k x y \<Longrightarrow> ?S b x \<Longrightarrow> ?S b y" for x y by (rule rtranclp.rtrancl_into_rtrancl)
  have "?S b (b\<lparr>b_running := True, b_now := k_clock k 0, b_last_timeout_sweep := k_clock k 0\<rparr>)"
    by (rule one [OF on_swept one [OF on_clock one [OF on_running rtranclp.rtrancl_refl]]])
  from submit_accepts_steps [OF this] broker_loop_steps show ?thesis
    using assms by (simp add: run_fresh_def broker_run_def) (meson rtranclp_trans)
qed

end
