(* ===== verification/Slot_Correct.thy ===== *)
theory Slot_Correct
  imports Slot_Loop
begin

text \<open>
  What the slot machine guarantees of the broker: consistent lookups and counters in every reachable state,
  dormant slots that are never taken up again, and accepted connections that are live.
\<close>

section \<open>What the machine guarantees\<close>

lemma slots_wf_table:
  assumes wf: "slots_wf b fl"
  shows "table_rel b \<lparr>tb_slots = map slot_abs (b_clients b), tb_free = fl\<rparr>"
proof -
  let ?T = "\<lparr>tb_slots = map slot_abs (b_clients b), tb_free = fl\<rparr>"
  have len: "length (b_clients b) = b_max_clients b" by (rule slots_wfD(1) [OF wf])
  have ph: "tb_phase ?T i = phase_of (c_state (client_at b i)) (c_fd (client_at b i))" if "i < b_max_clients b" for i
    using that len by (simp add: tb_phase_def slot_abs_def client_at_def)
  have fd: "phase_fd (tb_phase ?T i) = Some x \<longleftrightarrow> connected b i \<and> c_fd (client_at b i) = x" if "i < b_max_clients b" for i x
    using ph [OF that] that by (auto simp: phase_of_fd connected_def)
  have lt: "length (tb_slots ?T) = b_max_clients b" using len by simp
  have vac: "i \<in> set (tb_free ?T) \<longleftrightarrow> i < b_max_clients b \<and> tb_phase ?T i = Vacant" for i
  proof -
    have "i \<in> set (tb_free ?T) \<longleftrightarrow> i < b_max_clients b \<and> c_state (client_at b i) = CLIENT_FREE"
      using slots_wfD(3) [OF wf] by (simp add: with_state_def)
    also have "\<dots> \<longleftrightarrow> i < b_max_clients b \<and> tb_phase ?T i = Vacant" using ph [of i] by (metis phase_of_fd(2))
    finally show ?thesis .
  qed
  have "table_wf (b_max_fds b) ?T"
  proof (rule table_wfI, unfold lt)
    show "distinct (tb_free ?T)" using slots_wfD(2) [OF wf] by simp
    show "i \<in> set (tb_free ?T) \<longleftrightarrow> i < b_max_clients b \<and> tb_phase ?T i = Vacant" for i by (rule vac)
    show "0 \<le> x \<and> x < int (b_max_fds b)" if "i < b_max_clients b" "phase_fd (tb_phase ?T i) = Some x" for i x
      using that fd [OF that(1)] slots_wfD(8,9) [OF wf, of i] by auto
    show "i = j" if "i < b_max_clients b" "j < b_max_clients b" "phase_fd (tb_phase ?T i) = Some x"
        "phase_fd (tb_phase ?T j) = Some x" for i j x
    proof -
      have "connected b i \<and> c_fd (client_at b i) = x" "connected b j \<and> c_fd (client_at b j) = x"
        using that(3,4) by (simp_all only: fd [OF that(1)] fd [OF that(2)])
      then have "int i = b_fd_to_slot b ! nat x" "int j = b_fd_to_slot b ! nat x"
        using slots_wfD(10) [OF wf, of i] slots_wfD(10) [OF wf, of j] by auto
      then show ?thesis by simp
    qed
  qed
  moreover have "holders ?T = {i. connected b i}" using fd len by (auto simp: holders_def connected_def)
  moreover have "parked_slots ?T = with_state b CLIENT_DORMANT"
    using ph len by (auto simp: parked_slots_def with_state_def phase_of_fd)
  moreover have "b_fd_to_slot b ! nat x = int i" if "i < b_max_clients b" "phase_fd (tb_phase ?T i) = Some x" for i x
    using that fd [OF that(1)] slots_wfD(10) [OF wf, of i] by auto
  moreover have "b_fd_to_slot b ! f = -1 \<or> (\<exists>i < b_max_clients b. b_fd_to_slot b ! f = int i \<and> phase_fd (tb_phase ?T i) = Some (int f))"
    if "f < b_max_fds b" for f
    using slots_wfD(11) [OF wf that] fd by (metis connected_def)
  ultimately show ?thesis
    unfolding table_rel_def using len slots_wfD(4-7) [OF wf] by simp
qed

text \<open>The coupling in terms of the broker alone.\<close>

definition connections_ok :: "broker \<Rightarrow> bool" where
  "connections_ok b \<longleftrightarrow> (\<forall>i. connected b i \<longrightarrow> broker_get_client_by_fd b (c_fd (client_at b i)) = Some i)
     \<and> (\<forall>fd s. broker_get_client_by_fd b fd = Some s \<longrightarrow> connected b s \<and> c_fd (client_at b s) = fd)
     \<and> b_active_count b = card {i. connected b i} \<and> b_dormant_count b = card (with_state b CLIENT_DORMANT)
     \<and> (\<exists>fl. distinct fl \<and> set fl = with_state b CLIENT_FREE \<and> slot_chain b (b_free_head b) fl)"

lemma table_rel_connections:
  assumes R: "table_rel b T"
  shows "connections_ok b"
proof -
  note D = table_relD [OF R]
  have c: "broker_get_client_by_fd b (c_fd (client_at b i)) = Some i" if "connected b i" for i
  proof -
    note f = connected_fd [OF R that]
    show ?thesis using f(4,5) D(6) [OF f(1,3)] by (simp add: broker_get_client_by_fd_def)
  qed
  have h: "holders T = {i. connected b i}"
    using D(3,11) by (auto simp: holders_def connected_def phase_of_fd)
  have p: "parked_slots T = with_state b CLIENT_DORMANT"
    using D(3,11) by (auto simp: parked_slots_def with_state_def phase_of_fd)
  have f: "set (tb_free T) = with_state b CLIENT_FREE"
    using table_wfD(2) [OF D(10)] D(3,11) by (auto simp: with_state_def phase_of_fd)
  show ?thesis unfolding connections_ok_def
    using c by_fd_owner(2,3) [OF R] D(4,8,9) h p f table_wfD(1) [OF D(10)] by auto
qed

text \<open>C8: the event loop implements the slot machine: as long as the kernel does not complete an accept with a
  descriptor the broker has open, every iteration of the loop is a run of the machine on the table of
  connections.\<close>

theorem event_loop_refines_machine:
  assumes "loop_fresh n k b t" "broker_loop n k b t = Some (Inr b')" "table_rel b T"
  shows "\<exists>T'. table_rel b' T' \<and> table_steps (b_max_fds b) T T'"
  by (rule loop_steps_table [OF broker_loop_steps [OF assms(1,2)] assms(3)]) blast

text \<open>C9: in every state the event loop reaches from an initialised broker, looking up a descriptor returns the
  one slot connected on it and nothing else, the counters count the slots, and the free list holds
  every free slot once.\<close>

theorem connections_consistent:
  assumes "slots_wf b fl" "(loop_step k)\<^sup>*\<^sup>* b b'"
  shows "connections_ok b'"
  by (rule loop_steps_table [OF assms(2) slots_wf_table [OF assms(1)]]) (rule table_rel_connections)

text \<open>C10: a parked session is never taken up again: whatever the event loop does, a dormant slot stays dormant, so
  every persistent session that disconnects takes a slot away for good.\<close>

theorem dormant_slot_lost:
  assumes "slots_wf b fl" "(loop_step k)\<^sup>*\<^sup>* b b'" "s < b_max_clients b" "c_state (client_at b s) = CLIENT_DORMANT"
  shows "c_state (client_at b' s) = CLIENT_DORMANT"
proof -
  note R = slots_wf_table [OF assms(1)]
  obtain T' where T': "table_rel b' T'" "table_steps (b_max_fds b) \<lparr>tb_slots = map slot_abs (b_clients b), tb_free = fl\<rparr> T'"
      "b_max_clients b' = b_max_clients b"
    by (rule loop_steps_table [OF assms(2) R])
  have "tb_phase T' s = Dormant"
    using table_steps_dormant [OF T'(2) table_relD(10) [OF R], of s] table_relD(3,11) [OF R] assms(3,4) by simp
  then show ?thesis using table_relD(11) [OF T'(1), of s] T'(3) assms(3) by (simp add: phase_of_fd)
qed

section \<open>Accepting\<close>

lemma recv_internal_tab:
  assumes s: "s < length (b_clients b)" and w: "c_recv_start (client_at b s) = 0" "c_recv_len (client_at b s) = 0"
    and n: "0 < bp_buf_size (b_recv_pool b)"
  shows "tab (snd (submit_recv_internal k b s)) = tab b"
proof (cases "get_sqe_with_flush k b")
  case (Pair i b1)
  note c = conn_get_sqe [OF Pair]
  note t = tab_conn [OF c]
  have f: "c_recv_start (client_at b1 s) = 0" "c_recv_len (client_at b1 s) = 0" "bp_buf_size (b_recv_pool b1) = bp_buf_size (b_recv_pool b)"
    "s < length (b_clients b1)"
    using conn_client(6,7) [OF c s] conn_fields(1,9) [OF c] w s by simp_all
  define b2 where "b2 = client_update b1 s (\<lambda>c. c\<lparr>c_recv_start := 0\<rparr>)"
  have b2: "snd (maybe_compact_recv_buf b1 s) = b2" using f by (simp add: maybe_compact_recv_buf_def b2_def)
  have t2: "tab b2 = tab b" using window_tab(3) t by (simp add: b2_def)
  have f2: "c_recv_start (client_at b2 s) = 0" "c_recv_len (client_at b2 s) = 0" "bp_buf_size (b_recv_pool b2) > 0"
    using f n by (simp_all add: b2_def client_at_update) (simp add: client_update_def)
  have up: "tab (client_update b3 s (\<lambda>c. c\<lparr>c_recv_pending := True\<rparr>)) = tab b3" for b3 by (rule tab_update) simp_all
  have "tab (put_sqe b2 x g ud) = tab b" for x g ud using t2 tab_conn [of "put_sqe b2 x g ud" b2] by simp
  then show ?thesis using Pair t f2 up by (simp add: submit_recv_internal_def Let_def b2 split: option.split)
qed

lemma submit_recv_tab:
  assumes "s < length (b_clients b)" "c_recv_start (client_at b s) = 0" "c_recv_len (client_at b s) = 0"
    "0 < bp_buf_size (b_recv_pool b)"
  shows "tab (submit_recv k b s) = tab b"
  using recv_internal_tab [OF assms, of k] enqueue_tab by (auto simp: submit_recv_def split: prod.splits bool.splits)

lemma accept_result:
  assumes wf: "slots_wf b (s # fl)" and fd: "0 \<le> cqe_res cqe" "cqe_res cqe < int (b_max_fds b)"
    and buf: "buf_pool_in_use (b_recv_pool b) \<noteq> {..<bp_capacity (b_recv_pool b)}"
  obtains i p b3 where "handle_accept k b cqe = snd (submit_accept k (submit_recv k b3 s))" "buf_pool_alloc (b_recv_pool b) = (i, p)"
    "b_clients b3 = (b_clients b)[s := client_init (client_at b s) (cqe_res cqe) i (b_max_inflight b)]" "b_recv_pool b3 = p"
    "b_fd_to_slot b3 = (b_fd_to_slot b)[nat (cqe_res cqe) := int s]" "b_max_fds b3 = b_max_fds b"
    "client_at b3 s = client_init (client_at b s) (cqe_res cqe) i (b_max_inflight b)" "s < length (b_clients b3)"
proof -
  let ?fd = "cqe_res cqe"
  define b1 where "b1 = (if b_accept_pending b > 0 then b\<lparr>b_accept_pending := b_accept_pending b - 1\<rparr> else b)"
  define b2 where "b2 = sys_setsockopt_nodelay (b1\<lparr>b_accepts := b_accepts b1 + 1\<rparr>) ?fd"
  have b2: "b_recv_pool b2 = b_recv_pool b" "b_free_head b2 = b_free_head b" "b_max_clients b2 = b_max_clients b"
    "b_max_fds b2 = b_max_fds b" "b_clients b2 = b_clients b" "b_fd_to_slot b2 = b_fd_to_slot b" "b_max_inflight b2 = b_max_inflight b"
    by (simp_all add: b2_def b1_def sys_setsockopt_nodelay_def)
  have h: "b_free_head b = s" "s < b_max_clients b" using slots_wfD(4) [OF wf] by simp_all
  have len: "s < length (b_clients b)" using slots_wfD(1) [OF wf] h(2) by simp
  obtain i p where ip: "buf_pool_alloc (b_recv_pool b) = (i, p)" by (cases "buf_pool_alloc (b_recv_pool b)")
  have i: "i \<noteq> BUF_POOL_INVALID" using buf_pool.alloc_invalid_iff [OF slots_wfD(12) [OF wf]] ip buf by auto
  obtain b3 where al: "broker_alloc_slot b2 ?fd = (Some s, b3)"
    and b3: "b_clients b3 = (b_clients b)[s := client_init (client_at b s) ?fd i (b_max_inflight b)]" "b_recv_pool b3 = p"
      "b_fd_to_slot b3 = (b_fd_to_slot b)[nat ?fd := int s]" "b_max_fds b3 = b_max_fds b"
    using fd h i ip b2 by (simp add: broker_alloc_slot_def client_update_def client_at_def Let_def)
  have "handle_accept k b cqe = snd (submit_accept k (submit_recv k b3 s))"
    using fd al b2(4) unfolding handle_accept_def Let_def b1_def [symmetric] b2_def [symmetric]
    by (auto simp: b1_def)
  then show thesis using that ip b3 len by (simp add: client_at_def)
qed

lemma accept_opens:
  assumes wf: "slots_wf b (s # fl)" and fd: "0 \<le> cqe_res cqe" "cqe_res cqe < int (b_max_fds b)"
    and buf: "buf_pool_in_use (b_recv_pool b) \<noteq> {..<bp_capacity (b_recv_pool b)}" "0 < bp_buf_size (b_recv_pool b)"
  shows "broker_get_client_by_fd (handle_accept k b cqe) (cqe_res cqe) = Some s
     \<and> c_state (client_at (handle_accept k b cqe) s) = CLIENT_ACTIVE \<and> c_fd (client_at (handle_accept k b cqe) s) = cqe_res cqe
     \<and> c_generation (client_at (handle_accept k b cqe) s) = c_generation (client_at b s) + 1"
proof (rule accept_result [OF wf fd buf(1), of k])
  let ?fd = "cqe_res cqe"
  fix i p b3
  assume h: "handle_accept k b cqe = snd (submit_accept k (submit_recv k b3 s))" and ip: "buf_pool_alloc (b_recv_pool b) = (i, p)"
    and b3: "b_clients b3 = (b_clients b)[s := client_init (client_at b s) ?fd i (b_max_inflight b)]" "b_recv_pool b3 = p"
      "b_fd_to_slot b3 = (b_fd_to_slot b)[nat ?fd := int s]" "b_max_fds b3 = b_max_fds b"
    and at3: "client_at b3 s = client_init (client_at b s) ?fd i (b_max_inflight b)" and l3: "s < length (b_clients b3)"
  have ps: "bp_buf_size p = bp_buf_size (b_recv_pool b)" using buf_pool_alloc_fields [OF ip] by simp
  have "tab (submit_recv k b3 s) = tab b3"
    by (rule submit_recv_tab) (use l3 at3 ps buf(2) in \<open>simp_all add: b3(2) client_init_def\<close>)
  then have t: "tab (handle_accept k b cqe) = tab b3" using tab_conn [OF conn_submit_accept] h by metis
  note T = tab_fields [OF t]
  have "map (\<lambda>c. (c_state c, c_fd c, c_generation c)) (b_clients (handle_accept k b cqe)) ! s
      = map (\<lambda>c. (c_state c, c_fd c, c_generation c)) (b_clients b3) ! s"
    using t by (simp only: tab_def prod.inject)
  then have c: "c_state (client_at (handle_accept k b cqe) s) = c_state (client_at b3 s)"
      "c_fd (client_at (handle_accept k b cqe) s) = c_fd (client_at b3 s)"
      "c_generation (client_at (handle_accept k b cqe) s) = c_generation (client_at b3 s)"
    using l3 T(1) by (simp_all add: client_at_def)
  have "nat ?fd < length (b_fd_to_slot b)" using fd slots_wfD(7) [OF wf] by simp
  then show ?thesis using c at3 fd T(3,4) by (simp add: broker_get_client_by_fd_def b3 client_init_def)
qed

text \<open>C11: accepting a descriptor gives it the first free slot, live and under the generation after the last, whatever
  the kernel does with the submissions.\<close>

theorem accept_opens_connection:
  assumes "slots_wf b (s # fl)" "0 \<le> cqe_res cqe" "cqe_res cqe < int (b_max_fds b)"
    "buf_pool_in_use (b_recv_pool b) \<noteq> {..<bp_capacity (b_recv_pool b)}" "0 < bp_buf_size (b_recv_pool b)"
  shows "broker_get_client_by_fd (handle_accept k b cqe) (cqe_res cqe) = Some s
     \<and> c_state (client_at (handle_accept k b cqe) s) = CLIENT_ACTIVE \<and> c_fd (client_at (handle_accept k b cqe) s) = cqe_res cqe
     \<and> c_generation (client_at (handle_accept k b cqe) s) = c_generation (client_at b s) + 1"
  by (rule accept_opens [OF assms])

section \<open>Small runs\<close>

definition accepted_cqe :: io_uring_cqe where
  "accepted_cqe = \<lparr>cqe_user_data = make_user_data OP_ACCEPT 0 0, cqe_res = 3, cqe_flags = 0\<rparr>"

lemma accepted_op: "ud_op (cqe_user_data accepted_cqe) = OP_ACCEPT" "cqe_res accepted_cqe = 3"
  by (simp_all add: accepted_cqe_def) code_simp

text \<open>The small broker with receive buffers of 64 bytes and an empty ring.\<close>

definition with_bufs :: "broker \<Rightarrow> broker" where
  "with_bufs b = b\<lparr>b_recv_pool := (b_recv_pool b)\<lparr>bp_buf_size := 64\<rparr>, b_ring := fresh_ring 4 0 0\<rparr>"

lemma with_bufs_fields: "b_recv_pool (with_bufs b) = (b_recv_pool b)\<lparr>bp_buf_size := 64\<rparr>"
    "b_max_clients (with_bufs b) = b_max_clients b" "b_max_fds (with_bufs b) = b_max_fds b"
    "b_fd_to_slot (with_bufs b) = b_fd_to_slot b" "client_at (with_bufs b) = client_at b"
  by (simp_all add: with_bufs_def client_at_def fun_eq_iff)

lemma with_bufs_chain: "slot_chain (with_bufs b) h fl = slot_chain b h fl"
proof (induction fl arbitrary: h)
  case (Cons x fl)
  have "next_free (with_bufs b) = next_free b" by (simp add: fun_eq_iff next_free_def with_bufs_fields)
  then show ?case using Cons by (simp add: with_bufs_fields)
qed (simp add: with_bufs_fields)

lemma with_bufs_wf: "slots_wf b fl \<Longrightarrow> slots_wf (with_bufs b) fl"
proof -
  have "buf_pool_wf (p\<lparr>bp_buf_size := n\<rparr>) = buf_pool_wf p" "buf_pool_in_use (p\<lparr>bp_buf_size := n\<rparr>) = buf_pool_in_use p" for p n
    by (simp_all add: buf_pool_wf_def buf_pool_in_use_def)
  moreover have "connected (with_bufs b) = connected b" "with_state (with_bufs b) = with_state b"
    by (simp_all add: fun_eq_iff connected_def with_state_def with_bufs_fields)
  ultimately show "slots_wf b fl \<Longrightarrow> slots_wf (with_bufs b) fl"
    unfolding slots_wf_def with_bufs_chain with_bufs_fields by (simp add: with_bufs_def)
qed

lemma small_ready:
  obtains b where "slots_wf b [0, 1]" "b_max_clients b = 2" "b_max_fds b = 4" "b_fd_to_slot b = replicate 4 (-1)"
    "buf_pool_in_use (b_recv_pool b) \<noteq> {..<bp_capacity (b_recv_pool b)}" "bp_buf_size (b_recv_pool b) = 64" "b_ring b = fresh_ring 4 0 0"
proof -
  obtain b where b: "slots_wf b [0, 1]" "b_max_clients b = 2" "b_max_fds b = 4" "b_fd_to_slot b = replicate 4 (-1)"
    "buf_pool_in_use (b_recv_pool b) = {}" "bp_capacity (b_recv_pool b) = 2"
    by (rule small_broker)
  have "buf_pool_in_use (b_recv_pool (with_bufs b)) = {}" using b(5) by (simp add: with_bufs_fields buf_pool_in_use_def)
  then show thesis
    using that [of "with_bufs b"] with_bufs_wf [OF b(1)] b two_nonempty by (simp add: with_bufs_fields) (simp add: with_bufs_def)
qed

theorem accept_opens_connection_witness:
  "\<forall>k. \<exists>b. broker_get_client_by_fd (handle_accept k b accepted_cqe) 3 = Some 0
     \<and> c_state (client_at (handle_accept k b accepted_cqe) 0) = CLIENT_ACTIVE"
proof
  fix k
  obtain b where b: "slots_wf b [0, 1]" "b_max_clients b = 2" "b_max_fds b = 4" "b_fd_to_slot b = replicate 4 (-1)"
    "buf_pool_in_use (b_recv_pool b) \<noteq> {..<bp_capacity (b_recv_pool b)}" "bp_buf_size (b_recv_pool b) = 64" "b_ring b = fresh_ring 4 0 0"
    by (rule small_ready)
  have "0 \<le> cqe_res accepted_cqe" "cqe_res accepted_cqe < int (b_max_fds b)" "0 < bp_buf_size (b_recv_pool b)"
    using b by (simp_all add: accepted_op)
  from accept_opens_connection [OF b(1) this(1,2) b(5) this(3), of k]
  show "\<exists>b. broker_get_client_by_fd (handle_accept k b accepted_cqe) 3 = Some 0
     \<and> c_state (client_at (handle_accept k b accepted_cqe) 0) = CLIENT_ACTIVE" unfolding accepted_op by blast
qed

lemma accept_step:
  assumes "b_fd_to_slot b ! 3 = -1"
  shows "loop_step k b (handle_accept k b accepted_cqe)"
proof (rule on_completion)
  show "fresh_accept b accepted_cqe" using assms by (simp add: fresh_accept_def accepted_op)
  show "dispatch_cqe k b accepted_cqe = Some (handle_accept k b accepted_cqe)" by (simp add: dispatch_cqe_def accepted_op)
qed

theorem connections_consistent_witness:
  "\<forall>k. \<exists>b b'. (loop_step k)\<^sup>*\<^sup>* b b' \<and> connections_ok b' \<and> broker_get_client_by_fd b' 3 = Some 0"
proof
  fix k
  obtain b where b: "slots_wf b [0, 1]" "b_max_clients b = 2" "b_max_fds b = 4" "b_fd_to_slot b = replicate 4 (-1)"
    "buf_pool_in_use (b_recv_pool b) \<noteq> {..<bp_capacity (b_recv_pool b)}" "bp_buf_size (b_recv_pool b) = 64" "b_ring b = fresh_ring 4 0 0"
    by (rule small_ready)
  let ?b = "handle_accept k b accepted_cqe"
  have st: "(loop_step k)\<^sup>*\<^sup>* b ?b" by (rule r_into_rtranclp, rule accept_step) (simp add: b(4))
  have r: "0 \<le> cqe_res accepted_cqe" "cqe_res accepted_cqe < int (b_max_fds b)" "0 < bp_buf_size (b_recv_pool b)"
    using b by (simp_all add: accepted_op)
  have "broker_get_client_by_fd ?b 3 = Some 0"
    using accept_opens [OF b(1) r(1,2) b(5) r(3), of k] by (simp add: accepted_op)
  then show "\<exists>b b'. (loop_step k)\<^sup>*\<^sup>* b b' \<and> connections_ok b' \<and> broker_get_client_by_fd b' 3 = Some 0"
    using st connections_consistent [OF b(1) st] by blast
qed

theorem dormant_slot_lost_witness:
  "\<forall>k. \<exists>b b'. (loop_step k)\<^sup>*\<^sup>* b b' \<and> c_state (client_at b 0) = CLIENT_DORMANT \<and> c_state (client_at b' 0) = CLIENT_DORMANT
     \<and> b' = handle_accept k b accepted_cqe"
proof
  fix k
  obtain b0 where b0: "slots_wf b0 [1]" "connected b0 0" "c_fd (client_at b0 0) = 3" "b_trie b0 = trie_init" "b_max_clients b0 = 2"
    by (rule small_active)
  let ?b = "broker_slot_go_dormant b0 0"
  note d = broker_go_dormant_ok [OF b0(1,2)]
  have m: "b_max_clients ?b = 2" using b0(5)
    by (simp add: broker_slot_go_dormant_def Let_def client_update_def drop_recv_buf_def fd_unmap_def)
  have st: "(loop_step k)\<^sup>*\<^sup>* ?b (handle_accept k ?b accepted_cqe)"
    by (rule r_into_rtranclp, rule accept_step) (use d(5) b0(3) in simp)
  show "\<exists>b b'. (loop_step k)\<^sup>*\<^sup>* b b' \<and> c_state (client_at b 0) = CLIENT_DORMANT \<and> c_state (client_at b' 0) = CLIENT_DORMANT
     \<and> b' = handle_accept k b accepted_cqe"
    using dormant_slot_lost [OF d(1) st _ d(2)] m st d(2) by auto
qed

text \<open>An iteration in which nothing happens: the kernel returns from the wait with \<open>EINTR\<close>.\<close>

definition idle_kernel :: kernel where
  "idle_kernel = \<lparr>k_enter = (\<lambda>r _ _ _. (- EINTR, r)), k_memory = (\<lambda>_ bufs. bufs), k_write = (\<lambda>_ _ _. 0), k_clock = (\<lambda>_. 0)\<rparr>"

definition idle_broker :: "broker \<Rightarrow> broker" where
  "idle_broker b = b\<lparr>b_running := True, b_accept_pending := ACCEPT_BATCH, b_recv_retry_head := 0, b_recv_retry_tail := 0,
     b_egress_flush_head := 0, b_egress_flush_tail := 0, b_last_timeout_sweep := 0\<rparr>"

lemma no_retries: "recv_retry_empty b \<Longrightarrow> process_recv_retries k b = (0, b)"
    "egress_flush_empty b \<Longrightarrow> process_egress_flushes b = (0, b)"
proof -
  have "recv_retry_empty b \<Longrightarrow> recv_retry_loop n k b r = (r, b)" for n r by (cases n) auto
  then show "recv_retry_empty b \<Longrightarrow> process_recv_retries k b = (0, b)" by (simp add: process_recv_retries_def)
  have "egress_flush_empty b \<Longrightarrow> egress_flush_loop n b r = (r, b)" for n r by (cases n) auto
  then show "egress_flush_empty b \<Longrightarrow> process_egress_flushes b = (0, b)" by (simp add: process_egress_flushes_def)
qed

lemma idle_step:
  assumes "b_ring b = fresh_ring 4 0 0"
  shows "\<exists>b'. broker_step idle_kernel (idle_broker b) 0 = Some (Inr b')" "step_fresh idle_kernel (idle_broker b) 0"
proof -
  let ?b = "idle_broker b"
  have fl: "ring_flush_sqes (fresh_ring 4 0 0) = fresh_ring 4 0 0" by (simp add: ring_flush_sqes_def fresh_ring_def)
  have sub: "ring_submit e (fresh_ring 4 0 0) 0 = (0, fresh_ring 4 0 0)" for e
    by (simp add: ring_submit_def ring_sq_pending_def fresh_ring_def)
  have sync: "ring_cq_sync (fresh_ring 4 0 0) = fresh_ring 4 0 0" by (simp add: ring_cq_sync_def fresh_ring_def)
  have peek: "ring_peek_cqe (fresh_ring 4 0 0) = None" "r_cq_tail_local (fresh_ring 4 0 0) - r_cq_head_local (fresh_ring 4 0 0) = 0"
    by (simp_all add: ring_peek_cqe_def fresh_ring_def)
  have ring: "b_ring ?b = fresh_ring 4 0 0" using assms by (simp add: idle_broker_def)
  define b1 where "b1 = ?b\<lparr>b_now := 0, b_ring := fresh_ring 4 0 0\<rparr>"
  have e: "broker_enter idle_kernel b1 (\<lambda>enter r. ring_submit enter r 0) = (0, b1)"
    by (simp add: broker_enter_def b1_def sub idle_kernel_def)
  have empty: "recv_retry_empty (b1\<lparr>b_ring := r\<rparr>)" "egress_flush_empty (b1\<lparr>b_ring := r\<rparr>)" "b_accept_pending (b1\<lparr>b_ring := r\<rparr>) = ACCEPT_BATCH"
    "b_now (b1\<lparr>b_ring := r\<rparr>) - b_last_timeout_sweep (b1\<lparr>b_ring := r\<rparr>) = 0" for r
    by (simp_all add: b1_def idle_broker_def recv_retry_empty_def egress_flush_empty_def)
  have "b1\<lparr>b_ring := fresh_ring 4 0 0\<rparr> = b1" by (simp add: b1_def)
  moreover have "b_ring b1 = fresh_ring 4 0 0" by (simp add: b1_def)
  moreover have "\<not> LLMQ_TIMEOUT_SWEEP_INTERVAL_MS \<le> 0" by (simp add: LLMQ_TIMEOUT_SWEEP_INTERVAL_MS_def)
  moreover have "broker_enter idle_kernel b2 (\<lambda>enter r. ring_submit_and_wait enter r 1) = (- EINTR, b2)" for b2
    by (simp add: broker_enter_def ring_submit_and_wait_def idle_kernel_def)
  ultimately show "\<exists>b'. broker_step idle_kernel ?b 0 = Some (Inr b')" "step_fresh idle_kernel ?b 0"
    using e empty
    by (simp_all add: broker_step_def step_fresh_def before_drain_def Let_def ring fl b1_def [symmetric] sync peek no_retries)
qed

theorem event_loop_refines_machine_witness:
  "\<exists>k b b' T T'. broker_loop 1 k b 0 = Some (Inr b') \<and> table_rel b T \<and> tb_free T = [0, 1]
     \<and> table_rel b' T' \<and> table_steps (b_max_fds b) T T'"
proof -
  obtain b where b: "slots_wf b [0, 1]" "b_max_clients b = 2" "b_max_fds b = 4" "b_fd_to_slot b = replicate 4 (-1)"
    "buf_pool_in_use (b_recv_pool b) \<noteq> {..<bp_capacity (b_recv_pool b)}" "bp_buf_size (b_recv_pool b) = 64" "b_ring b = fresh_ring 4 0 0"
    by (rule small_ready)
  let ?b = "idle_broker b" and ?T = "\<lparr>tb_slots = map slot_abs (b_clients b), tb_free = [0, 1]\<rparr>"
  have R: "table_rel ?b ?T"
    by (rule table_rel_cong [OF _ slots_wf_table [OF b(1)]]) (simp add: tab_def idle_broker_def)
  obtain b' where st: "broker_step idle_kernel ?b 0 = Some (Inr b')" "step_fresh idle_kernel ?b 0" using idle_step [OF b(7)] by blast
  have run: "b_running ?b" "k_clock idle_kernel 0 = 0" by (simp_all add: idle_broker_def idle_kernel_def)
  have l: "broker_loop 1 idle_kernel ?b 0 = Some (Inr b')" "loop_fresh 1 idle_kernel ?b 0"
    using st run by (simp_all add: One_nat_def)
  then obtain T' where "table_rel b' T'" "table_steps (b_max_fds ?b) ?T T'"
    using event_loop_refines_machine [OF l(2,1) R] by blast
  moreover have "tb_free ?T = [0, 1]" by simp
  ultimately show ?thesis using l(1) R by blast
qed

end
