(* ===== verification/Frame.thy ===== *)
theory Frame
  imports Conn_Loop State_Init
begin

text \<open>
  Frames: a view of the broker that the elementary stores keep is kept by every operation of the event loop.  The locale
  \<open>store_frame\<close> lists the stores, all but those into receive buffers, to the topic trie and to the map of client
  identifiers, and proves the operations made of them; \<open>buffer_frame\<close> adds the receive buffers, and \<open>event_frame\<close> the
  trie and the map, up to \<open>broker_run\<close>.  The kernel enters through the predicate \<open>ok\<close>.
\<close>

section \<open>Pools, table and ring\<close>

lemma buf_pool_fields [simp]:
  "bp_map (buf_pool_free p i) = bp_map p" "bp_stack_map (buf_pool_free p i) = bp_stack_map p"
  "bp_map (snd (buf_pool_alloc p)) = bp_map p" "bp_stack_map (snd (buf_pool_alloc p)) = bp_stack_map p"
  "bp_capacity (snd (buf_pool_alloc p)) = bp_capacity p" "bp_buf_size (snd (buf_pool_alloc p)) = bp_buf_size p"
  "bp_bufs (buf_pool_free p i) = bp_bufs p" "bp_bufs (snd (buf_pool_alloc p)) = bp_bufs p"
  by (simp_all add: buf_pool_free_def buf_pool_alloc_def Let_def)

lemma msg_pool_fields [simp]:
  "mp_map (msg_pool_free p i) = mp_map p" "mp_stack_map (msg_pool_free p i) = mp_stack_map p" "mp_capacity (msg_pool_free p i) = mp_capacity p"
  "mp_map (snd (msg_pool_alloc p)) = mp_map p" "mp_stack_map (snd (msg_pool_alloc p)) = mp_stack_map p" "mp_capacity (snd (msg_pool_alloc p)) = mp_capacity p"
  "mp_map (msg_update p i f) = mp_map p" "mp_stack_map (msg_update p i f) = mp_stack_map p" "mp_capacity (msg_update p i f) = mp_capacity p"
  by (simp_all add: msg_pool_free_def msg_pool_alloc_def msg_update_def Let_def)

lemma msg_pool_ref_fields [simp]:
  "mp_map (msg_pool_ref p i) = mp_map p" "mp_stack_map (msg_pool_ref p i) = mp_stack_map p" "mp_capacity (msg_pool_ref p i) = mp_capacity p"
  "mp_map (snd (msg_pool_unref p i)) = mp_map p" "mp_stack_map (snd (msg_pool_unref p i)) = mp_stack_map p"
  "mp_capacity (snd (msg_pool_unref p i)) = mp_capacity p"
  by (simp_all add: msg_pool_ref_def msg_pool_unref_def Let_def)

lemma hashmap_fields:
  "hashmap_insert h k v = Some (x, h') \<Longrightarrow> hm_map h' = hm_map h \<and> hm_capacity h' = hm_capacity h"
  "hashmap_remove h k v = Some (x, h') \<Longrightarrow> hm_map h' = hm_map h \<and> hm_capacity h' = hm_capacity h"
  by (auto simp: hashmap_insert_def hashmap_remove_def Let_def split: if_splits option.splits prod.splits)

lemma ring_fields [simp]:
  "r_fd (snd (ring_get_sqe r)) = r_fd r" "r_fd (sqe_update r i f) = r_fd r" "r_fd (ring_flush_sqes r) = r_fd r"
  "r_fd (ring_cq_sync r) = r_fd r" "r_fd (ring_cq_advance r n) = r_fd r" "r_fd (ring_cq_flush r) = r_fd r"
  by (simp_all add: ring_get_sqe_def sqe_update_def ring_flush_sqes_def ring_cq_sync_def ring_cq_advance_def ring_cq_flush_def Let_def)

lemma ring_get_fd: "ring_get_sqe r = (i, r') \<Longrightarrow> r_fd r' = r_fd r"
  using ring_fields(1) [of r] by simp

lemma msg_pool_unref_fields: "msg_pool_unref p i = (n, p') \<Longrightarrow>
    mp_map p' = mp_map p \<and> mp_stack_map p' = mp_stack_map p \<and> mp_capacity p' = mp_capacity p"
  using msg_pool_ref_fields(4-6) [of p i] by simp

section \<open>The stores\<close>

locale store_frame =
  fixes view :: "broker \<Rightarrow> 'v" and ok :: "kernel \<Rightarrow> bool"
  assumes view_client: "view (client_update b s f) = view b"
    and view_updates:
      "view (b\<lparr>b_calls := cs\<rparr>) = view b" "view (b\<lparr>b_bytes_sent := x\<rparr>) = view b" "view (b\<lparr>b_drops_sq_full := x\<rparr>) = view b"
      "view (b\<lparr>b_drops_send_failed := x\<rparr>) = view b" "view (b\<lparr>b_drops_resp_full := x\<rparr>) = view b" "view (b\<lparr>b_drops_egress_full := x\<rparr>) = view b"
      "view (b\<lparr>b_msgs_dropped := x\<rparr>) = view b" "view (b\<lparr>b_msgs_published := x\<rparr>) = view b" "view (b\<lparr>b_drops_msg_pool_empty := x\<rparr>) = view b"
      "view (b\<lparr>b_drops_inflight_full := x\<rparr>) = view b" "view (b\<lparr>b_accept_pending := y\<rparr>) = view b" "view (b\<lparr>b_egress_flush_queue := q\<rparr>) = view b"
      "view (b\<lparr>b_egress_flush_tail := y\<rparr>) = view b" "view (b\<lparr>b_egress_flush_head := y\<rparr>) = view b" "view (b\<lparr>b_recv_retry_queue := rq\<rparr>) = view b"
      "view (b\<lparr>b_recv_retry_tail := y\<rparr>) = view b" "view (b\<lparr>b_recv_retry_head := y\<rparr>) = view b" "view (b\<lparr>b_accepts := x\<rparr>) = view b"
      "view (b\<lparr>b_bytes_recv := x\<rparr>) = view b" "view (b\<lparr>b_recv_retries := x\<rparr>) = view b" "view (b\<lparr>b_egress_retries := x\<rparr>) = view b"
      "view (b\<lparr>b_now := x\<rparr>) = view b" "view (b\<lparr>b_last_timeout_sweep := x\<rparr>) = view b" "view (b\<lparr>b_running := z\<rparr>) = view b"
      "view (b\<lparr>b_stolen_buffers := x\<rparr>) = view b" "view (b\<lparr>b_free_head := y\<rparr>) = view b" "view (b\<lparr>b_active_count := y\<rparr>) = view b"
      "view (b\<lparr>b_dormant_count := y\<rparr>) = view b" "view (b\<lparr>b_fd_to_slot := fs\<rparr>) = view b" "view (b\<lparr>b_port := po\<rparr>) = view b"
      "view (b\<lparr>b_clients := cl\<rparr>) = view b"
    and view_recv_pool: "bp_map p = bp_map (b_recv_pool b) \<Longrightarrow> bp_stack_map p = bp_stack_map (b_recv_pool b) \<Longrightarrow>
      bp_capacity p = bp_capacity (b_recv_pool b) \<Longrightarrow> bp_buf_size p = bp_buf_size (b_recv_pool b) \<Longrightarrow>
      map length (bp_bufs p) = map length (bp_bufs (b_recv_pool b)) \<Longrightarrow> view (b\<lparr>b_recv_pool := p\<rparr>) = view b"
    and view_msg_pool: "mp_map mp = mp_map (b_msg_pool b) \<Longrightarrow> mp_stack_map mp = mp_stack_map (b_msg_pool b) \<Longrightarrow>
      mp_capacity mp = mp_capacity (b_msg_pool b) \<Longrightarrow> view (b\<lparr>b_msg_pool := mp\<rparr>) = view b"
    and view_ring: "r_fd r = r_fd (b_ring b) \<Longrightarrow> view (b\<lparr>b_ring := r\<rparr>) = view b"
    and view_enter: "ok k \<Longrightarrow> view (snd (broker_enter k b (\<lambda>enter r. ring_submit enter r 0))) = view b"
      "ok k \<Longrightarrow> view (snd (broker_enter k b (\<lambda>enter r. ring_submit_and_wait enter r 1))) = view b"
begin

declare view_client [simp] view_updates [simp]

lemma view_get_sqe:
  assumes "ok k" "get_sqe_with_flush k b = (i, b')"
  shows "view b' = view b"
proof -
  let ?b = "b\<lparr>b_ring := ring_flush_sqes (b_ring b)\<rparr>"
  have full: "snd (ring_get_sqe (b_ring b)) = b_ring b" if "fst (ring_get_sqe (b_ring b)) = None"
    using that by (simp add: ring_get_sqe_def Let_def split: if_splits)
  have "view (snd (broker_enter k ?b (\<lambda>enter r. ring_submit enter r 0))) = view b"
    using view_enter(1) [OF assms(1), of ?b] view_ring [of "ring_flush_sqes (b_ring b)" b] by simp
  moreover have "view (b1\<lparr>b_ring := snd (ring_get_sqe (b_ring b1))\<rparr>) = view b1" for b1 by (rule view_ring) simp
  ultimately show ?thesis
    using assms(2) full unfolding get_sqe_with_flush_def Let_def
    by (cases "ring_get_sqe (b_ring b)") (auto split: option.splits prod.splits simp: prod_eq_iff)
qed

lemma view_put_sqe [simp]: "view (put_sqe b i f ud) = view b"
  by (simp add: put_sqe_def view_ring)

lemma view_sys [simp]: "view (sys_shutdown b fd) = view b" "view (sys_close b fd) = view b" "view (sys_setsockopt_nodelay b fd) = view b"
    "view (snd (sys_write k b fd buf)) = view b"
  by (simp_all add: sys_shutdown_def sys_close_def sys_setsockopt_nodelay_def sys_write_def)

section \<open>The message path and the flush engine\<close>

lemma view_release [simp]: "view (release_msg_ref b i) = view b" "view (msg_ref b i) = view b"
proof -
  obtain n p where u: "msg_pool_unref (b_msg_pool b) i = (n, p)" by (metis surj_pair)
  show "view (release_msg_ref b i) = view b"
    using msg_pool_unref_fields [OF u] by (simp add: release_msg_ref_def u Let_def view_msg_pool view_recv_pool)
  show "view (msg_ref b i) = view b" by (simp add: msg_ref_def view_msg_pool)
qed

lemma view_discard [simp]: "view (egress_discard_head b s seg) = view b" "view (egress_complete_head b s seg) = view b"
  by (simp_all add: egress_discard_head_def egress_complete_head_def Let_def)

lemma view_clean [simp]: "view (egress_clean n b s) = view b"
  by (induction n b s rule: egress_clean.induct) (simp_all add: Let_def)

lemma view_egress_submit [simp]: "view (snd (egress_submit b s f)) = view b"
  using ring_get_fd by (auto simp: egress_submit_def view_ring split: prod.splits option.splits)

lemma view_flush [simp]: "view (snd (egress_flush b s)) = view b"
  by (simp add: egress_flush_def Let_def split: prod.splits)

lemma view_flush_queue [simp]: "view (egress_flush_enqueue b s) = view b" "view (snd (egress_flush_dequeue b)) = view b"
  by (simp_all add: egress_flush_enqueue_def egress_flush_dequeue_def Let_def)

lemma view_kick [simp]: "view (egress_kick b s) = view b"
  using view_flush [of b s] by (cases "egress_flush b s") (auto simp: egress_kick_def)

lemma view_walk [simp]: "view (egress_walk n left b s) = view b"
  by (induction n left b s rule: egress_walk.induct) (simp_all add: Let_def)

lemma view_fail_batch: "egress_fail_batch n b s = Some b' \<Longrightarrow> view b' = view b"
proof (induction n b s arbitrary: b' rule: egress_fail_batch.induct)
  case (2 n b s)
  then show ?case by (auto simp: Let_def split: if_splits option.splits)
qed simp

lemma view_egress_cqe: "handle_egress_cqe b cqe = Some b' \<Longrightarrow> view b' = view b"
  using view_fail_batch by (fastforce simp: handle_egress_cqe_def Let_def split: if_splits option.splits)

text \<open>An equation for the second component, in relational form.\<close>

lemma view_pair: "p = (x, y) \<Longrightarrow> view (snd p) = h \<Longrightarrow> view y = h"
  by simp

section \<open>Submitting\<close>

lemma view_submit_accept [simp]: "ok k \<Longrightarrow> view (snd (submit_accept k b)) = view b"
  using view_get_sqe [of k b] by (auto simp: submit_accept_def Let_def split: prod.splits option.splits)

lemma view_fill_resp [simp]: "view (fill_resp b s slot buf) = view b"
  by (simp add: fill_resp_def)

lemma view_send_resp_slot [simp]: "ok k \<Longrightarrow> view (snd (submit_send_resp_slot k b s slot len)) = view b"
  using view_get_sqe [of k] by (auto simp: submit_send_resp_slot_def Let_def split: prod.splits option.splits)

lemma view_send [simp]:
  assumes "ok k"
  shows "view (snd (send_static k b s buf)) = view b" "view (snd (send_resp k b s hdr pid)) = view b" "view (snd (send_buf k b s buf)) = view b"
  using assms by (simp_all add: send_static_def send_resp_def send_buf_def Let_def sys_write_def split: prod.splits)

lemma view_acks [simp]:
  assumes "ok k"
  shows "view (send_puback k b s pid) = view b" "view (send_pubrec k b s pid) = view b" "view (send_pubrel k b s pid) = view b"
    "view (send_pubcomp k b s pid) = view b" "view (send_unsuback k b s pid) = view b"
  using assms by (simp_all add: send_puback_def send_pubrec_def send_pubrel_def send_pubcomp_def send_unsuback_def)

lemma view_recv_retry [simp]: "view (recv_retry_enqueue b s) = view b" "view (snd (recv_retry_dequeue b)) = view b"
  by (simp_all add: recv_retry_enqueue_def recv_retry_dequeue_def)

lemma view_close [simp]: "ok k \<Longrightarrow> view (submit_close k b fd) = view b"
  using view_get_sqe [of k] by (auto simp: submit_close_def Let_def split: prod.splits option.splits)

section \<open>Ceremonies\<close>

lemma view_start_delivery [simp]: "view (snd (fsm_sub_start_delivery b m q s)) = view b"
  by (simp add: fsm_sub_start_delivery_def Let_def)

lemma view_pub_received: "ok k \<Longrightarrow> fsm_pub_received k b s qos pid = (r, b') \<Longrightarrow> view b' = view b"
  by (auto simp: fsm_pub_received_def Let_def split: if_splits option.splits prod.splits)

lemma view_pubrel: "ok k \<Longrightarrow> fsm_pub_pubrel_received k b s pid = Some b' \<Longrightarrow> view b' = view b"
  by (auto simp: fsm_pub_pubrel_received_def Let_def split: if_splits option.splits bind_splits)

lemma view_puback: "fsm_sub_puback_received b s pid = Some b' \<Longrightarrow> view b' = view b"
  by (auto simp: fsm_sub_puback_received_def Let_def split: if_splits option.splits bind_splits)

lemma view_enqueue_pubrel [simp]: "ok k \<Longrightarrow> view (enqueue_pubrel k b s pid) = view b"
  by (simp add: enqueue_pubrel_def Let_def)

lemma view_pubrec: "ok k \<Longrightarrow> fsm_sub_pubrec_received k b s pid = Some b' \<Longrightarrow> view b' = view b"
  by (auto simp: fsm_sub_pubrec_received_def Let_def split: if_splits option.splits bind_splits)

lemma view_pubcomp [simp]: "view (fsm_sub_pubcomp_received b s pid) = view b"
  by (simp add: fsm_sub_pubcomp_received_def)

lemma view_give_up: "fsm_give_up b s i = Some b' \<Longrightarrow> view b' = view b"
  by (auto simp: fsm_give_up_def Let_def split: bind_splits)

lemma view_timeout: "fsm_sub_timeout b s i = Some b' \<Longrightarrow> view b' = view b"
  using view_give_up by (fastforce simp: fsm_sub_timeout_def Let_def split: if_splits)

lemma view_sweep_slots: "sweep_slots n found p b s = Some (q, b') \<Longrightarrow> view b' = view b"
proof (induction n found p b s rule: sweep_slots.induct)
  case (2 n found p b s)
  then show ?case using view_timeout by (auto simp: Let_def split: if_splits option.splits)
qed simp

lemma view_sweep_clients: "sweep_clients is p b = Some (q, b') \<Longrightarrow> view b' = view b"
proof (induction "is" p b rule: sweep_clients.induct)
  case (2 i "is" p b)
  have "view b2 = view b" if "fsm_sweep_client b i = Some (x, b2)" for x b2
    using that view_sweep_slots by (auto simp: fsm_sweep_client_def split: if_splits)
  with 2 show ?case by (auto split: if_splits option.splits prod.splits)
qed simp

lemma view_sweep: "fsm_sweep_all_timeouts b = Some (q, b') \<Longrightarrow> view b' = view b"
  unfolding fsm_sweep_all_timeouts_def by (rule view_sweep_clients)

lemma view_drain [simp]: "view (drain_egress n b s) = view b"
  by (induction n b s rule: drain_egress.induct) (simp_all add: Let_def)

lemma view_release_inflight [simp]: "view (release_inflight n found b s) = view b"
  by (induction n found b s rule: release_inflight.induct) (simp_all add: Let_def)

lemma view_disconnect [simp]: "view (fsm_client_disconnect b s) = view b"
  by (simp add: fsm_client_disconnect_def Let_def)

section \<open>Handlers\<close>

lemma view_foldl: "(\<And>st x. view (snd (f st x)) = view (snd st)) \<Longrightarrow> view (snd (foldl f st xs)) = view (snd st)"
  by (induction xs arbitrary: st) auto

lemma view_foldl_id: "(\<And>b x. view (f b x) = view b) \<Longrightarrow> view (foldl f b xs) = view b"
  by (induction xs arbitrary: b) auto

lemma view_forward: "forward_publish_zc b s pctx msg q = (res, pctx', b') \<Longrightarrow> view b' = view b"
proof -
  assume h: "forward_publish_zc b s pctx msg q = (res, pctx', b')"
  let ?q = "if cm_qos msg < q then cm_qos msg else q"
  have "b' = snd (fsm_sub_start_delivery b (px_msg_idx pctx) ?q s)"
    using h by (cases "fsm_sub_start_delivery b (px_msg_idx pctx) ?q s") (simp add: forward_publish_zc_def Let_def)
  then show ?thesis by simp
qed

lemma view_deliver_bit: "view (snd (deliver_bit msg q node w st i)) = view (snd st)"
  using view_forward by (cases st) (auto simp: deliver_bit_def Let_def snd_def split: prod.splits)

lemma view_deliver_word: "view (snd (deliver_word msg q node st w)) = view (snd st)"
  unfolding deliver_word_def Let_def by (rule view_foldl) (rule view_deliver_bit)

lemma view_deliver_node: "view (snd (deliver_node msg q t st n)) = view (snd st)"
  unfolding deliver_node_def by (rule view_foldl) (rule view_deliver_word)

lemma view_matches [simp]: "view (snd (process_publish_matches b pctx ms)) = view b"
  by (auto simp: process_publish_matches_def split: option.splits intro!: trans [OF view_foldl [OF view_deliver_node]])

lemma view_pools: "view (b\<lparr>b_recv_pool := buf_pool_free (b_recv_pool b) i, b_msg_pool := p\<rparr>) = view (b\<lparr>b_msg_pool := p\<rparr>)"
proof -
  have c: "b\<lparr>b_recv_pool := buf_pool_free (b_recv_pool b) i, b_msg_pool := p\<rparr> = b\<lparr>b_msg_pool := p, b_recv_pool := buf_pool_free (b_recv_pool b) i\<rparr>"
    by (cases b) simp
  have "view (b\<lparr>b_msg_pool := p, b_recv_pool := buf_pool_free (b_recv_pool b) i\<rparr>) = view (b\<lparr>b_msg_pool := p\<rparr>)"
    by (rule view_recv_pool) simp_all
  then show ?thesis unfolding c .
qed

lemma view_unref: "msg_pool_unref (b_msg_pool b) i = (n, p) \<Longrightarrow> view (b\<lparr>b_msg_pool := p\<rparr>) = view b"
  using msg_pool_unref_fields by (intro view_msg_pool) auto

lemma view_fan_out [simp]: "view (fan_out b m stolen topic len) = view b"
proof -
  define b1 where "b1 = snd (process_publish_matches (b\<lparr>b_msg_pool := msg_pool_ref (b_msg_pool b) m\<rparr>)
      \<lparr>px_msg_idx = m, px_stolen_buf_idx = stolen, px_sent_bitmap = replicate TRIE_FD_SLOTS 0, px_subscriber_count = 0\<rparr>
      (trie_match_collect (b_trie b) topic len))"
  define b2 where "b2 = b1\<lparr>b_ring := ring_flush_sqes (b_ring b1)\<rparr>"
  have "view b1 = view b" by (simp add: b1_def view_msg_pool)
  then have b2: "view b2 = view b" by (simp add: b2_def view_ring)
  obtain n p where u: "msg_pool_unref (b_msg_pool b2) m = (n, p)" by (metis surj_pair)
  define b3 where "b3 = b2\<lparr>b_msg_pool := p\<rparr>"
  have b3: "view b3 = view b" using view_unref [OF u] b2 by (simp add: b3_def)
  have b4: "view (b3\<lparr>b_recv_pool := buf_pool_free (b_recv_pool b3) stolen, b_msg_pool := msg_pool_free (b_msg_pool b3) m\<rparr>) = view b"
    unfolding view_pools using b3 by (simp add: view_msg_pool)
  have "fan_out b m stolen topic len = (if n = 0
      then b3\<lparr>b_recv_pool := buf_pool_free (b_recv_pool b3) stolen, b_msg_pool := msg_pool_free (b_msg_pool b3) m\<rparr> else b3)
      \<lparr>b_msgs_published := b_msgs_published (if n = 0
      then b3\<lparr>b_recv_pool := buf_pool_free (b_recv_pool b3) stolen, b_msg_pool := msg_pool_free (b_msg_pool b3) m\<rparr> else b3) + 1\<rparr>"
    unfolding fan_out_def Let_def b1_def [symmetric] b2_def [symmetric] using u by (simp add: b2_def b1_def b3_def)
  then show ?thesis using b3 b4 by simp
qed

lemma view_count_drop [simp]: "view (count_drop b) = view b"
  by (simp add: count_drop_def)

lemma view_ack: "handle_ack buf p len b fsm = Some (go, b') \<Longrightarrow> (\<And>pid b1. fsm pid = Some b1 \<Longrightarrow> view b1 = view b) \<Longrightarrow> view b' = view b"
  by (auto simp: handle_ack_def split: if_splits sum.splits)

lemma view_buf_alloc: "buf_pool_alloc (b_recv_pool b) = (i, p) \<Longrightarrow> view (b\<lparr>b_recv_pool := p\<rparr>) = view b"
  using buf_pool_fields(3-6,8) [of "b_recv_pool b"] by (intro view_recv_pool) simp_all

lemma view_msg_alloc: "msg_pool_alloc (b_msg_pool b) = (i, p) \<Longrightarrow> view (b\<lparr>b_msg_pool := p\<rparr>) = view b"
  using msg_pool_fields(4-6) [of "b_msg_pool b"] by (intro view_msg_pool) simp_all

lemma view_packet_quiet:
  assumes k: "ok k" and h: "process_mqtt_packet_ex k b s buf p hdr = Some (r, b')"
    and ty: "hdr_type hdr \<noteq> MQTT_CONNECT" "hdr_type hdr \<noteq> MQTT_SUBSCRIBE" "hdr_type hdr \<noteq> MQTT_UNSUBSCRIBE" "hdr_type hdr \<noteq> MQTT_PUBLISH"
  shows "view b' = view b"
proof -
  let ?p = "p + header_len hdr" and ?n = "unat (remaining_len hdr)"
  show ?thesis
    using h k ty view_ack [of buf ?p ?n b _ _ b', OF _ view_puback] view_ack [of buf ?p ?n b _ _ b', OF _ view_pubrec [OF k]]
      view_ack [of buf ?p ?n b _ _ b', OF _ view_pubrel [OF k]]
      view_ack [of buf ?p ?n b "\<lambda>pid. Some (fsm_sub_pubcomp_received b s pid)" _ b']
    by (simp add: process_mqtt_packet_ex_def Let_def map_option_eq_Some split: if_splits) auto
qed

section \<open>Completions\<close>

lemma view_alloc_slot: "broker_alloc_slot b fd = (i, b') \<Longrightarrow> view b' = view b"
  using view_buf_alloc [of b] by (auto simp: broker_alloc_slot_def Let_def split: if_splits prod.splits)

lemma view_free_orphan [simp]: "view (free_orphan b s) = view b"
  by (simp add: free_orphan_def Let_def view_recv_pool)

lemma view_drop_recv_buf [simp]: "view (drop_recv_buf b s) = view b" "view (fd_unmap b fd) = view b"
  by (simp_all add: drop_recv_buf_def fd_unmap_def Let_def view_recv_pool)

lemma view_go_dormant [simp]: "view (broker_slot_go_dormant b s) = view b"
  by (simp add: broker_slot_go_dormant_def Let_def)

lemma view_advance [simp]: "view (advance_recv b s n) = view b"
  by (simp add: advance_recv_def)

lemma view_fast_path: "ok k \<Longrightarrow> fast_path k b s buf data = Some (Some b') \<Longrightarrow> view b' = view b"
  using view_puback view_pubrec view_pubrel by (auto simp: fast_path_def split: if_splits option.splits)

section \<open>The event loop\<close>

lemma view_egress_flush_loop [simp]: "view (snd (egress_flush_loop n b r)) = view b"
proof (induction n b r rule: egress_flush_loop.induct)
  case (2 n b r)
  then show ?case using view_pair [OF _ view_flush_queue(2) [of b]] view_pair [OF _ view_flush] by (auto simp: Let_def split: prod.splits)
qed simp

lemma view_accepts [simp]: "ok k \<Longrightarrow> view (submit_accepts n k b) = view b" "ok k \<Longrightarrow> view (replenish_accepts n k b) = view b"
proof -
  show "ok k \<Longrightarrow> view (submit_accepts n k b) = view b" by (induction n k b rule: submit_accepts.induct) simp_all
  show "ok k \<Longrightarrow> view (replenish_accepts n k b) = view b"
  proof (induction n k b rule: replenish_accepts.induct)
    case (2 n k b)
    then show ?case using view_pair [OF _ view_submit_accept [of k b]] by (auto split: prod.splits bool.splits)
  qed simp
qed

end

text \<open>With the stores into receive buffers: everything that touches neither the trie nor the map of client identifiers.\<close>

locale buffer_frame = store_frame +
  assumes view_recv_buf_update: "view (recv_buf_update b i f) = view b"
begin

declare view_recv_buf_update [simp]

lemma view_compact [simp]: "view (snd (maybe_compact_recv_buf b s)) = view b"
  by (auto simp: maybe_compact_recv_buf_def Let_def split: option.splits)

lemma view_recv_internal [simp]: "ok k \<Longrightarrow> view (snd (submit_recv_internal k b s)) = view b"
  using view_get_sqe [of k] view_compact [of b s]
  by (auto simp: submit_recv_internal_def Let_def split: prod.splits option.splits)

lemma view_submit_recv [simp]: "ok k \<Longrightarrow> view (submit_recv k b s) = view b"
  using view_recv_internal [of k b s] by (cases "submit_recv_internal k b s") (auto simp: submit_recv_def split: bool.splits)

lemma view_steal: "steal_recv_buffer b s n = (new, st, b') \<Longrightarrow> view b' = view b"
  using view_buf_alloc [of b] by (auto simp: steal_recv_buffer_def Let_def split: if_splits prod.splits)

lemma view_publish_accepted [simp]: "view (publish_accepted b s buf n pub) = view b"
  using view_msg_alloc [of b] view_steal
  by (auto simp: publish_accepted_def Let_def view_msg_pool split: prod.splits option.splits)

lemma view_publish: "ok k \<Longrightarrow> handle_publish k b s buf p len n fl = Some (go, b') \<Longrightarrow> view b' = view b"
  using view_pub_received [of k] by (auto simp: handle_publish_def Let_def split: if_splits sum.splits prod.splits)

lemma view_packet_other:
  assumes k: "ok k" and h: "process_mqtt_packet_ex k b s buf p hdr = Some (r, b')"
    and ty: "hdr_type hdr \<noteq> MQTT_CONNECT" "hdr_type hdr \<noteq> MQTT_SUBSCRIBE" "hdr_type hdr \<noteq> MQTT_UNSUBSCRIBE"
  shows "view b' = view b"
proof (cases "hdr_type hdr = MQTT_PUBLISH")
  case True
  then show ?thesis using h view_publish [OF k] by (auto simp: process_mqtt_packet_ex_def Let_def map_option_eq_Some)
qed (use view_packet_quiet [OF k h ty] in simp)

lemma view_accept [simp]: "ok k \<Longrightarrow> view (handle_accept k b cqe) = view b"
  using view_alloc_slot by (auto simp: handle_accept_def Let_def split: prod.splits option.splits)

lemma view_recv_retry_loop [simp]: "ok k \<Longrightarrow> view (snd (recv_retry_loop n k b r)) = view b"
proof (induction n k b r rule: recv_retry_loop.induct)
  case (2 n k b r)
  then show ?case using view_pair [OF _ view_recv_retry(2) [of b]] view_pair [OF _ view_recv_internal [of k]]
    by (auto simp: Let_def split: prod.splits bool.splits)
qed simp

lemma view_retries [simp]: "ok k \<Longrightarrow> view (snd (process_recv_retries k b)) = view b" "view (snd (process_egress_flushes b)) = view b"
  using view_pair [OF _ view_recv_retry_loop [of k "b_recv_retry_capacity b" b 0]] view_pair [OF _ view_egress_flush_loop [of "b_egress_flush_capacity b" b 0]]
  by (auto simp: process_recv_retries_def process_egress_flushes_def Let_def split: prod.splits)

end

text \<open>The broker after an iteration, whether the loop returned or goes on.\<close>

definition outcome :: "int \<times> broker + broker \<Rightarrow> broker" where
  "outcome r = (case r of Inl (rc, b) \<Rightarrow> b | Inr b \<Rightarrow> b)"

lemma outcome_simps [simp]: "outcome (Inl (rc, b)) = b" "outcome (Inr b) = b"
  by (simp_all add: outcome_def)

text \<open>With the stores to the trie and the map, up to the event loop.\<close>

locale event_frame = buffer_frame +
  assumes view_trie: "view (b\<lparr>b_trie := t\<rparr>) = view b"
    and view_client_map: "hm_map h = hm_map (b_client_map b) \<Longrightarrow> hm_capacity h = hm_capacity (b_client_map b) \<Longrightarrow> view (b\<lparr>b_client_map := h\<rparr>) = view b"
begin

declare view_trie [simp]

lemma view_add_filter: "view (snd (add_filter slot gen buf st f)) = view (snd st)"
  by (simp add: add_filter_def sub_add_def Let_def split: prod.splits)

lemma view_add_filters: "view (snd (foldl (add_filter slot gen buf) st fs)) = view (snd st)"
  by (rule view_foldl) (rule view_add_filter)

lemma view_subscribe:
  assumes k: "ok k" and h: "handle_subscribe k b s buf p len = Some (go, b')"
  shows "view b' = view b"
proof (cases "c_protocol_version (client_at b s) = 0 \<or> (\<exists>e. mqtt_parse_subscribe buf p len = Inl e)")
  case True
  then show ?thesis using h by (auto simp: handle_subscribe_def split: if_splits)
next
  case False
  then obtain pkt where pkt: "mqtt_parse_subscribe buf p len = Inr pkt" by (cases "mqtt_parse_subscribe buf p len") auto
  obtain codes b1 where f: "foldl (add_filter (slot_of b s) (c_generation (client_at b s)) buf) ([], b) (sub_filters pkt) = (codes, b1)"
    by (metis surj_pair)
  have "view b1 = view b"
    using view_add_filters [of "slot_of b s" "c_generation (client_at b s)" buf "([], b)" "sub_filters pkt"] f by simp
  then show ?thesis using h False pkt f k by (auto simp: handle_subscribe_def Let_def)
qed

lemma view_unsubscribe: "ok k \<Longrightarrow> handle_unsubscribe k b s buf p len = Some (go, b') \<Longrightarrow> view b' = view b"
  by (auto simp: handle_unsubscribe_def Let_def sub_remove_def intro!: view_foldl_id split: if_splits sum.splits)

lemma view_map_insert:
  assumes "hashmap_insert (b_client_map b) hash v = Some (x, h)"
  shows "view (b\<lparr>b_client_map := h\<rparr>) = view b"
  using hashmap_fields(1) [OF assms] by (intro view_client_map) auto

lemma view_set_identity: "broker_set_client_identity b s cid len = Some b' \<Longrightarrow> view b' = view b"
  using view_map_insert by (fastforce simp: broker_set_client_identity_def Let_def)

lemma view_connect: "ok k \<Longrightarrow> handle_connect k b s buf p len = Some (go, b') \<Longrightarrow> view b' = view b"
  using view_set_identity by (auto simp: handle_connect_def Let_def split: if_splits sum.splits bind_splits)

lemma view_map_remove:
  assumes "hashmap_remove (b_client_map b) hash v = Some (x, h)"
  shows "view (b\<lparr>b_client_map := h\<rparr>) = view b"
  using hashmap_fields(2) [OF assms] by (intro view_client_map) auto

lemma view_packet:
  assumes k: "ok k" and h: "process_mqtt_packet_ex k b s buf p hdr = Some (r, b')"
  shows "view b' = view b"
proof (cases "hdr_type hdr = MQTT_CONNECT \<or> hdr_type hdr = MQTT_SUBSCRIBE \<or> hdr_type hdr = MQTT_UNSUBSCRIBE")
  case True
  then show ?thesis using h view_connect [OF k] view_subscribe [OF k] view_unsubscribe [OF k]
    by (auto simp: process_mqtt_packet_ex_def Let_def map_option_eq_Some)
qed (use view_packet_other [OF k h] in simp)

lemma view_free_slot: "broker_free_slot b s = Some b' \<Longrightarrow> view b' = view b"
  using view_map_remove by (fastforce simp: broker_free_slot_def Let_def split: if_splits bind_splits)

lemma view_recv_round: "ok k \<Longrightarrow> recv_round k b s buf data = Some (d, b') \<Longrightarrow> view b' = view b"
  using view_fast_path [of k b s buf data] view_packet [of k b s buf data]
  by (auto simp: recv_round_def Let_def split: option.splits sum.splits parse_error.splits prod.splits if_splits)

lemma view_recv_loop: "ok k \<Longrightarrow> recv_loop n k b s data = Some b' \<Longrightarrow> view b' = view b"
proof (induction n k b s data rule: recv_loop.induct)
  case (2 n k b s data)
  then show ?case using view_recv_round [of k b s _ data] by (auto split: if_splits option.splits)
qed (simp split: if_splits)

lemma view_recv: "ok k \<Longrightarrow> handle_recv k b cqe = Some b' \<Longrightarrow> view b' = view b"
  using view_recv_loop [of k] by (fastforce simp: handle_recv_def process_recv_buffer_def Let_def split: if_splits option.splits)

lemma view_handle_close: "handle_close b cqe = Some b' \<Longrightarrow> view b' = view b"
  using view_free_slot by (fastforce simp: handle_close_def Let_def split: if_splits option.splits)

lemma view_dispatch: "ok k \<Longrightarrow> dispatch_cqe k b cqe = Some b' \<Longrightarrow> view b' = view b"
  using view_recv [of k b cqe b'] view_egress_cqe [of b cqe b'] view_handle_close [of b cqe b']
  by (auto simp: dispatch_cqe_def handle_send_def handle_send_resp_def Let_def split: if_splits option.splits)

lemma view_drain_cqes: "ok k \<Longrightarrow> drain_cqes n k b p = Some (q, b') \<Longrightarrow> view b' = view b"
proof (induction n k b p rule: drain_cqes.induct)
  case (2 n k b p)
  have "view (b1\<lparr>b_ring := ring_cq_advance (b_ring b1) 1\<rparr>) = view b1" for b1 by (simp add: view_ring)
  then show ?case using 2 view_dispatch [of k b] by (auto split: if_splits option.splits)
qed (simp split: if_splits)

lemma view_step:
  assumes k: "ok k" and st: "broker_step k b now = Some r"
  shows "view (outcome r) = view b"
proof -
  note e = view_enter [OF k]
  define b2 where "b2 = b\<lparr>b_now := now, b_ring := ring_flush_sqes (b_ring (b\<lparr>b_now := now\<rparr>))\<rparr>"
  obtain rc b3 where enter: "broker_enter k b2 (\<lambda>enter r. ring_submit enter r 0) = (rc, b3)" by (metis surj_pair)
  have b3: "view b3 = view b" using view_pair [OF enter e(1)] by (simp add: b2_def view_ring)
  define b4 where "b4 = b3\<lparr>b_ring := ring_cq_sync (b_ring b3)\<rparr>"
  have b4: "view b4 = view b" using b3 by (simp add: b4_def view_ring)
  note st' = st [unfolded broker_step_def Let_def, folded b2_def, unfolded enter prod.case, folded b4_def]
  show ?thesis
  proof (cases "rc < 0 \<and> rc \<noteq> - 4")
    case True
    then have "r = Inl (rc, b3)" using st' by simp
    then show ?thesis using b3 by simp
  next
    case False
    then obtain p b5 where d: "drain_cqes (unat (r_cq_tail_local (b_ring b4) - r_cq_head_local (b_ring b4))) k b4 0 = Some (p, b5)"
      using st' by (auto split: option.splits)
    have b5: "view b5 = view b" using view_drain_cqes [OF k d] b4 by simp
    define b6 where "b6 = b5\<lparr>b_ring := ring_cq_flush (b_ring b5)\<rparr>"
    define b7 where "b7 = snd (process_egress_flushes (snd (process_recv_retries k b6)))"
    define b8 where "b8 = replenish_accepts (ACCEPT_BATCH - b_accept_pending b7) k b7"
    have b8: "view b8 = view b" using b5 k by (simp add: b8_def b7_def b6_def view_ring)
    define sweep where "sweep = (if b_now b8 - b_last_timeout_sweep b8 \<ge> LLMQ_TIMEOUT_SWEEP_INTERVAL_MS
        then map_option (\<lambda>(_, b). b\<lparr>b_last_timeout_sweep := b_now b\<rparr>) (fsm_sweep_all_timeouts b8) else Some b8)"
    note st'' = st' [unfolded d option.case prod.case, folded b6_def, folded b7_def, folded b8_def, folded sweep_def]
    obtain b9 where sw: "sweep = Some b9" using st'' False by (auto split: option.splits)
    have b9: "view b9 = view b" using sw b8 view_sweep [of b8] by (auto simp: sweep_def split: if_splits)
    obtain rc2 b10 where wait: "broker_enter k b9 (\<lambda>enter r. ring_submit_and_wait enter r 1) = (rc2, b10)" by (metis surj_pair)
    have b10: "view b10 = view b" using view_pair [OF wait e(2)] b9 by simp
    show ?thesis using st'' False sw wait b9 b10 by (auto split: if_splits)
  qed
qed

lemma view_loop: "ok k \<Longrightarrow> broker_loop n k b t = Some r \<Longrightarrow> view (outcome r) = view b"
proof (induction n arbitrary: b t)
  case (Suc n)
  show ?case
  proof (cases "b_running b")
    case True
    then obtain r1 where s: "broker_step k b (k_clock k t) = Some r1" using Suc.prems(2) by (auto split: option.splits)
    note h = view_step [OF Suc.prems(1) s]
    show ?thesis using Suc.IH [OF Suc.prems(1)] Suc.prems(2) True s h by (cases r1) auto
  qed (use Suc.prems(2) in auto)
qed auto

lemma view_run: "ok k \<Longrightarrow> broker_run n k b = Some r \<Longrightarrow> view (outcome r) = view b"
  using view_loop [of k n] by (fastforce simp: broker_run_def Let_def)

end

end
