(* ===== verification/Held.thy ===== *)
theory Held
  imports Frame
begin

text \<open>
  What the event loop never touches: the mappings the broker holds, with their sizes, and the descriptors of the
  ring and of the listening socket.  Every operation, from a store to a slot up to \<open>broker_run\<close>, keeps the view
  \<open>held\<close>, provided the kernel leaves the field \<^verbatim>\<open>fd\<close> of \<^verbatim>\<open>struct ring\<close> alone, which is no part of the memory it shares.
\<close>

section \<open>The view\<close>

definition held :: "broker \<Rightarrow> (region option \<times> nat) list \<times> int \<times> int" where
  "held b = (mappings b, r_fd (b_ring b), b_listen_fd b)"

definition keeps_fd :: "kernel \<Rightarrow> bool" where
  "keeps_fd k \<longleftrightarrow> (\<forall>r n w fl. r_fd (snd (k_enter k r n w fl)) = r_fd r)"

lemma ring_submit_fd:
  assumes "keeps_fd k"
  shows "r_fd (snd (ring_submit (k_enter k) r n)) = r_fd r" "r_fd (snd (ring_submit_and_wait (k_enter k) r m)) = r_fd r"
  using assms by (simp_all add: keeps_fd_def ring_submit_def ring_submit_and_wait_def Let_def)

lemma held_enter:
  assumes "r_fd (snd (call (k_enter k) (b_ring b))) = r_fd (b_ring b)"
  shows "held (snd (broker_enter k b call)) = held b"
  using assms by (cases "call (k_enter k) (b_ring b)") (simp add: broker_enter_def held_def mappings_def)

interpretation resources: event_frame held keeps_fd
proof
  show "held (client_update b s f) = held b" for b s f by (simp add: held_def mappings_def client_update_def)
  show "keeps_fd k \<Longrightarrow> held (snd (broker_enter k b (\<lambda>enter r. ring_submit enter r 0))) = held b" for k b
    by (rule held_enter) (rule ring_submit_fd(1))
  show "keeps_fd k \<Longrightarrow> held (snd (broker_enter k b (\<lambda>enter r. ring_submit_and_wait enter r 1))) = held b" for k b
    by (rule held_enter) (rule ring_submit_fd(2))
qed (simp_all add: held_def mappings_def recv_buf_update_def)

end
