(* ===== verification/Config_Load.thy ===== *)
theory Config_Load
  imports Config_Text State_Init
begin

text \<open>
  The configuration loader: \<^verbatim>\<open>CONFIG_LOADER\<close> of \<^verbatim>\<open>src/src/util/configlib.h\<close> on the fields of
  \<^verbatim>\<open>src/src/config.def.h\<close>, in the order defaults, INI file, environment, command line, and the validation of
  the result.  Reading a file is a parameter: \<open>None\<close> when \<open>open\<close> fails or \<open>read\<close> returns nothing.
\<close>

section \<open>Fields\<close>

datatype config_field =
    Network_Port | Network_Backlog
  | Limits_Max_Conns | Limits_Max_Sessions | Limits_Ring_Entries | Limits_Msg_Pool_Size
  | Client_Max_Inflight | Client_Egress_Capacity
  | Debug_Log_Level

record broker_config =
  network_port :: u16
  network_backlog :: u16
  limits_max_conns :: u32
  limits_max_sessions :: u32
  limits_ring_entries :: u32
  limits_msg_pool_size :: u32
  client_max_inflight :: u16
  client_egress_capacity :: u16
  debug_log_level :: u8

text \<open>The assignment \<open>cfg->section_name = (type)v\<close>.\<close>

fun set_field :: "config_field \<Rightarrow> u64 \<Rightarrow> broker_config \<Rightarrow> broker_config" where
  "set_field Network_Port v cfg = cfg\<lparr>network_port := ucast v\<rparr>"
| "set_field Network_Backlog v cfg = cfg\<lparr>network_backlog := ucast v\<rparr>"
| "set_field Limits_Max_Conns v cfg = cfg\<lparr>limits_max_conns := ucast v\<rparr>"
| "set_field Limits_Max_Sessions v cfg = cfg\<lparr>limits_max_sessions := ucast v\<rparr>"
| "set_field Limits_Ring_Entries v cfg = cfg\<lparr>limits_ring_entries := ucast v\<rparr>"
| "set_field Limits_Msg_Pool_Size v cfg = cfg\<lparr>limits_msg_pool_size := ucast v\<rparr>"
| "set_field Client_Max_Inflight v cfg = cfg\<lparr>client_max_inflight := ucast v\<rparr>"
| "set_field Client_Egress_Capacity v cfg = cfg\<lparr>client_egress_capacity := ucast v\<rparr>"
| "set_field Debug_Log_Level v cfg = cfg\<lparr>debug_log_level := ucast v\<rparr>"

record field_row =
  row_field :: config_field
  row_section :: string
  row_name :: string
  row_default :: u64
  row_cli :: string

definition BROKER_FIELDS :: "field_row list" where
  "BROKER_FIELDS =
     [\<lparr>row_field = Network_Port, row_section = ''network'', row_name = ''port'', row_default = 1883, row_cli = ''port''\<rparr>,
      \<lparr>row_field = Network_Backlog, row_section = ''network'', row_name = ''backlog'', row_default = 128, row_cli = ''backlog''\<rparr>,
      \<lparr>row_field = Limits_Max_Conns, row_section = ''limits'', row_name = ''max_conns'', row_default = 4096, row_cli = ''max-conns''\<rparr>,
      \<lparr>row_field = Limits_Max_Sessions, row_section = ''limits'', row_name = ''max_sessions'', row_default = 4096, row_cli = ''max-sessions''\<rparr>,
      \<lparr>row_field = Limits_Ring_Entries, row_section = ''limits'', row_name = ''ring_entries'', row_default = 8192, row_cli = ''ring-entries''\<rparr>,
      \<lparr>row_field = Limits_Msg_Pool_Size, row_section = ''limits'', row_name = ''msg_pool_size'', row_default = 4096, row_cli = ''msg-pool-size''\<rparr>,
      \<lparr>row_field = Client_Max_Inflight, row_section = ''client'', row_name = ''max_inflight'', row_default = 256, row_cli = ''max-inflight''\<rparr>,
      \<lparr>row_field = Client_Egress_Capacity, row_section = ''client'', row_name = ''egress_capacity'', row_default = 2048, row_cli = ''egress-capacity''\<rparr>,
      \<lparr>row_field = Debug_Log_Level, row_section = ''debug'', row_name = ''log_level'', row_default = 2, row_cli = ''log-level''\<rparr>]"

definition CONFIG_DEFAULT_FIELD :: "field_row \<Rightarrow> broker_config \<Rightarrow> broker_config" where
  "CONFIG_DEFAULT_FIELD r = set_field (row_field r) (row_default r)"

definition CONFIG_ENV_FIELD :: "string list \<Rightarrow> string \<Rightarrow> field_row \<Rightarrow> broker_config \<Rightarrow> broker_config" where
  "CONFIG_ENV_FIELD envp prefix r cfg =
     (case cl_getenv envp prefix (row_section r @ ''_'' @ row_name r) of
        None \<Rightarrow> cfg
      | Some v \<Rightarrow> set_field (row_field r) (cl_parse v) cfg)"

definition CONFIG_INI_MATCH :: "string \<Rightarrow> string \<Rightarrow> string \<Rightarrow> field_row \<Rightarrow> broker_config \<Rightarrow> broker_config" where
  "CONFIG_INI_MATCH cur_section norm_name line_value r cfg =
     (if cl_streq_nocase cur_section (row_section r) \<and> cl_streq_nocase norm_name (row_name r)
      then set_field (row_field r) (cl_parse line_value) cfg else cfg)"

section \<open>The loader\<close>

definition norm_name :: "string \<Rightarrow> string" where
  "norm_name name = map (\<lambda>c. if c = CHR ''-'' then CHR ''_'' else c) (take 63 name)"

text \<open>The loop over the lines of the file; a line is cut at 255 characters.\<close>

function ini_loop :: "string \<Rightarrow> string \<Rightarrow> broker_config \<Rightarrow> broker_config" where
  "ini_loop text cur_section cfg =
     (if text = [] then cfg
      else let line = takeWhile (\<lambda>c. c \<noteq> newline) text;
               rest = drop (Suc (length line)) text
           in case cl_parse_ini_line (take 255 line) of
                CL_INI_EMPTY \<Rightarrow> ini_loop rest cur_section cfg
              | CL_INI_SECTION sec \<Rightarrow> ini_loop rest sec cfg
              | CL_INI_VALUE name value \<Rightarrow>
                  ini_loop rest cur_section (fold (CONFIG_INI_MATCH cur_section (norm_name name) value) BROKER_FIELDS cfg))"
  by pat_completeness auto
termination by (relation "measure (\<lambda>(text, _, _). length text)") auto

declare ini_loop.simps [simp del]

text \<open>The bytes \<open>read\<close> puts into \<open>buf[4096]\<close>, up to the terminator.\<close>

definition ini_text :: "string \<Rightarrow> string" where
  "ini_text content = takeWhile (\<lambda>c. c \<noteq> CHR 0x00) (take 4095 content)"

fun cli_config_path :: "string list \<Rightarrow> string option" where
  "cli_config_path (a # b # as) = (if cl_streq a ''--config'' then Some b else cli_config_path (b # as))"
| "cli_config_path _ = None"

text \<open>The loop over \<open>argv[1..]\<close>; \<open>Inl\<close> is the return value when it is not 0.\<close>

fun cli_loop :: "string list \<Rightarrow> broker_config \<Rightarrow> int + broker_config" where
  "cli_loop [] cfg = Inr cfg"
| "cli_loop (a # as) cfg =
     (if cl_streq a ''--help'' \<or> cl_streq a ''-h'' then Inl 1
      else if cl_streq a ''--config'' then cli_loop (drop 1 as) cfg
      else case find (\<lambda>r. cl_streq a (''--'' @ row_cli r)) BROKER_FIELDS of
             Some r \<Rightarrow> (case as of [] \<Rightarrow> Inl (-1) | v # as' \<Rightarrow> cli_loop as' (set_field (row_field r) (cl_parse v) cfg))
           | None \<Rightarrow> if a \<noteq> [] \<and> hd a = CHR ''-'' then Inl (-1) else cli_loop as cfg)"

definition broker_config_load ::
    "(string \<Rightarrow> string option) \<Rightarrow> broker_config \<Rightarrow> string list \<Rightarrow> string list \<Rightarrow> int + broker_config" where
  "broker_config_load read_file cfg args envp =
     (let prefix = ''broker'';
          cfg = fold CONFIG_DEFAULT_FIELD BROKER_FIELDS cfg;
          ini_path = (case cli_config_path args of Some p \<Rightarrow> Some p | None \<Rightarrow> cl_getenv envp prefix ''CONFIG'');
          cfg = (case ini_path of
                   None \<Rightarrow> cfg
                 | Some p \<Rightarrow> (case read_file p of None \<Rightarrow> cfg | Some content \<Rightarrow> ini_loop (ini_text content) [] cfg));
          cfg = fold (CONFIG_ENV_FIELD envp prefix) BROKER_FIELDS cfg
      in cli_loop args cfg)"

definition LLMQ_MAX_CONNS_LIMIT :: nat where
  "LLMQ_MAX_CONNS_LIMIT = 65536"

definition broker_config_parse ::
    "(string \<Rightarrow> string option) \<Rightarrow> broker_config \<Rightarrow> string list \<Rightarrow> string list \<Rightarrow> int + broker_config" where
  "broker_config_parse read_file cfg args envp =
     (case broker_config_load read_file cfg args envp of
        Inl rc \<Rightarrow> Inl rc
      | Inr cfg \<Rightarrow>
          if network_port cfg = 0 then Inl (-1)
          else if limits_max_conns cfg = 0 \<or> limits_max_conns cfg > of_nat LLMQ_MAX_CONNS_LIMIT then Inl (-1)
          else if limits_max_sessions cfg = 0 \<or> limits_max_sessions cfg > of_nat LLMQ_MAX_CONNS_LIMIT then Inl (-1)
          else if limits_ring_entries cfg < 16 \<or> limits_ring_entries cfg > 32768 then Inl (-1)
          else if client_max_inflight cfg = 0 \<or> client_max_inflight cfg > 1024
               \<or> client_max_inflight cfg AND (client_max_inflight cfg - 1) \<noteq> 0 then Inl (-1)
          else if client_egress_capacity cfg < 64 \<or> client_egress_capacity cfg > 8192
               \<or> client_egress_capacity cfg AND (client_egress_capacity cfg - 1) \<noteq> 0 then Inl (-1)
          else if debug_log_level cfg > 4 then Inl (-1)
          else Inr cfg)"

section \<open>Settings\<close>

fun get_field :: "config_field \<Rightarrow> broker_config \<Rightarrow> nat" where
  "get_field Network_Port cfg = unat (network_port cfg)"
| "get_field Network_Backlog cfg = unat (network_backlog cfg)"
| "get_field Limits_Max_Conns cfg = unat (limits_max_conns cfg)"
| "get_field Limits_Max_Sessions cfg = unat (limits_max_sessions cfg)"
| "get_field Limits_Ring_Entries cfg = unat (limits_ring_entries cfg)"
| "get_field Limits_Msg_Pool_Size cfg = unat (limits_msg_pool_size cfg)"
| "get_field Client_Max_Inflight cfg = unat (client_max_inflight cfg)"
| "get_field Client_Egress_Capacity cfg = unat (client_egress_capacity cfg)"
| "get_field Debug_Log_Level cfg = unat (debug_log_level cfg)"

fun field_bits :: "config_field \<Rightarrow> nat" where
  "field_bits Network_Port = 16" | "field_bits Network_Backlog = 16"
| "field_bits Client_Max_Inflight = 16" | "field_bits Client_Egress_Capacity = 16"
| "field_bits Debug_Log_Level = 8"
| "field_bits _ = 32"

lemma get_set_field: "get_field f (set_field g v cfg) = (if f = g then unat v mod 2 ^ field_bits f else get_field f cfg)"
  by (cases f; cases g) (simp_all add: unat_ucast_mod)

text \<open>A configuration as a list of assignments, the last of which counts.\<close>

type_synonym settings = "(config_field \<times> u64) list"

definition apply_settings :: "settings \<Rightarrow> broker_config \<Rightarrow> broker_config" where
  "apply_settings ss cfg = fold (\<lambda>(f, v). set_field f v) ss cfg"

definition last_setting :: "settings \<Rightarrow> config_field \<Rightarrow> u64 option" where
  "last_setting ss f = map_of (rev ss) f"

lemma apply_settings_append: "apply_settings (ss @ ts) cfg = apply_settings ts (apply_settings ss cfg)"
  by (simp add: apply_settings_def)

lemma get_apply_settings: "get_field f (apply_settings ss cfg)
    = (case last_setting ss f of Some v \<Rightarrow> unat v mod 2 ^ field_bits f | None \<Rightarrow> get_field f cfg)"
proof (induction ss rule: rev_induct)
  case (snoc s ss)
  obtain g v where "s = (g, v)" by (cases s)
  then show ?case using snoc by (simp add: apply_settings_def last_setting_def get_set_field)
qed (simp add: apply_settings_def last_setting_def)

text \<open>What each source says: the lines of a file and the options of a command line, in order.\<close>

definition matching_rows :: "string \<Rightarrow> string \<Rightarrow> field_row list" where
  "matching_rows sec name = filter (\<lambda>r. cl_streq_nocase sec (row_section r) \<and> cl_streq_nocase name (row_name r)) BROKER_FIELDS"

function ini_settings :: "string \<Rightarrow> string \<Rightarrow> settings" where
  "ini_settings text sec =
     (if text = [] then []
      else let line = takeWhile (\<lambda>c. c \<noteq> newline) text; rest = drop (Suc (length line)) text
           in case cl_parse_ini_line (take 255 line) of
                CL_INI_EMPTY \<Rightarrow> ini_settings rest sec
              | CL_INI_SECTION sec' \<Rightarrow> ini_settings rest sec'
              | CL_INI_VALUE name v \<Rightarrow>
                  map (\<lambda>r. (row_field r, cl_parse v)) (matching_rows sec (norm_name name)) @ ini_settings rest sec)"
  by pat_completeness auto
termination by (relation "measure (\<lambda>(text, _). length text)") auto

declare ini_settings.simps [simp del]

definition cli_row :: "string \<Rightarrow> field_row option" where
  "cli_row a = find (\<lambda>r. a = ''--'' @ row_cli r) BROKER_FIELDS"

fun cli_settings :: "string list \<Rightarrow> settings" where
  "cli_settings (a # b # as) =
     (if a = ''--config'' then cli_settings as
      else case cli_row a of Some r \<Rightarrow> (row_field r, cl_parse b) # cli_settings as | None \<Rightarrow> cli_settings (b # as))"
| "cli_settings _ = []"

lemma fold_env: "fold (CONFIG_ENV_FIELD envp prefix) rs cfg =
    apply_settings (concat (map (\<lambda>r. case cl_getenv envp prefix (row_section r @ ''_'' @ row_name r) of
       None \<Rightarrow> [] | Some v \<Rightarrow> [(row_field r, cl_parse v)]) rs)) cfg"
  by (induction rs arbitrary: cfg) (auto simp: CONFIG_ENV_FIELD_def apply_settings_def split: option.splits)

lemma fold_default: "fold CONFIG_DEFAULT_FIELD rs cfg = apply_settings (map (\<lambda>r. (row_field r, row_default r)) rs) cfg"
  by (induction rs arbitrary: cfg) (simp_all add: CONFIG_DEFAULT_FIELD_def apply_settings_def)

lemma fold_match: "fold (CONFIG_INI_MATCH sec name v) rs cfg = apply_settings
    (map (\<lambda>r. (row_field r, cl_parse v)) (filter (\<lambda>r. cl_streq_nocase sec (row_section r) \<and> cl_streq_nocase name (row_name r)) rs)) cfg"
  by (induction rs arbitrary: cfg) (simp_all add: CONFIG_INI_MATCH_def apply_settings_def)

lemma ini_loop_settings: "ini_loop t sec cfg = apply_settings (ini_settings t sec) cfg"
proof (induction t sec cfg rule: ini_loop.induct)
  case (1 t sec cfg)
  show ?case
  proof (cases "t = []")
    case True
    then show ?thesis by (simp add: ini_loop.simps ini_settings.simps apply_settings_def)
  next
    case False
    define line where "line = takeWhile (\<lambda>c. c \<noteq> newline) t"
    define rest where "rest = drop (Suc (length line)) t"
    note IH = 1 [OF False refl refl, folded line_def, folded rest_def]
    have "ini_loop t sec cfg = (case cl_parse_ini_line (take 255 line) of CL_INI_EMPTY \<Rightarrow> ini_loop rest sec cfg
        | CL_INI_SECTION sec' \<Rightarrow> ini_loop rest sec' cfg
        | CL_INI_VALUE name v \<Rightarrow> ini_loop rest sec (fold (CONFIG_INI_MATCH sec (norm_name name) v) BROKER_FIELDS cfg))"
      by (subst ini_loop.simps) (simp only: Let_def line_def rest_def if_False False)
    moreover have "ini_settings t sec = (case cl_parse_ini_line (take 255 line) of CL_INI_EMPTY \<Rightarrow> ini_settings rest sec
        | CL_INI_SECTION sec' \<Rightarrow> ini_settings rest sec'
        | CL_INI_VALUE name v \<Rightarrow> map (\<lambda>r. (row_field r, cl_parse v)) (matching_rows sec (norm_name name)) @ ini_settings rest sec)"
      by (subst ini_settings.simps) (simp only: Let_def line_def rest_def if_False False)
    ultimately show ?thesis
      using IH by (cases "cl_parse_ini_line (take 255 line)") (simp_all add: apply_settings_append fold_match matching_rows_def)
  qed
qed

lemma cli_loop_Cons: "cli_loop (a # as) cfg =
     (if a = ''--help'' \<or> a = ''-h'' then Inl 1
      else if a = ''--config'' then cli_loop (drop 1 as) cfg
      else case cli_row a of
             Some r \<Rightarrow> (case as of [] \<Rightarrow> Inl (-1) | v # as' \<Rightarrow> cli_loop as' (set_field (row_field r) (cl_parse v) cfg))
           | None \<Rightarrow> if a \<noteq> [] \<and> hd a = CHR ''-'' then Inl (-1) else cli_loop as cfg)"
  by (simp only: cli_loop.simps cl_streq_eq cli_row_def)

lemma cli_row_config: "cli_row ''--config'' = None"
  by (simp add: cli_row_def BROKER_FIELDS_def)

lemma cli_loop_settings: "cli_loop args cfg = Inr cfg' \<Longrightarrow> cfg' = apply_settings (cli_settings args) cfg"
proof (induction "length args" arbitrary: args cfg rule: less_induct)
  case less
  show ?case
  proof (cases args)
    case (Cons a as)
    note p = less.prems [unfolded Cons cli_loop_Cons]
    have IH: "cli_loop as' c = Inr cfg' \<Longrightarrow> cfg' = apply_settings (cli_settings as') c" if "length as' \<le> length as" for as' c
      using less.hyps [of as' c] that Cons by simp
    show ?thesis
    proof (cases as)
      case Nil
      then show ?thesis using p IH [of "[]"] Cons by (auto simp: apply_settings_def split: if_splits option.splits)
    next
      case as: (Cons b bs)
      have s: "cli_settings args = (if a = ''--config'' then cli_settings bs
          else case cli_row a of Some r \<Rightarrow> (row_field r, cl_parse b) # cli_settings bs | None \<Rightarrow> cli_settings (b # bs))"
        by (simp add: Cons as)
      show ?thesis
      proof (cases "cli_row a")
        case None
        then show ?thesis using p IH [of bs cfg] IH [of as cfg] by (auto simp: s as split: if_splits)
      next
        case (Some r)
        then have "a \<noteq> ''--config''" using cli_row_config by auto
        then show ?thesis using p IH [of bs "set_field (row_field r) (cl_parse b) cfg"] Some
          by (auto simp: s as apply_settings_def split: if_splits)
      qed
    qed
  qed (use less.prems in \<open>simp add: apply_settings_def\<close>)
qed

section \<open>Precedence\<close>

lemma distinct_fields: "distinct (map row_field BROKER_FIELDS)" "f \<in> row_field ` set BROKER_FIELDS"
  by (simp add: BROKER_FIELDS_def) (cases f; simp add: BROKER_FIELDS_def)

lemma last_setting_append: "last_setting (ss @ ts) f = (case last_setting ts f of Some v \<Rightarrow> Some v | None \<Rightarrow> last_setting ss f)"
  by (simp add: last_setting_def map_add_def split: option.split)

lemma last_setting_env:
  assumes "distinct (map row_field rs)" "r \<in> set rs"
  shows "last_setting (concat (map (\<lambda>r. case g r of None \<Rightarrow> [] | Some v \<Rightarrow> [(row_field r, h v)]) rs)) (row_field r)
    = map_option h (g r)"
  using assms
proof (induction rs)
  case (Cons a rs)
  have none: "last_setting (concat (map (\<lambda>r. case g r of None \<Rightarrow> [] | Some v \<Rightarrow> [(row_field r, h v)]) rs)) x = None"
    if "x \<notin> row_field ` set rs" for x
    using that by (auto simp: last_setting_def map_of_eq_None_iff split: option.splits)
  have one: "last_setting (case g a of None \<Rightarrow> [] | Some v \<Rightarrow> [(row_field a, h v)]) x = (if x = row_field a then map_option h (g a) else None)" for x
    by (simp add: last_setting_def split: option.split)
  show ?case
  proof (cases "r = a")
    case True
    then have "row_field r \<notin> row_field ` set rs" using Cons.prems(1) by simp
    then show ?thesis using none [of "row_field r"] one [of "row_field r"] True
      by (simp add: last_setting_append split: option.split)
  next
    case False
    then have r: "r \<in> set rs" using Cons.prems(2) by simp
    then have "row_field r \<in> row_field ` set rs" by (rule imageI)
    then have "row_field r \<noteq> row_field a" using Cons.prems(1) by auto
    then show ?thesis using Cons.IH r Cons.prems(1) one [of "row_field r"] by (simp add: last_setting_append split: option.split)
  qed
qed simp

text \<open>The text of the file the loader reads, if any.\<close>

definition config_text :: "(string \<Rightarrow> string option) \<Rightarrow> string list \<Rightarrow> string list \<Rightarrow> string" where
  "config_text read_file args envp =
     (case (case cli_config_path args of Some p \<Rightarrow> Some p | None \<Rightarrow> cl_getenv envp ''broker'' ''CONFIG'') of
        None \<Rightarrow> [] | Some p \<Rightarrow> (case read_file p of None \<Rightarrow> [] | Some content \<Rightarrow> ini_text content))"

text \<open>C18: a field has the value of its last option on the command line; without one, of its environment variable;
  without that, of its last line in the file; and its default when nothing names it. The value is cut to
  the width of the field.\<close>

theorem config_precedence:
  assumes "broker_config_load read_file cfg0 args envp = Inr cfg" "r \<in> set BROKER_FIELDS"
  shows "get_field (row_field r) cfg = unat (case last_setting (cli_settings args) (row_field r) of Some v \<Rightarrow> v
    | None \<Rightarrow> (case cl_getenv envp ''broker'' (row_section r @ ''_'' @ row_name r) of Some v \<Rightarrow> cl_parse v
    | None \<Rightarrow> (case last_setting (ini_settings (config_text read_file args envp) []) (row_field r) of Some v \<Rightarrow> v
    | None \<Rightarrow> row_default r))) mod 2 ^ field_bits (row_field r)"
proof -
  let ?f = "row_field r"
  let ?def = "map (\<lambda>r. (row_field r, row_default r)) BROKER_FIELDS"
  let ?ini = "ini_settings (config_text read_file args envp) []"
  let ?env = "concat (map (\<lambda>r. case cl_getenv envp ''broker'' (row_section r @ ''_'' @ row_name r) of
       None \<Rightarrow> [] | Some v \<Rightarrow> [(row_field r, cl_parse v)]) BROKER_FIELDS)"
  have empty: "ini_loop [] [] c = c" "ini_settings [] [] = []" for c by (simp_all add: ini_loop.simps ini_settings.simps)
  have "cfg = apply_settings (cli_settings args) (apply_settings ?env (apply_settings ?ini (apply_settings ?def cfg0)))"
  proof (rule cli_loop_settings)
    show "cli_loop args (apply_settings ?env (apply_settings ?ini (apply_settings ?def cfg0))) = Inr cfg"
      using assms(1) empty unfolding broker_config_load_def Let_def fold_default fold_env ini_loop_settings [symmetric] config_text_def
      by (cases "case cli_config_path args of Some p \<Rightarrow> Some p | None \<Rightarrow> cl_getenv envp ''broker'' ''CONFIG''")
        (simp_all split: option.splits)
  qed
  then have "cfg = apply_settings (?def @ ?ini @ ?env @ cli_settings args) cfg0" by (simp add: apply_settings_append)
  then have g: "get_field ?f cfg = (case last_setting (?def @ ?ini @ ?env @ cli_settings args) ?f of
      Some v \<Rightarrow> unat v mod 2 ^ field_bits ?f | None \<Rightarrow> get_field ?f cfg0)"
    by (simp only: get_apply_settings)
  have d: "last_setting ?def ?f = Some (row_default r)"
    using last_setting_env [OF distinct_fields(1) assms(2), where g = "\<lambda>r. Some (row_default r)" and h = id] by (simp add: concat_map_singleton)
  have e: "last_setting ?env ?f = map_option cl_parse (cl_getenv envp ''broker'' (row_section r @ ''_'' @ row_name r))"
    by (rule last_setting_env [OF distinct_fields(1) assms(2)])
  show ?thesis unfolding g last_setting_append d e by (simp split: option.split)
qed

text \<open>A run with one option and one environment variable.\<close>

lemma parse_port: "cl_parse ''8883'' = 8883" "cl_parse ''99'' = 99"
  by (simp_all add: cl_parse_def is_digit_def code_def)

lemma default_fields: "fold CONFIG_DEFAULT_FIELD BROKER_FIELDS cfg = \<lparr>network_port = 1883, network_backlog = 128, limits_max_conns = 4096, limits_max_sessions = 4096, limits_ring_entries = 8192,
     limits_msg_pool_size = 4096, client_max_inflight = 256, client_egress_capacity = 2048, debug_log_level = 2\<rparr>"
  by (simp add: BROKER_FIELDS_def CONFIG_DEFAULT_FIELD_def)


lemma env_port: "cl_getenv [''BROKER_NETWORK_PORT=99''] ''broker'' ''network_port'' = Some ''99''"
  by code_simp

lemma env_config: "cl_getenv [''BROKER_NETWORK_PORT=99''] ''broker'' ''CONFIG'' = None"
  by (simp add: to_upper_def code_def)

lemma env_others: "list_all (\<lambda>r. cl_getenv [''BROKER_NETWORK_PORT=99''] ''broker'' (row_section r @ ''_'' @ row_name r) = None) (tl BROKER_FIELDS)"
  by code_simp

lemma cli_port: "cli_loop [''--port'', ''8883''] cfg = Inr (cfg\<lparr>network_port := 8883\<rparr>)"
  by (simp add: cli_loop_Cons cli_row_def BROKER_FIELDS_def parse_port)

lemma env_none: "list_all (\<lambda>r. cl_getenv envp p (row_section r @ ''_'' @ row_name r) = None) rs \<Longrightarrow>
    fold (CONFIG_ENV_FIELD envp p) rs cfg = cfg"
  by (induction rs) (simp_all add: CONFIG_ENV_FIELD_def del: cl_getenv.simps)

lemma env_port_fold: "fold (CONFIG_ENV_FIELD [''BROKER_NETWORK_PORT=99''] ''broker'') BROKER_FIELDS cfg = cfg\<lparr>network_port := 99\<rparr>"
proof -
  obtain r rs where B: "BROKER_FIELDS = r # rs" "r = \<lparr>row_field = Network_Port, row_section = ''network'', row_name = ''port'', row_default = 1883, row_cli = ''port''\<rparr>"
    by (simp add: BROKER_FIELDS_def)
  have "cl_getenv [''BROKER_NETWORK_PORT=99''] ''broker'' (row_section r @ ''_'' @ row_name r) = Some ''99''"
    using env_port by (simp add: B(2) del: cl_getenv.simps)
  then have "CONFIG_ENV_FIELD [''BROKER_NETWORK_PORT=99''] ''broker'' r cfg = cfg\<lparr>network_port := 99\<rparr>" for cfg
    by (simp only: CONFIG_ENV_FIELD_def option.case parse_port) (simp add: B(2))
  then show ?thesis using env_none [OF env_others] by (simp only: B(1) list.sel fold_Cons comp_apply)
qed

lemma load_port_example:
  "broker_config_load (\<lambda>_. None) cfg [''--port'', ''8883''] [''BROKER_NETWORK_PORT=99''] =
     Inr \<lparr>network_port = 8883, network_backlog = 128, limits_max_conns = 4096, limits_max_sessions = 4096, limits_ring_entries = 8192,
     limits_msg_pool_size = 4096, client_max_inflight = 256, client_egress_capacity = 2048, debug_log_level = 2\<rparr>"
  unfolding broker_config_load_def Let_def default_fields env_config cli_port env_port_fold
  by simp

text \<open>The option \<open>--port 8883\<close> wins over \<^verbatim>\<open>BROKER_NETWORK_PORT=99\<close>.\<close>

theorem config_precedence_witness:
  "\<forall>cfg0. \<exists>cfg. broker_config_load (\<lambda>_. None) cfg0 [''--port'', ''8883''] [''BROKER_NETWORK_PORT=99''] = Inr cfg
     \<and> get_field Network_Port cfg = 8883"
proof
  fix cfg0
  have r: "\<lparr>row_field = Network_Port, row_section = ''network'', row_name = ''port'', row_default = 1883, row_cli = ''port''\<rparr> \<in> set BROKER_FIELDS"
    by (simp add: BROKER_FIELDS_def)
  have s: "cli_settings [''--port'', ''8883''] = [(Network_Port, 8883)]"
    by (simp add: cli_row_def BROKER_FIELDS_def parse_port)
  from config_precedence [OF load_port_example r]
  show "\<exists>cfg. broker_config_load (\<lambda>_. None) cfg0 [''--port'', ''8883''] [''BROKER_NETWORK_PORT=99''] = Inr cfg
     \<and> get_field Network_Port cfg = 8883"
    unfolding field_row.simps s load_port_example by (simp add: last_setting_def)
qed

section \<open>Validation\<close>

lemma nat_and_half: "(a AND b) div 2 = a div 2 AND b div (2 :: nat)"
  using drop_bit_and [of 1 a b] by (simp add: drop_bit_eq_div)

lemma pow2_of_and:
  assumes "n \<noteq> 0" "n AND (n - 1) = (0 :: nat)"
  shows "\<exists>k. n = 2 ^ k"
  using assms
proof (induction n rule: less_induct)
  case (less n)
  show ?case
  proof (cases "even n")
    case True
    then obtain m where m: "n = 2 * m" by blast
    then have "m \<noteq> 0" using less.prems(1) by simp
    then have "n - 1 = 2 * (m - 1) + 1" using m by (cases m) simp_all
    then have "(n AND (n - 1)) div 2 = (m AND (m - 1))" using m by (simp add: nat_and_half)
    then have "m AND (m - 1) = 0" using less.prems(2) by simp
    then obtain k where "m = 2 ^ k" using less.IH [of m] m \<open>m \<noteq> 0\<close> by auto
    then have "n = 2 ^ Suc k" using m by simp
    then show ?thesis by blast
  next
    case False
    then obtain m where m: "n = 2 * m + 1" by (rule oddE)
    have "(n AND (n - 1)) div 2 = m AND m" using m by (simp add: nat_and_half)
    then have "m = 0" using less.prems(2) by simp
    then have "n = 2 ^ 0" using m by simp
    then show ?thesis by blast
  qed
qed

lemma word_pow2:
  assumes "(w :: 'a :: len word) \<noteq> 0" "w AND (w - 1) = 0"
  shows "\<exists>k. unat w = 2 ^ k"
proof (rule pow2_of_and)
  have nz: "unat w \<noteq> 0" using assms(1) by (simp add: unat_eq_0)
  then show "unat w \<noteq> 0" .
  have "unat (w - 1) = unat w - 1" using nz assms(1) by (simp add: unat_minus_one)
  then have "unat w AND (unat w - 1) = unat (w AND (w - 1))" by (simp add: unsigned_and_eq)
  then show "unat w AND (unat w - 1) = 0" using assms(2) by simp
qed

lemma pow2_between:
  assumes "\<exists>k. n = 2 ^ k" "(2 :: nat) ^ lo \<le> n" "n \<le> 2 ^ hi"
  shows "\<exists>k. lo \<le> k \<and> k \<le> hi \<and> n = 2 ^ k"
  using assms by auto

definition config_ok :: "broker_config \<Rightarrow> bool" where
  "config_ok cfg \<longleftrightarrow> network_port cfg \<noteq> 0
     \<and> unat (limits_max_conns cfg) \<in> {1..65536} \<and> unat (limits_max_sessions cfg) \<in> {1..65536}
     \<and> unat (limits_ring_entries cfg) \<in> {16..32768}
     \<and> (\<exists>k\<le>10. unat (client_max_inflight cfg) = 2 ^ k)
     \<and> (\<exists>k. 6 \<le> k \<and> k \<le> 13 \<and> unat (client_egress_capacity cfg) = 2 ^ k)
     \<and> unat (debug_log_level cfg) \<le> 4"

lemma parse_config_ok:
  assumes "broker_config_parse read_file cfg0 args envp = Inr cfg"
  shows "config_ok cfg"
proof -
  have p: "network_port cfg \<noteq> 0" "limits_max_conns cfg \<noteq> 0" "limits_max_conns cfg \<le> 65536"
      "limits_max_sessions cfg \<noteq> 0" "limits_max_sessions cfg \<le> 65536"
      "16 \<le> limits_ring_entries cfg" "limits_ring_entries cfg \<le> 32768"
      "client_max_inflight cfg \<noteq> 0" "client_max_inflight cfg \<le> 1024" "client_max_inflight cfg AND (client_max_inflight cfg - 1) = 0"
      "64 \<le> client_egress_capacity cfg" "client_egress_capacity cfg \<le> 8192" "client_egress_capacity cfg AND (client_egress_capacity cfg - 1) = 0"
      "debug_log_level cfg \<le> 4"
    using assms by (auto simp: broker_config_parse_def LLMQ_MAX_CONNS_LIMIT_def not_less split: sum.splits if_splits)
  have ne: "client_egress_capacity cfg \<noteq> 0" using p(11) by auto
  have i: "\<exists>k. 0 \<le> k \<and> k \<le> 10 \<and> unat (client_max_inflight cfg) = 2 ^ k"
    using p(8,9) by (intro pow2_between word_pow2 p(8,10)) (simp_all add: word_le_nat_alt unat_gt_0 Suc_le_eq)
  have e: "\<exists>k. 6 \<le> k \<and> k \<le> 13 \<and> unat (client_egress_capacity cfg) = 2 ^ k"
    using p(11,12) by (intro pow2_between word_pow2 ne p(13)) (simp_all add: word_le_nat_alt)
  show ?thesis using p(1-7,14) i e unfolding config_ok_def
    by (simp add: word_le_nat_alt Suc_le_eq unat_gt_0)
qed


text \<open>The same command line is accepted.\<close>

lemma parse_port_example:
  "broker_config_parse (\<lambda>_. None) cfg0 [''--port'', ''8883''] [''BROKER_NETWORK_PORT=99''] =
     Inr \<lparr>network_port = 8883, network_backlog = 128, limits_max_conns = 4096, limits_max_sessions = 4096, limits_ring_entries = 8192,
     limits_msg_pool_size = 4096, client_max_inflight = 256, client_egress_capacity = 2048, debug_log_level = 2\<rparr>"
  by (simp add: broker_config_parse_def load_port_example LLMQ_MAX_CONNS_LIMIT_def)


end
