(* ===== verification/Ring_Init.thy ===== *)
theory Ring_Init
  imports State_Init
begin

text \<open>
  Setting up and giving back the rings, \<^verbatim>\<open>src/src/sys/io_uring.c\<close>, with the error convention of
  \<^verbatim>\<open>src/src/sys/syscall.h\<close>: a mapping that fails is the value of a raw system call, a negative error
  number.  What the kernel answers is a parameter; an access through an address that is not mapped ends
  the process (\<open>None\<close>).
\<close>

section \<open>Error values and mappings\<close>

definition MAP_FAILED :: u64 where
  "MAP_FAILED = - 1"

definition IS_ERR :: "u64 \<Rightarrow> bool" where
  "IS_ERR x \<longleftrightarrow> x \<ge> - 4096"

abbreviation (input) "ENOMEM \<equiv> 12 :: int"

datatype map_ptr =
    NULL
  | Mapped region
  | Failed u64

record process =
  p_vm :: vm
  p_fds :: "int list"

definition close_fd :: "int \<Rightarrow> process \<Rightarrow> process" where
  "close_fd fd p = p\<lparr>p_fds := remove1 fd (p_fds p)\<rparr>"

record io_sqring_offsets =
  so_head :: u32
  so_tail :: u32
  so_ring_mask :: u32
  so_ring_entries :: u32
  so_array :: u32

record io_cqring_offsets =
  co_head :: u32
  co_tail :: u32
  co_ring_mask :: u32
  co_ring_entries :: u32
  co_cqes :: u32

record io_uring_params =
  up_sq_entries :: u32
  up_cq_entries :: u32
  up_features :: u32
  up_sq_off :: io_sqring_offsets
  up_cq_off :: io_cqring_offsets

abbreviation (input) "IORING_SETUP_COOP_TASKRUN \<equiv> 0x100 :: u32"
abbreviation (input) "IORING_SETUP_SINGLE_ISSUER \<equiv> 0x1000 :: u32"
abbreviation (input) "IORING_FEAT_SINGLE_MMAP \<equiv> 1 :: u32"
abbreviation (input) "IORING_OFF_SQ_RING \<equiv> 0 :: u64"
abbreviation (input) "IORING_OFF_CQ_RING \<equiv> 0x8000000 :: u64"
abbreviation (input) "IORING_OFF_SQES \<equiv> 0x10000000 :: u64"

text \<open>The kernel: the answer to \<^verbatim>\<open>io_uring_setup\<close>, which \<^verbatim>\<open>mmap\<close> calls succeed and the value of those that do
  not, and the shared memory, a u32 by the offset of its mapping and its offset in it.\<close>

record setup_kernel =
  ks_setup :: "u32 \<Rightarrow> u32 \<Rightarrow> int \<times> io_uring_params"
  ks_mmap_ok :: "nat \<Rightarrow> bool"
  ks_errno :: "nat \<Rightarrow> u64"
  ks_word :: "u64 \<Rightarrow> nat \<Rightarrow> u32"
  ks_cqe :: "u64 \<Rightarrow> nat \<Rightarrow> io_uring_cqe"
  ks_sqe :: "nat \<Rightarrow> io_uring_sqe"

definition ring_mmap :: "setup_kernel \<Rightarrow> nat \<Rightarrow> process \<Rightarrow> map_ptr \<times> process" where
  "ring_mmap ks len p =
     (case sys_mmap (ks_mmap_ok ks) len (p_vm p) of
        (Some r, v) \<Rightarrow> (Mapped r, p\<lparr>p_vm := v\<rparr>)
      | (None, v) \<Rightarrow> (Failed (ks_errno ks (vm_calls (p_vm p))), p\<lparr>p_vm := v\<rparr>))"

text \<open>\<^verbatim>\<open>munmap\<close> of an address that is not mapped fails and changes nothing.\<close>

definition ring_munmap :: "map_ptr \<Rightarrow> nat \<Rightarrow> process \<Rightarrow> process" where
  "ring_munmap ptr len p = (case ptr of Mapped r \<Rightarrow> p\<lparr>p_vm := sys_munmap r len (p_vm p)\<rparr> | _ \<Rightarrow> p)"

definition read_word :: "setup_kernel \<Rightarrow> map_ptr \<Rightarrow> u64 \<Rightarrow> u32 \<Rightarrow> u32 option" where
  "read_word ks ptr base off = (case ptr of Mapped _ \<Rightarrow> Some (ks_word ks base (unat off)) | _ \<Rightarrow> None)"

record ring_maps =
  rm_sq_ring_ptr :: map_ptr
  rm_sq_ring_sz :: nat
  rm_cq_ring_ptr :: map_ptr
  rm_cq_ring_sz :: nat
  rm_sqes_ptr :: map_ptr
  rm_sqes_sz :: nat

section \<open>Setup and cleanup\<close>

text \<open>The submission side: the fields that point into the SQ ring.\<close>

definition wire_sq :: "setup_kernel \<Rightarrow> map_ptr \<Rightarrow> io_uring_params \<Rightarrow> ring \<Rightarrow> ring option" where
  "wire_sq ks sq_ptr params r =
     do {
       head \<leftarrow> read_word ks sq_ptr IORING_OFF_SQ_RING (so_head (up_sq_off params));
       tail \<leftarrow> read_word ks sq_ptr IORING_OFF_SQ_RING (so_tail (up_sq_off params));
       msk \<leftarrow> read_word ks sq_ptr IORING_OFF_SQ_RING (so_ring_mask (up_sq_off params));
       Some (r\<lparr>r_sq_head := head, r_sq_tail := tail, r_sq_mask := msk,
               r_sq_array := map (\<lambda>i. ks_word ks IORING_OFF_SQ_RING (unat (so_array (up_sq_off params)) + 4 * i))
                               [0..<unat (up_sq_entries params)]\<rparr>)
     }"

text \<open>The completion side; \<open>base\<close> is the offset its mapping was made with.\<close>

definition wire_cq :: "setup_kernel \<Rightarrow> map_ptr \<Rightarrow> u64 \<Rightarrow> io_uring_params \<Rightarrow> ring \<Rightarrow> ring option" where
  "wire_cq ks cq_ptr base params r =
     do {
       head \<leftarrow> read_word ks cq_ptr base (co_head (up_cq_off params));
       tail \<leftarrow> read_word ks cq_ptr base (co_tail (up_cq_off params));
       msk \<leftarrow> read_word ks cq_ptr base (co_ring_mask (up_cq_off params));
       Some (r\<lparr>r_cq_head := head, r_cq_tail := tail, r_cq_mask := msk,
               r_cqes := map (\<lambda>i. ks_cqe ks base (unat (co_cqes (up_cq_off params)) + 16 * i))
                           [0..<unat (up_cq_entries params)],
               r_sq_tail_local := r_sq_tail r, r_cq_head_local := head, r_cq_tail_local := tail\<rparr>)
     }"

definition SETUP_FLAGS :: u32 where
  "SETUP_FLAGS = IORING_SETUP_SINGLE_ISSUER OR IORING_SETUP_COOP_TASKRUN"

definition ring_init :: "setup_kernel \<Rightarrow> ring \<Rightarrow> ring_maps \<Rightarrow> u32 \<Rightarrow> process \<Rightarrow> (int \<times> ring \<times> ring_maps \<times> process) option" where
  "ring_init ks r m entries p =
     (let (fd, params) = ks_setup ks entries SETUP_FLAGS
      in if fd < 0 then Some (fd, r, m, p)
      else
      let p = p\<lparr>p_fds := fd # p_fds p\<rparr>;
          r = r\<lparr>r_fd := fd, r_sq_entries := up_sq_entries params, r_cq_entries := up_cq_entries params\<rparr>;
          sq_sz = unat (so_array (up_sq_off params)) + unat (up_sq_entries params) * 4;
          cq_sz = unat (co_cqes (up_cq_off params)) + unat (up_cq_entries params) * 16;
          sqes_sz = unat (up_sq_entries params) * 64;
          m = m\<lparr>rm_sq_ring_sz := sq_sz, rm_cq_ring_sz := cq_sz, rm_sqes_sz := sqes_sz\<rparr>;
          (sq_ptr, p) = ring_mmap ks sq_sz p;
          m = m\<lparr>rm_sq_ring_ptr := sq_ptr\<rparr>
      in if sq_ptr = Failed MAP_FAILED then Some (- ENOMEM, r, m, close_fd fd p)
      else case wire_sq ks sq_ptr params r of None \<Rightarrow> None | Some r \<Rightarrow>
      let single = (up_features params AND IORING_FEAT_SINGLE_MMAP \<noteq> 0);
          (cq_ptr, p) = (if single then (sq_ptr, p) else ring_mmap ks cq_sz p);
          m = m\<lparr>rm_cq_ring_ptr := cq_ptr\<rparr>
      in if cq_ptr = Failed MAP_FAILED then Some (- ENOMEM, r, m, close_fd fd (ring_munmap sq_ptr sq_sz p))
      else case wire_cq ks cq_ptr (if single then IORING_OFF_SQ_RING else IORING_OFF_CQ_RING) params r of None \<Rightarrow> None | Some r \<Rightarrow>
      let (sqes_ptr, p) = ring_mmap ks sqes_sz p;
          m = m\<lparr>rm_sqes_ptr := sqes_ptr\<rparr>
      in if sqes_ptr = Failed MAP_FAILED
         then Some (- ENOMEM, r, m, close_fd fd (ring_munmap sq_ptr sq_sz
                (if cq_ptr \<noteq> sq_ptr then ring_munmap cq_ptr cq_sz p else p)))
         else Some (0, r\<lparr>r_sqes := (case sqes_ptr of Mapped _ \<Rightarrow> map (ks_sqe ks) [0..<unat (up_sq_entries params)] | _ \<Rightarrow> [])\<rparr>, m, p))"

definition ring_cleanup :: "ring \<Rightarrow> ring_maps \<Rightarrow> process \<Rightarrow> process" where
  "ring_cleanup r m p =
     (let p = (if rm_sqes_ptr m \<noteq> NULL then ring_munmap (rm_sqes_ptr m) (rm_sqes_sz m) p else p);
          p = (if rm_cq_ring_ptr m \<noteq> NULL \<and> rm_cq_ring_ptr m \<noteq> rm_sq_ring_ptr m
               then ring_munmap (rm_cq_ring_ptr m) (rm_cq_ring_sz m) p else p);
          p = (if rm_sq_ring_ptr m \<noteq> NULL then ring_munmap (rm_sq_ring_ptr m) (rm_sq_ring_sz m) p else p)
      in if r_fd r \<ge> 0 then close_fd (r_fd r) p else p)"

section \<open>What a process holds\<close>

definition ptr_regions :: "map_ptr \<Rightarrow> region multiset" where
  "ptr_regions ptr = (case ptr of Mapped r \<Rightarrow> {#r#} | _ \<Rightarrow> {#})"

definition ptr_sized :: "map_ptr \<Rightarrow> nat \<Rightarrow> bool" where
  "ptr_sized ptr len \<longleftrightarrow> (\<forall>r. ptr = Mapped r \<longrightarrow> snd r = len)"

text \<open>The mappings and the open descriptors.\<close>

definition holds :: "process \<Rightarrow> region multiset \<times> int multiset" where
  "holds p = (mset (vm_live (p_vm p)), mset (p_fds p))"

definition maps_regions :: "ring_maps \<Rightarrow> region multiset" where
  "maps_regions m = ptr_regions (rm_sqes_ptr m) + ptr_regions (rm_sq_ring_ptr m)
     + (if rm_cq_ring_ptr m = rm_sq_ring_ptr m then {#} else ptr_regions (rm_cq_ring_ptr m))"

definition maps_sized :: "ring_maps \<Rightarrow> bool" where
  "maps_sized m \<longleftrightarrow> ptr_sized (rm_sqes_ptr m) (rm_sqes_sz m) \<and> ptr_sized (rm_sq_ring_ptr m) (rm_sq_ring_sz m)
     \<and> (rm_cq_ring_ptr m = rm_sq_ring_ptr m \<or> ptr_sized (rm_cq_ring_ptr m) (rm_cq_ring_sz m))"

lemma ptr_simps [simp]: "ptr_regions NULL = {#}" "ptr_regions (Failed e) = {#}" "ptr_regions (Mapped x) = {#x#}"
    "ptr_sized NULL len" "ptr_sized (Failed e) len" "ptr_sized (Mapped x) len \<longleftrightarrow> snd x = len"
  by (simp_all add: ptr_regions_def ptr_sized_def)

lemma ring_mmap_holds:
  assumes "ring_mmap ks len p = (ptr, p')"
  shows "holds p' = (fst (holds p) + ptr_regions ptr, snd (holds p))" "ptr_sized ptr len"
    "ptr = NULL \<Longrightarrow> False"
  using assms unfolding ring_mmap_def holds_def
  by (auto split: prod.splits option.splits dest: sys_mmap_None sys_mmap_Some)

lemma ring_mmap_fresh:
  assumes "ring_mmap ks len p = (ptr, p')" "ring_mmap ks len' p' = (ptr', p'')" "ptr = Mapped x"
  shows "ptr' \<noteq> ptr"
  using assms unfolding ring_mmap_def sys_mmap_def Let_def by (auto split: if_splits)

lemma ring_munmap_holds:
  "ptr_sized ptr len \<Longrightarrow> holds (ring_munmap ptr len p) = (fst (holds p) - ptr_regions ptr, snd (holds p))"
  by (cases ptr) (auto simp: ring_munmap_def holds_def)

lemma close_fd_holds: "holds (close_fd fd p) = (fst (holds p), snd (holds p) - {#fd#})"
  by (simp add: close_fd_def holds_def)

lemma ring_munmap_NULL [simp]: "ring_munmap NULL len p = p"
  by (simp add: ring_munmap_def)

lemma ring_cleanup_eq:
  "ring_cleanup r m p =
     (let p = ring_munmap (rm_sqes_ptr m) (rm_sqes_sz m) p;
          p = (if rm_cq_ring_ptr m = rm_sq_ring_ptr m then p else ring_munmap (rm_cq_ring_ptr m) (rm_cq_ring_sz m) p);
          p = ring_munmap (rm_sq_ring_ptr m) (rm_sq_ring_sz m) p
      in if r_fd r \<ge> 0 then close_fd (r_fd r) p else p)"
  by (simp add: ring_cleanup_def Let_def)

lemma ring_cleanup_holds:
  assumes "maps_sized m" "r_fd r \<ge> 0"
  shows "holds (ring_cleanup r m p) = (fst (holds p) - maps_regions m, snd (holds p) - {#r_fd r#})"
proof (cases "rm_cq_ring_ptr m = rm_sq_ring_ptr m")
  case True
  then show ?thesis using assms
    by (simp add: ring_cleanup_eq Let_def close_fd_holds ring_munmap_holds maps_sized_def maps_regions_def)
next
  case False
  then show ?thesis using assms
    by (simp add: ring_cleanup_eq Let_def close_fd_holds ring_munmap_holds maps_sized_def maps_regions_def add.commute add.left_commute)
qed

lemma wire_fields:
  "wire_sq ks ptr params r = Some r' \<Longrightarrow> r_fd r' = r_fd r \<and> (\<exists>x. ptr = Mapped x)"
  "wire_cq ks ptr base params r = Some r' \<Longrightarrow> r_fd r' = r_fd r \<and> (\<exists>x. ptr = Mapped x)"
  by (auto simp: wire_sq_def wire_cq_def read_word_def split: map_ptr.splits Option.bind_splits)

text \<open>The resources a call of \<open>ring_init\<close> leaves behind.\<close>

lemma ring_init_holds:
  assumes "ring_init ks r m entries p = Some (rc, r', m', p')"
  shows "if rc < 0 then holds p' = holds p
    else holds p' = (fst (holds p) + maps_regions m', add_mset (r_fd r') (snd (holds p))) \<and> maps_sized m' \<and> r_fd r' \<ge> 0"
proof -
  obtain fd params where su: "ks_setup ks entries SETUP_FLAGS = (fd, params)"
    by (metis surj_pair)
  show ?thesis
  proof (cases "fd < 0")
    case True
    then show ?thesis using assms by (simp add: ring_init_def su)
  next
    case False
    define p0 where "p0 = p\<lparr>p_fds := fd # p_fds p\<rparr>"
    have h0: "holds p0 = (fst (holds p), add_mset fd (snd (holds p)))" by (simp add: p0_def holds_def)
    define r0 where "r0 = r\<lparr>r_fd := fd, r_sq_entries := up_sq_entries params, r_cq_entries := up_cq_entries params\<rparr>"
    define sq_sz where "sq_sz = unat (so_array (up_sq_off params)) + unat (up_sq_entries params) * 4"
    define cq_sz where "cq_sz = unat (co_cqes (up_cq_off params)) + unat (up_cq_entries params) * 16"
    define sqes_sz where "sqes_sz = unat (up_sq_entries params) * 64"
    define single where "single = (up_features params AND 1 \<noteq> 0)"
    obtain sq p1 where sq: "ring_mmap ks sq_sz p0 = (sq, p1)" by (metis surj_pair)
    obtain cq p2 where cq: "(if single then (sq, p1) else ring_mmap ks cq_sz p1) = (cq, p2)" by (metis surj_pair)
    obtain se p3 where se: "ring_mmap ks sqes_sz p2 = (se, p3)" by (metis surj_pair)
    note h1 = ring_mmap_holds [OF sq] and h3 = ring_mmap_holds [OF se]
    note run = assms [unfolded ring_init_def Let_def su prod.case, folded p0_def r0_def sq_sz_def cq_sz_def sqes_sz_def single_def,
        unfolded sq prod.case cq se]
    show ?thesis
    proof (cases "sq = Failed MAP_FAILED")
      case True
      then show ?thesis using run False h0 h1 by (auto simp: close_fd_holds)
    next
      case sqok: False
      then obtain r1 where r1: "wire_sq ks sq params r0 = Some r1" using run False by (auto split: option.splits)
      have h2: "cq = sq \<and> p2 = p1 \<or> holds p2 = (fst (holds p1) + ptr_regions cq, snd (holds p1)) \<and> ptr_sized cq cq_sz \<and> cq \<noteq> sq"
        using cq ring_mmap_holds [of ks cq_sz p1] ring_mmap_fresh [OF sq] wire_fields(1) [OF r1] by (auto split: if_splits)
      show ?thesis
      proof (cases "cq = Failed MAP_FAILED")
        case True
        then have "cq \<noteq> sq" using sqok by simp
        then show ?thesis using run False sqok r1 True h0 h1 h2 by (auto simp: close_fd_holds ring_munmap_holds)
      next
        case cqok: False
        then obtain r2 where r2: "wire_cq ks cq (if single then 0 else 0x8000000) params r1 = Some r2"
          using run False sqok r1 by (auto split: option.splits)
        have fd: "r_fd r2 = fd" using wire_fields(1) [OF r1] wire_fields(2) [OF r2] by (simp add: r0_def)
        show ?thesis
        proof (cases "se = Failed MAP_FAILED")
          case True
          then show ?thesis using run False sqok r1 cqok r2 h0 h1 h2 h3 
            by (cases "cq = sq") (auto simp: close_fd_holds ring_munmap_holds)
        next
          case seok: False
          have res: "rc = 0" "r_fd r' = fd" "p' = p3" "m' = m\<lparr>rm_sq_ring_sz := sq_sz, rm_cq_ring_sz := cq_sz, rm_sqes_sz := sqes_sz,
              rm_sq_ring_ptr := sq, rm_cq_ring_ptr := cq, rm_sqes_ptr := se\<rparr>"
            using run False sqok r1 cqok r2 seok fd by auto
          have "maps_regions m' = ptr_regions se + ptr_regions sq + (if cq = sq then {#} else ptr_regions cq)" "maps_sized m'"
            using h1(2) h3(2) h2 by (auto simp: res maps_regions_def maps_sized_def)
          then show ?thesis using False h0 h1(1) h2 h3(1) by (auto simp: res(1-3))
        qed
      qed
    qed
  qed
qed

section \<open>What setup guarantees\<close>

text \<open>C35: \<open>ring_init\<close> that fails has closed the ring and unmapped what it mapped, whichever call failed; after one that
  succeeds \<open>ring_cleanup\<close> gives back the mappings and the descriptor, each once, also when both queues
  share one mapping.\<close>

theorem ring_init_leak_free:
  assumes "ring_init ks r m entries p = Some (rc, r', m', p')"
  shows "if rc < 0 then holds p' = holds p else holds (ring_cleanup r' m' p') = holds p"
  using ring_init_holds [OF assms] by (auto simp: ring_cleanup_holds)

text \<open>A kernel with one mapping for both queues, and the index of the mapping that fails with an error number.\<close>

definition example_params :: "u32 \<Rightarrow> io_uring_params" where
  "example_params features = \<lparr>up_sq_entries = 16, up_cq_entries = 32, up_features = features,
     up_sq_off = \<lparr>so_head = 0, so_tail = 4, so_ring_mask = 16, so_ring_entries = 24, so_array = 640\<rparr>,
     up_cq_off = \<lparr>co_head = 8, co_tail = 12, co_ring_mask = 20, co_ring_entries = 28, co_cqes = 64\<rparr>\<rparr>"

definition example_kernel :: "u32 \<Rightarrow> nat \<Rightarrow> u64 \<Rightarrow> setup_kernel" where
  "example_kernel features failing errno = \<lparr>ks_setup = (\<lambda>_ _. (5, example_params features)), ks_mmap_ok = (\<lambda>n. n \<noteq> failing),
     ks_errno = (\<lambda>_. errno), ks_word = (\<lambda>_ off. if off = 16 then 15 else if off = 20 then 31 else 0),
     ks_cqe = (\<lambda>_ _. \<lparr>cqe_user_data = 0, cqe_res = 0, cqe_flags = 0\<rparr>), ks_sqe = (\<lambda>_. zero_sqe)\<rparr>"

definition no_maps :: ring_maps where
  "no_maps = \<lparr>rm_sq_ring_ptr = NULL, rm_sq_ring_sz = 0, rm_cq_ring_ptr = NULL, rm_cq_ring_sz = 0, rm_sqes_ptr = NULL, rm_sqes_sz = 0\<rparr>"

definition new_process :: process where
  "new_process = \<lparr>p_vm = \<lparr>vm_calls = 0, vm_live = []\<rparr>, p_fds = []\<rparr>"

lemmas example_run = ring_init_def example_kernel_def example_params_def new_process_def ring_mmap_def sys_mmap_def Let_def
  wire_sq_def wire_cq_def read_word_def MAP_FAILED_def no_maps_def

text \<open>The third mapping fails with \<^verbatim>\<open>EPERM\<close>, the one number that is \<open>MAP_FAILED\<close>: everything is given back.\<close>

theorem ring_init_leak_free_witness:
  "\<forall>r. \<exists>r' m' p'. ring_init (example_kernel 0 2 (- 1)) r no_maps 16 new_process = Some (- 12, r', m', p')
     \<and> holds p' = ({#}, {#})"
proof
  fix r
  have "\<exists>r' m' p'. ring_init (example_kernel 0 2 (- 1)) r no_maps 16 new_process = Some (- 12, r', m', p')"
    by (simp add: example_run)
  then obtain r' m' p' where run: "ring_init (example_kernel 0 2 (- 1)) r no_maps 16 new_process = Some (- 12, r', m', p')" by blast
  from ring_init_leak_free [OF run] have "holds p' = ({#}, {#})" by (simp add: holds_def new_process_def)
  then show "\<exists>r' m' p'. ring_init (example_kernel 0 2 (- 1)) r no_maps 16 new_process = Some (- 12, r', m', p') \<and> holds p' = ({#}, {#})"
    using run by blast
qed

text \<open>C36: \<open>ring_init\<close> compares a mapping with \<open>MAP_FAILED\<close>, which a raw system call returns only for \<^verbatim>\<open>EPERM\<close>.  With any
  other error number none of its mappings is noticed to fail: when the SQ ring is not mapped, or the CQ ring where it has a
  mapping of its own, the setup goes on through the invalid address; when the array of entries is not mapped, the last
  of the two or three mappings, it reports success without any entries.\<close>

theorem ring_init_missed_errors:
  assumes "fst (ks_setup ks entries SETUP_FLAGS) \<ge> 0" "\<forall>n. IS_ERR (ks_errno ks n) \<and> ks_errno ks n \<noteq> MAP_FAILED"
  shows "let n = vm_calls (p_vm p); single = (up_features (snd (ks_setup ks entries SETUP_FLAGS)) AND 1 \<noteq> 0)
    in (\<not> ks_mmap_ok ks n \<longrightarrow> ring_init ks r m entries p = None)
      \<and> (ks_mmap_ok ks n \<and> \<not> single \<and> \<not> ks_mmap_ok ks (n + 1) \<longrightarrow> ring_init ks r m entries p = None)
      \<and> (ks_mmap_ok ks n \<and> (if single then \<not> ks_mmap_ok ks (n + 1) else ks_mmap_ok ks (n + 1) \<and> \<not> ks_mmap_ok ks (n + 2))
         \<longrightarrow> (\<exists>r' m' p'. ring_init ks r m entries p = Some (0, r', m', p') \<and> r_sqes r' = [] \<and> (\<exists>e. rm_sqes_ptr m' = Failed e)))"
proof -
  obtain fd params where su: "ks_setup ks entries SETUP_FLAGS = (fd, params)" by (metis surj_pair)
  have ne: "ks_errno ks n \<noteq> MAP_FAILED" for n using assms(2) by blast
  show ?thesis using assms(1) ne
    by (auto simp: ring_init_def su ring_mmap_def sys_mmap_def Let_def wire_sq_def wire_cq_def read_word_def)
qed

text \<open>\<^verbatim>\<open>ENOMEM\<close> for each mapping in turn, with three mappings and with two.\<close>

theorem ring_init_missed_errors_witness:
  "\<forall>r. ring_init (example_kernel 0 0 (- 12)) r no_maps 16 new_process = None
     \<and> ring_init (example_kernel 0 1 (- 12)) r no_maps 16 new_process = None
     \<and> (\<exists>r' m' p'. ring_init (example_kernel 0 2 (- 12)) r no_maps 16 new_process = Some (0, r', m', p') \<and> r_sqes r' = [])
     \<and> (\<exists>r' m' p'. ring_init (example_kernel 1 1 (- 12)) r no_maps 16 new_process = Some (0, r', m', p') \<and> r_sqes r' = [])"
proof
  fix r
  have h: "fst (ks_setup (example_kernel f i (- 12)) 16 SETUP_FLAGS) \<ge> 0"
      "\<forall>n. IS_ERR (ks_errno (example_kernel f i (- 12)) n) \<and> ks_errno (example_kernel f i (- 12)) n \<noteq> MAP_FAILED" for f i
    by (simp_all add: example_kernel_def IS_ERR_def MAP_FAILED_def)
  note missed = ring_init_missed_errors [OF h, where p = new_process and r = r and m = no_maps, unfolded Let_def]
  have k: "ks_mmap_ok (example_kernel f i e) n \<longleftrightarrow> n \<noteq> i" "up_features (snd (ks_setup (example_kernel f i e) 16 SETUP_FLAGS)) = f"
    "vm_calls (p_vm new_process) = 0" for f i e n
    by (simp_all add: example_kernel_def example_params_def new_process_def)
  show "ring_init (example_kernel 0 0 (- 12)) r no_maps 16 new_process = None
     \<and> ring_init (example_kernel 0 1 (- 12)) r no_maps 16 new_process = None
     \<and> (\<exists>r' m' p'. ring_init (example_kernel 0 2 (- 12)) r no_maps 16 new_process = Some (0, r', m', p') \<and> r_sqes r' = [])
     \<and> (\<exists>r' m' p'. ring_init (example_kernel 1 1 (- 12)) r no_maps 16 new_process = Some (0, r', m', p') \<and> r_sqes r' = [])"
    using missed [of 0 0] missed [of 0 1] missed [of 0 2] missed [of 1 1] by (auto simp: k)
qed

text \<open>The rings of a kernel that keeps its promises are empty and well formed.\<close>

lemma ring_init_ready:
  assumes run: "ring_init ks r m entries p = Some (0, r', m', p')" and se: "rm_sqes_ptr m' = Mapped x"
    and params: "snd (ks_setup ks entries SETUP_FLAGS) = params" "up_sq_entries params = 2 ^ k" "k \<le> 15"
    and words: "ks_word ks 0 (unat (so_ring_mask (up_sq_off params))) = mask k"
      "ks_word ks 0 (unat (so_head (up_sq_off params))) = ks_word ks 0 (unat (so_tail (up_sq_off params)))"
      "\<forall>base. ks_word ks base (unat (co_head (up_cq_off params))) = ks_word ks base (unat (co_tail (up_cq_off params)))"
  shows "sq_wf r' \<and> sq_contents r' = [] \<and> cq_contents r' = []"
proof -
  obtain fd where su: "ks_setup ks entries SETUP_FLAGS = (fd, params)" using params(1) by (metis surj_pair snd_conv)
  have u: "unat ((2 :: u32) ^ k) = 2 ^ k" using params(3) by (intro unat_2_power) simp
  have fields: "r_sq_entries r' = 2 ^ k \<and> r_sq_mask r' = mask k \<and> length (r_sqes r') = 2 ^ k \<and> length (r_sq_array r') = 2 ^ k
      \<and> r_sq_tail_local r' = r_sq_head r' \<and> r_cq_head_local r' = r_cq_tail_local r'"
    using run se words params(2) u
    by (auto simp: ring_init_def su ring_mmap_def Let_def wire_sq_def wire_cq_def read_word_def
        split: if_splits prod.splits option.splits map_ptr.splits Option.bind_splits)
  then show ?thesis using params(3)
    by (auto simp: sq_wf_def sq_count_def ring_sq_pending_def sq_contents_def cq_contents_def cq_count_def)
qed

end
