(* ===== verification/Broker_Main.thy ===== *)
theory Broker_Main
  imports Slot_Correct Held Config_Load Ring_Init
begin

text \<open>
  The whole program, \<^verbatim>\<open>src/src/main.c\<close>: the configuration, the broker state, the rings, the listening socket,
  the signals, the event loop, and the release of all of it.  The kernel's answers are parameters; the log lines are
  left out.  A signal arrives after some number of iterations of the loop.
\<close>

section \<open>The listening socket\<close>

record sockaddr_in =
  sin_family :: u16
  sin_port :: u16
  sin_addr :: u32

definition htons :: "u16 \<Rightarrow> u16" where
  "htons x = drop_bit 8 x OR push_bit 8 x"

text \<open>The socket calls: each result may depend on the descriptor and the arguments.\<close>

record net_kernel =
  nk_socket :: int
  nk_reuseaddr :: "int \<Rightarrow> int"
  nk_bind :: "int \<Rightarrow> sockaddr_in \<Rightarrow> int"
  nk_listen :: "int \<Rightarrow> nat \<Rightarrow> int"

abbreviation (input) "AF_INET \<equiv> 2 :: u16"

definition LLMQ_LISTEN_BACKLOG :: nat where
  "LLMQ_LISTEN_BACKLOG = 4096"

definition create_listen_socket :: "net_kernel \<Rightarrow> u16 \<Rightarrow> process \<Rightarrow> int \<times> process" where
  "create_listen_socket nk port p =
     (let fd = nk_socket nk
      in if fd < 0 then (fd, p)
      else
      let p = p\<lparr>p_fds := fd # p_fds p\<rparr>; rc = nk_reuseaddr nk fd
      in if rc < 0 then (rc, close_fd fd p)
      else
      let addr = \<lparr>sin_family = AF_INET, sin_port = htons port, sin_addr = 0\<rparr>; rc = nk_bind nk fd addr
      in if rc < 0 then (rc, close_fd fd p)
      else
      let rc = nk_listen nk fd LLMQ_LISTEN_BACKLOG
      in if rc < 0 then (rc, close_fd fd p) else (fd, p))"

section \<open>Signals\<close>

datatype sig_action =
    Ignore_signal
  | Stop_broker

text \<open>The calls of \<^verbatim>\<open>sigaction\<close>, and what \<open>signal_handler\<close> does to the broker.\<close>

definition setup_signals :: "(nat \<times> sig_action) list" where
  "setup_signals = [(13, Ignore_signal), (2, Stop_broker), (15, Stop_broker)]"

definition signal_handler :: "nat \<Rightarrow> broker \<Rightarrow> broker" where
  "signal_handler sig b = (if map_of setup_signals sig = Some Stop_broker then b\<lparr>b_running := False\<rparr> else b)"

text \<open>\<open>broker_run\<close> with a signal after \<open>n\<close> iterations: the loop ends at its next test.  \<open>None\<close> when the model has no
  result: an operation that does not return, or a signal that does not stop the loop.\<close>

definition run_until_signal :: "nat \<Rightarrow> nat \<Rightarrow> kernel \<Rightarrow> broker \<Rightarrow> (int \<times> broker) option" where
  "run_until_signal n sig k b =
     (case broker_run n k b of
        None \<Rightarrow> None
      | Some (Inl ret) \<Rightarrow> Some ret
      | Some (Inr b) \<Rightarrow>
          (case broker_loop 1 k (signal_handler sig b) (n + 1) of Some (Inl ret) \<Rightarrow> Some ret | _ \<Rightarrow> None))"

section \<open>The program\<close>

definition zero_ring :: ring where
  "zero_ring = \<lparr>r_fd = 0, r_sq_head = 0, r_sq_tail = 0, r_sq_array = [], r_sq_mask = 0, r_sq_entries = 0, r_sq_tail_local = 0,
     r_sqes = [], r_cq_head = 0, r_cq_tail = 0, r_cq_mask = 0, r_cq_entries = 0, r_cq_head_local = 0, r_cq_tail_local = 0, r_cqes = []\<rparr>"

definition LLMQ_RECV_BUF_SIZE :: nat where
  "LLMQ_RECV_BUF_SIZE = 65536"

definition FD_MULTIPLIER :: nat where
  "FD_MULTIPLIER = 2"

record environment =
  e_args :: "string list"
  e_env :: "string list"
  e_read_file :: "string \<Rightarrow> string option"
  e_abi :: abi
  e_setup :: setup_kernel
  e_net :: net_kernel
  e_kernel :: kernel
  e_iterations :: nat
  e_signal :: nat

text \<open>\<open>memset(&b, 0, sizeof b)\<close> on the fields that \<open>broker_init\<close> does not set; nothing has been called yet.\<close>

definition clear_broker :: "broker \<Rightarrow> broker" where
  "clear_broker b = b\<lparr>b_ring := zero_ring, b_listen_fd := 0, b_running := False, b_port := 0, b_now := 0, b_last_timeout_sweep := 0,
     b_accept_pending := 0, b_accepts := 0, b_bytes_recv := 0, b_bytes_sent := 0, b_msgs_published := 0, b_msgs_dropped := 0,
     b_drops_inflight_full := 0, b_drops_msg_pool_empty := 0, b_drops_sq_full := 0, b_drops_send_failed := 0, b_drops_resp_full := 0,
     b_drops_egress_full := 0, b_stolen_buffers := 0, b_recv_retries := 0, b_egress_retries := 0, b_calls := []\<rparr>"

definition release_broker :: "environment \<Rightarrow> broker \<Rightarrow> process \<Rightarrow> process" where
  "release_broker e b p = p\<lparr>p_vm := snd (broker_cleanup (e_abi e) b (p_vm p))\<rparr>"

text \<open>From the arguments to the call of \<open>setup_signals\<close>: an exit code, or the broker, its rings' mappings and the
  process.  \<open>cfg0\<close> and \<open>b0\<close> are the contents of the stack.\<close>

definition broker_start ::
    "environment \<Rightarrow> broker_config \<Rightarrow> broker \<Rightarrow> process \<Rightarrow> (int \<times> process + broker \<times> ring_maps \<times> process) option" where
  "broker_start e cfg0 b0 p =
     (case broker_config_parse (e_read_file e) cfg0 (e_args e) (e_env e) of
        Inl rc \<Rightarrow> Some (Inl (if rc < 0 then 1 else 0, p))
      | Inr cfg \<Rightarrow>
     let max_conns = unat (limits_max_conns cfg)
     in case broker_init (ks_mmap_ok (e_setup e)) (e_abi e) (clear_broker b0) max_conns (max_conns * FD_MULTIPLIER)
          (unat (client_max_inflight cfg)) LLMQ_RECV_BUF_SIZE (unat (limits_msg_pool_size cfg))
          (unat (client_egress_capacity cfg)) (p_vm p) of
       None \<Rightarrow> None
     | Some (None, v) \<Rightarrow> Some (Inl (1, p\<lparr>p_vm := v\<rparr>))
     | Some (Some b, v) \<Rightarrow>
     let p = p\<lparr>p_vm := v\<rparr>;
         b = b\<lparr>b_port := network_port cfg\<rparr>
     in case ring_init (e_setup e) (b_ring b) no_maps (limits_ring_entries cfg) p of
       None \<Rightarrow> None
     | Some (rc, r, m, p) \<Rightarrow>
     let b = b\<lparr>b_ring := r\<rparr>
     in if rc < 0 then Some (Inl (1, release_broker e b p))
     else
     let (fd, p) = create_listen_socket (e_net e) (network_port cfg) p;
         b = b\<lparr>b_listen_fd := fd\<rparr>
     in if fd < 0 then Some (Inl (1, release_broker e b (ring_cleanup (b_ring b) m p)))
     else Some (Inr (b, m, p)))"

definition broker_main :: "environment \<Rightarrow> broker_config \<Rightarrow> broker \<Rightarrow> process \<Rightarrow> (int \<times> process) option" where
  "broker_main e cfg0 b0 p =
     (case broker_start e cfg0 b0 p of
        None \<Rightarrow> None
      | Some (Inl ret) \<Rightarrow> Some ret
      | Some (Inr (b, m, p)) \<Rightarrow>
          (case run_until_signal (e_iterations e) (e_signal e) (e_kernel e) b of
             None \<Rightarrow> None
           | Some (rc, b) \<Rightarrow>
               Some (if rc < 0 then 1 else 0, release_broker e b (ring_cleanup (b_ring b) m (close_fd (b_listen_fd b) p)))))"

section \<open>Nothing is left behind\<close>

lemma create_listen_socket_holds:
  assumes "create_listen_socket nk port p = (fd, p')"
  shows "holds p' = (if fd < 0 then holds p else (fst (holds p), add_mset fd (snd (holds p))))"
  using assms by (auto simp: create_listen_socket_def Let_def holds_def close_fd_def split: if_splits)

lemma held_signal [simp]: "held (signal_handler sig b) = held b"
  by (simp add: signal_handler_def)

lemma held_run_until_signal: "keeps_fd k \<Longrightarrow> run_until_signal n sig k b = Some (rc, b') \<Longrightarrow> held b' = held b"
proof -
  assume k: "keeps_fd k" and r: "run_until_signal n sig k b = Some (rc, b')"
  then obtain x where x: "broker_run n k b = Some x" by (auto simp: run_until_signal_def split: option.splits)
  have h: "held (outcome x) = held b" by (rule resources.view_run [OF k x])
  show ?thesis
  proof (cases x)
    case (Inl ret)
    then show ?thesis using r x h by (simp add: run_until_signal_def)
  next
    case (Inr b1)
    then have "broker_loop 1 k (signal_handler sig b1) (n + 1) = Some (Inl (rc, b'))"
      using r x by (simp add: run_until_signal_def del: broker_loop.simps split: option.splits sum.splits)
    from resources.view_loop [OF k this] show ?thesis using h Inr by simp
  qed
qed

lemma regions_updates [simp]:
  "broker_regions (b\<lparr>b_port := x\<rparr>) = broker_regions b" "broker_regions (b\<lparr>b_ring := r\<rparr>) = broker_regions b"
  "broker_regions (b\<lparr>b_listen_fd := y\<rparr>) = broker_regions b" "broker_sized a (b\<lparr>b_port := x\<rparr>) = broker_sized a b"
  "broker_sized a (b\<lparr>b_ring := r\<rparr>) = broker_sized a b" "broker_sized a (b\<lparr>b_listen_fd := y\<rparr>) = broker_sized a b"
  by (rule mappings_regions; simp add: mappings_def)+

lemma release_broker_holds:
  "broker_sized (e_abi e) b \<Longrightarrow> holds (release_broker e b p) = (fst (holds p) - broker_regions b, snd (holds p))"
  using broker_cleanup_live [of "e_abi e" b "p_vm p"] by (simp add: holds_def release_broker_def)

lemma broker_start_holds:
  assumes "broker_start e cfg0 b0 p = Some r"
  shows "case r of Inl (ec, p') \<Rightarrow> ec \<in> {0, 1} \<and> holds p' = holds p
    | Inr (b, m, p') \<Rightarrow> holds p' = (fst (holds p) + broker_regions b + maps_regions m,
          add_mset (b_listen_fd b) (add_mset (r_fd (b_ring b)) (snd (holds p))))
        \<and> broker_sized (e_abi e) b \<and> maps_sized m \<and> r_fd (b_ring b) \<ge> 0 \<and> b_listen_fd b \<ge> 0"
proof (cases "broker_config_parse (e_read_file e) cfg0 (e_args e) (e_env e)")
  case (Inl rc)
  then show ?thesis using assms by (auto simp: broker_start_def)
next
  case (Inr cfg)
  define mc where "mc = unat (limits_max_conns cfg)"
  note run = assms [unfolded broker_start_def Inr sum.case Let_def, folded mc_def]
  obtain bo v where init: "broker_init (ks_mmap_ok (e_setup e)) (e_abi e) (clear_broker b0) mc (mc * FD_MULTIPLIER)
          (unat (client_max_inflight cfg)) LLMQ_RECV_BUF_SIZE (unat (limits_msg_pool_size cfg))
          (unat (client_egress_capacity cfg)) (p_vm p) = Some (bo, v)"
    using run by (auto split: option.splits)
  note live = broker_init_live [OF init]
  show ?thesis
  proof (cases bo)
    case None
    then show ?thesis using run init live by (auto simp: holds_def)
  next
    case (Some b)
    have l: "mset (vm_live v) = mset (vm_live (p_vm p)) + broker_regions b" "broker_sized (e_abi e) b"
      using live Some by simp_all
    note run = run [unfolded init Some option.case prod.case]
    obtain rc ri m p2 where ring: "ring_init (e_setup e) (b_ring (b\<lparr>b_port := network_port cfg\<rparr>)) no_maps (limits_ring_entries cfg) (p\<lparr>p_vm := v\<rparr>)
        = Some (rc, ri, m, p2)"
      using run by (auto split: option.splits)
    have p1: "holds (p\<lparr>p_vm := v\<rparr>) = (fst (holds p) + broker_regions b, snd (holds p))" using l by (simp add: holds_def)
    note rh = ring_init_holds [OF ring]
    define b1 where "b1 = b\<lparr>b_port := network_port cfg, b_ring := ri\<rparr>"
    have b1: "broker_regions b1 = broker_regions b" "broker_sized (e_abi e) b1" "b_ring b1 = ri" using l(2) by (simp_all add: b1_def)
    note run = run [unfolded ring option.case prod.case, folded b1_def]
    show ?thesis
    proof (cases "rc < 0")
      case True
      then show ?thesis using run rh p1 b1 by (auto simp: release_broker_holds)
    next
      case False
      obtain fd p3 where sock: "create_listen_socket (e_net e) (network_port cfg) p2 = (fd, p3)" by (metis surj_pair)
      note run = run [unfolded sock prod.case] and sh = create_listen_socket_holds [OF sock]
      show ?thesis
      proof (cases "fd < 0")
        case True
        then show ?thesis using run False rh p1 b1 sh by (auto simp: release_broker_holds ring_cleanup_holds)
      next
        case fd: False
        then show ?thesis using run False rh p1 b1 sh by (auto simp: b1_def)
      qed
    qed
  qed
qed

text \<open>C14: a run of the program that reaches its exit, wherever it stopped and whatever the clients did until the signal,
  has unmapped every mapping it made, those of the broker and those of the rings, and has closed the descriptor of the
  rings and the listening socket; its exit code is 0 or 1.  Runs that end in an access through a mapping that failed have
  no result here.  The descriptors of accepted connections are not among these: requests in the rings open and close
  them, and those still open at the exit are left to the kernel.  The configuration file is read by a parameter.\<close>

theorem broker_main_releases:
  assumes "keeps_fd (e_kernel e)" "broker_main e cfg0 b0 p = Some (ec, p')"
  shows "holds p' = holds p \<and> ec \<in> {0, 1}"
proof -
  obtain st where st: "broker_start e cfg0 b0 p = Some st" using assms(2) by (auto simp: broker_main_def split: option.splits)
  note h = broker_start_holds [OF st]
  show ?thesis
  proof (cases st)
    case (Inl ret)
    then show ?thesis using assms(2) st h by (auto simp: broker_main_def)
  next
    case (Inr x)
    obtain b m p1 where x: "x = (b, m, p1)" by (cases x) auto
    obtain rc b' where run: "run_until_signal (e_iterations e) (e_signal e) (e_kernel e) b = Some (rc, b')"
      using assms(2) st Inr x by (auto simp: broker_main_def split: option.splits)
    have k: "mappings b' = mappings b" "r_fd (b_ring b') = r_fd (b_ring b)" "b_listen_fd b' = b_listen_fd b"
      using held_run_until_signal [OF assms(1) run] by (simp_all add: held_def)
    have p': "p' = release_broker e b' (ring_cleanup (b_ring b') m (close_fd (b_listen_fd b') p1))" "ec \<in> {0, 1}"
      using assms(2) st Inr x run by (auto simp: broker_main_def)
    have s: "broker_sized (e_abi e) b'" using h Inr x mappings_regions(2) [OF k(1)] by simp
    show ?thesis using h Inr x k p' s mappings_regions(1) [OF k(1)]
      by (auto simp: release_broker_holds ring_cleanup_holds close_fd_holds)
  qed
qed

section \<open>Ready to run\<close>

lemma create_listen_socket_bound:
  assumes "create_listen_socket nk port p = (fd, p')" "fd \<ge> 0"
  shows "nk_bind nk fd \<lparr>sin_family = AF_INET, sin_port = htons port, sin_addr = 0\<rparr> \<ge> 0 \<and> nk_listen nk fd LLMQ_LISTEN_BACKLOG \<ge> 0"
  using assms by (auto simp: create_listen_socket_def Let_def split: if_splits)

lemma broker_startE:
  assumes "broker_start e cfg0 b0 p = Some (Inr (b, m, p'))"
  obtains cfg b1 v ri fd p2 p3 where
    "broker_config_parse (e_read_file e) cfg0 (e_args e) (e_env e) = Inr cfg" "config_ok cfg"
    "broker_init (ks_mmap_ok (e_setup e)) (e_abi e) (clear_broker b0) (unat (limits_max_conns cfg))
       (unat (limits_max_conns cfg) * FD_MULTIPLIER) (unat (client_max_inflight cfg)) LLMQ_RECV_BUF_SIZE
       (unat (limits_msg_pool_size cfg)) (unat (client_egress_capacity cfg)) (p_vm p) = Some (Some b1, v)"
    "b = b1\<lparr>b_port := network_port cfg, b_ring := ri, b_listen_fd := fd\<rparr>"
    "create_listen_socket (e_net e) (network_port cfg) p2 = (fd, p3)" "fd \<ge> 0"
proof -
  obtain cfg where parse: "broker_config_parse (e_read_file e) cfg0 (e_args e) (e_env e) = Inr cfg"
    using assms by (auto simp: broker_start_def split: sum.splits)
  define mc where "mc = unat (limits_max_conns cfg)"
  note run = assms [unfolded broker_start_def parse sum.case Let_def, folded mc_def]
  obtain b1 v where init: "broker_init (ks_mmap_ok (e_setup e)) (e_abi e) (clear_broker b0) mc (mc * FD_MULTIPLIER)
          (unat (client_max_inflight cfg)) LLMQ_RECV_BUF_SIZE (unat (limits_msg_pool_size cfg))
          (unat (client_egress_capacity cfg)) (p_vm p) = Some (Some b1, v)"
    using run by (auto split: option.splits)
  note run = run [unfolded init option.case prod.case]
  obtain ri fd p2 p3 where "b = b1\<lparr>b_port := network_port cfg, b_ring := ri, b_listen_fd := fd\<rparr>"
    "create_listen_socket (e_net e) (network_port cfg) p2 = (fd, p3)" "fd \<ge> 0"
    using run by (auto split: option.splits prod.splits if_splits)
  then show thesis using that parse parse_config_ok [OF parse] init by (auto simp: mc_def)
qed

text \<open>C15: a start that succeeds has validated its configuration, listens on the configured port, and hands the event loop as many free
  slots as configured, each with the configured in-flight table and egress ring; from there the connections stay consistent in
  every state the loop reaches.\<close>

theorem startup_ready:
  assumes "broker_start e cfg0 b0 p = Some (Inr (b, m, p'))"
  shows "\<exists>cfg. broker_config_parse (e_read_file e) cfg0 (e_args e) (e_env e) = Inr cfg \<and> config_ok cfg
    \<and> nk_bind (e_net e) (b_listen_fd b) \<lparr>sin_family = AF_INET, sin_port = htons (network_port cfg), sin_addr = 0\<rparr> \<ge> 0
    \<and> nk_listen (e_net e) (b_listen_fd b) LLMQ_LISTEN_BACKLOG \<ge> 0
    \<and> b_clients b = map (initial_client (unat (limits_max_conns cfg)) (unat (client_max_inflight cfg)) (unat (client_egress_capacity cfg)))
        [0..<unat (limits_max_conns cfg)]
    \<and> (\<forall>b'. (loop_step (e_kernel e))\<^sup>*\<^sup>* b b' \<longrightarrow> connections_ok b')"
proof -
  obtain cfg b1 v ri fd p2 p3 where cfg: "broker_config_parse (e_read_file e) cfg0 (e_args e) (e_env e) = Inr cfg" "config_ok cfg"
    and init: "broker_init (ks_mmap_ok (e_setup e)) (e_abi e) (clear_broker b0) (unat (limits_max_conns cfg))
       (unat (limits_max_conns cfg) * FD_MULTIPLIER) (unat (client_max_inflight cfg)) LLMQ_RECV_BUF_SIZE
       (unat (limits_msg_pool_size cfg)) (unat (client_egress_capacity cfg)) (p_vm p) = Some (Some b1, v)"
    and b: "b = b1\<lparr>b_port := network_port cfg, b_ring := ri, b_listen_fd := fd\<rparr>"
    and sock: "create_listen_socket (e_net e) (network_port cfg) p2 = (fd, p3)" "fd \<ge> 0"
    by (rule broker_startE [OF assms])
  have cl: "b_clients b = map (initial_client (unat (limits_max_conns cfg)) (unat (client_max_inflight cfg)) (unat (client_egress_capacity cfg)))
      [0..<unat (limits_max_conns cfg)]"
    using init by (auto elim!: broker_init_SomeE simp: b)
  have "unat (limits_max_conns cfg) \<le> 65536" using cfg(2) by (simp add: config_ok_def)
  note R = slots_wf_table [OF broker_init_slots(1) [OF init this]]
  have "tab b = tab b1" by (simp add: tab_def b)
  note R = table_rel_cong [OF this R]
  have "connections_ok b'" if "(loop_step (e_kernel e))\<^sup>*\<^sup>* b b'" for b'
    by (rule loop_steps_table [OF that R]) (rule table_rel_connections)
  then show ?thesis using cfg cl create_listen_socket_bound [OF sock] by (auto simp: b)
qed

section \<open>A run\<close>

text \<open>A kernel that grants everything: \<open>llmq --port 8883\<close> starts and is stopped at once by \<^verbatim>\<open>SIGTERM\<close>.\<close>

definition granting_environment :: environment where
  "granting_environment = \<lparr>e_args = [''--port'', ''8883''], e_env = [''BROKER_NETWORK_PORT=99''], e_read_file = (\<lambda>_. None),
     e_abi = \<lparr>sizeof_client_slot = 1200, sizeof_pending_msg = 1032\<rparr>, e_setup = (example_kernel 0 0 (- 12))\<lparr>ks_mmap_ok := (\<lambda>_. True)\<rparr>,
     e_net = \<lparr>nk_socket = 7, nk_reuseaddr = (\<lambda>_. 0), nk_bind = (\<lambda>_ _. 0), nk_listen = (\<lambda>_ _. 0)\<rparr>,
     e_kernel = idle_kernel, e_iterations = 0, e_signal = 15\<rparr>"

lemma granting_hashmap:
  assumes "mc \<le> 65536"
  shows "\<exists>h v'. hashmap_init (\<lambda>_. True) (of_nat (mc * 2)) v = Some (Some h, v')"
proof -
  have "unat (of_nat (mc * 2) :: u32) = mc * 2" using assms by (subst unat_of_nat_mod) simp
  then have "unat (of_nat (mc * 2) :: u32) \<le> 2 ^ 31" using assms by simp
  then have "(of_nat (mc * 2) :: u32) \<le> 2 ^ 31" by (simp only: word_le_nat_alt unat_2_power, simp)
  then obtain m where "hashmap_round_up 30 16 (of_nat (mc * 2)) = Some (2 ^ m)"
    using hashmap_round_up_power [of "of_nat (mc * 2)" 4 30] by auto
  then show ?thesis by (simp add: hashmap_init_def HASHMAP_MIN_CAPACITY_def sys_mmap_def Let_def)
qed

lemma granting_init:
  assumes "mc \<le> 65536" "ec \<noteq> 0" "ec AND (ec - 1) = 0"
  shows "\<exists>b v. broker_init (\<lambda>_. True) a b0 mc mf mi rs ms ec v0 = Some (Some b, v)"
proof -
  have m: "sys_mmap (\<lambda>_. True) len v = (Some (vm_calls v, len), v\<lparr>vm_calls := vm_calls v + 1, vm_live := (vm_calls v, len) # vm_live v\<rparr>)" for len v
    by (simp add: sys_mmap_def Let_def)
  have "\<forall>v. \<exists>h v'. hashmap_init (\<lambda>_. True) (of_nat (mc * 2)) v = Some (Some h, v')" using granting_hashmap [OF assms(1)] by blast
  then obtain f g where h: "hashmap_init (\<lambda>_. True) (of_nat (mc * 2)) v = Some (Some (f v), g v)" for v by metis
  show ?thesis using assms(2,3) unfolding broker_init_def Let_def m h by (simp add: m buf_pool_init_def msg_pool_init_def)
qed

lemma granting_parse: "broker_config_parse (e_read_file granting_environment) cfg0 (e_args granting_environment) (e_env granting_environment)
    = Inr \<lparr>network_port = 8883, network_backlog = 128, limits_max_conns = 4096, limits_max_sessions = 4096, limits_ring_entries = 8192,
     limits_msg_pool_size = 4096, client_max_inflight = 256, client_egress_capacity = 2048, debug_log_level = 2\<rparr>"
  using parse_port_example by (simp add: granting_environment_def)

lemma granting_ring:
  "\<exists>r' m' p'. ring_init ((example_kernel 0 0 (- 12))\<lparr>ks_mmap_ok := (\<lambda>_. True)\<rparr>) r no_maps n p = Some (0, r', m', p')"
  by (simp add: ring_init_def example_kernel_def example_params_def ring_mmap_def sys_mmap_def Let_def wire_sq_def wire_cq_def read_word_def MAP_FAILED_def)

lemma granting_start: "\<exists>b m p'. broker_start granting_environment cfg0 b0 p = Some (Inr (b, m, p'))"
proof -
  obtain b v where init: "broker_init (\<lambda>_. True) (e_abi granting_environment) (clear_broker b0) 4096 8192 256 65536 4096 2048 (p_vm p) = Some (Some b, v)"
    using granting_init [of 4096 2048 "e_abi granting_environment" "clear_broker b0" 8192 256 65536 4096 "p_vm p"] by auto
  obtain r' m' p' where ring: "ring_init (e_setup granting_environment) (b_ring (b\<lparr>b_port := 8883\<rparr>)) no_maps 8192 (p\<lparr>p_vm := v\<rparr>) = Some (0, r', m', p')"
    using granting_ring [of "b_ring (b\<lparr>b_port := 8883\<rparr>)" 8192 "p\<lparr>p_vm := v\<rparr>"] by (auto simp: granting_environment_def)
  have k: "ks_mmap_ok (e_setup granting_environment) = (\<lambda>_. True)" by (simp add: granting_environment_def)
  show ?thesis
    using init ring unfolding broker_start_def granting_parse sum.case Let_def k
    by (simp add: FD_MULTIPLIER_def LLMQ_RECV_BUF_SIZE_def create_listen_socket_def granting_environment_def)
qed

lemma idle_keeps_fd: "keeps_fd idle_kernel"
  by (simp add: keeps_fd_def idle_kernel_def)

theorem startup_ready_witness:
  "\<forall>cfg0 b0 p. \<exists>b m p'. broker_start granting_environment cfg0 b0 p = Some (Inr (b, m, p')) \<and> length (b_clients b) = 4096 \<and> connections_ok b"
proof (intro allI)
  fix cfg0 b0 p
  obtain b m p' where st: "broker_start granting_environment cfg0 b0 p = Some (Inr (b, m, p'))" using granting_start by blast
  from startup_ready [OF st] have "length (b_clients b) = 4096 \<and> connections_ok b" unfolding granting_parse by auto
  then show "\<exists>b m p'. broker_start granting_environment cfg0 b0 p = Some (Inr (b, m, p')) \<and> length (b_clients b) = 4096 \<and> connections_ok b"
    using st by blast
qed

theorem broker_main_releases_witness:
  "\<forall>cfg0 b0. \<exists>p'. broker_main granting_environment cfg0 b0 new_process = Some (0, p') \<and> holds p' = ({#}, {#})"
proof (intro allI)
  fix cfg0 b0
  obtain b m p1 where st: "broker_start granting_environment cfg0 b0 new_process = Some (Inr (b, m, p1))" using granting_start by blast
  have "\<exists>b'. run_until_signal (e_iterations granting_environment) (e_signal granting_environment) (e_kernel granting_environment) b = Some (0, b')"
    by (simp add: granting_environment_def run_until_signal_def broker_run_def signal_handler_def setup_signals_def Let_def)
  then obtain p' where run: "broker_main granting_environment cfg0 b0 new_process = Some (0, p')"
    by (auto simp: broker_main_def st)
  have "keeps_fd (e_kernel granting_environment)" using idle_keeps_fd by (simp add: granting_environment_def)
  from broker_main_releases [OF this run] have "holds p' = ({#}, {#})" by (simp add: holds_def new_process_def)
  then show "\<exists>p'. broker_main granting_environment cfg0 b0 new_process = Some (0, p') \<and> holds p' = ({#}, {#})" using run by blast
qed

end
