(* ===== verification/Delivery.thy ===== *)
theory Delivery
  imports Egress_Frames Fsm Conn
begin

text \<open>
  What one delivery does, \<open>fsm_sub_start_delivery\<close> of \<^verbatim>\<open>src/src/broker/mqtt_fsm.h\<close>: the message is queued behind the
  segments of its subscriber, and the queues of the other clients stay as they are.
\<close>

section \<open>A flush keeps the queue\<close>

text \<open>The queue of the second client is that of the first with its oldest segments gone; a flush may number the others.\<close>

definition queue_tail :: "nat \<Rightarrow> client_slot \<Rightarrow> client_slot \<Rightarrow> bool" where
  "queue_tail k c c' \<longleftrightarrow> egress_ring_wf c' \<and> list_all2 same_but_pid (drop k (egress_contents c)) (egress_contents c')"

lemma queue_tail_refl: "egress_ring_wf c \<Longrightarrow> queue_tail 0 c c"
  by (simp add: queue_tail_def list_all2_refl)

lemma queue_tail_trans:
  assumes "queue_tail j c c'" "queue_tail k c' c''"
  shows "queue_tail (j + k) c c''"
proof -
  have "list_all2 same_but_pid (drop k (drop j (egress_contents c))) (drop k (egress_contents c'))"
    using assms(1) unfolding queue_tail_def by (blast intro: list_all2_dropI)
  moreover have "list_all2 same_but_pid (drop k (egress_contents c')) (egress_contents c'')"
    using assms(2) by (simp add: queue_tail_def)
  ultimately have "list_all2 same_but_pid (drop k (drop j (egress_contents c))) (egress_contents c'')"
    by (rule list_all2_trans [rotated]) (rule same_but_pid_trans)
  then show ?thesis using assms(2) by (simp add: queue_tail_def add.commute)
qed

lemma queue_tail_cong:
  assumes "egress_contents c1 = egress_contents c'" "egress_ring_wf c1 = egress_ring_wf c'"
  shows "queue_tail k c c1 = queue_tail k c c'"
  by (simp add: queue_tail_def assms)

lemma core_contents:
  "client_core c' = client_core c \<Longrightarrow> c_egress c' = c_egress c \<Longrightarrow> egress_contents c' = egress_contents c \<and> egress_ring_wf c' = egress_ring_wf c"
  by (simp add: client_core_def egress_contents_def egress_ring_wf_def)

lemma add_publish_egress: "client_core (fb_client (add_publish f msg seg)) = client_core (fb_client f)"
    "c_egress (fb_client (add_publish f msg seg)) = c_egress (fb_client f)"
  by (simp_all add: add_publish_def add_iov_def client_core_def Let_def)

lemma batch_round_queue:
  assumes wf: "egress_ring_wf (fb_client f)" and i: "i < c_egress_count (fb_client f)"
    and run: "batch_round mp rp now f i = Next f'"
  shows "queue_tail 0 (fb_client f) (fb_client f')"
proof -
  let ?c = "fb_client f" and ?seg = "c_egress (fb_client f) ! seg_index (fb_client f) i"
  have ctrl: "client_core (fb_client g) = client_core ?c \<and> c_egress (fb_client g) = c_egress ?c"
    if "batch_ctrl f i ?seg = Next g" for g
    using that by (auto simp: batch_ctrl_def add_iov_def client_core_def Let_def split: if_splits)
  have pub: "\<exists>c seg. client_core c = client_core ?c \<and> c_egress c = c_egress ?c \<and> same_but_pid ?seg seg
      \<and> client_core (fb_client f') = client_core c \<and> c_egress (fb_client f') = (c_egress c)[seg_index ?c i := seg]"
    if p: "batch_publish mp rp now f i ?seg = Next f'"
  proof (cases "seg_qos ?seg > 0 \<and> seg_packet_id ?seg = 0")
    case False
    then obtain m where "f' = add_publish f m ?seg"
      using p by (auto simp: batch_publish_def Let_def split: if_splits option.splits)
    then show ?thesis
      using add_publish_egress [of f m ?seg] by (intro exI [of _ ?c] exI [of _ ?seg]) simp
  next
    case True
    then obtain m a pid c where al: "client_inflight_alloc ?c (seg_qos ?seg) (seg_msg_idx ?seg) (now + LLMQ_INFLIGHT_TIMEOUT_MS) = (Some (a, pid), c)"
      and f': "f' = add_publish (f\<lparr>fb_client := c\<lparr>c_egress := (c_egress c)[seg_index c i := ?seg\<lparr>seg_packet_id := pid\<rparr>]\<rparr>\<rparr>) m (?seg\<lparr>seg_packet_id := pid\<rparr>)"
      using p by (auto simp: batch_publish_def Let_def split: if_splits option.splits prod.splits)
    note same = inflight_alloc_same [OF al]
    have "seg_index c i = seg_index ?c i" using same(1) by (simp add: seg_index_def client_core_def)
    moreover have "same_but_pid ?seg (?seg\<lparr>seg_packet_id := pid\<rparr>)" by (auto simp: same_but_pid_def)
    ultimately show ?thesis
      using same(1,2) by (intro exI [of _ c] exI [of _ "?seg\<lparr>seg_packet_id := pid\<rparr>"])
        (simp add: f' add_publish_egress, simp add: client_core_def)
  qed
  have at: "egress_contents ?c ! i = ?seg" by (rule egress_contents_nth(1) [OF wf i])
  show ?thesis
  proof (cases "seg_kind ?seg = SEG_CTRL")
    case True
    then have "client_core (fb_client f') = client_core ?c \<and> c_egress (fb_client f') = c_egress ?c"
      using run ctrl by (auto simp: batch_round_def Let_def split: if_splits)
    then show ?thesis using core_contents queue_tail_refl [OF wf] queue_tail_cong by blast
  next
    case False
    then have "batch_publish mp rp now f i ?seg = Next f'"
      using run by (auto simp: batch_round_def Let_def split: if_splits)
    then obtain c seg where c: "client_core c = client_core ?c" "c_egress c = c_egress ?c" "same_but_pid ?seg seg"
        "client_core (fb_client f') = client_core c" "c_egress (fb_client f') = (c_egress c)[seg_index ?c i := seg]"
      using pub by blast
    let ?c1 = "?c\<lparr>c_egress := (c_egress ?c)[seg_index ?c i := seg]\<rparr>"
    have "egress_contents (fb_client f') = egress_contents ?c1 \<and> egress_ring_wf (fb_client f') = egress_ring_wf ?c1"
      by (rule core_contents) (use c in \<open>simp_all add: client_core_def\<close>)
    moreover have "egress_contents ?c1 = (egress_contents ?c)[i := seg]" "egress_ring_wf ?c1"
      by (rule egress_contents_update [OF wf i])+
    moreover have "list_all2 same_but_pid (egress_contents ?c) ((egress_contents ?c)[i := seg])"
      using c(3) i at by (auto simp: list_all2_conv_all_nth nth_list_update)
    ultimately show ?thesis by (simp add: queue_tail_def)
  qed
qed

lemma batch_loop_queue:
  "egress_ring_wf (fb_client f) \<Longrightarrow> batch_loop mp rp now n f = (noop, f') \<Longrightarrow> queue_tail 0 (fb_client f) (fb_client f')"
proof (induction n arbitrary: f)
  case 0
  then show ?case using queue_tail_refl by simp
next
  case (Suc n)
  note wf = Suc.prems(1) and run = Suc.prems(2)
  show ?case
  proof (cases "EGRESS_BATCH_MAX - Suc n < c_egress_count (fb_client f)")
    case True
    show ?thesis
    proof (cases "batch_round mp rp now f (EGRESS_BATCH_MAX - Suc n)")
      case (Next f1)
      have one: "queue_tail 0 (fb_client f) (fb_client f1)" by (rule batch_round_queue [OF wf True Next])
      then have "egress_ring_wf (fb_client f1)" by (simp add: queue_tail_def)
      from Suc.IH [OF this] run Next True have "queue_tail 0 (fb_client f1) (fb_client f')" by (simp add: Let_def)
      from queue_tail_trans [OF one this] show ?thesis by simp
    qed (use run True queue_tail_refl [OF wf] in \<open>auto simp: Let_def\<close>)
  qed (use run queue_tail_refl [OF wf] in \<open>auto simp: Let_def\<close>)
qed


text \<open>The pre-clean stops at a segment that is not to be discarded.\<close>

lemma egress_clean_discards:
  "egress_ring_wf (client_at b s) \<Longrightarrow> s < length (b_clients b) \<Longrightarrow>
   \<exists>k. popped b s k (egress_clean n b s) \<and> (\<forall>i<k. seg_discarded (client_at b s) (egress_contents (client_at b s) ! i))"
proof (induction n b s rule: egress_clean.induct)
  case (1 b s)
  then show ?case using popped_0 by (intro exI [of _ 0]) simp
next
  case (2 n b s)
  let ?c = "client_at b s"
  show ?case
  proof (cases "c_egress_count ?c > 0 \<and> seg_discarded ?c (egress_head ?c)")
    case False
    then show ?thesis using popped_0 [OF 2(2)] by (intro exI [of _ 0]) (auto simp: Let_def)
  next
    case True
    let ?b = "egress_discard_head b s (egress_head ?c)"
    have one: "popped b s 1 ?b" using discard_popped 2(2,3) True by blast
    then have "egress_ring_wf (client_at ?b s)" "s < length (b_clients ?b)" using 2(3) by (simp_all add: popped_def)
    from 2(1) [OF refl True this] obtain k where k: "popped ?b s k (egress_clean n ?b s)"
        "\<forall>i<k. seg_discarded (client_at ?b s) (egress_contents (client_at ?b s) ! i)" by blast
    obtain h m where "client_at ?b s = ?c\<lparr>c_egress_head := h, c_egress_count := m\<rparr>" using one unfolding popped_def by blast
    then have "c_generation (client_at ?b s) = c_generation ?c" by simp
    then have gen: "seg_discarded (client_at ?b s) = seg_discarded ?c" by (simp add: seg_discarded_def fun_eq_iff)
    have d: "egress_contents (client_at ?b s) = drop 1 (egress_contents ?c)" using one by (simp only: popped_def)
    have rest: "egress_contents (client_at ?b s) ! i = egress_contents ?c ! Suc i" for i
      unfolding d using True by (subst nth_drop) simp_all
    have "seg_discarded ?c (egress_contents ?c ! 0)" using True egress_head_nth [OF 2(2)] by simp
    then have "\<forall>i<1 + k. seg_discarded ?c (egress_contents ?c ! i)"
      using k(2) rest gen by (auto simp: less_Suc_eq_0_disj)
    moreover have "popped b s (1 + k) (egress_clean n ?b s)" by (rule popped_trans [OF one k(1)])
    ultimately show ?thesis using True by (auto simp: Let_def)
  qed
qed

text \<open>A flush of one client: its queue keeps everything from the first segment that is not to be discarded.\<close>

definition flushed :: "broker \<Rightarrow> nat \<Rightarrow> broker \<Rightarrow> bool" where
  "flushed b s b' \<longleftrightarrow> (\<exists>k. queue_tail k (client_at b s) (client_at b' s)
       \<and> (\<forall>i<k. seg_discarded (client_at b s) (egress_contents (client_at b s) ! i)))
     \<and> pools_same b b' \<and> (\<forall>j. j \<noteq> s \<longrightarrow> client_at b' j = client_at b j)"

lemma flushed_refl: "egress_ring_wf (client_at b s) \<Longrightarrow> flushed b s b"
  unfolding flushed_def using queue_tail_refl by (intro conjI exI [of _ 0]) auto

lemma flushed_update:
  assumes "flushed b s b'" "\<And>c. egress_contents (g c) = egress_contents c \<and> egress_ring_wf (g c) = egress_ring_wf c"
    "s < length (b_clients b')"
  shows "flushed b s (client_update b' s g)"
  using assms queue_tail_cong [of "g (client_at b' s)" "client_at b' s"]
  by (simp add: flushed_def client_at_update pools_same_update)

lemma flushed_ring: "flushed b s (b'\<lparr>b_ring := r\<rparr>) = flushed b s b'"
    "flushed b s (b'\<lparr>b_drops_sq_full := n\<rparr>) = flushed b s b'"
    "flushed b s (b'\<lparr>b_egress_flush_queue := q\<rparr>) = flushed b s b'"
    "flushed b s (b'\<lparr>b_egress_flush_tail := t\<rparr>) = flushed b s b'"
  by (simp_all add: flushed_def pools_same_def client_at_def)

lemma egress_submit_flushed:
  assumes "flushed b s b1" "s < length (b_clients b1)"
  shows "flushed b s (snd (egress_submit b1 s f))"
proof (cases "ring_get_sqe (b_ring b1)")
  case (Pair i r)
  show ?thesis
  proof (cases i)
    case None
    then show ?thesis using assms(1) by (simp add: egress_submit_def Pair flushed_ring)
  next
    case (Some j)
    show ?thesis
      unfolding egress_submit_def Pair Some prod.case option.case snd_conv
      by (rule flushed_update) (use assms in \<open>simp_all add: flushed_ring egress_contents_def egress_ring_wf_def\<close>)
  qed
qed

lemma egress_flush_flushed:
  assumes wf: "egress_ring_wf (client_at b s)" and s: "s < length (b_clients b)"
  shows "flushed b s (snd (egress_flush b s))"
proof (cases "c_egress_inflight (client_at b s) \<or> c_egress_count (client_at b s) = 0 \<or> c_state (client_at b s) \<noteq> CLIENT_ACTIVE")
  case True
  then show ?thesis using flushed_refl [OF wf] by (simp add: egress_flush_def)
next
  case False
  define b1 where "b1 = egress_clean (c_egress_count (client_at b s)) b s"
  obtain k where k: "popped b s k b1" "\<forall>i<k. seg_discarded (client_at b s) (egress_contents (client_at b s) ! i)"
    using egress_clean_discards [OF wf s] b1_def by blast
  have p: "egress_ring_wf (client_at b1 s)" "egress_contents (client_at b1 s) = drop k (egress_contents (client_at b s))"
      "pools_same b b1" "length (b_clients b1) = length (b_clients b)" "\<forall>j. j \<noteq> s \<longrightarrow> client_at b1 j = client_at b j"
    using k(1) by (simp_all add: popped_def)
  have cleaned: "queue_tail k (client_at b s) (client_at b1 s)"
    using p(1,2) by (simp add: queue_tail_def list_all2_refl)
  then have f1: "flushed b s b1" using k(2) p by (auto simp: flushed_def)
  obtain noop f where loop: "batch_loop (b_msg_pool b1) (b_recv_pool b1) (b_now b1) EGRESS_BATCH_MAX (fresh_batch (client_at b1 s)) = (noop, f)"
    by (cases "batch_loop (b_msg_pool b1) (b_recv_pool b1) (b_now b1) EGRESS_BATCH_MAX (fresh_batch (client_at b1 s))")
  have "queue_tail 0 (client_at b1 s) (fb_client f)"
    using batch_loop_queue [OF _ loop] p(1) by (simp add: fresh_batch_def)
  from queue_tail_trans [OF cleaned this] have tail: "queue_tail k (client_at b s) (fb_client f)" by simp
  have stored: "flushed b s (client_update b1 s (\<lambda>_. c))" if "egress_contents c = egress_contents (fb_client f)"
      "egress_ring_wf c = egress_ring_wf (fb_client f)" for c
    using tail queue_tail_cong [OF that] k(2) p s by (auto simp: flushed_def client_at_update pools_same_update)
  have len: "s < length (b_clients (client_update b1 s g))" for g using p(4) s by (simp add: client_update_def)
  show ?thesis
    using False f1 stored [OF refl refl] egress_submit_flushed [OF stored len, of "resume_iov (fb_client f)" f] resume_iov_fields
    by (simp add: egress_flush_def Let_def b1_def [symmetric] fresh_batch_def [symmetric] loop)
qed

lemma egress_kick_flushed:
  assumes wf: "egress_ring_wf (client_at b s)" and s: "s < length (b_clients b)"
  shows "flushed b s (egress_kick b s)"
proof -
  obtain rc b1 where r: "egress_flush b s = (rc, b1)" by (cases "egress_flush b s")
  have f: "flushed b s b1" using egress_flush_flushed [OF assms] by (simp add: r)
  have c: "conn b1 = conn b" using conn_flush [of b s] by (simp add: r)
  have "s < length (b_clients b1)" using conn_fields(1) [OF c] s by simp
  then have "flushed b s (client_update (b1\<lparr>b_egress_flush_queue := q\<rparr>) s (\<lambda>c. c\<lparr>c_egress_retry_queued := True\<rparr>))" for q
    by (intro flushed_update) (use f in \<open>simp_all add: flushed_ring egress_contents_def egress_ring_wf_def\<close>)
  then show ?thesis
    using f by (simp add: egress_kick_def r egress_flush_enqueue_def flushed_ring Let_def)
qed


section \<open>One delivery\<close>

definition publish_of :: "nat \<Rightarrow> canonical_msg \<Rightarrow> u8 \<Rightarrow> u8 \<Rightarrow> egress_segment \<Rightarrow> bool" where
  "publish_of m msg q gen seg \<longleftrightarrow> seg_kind seg = SEG_PUBLISH \<and> seg_msg_idx seg = m \<and> seg_qos seg = q \<and> seg_retain seg = cm_retain msg
     \<and> seg_cursor seg = 0 \<and> seg_slot_gen seg = gen \<and> egress_seg_load_wire_len seg = egress_publish_wire_len msg q"

text \<open>The queue of the second client is that of the first, less what was to be discarded in front of it, with the message
  at its end.\<close>

definition publish_queued :: "nat \<Rightarrow> canonical_msg \<Rightarrow> u8 \<Rightarrow> client_slot \<Rightarrow> client_slot \<Rightarrow> bool" where
  "publish_queued m msg q c c' \<longleftrightarrow> (\<exists>k old seg. k \<le> c_egress_count c \<and> (\<forall>i<k. seg_discarded c (egress_contents c ! i))
     \<and> egress_contents c' = old @ [seg] \<and> list_all2 same_but_pid (drop k (egress_contents c)) old
     \<and> publish_of m msg q (c_generation c) seg)"

definition egress_queue_wf :: "client_slot \<Rightarrow> bool" where
  "egress_queue_wf c \<longleftrightarrow> egress_ring_wf c \<and> (\<forall>seg \<in> set (c_egress c). length (seg_ctrl seg) = 8)"

definition msg_fits :: "canonical_msg \<Rightarrow> bool" where
  "msg_fits msg \<longleftrightarrow> cm_topic_len msg + cm_payload_len msg < 2 ^ 28"

lemma wire_len_positive:
  assumes "msg_fits msg"
  shows "egress_publish_wire_len msg q > 0"
proof -
  let ?n = "cm_topic_len msg + cm_payload_len msg"
  define r where "r = (if q > 0 then 2 + of_nat (cm_topic_len msg) + of_nat (cm_payload_len msg) + 2
      else 2 + of_nat (cm_topic_len msg) + of_nat (cm_payload_len msg) :: u32)"
  have r: "r = of_nat (if q > 0 then ?n + 4 else ?n + 2)" by (simp add: r_def ac_simps)
  have "?n < 268435456" using assms by (simp add: msg_fits_def)
  then have u: "unat r < 268435460" unfolding r unat_of_nat by (auto simp: take_bit_eq_mod)
  have "length (mqtt_encode_remaining_len r) \<le> 5"
    by (rule length_encode_remaining_len) (use u in simp_all)
  then obtain l where l: "l \<le> 6" "0 < l" "l = 1 + length (mqtt_encode_remaining_len r)" by simp
  have e: "egress_publish_wire_len msg q = of_nat l + r"
    unfolding egress_publish_wire_len_def Let_def wire_vbi_count_eq r_def [symmetric] l(3) by simp
  have "egress_publish_wire_len msg q = of_nat (l + unat r)" by (simp add: e)
  moreover have "l + unat r < 2 ^ 32" "0 < l + unat r" using l u by simp_all
  ultimately show ?thesis by (simp add: word_less_nat_alt unat_of_nat take_bit_eq_mod del: of_nat_add)
qed

lemma publish_segment_of:
  "length (seg_ctrl seg) = 8 \<Longrightarrow> publish_of m msg q gen (publish_segment m (Some msg) 0 q 0 gen seg)"
  using wire_len_roundtrip [of "seg\<lparr>seg_msg_idx := m, seg_packet_id := 0, seg_kind := SEG_PUBLISH, seg_qos := q,
      seg_dup := 0, seg_retain := cm_retain msg, seg_slot_gen := gen, seg_ctrl_len := 0, seg_cursor := 0\<rparr>"]
  by (simp add: publish_of_def publish_segment_def Let_def) (simp add: egress_seg_store_wire_len_def)

lemma publish_of_same: "same_but_pid seg seg' \<Longrightarrow> publish_of m msg q gen seg' = publish_of m msg q gen seg"
  by (auto simp: same_but_pid_def publish_of_def egress_seg_load_wire_len_def)

lemma publish_of_msg:
  assumes "same_msg msg msg'"
  shows "publish_of m msg' q gen seg = publish_of m msg q gen seg" "publish_queued m msg' q = publish_queued m msg q"
    "msg_fits msg' = msg_fits msg" "cm_qos msg' = cm_qos msg"
  using assms by (auto simp: same_msg_def publish_of_def publish_queued_def msg_fits_def egress_publish_wire_len_def fun_eq_iff)

lemma publish_not_discarded:
  assumes "publish_of m msg q (c_generation c) seg" "msg_fits msg"
  shows "\<not> seg_discarded c seg"
  using assms wire_len_positive [of msg q] by (auto simp: seg_discarded_def publish_of_def Let_def not_le)

abbreviation deliver :: "nat \<Rightarrow> u8 \<Rightarrow> broker \<Rightarrow> nat \<Rightarrow> broker" where
  "deliver m q b s \<equiv> snd (fsm_sub_start_delivery b m q s)"

lemma msg_ref_pools: "pools_same b (msg_ref b m)"
proof -
  have "same_msg (mp_msgs (b_msg_pool b) ! m) ((mp_msgs (b_msg_pool b) ! m)\<lparr>cm_ref_count := r\<rparr>)" for r
    by (auto simp: same_msg_def)
  then show ?thesis by (simp add: pools_same_def msg_ref_def msg_pool_ref_def msg_update_def same_msg_list)
qed

lemma pools_same_get:
  assumes "pools_same b b'" "msg_pool_get (b_msg_pool b) m = Some msg"
  obtains msg' where "msg_pool_get (b_msg_pool b') m = Some msg'" "same_msg msg msg'"
  using assms by (auto simp: msg_pool_get_def pools_same_def split: if_splits)

text \<open>What a delivery to \<open>s\<close> does to the clients.\<close>

definition delivered :: "nat \<Rightarrow> canonical_msg \<Rightarrow> u8 \<Rightarrow> client_slot \<Rightarrow> client_slot \<Rightarrow> bool" where
  "delivered m msg q c c' \<longleftrightarrow>
     (if egress_full (c_egress_count c) (c_egress_capacity c) then c' = c else publish_queued m msg q c c')"

text \<open>The broker when the segment is in the queue, before the flush.\<close>

lemma deliver_queues:
  assumes s: "s < length (b_clients b)" and q: "egress_queue_wf (client_at b s)"
    and m: "msg_pool_get (b_msg_pool b) m = Some msg"
    and room: "\<not> egress_full (c_egress_count (client_at b s)) (c_egress_capacity (client_at b s))"
  obtains b2 seg where "deliver m q b s = egress_kick b2 s" "publish_of m msg q (c_generation (client_at b s)) seg"
    "egress_ring_wf (client_at b2 s)" "egress_contents (client_at b2 s) = egress_contents (client_at b s) @ [seg]"
    "seg_discarded (client_at b2 s) = seg_discarded (client_at b s)" "\<And>j. j \<noteq> s \<Longrightarrow> client_at b2 j = client_at b j"
    "length (b_clients b2) = length (b_clients b)" "b_msg_pool b2 = msg_pool_ref (b_msg_pool b) m" "b_recv_pool b2 = b_recv_pool b"
proof -
  let ?c = "client_at b s" and ?b1 = "msg_ref b m"
  have wf: "egress_ring_wf ?c" using q by (simp add: egress_queue_wf_def)
  obtain msg' where g: "msg_pool_get (b_msg_pool ?b1) m = Some msg'" "same_msg msg msg'" by (rule pools_same_get [OF msg_ref_pools m])
  have at1: "client_at ?b1 = client_at b" "length (b_clients ?b1) = length (b_clients b)" by (simp_all add: msg_ref_same)
  define cell where "cell = c_egress ?c ! ((c_egress_head ?c + c_egress_count ?c) mod c_egress_capacity ?c)"
  define new where "new = publish_segment m (Some msg') 0 q 0 (c_generation ?c)"
  define b2 where "b2 = client_update ?b1 s (\<lambda>c. egress_append c (publish_segment m (Some msg') 0 q 0 (c_generation c)))"
  have free: "c_egress_count ?c < c_egress_capacity ?c" using room by (simp add: egress_full_def)
  then have "cell \<in> set (c_egress ?c)"
    using wf unfolding cell_def by (intro nth_mem) (simp add: egress_ring_wf_def)
  then have "length (seg_ctrl cell) = 8" using q by (simp add: egress_queue_wf_def)
  then have seg: "publish_of m msg q (c_generation ?c) (new cell)"
    using publish_segment_of [of cell m msg' q "c_generation ?c"] publish_of_msg(1) [OF g(2)] by (simp add: new_def)
  have at2: "client_at b2 j = (if j = s then egress_append ?c new else client_at b j)" for j
    using s by (simp add: b2_def client_at_update at1 new_def)
  show thesis
  proof (rule that [of b2 "new cell"])
    show "deliver m q b s = egress_kick b2 s"
      using room by (simp add: fsm_sub_start_delivery_def Let_def at1 g(1) b2_def)
    show "egress_ring_wf (client_at b2 s)" "egress_contents (client_at b2 s) = egress_contents ?c @ [new cell]"
      using egress_append_contents [OF wf free, of new] by (simp_all add: at2 cell_def)
    show "seg_discarded (client_at b2 s) = seg_discarded ?c"
      by (simp add: at2 fun_eq_iff seg_discarded_def egress_append_def Let_def)
    show "length (b_clients b2) = length (b_clients b)" "b_msg_pool b2 = msg_pool_ref (b_msg_pool b) m" "b_recv_pool b2 = b_recv_pool b"
      by (simp_all add: b2_def client_update_def msg_ref_def)
  qed (simp_all add: at2 seg)
qed

lemma deliver_client:
  assumes s: "s < length (b_clients b)" and q: "egress_queue_wf (client_at b s)"
    and m: "msg_pool_get (b_msg_pool b) m = Some msg" "msg_fits msg"
  shows "delivered m msg q (client_at b s) (client_at (deliver m q b s) s)" "pools_same b (deliver m q b s)"
    "\<And>j. j \<noteq> s \<Longrightarrow> client_at (deliver m q b s) j = client_at b j"
proof -
  let ?c = "client_at b s"
  have "delivered m msg q ?c (client_at (deliver m q b s) s) \<and> pools_same b (deliver m q b s)
      \<and> (\<forall>j. j \<noteq> s \<longrightarrow> client_at (deliver m q b s) j = client_at b j)"
  proof (cases "egress_full (c_egress_count ?c) (c_egress_capacity ?c)")
    case True
    have f: "pools_same a (a'\<lparr>b_drops_egress_full := n\<rparr>) = pools_same a a'" "client_at (a'\<lparr>b_drops_egress_full := n\<rparr>) = client_at a'" for a a' n
      by (simp_all add: pools_same_def client_at_def fun_eq_iff)
    show ?thesis
      using True pools_same_trans [OF msg_ref_pools release_msg_ref_pools]
      by (simp add: fsm_sub_start_delivery_def Let_def msg_ref_same delivered_def f release_msg_ref_same)
  next
    case False
    obtain b2 seg where run: "deliver m q b s = egress_kick b2 s" and seg: "publish_of m msg q (c_generation ?c) seg"
      and c2: "egress_ring_wf (client_at b2 s)" "egress_contents (client_at b2 s) = egress_contents ?c @ [seg]"
        "seg_discarded (client_at b2 s) = seg_discarded ?c" and o2: "\<And>j. j \<noteq> s \<Longrightarrow> client_at b2 j = client_at b j"
      and b2: "length (b_clients b2) = length (b_clients b)" "b_msg_pool b2 = msg_pool_ref (b_msg_pool b) m" "b_recv_pool b2 = b_recv_pool b"
      using deliver_queues [OF s q m(1) False] by metis
    note fl = egress_kick_flushed [OF c2(1), unfolded b2(1), OF s]
    have p2: "pools_same b b2" using msg_ref_pools [of b m] b2 by (simp add: pools_same_def msg_ref_def)
    let ?c' = "client_at (egress_kick b2 s) s"
    obtain k where k: "queue_tail k (client_at b2 s) ?c'"
        "\<forall>i<k. seg_discarded ?c (egress_contents (client_at b2 s) ! i)"
      using fl c2(3) by (auto simp: flushed_def)
    have kc: "k \<le> c_egress_count ?c"
    proof (rule ccontr)
      assume "\<not> k \<le> c_egress_count ?c"
      then have "seg_discarded ?c (egress_contents (client_at b2 s) ! c_egress_count ?c)" using k(2) by simp
      then show False using publish_not_discarded [OF seg m(2)] by (simp add: c2(2) nth_append)
    qed
    have "list_all2 same_but_pid (drop k (egress_contents ?c) @ [seg]) (egress_contents ?c')"
      using k(1) kc by (simp add: queue_tail_def c2(2))
    then obtain old seg' where c': "egress_contents ?c' = old @ [seg']"
        "list_all2 same_but_pid (drop k (egress_contents ?c)) old" "same_but_pid seg seg'"
      by (auto simp: list_all2_append1 list_all2_Cons1)
    have "seg_discarded ?c (egress_contents ?c ! i)" if "i < k" for i
      using k(2) that kc by (auto simp: c2(2) nth_append)
    then have "publish_queued m msg q ?c ?c'"
      unfolding publish_queued_def
      using kc c' seg publish_of_same [OF c'(3)] by (intro exI [of _ k] exI [of _ old] exI [of _ seg']) simp
    then show ?thesis
      using False fl pools_same_trans [OF p2] o2 by (simp add: run delivered_def flushed_def)
  qed
  then show "delivered m msg q (client_at b s) (client_at (deliver m q b s) s)" "pools_same b (deliver m q b s)"
    "\<And>j. j \<noteq> s \<Longrightarrow> client_at (deliver m q b s) j = client_at b j" by simp_all
qed

text \<open>One delivery to each of several clients.\<close>

lemma deliver_each:
  assumes "distinct ss" "\<forall>s \<in> set ss. s < length (b_clients b) \<and> egress_queue_wf (client_at b s)"
    "msg_pool_get (b_msg_pool b) m = Some msg" "msg_fits msg"
  shows "\<forall>s. if s \<in> set ss then delivered m msg q (client_at b s) (client_at (foldl (deliver m q) b ss) s)
     else client_at (foldl (deliver m q) b ss) s = client_at b s"
  using assms
proof (induction ss arbitrary: b msg)
  case Nil
  then show ?case by simp
next
  case (Cons s ss)
  let ?b = "deliver m q b s"
  have D: "delivered m msg q (client_at b s) (client_at ?b s)" "pools_same b ?b" "\<And>j. j \<noteq> s \<Longrightarrow> client_at ?b j = client_at b j"
    by (rule deliver_client; use Cons.prems in simp)+
  obtain msg' where g: "msg_pool_get (b_msg_pool ?b) m = Some msg'" "same_msg msg msg'"
    by (rule pools_same_get [OF D(2) Cons.prems(3)])
  have "length (b_clients ?b) = length (b_clients b)" by (rule conn_fields(1)) simp
  then have "\<forall>s' \<in> set ss. s' < length (b_clients ?b) \<and> egress_queue_wf (client_at ?b s')"
    using Cons.prems(1,2) D(3) by (metis distinct.simps(2) list.set_intros(2))
  from Cons.IH [OF _ this g(1)] have IH: "if j \<in> set ss then delivered m msg' q (client_at ?b j) (client_at (foldl (deliver m q) ?b ss) j)
     else client_at (foldl (deliver m q) ?b ss) j = client_at ?b j" for j
    using Cons.prems(1,4) publish_of_msg(3) [OF g(2)] by simp
  have same: "delivered m msg' q = delivered m msg q" using publish_of_msg(2) [OF g(2)] by (simp add: delivered_def fun_eq_iff)
  show ?case
  proof
    fix j
    show "if j \<in> set (s # ss) then delivered m msg q (client_at b j) (client_at (foldl (deliver m q) b (s # ss)) j)
       else client_at (foldl (deliver m q) b (s # ss)) j = client_at b j"
      using IH [of j, unfolded same] D(1) D(3) [of j] Cons.prems(1) by (cases "j = s"; cases "j \<in> set ss") simp_all
  qed
qed

section \<open>References\<close>

text \<open>The pool with another reference count for one of its messages.\<close>

definition with_refs :: "msg_pool \<Rightarrow> nat \<Rightarrow> u32 \<Rightarrow> msg_pool" where
  "with_refs p m r = msg_update p m (\<lambda>x. x\<lparr>cm_ref_count := r\<rparr>)"

definition msg_in_pool :: "msg_pool \<Rightarrow> nat \<Rightarrow> bool" where
  "msg_in_pool p m \<longleftrightarrow> m < mp_capacity p \<and> m < length (mp_msgs p) \<and> m \<noteq> MSG_POOL_INVALID"

lemma with_refs_simps [simp]:
  "msg_in_pool (with_refs p m r) m = msg_in_pool p m"
  "with_refs (with_refs p m r) m r' = with_refs p m r'"
  "msg_in_pool p m \<Longrightarrow> msg_pool_refcount (with_refs p m r) m = r"
  "with_refs p m (cm_ref_count (mp_msgs p ! m)) = p"
  by (simp_all add: msg_in_pool_def with_refs_def msg_update_def msg_pool_refcount_def) (cases "m < length (mp_msgs p)"; simp add: list_update_beyond)

lemma refs_ref:
  assumes "msg_in_pool p m"
  shows "msg_pool_ref p m = with_refs p m (msg_pool_refcount p m + 1)"
    "msg_pool_unref p m = (msg_pool_refcount p m - 1, with_refs p m (msg_pool_refcount p m - 1))"
    "with_refs p m (msg_pool_refcount p m) = p"
  using assms with_refs_simps(4) [of p m]
  by (simp_all add: msg_in_pool_def msg_pool_ref_def msg_pool_unref_def with_refs_def msg_update_def msg_pool_refcount_def
      atomic_inc_def atomic_dec_def)

text \<open>Nothing in front of the queue is to be discarded.\<close>

definition head_kept :: "client_slot \<Rightarrow> bool" where
  "head_kept c \<longleftrightarrow> egress_contents c = [] \<or> \<not> seg_discarded c (hd (egress_contents c))"

lemma egress_submit_pools:
  "b_msg_pool (snd (egress_submit b s f)) = b_msg_pool b" "b_recv_pool (snd (egress_submit b s f)) = b_recv_pool b"
  by (auto simp: egress_submit_def client_update_def split: prod.splits option.splits)

lemma egress_kick_pools:
  assumes "head_kept (client_at b s)" "egress_ring_wf (client_at b s)"
  shows "b_msg_pool (egress_kick b s) = b_msg_pool b" "b_recv_pool (egress_kick b s) = b_recv_pool b"
proof -
  have clean: "egress_clean n b s = b" for n
  proof (cases "c_egress_count (client_at b s) > 0 \<and> n > 0")
    case True
    then have "egress_contents (client_at b s) \<noteq> []" by (metis length_egress_contents less_numeral_extra(3) list.size(3))
    then show ?thesis
      using True assms(1) egress_head_nth [OF assms(2)] by (cases n) (auto simp: head_kept_def Let_def hd_conv_nth)
  qed (cases n; auto)
  have "b_msg_pool (snd (egress_flush b s)) = b_msg_pool b \<and> b_recv_pool (snd (egress_flush b s)) = b_recv_pool b"
    by (simp add: egress_flush_def Let_def clean egress_submit_pools split: prod.splits) (simp add: client_update_def)
  then show "b_msg_pool (egress_kick b s) = b_msg_pool b" "b_recv_pool (egress_kick b s) = b_recv_pool b"
    by (cases "egress_flush b s"; simp add: egress_kick_def egress_flush_enqueue_def Let_def client_update_def)+
qed

lemma deliver_refs:
  assumes s: "s < length (b_clients b)" and q: "egress_queue_wf (client_at b s)" "head_kept (client_at b s)"
    and m: "msg_in_pool (b_msg_pool b) m" "msg_fits (mp_msgs (b_msg_pool b) ! m)" "msg_pool_refcount (b_msg_pool b) m \<noteq> 0"
  shows "b_msg_pool (deliver m q b s) = (if egress_full (c_egress_count (client_at b s)) (c_egress_capacity (client_at b s))
      then b_msg_pool b else with_refs (b_msg_pool b) m (msg_pool_refcount (b_msg_pool b) m + 1))"
    "b_recv_pool (deliver m q b s) = b_recv_pool b"
proof -
  let ?c = "client_at b s" and ?p = "b_msg_pool b" and ?r = "msg_pool_refcount (b_msg_pool b) m" and ?b1 = "msg_ref b m"
  have b1: "b_msg_pool ?b1 = with_refs ?p m (?r + 1)" using refs_ref(1) [OF m(1)] by (simp add: msg_ref_def)
  have "b_msg_pool (deliver m q b s) = (if egress_full (c_egress_count ?c) (c_egress_capacity ?c)
      then ?p else with_refs ?p m (?r + 1)) \<and> b_recv_pool (deliver m q b s) = b_recv_pool b"
  proof (cases "egress_full (c_egress_count ?c) (c_egress_capacity ?c)")
    case True
    have "msg_in_pool (b_msg_pool ?b1) m" using m(1) by (simp add: b1)
    note u = refs_ref(2) [OF this]
    have "msg_pool_unref (b_msg_pool ?b1) m = (?r, ?p)" using u m(1) refs_ref(3) [OF m(1)] by (simp add: b1)
    then have "b_msg_pool (release_msg_ref ?b1 m) = ?p \<and> b_recv_pool (release_msg_ref ?b1 m) = b_recv_pool b"
      using m(1,3) by (simp add: release_msg_ref_def Let_def msg_in_pool_def msg_ref_same)
    then show ?thesis using True by (simp add: fsm_sub_start_delivery_def Let_def msg_ref_same)
  next
    case False
    have g: "msg_pool_get ?p m = Some (mp_msgs ?p ! m)" using m(1) by (simp add: msg_pool_get_def msg_in_pool_def)
    obtain b2 seg where run: "deliver m q b s = egress_kick b2 s" and seg: "publish_of m (mp_msgs ?p ! m) q (c_generation ?c) seg"
      and c2: "egress_ring_wf (client_at b2 s)" "egress_contents (client_at b2 s) = egress_contents ?c @ [seg]"
        "seg_discarded (client_at b2 s) = seg_discarded ?c"
      and b2: "b_msg_pool b2 = msg_pool_ref ?p m" "b_recv_pool b2 = b_recv_pool b"
      using deliver_queues [OF s q(1) g False] by metis
    have "head_kept (client_at b2 s)"
      using q(2) publish_not_discarded [OF seg m(2)] by (auto simp: head_kept_def c2 hd_append)
    from egress_kick_pools [OF this c2(1)] show ?thesis using False b2 refs_ref(1) [OF m(1)] by (simp add: run)
  qed
  then show "b_msg_pool (deliver m q b s) = (if egress_full (c_egress_count (client_at b s)) (c_egress_capacity (client_at b s))
      then b_msg_pool b else with_refs (b_msg_pool b) m (msg_pool_refcount (b_msg_pool b) m + 1))"
    "b_recv_pool (deliver m q b s) = b_recv_pool b" by simp_all
qed

text \<open>The queues that take the message.\<close>

definition takers :: "broker \<Rightarrow> nat set \<Rightarrow> nat set" where
  "takers b S = {s \<in> S. \<not> egress_full (c_egress_count (client_at b s)) (c_egress_capacity (client_at b s))}"

lemma deliver_each_refs:
  assumes "distinct ss" "\<forall>s \<in> set ss. s < length (b_clients b) \<and> egress_queue_wf (client_at b s) \<and> head_kept (client_at b s)"
    "msg_in_pool (b_msg_pool b) m" "msg_fits (mp_msgs (b_msg_pool b) ! m)"
    "0 < unat (msg_pool_refcount (b_msg_pool b) m)" "unat (msg_pool_refcount (b_msg_pool b) m) + length ss < 2 ^ 32"
  shows "b_msg_pool (foldl (deliver m q) b ss)
      = with_refs (b_msg_pool b) m (msg_pool_refcount (b_msg_pool b) m + of_nat (card (takers b (set ss))))
    \<and> b_recv_pool (foldl (deliver m q) b ss) = b_recv_pool b"
  using assms
proof (induction ss arbitrary: b)
  case Nil
  then show ?case using refs_ref(3) by (simp add: takers_def)
next
  case (Cons s ss)
  let ?b = "deliver m q b s" and ?r = "msg_pool_refcount (b_msg_pool b) m"
    and ?full = "egress_full (c_egress_count (client_at b s)) (c_egress_capacity (client_at b s))"
  have nz: "?r \<noteq> 0" using Cons.prems(5) by auto
  have g: "msg_pool_get (b_msg_pool b) m = Some (mp_msgs (b_msg_pool b) ! m)"
    using Cons.prems(3) by (simp add: msg_pool_get_def msg_in_pool_def)
  have o: "client_at ?b j = client_at b j" if "j \<noteq> s" for j
    by (rule deliver_client(3) [OF _ _ g]) (use Cons.prems that in simp_all)
  have D: "b_msg_pool ?b = (if ?full then b_msg_pool b else with_refs (b_msg_pool b) m (?r + 1))" "b_recv_pool ?b = b_recv_pool b"
    using deliver_refs [OF _ _ _ Cons.prems(3,4) nz, of s] Cons.prems(2) by simp_all
  have r1: "msg_pool_refcount (b_msg_pool ?b) m = (if ?full then ?r else ?r + 1)" "msg_in_pool (b_msg_pool ?b) m"
      "msg_fits (mp_msgs (b_msg_pool ?b) ! m)"
    using Cons.prems(3,4) by (simp_all add: D(1)) (simp add: with_refs_def msg_update_def msg_in_pool_def msg_fits_def)
  have up: "unat (?r + 1) = unat ?r + 1" using Cons.prems(6) by (simp add: unat_word_ariths)
  have "length (b_clients ?b) = length (b_clients b)" by (rule conn_fields(1)) simp
  then have "\<forall>s' \<in> set ss. s' < length (b_clients ?b) \<and> egress_queue_wf (client_at ?b s') \<and> head_kept (client_at ?b s')"
    using Cons.prems(1,2) o by (metis distinct.simps(2) list.set_intros(2))
  from Cons.IH [OF _ this r1(2,3)] have IH: "b_msg_pool (foldl (deliver m q) ?b ss)
      = with_refs (b_msg_pool ?b) m (msg_pool_refcount (b_msg_pool ?b) m + of_nat (card (takers ?b (set ss))))"
      "b_recv_pool (foldl (deliver m q) ?b ss) = b_recv_pool b"
    using Cons.prems(1,5,6) up by (simp_all add: r1(1) D(2))
  have o1: "client_at ?b j = client_at b j" if "j \<in> set ss" for j using o [of j] that Cons.prems(1) by auto
  have t1: "takers ?b (set ss) = takers b (set ss)"
    unfolding takers_def by (rule Collect_cong) (simp add: o1 cong: conj_cong)
  have t2: "takers b (set (s # ss)) = (if ?full then takers b (set ss) else insert s (takers b (set ss)))"
    by (auto simp: takers_def)
  have "s \<notin> takers b (set ss)" "finite (takers b (set ss))" using Cons.prems(1) by (simp_all add: takers_def)
  then have "of_nat (card (takers b (set (s # ss)))) = (if ?full then of_nat (card (takers b (set ss)))
      else 1 + of_nat (card (takers b (set ss))) :: u32)" unfolding t2 by simp
  then show ?case using IH Cons.prems(3) by (cases ?full) (simp_all add: t1 r1(1) D(1) ac_simps)
qed

end
