(* ===== verification/Fan_Out.thy ===== *)
theory Fan_Out
  imports Delivery Handler Trie_Match
begin

text \<open>
  The fan-out of a publication, \<^verbatim>\<open>src/src/broker/handler.h\<close>: one message for each live subscriber of a matching filter,
  however many of its filters match.
\<close>

section \<open>Which slots are served\<close>

text \<open>The slots marked in the bitmap of the publication.\<close>

definition sent :: "publish_ctx \<Rightarrow> nat set" where
  "sent px = {s. s < 4096 \<and> bit (px_sent_bitmap px ! (s div 64)) (s mod 64)}"

text \<open>The first of the nodes with \<open>s\<close> among its subscribers, and the generation it has for \<open>s\<close>.\<close>

fun first_gen :: "topic_trie \<Rightarrow> nat list \<Rightarrow> nat \<Rightarrow> u8 option" where
  "first_gen t [] s = None"
| "first_gen t (n # ns) s =
     (if s \<in> node_subs (tr_nodes t ! n) then Some (tn_fd_gen (tr_nodes t ! n) ! s) else first_gen t ns s)"

definition live_at :: "broker \<Rightarrow> nat \<Rightarrow> u8 \<Rightarrow> bool" where
  "live_at b s g \<longleftrightarrow> c_state (client_at b s) = CLIENT_ACTIVE \<and> c_generation (client_at b s) = g"

text \<open>From one state of the loops to the next: the slots in \<open>V\<close> are marked, those in \<open>D\<close> are served, each once.\<close>

definition served :: "nat \<Rightarrow> u8 \<Rightarrow> publish_ctx \<times> broker \<Rightarrow> nat set \<Rightarrow> nat set \<Rightarrow> publish_ctx \<times> broker \<Rightarrow> bool" where
  "served m q st V D st' \<longleftrightarrow> (\<exists>ss. distinct ss \<and> set ss = D \<and> snd st' = foldl (deliver m q) (snd st) ss)
     \<and> sent (fst st') = sent (fst st) \<union> V \<and> px_msg_idx (fst st') = px_msg_idx (fst st)
     \<and> length (px_sent_bitmap (fst st')) = length (px_sent_bitmap (fst st))"

lemma served_none: "served m q st {} {} st"
  by (simp add: served_def)

lemma served_trans:
  assumes "served m q st V D st1" "served m q st1 V' D' st2" "D \<inter> D' = {}"
  shows "served m q st (V \<union> V') (D \<union> D') st2"
proof -
  obtain ss ss' where "distinct ss" "set ss = D" "snd st1 = foldl (deliver m q) (snd st) ss"
      "distinct ss'" "set ss' = D'" "snd st2 = foldl (deliver m q) (snd st1) ss'"
    using assms(1,2) unfolding served_def by blast
  then have "distinct (ss @ ss') \<and> set (ss @ ss') = D \<union> D' \<and> snd st2 = foldl (deliver m q) (snd st) (ss @ ss')"
    using assms(3) by simp
  then show ?thesis using assms(1,2) unfolding served_def by (metis sup_assoc)
qed

lemma conn_deliver_all: "conn (foldl (deliver m q) b ss) = conn b"
  by (induction ss arbitrary: b) simp_all

lemma served_conn: "served m q st V D st' \<Longrightarrow> conn (snd st') = conn (snd st)"
  using conn_deliver_all by (auto simp: served_def)

lemma served_live: "served m q st V D st' \<Longrightarrow> s < length (b_clients (snd st)) \<Longrightarrow> live_at (snd st') s g = live_at (snd st) s g"
  using conn_client [OF served_conn] by (simp add: live_at_def)

text \<open>One bit, one word, one node, all nodes.\<close>

lemma mark_bit:
  assumes "length bm = 64" "slot < 64" "i < 64"
  shows "s < 4096 \<Longrightarrow> bit (bm[slot := bm ! slot OR push_bit i (1 :: u64)] ! (s div 64)) (s mod 64)
    \<longleftrightarrow> bit (bm ! (s div 64)) (s mod 64) \<or> s = slot * 64 + i"
proof -
  assume "s < 4096"
  then have d: "s div 64 < 64" by (simp add: less_mult_imp_div_less)
  have e: "s = slot * 64 + i \<longleftrightarrow> s div 64 = slot \<and> s mod 64 = i"
    using assms(3) div_mult_mod_eq [of s 64] by auto
  have "bit (push_bit i (1 :: u64)) (s mod 64) \<longleftrightarrow> s mod 64 = i"
    using assms(3) by (auto simp: bit_simps)
  then show ?thesis using assms d e by (auto simp: bit_or_iff nth_list_update)
qed

lemma deliver_bit_served:
  assumes st: "length (px_sent_bitmap (fst st)) = 64" "px_msg_idx (fst st) = m" and i: "slot < 64" "i < 64"
    and q: "cm_qos msg = q"
  shows "served m q st {slot * 64 + i}
    (if live_at (snd st) (slot * 64 + i) (tn_fd_gen node ! (slot * 64 + i)) then {slot * 64 + i} else {})
    (deliver_bit msg q node slot st i)"
proof -
  obtain px b where e: "st = (px, b)" by (cases st)
  let ?s = "slot * 64 + i" and ?px = "px\<lparr>px_sent_bitmap := (px_sent_bitmap px)[slot := px_sent_bitmap px ! slot OR push_bit i 1]\<rparr>"
  have range: "?s < 4096" using i by simp
  have mark: "sent ?px = sent px \<union> {?s}"
    using mark_bit [of "px_sent_bitmap px" slot i] st(1) i range by (auto simp: sent_def e)
  have ms: "sent (?px\<lparr>px_subscriber_count := n\<rparr>) = sent ?px" for n by (simp add: sent_def)
  show ?thesis
  proof (cases "live_at b ?s (tn_fd_gen node ! ?s)")
    case False
    then have "deliver_bit msg q node slot st i = (?px, b)"
      by (auto simp: e deliver_bit_def BITS_PER_SLOT_def live_at_def Let_def)
    then show ?thesis using mark False by (simp add: e served_def)
  next
    case True
    have d: "snd (deliver_bit msg q node slot st i) = deliver m q b ?s"
      using True st(2) by (simp add: e deliver_bit_def BITS_PER_SLOT_def live_at_def Let_def forward_publish_zc_def q split: prod.splits)
    have f: "fst (deliver_bit msg q node slot st i) = ?px
        \<or> (\<exists>n. fst (deliver_bit msg q node slot st i) = ?px\<lparr>px_subscriber_count := n\<rparr>)"
      using True by (auto simp: e deliver_bit_def BITS_PER_SLOT_def live_at_def Let_def forward_publish_zc_def split: prod.splits)
    have "\<exists>ss. distinct ss \<and> set ss = {?s} \<and> deliver m q b ?s = foldl (deliver m q) b ss"
      by (intro exI [of _ "[?s]"]) simp
    then show ?thesis using f [unfolded e] d [unfolded e] mark ms True by (auto simp: served_def e)
  qed
qed

text \<open>The slots of one word, and of the words before it.\<close>

definition word_slots :: "nat \<Rightarrow> nat set" where
  "word_slots slot = {s. s div 64 = slot}"

definition live_subs :: "broker \<Rightarrow> trie_node \<Rightarrow> nat set" where
  "live_subs b node = {s. live_at b s (tn_fd_gen node ! s)}"

lemma served_ready:
  "served m q st V D st' \<Longrightarrow> length (px_sent_bitmap (fst st)) = 64 \<and> px_msg_idx (fst st) = m \<Longrightarrow>
     length (px_sent_bitmap (fst st')) = 64 \<and> px_msg_idx (fst st') = m"
  by (simp add: served_def)

lemma deliver_bits_served:
  assumes "distinct is" "\<forall>i \<in> set is. i < 64 \<and> slot * 64 + i < length (b_clients (snd st))" "slot < 64" "cm_qos msg = q"
    "length (px_sent_bitmap (fst st)) = 64 \<and> px_msg_idx (fst st) = m"
  shows "served m q st ((\<lambda>i. slot * 64 + i) ` set is) ((\<lambda>i. slot * 64 + i) ` set is \<inter> live_subs (snd st) node)
    (foldl (deliver_bit msg q node slot) st is)"
  using assms
proof (induction "is" arbitrary: st)
  case Nil
  then show ?case using served_none by simp
next
  case (Cons i "is")
  let ?st = "deliver_bit msg q node slot st i" and ?s = "slot * 64 + i"
  have one: "served m q st {?s} ({?s} \<inter> live_subs (snd st) node) ?st"
    using deliver_bit_served [of st m slot i msg q node] Cons.prems by (auto simp: live_subs_def split: if_splits)
  note len = conn_fields(1) [OF served_conn [OF one]]
  have live: "(\<lambda>i. slot * 64 + i) ` set is \<inter> live_subs (snd ?st) node = (\<lambda>i. slot * 64 + i) ` set is \<inter> live_subs (snd st) node"
    using Cons.prems(2) served_live [OF one] by (auto simp: live_subs_def)
  have "served m q ?st ((\<lambda>i. slot * 64 + i) ` set is) ((\<lambda>i. slot * 64 + i) ` set is \<inter> live_subs (snd ?st) node)
      (foldl (deliver_bit msg q node slot) ?st is)"
    by (rule Cons.IH) (use Cons.prems served_ready [OF one] len in auto)
  note rest = this [unfolded live]
  let ?W = "(\<lambda>i. slot * 64 + i) ` set is" and ?L = "live_subs (snd st) node"
  have "({?s} \<inter> ?L) \<inter> (?W \<inter> ?L) = {}" using Cons.prems(1) by auto
  from served_trans [OF one rest this]
  have "served m q st ({?s} \<union> ?W) ({?s} \<inter> ?L \<union> ?W \<inter> ?L) (foldl (deliver_bit msg q node slot) st (i # is))" by simp
  moreover have "(\<lambda>i. slot * 64 + i) ` set (i # is) = {?s} \<union> ?W" by simp
  moreover have "({?s} \<union> ?W) \<inter> ?L = {?s} \<inter> ?L \<union> ?W \<inter> ?L" by (rule Int_Un_distrib2)
  ultimately show ?case by presburger
qed

lemma word_bits:
  assumes "slot < 64"
  shows "(\<lambda>i. slot * 64 + i) ` set (filter (bit (tn_fd_bitmap node ! slot AND NOT (px_sent_bitmap px ! slot))) [0..<64])
    = word_slots slot \<inter> (node_subs node - sent px)"
proof -
  have w: "s \<in> (\<lambda>i. slot * 64 + i) ` {i. i < 64 \<and> P i} \<longleftrightarrow> s div 64 = slot \<and> P (s mod 64)" for s P
    by (force simp: image_iff)
  have r: "s div 64 = slot \<Longrightarrow> s < 4096" for s using assms by (simp add: div_less_iff_less_mult)
  have f: "set (filter Q [0..<64]) = {i. i < 64 \<and> Q i}" for Q :: "nat \<Rightarrow> bool" by auto
  show ?thesis
    unfolding f
    by (rule set_eqI) (use r in \<open>auto simp: w word_slots_def node_subs_def sent_def bit_and_iff bit_not_iff\<close>)
qed

lemma deliver_word_served:
  assumes "\<forall>s \<in> node_subs node. s < length (b_clients (snd st))" "slot < 64" "cm_qos msg = q"
    "length (px_sent_bitmap (fst st)) = 64 \<and> px_msg_idx (fst st) = m"
  shows "served m q st (word_slots slot \<inter> (node_subs node - sent (fst st)))
    (word_slots slot \<inter> (node_subs node - sent (fst st)) \<inter> live_subs (snd st) node) (deliver_word msg q node st slot)"
proof -
  let ?is = "filter (bit (tn_fd_bitmap node ! slot AND NOT (px_sent_bitmap (fst st) ! slot))) [0..<64]"
  note W = word_bits [OF assms(2), of node "fst st"]
  have "\<forall>i \<in> set ?is. i < 64 \<and> slot * 64 + i < length (b_clients (snd st))"
  proof
    fix i assume i: "i \<in> set ?is"
    then have "slot * 64 + i \<in> word_slots slot \<inter> (node_subs node - sent (fst st))" unfolding W [symmetric] by (rule imageI)
    then show "i < 64 \<and> slot * 64 + i < length (b_clients (snd st))" using assms(1) i by simp
  qed
  from deliver_bits_served [OF _ this assms(2-4), of node] show ?thesis
    unfolding W deliver_word_def for_each_bit_64 Let_def by simp
qed

lemma deliver_words_served:
  assumes "\<forall>s \<in> node_subs node. s < length (b_clients (snd st))" "cm_qos msg = q"
    "length (px_sent_bitmap (fst st)) = 64 \<and> px_msg_idx (fst st) = m"
  shows "n \<le> 64 \<Longrightarrow> served m q st ({s. s div 64 < n} \<inter> (node_subs node - sent (fst st)))
    ({s. s div 64 < n} \<inter> (node_subs node - sent (fst st)) \<inter> live_subs (snd st) node)
    (foldl (deliver_word msg q node) st [0..<n])"
proof (induction n)
  case 0
  then show ?case using served_none by simp
next
  case (Suc n)
  let ?N = "node_subs node - sent (fst st)" and ?L = "live_subs (snd st) node"
  let ?st = "foldl (deliver_word msg q node) st [0..<n]"
  have IH: "served m q st ({s. s div 64 < n} \<inter> ?N) ({s. s div 64 < n} \<inter> ?N \<inter> ?L) ?st" using Suc by simp
  note len = conn_fields(1) [OF served_conn [OF IH]]
  have s1: "word_slots n \<inter> (node_subs node - sent (fst ?st)) = word_slots n \<inter> ?N"
    using IH by (auto simp: served_def word_slots_def)
  have l1: "word_slots n \<inter> ?N \<inter> live_subs (snd ?st) node = word_slots n \<inter> ?N \<inter> ?L"
    using served_live [OF IH] assms(1) by (auto simp: live_subs_def)
  have "served m q ?st (word_slots n \<inter> (node_subs node - sent (fst ?st)))
      (word_slots n \<inter> (node_subs node - sent (fst ?st)) \<inter> live_subs (snd ?st) node) (deliver_word msg q node ?st n)"
    by (rule deliver_word_served) (use assms len Suc.prems served_ready [OF IH] in simp_all)
  note next_word = this [unfolded s1 l1]
  have "({s. s div 64 < n} \<inter> ?N \<inter> ?L) \<inter> (word_slots n \<inter> ?N \<inter> ?L) = {}" by (auto simp: word_slots_def)
  from served_trans [OF IH next_word this]
  have "served m q st (({s. s div 64 < n} \<inter> ?N) \<union> (word_slots n \<inter> ?N))
      (({s. s div 64 < n} \<inter> ?N \<inter> ?L) \<union> (word_slots n \<inter> ?N \<inter> ?L)) (foldl (deliver_word msg q node) st [0..<Suc n])" by simp
  moreover have "{s. s div 64 < Suc n} = {s. s div 64 < n} \<union> word_slots n" by (auto simp: word_slots_def less_Suc_eq)
  ultimately show ?case by (simp only: Int_Un_distrib2)
qed

lemma deliver_node_served:
  assumes "\<forall>s \<in> node_subs (tr_nodes t ! n). s < length (b_clients (snd st))" "cm_qos msg = q"
    "length (px_sent_bitmap (fst st)) = 64 \<and> px_msg_idx (fst st) = m"
  shows "served m q st (node_subs (tr_nodes t ! n) - sent (fst st))
    ((node_subs (tr_nodes t ! n) - sent (fst st)) \<inter> live_subs (snd st) (tr_nodes t ! n)) (deliver_node msg q t st n)"
proof -
  have "node_subs (tr_nodes t ! n) - sent (fst st) = {s. s div 64 < 64} \<inter> (node_subs (tr_nodes t ! n) - sent (fst st))"
    by (auto simp: node_subs_def)
  then show ?thesis
    using deliver_words_served [OF assms order_refl] by (simp add: deliver_node_def TRIE_FD_SLOTS_def)
qed

text \<open>The slots the nodes serve: each by the first node that has it.\<close>

definition first_live :: "broker \<Rightarrow> topic_trie \<Rightarrow> nat list \<Rightarrow> nat set" where
  "first_live b t ns = {s. \<exists>g. first_gen t ns s = Some g \<and> live_at b s g}"

lemma deliver_nodes_served:
  assumes "\<forall>n \<in> set ns. \<forall>s \<in> node_subs (tr_nodes t ! n). s < length (b_clients (snd st))" "cm_qos msg = q"
    "length (px_sent_bitmap (fst st)) = 64 \<and> px_msg_idx (fst st) = m"
  shows "served m q st ((\<Union>n \<in> set ns. node_subs (tr_nodes t ! n)) - sent (fst st))
    (first_live (snd st) t ns - sent (fst st)) (foldl (deliver_node msg q t) st ns)"
  using assms
proof (induction ns arbitrary: st)
  case Nil
  then show ?case using served_none by (simp add: first_live_def)
next
  case (Cons n ns)
  let ?N = "node_subs (tr_nodes t ! n)" and ?L = "live_subs (snd st) (tr_nodes t ! n)" and ?S = "sent (fst st)"
    and ?st = "deliver_node msg q t st n" and ?R = "\<Union>n \<in> set ns. node_subs (tr_nodes t ! n)"
  have one: "served m q st (?N - ?S) ((?N - ?S) \<inter> ?L) ?st" by (rule deliver_node_served) (use Cons.prems in simp_all)
  note len = conn_fields(1) [OF served_conn [OF one]]
  have s1: "sent (fst ?st) = ?S \<union> ?N" using one by (auto simp: served_def)
  have r: "first_gen t ns s = Some g \<Longrightarrow> s \<in> ?R" for s g
    by (induction ns) (auto split: if_splits)
  have l1: "first_live (snd ?st) t ns = first_live (snd st) t ns"
  proof -
    have "live_at (snd ?st) s g = live_at (snd st) s g" if "first_gen t ns s = Some g" for s g
    proof (rule served_live [OF one])
      show "s < length (b_clients (snd st))" using r [OF that] Cons.prems(1) by (auto simp only: list.set)
    qed
    then show ?thesis by (auto simp: first_live_def)
  qed
  have "served m q ?st (?R - sent (fst ?st)) (first_live (snd ?st) t ns - sent (fst ?st)) (foldl (deliver_node msg q t) ?st ns)"
    by (rule Cons.IH) (use Cons.prems len served_ready [OF one] in auto)
  note rest = this [unfolded s1 l1]
  have "((?N - ?S) \<inter> ?L) \<inter> (first_live (snd st) t ns - (?S \<union> ?N)) = {}" by blast
  from served_trans [OF one rest this]
  have all: "served m q st ((?N - ?S) \<union> (?R - (?S \<union> ?N))) (((?N - ?S) \<inter> ?L) \<union> (first_live (snd st) t ns - (?S \<union> ?N)))
      (foldl (deliver_node msg q t) st (n # ns))" by simp
  have marked: "(?N - ?S) \<union> (?R - (?S \<union> ?N)) = (\<Union>n \<in> set (n # ns). node_subs (tr_nodes t ! n)) - ?S" by auto
  have "((?N - ?S) \<inter> ?L) \<union> (first_live (snd st) t ns - (?S \<union> ?N)) = first_live (snd st) t (n # ns) - ?S"
    by (auto simp: first_live_def live_subs_def)
  from all [unfolded marked this] show ?case .
qed

section \<open>Publications\<close>

text \<open>Every subscription has the generation of its slot: \<^verbatim>\<open>broker_free_slot\<close> removes the others.\<close>

definition subs_current :: "broker \<Rightarrow> bool" where
  "subs_current b \<longleftrightarrow> (\<forall>p s g. subscriptions (b_trie b) p s = Some g \<longrightarrow>
     s < length (b_clients b) \<and> g = c_generation (client_at b s))"

text \<open>The slots a publication is meant for.\<close>

definition subscribers :: "broker \<Rightarrow> bytes list \<Rightarrow> nat set" where
  "subscribers b topic = {s. c_state (client_at b s) = CLIENT_ACTIVE
     \<and> (\<exists>p. filter_match p topic \<and> subscriptions (b_trie b) p s \<noteq> None)}"

lemma first_gen_reached:
  "first_gen t ns s = Some g \<Longrightarrow> (s, g) \<in> reached t ns" "(s, g) \<in> reached t ns \<Longrightarrow> first_gen t ns s \<noteq> None"
proof (induction ns)
  case (Cons n ns)
  have fd: "s \<in> set (trie_for_each_fd n) \<longleftrightarrow> s \<in> node_subs n" for n by (auto simp: for_each_fd_eq node_subs_def)
  {
    case 1
    then show ?case using Cons by (auto simp: reached_def fd split: if_splits)
  next
    case 2
    then show ?case using Cons by (auto simp: reached_def fd split: if_splits)
  }
qed (simp_all add: reached_def)

lemma first_live_subscribers:
  assumes "trie_wf (b_trie b) fl" "len \<le> length topic" "subs_current b"
  shows "first_live b (b_trie b) (trie_match (b_trie b) topic len) = subscribers b (topic_path topic 0 len)"
proof -
  let ?ns = "trie_match (b_trie b) topic len"
  have R: "(s, g) \<in> reached (b_trie b) ?ns \<longleftrightarrow> (\<exists>p. filter_match p (topic_path topic 0 len) \<and> subscriptions (b_trie b) p s = Some g)" for s g
    unfolding reached_match [OF assms(1,2)] by simp
  show ?thesis
  proof (rule set_eqI)
    fix s
    show "s \<in> first_live b (b_trie b) ?ns \<longleftrightarrow> s \<in> subscribers b (topic_path topic 0 len)"
    proof
      assume "s \<in> first_live b (b_trie b) ?ns"
      then obtain g where "first_gen (b_trie b) ?ns s = Some g" "live_at b s g" by (auto simp: first_live_def)
      then show "s \<in> subscribers b (topic_path topic 0 len)"
        using first_gen_reached(1) R by (fastforce simp: subscribers_def live_at_def)
    next
      assume s: "s \<in> subscribers b (topic_path topic 0 len)"
      then obtain g where "(s, g) \<in> reached (b_trie b) ?ns" unfolding R by (auto simp: subscribers_def)
      then obtain g' where g': "first_gen (b_trie b) ?ns s = Some g'" using first_gen_reached(2) by blast
      then have "\<exists>p. subscriptions (b_trie b) p s = Some g'" using first_gen_reached(1) R by blast
      then have "g' = c_generation (client_at b s)" using assms(3) by (auto simp: subs_current_def)
      then show "s \<in> first_live b (b_trie b) ?ns" using g' s by (simp add: first_live_def live_at_def subscribers_def)
    qed
  qed
qed

lemma matches_clients:
  assumes "trie_wf (b_trie b) fl" "len \<le> length topic" "subs_current b" "n \<in> set (trie_match (b_trie b) topic len)"
    "s \<in> node_subs (tr_nodes (b_trie b) ! n)"
  shows "s < length (b_clients b)"
proof -
  obtain p where "path_node (b_trie b) p = Some n" using assms(4) unfolding match_set [OF assms(1,2)] by blast
  then have "subscriptions (b_trie b) p s \<noteq> None" using assms(5) by (simp add: subscriptions_def)
  then show ?thesis using assms(3) by (auto simp: subs_current_def)
qed

lemma subscribers_range:
  assumes "subs_current b" "s \<in> subscribers b topic"
  shows "s < length (b_clients b)" "s < 4096"
proof -
  obtain p where p: "subscriptions (b_trie b) p s \<noteq> None" using assms(2) by (auto simp: subscribers_def)
  then show "s < length (b_clients b)" using assms(1) by (auto simp: subs_current_def)
  show "s < 4096" using p by (auto simp: subscriptions_def node_subs_def split: option.splits if_splits)
qed

text \<open>The loops of the fan-out are one delivery to each subscriber, from a broker with the base reference.\<close>

definition base_ctx :: "nat \<Rightarrow> nat \<Rightarrow> publish_ctx" where
  "base_ctx m stolen = \<lparr>px_msg_idx = m, px_stolen_buf_idx = stolen, px_sent_bitmap = replicate TRIE_FD_SLOTS 0, px_subscriber_count = 0\<rparr>"

lemma fan_out_deliveries:
  assumes trie: "trie_wf (b_trie b) fl" "len \<le> length topic" "length (trie_match (b_trie b) topic len) \<le> 64" "subs_current b"
    and msg: "msg_pool_get (b_msg_pool b) m = Some msg"
  obtains px ss where "distinct ss" "set ss = subscribers b (topic_path topic 0 len)"
    "process_publish_matches (msg_ref b m) (base_ctx m stolen) (trie_match_collect (b_trie b) topic len)
       = (px, foldl (deliver m (cm_qos msg)) (msg_ref b m) ss)"
proof -
  let ?b1 = "msg_ref b m" and ?q = "cm_qos msg" and ?ns = "trie_match (b_trie b) topic len" and ?px = "base_ctx m stolen"
  obtain msg' where g: "msg_pool_get (b_msg_pool ?b1) m = Some msg'" "same_msg msg msg'"
    by (rule pools_same_get [OF msg_ref_pools msg])
  have same: "client_at ?b1 = client_at b" "b_trie ?b1 = b_trie b" "b_clients ?b1 = b_clients b"
    by (simp_all add: msg_ref_same) (simp_all add: msg_ref_def)
  have ns: "trie_match_collect (b_trie b) topic len = ?ns" using trie(3) by (simp add: match_collect_ok TRIE_MAX_MATCHES_def)
  obtain px b' where r: "process_publish_matches ?b1 ?px ?ns = (px, b')" by fastforce
  have "served m ?q (?px, ?b1) ((\<Union>n \<in> set ?ns. node_subs (tr_nodes (b_trie b) ! n)) - sent (fst (?px, ?b1)))
      (first_live (snd (?px, ?b1)) (b_trie b) ?ns - sent (fst (?px, ?b1))) (foldl (deliver_node msg' ?q (b_trie b)) (?px, ?b1) ?ns)"
    by (rule deliver_nodes_served)
      (use matches_clients [OF trie(1,2,4)] publish_of_msg(4) [OF g(2)] in \<open>auto simp: base_ctx_def TRIE_FD_SLOTS_def same\<close>)
  moreover have "sent ?px = {}" by (auto simp: sent_def base_ctx_def TRIE_FD_SLOTS_def)
  moreover have "first_live ?b1 (b_trie b) ?ns = subscribers b (topic_path topic 0 len)"
    unfolding first_live_subscribers [OF trie(1,2,4), symmetric] by (simp add: first_live_def live_at_def same)
  moreover have "foldl (deliver_node msg' ?q (b_trie b)) (?px, ?b1) ?ns = (px, b')"
    using r g publish_of_msg(4) [OF g(2)] by (simp add: process_publish_matches_def same base_ctx_def)
  ultimately obtain ss where "distinct ss" "set ss = subscribers b (topic_path topic 0 len)" "b' = foldl (deliver m ?q) ?b1 ss"
    by (auto simp: served_def)
  then show thesis using that r ns by metis
qed

text \<open>What follows the loops.\<close>

lemma fan_out_end:
  assumes run: "process_publish_matches (msg_ref b m) (base_ctx m stolen) (trie_match_collect (b_trie b) topic len) = (px, b')"
  shows "client_at (fan_out b m stolen topic len) = client_at b'"
    "msg_pool_unref (b_msg_pool b') m = (r, mp) \<Longrightarrow> b_msg_pool (fan_out b m stolen topic len) = (if r = 0 then msg_pool_free mp m else mp)"
    "msg_pool_unref (b_msg_pool b') m = (r, mp) \<Longrightarrow> b_recv_pool (fan_out b m stolen topic len)
       = (if r = 0 then buf_pool_free (b_recv_pool b') stolen else b_recv_pool b')"
proof -
  have "process_publish_matches (b\<lparr>b_msg_pool := msg_pool_ref (b_msg_pool b) m\<rparr>)
      \<lparr>px_msg_idx = m, px_stolen_buf_idx = stolen, px_sent_bitmap = replicate TRIE_FD_SLOTS 0, px_subscriber_count = 0\<rparr>
      (trie_match_collect (b_trie b) topic len) = (px, b')" using run by (simp add: base_ctx_def msg_ref_def)
  then show "client_at (fan_out b m stolen topic len) = client_at b'"
    "msg_pool_unref (b_msg_pool b') m = (r, mp) \<Longrightarrow> b_msg_pool (fan_out b m stolen topic len) = (if r = 0 then msg_pool_free mp m else mp)"
    "msg_pool_unref (b_msg_pool b') m = (r, mp) \<Longrightarrow> b_recv_pool (fan_out b m stolen topic len)
       = (if r = 0 then buf_pool_free (b_recv_pool b') stolen else b_recv_pool b')"
    by (simp_all add: fan_out_def Let_def client_at_def fun_eq_iff split: prod.splits)
qed

text \<open>C3: a publication whose topic reaches at most 64 nodes is queued once for every live subscriber of a matching
  filter, with the QoS of the message and behind what the client has still to get, unless that client's queue is full;
  nothing else changes in any client slot.  A client with several matching filters gets one copy, which the standard allows
  (MQTT-3.3.5-1) and \<^verbatim>\<open>docs/spec/08-trie.md\<close> 8.7.3 contradicts; which filters match is said in theory \<open>Trie_Match\<close>.\<close>

theorem fan_out_reaches_subscribers:
  assumes trie: "trie_wf (b_trie b) fl" "len \<le> length topic" "length (trie_match (b_trie b) topic len) \<le> 64" "subs_current b"
    and clients: "\<forall>s < length (b_clients b). egress_queue_wf (client_at b s)"
    and msg: "msg_pool_get (b_msg_pool b) m = Some msg" "msg_fits msg"
  shows "if s \<in> subscribers b (topic_path topic 0 len)
    then delivered m msg (cm_qos msg) (client_at b s) (client_at (fan_out b m stolen topic len) s)
    else client_at (fan_out b m stolen topic len) s = client_at b s"
proof -
  let ?b1 = "msg_ref b m" and ?q = "cm_qos msg"
  obtain msg' where g: "msg_pool_get (b_msg_pool ?b1) m = Some msg'" "same_msg msg msg'"
    by (rule pools_same_get [OF msg_ref_pools msg(1)])
  obtain px ss where ss: "distinct ss" "set ss = subscribers b (topic_path topic 0 len)"
    and run: "process_publish_matches ?b1 (base_ctx m stolen) (trie_match_collect (b_trie b) topic len) = (px, foldl (deliver m ?q) ?b1 ss)"
    by (rule fan_out_deliveries [OF trie msg(1)])
  have "\<forall>s \<in> set ss. s < length (b_clients ?b1) \<and> egress_queue_wf (client_at ?b1 s)"
    using clients subscribers_range(1) [OF trie(4)] by (simp add: ss(2) msg_ref_same)
  from deliver_each [OF ss(1) this g(1), of ?q, THEN spec, of s]
  have "if s \<in> set ss then delivered m msg' ?q (client_at b s) (client_at (foldl (deliver m ?q) ?b1 ss) s)
     else client_at (foldl (deliver m ?q) ?b1 ss) s = client_at b s"
    using msg(2) publish_of_msg(3) [OF g(2)] by (cases "s \<in> set ss") (simp_all add: msg_ref_same)
  moreover have "delivered m msg' ?q = delivered m msg ?q" using publish_of_msg(2) [OF g(2)] by (simp add: delivered_def fun_eq_iff)
  ultimately show ?thesis using fan_out_end(1) [OF run] by (cases "s \<in> set ss") (simp_all add: ss(2))
qed

text \<open>C4: after the fan-out of a message just stored, whose subscribers have nothing to discard in front of their queues,
  its reference count is the number of queues that took it; when none did, the message and the stolen buffer are back in
  their pools.\<close>

theorem fan_out_counts_references:
  assumes trie: "trie_wf (b_trie b) fl" "len \<le> length topic" "length (trie_match (b_trie b) topic len) \<le> 64" "subs_current b"
    and clients: "\<forall>s < length (b_clients b). egress_queue_wf (client_at b s) \<and> head_kept (client_at b s)"
    and msg: "msg_in_pool (b_msg_pool b) m" "msg_fits (mp_msgs (b_msg_pool b) ! m)" "msg_pool_refcount (b_msg_pool b) m = 0"
    and n: "n = card (takers b (subscribers b (topic_path topic 0 len)))"
  shows "if n = 0
    then b_msg_pool (fan_out b m stolen topic len) = msg_pool_free (b_msg_pool b) m
       \<and> b_recv_pool (fan_out b m stolen topic len) = buf_pool_free (b_recv_pool b) stolen
    else b_msg_pool (fan_out b m stolen topic len) = with_refs (b_msg_pool b) m (of_nat n)
       \<and> msg_pool_refcount (b_msg_pool (fan_out b m stolen topic len)) m = of_nat n
       \<and> b_recv_pool (fan_out b m stolen topic len) = b_recv_pool b"
proof -
  let ?b1 = "msg_ref b m" and ?p = "b_msg_pool b" and ?msg = "mp_msgs (b_msg_pool b) ! m"
  have g: "msg_pool_get ?p m = Some ?msg" using msg(1) by (simp add: msg_pool_get_def msg_in_pool_def)
  have p1: "b_msg_pool ?b1 = with_refs ?p m 1" using refs_ref(1) [OF msg(1)] msg(3) by (simp add: msg_ref_def)
  obtain px ss where ss: "distinct ss" "set ss = subscribers b (topic_path topic 0 len)"
    and run: "process_publish_matches ?b1 (base_ctx m stolen) (trie_match_collect (b_trie b) topic len)
       = (px, foldl (deliver m (cm_qos ?msg)) ?b1 ss)"
    by (rule fan_out_deliveries [OF trie g])
  let ?b2 = "foldl (deliver m (cm_qos ?msg)) ?b1 ss"
  have t: "takers ?b1 (set ss) = takers b (subscribers b (topic_path topic 0 len))" by (simp add: takers_def ss(2) msg_ref_same)
  have "set ss \<subseteq> {..<4096}" using subscribers_range(2) [OF trie(4)] ss(2) by auto
  from card_mono [OF _ this] have len: "length ss \<le> 4096" using distinct_card [OF ss(1)] by simp
  have "takers b (subscribers b (topic_path topic 0 len)) \<subseteq> set ss" by (auto simp: takers_def ss(2))
  from card_mono [OF _ this] have n4: "n \<le> 4096" using len distinct_card [OF ss(1)] n by simp
  have q: "\<forall>s \<in> set ss. s < length (b_clients ?b1) \<and> egress_queue_wf (client_at ?b1 s) \<and> head_kept (client_at ?b1 s)"
    using clients subscribers_range(1) [OF trie(4)] by (simp add: ss(2) msg_ref_same)
  have fits: "msg_fits (mp_msgs (b_msg_pool ?b1) ! m)"
    using msg(1,2) by (simp add: p1 with_refs_def msg_update_def msg_in_pool_def msg_fits_def)
  have "b_msg_pool ?b2 = with_refs ?p m (1 + of_nat n) \<and> b_recv_pool ?b2 = b_recv_pool b"
    using deliver_each_refs [OF ss(1) q _ fits] msg(1) len by (simp add: p1 t n [symmetric] msg_ref_same)
  then have two: "b_msg_pool ?b2 = with_refs ?p m (1 + of_nat n)" "b_recv_pool ?b2 = b_recv_pool b" by simp_all
  have "msg_in_pool (b_msg_pool ?b2) m" using msg(1) by (simp add: two)
  from refs_ref(2) [OF this] have u: "msg_pool_unref (b_msg_pool ?b2) m = (of_nat n, with_refs ?p m (of_nat n))"
    using msg(1) by (simp add: two)
  have z: "(of_nat n :: u32) = 0 \<longleftrightarrow> n = 0" using n4 by (simp add: word_unat_eq_iff unat_of_nat take_bit_eq_mod)
  have "with_refs ?p m 0 = ?p" using refs_ref(3) [OF msg(1)] msg(3) by simp
  then show ?thesis using fan_out_end(2,3) [OF run u] msg(1) z two(2) by simp
qed

text \<open>Six clients, the last subscribed to a/+, and a message for a/b.\<close>

definition news_msg :: canonical_msg where
  "news_msg = zero_msg\<lparr>cm_topic_off := 4, cm_topic_len := 3, cm_payload_off := 7, cm_payload_len := 1, cm_qos := 1\<rparr>"

definition news_client :: client_slot where
  "news_client = (initial_client 6 4 4 0)\<lparr>c_state := CLIENT_ACTIVE, c_generation := 3\<rparr>"

definition news_broker :: "broker \<Rightarrow> broker" where
  "news_broker b = b\<lparr>b_clients := replicate 6 news_client, b_trie := sample_trie,
     b_msg_pool := (b_msg_pool b)\<lparr>mp_msgs := [news_msg], mp_capacity := 1\<rparr>\<rparr>"

lemma sample_trie_matches: "length (trie_match sample_trie [0x61, 0x2F, 0x62] 3) \<le> 1"
proof -
  obtain fl where wf: "trie_wf sample_trie fl" using sample_trie_wf by blast
  then have inv: "trie_inv sample_trie fl" by (simp add: trie_wf_def)
  have d: "distinct (trie_match sample_trie [0x61, 0x2F, 0x62] 3)"
    by (rule trie_match_distinct [OF wf]) (simp_all add: topic_path_a_b)
  have "set (trie_match sample_trie [0x61, 0x2F, 0x62] 3) \<subseteq> {n. path_node sample_trie [[0x61], [SEG_PLUS]] = Some n}"
  proof
    fix n assume "n \<in> set (trie_match sample_trie [0x61, 0x2F, 0x62] 3)"
    then obtain p where p: "path_node sample_trie p = Some n" "live_node sample_trie n"
      using match_set [OF wf, of 3 "[0x61, 0x2F, 0x62]"] by auto
    then obtain s where "s \<in> node_subs (tr_nodes sample_trie ! n)"
      using live_node_subs [OF wf walk_allocated [OF inv root_allocated [OF inv] p(1)]] by blast
    then have "p = [[0x61], [SEG_PLUS]]" using sample_trie_only [of p s] p(1) by (simp add: subscriptions_def)
    then show "n \<in> {n. path_node sample_trie [[0x61], [SEG_PLUS]] = Some n}" using p(1) by simp
  qed
  moreover have "card {n. path_node sample_trie [[0x61], [SEG_PLUS]] = Some n} \<le> 1"
    by (cases "path_node sample_trie [[0x61], [SEG_PLUS]]") (simp_all del: walk.simps)
  moreover have "finite {n. path_node sample_trie [[0x61], [SEG_PLUS]] = Some n}"
    by (cases "path_node sample_trie [[0x61], [SEG_PLUS]]") (simp_all del: walk.simps)
  ultimately have "card (set (trie_match sample_trie [0x61, 0x2F, 0x62] 3)) \<le> 1" using card_mono le_trans by blast
  then show ?thesis unfolding distinct_card [OF d] .
qed

lemma news_clients:
  "s < 6 \<Longrightarrow> client_at (news_broker b) s = news_client" "length (b_clients (news_broker b)) = 6" "b_trie (news_broker b) = sample_trie"
  by (simp_all add: news_broker_def client_at_def)

lemma news_client_facts:
  "egress_queue_wf news_client" "c_egress_count news_client = 0" "c_egress_capacity news_client = 4"
  "egress_contents news_client = []" "c_state news_client = CLIENT_ACTIVE" "c_generation news_client = 3"
proof -
  have pow: "\<exists>k. (4 :: nat) = 2 ^ k" by (rule exI [of _ 2]) simp
  then show "egress_queue_wf news_client" "c_egress_count news_client = 0" "c_egress_capacity news_client = 4"
    "egress_contents news_client = []" "c_state news_client = CLIENT_ACTIVE" "c_generation news_client = 3"
    by (simp_all add: egress_queue_wf_def egress_ring_wf_def news_client_def initial_client_def zero_client_def
        pow2_table_def zero_segment_def egress_contents_def ring_contents_def)
qed

lemma news_current: "subs_current (news_broker b)"
  unfolding subs_current_def news_clients(3)
proof (intro allI impI)
  fix p s g assume "subscriptions sample_trie p s = Some g"
  from sample_trie_only [OF this] show "s < length (b_clients (news_broker b)) \<and> g = c_generation (client_at (news_broker b) s)"
    using news_clients news_client_facts(6) by simp
qed

lemma news_subscribers: "subscribers (news_broker b) (topic_path [0x61, 0x2F, 0x62] 0 3) = {5}"
proof (rule set_eqI)
  fix s
  have m: "filter_match p [[0x61], [0x62]] \<and> subscriptions sample_trie p s \<noteq> None \<Longrightarrow> s = 5" for p
    using sample_trie_only [of p s] by blast
  have "filter_match [[0x61], [0x2B]] [[0x61], [0x62]] \<and> subscriptions sample_trie [[0x61], [0x2B]] 5 \<noteq> None"
    using sample_trie_subs by simp
  moreover have "c_state (client_at (news_broker b) 5) = CLIENT_ACTIVE" using news_clients(1) news_client_facts(5) by simp
  ultimately show "s \<in> subscribers (news_broker b) (topic_path [0x61, 0x2F, 0x62] 0 3) \<longleftrightarrow> s \<in> {5}"
    using m unfolding subscribers_def topic_path_a_b news_clients(3) by blast
qed

lemma news_message:
  "msg_pool_get (b_msg_pool (news_broker b)) 0 = Some news_msg" "mp_msgs (b_msg_pool (news_broker b)) ! 0 = news_msg" "msg_fits news_msg"
  "cm_qos news_msg = 1" "msg_in_pool (b_msg_pool (news_broker b)) 0" "msg_pool_refcount (b_msg_pool (news_broker b)) 0 = 0"
  by (simp_all add: news_broker_def msg_pool_get_def msg_fits_def news_msg_def zero_msg_def msg_in_pool_def MSG_POOL_INVALID_def
      msg_pool_refcount_def)

theorem fan_out_reaches_subscribers_witness:
  "\<exists>b seg. egress_contents (client_at (fan_out b 0 0 [0x61, 0x2F, 0x62] 3) 5) = [seg] \<and> seg_msg_idx seg = 0 \<and> seg_qos seg = 1
     \<and> egress_contents (client_at (fan_out b 0 0 [0x61, 0x2F, 0x62] 3) 4) = []"
proof -
  fix b0 :: broker
  let ?b = "news_broker b0" and ?t = "[0x61, 0x2F, 0x62] :: bytes"
  obtain fl where wf: "trie_wf (b_trie ?b) fl" using sample_trie_wf news_clients(3) by auto
  have T: "if s \<in> subscribers ?b (topic_path ?t 0 3)
      then delivered 0 news_msg (cm_qos news_msg) (client_at ?b s) (client_at (fan_out ?b 0 0 ?t 3) s)
      else client_at (fan_out ?b 0 0 ?t 3) s = client_at ?b s" for s
    by (rule fan_out_reaches_subscribers [OF wf])
      (use sample_trie_matches news_current in \<open>simp_all add: news_clients news_client_facts news_message\<close>)
  have "publish_queued 0 news_msg 1 news_client (client_at (fan_out ?b 0 0 ?t 3) 5)"
    using T [of 5] by (simp add: news_subscribers news_clients news_client_facts news_message delivered_def egress_full_def)
  then have "\<exists>seg. egress_contents (client_at (fan_out ?b 0 0 ?t 3) 5) = [seg] \<and> seg_msg_idx seg = 0 \<and> seg_qos seg = 1"
    by (auto simp: publish_queued_def news_client_facts publish_of_def)
  moreover have "egress_contents (client_at (fan_out ?b 0 0 ?t 3) 4) = []"
    using T [of 4] by (simp add: news_subscribers news_clients news_client_facts)
  ultimately show ?thesis by blast
qed

theorem fan_out_counts_references_witness:
  "\<exists>b. msg_pool_refcount (b_msg_pool (fan_out b 0 0 [0x61, 0x2F, 0x62] 3)) 0 = 1"
proof -
  fix b0 :: broker
  let ?b = "news_broker b0" and ?t = "[0x61, 0x2F, 0x62] :: bytes"
  obtain fl where wf: "trie_wf (b_trie ?b) fl" using sample_trie_wf news_clients(3) by auto
  have n: "(1 :: nat) = card (takers ?b (subscribers ?b (topic_path ?t 0 3)))"
  proof -
    have "takers ?b {5} = {5}" by (auto simp: takers_def news_clients news_client_facts egress_full_def)
    then show ?thesis by (simp add: news_subscribers)
  qed
  have "msg_pool_refcount (b_msg_pool (fan_out ?b 0 0 ?t 3)) 0 = of_nat 1"
    using fan_out_counts_references [OF wf _ _ news_current _ news_message(5) _ news_message(6) n, where stolen = 0]
      sample_trie_matches
    by (simp add: news_clients news_client_facts news_message head_kept_def)
  then show ?thesis by (intro exI) simp
qed

end
