(* ===== verification/Subs_Owned.thy ===== *)
theory Subs_Owned
  imports Frame Slot_Correct Fan_Out
begin

text \<open>
  The two indexes of the broker, the topic trie and the map of client identifiers: both are well formed, and every
  subscription in the trie belongs to a slot that is in use and carries its generation.  What the operations on slots, on
  the trie and on the map do to this.
\<close>

section \<open>The operations that leave both alone\<close>

definition index_view :: "broker \<Rightarrow> topic_trie \<times> hashmap" where
  "index_view b = (b_trie b, b_client_map b)"

interpretation index_kept: buffer_frame index_view "\<lambda>_. True"
proof
  show "index_view (client_update b s f) = index_view b" for b s f by (simp add: index_view_def client_update_def)
  show "index_view (snd (broker_enter k b (\<lambda>enter r. ring_submit enter r 0))) = index_view b"
    "index_view (snd (broker_enter k b (\<lambda>enter r. ring_submit_and_wait enter r 1))) = index_view b" for k b
    by (simp_all add: index_view_def broker_enter_def split: prod.split)
qed (simp_all add: index_view_def recv_buf_update_def)

section \<open>Owners\<close>

definition slot_owned :: "broker \<Rightarrow> nat \<Rightarrow> u8 \<Rightarrow> bool" where
  "slot_owned b s g \<longleftrightarrow> s < length (b_clients b) \<and> c_state (client_at b s) \<noteq> CLIENT_FREE \<and> c_generation (client_at b s) = g"

definition indexes_ok :: "broker \<Rightarrow> bool" where
  "indexes_ok b \<longleftrightarrow> (\<exists>fl. trie_wf (b_trie b) fl) \<and> (\<forall>p s g. subscriptions (b_trie b) p s = Some g \<longrightarrow> slot_owned b s g)
     \<and> hashmap_wf (b_client_map b)"

text \<open>Every owner keeps its slot.\<close>

definition owners_stay :: "broker \<Rightarrow> broker \<Rightarrow> bool" where
  "owners_stay b b' \<longleftrightarrow> (\<forall>s g. slot_owned b s g \<longrightarrow> slot_owned b' s g)"

lemma owners_refl [simp]: "owners_stay b b"
  by (simp add: owners_stay_def)

lemma owners_trans: "owners_stay b b1 \<Longrightarrow> owners_stay b1 b' \<Longrightarrow> owners_stay b b'"
  by (simp add: owners_stay_def)

lemma indexes_ok_stay:
  assumes "indexes_ok b" "index_view b' = index_view b" "owners_stay b b'"
  shows "indexes_ok b'"
  using assms unfolding index_view_def prod.inject indexes_ok_def owners_stay_def by metis

lemma owned_tab:
  assumes "tab b' = tab b"
  shows "slot_owned b' = slot_owned b"
proof -
  have m: "map (\<lambda>c. (c_state c, c_fd c, c_generation c)) (b_clients b') = map (\<lambda>c. (c_state c, c_fd c, c_generation c)) (b_clients b)"
    and l: "length (b_clients b') = length (b_clients b)"
    using assms tab_fields(1) [OF assms] by (simp_all only: tab_def prod.inject)
  have "c_state (client_at b' s) = c_state (client_at b s) \<and> c_generation (client_at b' s) = c_generation (client_at b s)"
    if "s < length (b_clients b)" for s
    using arg_cong [OF m, of "\<lambda>xs. xs ! s"] that l by (simp add: client_at_def)
  then show ?thesis using l unfolding slot_owned_def fun_eq_iff by metis
qed

lemma owners_tab: "tab b' = tab b \<Longrightarrow> owners_stay b b'"
  using owned_tab [of b' b] by (simp add: owners_stay_def)

lemma owners_conn: "conn b' = conn b \<Longrightarrow> owners_stay b b'"
  by (rule owners_tab) (rule tab_conn)

lemma owners_set:
  assumes "b_clients b' = (b_clients b)[s := c']"
    and "c_state (client_at b s) \<noteq> CLIENT_FREE \<Longrightarrow> c_state c' \<noteq> CLIENT_FREE \<and> c_generation c' = c_generation (client_at b s)"
  shows "owners_stay b b'"
  unfolding owners_stay_def slot_owned_def
proof (intro allI impI)
  fix j g assume o: "j < length (b_clients b) \<and> c_state (client_at b j) \<noteq> CLIENT_FREE \<and> c_generation (client_at b j) = g"
  then have "client_at b' j = (if j = s then c' else client_at b j)" by (simp add: client_at_def assms(1) nth_list_update)
  then show "j < length (b_clients b') \<and> c_state (client_at b' j) \<noteq> CLIENT_FREE \<and> c_generation (client_at b' j) = g"
    using o assms by (cases "j = s") auto
qed

lemma owners_update:
  "c_generation (f (client_at b s)) = c_generation (client_at b s) \<Longrightarrow>
   (c_state (client_at b s) \<noteq> CLIENT_FREE \<Longrightarrow> c_state (f (client_at b s)) \<noteq> CLIENT_FREE) \<Longrightarrow> owners_stay b (client_update b s f)"
  by (rule owners_set [of _ _ s "f (client_at b s)"]) (simp_all add: client_update_def client_at_def)

section \<open>Submitting\<close>

lemma owners_close: "owners_stay b (submit_close k b fd)"
proof -
  let ?b1 = "case broker_get_client_by_fd b fd of
                 Some s \<Rightarrow> if c_state (client_at b s) = CLIENT_ACTIVE
                           then client_update b s (\<lambda>c. c\<lparr>c_state := CLIENT_CLOSING\<rparr>) else b
               | None \<Rightarrow> b"
  have c: "conn (submit_close k b fd) = conn ?b1"
    unfolding submit_close_def Let_def by (simp only: close_sqe_conn conn_sys)
  have "owners_stay b ?b1" by (auto intro: owners_update split: option.split)
  then show ?thesis using owners_trans owners_conn [OF c] by blast
qed

lemma owners_recv_internal: "owners_stay b (snd (submit_recv_internal k b s))"
proof (cases "get_sqe_with_flush k b")
  case (Pair i b1)
  note o1 = owners_conn [OF conn_get_sqe [OF Pair]]
  show ?thesis
  proof (cases "i = None \<or> client_recv_buf (client_at b1 s) (b_recv_pool b1) = None")
    case True
    then show ?thesis using Pair o1 by (cases i) (auto simp: submit_recv_internal_def)
  next
    case False
    then obtain x buf where x: "i = Some x" "client_recv_buf (client_at b1 s) (b_recv_pool b1) = Some buf" by auto
    define b2 where "b2 = snd (maybe_compact_recv_buf b1 s)"
    have o2: "owners_stay b b2" using owners_trans [OF o1 owners_tab [OF compact_tab]] by (simp add: b2_def)
    have put: "owners_stay b (put_sqe (sys_shutdown b2 fd) x f ud)" "owners_stay b (put_sqe b2 x f ud)" for fd f ud
      using owners_trans [OF o2 owners_conn] by simp_all
    have up: "owners_stay b3 (client_update b3 s (\<lambda>c. c\<lparr>c_recv_pending := True\<rparr>))"
        "owners_stay b3 (client_update b3 s (\<lambda>c. c\<lparr>c_state := CLIENT_CLOSING\<rparr>))" for b3
      by (rule owners_update; simp)+
    show ?thesis
      using Pair x owners_trans [OF put(1) up(2)] owners_trans [OF put(2) up(1)]
      by (simp add: submit_recv_internal_def Let_def b2_def [symmetric])
  qed
qed

lemma owners_submit_recv: "owners_stay b (submit_recv k b s)"
proof -
  have "owners_stay b1 (recv_retry_enqueue b1 s)" for b1 by (rule owners_tab) (simp add: recv_retry_enqueue_def)
  then show ?thesis using owners_recv_internal [of b k s] owners_trans
    by (auto simp: submit_recv_def split: prod.splits bool.splits)
qed

section \<open>Slots\<close>

lemma owners_alloc:
  assumes R: "table_rel b T" and al: "broker_alloc_slot b fd = (r, b')"
  shows "owners_stay b b'"
proof (cases r)
  case None
  then have "b_clients b' = b_clients b" using al by (auto simp: broker_alloc_slot_def Let_def split: if_splits prod.splits)
  then show ?thesis by (simp add: owners_stay_def slot_owned_def client_at_def)
next
  case (Some s)
  then have s: "s = b_free_head b" "s < b_max_clients b"
    and c: "\<exists>i. b_clients b' = (b_clients b)[s := client_init (client_at b s) fd i (b_max_inflight b)]"
    using al by (auto simp: broker_alloc_slot_def Let_def client_update_def client_at_def split: if_splits prod.splits)
  have "slot_chain b s (tb_free T)" using table_relD(4) [OF R] s(1) by simp
  then have "s \<in> set (tb_free T)" using s(2) by (cases "tb_free T") auto
  then have "tb_phase T s = Vacant" using table_wfD(2) [OF table_relD(10) [OF R]] by blast
  then have free: "c_state (client_at b s) = CLIENT_FREE" using table_relD(11) [OF R s(2)] phase_of_fd(2) by metis
  then show ?thesis using c owners_set [of b' b s] by blast
qed

lemma owners_dormant:
  assumes R: "table_rel b T" and con: "connected b s"
  shows "owners_stay b (broker_slot_go_dormant b s)"
proof -
  note c = connected_fd [OF R con]
  show ?thesis
    by (rule owners_set [of _ _ s "client_go_dormant (dropped_client (client_at b s))"])
      (simp_all add: broker_go_dormant_eq [OF con c(2,4,5)] client_go_dormant_def dropped_client_def)
qed

section \<open>Subscribing and unsubscribing\<close>

lemma indexes_ok_trie:
  assumes "indexes_ok b" "\<exists>fl. trie_wf t fl" "\<And>p s g. subscriptions t p s = Some g \<Longrightarrow> subscriptions (b_trie b) p s = Some g \<or> slot_owned b s g"
  shows "indexes_ok (b\<lparr>b_trie := t\<rparr>)"
proof -
  have "slot_owned (b\<lparr>b_trie := t\<rparr>) = slot_owned b" by (simp add: fun_eq_iff slot_owned_def client_at_def)
  moreover have "\<forall>p s g. subscriptions t p s = Some g \<longrightarrow> slot_owned b s g"
    using assms(1,3) unfolding indexes_ok_def by blast
  ultimately show ?thesis using assms(1,2) unfolding indexes_ok_def by simp
qed

text \<open>The qos byte behind a filter bounds it.\<close>

lemma subscribe_loop_in:
  "subscribe_loop buf p len pos fs = Inr gs \<Longrightarrow> \<forall>f \<in> set fs. str_in buf (flt_topic f) \<Longrightarrow> \<forall>f \<in> set gs. str_in buf (flt_topic f)"
proof (induction buf p len pos fs arbitrary: gs rule: subscribe_loop.induct)
  case (1 buf p len pos fs)
  show ?case
  proof (cases "pos < len \<and> length fs < MQTT_MAX_FILTERS")
    case False
    then have "gs = fs" using 1(2) by (simp only: subscribe_loop.simps [of buf p len pos fs] if_False sum.inject)
    then show ?thesis using 1(3) by simp
  next
    case True
    then obtain t n where t: "mqtt_parse_string buf (p + pos) (len - pos) = Inr (t, n)"
      using 1(2) by (auto simp: subscribe_loop.simps [of buf p len pos fs] split: sum.splits prod.splits)
    obtain q where q: "rd buf (p + (pos + n)) = Inr q" "\<not> len \<le> pos + n" "\<not> q > 2"
      "subscribe_loop buf p len (pos + n + 1) (fs @ [\<lparr>flt_topic = t, flt_qos = q\<rparr>]) = Inr gs"
      using 1(2) True t by (auto simp: subscribe_loop.simps [of buf p len pos fs] Let_def split: sum.splits if_splits)
    have "str_in buf t"
      using mqtt_parse_string_Inr [OF t] q(1) by (auto simp: str_in_def rd_def split: if_splits)
    then show ?thesis using 1(1) [OF True t refl refl q(2,1,3,4)] 1(3) by simp
  qed
qed

lemma parse_subscribe_in: "mqtt_parse_subscribe buf p len = Inr pkt \<Longrightarrow> f \<in> set (sub_filters pkt) \<Longrightarrow> str_in buf (flt_topic f)"
  using subscribe_loop_in [of buf p len 2 "[]"] by (auto simp: mqtt_parse_subscribe_def ebind_Inr_iff split: if_splits)

lemma str_in_bytes: "str_in buf f \<Longrightarrow> str_len f \<le> length (str_bytes buf f)"
  by (auto simp: str_in_def str_bytes_def split: option.splits)

lemma sub_add_owned:
  assumes "indexes_ok b" "slot_owned b s gen" "len \<le> length filt" "sub_add b s gen filt len qos = (r, b')"
  shows "indexes_ok b' \<and> slot_owned b' s gen"
proof (cases "len = 0")
  case True
  then show ?thesis using assms by (simp add: sub_add_def)
next
  case False
  obtain t where t: "trie_subscribe (b_trie b) filt len s gen = (r, t)" and b': "b' = b\<lparr>b_trie := t\<rparr>"
    using assms(4) False by (auto simp: sub_add_def split: prod.splits)
  obtain fl where fl: "trie_wf (b_trie b) fl" using assms(1) by (auto simp: indexes_ok_def)
  note ok = trie_subscribe_ok [OF assms(3) fl t]
  have "indexes_ok b'" unfolding b'
    by (rule indexes_ok_trie [OF assms(1) ok(1)]) (use assms(2) in \<open>auto simp: ok(2) split: if_splits\<close>)
  moreover have "slot_owned b' s gen" using assms(2) by (simp add: b' slot_owned_def client_at_def)
  ultimately show ?thesis ..
qed

lemma add_filters_owned:
  assumes "\<forall>f \<in> set fs. str_in buf (flt_topic f)" "indexes_ok (snd st)" "slot_owned (snd st) s gen"
  shows "indexes_ok (snd (foldl (add_filter s gen buf) st fs))"
  using assms
proof (induction fs arbitrary: st)
  case (Cons f fs)
  obtain codes b where st: "st = (codes, b)" by (cases st)
  obtain r b' where a: "sub_add b s gen (str_bytes buf (flt_topic f)) (str_len (flt_topic f)) (flt_qos f) = (r, b')" by fastforce
  have "indexes_ok b' \<and> slot_owned b' s gen"
    by (rule sub_add_owned [OF _ _ _ a]) (use Cons.prems st str_in_bytes in auto)
  then show ?case using Cons.IH [of "add_filter s gen buf st f"] Cons.prems(1) by (simp add: add_filter_def st a)
qed simp

lemma unsubscribe_walk_some: "unsubscribe_walk t n filt len pos = Some m \<Longrightarrow> \<exists>path. walk t n path = Some m"
proof (induction t n filt len pos rule: unsubscribe_walk.induct)
  case (1 t n filt len pos)
  show ?case
  proof (cases "topic_iter_next filt len pos")
    case None
    then have "walk t n [] = Some m" using 1(2) by (simp add: unsubscribe_walk.simps [of t n filt len pos])
    then show ?thesis by blast
  next
    case (Some sp)
    obtain seg pos' where sp: "sp = (seg, pos')" by (cases sp)
    let ?c = "trie_find_child t n seg (seg_length seg)"
    have c: "?c \<noteq> 0" "unsubscribe_walk t ?c filt len pos' = Some m"
      using 1(2) by (auto simp: unsubscribe_walk.simps [of t n filt len pos] Some sp Let_def split: if_splits)
    obtain path where "walk t ?c path = Some m" using 1(1) [OF Some sp [symmetric] refl c] by blast
    then have "walk t n (take 64 seg # path) = Some m" using c(1) by (simp add: Let_def find_child_take)
    then show ?thesis by blast
  qed
qed

lemma sub_remove_owned:
  assumes "indexes_ok b"
  shows "indexes_ok (sub_remove b s filt len)"
proof -
  obtain fl where fl: "trie_wf (b_trie b) fl" using assms by (auto simp: indexes_ok_def)
  let ?t = "snd (trie_unsubscribe (b_trie b) filt len s)"
  have "(\<exists>fl. trie_wf ?t fl) \<and> (\<forall>p j g. subscriptions ?t p j = Some g \<longrightarrow> subscriptions (b_trie b) p j = Some g)"
  proof (cases "s < 4096 \<and> unsubscribe_walk (b_trie b) 0 filt len 0 \<noteq> None")
    case True
    then obtain m path where m: "unsubscribe_walk (b_trie b) 0 filt len 0 = Some m" "path_node (b_trie b) path = Some m"
      using unsubscribe_walk_some by blast
    have "?t = node_update (b_trie b) m (node_unsubscribe s)"
      using True m(1) by (simp add: trie_unsubscribe_def TRIE_FD_SLOTS_def BITS_PER_SLOT_def)
    then show ?thesis using unsubscribed_node [OF fl m(2)] True by (auto split: if_splits)
  next
    case False
    then have "?t = b_trie b" by (auto simp: trie_unsubscribe_def TRIE_FD_SLOTS_def BITS_PER_SLOT_def split: option.splits)
    then show ?thesis using fl by auto
  qed
  then show ?thesis unfolding sub_remove_def by (intro indexes_ok_trie [OF assms]) blast+
qed

lemma sub_removes_owned: "indexes_ok b \<Longrightarrow> indexes_ok (foldl (\<lambda>b f. sub_remove b s (str_bytes buf f) (str_len f)) b fs)"
  by (induction fs arbitrary: b) (simp_all add: sub_remove_owned)

section \<open>Closing and accepting\<close>

lemma free_owned:
  assumes R: "table_rel b T" and con: "connected b s" and fr: "broker_free_slot b s = Some b'" and o: "indexes_ok b"
    and n: "b_max_clients b \<le> 65536"
  shows "indexes_ok b'"
proof -
  have "s < 65536" using con n by (simp add: connected_def)
  then obtain h where h: "unnamed_map b s = Some h" "hashmap_wf h"
    using o unnamed_map_ok [of b s] unfolding indexes_ok_def by metis
  note c = connected_fd [OF R con]
  have b': "b_clients b' = (b_clients b)[s := freed_client b s]" "b_trie b' = trie_remove_fd (b_trie b) s" "b_client_map b' = h"
    using fr [unfolded broker_free_slot_eq [OF c(2,1,4,5) h(1)] option.inject, symmetric] by simp_all
  obtain fl where fl: "trie_wf (b_trie b) fl" using o by (auto simp: indexes_ok_def)
  have "slot_owned b' j g" if "subscriptions (b_trie b') p j = Some g" for p j g
  proof -
    have "j \<noteq> s" "subscriptions (b_trie b) p j = Some g" using that trie_remove_fd_ok(2) [OF fl, of s p j] b'(2) by (auto split: if_splits)
    then show ?thesis using o by (auto simp: indexes_ok_def slot_owned_def client_at_def b'(1))
  qed
  then show ?thesis using trie_remove_fd_ok(1) [OF fl, of s] by (auto simp: indexes_ok_def b'(2,3) h(2))
qed

lemma handle_close_owned:
  assumes R: "table_rel b T" and h: "handle_close b cqe = Some b'" and o: "indexes_ok b" and n: "b_max_clients b \<le> 65536"
  shows "indexes_ok b'"
proof (cases "broker_get_client_by_fd b (int (unat (ud_fd (cqe_user_data cqe))))")
  case None
  then show ?thesis using h o by (simp add: handle_close_def Let_def)
next
  case (Some s)
  let ?b = "fsm_client_disconnect b s"
  note own = by_fd_owner [OF R Some]
  have i: "nat (b_fd_to_slot b ! nat (int (unat (ud_fd (cqe_user_data cqe))))) = s"
    using Some by (auto simp: broker_get_client_by_fd_def Let_def split: if_splits)
  have t: "tab ?b = tab b" by (rule tab_conn) simp
  have o': "indexes_ok ?b" by (rule indexes_ok_stay [OF o _ owners_tab [OF t]]) simp
  have con: "connected ?b s"
    using own(2) tab_state [OF t] tab_fields(2) [OF t] own(1) table_relD(1) [OF R] by (simp add: connected_def)
  note R' = table_rel_cong [OF t R]
  have "broker_free_slot ?b s = Some b' \<or> b' = broker_slot_go_dormant ?b s"
    using h Some own(2,3) i by (auto simp: handle_close_def Let_def connected_def split: if_splits)
  then show ?thesis
    using free_owned [OF R' con _ o'] n tab_fields(2) [OF t] indexes_ok_stay [OF o' _ owners_dormant [OF R' con]] by auto
qed

lemma handle_accept_owners:
  assumes R: "table_rel b T"
  shows "owners_stay b (handle_accept k b cqe)"
proof -
  let ?fd = "cqe_res cqe"
  define b1 where "b1 = (if b_accept_pending b > 0 then b\<lparr>b_accept_pending := b_accept_pending b - 1\<rparr> else b)"
  define b2 where "b2 = sys_setsockopt_nodelay (b1\<lparr>b_accepts := b_accepts b1 + 1\<rparr>) ?fd"
  have t1: "tab b1 = tab b" by (simp add: b1_def)
  have t2: "tab b2 = tab b" using tab_conn [of b2 "b1\<lparr>b_accepts := b_accepts b1 + 1\<rparr>"] t1 by (simp add: b2_def)
  obtain r b3 where al: "broker_alloc_slot b2 ?fd = (r, b3)" by (cases "broker_alloc_slot b2 ?fd")
  have s3: "owners_stay b b3" using owners_trans [OF owners_tab [OF t2] owners_alloc [OF table_rel_cong [OF t2 R] al]] .
  have acc: "owners_stay b (snd (submit_accept k b4))" if "owners_stay b b4" for b4
    using owners_trans [OF that owners_conn] by simp
  have close: "owners_stay b (sys_close b4 ?fd)" if "owners_stay b b4" for b4
    using owners_trans [OF that owners_conn] by simp
  show ?thesis
    unfolding handle_accept_def Let_def b1_def [symmetric] b2_def [symmetric] al prod.case
    using acc close owners_tab [OF t1] s3 owners_trans [OF s3 owners_submit_recv] by (simp split: option.split)
qed

end
