(* ===== verification/Subs_Loop.thy ===== *)
theory Subs_Loop
  imports Subs_Owned
begin

text \<open>
  Subscriptions through the life of the slots: packets, completions and the event loop keep \<open>indexes_ok\<close>, so in every
  state the loop reaches a subscription belongs to a slot that is in use and has the generation of its present owner.
\<close>

section \<open>Packets\<close>

text \<open>A connection finds its own slot.\<close>

lemma slot_of_active:
  assumes "table_rel b T" "s < b_max_clients b" "c_state (client_at b s) = CLIENT_ACTIVE" "b_max_clients b \<le> 65536"
  shows "slot_of b s = s"
proof -
  have "phase_fd (tb_phase T s) = Some (c_fd (client_at b s))" using assms(2,3) table_relD(11) [OF assms(1)] by simp
  then have "b_fd_to_slot b ! nat (c_fd (client_at b s)) = int s" using table_relD(6) [OF assms(1,2)] by blast
  then show ?thesis using assms(2,4) by (simp add: slot_of_def)
qed

text \<open>The slot a completion works for.\<close>

definition active_slot :: "broker \<Rightarrow> nat \<Rightarrow> bool" where
  "active_slot b s \<longleftrightarrow> (\<exists>T. table_rel b T) \<and> s < b_max_clients b \<and> b_max_clients b \<le> 65536 \<and> c_state (client_at b s) = CLIENT_ACTIVE"

lemma active_slot_owned: "active_slot b s \<Longrightarrow> slot_owned b s (c_generation (client_at b s))"
  using table_relD(1) by (auto simp: active_slot_def slot_owned_def)

lemma active_slot_tab: "active_slot b s \<Longrightarrow> tab b' = tab b \<Longrightarrow> active_slot b' s"
  unfolding active_slot_def using table_rel_cong tab_state tab_fields(2) table_relD(1) by metis

lemma subscribe_owned:
  assumes a: "active_slot b s" and o: "indexes_ok b" and h: "handle_subscribe k b s buf p len = Some (go, b')"
  shows "indexes_ok b'"
proof (cases "c_protocol_version (client_at b s) = 0 \<or> (\<exists>e. mqtt_parse_subscribe buf p len = Inl e)")
  case True
  then show ?thesis using h o by (auto simp: handle_subscribe_def split: if_splits)
next
  case False
  then obtain pkt where pkt: "mqtt_parse_subscribe buf p len = Inr pkt" by (cases "mqtt_parse_subscribe buf p len") auto
  have s: "slot_of b s = s" using slot_of_active a by (auto simp: active_slot_def)
  obtain codes b1 where f: "foldl (add_filter s (c_generation (client_at b s)) buf) ([], b) (sub_filters pkt) = (codes, b1)"
    by (metis surj_pair)
  have o1: "indexes_ok b1"
    using add_filters_owned [of "sub_filters pkt" buf "([], b)" s] parse_subscribe_in [OF pkt] o active_slot_owned [OF a] f by fastforce
  have "b' = snd (send_buf k b1 s (mqtt_encode_suback (sub_packet_id pkt) codes (length (sub_filters pkt))))"
    using h False pkt f s by (simp add: handle_subscribe_def)
  then show ?thesis using indexes_ok_stay [OF o1] owners_conn index_kept.view_send(3) conn_send(3) by metis
qed

lemma unsubscribe_owned:
  assumes o: "indexes_ok b" and h: "handle_unsubscribe k b s buf p len = Some (go, b')"
  shows "indexes_ok b'"
proof -
  have "indexes_ok (send_unsuback k b1 s pid)" if "indexes_ok b1" for b1 pid
    by (rule indexes_ok_stay [OF that _ owners_conn]) simp_all
  then show ?thesis using h o sub_removes_owned
    by (auto simp: handle_unsubscribe_def Let_def split: if_splits sum.splits)
qed

lemma hashmap_insert_wf:
  assumes "hashmap_wf h" "value_ok v"
  shows "\<exists>r h'. hashmap_insert h hash v = Some (r, h') \<and> hashmap_wf h'"
  using hashmap_insert_full [of h hash v] hashmap_insert_room [OF assms(1) _ assms(2), of hash] assms(1) by (cases "hashmap_room h") blast+

lemma set_identity_owned:
  assumes o: "indexes_ok b" and s: "s < 65536"
  shows "\<exists>b'. broker_set_client_identity b s cid n = Some b' \<and> indexes_ok b' \<and> conn b' = conn b"
proof -
  define b1 where "b1 = client_update b s (\<lambda>c. client_set_identity c cid n)"
  have c1: "conn b1 = conn b" unfolding b1_def by (rule conn_update) (simp add: client_set_identity_def conn_of_def Let_def)
  have o1: "indexes_ok b1" by (rule indexes_ok_stay [OF o _ owners_conn [OF c1]]) (simp add: b1_def)
  obtain r h where h: "hashmap_insert (b_client_map b1) (c_client_id_hash (client_at b1 s)) (of_nat s) = Some (r, h)" "hashmap_wf h"
    using hashmap_insert_wf [OF _ value_ok_of_nat [OF s]] o1 unfolding indexes_ok_def by blast
  have "indexes_ok (b1\<lparr>b_client_map := h\<rparr>)" using o1 h(2) by (simp add: indexes_ok_def slot_owned_def client_at_def)
  then show ?thesis using h(1) c1 by (simp add: broker_set_client_identity_def b1_def [symmetric] Let_def)
qed

lemma connect_owned:
  assumes a: "active_slot b s" and o: "indexes_ok b" and h: "handle_connect k b s buf p len = Some (go, b')"
  shows "indexes_ok b'"
proof -
  have s: "slot_of b s < 65536" using slot_of_active a by (auto simp: active_slot_def)
  have i: "indexes_ok b1" if "broker_set_client_identity b (slot_of b s) cid n = Some b1" for cid n b1
    using set_identity_owned [OF o s, of cid n] that by auto
  have u: "indexes_ok (client_update b1 s (\<lambda>c. c\<lparr>c_protocol_version := v, c_keepalive := kl, c_clean_session := cs\<rparr>))"
    if "indexes_ok b1" for b1 v kl cs
    by (rule indexes_ok_stay [OF that _ owners_update]) simp_all
  have sd: "indexes_ok (snd (send_buf k b1 s buf'))" if "indexes_ok b1" for b1 buf'
    by (rule indexes_ok_stay [OF that _ owners_conn]) simp_all
  show ?thesis using h i u sd o
    by (auto simp: handle_connect_def Let_def split: if_splits sum.splits bind_splits)
qed

lemma packet_owned:
  assumes a: "active_slot b s" and o: "indexes_ok b" and h: "process_mqtt_packet_ex k b s buf p hdr = Some (r, b')"
  shows "indexes_ok b'"
proof -
  consider "hdr_type hdr = MQTT_SUBSCRIBE" | "hdr_type hdr = MQTT_UNSUBSCRIBE"
    | "hdr_type hdr \<noteq> MQTT_CONNECT" "hdr_type hdr \<noteq> MQTT_SUBSCRIBE" "hdr_type hdr \<noteq> MQTT_UNSUBSCRIBE"
    | "hdr_type hdr = MQTT_CONNECT" by blast
  then show ?thesis
  proof cases
    case 1
    then show ?thesis using h subscribe_owned [OF a o] by (auto simp: process_mqtt_packet_ex_def Let_def)
  next
    case 2
    then show ?thesis using h unsubscribe_owned [OF o] by (auto simp: process_mqtt_packet_ex_def Let_def)
  next
    case 3
    show ?thesis
      by (rule indexes_ok_stay [OF o index_kept.view_packet_other [OF _ h 3] owners_tab]) (simp_all add: after_packet_tab [OF process_packet_after(1) [OF h]])
  next
    case 4
    then show ?thesis using h connect_owned [OF a o] by (auto simp: process_mqtt_packet_ex_def Let_def)
  qed
qed

section \<open>Receiving\<close>

lemma close_owned: "indexes_ok b \<Longrightarrow> indexes_ok (submit_close k b fd)"
  by (rule indexes_ok_stay [OF _ _ owners_close]) simp_all

lemma window_owned: "indexes_ok b \<Longrightarrow> indexes_ok (advance_recv b s n)"
    "indexes_ok b \<Longrightarrow> indexes_ok (client_update b s (\<lambda>c. c\<lparr>c_recv_start := 0\<rparr>))"
  by (rule indexes_ok_stay [OF _ _ owners_tab]; simp add: window_tab)+

lemma recv_round_owned:
  assumes a: "active_slot b s" and o: "indexes_ok b" and h: "recv_round k b s buf data = Some (d, b')"
  shows "indexes_ok b'"
proof (cases "fast_path k b s buf data")
  case (Some r)
  then obtain b1 where b1: "fast_path k b s buf data = Some (Some b1)" "b' = advance_recv b1 s 4" using h by (auto simp: recv_round_def)
  have "indexes_ok b1"
    by (rule indexes_ok_stay [OF o index_kept.view_fast_path [OF _ b1(1)] owners_conn]) (simp_all add: fast_path_conn [OF b1(1)])
  then show ?thesis using window_owned(1) b1(2) by simp
next
  case None
  show ?thesis
  proof (cases "mqtt_packet_complete_ex buf data (c_recv_len (client_at b s))")
    case (Inl e)
    then show ?thesis using h None o close_owned by (cases e) (auto simp: recv_round_def)
  next
    case (Inr x)
    then obtain n hdr where x: "mqtt_packet_complete_ex buf data (c_recv_len (client_at b s)) = Inr (n, hdr)" by (cases x) auto
    then obtain r b1 where p: "process_mqtt_packet_ex k b s buf data hdr = Some (r, b1)"
      and b': "b' = submit_close k b1 (c_fd (client_at b1 s)) \<or> b' = client_update b1 s (\<lambda>c. c\<lparr>c_recv_start := 0\<rparr>) \<or> b' = advance_recv b1 s (nat r)"
      using h None by (auto simp: recv_round_def Let_def split: option.splits if_splits)
    show ?thesis using b' packet_owned [OF a o p] close_owned window_owned by blast
  qed
qed

lemma recv_runs_owned: "recv_runs k s b data r \<Longrightarrow> r = Some b' \<Longrightarrow> active_slot b s \<Longrightarrow> indexes_ok b \<Longrightarrow> indexes_ok b'"
proof (induction rule: recv_runs.induct)
  case (runs_on b buf data data' b1 r)
  show ?case
    by (rule runs_on.IH [OF runs_on.prems(1) active_slot_tab [OF runs_on.prems(2) recv_round_on [OF runs_on.hyps(3)]]
          recv_round_owned [OF runs_on.prems(2,3) runs_on.hyps(3)]])
next
  case (runs_stop b buf data b1)
  then show ?case using recv_round_owned by blast
qed simp_all

lemma process_recv_owned:
  assumes a: "active_slot b s" and o: "indexes_ok b" and p: "process_recv_buffer k b s = Some b'"
  shows "indexes_ok b'"
proof (cases "client_recv_buf (client_at b s) (b_recv_pool b)")
  case None
  then show ?thesis using p o by (simp add: process_recv_buffer_def)
next
  case (Some buf)
  have s: "s < length (b_clients b)" using a table_relD(1) by (auto simp: active_slot_def)
  have "recv_runs k s b (c_recv_start (client_at b s)) (Some b')"
    using Some recv_loop_runs [OF s order_refl, of k "c_recv_start (client_at b s)"] p by (simp add: process_recv_buffer_def)
  then show ?thesis using recv_runs_owned a o by blast
qed

lemma handle_recv_owned:
  assumes R: "table_rel b T" and n: "b_max_clients b \<le> 65536" and o: "indexes_ok b" and h: "handle_recv k b cqe = Some b'"
  shows "indexes_ok b'"
proof (cases "broker_get_client b (unat (RECV_CTX_SLOT (ud_ctx (cqe_user_data cqe))))")
  case None
  then show ?thesis using h o by (simp add: handle_recv_def Let_def)
next
  case (Some s)
  then have sm: "s < b_max_clients b" by (simp add: broker_get_client_def split: if_splits)
  define b1 where "b1 = client_update b s (\<lambda>c. c\<lparr>c_recv_pending := False\<rparr>)"
  define b2 where "b2 = (client_update b1 s (\<lambda>c. c\<lparr>c_recv_len := c_recv_len c + nat (cqe_res cqe)\<rparr>))
      \<lparr>b_bytes_recv := b_bytes_recv (client_update b1 s (\<lambda>c. c\<lparr>c_recv_len := c_recv_len c + nat (cqe_res cqe)\<rparr>)) + of_int (cqe_res cqe)\<rparr>"
  have t1: "tab b1 = tab b" unfolding b1_def by (rule tab_update) simp_all
  have "tab (client_update b1 s (\<lambda>c. c\<lparr>c_recv_len := c_recv_len c + nat (cqe_res cqe)\<rparr>)) = tab b1" by (rule tab_update) simp_all
  then have t2: "tab b2 = tab b1" by (simp add: b2_def)
  have o1: "indexes_ok b1" by (rule indexes_ok_stay [OF o _ owners_tab [OF t1]]) (simp add: b1_def)
  have o2: "indexes_ok b2" by (rule indexes_ok_stay [OF o1 _ owners_tab [OF t2]]) (simp add: b2_def)
  have orphan: "indexes_ok (free_orphan b3 s)" if "indexes_ok b3" for b3
    by (rule indexes_ok_stay [OF that _ owners_tab]) (simp_all add: free_orphan_tab)
  consider "b' = free_orphan b s" | "b' = free_orphan b1 s" | fd where "b' = submit_close k b1 fd"
    | b3 where "c_state (client_at b1 s) = CLIENT_ACTIVE" "process_recv_buffer k b2 s = Some b3" "b' = b3 \<or> b' = submit_recv k b3 s"
    using h unfolding handle_recv_def Let_def Some option.case b1_def [symmetric] b2_def [symmetric]
    by (auto split: if_splits)
  then show ?thesis
  proof cases
    case 4
    have "active_slot b1 s"
      using 4(1) table_rel_cong [OF t1 R] tab_fields(2) [OF t1] sm n by (auto simp: active_slot_def)
    then have o3: "indexes_ok b3" using process_recv_owned [OF active_slot_tab [OF _ t2] o2 4(2)] by blast
    then have "indexes_ok (submit_recv k b3 s)" by (rule indexes_ok_stay [OF _ _ owners_submit_recv]) simp
    then show ?thesis using o3 4(3) by blast
  qed (use orphan o o1 close_owned in auto)
qed

section \<open>The event loop\<close>

lemma dispatch_owned:
  assumes R: "table_rel b T" and n: "b_max_clients b \<le> 65536" and o: "indexes_ok b" and d: "dispatch_cqe k b cqe = Some b'"
  shows "indexes_ok b'"
proof -
  have "indexes_ok b'" if "handle_egress_cqe b cqe = Some b'"
    by (rule indexes_ok_stay [OF o index_kept.view_egress_cqe [OF that] owners_conn [OF conn_egress_cqe [OF that]]])
  moreover have "indexes_ok (handle_send b cqe)"
    by (rule indexes_ok_stay [OF o _ owners_tab]) (simp_all add: handle_send_def)
  moreover have "indexes_ok (handle_send_resp b cqe)"
    by (rule indexes_ok_stay [OF o _ owners_tab [OF handle_send_resp_tab]]) (simp add: handle_send_resp_def Let_def split: option.split)
  moreover have "indexes_ok (handle_accept k b cqe)"
    by (rule indexes_ok_stay [OF o _ handle_accept_owners [OF R]]) simp
  ultimately show ?thesis
    using d o handle_recv_owned [OF R n o] handle_close_owned [OF R _ o n]
    unfolding dispatch_cqe_def Let_def by (simp split: if_splits)
qed

lemma recv_retry_loop_owners: "owners_stay b (snd (recv_retry_loop n k b r))"
proof (induction n arbitrary: b r)
  case (Suc n)
  obtain s b1 where d: "recv_retry_dequeue b = (s, b1)" by (cases "recv_retry_dequeue b")
  note o1 = owners_tab [OF dequeue_tab [OF d]]
  have rec: "owners_stay b (snd (recv_retry_loop n k b2 r'))" if "owners_stay b b2" for b2 r'
    using owners_trans [OF that Suc.IH] .
  have sub: "owners_stay b b2" if "submit_recv_internal k b1 s = (ok, b2)" for ok b2
    using owners_trans [OF o1 owners_recv_internal [of b1 k s]] that by simp
  have enq: "owners_stay b (recv_retry_enqueue b2 s)" if "owners_stay b b2" for b2
    using owners_trans [OF that owners_tab [OF enqueue_tab]] .
  show ?case using o1 rec sub enq d by (auto simp: Let_def split: prod.splits bool.splits)
qed simp

lemma loop_step_owned:
  assumes st: "loop_step k b b'" and R: "table_rel b T" and n: "b_max_clients b \<le> 65536" and o: "indexes_ok b"
  shows "indexes_ok b'"
  using st
proof cases
  case (on_completion cqe)
  then show ?thesis using dispatch_owned [OF R n o] by blast
next
  case on_recv_retries
  have "owners_stay b1 (b1\<lparr>b_recv_retries := x\<rparr>)" for b1 x by (rule owners_tab) simp
  then have "owners_stay b b'"
    using recv_retry_loop_owners [of b "b_recv_retry_capacity b" k 0] owners_trans
    unfolding on_recv_retries process_recv_retries_def Let_def
    by (cases "recv_retry_loop (b_recv_retry_capacity b) k b 0") auto
  then show ?thesis by (intro indexes_ok_stay [OF o]) (simp_all add: on_recv_retries)
next
  case on_flushes
  have "conn b' = conn b"
    using egress_flush_loop_conn [of "b_egress_flush_capacity b" b 0]
    unfolding on_flushes by (cases "egress_flush_loop (b_egress_flush_capacity b) b 0") (simp add: process_egress_flushes_def Let_def)
  then show ?thesis by (intro indexes_ok_stay [OF o] owners_conn) (simp_all add: on_flushes)
next
  case (on_replenish m)
  show ?thesis by (rule indexes_ok_stay [OF o _ owners_conn]) (simp_all add: on_replenish replenish_conn)
next
  case (on_sweep q)
  show ?thesis by (rule indexes_ok_stay [OF o index_kept.view_sweep [OF on_sweep] owners_conn [OF conn_sweep [OF on_sweep]]])
next
  case (on_enter call rc)
  have "index_view b' = index_view b" using on_enter by (auto simp: broker_enter_def index_view_def split: prod.splits)
  then show ?thesis by (rule indexes_ok_stay [OF o _ owners_conn [OF conn_enter [OF on_enter]]])
next
  case (on_ring r)
  have "index_view b' = index_view b" by (simp add: on_ring index_view_def)
  then show ?thesis by (rule indexes_ok_stay [OF o _ owners_conn]) (simp add: on_ring)
qed (simp_all add: indexes_ok_stay [OF o _ owners_conn])

lemma loop_steps_owned:
  assumes run: "(loop_step k)\<^sup>*\<^sup>* b b'" and R: "table_rel b T" and n: "b_max_clients b \<le> 65536" and o: "indexes_ok b"
  shows "indexes_ok b'"
  using run
proof (induction rule: rtranclp_induct)
  case (step b1 b2)
  obtain T1 where "table_rel b1 T1" "b_max_clients b1 = b_max_clients b" using loop_steps_table [OF step.hyps(1) R] by blast
  then show ?case using loop_step_owned [OF step.hyps(2)] step.IH n by simp
qed (rule o)

lemma indexes_ok_current: "indexes_ok b \<Longrightarrow> subs_current b"
  by (auto simp: indexes_ok_def subs_current_def slot_owned_def)

lemma indexes_ok_init: "b_trie b = trie_init \<Longrightarrow> hashmap_wf (b_client_map b) \<Longrightarrow> indexes_ok b"
  using trie_init_correct by (auto simp: indexes_ok_def)

section \<open>Properties\<close>

text \<open>C12: In every state the event loop reaches, each subscription in the topic trie belongs to a slot that is in use and
  carries the generation of its present owner: closing a connection for good takes its subscriptions along, so the next
  owner of the slot starts with none, and a parked session keeps its own.  The map of client identifiers stays well
  formed.\<close>

theorem subscriptions_follow_slots:
  assumes "(loop_step k)\<^sup>*\<^sup>* b b'" "table_rel b T" "b_max_clients b \<le> 65536" "indexes_ok b"
  shows "(\<exists>fl. trie_wf (b_trie b') fl) \<and> (\<forall>p s g. subscriptions (b_trie b') p s = Some g \<longrightarrow>
    s < length (b_clients b') \<and> c_state (client_at b' s) \<noteq> CLIENT_FREE \<and> g = c_generation (client_at b' s))
    \<and> hashmap_wf (b_client_map b')"
  using loop_steps_owned [OF assms] unfolding indexes_ok_def slot_owned_def by metis

text \<open>A parked session with one subscription, and a new connection.\<close>

lemma subscribed_a:
  obtains t where "trie_subscribe trie_init [0x61] 1 0 g = (True, t)" "\<exists>fl. trie_wf t fl"
    "\<And>p s. subscriptions t p s = (if p = [[0x61]] \<and> s = 0 then Some g else None)"
proof -
  have p: "filter_path [0x61] 1 0 = [[0x61]]" by (simp add: filter_path_def split_topic.simps(2))
  have "fst (trie_subscribe trie_init [0x61] 1 0 g)" by (rule subscribe_fresh_ok) (simp_all add: p [simplified])
  then obtain t where t: "trie_subscribe trie_init [0x61] 1 0 g = (True, t)" by (metis (full_types) prod.collapse)
  note ok = trie_subscribe_ok [OF _ trie_init_wf t]
  show thesis using that [OF t ok(1)] ok(2) trie_init_correct p by simp
qed

theorem subscriptions_follow_slots_witness:
  "\<forall>k. \<exists>b b'. (loop_step k)\<^sup>*\<^sup>* b b' \<and> b' = handle_accept k b accepted_cqe
     \<and> subscriptions (b_trie b') [[0x61]] 0 = Some (c_generation (client_at b' 0)) \<and> c_state (client_at b' 0) \<noteq> CLIENT_FREE"
proof
  fix k
  obtain b0 where b0: "slots_wf b0 [1]" "connected b0 0" "c_fd (client_at b0 0) = 3" "b_trie b0 = trie_init" "b_max_clients b0 = 2"
    by (rule small_active)
  let ?g = "c_generation (client_at b0 0)" and ?d = "broker_slot_go_dormant b0 0"
  obtain t where t: "trie_subscribe trie_init [0x61] 1 0 ?g = (True, t)" "\<exists>fl. trie_wf t fl"
    "\<And>p s. subscriptions t p s = (if p = [[0x61]] \<and> s = 0 then Some ?g else None)" by (rule subscribed_a [of ?g]) blast
  define b where "b = ?d\<lparr>b_trie := t\<rparr>"
  note d = broker_go_dormant_ok [OF b0(1,2)]
  note R0 = slots_wf_table [OF b0(1)]
  have tb: "tab b = tab ?d" by (simp add: b_def tab_def)
  note R = table_rel_cong [OF tb slots_wf_table [OF d(1)]]
  have m: "b_max_clients b \<le> 65536" using b0(5)
    by (simp add: b_def broker_slot_go_dormant_def Let_def client_update_def drop_recv_buf_def fd_unmap_def)
  have "slot_owned b0 0 ?g" using b0(2) table_relD(1) [OF R0] by (auto simp: slot_owned_def connected_def)
  then have "slot_owned b 0 ?g" using owners_dormant [OF R0 b0(2)] owned_tab [OF tb] by (simp add: owners_stay_def)
  moreover have "hashmap_wf (b_client_map b)"
    using b0(1) index_kept.view_go_dormant [of b0 0] by (simp add: slots_wf_def b_def index_view_def)
  ultimately have o: "indexes_ok b" using t(2,3) by (simp add: indexes_ok_def b_def)
  have st: "(loop_step k)\<^sup>*\<^sup>* b (handle_accept k b accepted_cqe)"
    by (rule r_into_rtranclp, rule accept_step) (use d(5) b0(3) in \<open>simp add: b_def\<close>)
  have "subscriptions (b_trie (handle_accept k b accepted_cqe)) [[0x61]] 0 = Some ?g"
    using t(3) index_kept.view_accept [of k b accepted_cqe] by (simp add: index_view_def b_def)
  then show "\<exists>b b'. (loop_step k)\<^sup>*\<^sup>* b b' \<and> b' = handle_accept k b accepted_cqe
     \<and> subscriptions (b_trie b') [[0x61]] 0 = Some (c_generation (client_at b' 0)) \<and> c_state (client_at b' 0) \<noteq> CLIENT_FREE"
    using subscriptions_follow_slots [OF st R m o] st by metis
qed

end
