(* ===== verification/Client_Wf.thy ===== *)
theory Client_Wf
  imports Fan_Out
begin

text \<open>
  The well-formed client slot: the arrays have their sizes, the egress ring, the offline queue and the in-flight table
  satisfy their invariants.  Every operation on a single slot keeps it so.
\<close>

section \<open>The invariant of a slot\<close>

text \<open>A slot whose arrays are wired, in use or not; \<open>n\<close> is the broker's \<^verbatim>\<open>max_inflight\<close>.\<close>

definition slot_shape :: "nat \<Rightarrow> client_slot \<Rightarrow> bool" where
  "slot_shape n c \<longleftrightarrow> (\<exists>k \<le> 14. n = 2 ^ k) \<and> length (c_inflight_hot c) = n \<and> length (c_inflight_cold c) = n
     \<and> length (c_inflight_pkt_hash c) = 2 * n \<and> egress_queue_wf c \<and> scratch_wf c \<and> pending_wf c"

definition slot_live :: "nat \<Rightarrow> client_slot \<Rightarrow> bool" where
  "slot_live n c \<longleftrightarrow> slot_shape n c \<and> inflight_wf c \<and> c_max_inflight c = n"

text \<open>A slot that was never taken, whose in-flight table is still zero.\<close>

definition slot_unused :: "nat \<Rightarrow> client_slot \<Rightarrow> bool" where
  "slot_unused n c \<longleftrightarrow> slot_shape n c \<and> c_state c = CLIENT_FREE \<and> c_egress_count c = 0"

text \<open>The fields it depends on.\<close>

definition wf_view :: "client_slot \<Rightarrow> (nat \<times> nat \<times> nat \<times> nat \<times> nat \<times> inflight_hot list \<times> inflight_cold list \<times> nat list)
    \<times> (egress_segment list \<times> nat \<times> nat \<times> nat \<times> nat) \<times> (nat \<times> nat \<times> nat) \<times> (pending_msg list \<times> nat \<times> nat \<times> nat)" where
  "wf_view c = (inflight_view c, (c_egress c, c_egress_head c, c_egress_count c, c_egress_capacity c, c_egress_mask c),
     (length (c_egress_iov c), length (c_egress_headers c), length (c_egress_pkt_ids c)),
     (c_pending c, c_pending_head c, c_pending_tail c, c_pending_count c))"

lemma slot_live_cong:
  assumes "wf_view c' = wf_view c"
  shows "slot_live n c' = slot_live n c"
proof -
  have f: "inflight_view c' = inflight_view c" using assms by (simp add: wf_view_def)
  have i: "c_inflight_hot c' = c_inflight_hot c" "c_inflight_cold c' = c_inflight_cold c" "c_inflight_pkt_hash c' = c_inflight_pkt_hash c"
    "c_max_inflight c' = c_max_inflight c" using f by (simp_all add: inflight_view_def)
  have g: "egress_queue_wf c' = egress_queue_wf c" "scratch_wf c' = scratch_wf c" "pending_wf c' = pending_wf c"
    using assms by (simp_all add: wf_view_def egress_queue_wf_def egress_ring_wf_def scratch_wf_def pending_wf_def)
  show ?thesis unfolding slot_live_def slot_shape_def i g inflight_view_cong(4) [OF f] ..
qed

lemma slot_liveD:
  assumes "slot_live n c"
  shows "inflight_wf c" "egress_queue_wf c" "egress_ring_wf c" "table_shape c" "c_max_inflight c = n"
  using assms by (simp_all add: slot_live_def slot_shape_def egress_queue_wf_def inflight_wf_def)

section \<open>The egress ring\<close>

text \<open>A change of the ring only.\<close>

lemma slot_live_egress:
  assumes "slot_live n c" "egress_queue_wf c'" "inflight_view c' = inflight_view c"
    "length (c_egress_iov c') = length (c_egress_iov c)" "length (c_egress_headers c') = length (c_egress_headers c)"
    "length (c_egress_pkt_ids c') = length (c_egress_pkt_ids c)"
    "c_pending c' = c_pending c" "c_pending_head c' = c_pending_head c" "c_pending_tail c' = c_pending_tail c" "c_pending_count c' = c_pending_count c"
  shows "slot_live n c'"
proof -
  have i: "c_inflight_hot c' = c_inflight_hot c" "c_inflight_cold c' = c_inflight_cold c" "c_inflight_pkt_hash c' = c_inflight_pkt_hash c"
    "c_max_inflight c' = c_max_inflight c" using assms(3) by (simp_all add: inflight_view_def)
  show ?thesis using assms(1,2) unfolding slot_live_def slot_shape_def i inflight_view_cong(4) [OF assms(3)]
    by (simp add: assms(4-) scratch_wf_def pending_wf_def)
qed

lemma live_pop:
  assumes "slot_live n c" "c_egress_count c > 0"
  shows "slot_live n (egress_pop_head c)"
proof (rule slot_live_egress [OF assms(1)])
  show "egress_queue_wf (egress_pop_head c)"
    using egress_pop_contents(1) [OF slot_liveD(3) [OF assms(1)] assms(2)] slot_liveD(2) [OF assms(1)]
    by (simp add: egress_queue_wf_def) (simp add: egress_pop_head_def split: prod.split)
qed (simp_all add: egress_pop_head_def inflight_view_def split: prod.split)

lemma live_append:
  assumes "slot_live n c" "\<not> egress_full (c_egress_count c) (c_egress_capacity c)"
    "\<And>seg. length (seg_ctrl seg) = 8 \<Longrightarrow> length (seg_ctrl (f seg)) = 8"
  shows "slot_live n (egress_append c f)"
proof (rule slot_live_egress [OF assms(1)])
  note wf = slot_liveD(2) [OF assms(1)]
  let ?i = "egress_push (c_egress_head c) (c_egress_count c) (c_egress_mask c)"
  have r: "egress_ring_wf (egress_append c f)"
    using wf assms(2) egress_append_contents(1) [of c f] by (simp add: egress_queue_wf_def egress_full_def)
  have "length (seg_ctrl seg) = 8" if "seg \<in> set (c_egress (egress_append c f))" for seg
  proof (cases "?i < length (c_egress c)")
    case True
    then have "seg = f (c_egress c ! ?i) \<or> seg \<in> set (c_egress c)"
      using that set_update_subset_insert [of "c_egress c" ?i] by (auto simp: egress_append_def Let_def)
    then show ?thesis using wf True assms(3) by (auto simp: egress_queue_wf_def)
  next
    case False
    then show ?thesis using that wf by (simp add: egress_append_def egress_queue_wf_def Let_def list_update_beyond)
  qed
  then show "egress_queue_wf (egress_append c f)" using r by (simp add: egress_queue_wf_def)
qed (simp_all add: egress_append_def Let_def inflight_view_def)

lemma live_segment:
  assumes "slot_live n c" "length (seg_ctrl (f (c_egress c ! i))) = length (seg_ctrl (c_egress c ! i))"
  shows "slot_live n (c\<lparr>c_egress := (c_egress c)[i := f (c_egress c ! i)]\<rparr>)"
proof (rule slot_live_egress [OF assms(1)])
  note wf = slot_liveD(2) [OF assms(1)]
  have "length (seg_ctrl seg) = 8" if "seg \<in> set ((c_egress c)[i := f (c_egress c ! i)])" for seg
  proof (cases "i < length (c_egress c)")
    case True
    then have "seg = f (c_egress c ! i) \<or> seg \<in> set (c_egress c)" using that set_update_subset_insert [of "c_egress c" i] by auto
    then show ?thesis using wf True assms(2) by (auto simp: egress_queue_wf_def)
  next
    case False
    then show ?thesis using that wf by (simp add: egress_queue_wf_def list_update_beyond)
  qed
  then show "egress_queue_wf (c\<lparr>c_egress := (c_egress c)[i := f (c_egress c ! i)]\<rparr>)"
    using wf by (simp add: egress_queue_wf_def egress_ring_wf_def)
qed (simp_all add: inflight_view_def)

lemma live_head_update: "slot_live n c \<Longrightarrow> (\<And>seg. length (seg_ctrl (f seg)) = length (seg_ctrl seg)) \<Longrightarrow> slot_live n (head_update c f)"
  using live_segment [of n c f] by (simp add: head_update_def Let_def)

lemma segment_ctrl [simp]:
  "length (seg_ctrl (publish_segment m msg pid q d g seg)) = length (seg_ctrl seg)"
  "length (seg_ctrl (pubrel_segment pid g seg)) = length (seg_ctrl seg)"
  by (simp_all add: publish_segment_def pubrel_segment_def egress_seg_store_wire_len_def Let_def split: option.split)

section \<open>The in-flight table\<close>

text \<open>A change of the table only.\<close>

lemma slot_live_table:
  assumes "slot_live n c" "inflight_wf c'" "c_max_inflight c' = c_max_inflight c"
    "c_egress c' = c_egress c" "c_egress_head c' = c_egress_head c" "c_egress_count c' = c_egress_count c"
    "c_egress_capacity c' = c_egress_capacity c" "c_egress_mask c' = c_egress_mask c"
    "length (c_egress_iov c') = length (c_egress_iov c)" "length (c_egress_headers c') = length (c_egress_headers c)"
    "length (c_egress_pkt_ids c') = length (c_egress_pkt_ids c)"
    "c_pending c' = c_pending c" "c_pending_head c' = c_pending_head c" "c_pending_tail c' = c_pending_tail c" "c_pending_count c' = c_pending_count c"
  shows "slot_live n c'"
proof -
  note sh = table_shapeD [OF inflight_wfD(1) [OF assms(2)]]
  show ?thesis using assms(1-3) sh(6-8) unfolding slot_live_def slot_shape_def egress_queue_wf_def egress_ring_wf_def
    by (simp add: assms(4-) scratch_wf_def pending_wf_def)
qed

lemma live_alloc: "slot_live n c \<Longrightarrow> client_inflight_alloc c q m d = (r, c') \<Longrightarrow> slot_live n c'"
proof -
  assume l: "slot_live n c" and a: "client_inflight_alloc c q m d = (r, c')"
  have "inflight_wf c'"
    using inflight_alloc_ok [OF slot_liveD(1) [OF l], of q m d] a slot_liveD(1) [OF l] by (auto split: if_splits)
  then show "slot_live n c'" using a
    by (intro slot_live_table [OF l]) (auto simp: client_inflight_alloc_def fill_inflight_def Let_def split: if_splits)
qed

lemma hash_insert_fields: "inflight_hash_insert c pid s = c \<or> (\<exists>h. inflight_hash_insert c pid s = c\<lparr>c_inflight_pkt_hash := h\<rparr>)"
  by (auto simp: inflight_hash_insert_def split: option.split)

lemma live_track: "slot_live n c \<Longrightarrow> pid \<noteq> 0 \<Longrightarrow> client_inflight_track_incoming c pid d = (r, c') \<Longrightarrow> slot_live n c'"
proof -
  assume l: "slot_live n c" and p: "pid \<noteq> 0" and a: "client_inflight_track_incoming c pid d = (r, c')"
  note wf = slot_liveD(1) [OF l]
  have "inflight_wf c'"
    using inflight_track_ok [OF wf p, of d] a wf by (auto split: if_splits)
  moreover have "c' = c \<or> (\<exists>i hot h. c' = fill_inflight c i hot 2 d \<or> c' = (fill_inflight c i hot 2 d)\<lparr>c_inflight_pkt_hash := h\<rparr>)"
    using a hash_insert_fields by (fastforce simp: client_inflight_track_incoming_def Let_def split: if_splits option.splits)
  ultimately show "slot_live n c'" by (intro slot_live_table [OF l]) (auto simp: fill_inflight_def)
qed

lemma free_slot_form:
  assumes "client_inflight_free_slot c i = Some c'"
  obtains "c' = c" | h hot m where "c' = c\<lparr>c_inflight_pkt_hash := h, c_inflight_hot := hot, c_inflight_count := m\<rparr>"
proof (cases "ih_state (c_inflight_hot c ! i) = INFLIGHT_FREE")
  case True
  then show thesis using assms that(1) by (simp add: client_inflight_free_slot_def)
next
  case False
  then obtain c1 where c1: "c1 = c \<or> inflight_hash_remove c (ih_packet_id (c_inflight_hot c ! i)) = Some c1"
    and c': "\<exists>hot m. c' = c1\<lparr>c_inflight_hot := hot, c_inflight_count := m\<rparr>"
    using assms by (auto simp: client_inflight_free_slot_def Let_def split: if_splits option.splits)
  have "\<exists>h. c1 = c\<lparr>c_inflight_pkt_hash := h\<rparr>"
  proof (cases "c1 = c")
    case True
    then have "c1 = c\<lparr>c_inflight_pkt_hash := c_inflight_pkt_hash c\<rparr>" by simp
    then show ?thesis by blast
  next
    case False
    then show ?thesis using c1 by (auto simp: inflight_hash_remove_def split: option.splits prod.splits)
  qed
  then show thesis using c' that(2) by blast
qed

lemma live_free_slot:
  assumes "slot_live n c" "i < c_max_inflight c"
  shows "\<exists>c'. client_inflight_free_slot c i = Some c' \<and> slot_live n c' \<and> c_egress_count c' = c_egress_count c \<and> c_state c' = c_state c"
proof (cases "in_use c i")
  case True
  obtain c' where c': "client_inflight_free_slot c i = Some c'" "inflight_wf c'"
    using client_inflight_free_slot_correct [OF slot_liveD(1) [OF assms(1)] True] by blast
  have "slot_live n c' \<and> c_egress_count c' = c_egress_count c \<and> c_state c' = c_state c"
  proof (rule free_slot_form [OF c'(1)], goal_cases)
    case (2 h hot m)
    then show ?case by (intro conjI slot_live_table [OF assms(1) c'(2)]) simp_all
  qed (use assms in simp)
  then show ?thesis using c'(1) by blast
next
  case False
  then show ?thesis using assms by (auto simp: client_inflight_free_slot_def in_use_def)
qed

lemma live_free_slot': "slot_live n c \<Longrightarrow> i < c_max_inflight c \<Longrightarrow> client_inflight_free_slot c i = Some c' \<Longrightarrow> slot_live n c'"
  using live_free_slot by fastforce

lemma find_below:
  "client_inflight_find_direct c pid = Some i \<Longrightarrow> table_shape c \<Longrightarrow> i < c_max_inflight c"
  using direct_slot_below [of c pid] by (auto simp: client_inflight_find_direct_def Let_def split: if_splits)

lemma live_free_all:
  assumes "slot_live n c"
  shows "slot_live n (client_inflight_free_all c)"
  by (rule slot_live_table [OF assms client_inflight_free_all_wf(1)]) (simp_all add: slot_liveD(1) [OF assms] client_inflight_free_all_def)

lemma live_cold:
  assumes "slot_live n c"
  shows "slot_live n (c\<lparr>c_inflight_cold := (c_inflight_cold c)[i := x]\<rparr>)"
proof -
  let ?c = "c\<lparr>c_inflight_cold := (c_inflight_cold c)[i := x]\<rparr>"
  have "in_use ?c = in_use c" "entry_ok ?c = entry_ok c" "pkt_id ?c = pkt_id c" "pkt_home ?c = pkt_home c" "incoming_slots ?c = incoming_slots c"
    "table_shape ?c = table_shape c"
    by (simp_all add: fun_eq_iff in_use_def entry_ok_def direct_slot_def pkt_id_def pkt_home_def incoming_slots_def table_shape_def)
  then have "inflight_wf ?c" using slot_liveD(1) [OF assms] by (simp add: inflight_wf_def)
  then show ?thesis by (rule slot_live_table [OF assms]) simp_all
qed

section \<open>Taking and giving back a slot\<close>

lemma live_init:
  assumes "slot_shape n c"
  shows "slot_live n (client_init c fd i n)"
proof -
  obtain k where k: "k \<le> 14" "n = 2 ^ k" using assms by (auto simp: slot_shape_def)
  have wf: "inflight_wf (client_init c fd i n)"
    using assms by (intro client_init_wf(1) [OF k(2,1)]) (simp_all add: slot_shape_def)
  have "c_egress_capacity c > 0" using assms by (auto simp: slot_shape_def egress_queue_wf_def egress_ring_wf_def)
  then have "slot_shape n (client_init c fd i n)"
    using assms unfolding slot_shape_def
    by (auto simp: client_init_def egress_queue_wf_def egress_ring_wf_def scratch_wf_def pending_wf_def fill_cells_def LLMQ_MAX_PENDING_MSGS_def)
  then show ?thesis using wf by (simp add: slot_live_def client_init_def)
qed

lemma live_client_free:
  assumes "slot_live n c"
  shows "slot_live n (client_free c)"
proof -
  have "inflight_view (client_free c) = inflight_view c" by (simp add: client_free_def inflight_view_def)
  then show ?thesis using assms inflight_view_cong(4) [of "client_free c" c]
    by (simp add: slot_live_def slot_shape_def client_free_def egress_queue_wf_def egress_ring_wf_def scratch_wf_def pending_wf_def
        LLMQ_MAX_PENDING_MSGS_def)
qed

lemma unused_initial:
  assumes "n = 2 ^ k" "k \<le> 14" "e = 2 ^ j" "j < 16"
  shows "slot_unused n (initial_client mc n e i)"
proof -
  have "e < 65536" using assms(3,4) power_strict_increasing [of j 16 "2 :: nat"] by simp
  moreover have "pow2_table e (e - 1)" using assms(3) by (intro pow2_tableI) simp_all
  ultimately show ?thesis using assms unfolding slot_unused_def slot_shape_def
    by (auto simp: initial_client_def zero_client_def egress_queue_wf_def egress_ring_wf_def scratch_wf_def pending_wf_def
        LLMQ_MAX_PENDING_MSGS_def EGRESS_BATCH_MAX_def zero_segment_def)
qed

end
