(* ===== verification/Client_Ops.thy ===== *)
theory Client_Ops
  imports Client_Wf
begin

text \<open>
  Every operation of the broker keeps every slot well-formed: the relation \<open>stays\<close> between a broker and a later one, proved
  from a store to a slot up to a publication and a disconnect.
\<close>

section \<open>From one broker to the next\<close>

definition live :: "broker \<Rightarrow> nat \<Rightarrow> bool" where
  "live b s \<longleftrightarrow> (s < length (b_clients b) \<longrightarrow> slot_live (b_max_inflight b) (client_at b s))"

definition slot_ok :: "nat \<Rightarrow> client_slot \<Rightarrow> bool" where
  "slot_ok n c \<longleftrightarrow> slot_live n c \<or> slot_unused n c"

definition slots_ok :: "broker \<Rightarrow> bool" where
  "slots_ok b \<longleftrightarrow> (\<forall>s < length (b_clients b). slot_ok (b_max_inflight b) (client_at b s))"

definition stays :: "broker \<Rightarrow> broker \<Rightarrow> bool" where
  "stays b b' \<longleftrightarrow> b_max_inflight b' = b_max_inflight b \<and> length (b_clients b') = length (b_clients b)
     \<and> (\<forall>s < length (b_clients b). (slot_live (b_max_inflight b) (client_at b s) \<longrightarrow> slot_live (b_max_inflight b) (client_at b' s))
          \<and> (slot_ok (b_max_inflight b) (client_at b s) \<longrightarrow> slot_ok (b_max_inflight b) (client_at b' s)))"

definition cl :: "broker \<Rightarrow> client_slot list \<times> nat" where
  "cl b = (b_clients b, b_max_inflight b)"

lemma stays_refl [simp]: "stays b b"
  by (simp add: stays_def)

lemma stays_trans: "stays b b1 \<Longrightarrow> stays b1 b' \<Longrightarrow> stays b b'"
  by (simp add: stays_def)

lemma live_stays: "live b s \<Longrightarrow> stays b b' \<Longrightarrow> live b' s"
  by (simp add: stays_def live_def)

lemma slots_ok_stays: "slots_ok b \<Longrightarrow> stays b b' \<Longrightarrow> slots_ok b'"
  by (simp add: stays_def slots_ok_def)

lemma client_at_cl: "cl b' = cl b \<Longrightarrow> client_at b' = client_at b"
  by (simp add: cl_def client_at_def fun_eq_iff)

lemma stays_same: "cl b' = cl b \<Longrightarrow> stays b b'"
  using client_at_cl [of b' b] by (simp add: stays_def cl_def)

lemma live_same: "cl b' = cl b \<Longrightarrow> live b' s = live b s"
  using client_at_cl [of b' b] by (simp add: live_def cl_def)

lemma slots_ok_same: "cl b' = cl b \<Longrightarrow> slots_ok b' = slots_ok b"
  using client_at_cl [of b' b] by (simp add: slots_ok_def cl_def)

text \<open>An active slot, and one with something to send, is in use.\<close>

lemma slots_ok_live: "slots_ok b \<Longrightarrow> c_state (client_at b s) \<noteq> CLIENT_FREE \<or> c_egress_count (client_at b s) > 0 \<Longrightarrow> live b s"
  by (auto simp: slots_ok_def slot_ok_def live_def slot_unused_def)

text \<open>A store to a slot that is in use, and a store to fields that do not matter.\<close>

lemma client_at_store: "client_at (client_update b s f) j = (if j = s \<and> s < length (b_clients b) then f (client_at b s) else client_at b j)"
  by (auto simp: client_at_def client_update_def nth_list_update list_update_beyond)

lemma stays_update:
  assumes "live b s" "slot_live (b_max_inflight b) (client_at b s) \<Longrightarrow> slot_live (b_max_inflight b) (f (client_at b s))"
  shows "stays b (client_update b s f)"
  using assms by (auto simp: stays_def live_def client_at_store slot_ok_def) (simp_all add: client_update_def)

lemma slot_unused_cong: "wf_view c' = wf_view c \<Longrightarrow> (c_state c = CLIENT_FREE \<Longrightarrow> c_state c' = CLIENT_FREE) \<Longrightarrow> slot_unused n c \<Longrightarrow> slot_unused n c'"
  by (auto simp: slot_unused_def slot_shape_def wf_view_def inflight_view_def egress_queue_wf_def egress_ring_wf_def scratch_wf_def pending_wf_def)

lemma stays_view:
  assumes "wf_view (f (client_at b s)) = wf_view (client_at b s)"
    "c_state (client_at b s) = CLIENT_FREE \<Longrightarrow> c_state (f (client_at b s)) = CLIENT_FREE"
  shows "stays b (client_update b s f)"
  using slot_live_cong [OF assms(1)] slot_unused_cong [OF assms(1)] assms(2)
  by (auto simp: stays_def client_at_store slot_ok_def) (simp_all add: client_update_def)

lemma cl_updates [simp]:
  "cl (b\<lparr>b_calls := cs\<rparr>) = cl b" "cl (b\<lparr>b_bytes_sent := x\<rparr>) = cl b" "cl (b\<lparr>b_drops_sq_full := x\<rparr>) = cl b"
  "cl (b\<lparr>b_drops_send_failed := x\<rparr>) = cl b" "cl (b\<lparr>b_drops_resp_full := x\<rparr>) = cl b" "cl (b\<lparr>b_drops_egress_full := x\<rparr>) = cl b"
  "cl (b\<lparr>b_msgs_dropped := x\<rparr>) = cl b" "cl (b\<lparr>b_msgs_published := x\<rparr>) = cl b" "cl (b\<lparr>b_drops_msg_pool_empty := x\<rparr>) = cl b"
  "cl (b\<lparr>b_accept_pending := y\<rparr>) = cl b" "cl (b\<lparr>b_egress_flush_queue := q\<rparr>) = cl b"
  "cl (b\<lparr>b_egress_flush_tail := y\<rparr>) = cl b" "cl (b\<lparr>b_egress_flush_head := y\<rparr>) = cl b" "cl (b\<lparr>b_recv_retry_queue := rq\<rparr>) = cl b"
  "cl (b\<lparr>b_recv_retry_tail := y\<rparr>) = cl b" "cl (b\<lparr>b_recv_retry_head := y\<rparr>) = cl b" "cl (b\<lparr>b_accepts := x\<rparr>) = cl b"
  "cl (b\<lparr>b_bytes_recv := x\<rparr>) = cl b" "cl (b\<lparr>b_recv_retries := x\<rparr>) = cl b" "cl (b\<lparr>b_egress_retries := x\<rparr>) = cl b"
  "cl (b\<lparr>b_now := x\<rparr>) = cl b" "cl (b\<lparr>b_last_timeout_sweep := x\<rparr>) = cl b" "cl (b\<lparr>b_stolen_buffers := x\<rparr>) = cl b" "cl (b\<lparr>b_running := z\<rparr>) = cl b"
  "cl (b\<lparr>b_free_head := y\<rparr>) = cl b" "cl (b\<lparr>b_active_count := y\<rparr>) = cl b" "cl (b\<lparr>b_dormant_count := y\<rparr>) = cl b"
  "cl (b\<lparr>b_fd_to_slot := fs\<rparr>) = cl b" "cl (b\<lparr>b_recv_pool := p\<rparr>) = cl b" "cl (b\<lparr>b_msg_pool := mp\<rparr>) = cl b"
  "cl (b\<lparr>b_client_map := h\<rparr>) = cl b" "cl (b\<lparr>b_ring := r\<rparr>) = cl b" "cl (b\<lparr>b_trie := t\<rparr>) = cl b"
  by (simp_all add: cl_def)

lemma stays_into: "cl b2 = cl b1 \<Longrightarrow> stays b b1 \<Longrightarrow> stays b b2"
  using stays_trans stays_same by blast

lemma stays_from: "cl b1 = cl b \<Longrightarrow> stays b1 b2 \<Longrightarrow> stays b b2"
  using stays_trans stays_same by blast

section \<open>Entries, references, calls\<close>

lemma cl_msgs [simp]: "cl (release_msg_ref b i) = cl b" "cl (msg_ref b i) = cl b"
  by (simp_all add: release_msg_ref_def msg_ref_def Let_def split: prod.split)

lemma cl_calls [simp]: "cl (sys_shutdown b fd) = cl b" "cl (sys_close b fd) = cl b" "cl (sys_setsockopt_nodelay b fd) = cl b"
    "cl (snd (sys_write k b fd buf)) = cl b" "cl (put_sqe b i f ud) = cl b" "cl (recv_buf_update b i g) = cl b"
    "cl (recv_retry_enqueue b s) = cl b" "cl (snd (recv_retry_dequeue b)) = cl b"
  by (simp_all add: sys_shutdown_def sys_close_def sys_setsockopt_nodelay_def sys_write_def put_sqe_def recv_buf_update_def
      recv_retry_enqueue_def recv_retry_dequeue_def)

lemma cl_enter: "broker_enter k b call = (rc, b') \<Longrightarrow> cl b' = cl b"
  by (auto simp: broker_enter_def split: prod.splits)

lemma cl_get_sqe: "get_sqe_with_flush k b = (i, b') \<Longrightarrow> cl b' = cl b"
  by (auto simp: get_sqe_with_flush_def broker_enter_def Let_def split: prod.splits option.splits)

lemma client_msgs [simp]: "client_at (release_msg_ref b i) = client_at b" "client_at (msg_ref b i) = client_at b"
  by (rule client_at_cl; simp)+

section \<open>The flush engine\<close>

lemma stays_pop: "live b s \<Longrightarrow> c_egress_count (client_at b s) > 0 \<Longrightarrow> stays b (client_update b s egress_pop_head)"
  by (rule stays_update) (simp_all add: live_pop)

lemma stays_discard:
  assumes "live b s" "c_egress_count (client_at b s) > 0"
  shows "stays b (egress_discard_head b s seg)" "stays b (egress_complete_head b s seg)"
proof -
  have "stays b (client_update b1 s egress_pop_head)" if "cl b1 = cl b" for b1
    using stays_from [OF that stays_pop] assms live_same [OF that] client_at_cl [OF that] by simp
  then show "stays b (egress_discard_head b s seg)" "stays b (egress_complete_head b s seg)"
    by (simp_all add: egress_discard_head_def egress_complete_head_def)
qed

lemma stays_clean: "live b s \<Longrightarrow> stays b (egress_clean n b s)"
proof (induction n arbitrary: b)
  case (Suc n)
  then show ?case using stays_discard(1) [OF Suc.prems] live_stays [OF Suc.prems] stays_trans by (simp add: Let_def) blast
qed simp

lemma wf_view_add [simp]: "wf_view (fb_client (add_iov f p x l)) = wf_view (fb_client f)"
    "wf_view (c\<lparr>c_egress_headers := (c_egress_headers c)[i := h]\<rparr>) = wf_view c"
    "wf_view (c\<lparr>c_egress_pkt_ids := (c_egress_pkt_ids c)[i := h]\<rparr>) = wf_view c"
  by (simp_all add: add_iov_def wf_view_def inflight_view_def)

lemma wf_view_add_publish: "wf_view (fb_client (add_publish f m seg)) = wf_view (fb_client f)"
  by (simp add: add_publish_def Let_def)

lemma live_add_iov: "slot_live n (fb_client f) \<Longrightarrow> slot_live n (fb_client (add_iov f p x l))"
  using slot_live_cong [OF wf_view_add(1)] by blast

lemma live_add_publish: "slot_live n (fb_client f) \<Longrightarrow> slot_live n (fb_client (add_publish f m seg))"
  using slot_live_cong [OF wf_view_add_publish] by blast

lemma live_batch_publish:
  assumes l: "slot_live n (fb_client f)" and b: "batch_publish mp rp now f i (c_egress (fb_client f) ! seg_index (fb_client f) i) = Next f'"
  shows "slot_live n (fb_client f')"
proof -
  let ?c = "fb_client f" and ?seg = "c_egress (fb_client f) ! seg_index (fb_client f) i"
  obtain msg where m: "msg_pool_get mp (seg_msg_idx ?seg) = Some msg" using b by (auto simp: batch_publish_def split: option.splits)
  show ?thesis
  proof (cases "seg_qos ?seg > 0 \<and> seg_packet_id ?seg = 0")
    case False
    then have "f' = add_publish f msg ?seg" using b m by (auto simp: batch_publish_def split: if_splits)
    then show ?thesis using live_add_publish [OF l] by simp
  next
    case True
    then obtain j pid c where a: "client_inflight_alloc ?c (seg_qos ?seg) (seg_msg_idx ?seg) (now + LLMQ_INFLIGHT_TIMEOUT_MS) = (Some (j, pid), c)"
      using b m by (auto simp: batch_publish_def split: if_splits option.splits prod.splits)
    have e: "c_egress c = c_egress ?c" "seg_index c i = seg_index ?c i"
      using a by (auto simp: client_inflight_alloc_def fill_inflight_def seg_index_def Let_def split: if_splits)
    define c' where "c' = c\<lparr>c_egress := (c_egress c)[seg_index c i := ?seg\<lparr>seg_packet_id := pid\<rparr>]\<rparr>"
    have "slot_live n c'"
      using live_segment [OF live_alloc [OF l a], of "\<lambda>g. g\<lparr>seg_packet_id := pid\<rparr>" "seg_index c i"] by (simp add: c'_def e)
    then have "slot_live n (fb_client (f\<lparr>fb_client := c'\<rparr>))" by simp
    moreover have "f' = add_publish (f\<lparr>fb_client := c'\<rparr>) msg (?seg\<lparr>seg_packet_id := pid\<rparr>)"
      using b m True a by (auto simp: batch_publish_def c'_def Let_def split: if_splits)
    ultimately show ?thesis using live_add_publish by blast
  qed
qed

lemma live_batch_round: "batch_round mp rp now f i = Next f' \<Longrightarrow> slot_live n (fb_client f) \<Longrightarrow> slot_live n (fb_client f')"
  using live_batch_publish [of n f mp rp now i f'] live_add_iov [of n f]
  by (auto simp: batch_round_def batch_ctrl_def Let_def split: if_splits)

lemma live_batch_loop: "slot_live n (fb_client f) \<Longrightarrow> slot_live n (fb_client (snd (batch_loop mp rp now k f)))"
proof (induction k arbitrary: f)
  case (Suc k)
  then show ?case using live_batch_round by (auto simp: Let_def split: round_result.split)
qed simp

lemma live_resume: "slot_live n c \<Longrightarrow> slot_live n (resume_iov c)"
proof -
  have len: "length (egress_apply_cursor vs m x) = length vs" for vs m x
    by (induction vs m x rule: egress_apply_cursor.induct) (simp_all add: Let_def)
  have "wf_view (resume_iov c) = wf_view c"
    by (simp add: resume_iov_def wf_view_def inflight_view_def len Let_def)
  then show "slot_live n c \<Longrightarrow> slot_live n (resume_iov c)" using slot_live_cong by blast
qed

lemma stays_egress_submit: "stays b (snd (egress_submit b s f))"
proof -
  let ?g = "\<lambda>c. c\<lparr>c_egress_inflight := True, c_egress_batch_count := fb_batch f\<rparr>"
  have "stays (b\<lparr>b_ring := r\<rparr>) (client_update (b\<lparr>b_ring := r\<rparr>) s ?g)" for r
    by (rule stays_view) (simp_all add: wf_view_def inflight_view_def)
  then have "stays b (client_update (b\<lparr>b_ring := r\<rparr>) s ?g)" for r by (rule stays_from [rotated]) simp
  moreover have "stays b (b\<lparr>b_ring := r, b_drops_sq_full := x\<rparr>)" for r x by (rule stays_same) simp
  ultimately show ?thesis by (simp add: egress_submit_def split: prod.split option.split)
qed

lemma stays_flush:
  assumes "live b s"
  shows "stays b (snd (egress_flush b s))"
proof -
  define b1 where "b1 = egress_clean (c_egress_count (client_at b s)) b s"
  have s1: "stays b b1" using stays_clean [OF assms] by (simp add: b1_def)
  note l1 = live_stays [OF assms s1]
  obtain noop f where f: "batch_loop (b_msg_pool b1) (b_recv_pool b1) (b_now b1) EGRESS_BATCH_MAX
               \<lparr>fb_client = client_at b1 s, fb_batch = 0, fb_pub_idx = 0, fb_iov_cnt = 0\<rparr> = (noop, f)" by fastforce
  have lf: "slot_live n (client_at b1 s) \<Longrightarrow> slot_live n (fb_client f)" for n
    using live_batch_loop [of n "\<lparr>fb_client = client_at b1 s, fb_batch = 0, fb_pub_idx = 0, fb_iov_cnt = 0\<rparr>"
        "b_msg_pool b1" "b_recv_pool b1" "b_now b1" EGRESS_BATCH_MAX] f by simp
  have u: "stays b (client_update b1 s (\<lambda>_. fb_client f))" "stays b (client_update b1 s (\<lambda>_. resume_iov (fb_client f)))"
    using stays_trans [OF s1 stays_update [OF l1]] lf live_resume by simp_all
  show ?thesis
    using s1 u stays_trans [OF u(2) stays_egress_submit] by (simp add: egress_flush_def Let_def b1_def [symmetric] f)
qed

lemma stays_flush_queue: "stays b (egress_flush_enqueue b s)" "stays b (snd (egress_flush_dequeue b))"
proof -
  have u: "stays b1 (client_update b1 s (\<lambda>c. c\<lparr>c_egress_retry_queued := x\<rparr>))" for b1 s x
    by (rule stays_view) (simp_all add: wf_view_def inflight_view_def)
  show "stays b (egress_flush_enqueue b s)"
    by (auto simp: egress_flush_enqueue_def Let_def stays_same intro!: stays_into [OF _ stays_from [OF _ u]])
  show "stays b (snd (egress_flush_dequeue b))"
    by (auto simp: egress_flush_dequeue_def Let_def stays_same intro!: stays_from [OF _ u])
qed

lemma stays_kick:
  assumes "live b s"
  shows "stays b (egress_kick b s)"
  using stays_flush [OF assms] stays_trans [OF _ stays_flush_queue(1)]
  by (cases "egress_flush b s") (auto simp: egress_kick_def)

lemma stays_walk: "live b s \<Longrightarrow> stays b (egress_walk n left b s)"
proof (induction n arbitrary: b left)
  case (Suc n)
  have h: "stays b (client_update b s (\<lambda>c. head_update c (\<lambda>g. g\<lparr>seg_cursor := seg_cursor g + left\<rparr>)))"
    by (rule stays_update [OF Suc.prems]) (rule live_head_update, simp_all)
  show ?case
    using h Suc.IH live_stays [OF Suc.prems] stays_discard(2) [OF Suc.prems] stays_trans by (simp add: Let_def) blast
qed simp

lemma stays_fail_batch: "live b s \<Longrightarrow> egress_fail_batch n b s = Some b' \<Longrightarrow> stays b b'"
proof (induction n arbitrary: b)
  case (Suc n)
  let ?c = "client_at b s" and ?seg = "egress_head (client_at b s)"
  show ?case
  proof (cases "c_egress_count ?c > 0")
    case pos: True
    have step: "stays b b'" if "stays b b1" "egress_fail_batch n b1 s = Some b'" for b1
      using stays_trans [OF that(1) Suc.IH [OF live_stays [OF Suc.prems(1) that(1)] that(2)]] .
    show ?thesis
    proof (cases "seg_kind ?seg = SEG_PUBLISH \<and> seg_qos ?seg > 0 \<and> seg_packet_id ?seg > 0 \<and> seg_dup ?seg = 0")
      case False
      then show ?thesis using Suc.prems(2) pos step [OF stays_discard(1) [OF Suc.prems(1) pos]] by (auto simp: Let_def)
    next
      case True
      show ?thesis
      proof (cases "client_inflight_find_direct ?c (seg_packet_id ?seg)")
        case None
        then show ?thesis using Suc.prems(2) pos True step [OF stays_pop [OF Suc.prems(1) pos]] by (simp add: Let_def)
      next
        case (Some i)
        define b1 where "b1 = release_msg_ref b (ih_msg_idx (c_inflight_hot ?c ! i))"
        have c1: "cl b1 = cl b" by (simp add: b1_def)
        obtain c where c: "client_inflight_free_slot ?c i = Some c" "egress_fail_batch n (client_update b1 s (\<lambda>_. egress_pop_head c)) s = Some b'"
          using Suc.prems(2) pos True Some by (auto simp: Let_def b1_def split: option.splits)
        have "stays b1 (client_update b1 s (\<lambda>_. egress_pop_head c))"
        proof (rule stays_update)
          show "live b1 s" using live_same [OF c1] Suc.prems(1) by simp
          assume "slot_live (b_max_inflight b1) (client_at b1 s)"
          then have l: "slot_live (b_max_inflight b1) ?c" using client_at_cl [OF c1] by simp
          obtain c' where "client_inflight_free_slot ?c i = Some c'" "slot_live (b_max_inflight b1) c'" "c_egress_count c' = c_egress_count ?c"
            using live_free_slot [OF l find_below [OF Some slot_liveD(4) [OF l]]] by blast
          then show "slot_live (b_max_inflight b1) (egress_pop_head c)" using c(1) live_pop pos by simp
        qed
        then show ?thesis using step [OF stays_from [OF c1] c(2)] by blast
      qed
    qed
  next
    case False
    then show ?thesis using Suc.prems(2) by (simp add: Let_def)
  qed
qed simp

lemma stays_egress_cqe:
  assumes ok: "slots_ok b" and h: "handle_egress_cqe b cqe = Some b'"
  shows "stays b b'"
proof (cases "broker_get_client b (unat (EGRESS_CTX_SLOT (ud_ctx (cqe_user_data cqe))))")
  case (Some s)
  define b1 where "b1 = client_update b s (\<lambda>c. c\<lparr>c_egress_inflight := False\<rparr>)"
  have s1: "stays b b1" unfolding b1_def by (rule stays_view) (simp_all add: wf_view_def inflight_view_def)
  show ?thesis
  proof (cases "b' = b \<or> b' = b1")
    case True
    then show ?thesis using s1 by auto
  next
    case False
    then have pos: "c_egress_count (client_at b1 s) > 0"
      using h unfolding handle_egress_cqe_def Let_def Some option.case b1_def [symmetric] by (auto split: if_splits)
    note l1 = slots_ok_live [OF slots_ok_stays [OF ok s1] disjI2 [OF pos]]
    define fin where "fin b = (if c_egress_count (client_at b s) > 0 \<and> c_state (client_at b s) = CLIENT_ACTIVE then egress_kick b s else b)" for b
    obtain b2 where b2: "(if cqe_res cqe > 0
            then Some (egress_walk (c_egress_batch_count (client_at b1 s)) (of_int (cqe_res cqe)) (b1\<lparr>b_bytes_sent := b_bytes_sent b1 + of_int (cqe_res cqe)\<rparr>) s)
            else if cqe_res cqe = - EAGAIN \<or> cqe_res cqe = - EINTR then Some b1
            else egress_fail_batch (c_egress_batch_count (client_at b1 s)) (b1\<lparr>b_drops_send_failed := b_drops_send_failed b1 + 1\<rparr>) s) = Some b2"
      and b': "b' = fin b2"
      using h False unfolding handle_egress_cqe_def Let_def Some option.case b1_def [symmetric] fin_def [symmetric] map_option_eq_Some
      by (simp split: if_splits) blast+
    have e: "live (b1\<lparr>b_bytes_sent := x\<rparr>) s" "live (b1\<lparr>b_drops_send_failed := x\<rparr>) s" for x
      using l1 live_same [of "b1\<lparr>b_bytes_sent := x\<rparr>" b1] live_same [of "b1\<lparr>b_drops_send_failed := x\<rparr>" b1] by simp_all
    have "stays b1 b2"
      using b2 stays_from [OF _ stays_walk [OF e(1)]] stays_from [OF _ stays_fail_batch [OF e(2)]] by (auto split: if_splits)
    moreover from this have "stays b2 (fin b2)" using stays_kick live_stays [OF l1] by (simp add: fin_def)
    ultimately show ?thesis using b' stays_trans s1 by blast
  qed
qed (use h in \<open>simp add: handle_egress_cqe_def Let_def\<close>)

end
