(* ===== verification/Client_Msgs.thy ===== *)
theory Client_Msgs
  imports Client_Ops
begin

text \<open>Submitting, the QoS ceremonies and the packets: none of them breaks a slot.\<close>

section \<open>Submitting\<close>

text \<open>A store to fields the invariant does not depend on.\<close>

lemma stays_fields:
  "stays b (client_update b s (\<lambda>c. c\<lparr>c_recv_start := x\<rparr>))" "stays b (client_update b s (\<lambda>c. c\<lparr>c_recv_pending := y\<rparr>))"
  "stays b (client_update b s (\<lambda>c. c\<lparr>c_recv_len := g c\<rparr>))" "stays b (advance_recv b s n)"
  "stays b (client_update b s (\<lambda>c. c\<lparr>c_orphaned_recv_buf_idx := x\<rparr>))" "stays b (client_update b s (\<lambda>c. c\<lparr>c_recv_buf_idx := x\<rparr>))"
  "stays b (client_update b s (\<lambda>c. c\<lparr>c_recv_buf_idx := x, c_recv_start := x', c_recv_len := x''\<rparr>))"
  "stays b (client_update b s (\<lambda>c. client_resp_slot_mark_inflight c i))" "stays b (client_update b s (\<lambda>c. client_resp_slot_complete c i))"
  "stays b (fill_resp b s i buf)" "stays b (client_update b s (\<lambda>c. client_set_identity c cid n'))"
  "stays b (client_update b s (\<lambda>c. c\<lparr>c_protocol_version := v, c_keepalive := kl, c_clean_session := cs\<rparr>))"
  unfolding advance_recv_def fill_resp_def
  by (rule stays_view; simp add: wf_view_def inflight_view_def client_resp_slot_mark_inflight_def client_resp_slot_complete_def
      client_set_identity_def Let_def)+

lemma stays_closing: "live b s \<Longrightarrow> stays b (client_update b s (\<lambda>c. c\<lparr>c_state := st\<rparr>))"
  by (rule stays_update) (simp_all add: slot_live_cong [of "c\<lparr>c_state := st\<rparr>" c for c] wf_view_def inflight_view_def)

lemma stays_after: "stays b b1 \<Longrightarrow> cl b2 = cl b1 \<Longrightarrow> stays b2 b' \<Longrightarrow> stays b b'"
  using stays_trans stays_from by blast

lemma cl_submit_accept: "cl (snd (submit_accept k b)) = cl b"
  using cl_get_sqe [of k b] by (auto simp: submit_accept_def Let_def split: prod.splits option.splits)

lemma resp_slot_loop_form: "resp_slot_loop c n = (i, c') \<Longrightarrow> \<exists>x. c' = c\<lparr>c_resp_slot := x\<rparr>"
proof (induction n)
  case 0
  then have "c' = c\<lparr>c_resp_slot := c_resp_slot c\<rparr>" by simp
  then show ?case by blast
next
  case (Suc n)
  then show ?case by (auto simp: Let_def split: if_splits)
qed

lemma stays_take_resp: "client_get_resp_slot (client_at b s) = (i, c') \<Longrightarrow> stays b (client_update b s (\<lambda>_. c'))"
  using resp_slot_loop_form [of "client_at b s" RESP_SLOTS i c']
  by (intro stays_view) (auto simp: client_get_resp_slot_def wf_view_def inflight_view_def)

lemma stays_send_slot: "stays b (snd (submit_send_resp_slot k b s i n))"
proof (cases "get_sqe_with_flush k b")
  case (Pair r b1)
  have "stays b (client_update (put_sqe b1 x f ud) s (\<lambda>c. client_resp_slot_mark_inflight c i))" for x f ud
    using stays_after [OF stays_same [OF cl_get_sqe [OF Pair]] cl_calls(5) stays_fields(8)] .
  then show ?thesis using Pair stays_same [OF cl_get_sqe [OF Pair]]
    by (simp add: submit_send_resp_slot_def Let_def split: option.split)
qed

lemma stays_send: "stays b (snd (send_static k b s buf))" "stays b (snd (send_resp k b s hdr pid))" "stays b (snd (send_buf k b s buf))"
proof -
  obtain i c where r: "client_get_resp_slot (client_at b s) = (i, c)" by fastforce
  let ?b = "client_update b s (\<lambda>_. c)"
  note t = stays_take_resp [OF r]
  have f: "stays b (snd (submit_send_resp_slot k (fill_resp ?b s i buf) s i n))" for buf n
    using stays_trans [OF stays_trans [OF t stays_fields(10)] stays_send_slot] .
  have w: "stays b (b1\<lparr>b_drops_resp_full := x\<rparr>)" if "sys_write k ?b fd buf = (rc, b1)" for fd buf rc b1 x
    using stays_into [OF _ t, of "b1\<lparr>b_drops_resp_full := x\<rparr>"] cl_calls(4) [of k ?b fd buf] that by simp
  have d: "stays b (?b\<lparr>b_drops_resp_full := x\<rparr>)" for x using stays_into [OF _ t] by simp
  show "stays b (snd (send_static k b s buf))" "stays b (snd (send_resp k b s hdr pid))" "stays b (snd (send_buf k b s buf))"
    using f w d by (auto simp: send_static_def send_resp_def send_buf_def r Let_def split: prod.splits)
qed

lemma stays_acks: "stays b (send_puback k b s pid)" "stays b (send_pubrec k b s pid)" "stays b (send_pubrel k b s pid)"
    "stays b (send_pubcomp k b s pid)" "stays b (send_unsuback k b s pid)"
  by (simp_all add: send_puback_def send_pubrec_def send_pubrel_def send_pubcomp_def send_unsuback_def stays_send)

lemma stays_compact: "stays b (snd (maybe_compact_recv_buf b s))"
  using stays_fields(1) stays_from [OF cl_calls(6) stays_fields(1)]
  by (auto simp: maybe_compact_recv_buf_def Let_def split: option.split)

lemma stays_submit_close:
  assumes "slots_ok b"
  shows "stays b (submit_close k b fd)"
proof -
  let ?b1 = "case broker_get_client_by_fd b fd of
                 Some s \<Rightarrow> if c_state (client_at b s) = CLIENT_ACTIVE
                           then client_update b s (\<lambda>c. c\<lparr>c_state := CLIENT_CLOSING\<rparr>) else b
               | None \<Rightarrow> b"
  have "live b s" if "c_state (client_at b s) = CLIENT_ACTIVE" for s using slots_ok_live [OF assms, of s] that by simp
  then have s1: "stays b ?b1" by (auto intro: stays_closing split: option.split)
  have "cl (case get_sqe_with_flush k b2 of (None, b) \<Rightarrow> b | (Some i, b) \<Rightarrow> put_sqe b i f ud) = cl b2" for b2 f ud
    using cl_get_sqe [of k b2] by (auto split: prod.splits option.splits)
  then show ?thesis unfolding submit_close_def Let_def by (intro stays_into [OF _ s1]) simp
qed

lemma stays_recv_internal:
  assumes "live b s"
  shows "stays b (snd (submit_recv_internal k b s))"
proof (cases "get_sqe_with_flush k b")
  case (Pair i b1)
  note s1 = stays_same [OF cl_get_sqe [OF Pair]]
  define b2 where "b2 = snd (maybe_compact_recv_buf b1 s)"
  have s2: "stays b b2" using stays_trans [OF s1 stays_compact] by (simp add: b2_def)
  have l: "live b3 s" if "cl b3 = cl b2" for b3 using live_stays [OF assms s2] live_same [OF that] by simp
  have "stays b (client_update b3 s (\<lambda>c. c\<lparr>c_state := CLIENT_CLOSING\<rparr>))" "stays b (client_update b3 s (\<lambda>c. c\<lparr>c_recv_pending := True\<rparr>))"
    if "cl b3 = cl b2" for b3
    using stays_after [OF s2 that stays_closing [OF l [OF that]]] stays_after [OF s2 that stays_fields(2)] by simp_all
  then show ?thesis using Pair s1
    by (auto simp: submit_recv_internal_def Let_def b2_def [symmetric] split: option.split)
qed

lemma stays_submit_recv: "live b s \<Longrightarrow> stays b (submit_recv k b s)"
  using stays_recv_internal [of b s k] stays_into [OF cl_calls(7)]
  by (auto simp: submit_recv_def split: prod.splits bool.splits)

section \<open>The QoS ceremonies\<close>

lemma stays_pub_received:
  assumes l: "live b s" and pid: "qos = 2 \<Longrightarrow> pid \<noteq> 0" and h: "fsm_pub_received k b s qos pid = (r, b')"
  shows "stays b b'"
proof -
  obtain x c where t: "client_inflight_track_incoming (client_at b s) pid (b_now b + LLMQ_INFLIGHT_TIMEOUT_MS) = (x, c)" by fastforce
  have u: "qos = 2 \<Longrightarrow> stays b (client_update b s (\<lambda>_. c))" using live_track [OF _ pid t] by (intro stays_update [OF l]) simp_all
  show ?thesis using h u stays_trans [OF u stays_acks(2)] stays_acks
    by (auto simp: fsm_pub_received_def t Let_def split: if_splits option.splits)
qed

text \<open>Freeing an entry of the table.\<close>

lemma stays_free_entry:
  assumes l: "live b s" and f: "client_inflight_free_slot (client_at b s) i = Some c"
    and i: "slot_live (b_max_inflight b) (client_at b s) \<Longrightarrow> i < c_max_inflight (client_at b s)"
  shows "stays b (client_update b s (\<lambda>_. c))"
  using live_free_slot' [OF _ i f] by (intro stays_update [OF l]) simp

lemma find_live: "slot_live n c \<Longrightarrow> client_inflight_find c pid = Some i \<Longrightarrow> i < c_max_inflight c"
  using client_inflight_find_Some [of c pid i] slot_liveD(1) in_use_below by blast

lemma find_direct_live: "slot_live n c \<Longrightarrow> client_inflight_find_direct c pid = Some i \<Longrightarrow> i < c_max_inflight c"
  using find_below slot_liveD(4) by blast

lemma stays_pubrel:
  assumes l: "live b s" and h: "fsm_pub_pubrel_received k b s pid = Some b'"
  shows "stays b b'"
proof -
  obtain c where c: "b' = send_pubcomp k (client_update b s (\<lambda>_. c)) s pid"
    and f: "c = client_at b s \<or> (\<exists>i. client_inflight_find (client_at b s) pid = Some i \<and> client_inflight_free_slot (client_at b s) i = Some c)"
    using h by (auto simp: fsm_pub_pubrel_received_def Let_def split: bind_splits option.splits if_splits)
  have "stays b (client_update b s (\<lambda>_. c))"
    using f stays_free_entry [OF l _ find_live] stays_update [OF l, of "\<lambda>_. c"] by auto
  then show ?thesis using stays_trans [OF _ stays_acks(4)] c by blast
qed

lemma stays_append:
  assumes "live b s" "\<not> egress_full (c_egress_count (client_at b s)) (c_egress_capacity (client_at b s))"
    "\<And>seg. length (seg_ctrl (f (client_at b s) seg)) = length (seg_ctrl seg)"
  shows "stays b (client_update b s (\<lambda>c. egress_append c (f c)))"
  by (rule stays_update [OF assms(1)]) (rule live_append, use assms(2,3) in simp_all)

lemma stays_start_delivery:
  assumes "live b s"
  shows "stays b (snd (fsm_sub_start_delivery b m q s))"
proof -
  define b1 where "b1 = msg_ref b m"
  have c1: "cl b1 = cl b" by (simp add: b1_def)
  have l1: "live b1 s" using assms live_same [OF c1] by simp
  have "stays b1 (egress_kick (client_update b1 s (\<lambda>c. egress_append c (publish_segment m msg 0 q 0 (c_generation c)))) s)"
    if "\<not> egress_full (c_egress_count (client_at b1 s)) (c_egress_capacity (client_at b1 s))" for msg
    using stays_append [OF l1 that, of "\<lambda>c. publish_segment m msg 0 q 0 (c_generation c)"] stays_trans stays_kick live_stays [OF l1] by simp
  then show ?thesis
    using stays_from [OF c1] stays_same c1 by (auto simp: fsm_sub_start_delivery_def Let_def b1_def [symmetric])
qed

lemma stays_puback:
  assumes l: "live b s" and h: "fsm_sub_puback_received b s pid = Some b'"
  shows "stays b b'"
proof (cases "b' = b")
  case False
  then obtain i c where i: "client_inflight_find_direct (client_at b s) pid = Some i"
    and c: "client_inflight_free_slot (client_at b s) i = Some c"
    and b': "b' = (if c_egress_count c > 0 \<and> \<not> c_egress_inflight c
        then egress_kick (client_update (release_msg_ref b (ih_msg_idx (c_inflight_hot (client_at b s) ! i))) s (\<lambda>_. c)) s
        else client_update (release_msg_ref b (ih_msg_idx (c_inflight_hot (client_at b s) ! i))) s (\<lambda>_. c))"
    using h by (auto simp: fsm_sub_puback_received_def Let_def split: option.splits if_splits bind_splits)
  define b1 where "b1 = release_msg_ref b (ih_msg_idx (c_inflight_hot (client_at b s) ! i))"
  have c1: "cl b1 = cl b" by (simp add: b1_def)
  have l1: "live b1 s" using l live_same [OF c1] by simp
  have s2: "stays b1 (client_update b1 s (\<lambda>_. c))"
    using stays_free_entry [OF l1, of i c] c i find_direct_live by (simp add: client_at_cl [OF c1])
  show ?thesis unfolding b' b1_def [symmetric] by (rule stays_from [OF c1])
      (cases "c_egress_count c > 0 \<and> \<not> c_egress_inflight c", use s2 stays_trans [OF s2 stays_kick] live_stays [OF l1 s2] in simp_all)
qed simp

lemma stays_enqueue_pubrel: "live b s \<Longrightarrow> stays b (enqueue_pubrel k b s pid)"
  using stays_append [of b s "\<lambda>c. pubrel_segment pid (c_generation c)"] stays_acks(3)
  by (simp add: enqueue_pubrel_def Let_def)

lemma stays_pubrec:
  assumes l: "live b s" and h: "fsm_sub_pubrec_received k b s pid = Some b'"
  shows "stays b b'"
proof -
  define fin where "fin p b = (if p (client_at b s) then egress_kick b s else b)" for p and b :: broker
  have fin: "stays b1 (fin p b1)" if "live b1 s" for p b1 using stays_kick [OF that] by (simp add: fin_def)
  have pr: "stays b1 (fin p (enqueue_pubrel k b1 s pid))" if "live b1 s" for p b1
    using stays_trans [OF stays_enqueue_pubrel [OF that] fin] live_stays [OF that stays_enqueue_pubrel [OF that]] by blast
  show ?thesis
  proof (cases "case client_inflight_find_direct (client_at b s) pid of None \<Rightarrow> True
      | Some i \<Rightarrow> ih_state (c_inflight_hot (client_at b s) ! i) \<noteq> INFLIGHT_WAIT_PUBREC")
    case True
    then have "b' = fin (\<lambda>c. \<not> c_egress_inflight c) (enqueue_pubrel k b s pid)"
      using h by (simp add: fsm_sub_pubrec_received_def Let_def fin_def)
    then show ?thesis using pr [OF l] by blast
  next
    case False
    then obtain i where i: "client_inflight_find_direct (client_at b s) pid = Some i" by (auto split: option.splits)
    define b1 where "b1 = release_msg_ref b (ih_msg_idx (c_inflight_hot (client_at b s) ! i))"
    have c1: "cl b1 = cl b" by (simp add: b1_def)
    have l1: "live b1 s" using l live_same [OF c1] by simp
    obtain c where c: "client_inflight_free_slot (client_at b s) i = Some c"
      and b': "b' = fin (\<lambda>c. c_egress_count c > 0 \<and> \<not> c_egress_inflight c) (enqueue_pubrel k (client_update b1 s (\<lambda>_. c)) s pid)"
      using h False i by (auto simp: fsm_sub_pubrec_received_def Let_def fin_def b1_def split: bind_splits)
    have s2: "stays b1 (client_update b1 s (\<lambda>_. c))"
      using stays_free_entry [OF l1, of i c] c i find_direct_live by (simp add: client_at_cl [OF c1])
    show ?thesis unfolding b' by (rule stays_from [OF c1 stays_trans [OF s2 pr [OF live_stays [OF l1 s2]]]])
  qed
qed

end
