(* ===== verification/Client_Loop.thy ===== *)
theory Client_Loop
  imports Client_Msgs Slot_Correct
begin

text \<open>
  Well-formed slots through the event loop: timeouts, disconnects, publications and the other packets, completions, and
  with them every state the loop reaches.
\<close>

section \<open>Timeouts and disconnects\<close>

lemma stays_give_up:
  assumes l: "live b s" and i: "slot_live (b_max_inflight b) (client_at b s) \<Longrightarrow> i < c_max_inflight (client_at b s)" and h: "fsm_give_up b s i = Some b'"
  shows "stays b b'"
proof -
  define b1 where "b1 = release_msg_ref b (ih_msg_idx (hot_at b s i))"
  have c1: "cl b1 = cl b" by (simp add: b1_def)
  obtain c where c: "client_inflight_free_slot (client_at b s) i = Some c"
    and b': "cl b' = cl (client_update b1 s (\<lambda>_. c))"
    using h by (auto simp: fsm_give_up_def b1_def Let_def split: bind_splits)
  have "live b1 s" using l live_same [OF c1] by simp
  then have "stays b1 (client_update b1 s (\<lambda>_. c))"
    using stays_free_entry [of b1 s i c] c i c1 by (simp add: client_at_cl [OF c1] cl_def)
  then show ?thesis using stays_from [OF c1] stays_into [OF b'] by blast
qed

lemma stays_timeout:
  assumes l: "live b s" and i: "slot_live (b_max_inflight b) (client_at b s) \<Longrightarrow> i < c_max_inflight (client_at b s)" and h: "fsm_sub_timeout b s i = Some b'"
  shows "stays b b'"
proof (cases "ic_dup_count (cold_at b s i) \<ge> LLMQ_MAX_RETRIES")
  case True
  then show ?thesis using stays_give_up [OF l i] h by (simp add: fsm_sub_timeout_def)
next
  case False
  define b1 where "b1 = client_update b s (\<lambda>c. c\<lparr>c_inflight_cold := (c_inflight_cold c)[i :=
                     (c_inflight_cold c ! i)\<lparr>ic_dup_count := ic_dup_count (c_inflight_cold c ! i) + 1,
                                             ic_deadline := b_now b + LLMQ_INFLIGHT_TIMEOUT_MS\<rparr>]\<rparr>)"
  have s1: "stays b b1" unfolding b1_def by (rule stays_update [OF l]) (rule live_cold)
  note l1 = live_stays [OF l s1]
  have i1: "i < c_max_inflight (client_at b1 s)" if "slot_live (b_max_inflight b1) (client_at b1 s)" "s < length (b_clients b)"
    using that l i slot_liveD(5) by (auto simp: live_def b1_def client_at_store client_update_def)
  note h' = h [unfolded fsm_sub_timeout_def Let_def if_not_P [OF False], folded b1_def]
  show ?thesis
  proof (cases "egress_full (c_egress_count (client_at b1 s)) (c_egress_capacity (client_at b1 s))")
    case True
    show ?thesis
    proof (cases "s < length (b_clients b)")
      case in_range: True
      have "fsm_give_up b1 s i = Some b'" using h' True by simp
      then show ?thesis using stays_trans [OF s1 stays_give_up [OF l1 i1]] in_range by blast
    next
      case False
      then have "b1 = b" by (simp add: b1_def client_update_def list_update_beyond)
      then show ?thesis using h' True stays_give_up [OF l i] by simp
    qed
  next
    case False
    let ?b2 = "client_update b1 s (\<lambda>c. egress_append c (publish_segment (ih_msg_idx (hot_at b1 s i))
        (msg_pool_get (b_msg_pool b1) (ih_msg_idx (hot_at b1 s i))) (ih_packet_id (hot_at b1 s i)) (ic_qos (cold_at b1 s i)) 1 (c_generation c)))"
    have s2: "stays b1 ?b2" by (rule stays_append [OF l1 False]) simp
    have "b' = egress_kick ?b2 s" using h' False by simp
    then show ?thesis using stays_trans [OF s1 stays_trans [OF s2 stays_kick [OF live_stays [OF l1 s2]]]] by simp
  qed
qed

lemma stays_sweep_slots: "live b s \<Longrightarrow> s < length (b_clients b) \<Longrightarrow> m \<le> b_max_inflight b \<Longrightarrow> sweep_slots m found p b s = Some (q, b') \<Longrightarrow> stays b b'"
proof (induction m arbitrary: b found p)
  case (Suc m)
  let ?c = "client_at b s" and ?i = "c_max_inflight (client_at b s) - Suc m"
  have mx: "c_max_inflight ?c = b_max_inflight b" using Suc.prems(1,2) slot_liveD(5) by (auto simp: live_def)
  then have i: "?i < c_max_inflight ?c" using Suc.prems(3) by simp
  have rec: "stays b b'" if "stays b b1" "sweep_slots m f p' b1 s = Some (q, b')" for b1 f p'
  proof -
    have "b_max_inflight b1 = b_max_inflight b" "length (b_clients b1) = length (b_clients b)" using that(1) by (simp_all add: stays_def)
    then show ?thesis using stays_trans [OF that(1) Suc.IH [OF live_stays [OF Suc.prems(1) that(1)] _ _ that(2)]] Suc.prems(2,3) by simp
  qed
  show ?case
    using Suc.prems(4) rec [OF stays_refl] rec [OF stays_timeout [OF Suc.prems(1) i]]
    by (auto simp: Let_def split: if_splits option.splits)
qed simp

lemma stays_sweep_clients: "slots_ok b \<Longrightarrow> sweep_clients is p b = Some (q, b') \<Longrightarrow> \<forall>i \<in> set is. i < length (b_clients b) \<Longrightarrow> stays b b'"
proof (induction "is" arbitrary: b p)
  case (Cons i "is")
  have rec: "stays b b'" if "stays b b1" "sweep_clients is p' b1 = Some (q, b')" for b1 p'
    using stays_trans [OF that(1) Cons.IH [OF slots_ok_stays [OF Cons.prems(1) that(1)] that(2)]] Cons.prems(3) that(1) by (auto simp: stays_def)
  have l: "c_state (client_at b i) = CLIENT_ACTIVE \<Longrightarrow> live b i" using slots_ok_live [OF Cons.prems(1), of i] by simp
  have sw: "stays b b1" if f: "fsm_sweep_client b i = Some (n, b1)" "c_state (client_at b i) = CLIENT_ACTIVE" for n b1
  proof -
    have "c_max_inflight (client_at b i) \<le> b_max_inflight b" using l [OF that(2)] Cons.prems(3) slot_liveD(5) by (auto simp: live_def)
    then show ?thesis using f stays_sweep_slots [OF l [OF that(2)]] Cons.prems(3) by (auto simp: fsm_sweep_client_def split: if_splits)
  qed
  show ?case using Cons.prems(2) rec [OF stays_refl] rec sw by (auto split: if_splits option.splits)
qed simp

lemma stays_sweep: "slots_ok b \<Longrightarrow> length (b_clients b) = b_max_clients b \<Longrightarrow> fsm_sweep_all_timeouts b = Some (q, b') \<Longrightarrow> stays b b'"
  by (rule stays_sweep_clients) (auto simp: fsm_sweep_all_timeouts_def)

lemma stays_drain: "live b s \<Longrightarrow> stays b (drain_egress n b s)"
proof (induction n arbitrary: b)
  case (Suc n)
  show ?case
  proof (cases "c_egress_count (client_at b s) > 0")
    case True
    let ?seg = "egress_head (client_at b s)"
    define b1 where "b1 = (if seg_kind ?seg = SEG_PUBLISH \<and> seg_msg_idx ?seg \<noteq> MSG_POOL_INVALID \<and> seg_packet_id ?seg = 0
        then release_msg_ref b (seg_msg_idx ?seg) else b)"
    have c1: "cl b1 = cl b" by (simp add: b1_def)
    have s2: "stays b (client_update b1 s egress_pop_head)"
      using stays_from [OF c1 stays_pop] Suc.prems True live_same [OF c1] client_at_cl [OF c1] by simp
    have "drain_egress (Suc n) b s = drain_egress n (client_update b1 s egress_pop_head) s" using True by (simp add: b1_def Let_def)
    then show ?thesis using stays_trans [OF s2 Suc.IH [OF live_stays [OF Suc.prems s2]]] by simp
  qed simp
qed simp

lemma cl_release_inflight: "cl (release_inflight n found b s) = cl b"
  by (induction n arbitrary: found b) (simp_all add: Let_def)

lemma stays_disconnect: "live b s \<Longrightarrow> stays b (fsm_client_disconnect b s)"
  using stays_drain stays_into [OF cl_release_inflight] by (simp add: fsm_client_disconnect_def Let_def)

section \<open>Packets\<close>

lemma stays_foldl: "slots_ok (snd st) \<Longrightarrow> (\<And>st x. slots_ok (snd st) \<Longrightarrow> stays (snd st) (snd (f st x))) \<Longrightarrow> stays (snd st) (snd (foldl f st xs))"
proof (induction xs arbitrary: st)
  case (Cons x xs)
  note s1 = Cons.prems(2) [OF Cons.prems(1), of x]
  show ?case using stays_trans [OF s1 Cons.IH [OF slots_ok_stays [OF Cons.prems(1) s1] Cons.prems(2)]] by simp
qed simp

lemma stays_deliver_bit:
  assumes "slots_ok (snd st)"
  shows "stays (snd st) (snd (deliver_bit msg q node w st i))"
proof -
  obtain px b where st: "st = (px, b)" by (cases st)
  let ?s = "w * BITS_PER_SLOT + i"
  have "stays b (snd (snd (forward_publish_zc b ?s px' msg q)))" if "c_state (client_at b ?s) = CLIENT_ACTIVE" for px'
    using stays_start_delivery [of b ?s "px_msg_idx px'" "if cm_qos msg < q then cm_qos msg else q"] slots_ok_live [of b ?s] assms that
    by (cases "fsm_sub_start_delivery b (px_msg_idx px') (if cm_qos msg < q then cm_qos msg else q) ?s")
      (simp add: st forward_publish_zc_def Let_def)
  then show ?thesis by (simp add: st deliver_bit_def Let_def)
qed

lemma stays_matches: "slots_ok b \<Longrightarrow> stays b (snd (process_publish_matches b px ms))"
proof -
  assume ok: "slots_ok b"
  have w: "slots_ok (snd st) \<Longrightarrow> stays (snd st) (snd (deliver_word msg q node st w))" for msg q node st w
    unfolding deliver_word_def Let_def by (erule stays_foldl) (rule stays_deliver_bit)
  have n: "slots_ok (snd st) \<Longrightarrow> stays (snd st) (snd (deliver_node msg q t st n))" for msg q t st n
    unfolding deliver_node_def by (erule stays_foldl) (rule w)
  show ?thesis using stays_foldl [of "(px, b)" _ ms, OF _ n] ok by (simp add: process_publish_matches_def split: option.split)
qed

lemma stays_fan_out: "slots_ok b \<Longrightarrow> stays b (fan_out b m stolen topic len)"
proof -
  assume ok: "slots_ok b"
  define b1 where "b1 = b\<lparr>b_msg_pool := msg_pool_ref (b_msg_pool b) m\<rparr>"
  have c1: "cl b1 = cl b" by (simp add: b1_def)
  let ?b2 = "snd (process_publish_matches b1 \<lparr>px_msg_idx = m, px_stolen_buf_idx = stolen, px_sent_bitmap = replicate TRIE_FD_SLOTS 0,
      px_subscriber_count = 0\<rparr> (trie_match_collect (b_trie b1) topic len))"
  have s2: "stays b ?b2" using stays_from [OF c1 stays_matches] slots_ok_same [OF c1] ok by simp
  have "cl (fan_out b m stolen topic len) = cl ?b2"
    unfolding fan_out_def Let_def b1_def [symmetric] by (simp split: prod.split)
  then show ?thesis using stays_into [OF _ s2] by blast
qed

lemma stays_steal: "steal_recv_buffer b s n = (new, st, b') \<Longrightarrow> stays b b'"
proof -
  assume h: "steal_recv_buffer b s n = (new, st, b')"
  obtain i p where ip: "buf_pool_alloc (b_recv_pool b) = (i, p)" by fastforce
  have u: "stays b (client_update b1 s (\<lambda>c. c\<lparr>c_recv_buf_idx := x, c_recv_start := 0, c_recv_len := y\<rparr>))" if "cl b1 = cl b" for b1 x y
    by (rule stays_from [OF that stays_fields(7)])
  define c where "c = client_at b s"
  define left where "left = (if c_recv_len c > n then c_recv_len c - n else 0)"
  define b2 where "b2 = (if left > 0 then recv_buf_update (b\<lparr>b_recv_pool := p\<rparr>) i (\<lambda>buf. take left
      (drop (c_recv_start c + n) (bp_bufs p ! c_recv_buf_idx c)) @ drop left buf) else b\<lparr>b_recv_pool := p\<rparr>)"
  have c2: "cl b2 = cl b" by (simp add: b2_def)
  have "client_at (b\<lparr>b_recv_pool := p\<rparr>) s = c" by (simp add: c_def client_at_def)
  then have "b' = b\<lparr>b_recv_pool := p\<rparr> \<or> b' = (client_update b2 s (\<lambda>c. c\<lparr>c_recv_buf_idx := i, c_recv_start := 0, c_recv_len := left\<rparr>))
      \<lparr>b_stolen_buffers := b_stolen_buffers (client_update b2 s (\<lambda>c. c\<lparr>c_recv_buf_idx := i, c_recv_start := 0, c_recv_len := left\<rparr>)) + 1\<rparr>"
    using h ip by (auto simp: steal_recv_buffer_def Let_def b2_def left_def split: if_splits)
  then show ?thesis using stays_same [of "b\<lparr>b_recv_pool := p\<rparr>" b] stays_into [OF _ u [OF c2]] by auto
qed

lemma stays_publish_accepted:
  assumes "slots_ok b"
  shows "stays b (publish_accepted b s buf n pub)"
proof -
  obtain i mp where m: "msg_pool_alloc (b_msg_pool b) = (i, mp)" by fastforce
  let ?b = "b\<lparr>b_msg_pool := mp\<rparr>"
  obtain new st b1 where st: "steal_recv_buffer ?b s n = (new, st, b1)" by (metis surj_pair)
  have s1: "stays b b1" using stays_from [OF _ stays_steal [OF st]] by simp
  have d: "stays b (count_drop b2)" if "stays b b2" for b2 using stays_into [OF _ that] by (simp add: count_drop_def)
  have f: "stays b (fan_out (b1\<lparr>b_msg_pool := p\<rparr>) i x t l)" for p x t l
    using stays_after [OF s1 _ stays_fan_out, of "b1\<lparr>b_msg_pool := p\<rparr>"] slots_ok_same [of "b1\<lparr>b_msg_pool := p\<rparr>" b1] slots_ok_stays [OF assms s1] by simp
  have "stays b (count_drop ?b)" "stays b (count_drop (b1\<lparr>b_msg_pool := p\<rparr>))" for p
    using d stays_same [of ?b b] stays_into [OF _ s1, of "b1\<lparr>b_msg_pool := p\<rparr>"] by simp_all
  then show ?thesis using f by (simp add: publish_accepted_def m st Let_def split: option.split)
qed

text \<open>The parser refuses the packet identifier 0.\<close>

lemma publish_pid: "mqtt_parse_publish fl buf p len = Inr pub \<Longrightarrow> pub_qos pub = 2 \<Longrightarrow> pub_packet_id pub \<noteq> 0"
  by (auto simp: mqtt_parse_publish_def ebind_Inr_iff Let_def split: if_splits prod.splits)

lemma stays_publish:
  assumes ok: "slots_ok b" and l: "live b s" and h: "handle_publish k b s buf p len n fl = Some (go, b')"
  shows "stays b b'"
proof (cases "c_protocol_version (client_at b s) = 0 \<or> (\<exists>e. mqtt_parse_publish fl buf p len = Inl e)")
  case True
  then show ?thesis using h by (auto simp: handle_publish_def split: if_splits)
next
  case False
  then obtain pub where pub: "mqtt_parse_publish fl buf p len = Inr pub" by (cases "mqtt_parse_publish fl buf p len") auto
  obtain r b1 where f: "fsm_pub_received k b s (pub_qos pub) (pub_packet_id pub) = (r, b1)" by fastforce
  have s1: "stays b b1" by (rule stays_pub_received [OF l _ f]) (rule publish_pid [OF pub])
  show ?thesis using h False pub f s1 stays_trans [OF s1 stays_publish_accepted [OF slots_ok_stays [OF ok s1]]]
    by (auto simp: handle_publish_def split: if_splits)
qed

lemma stays_connect:
  assumes h: "handle_connect k b s buf p len = Some (go, b')"
  shows "stays b b'"
proof -
  have i: "stays b b1" if "broker_set_client_identity b j cid n = Some b1" for j cid n b1
    using that stays_into [OF _ stays_fields(11)] by (auto simp: broker_set_client_identity_def Let_def)
  have "stays b (snd (send_buf k (client_update b1 s (\<lambda>c. c\<lparr>c_protocol_version := v, c_keepalive := kl, c_clean_session := cs\<rparr>)) s buf'))"
    if "stays b b1" for b1 v kl cs buf'
    using stays_trans [OF stays_trans [OF that stays_fields(12)] stays_send(3)] .
  then show ?thesis using h i stays_send(3)
    by (auto simp: handle_connect_def Let_def split: if_splits sum.splits bind_splits)
qed

lemma cl_add_filters: "cl (snd (foldl (add_filter slot gen buf) st fs)) = cl (snd st)"
proof (induction fs arbitrary: st)
  case (Cons f fs)
  have "cl (snd (add_filter slot gen buf st f)) = cl (snd st)" by (simp add: add_filter_def sub_add_def Let_def split: prod.split)
  then show ?case using Cons by simp
qed simp

lemma stays_subscribe:
  assumes h: "handle_subscribe k b s buf p len = Some (go, b')"
  shows "stays b b'"
proof (cases "c_protocol_version (client_at b s) = 0 \<or> (\<exists>e. mqtt_parse_subscribe buf p len = Inl e)")
  case True
  then show ?thesis using h by (auto simp: handle_subscribe_def split: if_splits)
next
  case False
  then obtain pkt where pkt: "mqtt_parse_subscribe buf p len = Inr pkt" by (cases "mqtt_parse_subscribe buf p len") auto
  obtain codes b1 where f: "foldl (add_filter (slot_of b s) (c_generation (client_at b s)) buf) ([], b) (sub_filters pkt) = (codes, b1)"
    by (metis surj_pair)
  have c1: "cl b1 = cl b" using cl_add_filters [of "slot_of b s" "c_generation (client_at b s)" buf "([], b)" "sub_filters pkt"] f by simp
  have "b' = snd (send_buf k b1 s (mqtt_encode_suback (sub_packet_id pkt) codes (length (sub_filters pkt))))"
    using h False pkt f by (simp add: handle_subscribe_def)
  then show ?thesis using stays_from [OF c1 stays_send(3)] by simp
qed

lemma cl_sub_removes: "cl (foldl (\<lambda>b f. sub_remove b j (str_bytes buf f) (str_len f)) b fs) = cl b"
  by (induction fs arbitrary: b) (simp_all add: sub_remove_def)

lemma stays_unsubscribe:
  assumes h: "handle_unsubscribe k b s buf p len = Some (go, b')"
  shows "stays b b'"
proof (cases "c_protocol_version (client_at b s) = 0 \<or> (\<exists>e. mqtt_parse_unsubscribe buf p len = Inl e)")
  case True
  then show ?thesis using h by (auto simp: handle_unsubscribe_def split: if_splits)
next
  case False
  then obtain pkt where pkt: "mqtt_parse_unsubscribe buf p len = Inr pkt" by (cases "mqtt_parse_unsubscribe buf p len") auto
  define j where "j = slot_of b s"
  have "b' = send_unsuback k (foldl (\<lambda>b f. sub_remove b j (str_bytes buf f) (str_len f)) b (unsub_filters pkt)) s (unsub_packet_id pkt)"
    using h False pkt by (simp add: handle_unsubscribe_def Let_def j_def)
  then show ?thesis using stays_from [OF cl_sub_removes stays_acks(5)] by simp
qed

lemma stays_ack: "handle_ack buf p len b fsm = Some (go, b') \<Longrightarrow> (\<And>pid b1. fsm pid = Some b1 \<Longrightarrow> stays b b1) \<Longrightarrow> stays b b'"
  by (auto simp: handle_ack_def split: if_splits sum.splits)

lemma stays_packet:
  assumes ok: "slots_ok b" and l: "live b s" and h: "process_mqtt_packet_ex k b s buf p hdr = Some (r, b')"
  shows "stays b b'"
proof -
  let ?p = "p + header_len hdr" and ?n = "unat (remaining_len hdr)"
  have "handle_ack buf ?p ?n b (\<lambda>pid. Some (fsm_sub_pubcomp_received b s pid)) = Some (go, b') \<Longrightarrow> stays b b'" for go
    by (rule stays_ack) (auto simp: fsm_sub_pubcomp_received_def)
  then show ?thesis
    using h stays_connect [of k b s buf ?p ?n _ b'] stays_subscribe [of k b s buf ?p ?n _ b'] stays_unsubscribe [of k b s buf ?p ?n _ b']
      stays_publish [OF ok l, of k buf ?p ?n "unat (packet_total hdr)" "hdr_flags hdr" _ b'] stays_send(1) [of b k s HDR_PINGRESP]
      stays_ack [of buf ?p ?n b _ _ b', OF _ stays_puback [OF l]] stays_ack [of buf ?p ?n b _ _ b', OF _ stays_pubrec [OF l]]
      stays_ack [of buf ?p ?n b _ _ b', OF _ stays_pubrel [OF l]]
    by (simp add: process_mqtt_packet_ex_def Let_def map_option_eq_Some split: if_splits) auto
qed

section \<open>Slots\<close>

lemma stays_free_orphan: "stays b (free_orphan b s)"
  using stays_fields(5) stays_from [OF _ stays_fields(5)] by (simp add: free_orphan_def Let_def)

lemma slot_ok_shape: "slot_ok n c \<Longrightarrow> slot_shape n c"
  by (auto simp: slot_ok_def slot_live_def slot_unused_def)

lemma stays_slot_set:
  assumes "b_clients b' = (b_clients b)[s := c']" "b_max_inflight b' = b_max_inflight b"
    "slot_ok (b_max_inflight b) (client_at b s) \<Longrightarrow> slot_live (b_max_inflight b) c'"
  shows "stays b b'"
proof -
  have "client_at b' j = (if j = s then c' else client_at b j)" if "j < length (b_clients b)" for j
    using that by (simp add: client_at_def assms(1) nth_list_update)
  then show ?thesis using assms by (auto simp: stays_def slot_ok_def)
qed

lemma stays_alloc:
  assumes "broker_alloc_slot b fd = (r, b')"
  shows "stays b b'"
proof (cases r)
  case None
  then have "cl b' = cl b" using assms by (auto simp: broker_alloc_slot_def Let_def split: if_splits prod.splits)
  then show ?thesis by (rule stays_same)
next
  case (Some s)
  then obtain i where "b_clients b' = (b_clients b)[s := client_init (client_at b s) fd i (b_max_inflight b)]" "b_max_inflight b' = b_max_inflight b"
    using assms by (auto simp: broker_alloc_slot_def Let_def client_update_def client_at_def split: if_splits prod.splits)
  then show ?thesis by (rule stays_slot_set) (rule live_init [OF slot_ok_shape])
qed

lemma wf_view_dropped: "wf_view (dropped_client c) = wf_view c" "wf_view (client_go_dormant c) = wf_view c" "wf_view (c\<lparr>c_fd := x\<rparr>) = wf_view c"
  by (simp_all add: dropped_client_def client_go_dormant_def wf_view_def inflight_view_def)

lemma stays_dormant:
  assumes R: "table_rel b T" and con: "connected b s"
  shows "stays b (broker_slot_go_dormant b s)"
proof -
  note c = connected_fd [OF R con]
  have l: "slot_ok n (client_at b s) \<Longrightarrow> slot_live n (client_at b s)" for n
    using con by (auto simp: slot_ok_def slot_unused_def connected_def)
  show ?thesis
    by (rule stays_slot_set [of _ _ s "client_go_dormant (dropped_client (client_at b s))"])
      (use l in \<open>simp_all add: broker_go_dormant_eq [OF con c(2,4,5)] slot_live_cong [OF wf_view_dropped(1)] slot_live_cong [OF wf_view_dropped(2)]\<close>)
qed

lemma stays_free:
  assumes R: "table_rel b T" and con: "connected b s" and fr: "broker_free_slot b s = Some b'"
  shows "stays b b'"
proof -
  obtain h where h: "unnamed_map b s = Some h"
    using fr by (auto simp: broker_free_slot_def unnamed_map_def Let_def split: if_splits bind_splits)
  note c = connected_fd [OF R con]
  have b': "b_clients b' = (b_clients b)[s := freed_client b s]" "b_max_inflight b' = b_max_inflight b"
    using fr [unfolded broker_free_slot_eq [OF c(2,1,4,5) h] option.inject, symmetric] by simp_all
  then show ?thesis
  proof (rule stays_slot_set)
    assume "slot_ok (b_max_inflight b) (client_at b s)"
    then have "slot_live (b_max_inflight b) (dropped_client (client_at b s))"
      using con by (auto simp: slot_ok_def slot_unused_def connected_def slot_live_cong [OF wf_view_dropped(1)])
    then show "slot_live (b_max_inflight b) (freed_client b s)"
      using con live_client_free [OF live_free_all] by (simp add: freed_client_def slot_live_cong [OF wf_view_dropped(3)])
  qed
qed

section \<open>Completions\<close>

lemma handle_close_stays:
  assumes R: "table_rel b T" and h: "handle_close b cqe = Some b'" and ok: "slots_ok b"
  shows "stays b b'"
proof (cases "broker_get_client_by_fd b (int (unat (ud_fd (cqe_user_data cqe))))")
  case None
  then show ?thesis using h by (simp add: handle_close_def Let_def)
next
  case (Some s)
  let ?b = "fsm_client_disconnect b s"
  note own = by_fd_owner [OF R Some]
  have i: "nat (b_fd_to_slot b ! nat (int (unat (ud_fd (cqe_user_data cqe))))) = s"
    using Some by (auto simp: broker_get_client_by_fd_def Let_def split: if_splits)
  have t: "tab ?b = tab b" by (rule tab_conn) simp
  have l: "live b s" using slots_ok_live [OF ok, of s] own(2) by (auto simp: connected_def)
  have con: "connected ?b s"
    using own(2) tab_state [OF t] tab_fields(2) [OF t] own(1) table_relD(1) [OF R] by (simp add: connected_def)
  note R' = table_rel_cong [OF t R]
  have "broker_free_slot ?b s = Some b' \<or> b' = broker_slot_go_dormant ?b s"
    using h Some own(2,3) i by (auto simp: handle_close_def Let_def connected_def split: if_splits)
  then show ?thesis
    using stays_trans [OF stays_disconnect [OF l]] stays_free [OF R' con] stays_dormant [OF R' con] by blast
qed

lemma stays_accept:
  assumes R: "table_rel b T" and ok: "slots_ok b"
  shows "stays b (handle_accept k b cqe)"
proof -
  let ?fd = "cqe_res cqe"
  define b1 where "b1 = (if b_accept_pending b > 0 then b\<lparr>b_accept_pending := b_accept_pending b - 1\<rparr> else b)"
  define b2 where "b2 = sys_setsockopt_nodelay (b1\<lparr>b_accepts := b_accepts b1 + 1\<rparr>) ?fd"
  have c1: "cl b1 = cl b" by (simp add: b1_def)
  have c2: "cl b2 = cl b" using c1 by (simp add: b2_def)
  obtain r b3 where al: "broker_alloc_slot b2 ?fd = (r, b3)" by (cases "broker_alloc_slot b2 ?fd")
  have s3: "stays b b3" by (rule stays_from [OF c2 stays_alloc [OF al]])
  have sub: "stays b (snd (submit_accept k b4))" if "stays b b4" for b4 by (rule stays_into [OF cl_submit_accept that])
  have close: "stays b (sys_close b4 ?fd)" if "stays b b4" for b4 by (rule stays_into [OF cl_calls(2) that])
  have recv: "stays b (submit_recv k b3 s)" if "r = Some s" for s
  proof -
    have "live b3 s"
    proof (cases "s < length (b_clients b2)")
      case True
      then show ?thesis using alloc_active [of b2 ?fd s b3] al that slots_ok_live [OF slots_ok_stays [OF ok s3], of s] by simp
    next
      case False
      then show ?thesis using s3 c2 by (simp add: live_def stays_def cl_def)
    qed
    then show ?thesis using stays_trans [OF s3 stays_submit_recv] by blast
  qed
  show ?thesis
    unfolding handle_accept_def Let_def b1_def [symmetric] b2_def [symmetric] al prod.case
    using sub close recv s3 stays_same [OF c1] by (simp split: option.split)
qed

lemma stays_recv_round:
  assumes ok: "slots_ok b" and l: "live b s" and h: "recv_round k b s buf data = Some (d, b')"
  shows "stays b b'"
proof (cases "fast_path k b s buf data")
  case (Some r)
  then obtain b1 where b1: "fast_path k b s buf data = Some (Some b1)" "b' = advance_recv b1 s 4" using h by (auto simp: recv_round_def)
  have "stays b b1"
    using b1(1) stays_puback [OF l] stays_pubrec [OF l] stays_pubrel [OF l]
    by (auto simp: fast_path_def fsm_sub_pubcomp_received_def split: if_splits option.splits)
  then show ?thesis using stays_trans [OF _ stays_fields(4)] b1(2) by blast
next
  case None
  show ?thesis
  proof (cases "mqtt_packet_complete_ex buf data (c_recv_len (client_at b s))")
    case (Inl e)
    then show ?thesis using h None stays_submit_close [OF ok] by (cases e) (auto simp: recv_round_def)
  next
    case (Inr x)
    then obtain n hdr where x: "mqtt_packet_complete_ex buf data (c_recv_len (client_at b s)) = Inr (n, hdr)" by (cases x) auto
    then obtain r b1 where p: "process_mqtt_packet_ex k b s buf data hdr = Some (r, b1)"
      and b': "b' = submit_close k b1 (c_fd (client_at b1 s)) \<or> b' = client_update b1 s (\<lambda>c. c\<lparr>c_recv_start := 0\<rparr>) \<or> b' = advance_recv b1 s (nat r)"
      using h None by (auto simp: recv_round_def Let_def split: option.splits if_splits)
    note s1 = stays_packet [OF ok l p]
    show ?thesis using b' stays_trans [OF s1 stays_submit_close [OF slots_ok_stays [OF ok s1]]] stays_trans [OF s1 stays_fields(1)]
        stays_trans [OF s1 stays_fields(4)] by blast
  qed
qed

lemma stays_recv_loop: "slots_ok b \<Longrightarrow> live b s \<Longrightarrow> recv_loop n k b s data = Some b' \<Longrightarrow> stays b b'"
proof (induction n arbitrary: b data)
  case (Suc n)
  have rec: "stays b b'" if "recv_round k b s buf data = Some (d, b1)" "recv_loop n k b1 s data' = Some b'" for buf d b1 data'
  proof -
    note s1 = stays_recv_round [OF Suc.prems(1,2) that(1)]
    show ?thesis by (rule stays_trans [OF s1 Suc.IH [OF slots_ok_stays [OF Suc.prems(1) s1] live_stays [OF Suc.prems(2) s1] that(2)]])
  qed
  show ?case using Suc.prems(3) rec stays_recv_round [OF Suc.prems(1,2)] by (auto split: if_splits option.splits)
qed (simp split: if_splits)

lemma stays_recv:
  assumes ok: "slots_ok b" and h: "handle_recv k b cqe = Some b'"
  shows "stays b b'"
proof (cases "broker_get_client b (unat (RECV_CTX_SLOT (ud_ctx (cqe_user_data cqe))))")
  case None
  then show ?thesis using h by (simp add: handle_recv_def Let_def)
next
  case (Some s)
  define b1 where "b1 = client_update b s (\<lambda>c. c\<lparr>c_recv_pending := False\<rparr>)"
  define b2 where "b2 = (client_update b1 s (\<lambda>c. c\<lparr>c_recv_len := c_recv_len c + nat (cqe_res cqe)\<rparr>))
      \<lparr>b_bytes_recv := b_bytes_recv (client_update b1 s (\<lambda>c. c\<lparr>c_recv_len := c_recv_len c + nat (cqe_res cqe)\<rparr>)) + of_int (cqe_res cqe)\<rparr>"
  have s1: "stays b b1" unfolding b1_def by (rule stays_fields(2))
  have s2: "stays b b2" using stays_trans [OF s1 stays_fields(3)] by (simp add: b2_def stays_into)
  have ok1: "slots_ok b1" "slots_ok b2" using slots_ok_stays [OF ok] s1 s2 by simp_all
  define fin where "fin b3 = (if c_state (client_at b3 s) = CLIENT_ACTIVE then submit_recv k b3 s else b3)" for b3
  consider "b' = free_orphan b s" | "b' = free_orphan b1 s" | fd where "b' = submit_close k b1 fd"
    | b3 where "c_state (client_at b1 s) = CLIENT_ACTIVE" "process_recv_buffer k b2 s = Some b3" "b' = fin b3"
    using h unfolding handle_recv_def Let_def Some option.case b1_def [symmetric] b2_def [symmetric] fin_def [symmetric]
    by (auto split: if_splits)
  then show ?thesis
  proof cases
    case 4
    have "stays b1 b2" using stays_into [OF _ stays_fields(3)] by (simp add: b2_def)
    then have l2: "live b2 s" using live_stays slots_ok_live [OF ok1(1), of s] 4(1) by simp
    have s3: "stays b2 b3"
      using 4(2) stays_recv_loop [OF ok1(2) l2] by (auto simp: process_recv_buffer_def Let_def split: option.splits)
    have "stays b3 b'" using 4(3) stays_submit_recv [OF live_stays [OF l2 s3]] by (simp add: fin_def)
    then show ?thesis using stays_trans [OF s2 stays_trans [OF s3]] by blast
  qed (use stays_free_orphan stays_trans [OF s1 stays_free_orphan] stays_trans [OF s1 stays_submit_close [OF ok1(1)]] in blast)+
qed

lemma stays_dispatch:
  assumes R: "table_rel b T" and ok: "slots_ok b" and d: "dispatch_cqe k b cqe = Some b'"
  shows "stays b b'"
proof -
  have s: "stays b (handle_send b cqe)" by (simp add: handle_send_def stays_same)
  have r: "stays b (handle_send_resp b cqe)"
    using stays_fields(9) stays_from [OF _ stays_fields(9)] stays_same
    by (auto simp: handle_send_resp_def Let_def split: option.split)
  show ?thesis
    using d s r stays_egress_cqe [OF ok] stays_recv [OF ok] handle_close_stays [OF R _ ok] stays_accept [OF R ok]
    unfolding dispatch_cqe_def Let_def by (auto split: if_splits)
qed

section \<open>The event loop\<close>

lemma stays_recv_retry_loop: "slots_ok b \<Longrightarrow> stays b (snd (recv_retry_loop n k b r))"
proof (induction n arbitrary: b r)
  case (Suc n)
  obtain s b1 where d: "recv_retry_dequeue b = (s, b1)" by (cases "recv_retry_dequeue b")
  have c1: "cl b1 = cl b" using cl_calls(8) [of b] d by simp
  note s1 = stays_same [OF c1]
  have rec: "stays b (snd (recv_retry_loop n k b2 r'))" if "stays b b2" for b2 r'
    using stays_trans [OF that Suc.IH [OF slots_ok_stays [OF Suc.prems that]]] .
  have sub: "stays b b2" if "c_state (client_at b1 s) = CLIENT_ACTIVE" "submit_recv_internal k b1 s = (ok, b2)" for ok b2
    using stays_trans [OF s1 stays_recv_internal [of b1 s k]] slots_ok_live [OF slots_ok_stays [OF Suc.prems s1], of s] that by simp
  have enq: "stays b (recv_retry_enqueue b2 s)" if "stays b b2" for b2 by (rule stays_into [OF cl_calls(7) that])
  show ?case using s1 rec sub enq d by (auto simp: Let_def split: prod.splits bool.splits)
qed simp

lemma stays_egress_flush_loop: "slots_ok b \<Longrightarrow> stays b (snd (egress_flush_loop n b r))"
proof (induction n arbitrary: b r)
  case (Suc n)
  obtain ctx b1 where d: "egress_flush_dequeue b = (ctx, b1)" by (cases "egress_flush_dequeue b")
  have s1: "stays b b1" using stays_flush_queue(2) [of b] d by simp
  note ok1 = slots_ok_stays [OF Suc.prems s1]
  have rec: "stays b (snd (egress_flush_loop n b2 r'))" if "stays b b2" for b2 r'
    using stays_trans [OF that Suc.IH [OF slots_ok_stays [OF Suc.prems that]]] .
  have fl: "stays b b2" if "c_state (client_at b1 s) = CLIENT_ACTIVE" "egress_flush b1 s = (rc, b2)" for s rc b2
    using stays_trans [OF s1 stays_flush [of b1 s]] slots_ok_live [OF ok1, of s] that by simp
  have enq: "stays b (egress_flush_enqueue b2 s)" if "stays b b2" for b2 s using stays_trans [OF that stays_flush_queue(1)] .
  show ?case using s1 rec fl enq d by (auto simp: Let_def split: prod.splits)
qed simp

lemma cl_replenish: "cl (replenish_accepts n k b) = cl b"
proof (induction n arbitrary: b)
  case (Suc n)
  have "cl b1 = cl b" if "submit_accept k b = (ok, b1)" for ok b1 using cl_submit_accept [of k b] that by simp
  with Suc.IH show ?case by (auto split: prod.splits bool.splits)
qed simp

lemma loop_step_stays:
  assumes st: "loop_step k b b'" and R: "table_rel b T" and ok: "slots_ok b"
  shows "stays b b'"
  using st
proof cases
  case (on_completion cqe)
  then show ?thesis using stays_dispatch [OF R ok] by blast
next
  case on_recv_retries
  have "stays b (b1\<lparr>b_recv_retries := x\<rparr>)" if "stays b b1" for b1 x by (rule stays_into [OF _ that]) simp
  then show ?thesis
    using stays_recv_retry_loop [OF ok, of "b_recv_retry_capacity b" k 0]
    unfolding on_recv_retries process_recv_retries_def Let_def
    by (cases "recv_retry_loop (b_recv_retry_capacity b) k b 0") auto
next
  case on_flushes
  have "stays b (b1\<lparr>b_egress_retries := x\<rparr>)" if "stays b b1" for b1 x by (rule stays_into [OF _ that]) simp
  then show ?thesis
    using stays_egress_flush_loop [OF ok, of "b_egress_flush_capacity b" 0]
    unfolding on_flushes process_egress_flushes_def Let_def
    by (cases "egress_flush_loop (b_egress_flush_capacity b) b 0") auto
next
  case (on_replenish m)
  then show ?thesis using stays_same [OF cl_replenish] by simp
next
  case (on_sweep q)
  then show ?thesis using stays_sweep [OF ok table_relD(1) [OF R]] by blast
next
  case (on_enter call rc)
  then show ?thesis using stays_same [OF cl_enter] by blast
qed (simp_all add: stays_same cl_submit_accept)

lemma loop_steps_stay:
  assumes run: "(loop_step k)\<^sup>*\<^sup>* b b'" and R: "table_rel b T" and ok: "slots_ok b"
  shows "stays b b'"
  using run
proof (induction rule: rtranclp_induct)
  case (step b1 b2)
  obtain T1 where "table_rel b1 T1" using loop_steps_table [OF step.hyps(1) R] by blast
  then show ?case using stays_trans [OF step.IH loop_step_stays [OF step.hyps(2) _ slots_ok_stays [OF ok step.IH]]] by blast
qed simp

end
