(* ===== verification/Handled.thy ===== *)
theory Handled
  imports Subs_Loop Client_Loop
begin

text \<open>
  No handler gets stuck: on well-formed slots the loops of the in-flight tables end and every access is inside its array,
  so acknowledgements, timeouts, failed batches and closing connections always return.
\<close>

section \<open>Ceremonies\<close>

lemma free_entry_returns:
  assumes "live b s" "s < length (b_clients b)" "i < c_max_inflight (client_at b s)"
  shows "\<exists>c. client_inflight_free_slot (client_at b s) i = Some c"
  using assms live_free_slot [of "b_max_inflight b" "client_at b s" i] by (auto simp: live_def)

lemma find_direct_in: "live b s \<Longrightarrow> s < length (b_clients b) \<Longrightarrow> client_inflight_find_direct (client_at b s) pid = Some i \<Longrightarrow>
    i < c_max_inflight (client_at b s)"
  using find_direct_live by (auto simp: live_def)

lemma puback_returns:
  assumes "live b s" "s < length (b_clients b)"
  shows "\<exists>b'. fsm_sub_puback_received b s pid = Some b'"
proof (cases "client_inflight_find_direct (client_at b s) pid")
  case (Some i)
  obtain c where "client_inflight_free_slot (client_at b s) i = Some c"
    using free_entry_returns [OF assms find_direct_in [OF assms Some]] by blast
  then show ?thesis using Some by (simp add: fsm_sub_puback_received_def Let_def)
qed (simp add: fsm_sub_puback_received_def)

lemma pubrec_returns:
  assumes "live b s" "s < length (b_clients b)"
  shows "\<exists>b'. fsm_sub_pubrec_received k b s pid = Some b'"
proof (cases "client_inflight_find_direct (client_at b s) pid")
  case (Some i)
  obtain c where "client_inflight_free_slot (client_at b s) i = Some c"
    using free_entry_returns [OF assms find_direct_in [OF assms Some]] by blast
  then show ?thesis using Some by (simp add: fsm_sub_pubrec_received_def Let_def)
qed (simp add: fsm_sub_pubrec_received_def Let_def)

lemma pubrel_returns:
  assumes "live b s" "s < length (b_clients b)"
  shows "\<exists>b'. fsm_pub_pubrel_received k b s pid = Some b'"
proof (cases "client_inflight_find (client_at b s) pid")
  case (Some i)
  then have "i < c_max_inflight (client_at b s)" using assms find_live by (auto simp: live_def)
  then obtain c where "client_inflight_free_slot (client_at b s) i = Some c" using free_entry_returns [OF assms] by blast
  then show ?thesis using Some by (simp add: fsm_pub_pubrel_received_def Let_def)
qed (simp add: fsm_pub_pubrel_received_def Let_def)

section \<open>Timeouts\<close>

lemma give_up_returns:
  assumes "live b s" "s < length (b_clients b)" "i < c_max_inflight (client_at b s)"
  shows "\<exists>b'. fsm_give_up b s i = Some b'"
  using free_entry_returns [OF assms] by (auto simp: fsm_give_up_def Let_def)

lemma timeout_returns:
  assumes l: "live b s" "s < length (b_clients b)" and i: "i < c_max_inflight (client_at b s)"
  shows "\<exists>b'. fsm_sub_timeout b s i = Some b'"
proof -
  define b1 where "b1 = client_update b s (\<lambda>c. c\<lparr>c_inflight_cold := (c_inflight_cold c)[i :=
                     (c_inflight_cold c ! i)\<lparr>ic_dup_count := ic_dup_count (c_inflight_cold c ! i) + 1,
                                             ic_deadline := b_now b + LLMQ_INFLIGHT_TIMEOUT_MS\<rparr>]\<rparr>)"
  have "live b1 s" using live_stays [OF l(1) stays_update [OF l(1)]] live_cold by (simp add: b1_def)
  moreover have "s < length (b_clients b1)" "i < c_max_inflight (client_at b1 s)"
    using l(2) i by (simp_all add: b1_def client_at_store)
  ultimately show ?thesis
    using give_up_returns [OF l i] give_up_returns [of b1 s i] unfolding fsm_sub_timeout_def Let_def b1_def [symmetric] by simp
qed

lemma sweep_slots_returns:
  "live b s \<Longrightarrow> s < length (b_clients b) \<Longrightarrow> m \<le> b_max_inflight b \<Longrightarrow> \<exists>r. sweep_slots m found p b s = Some r"
proof (induction m arbitrary: b found p)
  case (Suc m)
  let ?c = "client_at b s" and ?i = "c_max_inflight (client_at b s) - Suc m"
  have mx: "c_max_inflight ?c = b_max_inflight b" using Suc.prems(1,2) slot_liveD(5) by (auto simp: live_def)
  then have i: "?i < c_max_inflight ?c" using Suc.prems(3) by simp
  obtain b1 where b1: "fsm_sub_timeout b s ?i = Some b1" using timeout_returns [OF Suc.prems(1,2) i] by blast
  note s1 = stays_timeout [OF Suc.prems(1) i b1]
  have "\<exists>r. sweep_slots m (found + 1) (p + 1) b1 s = Some r"
    using Suc.IH [OF live_stays [OF Suc.prems(1) s1]] Suc.prems(2,3) s1 by (simp add: stays_def)
  then show ?case using Suc.IH [OF Suc.prems(1,2)] Suc.prems(3) b1 by (simp add: Let_def)
qed simp

lemma sweep_clients_returns:
  "slots_ok b \<Longrightarrow> \<forall>i \<in> set is. i < length (b_clients b) \<Longrightarrow> \<exists>r. sweep_clients is p b = Some r"
proof (induction "is" arbitrary: b p)
  case (Cons i "is")
  show ?case
  proof (cases "c_state (client_at b i) = CLIENT_ACTIVE \<and> c_inflight_count (client_at b i) > 0")
    case True
    have l: "live b i" using slots_ok_live [OF Cons.prems(1), of i] True by simp
    have il: "i < length (b_clients b)" using Cons.prems(2) by simp
    have mx: "c_max_inflight (client_at b i) \<le> b_max_inflight b" using l il slot_liveD(5) by (auto simp: live_def)
    obtain n b1 where b1: "sweep_slots (c_max_inflight (client_at b i)) 0 0 b i = Some (n, b1)"
      using sweep_slots_returns [OF l il mx] by fastforce
    note s1 = stays_sweep_slots [OF l il mx b1]
    have "\<exists>r. sweep_clients is (p + n) b1 = Some r"
      using Cons.IH [OF slots_ok_stays [OF Cons.prems(1) s1]] Cons.prems(2) s1 by (simp add: stays_def)
    then show ?thesis using True b1 by (simp add: fsm_sweep_client_def)
  qed (use Cons in auto)
qed simp

lemma sweep_returns:
  "slots_ok b \<Longrightarrow> length (b_clients b) = b_max_clients b \<Longrightarrow> \<exists>r. fsm_sweep_all_timeouts b = Some r"
  unfolding fsm_sweep_all_timeouts_def by (rule sweep_clients_returns) auto

section \<open>Writes\<close>

lemma fail_batch_returns: "live b s \<Longrightarrow> s < length (b_clients b) \<Longrightarrow> \<exists>b'. egress_fail_batch n b s = Some b'"
proof (induction n arbitrary: b)
  case (Suc n)
  let ?c = "client_at b s"
  have rec: "\<exists>b'. egress_fail_batch n b1 s = Some b'" if "stays b b1" for b1
    using Suc.IH [OF live_stays [OF Suc.prems(1) that]] Suc.prems(2) that by (simp add: stays_def)
  show ?case
  proof (cases "c_egress_count ?c > 0")
    case pos: True
    let ?seg = "egress_head ?c"
    show ?thesis
    proof (cases "seg_kind ?seg = SEG_PUBLISH \<and> seg_qos ?seg > 0 \<and> seg_packet_id ?seg > 0 \<and> seg_dup ?seg = 0")
      case True
      show ?thesis
      proof (cases "client_inflight_find_direct ?c (seg_packet_id ?seg)")
        case None
        then show ?thesis using pos True rec [OF stays_pop [OF Suc.prems(1) pos]] by (simp add: Let_def)
      next
        case (Some i)
        define b1 where "b1 = release_msg_ref b (ih_msg_idx (c_inflight_hot ?c ! i))"
        have c1: "cl b1 = cl b" "client_at b1 = client_at b" by (simp_all add: b1_def)
        have l: "slot_live (b_max_inflight b) ?c" using Suc.prems by (simp add: live_def)
        obtain c where c: "client_inflight_free_slot ?c i = Some c" "slot_live (b_max_inflight b) c" "c_egress_count c = c_egress_count ?c"
          using live_free_slot [OF l find_direct_in [OF Suc.prems Some]] by blast
        have m: "b_max_inflight b1 = b_max_inflight b" using c1(1) by (simp add: cl_def)
        have "stays b (client_update b1 s (\<lambda>_. egress_pop_head c))"
          by (rule stays_from [OF c1(1) stays_update]) (use Suc.prems(1) live_same [OF c1(1)] live_pop [OF c(2)] c(3) pos m in simp_all)
        then show ?thesis using pos True Some c(1) rec by (simp add: Let_def b1_def [symmetric] c1(2))
      qed
    next
      case False
      then show ?thesis using pos rec [OF stays_discard(1) [OF Suc.prems(1) pos]] by (auto simp: Let_def)
    qed
  qed simp
qed simp

lemma egress_cqe_returns:
  assumes ok: "slots_ok b" and len: "length (b_clients b) = b_max_clients b"
  shows "\<exists>b'. handle_egress_cqe b cqe = Some b'"
proof (cases "broker_get_client b (unat (EGRESS_CTX_SLOT (ud_ctx (cqe_user_data cqe))))")
  case (Some s)
  then have s: "s < length (b_clients b)" using len by (simp add: broker_get_client_def split: if_splits)
  define b1 where "b1 = client_update b s (\<lambda>c. c\<lparr>c_egress_inflight := False\<rparr>)"
  have s1: "stays b b1" unfolding b1_def by (rule stays_view) (simp_all add: wf_view_def inflight_view_def)
  have "\<exists>b'. egress_fail_batch n (b1\<lparr>b_drops_send_failed := x\<rparr>) s = Some b'" if "c_egress_count (client_at b1 s) > 0" for n x
  proof (rule fail_batch_returns)
    show "live (b1\<lparr>b_drops_send_failed := x\<rparr>) s"
      using slots_ok_live [OF slots_ok_stays [OF ok s1]] that live_same [of "b1\<lparr>b_drops_send_failed := x\<rparr>" b1] by simp
    show "s < length (b_clients (b1\<lparr>b_drops_send_failed := x\<rparr>))" using s s1 by (simp add: stays_def)
  qed
  then show ?thesis
    unfolding handle_egress_cqe_def Let_def Some option.case b1_def [symmetric] by auto
qed (simp add: handle_egress_cqe_def Let_def)

section \<open>Closing\<close>

lemma free_slot_returns:
  assumes R: "table_rel b T" and con: "connected b s" and o: "indexes_ok b" and n: "b_max_clients b \<le> 65536"
  shows "\<exists>b'. broker_free_slot b s = Some b'"
proof -
  have "s < 65536" using con n by (simp add: connected_def)
  then obtain h where h: "unnamed_map b s = Some h" using o unnamed_map_ok [of b s] unfolding indexes_ok_def by metis
  note c = connected_fd [OF R con]
  show ?thesis using broker_free_slot_eq [OF c(2,1,4,5) h] by blast
qed

lemma handle_close_returns:
  assumes R: "table_rel b T" and o: "indexes_ok b" and n: "b_max_clients b \<le> 65536"
  shows "\<exists>b'. handle_close b cqe = Some b'"
proof (cases "broker_get_client_by_fd b (int (unat (ud_fd (cqe_user_data cqe))))")
  case (Some s)
  let ?b = "fsm_client_disconnect b s"
  note own = by_fd_owner [OF R Some]
  have i: "nat (b_fd_to_slot b ! nat (int (unat (ud_fd (cqe_user_data cqe))))) = s"
    using Some by (auto simp: broker_get_client_by_fd_def Let_def split: if_splits)
  have t: "tab ?b = tab b" by (rule tab_conn) simp
  have o': "indexes_ok ?b" by (rule indexes_ok_stay [OF o _ owners_tab [OF t]]) simp
  have con: "connected ?b s"
    using own(2) tab_state [OF t] tab_fields(2) [OF t] own(1) table_relD(1) [OF R] by (simp add: connected_def)
  have "\<exists>b'. broker_free_slot ?b s = Some b'"
    by (rule free_slot_returns [OF table_rel_cong [OF t R] con o']) (use n tab_fields(2) [OF t] in simp)
  then show ?thesis using Some i by (auto simp: handle_close_def Let_def)
qed (simp add: handle_close_def Let_def)

end
