(* ===== verification/Handled_Recv.thy ===== *)
theory Handled_Recv
  imports Handled Held
begin

text \<open>
  The receive path does not get stuck either: a packet that lies in its buffer is handled, the window of the receive loop
  stays inside its buffer, also when a PUBLISH takes the buffer away, and so every completion is handled.
\<close>

section \<open>Packets\<close>

lemma ack_returns:
  assumes "p + len \<le> length buf" "\<And>pid. \<exists>b'. fsm pid = Some b'"
  shows "handle_ack buf p len b fsm \<noteq> None"
proof (cases "len < 2")
  case False
  then have "p + 1 < length buf" using assms(1) by simp
  then obtain pid where pid: "mqtt_read_u16 buf p = Inr pid" by (simp add: mqtt_read_u16_def rd_def)
  obtain b' where "fsm pid = Some b'" using assms(2) by blast
  then show ?thesis using False pid by (simp add: handle_ack_def)
qed (simp add: handle_ack_def)

lemma packet_returns:
  assumes a: "active_slot b s" and o: "indexes_ok b" and l: "live b s"
    and buf: "p + header_len hdr + unat (remaining_len hdr) \<le> length buf"
  shows "process_mqtt_packet_ex k b s buf p hdr \<noteq> None"
proof -
  let ?p = "p + header_len hdr" and ?n = "unat (remaining_len hdr)"
  have s: "s < length (b_clients b)" using active_slot_owned [OF a] by (simp add: slot_owned_def)
  have so: "slot_of b s < 65536" using slot_of_active a by (auto simp: active_slot_def)
  have "handle_connect k b s buf ?p ?n \<noteq> None"
  proof (cases "mqtt_parse_connect buf ?p ?n")
    case (Inr c)
    obtain b1 where "broker_set_client_identity b (slot_of b s) (str_bytes buf (con_client_id c)) (str_len (con_client_id c) mod 256) = Some b1"
      using set_identity_owned [OF o so] by blast
    then show ?thesis using Inr by (simp add: handle_connect_def Let_def del: not_None_eq)
  qed (simp add: handle_connect_def del: not_None_eq)
  moreover have "handle_ack buf ?p ?n b (fsm_sub_puback_received b s) \<noteq> None"
    "handle_ack buf ?p ?n b (fsm_sub_pubrec_received k b s) \<noteq> None"
    "handle_ack buf ?p ?n b (fsm_pub_pubrel_received k b s) \<noteq> None"
    "handle_ack buf ?p ?n b (\<lambda>pid. Some (fsm_sub_pubcomp_received b s pid)) \<noteq> None"
    by (rule ack_returns [OF buf], simp add: puback_returns [OF l s] pubrec_returns [OF l s] pubrel_returns [OF l s])+
  moreover have "handle_subscribe k b s buf ?p ?n \<noteq> None" "handle_unsubscribe k b s buf ?p ?n \<noteq> None"
    "handle_publish k b s buf ?p ?n m fl \<noteq> None" for m fl
    by (simp_all add: handle_subscribe_def handle_unsubscribe_def handle_publish_def Let_def split: sum.split prod.split del: not_None_eq)
  ultimately show ?thesis by (simp add: process_mqtt_packet_ex_def Let_def del: not_None_eq)
qed

lemma fast_path_returns:
  assumes "live b s" "s < length (b_clients b)"
  shows "fast_path k b s buf data \<noteq> Some None"
  using puback_returns [OF assms] pubrec_returns [OF assms] pubrel_returns [OF assms]
  by (auto simp: fast_path_def split: option.split)

lemma complete_inside:
  assumes "mqtt_packet_complete_ex buf p len = Inr (n, hdr)"
  shows "header_len hdr + unat (remaining_len hdr) \<le> len"
proof -
  have h: "mqtt_parse_fixed_header buf p len = Inr hdr" using assms by (auto simp: mqtt_packet_complete_ex_def ebind_Inr_iff Let_def split: if_splits)
  have "unat (packet_total hdr) = header_len hdr + unat (remaining_len hdr)"
    using parse_fixed_header_Inr [OF h] by (intro packet_total_unat) simp_all
  then show ?thesis using complete_total(2) [OF assms] by simp
qed

lemma recv_round_returns:
  assumes a: "active_slot b s" and o: "indexes_ok b" and l: "live b s" and buf: "data + c_recv_len (client_at b s) \<le> length buf"
  shows "\<exists>r. recv_round k b s buf data = Some r"
proof (cases "fast_path k b s buf data")
  case (Some r)
  have "s < length (b_clients b)" using active_slot_owned [OF a] by (simp add: slot_owned_def)
  then show ?thesis using Some fast_path_returns [OF l, of k buf data] by (cases r) (auto simp: recv_round_def)
next
  case None
  show ?thesis
  proof (cases "mqtt_packet_complete_ex buf data (c_recv_len (client_at b s))")
    case (Inl e)
    then show ?thesis using None packet_complete_ok [OF buf, THEN conjunct1] by (cases e) (auto simp: recv_round_def)
  next
    case (Inr x)
    obtain n hdr where x: "x = (n, hdr)" by (cases x)
    have "data + header_len hdr + unat (remaining_len hdr) \<le> length buf" using complete_inside [OF Inr [unfolded x]] buf by simp
    then obtain c b1 where "process_mqtt_packet_ex k b s buf data hdr = Some (c, b1)" using packet_returns [OF a o l] by fastforce
    then show ?thesis using None Inr x by (simp add: recv_round_def Let_def)
  qed
qed

section \<open>The receive window\<close>

text \<open>The sizes of the receive buffers, and a kernel that writes into them and does not resize them.\<close>

definition buf_lens :: "broker \<Rightarrow> nat list" where
  "buf_lens b = map length (bp_bufs (b_recv_pool b))"

definition keeps_buffers :: "kernel \<Rightarrow> bool" where
  "keeps_buffers k \<longleftrightarrow> (\<forall>r bufs. map length (k_memory k r bufs) = map length bufs)"

lemma enter_lens: "keeps_buffers k \<Longrightarrow> broker_enter k b call = (rc, b') \<Longrightarrow> buf_lens b' = buf_lens b"
  by (auto simp: broker_enter_def buf_lens_def keeps_buffers_def split: prod.splits)

interpretation buffer_sizes: store_frame buf_lens keeps_buffers
proof
  show "buf_lens (client_update b s f) = buf_lens b" for b s f by (simp add: buf_lens_def client_update_def)
  have "buf_lens (snd (broker_enter k b call)) = buf_lens b" if "keeps_buffers k" for k b call
    using enter_lens [OF that, of b call] by (cases "broker_enter k b call") simp
  then show "keeps_buffers k \<Longrightarrow> buf_lens (snd (broker_enter k b (\<lambda>enter r. ring_submit enter r 0))) = buf_lens b"
    "keeps_buffers k \<Longrightarrow> buf_lens (snd (broker_enter k b (\<lambda>enter r. ring_submit_and_wait enter r 1))) = buf_lens b" for k b
    by blast+
qed (simp_all add: buf_lens_def)

text \<open>The pool has as many buffers as its capacity says.\<close>

definition pool_shape :: "broker \<Rightarrow> nat \<times> nat" where
  "pool_shape b = (length (buf_lens b), bp_capacity (b_recv_pool b))"

interpretation pool_kept: event_frame pool_shape keeps_buffers
proof
  show "pool_shape (client_update b s f) = pool_shape b" for b s f by (simp add: pool_shape_def buf_lens_def client_update_def)
  have "pool_shape (snd (broker_enter k b call)) = pool_shape b" if "keeps_buffers k" for k b call
    using enter_lens [OF that, of b call] by (cases "broker_enter k b call") (auto simp: pool_shape_def broker_enter_def split: prod.splits)
  then show "keeps_buffers k \<Longrightarrow> pool_shape (snd (broker_enter k b (\<lambda>enter r. ring_submit enter r 0))) = pool_shape b"
    "keeps_buffers k \<Longrightarrow> pool_shape (snd (broker_enter k b (\<lambda>enter r. ring_submit_and_wait enter r 1))) = pool_shape b" for k b
    by blast+
  show "map length (bp_bufs p) = map length (bp_bufs (b_recv_pool b)) \<Longrightarrow> bp_capacity p = bp_capacity (b_recv_pool b) \<Longrightarrow>
      pool_shape (b\<lparr>b_recv_pool := p\<rparr>) = pool_shape b" for p b
    by (simp add: pool_shape_def buf_lens_def)
qed (simp_all add: pool_shape_def buf_lens_def recv_buf_update_def)

lemma sizes_connect:
  assumes k: "keeps_buffers k" and h: "handle_connect k b s buf p len = Some (go, b')"
  shows "buf_lens b' = buf_lens b"
proof -
  have "buf_lens b1 = buf_lens b" if "broker_set_client_identity b j cid n = Some b1" for j cid n b1
    using that by (auto simp: broker_set_client_identity_def Let_def buf_lens_def client_update_def)
  then show ?thesis using h k by (auto simp: handle_connect_def Let_def split: if_splits sum.splits bind_splits)
qed

lemma sizes_subs:
  assumes k: "keeps_buffers k"
  shows "handle_subscribe k b s buf p len = Some (go, b') \<Longrightarrow> buf_lens b' = buf_lens b"
    "handle_unsubscribe k b s buf p len = Some (go, b') \<Longrightarrow> buf_lens b' = buf_lens b"
proof -
  have t: "buf_lens (b\<lparr>b_trie := t\<rparr>) = buf_lens b" for b t by (simp add: buf_lens_def)
  have f: "buf_lens (snd (foldl (add_filter j g buf) st fs)) = buf_lens (snd st)" for j g st fs
    by (rule buffer_sizes.view_foldl) (simp add: add_filter_def sub_add_def t Let_def split: prod.splits)
  have u: "buf_lens (foldl (\<lambda>b f. sub_remove b j (str_bytes buf f) (str_len f)) b fs) = buf_lens b" for j b fs
    by (rule buffer_sizes.view_foldl_id) (simp add: sub_remove_def t)
  show "handle_subscribe k b s buf p len = Some (go, b') \<Longrightarrow> buf_lens b' = buf_lens b"
    using f [of "slot_of b s" "c_generation (client_at b s)" "([], b)"] k
    by (auto simp: handle_subscribe_def Let_def split: if_splits sum.splits prod.splits) (metis snd_conv)
  show "handle_unsubscribe k b s buf p len = Some (go, b') \<Longrightarrow> buf_lens b' = buf_lens b"
    using k by (auto simp: handle_unsubscribe_def u Let_def split: if_splits sum.splits)
qed

text \<open>What a PUBLISH that takes the buffer away makes of the buffer it gets.\<close>

definition stolen_lens :: "nat list \<Rightarrow> client_slot \<Rightarrow> nat \<Rightarrow> nat \<Rightarrow> nat list" where
  "stolen_lens ls c n new = (if c_recv_len c > n
     then ls[new := min (ls ! c_recv_buf_idx c - (c_recv_start c + n)) (c_recv_len c - n) + (ls ! new - (c_recv_len c - n))] else ls)"

lemma steal_sizes:
  assumes h: "steal_recv_buffer b s n = (new, st, b')" and r: "c_recv_buf_idx (client_at b s) < length (buf_lens b)"
  shows "buf_lens b' = (if st = None then buf_lens b else stolen_lens (buf_lens b) (client_at b s) n new)"
proof -
  obtain i p where p: "buf_pool_alloc (b_recv_pool b) = (i, p)" by (cases "buf_pool_alloc (b_recv_pool b)")
  have f: "bp_bufs p = bp_bufs (b_recv_pool b)" using buf_pool_alloc_fields [OF p] by simp
  have at: "client_at (b1\<lparr>b_recv_pool := q\<rparr>) = client_at b1" for b1 :: broker and q by (simp add: client_at_def fun_eq_iff)
  have u: "b_recv_pool (client_update b1 s g) = b_recv_pool b1" for b1 g by (simp add: client_update_def)
  have up: "ls[new := x] = ls[new := y]" if "new < length ls \<Longrightarrow> x = y" for ls :: "nat list" and x y
    using that by (cases "new < length ls") (simp_all add: list_update_beyond)
  show ?thesis using h p f r
    by (auto simp: steal_recv_buffer_def Let_def at u recv_buf_update_def stolen_lens_def buf_lens_def map_update intro!: up
        split: if_splits)
qed

text \<open>A packet leaves the table and the buffers alone or takes its buffer away.\<close>

definition after_sizes :: "broker \<Rightarrow> nat \<Rightarrow> nat \<Rightarrow> broker \<Rightarrow> bool" where
  "after_sizes b s n b' \<longleftrightarrow> conn b' = conn b \<and> buf_lens b' = buf_lens b
     \<or> (\<exists>new. conn b' = conn (client_update b s (stolen_window new n)) \<and> buf_lens b' = stolen_lens (buf_lens b) (client_at b s) n new)"

lemma accepted_sizes:
  assumes r: "c_recv_buf_idx (client_at b s) < length (buf_lens b)"
  shows "after_sizes b s n (publish_accepted b s buf n pub)"
proof -
  have lm: "buf_lens (b2\<lparr>b_msg_pool := q\<rparr>) = buf_lens b2" for b2 q by (simp add: buf_lens_def)
  have at: "client_at (b\<lparr>b_msg_pool := q\<rparr>) = client_at b" for q by (simp add: client_at_def fun_eq_iff)
  have c: "conn (client_update (b\<lparr>b_msg_pool := q\<rparr>) s f) = conn (client_update b s f)" for q f by (simp add: client_update_def conn_def)
  have z: "buf_lens b1 = (if st = None then buf_lens b else stolen_lens (buf_lens b) (client_at b s) n new)"
    if "steal_recv_buffer (b\<lparr>b_msg_pool := q\<rparr>) s n = (new, st, b1)" for q new st b1
    using steal_sizes [OF that] r by (simp add: lm at)
  show ?thesis
  proof (cases rule: publish_accepted_cases [of b s buf n pub])
    case (Dropped mp)
    then show ?thesis by (simp add: after_sizes_def lm)
  next
    case (No_buffer mp new b1 mp')
    then show ?thesis using conn_steal(1) [OF No_buffer(1)] z [OF No_buffer(1)] by (simp add: after_sizes_def lm)
  next
    case (Stolen mp new x b1 mp' i t l)
    then show ?thesis using conn_steal(2) [OF Stolen(1)] z [OF Stolen(1)]
      unfolding after_sizes_def by (intro disjI2 exI [of _ new]) (simp add: lm c)
  qed
qed

lemma after_sizes_before:
  assumes c: "conn b1 = conn b" and l: "buf_lens b1 = buf_lens b" and s: "s < length (b_clients b)" and a: "after_sizes b1 s n b'"
  shows "after_sizes b s n b'"
proof -
  have "conn (client_update b1 s (stolen_window new n)) = conn (client_update b s (stolen_window new n))" for new
    by (rule conn_update_cong [OF c conn_of_window])
  moreover have "stolen_lens (buf_lens b1) (client_at b1 s) n new = stolen_lens (buf_lens b) (client_at b s) n new" for new
    using conn_client [OF c s] by (simp add: stolen_lens_def l)
  ultimately show ?thesis using a c l unfolding after_sizes_def by simp
qed

lemma packet_sizes:
  assumes k: "keeps_buffers k" and s: "s < length (b_clients b)" and r: "c_recv_buf_idx (client_at b s) < length (buf_lens b)"
    and h: "process_mqtt_packet_ex k b s buf p hdr = Some (x, b')"
  shows "after_sizes b s (unat (packet_total hdr)) b'"
proof -
  let ?p = "p + header_len hdr" and ?n = "unat (remaining_len hdr)" and ?t = "unat (packet_total hdr)"
  have quiet: "after_sizes b s ?t b'" if "conn b' = conn b" "buf_lens b' = buf_lens b" using that by (simp add: after_sizes_def)
  consider "hdr_type hdr = MQTT_CONNECT" | "hdr_type hdr = MQTT_SUBSCRIBE" | "hdr_type hdr = MQTT_UNSUBSCRIBE"
    | "hdr_type hdr = MQTT_PUBLISH"
    | "hdr_type hdr \<noteq> MQTT_CONNECT" "hdr_type hdr \<noteq> MQTT_SUBSCRIBE" "hdr_type hdr \<noteq> MQTT_UNSUBSCRIBE" "hdr_type hdr \<noteq> MQTT_PUBLISH"
    by blast
  then show ?thesis
  proof cases
    case 4
    then obtain go where go: "handle_publish k b s buf ?p ?n ?t (hdr_flags hdr) = Some (go, b')"
      using h by (auto simp: process_mqtt_packet_ex_def Let_def)
    show ?thesis
    proof (cases "c_protocol_version (client_at b s) = 0 \<or> (\<exists>e. mqtt_parse_publish (hdr_flags hdr) buf ?p ?n = Inl e)")
      case True
      then have "b' = b" using go by (auto simp: handle_publish_def split: if_splits)
      then show ?thesis by (simp add: after_sizes_def)
    next
      case False
      then obtain pub where pub: "mqtt_parse_publish (hdr_flags hdr) buf ?p ?n = Inr pub"
        by (cases "mqtt_parse_publish (hdr_flags hdr) buf ?p ?n") auto
      obtain on b1 where f: "fsm_pub_received k b s (pub_qos pub) (pub_packet_id pub) = (on, b1)" by (metis surj_pair)
      have b': "b' = (if on then publish_accepted b1 s buf ?t pub else b1)" using go False pub f by (auto simp: handle_publish_def)
      note c = conn_pub_received [OF f] and l = buffer_sizes.view_pub_received [OF k f]
      have "after_sizes b1 s ?t b'"
        using accepted_sizes [of b1 s ?t buf pub] r conn_client [OF c s] l b' by (simp add: after_sizes_def)
      then show ?thesis by (rule after_sizes_before [OF c l s])
    qed
  next
    case 5
    have "handle_ack buf ?p ?n b (\<lambda>pid. Some (fsm_sub_pubcomp_received b s pid)) = Some (go, b') \<Longrightarrow> conn b' = conn b" for go
      by (rule conn_pubcomp_ack)
    then have "conn b' = conn b"
      using h 5 conn_ack [of buf ?p ?n b _ _ b', OF _ conn_puback] conn_ack [of buf ?p ?n b _ _ b', OF _ conn_pubrec]
        conn_ack [of buf ?p ?n b _ _ b', OF _ conn_pubrel]
      by (simp add: process_mqtt_packet_ex_def Let_def map_option_eq_Some split: if_splits) auto
    then show ?thesis by (rule quiet) (rule buffer_sizes.view_packet_quiet [OF k h 5])
  qed (use h quiet conn_connect [of k b s buf ?p ?n _ b'] conn_subscribe [of k b s buf ?p ?n _ b'] conn_unsubscribe [of k b s buf ?p ?n _ b']
      sizes_connect [OF k, of b s buf ?p ?n _ b'] sizes_subs [OF k, of b s buf ?p ?n _ b'] in
    \<open>auto simp: process_mqtt_packet_ex_def Let_def\<close>)
qed

text \<open>The window of the receive loop lies inside its buffer.\<close>

definition in_window :: "broker \<Rightarrow> nat \<Rightarrow> nat \<Rightarrow> bool" where
  "in_window b s d \<longleftrightarrow> length (buf_lens b) = bp_capacity (b_recv_pool b) \<and> c_recv_start (client_at b s) \<le> d
     \<and> (c_recv_len (client_at b s) > 0 \<longrightarrow> client_recv_buf (client_at b s) (b_recv_pool b) \<noteq> None
          \<and> d + c_recv_len (client_at b s) \<le> buf_lens b ! c_recv_buf_idx (client_at b s))"

lemma recv_buf_Some:
  "client_recv_buf c p \<noteq> None \<longleftrightarrow> c_recv_buf_idx c \<noteq> BUF_POOL_INVALID \<and> c_recv_buf_idx c < bp_capacity p"
  by (simp add: client_recv_buf_def buf_pool_get_def del: not_None_eq)

lemma in_window_buf:
  assumes "in_window b s d" "client_recv_buf (client_at b s) (b_recv_pool b) = Some buf" "c_recv_len (client_at b s) > 0"
  shows "d + c_recv_len (client_at b s) \<le> length buf" "c_recv_buf_idx (client_at b s) < length (buf_lens b)"
proof -
  have i: "c_recv_buf_idx (client_at b s) < length (buf_lens b)" using assms(1,2) recv_buf_Some [of "client_at b s" "b_recv_pool b"]
    by (simp add: in_window_def)
  then show "c_recv_buf_idx (client_at b s) < length (buf_lens b)" .
  have "buf = bp_bufs (b_recv_pool b) ! c_recv_buf_idx (client_at b s)"
    using assms(2) by (auto simp: client_recv_buf_def buf_pool_get_def split: if_splits)
  moreover have "buf_lens b ! c_recv_buf_idx (client_at b s) = length (bp_bufs (b_recv_pool b) ! c_recv_buf_idx (client_at b s))"
    using i by (simp add: buf_lens_def)
  ultimately show "d + c_recv_len (client_at b s) \<le> length buf" using assms(1,3) by (simp add: in_window_def)
qed

lemma window_fields:
  assumes c: "conn b1 = conn (client_update b s (stolen_window new n))" and s: "s < length (b_clients b)"
  shows "c_recv_buf_idx (client_at b1 s) = new" "c_recv_start (client_at b1 s) = 0"
    "c_recv_len (client_at b1 s) = c_recv_len (client_at b s) - n" "length (b_clients b1) = length (b_clients b)"
  using conn_client [OF c, of s] conn_fields(1) [OF c] s by (simp_all add: client_at_update stolen_window_def)

lemma advance_fields:
  assumes "s < length (b_clients b)"
  shows "client_at (advance_recv b s n) s = (client_at b s)\<lparr>c_recv_start := c_recv_start (client_at b s) + n, c_recv_len := c_recv_len (client_at b s) - n\<rparr>"
  using assms by (simp add: advance_recv_def client_at_update)

text \<open>Advancing, when table and buffers stayed the same.\<close>

lemma advance_window:
  assumes w: "in_window b s d" and s: "s < length (b_clients b)" and c: "conn b1 = conn b" and l: "buf_lens b1 = buf_lens b"
    and n: "n \<le> c_recv_len (client_at b s)"
  shows "in_window (advance_recv b1 s n) s (d + n)"
proof -
  have s1: "s < length (b_clients b1)" using s conn_fields(1) [OF c] by simp
  have p: "b_recv_pool (advance_recv b1 s n) = b_recv_pool b1" "buf_lens (advance_recv b1 s n) = buf_lens b1"
    by (simp_all add: advance_recv_def client_update_def buf_lens_def)
  have cap: "bp_capacity (b_recv_pool b1) = bp_capacity (b_recv_pool b)" using c by (simp add: conn_def)
  note f = conn_client [OF c s]
  show ?thesis using w n f
    unfolding in_window_def recv_buf_Some p l cap advance_fields [OF s1] by auto
qed

lemma stolen_window_ok:
  assumes w: "in_window b s d" and s: "s < length (b_clients b)" and c: "conn b1 = conn (client_update b s (stolen_window new n))"
    and l: "buf_lens b1 = stolen_lens (buf_lens b) (client_at b s) n new" and n: "n \<le> c_recv_len (client_at b s)"
    and shape: "length (buf_lens b1) = bp_capacity (b_recv_pool b1)" and pos: "c_recv_len (client_at b s) > 0"
  shows "c_recv_buf_idx (client_at b1 s) \<noteq> c_recv_buf_idx (client_at b s) \<Longrightarrow> client_recv_buf (client_at b1 s) (b_recv_pool b1) \<noteq> None
      \<Longrightarrow> in_window (client_update b1 s (\<lambda>c. c\<lparr>c_recv_start := 0\<rparr>)) s 0"
    "c_recv_buf_idx (client_at b1 s) = c_recv_buf_idx (client_at b s) \<Longrightarrow> in_window (advance_recv b1 s n) s (d + n)"
proof -
  note f = window_fields [OF c s]
  have s1: "s < length (b_clients b1)" using s f(4) by simp
  have p: "b_recv_pool (advance_recv b1 s n) = b_recv_pool b1" "buf_lens (advance_recv b1 s n) = buf_lens b1"
    "b_recv_pool (client_update b1 s g) = b_recv_pool b1" "buf_lens (client_update b1 s g) = buf_lens b1" for g
    by (simp_all add: advance_recv_def client_update_def buf_lens_def)
  have len: "length (buf_lens b1) = length (buf_lens b)" by (simp add: l stolen_lens_def)
  have w': "d + c_recv_len (client_at b s) \<le> buf_lens b ! c_recv_buf_idx (client_at b s)" "c_recv_start (client_at b s) \<le> d"
      "length (buf_lens b) = bp_capacity (b_recv_pool b)"
      "c_recv_buf_idx (client_at b s) \<noteq> BUF_POOL_INVALID" "c_recv_buf_idx (client_at b s) < length (buf_lens b)"
    using w pos recv_buf_Some [of "client_at b s" "b_recv_pool b"] by (simp_all add: in_window_def)
  define left where "left = c_recv_len (client_at b s) - n"
  have src: "left \<le> buf_lens b ! c_recv_buf_idx (client_at b s) - (c_recv_start (client_at b s) + n)"
    using w'(1,2) n by (simp add: left_def)
  have b1: "buf_lens b1 = (if left > 0 then (buf_lens b)[new := left + (buf_lens b ! new - left)] else buf_lens b)"
    using src by (simp add: l stolen_lens_def left_def [symmetric] min_absorb2) (simp add: left_def)
  have at: "buf_lens b1 ! new \<ge> left" if "new < length (buf_lens b)" using that by (simp add: b1)
  have same: "buf_lens b1 ! new = buf_lens b ! new" if "new = c_recv_buf_idx (client_at b s)"
    using that w'(1,5) by (simp add: b1 left_def)
  show "in_window (client_update b1 s (\<lambda>c. c\<lparr>c_recv_start := 0\<rparr>)) s 0" if "client_recv_buf (client_at b1 s) (b_recv_pool b1) \<noteq> None"
    using that at shape s1 len f unfolding in_window_def recv_buf_Some p by (auto simp: client_at_update left_def)
  show "in_window (advance_recv b1 s n) s (d + n)" if i: "c_recv_buf_idx (client_at b1 s) = c_recv_buf_idx (client_at b s)"
    using i same shape w' n len f unfolding in_window_def recv_buf_Some p advance_fields [OF s1] by auto
qed

section \<open>The receive loop\<close>

lemma round_window:
  assumes k: "keeps_buffers k" and s: "s < length (b_clients b)" and w: "in_window b s d" and pos: "c_recv_len (client_at b s) > 0"
    and buf: "client_recv_buf (client_at b s) (b_recv_pool b) = Some buf" and h: "recv_round k b s buf d = Some (Some d', b')"
  shows "in_window b' s d'"
proof (cases "fast_path k b s buf d")
  case (Some r)
  then obtain b1 where b1: "fast_path k b s buf d = Some (Some b1)" "b' = advance_recv b1 s 4" "d' = d + 4"
    using h by (auto simp: recv_round_def)
  show ?thesis unfolding b1(2,3)
    by (rule advance_window [OF w s _ buffer_sizes.view_fast_path [OF k b1(1)]]) (use fast_path_conn [OF b1(1)] in simp_all)
next
  case None
  obtain n hdr where c: "mqtt_packet_complete_ex buf d (c_recv_len (client_at b s)) = Inr (n, hdr)"
    using h None by (auto simp: recv_round_def split: sum.splits parse_error.splits)
  obtain consumed b1 where p: "process_mqtt_packet_ex k b s buf d hdr = Some (consumed, b1)" "\<not> consumed < 0"
    and b': "(c_recv_buf_idx (client_at b1 s) \<noteq> c_recv_buf_idx (client_at b s)
        \<and> client_recv_buf (client_at (client_update b1 s (\<lambda>c. c\<lparr>c_recv_start := 0\<rparr>)) s) (b_recv_pool (client_update b1 s (\<lambda>c. c\<lparr>c_recv_start := 0\<rparr>))) \<noteq> None
        \<and> b' = client_update b1 s (\<lambda>c. c\<lparr>c_recv_start := 0\<rparr>) \<and> d' = 0)
      \<or> (c_recv_buf_idx (client_at b1 s) = c_recv_buf_idx (client_at b s) \<and> b' = advance_recv b1 s (nat consumed) \<and> d' = d + nat consumed)"
    using h None c by (auto simp: recv_round_def Let_def split: option.splits prod.splits if_splits)
  let ?t = "unat (packet_total hdr)"
  have t: "nat consumed = ?t" "?t \<le> c_recv_len (client_at b s)" using process_packet_after(2) [OF p(1)] p(2) complete_total(2) [OF c] by auto
  have a: "after_sizes b s ?t b1" by (rule packet_sizes [OF k s in_window_buf(2) [OF w buf pos] p(1)])
  have sh: "length (buf_lens b1) = bp_capacity (b_recv_pool b1)"
    using pool_kept.view_packet [OF k p(1)] w by (simp add: pool_shape_def in_window_def)
  have g: "client_recv_buf (client_at (client_update b1 s (\<lambda>c. c\<lparr>c_recv_start := 0\<rparr>)) s) (b_recv_pool (client_update b1 s (\<lambda>c. c\<lparr>c_recv_start := 0\<rparr>)))
      = client_recv_buf (client_at b1 s) (b_recv_pool b1)"
    by (simp add: client_recv_buf_def client_at_store) (simp add: client_update_def)
  from a consider "conn b1 = conn b" "buf_lens b1 = buf_lens b"
    | new where "conn b1 = conn (client_update b s (stolen_window new ?t))" "buf_lens b1 = stolen_lens (buf_lens b) (client_at b s) ?t new"
    unfolding after_sizes_def by blast
  then show ?thesis
  proof cases
    case 1
    then show ?thesis using b' advance_window [OF w s 1 t(2)] conn_client(5) [OF 1(1) s] t(1) by simp
  next
    case (2 new)
    show ?thesis using b' stolen_window_ok [OF w s 2 t(2) sh pos] unfolding g t(1) by auto
  qed
qed

lemma recv_loop_returns:
  assumes k: "keeps_buffers k"
  shows "c_recv_len (client_at b s) \<le> n \<Longrightarrow> slots_ok b \<Longrightarrow> live b s \<Longrightarrow> active_slot b s \<Longrightarrow> indexes_ok b \<Longrightarrow> in_window b s d \<Longrightarrow>
    \<exists>b'. recv_loop n k b s d = Some b'"
proof (induction n arbitrary: b d)
  case (Suc n)
  show ?case
  proof (cases "c_recv_len (client_at b s) > 0")
    case pos: True
    have s: "s < length (b_clients b)" using active_slot_owned [OF Suc.prems(4)] by (simp add: slot_owned_def)
    obtain buf where buf: "client_recv_buf (client_at b s) (b_recv_pool b) = Some buf"
      using Suc.prems(6) pos by (auto simp: in_window_def)
    obtain x b1 where r: "recv_round k b s buf d = Some (x, b1)"
      using recv_round_returns [OF Suc.prems(4,5,3) in_window_buf(1) [OF Suc.prems(6) buf pos]] by fastforce
    show ?thesis
    proof (cases x)
      case None
      then show ?thesis using pos buf r by simp
    next
      case (Some d')
      note r = r [unfolded Some]
      note st = stays_recv_round [OF Suc.prems(2,3) r]
      have "\<exists>b'. recv_loop n k b1 s d' = Some b'"
      proof (rule Suc.IH)
        show "c_recv_len (client_at b1 s) \<le> n" using recv_round_progress(1) [OF s pos r] Suc.prems(1) by simp
        show "active_slot b1 s" by (rule active_slot_tab [OF Suc.prems(4) recv_round_on [OF r]])
      qed (use slots_ok_stays [OF Suc.prems(2) st] live_stays [OF Suc.prems(3) st] recv_round_owned [OF Suc.prems(4,5) r]
          round_window [OF k s Suc.prems(6) pos buf r] in simp_all)
      then show ?thesis using pos buf r Some by simp
    qed
  qed simp
qed simp

section \<open>Completions\<close>

text \<open>What the kernel promises: a receive reports no more bytes than the room it was given.\<close>

definition recv_fits :: "broker \<Rightarrow> io_uring_cqe \<Rightarrow> bool" where
  "recv_fits b cqe \<longleftrightarrow> (case broker_get_client b (unat (RECV_CTX_SLOT (ud_ctx (cqe_user_data cqe)))) of None \<Rightarrow> True
     | Some s \<Rightarrow> ud_op (cqe_user_data cqe) = OP_RECV \<and> c_generation (client_at b s) = RECV_CTX_GEN (ud_ctx (cqe_user_data cqe))
         \<and> c_state (client_at b s) = CLIENT_ACTIVE \<and> cqe_res cqe > 0 \<longrightarrow>
         (case client_recv_buf (client_at b s) (b_recv_pool b) of None \<Rightarrow> True
          | Some buf \<Rightarrow> c_recv_start (client_at b s) + c_recv_len (client_at b s) + nat (cqe_res cqe) \<le> length buf))"

lemma process_recv_returns:
  assumes k: "keeps_buffers k" and ok: "slots_ok b" and a: "active_slot b s" and o: "indexes_ok b"
    and sh: "length (buf_lens b) = bp_capacity (b_recv_pool b)"
    and w: "\<And>buf. client_recv_buf (client_at b s) (b_recv_pool b) = Some buf \<Longrightarrow> c_recv_start (client_at b s) + c_recv_len (client_at b s) \<le> length buf"
  shows "\<exists>b'. process_recv_buffer k b s = Some b'"
proof (cases "client_recv_buf (client_at b s) (b_recv_pool b)")
  case (Some buf)
  then have "buf = bp_bufs (b_recv_pool b) ! c_recv_buf_idx (client_at b s)" "c_recv_buf_idx (client_at b s) < bp_capacity (b_recv_pool b)"
    by (auto simp: client_recv_buf_def buf_pool_get_def split: if_splits)
  then have "length buf = buf_lens b ! c_recv_buf_idx (client_at b s)" using sh by (simp add: buf_lens_def)
  then have "in_window b s (c_recv_start (client_at b s))" using w [OF Some] Some sh by (simp add: in_window_def)
  moreover have "live b s" using slots_ok_live [OF ok] a by (simp add: active_slot_def)
  ultimately show ?thesis using recv_loop_returns [OF k order_refl ok _ a o] Some by (simp add: process_recv_buffer_def)
qed (simp add: process_recv_buffer_def)

lemma handle_recv_returns:
  assumes k: "keeps_buffers k" and R: "table_rel b T" and n: "b_max_clients b \<le> 65536" and ok: "slots_ok b" and o: "indexes_ok b"
    and sh: "length (buf_lens b) = bp_capacity (b_recv_pool b)" and f: "recv_fits b cqe" and op: "ud_op (cqe_user_data cqe) = OP_RECV"
  shows "\<exists>b'. handle_recv k b cqe = Some b'"
proof (cases "broker_get_client b (unat (RECV_CTX_SLOT (ud_ctx (cqe_user_data cqe))))")
  case (Some s)
  then have sm: "s < b_max_clients b" by (simp add: broker_get_client_def split: if_splits)
  then have sl: "s < length (b_clients b)" using table_relD(1) [OF R] by simp
  define b1 where "b1 = client_update b s (\<lambda>c. c\<lparr>c_recv_pending := False\<rparr>)"
  define b2 where "b2 = (client_update b1 s (\<lambda>c. c\<lparr>c_recv_len := c_recv_len c + nat (cqe_res cqe)\<rparr>))
      \<lparr>b_bytes_recv := b_bytes_recv (client_update b1 s (\<lambda>c. c\<lparr>c_recv_len := c_recv_len c + nat (cqe_res cqe)\<rparr>)) + of_int (cqe_res cqe)\<rparr>"
  have t1: "tab b1 = tab b" unfolding b1_def by (rule tab_update) simp_all
  have "tab (client_update b1 s (\<lambda>c. c\<lparr>c_recv_len := c_recv_len c + nat (cqe_res cqe)\<rparr>)) = tab b1" by (rule tab_update) simp_all
  then have t2: "tab b2 = tab b1" by (simp add: b2_def)
  have o1: "indexes_ok b1" by (rule indexes_ok_stay [OF o _ owners_tab [OF t1]]) (simp add: b1_def)
  have o2: "indexes_ok b2" by (rule indexes_ok_stay [OF o1 _ owners_tab [OF t2]]) (simp add: b2_def)
  have "stays b b2" unfolding b2_def
    by (rule stays_into [OF _ stays_trans [OF stays_fields(2) [of b s False] stays_fields(3)]]) (simp add: b1_def)
  note ok2 = slots_ok_stays [OF ok this]
  have at: "client_at b2 s = (client_at b s)\<lparr>c_recv_pending := False, c_recv_len := c_recv_len (client_at b s) + nat (cqe_res cqe)\<rparr>"
    using sl by (simp add: b2_def b1_def client_at_def client_update_def)
  have pool: "b_recv_pool b2 = b_recv_pool b" by (simp add: b2_def b1_def client_update_def)
  have rb: "client_recv_buf (client_at b2 s) (b_recv_pool b2) = client_recv_buf (client_at b s) (b_recv_pool b)"
    unfolding client_recv_buf_def pool at by (simp split: if_split)
  have "\<exists>b'. process_recv_buffer k b2 s = Some b'"
    if act: "c_state (client_at b1 s) = CLIENT_ACTIVE" and pos: "cqe_res cqe > 0" and gen: "c_generation (client_at b s) = RECV_CTX_GEN (ud_ctx (cqe_user_data cqe))"
  proof (rule process_recv_returns [OF k ok2 _ o2])
    have "active_slot b1 s" using act table_rel_cong [OF t1 R] tab_fields(2) [OF t1] sm n by (auto simp: active_slot_def)
    then show "active_slot b2 s" by (rule active_slot_tab [OF _ t2])
    show "length (buf_lens b2) = bp_capacity (b_recv_pool b2)" using sh by (simp add: buf_lens_def pool)
    have "c_state (client_at b s) = CLIENT_ACTIVE" using act sl by (simp add: b1_def client_at_store)
    then show "c_recv_start (client_at b2 s) + c_recv_len (client_at b2 s) \<le> length buf"
      if "client_recv_buf (client_at b2 s) (b_recv_pool b2) = Some buf" for buf
      using f op Some gen pos that [unfolded rb] by (simp add: recv_fits_def at)
  qed
  then show ?thesis unfolding handle_recv_def Let_def Some option.case b1_def [symmetric] b2_def [symmetric] by auto
qed (simp add: handle_recv_def Let_def)

lemma dispatch_returns:
  assumes k: "keeps_buffers k" and R: "table_rel b T" and n: "b_max_clients b \<le> 65536" and ok: "slots_ok b" and o: "indexes_ok b"
    and sh: "length (buf_lens b) = bp_capacity (b_recv_pool b)" and f: "recv_fits b cqe"
  shows "\<exists>b'. dispatch_cqe k b cqe = Some b'"
  using handle_recv_returns [OF assms] handle_close_returns [OF R o n] egress_cqe_returns [OF ok table_relD(1) [OF R]]
  by (simp add: dispatch_cqe_def Let_def)

lemma shape_step:
  assumes k: "keeps_buffers k" and st: "loop_step k b b'"
  shows "pool_shape b' = pool_shape b"
  using st
proof cases
  case (on_completion cqe)
  then show ?thesis using pool_kept.view_dispatch [OF k] by blast
next
  case (on_sweep q)
  then show ?thesis by (rule pool_kept.view_sweep)
next
  case (on_enter call rc)
  then show ?thesis using enter_lens [OF k on_enter] by (auto simp: pool_shape_def broker_enter_def split: prod.splits)
next
  case (on_ring r)
  then show ?thesis by (simp add: pool_shape_def buf_lens_def)
qed (use k in simp_all)

lemma shape_steps: "keeps_buffers k \<Longrightarrow> (loop_step k)\<^sup>*\<^sup>* b b' \<Longrightarrow> pool_shape b' = pool_shape b"
  by (rotate_tac, induction rule: rtranclp_induct) (simp_all add: shape_step)

end
