(* ===== verification/Whole_System.thy ===== *)
theory Whole_System
  imports Broker_Main Handled_Recv
begin

text \<open>
  The program as a whole: what \<open>broker_start\<close> hands to the event loop meets every invariant the components ask for, the
  loop keeps them, and so their theorems hold in every state of the running program.
\<close>

section \<open>The context of a receive\<close>

text \<open>What the packing of a slot and its generation gives back.\<close>

lemma recv_ctx_fields: "RECV_CTX_GEN (MAKE_RECV_CTX s g) = g" "RECV_CTX_SLOT (MAKE_RECV_CTX s g) = take_bit 24 s"
  unfolding RECV_CTX_SLOT_def RECV_CTX_GEN_def MAKE_RECV_CTX_def word_and_masks word_and_FF
  by (rule bit_word_eqI, auto simp: bit_simps dest: bit_imp_le_length)+

section \<open>The state a start hands over\<close>

lemma buf_pool_init_bufs: "buf_pool_init ok c sz v = (Some p, v') \<Longrightarrow> map length (bp_bufs p) = replicate c sz"
  by (auto simp: buf_pool_init_def map_replicate split: option.splits prod.splits)

lemma start_slots:
  assumes st: "broker_start e cfg0 b0 p = Some (Inr (b, m, p'))"
  shows "slots_wf b [0..<b_max_clients b]" "0 < b_max_clients b" "b_max_fds b = b_max_clients b * FD_MULTIPLIER"
    "buf_pool_in_use (b_recv_pool b) = {}" "bp_capacity (b_recv_pool b) = b_max_clients b" "bp_buf_size (b_recv_pool b) = LLMQ_RECV_BUF_SIZE"
    "b_fd_to_slot b = replicate (b_max_fds b) (-1)" "buf_lens b = replicate (b_max_clients b) LLMQ_RECV_BUF_SIZE"
    "\<exists>cfg. broker_config_parse (e_read_file e) cfg0 (e_args e) (e_env e) = Inr cfg \<and> b_max_clients b = unat (limits_max_conns cfg)"
  using st
proof (atomize (full), elim broker_startE, goal_cases)
  case (1 cfg b1 v ri fd p2 p3)
  define mc where "mc = unat (limits_max_conns cfg)"
  have mc: "mc \<le> 65536" "0 < mc" using 1(2) by (simp_all add: config_ok_def mc_def)
  note init = 1(3) [folded mc_def] and b = 1(4)
  have f: "b_max_clients b = mc" "b_max_fds b = mc * FD_MULTIPLIER" "b_fd_to_slot b = replicate (b_max_fds b) (-1)"
      "bp_capacity (b_recv_pool b) = mc" "bp_buf_size (b_recv_pool b) = LLMQ_RECV_BUF_SIZE"
    using init buf_pool_init_wf mc by (auto elim!: broker_init_SomeE simp: b BUF_POOL_INVALID_def)
  have n: "next_free b = next_free b1" "client_at b = client_at b1" "b_max_clients b = b_max_clients b1" by (simp_all add: b fun_eq_iff next_free_def client_at_def)
  have c: "slot_chain b h fl = slot_chain b1 h fl" for h fl by (induction fl arbitrary: h) (simp_all add: n)
  have "connected b = connected b1" "with_state b = with_state b1" by (simp_all add: fun_eq_iff connected_def with_state_def n)
  then have "slots_wf b fl = slots_wf b1 fl" for fl unfolding slots_wf_def c n by (simp add: b)
  moreover have "buf_lens b = replicate mc LLMQ_RECV_BUF_SIZE"
    using init buf_pool_init_bufs by (fastforce elim!: broker_init_SomeE simp: b buf_lens_def)
  ultimately show ?case using broker_init_slots(1,3) [OF init mc(1)] f mc(2) 1(1) by (auto simp: b mc_def)
qed

lemma start_invariants:
  assumes st: "broker_start e cfg0 b0 p = Some (Inr (b, m, p'))"
  obtains T where "table_rel b T" "b_max_clients b \<le> 65536" "indexes_ok b" "slots_ok b"
  using st
proof (cases rule: broker_startE)
  case (1 cfg b1 v ri fd p2 p3)
  define mc where "mc = unat (limits_max_conns cfg)"
  have mc: "mc \<le> 65536" using 1(2) by (simp add: config_ok_def mc_def)
  note init = 1(3) [folded mc_def] and b = 1(4)
  note wf = start_slots(1) [OF st]
  have cl: "b_clients b = map (initial_client mc (unat (client_max_inflight cfg)) (unat (client_egress_capacity cfg))) [0..<mc]"
    and f: "b_trie b = trie_init" "b_max_inflight b = unat (client_max_inflight cfg)" "b_max_clients b = mc"
    using init by (auto elim!: broker_init_SomeE simp: b)
  obtain i j where ij: "i \<le> 10" "unat (client_max_inflight cfg) = 2 ^ i" "j \<le> 13" "unat (client_egress_capacity cfg) = 2 ^ j"
    using 1(2) by (auto simp: config_ok_def)
  have "slot_unused (b_max_inflight b) (client_at b s)" if "s < length (b_clients b)" for s
    using unused_initial [OF ij(2) _ ij(4), of mc s] ij(1,3) that by (simp add: f cl client_at_def)
  then have "slots_ok b" by (simp add: slots_ok_def slot_ok_def)
  moreover have "hashmap_wf (b_client_map b)" using wf by (simp add: slots_wf_def)
  ultimately show thesis using that slots_wf_table [OF wf] mc f indexes_ok_init by simp
qed

text \<open>The states of the running program.\<close>

definition running :: "environment \<Rightarrow> broker \<Rightarrow> bool" where
  "running e b' \<longleftrightarrow> (\<exists>cfg0 b0 p b m p'. broker_start e cfg0 b0 p = Some (Inr (b, m, p')) \<and> (loop_step (e_kernel e))\<^sup>*\<^sup>* b b')"

lemma running_invariants:
  assumes "running e b"
  obtains T where "table_rel b T" "b_max_clients b \<le> 65536" "indexes_ok b" "slots_ok b"
proof -
  obtain cfg0 b0 p bs m p' where st: "broker_start e cfg0 b0 p = Some (Inr (bs, m, p'))" and run: "(loop_step (e_kernel e))\<^sup>*\<^sup>* bs b"
    using assms by (auto simp: running_def)
  obtain T where I: "table_rel bs T" "b_max_clients bs \<le> 65536" "indexes_ok bs" "slots_ok bs"
    by (rule start_invariants [OF st])
  obtain T' where "table_rel b T'" "b_max_clients b = b_max_clients bs" using loop_steps_table [OF run I(1)] by blast
  moreover have "indexes_ok b" by (rule loop_steps_owned [OF run I(1) _ I(3)]) (use I(2) in simp)
  moreover have "slots_ok b" by (rule slots_ok_stays [OF I(4) loop_steps_stay [OF run I(1,4)]])
  ultimately show thesis using that I(2) by simp
qed

lemma running_buffers:
  assumes "running e b" "keeps_buffers (e_kernel e)"
  shows "length (buf_lens b) = bp_capacity (b_recv_pool b)"
proof -
  obtain cfg0 b0 p bs m p' where st: "broker_start e cfg0 b0 p = Some (Inr (bs, m, p'))" and run: "(loop_step (e_kernel e))\<^sup>*\<^sup>* bs b"
    using assms(1) by (auto simp: running_def)
  then show ?thesis using shape_steps [OF assms(2) run] start_slots(5,8) [OF st] by (simp add: pool_shape_def)
qed

section \<open>Properties\<close>

text \<open>C16: In every state of the running program the topic trie is well formed and its subscriptions are those of live
  owners, every slot has a well-formed egress queue, and every slot in use has a well-formed scratch area, pending queue
  and in-flight table, the latter of the configured size.\<close>

theorem running_slots_well_formed:
  assumes "running e b" "s < length (b_clients b)"
  shows "(\<exists>fl. trie_wf (b_trie b) fl) \<and> subs_current b \<and> egress_queue_wf (client_at b s)
    \<and> (c_state (client_at b s) \<noteq> CLIENT_FREE \<longrightarrow> scratch_wf (client_at b s) \<and> pending_wf (client_at b s)
        \<and> inflight_wf (client_at b s) \<and> c_max_inflight (client_at b s) = b_max_inflight b)"
proof (cases rule: running_invariants [OF assms(1)])
  case (1 T)
  have ok: "slot_ok (b_max_inflight b) (client_at b s)" using 1(4) assms(2) by (simp add: slots_ok_def)
  have "slot_live (b_max_inflight b) (client_at b s)" if "c_state (client_at b s) \<noteq> CLIENT_FREE"
    using ok that by (auto simp: slot_ok_def slot_unused_def)
  moreover have "egress_queue_wf (client_at b s)" using slot_ok_shape [OF ok] by (simp add: slot_shape_def)
  ultimately show ?thesis using 1(3) indexes_ok_current by (auto simp: indexes_ok_def slot_live_def slot_shape_def)
qed

text \<open>The first receive of a connection starts at the front of its buffer.\<close>

lemma first_recv:
  assumes k: "keeps_buffers k" and s: "s < length (b_clients b)" and z: "c_recv_len (client_at b s) = 0" "c_recv_start (client_at b s) = 0"
  shows "c_recv_len (client_at (submit_recv k b s) s) = 0 \<and> c_recv_start (client_at (submit_recv k b s) s) = 0
    \<and> buf_lens (submit_recv k b s) = buf_lens b"
proof -
  define Z where "Z b' \<longleftrightarrow> s < length (b_clients b') \<and> c_recv_len (client_at b' s) = 0 \<and> c_recv_start (client_at b' s) = 0
      \<and> buf_lens b' = buf_lens b" for b'
  obtain i b1 where g: "get_sqe_with_flush k b = (i, b1)" by (cases "get_sqe_with_flush k b")
  have z1: "Z b1" using conn_client(6,7) [OF conn_get_sqe [OF g] s] conn_fields(1) [OF conn_get_sqe [OF g]]
      buffer_sizes.view_get_sqe [OF k g] s z by (simp add: Z_def)
  have same: "Z b3" if "Z b2" "b_clients b3 = b_clients b2" "buf_lens b3 = buf_lens b2" for b2 b3
    using that by (simp add: Z_def client_at_def)
  have up: "Z (client_update b2 s f)" if "Z b2" "c_recv_len (f (client_at b2 s)) = 0" "c_recv_start (f (client_at b2 s)) = 0" for b2 f
    using that by (simp add: Z_def client_at_store)
  have c: "Z (snd (maybe_compact_recv_buf b1 s))" using z1 up [OF z1, of "\<lambda>c. c\<lparr>c_recv_start := 0\<rparr>"]
    by (simp add: maybe_compact_recv_buf_def Z_def)
  have put: "Z (put_sqe b2 j f ud)" "Z (sys_shutdown b2 fd)" if "Z b2" for b2 j f ud fd
    by (rule same [OF that]; simp add: put_sqe_def sys_shutdown_def buf_lens_def)+
  have st: "Z (client_update b2 s (\<lambda>c. c\<lparr>c_state := x\<rparr>))" "Z (client_update b2 s (\<lambda>c. c\<lparr>c_recv_pending := y\<rparr>))" if "Z b2" for b2 x y
    by (rule up [OF that]; use that in \<open>simp add: Z_def\<close>)+
  have "Z (snd (submit_recv_internal k b s))"
    using z1 c put st by (auto simp: submit_recv_internal_def g Let_def split: option.split)
  moreover have "Z (recv_retry_enqueue b2 s)" if "Z b2" for b2 by (rule same [OF that]) (simp_all add: recv_retry_enqueue_def buf_lens_def)
  ultimately have "Z (submit_recv k b s)" by (auto simp: submit_recv_def split: prod.splits bool.splits)
  then show ?thesis by (simp add: Z_def)
qed

lemma idle_keeps_buffers: "keeps_buffers idle_kernel"
  by (simp add: keeps_buffers_def idle_kernel_def)

text \<open>The granting environment with one connection accepted.\<close>

lemma granting_running:
  obtains b where "running granting_environment b" "0 < length (b_clients b)" "c_state (client_at b 0) = CLIENT_ACTIVE"
    "c_recv_start (client_at b 0) = 0" "c_recv_len (client_at b 0) = 0" "buf_lens b = replicate 4096 65536" "b_max_clients b = 4096"
proof -
  obtain b m p' where st: "broker_start granting_environment undefined undefined undefined = Some (Inr (b, m, p'))" using granting_start by blast
  note s = start_slots [OF st]
  have mc: "b_max_clients b = 4096" using s(9) unfolding granting_parse by auto
  have k: "e_kernel granting_environment = idle_kernel" by (simp add: granting_environment_def)
  let ?b = "handle_accept idle_kernel b accepted_cqe"
  have w: "slots_wf b (0 # [1..<b_max_clients b])" using s(1,2) by (simp add: upt_rec)
  have r: "0 \<le> cqe_res accepted_cqe" "cqe_res accepted_cqe < int (b_max_fds b)" "0 < bp_buf_size (b_recv_pool b)"
      "buf_pool_in_use (b_recv_pool b) \<noteq> {..<bp_capacity (b_recv_pool b)}"
    using s mc lessThan_empty_iff [of "4096 :: nat"] by (simp_all add: eq_commute [of "{}"] accepted_op FD_MULTIPLIER_def LLMQ_RECV_BUF_SIZE_def)
  obtain i p b3 where b3: "?b = snd (submit_accept idle_kernel (submit_recv idle_kernel b3 0))" "buf_pool_alloc (b_recv_pool b) = (i, p)"
      "b_recv_pool b3 = p" "client_at b3 0 = client_init (client_at b 0) (cqe_res accepted_cqe) i (b_max_inflight b)" "0 < length (b_clients b3)"
    by (rule accept_result [OF w r(1,2,4)])
  have "buf_lens b3 = buf_lens b" using buf_pool_alloc_fields [OF b3(2)] by (simp add: buf_lens_def b3(3))
  with first_recv [OF idle_keeps_buffers b3(5)] have f: "c_recv_len (client_at (submit_recv idle_kernel b3 0) 0) = 0"
      "c_recv_start (client_at (submit_recv idle_kernel b3 0) 0) = 0" "buf_lens (submit_recv idle_kernel b3 0) = buf_lens b"
    by (simp_all add: b3(4) client_init_def)
  have c: "conn ?b = conn (submit_recv idle_kernel b3 0)" by (simp add: b3(1))
  have l: "buf_lens ?b = buf_lens b" using buffer_sizes.view_submit_accept [OF idle_keeps_buffers] f(3) by (simp add: b3(1))
  have "b_fd_to_slot b ! 3 = -1" using s(3,7) mc by (simp add: FD_MULTIPLIER_def)
  note step = r_into_rtranclp [of "loop_step idle_kernel", OF accept_step [OF this]]
  obtain T where T: "table_rel ?b T" "b_max_clients ?b = b_max_clients b" using loop_steps_table [OF step slots_wf_table [OF s(1)]] by blast
  then have n: "0 < length (b_clients ?b)" using table_relD(1) mc by simp
  then have "c_recv_start (client_at ?b 0) = 0 \<and> c_recv_len (client_at ?b 0) = 0"
    using conn_client(6,7) [OF c, of 0] conn_fields(1) [OF c] f by simp
  moreover have "running granting_environment ?b" using st step k unfolding running_def by metis
  moreover have "c_state (client_at ?b 0) = CLIENT_ACTIVE" using accept_opens [OF w r(1,2,4,3)] by blast
  ultimately show thesis using that n l s(8) mc T(2) by (simp add: LLMQ_RECV_BUF_SIZE_def)
qed

theorem running_slots_well_formed_witness:
  "\<exists>b. running granting_environment b \<and> c_state (client_at b 0) = CLIENT_ACTIVE \<and> inflight_wf (client_at b 0)"
proof -
  obtain b where b: "running granting_environment b" "0 < length (b_clients b)" "c_state (client_at b 0) = CLIENT_ACTIVE"
    by (rule granting_running)
  then show ?thesis using running_slots_well_formed [OF b(1,2)] by auto
qed

text \<open>C17: In every state of the running program every completion the kernel reports is handled to its end: no packet, no
  acknowledgement, no failed write and no closing connection makes the broker loop for ever or reach outside an array, and
  neither does the sweep for timeouts.  The kernel does not resize the receive buffers, and a receive reports no more bytes
  than the room it was given.\<close>

theorem every_completion_returns:
  assumes "running e b" "keeps_buffers (e_kernel e)" "recv_fits b cqe"
  shows "(\<exists>b'. dispatch_cqe (e_kernel e) b cqe = Some b') \<and> (\<exists>r. fsm_sweep_all_timeouts b = Some r)"
proof -
  obtain T where T: "table_rel b T" "b_max_clients b \<le> 65536" "indexes_ok b" "slots_ok b"
    by (rule running_invariants [OF assms(1)])
  show ?thesis
    using dispatch_returns [OF assms(2) T(1,2,4,3) running_buffers [OF assms(1,2)] assms(3)] sweep_returns [OF T(4) table_relD(1) [OF T(1)]] by blast
qed

text \<open>Two bytes arrive on the accepted connection; the generation of its slot is in the completion.\<close>

definition arrived_cqe :: "u8 \<Rightarrow> io_uring_cqe" where
  "arrived_cqe g = \<lparr>cqe_user_data = make_user_data OP_RECV 3 (MAKE_RECV_CTX 0 g), cqe_res = 2, cqe_flags = 0\<rparr>"

theorem every_completion_returns_witness:
  "\<exists>b b'. running granting_environment b \<and> c_state (client_at b 0) = CLIENT_ACTIVE
     \<and> recv_fits b (arrived_cqe (c_generation (client_at b 0)))
     \<and> dispatch_cqe (e_kernel granting_environment) b (arrived_cqe (c_generation (client_at b 0))) = Some b'"
proof -
  obtain b where b: "running granting_environment b" "c_state (client_at b 0) = CLIENT_ACTIVE" "c_recv_start (client_at b 0) = 0"
      "c_recv_len (client_at b 0) = 0" "buf_lens b = replicate 4096 65536" "b_max_clients b = 4096"
    by (rule granting_running) blast
  have k: "keeps_buffers (e_kernel granting_environment)" using idle_keeps_buffers by (simp add: granting_environment_def)
  have "length buf = 65536" if buf: "client_recv_buf (client_at b 0) (b_recv_pool b) = Some buf" for buf
  proof -
    have i: "buf = bp_bufs (b_recv_pool b) ! c_recv_buf_idx (client_at b 0)" "c_recv_buf_idx (client_at b 0) < length (buf_lens b)"
      using buf running_buffers [OF b(1) k] by (auto simp: client_recv_buf_def buf_pool_get_def split: if_splits)
    then have "length buf = buf_lens b ! c_recv_buf_idx (client_at b 0)" by (simp add: buf_lens_def)
    then show ?thesis using i(2) by (simp add: b(5))
  qed
  then have f: "recv_fits b (arrived_cqe (c_generation (client_at b 0)))"
    using b(3,4,6) by (auto simp: recv_fits_def arrived_cqe_def user_data_roundtrip recv_ctx_fields broker_get_client_def split: option.split)
  show ?thesis using every_completion_returns [OF b(1) k f] b(1,2) f by blast
qed

end
