(* ===== verification/Spec2Isabelle.thy ===== *)
theory Spec2Isabelle
  imports Mem_String Trie_Match Egress_Wrap First_Packet Log_Format Whole_System
begin

text \<open>
  llmq is an MQTT 3.1.1 broker: one thread, no libc and no allocation after start-up, with all input and output through
  io\_uring.  This development is a shallow embedding of its C code, everything under \<^verbatim>\<open>src/src/\<close>, and the theorems
  that make its parts correct.

  \<^bold>\<open>The program.\<close>  \<^verbatim>\<open>main\<close> loads the configuration, maps the pools and the client slots (\<^verbatim>\<open>broker_init\<close>), sets up
  the rings and the listening socket, and runs \<^verbatim>\<open>broker_run\<close>: an iteration submits the prepared entries, dispatches
  every completion (accept, receive, write, close), serves the two retry queues, keeps the pool of pending accepts full
  and sweeps the in-flight tables for timeouts.  A received packet is parsed in the client's receive buffer.  A PUBLISH
  takes a message of the message pool, \<^emph>\<open>steals\<close> the receive buffer so that topic and payload are never copied, finds the
  subscribers in the topic trie, and appends one egress segment with a reference to the message for each of them.  The
  flush engine turns the head of a client's egress queue into one \<^verbatim>\<open>writev\<close>; its completion takes the written bytes off
  the queue, moves QoS 1 and 2 messages on, and the last reference gives back the message and its buffer.

  \<^bold>\<open>Theories and sources.\<close>
  \<^item> \<open>Prelude\<close>: machine integers (\<^verbatim>\<open>sys/types.h\<close>), byte buffers, checked reads.  \<open>Probing\<close>, \<open>Backshift\<close>: linear
    probing and backward-shift deletion, shared by the three hash tables.
  \<^item> \<open>Packet\<close>, \<open>Connect\<close>, \<open>Publish\<close>, \<open>Subscribe\<close>: the wire format, \<^verbatim>\<open>mqtt/packet.h\<close>, \<^verbatim>\<open>connect.h\<close>, \<^verbatim>\<open>publish.h\<close>,
    \<^verbatim>\<open>subscribe.h\<close>.
  \<^item> \<open>Pool\<close>, \<open>Msgbuf\<close>, \<open>Hashmap\<close>, \<open>Mem_String\<close>: \<^verbatim>\<open>mem/pool.h\<close>, \<^verbatim>\<open>mem/msgbuf.h\<close>, \<^verbatim>\<open>mem/hashmap.h\<close>,
    \<^verbatim>\<open>mem/string.h\<close>.
  \<^item> \<open>Egress\<close>, \<open>Client\<close>: the data of a client, \<^verbatim>\<open>broker/egress.h\<close>, \<^verbatim>\<open>broker/client.h\<close>; \<open>Inflight\<close>: what their operations
    guarantee.
  \<^item> \<open>Trie\<close>: \<^verbatim>\<open>broker/trie.h\<close>; \<open>Trie_Inv\<close>, \<open>Trie_Ops\<close>, \<open>Trie_Match\<close>: its invariant, subscribing and matching.
  \<^item> \<open>Io_Uring\<close>, \<open>Ring_Init\<close>: \<^verbatim>\<open>sys/io_uring.h\<close>, \<^verbatim>\<open>sys/io_uring.c\<close>.
  \<^item> \<open>State\<close>, \<open>State_Init\<close>, \<open>Slots\<close>: \<^verbatim>\<open>broker/state.h\<close>, its start-up and its slot table.  \<open>Subs\<close>: \<^verbatim>\<open>broker/subs.h\<close>.
  \<^item> \<open>Msg_Path\<close>, \<open>Egress_Flush\<close>, \<open>Submit\<close>, \<open>Event_Loop\<close>: \<^verbatim>\<open>broker/msg_path.h\<close> and \<^verbatim>\<open>broker/loop.h\<close>;
    \<open>Egress_Batch\<close>, \<open>Egress_Frames\<close>, \<open>Egress_Complete\<close>, \<open>Egress_Wrap\<close>: what reaches the wire.
  \<^item> \<open>Fsm\<close>, \<open>Fsm_Correct\<close>: \<^verbatim>\<open>broker/mqtt_fsm.h\<close>.  \<open>Handler\<close>: \<^verbatim>\<open>broker/handler.h\<close>;
    \<open>First_Packet\<close>: what it refuses; \<open>Delivery\<close>, \<open>Fan_Out\<close>: whom a publication reaches, and its references.
  \<^item> \<open>Frame\<close>, \<open>Conn\<close>, \<open>Conn_Loop\<close>, \<open>Held\<close>: frames, that is what every operation up to \<^verbatim>\<open>broker_run\<close> leaves alone.
    \<open>Slot_Table\<close>, \<open>Slot_Sim\<close>, \<open>Slot_Loop\<close>, \<open>Slot_Correct\<close>: the life of a connection as a state machine, and the event
    loop as a run of it.
  \<^item> Invariants of the whole state, through every operation of the event loop: \<open>Subs_Owned\<close>, \<open>Subs_Loop\<close> (subscriptions
    belong to the present owners of their slots); \<open>Client_Wf\<close>, \<open>Client_Ops\<close>, \<open>Client_Msgs\<close>, \<open>Client_Loop\<close> (the queues
    and the in-flight table of every slot).  \<open>Handled\<close>, \<open>Handled_Recv\<close>: under these invariants no operation loops for
    ever or leaves an array, so every completion is handled.  \<open>Whole_System\<close>: the start establishes them, so they hold in every state of the
    running program, which the predicate \<open>running\<close> describes.
  \<^item> \<open>Config_Text\<close>, \<open>Config_Load\<close>: \<^verbatim>\<open>util/configlib.h\<close> on \<^verbatim>\<open>config.def.h\<close>.  \<open>Log_Format\<close>: \<^verbatim>\<open>util/log.h\<close>.
    \<open>Broker_Main\<close>: \<^verbatim>\<open>main.c\<close>.

  Definitions keep the names of the C functions; a constant of a header keeps its name too.

  \<^bold>\<open>State.\<close>  A struct is a record, with the prefix of the struct on its fields (\<open>c_\<close> client slot, \<open>b_\<close> broker, \<open>cm_\<close>
  message, \<open>seg_\<close> segment, \<open>r_\<close> ring, \<open>tn_\<close> trie node).  An array is a list, a pointer to an element its index, a pointer
  into a receive buffer an offset.  Counters and fields whose wrap-around the code can reach are words of their width; the
  others are \<open>nat\<close>, with the conversion written out where the code narrows.  An operation takes the state and returns it
  updated.  \<open>None\<close> as the result of an operation of the broker is a loop that does not end or an access outside its
  object; a parser returns \<open>Inl\<close> its error; \<open>broker_run\<close> returns \<open>Inl\<close> the value of its \<open>return\<close> with the broker.

  \<^bold>\<open>Parameters.\<close>  What is not code of the repository is an argument.  \<open>kernel\<close> (theory \<open>Submit\<close>): what
  \<^verbatim>\<open>io_uring_enter\<close> returns and does to the rings, what it writes into receive buffers, the results of \<^verbatim>\<open>write\<close>, and the
  clock.  \<open>setup_kernel\<close> and \<open>net_kernel\<close>: the results of \<^verbatim>\<open>io_uring_setup\<close>, \<^verbatim>\<open>mmap\<close> and the socket calls.
  \<open>ok\<close>: which \<^verbatim>\<open>mmap\<close> calls succeed.  \<open>abi\<close>: the sizes of the structs.  \<open>e_read_file\<close>: the contents of a file.  No
  theorem assumes that they answer kindly; where a law is needed (the kernel does not write the ring's descriptor; the
  offsets of \<^verbatim>\<open>io_uring_setup\<close> lie in the mappings; \<open>keeps_buffers\<close> and \<open>recv_fits\<close>: a receive fills the room it was
  given and does not resize the buffers) it is a hypothesis of the theorem.

  \<^bold>\<open>Interfaces.\<close>  The locale \<open>bounded_queue\<close> is the contract of the egress queue, the offline queue, the receive-retry
  queue and the submission queue; \<open>index_allocator\<close> of the two pools and the message pool; \<open>hash_index\<close> of the hash
  table of client identifiers.  \<open>store_frame\<close> lists the
  elementary stores of the broker that every packet but a PUBLISH makes and carries a view they keep up to the handlers;
  \<open>buffer_frame\<close> adds the exchange of receive buffers, and \<open>event_frame\<close> the trie and the identifier table, up to
  \<^verbatim>\<open>broker_run\<close>.  The sizes of the receive buffers are such a view, the two indexes of the slots another, the mappings and
  descriptors and the shape of the buffer pool a third.  Each locale is interpreted on the model's operations where they are defined.

  \<^bold>\<open>What the lemmas show.\<close>
  \<^item> Wire format: parsers read only inside the bytes they are given, encoders and parsers are inverse, and a frame is cut
    off at the same place however its bytes arrive.
  \<^item> Tables: the hash table is a multiset; the identifier table of a client finds every entry after any number of
    insertions and backward-shift deletions; the pools hand out distinct indices; the queues are first in, first out.
  \<^item> Trie: it stands for a map from filters and slots to generations; the operations change it at one point, and matching
    reaches exactly the filters that match segment by segment.  That is the rule of MQTT for topics that neither begin with
    a dollar sign nor end in a slash, and for levels of at most 64 bytes; theory \<open>Trie_Match\<close> shows the differences.
  \<^item> Messages: \<open>writev\<close> entries are the encodings of the queued segments, partial writes lose and repeat nothing, and
    every reference a client held is given back when it disconnects.  A publication is queued
    once for each live subscriber of a matching filter, and its reference count is the number of queues that took it.
  \<^item> Connections: the slot array, free list, counters and descriptor map agree in every state the event loop reaches;
    packets before CONNECT, but for acknowledgements, close the connection; the receive loop ends.  A new owner of a slot inherits no subscription, and the
    queues and in-flight tables of all slots in use stay well formed; every completion is handled to its end.
  \<^item> Start-up: every path that fails gives back its mappings and descriptors, unless a mapping fails unnoticed, and a run
    that ends gives back all mappings, the rings and the listening socket, whatever the clients do.
  The code does not do what it means to in a number of places; the theorems state what it does, and the cases are named in
  the text above them.

  \<^bold>\<open>Fuel.\<close>  Loops with a measure are recursive functions with a termination proof.  The others take fuel: \<open>recv_loop\<close>
  the length of the receive window (a round that goes on consumes a byte; theory \<open>Conn_Loop\<close> proves it enough against the
  loop without fuel); \<open>drain_cqes\<close> the number of completions that are visible (it takes one a round); \<open>hashmap_round_up\<close>
  30 doublings, two more than make the u32 wrap to 0, where the loop of the source never ends; a probe the number of cells of its table;
  \<open>broker_loop\<close> any number of iterations, over which the theorems quantify.

  \<^bold>\<open>Not modelled.\<close>  The assembly of \<^verbatim>\<open>sys/syscall.h\<close> (what the kernel answers is a parameter) and of \<^verbatim>\<open>_start\<close>; the
  calls of the logger in the other files and the statistics \<^verbatim>\<open>main\<close> prints at the end, which change no state of the
  broker; the text of the help option; the unit tests.  Loops of the kernel's side of the rings are not code of the
  repository.  The descriptors of accepted connections are numbers the kernel reports; which of them are open is not part
  of the process, and the program does not close them at its exit.  Memory is modelled per object, so that aliasing exists only where the program shares an object by index:
  receive buffers and messages.
\<close>

end
